(* ===== verification/Prelude.thy ===== *)
theory Prelude
  imports Main "HOL-Library.Monad_Syntax" "HOL-Library.Product_Lexorder" "HOL-Library.Multiset"
begin

text \<open>
  Vocabulary shared by the components of the runtime: Rust's \<open>Result\<close> and \<open>Poll\<close>, the
  64-bit arithmetic of \<open>usize\<close> and \<open>u64\<close> counters (every supported target is 64-bit), and the
  \<open>Vec\<close>/\<open>VecDeque\<close> operations the sources use (\<open>position\<close>, \<open>remove\<close>, \<open>swap_remove\<close>).
  A Rust panic (a failed \<open>assert!\<close>, \<open>expect\<close> or index) is the value \<open>None\<close> of an operation that
  can panic; the operations that cannot are total functions.
\<close>

named_theorems inv_simps \<open>definitions of the components' invariants\<close>
named_theorems op_simps \<open>definitions of the components' operations\<close>

subsection \<open>Results, polls, handles\<close>

type_synonym ('e, 'a) result = "'e + 'a"
type_synonym 'a panics = "'a option"
type_synonym waker = nat
type_synonym address = nat

abbreviation (input) Ok :: "'a \<Rightarrow> ('e, 'a) result" where
  "Ok \<equiv> Inr"

abbreviation (input) Err :: "'e \<Rightarrow> ('e, 'a) result" where
  "Err \<equiv> Inl"

abbreviation (input) panic :: "'a panics" where
  "panic \<equiv> None"

datatype 'a poll = Ready 'a | Pending

fun is_ready :: "'a poll \<Rightarrow> bool" where
  "is_ready (Ready _) = True"
| "is_ready Pending = False"

subsection \<open>Machine arithmetic of 64-bit unsigned counters\<close>

definition u64_modulus :: nat where
  "u64_modulus = 2 ^ 64"

definition u64_max :: nat where
  "u64_max = u64_modulus - 1"

definition u32_max :: nat where
  "u32_max = 2 ^ 32 - 1"

definition wrapping_succ :: "nat \<Rightarrow> nat" where
  "wrapping_succ n = (n + 1) mod u64_modulus"

definition wrapping_pred :: "nat \<Rightarrow> nat" where
  "wrapping_pred n = (n + (u64_modulus - 1)) mod u64_modulus"

definition checked_add :: "nat \<Rightarrow> nat \<Rightarrow> nat option" where
  "checked_add a b = (if a + b < u64_modulus then Some (a + b) else None)"

definition saturating_add :: "nat \<Rightarrow> nat \<Rightarrow> nat" where
  "saturating_add a b = min (a + b) u64_max"

definition checked_sub :: "nat \<Rightarrow> nat \<Rightarrow> nat option" where
  "checked_sub a b = (if b \<le> a then Some (a - b) else None)"

lemma u64_modulus_pos [simp]: "0 < u64_modulus"
  by (simp add: u64_modulus_def)

lemma wrapping_succ_less [simp]: "wrapping_succ n < u64_modulus"
  by (simp add: wrapping_succ_def)

lemma wrapping_succ_mod [simp]: "wrapping_succ (n mod u64_modulus) = Suc n mod u64_modulus"
  by (simp add: wrapping_succ_def mod_Suc_eq)

lemma wrapping_pred_Suc [simp]: "wrapping_pred (Suc n mod u64_modulus) = n mod u64_modulus"
proof -
  have "wrapping_pred (Suc n mod u64_modulus) = (Suc n + (u64_modulus - 1)) mod u64_modulus"
    by (simp add: wrapping_pred_def mod_add_left_eq)
  also have "Suc n + (u64_modulus - 1) = n + u64_modulus" using u64_modulus_pos by linarith
  finally show ?thesis by simp
qed

lemma checked_sub_eq_Some [simp]: "checked_sub a b = Some c \<longleftrightarrow> b \<le> a \<and> c = a - b"
  by (auto simp: checked_sub_def)

lemma checked_sub_eq_None [simp]: "checked_sub a b = None \<longleftrightarrow> a < b"
  by (auto simp: checked_sub_def)

text \<open>Two identifiers handed out by a wrapping counter differ as long as fewer than
  \<open>2 ^ 64\<close> allocations separate them.\<close>

lemma mod_u64_inj:
  assumes "a < b" and "b < a + u64_modulus"
  shows "a mod u64_modulus \<noteq> b mod u64_modulus"
proof
  assume "a mod u64_modulus = b mod u64_modulus"
  then have "u64_modulus dvd b - a"
    using assms(1) by (metis mod_eq_dvd_iff_nat less_imp_le)
  then have "u64_modulus \<le> b - a"
    using assms(1) by (intro dvd_imp_le) auto
  then show False using assms by simp
qed

subsection \<open>Vectors and double-ended queues\<close>

text \<open>\<open>iter().position(p)\<close>: the index of the first element satisfying \<open>p\<close>.\<close>

fun position :: "('a \<Rightarrow> bool) \<Rightarrow> 'a list \<Rightarrow> nat option" where
  "position p [] = None"
| "position p (x # xs) = (if p x then Some 0 else map_option Suc (position p xs))"

text \<open>\<open>VecDeque::remove(i)\<close> keeps the order of the other elements;
  \<open>Vec::swap_remove(i)\<close> moves the last element into the hole.\<close>

definition remove_at :: "nat \<Rightarrow> 'a list \<Rightarrow> 'a list" where
  "remove_at i xs = take i xs @ drop (Suc i) xs"

definition swap_remove :: "nat \<Rightarrow> 'a list \<Rightarrow> 'a list" where
  "swap_remove i xs = butlast (xs[i := last xs])"

lemma position_SomeD:
  "position p xs = Some i \<Longrightarrow> i < length xs \<and> p (xs ! i) \<and> (\<forall>j < i. \<not> p (xs ! j))"
proof (induction xs arbitrary: i)
  case Nil
  then show ?case by simp
next
  case (Cons x xs)
  show ?case
  proof (cases "p x")
    case True
    with Cons.prems show ?thesis by simp
  next
    case False
    with Cons.prems obtain k where k: "position p xs = Some k" "i = Suc k" by auto
    with Cons.IH[OF k(1)] False show ?thesis
      by (auto simp: nth_Cons split: nat.splits)
  qed
qed

lemma position_None_iff: "position p xs = None \<longleftrightarrow> (\<forall>x \<in> set xs. \<not> p x)"
  by (induction xs) auto

lemma length_swap_remove [simp]: "length (swap_remove i xs) = length xs - 1"
  by (simp add: swap_remove_def)

lemma length_remove_at: "i < length xs \<Longrightarrow> length (remove_at i xs) = length xs - 1"
  by (simp add: remove_at_def)

lemma mset_remove_at:
  assumes "i < length xs"
  shows "mset (remove_at i xs) = mset xs - {#xs ! i#}"
proof -
  have "mset xs = mset (take i xs @ xs ! i # drop (Suc i) xs)"
    using assms by (simp add: id_take_nth_drop [symmetric])
  then show ?thesis by (simp add: remove_at_def)
qed

lemma set_remove_at_subset: "set (remove_at i xs) \<subseteq> set xs"
  by (auto simp: remove_at_def dest: in_set_takeD in_set_dropD)

lemma swap_remove_snoc:
  "i \<le> length ys \<Longrightarrow> swap_remove i (ys @ [y]) = (if i = length ys then ys else ys[i := y])"
  by (auto simp: swap_remove_def list_update_append)

lemma mset_swap_remove:
  assumes "i < length xs"
  shows "mset (swap_remove i xs) = mset xs - {#xs ! i#}"
proof (cases xs rule: rev_cases)
  case Nil
  with assms show ?thesis by simp
next
  case (snoc ys y)
  with assms show ?thesis
    by (auto simp: swap_remove_snoc mset_update nth_append)
qed

lemma set_swap_remove_subset: "i < length xs \<Longrightarrow> set (swap_remove i xs) \<subseteq> set xs"
  by (metis mset_swap_remove in_diffD set_mset_mset subsetI)

text \<open>Removing the first element that satisfies a predicate, in either style. When at most one
  element satisfies it, the \<open>VecDeque\<close> form is a filter.\<close>

definition remove_first :: "('a \<Rightarrow> bool) \<Rightarrow> 'a list \<Rightarrow> 'a list" where
  "remove_first p xs = (case position p xs of None \<Rightarrow> xs | Some i \<Rightarrow> remove_at i xs)"

lemma remove_first_Nil [simp]: "remove_first p [] = []"
  by (simp add: remove_first_def)

lemma remove_first_Cons [simp]:
  "remove_first p (x # xs) = (if p x then xs else x # remove_first p xs)"
  by (cases "position p xs") (simp_all add: remove_first_def remove_at_def)

lemma remove_first_id: "\<forall>x \<in> set xs. \<not> p x \<Longrightarrow> remove_first p xs = xs"
  by (induction xs) auto

lemma remove_first_filter:
  "distinct (map f xs) \<Longrightarrow> remove_first (\<lambda>x. f x = a) xs = filter (\<lambda>x. f x \<noteq> a) xs"
proof (induction xs)
  case Nil
  then show ?case by simp
next
  case (Cons x xs)
  then have "\<forall>y \<in> set xs. f y \<noteq> f x" by (metis distinct.simps(2) imageI list.map(2) list.set_map)
  then have "f x = a \<Longrightarrow> filter (\<lambda>y. f y \<noteq> a) xs = xs"
    by (simp add: filter_id_conv)
  with Cons show ?case by auto
qed

lemma set_remove_first_subset: "set (remove_first p xs) \<subseteq> set xs"
  by (induction xs) auto

text \<open>\<open>swap_remove\<close> of the element with a given key, and of an element behind a kept prefix.\<close>

lemma mset_swap_remove_key:
  assumes "distinct (map f xs)" and "position (\<lambda>x. f x = a) xs = Some k"
  shows "mset (swap_remove k xs) = filter_mset (\<lambda>x. f x \<noteq> a) (mset xs)"
proof -
  from position_SomeD [OF assms(2)] have k: "k < length xs" "f (xs ! k) = a" by auto
  have split: "mset xs = add_mset (xs ! k) (mset (swap_remove k xs))"
    using mset_swap_remove [OF k(1)] nth_mem [OF k(1)] by simp
  then have "mset (map f xs) = mset (a # map f (swap_remove k xs))"
    using k(2) by simp
  then have "distinct (a # map f (swap_remove k xs))"
    using assms(1) mset_eq_imp_distinct_iff by blast
  then have "\<forall>x \<in> set (swap_remove k xs). f x \<noteq> a" by auto
  then have "filter_mset (\<lambda>x. f x \<noteq> a) (mset xs) = mset (swap_remove k xs)"
    unfolding split using k(2) by (simp add: filter_mset_eq_conv)
  then show ?thesis by simp
qed

lemma take_swap_remove:
  assumes "k < length xs"
  shows "take k (swap_remove k xs) = take k xs"
proof (cases xs rule: rev_cases)
  case (snoc ys y)
  with assms show ?thesis by (simp add: swap_remove_snoc)
qed (use assms in simp)

lemma distinct_map_eqD: "distinct (map f xs) \<Longrightarrow> x \<in> set xs \<Longrightarrow> y \<in> set xs \<Longrightarrow> f x = f y \<Longrightarrow> x = y"
  by (auto simp: distinct_map inj_on_def)

lemma distinct_map_mset_filter:
  assumes "mset ys = filter_mset P (mset xs)" and "distinct (map f xs)"
  shows "distinct (map f ys)" "set ys = {x \<in> set xs. P x}"
proof -
  have m: "mset ys = mset (filter P xs)" using assms(1) by simp
  then have "mset (map f ys) = mset (map f (filter P xs))" by simp
  then have "distinct (map f ys) = distinct (map f (filter P xs))" by (rule mset_eq_imp_distinct_iff)
  then show "distinct (map f ys)" using assms(2) by (simp add: distinct_map_filter)
  show "set ys = {x \<in> set xs. P x}" using mset_eq_setD [OF m] by simp
qed

end
