(* ===== verification/Timer_Spec.thy ===== *)
theory Timer_Spec
  imports Prelude
begin

text \<open>
  What the scheduler relies on when it arms, cancels and dispatches timers: a finite map from
  timer ids to timers, whose due entries are taken out together in \<open>(deadline, id)\<close> order and
  whose earliest deadline can be read. No operation of a timer queue panics on a queue its own
  operations built. The lemmas of the locale are the facts about cancellation and expiry that
  hold for every such queue.
\<close>

definition not_due :: "('n \<Rightarrow> nat) \<Rightarrow> nat \<Rightarrow> (nat \<rightharpoonup> 'n) \<Rightarrow> (nat \<rightharpoonup> 'n)" where
  "not_due due_at now m i =
     (case m i of None \<Rightarrow> None | Some n \<Rightarrow> if due_at n \<le> now then None else Some n)"

lemma not_due_Some [simp]:
  "not_due d now m i = Some n \<longleftrightarrow> m i = Some n \<and> now < d n"
  by (auto simp: not_due_def split: option.splits if_splits)

lemma ran_not_due: "ran (not_due d now m) = {n \<in> ran m. now < d n}"
  by (auto simp: ran_def)

lemma sorted_wrt_less_unique:
  fixes f :: "'n \<Rightarrow> 'k::linorder"
  assumes "sorted_wrt (<) (map f xs)" and "sorted_wrt (<) (map f ys)" and "set xs = set ys"
  shows "xs = ys"
proof -
  have "set (map f ys) = set (map f xs)" using assms(3) by simp
  with assms(1,2) have eq: "map f ys = map f xs" by (rule strict_sorted_equal)
  have "inj_on f (set xs \<union> set ys)"
    using assms(1,3) by (metis Un_absorb distinct_map strict_sorted_iff)
  with eq [symmetric] show ?thesis by (rule map_inj_on)
qed

locale timer_queue =
  fixes invar :: "'q \<Rightarrow> bool"
    and abs :: "'q \<Rightarrow> nat \<rightharpoonup> 'n"
    and empty :: 'q
    and insert :: "'q \<Rightarrow> 'n \<Rightarrow> 'q panics"
    and remove :: "'q \<Rightarrow> nat \<Rightarrow> ('q \<times> 'n option) panics"
    and pop_due :: "'q \<Rightarrow> nat \<Rightarrow> ('q \<times> 'n list) panics"
    and peek :: "'q \<Rightarrow> nat option"
    and id_of :: "'n \<Rightarrow> nat"
    and due_at :: "'n \<Rightarrow> nat"
  assumes invar_empty: "invar empty"
    and abs_empty: "abs empty = Map.empty"
    and finite_abs: "invar q \<Longrightarrow> finite (ran (abs q))"
    and abs_id: "invar q \<Longrightarrow> abs q i = Some n \<Longrightarrow> id_of n = i"
    and insert_spec: "invar q \<Longrightarrow> abs q (id_of n) = None \<Longrightarrow>
      \<exists>q'. insert q n = Some q' \<and> invar q' \<and> abs q' = (abs q)(id_of n \<mapsto> n)"
    and remove_spec: "invar q \<Longrightarrow>
      \<exists>q'. remove q i = Some (q', abs q i) \<and> invar q' \<and> abs q' = (abs q)(i := None)"
    and pop_due_spec: "invar q \<Longrightarrow>
      \<exists>q' due. pop_due q now = Some (q', due) \<and> invar q' \<and>
        sorted_wrt (<) (map (\<lambda>n. (due_at n, id_of n)) due) \<and>
        set due = {n \<in> ran (abs q). due_at n \<le> now} \<and> abs q' = not_due due_at now (abs q)"
    and peek_spec: "invar q \<Longrightarrow>
      peek q = (if ran (abs q) = {} then None else Some (Min (due_at ` ran (abs q))))"
begin

text \<open>A cancelled timer is never dispatched, whenever the queue is expired afterwards.\<close>

lemma removed_never_due:
  assumes "invar q" and "remove q i = Some (q', r)" and "pop_due q' now = Some (q'', due)"
  shows "i \<notin> id_of ` set due"
proof -
  have q': "invar q'" "abs q' = (abs q)(i := None)"
    using remove_spec [OF assms(1), of i] assms(2) by auto
  have "set due = {n \<in> ran (abs q'). due_at n \<le> now}"
    using pop_due_spec [OF q'(1), of now] assms(3) by auto
  moreover have "id_of n \<noteq> i" if n: "n \<in> ran (abs q')" for n
  proof -
    obtain j where j: "abs q' j = Some n" using n by (auto simp: ran_def)
    then have "j \<noteq> i" by (auto simp: q'(2))
    then show ?thesis using abs_id [OF q'(1) j] by simp
  qed
  ultimately show ?thesis by auto
qed

text \<open>An armed timer is dispatched by the first expiry at or after its deadline.\<close>

lemma inserted_due:
  assumes "invar q" and "abs q (id_of n) = None" and "insert q n = Some q'"
    and "due_at n \<le> now" and "pop_due q' now = Some (q'', due)"
  shows "n \<in> set due"
proof -
  have q': "invar q'" "abs q' = (abs q)(id_of n \<mapsto> n)"
    using insert_spec [OF assms(1,2)] assms(3) by auto
  then show ?thesis
    using pop_due_spec [OF q'(1), of now] assms(4,5) by (auto simp: ran_def)
qed

text \<open>After an expiry nothing due is left: the deadline to arm next lies in the future.\<close>

lemma peek_after_pop_due:
  assumes "invar q" and "pop_due q now = Some (q', due)" and "peek q' = Some d"
  shows "now < d"
proof -
  have q': "invar q'" "abs q' = not_due due_at now (abs q)"
    using pop_due_spec [OF assms(1), of now] assms(2) by auto
  with assms(3) have ne: "ran (abs q') \<noteq> {}" and d: "d = Min (due_at ` ran (abs q'))"
    by (auto simp: peek_spec split: if_splits)
  have "d \<in> due_at ` ran (abs q')"
    unfolding d by (rule Min_in) (use ne finite_abs [OF q'(1)] in auto)
  then show ?thesis by (auto simp: q'(2) ran_not_due)
qed

end

end
