(* ===== verification/Timer_Heap.thy ===== *)
theory Timer_Heap
  imports Timer_Spec
begin

text \<open>
  The timer heap of \<open>src/platform/runtime_shared/timer.rs\<close>: a binary min-heap on
  \<open>(deadline, id)\<close> stored in a vector, with a side table from timer ids to heap indices for
  random removal. Every vector access is bounds-checked as in Rust, so an operation is \<open>None\<close>
  where the source would panic. The lemmas show that the heap order and the side table stay
  consistent, that no operation panics on a consistent heap, and that the heap implements a
  finite map from ids to timers whose due entries come out in \<open>(deadline, id)\<close> order
  (locale \<open>timer_queue\<close>, which the scheduler relies on).
\<close>

subsection \<open>Data\<close>

datatype 'c timer_kind = Timeout 'c | Interval

record 'c timer_node =
  node_id :: nat
  deadline :: nat
  kind :: "'c timer_kind"

record 'c timer_heap =
  nodes :: "'c timer_node list"
  positions :: "nat \<rightharpoonup> nat"

definition timeout_node :: "nat \<Rightarrow> nat \<Rightarrow> 'c \<Rightarrow> 'c timer_node" where
  "timeout_node i d c = \<lparr>node_id = i, deadline = d, kind = Timeout c\<rparr>"

definition interval_node :: "nat \<Rightarrow> nat \<Rightarrow> 'c timer_node" where
  "interval_node i d = \<lparr>node_id = i, deadline = d, kind = Interval\<rparr>"

definition key :: "'c timer_node \<Rightarrow> nat \<times> nat" where
  "key n = (deadline n, node_id n)"

definition heap_new :: "'c timer_heap" where
  "heap_new = \<lparr>nodes = [], positions = Map.empty\<rparr>"

definition heap_is_empty :: "'c timer_heap \<Rightarrow> bool" where
  "heap_is_empty h \<longleftrightarrow> nodes h = []"

definition heap_len :: "'c timer_heap \<Rightarrow> nat" where
  "heap_len h = length (nodes h)"

definition peek_deadline :: "'c timer_heap \<Rightarrow> nat option" where
  "peek_deadline h = (case nodes h of [] \<Rightarrow> None | n # _ \<Rightarrow> Some (deadline n))"

subsection \<open>Operations\<close>

definition parent :: "nat \<Rightarrow> nat" where
  "parent i = (i - 1) div 2"

definition heap_less :: "'c timer_heap \<Rightarrow> nat \<Rightarrow> nat \<Rightarrow> bool panics" where
  "heap_less h lhs rhs =
     (if lhs < length (nodes h) \<and> rhs < length (nodes h)
      then Some (key (nodes h ! lhs) < key (nodes h ! rhs)) else panic)"

definition heap_swap :: "'c timer_heap \<Rightarrow> nat \<Rightarrow> nat \<Rightarrow> 'c timer_heap panics" where
  "heap_swap h lhs rhs =
     (if lhs < length (nodes h) \<and> rhs < length (nodes h)
      then let ns = (nodes h)[lhs := nodes h ! rhs, rhs := nodes h ! lhs]
           in Some (h\<lparr>nodes := ns,
                positions := (positions h)(node_id (ns ! lhs) \<mapsto> lhs, node_id (ns ! rhs) \<mapsto> rhs)\<rparr>)
      else panic)"

lemma heap_swap_length:
  "heap_swap h l r = Some h' \<Longrightarrow> length (nodes h') = length (nodes h)"
  by (auto simp: heap_swap_def Let_def split: if_splits)

lemma heap_less_bounds:
  "heap_less h l r = Some b \<Longrightarrow> l < length (nodes h) \<and> r < length (nodes h)"
  by (auto simp: heap_less_def split: if_splits)

lemma parent_less: "0 < i \<Longrightarrow> parent i < i"
  by (simp add: parent_def)

function sift_up :: "'c timer_heap \<Rightarrow> nat \<Rightarrow> 'c timer_heap panics" where
  "sift_up h i =
     (if i = 0 then Some h
      else do {
        smaller \<leftarrow> heap_less h i (parent i);
        if \<not> smaller then Some h
        else do { h' \<leftarrow> heap_swap h i (parent i); sift_up h' (parent i) }
      })"
  by pat_completeness auto
termination
  by (relation "measure snd") (auto simp: parent_less)

definition smaller_child :: "'c timer_heap \<Rightarrow> nat \<Rightarrow> nat \<Rightarrow> nat panics" where
  "smaller_child h c smallest =
     (if c < length (nodes h)
      then do { l \<leftarrow> heap_less h c smallest; Some (if l then c else smallest) }
      else Some smallest)"

lemma smaller_child_cases:
  "smaller_child h c s = Some s' \<Longrightarrow> s' = s \<or> s' = c \<and> c < length (nodes h)"
  by (auto simp: smaller_child_def bind_eq_Some_conv split: if_splits)

function sift_down :: "'c timer_heap \<Rightarrow> nat \<Rightarrow> 'c timer_heap panics" where
  "sift_down h i =
     do {
       s1 \<leftarrow> smaller_child h (i * 2 + 1) i;
       s2 \<leftarrow> smaller_child h (i * 2 + 1 + 1) s1;
       if s2 = i then Some h
       else do { h' \<leftarrow> heap_swap h i s2; sift_down h' s2 }
     }"
  by pat_completeness auto
termination
proof (relation "measure (\<lambda>(h, i). length (nodes h) - i)")
  show "wf (measure (\<lambda>(h :: 'c timer_heap, i). length (nodes h) - i))" by simp
next
  fix h :: "'c timer_heap" and i s1 s2 h'
  assume "smaller_child h (i * 2 + 1) i = Some s1" "smaller_child h (i * 2 + 1 + 1) s1 = Some s2"
    "s2 \<noteq> i" "heap_swap h i s2 = Some h'"
  then show "((h', s2), (h, i)) \<in> measure (\<lambda>(h, i). length (nodes h) - i)"
    by (auto dest!: smaller_child_cases heap_swap_length)
qed

declare sift_up.simps [simp del] sift_down.simps [simp del]

definition heap_fix :: "'c timer_heap \<Rightarrow> nat \<Rightarrow> 'c timer_heap panics" where
  "heap_fix h i =
     (if i = 0 then sift_down h i
      else do {
        up \<leftarrow> heap_less h i (parent i);
        if up then sift_up h i else sift_down h i
      })"

definition heap_insert :: "'c timer_heap \<Rightarrow> 'c timer_node \<Rightarrow> 'c timer_heap panics" where
  "heap_insert h node =
     (let index = length (nodes h)
      in sift_up (h\<lparr>positions := (positions h)(node_id node \<mapsto> index),
                    nodes := nodes h @ [node]\<rparr>) index)"

definition heap_remove ::
  "'c timer_heap \<Rightarrow> nat \<Rightarrow> ('c timer_heap \<times> 'c timer_node option) panics" where
  "heap_remove h i =
     (case positions h i of
        None \<Rightarrow> Some (h, None)
      | Some index \<Rightarrow>
          let pos = (positions h)(i := None) in
          if nodes h = [] then panic
          else let final = last (nodes h); ns = butlast (nodes h) in
            if index = length ns then Some (\<lparr>nodes = ns, positions = pos\<rparr>, Some final)
            else if index < length ns
            then do {
              h' \<leftarrow> heap_fix \<lparr>nodes = ns[index := final],
                              positions = pos(node_id final \<mapsto> index)\<rparr> index;
              Some (h', Some (ns ! index))
            }
            else panic)"

definition pop_min :: "'c timer_heap \<Rightarrow> ('c timer_heap \<times> 'c timer_node option) panics" where
  "pop_min h = (case nodes h of [] \<Rightarrow> Some (h, None) | n # _ \<Rightarrow> heap_remove h (node_id n))"

lemma sift_up_length: "sift_up h i = Some h' \<Longrightarrow> length (nodes h') = length (nodes h)"
proof (induction h i arbitrary: h' rule: sift_up.induct)
  case (1 h i)
  then show ?case
    by (subst (asm) (2) sift_up.simps)
      (auto simp: bind_eq_Some_conv heap_swap_length split: if_splits)
qed

lemma sift_down_length: "sift_down h i = Some h' \<Longrightarrow> length (nodes h') = length (nodes h)"
proof (induction h i arbitrary: h' rule: sift_down.induct)
  case (1 h i)
  then show ?case
    by (subst (asm) (2) sift_down.simps)
      (auto simp: bind_eq_Some_conv heap_swap_length split: if_splits)
qed

lemma heap_fix_length: "heap_fix h i = Some h' \<Longrightarrow> length (nodes h') = length (nodes h)"
  by (auto simp: heap_fix_def bind_eq_Some_conv sift_up_length sift_down_length split: if_splits)

lemma heap_remove_length:
  "heap_remove h i = Some (h', Some n) \<Longrightarrow> Suc (length (nodes h')) = length (nodes h)"
  by (cases "nodes h" rule: rev_cases)
    (auto simp: heap_remove_def Let_def bind_eq_Some_conv dest!: heap_fix_length
      split: option.splits if_splits)

lemma pop_min_length:
  "pop_min h = Some (h', Some n) \<Longrightarrow> Suc (length (nodes h')) = length (nodes h)"
  by (auto simp: pop_min_def dest: heap_remove_length split: list.splits)

function pop_due :: "'c timer_heap \<Rightarrow> nat \<Rightarrow> ('c timer_heap \<times> 'c timer_node list) panics" where
  "pop_due h now =
     (case peek_deadline h of
        None \<Rightarrow> Some (h, [])
      | Some d \<Rightarrow>
          if d \<le> now
          then do {
            popped \<leftarrow> pop_min h;
            (case popped of
               (h', None) \<Rightarrow> panic
             | (h', Some n) \<Rightarrow> do { (h'', due) \<leftarrow> pop_due h' now; Some (h'', n # due) })
          }
          else Some (h, []))"
  by pat_completeness auto
termination
  by (relation "measure (\<lambda>(h, now). length (nodes h))") (auto dest: pop_min_length)

declare pop_due.simps [simp del]


subsection \<open>Heap order on index functions\<close>

text \<open>Order facts about an array of keys \<open>k\<close> of length \<open>n\<close>: a heap, a heap except towards the
  parent of \<open>i\<close> (while sifting up), a heap except towards the children of \<open>i\<close> (sifting down).\<close>

definition heap_order :: "(nat \<Rightarrow> 'a::linorder) \<Rightarrow> nat \<Rightarrow> bool" where
  "heap_order k n \<longleftrightarrow> (\<forall>j. 0 < j \<and> j < n \<longrightarrow> k (parent j) \<le> k j)"

definition grand_order :: "(nat \<Rightarrow> 'a::linorder) \<Rightarrow> nat \<Rightarrow> nat \<Rightarrow> bool" where
  "grand_order k n i \<longleftrightarrow>
     (\<forall>j. 0 < j \<and> j < n \<and> parent j = i \<and> 0 < i \<longrightarrow> k (parent i) \<le> k j)"

definition order_except_up :: "(nat \<Rightarrow> 'a::linorder) \<Rightarrow> nat \<Rightarrow> nat \<Rightarrow> bool" where
  "order_except_up k n i \<longleftrightarrow>
     (\<forall>j. 0 < j \<and> j < n \<and> j \<noteq> i \<longrightarrow> k (parent j) \<le> k j) \<and> grand_order k n i"

definition order_except_down :: "(nat \<Rightarrow> 'a::linorder) \<Rightarrow> nat \<Rightarrow> nat \<Rightarrow> bool" where
  "order_except_down k n i \<longleftrightarrow>
     (\<forall>j. 0 < j \<and> j < n \<and> parent j \<noteq> i \<longrightarrow> k (parent j) \<le> k j) \<and> grand_order k n i"

lemmas order_defs = heap_order_def grand_order_def order_except_up_def order_except_down_def

lemma parent_lt_trans: "0 < j \<Longrightarrow> j < n \<Longrightarrow> parent j < n"
  using parent_less [of j] by simp

lemma parent_eq_iff: "0 < j \<Longrightarrow> parent j = i \<longleftrightarrow> j = i * 2 + 1 \<or> j = i * 2 + 1 + 1"
  by (auto simp: parent_def)

lemma order_cong:
  assumes "\<And>j. j < n \<Longrightarrow> k j = k' j"
  shows "heap_order k n = heap_order k' n"
    and "i < n \<Longrightarrow> order_except_up k n i = order_except_up k' n i"
    and "i < n \<Longrightarrow> order_except_down k n i = order_except_down k' n i"
  using assms by (auto simp: order_defs parent_lt_trans)

lemma order_up_step:
  assumes "order_except_up k n i" and "0 < i" and "i < n" and "k i < k (parent i)"
  shows "order_except_up (k(i := k (parent i), parent i := k i)) n (parent i)"
proof -
  define p where "p = parent i"
  have p: "p < i" using assms(2) by (simp add: p_def parent_less)
  have ord: "\<And>j. 0 < j \<Longrightarrow> j < n \<Longrightarrow> j \<noteq> i \<Longrightarrow> k (parent j) \<le> k j"
    and grand: "\<And>j. 0 < j \<Longrightarrow> j < n \<Longrightarrow> parent j = i \<Longrightarrow> k p \<le> k j"
    using assms by (auto simp: order_defs p_def)
  have lt: "\<And>j. 0 < j \<Longrightarrow> parent j < j" by (rule parent_less)
  have pi: "parent i = p" and kp: "k i < k p" using assms(4) by (simp_all add: p_def)
  have "(k(i := k p, p := k i)) (parent j) \<le> (k(i := k p, p := k i)) j"
    if j: "0 < j" "j < n" "j \<noteq> p" for j
  proof (cases "j = i")
    case True
    then show ?thesis using pi kp p by simp
  next
    case False
    note o = ord [OF j(1,2) False]
    consider "parent j = p" | "parent j = i" | "parent j \<noteq> p" "parent j \<noteq> i" by blast
    then show ?thesis
    proof cases
      case 1
      then show ?thesis using o kp j False by simp
    next
      case 2
      then show ?thesis using grand [OF j(1,2) 2] j False p by simp
    next
      case 3
      then show ?thesis using o j False by simp
    qed
  qed
  moreover have "(k(i := k p, p := k i)) (parent p) \<le> (k(i := k p, p := k i)) j"
    if "0 < j" "j < n" "parent j = p" "0 < p" for j
    using that ord [of p] ord [of j] lt [of p] lt [of j] p assms(3) by auto
  ultimately show ?thesis
    unfolding p_def [symmetric] by (auto simp: order_except_up_def grand_order_def)
qed

lemma order_up_done:
  "order_except_up k n i \<Longrightarrow> i = 0 \<or> \<not> k i < k (parent i) \<Longrightarrow> heap_order k n"
  by (auto simp: order_defs not_less)

lemma order_down_step:
  assumes "order_except_down k n i" and "i < n" and "c < n" and "0 < c" and "parent c = i"
    and "k c < k i" and least: "\<And>j. 0 < j \<Longrightarrow> j < n \<Longrightarrow> parent j = i \<Longrightarrow> k c \<le> k j"
  shows "order_except_down (k(i := k c, c := k i)) n c"
proof -
  have ic: "i < c" using assms(4,5) parent_less by blast
  have ord: "\<And>j. 0 < j \<Longrightarrow> j < n \<Longrightarrow> parent j \<noteq> i \<Longrightarrow> k (parent j) \<le> k j"
    and grand: "\<And>j. 0 < j \<Longrightarrow> j < n \<Longrightarrow> parent j = i \<Longrightarrow> 0 < i \<Longrightarrow> k (parent i) \<le> k j"
    using assms(1) by (auto simp: order_defs)
  have lt: "\<And>j. 0 < j \<Longrightarrow> parent j < j" by (rule parent_less)
  have "(k(i := k c, c := k i)) (parent j) \<le> (k(i := k c, c := k i)) j"
    if "0 < j" "j < n" "parent j \<noteq> c" for j
    using that ord [of j] grand [of c] least [of j] lt [of j] lt [of i] ic assms(3-6)
    by (auto simp: less_imp_le)
  moreover have "(k(i := k c, c := k i)) (parent c) \<le> (k(i := k c, c := k i)) j"
    if "0 < j" "j < n" "parent j = c" for j
    using that ord [of j] lt [of j] ic assms(5) by auto
  ultimately show ?thesis by (auto simp: order_except_down_def grand_order_def)
qed

lemma order_down_done:
  "order_except_down k n i \<Longrightarrow> (\<And>j. 0 < j \<Longrightarrow> j < n \<Longrightarrow> parent j = i \<Longrightarrow> k i \<le> k j) \<Longrightarrow>
   heap_order k n"
  by (auto simp: order_defs)

text \<open>Overwriting one key of a heap leaves it ordered except at that index.\<close>

lemma order_update:
  assumes "heap_order k n" and "i < n"
  shows "0 < i \<Longrightarrow> x < k (parent i) \<Longrightarrow> order_except_up (k(i := x)) n i"
    and "i = 0 \<or> \<not> x < k (parent i) \<Longrightarrow> order_except_down (k(i := x)) n i"
proof -
  have ord: "\<And>j. 0 < j \<Longrightarrow> j < n \<Longrightarrow> k (parent j) \<le> k j"
    using assms by (auto simp: heap_order_def)
  have lt: "\<And>j. 0 < j \<Longrightarrow> parent j < j" by (rule parent_less)
  have grand: "k (parent i) \<le> k j" if "0 < j" "j < n" "parent j = i" "0 < i" for j
    using ord [of j] ord [of i] that assms(2) by auto
  show "order_except_up (k(i := x)) n i" if "0 < i" "x < k (parent i)"
    using that ord grand lt [of i]
    by (auto simp: order_except_up_def grand_order_def) (metis order.strict_implies_order order_trans lt less_irrefl)+
  show "order_except_down (k(i := x)) n i" if "i = 0 \<or> \<not> x < k (parent i)"
    using that ord grand lt [of i]
    by (auto simp: order_except_down_def grand_order_def not_less)
qed

lemma heap_order_snoc:
  assumes "heap_order k n"
  shows "order_except_up k (Suc n) n"
proof -
  have "parent j \<noteq> n" if "0 < j" "j < Suc n" for j
    using parent_less [of j] that by simp
  with assms show ?thesis by (auto simp: order_defs less_Suc_eq)
qed

lemma heap_order_root: "heap_order k n \<Longrightarrow> i < n \<Longrightarrow> k 0 \<le> k i"
proof (induction i rule: less_induct)
  case (less i)
  show ?case
  proof (cases "i = 0")
    case False
    then have "k 0 \<le> k (parent i)"
      using less parent_less [of i] by (intro less.IH) auto
    with False less.prems show ?thesis
      by (fastforce simp: heap_order_def intro: order_trans)
  qed simp
qed


subsection \<open>Invariant\<close>

definition index_ok :: "'c timer_heap \<Rightarrow> bool" where
  "index_ok h \<longleftrightarrow>
     distinct (map node_id (nodes h)) \<and>
     (\<forall>i j. positions h i = Some j \<longleftrightarrow> j < length (nodes h) \<and> node_id (nodes h ! j) = i)"

definition heap_inv :: "'c timer_heap \<Rightarrow> bool" where
  "heap_inv h \<longleftrightarrow> index_ok h \<and> heap_order (\<lambda>j. key (nodes h ! j)) (length (nodes h))"

lemma index_ok_inj:
  "index_ok h \<Longrightarrow> i < length (nodes h) \<Longrightarrow> j < length (nodes h) \<Longrightarrow>
   node_id (nodes h ! i) = node_id (nodes h ! j) \<longleftrightarrow> i = j"
  by (auto simp: index_ok_def distinct_conv_nth)

lemma heap_swap_ok:
  assumes "index_ok h" and "l < length (nodes h)" and "r < length (nodes h)" and "l \<noteq> r"
  obtains h' where "heap_swap h l r = Some h'" and "index_ok h'"
    and "mset (nodes h') = mset (nodes h)"
    and "nodes h' = (nodes h)[l := nodes h ! r, r := nodes h ! l]"
proof
  let ?ns = "(nodes h)[l := nodes h ! r, r := nodes h ! l]"
  let ?h = "h\<lparr>nodes := ?ns,
     positions := (positions h)(node_id (?ns ! l) \<mapsto> l, node_id (?ns ! r) \<mapsto> r)\<rparr>"
  show "heap_swap h l r = Some ?h"
    using assms(2,3) by (simp add: heap_swap_def Let_def)
  show perm: "mset (nodes ?h) = mset (nodes h)"
    using assms(2,3) by (simp add: mset_swap)
  have "mset (map node_id ?ns) = mset (map node_id (nodes h))"
    using assms(2,3) by (simp only: mset_map mset_swap)
  then have "distinct (map node_id ?ns)"
    using assms(1) mset_eq_imp_distinct_iff index_ok_def by blast
  moreover have "positions ?h i = Some j \<longleftrightarrow> j < length ?ns \<and> node_id (?ns ! j) = i" for i j
  proof -
    have ns: "?ns ! l = nodes h ! r" "?ns ! r = nodes h ! l"
      using assms(2-4) by simp_all
    have pos: "positions h i = Some j \<longleftrightarrow> j < length (nodes h) \<and> node_id (nodes h ! j) = i"
      using assms(1) by (simp add: index_ok_def)
    note inj = index_ok_inj [OF assms(1)]
    consider "j = l" | "j = r" | "j \<noteq> l" "j \<noteq> r" by blast
    then show ?thesis
      using ns pos assms(2-4) inj [of j l] inj [of j r] inj [of l r] by cases auto
  qed
  ultimately show "index_ok ?h" by (simp add: index_ok_def)
qed simp

abbreviation keys_of :: "'c timer_heap \<Rightarrow> nat \<Rightarrow> nat \<times> nat" where
  "keys_of h \<equiv> \<lambda>j. key (nodes h ! j)"

lemma keys_of_swap:
  assumes "nodes h' = (nodes h)[l := nodes h ! r, r := nodes h ! l]"
    and "l < length (nodes h)" and "r < length (nodes h)" and "j < length (nodes h)"
  shows "keys_of h' j = ((keys_of h)(l := keys_of h r, r := keys_of h l)) j"
  using assms by (simp add: nth_list_update)

lemma swap_order:
  assumes "nodes h' = (nodes h)[l := nodes h ! r, r := nodes h ! l]"
    and "l < length (nodes h)" and "r < length (nodes h)" and "i < length (nodes h)"
  shows "order_except_up ((keys_of h)(l := keys_of h r, r := keys_of h l)) (length (nodes h)) i
      \<Longrightarrow> order_except_up (keys_of h') (length (nodes h)) i"
    and "order_except_down ((keys_of h)(l := keys_of h r, r := keys_of h l)) (length (nodes h)) i
      \<Longrightarrow> order_except_down (keys_of h') (length (nodes h)) i"
  using order_cong(2,3) [of "length (nodes h)" "keys_of h'"] keys_of_swap [OF assms(1-3)] assms(4)
  by metis+

lemma sift_up_ok:
  assumes "index_ok h" and "i < length (nodes h)"
    and "order_except_up (keys_of h) (length (nodes h)) i"
  shows "\<exists>h'. sift_up h i = Some h' \<and> heap_inv h' \<and> mset (nodes h') = mset (nodes h)"
  using assms
proof (induction h i rule: sift_up.induct)
  case (1 h i)
  let ?n = "length (nodes h)" and ?p = "parent i"
  show ?case
  proof (cases "0 < i \<and> keys_of h i < keys_of h ?p")
    case False
    then have "heap_inv h"
      using 1 order_up_done [OF "1.prems"(3)] by (auto simp: heap_inv_def)
    with False "1.prems"(2) show ?thesis
      by (subst sift_up.simps) (auto simp: heap_less_def parent_lt_trans)
  next
    case True
    then have i: "0 < i" "?p < ?n" "i \<noteq> ?p" using "1.prems"(2) parent_less [of i] by auto
    obtain h' where h': "heap_swap h i ?p = Some h'" "index_ok h'"
      "mset (nodes h') = mset (nodes h)" "nodes h' = (nodes h)[i := nodes h ! ?p, ?p := nodes h ! i]"
      using heap_swap_ok [OF "1.prems"(1,2) i(2,3)] by metis
    have len: "length (nodes h') = ?n" using h'(4) by simp
    have "order_except_up (keys_of h') ?n ?p"
      using order_up_step [OF "1.prems"(3) i(1) "1.prems"(2)] True
      by (intro swap_order(1) [OF h'(4) "1.prems"(2) i(2) i(2)]) blast
    then obtain h'' where "sift_up h' ?p = Some h''" "heap_inv h''" "mset (nodes h'') = mset (nodes h)"
      using "1.IH" [of True h'] i True h' len "1.prems"(2) by (auto simp: heap_less_def)
    with True i h'(1) "1.prems"(2) show ?thesis
      by (subst sift_up.simps) (auto simp: heap_less_def)
  qed
qed

text \<open>The child selection of \<open>sift_down\<close>: it returns the index with the least key among \<open>i\<close> and
  its children.\<close>

lemma smallest_ok:
  assumes "i < length (nodes h)"
  shows "\<exists>s1 s2. smaller_child h (i * 2 + 1) i = Some s1 \<and> smaller_child h (i * 2 + 1 + 1) s1 = Some s2 \<and>
    s2 < length (nodes h) \<and> (s2 \<noteq> i \<longrightarrow> 0 < s2 \<and> parent s2 = i \<and> keys_of h s2 < keys_of h i) \<and>
    (\<forall>j. 0 < j \<and> j < length (nodes h) \<and> parent j = i \<longrightarrow> keys_of h s2 \<le> keys_of h j)"
proof -
  let ?l = "i * 2 + 1" and ?n = "length (nodes h)"
  define s1 where "s1 = (if ?l < ?n \<and> keys_of h ?l < keys_of h i then ?l else i)"
  define s2 where "s2 = (if ?l + 1 < ?n \<and> keys_of h (?l + 1) < keys_of h s1 then ?l + 1 else s1)"
  have "smaller_child h ?l i = Some s1" "smaller_child h (?l + 1) s1 = Some s2"
    using assms by (auto simp: smaller_child_def heap_less_def s1_def s2_def)
  moreover have "s2 < ?n" using assms by (auto simp: s1_def s2_def)
  moreover have "s2 \<noteq> i \<Longrightarrow> 0 < s2 \<and> parent s2 = i \<and> keys_of h s2 < keys_of h i"
    by (auto simp: s1_def s2_def parent_def split: if_splits)
  moreover have "keys_of h s2 \<le> keys_of h j" if "0 < j" "j < ?n" "parent j = i" for j
    using that parent_eq_iff [of j i] by (auto simp: s1_def s2_def not_less split: if_splits)
  ultimately show ?thesis by blast
qed

lemma sift_down_ok:
  assumes "index_ok h" and "i < length (nodes h)"
    and "order_except_down (keys_of h) (length (nodes h)) i"
  shows "\<exists>h'. sift_down h i = Some h' \<and> heap_inv h' \<and> mset (nodes h') = mset (nodes h)"
  using assms
proof (induction h i rule: sift_down.induct)
  case (1 h i)
  let ?n = "length (nodes h)"
  obtain s1 c where sc: "smaller_child h (i * 2 + 1) i = Some s1"
      "smaller_child h (i * 2 + 1 + 1) s1 = Some c"
    and c: "c < ?n" "c \<noteq> i \<Longrightarrow> 0 < c \<and> parent c = i \<and> keys_of h c < keys_of h i"
    and least: "\<And>j. 0 < j \<Longrightarrow> j < ?n \<Longrightarrow> parent j = i \<Longrightarrow> keys_of h c \<le> keys_of h j"
    using smallest_ok [OF "1.prems"(2)] by blast
  show ?case
  proof (cases "c = i")
    case True
    then have "heap_inv h"
      using 1 order_down_done [OF "1.prems"(3)] least by (auto simp: heap_inv_def)
    with True sc show ?thesis by (subst sift_down.simps) auto
  next
    case False
    with c have c': "0 < c" "parent c = i" "keys_of h c < keys_of h i" by auto
    obtain h' where h': "heap_swap h i c = Some h'" "index_ok h'"
      "mset (nodes h') = mset (nodes h)" "nodes h' = (nodes h)[i := nodes h ! c, c := nodes h ! i]"
      using heap_swap_ok [OF "1.prems"(1,2) c(1)] False by metis
    have len: "length (nodes h') = ?n" using h'(4) by simp
    have "order_except_down (keys_of h') ?n c"
      using order_down_step [OF "1.prems"(3,2) c(1) c' least]
      by (intro swap_order(2) [OF h'(4) "1.prems"(2) c(1) c(1)])
    then obtain h'' where "sift_down h' c = Some h''" "heap_inv h''" "mset (nodes h'') = mset (nodes h)"
      using "1.IH" [OF sc False h'(1) h'(2)] len c(1) h'(3) by auto
    with False sc h'(1) show ?thesis by (subst sift_down.simps) auto
  qed
qed

subsection \<open>Operations preserve the invariant\<close>

lemma heap_fix_ok:
  assumes "index_ok h" and "i < length (nodes h)" and "heap_order k (length (nodes h))"
    and "\<And>j. j < length (nodes h) \<Longrightarrow> j \<noteq> i \<Longrightarrow> keys_of h j = k j"
  shows "\<exists>h'. heap_fix h i = Some h' \<and> heap_inv h' \<and> mset (nodes h') = mset (nodes h)"
proof -
  let ?n = "length (nodes h)"
  have k: "keys_of h j = (k(i := keys_of h i)) j" if "j < ?n" for j
    using assms(4) that by auto
  have par: "0 < i \<Longrightarrow> parent i < ?n \<and> keys_of h (parent i) = k (parent i)"
    using assms(2,4) parent_less [of i] by auto
  show ?thesis
  proof (cases "0 < i \<and> keys_of h i < k (parent i)")
    case True
    then have "order_except_up (k(i := keys_of h i)) ?n i"
      using order_update(1) [OF assms(3,2)] by blast
    then have "order_except_up (keys_of h) ?n i"
      using order_cong(2) [of ?n "keys_of h"] k assms(2) by metis
    with True par show ?thesis
      using sift_up_ok [OF assms(1,2)] assms(2) by (auto simp: heap_fix_def heap_less_def)
  next
    case False
    then have "order_except_down (k(i := keys_of h i)) ?n i"
      using order_update(2) [OF assms(3,2), of "keys_of h i"] by auto
    then have "order_except_down (keys_of h) ?n i"
      using order_cong(3) [of ?n "keys_of h"] k assms(2) by metis
    with False par show ?thesis
      using sift_down_ok [OF assms(1,2)] assms(2) by (auto simp: heap_fix_def heap_less_def)
  qed
qed

lemma heap_inv_new: "heap_inv heap_new"
  by (simp add: heap_inv_def index_ok_def heap_new_def heap_order_def)

lemma heap_insert_ok:
  assumes "heap_inv h" and "node_id n \<notin> node_id ` set (nodes h)"
  shows "\<exists>h'. heap_insert h n = Some h' \<and> heap_inv h' \<and>
           mset (nodes h') = add_mset n (mset (nodes h))"
proof -
  let ?m = "length (nodes h)"
  let ?h = "h\<lparr>positions := (positions h)(node_id n \<mapsto> ?m), nodes := nodes h @ [n]\<rparr>"
  have "\<And>j. j < ?m \<Longrightarrow> node_id (nodes h ! j) \<noteq> node_id n"
    using assms(2) by (metis image_eqI nth_mem)
  then have "index_ok ?h"
    using assms by (auto simp: heap_inv_def index_ok_def nth_append less_Suc_eq)
  moreover have "order_except_up (keys_of ?h) (Suc ?m) ?m"
  proof (rule heap_order_snoc)
    show "heap_order (keys_of ?h) ?m"
      using assms(1) order_cong(1) [of ?m "keys_of h" "keys_of ?h"]
      by (auto simp: heap_inv_def nth_append)
  qed
  ultimately show ?thesis
    using sift_up_ok [of ?h ?m] by (simp add: heap_insert_def Let_def)
qed

lemma heap_remove_absent:
  "heap_inv h \<Longrightarrow> i \<notin> node_id ` set (nodes h) \<Longrightarrow> heap_remove h i = Some (h, None)"
  by (cases "positions h i") (auto simp: heap_remove_def heap_inv_def index_ok_def)

lemma index_ok_snocE:
  assumes "index_ok h" and "nodes h = ns @ [final]"
  obtains "distinct (map node_id ns)" "node_id final \<notin> node_id ` set ns"
    "\<And>i m. positions h i = Some m \<longleftrightarrow>
        m < length ns \<and> node_id (ns ! m) = i \<or> m = length ns \<and> node_id final = i"
    "\<And>a b. a < length ns \<Longrightarrow> b < length ns \<Longrightarrow> node_id (ns ! a) = node_id (ns ! b) \<longleftrightarrow> a = b"
    "\<And>a. a < length ns \<Longrightarrow> node_id (ns ! a) \<noteq> node_id final"
proof
  show d: "distinct (map node_id ns)" "node_id final \<notin> node_id ` set ns"
    using assms by (auto simp: index_ok_def)
  show "positions h i = Some m \<longleftrightarrow>
      m < length ns \<and> node_id (ns ! m) = i \<or> m = length ns \<and> node_id final = i" for i m
    using assms by (auto simp: index_ok_def nth_append less_Suc_eq)
  show "node_id (ns ! a) = node_id (ns ! b) \<longleftrightarrow> a = b" if "a < length ns" "b < length ns" for a b
    using d(1) that by (auto simp: distinct_conv_nth)
  show "node_id (ns ! a) \<noteq> node_id final" if "a < length ns" for a
    using d(2) that by (metis image_eqI nth_mem)
qed

lemma index_ok_butlast:
  assumes "index_ok h" and "nodes h = ns @ [final]"
  shows "index_ok \<lparr>nodes = ns, positions = (positions h)(node_id final := None)\<rparr>"
  using assms by (rule index_ok_snocE) (auto simp: index_ok_def)

lemma index_ok_replace:
  assumes "index_ok h" and "nodes h = ns @ [final]" and "j < length ns"
  shows "index_ok \<lparr>nodes = ns[j := final],
    positions = (positions h)(node_id (ns ! j) := None, node_id final \<mapsto> j)\<rparr>"
  using assms(1,2)
proof (rule index_ok_snocE)
  assume d: "distinct (map node_id ns)" "node_id final \<notin> node_id ` set ns"
    and pos: "\<And>i m. positions h i = Some m \<longleftrightarrow>
        m < length ns \<and> node_id (ns ! m) = i \<or> m = length ns \<and> node_id final = i"
    and inj: "\<And>a b. a < length ns \<Longrightarrow> b < length ns \<Longrightarrow>
        node_id (ns ! a) = node_id (ns ! b) \<longleftrightarrow> a = b"
    and fin: "\<And>a. a < length ns \<Longrightarrow> node_id (ns ! a) \<noteq> node_id final"
  have "distinct (map node_id (ns[j := final]))"
    using d by (simp add: map_update distinct_list_update)
  moreover have "((positions h)(node_id (ns ! j) := None, node_id final \<mapsto> j)) i = Some m \<longleftrightarrow>
      m < length ns \<and> node_id (ns[j := final] ! m) = i" for i m
    using assms(3) inj [of m j] fin [of m] fin [of j] pos [of i m]
    by (cases "m = j") auto
  ultimately show ?thesis by (simp add: index_ok_def)
qed

lemma heap_root_least:
  assumes "heap_inv h" and "m \<in> set (nodes h)"
  shows "key (hd (nodes h)) \<le> key m"
proof -
  obtain j where "j < length (nodes h)" "m = nodes h ! j"
    using assms(2) by (auto simp: in_set_conv_nth)
  moreover from this have "keys_of h 0 \<le> keys_of h j"
    using assms(1) by (intro heap_order_root) (simp_all add: heap_inv_def)
  moreover have "hd (nodes h) = nodes h ! 0"
    using assms(2) by (cases "nodes h") auto
  ultimately show ?thesis by simp
qed

lemma heap_remove_present:
  assumes "heap_inv h" and "n \<in> set (nodes h)"
  shows "\<exists>h'. heap_remove h (node_id n) = Some (h', Some n) \<and> heap_inv h' \<and>
           mset (nodes h') = mset (nodes h) - {#n#}"
proof -
  obtain ns final where ns: "nodes h = ns @ [final]"
    using assms(2) by (cases "nodes h" rule: rev_cases) auto
  obtain j where j: "j < length (nodes h)" "nodes h ! j = n"
    using assms(2) by (auto simp: in_set_conv_nth)
  then have pos: "positions h (node_id n) = Some j"
    using assms(1) by (simp add: heap_inv_def index_ok_def)
  have ord: "heap_order (keys_of h) (length ns)"
    using assms(1) ns by (auto simp: heap_inv_def heap_order_def)
  show ?thesis
  proof (cases "j = length ns")
    case True
    with j ns have "n = final" by simp
    moreover have "heap_order (\<lambda>i. key (ns ! i)) (length ns)"
      using ord order_cong(1) [of "length ns" "keys_of h" "\<lambda>i. key (ns ! i)"] ns
      by (simp add: nth_append)
    ultimately show ?thesis
      using True ns pos index_ok_butlast [of h ns final] assms(1)
      by (simp add: heap_remove_def Let_def heap_inv_def)
  next
    case False
    with j ns have lt: "j < length ns" and n: "n = ns ! j" by (auto simp: nth_append)
    let ?h = "\<lparr>nodes = ns[j := final],
      positions = (positions h)(node_id (ns ! j) := None, node_id final \<mapsto> j)\<rparr>"
    have "index_ok ?h"
      using index_ok_replace [OF _ ns lt] assms(1) by (simp add: heap_inv_def)
    then obtain h' where "heap_fix ?h j = Some h'" "heap_inv h'" "mset (nodes h') = mset (ns[j := final])"
      using heap_fix_ok [of ?h j "keys_of h"] ord lt ns by (auto simp: nth_append)
    with lt n ns pos show ?thesis
      by (auto simp: heap_remove_def Let_def mset_update)
  qed
qed

lemma pop_min_ok:
  assumes "heap_inv h" and "nodes h \<noteq> []"
  shows "\<exists>h' n. pop_min h = Some (h', Some n) \<and> heap_inv h' \<and> n \<in> set (nodes h) \<and>
           mset (nodes h') = mset (nodes h) - {#n#} \<and> (\<forall>m \<in> set (nodes h). key n \<le> key m)"
proof -
  obtain n ns where ns: "nodes h = n # ns" using assms(2) by (cases "nodes h") auto
  have "\<forall>m \<in> set (nodes h). key n \<le> key m"
    using heap_root_least [OF assms(1)] ns by (metis list.sel(1))
  then show ?thesis
    using heap_remove_present [OF assms(1), of n] ns by (auto simp: pop_min_def)
qed

lemma key_deadline_mono: "key m \<le> key n \<Longrightarrow> deadline m \<le> deadline n"
  by (auto simp: key_def)

lemma pop_due_ok:
  assumes "heap_inv h"
  shows "\<exists>h' due. pop_due h now = Some (h', due) \<and> heap_inv h' \<and>
           mset (nodes h) = mset due + mset (nodes h') \<and> sorted (map key due) \<and>
           (\<forall>n \<in> set due. deadline n \<le> now) \<and> (\<forall>n \<in> set (nodes h'). now < deadline n)"
  using assms
proof (induction h now rule: pop_due.induct)
  case (1 h now)
  show ?case
  proof (cases "nodes h = [] \<or> now < deadline (hd (nodes h))")
    case True
    have "now < deadline m" if "m \<in> set (nodes h)" for m
    proof -
      have "key (hd (nodes h)) \<le> key m" by (rule heap_root_least [OF "1.prems" that])
      with True that show ?thesis using key_deadline_mono by fastforce
    qed
    moreover have "pop_due h now = Some (h, [])"
      using True by (subst pop_due.simps) (auto simp: peek_deadline_def split: list.splits)
    ultimately show ?thesis using "1.prems" by simp
  next
    case False
    then have peek: "peek_deadline h = Some (deadline (hd (nodes h)))"
      by (cases "nodes h") (auto simp: peek_deadline_def)
    obtain h' n where pm: "pop_min h = Some (h', Some n)" "heap_inv h'" "n \<in> set (nodes h)"
        "mset (nodes h') = mset (nodes h) - {#n#}" "\<forall>m \<in> set (nodes h). key n \<le> key m"
      using pop_min_ok [OF "1.prems"] False by auto
    obtain h'' due where ih: "pop_due h' now = Some (h'', due)" "heap_inv h''"
        "mset (nodes h') = mset due + mset (nodes h'')" "sorted (map key due)"
        "\<forall>n \<in> set due. deadline n \<le> now" "\<forall>n \<in> set (nodes h''). now < deadline n"
      using "1.IH" [OF peek _ pm(1) refl refl pm(2)] False by auto
    have "set due \<subseteq> set (nodes h)"
      using ih(3) pm(4) by (metis in_diffD set_mset_mset subsetI union_iff)
    moreover have "deadline n \<le> now"
      using pm(5) key_deadline_mono [of n "hd (nodes h)"] False hd_in_set [of "nodes h"]
    by (auto intro: order_trans)
    moreover have "mset (nodes h) = mset (n # due) + mset (nodes h'')"
      using ih(3) pm(3,4) by (metis add_mset_add_single in_multiset_in_set insert_DiffM
          mset.simps(2) union_mset_add_mset_left)
    ultimately show ?thesis
      using peek pm ih False by (subst pop_due.simps) (auto simp: subset_iff)
  qed
qed

subsection \<open>The heap is a timer queue\<close>

definition heap_map :: "'c timer_heap \<Rightarrow> nat \<rightharpoonup> 'c timer_node" where
  "heap_map h = map_of (map (\<lambda>n. (node_id n, n)) (nodes h))"

lemma heap_map_iff:
  assumes "heap_inv h"
  shows "heap_map h i = Some n \<longleftrightarrow> n \<in> set (nodes h) \<and> node_id n = i"
proof -
  have "map fst (map (\<lambda>n. (node_id n, n)) (nodes h)) = map node_id (nodes h)" by simp
  then have "distinct (map fst (map (\<lambda>n. (node_id n, n)) (nodes h)))"
    using assms by (simp add: heap_inv_def index_ok_def comp_def)
  then show ?thesis by (auto simp: heap_map_def)
qed

lemma heap_map_None_iff: "heap_map h i = None \<longleftrightarrow> i \<notin> node_id ` set (nodes h)"
  by (simp add: heap_map_def map_of_eq_None_iff image_image)

lemma ran_heap_map: "heap_inv h \<Longrightarrow> ran (heap_map h) = set (nodes h)"
  by (auto simp: ran_def heap_map_iff)

lemma distinct_nodes: "heap_inv h \<Longrightarrow> distinct (nodes h)"
  by (auto simp: heap_inv_def index_ok_def distinct_map)

lemma map_eqI: "(\<And>i n. f i = Some n \<longleftrightarrow> g i = Some n) \<Longrightarrow> f = g"
  by (metis ext not_None_eq)

lemma heap_insert_map:
  assumes "heap_inv h" and "heap_map h (node_id n) = None"
  shows "\<exists>h'. heap_insert h n = Some h' \<and> heap_inv h' \<and> heap_map h' = (heap_map h)(node_id n \<mapsto> n)"
proof -
  have fresh: "node_id n \<notin> node_id ` set (nodes h)" using assms(2) by (simp add: heap_map_None_iff)
  then obtain h' where h': "heap_insert h n = Some h'" "heap_inv h'"
      "mset (nodes h') = add_mset n (mset (nodes h))"
    using heap_insert_ok [OF assms(1)] by blast
  have "set (nodes h') = insert n (set (nodes h))"
    using h'(3) by (metis set_mset_add_mset_insert set_mset_mset)
  then have "heap_map h' i = Some m \<longleftrightarrow> ((heap_map h)(node_id n \<mapsto> n)) i = Some m" for i m
    using fresh assms(1) h'(2) by (auto simp: heap_map_iff image_iff)
  then show ?thesis using h' map_eqI by blast
qed

lemma heap_remove_map:
  assumes "heap_inv h"
  shows "\<exists>h'. heap_remove h i = Some (h', heap_map h i) \<and> heap_inv h' \<and>
           heap_map h' = (heap_map h)(i := None)"
proof (cases "heap_map h i")
  case None
  then have "heap_remove h i = Some (h, None)"
    using heap_remove_absent [OF assms] by (simp add: heap_map_None_iff)
  with None show ?thesis using assms by (simp add: fun_upd_idem)
next
  case (Some n)
  then have n: "n \<in> set (nodes h)" "node_id n = i" by (auto simp: heap_map_iff [OF assms])
  then obtain h' where h': "heap_remove h i = Some (h', Some n)" "heap_inv h'"
      "mset (nodes h') = mset (nodes h) - {#n#}"
    using heap_remove_present [OF assms, of n] by auto
  have "mset (nodes h') = mset (remove1 n (nodes h))" using h'(3) by simp
  then have "set (nodes h') = set (remove1 n (nodes h))" by (rule mset_eq_setD)
  then have "set (nodes h') = set (nodes h) - {n}"
    using distinct_nodes [OF assms] by simp
  then have m: "heap_map h' j = Some m \<longleftrightarrow> heap_map h j = Some m \<and> m \<noteq> n" for j m
    by (auto simp: heap_map_iff [OF assms] heap_map_iff [OF h'(2)])
  have "heap_map h' j = Some m \<longleftrightarrow> ((heap_map h)(i := None)) j = Some m" for j m
  proof (cases "j = i")
    case True
    then show ?thesis using m [of j m] Some by simp
  next
    case False
    then have "heap_map h j = Some m \<Longrightarrow> m \<noteq> n"
      using n(2) heap_map_iff [OF assms] by metis
    then show ?thesis using m [of j m] False by auto
  qed
  then have "heap_map h' = (heap_map h)(i := None)" by (rule map_eqI)
  with h' Some show ?thesis by simp
qed

lemma pop_due_map:
  assumes "heap_inv h"
  shows "\<exists>h' due. pop_due h now = Some (h', due) \<and> heap_inv h' \<and>
           sorted_wrt (<) (map (\<lambda>n. (deadline n, node_id n)) due) \<and>
           set due = {n \<in> ran (heap_map h). deadline n \<le> now} \<and>
           heap_map h' = not_due deadline now (heap_map h)"
proof -
  obtain h' due where h': "pop_due h now = Some (h', due)" "heap_inv h'"
      "mset (nodes h) = mset due + mset (nodes h')" "sorted (map key due)"
      "\<forall>n \<in> set due. deadline n \<le> now" "\<forall>n \<in> set (nodes h'). now < deadline n"
    using pop_due_ok [OF assms] by blast
  have sets: "set (nodes h) = set due \<union> set (nodes h')"
    using h'(3) by (metis set_mset_mset set_mset_union)
  have perm: "mset (map node_id (nodes h)) = mset (map node_id (due @ nodes h'))"
    using h'(3) by simp
  have "distinct (map node_id (due @ nodes h'))"
    using mset_eq_imp_distinct_iff [OF perm] assms by (simp add: heap_inv_def index_ok_def)
  then have "distinct (map key due)"
    by (auto simp: distinct_map key_def inj_on_def)
  then have "sorted_wrt (<) (map (\<lambda>n. (deadline n, node_id n)) due)"
    using h'(4) by (simp add: key_def [abs_def] strict_sorted_iff)
  moreover have "set due = {n \<in> ran (heap_map h). deadline n \<le> now}"
    using sets h'(5,6) by (auto simp: ran_heap_map [OF assms] not_le)
  moreover have "heap_map h' i = Some m \<longleftrightarrow> not_due deadline now (heap_map h) i = Some m" for i m
    using sets h'(5,6) by (auto simp: heap_map_iff [OF h'(2)] heap_map_iff [OF assms] not_le [symmetric])
  ultimately show ?thesis using h'(1,2) map_eqI by blast
qed

lemma peek_deadline_least:
  assumes "heap_inv h"
  shows "peek_deadline h =
    (if ran (heap_map h) = {} then None else Some (Min (deadline ` ran (heap_map h))))"
proof (cases "nodes h")
  case Nil
  then show ?thesis by (simp add: peek_deadline_def ran_heap_map [OF assms])
next
  case (Cons n ns)
  have "deadline n \<le> deadline m" if "m \<in> set (nodes h)" for m
    using heap_root_least [OF assms that] Cons by (auto intro: key_deadline_mono)
  then have "Min (deadline ` set (nodes h)) = deadline n"
    by (intro Min_eqI) (auto simp: Cons)
  then show ?thesis using Cons by (simp add: peek_deadline_def ran_heap_map [OF assms])
qed

interpretation heap: timer_queue heap_inv heap_map heap_new heap_insert heap_remove pop_due
  peek_deadline node_id deadline
proof
  show "heap_map heap_new = Map.empty" by (simp add: heap_map_def heap_new_def)
  show "heap_inv q \<Longrightarrow> finite (ran (heap_map q))" for q :: "'c timer_heap"
    by (simp add: ran_heap_map)
  show "heap_inv q \<Longrightarrow> heap_map q i = Some n \<Longrightarrow> node_id n = i" for q :: "'c timer_heap" and i n
    by (simp add: heap_map_iff)
qed (use heap_inv_new heap_insert_map heap_remove_map pop_due_map peek_deadline_least in blast)+

subsection \<open>Properties\<close>

text \<open>A sample heap: timers 1 and 2 with deadlines 9 and 4.\<close>

definition timer_demo :: "unit timer_heap" where
  "timer_demo = \<lparr>nodes = [timeout_node 2 4 (), interval_node 1 9], positions = [1 \<mapsto> 1, 2 \<mapsto> 0]\<rparr>"

lemma timer_demo_inv: "heap_inv timer_demo"
proof -
  have "index_ok timer_demo"
    by (auto simp: index_ok_def timer_demo_def timeout_node_def interval_node_def less_Suc_eq
        numeral_2_eq_2 nth_Cons split: nat.splits if_splits)
  moreover have "heap_order (\<lambda>i. key (nodes timer_demo ! i)) (length (nodes timer_demo))"
    by (auto simp: heap_order_def timer_demo_def timeout_node_def interval_node_def key_def parent_def
        less_Suc_eq numeral_2_eq_2)
  ultimately show ?thesis by (simp add: heap_inv_def)
qed

lemma timer_demo_map: "heap_map timer_demo 3 = None" "heap_map timer_demo 1 = Some (interval_node 1 9)"
  by (auto simp: heap_map_def timer_demo_def timeout_node_def interval_node_def)

text \<open>Arming a timer with an unused id never panics, keeps the heap order and the id-to-index table
  consistent, and adds exactly that timer to the map the heap represents.\<close>

theorem timer_insert_refines_map:
  assumes "heap_inv h" and "heap_map h (node_id n) = None"
  shows "\<exists>h'. heap_insert h n = Some h' \<and> heap_inv h' \<and> heap_map h' = (heap_map h)(node_id n \<mapsto> n)"
  using assms by (rule heap.insert_spec)

theorem timer_insert_refines_map_witness:
  "\<exists>h'. heap_insert timer_demo (timeout_node 3 1 ()) = Some h' \<and> heap_inv h'"
  using timer_insert_refines_map [OF timer_demo_inv, of "timeout_node 3 1 ()"] timer_demo_map(1)
  by (auto simp: timeout_node_def)

text \<open>Cancelling any id, armed or not, never panics, returns exactly the timer armed under it, and
  removes it from the map, leaving every other timer and the consistency of the heap untouched.\<close>

theorem timer_remove_refines_map:
  assumes "heap_inv h"
  shows "\<exists>h'. heap_remove h i = Some (h', heap_map h i) \<and> heap_inv h' \<and>
    heap_map h' = (heap_map h)(i := None)"
  using assms by (rule heap.remove_spec)

theorem timer_remove_refines_map_witness:
  "\<exists>h'. heap_remove timer_demo 1 = Some (h', Some (interval_node 1 9))"
  using timer_remove_refines_map [OF timer_demo_inv, of 1] timer_demo_map(2) by auto

text \<open>(C6) Expiring at \<open>now\<close> never panics and terminates; it returns exactly the timers whose deadline
  is not after \<open>now\<close>, each once, strictly ordered by deadline and then id, and keeps exactly the
  others.\<close>

theorem timer_pop_due_exact:
  assumes "heap_inv h"
  shows "\<exists>h' due. pop_due h now = Some (h', due) \<and> heap_inv h' \<and>
    sorted_wrt (<) (map (\<lambda>n. (deadline n, node_id n)) due) \<and>
    set due = {n \<in> ran (heap_map h). deadline n \<le> now} \<and>
    heap_map h' = not_due deadline now (heap_map h)"
  using assms by (rule heap.pop_due_spec)

theorem timer_pop_due_exact_witness:
  "\<exists>h' due. pop_due timer_demo 4 = Some (h', due) \<and> set due = {timeout_node 2 4 ()}"
proof -
  obtain h' due where d: "pop_due timer_demo 4 = Some (h', due)"
      "set due = {n \<in> ran (heap_map timer_demo). deadline n \<le> 4}"
    using timer_pop_due_exact [OF timer_demo_inv, of 4] by blast
  have "ran (heap_map timer_demo) = {timeout_node 2 4 (), interval_node 1 9}"
    unfolding ran_heap_map [OF timer_demo_inv] by (simp add: timer_demo_def)
  then have "set due = {n \<in> {timeout_node 2 4 (), interval_node 1 9}. deadline n \<le> 4}"
    using d(2) by simp
  moreover have "deadline (timeout_node 2 4 ()) \<le> 4" "\<not> deadline (interval_node 1 9 :: unit timer_node) \<le> 4"
    by (simp_all add: timeout_node_def interval_node_def)
  ultimately have "set due = {timeout_node 2 4 ()}" by blast
  with d(1) show ?thesis by blast
qed

text \<open>A cancelled timer is never dispatched: once \<open>remove\<close> was called on an id, no later expiry
  of the resulting heap returns it.\<close>

theorem timer_cancelled_never_due:
  assumes "heap_inv h" and "heap_remove h i = Some (h', r)" and "pop_due h' now = Some (h'', due)"
  shows "i \<notin> node_id ` set due"
  using assms by (rule heap.removed_never_due)

theorem timer_cancelled_never_due_witness:
  "\<exists>h' h'' due. heap_remove timer_demo 1 = Some (h', Some (interval_node 1 9)) \<and>
     pop_due h' 100 = Some (h'', due) \<and> 1 \<notin> node_id ` set due"
proof -
  obtain h' where r: "heap_remove timer_demo 1 = Some (h', Some (interval_node 1 9))" "heap_inv h'"
    using heap_remove_map [OF timer_demo_inv, of 1] timer_demo_map(2) by auto
  obtain h'' due where p: "pop_due h' 100 = Some (h'', due)"
    using pop_due_map [OF r(2), of 100] by auto
  show ?thesis using r(1) p timer_cancelled_never_due [OF timer_demo_inv r(1) p] by blast
qed

text \<open>After an expiry the deadline the driver is armed with next lies strictly in the future, so a
  turn that dispatched its due timers cannot spin on an already expired one.\<close>

theorem timer_peek_after_expiry:
  assumes "heap_inv h" and "pop_due h now = Some (h', due)" and "peek_deadline h' = Some d"
  shows "now < d"
  using assms by (rule heap.peek_after_pop_due)

theorem timer_peek_after_expiry_witness:
  "\<exists>h' due d. pop_due timer_demo 4 = Some (h', due) \<and> peek_deadline h' = Some d \<and> 4 < d"
proof -
  obtain h' due where p: "pop_due timer_demo 4 = Some (h', due)" "heap_inv h'"
      "heap_map h' = not_due deadline 4 (heap_map timer_demo)"
    using pop_due_map [OF timer_demo_inv, of 4] by blast
  then have "heap_map h' 1 = Some (interval_node 1 9)"
    using timer_demo_map(2) by (simp add: interval_node_def)
  then have "ran (heap_map h') \<noteq> {}" by (auto simp: ran_def)
  then obtain d where d: "peek_deadline h' = Some d" using peek_deadline_least [OF p(2)] by auto
  show ?thesis using p(1) d timer_peek_after_expiry [OF timer_demo_inv p(1) d] by blast
qed

end
