(* ===== verification/Wait_Queue.thy ===== *)
theory Wait_Queue
  imports Prelude
begin

text \<open>
  The waiter queue that \<open>Semaphore\<close>, \<open>Mutex\<close>, \<open>RwLock\<close> and \<open>Notify\<close> (\<open>src/sync/\<close>) each carry: a
  \<open>VecDeque\<close> of waiters with wrapping \<open>usize\<close> ids, where a waiter and the future that registered
  it share an \<open>Rc<Cell<_>>\<close> telling the future it was selected. The shared cells are an explicit
  store from addresses to values; an address is never reused, so it also records the
  registration order. The predicate \<open>linked\<close> ties a queue to the pool of live futures: every
  queued waiter belongs to exactly one live unselected future, and no selected registration is
  younger than a queued one. It is preserved by each queue operation as long as fewer than
  \<open>2 ^ 64\<close> registrations were made, which is when the wrapping ids are still unique.
\<close>

subsection \<open>Data and operations\<close>

record 'k waiter =
  wid :: nat
  wkind :: 'k
  cell :: address
  wwaker :: waker

record ('k, 's) wait_queue =
  next_waiter_id :: nat
  waiters :: "'k waiter list"
  cells :: "address \<Rightarrow> 's"
  next_cell :: address

record 'k wait_future =
  fkind :: 'k
  reg :: "(nat \<times> address) option"
  acquired :: bool

type_synonym 'k pool = "nat \<rightharpoonup> 'k wait_future"

definition new_future :: "'k \<Rightarrow> 'k wait_future" where
  "new_future k = \<lparr>fkind = k, reg = None, acquired = False\<rparr>"

definition allocate_waiter_id ::
  "('k, 's, 'z) wait_queue_scheme \<Rightarrow> ('k, 's, 'z) wait_queue_scheme \<times> nat" where
  "allocate_waiter_id q =
     (q\<lparr>next_waiter_id := wrapping_succ (next_waiter_id q)\<rparr>, next_waiter_id q)"

definition remove_waiter ::
  "('k, 's, 'z) wait_queue_scheme \<Rightarrow> nat \<Rightarrow> ('k, 's, 'z) wait_queue_scheme" where
  "remove_waiter q i = q\<lparr>waiters := remove_first (\<lambda>w. wid w = i) (waiters q)\<rparr>"

definition new_cell ::
  "('k, 's, 'z) wait_queue_scheme \<Rightarrow> 's \<Rightarrow> ('k, 's, 'z) wait_queue_scheme \<times> address" where
  "new_cell q s =
     (q\<lparr>cells := (cells q)(next_cell q := s), next_cell := Suc (next_cell q)\<rparr>, next_cell q)"

text \<open>Registration: the branch of every \<open>poll\<close> that runs when the future has no waiter yet.\<close>

definition register ::
  "('k, 's, 'z) wait_queue_scheme \<Rightarrow> 'k \<Rightarrow> 's \<Rightarrow> waker \<Rightarrow>
   ('k, 's, 'z) wait_queue_scheme \<times> nat \<times> address" where
  "register q k s wk =
     (let (q1, i) = allocate_waiter_id q;
          (q2, c) = new_cell q1 s
      in (q2\<lparr>waiters := waiters q2 @ [\<lparr>wid = i, wkind = k, cell = c, wwaker = wk\<rparr>]\<rparr>, i, c))"

text \<open>\<open>iter_mut().find(|w| w.id == id)\<close> followed by storing the new waker.\<close>

fun set_waker :: "nat \<Rightarrow> waker \<Rightarrow> 'k waiter list \<Rightarrow> 'k waiter list" where
  "set_waker i wk [] = []"
| "set_waker i wk (w # ws) = (if wid w = i then w\<lparr>wwaker := wk\<rparr> # ws else w # set_waker i wk ws)"

definition refresh_waker ::
  "('k, 's, 'z) wait_queue_scheme \<Rightarrow> nat \<Rightarrow> waker \<Rightarrow> ('k, 's, 'z) wait_queue_scheme" where
  "refresh_waker q i wk = q\<lparr>waiters := set_waker i wk (waiters q)\<rparr>"

text \<open>The tail of every \<open>poll\<close>: refresh the waker of the queued waiter, or register one.\<close>

definition enqueue ::
  "('k, 's, 'z) wait_queue_scheme \<Rightarrow> 'k wait_future \<Rightarrow> 's \<Rightarrow> waker \<Rightarrow>
   ('k, 's, 'z) wait_queue_scheme \<times> 'k wait_future" where
  "enqueue q fut s wk =
     (case reg fut of
        Some (i, _) \<Rightarrow> (refresh_waker q i wk, fut)
      | None \<Rightarrow> (let (q', r) = register q (fkind fut) s wk in (q', fut\<lparr>reg := Some r\<rparr>)))"

subsection \<open>The queue and the pool of futures agree\<close>

definition owns :: "'k pool \<Rightarrow> nat \<Rightarrow> address \<Rightarrow> bool" where
  "owns fs f c \<longleftrightarrow> (\<exists>fut i. fs f = Some fut \<and> reg fut = Some (i, c))"

definition waiting_in :: "'k pool \<Rightarrow> 'k waiter \<Rightarrow> bool" where
  "waiting_in fs w \<longleftrightarrow>
     (\<exists>f fut. fs f = Some fut \<and> reg fut = Some (wid w, cell w) \<and> \<not> acquired fut \<and> fkind fut = wkind w)"

definition queue_ok :: "'s \<Rightarrow> ('k, 's, 'z) wait_queue_scheme \<Rightarrow> bool" where
  "queue_ok pend q \<longleftrightarrow>
     next_waiter_id q = next_cell q mod u64_modulus \<and>
     sorted_wrt (<) (map cell (waiters q)) \<and>
     (\<forall>w \<in> set (waiters q). cell w < next_cell q \<and> wid w = cell w mod u64_modulus \<and>
        cells q (cell w) = pend)"

definition unovertaken :: "'s \<Rightarrow> ('k, 's, 'z) wait_queue_scheme \<Rightarrow> bool" where
  "unovertaken pend q \<longleftrightarrow>
     (\<forall>w \<in> set (waiters q). \<forall>c < next_cell q. cells q c \<noteq> pend \<longrightarrow> c < cell w)"

definition pool_ok :: "'s \<Rightarrow> ('k, 's, 'z) wait_queue_scheme \<Rightarrow> 'k pool \<Rightarrow> bool" where
  "pool_ok pend q fs \<longleftrightarrow>
     finite (dom fs) \<and>
     (\<forall>f g c. owns fs f c \<and> owns fs g c \<longrightarrow> f = g) \<and>
     (\<forall>f fut i c. fs f = Some fut \<and> reg fut = Some (i, c) \<longrightarrow>
        i = c mod u64_modulus \<and> c < next_cell q \<and>
        (\<not> acquired fut \<and> cells q c = pend \<longrightarrow> c \<in> cell ` set (waiters q)))"

definition linked :: "'s \<Rightarrow> ('k, 's, 'z) wait_queue_scheme \<Rightarrow> 'k pool \<Rightarrow> bool" where
  "linked pend q fs \<longleftrightarrow>
     queue_ok pend q \<and> unovertaken pend q \<and> pool_ok pend q fs \<and>
     (\<forall>w \<in> set (waiters q). waiting_in fs w)"

lemmas linked_defs = linked_def queue_ok_def unovertaken_def pool_ok_def waiting_in_def owns_def

lemma linked_cong:
  "next_waiter_id q' = next_waiter_id q \<Longrightarrow> waiters q' = waiters q \<Longrightarrow> cells q' = cells q \<Longrightarrow>
   next_cell q' = next_cell q \<Longrightarrow> linked pend q' fs \<longleftrightarrow> linked pend q fs"
  by (simp add: linked_defs)

lemma register_eq:
  "register q k s wk =
     (q\<lparr>next_waiter_id := wrapping_succ (next_waiter_id q),
        cells := (cells q)(next_cell q := s),
        next_cell := Suc (next_cell q),
        waiters := waiters q @ [\<lparr>wid = next_waiter_id q, wkind = k, cell = next_cell q, wwaker = wk\<rparr>]\<rparr>,
      next_waiter_id q, next_cell q)"
  by (simp add: register_def allocate_waiter_id_def new_cell_def Let_def)

lemma owns_upd [simp]:
  "owns (fs(f \<mapsto> fut)) g c \<longleftrightarrow> (if g = f then \<exists>i. reg fut = Some (i, c) else owns fs g c)"
  by (auto simp: owns_def)

lemma owns_del [simp]: "owns (fs(f := None)) g c \<longleftrightarrow> g \<noteq> f \<and> owns fs g c"
  by (auto simp: owns_def)

lemma owns_reg: "fs f = Some fut \<Longrightarrow> reg fut = Some (i, c) \<Longrightarrow> owns fs f c"
  by (auto simp: owns_def)

lemma waiting_in_upd:
  assumes "waiting_in fs w"
    and "\<And>fut. fs f = Some fut \<Longrightarrow> reg fut = Some (wid w, cell w) \<Longrightarrow> \<not> acquired fut \<Longrightarrow>
           reg fut' = reg fut \<and> \<not> acquired fut' \<and> fkind fut' = fkind fut"
  shows "waiting_in (fs(f \<mapsto> fut')) w"
proof -
  obtain g fut where g: "fs g = Some fut" "reg fut = Some (wid w, cell w)" "\<not> acquired fut"
      "fkind fut = wkind w"
    using assms(1) by (auto simp: waiting_in_def)
  show ?thesis
  proof (cases "g = f")
    case True
    then have "reg fut' = reg fut \<and> \<not> acquired fut' \<and> fkind fut' = fkind fut"
      using assms(2) g by blast
    then show ?thesis using g unfolding waiting_in_def by (intro exI [of _ f]) auto
  next
    case False
    then show ?thesis using g unfolding waiting_in_def by (intro exI [of _ g]) auto
  qed
qed

lemma waiting_in_del:
  assumes "waiting_in fs w"
    and "\<And>fut. fs f = Some fut \<Longrightarrow> reg fut = Some (wid w, cell w) \<Longrightarrow> acquired fut"
  shows "waiting_in (fs(f := None)) w"
  using assms unfolding waiting_in_def by (metis fun_upd_other)

lemma pool_okD:
  assumes "pool_ok pend q fs" and "fs f = Some fut" and "reg fut = Some (i, c)"
  shows "i = c mod u64_modulus" "c < next_cell q"
    "\<not> acquired fut \<Longrightarrow> cells q c = pend \<Longrightarrow> c \<in> cell ` set (waiters q)"
  using assms unfolding pool_ok_def by blast+

lemma pool_ok_requeue:
  assumes "pool_ok pend q fs" and "next_cell q' = next_cell q"
    and "\<And>f fut i c. fs f = Some fut \<Longrightarrow> reg fut = Some (i, c) \<Longrightarrow> \<not> acquired fut \<Longrightarrow>
          cells q' c = pend \<Longrightarrow> c \<in> cell ` set (waiters q')"
  shows "pool_ok pend q' fs"
  unfolding pool_ok_def
proof (intro conjI allI impI)
  show "finite (dom fs)" using assms(1) by (simp add: pool_ok_def)
  show "f = g" if "owns fs f c \<and> owns fs g c" for f g c
    using assms(1) that unfolding pool_ok_def by blast
next
  fix f fut i c
  assume f: "fs f = Some fut \<and> reg fut = Some (i, c)"
  show "i = c mod u64_modulus" "c < next_cell q'"
    using pool_okD(1,2) [OF assms(1)] f assms(2) by auto
  show "c \<in> cell ` set (waiters q')" if "\<not> acquired fut \<and> cells q' c = pend"
    using assms(3) f that by blast
qed

lemma pool_ok_owns: "pool_ok pend q fs \<Longrightarrow> owns fs f c \<Longrightarrow> owns fs g c \<Longrightarrow> f = g"
  unfolding pool_ok_def by blast

lemma linked_new:
  assumes "linked pend q fs" and "fs f = None"
  shows "linked pend q (fs(f \<mapsto> new_future k))"
proof -
  have pool: "pool_ok pend q fs" using assms by (simp add: linked_def)
  have "pool_ok pend q (fs(f \<mapsto> new_future k))"
    using pool unfolding pool_ok_def by (auto simp: new_future_def split: if_splits)
  moreover have "waiting_in (fs(f \<mapsto> new_future k)) w" if "waiting_in fs w" for w
    using that assms(2) by (intro waiting_in_upd) auto
  ultimately show ?thesis using assms(1) by (auto simp: linked_def)
qed

lemma linked_register:
  assumes "linked pend q fs" and "fs f = Some fut" and "reg fut = None" and "\<not> acquired fut"
    and "register q (fkind fut) pend wk = (q', r)"
  shows "linked pend q' (fs(f \<mapsto> fut\<lparr>reg := Some r\<rparr>))"
proof -
  let ?n = "next_cell q" and ?fs = "fs(f \<mapsto> fut\<lparr>reg := Some r\<rparr>)"
  have l: "queue_ok pend q" "unovertaken pend q" "pool_ok pend q fs"
    "\<forall>w \<in> set (waiters q). waiting_in fs w"
    using assms(1) by (auto simp: linked_def)
  have r: "r = (?n mod u64_modulus, ?n)" and nid: "next_waiter_id q = ?n mod u64_modulus"
    using assms(5) l(1) by (auto simp: register_eq queue_ok_def)
  let ?w = "\<lparr>wid = ?n mod u64_modulus, wkind = fkind fut, cell = ?n, wwaker = wk\<rparr>"
  have q': "waiters q' = waiters q @ [?w]" "next_cell q' = Suc ?n"
    "cells q' = (cells q)(?n := pend)" "next_waiter_id q' = Suc ?n mod u64_modulus"
    using assms(5) nid by (auto simp: register_eq)
  have old: "c < ?n" if "owns fs g c" for g c
    using that pool_okD(2) [OF l(3)] by (auto simp: owns_def)
  have "queue_ok pend q'"
    using l(1) by (auto simp: queue_ok_def q' sorted_wrt_append less_Suc_eq)
  moreover have "unovertaken pend q'"
    using l(2) unfolding unovertaken_def q' by (auto simp: less_Suc_eq)
  moreover have "pool_ok pend q' ?fs"
  proof -
    have "finite (dom ?fs)" using l(3) by (simp add: pool_ok_def)
    moreover have "g = h" if "owns ?fs g c" "owns ?fs h c" for g h c
      using that pool_ok_owns [OF l(3), of g c h] old [of g c] old [of h c] r
      by (auto split: if_splits)
    moreover have "i = c mod u64_modulus \<and> c < Suc ?n \<and>
        (\<not> acquired fut' \<and> cells q' c = pend \<longrightarrow> c \<in> cell ` set (waiters q'))"
      if "?fs g = Some fut'" "reg fut' = Some (i, c)" for g fut' i c
    proof (cases "g = f")
      case True
      then show ?thesis using that r by (auto simp: q')
    next
      case False
      then show ?thesis
        using that pool_okD [OF l(3), of g fut' i c] by (auto simp: q')
    qed
    ultimately show ?thesis unfolding pool_ok_def q'(2) by blast
  qed
  moreover have "waiting_in ?fs w" if "w \<in> set (waiters q')" for w
  proof (cases "w = ?w")
    case True
    then show ?thesis
      using r assms(4) by (auto simp: waiting_in_def intro!: exI [of _ f])
  next
    case False
    then have "waiting_in fs w" using that l(4) q'(1) by auto
    then show ?thesis using assms(2,3) by (intro waiting_in_upd) auto
  qed
  ultimately show ?thesis by (auto simp: linked_def)
qed

abbreviation waiter_key :: "'k waiter \<Rightarrow> nat \<times> 'k \<times> address" where
  "waiter_key w \<equiv> (wid w, wkind w, cell w)"

lemma set_waker_key: "map waiter_key (set_waker i wk ws) = map waiter_key ws"
  by (induction ws) auto

lemma set_waker_cells: "map cell (set_waker i wk ws) = map cell ws"
  by (induction ws) auto

lemma linked_refresh:
  assumes "linked pend q fs"
  shows "linked pend (refresh_waker q i wk) fs"
proof -
  note cells = set_waker_cells [of i wk "waiters q"]
  have same: "\<exists>v \<in> set (waiters q). waiter_key v = waiter_key w"
    if "w \<in> set (set_waker i wk (waiters q))" for w
    using that set_waker_key [of i wk "waiters q"] by (metis (mono_tags, lifting) image_iff list.set_map)
  have img: "cell ` set (set_waker i wk (waiters q)) = cell ` set (waiters q)"
    using cells by (metis list.set_map)
  have "queue_ok pend (refresh_waker q i wk)"
    using assms same cells unfolding linked_def queue_ok_def refresh_waker_def
    by simp (metis prod.inject)
  moreover have "unovertaken pend (refresh_waker q i wk)"
    using assms same unfolding linked_def unovertaken_def refresh_waker_def
    by simp (metis prod.inject)
  moreover have "pool_ok pend (refresh_waker q i wk) fs"
    using assms img unfolding linked_def pool_ok_def refresh_waker_def by simp
  moreover have "waiting_in fs w" if "w \<in> set (set_waker i wk (waiters q))" for w
    using same [OF that] assms unfolding linked_def waiting_in_def by (metis prod.inject)
  ultimately show ?thesis by (auto simp: linked_def refresh_waker_def)
qed

text \<open>Selecting the front waiter: it leaves the queue and its cell is set.\<close>

lemma linked_select:
  assumes "linked pend q fs" and "waiters q = w # ws" and "s \<noteq> pend"
    and q': "waiters q' = ws" "cells q' = (cells q)(cell w := s)" "next_cell q' = next_cell q"
      "next_waiter_id q' = next_waiter_id q"
  shows "linked pend q' fs"
proof -
  have l: "queue_ok pend q" "unovertaken pend q" "pool_ok pend q fs"
    "\<forall>w \<in> set (waiters q). waiting_in fs w"
    using assms(1) by (auto simp: linked_def)
  have younger: "\<forall>v \<in> set ws. cell w < cell v"
    using l(1) assms(2) by (auto simp: queue_ok_def)
  have sorted: "sorted_wrt (<) (map cell ws)" and nid: "next_waiter_id q = next_cell q mod u64_modulus"
    using l(1) assms(2) by (auto simp: queue_ok_def)
  have each: "cell v < next_cell q \<and> wid v = cell v mod u64_modulus \<and> cells q (cell v) = pend"
    if "v \<in> set ws" for v
    using l(1) that assms(2) unfolding queue_ok_def by simp
  have same: "cells q' (cell v) = cells q (cell v)" if "v \<in> set ws" for v
    using younger that by (auto simp: q')
  have "queue_ok pend q'"
    unfolding queue_ok_def using sorted nid each same by (simp add: q'(1,3,4))
  moreover have "unovertaken pend q'"
    unfolding unovertaken_def
  proof (intro ballI allI impI)
    fix v c
    assume v: "v \<in> set (waiters q')" and c: "c < next_cell q'" "cells q' c \<noteq> pend"
    show "c < cell v"
    proof (cases "c = cell w")
      case True
      then show ?thesis using younger v q'(1) by blast
    next
      case False
      then have "cells q c \<noteq> pend" using c(2) by (simp add: q'(2))
      then show ?thesis using l(2) v c(1) assms(2) unfolding unovertaken_def q'(1,3) by simp
    qed
  qed
  moreover have "pool_ok pend q' fs"
  proof (rule pool_ok_requeue [OF l(3) q'(3)])
    show "c \<in> cell ` set (waiters q')"
      if "fs f = Some fut" "reg fut = Some (i, c)" "\<not> acquired fut" "cells q' c = pend" for f fut i c
      using that pool_okD(3) [OF l(3) that(1,2)] assms(2,3) by (auto simp: q' split: if_splits)
  qed
  ultimately show ?thesis using l(4) assms(2) by (auto simp: linked_def q')
qed

text \<open>A future that has no queued waiter may complete or go away.\<close>

definition unqueued :: "'s \<Rightarrow> ('k, 's, 'z) wait_queue_scheme \<Rightarrow> 'k wait_future \<Rightarrow> bool" where
  "unqueued pend q fut \<longleftrightarrow>
     acquired fut \<or> (case reg fut of None \<Rightarrow> True | Some (i, c) \<Rightarrow> cells q c \<noteq> pend)"

lemma unqueued_not_waiting:
  assumes "linked pend q fs" and "fs f = Some fut" and "unqueued pend q fut"
    and "w \<in> set (waiters q)" and "reg fut = Some (wid w, cell w)"
  shows "acquired fut"
  using assms by (auto simp: unqueued_def linked_def queue_ok_def)

lemma linked_acquire:
  assumes "linked pend q fs" and "fs f = Some fut" and "unqueued pend q fut"
  shows "linked pend q (fs(f \<mapsto> fut\<lparr>acquired := True\<rparr>))"
proof -
  let ?fs = "fs(f \<mapsto> fut\<lparr>acquired := True\<rparr>)"
  have pool: "pool_ok pend q fs" using assms(1) by (simp add: linked_def)
  have "owns ?fs g c \<longleftrightarrow> owns fs g c" for g c
    using assms(2) by (auto simp: owns_def)
  then have "pool_ok pend q ?fs"
    using pool assms(2) unfolding pool_ok_def by (auto split: if_splits)
  moreover have "waiting_in ?fs w" if "w \<in> set (waiters q)" for w
  proof (rule waiting_in_upd)
    show "waiting_in fs w" using that assms(1) by (simp add: linked_def)
  qed (use that unqueued_not_waiting [OF assms] assms(2) in auto)
  ultimately show ?thesis using assms(1) by (auto simp: linked_def)
qed

lemma pool_ok_del: "pool_ok pend q fs \<Longrightarrow> pool_ok pend q (fs(f := None))"
  unfolding pool_ok_def by (auto split: if_splits)

lemma linked_drop_unqueued:
  assumes "linked pend q fs" and "fs f = Some fut" and "unqueued pend q fut"
  shows "linked pend q (fs(f := None))"
proof -
  have "waiting_in (fs(f := None)) w" if "w \<in> set (waiters q)" for w
  proof (rule waiting_in_del)
    show "waiting_in fs w" using that assms(1) by (simp add: linked_def)
  qed (use that unqueued_not_waiting [OF assms] assms(2) in auto)
  then show ?thesis using assms(1) pool_ok_del by (auto simp: linked_def)
qed

lemma linked_ids_distinct:
  assumes "linked pend q fs" and "next_cell q \<le> u64_modulus"
  shows "distinct (map wid (waiters q))" "\<forall>w \<in> set (waiters q). wid w = cell w"
proof -
  show ids: "\<forall>w \<in> set (waiters q). wid w = cell w"
    using assms by (auto simp: linked_def queue_ok_def)
  then have "map wid (waiters q) = map cell (waiters q)" by simp
  moreover have "sorted_wrt (<) (map cell (waiters q))"
    using assms(1) by (simp add: linked_def queue_ok_def)
  ultimately show "distinct (map wid (waiters q))" by (metis strict_sorted_iff)
qed

lemma linked_drop_queued:
  assumes "linked pend q fs" and "next_cell q \<le> u64_modulus" and "fs f = Some fut"
    and "reg fut = Some (i, c)" and "\<not> acquired fut" and "cells q c = pend"
  shows "linked pend (remove_waiter q i) (fs(f := None))"
proof -
  have l: "queue_ok pend q" "unovertaken pend q" "pool_ok pend q fs"
    "\<forall>w \<in> set (waiters q). waiting_in fs w"
    using assms(1) by (auto simp: linked_def)
  note ids = linked_ids_distinct [OF assms(1,2)]
  have i: "i = c" using pool_okD(1,2) [OF l(3) assms(3,4)] assms(2) by simp
  have ws: "waiters (remove_waiter q i) = filter (\<lambda>w. cell w \<noteq> c) (waiters q)"
    using ids i by (auto simp: remove_waiter_def remove_first_filter intro!: filter_cong)
  have rest: "cells (remove_waiter q i) = cells q" "next_cell (remove_waiter q i) = next_cell q"
    "next_waiter_id (remove_waiter q i) = next_waiter_id q"
    by (simp_all add: remove_waiter_def)
  have "queue_ok pend (remove_waiter q i)"
    using l(1) unfolding queue_ok_def ws rest by (auto simp: sorted_wrt_filter sorted_wrt_map)
  moreover have "unovertaken pend (remove_waiter q i)"
    using l(2) unfolding unovertaken_def ws rest by auto
  moreover have "pool_ok pend (remove_waiter q i) (fs(f := None))"
  proof -
    have ne: "c' \<noteq> c" if "fs g = Some fut'" "reg fut' = Some (j, c')" "g \<noteq> f" for g fut' j c'
      using that pool_ok_owns [OF l(3)] owns_reg assms(3,4) by metis
    note pool = pool_ok_del [OF l(3), of f]
    show ?thesis
    proof (rule pool_ok_requeue [OF pool rest(2)])
      show "c' \<in> cell ` set (waiters (remove_waiter q i))"
        if "(fs(f := None)) g = Some fut'" "reg fut' = Some (j, c')" "\<not> acquired fut'"
          "cells (remove_waiter q i) c' = pend" for g fut' j c'
        using that ne [of g fut' j c'] pool_okD(3) [OF pool that(1,2)]
        by (auto simp: ws rest split: if_splits)
    qed
  qed
  moreover have "waiting_in (fs(f := None)) w" if "w \<in> set (waiters q)" "cell w \<noteq> c" for w
    using that l(4) assms(3,4) by (intro waiting_in_del) auto
  ultimately show ?thesis by (auto simp: linked_def ws)
qed

subsection \<open>Futures that hold a grant they have not observed yet\<close>

text \<open>\<open>picked P q fs\<close> are the live futures whose cell was set to a value satisfying \<open>P\<close> but that
  have not been polled since. Grants handed to them are in flight, so they count.\<close>

definition picked :: "('k \<Rightarrow> 's \<Rightarrow> bool) \<Rightarrow> ('k, 's, 'z) wait_queue_scheme \<Rightarrow> 'k pool \<Rightarrow> nat set" where
  "picked P q fs =
     {f. \<exists>fut i c. fs f = Some fut \<and> reg fut = Some (i, c) \<and> \<not> acquired fut \<and> P (fkind fut) (cells q c)}"

lemma picked_subset: "picked P q fs \<subseteq> dom fs"
  by (auto simp: picked_def)

lemma picked_finite: "linked pend q fs \<Longrightarrow> finite (picked P q fs)"
  using picked_subset [of P q fs] finite_subset unfolding linked_def pool_ok_def by blast

lemma mem_picked:
  "f \<in> picked P q fs \<longleftrightarrow> (case fs f of None \<Rightarrow> False | Some fut \<Rightarrow>
     \<not> acquired fut \<and> (case reg fut of None \<Rightarrow> False | Some (i, c) \<Rightarrow> P (fkind fut) (cells q c)))"
  by (auto simp: picked_def split: option.splits)

lemma picked_empty [simp]: "picked P q Map.empty = {}"
  by (simp add: picked_def)

lemma picked_cong: "cells q' = cells q \<Longrightarrow> picked P q' fs = picked P q fs"
  by (simp add: picked_def)

lemma picked_new: "fs f = None \<Longrightarrow> picked P q (fs(f \<mapsto> new_future k)) = picked P q fs"
  by (auto simp: picked_def new_future_def)

lemma picked_refresh [simp]: "picked P (refresh_waker q i wk) fs = picked P q fs"
  by (simp add: picked_def refresh_waker_def)

lemma picked_remove_waiter [simp]: "picked P (remove_waiter q i) fs = picked P q fs"
  by (simp add: picked_def remove_waiter_def)

lemma picked_register:
  assumes "linked pend q fs" and "fs f = Some fut" and "reg fut = None"
    and "register q (fkind fut) pend wk = (q', r)" and "\<not> P (fkind fut) pend"
  shows "picked P q' (fs(f \<mapsto> fut\<lparr>reg := Some r\<rparr>)) = picked P q fs"
proof (rule set_eqI)
  fix g
  have r: "snd r = next_cell q" "cells q' = (cells q)(next_cell q := pend)"
    using assms(4) by (auto simp: register_eq)
  have pool: "pool_ok pend q fs" using assms(1) by (simp add: linked_def)
  show "g \<in> picked P q' (fs(f \<mapsto> fut\<lparr>reg := Some r\<rparr>)) \<longleftrightarrow> g \<in> picked P q fs"
  proof (cases "g = f")
    case True
    then show ?thesis using assms(2,3,5) r by (auto simp: picked_def)
  next
    case False
    have "c < next_cell q" if "fs g = Some fut'" "reg fut' = Some (i, c)" for fut' i c
      using pool_okD(2) [OF pool that] .
    then show ?thesis using False by (fastforce simp: mem_picked r(2) split: option.splits)
  qed
qed

lemma picked_acquire: "picked P q (fs(f \<mapsto> fut\<lparr>acquired := True\<rparr>)) = picked P q fs - {f}"
  by (auto simp: picked_def)

lemma picked_drop: "picked P q (fs(f := None)) = picked P q fs - {f}"
  by (auto simp: picked_def)

text \<open>Selecting the front waiter grants exactly one future.\<close>

lemma card_picked_select:
  assumes "linked pend q fs" and "waiters q = w # ws" and "cells q' = (cells q)(cell w := s)"
    and "\<And>k. \<not> P k pend"
  shows "card (picked P q' fs) = card (picked P q fs) + (if P (wkind w) s then 1 else 0)"
proof -
  have l: "queue_ok pend q" "pool_ok pend q fs" "waiting_in fs w"
    using assms(1,2) by (auto simp: linked_def)
  obtain f fut where f: "fs f = Some fut" "reg fut = Some (wid w, cell w)" "\<not> acquired fut"
      "fkind fut = wkind w"
    using l(3) by (auto simp: waiting_in_def)
  have pend: "cells q (cell w) = pend" using l(1) assms(2) by (simp add: queue_ok_def)
  have other: "c \<noteq> cell w" if "fs g = Some fut'" "reg fut' = Some (i, c)" "g \<noteq> f" for g fut' i c
    using pool_ok_owns [OF l(2)] owns_reg that f(1,2) by metis
  have notf: "f \<notin> picked P q fs" using f pend assms(4) by (simp add: picked_def)
  have "g \<in> picked P q' fs \<longleftrightarrow> g \<in> picked P q fs \<or> g = f \<and> P (wkind w) s" for g
  proof (cases "g = f")
    case True
    then show ?thesis using f notf by (auto simp: picked_def assms(3))
  next
    case False
    then show ?thesis using other by (fastforce simp: mem_picked assms(3) split: option.splits)
  qed
  then have "picked P q' fs = (if P (wkind w) s then insert f (picked P q fs) else picked P q fs)"
    by auto
  then show ?thesis using notf picked_finite [OF assms(1), of P] by simp
qed

lemma pickedI:
  "fs f = Some fut \<Longrightarrow> reg fut = Some (i, c) \<Longrightarrow> \<not> acquired fut \<Longrightarrow> P (fkind fut) (cells q c) \<Longrightarrow>
   f \<in> picked P q fs"
  by (auto simp: picked_def)

lemma card_picked_take:
  assumes "linked pend q fs" and "f \<in> picked P q fs"
  shows "Suc (card (picked P q fs - {f})) = card (picked P q fs)"
  using card_Suc_Diff1 [OF picked_finite [OF assms(1)] assms(2)] .

subsection \<open>The pending branch of \<open>poll\<close> as a whole\<close>

lemma enqueue_simps [simp]:
  "acquired (snd (enqueue q fut s wk)) = acquired fut"
  "fkind (snd (enqueue q fut s wk)) = fkind fut"
  by (auto simp: enqueue_def register_eq split: option.splits)

lemma linked_enqueue:
  assumes "linked pend q fs" and "fs f = Some fut" and "\<not> acquired fut"
    and "enqueue q fut pend wk = (q', fut')"
  shows "linked pend q' (fs(f \<mapsto> fut'))"
proof (cases "reg fut")
  case None
  obtain q1 r where r: "register q (fkind fut) pend wk = (q1, r)" by (rule prod.exhaust)
  with None assms(4) have "q' = q1" "fut' = fut\<lparr>reg := Some r\<rparr>" by (auto simp: enqueue_def)
  then show ?thesis using linked_register [OF assms(1,2) None assms(3) r] by simp
next
  case (Some r)
  then obtain i c where r: "r = (i, c)" by fastforce
  with Some assms(4) have "q' = refresh_waker q i wk" "fut' = fut" by (auto simp: enqueue_def)
  moreover have "fs(f \<mapsto> fut) = fs" using assms(2) by auto
  ultimately show ?thesis using linked_refresh [OF assms(1)] by simp
qed

lemma picked_enqueue:
  assumes "linked pend q fs" and "fs f = Some fut" and "enqueue q fut pend wk = (q', fut')"
    and "\<not> P (fkind fut) pend"
  shows "picked P q' (fs(f \<mapsto> fut')) = picked P q fs"
proof (cases "reg fut")
  case None
  obtain q1 r where r: "register q (fkind fut) pend wk = (q1, r)" by (rule prod.exhaust)
  with None assms(3) have "q' = q1" "fut' = fut\<lparr>reg := Some r\<rparr>" by (auto simp: enqueue_def)
  then show ?thesis using picked_register [OF assms(1,2) None r] assms(4) by simp
next
  case (Some r)
  then obtain i c where r: "r = (i, c)" by fastforce
  with Some assms(3) have "q' = refresh_waker q i wk" "fut' = fut" by (auto simp: enqueue_def)
  moreover have "fs(f \<mapsto> fut) = fs" using assms(2) by auto
  ultimately show ?thesis by simp
qed

lemma enqueue_next_cell: "enqueue q fut s wk = (q', fut') \<Longrightarrow> next_cell q \<le> next_cell q'"
  by (auto simp: enqueue_def register_eq refresh_waker_def split: option.splits)

lemma waiters_enqueue_Nil:
  assumes "linked pend q fs" and "fs f = Some fut" and "\<not> acquired fut"
    and "enqueue q fut pend wk = (q', fut')" and "waiters q' = []"
  shows "\<exists>i c. reg fut = Some (i, c) \<and> cells q c \<noteq> pend"
proof (cases "reg fut")
  case None
  then show ?thesis using assms(4,5) by (auto simp: enqueue_def register_eq)
next
  case (Some r)
  then obtain i c where r: "r = (i, c)" by fastforce
  have "map cell (waiters q') = map cell (waiters q)"
    using assms(4) Some r by (auto simp: enqueue_def refresh_waker_def set_waker_cells)
  then have "waiters q = []" using assms(5) by simp
  moreover have "pool_ok pend q fs" using assms(1) by (simp add: linked_def)
  ultimately show ?thesis
    using pool_okD(3) [of pend q fs f fut i c] assms(2,3) Some r by auto
qed

text \<open>A one-shot cell of type \<open>bool\<close> says whether its future was selected.\<close>

definition selected :: "('k, bool, 'z) wait_queue_scheme \<Rightarrow> 'k wait_future \<Rightarrow> bool" where
  "selected q fut \<longleftrightarrow> (case reg fut of None \<Rightarrow> False | Some (i, c) \<Rightarrow> cells q c)"

lemma selected_unqueued: "selected q fut \<Longrightarrow> unqueued False q fut"
  by (auto simp: selected_def unqueued_def split: option.splits)

lemma fresh_unqueued: "reg fut = None \<Longrightarrow> unqueued pend q fut"
  by (simp add: unqueued_def)

lemma acquired_unqueued: "acquired fut \<Longrightarrow> unqueued pend q fut"
  by (simp add: unqueued_def)

abbreviation granted :: "('k, bool, 'z) wait_queue_scheme \<Rightarrow> 'k pool \<Rightarrow> nat set" where
  "granted \<equiv> picked (\<lambda>_ b. b)"

lemma granted_iff: "fs f = Some fut \<Longrightarrow> f \<in> granted q fs \<longleftrightarrow> \<not> acquired fut \<and> selected q fut"
  by (auto simp: mem_picked selected_def split: option.splits)

end
