(* ===== verification/Transition.thy ===== *)
theory Transition
  imports Prelude
begin

text \<open>
  Runs of a labelled step relation and the interface through which every component proves its
  invariant: \<open>bounded_system\<close> asks for an initial state, a step relation and an invariant that each
  step keeps while a monotone counter (registrations made, sequence numbers handed out) stays
  within a bound. The wrapping 64-bit counters of the sources make the bound necessary; a component
  without such a counter takes the constant \<open>0\<close>.
\<close>

inductive run :: "('s \<Rightarrow> 'l \<Rightarrow> 's \<Rightarrow> bool) \<Rightarrow> 's \<Rightarrow> 'l list \<Rightarrow> 's \<Rightarrow> bool" for step where
  run_Nil: "run step s [] s"
| run_snoc: "run step s ls t \<Longrightarrow> step t l u \<Longrightarrow> run step s (ls @ [l]) u"

lemma run_single: "step s l t \<Longrightarrow> run step s [l] t"
  using run_snoc [OF run_Nil] by fastforce

lemma run_trans:
  assumes "run step t ms u" and "run step s ls t"
  shows "run step s (ls @ ms) u"
  using assms
proof (induction)
  case (run_snoc t ms u l v)
  then show ?case using run.run_snoc [of step s "ls @ ms"] by simp
qed simp

lemma run_Cons: "step s l t \<Longrightarrow> run step t ls u \<Longrightarrow> run step s (l # ls) u"
  using run_trans [OF _ run_single] by fastforce

locale bounded_system =
  fixes init :: "'s \<Rightarrow> bool"
    and step :: "'s \<Rightarrow> 'l \<Rightarrow> 's \<Rightarrow> bool"
    and count :: "'s \<Rightarrow> nat"
    and bound :: nat
    and inv :: "'s \<Rightarrow> bool"
  assumes inv_init: "init s \<Longrightarrow> inv s"
    and count_mono: "step s l t \<Longrightarrow> count s \<le> count t"
    and inv_step: "inv s \<Longrightarrow> step s l t \<Longrightarrow> count s \<le> bound \<Longrightarrow> inv t"
begin

lemma count_run: "run step s ls t \<Longrightarrow> count s \<le> count t"
  by (induction rule: run.induct) (auto dest: count_mono)

lemma inv_run:
  assumes "run step s ls t" and "inv s" and "count t \<le> bound"
  shows "inv t"
  using assms
proof (induction rule: run.induct)
  case (run_snoc s ls t l u)
  then have "count t \<le> bound" using count_mono by (meson le_trans)
  with run_snoc show ?case using inv_step by blast
qed

lemma inv_reachable:
  assumes "init s" and "run step s ls t" and "count t \<le> bound"
  shows "inv t"
  using inv_run [OF assms(2) inv_init [OF assms(1)] assms(3)] .

end

end
