(* ===== verification/Semaphore.thy ===== *)
theory Semaphore
  imports Wait_Queue Transition
begin

text \<open>
  \<open>src/sync/semaphore.rs\<close>: the counting semaphore. \<open>semaphore\<close> is the shared object, an
  \<open>unit wait_future\<close> is an \<open>AcquireFuture\<close>, and a system pairs the semaphore with the futures and
  the permits that are alive. Every release, of a permit or of a grant that was never observed,
  goes to the front waiter, and the permits are conserved.
\<close>

subsection \<open>The semaphore\<close>

record semaphore = "(unit, bool) wait_queue" +
  permits :: nat

definition semaphore_new :: "nat \<Rightarrow> semaphore" where
  "semaphore_new n =
     \<lparr>next_waiter_id = 0, waiters = [], cells = (\<lambda>_. False), next_cell = 0, permits = n\<rparr>"

text \<open>\<open>try_acquire\<close>; the boolean says whether a permit was returned.\<close>

definition try_acquire :: "semaphore \<Rightarrow> semaphore \<times> bool" where
  "try_acquire s =
     (if waiters s \<noteq> [] then (s, False)
      else if permits s = 0 then (s, False)
      else (s\<lparr>permits := permits s - 1\<rparr>, True))"

text \<open>Releasing wakes the front waiter, if any; the wakers invoked are returned in order.\<close>

definition release_to_next_waiter :: "semaphore \<Rightarrow> semaphore \<times> waker list" where
  "release_to_next_waiter s =
     (case waiters s of
        w # ws \<Rightarrow> (s\<lparr>waiters := ws, cells := (cells s)(cell w := True)\<rparr>, [wwaker w])
      | [] \<Rightarrow> (s\<lparr>permits := wrapping_succ (permits s)\<rparr>, []))"

definition acquire_poll ::
  "semaphore \<Rightarrow> unit wait_future \<Rightarrow> waker \<Rightarrow> semaphore \<times> unit wait_future \<times> unit poll" where
  "acquire_poll s fut wk =
     (if selected s fut then (s, fut\<lparr>acquired := True\<rparr>, Ready ())
      else if reg fut = None \<and> waiters s = [] \<and> 0 < permits s then
        (s\<lparr>permits := permits s - 1\<rparr>, fut\<lparr>acquired := True\<rparr>, Ready ())
      else (let (s', fut') = enqueue s fut False wk in (s', fut', Pending)))"

definition acquire_drop :: "semaphore \<Rightarrow> unit wait_future \<Rightarrow> semaphore \<times> waker list" where
  "acquire_drop s fut =
     (case reg fut of
        None \<Rightarrow> (s, [])
      | Some (i, c) \<Rightarrow>
          if acquired fut then (s, [])
          else if cells s c then release_to_next_waiter s
          else (remove_waiter s i, []))"

subsection \<open>The semaphore with its futures and permits\<close>

record sem_sys =
  sem :: semaphore
  futs :: "unit pool"
  held :: nat

definition sem_init :: "nat \<Rightarrow> sem_sys \<Rightarrow> bool" where
  "sem_init n s \<longleftrightarrow> s = \<lparr>sem = semaphore_new n, futs = Map.empty, held = 0\<rparr>"

text \<open>A step is one synchronous call; its label lists the wakers it invoked. A future is polled
  until it returns \<open>Ready\<close> and no further: \<open>AcquireFuture\<close> is private and only awaited.\<close>

inductive sem_step :: "sem_sys \<Rightarrow> waker list \<Rightarrow> sem_sys \<Rightarrow> bool" where
  sem_acquire:
    "futs s f = None \<Longrightarrow> sem_step s [] (s\<lparr>futs := (futs s)(f \<mapsto> new_future ())\<rparr>)"
| sem_poll:
    "futs s f = Some fut \<Longrightarrow> \<not> acquired fut \<Longrightarrow> acquire_poll (sem s) fut wk = (q, fut', r) \<Longrightarrow>
     sem_step s [] (s\<lparr>sem := q, futs := (futs s)(f \<mapsto> fut'),
                      held := (if is_ready r then Suc (held s) else held s)\<rparr>)"
| sem_drop_future:
    "futs s f = Some fut \<Longrightarrow> acquire_drop (sem s) fut = (q, wks) \<Longrightarrow>
     sem_step s wks (s\<lparr>sem := q, futs := (futs s)(f := None)\<rparr>)"
| sem_try_acquire:
    "try_acquire (sem s) = (q, ok) \<Longrightarrow>
     sem_step s [] (s\<lparr>sem := q, held := (if ok then Suc (held s) else held s)\<rparr>)"
| sem_drop_permit:
    "0 < held s \<Longrightarrow> release_to_next_waiter (sem s) = (q, wks) \<Longrightarrow>
     sem_step s wks (s\<lparr>sem := q, held := held s - 1\<rparr>)"

inductive_cases sem_stepE: "sem_step s l t"

definition in_flight :: "sem_sys \<Rightarrow> nat" where
  "in_flight s = card (granted (sem s) (futs s))"

definition sem_inv :: "nat \<Rightarrow> sem_sys \<Rightarrow> bool" where
  "sem_inv n s \<longleftrightarrow>
     linked False (sem s) (futs s) \<and>
     permits (sem s) + held s + in_flight s = n \<and>
     (waiters (sem s) \<noteq> [] \<longrightarrow> permits (sem s) = 0)"

subsection \<open>Every call keeps the invariant\<close>

lemma sem_inv_init:
  assumes "sem_init n s" shows "sem_inv n s"
proof -
  have "linked False (semaphore_new n) Map.empty"
    by (simp add: linked_defs semaphore_new_def)
  then show ?thesis
    using assms by (simp add: sem_init_def sem_inv_def in_flight_def semaphore_new_def)
qed

text \<open>A release moves one unit to a waiter or back to the counter; it is the common tail of
  dropping a permit and of dropping a selected future.\<close>

lemma release_ok:
  assumes "linked False q fs" and "permits q + 1 < u64_modulus"
    and "waiters q \<noteq> [] \<longrightarrow> permits q = 0" and "release_to_next_waiter q = (q', wks)"
  shows "linked False q' fs"
    and "permits q' + card (granted q' fs) = Suc (permits q + card (granted q fs))"
    and "waiters q' \<noteq> [] \<longrightarrow> permits q' = 0" and "next_cell q' = next_cell q"
proof -
  have "linked False q' fs \<and>
        permits q' + card (granted q' fs) = Suc (permits q + card (granted q fs)) \<and>
        (waiters q' \<noteq> [] \<longrightarrow> permits q' = 0) \<and> next_cell q' = next_cell q"
  proof (cases "waiters q")
    case Nil
    with assms(4) have q': "q' = q\<lparr>permits := wrapping_succ (permits q)\<rparr>"
      by (simp add: release_to_next_waiter_def)
    have "linked False q' fs" using assms(1) linked_cong [of q' q] q' by simp
    moreover have "granted q' fs = granted q fs" using q' by (intro picked_cong) simp
    ultimately show ?thesis using Nil assms(2) q' by (simp add: wrapping_succ_def)
  next
    case (Cons w ws)
    with assms(4) have q': "q' = q\<lparr>waiters := ws, cells := (cells q)(cell w := True)\<rparr>"
      by (simp add: release_to_next_waiter_def)
    have "linked False q' fs" using linked_select [OF assms(1) Cons, of True q'] q' by simp
    moreover have "card (granted q' fs) = Suc (card (granted q fs))"
      using card_picked_select [OF assms(1) Cons, of q' True "\<lambda>_ b. b"] q' by simp
    ultimately show ?thesis using assms(3) Cons q' by simp
  qed
  then show "linked False q' fs"
    and "permits q' + card (granted q' fs) = Suc (permits q + card (granted q fs))"
    and "waiters q' \<noteq> [] \<longrightarrow> permits q' = 0" and "next_cell q' = next_cell q" by auto
qed

lemma sem_inv_poll:
  assumes inv: "sem_inv n s" and f: "futs s f = Some fut" "\<not> acquired fut"
    and poll: "acquire_poll (sem s) fut wk = (q, fut', r)"
  shows "sem_inv n (s\<lparr>sem := q, futs := (futs s)(f \<mapsto> fut'),
                      held := (if is_ready r then Suc (held s) else held s)\<rparr>)"
proof -
  have l: "linked False (sem s) (futs s)" and cons: "permits (sem s) + held s + in_flight s = n"
    and zero: "waiters (sem s) \<noteq> [] \<longrightarrow> permits (sem s) = 0"
    using inv by (auto simp: sem_inv_def)
  consider (sel) "selected (sem s) fut"
    | (fast) "\<not> selected (sem s) fut" "reg fut = None" "waiters (sem s) = []" "0 < permits (sem s)"
    | (slow) "\<not> selected (sem s) fut" "\<not> (reg fut = None \<and> waiters (sem s) = [] \<and> 0 < permits (sem s))"
    by argo
  then show ?thesis
  proof cases
    case sel
    then have eq: "q = sem s" "fut' = fut\<lparr>acquired := True\<rparr>" "r = Ready ()"
      using poll by (auto simp: acquire_poll_def)
    have mem: "f \<in> granted (sem s) (futs s)" using sel f granted_iff by metis
    show ?thesis
      using linked_acquire [OF l f(1) selected_unqueued [OF sel]] cons zero
        card_picked_take [OF l mem]
      by (simp add: sem_inv_def in_flight_def picked_acquire eq)
  next
    case fast
    then have eq: "q = (sem s)\<lparr>permits := permits (sem s) - 1\<rparr>" "fut' = fut\<lparr>acquired := True\<rparr>"
        "r = Ready ()"
      using poll by (auto simp: acquire_poll_def)
    have "linked False q ((futs s)(f \<mapsto> fut'))"
      using linked_acquire [OF l f(1) fresh_unqueued [OF fast(2)]]
        linked_cong [of q "sem s"] eq by simp
    moreover have "f \<notin> granted (sem s) (futs s)" using fast f granted_iff by metis
    then have "granted q ((futs s)(f \<mapsto> fut')) = granted (sem s) (futs s)"
      unfolding eq picked_acquire using picked_cong [of q "sem s"] eq by simp
    ultimately show ?thesis using fast cons by (simp add: sem_inv_def in_flight_def eq)
  next
    case slow
    obtain q1 fut1 where e: "enqueue (sem s) fut False wk = (q1, fut1)" by (rule prod.exhaust)
    then have eq: "q = q1" "fut' = fut1" "r = Pending"
      using poll slow by (auto simp: acquire_poll_def)
    have same: "permits q1 = permits (sem s)"
      using e by (auto simp: enqueue_def register_eq refresh_waker_def split: option.splits)
    have "permits (sem s) = 0" if "waiters q1 \<noteq> []"
    proof (cases "waiters (sem s)")
      case Nil
      then have "reg fut = None"
        using that e by (auto simp: enqueue_def refresh_waker_def split: option.splits)
      then show ?thesis using slow Nil by simp
    qed (use zero in simp)
    then show ?thesis
      using linked_enqueue [OF l f e] picked_enqueue [OF l f(1) e] cons
      by (simp add: sem_inv_def in_flight_def eq same)
  qed
qed

lemma sem_inv_drop_future:
  assumes inv: "sem_inv n s" and small: "n < u64_modulus" "next_cell (sem s) \<le> u64_modulus"
    and f: "futs s f = Some fut" and drop: "acquire_drop (sem s) fut = (q, wks)"
  shows "sem_inv n (s\<lparr>sem := q, futs := (futs s)(f := None)\<rparr>)"
proof -
  have l: "linked False (sem s) (futs s)" and cons: "permits (sem s) + held s + in_flight s = n"
    and zero: "waiters (sem s) \<noteq> [] \<longrightarrow> permits (sem s) = 0"
    using inv by (auto simp: sem_inv_def)
  consider (none) "reg fut = None \<or> acquired fut" | (sel) i c where "reg fut = Some (i, c)"
      "\<not> acquired fut" "cells (sem s) c"
    | (queued) i c where "reg fut = Some (i, c)" "\<not> acquired fut" "\<not> cells (sem s) c"
    by (metis option.exhaust prod.exhaust)
  then show ?thesis
  proof cases
    case none
    then have q: "q = sem s" using drop by (auto simp: acquire_drop_def split: option.splits)
    have "f \<notin> granted (sem s) (futs s)" using none f by (auto simp: mem_picked)
    then show ?thesis
      using linked_drop_unqueued [OF l f] none cons zero
      by (auto simp: sem_inv_def in_flight_def q picked_drop unqueued_def)
  next
    case (sel i c)
    then have rel: "release_to_next_waiter (sem s) = (q, wks)"
      using drop by (simp add: acquire_drop_def)
    have mem: "f \<in> granted (sem s) (futs s)" using sel f by (simp add: mem_picked)
    note take = card_picked_take [OF l mem]
    let ?fs = "(futs s)(f := None)"
    have l': "linked False (sem s) ?fs"
      using linked_drop_unqueued [OF l f] sel by (simp add: unqueued_def)
    have less: "permits (sem s) + 1 < u64_modulus \<or> permits (sem s) + 1 = n"
      using cons take small(1) by (simp add: in_flight_def)
    have "permits (sem s) + 1 < u64_modulus" using less small(1) by auto
    note r = release_ok [OF l' this zero rel]
    have "permits q + held s + card (granted q ?fs) = n"
      using r(2) take cons by (simp add: in_flight_def picked_drop)
    then show ?thesis using r by (simp add: sem_inv_def in_flight_def)
  next
    case (queued i c)
    then have q: "q = remove_waiter (sem s) i" using drop by (simp add: acquire_drop_def)
    have "f \<notin> granted (sem s) (futs s)" using queued f by (simp add: mem_picked)
    moreover have "waiters (sem s) \<noteq> []" if "waiters q \<noteq> []" using that q by (auto simp: remove_waiter_def)
    moreover have "permits q = permits (sem s)" by (simp add: q remove_waiter_def)
    ultimately show ?thesis
      using linked_drop_queued [OF l small(2) f queued(1,2)] queued(3) cons zero
      by (simp add: sem_inv_def in_flight_def q picked_drop)
  qed
qed

lemma sem_inv_try_acquire:
  assumes "sem_inv n s" and "try_acquire (sem s) = (q, ok)"
  shows "sem_inv n (s\<lparr>sem := q, held := (if ok then Suc (held s) else held s)\<rparr>)"
proof (cases ok)
  case True
  then have q: "q = (sem s)\<lparr>permits := permits (sem s) - 1\<rparr>" "waiters (sem s) = []" "0 < permits (sem s)"
    using assms(2) by (auto simp: try_acquire_def split: if_splits)
  have "linked False q (futs s) = linked False (sem s) (futs s)"
    using q(1) by (intro linked_cong) simp_all
  moreover have "granted q (futs s) = granted (sem s) (futs s)"
    using q(1) by (intro picked_cong) simp
  ultimately show ?thesis using True assms(1) q by (simp add: sem_inv_def in_flight_def)
next
  case False
  then have "q = sem s" using assms(2) by (auto simp: try_acquire_def split: if_splits)
  then show ?thesis using False assms(1) by (simp add: sem_inv_def in_flight_def)
qed

lemma sem_inv_drop_permit:
  assumes inv: "sem_inv n s" and small: "n < u64_modulus" and "0 < held s"
    and rel: "release_to_next_waiter (sem s) = (q, wks)"
  shows "sem_inv n (s\<lparr>sem := q, held := held s - 1\<rparr>)"
proof -
  have l: "linked False (sem s) (futs s)" and cons: "permits (sem s) + held s + in_flight s = n"
    and zero: "waiters (sem s) \<noteq> [] \<longrightarrow> permits (sem s) = 0"
    using inv by (auto simp: sem_inv_def)
  have "permits (sem s) < n" using cons assms(3) by simp
  then have "permits (sem s) + 1 < u64_modulus" using small by simp
  note r = release_ok [OF l this zero rel]
  show ?thesis using r cons assms(3) by (simp add: sem_inv_def in_flight_def)
qed

lemma sem_inv_step:
  assumes "sem_inv n s" and "sem_step s l t" and "n < u64_modulus"
    and "next_cell (sem s) \<le> u64_modulus"
  shows "sem_inv n t"
  using assms(2)
proof cases
  case (sem_acquire f)
  then show ?thesis
    using assms(1) linked_new [of False "sem s" "futs s" f "()"]
    by (simp add: sem_inv_def in_flight_def picked_new)
next
  case sem_poll
  then show ?thesis using sem_inv_poll assms(1) by blast
next
  case sem_drop_future
  then show ?thesis using sem_inv_drop_future assms by blast
next
  case sem_try_acquire
  then show ?thesis using sem_inv_try_acquire assms(1) by blast
next
  case sem_drop_permit
  then show ?thesis using sem_inv_drop_permit assms by blast
qed

lemma next_cell_release: "release_to_next_waiter q = (q', wks) \<Longrightarrow> next_cell q' = next_cell q"
  by (auto simp: release_to_next_waiter_def split: list.splits)

lemma sem_step_next_cell: "sem_step s l t \<Longrightarrow> next_cell (sem s) \<le> next_cell (sem t)"
  by (erule sem_stepE)
    (auto simp: acquire_poll_def acquire_drop_def try_acquire_def remove_waiter_def
      dest: enqueue_next_cell next_cell_release split: if_splits prod.splits option.splits)

interpretation sems: bounded_system "sem_init n" sem_step "next_cell \<circ> sem" u64_modulus "\<lambda>s. n < u64_modulus \<longrightarrow> sem_inv n s"
  for n
  by unfold_locales (auto simp: sem_inv_init sem_step_next_cell intro: sem_inv_step)

subsection \<open>Properties\<close>

text \<open>A sample run: one permit is taken, a future queues behind it with waker 7, and dropping the
  permit hands it over.\<close>

definition sem_demo_start :: sem_sys where
  "sem_demo_start = \<lparr>sem = semaphore_new 1, futs = Map.empty, held = 0\<rparr>"

definition sem_demo_queued :: sem_sys where
  "sem_demo_queued =
     \<lparr>sem = \<lparr>next_waiter_id = 1, waiters = [\<lparr>wid = 0, wkind = (), cell = 0, wwaker = 7\<rparr>],
             cells = (\<lambda>_. False)(0 := False), next_cell = 1, permits = 0\<rparr>,
      futs = [0 \<mapsto> \<lparr>fkind = (), reg = Some (0, 0), acquired = False\<rparr>], held = 1\<rparr>"

definition sem_demo_end :: sem_sys where
  "sem_demo_end =
     \<lparr>sem = \<lparr>next_waiter_id = 1, waiters = [], cells = (\<lambda>_. False)(0 := True), next_cell = 1,
             permits = 0\<rparr>,
      futs = [0 \<mapsto> \<lparr>fkind = (), reg = Some (0, 0), acquired = False\<rparr>], held = 0\<rparr>"

lemma sem_demo_run:
  "run sem_step sem_demo_start [[], [], []] sem_demo_queued"
  "sem_step sem_demo_queued [7] sem_demo_end"
proof -
  let ?s1 = "sem_demo_start\<lparr>sem := (semaphore_new 1)\<lparr>permits := 0\<rparr>, held := 1\<rparr>"
  let ?s2 = "?s1\<lparr>futs := [0 \<mapsto> new_future ()]\<rparr>"
  have 1: "sem_step sem_demo_start [] ?s1"
    using sem_try_acquire [of sem_demo_start "(semaphore_new 1)\<lparr>permits := 0\<rparr>" True]
    by (simp add: sem_demo_start_def try_acquire_def semaphore_new_def)
  have 2: "sem_step ?s1 [] ?s2"
    using sem_acquire [of ?s1 0] by (simp add: sem_demo_start_def)
  have 3: "sem_step ?s2 [] sem_demo_queued"
    using sem_poll [of ?s2 0 "new_future ()" 7]
    by (simp add: sem_demo_start_def sem_demo_queued_def acquire_poll_def enqueue_def register_eq
        new_future_def selected_def semaphore_new_def wrapping_succ_def u64_modulus_def)
  show "run sem_step sem_demo_start [[], [], []] sem_demo_queued"
    by (rule run_Cons, rule 1, rule run_Cons, rule 2, rule run_Cons, rule 3, rule run_Nil)
  show "sem_step sem_demo_queued [7] sem_demo_end"
    using sem_drop_permit [of sem_demo_queued]
    by (simp add: sem_demo_queued_def sem_demo_end_def release_to_next_waiter_def)
qed

lemma sem_demo_full_run: "run sem_step sem_demo_start [[], [], [], [7]] sem_demo_end"
  using run_snoc [OF sem_demo_run] by simp

lemma sem_demo_init: "sem_init 1 sem_demo_start"
  by (simp add: sem_init_def sem_demo_start_def)

text \<open>(C7) Permits are conserved: in every reachable state the free permits, the live
  \<open>SemaphorePermit\<close>s and the grants in flight to selected futures add up to the number the semaphore
  was created with (below \<open>2 ^ 64\<close>, with at most \<open>2 ^ 64\<close> registrations), so the release counter
  never wraps, and no permit is free while somebody waits.\<close>

theorem semaphore_conservation:
  assumes "sem_init n s" and "run sem_step s ls t"
    and "n < u64_modulus" and "next_cell (sem t) \<le> u64_modulus"
  shows "permits (sem t) + held t + in_flight t = n \<and>
    (waiters (sem t) \<noteq> [] \<longrightarrow> permits (sem t) = 0)"
  using sems.inv_reachable [OF assms(1,2)] assms(3,4) by (auto simp: sem_inv_def)

theorem semaphore_conservation_witness:
  "permits (sem sem_demo_end) = 0 \<and> held sem_demo_end = 0 \<and> in_flight sem_demo_end = 1"
  using semaphore_conservation [OF sem_demo_init sem_demo_full_run]
  by (simp add: sem_demo_end_def u64_modulus_def)

text \<open>The queue is FIFO: a registration that was ever selected is older than every waiter still
  queued, and the queue itself is ordered by registration.\<close>

theorem semaphore_fifo:
  assumes "sem_init n s" and "run sem_step s ls t"
    and "n < u64_modulus" and "next_cell (sem t) \<le> u64_modulus"
  shows "sorted_wrt (<) (map cell (waiters (sem t))) \<and>
    (\<forall>w \<in> set (waiters (sem t)). \<forall>c < next_cell (sem t). cells (sem t) c \<longrightarrow> c < cell w)"
  using sems.inv_reachable [OF assms(1,2)] assms(3,4)
  by (auto simp: sem_inv_def linked_def queue_ok_def unovertaken_def)

theorem semaphore_fifo_witness:
  "sorted_wrt (<) (map cell (waiters (sem sem_demo_queued)))"
  using semaphore_fifo [OF sem_demo_init sem_demo_run(1)]
  by (simp add: sem_demo_queued_def u64_modulus_def)

text \<open>Wake-ups are not lost: when no permit is held and no grant is in flight, a semaphore with at
  least one permit has no waiter left, whatever was acquired, cancelled or dropped before.\<close>

theorem semaphore_no_lost_wakeup:
  assumes "sem_init n s" and "run sem_step s ls t"
    and "0 < n" "n < u64_modulus" "next_cell (sem t) \<le> u64_modulus"
    and "held t = 0" "in_flight t = 0"
  shows "waiters (sem t) = [] \<and> permits (sem t) = n"
  using sems.inv_reachable [OF assms(1,2)] assms(3-) by (auto simp: sem_inv_def)

theorem semaphore_no_lost_wakeup_witness:
  "waiters (sem sem_demo_start) = [] \<and> permits (sem sem_demo_start) = 1"
  using semaphore_no_lost_wakeup [OF sem_demo_init run_Nil]
  by (simp add: sem_demo_start_def u64_modulus_def semaphore_new_def in_flight_def)

end
