(* ===== verification/Mutex.thy ===== *)
theory Mutex
  imports Semaphore
begin

text \<open>
  \<open>src/sync/mutex.rs\<close>: the mutex, with its \<open>LockFuture\<close> as \<open>unit wait_future\<close>. It is related to the
  semaphore with one permit by a simulation (a locked mutex is a semaphore without a free permit),
  which carries the semaphore's invariant over; mutual exclusion of the guards follows.
\<close>

record mutex = "(unit, bool) wait_queue" +
  locked :: bool

definition mutex_new :: mutex where
  "mutex_new =
     \<lparr>next_waiter_id = 0, waiters = [], cells = (\<lambda>_. False), next_cell = 0, locked = False\<rparr>"

definition try_lock :: "mutex \<Rightarrow> mutex \<times> bool" where
  "try_lock m =
     (if locked m \<or> waiters m \<noteq> [] then (m, False) else (m\<lparr>locked := True\<rparr>, True))"

definition mutex_release_to_next_waiter :: "mutex \<Rightarrow> mutex \<times> waker list" where
  "mutex_release_to_next_waiter m =
     (case waiters m of
        w # ws \<Rightarrow>
          (m\<lparr>waiters := ws, cells := (cells m)(cell w := True), locked := True\<rparr>, [wwaker w])
      | [] \<Rightarrow> (m\<lparr>locked := False\<rparr>, []))"

definition lock_poll ::
  "mutex \<Rightarrow> unit wait_future \<Rightarrow> waker \<Rightarrow> mutex \<times> unit wait_future \<times> unit poll" where
  "lock_poll m fut wk =
     (if selected m fut then (m, fut\<lparr>acquired := True\<rparr>, Ready ())
      else if reg fut = None \<and> \<not> locked m \<and> waiters m = [] then
        (m\<lparr>locked := True\<rparr>, fut\<lparr>acquired := True\<rparr>, Ready ())
      else (let (m', fut') = enqueue m fut False wk in (m', fut', Pending)))"

definition lock_drop :: "mutex \<Rightarrow> unit wait_future \<Rightarrow> mutex \<times> waker list" where
  "lock_drop m fut =
     (case reg fut of
        None \<Rightarrow> (m, [])
      | Some (i, c) \<Rightarrow>
          if acquired fut then (m, [])
          else if cells m c then mutex_release_to_next_waiter m
          else (remove_waiter m i, []))"

subsection \<open>The mutex with its futures and guards\<close>

record mutex_sys =
  mtx :: mutex
  lock_futs :: "unit pool"
  guards :: nat

definition mutex_init :: "mutex_sys \<Rightarrow> bool" where
  "mutex_init s \<longleftrightarrow> s = \<lparr>mtx = mutex_new, lock_futs = Map.empty, guards = 0\<rparr>"

inductive mutex_step :: "mutex_sys \<Rightarrow> waker list \<Rightarrow> mutex_sys \<Rightarrow> bool" where
  mutex_lock:
    "lock_futs s f = None \<Longrightarrow> mutex_step s [] (s\<lparr>lock_futs := (lock_futs s)(f \<mapsto> new_future ())\<rparr>)"
| mutex_poll:
    "lock_futs s f = Some fut \<Longrightarrow> \<not> acquired fut \<Longrightarrow> lock_poll (mtx s) fut wk = (m, fut', r) \<Longrightarrow>
     mutex_step s [] (s\<lparr>mtx := m, lock_futs := (lock_futs s)(f \<mapsto> fut'),
                        guards := (if is_ready r then Suc (guards s) else guards s)\<rparr>)"
| mutex_drop_future:
    "lock_futs s f = Some fut \<Longrightarrow> lock_drop (mtx s) fut = (m, wks) \<Longrightarrow>
     mutex_step s wks (s\<lparr>mtx := m, lock_futs := (lock_futs s)(f := None)\<rparr>)"
| mutex_try_lock:
    "try_lock (mtx s) = (m, ok) \<Longrightarrow>
     mutex_step s [] (s\<lparr>mtx := m, guards := (if ok then Suc (guards s) else guards s)\<rparr>)"
| mutex_drop_guard:
    "0 < guards s \<Longrightarrow> mutex_release_to_next_waiter (mtx s) = (m, wks) \<Longrightarrow>
     mutex_step s wks (s\<lparr>mtx := m, guards := guards s - 1\<rparr>)"

inductive_cases mutex_stepE: "mutex_step s l t"

subsection \<open>A mutex is a semaphore with one permit\<close>

definition abs_mutex :: "mutex \<Rightarrow> semaphore" where
  "abs_mutex m =
     \<lparr>next_waiter_id = next_waiter_id m, waiters = waiters m, cells = cells m,
      next_cell = next_cell m, permits = (if locked m then 0 else 1)\<rparr>"

definition abs_mutex_sys :: "mutex_sys \<Rightarrow> sem_sys" where
  "abs_mutex_sys s = \<lparr>sem = abs_mutex (mtx s), futs = lock_futs s, held = guards s\<rparr>"

lemma abs_mutex_sels [simp]:
  "next_waiter_id (abs_mutex m) = next_waiter_id m" "waiters (abs_mutex m) = waiters m"
  "cells (abs_mutex m) = cells m" "next_cell (abs_mutex m) = next_cell m"
  "permits (abs_mutex m) = (if locked m then 0 else 1)"
  by (simp_all add: abs_mutex_def)

lemma abs_mutex_sys_sels [simp]:
  "sem (abs_mutex_sys s) = abs_mutex (mtx s)" "futs (abs_mutex_sys s) = lock_futs s"
  "held (abs_mutex_sys s) = guards s"
  by (simp_all add: abs_mutex_sys_def)

lemma abs_selected [simp]: "selected (abs_mutex m) fut = selected m fut"
  by (simp add: selected_def split: option.split)

lemma abs_lock: "(abs_mutex m)\<lparr>permits := 0\<rparr> = abs_mutex (m\<lparr>locked := True\<rparr>)"
  by (simp add: abs_mutex_def)

lemma abs_try_lock: "try_acquire (abs_mutex m) = (case try_lock m of (m', b) \<Rightarrow> (abs_mutex m', b))"
  by (simp add: try_acquire_def try_lock_def abs_mutex_def)

lemma abs_release:
  "waiters m = [] \<longrightarrow> locked m \<Longrightarrow> waiters m \<noteq> [] \<longrightarrow> locked m \<Longrightarrow>
   release_to_next_waiter (abs_mutex m) =
     (case mutex_release_to_next_waiter m of (m', w) \<Rightarrow> (abs_mutex m', w))"
  by (cases "waiters m")
    (simp_all add: release_to_next_waiter_def mutex_release_to_next_waiter_def abs_mutex_def
      wrapping_succ_def u64_modulus_def)

lemma abs_enqueue:
  "enqueue (abs_mutex m) fut b wk = (case enqueue m fut b wk of (m', f') \<Rightarrow> (abs_mutex m', f'))"
  by (simp add: enqueue_def register_eq refresh_waker_def abs_mutex_def split: option.split)

lemma abs_lock_poll:
  "acquire_poll (abs_mutex m) fut wk = (case lock_poll m fut wk of (m', f', r) \<Rightarrow> (abs_mutex m', f', r))"
  by (auto simp: acquire_poll_def lock_poll_def abs_enqueue abs_lock split: prod.splits)

lemma abs_lock_drop:
  assumes "locked m \<or> \<not> selected m fut \<or> acquired fut"
  shows "acquire_drop (abs_mutex m) fut = (case lock_drop m fut of (m', w) \<Rightarrow> (abs_mutex m', w))"
  using assms
  by (auto simp: acquire_drop_def lock_drop_def selected_def abs_release split: option.split)
    (simp_all add: remove_waiter_def abs_mutex_def)

text \<open>Whoever releases owns the single permit, so the mutex is locked then.\<close>

lemma sem_inv_locked:
  assumes "sem_inv 1 (abs_mutex_sys s)"
    and "0 < guards s \<or> (\<exists>f fut. lock_futs s f = Some fut \<and> \<not> acquired fut \<and> selected (mtx s) fut)"
  shows "locked (mtx s)"
proof -
  have l: "linked False (abs_mutex (mtx s)) (lock_futs s)"
    and cons: "permits (abs_mutex (mtx s)) + guards s + in_flight (abs_mutex_sys s) = 1"
    using assms(1) by (auto simp: sem_inv_def)
  have "0 < in_flight (abs_mutex_sys s)"
    if "lock_futs s f = Some fut" "\<not> acquired fut" "selected (mtx s) fut" for f fut
  proof -
    have "f \<in> granted (abs_mutex (mtx s)) (lock_futs s)"
      using granted_iff [of "lock_futs s" f fut "abs_mutex (mtx s)"] that by simp
    then show ?thesis
      using card_gt_0_iff picked_finite [OF l] by (fastforce simp: in_flight_def)
  qed
  then have "0 < guards s + in_flight (abs_mutex_sys s)" using assms(2) by fastforce
  then show ?thesis using cons by (auto split: if_splits)
qed

lemma mutex_simulation:
  assumes "sem_inv 1 (abs_mutex_sys s)" and "mutex_step s l t"
  shows "sem_step (abs_mutex_sys s) l (abs_mutex_sys t)"
  using assms(2)
proof cases
  case (mutex_lock f)
  then show ?thesis
    using sem_acquire [of "abs_mutex_sys s" f] by (simp add: abs_mutex_sys_def)
next
  case (mutex_poll f fut wk m fut' r)
  then show ?thesis
    using sem_poll [of "abs_mutex_sys s" f fut wk "abs_mutex m" fut' r]
    by (cases "is_ready r") (simp_all add: abs_mutex_sys_def abs_lock_poll)
next
  case (mutex_drop_future f fut m)
  then have "locked (mtx s) \<or> \<not> selected (mtx s) fut \<or> acquired fut"
    using sem_inv_locked [OF assms(1)] by blast
  then show ?thesis
    using sem_drop_future [of "abs_mutex_sys s" f fut "abs_mutex m" l] mutex_drop_future
    by (simp add: abs_mutex_sys_def abs_lock_drop)
next
  case (mutex_try_lock m ok)
  then show ?thesis
    using sem_try_acquire [of "abs_mutex_sys s" "abs_mutex m" ok]
    by (cases ok) (simp_all add: abs_mutex_sys_def abs_try_lock)
next
  case (mutex_drop_guard m)
  then have "locked (mtx s)" using sem_inv_locked [OF assms(1)] by blast
  then show ?thesis
    using sem_drop_permit [of "abs_mutex_sys s" "abs_mutex m" l] mutex_drop_guard
    by (simp add: abs_mutex_sys_def abs_release)
qed

definition mutex_inv :: "mutex_sys \<Rightarrow> bool" where
  "mutex_inv s \<longleftrightarrow> sem_inv 1 (abs_mutex_sys s)"

interpretation mutexes: bounded_system mutex_init mutex_step "next_cell \<circ> mtx" u64_modulus mutex_inv
proof
  fix s t l
  show "mutex_inv s" if "mutex_init s"
    using that sem_inv_init [of 1 "abs_mutex_sys s"]
    by (simp add: mutex_init_def mutex_inv_def abs_mutex_sys_def sem_init_def abs_mutex_def
        mutex_new_def semaphore_new_def)
  show "(next_cell \<circ> mtx) s \<le> (next_cell \<circ> mtx) t" if "mutex_step s l t"
    using that
    by (rule mutex_stepE)
      (auto simp: lock_poll_def lock_drop_def try_lock_def mutex_release_to_next_waiter_def
        remove_waiter_def dest: enqueue_next_cell split: if_splits prod.splits option.splits list.splits)
  show "mutex_inv t" if "mutex_inv s" "mutex_step s l t" "(next_cell \<circ> mtx) s \<le> u64_modulus"
    using sem_inv_step [of 1 "abs_mutex_sys s" l "abs_mutex_sys t"] mutex_simulation that
    by (simp add: mutex_inv_def u64_modulus_def)
qed

subsection \<open>Properties\<close>

text \<open>A sample run: \<open>try_lock\<close> takes the mutex, a \<open>lock\<close> future queues with waker 7, and dropping the
  guard hands the mutex over, locked.\<close>

definition mutex_demo_start :: mutex_sys where
  "mutex_demo_start = \<lparr>mtx = mutex_new, lock_futs = Map.empty, guards = 0\<rparr>"

definition mutex_demo_end :: mutex_sys where
  "mutex_demo_end =
     \<lparr>mtx = \<lparr>next_waiter_id = 1, waiters = [], cells = (\<lambda>_. False)(0 := True), next_cell = 1,
             locked = True\<rparr>,
      lock_futs = [0 \<mapsto> \<lparr>fkind = (), reg = Some (0, 0), acquired = False\<rparr>], guards = 0\<rparr>"

lemma mutex_demo_run: "run mutex_step mutex_demo_start [[], [], [], [7]] mutex_demo_end"
proof -
  let ?s1 = "mutex_demo_start\<lparr>mtx := mutex_new\<lparr>locked := True\<rparr>, guards := 1\<rparr>"
  let ?s2 = "?s1\<lparr>lock_futs := [0 \<mapsto> new_future ()]\<rparr>"
  let ?s3 = "\<lparr>mtx = \<lparr>next_waiter_id = 1, waiters = [\<lparr>wid = 0, wkind = (), cell = 0, wwaker = 7\<rparr>],
             cells = (\<lambda>_. False)(0 := False), next_cell = 1, locked = True\<rparr>,
      lock_futs = [0 \<mapsto> \<lparr>fkind = (), reg = Some (0, 0), acquired = False\<rparr>], guards = 1\<rparr>"
  have 1: "mutex_step mutex_demo_start [] ?s1"
    using mutex_try_lock [of mutex_demo_start "mutex_new\<lparr>locked := True\<rparr>" True]
    by (simp add: mutex_demo_start_def try_lock_def mutex_new_def)
  have 2: "mutex_step ?s1 [] ?s2"
    using mutex_lock [of ?s1 0] by (simp add: mutex_demo_start_def)
  have 3: "mutex_step ?s2 [] ?s3"
    using mutex_poll [of ?s2 0 "new_future ()" 7]
    by (simp add: mutex_demo_start_def lock_poll_def enqueue_def register_eq
        new_future_def selected_def mutex_new_def wrapping_succ_def u64_modulus_def)
  have 4: "mutex_step ?s3 [7] mutex_demo_end"
    using mutex_drop_guard [of ?s3]
    by (simp add: mutex_demo_end_def mutex_release_to_next_waiter_def)
  show ?thesis
    by (rule run_Cons, rule 1, rule run_Cons, rule 2, rule run_Cons, rule 3, rule run_Cons, rule 4,
        rule run_Nil)
qed

lemma mutex_demo_init: "mutex_init mutex_demo_start"
  by (simp add: mutex_init_def mutex_demo_start_def)

text \<open>Mutual exclusion: at most one \<open>MutexGuard\<close> is alive in any reachable state, the mutex is
  locked exactly when a guard is alive or a hand-over is in flight, and a waiting task implies it is
  locked, so its wake-up cannot be lost.\<close>

theorem mutex_exclusion:
  assumes "mutex_init s" and "run mutex_step s ls t" and "next_cell (mtx t) \<le> u64_modulus"
  shows "guards t \<le> 1 \<and>
    (locked (mtx t) \<longleftrightarrow> guards t + card (granted (mtx t) (lock_futs t)) = 1) \<and>
    (waiters (mtx t) \<noteq> [] \<longrightarrow> locked (mtx t))"
proof -
  have inv: "sem_inv 1 (abs_mutex_sys t)"
    using mutexes.inv_reachable [OF assms(1,2)] assms(3) by (simp add: mutex_inv_def)
  have "granted (abs_mutex (mtx t)) (lock_futs t) = granted (mtx t) (lock_futs t)"
    by (auto simp: picked_def)
  then show ?thesis
    using inv by (auto simp: sem_inv_def in_flight_def split: if_splits)
qed

theorem mutex_exclusion_witness:
  "guards mutex_demo_end + card (granted (mtx mutex_demo_end) (lock_futs mutex_demo_end)) = 1"
  using mutex_exclusion [OF mutex_demo_init mutex_demo_run]
  by (simp add: mutex_demo_end_def u64_modulus_def)

text \<open>(C23) Every run of the mutex is a run of the semaphore created with one permit, with the same
  wake-ups, under the abstraction that reads a locked mutex as no free permit.\<close>

theorem mutex_refines_semaphore:
  assumes "mutex_init s" and "run mutex_step s ls t" and "next_cell (mtx t) \<le> u64_modulus"
  shows "run sem_step (abs_mutex_sys s) ls (abs_mutex_sys t)"
  using assms(2,1,3)
proof (induction rule: run.induct)
  case (run_snoc s ls t l u)
  then have "(next_cell \<circ> mtx) t \<le> (next_cell \<circ> mtx) u" using mutexes.count_mono by blast
  then have small: "next_cell (mtx t) \<le> u64_modulus" using run_snoc.prems by simp
  then have "mutex_inv t" using mutexes.inv_reachable run_snoc by simp
  then have "sem_step (abs_mutex_sys t) l (abs_mutex_sys u)"
    using mutex_simulation run_snoc(2) by (simp add: mutex_inv_def)
  then show ?case
    by (rule run.run_snoc [OF run_snoc.IH [OF run_snoc.prems(1) small]])
qed (rule run_Nil)

theorem mutex_refines_semaphore_witness:
  "run sem_step (abs_mutex_sys mutex_demo_start) [[], [], [], [7]] (abs_mutex_sys mutex_demo_end)"
  using mutex_refines_semaphore [OF mutex_demo_init mutex_demo_run]
  by (simp add: mutex_demo_end_def u64_modulus_def)

end
