(* ===== verification/Rw_Lock.thy ===== *)
theory Rw_Lock
  imports Wait_Queue Transition
begin

text \<open>
  \<open>src/sync/rw_lock.rs\<close>: the reader/writer lock. Readers and writers share one FIFO queue; when the
  lock becomes free the front writer, or the whole run of readers at the front, is admitted.
  \<open>readers\<close> counts live read guards and grants in flight, each of which occupies memory, so its
  increments cannot reach \<open>2 ^ 64\<close>; the decrement in \<open>release_reader\<close> is checked, and the invariant
  shows that it never underflows.
\<close>

subsection \<open>The lock\<close>

datatype waiter_kind = Read | Write

record rw_lock = "(waiter_kind, bool) wait_queue" +
  readers :: nat
  writer :: bool

definition rw_new :: rw_lock where
  "rw_new =
     \<lparr>next_waiter_id = 0, waiters = [], cells = (\<lambda>_. False), next_cell = 0, readers = 0,
      writer = False\<rparr>"

definition try_read :: "rw_lock \<Rightarrow> rw_lock \<times> bool" where
  "try_read l =
     (if writer l \<or> waiters l \<noteq> [] then (l, False) else (l\<lparr>readers := readers l + 1\<rparr>, True))"

definition try_write :: "rw_lock \<Rightarrow> rw_lock \<times> bool" where
  "try_write l =
     (if writer l \<or> 0 < readers l \<or> waiters l \<noteq> [] then (l, False)
      else (l\<lparr>writer := True\<rparr>, True))"

text \<open>The \<open>while\<close> loop that admits the readers at the front of the queue.\<close>

fun grant_readers :: "waiter_kind waiter list \<Rightarrow> rw_lock \<Rightarrow> rw_lock \<times> waker list" where
  "grant_readers [] l = (l, [])"
| "grant_readers (w # ws) l =
     (if wkind w = Read then
        let (l', wks) =
          grant_readers ws
            (l\<lparr>waiters := ws, cells := (cells l)(cell w := True), readers := readers l + 1\<rparr>)
        in (l', wwaker w # wks)
      else (l, []))"

definition release_to_next_waiters :: "rw_lock \<Rightarrow> rw_lock \<times> waker list" where
  "release_to_next_waiters l =
     (if writer l \<or> 0 < readers l then (l, [])
      else case waiters l of
        [] \<Rightarrow> (l, [])
      | w # ws \<Rightarrow>
          (case wkind w of
             Write \<Rightarrow>
               (l\<lparr>waiters := ws, cells := (cells l)(cell w := True), writer := True\<rparr>, [wwaker w])
           | Read \<Rightarrow> grant_readers (waiters l) l))"

definition release_reader :: "rw_lock \<Rightarrow> (rw_lock \<times> waker list) panics" where
  "release_reader l =
     (case checked_sub (readers l) 1 of
        None \<Rightarrow> panic
      | Some n \<Rightarrow>
          let l' = l\<lparr>readers := n\<rparr>
          in Some (if n = 0 then release_to_next_waiters l' else (l', [])))"

definition release_writer :: "rw_lock \<Rightarrow> rw_lock \<times> waker list" where
  "release_writer l = release_to_next_waiters (l\<lparr>writer := False\<rparr>)"

definition read_poll ::
  "rw_lock \<Rightarrow> waiter_kind wait_future \<Rightarrow> waker \<Rightarrow> rw_lock \<times> waiter_kind wait_future \<times> unit poll" where
  "read_poll l fut wk =
     (if selected l fut then (l, fut\<lparr>acquired := True\<rparr>, Ready ())
      else if reg fut = None \<and> \<not> writer l \<and> waiters l = [] then
        (l\<lparr>readers := readers l + 1\<rparr>, fut\<lparr>acquired := True\<rparr>, Ready ())
      else (let (l', fut') = enqueue l fut False wk in (l', fut', Pending)))"

definition write_poll ::
  "rw_lock \<Rightarrow> waiter_kind wait_future \<Rightarrow> waker \<Rightarrow> rw_lock \<times> waiter_kind wait_future \<times> unit poll" where
  "write_poll l fut wk =
     (if selected l fut then (l, fut\<lparr>acquired := True\<rparr>, Ready ())
      else if reg fut = None \<and> \<not> writer l \<and> readers l = 0 \<and> waiters l = [] then
        (l\<lparr>writer := True\<rparr>, fut\<lparr>acquired := True\<rparr>, Ready ())
      else (let (l', fut') = enqueue l fut False wk in (l', fut', Pending)))"

definition read_drop :: "rw_lock \<Rightarrow> waiter_kind wait_future \<Rightarrow> (rw_lock \<times> waker list) panics" where
  "read_drop l fut =
     (case reg fut of
        None \<Rightarrow> Some (l, [])
      | Some (i, c) \<Rightarrow>
          if acquired fut then Some (l, [])
          else if cells l c then release_reader l
          else Some (remove_waiter l i, []))"

definition write_drop :: "rw_lock \<Rightarrow> waiter_kind wait_future \<Rightarrow> rw_lock \<times> waker list" where
  "write_drop l fut =
     (case reg fut of
        None \<Rightarrow> (l, [])
      | Some (i, c) \<Rightarrow>
          if acquired fut then (l, [])
          else if cells l c then release_writer l
          else (remove_waiter l i, []))"

text \<open>Both future types side by side; the kind of a future says which it is.\<close>

definition rw_poll ::
  "rw_lock \<Rightarrow> waiter_kind wait_future \<Rightarrow> waker \<Rightarrow> rw_lock \<times> waiter_kind wait_future \<times> unit poll" where
  "rw_poll l fut wk = (case fkind fut of Read \<Rightarrow> read_poll l fut wk | Write \<Rightarrow> write_poll l fut wk)"

definition rw_drop :: "rw_lock \<Rightarrow> waiter_kind wait_future \<Rightarrow> (rw_lock \<times> waker list) panics" where
  "rw_drop l fut = (case fkind fut of Read \<Rightarrow> read_drop l fut | Write \<Rightarrow> Some (write_drop l fut))"

subsection \<open>The lock with its futures and guards\<close>

record rw_sys =
  rw :: rw_lock
  rfuts :: "waiter_kind pool"
  read_guards :: nat
  write_guards :: nat

definition rw_init :: "rw_sys \<Rightarrow> bool" where
  "rw_init s \<longleftrightarrow> s = \<lparr>rw = rw_new, rfuts = Map.empty, read_guards = 0, write_guards = 0\<rparr>"

definition admit :: "waiter_kind \<Rightarrow> bool \<Rightarrow> rw_sys \<Rightarrow> rw_sys" where
  "admit k ok s =
     (if \<not> ok then s
      else case k of Read \<Rightarrow> s\<lparr>read_guards := Suc (read_guards s)\<rparr>
                   | Write \<Rightarrow> s\<lparr>write_guards := Suc (write_guards s)\<rparr>)"

inductive rw_step :: "rw_sys \<Rightarrow> waker list \<Rightarrow> rw_sys \<Rightarrow> bool" where
  rw_future:
    "rfuts s f = None \<Longrightarrow> rw_step s [] (s\<lparr>rfuts := (rfuts s)(f \<mapsto> new_future k)\<rparr>)"
| rw_polled:
    "rfuts s f = Some fut \<Longrightarrow> \<not> acquired fut \<Longrightarrow> rw_poll (rw s) fut wk = (l, fut', r) \<Longrightarrow>
     rw_step s [] (admit (fkind fut) (is_ready r) (s\<lparr>rw := l, rfuts := (rfuts s)(f \<mapsto> fut')\<rparr>))"
| rw_drop_future:
    "rfuts s f = Some fut \<Longrightarrow> rw_drop (rw s) fut = Some (l, wks) \<Longrightarrow>
     rw_step s wks (s\<lparr>rw := l, rfuts := (rfuts s)(f := None)\<rparr>)"
| rw_try_read:
    "try_read (rw s) = (l, ok) \<Longrightarrow> rw_step s [] (admit Read ok (s\<lparr>rw := l\<rparr>))"
| rw_try_write:
    "try_write (rw s) = (l, ok) \<Longrightarrow> rw_step s [] (admit Write ok (s\<lparr>rw := l\<rparr>))"
| rw_drop_read_guard:
    "0 < read_guards s \<Longrightarrow> release_reader (rw s) = Some (l, wks) \<Longrightarrow>
     rw_step s wks (s\<lparr>rw := l, read_guards := read_guards s - 1\<rparr>)"
| rw_drop_write_guard:
    "0 < write_guards s \<Longrightarrow> release_writer (rw s) = (l, wks) \<Longrightarrow>
     rw_step s wks (s\<lparr>rw := l, write_guards := write_guards s - 1\<rparr>)"

inductive_cases rw_stepE: "rw_step s l t"

subsection \<open>Invariant\<close>

abbreviation granted_to :: "waiter_kind \<Rightarrow> rw_lock \<Rightarrow> waiter_kind pool \<Rightarrow> nat set" where
  "granted_to k \<equiv> picked (\<lambda>k' b. k' = k \<and> b)"

definition rw_counts :: "rw_lock \<Rightarrow> waiter_kind pool \<Rightarrow> nat \<Rightarrow> nat \<Rightarrow> bool" where
  "rw_counts l fs r w \<longleftrightarrow>
     linked False l fs \<and>
     readers l = r + card (granted_to Read l fs) \<and>
     (if writer l then 1 else 0) = w + card (granted_to Write l fs) \<and>
     (writer l \<longrightarrow> readers l = 0)"

definition occupied :: "rw_lock \<Rightarrow> bool" where
  "occupied l \<longleftrightarrow> writer l \<or> 0 < readers l"

definition rw_inv :: "rw_sys \<Rightarrow> bool" where
  "rw_inv s \<longleftrightarrow>
     rw_counts (rw s) (rfuts s) (read_guards s) (write_guards s) \<and>
     (waiters (rw s) \<noteq> [] \<longrightarrow> occupied (rw s))"

lemma rw_counts_cong:
  assumes "next_waiter_id l' = next_waiter_id l" "waiters l' = waiters l" "cells l' = cells l"
    "next_cell l' = next_cell l"
  shows "rw_counts l' fs r w \<longleftrightarrow>
    linked False l fs \<and> readers l' = r + card (granted_to Read l fs) \<and>
    (if writer l' then 1 else 0) = w + card (granted_to Write l fs) \<and>
    (writer l' \<longrightarrow> readers l' = 0)"
  using linked_cong [OF assms] picked_cong [OF assms(3)] by (simp add: rw_counts_def)

lemma rw_counts_readers:
  "rw_counts (l\<lparr>readers := n\<rparr>) fs r w \<longleftrightarrow>
     linked False l fs \<and> n = r + card (granted_to Read l fs) \<and>
     (if writer l then 1 else 0) = w + card (granted_to Write l fs) \<and> (writer l \<longrightarrow> n = 0)"
  by (subst rw_counts_cong [of _ l]) simp_all

lemma rw_counts_writer:
  "rw_counts (l\<lparr>writer := b\<rparr>) fs r w \<longleftrightarrow>
     linked False l fs \<and> readers l = r + card (granted_to Read l fs) \<and>
     (if b then 1 else 0) = w + card (granted_to Write l fs) \<and> (b \<longrightarrow> readers l = 0)"
  by (subst rw_counts_cong [of _ l]) simp_all

text \<open>Admitting the front waiter moves one grant in flight.\<close>

lemma rw_counts_select:
  assumes "rw_counts l fs r w" and "waiters l = v # ws" and "\<not> writer l"
    and "l' = l\<lparr>waiters := ws, cells := (cells l)(cell v := True), readers := readers l + 1\<rparr> \<and> wkind v = Read
       \<or> l' = l\<lparr>waiters := ws, cells := (cells l)(cell v := True), writer := True\<rparr> \<and> wkind v = Write \<and> readers l = 0"
  shows "rw_counts l' fs r w"
proof -
  have link: "linked False l fs" using assms(1) by (simp add: rw_counts_def)
  have l': "waiters l' = ws" "cells l' = (cells l)(cell v := True)" "next_cell l' = next_cell l"
    "next_waiter_id l' = next_waiter_id l"
    using assms(4) by auto
  have "linked False l' fs" using linked_select [OF link assms(2) _ l'] by simp
  moreover have "card (granted_to k l' fs) = card (granted_to k l fs) + (if wkind v = k then 1 else 0)" for k
    using card_picked_select [OF link assms(2) l'(2), of "\<lambda>k' b. k' = k \<and> b"] by simp
  ultimately show ?thesis
    using assms(1,3,4) by (auto simp: rw_counts_def)
qed

lemma grant_readers_ok:
  assumes "rw_counts l fs r w" and "waiters l = ws" and "\<not> writer l"
    and "grant_readers ws l = (l', wks)"
  shows "rw_counts l' fs r w \<and> next_cell l' = next_cell l \<and> readers l \<le> readers l' \<and>
    (ws \<noteq> [] \<and> wkind (hd ws) = Read \<longrightarrow> 0 < readers l')"
  using assms
proof (induction ws arbitrary: l wks)
  case (Cons v ws)
  show ?case
  proof (cases "wkind v = Read")
    case True
    let ?l1 = "l\<lparr>waiters := ws, cells := (cells l)(cell v := True), readers := readers l + 1\<rparr>"
    obtain wks' where g: "grant_readers ws ?l1 = (l', wks')"
      using Cons.prems(4) True by (auto split: prod.splits)
    have "rw_counts ?l1 fs r w"
      using rw_counts_select [OF Cons.prems(1,2,3), of ?l1] True by simp
    then show ?thesis using Cons.IH [OF _ _ _ g] Cons.prems(3) by fastforce
  next
    case False
    then show ?thesis using Cons.prems by auto
  qed
qed auto

lemma release_to_next_waiters_ok:
  assumes "rw_counts l fs r w" and "release_to_next_waiters l = (l', wks)"
  shows "rw_counts l' fs r w \<and> next_cell l' = next_cell l \<and> (waiters l' \<noteq> [] \<longrightarrow> occupied l')"
proof (cases "writer l \<or> 0 < readers l")
  case True
  then show ?thesis using assms by (auto simp: release_to_next_waiters_def occupied_def)
next
  case free: False
  show ?thesis
  proof (cases "waiters l")
    case Nil
    then show ?thesis using assms free by (simp add: release_to_next_waiters_def)
  next
    case (Cons v ws)
    show ?thesis
    proof (cases "wkind v")
      case Read
      then have "grant_readers (waiters l) l = (l', wks)"
        using assms(2) free Cons by (simp add: release_to_next_waiters_def)
      then show ?thesis
        using grant_readers_ok [OF assms(1) refl] free Cons Read by (auto simp: occupied_def)
    next
      case Write
      then have "l' = l\<lparr>waiters := ws, cells := (cells l)(cell v := True), writer := True\<rparr>"
        using assms(2) free Cons by (simp add: release_to_next_waiters_def)
      then show ?thesis
        using rw_counts_select [OF assms(1) Cons, of l'] free Write by (simp add: occupied_def)
    qed
  qed
qed

lemma release_reader_ok:
  assumes "rw_counts l fs (Suc r) w" and "waiters l \<noteq> [] \<longrightarrow> occupied l"
  shows "\<exists>l' wks. release_reader l = Some (l', wks) \<and> rw_counts l' fs r w \<and>
    next_cell l' = next_cell l \<and> (waiters l' \<noteq> [] \<longrightarrow> occupied l')"
proof -
  let ?l1 = "l\<lparr>readers := readers l - 1\<rparr>"
  have sub: "checked_sub (readers l) 1 = Some (readers l - 1)"
    using assms(1) by (simp add: rw_counts_def)
  have c: "rw_counts ?l1 fs r w"
    using assms(1) unfolding rw_counts_readers by (auto simp: rw_counts_def split: if_splits)
  show ?thesis
  proof (cases "readers l - 1 = 0")
    case True
    obtain l' wks where rel: "release_to_next_waiters ?l1 = (l', wks)" by fastforce
    then show ?thesis
      using release_to_next_waiters_ok [OF c rel] sub True by (auto simp: release_reader_def checked_sub_def le_Suc_eq)
  next
    case False
    then show ?thesis using c by (simp add: release_reader_def checked_sub_def occupied_def)
  qed
qed

lemma release_writer_ok:
  assumes "rw_counts l fs r (Suc w)" and "release_writer l = (l', wks)"
  shows "rw_counts l' fs r w \<and> next_cell l' = next_cell l \<and> (waiters l' \<noteq> [] \<longrightarrow> occupied l')"
proof -
  let ?l1 = "l\<lparr>writer := False\<rparr>"
  have "rw_counts ?l1 fs r w"
    using assms(1) unfolding rw_counts_writer by (auto simp: rw_counts_def split: if_splits)
  then show ?thesis
    using release_to_next_waiters_ok [of ?l1] assms(2) by (simp add: release_writer_def)
qed

subsection \<open>Every call keeps the invariant\<close>

lemma granted_to_drop:
  assumes "linked False l fs" and "fs f = Some fut" and "\<not> acquired fut" and "selected l fut"
  shows "card (granted_to k l fs) =
    card (granted_to k l (fs(f := None))) + (if fkind fut = k then 1 else 0)"
proof (cases "fkind fut = k")
  case True
  then have "f \<in> granted_to k l fs"
    using assms by (auto simp: mem_picked selected_def split: option.splits)
  then show ?thesis using card_picked_take [OF assms(1)] True by (simp add: picked_drop)
next
  case False
  then have "f \<notin> granted_to k l fs"
    using assms by (auto simp: mem_picked split: option.splits)
  then show ?thesis using False by (simp add: picked_drop)
qed

lemma granted_to_drop_other:
  assumes "fs f = Some fut" and "acquired fut \<or> \<not> selected l fut"
  shows "granted_to k l (fs(f := None)) = granted_to k l fs"
proof -
  have "f \<notin> granted_to k l fs"
    using assms by (auto simp: mem_picked selected_def split: option.splits)
  then show ?thesis by (simp add: picked_drop)
qed

lemma granted_to_acquire:
  "granted_to k l (fs(f \<mapsto> fut\<lparr>acquired := True\<rparr>)) = granted_to k l (fs(f := None))"
  by (simp add: picked_acquire picked_drop)

lemma rw_inv_acquired:
  assumes inv: "rw_inv s" and f: "rfuts s f = Some fut" "\<not> acquired fut"
    and sel: "selected (rw s) fut"
  shows "rw_inv (admit (fkind fut) True (s\<lparr>rfuts := (rfuts s)(f \<mapsto> fut\<lparr>acquired := True\<rparr>)\<rparr>))"
proof -
  have l: "linked False (rw s) (rfuts s)" using inv by (simp add: rw_inv_def rw_counts_def)
  note drop = granted_to_drop [OF l f sel]
  show ?thesis
    using inv linked_acquire [OF l f(1) selected_unqueued [OF sel]] drop [of Read] drop [of Write]
    by (cases "fkind fut") (auto simp: rw_inv_def rw_counts_def admit_def granted_to_acquire)
qed

lemma rw_inv_pending:
  assumes inv: "rw_inv s" and f: "rfuts s f = Some fut" "\<not> acquired fut"
    and e: "enqueue (rw s) fut False wk = (l, fut')"
    and busy: "reg fut = None \<longrightarrow> occupied (rw s) \<or> waiters (rw s) \<noteq> []"
  shows "rw_inv (s\<lparr>rw := l, rfuts := (rfuts s)(f \<mapsto> fut')\<rparr>)"
proof -
  have link: "linked False (rw s) (rfuts s)" using inv by (simp add: rw_inv_def rw_counts_def)
  have same: "readers l = readers (rw s)" "writer l = writer (rw s)"
    using e by (auto simp: enqueue_def register_eq refresh_waker_def split: option.splits)
  have "occupied (rw s)" if "waiters l \<noteq> []"
  proof (cases "reg fut")
    case None
    then show ?thesis using busy inv by (auto simp: rw_inv_def)
  next
    case (Some r)
    then have "waiters (rw s) \<noteq> []"
      using that e by (auto simp: enqueue_def refresh_waker_def split: prod.splits)
    then show ?thesis using inv by (simp add: rw_inv_def)
  qed
  then have "waiters l \<noteq> [] \<longrightarrow> occupied l" by (auto simp: occupied_def same)
  moreover have "granted_to k l ((rfuts s)(f \<mapsto> fut')) = granted_to k (rw s) (rfuts s)" for k
    using picked_enqueue [OF link f(1) e] by simp
  ultimately show ?thesis
    using inv linked_enqueue [OF link f e] by (auto simp: rw_inv_def rw_counts_def same)
qed

lemma rw_inv_fast:
  assumes inv: "rw_inv s" and f: "rfuts s f = Some fut" "\<not> acquired fut" "reg fut = None"
    and free: "\<not> writer (rw s)" "waiters (rw s) = []" "fkind fut = Write \<longrightarrow> readers (rw s) = 0"
    and l': "l' = (case fkind fut of Read \<Rightarrow> (rw s)\<lparr>readers := readers (rw s) + 1\<rparr>
                                  | Write \<Rightarrow> (rw s)\<lparr>writer := True\<rparr>)"
  shows "rw_inv (admit (fkind fut) True (s\<lparr>rw := l', rfuts := (rfuts s)(f \<mapsto> fut\<lparr>acquired := True\<rparr>)\<rparr>))"
proof -
  have link: "linked False (rw s) (rfuts s)" using inv by (simp add: rw_inv_def rw_counts_def)
  note acq = linked_acquire [OF link f(1) fresh_unqueued [OF f(3)]]
  have "\<not> selected (rw s) fut" using f(3) by (simp add: selected_def)
  then have same: "granted_to k (rw s) ((rfuts s)(f := None)) = granted_to k (rw s) (rfuts s)" for k
    using granted_to_drop_other f(1) by blast
  show ?thesis
    using inv acq free
    by (cases "fkind fut")
      (auto simp: rw_inv_def rw_counts_readers rw_counts_writer admit_def granted_to_acquire same l'
        , auto simp: rw_counts_def)
qed

lemma rw_inv_polled:
  assumes inv: "rw_inv s" and f: "rfuts s f = Some fut" "\<not> acquired fut"
    and poll: "rw_poll (rw s) fut wk = (l, fut', r)"
  shows "rw_inv (admit (fkind fut) (is_ready r) (s\<lparr>rw := l, rfuts := (rfuts s)(f \<mapsto> fut')\<rparr>))"
proof -
  let ?fast = "reg fut = None \<and> \<not> writer (rw s) \<and> waiters (rw s) = [] \<and>
    (fkind fut = Write \<longrightarrow> readers (rw s) = 0)"
  let ?l = "case fkind fut of Read \<Rightarrow> (rw s)\<lparr>readers := readers (rw s) + 1\<rparr>
                            | Write \<Rightarrow> (rw s)\<lparr>writer := True\<rparr>"
  have p: "rw_poll (rw s) fut wk =
      (if selected (rw s) fut then (rw s, fut\<lparr>acquired := True\<rparr>, Ready ())
       else if ?fast then (?l, fut\<lparr>acquired := True\<rparr>, Ready ())
       else (let (l', fut') = enqueue (rw s) fut False wk in (l', fut', Pending)))"
    by (cases "fkind fut") (auto simp: rw_poll_def read_poll_def write_poll_def)
  consider (sel) "selected (rw s) fut" | (fast) "\<not> selected (rw s) fut" ?fast
    | (slow) "\<not> selected (rw s) fut" "\<not> ?fast" by argo
  then show ?thesis
  proof cases
    case sel
    then have "l = rw s" "fut' = fut\<lparr>acquired := True\<rparr>" "r = Ready ()" using poll by (simp_all add: p)
    then show ?thesis using rw_inv_acquired [OF inv f sel] by simp
  next
    case fast
    then have eq: "l = ?l" "fut' = fut\<lparr>acquired := True\<rparr>" "r = Ready ()" using poll by (simp_all add: p)
    show ?thesis using rw_inv_fast [OF inv f, of l] fast(2) eq by simp
  next
    case slow
    have free: "\<not> (\<not> selected (rw s) fut \<and> ?fast)" using slow by blast
    have e: "enqueue (rw s) fut False wk = (l, fut')" and r: "r = Pending"
      using poll slow(1) slow(2) unfolding p by (auto split: prod.splits if_splits)
    have "occupied (rw s) \<or> waiters (rw s) \<noteq> []" if "reg fut = None"
      using slow(2) that by (auto simp: occupied_def)
    then show ?thesis using rw_inv_pending [OF inv f e] by (simp add: r admit_def)
  qed
qed

lemma rw_inv_drop_future:
  assumes inv: "rw_inv s" and small: "next_cell (rw s) \<le> u64_modulus" and f: "rfuts s f = Some fut"
  shows "\<exists>l wks. rw_drop (rw s) fut = Some (l, wks) \<and> next_cell l = next_cell (rw s) \<and>
    rw_inv (s\<lparr>rw := l, rfuts := (rfuts s)(f := None)\<rparr>)"
proof -
  have link: "linked False (rw s) (rfuts s)"
    and counts: "rw_counts (rw s) (rfuts s) (read_guards s) (write_guards s)"
    and busy: "waiters (rw s) \<noteq> [] \<longrightarrow> occupied (rw s)"
    using inv by (auto simp: rw_inv_def rw_counts_def)
  let ?fs = "(rfuts s)(f := None)"
  consider (none) "reg fut = None \<or> acquired fut"
    | (sel) i c where "reg fut = Some (i, c)" "\<not> acquired fut" "cells (rw s) c"
    | (queued) i c where "reg fut = Some (i, c)" "\<not> acquired fut" "\<not> cells (rw s) c"
    by (metis option.exhaust prod.exhaust)
  then show ?thesis
  proof cases
    case none
    then have "rw_drop (rw s) fut = Some (rw s, [])"
      by (auto simp: rw_drop_def read_drop_def write_drop_def split: option.splits waiter_kind.splits)
    moreover have "acquired fut \<or> \<not> selected (rw s) fut" using none by (auto simp: selected_def)
    then have "granted_to k (rw s) ?fs = granted_to k (rw s) (rfuts s)" for k
      using granted_to_drop_other [where fs = "rfuts s", OF f] by blast
    moreover have "linked False (rw s) ?fs"
      using linked_drop_unqueued [OF link f] none by (auto simp: unqueued_def)
    ultimately show ?thesis using inv by (auto simp: rw_inv_def rw_counts_def)
  next
    case (sel i c)
    have sel': "selected (rw s) fut" using sel by (simp add: selected_def)
    note drop = granted_to_drop [OF link f sel(2) sel']
    have l': "linked False (rw s) ?fs"
      using linked_drop_unqueued [OF link f selected_unqueued [OF sel']] .
    show ?thesis
    proof (cases "fkind fut")
      case Read
      then have "rw_counts (rw s) ?fs (Suc (read_guards s)) (write_guards s)"
        using counts drop [of Read] drop [of Write] l' by (auto simp: rw_counts_def)
      from release_reader_ok [OF this busy] show ?thesis
        using sel Read by (auto simp: rw_drop_def read_drop_def rw_inv_def)
    next
      case Write
      then have c: "rw_counts (rw s) ?fs (read_guards s) (Suc (write_guards s))"
        using counts drop [of Read] drop [of Write] l' by (auto simp: rw_counts_def)
      obtain l wks where rel: "release_writer (rw s) = (l, wks)" by fastforce
      show ?thesis
        using release_writer_ok [OF c rel] rel sel Write
        by (auto simp: rw_drop_def write_drop_def rw_inv_def)
    qed
  next
    case (queued i c)
    let ?l = "remove_waiter (rw s) i"
    have "rw_drop (rw s) fut = Some (?l, [])"
      using queued by (simp add: rw_drop_def read_drop_def write_drop_def split: waiter_kind.split)
    moreover have "\<not> selected (rw s) fut" using queued by (simp add: selected_def)
    then have "granted_to k ?l ?fs = granted_to k (rw s) (rfuts s)" for k
      using granted_to_drop_other [where fs = "rfuts s", OF f] by simp
    moreover have "linked False ?l ?fs"
      using linked_drop_queued [OF link small f queued(1,2)] queued(3) by simp
    moreover have "readers ?l = readers (rw s)" "writer ?l = writer (rw s)"
        "next_cell ?l = next_cell (rw s)" "waiters ?l \<noteq> [] \<Longrightarrow> waiters (rw s) \<noteq> []"
      by (auto simp: remove_waiter_def)
    ultimately show ?thesis using inv by (auto simp: rw_inv_def rw_counts_def occupied_def)
  qed
qed

lemma rw_inv_step:
  assumes inv: "rw_inv s" and "rw_step s ls t" and small: "next_cell (rw s) \<le> u64_modulus"
  shows "rw_inv t"
  using assms(2)
proof cases
  case (rw_future f k)
  then show ?thesis
    using inv linked_new [of False "rw s" "rfuts s" f k]
    by (auto simp: rw_inv_def rw_counts_def picked_new)
next
  case rw_polled
  then show ?thesis using rw_inv_polled inv by blast
next
  case rw_drop_future
  then show ?thesis using rw_inv_drop_future [OF inv small] by fastforce
next
  case (rw_try_read l ok)
  then show ?thesis
    using inv by (cases ok)
      (auto simp: try_read_def admit_def rw_inv_def rw_counts_readers split: if_splits,
        auto simp: rw_counts_def)
next
  case (rw_try_write l ok)
  then show ?thesis
    using inv by (cases ok)
      (auto simp: try_write_def admit_def rw_inv_def rw_counts_writer split: if_splits,
        auto simp: rw_counts_def)
next
  case (rw_drop_read_guard l)
  then have "rw_counts (rw s) (rfuts s) (Suc (read_guards s - 1)) (write_guards s)"
    "waiters (rw s) \<noteq> [] \<longrightarrow> occupied (rw s)" using inv by (simp_all add: rw_inv_def)
  from release_reader_ok [OF this] show ?thesis using rw_drop_read_guard by (auto simp: rw_inv_def)
next
  case (rw_drop_write_guard l)
  then have "rw_counts (rw s) (rfuts s) (read_guards s) (Suc (write_guards s - 1))"
    using inv by (simp add: rw_inv_def)
  from release_writer_ok [OF this rw_drop_write_guard(3)] show ?thesis
    using rw_drop_write_guard by (simp add: rw_inv_def)
qed

lemma next_cell_grant_readers: "grant_readers ws l = (l', wks) \<Longrightarrow> next_cell l' = next_cell l"
  by (induction ws arbitrary: l wks) (auto split: if_splits prod.splits)

lemma next_cell_release_waiters:
  "release_to_next_waiters l = (l', wks) \<Longrightarrow> next_cell l' = next_cell l"
  by (auto simp: release_to_next_waiters_def next_cell_grant_readers simp del: grant_readers.simps
      split: if_splits list.splits waiter_kind.splits)

lemma next_cell_release_reader: "release_reader l = Some (l', wks) \<Longrightarrow> next_cell l' = next_cell l"
  by (auto simp: release_reader_def Let_def dest!: next_cell_release_waiters
      split: option.splits if_splits)

lemma next_cell_release_writer: "release_writer l = (l', wks) \<Longrightarrow> next_cell l' = next_cell l"
  by (auto simp: release_writer_def dest!: next_cell_release_waiters)

lemma next_cell_rw_poll: "rw_poll l fut wk = (l', fut', r) \<Longrightarrow> next_cell l \<le> next_cell l'"
  by (auto simp: rw_poll_def read_poll_def write_poll_def dest!: enqueue_next_cell
      split: waiter_kind.splits if_splits prod.splits)

lemma next_cell_rw_drop: "rw_drop l fut = Some (l', wks) \<Longrightarrow> next_cell l' = next_cell l"
  by (auto simp: rw_drop_def read_drop_def write_drop_def remove_waiter_def
      dest!: next_cell_release_reader next_cell_release_writer
      split: waiter_kind.splits option.splits if_splits)

lemma rw_admit [simp]: "rw (admit k b s) = rw s"
  by (cases k) (simp_all add: admit_def)

lemma rw_step_next_cell: "rw_step s l t \<Longrightarrow> next_cell (rw s) \<le> next_cell (rw t)"
  by (erule rw_stepE)
    (auto simp: try_read_def try_write_def
      dest: next_cell_release_reader next_cell_release_writer next_cell_rw_poll next_cell_rw_drop
      split: if_splits)

interpretation rws: bounded_system rw_init rw_step "next_cell \<circ> rw" u64_modulus rw_inv
proof
  show "rw_inv s" if "rw_init s" for s
    using that by (simp add: rw_init_def rw_inv_def rw_counts_def rw_new_def linked_defs)
qed (auto simp: rw_step_next_cell intro: rw_inv_step)

subsection \<open>What one release admits\<close>

lemma grant_readers_run:
  "waiters l = ws \<Longrightarrow> grant_readers ws l = (l', wks) \<Longrightarrow>
   wks = map wwaker (takeWhile (\<lambda>w. wkind w = Read) ws) \<and>
   waiters l' = dropWhile (\<lambda>w. wkind w = Read) ws \<and>
   readers l' = readers l + length (takeWhile (\<lambda>w. wkind w = Read) ws) \<and>
   writer l' = writer l"
proof (induction ws arbitrary: l wks)
  case (Cons w ws)
  show ?case
  proof (cases "wkind w = Read")
    case True
    let ?l1 = "l\<lparr>waiters := ws, cells := (cells l)(cell w := True), readers := readers l + 1\<rparr>"
    obtain wks' where g: "grant_readers ws ?l1 = (l', wks')" "wks = wwaker w # wks'"
      using Cons.prems(2) True by (auto split: prod.splits)
    show ?thesis using Cons.IH [OF _ g(1)] g(2) True by simp
  next
    case False
    then show ?thesis using Cons.prems by auto
  qed
qed simp

subsection \<open>Properties\<close>

text \<open>A sample run: a read guard is taken, a writer queues with waker 7, dropping the guard admits it,
  and its next poll returns the write guard.\<close>

definition rw_demo_start :: rw_sys where
  "rw_demo_start = \<lparr>rw = rw_new, rfuts = Map.empty, read_guards = 0, write_guards = 0\<rparr>"

definition rw_demo_queued :: rw_sys where
  "rw_demo_queued =
     \<lparr>rw = \<lparr>next_waiter_id = 1, waiters = [\<lparr>wid = 0, wkind = Write, cell = 0, wwaker = 7\<rparr>],
            cells = (\<lambda>_. False)(0 := False), next_cell = 1, readers = 1, writer = False\<rparr>,
      rfuts = [0 \<mapsto> \<lparr>fkind = Write, reg = Some (0, 0), acquired = False\<rparr>],
      read_guards = 1, write_guards = 0\<rparr>"

definition rw_demo_end :: rw_sys where
  "rw_demo_end =
     \<lparr>rw = \<lparr>next_waiter_id = 1, waiters = [],
            cells = (\<lambda>_. False)(0 := True), next_cell = 1, readers = 0, writer = True\<rparr>,
      rfuts = [0 \<mapsto> \<lparr>fkind = Write, reg = Some (0, 0), acquired = True\<rparr>],
      read_guards = 0, write_guards = 1\<rparr>"

lemma rw_demo_init: "rw_init rw_demo_start"
  by (simp add: rw_init_def rw_demo_start_def)

lemma rw_demo_run_queued: "run rw_step rw_demo_start [[], [], []] rw_demo_queued"
proof -
  let ?s1 = "rw_demo_start\<lparr>rw := rw_new\<lparr>readers := 1\<rparr>, read_guards := 1\<rparr>"
  let ?s2 = "?s1\<lparr>rfuts := [0 \<mapsto> new_future Write]\<rparr>"
  have 1: "rw_step rw_demo_start [] ?s1"
    using rw_try_read [of rw_demo_start "rw_new\<lparr>readers := 1\<rparr>" True]
    by (simp add: rw_demo_start_def try_read_def rw_new_def admit_def)
  have 2: "rw_step ?s1 [] ?s2"
    using rw_future [of ?s1 0 Write] by (simp add: rw_demo_start_def)
  have 3: "rw_step ?s2 [] rw_demo_queued"
    using rw_polled [of ?s2 0 "new_future Write" 7]
    by (simp add: rw_demo_start_def rw_demo_queued_def rw_poll_def write_poll_def enqueue_def
        register_eq new_future_def selected_def rw_new_def wrapping_succ_def u64_modulus_def admit_def)
  show ?thesis
    by (rule run_Cons, rule 1, rule run_Cons, rule 2, rule run_Cons, rule 3, rule run_Nil)
qed

lemma rw_demo_run: "run rw_step rw_demo_start [[], [], [], [7], []] rw_demo_end"
proof -
  let ?s4 = "rw_demo_end\<lparr>rfuts := [0 \<mapsto> \<lparr>fkind = Write, reg = Some (0, 0), acquired = False\<rparr>],
      write_guards := 0\<rparr>"
  have 4: "rw_step rw_demo_queued [7] ?s4"
    using rw_drop_read_guard [of rw_demo_queued]
    by (simp add: rw_demo_queued_def rw_demo_end_def release_reader_def checked_sub_def
        release_to_next_waiters_def Let_def)
  have 5: "rw_step ?s4 [] rw_demo_end"
    using rw_polled [of ?s4 0 "\<lparr>fkind = Write, reg = Some (0, 0), acquired = False\<rparr>" 7]
    by (simp add: rw_demo_end_def rw_poll_def write_poll_def selected_def admit_def)
  show ?thesis using run_snoc [OF run_snoc [OF rw_demo_run_queued 4] 5] by simp
qed

text \<open>(C9) Readers and writers exclude each other: in every reachable state there is at most one write
  guard, no read guard beside a write guard, and the fields \<open>readers\<close> and \<open>writer\<close> count exactly the
  live guards plus the grants in flight.\<close>

theorem rw_exclusion:
  assumes "rw_init s" and "run rw_step s ls t" and "next_cell (rw t) \<le> u64_modulus"
  shows "write_guards t \<le> 1 \<and> (0 < write_guards t \<longrightarrow> read_guards t = 0) \<and>
    readers (rw t) = read_guards t + card (granted_to Read (rw t) (rfuts t)) \<and>
    (if writer (rw t) then 1 else 0) = write_guards t + card (granted_to Write (rw t) (rfuts t))"
  using rws.inv_reachable [OF assms(1,2)] assms(3)
  by (auto simp: rw_inv_def rw_counts_def split: if_splits)

theorem rw_exclusion_witness: "write_guards rw_demo_end = 1 \<and> read_guards rw_demo_end = 0"
  using rw_exclusion [OF rw_demo_init rw_demo_run] by (simp add: rw_demo_end_def u64_modulus_def)



text \<open>Releasing never panics: in a reachable state the decrement of \<open>readers\<close> does not underflow,
  neither when a read guard is dropped nor when any pending or selected future is cancelled.\<close>

theorem rw_release_total:
  assumes "rw_init s" and "run rw_step s ls t" and "next_cell (rw t) \<le> u64_modulus"
  shows "(0 < read_guards t \<longrightarrow> release_reader (rw t) \<noteq> panic) \<and>
    (\<forall>f fut. rfuts t f = Some fut \<longrightarrow> rw_drop (rw t) fut \<noteq> panic)"
proof -
  have inv: "rw_inv t" using rws.inv_reachable [OF assms(1,2)] assms(3) by simp
  have "release_reader (rw t) \<noteq> panic" if "0 < read_guards t"
    using inv that by (auto simp: rw_inv_def rw_counts_def release_reader_def Let_def split: option.splits)
  moreover have "rw_drop (rw t) fut \<noteq> panic" if "rfuts t f = Some fut" for f fut
    using rw_inv_drop_future [OF inv assms(3) that] by auto
  ultimately show ?thesis by blast
qed

theorem rw_release_total_witness: "release_reader (rw rw_demo_queued) \<noteq> panic"
  using rw_release_total [OF rw_demo_init rw_demo_run_queued]
  by (simp add: rw_demo_queued_def u64_modulus_def)

text \<open>A release on a free lock admits a writer at the front alone, and otherwise exactly the
  maximal run of readers at the front, waking them in queue order and leaving the rest queued.\<close>

theorem rw_release_batch:
  assumes "\<not> writer l" and "readers l = 0" and "waiters l = w # ws"
    and "release_to_next_waiters l = (l', wks)"
  shows "(wkind w = Write \<longrightarrow>
            wks = [wwaker w] \<and> waiters l' = ws \<and> writer l' \<and> readers l' = 0) \<and>
    (wkind w = Read \<longrightarrow>
            wks = map wwaker (takeWhile (\<lambda>v. wkind v = Read) (w # ws)) \<and>
            waiters l' = dropWhile (\<lambda>v. wkind v = Read) (w # ws) \<and>
            readers l' = length wks \<and> \<not> writer l')"
  using assms grant_readers_run [OF assms(3), of l' wks]
  by (cases "wkind w") (auto simp: release_to_next_waiters_def simp del: grant_readers.simps)

theorem rw_release_batch_witness:
  "waiters (fst (release_to_next_waiters (rw_new\<lparr>waiters :=
     [\<lparr>wid = 0, wkind = Read, cell = 0, wwaker = 5\<rparr>, \<lparr>wid = 1, wkind = Read, cell = 1, wwaker = 6\<rparr>,
      \<lparr>wid = 2, wkind = Write, cell = 2, wwaker = 7\<rparr>]\<rparr>)))
   = [\<lparr>wid = 2, wkind = Write, cell = 2, wwaker = 7\<rparr>]"
proof -
  let ?w = "\<lparr>wid = 0, wkind = Read, cell = 0, wwaker = 5\<rparr> :: waiter_kind waiter"
  let ?ws = "[\<lparr>wid = 1, wkind = Read, cell = 1, wwaker = 6\<rparr>, \<lparr>wid = 2, wkind = Write, cell = 2, wwaker = 7\<rparr>]"
  let ?l = "rw_new\<lparr>waiters := ?w # ?ws\<rparr>"
  have free: "\<not> writer ?l" "readers ?l = 0" "waiters ?l = ?w # ?ws" by (simp_all add: rw_new_def)
  obtain l' wks where r: "release_to_next_waiters ?l = (l', wks)" by fastforce
  show ?thesis using rw_release_batch [OF free r] r by simp
qed

text \<open>(C25) The two lock futures are public types, and nothing in them refuses a poll after completion.
  Polled again after a queued acquisition returned its guard, a write future returns a second write
  guard although the first is alive: the guard \<open>\<not> acquired fut\<close> of the rule \<open>rw_polled\<close> is the
  caller's obligation, not something the code enforces.\<close>

theorem rw_repoll_second_guard:
  "\<exists>t fut. (\<exists>s ls. rw_init s \<and> run rw_step s ls t) \<and> write_guards t = 1 \<and> rfuts t 0 = Some fut \<and>
     fkind fut = Write \<and> acquired fut \<and> write_poll (rw t) fut wk = (rw t, fut, Ready ())"
proof (intro exI conjI)
  show "rw_init rw_demo_start" by (rule rw_demo_init)
  show "run rw_step rw_demo_start [[], [], [], [7], []] rw_demo_end" by (rule rw_demo_run)
  show "rfuts rw_demo_end 0 = Some \<lparr>fkind = Write, reg = Some (0, 0), acquired = True\<rparr>"
    by (simp add: rw_demo_end_def)
qed (simp_all add: rw_demo_end_def write_poll_def selected_def)

end
