(* ===== verification/Notify.thy ===== *)
theory Notify
  imports Wait_Queue Transition
begin

text \<open>
  \<open>src/sync/notify.rs\<close>: one stored permit and a FIFO queue of \<open>Notified\<close> futures. A waiter's cell
  says how it was selected: \<open>SelOne\<close> carries a transferable notification that cancellation must
  forward, \<open>SelWaiters\<close> is a broadcast with nothing to forward.
\<close>

subsection \<open>The notifier\<close>

datatype selection = SelPending | SelOne | SelWaiters

record notify = "(unit, selection) wait_queue" +
  permit :: bool

definition notify_new :: notify where
  "notify_new =
     \<lparr>next_waiter_id = 0, waiters = [], cells = (\<lambda>_. SelPending), next_cell = 0, permit = False\<rparr>"

definition notify_one :: "notify \<Rightarrow> notify \<times> waker list" where
  "notify_one n =
     (case waiters n of
        w # ws \<Rightarrow> (n\<lparr>waiters := ws, cells := (cells n)(cell w := SelOne)\<rparr>, [wwaker w])
      | [] \<Rightarrow> (n\<lparr>permit := True\<rparr>, []))"

text \<open>All cells are set before the first waker runs.\<close>

definition notify_waiters :: "notify \<Rightarrow> notify \<times> waker list" where
  "notify_waiters n =
     (n\<lparr>waiters := [], cells := fold (\<lambda>w cs. cs(cell w := SelWaiters)) (waiters n) (cells n)\<rparr>,
      map wwaker (waiters n))"

text \<open>The field \<open>done\<close> of \<open>Notified\<close> is \<open>acquired\<close> here.\<close>

definition notified_poll ::
  "notify \<Rightarrow> unit wait_future \<Rightarrow> waker \<Rightarrow> notify \<times> unit wait_future \<times> unit poll" where
  "notified_poll n fut wk =
     (if (case reg fut of None \<Rightarrow> False | Some (i, c) \<Rightarrow> cells n c \<noteq> SelPending) then
        (n, fut\<lparr>acquired := True\<rparr>, Ready ())
      else if reg fut = None \<and> permit n then
        (n\<lparr>permit := False\<rparr>, fut\<lparr>acquired := True\<rparr>, Ready ())
      else (let (n', fut') = enqueue n fut SelPending wk in (n', fut', Pending)))"

definition notified_drop :: "notify \<Rightarrow> unit wait_future \<Rightarrow> notify \<times> waker list" where
  "notified_drop n fut =
     (if acquired fut then (n, [])
      else case reg fut of
        None \<Rightarrow> (n, [])
      | Some (i, c) \<Rightarrow>
          (case cells n c of
             SelPending \<Rightarrow> (remove_waiter n i, [])
           | SelOne \<Rightarrow> notify_one n
           | SelWaiters \<Rightarrow> (n, [])))"

subsection \<open>The notifier with its futures\<close>

record notify_sys =
  ntf :: notify
  nfuts :: "unit pool"

definition notify_init :: "notify_sys \<Rightarrow> bool" where
  "notify_init s \<longleftrightarrow> s = \<lparr>ntf = notify_new, nfuts = Map.empty\<rparr>"

inductive notify_step :: "notify_sys \<Rightarrow> waker list \<Rightarrow> notify_sys \<Rightarrow> bool" where
  step_notified:
    "nfuts s f = None \<Longrightarrow> notify_step s [] (s\<lparr>nfuts := (nfuts s)(f \<mapsto> new_future ())\<rparr>)"
| step_poll:
    "nfuts s f = Some fut \<Longrightarrow> \<not> acquired fut \<Longrightarrow> notified_poll (ntf s) fut wk = (n, fut', r) \<Longrightarrow>
     notify_step s [] (s\<lparr>ntf := n, nfuts := (nfuts s)(f \<mapsto> fut')\<rparr>)"
| step_drop:
    "nfuts s f = Some fut \<Longrightarrow> notified_drop (ntf s) fut = (n, wks) \<Longrightarrow>
     notify_step s wks (s\<lparr>ntf := n, nfuts := (nfuts s)(f := None)\<rparr>)"
| step_notify_one:
    "notify_one (ntf s) = (n, wks) \<Longrightarrow> notify_step s wks (s\<lparr>ntf := n\<rparr>)"
| step_notify_waiters:
    "notify_waiters (ntf s) = (n, wks) \<Longrightarrow> notify_step s wks (s\<lparr>ntf := n\<rparr>)"

inductive_cases notify_stepE: "notify_step s l t"

definition notify_ok :: "notify \<Rightarrow> unit pool \<Rightarrow> bool" where
  "notify_ok n fs \<longleftrightarrow> linked SelPending n fs \<and> (waiters n \<noteq> [] \<longrightarrow> \<not> permit n)"

definition notify_inv :: "notify_sys \<Rightarrow> bool" where
  "notify_inv s \<longleftrightarrow> notify_ok (ntf s) (nfuts s)"

subsection \<open>Every call keeps the invariant\<close>

lemma notify_one_ok:
  assumes "notify_ok n fs" and "notify_one n = (n', wks)"
  shows "notify_ok n' fs \<and> next_cell n' = next_cell n"
proof (cases "waiters n")
  case Nil
  then have n': "n' = n\<lparr>permit := True\<rparr>" using assms(2) by (simp add: notify_one_def)
  have "linked SelPending n' fs = linked SelPending n fs" using n' by (intro linked_cong) simp_all
  then show ?thesis using assms(1) Nil n' by (simp add: notify_ok_def)
next
  case (Cons w ws)
  then have n': "n' = n\<lparr>waiters := ws, cells := (cells n)(cell w := SelOne)\<rparr>"
    using assms(2) by (simp add: notify_one_def)
  have link: "linked SelPending n fs" using assms(1) by (simp add: notify_ok_def)
  have "linked SelPending n' fs" using linked_select [OF link Cons, of SelOne n'] n' by simp
  then show ?thesis using assms(1) Cons n' by (simp add: notify_ok_def)
qed

lemma linked_select_all:
  assumes "linked pend q fs" and "s \<noteq> pend"
  shows "linked pend (q\<lparr>waiters := [], cells := fold (\<lambda>w cs. cs(cell w := s)) (waiters q) (cells q)\<rparr>) fs"
  using assms(1)
proof (induction "waiters q" arbitrary: q)
  case Nil
  then show ?case using linked_cong [of "q\<lparr>waiters := []\<rparr>" q] by simp
next
  case (Cons w ws)
  let ?q = "q\<lparr>waiters := ws, cells := (cells q)(cell w := s)\<rparr>"
  have "linked pend ?q fs"
    using linked_select [OF Cons.prems Cons.hyps(2) [symmetric] assms(2), of ?q] by simp
  then show ?case using Cons.hyps(1) [of ?q] Cons.hyps(2) [symmetric] by simp
qed

lemma fold_select:
  "c \<in> cell ` set ws \<or> cs c = s \<Longrightarrow> fold (\<lambda>w cs. cs(cell w := s)) ws cs c = s"
  by (induction ws arbitrary: cs) auto

lemma notify_waiters_ok:
  assumes "notify_ok n fs" and "notify_waiters n = (n', wks)"
  shows "notify_ok n' fs \<and> next_cell n' = next_cell n"
  using assms linked_select_all [of SelPending n fs SelWaiters]
  by (auto simp: notify_ok_def notify_waiters_def)

lemma notified_poll_ok:
  assumes ok: "notify_ok n fs" and f: "fs f = Some fut" "\<not> acquired fut"
    and poll: "notified_poll n fut wk = (n', fut', r)"
  shows "notify_ok n' (fs(f \<mapsto> fut')) \<and> next_cell n \<le> next_cell n'"
proof -
  have link: "linked SelPending n fs" using ok by (simp add: notify_ok_def)
  let ?sel = "case reg fut of None \<Rightarrow> False | Some (i, c) \<Rightarrow> cells n c \<noteq> SelPending"
  consider (sel) ?sel | (fast) "\<not> ?sel" "reg fut = None" "permit n"
    | (slow) "\<not> ?sel" "\<not> (reg fut = None \<and> permit n)" by argo
  then show ?thesis
  proof cases
    case sel
    then have eq: "n' = n" "fut' = fut\<lparr>acquired := True\<rparr>" using poll by (auto simp: notified_poll_def)
    have "unqueued SelPending n fut" using sel by (auto simp: unqueued_def split: option.splits)
    then show ?thesis using linked_acquire [OF link f(1)] ok by (simp add: eq notify_ok_def)
  next
    case fast
    then have eq: "n' = n\<lparr>permit := False\<rparr>" "fut' = fut\<lparr>acquired := True\<rparr>"
      using poll by (auto simp: notified_poll_def)
    have "linked SelPending n' (fs(f \<mapsto> fut')) = linked SelPending n (fs(f \<mapsto> fut'))"
      using eq by (intro linked_cong) simp_all
    then show ?thesis
      using linked_acquire [OF link f(1) fresh_unqueued [OF fast(2)]] by (simp add: eq notify_ok_def)
  next
    case slow
    then have e: "enqueue n fut SelPending wk = (n', fut')"
      using poll by (auto simp: notified_poll_def split: prod.splits)
    have same: "permit n' = permit n"
      using e by (auto simp: enqueue_def register_eq refresh_waker_def split: option.splits)
    have "\<not> permit n" if "waiters n' \<noteq> []"
    proof (cases "reg fut")
      case None
      then show ?thesis using slow by simp
    next
      case (Some r)
      then have "waiters n \<noteq> []"
        using that e by (auto simp: enqueue_def refresh_waker_def split: prod.splits)
      then show ?thesis using ok by (simp add: notify_ok_def)
    qed
    then show ?thesis
      using linked_enqueue [OF link f e] enqueue_next_cell [OF e] by (simp add: notify_ok_def same)
  qed
qed

lemma notified_drop_ok:
  assumes ok: "notify_ok n fs" and small: "next_cell n \<le> u64_modulus" and f: "fs f = Some fut"
    and drop: "notified_drop n fut = (n', wks)"
  shows "notify_ok n' (fs(f := None)) \<and> next_cell n' = next_cell n"
proof -
  have link: "linked SelPending n fs" using ok by (simp add: notify_ok_def)
  show ?thesis
  proof (cases "\<exists>i c. reg fut = Some (i, c) \<and> \<not> acquired fut \<and> cells n c = SelPending")
    case True
    then obtain i c where r: "reg fut = Some (i, c)" "\<not> acquired fut" "cells n c = SelPending" by blast
    then have n': "n' = remove_waiter n i" using drop by (simp add: notified_drop_def)
    have "waiters n' \<noteq> [] \<Longrightarrow> waiters n \<noteq> []" by (auto simp: n' remove_waiter_def)
    moreover have "permit n' = permit n" "next_cell n' = next_cell n"
      by (simp_all add: n' remove_waiter_def)
    ultimately show ?thesis
      using linked_drop_queued [OF link small f r] ok n' by (auto simp: notify_ok_def)
  next
    case False
    then have "unqueued SelPending n fut" by (auto simp: unqueued_def split: option.splits)
    then have ok': "notify_ok n (fs(f := None))"
      using linked_drop_unqueued [OF link f] ok by (simp add: notify_ok_def)
    have "n' = n \<or> notify_one n = (n', wks)"
      using drop False by (auto simp: notified_drop_def split: if_splits option.splits selection.splits)
    then show ?thesis using ok' notify_one_ok by blast
  qed
qed

lemma notify_inv_step:
  assumes inv: "notify_inv s" and "notify_step s ls t" and small: "next_cell (ntf s) \<le> u64_modulus"
  shows "notify_inv t"
  using assms(2)
proof cases
  case (step_notified f)
  then show ?thesis
    using inv linked_new [of SelPending "ntf s" "nfuts s" f "()"]
    by (simp add: notify_inv_def notify_ok_def)
next
  case (step_poll f fut wk n fut' r)
  then have "notify_ok n ((nfuts s)(f \<mapsto> fut'))"
    using notified_poll_ok inv unfolding notify_inv_def by blast
  then show ?thesis using step_poll(2) by (simp add: notify_inv_def)
next
  case (step_drop f fut n)
  then have "notify_ok n ((nfuts s)(f := None))"
    using notified_drop_ok small inv unfolding notify_inv_def by blast
  then show ?thesis using step_drop(1) by (simp add: notify_inv_def)
next
  case (step_notify_one n)
  then have "notify_ok n (nfuts s)" using notify_one_ok inv unfolding notify_inv_def by blast
  then show ?thesis using step_notify_one(1) by (simp add: notify_inv_def)
next
  case (step_notify_waiters n)
  then have "notify_ok n (nfuts s)" using notify_waiters_ok inv unfolding notify_inv_def by blast
  then show ?thesis using step_notify_waiters(1) by (simp add: notify_inv_def)
qed

lemma notify_step_next_cell: "notify_step s l t \<Longrightarrow> next_cell (ntf s) \<le> next_cell (ntf t)"
  by (erule notify_stepE)
    (auto simp: notified_poll_def notified_drop_def notify_one_def notify_waiters_def remove_waiter_def
      dest: enqueue_next_cell
      split: if_splits prod.splits option.splits list.splits selection.splits)

interpretation notifies: bounded_system notify_init notify_step "next_cell \<circ> ntf" u64_modulus notify_inv
proof
  show "notify_inv s" if "notify_init s" for s
    using that
    by (simp add: notify_init_def notify_inv_def notify_ok_def notify_new_def linked_defs)
qed (auto simp: notify_step_next_cell intro: notify_inv_step)

subsection \<open>Notifications in circulation\<close>

text \<open>The tokens that \<open>notify_one\<close> created and nobody consumed yet: the stored permit and the
  futures it selected.\<close>

definition tokens :: "notify \<Rightarrow> unit pool \<Rightarrow> nat" where
  "tokens n fs = (if permit n then 1 else 0) + card (picked (\<lambda>_ x. x = SelOne) n fs)"

lemma notify_one_tokens:
  assumes "notify_ok n fs" and "notify_one n = (n', wks)"
  shows "waiters n \<noteq> [] \<Longrightarrow> tokens n' fs = Suc (tokens n fs)"
    and "waiters n = [] \<Longrightarrow> permit n'"
    and "\<not> permit n \<Longrightarrow> tokens n' fs = Suc (tokens n fs)"
proof -
  have link: "linked SelPending n fs" using assms(1) by (simp add: notify_ok_def)
  show *: "tokens n' fs = Suc (tokens n fs)" if ne: "waiters n \<noteq> []"
  proof -
    obtain w ws where w: "waiters n = w # ws" using ne by (cases "waiters n") auto
    then have n': "n' = n\<lparr>waiters := ws, cells := (cells n)(cell w := SelOne)\<rparr>"
      using assms(2) by (simp add: notify_one_def)
    show ?thesis
      using card_picked_select [OF link w, of n' SelOne "\<lambda>_ x. x = SelOne"] n'
      by (simp add: tokens_def)
  qed
  show "permit n'" if "waiters n = []" using assms(2) that by (auto simp: notify_one_def)
  show "tokens n' fs = Suc (tokens n fs)" if "\<not> permit n"
  proof (cases "waiters n = []")
    case True
    then have "n' = n\<lparr>permit := True\<rparr>" using assms(2) by (simp add: notify_one_def)
    moreover have "picked P (n\<lparr>permit := True\<rparr>) fs = picked P n fs" for P
      by (rule picked_cong) simp
    ultimately show ?thesis using that by (simp add: tokens_def)
  qed (rule *)
qed

subsection \<open>Properties\<close>

text \<open>A sample run: two futures wait (wakers 5 and 6) and \<open>notify_one\<close> selects the first.\<close>

definition notify_demo_start :: notify_sys where
  "notify_demo_start = \<lparr>ntf = notify_new, nfuts = Map.empty\<rparr>"

definition notify_demo_two :: notify_sys where
  "notify_demo_two =
     \<lparr>ntf = \<lparr>next_waiter_id = Suc 1, waiters = [\<lparr>wid = 0, wkind = (), cell = 0, wwaker = 5\<rparr>,
               \<lparr>wid = 1, wkind = (), cell = 1, wwaker = 6\<rparr>],
             cells = (\<lambda>_. SelPending)(0 := SelPending, 1 := SelPending), next_cell = Suc 1, permit = False\<rparr>,
      nfuts = [0 \<mapsto> \<lparr>fkind = (), reg = Some (0, 0), acquired = False\<rparr>,
               1 \<mapsto> \<lparr>fkind = (), reg = Some (1, 1), acquired = False\<rparr>]\<rparr>"

definition notify_demo_one :: notify_sys where
  "notify_demo_one = notify_demo_two
     \<lparr>ntf := (ntf notify_demo_two)\<lparr>waiters := [\<lparr>wid = 1, wkind = (), cell = 1, wwaker = 6\<rparr>],
       cells := (\<lambda>_. SelPending)(0 := SelPending, 1 := SelPending, 0 := SelOne)\<rparr>\<rparr>"

lemma notify_demo_init: "notify_init notify_demo_start"
  by (simp add: notify_init_def notify_demo_start_def)

lemma notify_demo_run: "run notify_step notify_demo_start [[], [], [], [], [5]] notify_demo_one"
proof -
  let ?s1 = "notify_demo_start\<lparr>nfuts := [0 \<mapsto> new_future ()]\<rparr>"
  let ?s2 = "\<lparr>ntf = \<lparr>next_waiter_id = 1, waiters = [\<lparr>wid = 0, wkind = (), cell = 0, wwaker = 5\<rparr>],
             cells = (\<lambda>_. SelPending)(0 := SelPending), next_cell = 1, permit = False\<rparr>,
      nfuts = [0 \<mapsto> \<lparr>fkind = (), reg = Some (0, 0), acquired = False\<rparr>]\<rparr>"
  let ?s3 = "?s2\<lparr>nfuts := [0 \<mapsto> \<lparr>fkind = (), reg = Some (0, 0), acquired = False\<rparr>, 1 \<mapsto> new_future ()]\<rparr>"
  note ev = notified_poll_def enqueue_def register_eq new_future_def notify_new_def
    wrapping_succ_def u64_modulus_def
  have 1: "notify_step notify_demo_start [] ?s1"
    using step_notified [of notify_demo_start 0] by (simp add: notify_demo_start_def)
  have 2: "notify_step ?s1 [] ?s2"
    using step_poll [of ?s1 0 "new_future ()" 5] by (simp add: notify_demo_start_def ev)
  have 3: "notify_step ?s2 [] ?s3"
    using step_notified [of ?s2 1] by simp
  have 4: "notify_step ?s3 [] notify_demo_two"
    using step_poll [of ?s3 1 "new_future ()" 6] by (simp add: notify_demo_two_def ev)
  have 5: "notify_step notify_demo_two [5] notify_demo_one"
    using step_notify_one [of notify_demo_two]
    by (simp add: notify_demo_one_def notify_demo_two_def notify_one_def)
  show ?thesis
    by (rule run_Cons, rule 1, rule run_Cons, rule 2, rule run_Cons, rule 3, rule run_Cons, rule 4,
        rule run_Cons, rule 5, rule run_Nil)
qed

text \<open>The notifier is FIFO and never strands a notification: no selected registration is younger
  than a queued one, and no permit is stored while a future waits.\<close>

theorem notify_fifo:
  assumes "notify_init s" and "run notify_step s ls t" and "next_cell (ntf t) \<le> u64_modulus"
  shows "(waiters (ntf t) \<noteq> [] \<longrightarrow> \<not> permit (ntf t)) \<and>
    (\<forall>w \<in> set (waiters (ntf t)). \<forall>c < next_cell (ntf t). cells (ntf t) c \<noteq> SelPending \<longrightarrow> c < cell w)"
  using notifies.inv_reachable [OF assms(1,2)] assms(3)
  by (auto simp: notify_inv_def notify_ok_def linked_def unovertaken_def)

theorem notify_fifo_witness:
  "waiters (ntf notify_demo_one) \<noteq> [] \<and> \<not> permit (ntf notify_demo_one)"
proof -
  have small: "next_cell (ntf notify_demo_one) \<le> u64_modulus"
    and ne: "waiters (ntf notify_demo_one) \<noteq> []"
    by (simp_all add: notify_demo_one_def notify_demo_two_def u64_modulus_def)
  show ?thesis
    using conjunct1 [OF notify_fifo [OF notify_demo_init notify_demo_run small]] ne by blast
qed

text \<open>Cancelling a future that \<open>notify_one\<close> selected but that never observed it forwards the
  notification: with a waiter left the number of tokens in circulation is unchanged and the front
  waiter is woken, otherwise the permit is stored.\<close>

theorem notify_forwarded_on_cancel:
  assumes "notify_init s" and "run notify_step s ls t" and "next_cell (ntf t) \<le> u64_modulus"
    and "nfuts t f = Some fut" and "\<not> acquired fut" and "reg fut = Some (i, c)"
    and "cells (ntf t) c = SelOne" and "notified_drop (ntf t) fut = (n, wks)"
  shows "(\<forall>w ws. waiters (ntf t) = w # ws \<longrightarrow>
            wks = [wwaker w] \<and> cells n (cell w) = SelOne \<and>
            tokens n ((nfuts t)(f := None)) = tokens (ntf t) (nfuts t)) \<and>
    (waiters (ntf t) = [] \<longrightarrow> permit n)"
proof -
  let ?fs = "(nfuts t)(f := None)"
  have ok: "notify_ok (ntf t) (nfuts t)"
    using notifies.inv_reachable [OF assms(1,2)] assms(3) by (simp add: notify_inv_def)
  then have link: "linked SelPending (ntf t) (nfuts t)" by (simp add: notify_ok_def)
  have one: "notify_one (ntf t) = (n, wks)" using assms(5-8) by (simp add: notified_drop_def)
  have mem: "f \<in> picked (\<lambda>_ x. x = SelOne) (ntf t) (nfuts t)"
    using assms(4-7) by (simp add: mem_picked)
  have lost: "Suc (tokens (ntf t) ?fs) = tokens (ntf t) (nfuts t)"
    using card_picked_take [OF link mem] by (simp add: tokens_def picked_drop)
  have "unqueued SelPending (ntf t) fut" using assms(6,7) by (simp add: unqueued_def)
  then have ok': "notify_ok (ntf t) ?fs"
    using linked_drop_unqueued [OF link assms(4)] ok by (simp add: notify_ok_def)
  have "wks = [wwaker w]" "cells n (cell w) = SelOne" if "waiters (ntf t) = w # ws" for w ws
    using one that by (auto simp: notify_one_def)
  then show ?thesis using notify_one_tokens [OF ok' one] lost by auto
qed

theorem notify_forwarded_on_cancel_witness:
  "cells (fst (notified_drop (ntf notify_demo_one) \<lparr>fkind = (), reg = Some (0, 0), acquired = False\<rparr>)) 1
     = SelOne"
proof -
  let ?fut = "\<lparr>fkind = (), reg = Some (0, 0), acquired = False\<rparr>"
  obtain n wks where d: "notified_drop (ntf notify_demo_one) ?fut = (n, wks)" by fastforce
  show ?thesis
    using notify_forwarded_on_cancel [OF notify_demo_init notify_demo_run, of 0 ?fut 0 0 n wks] d
    by (simp add: notify_demo_one_def notify_demo_two_def u64_modulus_def)
qed

text \<open>\<open>notify_waiters\<close> is a broadcast without a stored permit: every future that waits is ready at
  its next poll, the wakers run in queue order, the permit is untouched, and cancelling such a
  future forwards nothing.\<close>

theorem notify_waiters_broadcast:
  assumes "notify_init s" and "run notify_step s ls t" and "next_cell (ntf t) \<le> u64_modulus"
    and "notify_waiters (ntf t) = (n, wks)" and "nfuts t f = Some fut" and "reg fut = Some (i, c)"
    and "\<not> acquired fut" and "cells (ntf t) c = SelPending"
  shows "wks = map wwaker (waiters (ntf t)) \<and> waiters n = [] \<and> permit n = permit (ntf t) \<and>
    notified_poll n fut wk = (n, fut\<lparr>acquired := True\<rparr>, Ready ()) \<and> notified_drop n fut = (n, [])"
proof -
  have "pool_ok SelPending (ntf t) (nfuts t)"
    using notifies.inv_reachable [OF assms(1,2)] assms(3)
    by (simp add: notify_inv_def notify_ok_def linked_def)
  from pool_okD(3) [OF this assms(5,6,7,8)] have "c \<in> cell ` set (waiters (ntf t))" .
  then have "cells n c = SelWaiters"
    using assms(4) fold_select [of c "waiters (ntf t)"] by (auto simp: notify_waiters_def)
  then show ?thesis
    using assms(4,6,7) by (auto simp: notified_poll_def notified_drop_def notify_waiters_def)
qed

theorem notify_waiters_broadcast_witness:
  "notified_drop (fst (notify_waiters (ntf notify_demo_one)))
      \<lparr>fkind = (), reg = Some (1, 1), acquired = False\<rparr>
    = (fst (notify_waiters (ntf notify_demo_one)), [])"
  using notify_waiters_broadcast [OF notify_demo_init notify_demo_run, of
      "fst (notify_waiters (ntf notify_demo_one))" "snd (notify_waiters (ntf notify_demo_one))" 1
      "\<lparr>fkind = (), reg = Some (1, 1), acquired = False\<rparr>" 1 1]
  by (simp add: notify_demo_one_def notify_demo_two_def u64_modulus_def)

end
