(* ===== verification/Once_Cell.thy ===== *)
theory Once_Cell
  imports Notify
begin

text \<open>
  \<open>src/sync/once_cell.rs\<close>: the asynchronous once-cell, built on \<open>Notify\<close>. A call of
  \<open>get_or_init\<close> is a suspended \<open>async\<close> function, so it is a value of type \<open>caller\<close> recording where it
  is suspended; \<open>enter\<close> is its loop from the state test to the next suspension. Dropping a caller
  that runs the initializer runs the \<open>InitGuard\<close>, as does a panic of the initializer.
\<close>

subsection \<open>The cell and its callers\<close>

datatype once_state = Empty | Initializing | Initialized

record 'v once_cell =
  ostate :: once_state
  onotify :: notify
  ovalue :: "'v option"

datatype 'v caller = Fresh | Running | Awaiting "unit wait_future" | Returned 'v

definition once_new :: "'v once_cell" where
  "once_new = \<lparr>ostate = Empty, onotify = notify_new, ovalue = None\<rparr>"

definition once_get :: "'v once_cell \<Rightarrow> 'v option" where
  "once_get c = (if ostate c \<noteq> Initialized then None else ovalue c)"

text \<open>\<open>ready_value\<close> is \<open>get().expect(..)\<close>.\<close>

definition ready_value :: "'v once_cell \<Rightarrow> 'v panics" where
  "ready_value c = once_get c"

text \<open>The loop of \<open>get_or_init\<close>: on \<open>Initializing\<close> a fresh \<open>Notified\<close> is polled at once, and if a
  stored permit completes it the loop goes round again.\<close>

function enter :: "'v once_cell \<Rightarrow> waker \<Rightarrow> ('v once_cell \<times> 'v caller) panics" where
  "enter c wk =
     (case ostate c of
        Initialized \<Rightarrow> map_option (\<lambda>v. (c, Returned v)) (ready_value c)
      | Empty \<Rightarrow> Some (c\<lparr>ostate := Initializing\<rparr>, Running)
      | Initializing \<Rightarrow>
          (case notified_poll (onotify c) (new_future ()) wk of
             (n, fut, Pending) \<Rightarrow> Some (c\<lparr>onotify := n\<rparr>, Awaiting fut)
           | (n, fut, Ready _) \<Rightarrow> enter (c\<lparr>onotify := fst (notified_drop n fut)\<rparr>) wk))"
  by pat_completeness auto
termination
  by (relation "measure (\<lambda>(c, wk). if permit (onotify c) then 1 else 0)")
    (auto simp: notified_poll_def new_future_def notified_drop_def split: if_splits prod.splits)

declare enter.simps [simp del]

definition resume ::
  "'v once_cell \<Rightarrow> unit wait_future \<Rightarrow> waker \<Rightarrow> ('v once_cell \<times> 'v caller) panics" where
  "resume c fut wk =
     (case notified_poll (onotify c) fut wk of
        (n, fut', Pending) \<Rightarrow> Some (c\<lparr>onotify := n\<rparr>, Awaiting fut')
      | (n, fut', Ready _) \<Rightarrow> enter (c\<lparr>onotify := fst (notified_drop n fut')\<rparr>) wk)"

text \<open>The initializer finished with \<open>v\<close>.\<close>

definition finish_init :: "'v once_cell \<Rightarrow> 'v \<Rightarrow> ('v once_cell \<times> 'v caller \<times> waker list) panics" where
  "finish_init c v =
     (let (n, wks) = notify_waiters (onotify c);
          c' = c\<lparr>ovalue := Some v, ostate := Initialized, onotify := n\<rparr>
      in map_option (\<lambda>r. (c', Returned r, wks)) (ready_value c'))"

text \<open>\<open>InitGuard::drop\<close> with the guard armed.\<close>

definition init_guard_drop :: "'v once_cell \<Rightarrow> 'v once_cell \<times> waker list" where
  "init_guard_drop c =
     (let (n, wks) = notify_waiters (onotify c) in (c\<lparr>ostate := Empty, onotify := n\<rparr>, wks))"

definition drop_caller :: "'v once_cell \<Rightarrow> 'v caller \<Rightarrow> 'v once_cell \<times> waker list" where
  "drop_caller c cl =
     (case cl of
        Running \<Rightarrow> init_guard_drop c
      | Awaiting fut \<Rightarrow> (let (n, wks) = notified_drop (onotify c) fut in (c\<lparr>onotify := n\<rparr>, wks))
      | _ \<Rightarrow> (c, []))"

record 'v once_sys =
  ocell :: "'v once_cell"
  callers :: "nat \<rightharpoonup> 'v caller"

definition once_init :: "'v once_sys \<Rightarrow> bool" where
  "once_init s \<longleftrightarrow> s = \<lparr>ocell = once_new, callers = Map.empty\<rparr>"

inductive once_step :: "'v once_sys \<Rightarrow> waker list \<Rightarrow> 'v once_sys \<Rightarrow> bool" where
  once_call:
    "callers s f = None \<Longrightarrow> once_step s [] (s\<lparr>callers := (callers s)(f \<mapsto> Fresh)\<rparr>)"
| once_start:
    "callers s f = Some Fresh \<Longrightarrow> enter (ocell s) wk = Some (c, cl) \<Longrightarrow>
     once_step s [] (s\<lparr>ocell := c, callers := (callers s)(f \<mapsto> cl)\<rparr>)"
| once_resume:
    "callers s f = Some (Awaiting fut) \<Longrightarrow> resume (ocell s) fut wk = Some (c, cl) \<Longrightarrow>
     once_step s [] (s\<lparr>ocell := c, callers := (callers s)(f \<mapsto> cl)\<rparr>)"
| once_finish:
    "callers s f = Some Running \<Longrightarrow> finish_init (ocell s) v = Some (c, cl, wks) \<Longrightarrow>
     once_step s wks (s\<lparr>ocell := c, callers := (callers s)(f \<mapsto> cl)\<rparr>)"
| once_drop:
    "callers s f = Some cl \<Longrightarrow> drop_caller (ocell s) cl = (c, wks) \<Longrightarrow>
     once_step s wks (s\<lparr>ocell := c, callers := (callers s)(f := None)\<rparr>)"

inductive_cases once_stepE: "once_step s l t"

subsection \<open>Invariant\<close>

definition waiting_pool :: "(nat \<rightharpoonup> 'v caller) \<Rightarrow> unit pool" where
  "waiting_pool cs f = (case cs f of Some (Awaiting fut) \<Rightarrow> Some fut | _ \<Rightarrow> None)"

definition runners :: "(nat \<rightharpoonup> 'v caller) \<Rightarrow> nat set" where
  "runners cs = {f. cs f = Some Running}"

text \<open>The cell's notifier never stores a permit or selects with \<open>SelOne\<close>, since the cell only ever
  broadcasts; and somebody waits only while an initializer runs.\<close>

definition once_notify_ok :: "notify \<Rightarrow> unit pool \<Rightarrow> bool" where
  "once_notify_ok n fs \<longleftrightarrow> notify_ok n fs \<and> \<not> permit n \<and> (\<forall>c. cells n c \<noteq> SelOne)"

definition once_inv :: "'v once_sys \<Rightarrow> bool" where
  "once_inv s \<longleftrightarrow>
     once_notify_ok (onotify (ocell s)) (waiting_pool (callers s)) \<and>
     (\<forall>f fut. callers s f = Some (Awaiting fut) \<longrightarrow> \<not> acquired fut \<and> reg fut \<noteq> None) \<and>
     (\<forall>f \<in> runners (callers s). \<forall>g \<in> runners (callers s). f = g) \<and>
     (ostate (ocell s) = Initializing \<longleftrightarrow> runners (callers s) \<noteq> {}) \<and>
     (ostate (ocell s) = Initialized \<longleftrightarrow> ovalue (ocell s) \<noteq> None) \<and>
     (waiters (onotify (ocell s)) \<noteq> [] \<longrightarrow> ostate (ocell s) = Initializing) \<and>
     (\<forall>f v. callers s f = Some (Returned v) \<longrightarrow> ovalue (ocell s) = Some v)"

lemma waiting_pool_upd [simp]:
  "waiting_pool (cs(f \<mapsto> Awaiting fut)) = (waiting_pool cs)(f \<mapsto> fut)"
  "waiting_pool (cs(f \<mapsto> Fresh)) = (waiting_pool cs)(f := None)"
  "waiting_pool (cs(f \<mapsto> Running)) = (waiting_pool cs)(f := None)"
  "waiting_pool (cs(f \<mapsto> Returned v)) = (waiting_pool cs)(f := None)"
  "waiting_pool (cs(f := None)) = (waiting_pool cs)(f := None)"
  by (auto simp: waiting_pool_def fun_eq_iff)

lemma runners_upd [simp]:
  "runners (cs(f \<mapsto> cl)) = (if cl = Running then insert f (runners cs) else runners cs - {f})"
  "runners (cs(f := None)) = runners cs - {f}"
  by (auto simp: runners_def)

lemma runners_not: "cs f = Some cl \<Longrightarrow> cl \<noteq> Running \<Longrightarrow> runners cs - {f} = runners cs"
  by (auto simp: runners_def)

lemma waiting_pool_empty [simp]: "waiting_pool Map.empty = Map.empty"
  by (simp add: waiting_pool_def fun_eq_iff)

lemma waiting_pool_None: "(\<And>fut. cs f \<noteq> Some (Awaiting fut)) \<Longrightarrow> (waiting_pool cs)(f := None) = waiting_pool cs"
  by (auto simp: waiting_pool_def fun_eq_iff split: option.splits caller.splits)

lemma once_notify_broadcast:
  assumes "once_notify_ok n fs" and "notify_waiters n = (n', wks)"
  shows "once_notify_ok n' fs \<and> waiters n' = [] \<and> next_cell n' = next_cell n"
proof -
  have "fold (\<lambda>w cs. cs(cell w := SelWaiters)) ws cs c \<noteq> SelOne" if "\<forall>c. cs c \<noteq> SelOne"
    for ws :: "unit waiter list" and cs c
    using that by (induction ws arbitrary: cs) auto
  then show ?thesis
    using assms notify_waiters_ok [of n fs n' wks] by (auto simp: once_notify_ok_def notify_waiters_def)
qed

lemma cells_enqueue:
  "enqueue n fut SelPending wk = (n', fut') \<Longrightarrow> \<forall>c. cells n c \<noteq> SelOne \<Longrightarrow> \<forall>c. cells n' c \<noteq> SelOne"
  by (auto simp: enqueue_def register_eq refresh_waker_def split: option.splits if_splits)

lemma once_notify_poll:
  assumes "once_notify_ok n fs" and "fs f = Some fut" "\<not> acquired fut"
    and "notified_poll n fut wk = (n', fut', r)"
  shows "once_notify_ok n' (fs(f \<mapsto> fut'))" "next_cell n \<le> next_cell n'"
    "is_ready r \<longleftrightarrow> acquired fut'" "is_ready r \<Longrightarrow> n' = n"
    "\<not> is_ready r \<Longrightarrow> reg fut \<noteq> None \<Longrightarrow> waiters n' \<noteq> [] \<longrightarrow> waiters n \<noteq> []"
    "\<not> is_ready r \<Longrightarrow> reg fut' \<noteq> None"
proof -
  have ok: "notify_ok n' (fs(f \<mapsto> fut')) \<and> next_cell n \<le> next_cell n'"
    using notified_poll_ok [of n fs f fut wk n' fut' r] assms by (simp add: once_notify_ok_def)
  have keep: "permit n' = permit n" if "enqueue n fut SelPending wk = (n', fut')"
    using that by (auto simp: enqueue_def register_eq refresh_waker_def split: option.splits)
  have two: "n' = n \<and> fut' = fut\<lparr>acquired := True\<rparr> \<and> r = Ready () \<or>
      enqueue n fut SelPending wk = (n', fut') \<and> r = Pending"
    using assms(1,4)
    by (auto simp: notified_poll_def once_notify_ok_def split: if_splits prod.splits option.splits)
  have "permit n' = permit n" using two keep by blast
  moreover have "\<forall>c. cells n' c \<noteq> SelOne"
    using two cells_enqueue [of n fut wk n' fut'] assms(1) unfolding once_notify_ok_def by blast
  ultimately show "once_notify_ok n' (fs(f \<mapsto> fut'))" "next_cell n \<le> next_cell n'"
    using ok assms(1) unfolding once_notify_ok_def by blast+
  show "is_ready r \<longleftrightarrow> acquired fut'"
    using two assms(3) enqueue_simps(1) [of n fut SelPending wk] by fastforce
  show "n' = n" if "is_ready r" using two that by auto
  show "waiters n' \<noteq> [] \<longrightarrow> waiters n \<noteq> []" if "\<not> is_ready r" "reg fut \<noteq> None"
    using two that by (auto simp: enqueue_def refresh_waker_def)
  show "reg fut' \<noteq> None" if "\<not> is_ready r"
    using two that by (auto simp: enqueue_def split: option.splits prod.splits)
qed

text \<open>Without a stored permit the loop never goes round.\<close>

lemma enter_cases:
  assumes "\<not> permit (onotify c)"
  shows "enter c wk =
     (case ostate c of
        Initialized \<Rightarrow> map_option (\<lambda>v. (c, Returned v)) (ready_value c)
      | Empty \<Rightarrow> Some (c\<lparr>ostate := Initializing\<rparr>, Running)
      | Initializing \<Rightarrow>
          (case notified_poll (onotify c) (new_future ()) wk of
             (n, fut, r) \<Rightarrow> Some (c\<lparr>onotify := n\<rparr>, Awaiting fut)))"
  using assms
  by (subst enter.simps)
    (auto simp: notified_poll_def new_future_def split: once_state.split prod.split)

lemma enter_ok:
  assumes ok: "once_notify_ok (onotify (ocell s)) (waiting_pool (callers s))"
    and inv: "once_inv (s\<lparr>callers := (callers s)(f \<mapsto> Fresh)\<rparr>)"
  shows "\<exists>c cl. enter (ocell s) wk = Some (c, cl) \<and>
    once_inv (s\<lparr>ocell := c, callers := (callers s)(f \<mapsto> cl)\<rparr>) \<and>
    next_cell (onotify (ocell s)) \<le> next_cell (onotify c)"
proof -
  let ?c = "ocell s" and ?n = "onotify (ocell s)"
  let ?fs = "(waiting_pool (callers s))(f := None)"
  have np: "\<not> permit ?n" using ok by (simp add: once_notify_ok_def)
  have fs: "once_notify_ok ?n ?fs" using inv by (simp add: once_inv_def)
  show ?thesis
  proof (cases "ostate ?c")
    case Empty
    then show ?thesis
      using inv by (auto simp: enter_cases [OF np] once_inv_def subset_singleton_iff split: if_splits)
  next
    case Initialized
    then obtain v where v: "ovalue ?c = Some v" using inv by (auto simp: once_inv_def)
    then have "enter ?c wk = Some (?c, Returned v)"
      using Initialized by (simp add: enter_cases [OF np] ready_value_def once_get_def)
    moreover have "once_inv (s\<lparr>ocell := ?c, callers := (callers s)(f \<mapsto> Returned v)\<rparr>)"
      using inv Initialized v by (auto simp: once_inv_def split: if_splits)
    ultimately show ?thesis by auto
  next
    case Initializing
    obtain n fut r where p: "notified_poll ?n (new_future ()) wk = (n, fut, r)"
      by (cases "notified_poll ?n (new_future ()) wk") auto
    have new: "once_notify_ok ?n (?fs(f \<mapsto> new_future ()))"
      using fs linked_new [of SelPending ?n ?fs f "()"] by (simp add: once_notify_ok_def notify_ok_def)
    have a: "\<not> acquired (new_future () :: unit wait_future)" by (simp add: new_future_def)
    have poll: "once_notify_ok n ((waiting_pool (callers s))(f \<mapsto> fut))" "next_cell ?n \<le> next_cell n"
      using once_notify_poll(1,2) [OF new _ a p, of f] by simp_all
    have "r = Pending" using p np by (auto simp: notified_poll_def new_future_def split: prod.splits)
    then have na: "\<not> acquired fut" "reg fut \<noteq> None"
      using once_notify_poll(3,6) [OF new _ a p, of f] by simp_all
    have e: "enter ?c wk = Some (?c\<lparr>onotify := n\<rparr>, Awaiting fut)"
      using Initializing p by (simp add: enter_cases [OF np])
    show ?thesis
      using inv poll na Initializing unfolding e by (auto simp: once_inv_def split: if_splits)
  qed
qed

lemma once_inv_fresh:
  assumes inv: "once_inv s" and f: "callers s f = Some cl" and not: "cl \<noteq> Running"
    and ok: "once_notify_ok n' ((waiting_pool (callers s))(f := None))"
    and w: "waiters n' \<noteq> [] \<longrightarrow> waiters (onotify (ocell s)) \<noteq> []"
  shows "once_inv (s\<lparr>ocell := (ocell s)\<lparr>onotify := n'\<rparr>, callers := (callers s)(f \<mapsto> Fresh)\<rparr>)"
proof -
  have "runners (callers s) - {f} = runners (callers s)" using runners_not [of "callers s" f cl] f not by simp
  moreover have "callers s g = Some x" if "((callers s)(f \<mapsto> Fresh)) g = Some x" "x \<noteq> Fresh" for g x
    using that by (auto split: if_splits)
  ultimately show ?thesis using inv ok w unfolding once_inv_def by simp
qed

text \<open>What a caller that is neither running nor resumed sees of a step.\<close>

lemma waiting_pool_Some [simp]: "callers s f = Some (Awaiting fut) \<Longrightarrow> waiting_pool (callers s) f = Some fut"
  by (simp add: waiting_pool_def)

lemma once_resume_ok:
  assumes inv: "once_inv s" and f: "callers s f = Some (Awaiting fut)"
  shows "\<exists>c cl. resume (ocell s) fut wk = Some (c, cl) \<and>
    once_inv (s\<lparr>ocell := c, callers := (callers s)(f \<mapsto> cl)\<rparr>) \<and>
    next_cell (onotify (ocell s)) \<le> next_cell (onotify c)"
proof -
  let ?n = "onotify (ocell s)" and ?fs = "waiting_pool (callers s)"
  have ok: "once_notify_ok ?n ?fs" and na: "\<not> acquired fut" "reg fut \<noteq> None"
    using inv f by (auto simp: once_inv_def)
  obtain n fut' r where p: "notified_poll ?n fut wk = (n, fut', r)"
    by (cases "notified_poll ?n fut wk") auto
  note poll = once_notify_poll [OF ok waiting_pool_Some [OF f] na(1) p]
  show ?thesis
  proof (cases r)
    case (Ready u)
    then have n: "n = ?n" "acquired fut'" using poll(3,4) by auto
    let ?s = "s\<lparr>ocell := (ocell s)\<lparr>onotify := ?n\<rparr>\<rparr>"
    have "linked SelPending n ((?fs(f \<mapsto> fut'))(f := None))"
      using linked_drop_unqueued [of SelPending n "?fs(f \<mapsto> fut')" f fut'] poll(1) n(2)
      by (simp add: once_notify_ok_def notify_ok_def acquired_unqueued)
    then have "once_notify_ok ?n (?fs(f := None))"
      using ok n by (simp add: once_notify_ok_def notify_ok_def)
    then have "once_inv (s\<lparr>ocell := (ocell s)\<lparr>onotify := ?n\<rparr>, callers := (callers s)(f \<mapsto> Fresh)\<rparr>)"
      using once_inv_fresh [OF inv f, of ?n] by blast
    then have "\<exists>c cl. enter (ocell ?s) wk = Some (c, cl) \<and>
        once_inv (?s\<lparr>ocell := c, callers := (callers ?s)(f \<mapsto> cl)\<rparr>) \<and>
        next_cell (onotify (ocell ?s)) \<le> next_cell (onotify c)"
      using ok by (intro enter_ok) auto
    moreover have "resume (ocell s) fut wk = enter (ocell ?s) wk"
      using p Ready n by (simp add: resume_def notified_drop_def)
    ultimately show ?thesis by simp
  next
    case Pending
    then have na': "\<not> acquired fut'" "reg fut' \<noteq> None" using poll(3,6) by simp_all
    have w: "waiters n \<noteq> [] \<longrightarrow> ostate (ocell s) = Initializing"
      using poll(5) Pending na(2) inv by (simp add: once_inv_def)
    have "runners (callers s) - {f} = runners (callers s)"
      using runners_not [of "callers s" f] f by simp
    then have "once_inv (s\<lparr>ocell := (ocell s)\<lparr>onotify := n\<rparr>, callers := (callers s)(f \<mapsto> Awaiting fut')\<rparr>)"
      using inv poll(1) na' w unfolding once_inv_def by (auto split: if_splits)
    then show ?thesis using p Pending poll(2) by (simp add: resume_def)
  qed
qed

lemma once_inv_callers:
  assumes "once_inv s"
  shows "callers s g = Some (Awaiting fut) \<Longrightarrow> \<not> acquired fut \<and> reg fut \<noteq> None"
    and "ovalue (ocell s) = None \<Longrightarrow> callers s g \<noteq> Some (Returned x)"
  using assms unfolding once_inv_def by auto

lemma once_finish_ok:
  assumes inv: "once_inv s" and f: "callers s f = Some Running"
  shows "\<exists>c wks. finish_init (ocell s) v = Some (c, Returned v, wks) \<and>
    once_inv (s\<lparr>ocell := c, callers := (callers s)(f \<mapsto> Returned v)\<rparr>) \<and>
    next_cell (onotify (ocell s)) = next_cell (onotify c)"
proof -
  have ok: "once_notify_ok (onotify (ocell s)) (waiting_pool (callers s))"
    using inv by (simp add: once_inv_def)
  obtain n wks where w: "notify_waiters (onotify (ocell s)) = (n, wks)" by fastforce
  note b = once_notify_broadcast [OF ok w]
  have r: "runners (callers s) - {f} = {}" "ostate (ocell s) = Initializing"
    using inv f by (auto simp: once_inv_def runners_def)
  have none: "ovalue (ocell s) = None" using inv r(2) by (auto simp: once_inv_def)
  have pool: "(waiting_pool (callers s))(f := None) = waiting_pool (callers s)"
    by (rule waiting_pool_None) (simp add: f)
  note others = once_inv_callers [OF inv]
  let ?c = "(ocell s)\<lparr>ovalue := Some v, ostate := Initialized, onotify := n\<rparr>"
  have "finish_init (ocell s) v = Some (?c, Returned v, wks)"
    using w by (simp add: finish_init_def ready_value_def once_get_def)
  moreover have "once_inv (s\<lparr>ocell := ?c, callers := (callers s)(f \<mapsto> Returned v)\<rparr>)"
  proof -
    have "runners ((callers s)(f \<mapsto> Returned v)) = {}" using r(1) by simp
    then show ?thesis
      using b pool others none unfolding once_inv_def by (simp del: runners_upd)
  qed
  ultimately show ?thesis using b by simp
qed

lemma once_drop_ok:
  assumes inv: "once_inv s" and small: "next_cell (onotify (ocell s)) \<le> u64_modulus"
    and f: "callers s f = Some cl" and d: "drop_caller (ocell s) cl = (c, wks)"
  shows "once_inv (s\<lparr>ocell := c, callers := (callers s)(f := None)\<rparr>)"
proof -
  let ?n = "onotify (ocell s)" and ?fs = "waiting_pool (callers s)"
  have ok: "once_notify_ok ?n ?fs" using inv by (simp add: once_inv_def)
  show ?thesis
  proof (cases cl)
    case Running
    obtain n wks' where w: "notify_waiters ?n = (n, wks')" by fastforce
    note b = once_notify_broadcast [OF ok w]
    have r: "runners (callers s) - {f} = {}" "ostate (ocell s) = Initializing"
      using inv f Running by (auto simp: once_inv_def runners_def)
    then have none: "ovalue (ocell s) = None" using inv by (auto simp: once_inv_def)
    have pool: "?fs(f := None) = ?fs" by (rule waiting_pool_None) (simp add: f Running)
    have c: "c = (ocell s)\<lparr>ostate := Empty, onotify := n\<rparr>"
      using d w Running by (simp add: drop_caller_def init_guard_drop_def)
    have "runners ((callers s)(f := None)) = {}" using r(1) by simp
    then show ?thesis
      using b none pool once_inv_callers [OF inv] unfolding once_inv_def c by (simp del: runners_upd)
  next
    case (Awaiting fut)
    obtain n wks' where w: "notified_drop ?n fut = (n, wks')" by fastforce
    have f': "?fs f = Some fut" using f Awaiting by simp
    have nk: "notify_ok ?n ?fs" using ok by (simp add: once_notify_ok_def)
    have c: "c = (ocell s)\<lparr>onotify := n\<rparr>" using d w Awaiting by (simp add: drop_caller_def)
    have "n = ?n \<or> (\<exists>i. n = remove_waiter ?n i)"
      using w ok by (auto simp: notified_drop_def once_notify_ok_def
          split: if_splits option.splits selection.splits)
    then have keep: "permit n = permit ?n" "cells n = cells ?n"
        "waiters n \<noteq> [] \<longrightarrow> waiters ?n \<noteq> []"
      by (auto simp: remove_waiter_def)
    have "once_notify_ok n (?fs(f := None))"
      using notified_drop_ok [OF nk small f' w] ok keep by (simp add: once_notify_ok_def)
    moreover have "runners (callers s) - {f} = runners (callers s)"
      using runners_not [of "callers s" f cl] f Awaiting by simp
    ultimately show ?thesis using inv keep(3) unfolding once_inv_def c by simp
  next
    case Fresh
    then have "runners (callers s) - {f} = runners (callers s)" "?fs(f := None) = ?fs"
      using runners_not [of "callers s" f cl] waiting_pool_None [of "callers s" f] f by auto
    moreover have "c = ocell s" using d Fresh by (simp add: drop_caller_def)
    ultimately show ?thesis using inv unfolding once_inv_def by simp
  next
    case (Returned v)
    then have "runners (callers s) - {f} = runners (callers s)" "?fs(f := None) = ?fs"
      using runners_not [of "callers s" f cl] waiting_pool_None [of "callers s" f] f by auto
    moreover have "c = ocell s" using d Returned by (simp add: drop_caller_def)
    ultimately show ?thesis using inv unfolding once_inv_def by simp
  qed
qed

lemma once_fresh_inv:
  assumes "once_inv s" and "callers s f = None \<or> callers s f = Some Fresh"
  shows "once_inv (s\<lparr>callers := (callers s)(f \<mapsto> Fresh)\<rparr>)"
proof -
  have "runners (callers s) - {f} = runners (callers s)"
    using assms(2) by (auto simp: runners_def)
  moreover have "(waiting_pool (callers s))(f := None) = waiting_pool (callers s)"
    using assms(2) by (intro waiting_pool_None) auto
  moreover have "callers s g = Some x" if "((callers s)(f \<mapsto> Fresh)) g = Some x" "x \<noteq> Fresh" for g x
    using that by (auto split: if_splits)
  ultimately show ?thesis using assms(1) unfolding once_inv_def by simp
qed

lemma once_start_ok:
  assumes "once_inv s" and "callers s f = Some Fresh"
  shows "\<exists>c cl. enter (ocell s) wk = Some (c, cl) \<and>
    once_inv (s\<lparr>ocell := c, callers := (callers s)(f \<mapsto> cl)\<rparr>) \<and>
    next_cell (onotify (ocell s)) \<le> next_cell (onotify c)"
  using assms once_fresh_inv [of s f] by (intro enter_ok) (auto simp: once_inv_def)

lemma once_inv_step:
  assumes inv: "once_inv s" and "once_step s l t" and small: "next_cell (onotify (ocell s)) \<le> u64_modulus"
  shows "once_inv t"
  using assms(2)
proof cases
  case (once_call f)
  then show ?thesis using once_fresh_inv [OF inv] by simp
next
  case (once_start f wk c cl)
  then show ?thesis using once_start_ok [OF inv, of f wk] by simp
next
  case (once_resume f fut wk c cl)
  then show ?thesis using once_resume_ok [OF inv, of f fut wk] by simp
next
  case (once_finish f v c cl)
  then show ?thesis using once_finish_ok [OF inv, of f v] by auto
next
  case (once_drop f cl c)
  then show ?thesis using once_drop_ok [OF inv small] by simp
qed

text \<open>The registration counter of the cell's notifier only grows.\<close>

lemma notified_poll_next_cell: "notified_poll n fut wk = (n', fut', r) \<Longrightarrow> next_cell n \<le> next_cell n'"
  by (auto simp: notified_poll_def dest: enqueue_next_cell split: if_splits prod.splits)

lemma notified_drop_next_cell: "next_cell (fst (notified_drop n fut)) = next_cell n"
  by (auto simp: notified_drop_def notify_one_def remove_waiter_def
      split: option.splits selection.splits list.splits)

lemma enter_next_cell: "enter c wk = Some (c', cl) \<Longrightarrow> next_cell (onotify c) \<le> next_cell (onotify c')"
proof (induction c wk rule: enter.induct)
  case (1 c wk)
  show ?case
  proof (cases "ostate c")
    case Initializing
    obtain n fut r where p: "notified_poll (onotify c) (new_future ()) wk = (n, fut, r)"
      by (cases "notified_poll (onotify c) (new_future ()) wk") auto
    note le = notified_poll_next_cell [OF p]
    show ?thesis
    proof (cases r)
      case (Ready u)
      let ?c = "c\<lparr>onotify := fst (notified_drop n fut)\<rparr>"
      have "enter ?c wk = Some (c', cl)"
        using "1.prems" Initializing p Ready by (subst (asm) enter.simps) simp
      from "1.IH" [OF Initializing _ _ _ this] p Ready
      have "next_cell (onotify ?c) \<le> next_cell (onotify c')" by auto
      then show ?thesis using le notified_drop_next_cell [of n fut] by simp
    next
      case Pending
      then have "c' = c\<lparr>onotify := n\<rparr>"
        using "1.prems" Initializing p by (subst (asm) enter.simps) simp
      then show ?thesis using le by simp
    qed
  qed (use "1.prems" in \<open>auto simp: enter.simps [of c wk]\<close>)
qed

lemma once_step_next_cell:
  assumes "once_step s l t"
  shows "next_cell (onotify (ocell s)) \<le> next_cell (onotify (ocell t))"
  using assms
proof cases
  case (once_start f wk c cl)
  then show ?thesis using enter_next_cell by simp
next
  case (once_resume f fut wk c cl)
  obtain n fut' r where p: "notified_poll (onotify (ocell s)) fut wk = (n, fut', r)"
    by (cases "notified_poll (onotify (ocell s)) fut wk") auto
  note le = notified_poll_next_cell [OF p] notified_drop_next_cell [of n fut']
  show ?thesis
  proof (cases r)
    case (Ready u)
    then have "enter ((ocell s)\<lparr>onotify := fst (notified_drop n fut')\<rparr>) wk = Some (c, cl)"
      using once_resume p by (simp add: resume_def)
    from enter_next_cell [OF this] show ?thesis using le once_resume by simp
  next
    case Pending
    then show ?thesis using le once_resume p by (auto simp: resume_def)
  qed
next
  case (once_finish f v c cl)
  then show ?thesis by (auto simp: finish_init_def notify_waiters_def Let_def)
next
  case (once_drop f cl c)
  then show ?thesis
    using notified_drop_next_cell [of "onotify (ocell s)"]
    by (auto simp: drop_caller_def init_guard_drop_def notify_waiters_def
        split: caller.splits prod.splits) (metis fst_conv order_refl)
qed simp

interpretation onces: bounded_system once_init once_step "next_cell \<circ> onotify \<circ> ocell" u64_modulus once_inv
proof
  show "once_inv s" if "once_init s" for s :: "'v once_sys"
    using that
    by (simp add: once_init_def once_inv_def once_new_def once_notify_ok_def notify_ok_def runners_def
        notify_new_def linked_defs)
qed (auto simp: once_step_next_cell intro: once_inv_step)

subsection \<open>Properties\<close>

text \<open>A sample run: caller 0 initializes, caller 1 waits with waker 7, and the value arrives.\<close>

definition once_demo_start :: "nat once_sys" where
  "once_demo_start = \<lparr>ocell = once_new, callers = Map.empty\<rparr>"

definition once_demo_waiting :: "nat once_sys" where
  "once_demo_waiting =
     \<lparr>ocell = \<lparr>ostate = Initializing,
        onotify = \<lparr>next_waiter_id = 1, waiters = [\<lparr>wid = 0, wkind = (), cell = 0, wwaker = 7\<rparr>],
           cells = (\<lambda>_. SelPending)(0 := SelPending), next_cell = 1, permit = False\<rparr>, ovalue = None\<rparr>,
      callers = [0 \<mapsto> Running, 1 \<mapsto> Awaiting \<lparr>fkind = (), reg = Some (0, 0), acquired = False\<rparr>]\<rparr>"

definition once_demo_end :: "nat once_sys" where
  "once_demo_end =
     \<lparr>ocell = \<lparr>ostate = Initialized,
        onotify = \<lparr>next_waiter_id = 1, waiters = [],
           cells = (\<lambda>_. SelPending)(0 := SelPending, 0 := SelWaiters), next_cell = 1, permit = False\<rparr>,
        ovalue = Some 42\<rparr>,
      callers = [1 \<mapsto> Awaiting \<lparr>fkind = (), reg = Some (0, 0), acquired = False\<rparr>, 0 \<mapsto> Returned 42]\<rparr>"

lemma once_demo_init: "once_init once_demo_start"
  by (simp add: once_init_def once_demo_start_def)

lemma once_demo_run:
  "run once_step once_demo_start [[], [], [], []] once_demo_waiting"
  "once_step once_demo_waiting [7] once_demo_end"
proof -
  let ?s1 = "once_demo_start\<lparr>callers := [0 \<mapsto> Fresh]\<rparr>"
  let ?s2 = "?s1\<lparr>ocell := once_new\<lparr>ostate := Initializing\<rparr>, callers := [0 \<mapsto> Running]\<rparr>"
  let ?s3 = "?s2\<lparr>callers := [0 \<mapsto> Running, 1 \<mapsto> Fresh]\<rparr>"
  have 1: "once_step once_demo_start [] ?s1"
    using once_call [of once_demo_start 0] by (simp add: once_demo_start_def)
  have 2: "once_step ?s1 [] ?s2"
    using once_start [of ?s1 0 7] by (simp add: once_demo_start_def enter_cases once_new_def notify_new_def)
  have 3: "once_step ?s2 [] ?s3"
    using once_call [of ?s2 1] by simp
  have 4: "once_step ?s3 [] once_demo_waiting"
    using once_start [of ?s3 1 7]
    by (simp add: once_demo_start_def once_demo_waiting_def enter_cases once_new_def notified_poll_def
        new_future_def notify_new_def enqueue_def register_eq wrapping_succ_def u64_modulus_def)
  show "run once_step once_demo_start [[], [], [], []] once_demo_waiting"
    by (rule run_Cons, rule 1, rule run_Cons, rule 2, rule run_Cons, rule 3, rule run_Cons, rule 4,
        rule run_Nil)
  show "once_step once_demo_waiting [7] once_demo_end"
    using once_finish [of once_demo_waiting 0 42]
    by (simp add: once_demo_waiting_def once_demo_end_def finish_init_def notify_waiters_def
        ready_value_def once_get_def Let_def)
qed

lemma once_demo_full_run: "run once_step once_demo_start [[], [], [], [], [7]] once_demo_end"
  using run_snoc [OF once_demo_run] by simp

text \<open>At most one initializer runs at a time, the cell holds a value exactly in its final state,
  and every caller that has returned was given that value.\<close>

theorem once_single_initializer:
  assumes "once_init s" and "run once_step s ls t" and "next_cell (onotify (ocell t)) \<le> u64_modulus"
  shows "(callers t f = Some Running \<and> callers t g = Some Running \<longrightarrow> f = g) \<and>
    (ostate (ocell t) = Initialized \<longleftrightarrow> ovalue (ocell t) \<noteq> None) \<and>
    (callers t f = Some (Returned v) \<longrightarrow> once_get (ocell t) = Some v)"
  using onces.inv_reachable [OF assms(1,2)] assms(3)
  by (auto simp: once_inv_def runners_def once_get_def)

theorem once_single_initializer_witness: "once_get (ocell once_demo_end) = Some 42"
  using once_single_initializer [OF once_demo_init once_demo_full_run, of 0 0 42]
  by (simp add: once_demo_end_def u64_modulus_def)

text \<open>The value is set once: when the cell is initialized, no further call, completion, cancellation
  or panic of another caller changes it.\<close>

theorem once_value_stable:
  assumes "once_init s" and "run once_step s ls t" and "next_cell (onotify (ocell t)) \<le> u64_modulus"
    and "once_get (ocell t) = Some v" and "once_step t l u"
  shows "once_get (ocell u) = Some v"
proof -
  have inv: "once_inv t" using onces.inv_reachable [OF assms(1,2)] assms(3) by simp
  have st: "ostate (ocell t) = Initialized" "ovalue (ocell t) = Some v"
    using assms(4) by (auto simp: once_get_def split: if_splits)
  have np: "\<not> permit (onotify (ocell t))" using inv by (simp add: once_inv_def once_notify_ok_def)
  have nr: "callers t f \<noteq> Some Running" for f using inv st by (auto simp: once_inv_def runners_def)
  have enter: "enter (ocell t\<lparr>onotify := n\<rparr>) wk = Some (c, cl) \<Longrightarrow> once_get c = Some v" for n wk c cl
    using st by (subst (asm) enter.simps) (auto simp: ready_value_def once_get_def)
  show ?thesis
    using assms(5)
  proof cases
    case (once_start f wk c cl)
    then show ?thesis using enter [of "onotify (ocell t)"] by simp
  next
    case (once_resume f fut wk c cl)
    then show ?thesis
      using enter st by (auto simp: resume_def once_get_def [of "_\<lparr>onotify := _\<rparr>"]
          split: prod.splits poll.splits)
  next
    case (once_drop f cl c)
    then show ?thesis
      using nr [of f] st by (auto simp: drop_caller_def once_get_def split: caller.splits prod.splits)
  qed (use assms(4) nr in auto)
qed

theorem once_value_stable_witness:
  "once_get (ocell (once_demo_end\<lparr>callers := (callers once_demo_end)(2 \<mapsto> Fresh)\<rparr>)) = Some 42"
  using once_value_stable [OF once_demo_init once_demo_full_run _ _ once_call, of 42 2]
  by (simp add: once_demo_end_def u64_modulus_def once_get_def)

text \<open>No caller is stranded: somebody waits only while an initializer runs, and when that
  initializer is cancelled or panics every waiting caller is woken and the next one polled takes
  over; no poll of a caller ever panics.\<close>

theorem once_takeover:
  assumes "once_init s" and "run once_step s ls t" and "next_cell (onotify (ocell t)) \<le> u64_modulus"
  shows "(waiters (onotify (ocell t)) \<noteq> [] \<longrightarrow> (\<exists>f. callers t f = Some Running)) \<and>
    (callers t f = Some Running \<longrightarrow>
       (\<exists>c. drop_caller (ocell t) Running = (c, map wwaker (waiters (onotify (ocell t)))) \<and>
            waiters (onotify c) = [] \<and> enter c wk = Some (c\<lparr>ostate := Initializing\<rparr>, Running))) \<and>
    (callers t f = Some Fresh \<longrightarrow> enter (ocell t) wk \<noteq> panic) \<and>
    (callers t f = Some (Awaiting fut) \<longrightarrow> resume (ocell t) fut wk \<noteq> panic)"
proof -
  have inv: "once_inv t" using onces.inv_reachable [OF assms(1,2)] assms(3) by simp
  then have np: "\<not> permit (onotify (ocell t))" by (simp add: once_inv_def once_notify_ok_def)
  have "\<exists>c. drop_caller (ocell t) Running = (c, map wwaker (waiters (onotify (ocell t)))) \<and>
      waiters (onotify c) = [] \<and> enter c wk = Some (c\<lparr>ostate := Initializing\<rparr>, Running)"
    using np by (simp add: drop_caller_def init_guard_drop_def notify_waiters_def enter_cases)
  moreover have "\<exists>f. callers t f = Some Running" if "waiters (onotify (ocell t)) \<noteq> []"
    using inv that by (auto simp: once_inv_def runners_def)
  moreover have "enter (ocell t) wk \<noteq> panic" if "callers t f = Some Fresh"
    using once_start_ok [OF inv that, of wk] by auto
  moreover have "resume (ocell t) fut wk \<noteq> panic" if "callers t f = Some (Awaiting fut)"
    using once_resume_ok [OF inv that, of wk] by auto
  ultimately show ?thesis by blast
qed

theorem once_takeover_witness:
  "\<exists>c. drop_caller (ocell once_demo_waiting) Running = (c, [7]) \<and> waiters (onotify c) = []"
  using once_takeover [OF once_demo_init once_demo_run(1), of 0]
  by (auto simp: once_demo_waiting_def u64_modulus_def)

end
