(* ===== verification/Cancel_Token.thy ===== *)
theory Cancel_Token
  imports Transition
begin

text \<open>
  \<open>src/sync/cancellation.rs\<close>: hierarchical cancellation tokens. A \<open>TokenState\<close> lives in a store and
  is named by its index, which is never reused; \<open>strong\<close> is the number of \<open>Rc\<close> handles, and a weak
  child reference upgrades exactly when that number is positive. \<open>collect_cancellation\<close> walks the
  subtree with an explicit stack and is modelled as that loop, with its termination proof.
\<close>

subsection \<open>Tokens\<close>

record token_state =
  strong :: nat
  cancelled :: bool
  wakers :: "(nat \<times> waker) list"
  next_waiter :: nat
  children :: "address list"

type_synonym token_store = "token_state list"

definition token_new :: token_state where
  "token_new = \<lparr>strong = 1, cancelled = False, wakers = [], next_waiter = 0, children = []\<rparr>"

text \<open>\<open>Weak::upgrade\<close> succeeds.\<close>

definition upgrades :: "token_store \<Rightarrow> address \<Rightarrow> bool" where
  "upgrades st a \<longleftrightarrow> a < length st \<and> 0 < strong (st ! a)"

definition new_token :: "token_store \<Rightarrow> token_store \<times> address" where
  "new_token st = (st @ [token_new], length st)"

definition clone_token :: "token_store \<Rightarrow> address \<Rightarrow> token_store" where
  "clone_token st a = st[a := (st ! a)\<lparr>strong := strong (st ! a) + 1\<rparr>]"

text \<open>Dropping the last handle drops the state with its wakers and its weak references.\<close>

definition drop_token :: "token_store \<Rightarrow> address \<Rightarrow> token_store" where
  "drop_token st a =
     (let t = st ! a in
      st[a := (if strong t \<le> 1 then t\<lparr>strong := 0, wakers := [], children := []\<rparr>
               else t\<lparr>strong := strong t - 1\<rparr>)])"

lemma open_decreases:
  "a < length st \<Longrightarrow> \<not> cancelled (st ! a) \<Longrightarrow> cancelled t \<Longrightarrow>
   length (filter (\<lambda>t. \<not> cancelled t) (st[a := t])) < length (filter (\<lambda>t. \<not> cancelled t) st)"
proof (induction st arbitrary: a)
  case (Cons x st)
  then show ?case by (cases a) auto
qed simp

text \<open>The stack \<open>pending\<close> has its top at the head, so the children extend it in reverse. The index
  test stands for the validity of an \<open>Rc\<close>; every stack entry of the code satisfies it.\<close>

function collect_cancellation ::
  "token_store \<Rightarrow> address list \<Rightarrow> waker list \<Rightarrow> token_store \<times> waker list" where
  "collect_cancellation st [] wks = (st, wks)"
| "collect_cancellation st (a # pending) wks =
     (if a < length st \<and> \<not> cancelled (st ! a) then
        let t = st ! a in
        collect_cancellation (st[a := t\<lparr>cancelled := True, wakers := [], children := []\<rparr>])
          (rev (filter (upgrades st) (children t)) @ pending) (wks @ map snd (wakers t))
      else collect_cancellation st pending wks)"
  by pat_completeness auto

termination
  by (relation "measures [\<lambda>(st, pending, wks). length (filter (\<lambda>t. \<not> cancelled t) st),
        \<lambda>(st, pending, wks). length pending]")
    (auto simp: open_decreases)

definition cancel :: "token_store \<Rightarrow> address \<Rightarrow> token_store \<times> waker list" where
  "cancel st a = collect_cancellation st [a] []"

definition is_cancelled :: "token_store \<Rightarrow> address \<Rightarrow> bool" where
  "is_cancelled st a = cancelled (st ! a)"

text \<open>\<open>at_capacity\<close> says whether the children vector is full (\<open>len == capacity\<close>), which the code
  leaves to the allocator.\<close>

definition child_token :: "bool \<Rightarrow> token_store \<Rightarrow> address \<Rightarrow> token_store \<times> address" where
  "child_token at_capacity st a =
     (if cancelled (st ! a) then (st @ [token_new\<lparr>cancelled := True\<rparr>], length st)
      else
        let t = st ! a;
            kept = (if at_capacity then filter (upgrades st) (children t) else children t)
        in (st[a := t\<lparr>children := kept @ [length st]\<rparr>] @ [token_new], length st))"

subsection \<open>Waiting: the \<open>cancelled()\<close> future\<close>

fun set_stored :: "nat \<Rightarrow> waker \<Rightarrow> (nat \<times> waker) list \<Rightarrow> (nat \<times> waker) list" where
  "set_stored i wk [] = []"
| "set_stored i wk ((j, old) # ws) = (if j = i then (j, wk) # ws else (j, old) # set_stored i wk ws)"

text \<open>The poll closure; \<open>None\<close> is the overflow of the \<open>u64\<close> tag counter.\<close>

definition cancelled_poll ::
  "token_store \<Rightarrow> address \<Rightarrow> nat option \<Rightarrow> waker \<Rightarrow> (token_store \<times> nat option \<times> unit poll) panics" where
  "cancelled_poll st a reg wk =
     (let t = st ! a in
      if cancelled t then Some (st, reg, Ready ())
      else case reg of
        None \<Rightarrow>
          (case checked_add (next_waiter t) 1 of
             None \<Rightarrow> panic
           | Some n \<Rightarrow>
               Some (st[a := t\<lparr>next_waiter := n, wakers := wakers t @ [(next_waiter t, wk)]\<rparr>],
                     Some (next_waiter t), Pending))
      | Some w \<Rightarrow> Some (st[a := t\<lparr>wakers := set_stored w wk (wakers t)\<rparr>], reg, Pending))"

text \<open>\<open>Registration::drop\<close>.\<close>

definition registration_drop :: "token_store \<Rightarrow> address \<Rightarrow> nat option \<Rightarrow> token_store" where
  "registration_drop st a reg =
     (case reg of
        None \<Rightarrow> st
      | Some w \<Rightarrow>
          (case position (\<lambda>(slot, _). slot = w) (wakers (st ! a)) of
             None \<Rightarrow> st
           | Some i \<Rightarrow> st[a := (st ! a)\<lparr>wakers := swap_remove i (wakers (st ! a))\<rparr>]))"

subsection \<open>Which tokens a cancellation reaches\<close>

inductive live_path :: "token_store \<Rightarrow> address \<Rightarrow> address \<Rightarrow> bool" for st where
  live_here: "a < length st \<Longrightarrow> live_path st a a"
| live_child: "live_path st a b \<Longrightarrow> c \<in> set (children (st ! b)) \<Longrightarrow> upgrades st c \<Longrightarrow> live_path st a c"

text \<open>A cancelled token has given away its wakers and children.\<close>

definition quiet :: "token_store \<Rightarrow> bool" where
  "quiet st \<longleftrightarrow> (\<forall>t \<in> set st. cancelled t \<longrightarrow> wakers t = [] \<and> children t = [])"

lemma live_path_bound: "live_path st a b \<Longrightarrow> a < length st \<and> b < length st"
  by (induction rule: live_path.induct) (auto simp: upgrades_def)

lemma live_path_trans: "live_path st b c \<Longrightarrow> live_path st a b \<Longrightarrow> live_path st a c"
  by (induction rule: live_path.induct) (auto intro: live_path.intros)

lemma live_path_cancelled:
  assumes "live_path st a b" and "quiet st" and "cancelled (st ! a)"
  shows "b = a"
  using assms
proof (induction rule: live_path.induct)
  case (live_child a b c)
  then have "b = a" "children (st ! a) = []"
    using live_path_bound by (auto simp: quiet_def)
  with live_child show ?case by simp
qed simp

text \<open>Marking one token cuts the paths below it into paths from its live children.\<close>

abbreviation (input) marked :: "token_store \<Rightarrow> address \<Rightarrow> token_store" where
  "marked st a \<equiv> st[a := (st ! a)\<lparr>cancelled := True, wakers := [], children := []\<rparr>]"

lemma marked_nth:
  "b < length st \<Longrightarrow> marked st a ! b =
     (if a = b then (st ! a)\<lparr>cancelled := True, wakers := [], children := []\<rparr> else st ! b)"
  by (cases "a = b") auto

lemma marked_upgrades [simp]: "upgrades (marked st a) b = upgrades st b"
  by (cases "b < length st") (auto simp: upgrades_def marked_nth)

lemma marked_path: "live_path (marked st a) x b \<Longrightarrow> live_path st x b"
proof (induction rule: live_path.induct)
  case (live_child x b c)
  then have "c \<in> set (children (st ! b))"
    using live_path_bound [OF live_child.IH] by (auto simp: marked_nth split: if_splits)
  then show ?case using live_child by (auto intro: live_path.live_child)
qed (auto intro: live_path.intros)

lemma path_marked:
  assumes "live_path st x b"
  shows "b = a \<or> (\<exists>c \<in> set (children (st ! a)). upgrades st c \<and> live_path (marked st a) c b) \<or>
    live_path (marked st a) x b"
  using assms
proof (induction rule: live_path.induct)
  case (live_here x)
  then show ?case by (auto intro: live_path.live_here)
next
  case (live_child x b c)
  have c: "live_path (marked st a) c c"
    using live_child by (auto simp: upgrades_def intro: live_path.live_here)
  show ?case
  proof (cases "b = a")
    case True
    then show ?thesis using c live_child by auto
  next
    case False
    then have "c \<in> set (children (marked st a ! b))" using live_child by simp
    then have "live_path (marked st a) d c" if "live_path (marked st a) d b" for d
      using live_path.live_child [OF that] live_child by simp
    then show ?thesis using live_child.IH False by blast
  qed
qed

lemma quiet_marked: "quiet st \<Longrightarrow> quiet (marked st a)"
  by (auto simp: quiet_def dest!: set_update_subset_insert [THEN subsetD])

abbreviation all_wakers :: "token_store \<Rightarrow> waker multiset" where
  "all_wakers st \<equiv> \<Sum>t \<in># mset st. mset (map snd (wakers t))"

lemma all_wakers_update:
  assumes "a < length st"
  shows "all_wakers (st[a := t]) + mset (map snd (wakers (st ! a))) = all_wakers st + mset (map snd (wakers t))"
proof -
  define M where "M = mset st - {#st ! a#}"
  have "mset st = add_mset (st ! a) M" "mset (st[a := t]) = add_mset t M"
    using assms by (simp_all add: M_def mset_update)
  then show ?thesis by (simp add: ac_simps)
qed

text \<open>The loop invariant of \<open>collect_cancellation\<close>, read off its result.\<close>

lemma collect_ok:
  assumes "quiet st" and "collect_cancellation st pending wks = (st', wks')"
  shows "quiet st' \<and> length st' = length st \<and>
    (\<forall>b < length st. cancelled (st' ! b) \<longleftrightarrow>
        cancelled (st ! b) \<or> (\<exists>a \<in> set pending. live_path st a b)) \<and>
    (\<forall>b < length st. next_waiter (st' ! b) = next_waiter (st ! b) \<and>
        (cancelled (st' ! b) = cancelled (st ! b) \<longrightarrow> st' ! b = st ! b)) \<and>
    all_wakers st' + mset wks' = all_wakers st + mset wks"
  using assms
proof (induction st pending wks rule: collect_cancellation.induct)
  case (1 st wks)
  then show ?case by simp
next
  case (2 st a pending wks)
  show ?case
  proof (cases "a < length st \<and> \<not> cancelled (st ! a)")
    case True
    let ?st = "marked st a"
    let ?p = "rev (filter (upgrades st) (children (st ! a))) @ pending"
    have "collect_cancellation ?st ?p (wks @ map snd (wakers (st ! a))) = (st', wks')"
      using 2 True by (simp add: Let_def)
    note IH = "2.IH"(1) [OF True refl quiet_marked [OF "2.prems"(1)] this]
    have reach: "(b = a \<or> (\<exists>x \<in> set ?p. live_path ?st x b)) \<longleftrightarrow> (\<exists>x \<in> set (a # pending). live_path st x b)"
      if b: "b < length st" for b
    proof
      assume "b = a \<or> (\<exists>x \<in> set ?p. live_path ?st x b)"
      then consider "b = a" | x where "x \<in> set (children (st ! a))" "upgrades st x" "live_path st x b"
        | x where "x \<in> set pending" "live_path st x b"
        using marked_path [of st a] by auto
      then show "\<exists>x \<in> set (a # pending). live_path st x b"
      proof cases
        case (2 x)
        then have "live_path st a x" using True live_path.live_child [OF live_path.live_here] by blast
        then show ?thesis using 2 live_path_trans by auto
      qed (use True live_path.live_here in auto)
    next
      assume "\<exists>x \<in> set (a # pending). live_path st x b"
      then show "b = a \<or> (\<exists>x \<in> set ?p. live_path ?st x b)"
        using path_marked [of st _ b a] live_path_cancelled [of ?st a b] quiet_marked [OF "2.prems"(1), of a]
          True by auto
    qed
    have here: "cancelled (?st ! b) \<longleftrightarrow> cancelled (st ! b) \<or> b = a" if "b < length st" for b
      using that True by (auto simp: nth_list_update)
    have "cancelled (st' ! b) \<longleftrightarrow> cancelled (st ! b) \<or> (\<exists>x \<in> set (a # pending). live_path st x b)"
      if "b < length st" for b
      using IH reach [OF that] here [OF that] that by simp
    moreover have "st' ! b = st ! b" if "b < length st" "cancelled (st' ! b) = cancelled (st ! b)" for b
      using IH here [OF that(1)] that True by (cases "b = a") auto
    moreover have "next_waiter (st' ! b) = next_waiter (st ! b)" if "b < length st" for b
      using IH that by (auto simp: marked_nth)
    moreover have "all_wakers st' + mset wks' = all_wakers st + mset wks"
      using IH all_wakers_update [of a st "(st ! a)\<lparr>cancelled := True, wakers := [], children := []\<rparr>"] True
      by (simp add: ac_simps)
    ultimately show ?thesis using IH by simp
  next
    case False
    then have "collect_cancellation st pending wks = (st', wks')" using 2 by auto
    note IH = "2.IH"(2) [OF False "2.prems"(1) this]
    have "cancelled (st ! b)" if "live_path st a b" for b
      using that False live_path_bound [OF that] live_path_cancelled [OF that "2.prems"(1)] by auto
    then show ?thesis using IH by auto
  qed
qed

lemma cancel_ok:
  assumes "quiet st" and "cancel st a = (st', wks)"
  shows "quiet st'" and "length st' = length st"
    and "b < length st \<Longrightarrow> cancelled (st' ! b) \<longleftrightarrow> cancelled (st ! b) \<or> live_path st a b"
    and "b < length st \<Longrightarrow> cancelled (st' ! b) = cancelled (st ! b) \<Longrightarrow> st' ! b = st ! b"
    and "b < length st \<Longrightarrow> next_waiter (st' ! b) = next_waiter (st ! b)"
    and "all_wakers st' + mset wks = all_wakers st"
  using collect_ok [OF assms(1) assms(2) [unfolded cancel_def]] by simp_all

subsection \<open>Tokens with their waiting futures\<close>

text \<open>A \<open>cancelled()\<close> future: the token it borrows, its registration, and the waker of its last poll.\<close>

record cancel_future =
  ctoken :: address
  cwaiter :: "nat option"
  cwaker :: waker

record cancel_sys =
  toks :: token_store
  cfuts :: "nat \<rightharpoonup> cancel_future"

definition cancel_init :: "cancel_sys \<Rightarrow> bool" where
  "cancel_init s \<longleftrightarrow> s = \<lparr>toks = [], cfuts = Map.empty\<rparr>"

text \<open>A handle is dropped only when no future borrows its last reference.\<close>

inductive cancel_step :: "cancel_sys \<Rightarrow> waker list \<Rightarrow> cancel_sys \<Rightarrow> bool" where
  tok_new: "cancel_step s [] (s\<lparr>toks := fst (new_token (toks s))\<rparr>)"
| tok_clone: "upgrades (toks s) a \<Longrightarrow> cancel_step s [] (s\<lparr>toks := clone_token (toks s) a\<rparr>)"
| tok_drop:
    "upgrades (toks s) a \<Longrightarrow> 1 < strong (toks s ! a) \<or> (\<forall>f fut. cfuts s f = Some fut \<longrightarrow> ctoken fut \<noteq> a) \<Longrightarrow>
     cancel_step s [] (s\<lparr>toks := drop_token (toks s) a\<rparr>)"
| tok_child:
    "upgrades (toks s) a \<Longrightarrow> cancel_step s [] (s\<lparr>toks := fst (child_token full (toks s) a)\<rparr>)"
| tok_cancel:
    "upgrades (toks s) a \<Longrightarrow> cancel (toks s) a = (st, wks) \<Longrightarrow> cancel_step s wks (s\<lparr>toks := st\<rparr>)"
| tok_wait:
    "upgrades (toks s) a \<Longrightarrow> cfuts s f = None \<Longrightarrow>
     cancel_step s [] (s\<lparr>cfuts := (cfuts s)(f \<mapsto> \<lparr>ctoken = a, cwaiter = None, cwaker = 0\<rparr>)\<rparr>)"
| tok_poll:
    "cfuts s f = Some fut \<Longrightarrow> cancelled_poll (toks s) (ctoken fut) (cwaiter fut) wk = Some (st, reg, r) \<Longrightarrow>
     cancel_step s [] (s\<lparr>toks := st, cfuts := (cfuts s)(f \<mapsto> fut\<lparr>cwaiter := reg, cwaker := wk\<rparr>)\<rparr>)"
| tok_drop_future:
    "cfuts s f = Some fut \<Longrightarrow>
     cancel_step s [] (s\<lparr>toks := registration_drop (toks s) (ctoken fut) (cwaiter fut),
                        cfuts := (cfuts s)(f := None)\<rparr>)"

inductive_cases cancel_stepE: "cancel_step s l t"

text \<open>Every registered future is found under its own tag with its latest waker, unless its token has
  been cancelled; tags are unique within a token and below its counter.\<close>

definition registered :: "token_store \<Rightarrow> cancel_future \<Rightarrow> bool" where
  "registered st fut \<longleftrightarrow>
     ctoken fut < length st \<and>
     (\<forall>w. cwaiter fut = Some w \<longrightarrow>
        w < next_waiter (st ! ctoken fut) \<and>
        (\<not> cancelled (st ! ctoken fut) \<longrightarrow> (w, cwaker fut) \<in> set (wakers (st ! ctoken fut))))"

definition tags_ok :: "token_state \<Rightarrow> bool" where
  "tags_ok t \<longleftrightarrow> distinct (map fst (wakers t)) \<and> fst ` set (wakers t) \<subseteq> {..< next_waiter t}"

definition cancel_inv :: "cancel_sys \<Rightarrow> bool" where
  "cancel_inv s \<longleftrightarrow>
     quiet (toks s) \<and> (\<forall>t \<in> set (toks s). tags_ok t) \<and>
     (\<forall>f fut. cfuts s f = Some fut \<longrightarrow> registered (toks s) fut) \<and>
     (\<forall>f g fut fut' w. cfuts s f = Some fut \<and> cfuts s g = Some fut' \<and> ctoken fut = ctoken fut' \<and>
        cwaiter fut = Some w \<and> cwaiter fut' = Some w \<longrightarrow> f = g)"

subsection \<open>Every call keeps the invariant\<close>

lemma registered_mono:
  assumes "registered st fut" and "length st \<le> length st'"
    and "next_waiter (st' ! ctoken fut) = next_waiter (st ! ctoken fut)"
    and "\<not> cancelled (st' ! ctoken fut) \<Longrightarrow>
      \<not> cancelled (st ! ctoken fut) \<and> wakers (st' ! ctoken fut) = wakers (st ! ctoken fut)"
  shows "registered st' fut"
  using assms by (auto simp: registered_def)

lemma cancel_inv_store:
  assumes inv: "cancel_inv s" and "quiet st'" and "\<forall>t \<in> set st'. tags_ok t"
    and "\<And>f fut. cfuts s f = Some fut \<Longrightarrow> registered (toks s) fut \<Longrightarrow> registered st' fut"
  shows "cancel_inv (s\<lparr>toks := st'\<rparr>)"
proof -
  have "registered st' fut" if "cfuts s f = Some fut" for f fut
    using assms(4) [OF that] inv that unfolding cancel_inv_def by blast
  then show ?thesis using inv assms(2,3) unfolding cancel_inv_def by simp
qed

lemma tags_ok_simps [simp]:
  "tags_ok (t\<lparr>strong := n\<rparr>) = tags_ok t" "tags_ok (t\<lparr>children := cs\<rparr>) = tags_ok t"
  "tags_ok (t\<lparr>wakers := []\<rparr>)" "tags_ok token_new" "tags_ok (token_new\<lparr>cancelled := b\<rparr>)"
  by (auto simp: tags_ok_def token_new_def)

text \<open>One token replaced by another: what the invariant asks of the new one.\<close>

lemma quiet_update:
  "quiet st \<Longrightarrow> (cancelled t \<longrightarrow> wakers t = [] \<and> children t = []) \<Longrightarrow> quiet (st[a := t])"
  unfolding quiet_def by (metis insertE set_update_subset_insert subsetD)

lemma tags_update: "\<forall>t \<in> set st. tags_ok t \<Longrightarrow> tags_ok t \<Longrightarrow> \<forall>t \<in> set (st[a := t]). tags_ok t"
  by (metis insertE set_update_subset_insert subsetD)

lemma quiet_snoc: "quiet st \<Longrightarrow> quiet (st @ [token_new])" "quiet st \<Longrightarrow> quiet (st @ [token_new\<lparr>cancelled := b\<rparr>])"
  by (auto simp: quiet_def token_new_def)

lemma cancel_inv_nth:
  assumes "cancel_inv s" and "a < length (toks s)"
  shows "cancelled (toks s ! a) \<longrightarrow> wakers (toks s ! a) = [] \<and> children (toks s ! a) = []"
    and "tags_ok (toks s ! a)"
  using assms by (auto simp: cancel_inv_def quiet_def)

lemma registered_nth:
  assumes "cancel_inv s" and "cfuts s f = Some fut"
  shows "registered (toks s) fut" "ctoken fut < length (toks s)"
  using assms by (auto simp: cancel_inv_def registered_def)

lemma inv_clone:
  assumes "cancel_inv s" and "upgrades (toks s) a"
  shows "cancel_inv (s\<lparr>toks := clone_token (toks s) a\<rparr>)"
proof (rule cancel_inv_store [OF assms(1)])
  have a: "a < length (toks s)" using assms(2) by (simp add: upgrades_def)
  note n = cancel_inv_nth [OF assms(1) a]
  show "quiet (clone_token (toks s) a)"
    using assms(1) n by (auto simp: clone_token_def cancel_inv_def intro!: quiet_update)
  show "\<forall>t \<in> set (clone_token (toks s) a). tags_ok t"
    using assms(1) n unfolding clone_token_def by (intro tags_update) (auto simp: cancel_inv_def)
  show "registered (clone_token (toks s) a) fut" if "registered (toks s) fut" for fut
    using that by (rule registered_mono) (auto simp: clone_token_def nth_list_update a split: if_splits)
qed

lemma inv_drop:
  assumes "cancel_inv s" and "upgrades (toks s) a"
    and "1 < strong (toks s ! a) \<or> (\<forall>f fut. cfuts s f = Some fut \<longrightarrow> ctoken fut \<noteq> a)"
  shows "cancel_inv (s\<lparr>toks := drop_token (toks s) a\<rparr>)"
proof (rule cancel_inv_store [OF assms(1)])
  have a: "a < length (toks s)" using assms(2) by (simp add: upgrades_def)
  note n = cancel_inv_nth [OF assms(1) a]
  show "quiet (drop_token (toks s) a)"
    using assms(1) n by (auto simp: drop_token_def Let_def cancel_inv_def intro!: quiet_update)
  show "\<forall>t \<in> set (drop_token (toks s) a). tags_ok t"
    using assms(1) n unfolding drop_token_def Let_def by (intro tags_update) (auto simp: cancel_inv_def)
  show "registered (drop_token (toks s) a) fut" if "cfuts s f = Some fut" "registered (toks s) fut" for f fut
    using that(2)
  proof (rule registered_mono)
    have "ctoken fut \<noteq> a \<or> 1 < strong (toks s ! a)" using assms(3) that(1) by blast
    then show "next_waiter (drop_token (toks s) a ! ctoken fut) = next_waiter (toks s ! ctoken fut)"
      "\<not> cancelled (drop_token (toks s) a ! ctoken fut) \<Longrightarrow> \<not> cancelled (toks s ! ctoken fut) \<and>
         wakers (drop_token (toks s) a ! ctoken fut) = wakers (toks s ! ctoken fut)"
      by (auto simp: drop_token_def Let_def nth_list_update a split: if_splits)
  qed (simp add: drop_token_def Let_def)
qed

lemma inv_child:
  assumes "cancel_inv s" and "upgrades (toks s) a"
  shows "cancel_inv (s\<lparr>toks := fst (child_token full (toks s) a)\<rparr>)"
proof (rule cancel_inv_store [OF assms(1)])
  have a: "a < length (toks s)" using assms(2) by (simp add: upgrades_def)
  note n = cancel_inv_nth [OF assms(1) a]
  have q: "quiet (toks s)" and t: "\<forall>t \<in> set (toks s). tags_ok t" using assms(1) by (auto simp: cancel_inv_def)
  show "quiet (fst (child_token full (toks s) a))"
    using q n by (auto simp: child_token_def Let_def intro!: quiet_update quiet_snoc)
  have u: "\<forall>t \<in> set ((toks s)[a := (toks s ! a)\<lparr>children := cs\<rparr>]). tags_ok t" for cs
    using t n(2) by (intro tags_update) auto
  show "\<forall>t \<in> set (fst (child_token full (toks s) a)). tags_ok t"
    using t u by (auto simp: child_token_def Let_def)
  show "registered (fst (child_token full (toks s) a)) fut" if "registered (toks s) fut" for fut
  proof (rule registered_mono [OF that])
    have "ctoken fut < length (toks s)" using that by (simp add: registered_def)
    then show "next_waiter (fst (child_token full (toks s) a) ! ctoken fut) = next_waiter (toks s ! ctoken fut)"
      "\<not> cancelled (fst (child_token full (toks s) a) ! ctoken fut) \<Longrightarrow> \<not> cancelled (toks s ! ctoken fut) \<and>
         wakers (fst (child_token full (toks s) a) ! ctoken fut) = wakers (toks s ! ctoken fut)"
      by (auto simp: child_token_def Let_def nth_append nth_list_update a split: if_splits)
  qed (simp add: child_token_def Let_def)
qed

lemma inv_cancel:
  assumes "cancel_inv s" and "cancel (toks s) a = (st, wks)"
  shows "cancel_inv (s\<lparr>toks := st\<rparr>)"
proof (rule cancel_inv_store [OF assms(1)])
  have q: "quiet (toks s)" and t: "\<forall>t \<in> set (toks s). tags_ok t" using assms(1) by (auto simp: cancel_inv_def)
  note c = cancel_ok [OF q assms(2)]
  show "quiet st" by (rule c(1))
  have same: "st ! b = toks s ! b \<or> cancelled (st ! b) \<and> wakers (st ! b) = []" if b: "b < length (toks s)" for b
    using c(3,4) [OF b] c(1,2) b by (auto simp: quiet_def)
  have "tags_ok (st ! b)" if b: "b < length (toks s)" for b
    using same [OF b]
  proof
    assume "st ! b = toks s ! b"
    then show ?thesis using t b by simp
  qed (simp add: tags_ok_def)
  then show "\<forall>t \<in> set st. tags_ok t" using c(2) by (metis in_set_conv_nth)
  show "registered st fut" if "registered (toks s) fut" for fut
  proof (rule registered_mono [OF that])
    have b: "ctoken fut < length (toks s)" using that by (simp add: registered_def)
    show "next_waiter (st ! ctoken fut) = next_waiter (toks s ! ctoken fut)" by (rule c(5) [OF b])
    show "\<not> cancelled (st ! ctoken fut) \<Longrightarrow> \<not> cancelled (toks s ! ctoken fut) \<and>
         wakers (st ! ctoken fut) = wakers (toks s ! ctoken fut)"
      using same [OF b] by auto
  qed (simp add: c(2))
qed

lemma set_stored_fst: "map fst (set_stored w wk ws) = map fst ws"
  by (induction w wk ws rule: set_stored.induct) auto

lemma set_stored_set: "fst ` set (set_stored w wk ws) = fst ` set ws"
  using set_stored_fst [of w wk ws] by (metis list.set_map)

lemma set_stored_mem:
  "w \<in> fst ` set ws \<Longrightarrow> (w, wk) \<in> set (set_stored w wk ws)"
  "(v, x) \<in> set ws \<Longrightarrow> v \<noteq> w \<Longrightarrow> (v, x) \<in> set (set_stored w wk ws)"
  by (induction w wk ws rule: set_stored.induct) auto

lemma cancelled_poll_cases:
  assumes "cancelled_poll st a reg wk = Some (st', reg', r)"
  obtains (ready) "cancelled (st ! a)" "st' = st" "reg' = reg" "r = Ready ()"
  | (register) "\<not> cancelled (st ! a)" "reg = None" "reg' = Some (next_waiter (st ! a))" "r = Pending"
      "st' = st[a := (st ! a)\<lparr>next_waiter := Suc (next_waiter (st ! a)),
                 wakers := wakers (st ! a) @ [(next_waiter (st ! a), wk)]\<rparr>]"
  | (refresh) w where "\<not> cancelled (st ! a)" "reg = Some w" "reg' = reg" "r = Pending"
      "st' = st[a := (st ! a)\<lparr>wakers := set_stored w wk (wakers (st ! a))\<rparr>]"
  using assms
  by (auto simp: cancelled_poll_def Let_def checked_add_def split: if_splits option.splits)

lemma cancel_inv_upd:
  assumes inv: "cancel_inv s" and "quiet st'" and "\<forall>t \<in> set st'. tags_ok t"
    and new: "registered st' fut'"
    and old: "\<And>g x. cfuts s g = Some x \<Longrightarrow> g \<noteq> f \<Longrightarrow> registered st' x"
    and fresh: "\<And>g x w. cfuts s g = Some x \<Longrightarrow> g \<noteq> f \<Longrightarrow> ctoken x = ctoken fut' \<Longrightarrow> cwaiter x = Some w \<Longrightarrow>
      cwaiter fut' \<noteq> Some w"
  shows "cancel_inv (s\<lparr>toks := st', cfuts := (cfuts s)(f \<mapsto> fut')\<rparr>)"
proof -
  have "registered st' x" if "((cfuts s)(f \<mapsto> fut')) g = Some x" for g x
    using that new old by (auto split: if_splits)
  moreover have "g = h" if "((cfuts s)(f \<mapsto> fut')) g = Some x" "((cfuts s)(f \<mapsto> fut')) h = Some y"
      "ctoken x = ctoken y" "cwaiter x = Some w" "cwaiter y = Some w" for g h x y w
  proof (cases "g = f \<or> h = f")
    case True
    then show ?thesis using that fresh [of g x w] fresh [of h y w] by (auto split: if_splits)
  next
    case False
    then have "cfuts s g = Some x" "cfuts s h = Some y" using that by auto
    then show ?thesis using that inv unfolding cancel_inv_def by blast
  qed
  moreover have "toks (s\<lparr>toks := st', cfuts := (cfuts s)(f \<mapsto> fut')\<rparr>) = st'"
    "cfuts (s\<lparr>toks := st', cfuts := (cfuts s)(f \<mapsto> fut')\<rparr>) = (cfuts s)(f \<mapsto> fut')" by simp_all
  ultimately show ?thesis
    using assms(2,3) unfolding cancel_inv_def
    by presburger
qed

lemma inv_poll:
  assumes inv: "cancel_inv s" and f: "cfuts s f = Some fut"
    and p: "cancelled_poll (toks s) (ctoken fut) (cwaiter fut) wk = Some (st, reg, r)"
  shows "cancel_inv (s\<lparr>toks := st, cfuts := (cfuts s)(f \<mapsto> fut\<lparr>cwaiter := reg, cwaker := wk\<rparr>)\<rparr>)"
    (is "cancel_inv ?s")
proof -
  let ?a = "ctoken fut"
  note reg = registered_nth [OF inv f]
  note n = cancel_inv_nth [OF inv reg(2)]
  have q: "quiet (toks s)" and t: "\<forall>t \<in> set (toks s). tags_ok t" using inv by (auto simp: cancel_inv_def)
  have uniq: "g = h" if "cfuts s g = Some x" "cfuts s h = Some y" "ctoken x = ctoken y"
      "cwaiter x = Some w" "cwaiter y = Some w" for g h x y w
    using inv that unfolding cancel_inv_def by blast
  from p show ?thesis
  proof (cases rule: cancelled_poll_cases)
    case ready
    have "registered (toks s) (fut\<lparr>cwaiter := reg, cwaker := wk\<rparr>)"
      using reg(1) ready by (auto simp: registered_def)
    then show ?thesis
      using q t registered_nth [OF inv] uniq [OF _ f] ready
      by (intro cancel_inv_upd [OF inv]) auto
  next
    case register
    have "tags_ok ((toks s ! ?a)\<lparr>next_waiter := Suc (next_waiter (toks s ! ?a)),
        wakers := wakers (toks s ! ?a) @ [(next_waiter (toks s ! ?a), wk)]\<rparr>)"
      using n(2) by (auto simp: tags_ok_def less_Suc_eq)
    then have tags: "\<forall>t \<in> set st. tags_ok t"
      unfolding register(5) by (rule tags_update [OF t])
    have quiet: "quiet st" unfolding register(5) using register(1) by (intro quiet_update [OF q]) simp
    have old: "registered st x" if x: "cfuts s g = Some x" for g x
    proof (cases "ctoken x = ?a")
      case True
      then show ?thesis using registered_nth(1) [OF inv x] register reg(2) by (auto simp: registered_def)
    next
      case False
      then show ?thesis using registered_nth(1) [OF inv x] register by (simp add: registered_def)
    qed
    have new: "registered st (fut\<lparr>cwaiter := reg, cwaker := wk\<rparr>)"
      using register reg(2) by (auto simp: registered_def)
    have fresh: "cwaiter (fut\<lparr>cwaiter := reg, cwaker := wk\<rparr>) \<noteq> Some w"
      if "cfuts s g = Some x" "ctoken x = ctoken (fut\<lparr>cwaiter := reg, cwaker := wk\<rparr>)" "cwaiter x = Some w"
      for g x w
      using registered_nth [OF inv that(1)] that register(3) by (auto simp: registered_def)
    show ?thesis by (rule cancel_inv_upd [OF inv quiet tags new old fresh])
  next
    case (refresh w)
    have "tags_ok ((toks s ! ?a)\<lparr>wakers := set_stored w wk (wakers (toks s ! ?a))\<rparr>)"
      using n(2) unfolding tags_ok_def by (simp add: set_stored_fst set_stored_set del: image_iff)
    then have tags: "\<forall>t \<in> set st. tags_ok t"
      unfolding refresh(5) by (rule tags_update [OF t])
    have quiet: "quiet st" unfolding refresh(5) using refresh(1) by (intro quiet_update [OF q]) simp
    have old: "registered st x" if x: "cfuts s g = Some x" "g \<noteq> f" for g x
    proof -
      have "v \<noteq> w" if "ctoken x = ?a" "cwaiter x = Some v" for v
        using uniq [OF x(1) f] that x(2) refresh(2) by auto
      note other = this
      show ?thesis
      proof (cases "ctoken x = ?a")
        case True
        then show ?thesis
          using registered_nth(1) [OF inv x(1)] refresh reg(2) set_stored_mem(2) other
          by (auto simp: registered_def)
      next
        case False
        then show ?thesis using registered_nth(1) [OF inv x(1)] refresh by (simp add: registered_def)
      qed
    qed
    have new: "registered st (fut\<lparr>cwaiter := reg, cwaker := wk\<rparr>)"
      using reg refresh set_stored_mem(1) [of w "wakers (toks s ! ?a)" wk]
      by (force simp: registered_def)
    have fresh: "cwaiter (fut\<lparr>cwaiter := reg, cwaker := wk\<rparr>) \<noteq> Some v"
      if "cfuts s g = Some x" "g \<noteq> f" "ctoken x = ctoken (fut\<lparr>cwaiter := reg, cwaker := wk\<rparr>)"
        "cwaiter x = Some v" for g x v
      using uniq [OF that(1) f] that refresh(2,3) by auto
    show ?thesis by (rule cancel_inv_upd [OF inv quiet tags new old fresh])
  qed
qed

lemma swap_remove_other:
  assumes "position p xs = Some i" and "x \<in> set xs" and "\<not> p x"
  shows "x \<in> set (swap_remove i xs)"
proof -
  have i: "i < length xs" "p (xs ! i)" using position_SomeD [OF assms(1)] by auto
  have "x \<noteq> xs ! i" using i(2) assms(3) by auto
  then have "x \<in># mset (swap_remove i xs)"
    using mset_swap_remove [OF i(1)] assms(2) by (simp add: in_diff_count)
  then show ?thesis by simp
qed

lemma tags_swap_remove:
  assumes "tags_ok t" and "i < length (wakers t)"
  shows "tags_ok (t\<lparr>wakers := swap_remove i (wakers t)\<rparr>)"
proof -
  have "distinct (map fst (swap_remove i (wakers t)))"
  proof (cases "wakers t" rule: rev_cases)
    case (snoc ys y)
    then have d: "distinct (map fst ys)" "fst y \<notin> fst ` set ys" "i \<le> length ys"
      using assms by (auto simp: tags_ok_def)
    then have "distinct ((map fst ys)[i := fst y])" by (intro distinct_list_update) auto
    then show ?thesis using snoc d by (simp add: swap_remove_snoc map_update)
  qed (use assms in simp)
  then show ?thesis
    using assms set_swap_remove_subset [OF assms(2)] unfolding tags_ok_def by auto
qed

lemma inv_drop_future:
  assumes inv: "cancel_inv s" and f: "cfuts s f = Some fut"
  shows "cancel_inv (s\<lparr>toks := registration_drop (toks s) (ctoken fut) (cwaiter fut),
                        cfuts := (cfuts s)(f := None)\<rparr>)"
proof -
  let ?a = "ctoken fut"
  let ?st = "registration_drop (toks s) ?a (cwaiter fut)"
  let ?s = "s\<lparr>toks := ?st, cfuts := (cfuts s)(f := None)\<rparr>"
  note reg = registered_nth [OF inv f]
  note n = cancel_inv_nth [OF inv reg(2)]
  have q: "quiet (toks s)" and t: "\<forall>t \<in> set (toks s). tags_ok t" using inv by (auto simp: cancel_inv_def)
  have uniq: "g = h" if "cfuts s g = Some x" "cfuts s h = Some y" "ctoken x = ctoken y"
      "cwaiter x = Some w" "cwaiter y = Some w" for g h x y w
    using inv that unfolding cancel_inv_def by blast
  have all: "quiet ?st \<and> (\<forall>t \<in> set ?st. tags_ok t) \<and>
      (\<forall>g x. g \<noteq> f \<longrightarrow> cfuts s g = Some x \<longrightarrow> registered ?st x)"
  proof (cases "\<exists>w i. cwaiter fut = Some w \<and> position (\<lambda>(slot, _). slot = w) (wakers (toks s ! ?a)) = Some i")
    case False
    then have "?st = toks s" by (auto simp: registration_drop_def split: option.splits)
    then show ?thesis using q t registered_nth(1) [OF inv] by simp
  next
    case True
    then obtain w i where w: "cwaiter fut = Some w"
      "position (\<lambda>(slot, _). slot = w) (wakers (toks s ! ?a)) = Some i" by blast
    have i: "i < length (wakers (toks s ! ?a))" using position_SomeD [OF w(2)] by simp
    have st: "?st = (toks s)[?a := (toks s ! ?a)\<lparr>wakers := swap_remove i (wakers (toks s ! ?a))\<rparr>]"
      using w by (simp add: registration_drop_def)
    have "quiet ?st" unfolding st using n(1) i by (intro quiet_update [OF q]) auto
    moreover have "\<forall>t \<in> set ?st. tags_ok t"
      unfolding st by (rule tags_update [OF t tags_swap_remove [OF n(2) i]])
    moreover have "registered ?st x" if x: "g \<noteq> f" "cfuts s g = Some x" for g x
    proof (cases "ctoken x = ?a")
      case True
      have "v \<noteq> w" if "cwaiter x = Some v" for v using uniq [OF x(2) f True] that w(1) x(1) by auto
      then have "(v, y) \<in> set (swap_remove i (wakers (toks s ! ?a)))"
        if "cwaiter x = Some v" "(v, y) \<in> set (wakers (toks s ! ?a))" for v y
        using swap_remove_other [OF w(2) that(2)] that(1) by simp
      then show ?thesis
        using registered_nth(1) [OF inv x(2)] True reg(2) unfolding st by (auto simp: registered_def)
    next
      case False
      then show ?thesis using registered_nth(1) [OF inv x(2)] unfolding st by (simp add: registered_def)
    qed
    ultimately show ?thesis by blast
  qed
  have sel: "toks ?s = ?st" "cfuts ?s = (cfuts s)(f := None)" by simp_all
  have sub: "cfuts s g = Some x \<and> g \<noteq> f" if "((cfuts s)(f := None)) g = Some x" for g x
    using that by (auto split: if_splits)
  have "registered ?st x" if "((cfuts s)(f := None)) g = Some x" for g x
    using sub [OF that] all by blast
  moreover have "g = h" if "((cfuts s)(f := None)) g = Some x" "((cfuts s)(f := None)) h = Some y"
      "ctoken x = ctoken y" "cwaiter x = Some w" "cwaiter y = Some w" for g h x y w
    using uniq sub [OF that(1)] sub [OF that(2)] that(3-5) by blast
  ultimately show ?thesis using all unfolding cancel_inv_def sel by presburger
qed

lemma inv_wait:
  assumes inv: "cancel_inv s" and "upgrades (toks s) a" and "cfuts s f = None"
  shows "cancel_inv (s\<lparr>cfuts := (cfuts s)(f \<mapsto> \<lparr>ctoken = a, cwaiter = None, cwaker = 0\<rparr>)\<rparr>)"
proof -
  let ?fut = "\<lparr>ctoken = a, cwaiter = None, cwaker = 0\<rparr>"
  have "quiet (toks s)" "\<forall>t \<in> set (toks s). tags_ok t" "registered (toks s) ?fut"
    using inv assms(2) by (auto simp: cancel_inv_def registered_def upgrades_def)
  from cancel_inv_upd [OF inv this] registered_nth(1) [OF inv]
  have "cancel_inv (s\<lparr>toks := toks s, cfuts := (cfuts s)(f \<mapsto> ?fut)\<rparr>)" by simp
  then show ?thesis by simp
qed

lemma inv_new: "cancel_inv s \<Longrightarrow> cancel_inv (s\<lparr>toks := fst (new_token (toks s))\<rparr>)"
proof (rule cancel_inv_store)
  assume inv: "cancel_inv s"
  show "quiet (fst (new_token (toks s)))"
    using inv by (auto simp: new_token_def cancel_inv_def intro: quiet_snoc)
  show "\<forall>t \<in> set (fst (new_token (toks s))). tags_ok t"
    using inv by (auto simp: new_token_def cancel_inv_def)
  show "registered (fst (new_token (toks s))) fut" if "registered (toks s) fut" for fut
    using that by (auto simp: registered_def new_token_def nth_append)
qed

lemma cancel_inv_step: "cancel_inv s \<Longrightarrow> cancel_step s l t \<Longrightarrow> cancel_inv t"
  by (erule cancel_stepE)
    (simp_all add: inv_new inv_clone inv_drop inv_child inv_cancel inv_wait inv_poll inv_drop_future)

interpretation cancels: bounded_system cancel_init cancel_step "\<lambda>_. 0" 0 cancel_inv
proof
  show "cancel_inv s" if "cancel_init s" for s
    using that by (simp add: cancel_init_def cancel_inv_def quiet_def)
qed (auto intro: cancel_inv_step)

lemma collect_wakes:
  assumes "collect_cancellation st pending wks = (st', wks')"
  shows "set wks \<subseteq> set wks' \<and>
    (\<forall>b < length st. \<not> cancelled (st ! b) \<and> cancelled (st' ! b) \<longrightarrow> snd ` set (wakers (st ! b)) \<subseteq> set wks')"
  using assms
proof (induction st pending wks rule: collect_cancellation.induct)
  case (1 st wks)
  then show ?case by simp
next
  case (2 st a pending wks)
  show ?case
  proof (cases "a < length st \<and> \<not> cancelled (st ! a)")
    case True
    let ?st = "marked st a"
    have "collect_cancellation ?st (rev (filter (upgrades st) (children (st ! a))) @ pending)
        (wks @ map snd (wakers (st ! a))) = (st', wks')"
      using 2 True by (simp add: Let_def)
    note IH = "2.IH"(1) [OF True refl this]
    have "snd ` set (wakers (st ! b)) \<subseteq> set wks'"
      if "b < length st" "\<not> cancelled (st ! b)" "cancelled (st' ! b)" for b
    proof (cases "b = a")
      case True
      then show ?thesis using IH by auto
    next
      case False
      then have "?st ! b = st ! b" by simp
      then show ?thesis using IH that by (metis length_list_update)
    qed
    then show ?thesis using IH by auto
  next
    case False
    then have "collect_cancellation st pending wks = (st', wks')" using "2.prems" by auto
    then show ?thesis using "2.IH"(2) [OF False] by simp
  qed
qed

subsection \<open>Properties\<close>

text \<open>A sample state: token 0 with child 1, on which a future waits with waker 7.\<close>

definition cancel_demo_sys :: cancel_sys where
  "cancel_demo_sys =
     \<lparr>toks = [\<lparr>strong = 1, cancelled = False, wakers = [], next_waiter = 0, children = [1]\<rparr>,
              \<lparr>strong = 1, cancelled = False, wakers = [(0, 7)], next_waiter = 1, children = []\<rparr>],
      cfuts = [0 \<mapsto> \<lparr>ctoken = 1, cwaiter = Some 0, cwaker = 7\<rparr>]\<rparr>"

lemma cancel_demo_run: "\<exists>s ls. cancel_init s \<and> run cancel_step s ls cancel_demo_sys"
proof -
  let ?s0 = "\<lparr>toks = [], cfuts = Map.empty\<rparr> :: cancel_sys"
  let ?s1 = "\<lparr>toks = [token_new], cfuts = Map.empty\<rparr> :: cancel_sys"
  let ?s2 = "\<lparr>toks = [token_new\<lparr>children := [1]\<rparr>, token_new], cfuts = Map.empty\<rparr> :: cancel_sys"
  let ?s3 = "?s2\<lparr>cfuts := [0 \<mapsto> \<lparr>ctoken = 1, cwaiter = None, cwaker = 0\<rparr>]\<rparr>"
  have 1: "cancel_step ?s0 [] ?s1" using tok_new [of ?s0] by (simp add: new_token_def)
  have 2: "cancel_step ?s1 [] ?s2"
    using tok_child [of ?s1 0 False]
    by (simp add: child_token_def upgrades_def token_new_def)
  have 3: "cancel_step ?s2 [] ?s3"
    using tok_wait [of ?s2 1 0] by (simp add: upgrades_def token_new_def)
  have 4: "cancel_step ?s3 [] cancel_demo_sys"
    using tok_poll [of ?s3 0 "\<lparr>ctoken = 1, cwaiter = None, cwaker = 0\<rparr>" 7]
    by (simp add: cancelled_poll_def checked_add_def u64_modulus_def token_new_def cancel_demo_sys_def)
  have "run cancel_step ?s0 [[], [], [], []] cancel_demo_sys"
    by (rule run_Cons, rule 1, rule run_Cons, rule 2, rule run_Cons, rule 3, rule run_Cons, rule 4,
        rule run_Nil)
  then show ?thesis by (auto simp: cancel_init_def)
qed

text \<open>\<open>cancel\<close> marks exactly the tokens that were cancelled already and those reached from the token
  through live children: no parent, sibling or unrelated token changes in any way, and the walk
  terminates for every shape of the children lists.\<close>

theorem cancel_marks_live_descendants:
  assumes "cancel_init s" and "run cancel_step s ls t" and "cancel (toks t) a = (st, wks)"
    and "b < length (toks t)"
  shows "(is_cancelled st b \<longleftrightarrow> is_cancelled (toks t) b \<or> live_path (toks t) a b) \<and>
    (\<not> live_path (toks t) a b \<longrightarrow> st ! b = toks t ! b)"
proof -
  have q: "quiet (toks t)" using cancels.inv_reachable [OF assms(1,2)] by (simp add: cancel_inv_def)
  show ?thesis using cancel_ok(3,4) [OF q assms(3,4)] unfolding is_cancelled_def by blast
qed

theorem cancel_marks_live_descendants_witness:
  "is_cancelled (fst (cancel (toks cancel_demo_sys) 0)) 1"
proof -
  obtain s ls where r: "cancel_init s" "run cancel_step s ls cancel_demo_sys" using cancel_demo_run by blast
  have "live_path (toks cancel_demo_sys) 0 1"
    by (rule live_child [OF live_here]) (simp_all add: cancel_demo_sys_def upgrades_def)
  then show ?thesis
    using cancel_marks_live_descendants [OF r, of 0 "fst (cancel (toks cancel_demo_sys) 0)"
        "snd (cancel (toks cancel_demo_sys) 0)" 1]
    by (simp add: cancel_demo_sys_def)
qed

text \<open>No waiter misses a cancellation: every future that has registered on a token the walk newly
  cancels is woken through the waker of its latest poll, its next poll is ready, and every waker is
  taken from the registrations exactly once.\<close>

theorem cancel_wakes_waiters:
  assumes "cancel_init s" and "run cancel_step s ls t" and "cancel (toks t) a = (st, wks)"
    and "cfuts t f = Some fut" and "cwaiter fut = Some w"
    and "\<not> is_cancelled (toks t) (ctoken fut)" and "live_path (toks t) a (ctoken fut)"
  shows "cwaker fut \<in> set wks \<and>
    cancelled_poll st (ctoken fut) (cwaiter fut) wk = Some (st, cwaiter fut, Ready ()) \<and>
    all_wakers st + mset wks = all_wakers (toks t)"
proof -
  have inv: "cancel_inv t" using cancels.inv_reachable [OF assms(1,2)] by simp
  then have q: "quiet (toks t)" by (simp add: cancel_inv_def)
  note r = registered_nth [OF inv assms(4)]
  have c: "cancelled (st ! ctoken fut)" using cancel_ok(3) [OF q assms(3) r(2)] assms(7) by simp
  have "(w, cwaker fut) \<in> set (wakers (toks t ! ctoken fut))"
    using r(1) assms(5,6) by (simp add: registered_def is_cancelled_def)
  moreover have "snd ` set (wakers (toks t ! ctoken fut)) \<subseteq> set wks"
    using collect_wakes [OF assms(3) [unfolded cancel_def]] c r(2) assms(6) by (simp add: is_cancelled_def)
  ultimately have "cwaker fut \<in> set wks" by force
  then show ?thesis
    using c cancel_ok(6) [OF q assms(3)] by (simp add: cancelled_poll_def Let_def)
qed

theorem cancel_wakes_waiters_witness: "7 \<in> set (snd (cancel (toks cancel_demo_sys) 0))"
proof -
  obtain s ls where r: "cancel_init s" "run cancel_step s ls cancel_demo_sys" using cancel_demo_run by blast
  have "live_path (toks cancel_demo_sys) 0 1"
    by (rule live_child [OF live_here]) (simp_all add: cancel_demo_sys_def upgrades_def)
  then show ?thesis
    using cancel_wakes_waiters [OF r, of 0 "fst (cancel (toks cancel_demo_sys) 0)"
        "snd (cancel (toks cancel_demo_sys) 0)" 0 "\<lparr>ctoken = 1, cwaiter = Some 0, cwaker = 7\<rparr>" 0]
    by (simp add: cancel_demo_sys_def is_cancelled_def)
qed


end
