(* ===== verification/Completion.thy ===== *)
theory Completion
  imports Transition
begin

text \<open>
  \<open>src/op/completion.rs\<close>: the one-shot completion shared by a future on its owner thread and handles
  that may finish it from any thread. Every atomic or mutex-protected access is one step, so the
  step relation interleaves \<open>finish\<close> on a foreign thread with \<open>poll\<close>, \<open>drop\<close> and the queued wake
  closure on the owner thread (interleavings are sequentially consistent; the accesses use
  acquire/release atomics and mutexes). A same-thread \<open>finish\<close> is the special case in which its
  steps are not interleaved. The fields \<open>queued\<close>, \<open>ended\<close> and \<open>owner_closed\<close> stand for the owner's
  \<open>ThreadHandle\<close>: wake closures waiting in its queues, calls of \<open>finish_async_operation\<close>, and whether
  its remote queue was closed.
\<close>

subsection \<open>State and program points\<close>

datatype wake_class = Microtask | Macrotask

text \<open>Where the handle that won the \<open>finished\<close> swap is inside \<open>finish\<close>.\<close>

datatype 'v finish_pc =
    FNone
  | FLoad "'v option"
  | FStore "'v option"
  | FWake
  | FEnqueue
  | FRollback
  | FCancel
  | FEnd
  | FDone

text \<open>Where the owner thread is inside \<open>poll\<close> or \<open>drop\<close> of the future.\<close>

datatype 'v owner_pc =
    Idle
  | PollSet waker
  | PollCheck
  | PollReady 'v
  | DropResult
  | DropWaker
  | DropFinished
  | DropTakeCancel
  | DropCall
  | DropSwap
  | DropEnd
  | Gone

record 'v completion =
  wake_class :: wake_class
  interested :: bool
  finished :: bool
  wake_queued :: bool
  result_slot :: "'v option"
  waker_slot :: "waker option"
  cancel_slot :: bool
  fpc :: "'v finish_pc"
  opc :: "'v owner_pc"
  closure_running :: bool
  queued :: nat
  ended :: nat
  owner_closed :: bool

definition completion_new :: "wake_class \<Rightarrow> 'v completion" where
  "completion_new k =
     \<lparr>wake_class = k, interested = True, finished = False, wake_queued = False, result_slot = None,
      waker_slot = None, cancel_slot = False, fpc = FNone, opc = Idle, closure_running = False,
      queued = 0, ended = 0, owner_closed = False\<rparr>"

datatype 'v comp_event = Tau | Woke waker | Resolved 'v | CancelCalled

text \<open>The owner thread runs one thing at a time: the wake closure starts only between polls, and a
  poll or a drop starts only between closures.\<close>

inductive comp_step :: "'v completion \<Rightarrow> 'v comp_event \<Rightarrow> 'v completion \<Rightarrow> bool" where
  fin_win: "\<not> finished s \<Longrightarrow> fpc s = FNone \<Longrightarrow> comp_step s Tau (s\<lparr>finished := True, fpc := FLoad v\<rparr>)"
| fin_lose: "finished s \<Longrightarrow> comp_step s Tau s"
| fin_load:
    "fpc s = FLoad v \<Longrightarrow> comp_step s Tau (s\<lparr>fpc := (if interested s then FStore v else FCancel)\<rparr>)"
| fin_store: "fpc s = FStore v \<Longrightarrow> comp_step s Tau (s\<lparr>result_slot := v, fpc := FWake\<rparr>)"
| fin_wake:
    "fpc s = FWake \<Longrightarrow>
     comp_step s Tau (s\<lparr>wake_queued := True, fpc := (if wake_queued s then FCancel else FEnqueue)\<rparr>)"
| fin_enqueue:
    "fpc s = FEnqueue \<Longrightarrow> \<not> owner_closed s \<Longrightarrow> comp_step s Tau (s\<lparr>queued := queued s + 1, fpc := FCancel\<rparr>)"
| fin_enqueue_err: "fpc s = FEnqueue \<Longrightarrow> owner_closed s \<Longrightarrow> comp_step s Tau (s\<lparr>fpc := FRollback\<rparr>)"
| fin_rollback: "fpc s = FRollback \<Longrightarrow> comp_step s Tau (s\<lparr>wake_queued := False, fpc := FCancel\<rparr>)"
| fin_cancel: "fpc s = FCancel \<Longrightarrow> comp_step s Tau (s\<lparr>cancel_slot := False, fpc := FEnd\<rparr>)"
| fin_end: "fpc s = FEnd \<Longrightarrow> comp_step s Tau (s\<lparr>ended := ended s + 1, fpc := FDone\<rparr>)"
| set_cancel: "comp_step s Tau (s\<lparr>cancel_slot := True\<rparr>)"
| poll_hit:
    "opc s = Idle \<Longrightarrow> \<not> closure_running s \<Longrightarrow> result_slot s = Some v \<Longrightarrow>
     comp_step s (Resolved v) (s\<lparr>result_slot := None\<rparr>)"
| poll_miss:
    "opc s = Idle \<Longrightarrow> \<not> closure_running s \<Longrightarrow> result_slot s = None \<Longrightarrow> comp_step s Tau (s\<lparr>opc := PollSet wk\<rparr>)"
| poll_set: "opc s = PollSet wk \<Longrightarrow> comp_step s Tau (s\<lparr>waker_slot := Some wk, opc := PollCheck\<rparr>)"
| poll_pending: "opc s = PollCheck \<Longrightarrow> result_slot s = None \<Longrightarrow> comp_step s Tau (s\<lparr>opc := Idle\<rparr>)"
| poll_found:
    "opc s = PollCheck \<Longrightarrow> result_slot s = Some v \<Longrightarrow>
     comp_step s Tau (s\<lparr>result_slot := None, opc := PollReady v\<rparr>)"
| poll_ready: "opc s = PollReady v \<Longrightarrow> comp_step s (Resolved v) (s\<lparr>waker_slot := None, opc := Idle\<rparr>)"
| drop_start:
    "opc s = Idle \<Longrightarrow> \<not> closure_running s \<Longrightarrow>
     comp_step s Tau (s\<lparr>interested := False, opc := (if interested s then DropResult else Gone)\<rparr>)"
| drop_result: "opc s = DropResult \<Longrightarrow> comp_step s Tau (s\<lparr>result_slot := None, opc := DropWaker\<rparr>)"
| drop_waker: "opc s = DropWaker \<Longrightarrow> comp_step s Tau (s\<lparr>waker_slot := None, opc := DropFinished\<rparr>)"
| drop_finished:
    "opc s = DropFinished \<Longrightarrow> comp_step s Tau (s\<lparr>opc := (if finished s then Gone else DropTakeCancel)\<rparr>)"
| drop_take_cancel:
    "opc s = DropTakeCancel \<Longrightarrow>
     comp_step s Tau (s\<lparr>cancel_slot := False, opc := (if cancel_slot s then DropCall else DropSwap)\<rparr>)"
| drop_call: "opc s = DropCall \<Longrightarrow> comp_step s CancelCalled (s\<lparr>opc := Gone\<rparr>)"
| drop_swap:
    "opc s = DropSwap \<Longrightarrow> comp_step s Tau (s\<lparr>finished := True, opc := (if finished s then Gone else DropEnd)\<rparr>)"
| drop_end: "opc s = DropEnd \<Longrightarrow> comp_step s Tau (s\<lparr>ended := ended s + 1, opc := Gone\<rparr>)"
| wake_start:
    "opc s = Idle \<or> opc s = Gone \<Longrightarrow> \<not> closure_running s \<Longrightarrow> 0 < queued s \<Longrightarrow>
     comp_step s Tau (s\<lparr>queued := queued s - 1, wake_queued := False, closure_running := True\<rparr>)"
| wake_take:
    "closure_running s \<Longrightarrow> waker_slot s = Some wk \<Longrightarrow>
     comp_step s (Woke wk) (s\<lparr>waker_slot := None, closure_running := False\<rparr>)"
| wake_none:
    "closure_running s \<Longrightarrow> waker_slot s = None \<Longrightarrow> comp_step s Tau (s\<lparr>closure_running := False\<rparr>)"
| close_owner: "comp_step s Tau (s\<lparr>owner_closed := True\<rparr>)"

inductive_cases comp_stepE: "comp_step s l t"

subsection \<open>Invariants\<close>

text \<open>The operation is ended exactly once: the swap of \<open>finished\<close> elects one finisher, the winning
  handle or the dropped future, and only it calls \<open>finish_async_operation\<close>.\<close>

fun finishing :: "'v finish_pc \<Rightarrow> bool" where
  "finishing FNone = False"
| "finishing FDone = False"
| "finishing _ = True"

definition ended_once :: "'v completion \<Rightarrow> bool" where
  "ended_once s \<longleftrightarrow>
     (if finished s then
        ended s + (if finishing (fpc s) then 1 else 0) + (if opc s = DropEnd then 1 else 0) = 1 \<and>
        (fpc s \<noteq> FNone \<longrightarrow> opc s \<noteq> DropEnd)
      else ended s = 0 \<and> fpc s = FNone \<and> opc s \<noteq> DropEnd)"

text \<open>A stored result and a registered waker never coexist without a wake-up on its way: the future
  is about to look again, the finisher is about to queue the closure, the closure is queued or
  running, or the owner thread is closed.\<close>

definition wake_coming :: "'v completion \<Rightarrow> bool" where
  "wake_coming s \<longleftrightarrow>
     fpc s = FWake \<or> fpc s = FEnqueue \<or> 0 < queued s \<or> closure_running s \<or> owner_closed s"

definition no_lost_wake :: "'v completion \<Rightarrow> bool" where
  "no_lost_wake s \<longleftrightarrow>
     (result_slot s \<noteq> None \<and> waker_slot s \<noteq> None \<and> interested s \<longrightarrow> opc s = PollCheck \<or> wake_coming s) \<and>
     (wake_queued s \<longrightarrow> fpc s \<noteq> FWake) \<and>
     (fpc s = FNone \<longrightarrow> \<not> wake_queued s \<and> queued s = 0 \<and> result_slot s = None) \<and>
     ((\<exists>v. fpc s = FLoad v \<or> fpc s = FStore v) \<longrightarrow> result_slot s = None \<and> \<not> wake_queued s) \<and>
     (closure_running s \<longrightarrow> opc s = Idle \<or> opc s = Gone) \<and>
     (opc s = Idle \<or> opc s = PollCheck \<or> (\<exists>wk. opc s = PollSet wk) \<or> (\<exists>v. opc s = PollReady v) \<longleftrightarrow> interested s)"

lemma ended_once_step: "ended_once s \<Longrightarrow> comp_step s l t \<Longrightarrow> ended_once t"
  by (erule comp_stepE) (auto simp: ended_once_def split: if_splits)

lemma no_lost_wake_step:
  assumes inv: "no_lost_wake s" and "comp_step s l t"
  shows "no_lost_wake t"
  using assms(2,1)
  by cases (auto simp: no_lost_wake_def wake_coming_def)

definition comp_init :: "'v completion \<Rightarrow> bool" where
  "comp_init s \<longleftrightarrow> (\<exists>k. s = completion_new k)"

interpretation comps: bounded_system comp_init comp_step "\<lambda>_. 0" 0 "\<lambda>s. ended_once s \<and> no_lost_wake s"
proof
  show "ended_once s \<and> no_lost_wake s" if "comp_init s" for s :: "'v completion"
    using that by (auto simp: comp_init_def completion_new_def ended_once_def no_lost_wake_def)
qed (auto intro: ended_once_step no_lost_wake_step)

lemma comp_reachable:
  assumes "comp_init s" and "run comp_step s ls t"
  shows "ended_once t" "no_lost_wake t"
  using comps.inv_reachable [OF assms] by auto

subsection \<open>Traces\<close>

text \<open>The value travels: it is still to come, with the finisher, in the slot, or with a poll that is
  about to return it.\<close>

definition value_in_flight :: "'v completion \<Rightarrow> nat" where
  "value_in_flight s =
     (if finished s then 0 else 1) +
     (if \<exists>v. fpc s = FLoad v \<or> fpc s = FStore v then 1 else 0) +
     (if result_slot s \<noteq> None then 1 else 0) +
     (if \<exists>v. opc s = PollReady v then 1 else 0)"

definition resolutions :: "'v comp_event list \<Rightarrow> nat" where
  "resolutions ls = length (filter (\<lambda>e. \<exists>v. e = Resolved v) ls)"

lemma resolutions_snoc [simp]:
  "resolutions (ls @ [e]) = resolutions ls + (if \<exists>v. e = Resolved v then 1 else 0)"
  by (simp add: resolutions_def)

lemma value_step:
  assumes "no_lost_wake s" and "ended_once s" and "comp_step s l t"
  shows "value_in_flight t + (if \<exists>v. l = Resolved v then 1 else 0) \<le> value_in_flight s"
  using assms(3,1,2)
  by cases (auto simp: value_in_flight_def no_lost_wake_def ended_once_def split: if_splits)

lemma value_run:
  assumes "run comp_step s ls t" and "comp_init s"
  shows "resolutions ls + value_in_flight t \<le> 1"
  using assms
proof (induction rule: run.induct)
  case (run_Nil s)
  then show ?case
    by (auto simp: comp_init_def completion_new_def value_in_flight_def resolutions_def)
next
  case (run_snoc s ls t l u)
  then show ?case using value_step [OF comp_reachable(2,1) [OF run_snoc.prems run_snoc(1)]] by fastforce
qed

lemma gone_run:
  assumes "run comp_step s ls t" and "comp_init s"
  shows "opc t = Gone \<and> \<not> finished t \<longrightarrow> CancelCalled \<in> set ls"
  using assms
proof (induction rule: run.induct)
  case (run_Nil s)
  then show ?case by (auto simp: comp_init_def completion_new_def)
next
  case (run_snoc s ls t l u)
  have inv: "ended_once t" "no_lost_wake t" by (rule comp_reachable [OF run_snoc.prems run_snoc(1)])+
  have "opc u = Gone \<and> \<not> finished u \<longrightarrow> opc t = Gone \<and> \<not> finished t \<or> l = CancelCalled"
    using run_snoc(2) inv
    by cases (auto simp: ended_once_def no_lost_wake_def split: if_splits)
  then show ?case using run_snoc by auto
qed

subsection \<open>Properties\<close>

text \<open>A sample run: the future is polled with waker 7 and parks, then a handle finishes it with 42 up to
  the moment the wake closure is queued and the operation ended.\<close>

definition comp_demo :: "nat completion" where
  "comp_demo =
     \<lparr>wake_class = Microtask, interested = True, finished = True, wake_queued = True,
      result_slot = Some 42, waker_slot = Some 7, cancel_slot = False, fpc = FDone, opc = Idle,
      closure_running = False, queued = 1, ended = 1, owner_closed = False\<rparr>"

lemma comp_demo_run:
  "run comp_step (completion_new Microtask) (replicate 10 Tau) comp_demo"
proof -
  let ?s0 = "completion_new Microtask :: nat completion"
  let ?s1 = "?s0\<lparr>opc := PollSet 7\<rparr>"
  let ?s2 = "?s0\<lparr>waker_slot := Some 7, opc := PollCheck\<rparr>"
  let ?s3 = "?s0\<lparr>waker_slot := Some 7\<rparr>"
  let ?s4 = "?s3\<lparr>finished := True, fpc := FLoad (Some 42)\<rparr>"
  let ?s5 = "?s4\<lparr>fpc := FStore (Some 42)\<rparr>"
  let ?s6 = "?s4\<lparr>result_slot := Some 42, fpc := FWake\<rparr>"
  let ?s7 = "?s6\<lparr>wake_queued := True, fpc := FEnqueue\<rparr>"
  let ?s8 = "?s7\<lparr>queued := 1, fpc := FCancel\<rparr>"
  let ?s9 = "?s8\<lparr>fpc := FEnd\<rparr>"
  note d = completion_new_def
  have 1: "comp_step ?s0 Tau ?s1" using poll_miss [of ?s0] by (simp add: d)
  have 2: "comp_step ?s1 Tau ?s2" using poll_set [of ?s1 7] by (simp add: d)
  have 3: "comp_step ?s2 Tau ?s3" using poll_pending [of ?s2] by (simp add: d)
  have 4: "comp_step ?s3 Tau ?s4" using fin_win [of ?s3] by (simp add: d)
  have 5: "comp_step ?s4 Tau ?s5" using fin_load [of ?s4] by (simp add: d)
  have 6: "comp_step ?s5 Tau ?s6" using fin_store [of ?s5] by (simp add: d)
  have 7: "comp_step ?s6 Tau ?s7" using fin_wake [of ?s6] by (simp add: d)
  have 8: "comp_step ?s7 Tau ?s8" using fin_enqueue [of ?s7] by (simp add: d)
  have 9: "comp_step ?s8 Tau ?s9" using fin_cancel [of ?s8] by (simp add: d)
  have 10: "comp_step ?s9 Tau comp_demo" using fin_end [of ?s9] by (simp add: d comp_demo_def)
  have "run comp_step ?s0 [Tau, Tau, Tau, Tau, Tau, Tau, Tau, Tau, Tau, Tau] comp_demo"
    by (rule run_Cons, rule 1, rule run_Cons, rule 2, rule run_Cons, rule 3, rule run_Cons,
      rule 4, rule run_Cons, rule 5, rule run_Cons, rule 6, rule run_Cons, rule 7, rule run_Cons, rule 8,
      rule run_Cons, rule 9, rule run_Cons, rule 10, rule run_Nil)
  then show ?thesis by (simp add: numeral_eq_Suc)
qed

lemma comp_demo_init: "comp_init (completion_new k)"
  by (auto simp: comp_init_def)

text \<open>(C19) The in-flight operation is ended exactly once under every interleaving of handles finishing
  and the future being dropped: never before somebody won the \<open>finished\<close> flag, never twice, and it has
  been ended whenever the flag is set and the winner is not still on its way to do so.\<close>

theorem completion_ended_once:
  assumes "comp_init s" and "run comp_step s ls t"
  shows "ended t \<le> 1 \<and> (\<not> finished t \<longrightarrow> ended t = 0) \<and>
    (finished t \<and> \<not> finishing (fpc t) \<and> opc t \<noteq> DropEnd \<longrightarrow> ended t = 1)"
  using comp_reachable(1) [OF assms] by (auto simp: ended_once_def split: if_splits)

theorem completion_ended_once_witness: "ended comp_demo = 1"
  using completion_ended_once [OF comp_demo_init comp_demo_run] by (simp add: comp_demo_def)

text \<open>A dropped future never strands its operation: once the drop is over, the operation was
  finished by somebody, or the registered cancel callback was invoked and owes the finish.\<close>

theorem completion_drop_accounted:
  assumes "comp_init s" and "run comp_step s ls t" and "opc t = Gone"
  shows "finished t \<or> CancelCalled \<in> set ls"
  using gone_run [OF assms(2,1)] assms(3) by blast

theorem completion_drop_accounted_witness:
  "\<exists>ls t. run comp_step (completion_new Microtask :: nat completion) ls t \<and> opc t = Gone \<and>
     (finished t \<or> CancelCalled \<in> set ls)"
proof -
  let ?t = "comp_demo\<lparr>interested := False, opc := DropResult\<rparr>"
  let ?u = "?t\<lparr>result_slot := None, opc := DropWaker\<rparr>"
  let ?v = "?u\<lparr>waker_slot := None, opc := DropFinished\<rparr>"
  let ?w = "?v\<lparr>opc := Gone\<rparr>"
  have "comp_step comp_demo Tau ?t" using drop_start [of comp_demo] by (simp add: comp_demo_def)
  moreover have "comp_step ?t Tau ?u" using drop_result [of ?t] by simp
  moreover have "comp_step ?u Tau ?v" using drop_waker [of ?u] by simp
  moreover have "comp_step ?v Tau ?w" using drop_finished [of ?v] by (simp add: comp_demo_def)
  ultimately have r: "run comp_step (completion_new Microtask) ((((replicate 10 Tau @ [Tau]) @ [Tau]) @ [Tau]) @ [Tau]) ?w"
    using comp_demo_run by (meson run_snoc)
  have gone: "opc ?w = Gone" by simp
  show ?thesis using completion_drop_accounted [OF comp_demo_init r gone] r gone by blast
qed

text \<open>(C20) Wake-ups are not lost: when the future is parked with a registered waker, its result has been
  stored and the finisher is done, the wake closure is queued or running on the open owner thread,
  and running it wakes exactly the registered waker.\<close>

theorem completion_no_lost_wake:
  assumes "comp_init s" and "run comp_step s ls t" and "opc t = Idle" and "waker_slot t = Some wk"
    and "result_slot t \<noteq> None" and "fpc t = FDone" and "\<not> owner_closed t"
  shows "\<exists>ls' u. run comp_step t ls' u \<and> ls' \<in> {[Woke wk], [Tau, Woke wk]} \<and> result_slot u = result_slot t"
proof (cases "closure_running t")
  case True
  have "run comp_step t [Woke wk] (t\<lparr>waker_slot := None, closure_running := False\<rparr>)"
    by (rule run_single, rule wake_take [OF True assms(4)])
  then show ?thesis by fastforce
next
  case False
  have "0 < queued t"
    using comp_reachable(2) [OF assms(1,2)] assms False by (auto simp: no_lost_wake_def wake_coming_def)
  note step1 = wake_start [OF disjI1 [OF assms(3)] False this]
  let ?u = "t\<lparr>queued := queued t - 1, wake_queued := False, closure_running := True\<rparr>"
  have step2: "comp_step ?u (Woke wk) (?u\<lparr>waker_slot := None, closure_running := False\<rparr>)"
    using wake_take [of ?u wk] assms(4) by simp
  have "run comp_step t [Tau, Woke wk] (?u\<lparr>waker_slot := None, closure_running := False\<rparr>)"
    by (rule run_Cons, rule step1, rule run_single, rule step2)
  then show ?thesis by fastforce
qed

theorem completion_no_lost_wake_witness:
  "\<exists>ls' u. run comp_step comp_demo ls' u \<and> Woke 7 \<in> set ls'"
  using completion_no_lost_wake [OF comp_demo_init comp_demo_run, of 7]
  by (fastforce simp: comp_demo_def)

text \<open>A completion resolves at most once: no trace delivers a value to a poll twice, however many
  handles race to finish it and whatever the future does.\<close>

theorem completion_resolves_once:
  assumes "comp_init s" and "run comp_step s ls t"
  shows "resolutions ls \<le> 1"
  using value_run [OF assms(2,1)] by simp

theorem completion_resolves_once_witness: "resolutions (replicate 10 Tau @ [Resolved (42 :: nat)]) = 1"
proof -
  have "comp_step comp_demo (Resolved 42) (comp_demo\<lparr>result_slot := None\<rparr>)"
    using poll_hit [of comp_demo 42] by (simp add: comp_demo_def)
  from completion_resolves_once [OF comp_demo_init run_snoc [OF comp_demo_run this]]
  show ?thesis by simp
qed

end
