(* ===== verification/Task.thy ===== *)
theory Task
  imports Transition
begin

text \<open>
  \<open>src/platform/runtime_shared/future_task.rs\<close> with the registry and the queues of \<open>state.rs\<close> it works on:
  spawning, scheduling and polling local tasks, the thread-safe waker with its coalescing flag, abort,
  shutdown cancellation and joining. A future is user code: what a poll does is any sequence of
  operations on the runtime between \<open>poll_begin\<close> and \<open>poll_end\<close>. The microtask queue is projected to the polls
  of tasks, the remote queue to the wakes of tasks.
\<close>

subsection \<open>State\<close>

datatype task_state = Running | Finished | Aborted | Cancelled | Panicked

datatype join_error = JAborted | JCancelled | JPanicked

text \<open>\<open>FutureTask\<close>, its \<open>TaskShared\<close>, its \<open>JoinState\<close> and the flag of its \<open>TaskWaker\<close>; the future itself is only
  present or taken.\<close>

record 'v task =
  t_future :: bool
  t_queued :: bool
  t_state :: task_state
  t_join_waker :: "waker option"
  t_result :: "'v option"
  t_scheduled :: bool

record 'v runtime =
  store :: "nat \<rightharpoonup> 'v task"
  registry :: "nat set"
  next_task_id :: nat
  microtasks :: "nat list"
  remote_wakes :: "nat list"
  ready_tasks :: nat
  task_wakes :: nat
  coalesced_wakes :: nat
  task_polls :: nat
  tasks_cancelled :: nat
  closed :: bool

definition task_new :: "'v task" where
  "task_new = \<lparr>t_future = True, t_queued = False, t_state = Running, t_join_waker = None,
               t_result = None, t_scheduled = False\<rparr>"

definition runtime_new :: "'v runtime" where
  "runtime_new =
     \<lparr>store = Map.empty, registry = {}, next_task_id = 1, microtasks = [], remote_wakes = [],
      ready_tasks = 0, task_wakes = 0, coalesced_wakes = 0, task_polls = 0, tasks_cancelled = 0,
      closed = False\<rparr>"

text \<open>An update of one task of the store.\<close>

definition modify :: "nat \<Rightarrow> ('v task \<Rightarrow> 'v task) \<Rightarrow> 'v runtime \<Rightarrow> 'v runtime" where
  "modify i f s = s\<lparr>store := (store s)(i := map_option f (store s i))\<rparr>"

subsection \<open>Scheduling and waking\<close>

definition schedule :: "nat \<Rightarrow> 'v runtime \<Rightarrow> 'v runtime" where
  "schedule i s =
     (case store s i of
        None \<Rightarrow> s
      | Some t \<Rightarrow>
          if t_queued t then s\<lparr>coalesced_wakes := wrapping_succ (coalesced_wakes s)\<rparr>
          else (modify i (t_queued_update (\<lambda>_. True)) s)
            \<lparr>task_wakes := wrapping_succ (task_wakes s), ready_tasks := wrapping_succ (ready_tasks s),
             microtasks := microtasks s @ [i]\<rparr>)"

definition schedule_task_by_id :: "nat \<Rightarrow> 'v runtime \<Rightarrow> 'v runtime" where
  "schedule_task_by_id i s = (if i \<in> registry s then schedule i s else s)"

definition deregister_task :: "nat \<Rightarrow> 'v runtime \<Rightarrow> 'v runtime" where
  "deregister_task i s = s\<lparr>registry := registry s - {i}\<rparr>"

text \<open>\<open>queue_future\<close>; \<open>None\<close> is the exhausted id space.\<close>

definition queue_future :: "'v runtime \<Rightarrow> ('v runtime \<times> nat) panics" where
  "queue_future s =
     (let i = next_task_id s in
      do {
        n \<leftarrow> checked_add i 1;
        let s1 = s\<lparr>next_task_id := n, store := (store s)(i \<mapsto> task_new), registry := insert i (registry s)\<rparr>;
        Some (schedule i s1, i)
      })"

text \<open>\<open>TaskWaker::wake\<close> up to the swap of its flag, the owner thread's continuation, and the remote
  thread's; the queued closure is \<open>remote_wake_run\<close>.\<close>

definition wake_swap :: "nat \<Rightarrow> 'v runtime \<Rightarrow> 'v runtime \<times> bool" where
  "wake_swap i s =
     (case store s i of
        None \<Rightarrow> (s, True)
      | Some t \<Rightarrow> (modify i (t_scheduled_update (\<lambda>_. True)) s, t_scheduled t))"

definition wake_owner :: "nat \<Rightarrow> 'v runtime \<Rightarrow> 'v runtime" where
  "wake_owner i s = schedule_task_by_id i (modify i (t_scheduled_update (\<lambda>_. False)) s)"

definition wake_remote :: "nat \<Rightarrow> 'v runtime \<Rightarrow> 'v runtime" where
  "wake_remote i s =
     (if closed s then modify i (t_scheduled_update (\<lambda>_. False)) s
      else s\<lparr>remote_wakes := remote_wakes s @ [i]\<rparr>)"

definition remote_wake_run :: "nat \<Rightarrow> 'v runtime \<Rightarrow> 'v runtime" where
  "remote_wake_run i s = schedule_task_by_id i (modify i (t_scheduled_update (\<lambda>_. False)) s)"

subsection \<open>Terminal states\<close>

definition mark_terminal :: "nat \<Rightarrow> task_state \<Rightarrow> 'v runtime \<Rightarrow> 'v runtime \<times> waker option option" where
  "mark_terminal i st s =
     (case store s i of
        None \<Rightarrow> (s, None)
      | Some t \<Rightarrow>
          if t_state t \<noteq> Running then (s, None)
          else (modify i (\<lambda>t. t\<lparr>t_state := st, t_join_waker := None\<rparr>) s, Some (t_join_waker t)))"

definition abort :: "nat \<Rightarrow> 'v runtime \<Rightarrow> 'v runtime \<times> waker option" where
  "abort i s =
     (case mark_terminal i Aborted s of
        (s, None) \<Rightarrow> (s, None)
      | (s, Some w) \<Rightarrow>
          (deregister_task i (modify i (t_future_update (\<lambda>_. False))
             (s\<lparr>tasks_cancelled := wrapping_succ (tasks_cancelled s)\<rparr>)), w))"

text \<open>\<open>JoinState::complete\<close>, which the wrapper future calls at the end of its last poll.\<close>

definition complete :: "nat \<Rightarrow> 'v \<Rightarrow> 'v runtime \<Rightarrow> 'v runtime \<times> waker option" where
  "complete i v s =
     (case store s i of
        None \<Rightarrow> (s, None)
      | Some t \<Rightarrow>
          if t_state t \<noteq> Running then (s, None)
          else (modify i (\<lambda>t. t\<lparr>t_result := Some v, t_state := Finished, t_join_waker := None\<rparr>) s,
                t_join_waker t))"

definition join_poll ::
  "nat \<Rightarrow> waker \<Rightarrow> 'v runtime \<Rightarrow> ('v runtime \<times> (join_error, 'v) result poll) panics" where
  "join_poll i w s =
     (case store s i of
        None \<Rightarrow> panic
      | Some t \<Rightarrow>
          (case t_state t of
             Finished \<Rightarrow>
               (case t_result t of
                  Some v \<Rightarrow> Some (modify i (t_result_update (\<lambda>_. None)) s, Ready (Ok v))
                | None \<Rightarrow> panic)
           | Aborted \<Rightarrow> Some (s, Ready (Err JAborted))
           | Cancelled \<Rightarrow> Some (s, Ready (Err JCancelled))
           | Panicked \<Rightarrow> Some (s, Ready (Err JPanicked))
           | Running \<Rightarrow> Some (modify i (t_join_waker_update (\<lambda>_. Some w)) s, Pending)))"

subsection \<open>Polling\<close>

text \<open>\<open>FutureTask::poll\<close>: up to the call of the future (the flag says that there was one to call), and
  after it.\<close>

definition poll_begin :: "nat \<Rightarrow> 'v runtime \<Rightarrow> 'v runtime \<times> bool" where
  "poll_begin i s =
     (let taken = (case store s i of Some t \<Rightarrow> t_future t | None \<Rightarrow> False);
          s = modify i (\<lambda>t. t\<lparr>t_queued := False, t_future := False\<rparr>) s
      in (s\<lparr>ready_tasks := wrapping_pred (ready_tasks s),
            task_polls := (if taken then wrapping_succ (task_polls s) else task_polls s)\<rparr>, taken))"

datatype 'v poll_outcome = PollReady 'v | PollPending | PollPanicked

definition poll_end :: "nat \<Rightarrow> 'v poll_outcome \<Rightarrow> 'v runtime \<Rightarrow> 'v runtime \<times> waker option" where
  "poll_end i out s =
     (case out of
        PollReady v \<Rightarrow> (case complete i v s of (s, w) \<Rightarrow> (deregister_task i s, w))
      | PollPending \<Rightarrow>
          (case store s i of
             Some t \<Rightarrow>
               if t_state t = Aborted then (s, None)
               else (modify i (t_future_update (\<lambda>_. True)) s, None)
           | None \<Rightarrow> (s, None))
      | PollPanicked \<Rightarrow>
          (case mark_terminal i Panicked s of (s, w) \<Rightarrow> (deregister_task i s, Option.bind w id)))"

text \<open>\<open>cancel_tasks_for_shutdown\<close> on the tasks taken out of the registry, in the order of their ids.\<close>

definition cancel_for_shutdown :: "nat \<Rightarrow> 'v runtime \<times> waker list \<Rightarrow> 'v runtime \<times> waker list" where
  "cancel_for_shutdown i sw =
     (let (s, ws) = sw in
      case mark_terminal i Cancelled s of
        (s, None) \<Rightarrow> (s, ws)
      | (s, Some w) \<Rightarrow>
          (let queued = (case store s i of Some t \<Rightarrow> t_queued t | None \<Rightarrow> False);
               s = modify i (\<lambda>t. t\<lparr>t_queued := False, t_future := False\<rparr>) s
           in (if queued then s\<lparr>ready_tasks := wrapping_pred (ready_tasks s)\<rparr> else s,
               ws @ (case w of Some x \<Rightarrow> [x] | None \<Rightarrow> []))))"

definition cancel_tasks_for_shutdown :: "nat list \<Rightarrow> 'v runtime \<Rightarrow> 'v runtime \<times> waker list" where
  "cancel_tasks_for_shutdown ids s = fold cancel_for_shutdown (sort ids) (s, [])"

subsection \<open>Interleavings of the owner thread with remote wakes\<close>

text \<open>\<open>hopping\<close> are the remote wakes between the swap of the flag and the enqueue, \<open>owner_waking\<close> the owner's wake
  between the swap and the store; \<open>requested\<close> the tasks woken since their last poll began, \<open>joined\<close> those
  whose output was taken. The idle commit of the event loop runs only with both queues empty.\<close>

record 'v task_sys =
  rt :: "'v runtime"
  polling :: "nat option"
  hopping :: "nat list"
  owner_waking :: "nat option"
  requested :: "nat set"
  joined :: "nat set"

definition task_init :: "'v task_sys \<Rightarrow> bool" where
  "task_init s \<longleftrightarrow>
     s = \<lparr>rt = runtime_new, polling = None, hopping = [], owner_waking = None, requested = {}, joined = {}\<rparr>"

inductive task_step :: "'v task_sys \<Rightarrow> waker list \<Rightarrow> 'v task_sys \<Rightarrow> bool" where
  tk_spawn:
    "owner_waking s = None \<Longrightarrow> queue_future (rt s) = Some (r, i) \<Longrightarrow>
     task_step s [] (s\<lparr>rt := r, requested := insert i (requested s)\<rparr>)"
| tk_owner_swap:
    "owner_waking s = None \<Longrightarrow> wake_swap i (rt s) = (r, pending) \<Longrightarrow>
     task_step s [] (s\<lparr>rt := r, requested := insert i (requested s),
       owner_waking := (if pending then None else Some i)\<rparr>)"
| tk_owner_wake:
    "owner_waking s = Some i \<Longrightarrow> task_step s [] (s\<lparr>rt := wake_owner i (rt s), owner_waking := None\<rparr>)"
| tk_remote_swap:
    "wake_swap i (rt s) = (r, pending) \<Longrightarrow>
     task_step s [] (s\<lparr>rt := r, requested := insert i (requested s),
       hopping := (if pending then hopping s else i # hopping s)\<rparr>)"
| tk_remote_wake:
    "i \<in> set (hopping s) \<Longrightarrow>
     task_step s [] (s\<lparr>rt := wake_remote i (rt s), hopping := remove1 i (hopping s)\<rparr>)"
| tk_remote_run:
    "owner_waking s = None \<Longrightarrow> polling s = None \<Longrightarrow> remote_wakes (rt s) = i # ws \<Longrightarrow>
     task_step s [] (s\<lparr>rt := remote_wake_run i ((rt s)\<lparr>remote_wakes := ws\<rparr>)\<rparr>)"
| tk_poll_begin:
    "owner_waking s = None \<Longrightarrow> polling s = None \<Longrightarrow> microtasks (rt s) = i # q \<Longrightarrow>
     poll_begin i ((rt s)\<lparr>microtasks := q\<rparr>) = (r, taken) \<Longrightarrow>
     task_step s [] (s\<lparr>rt := r, polling := (if taken then Some i else None), requested := requested s - {i}\<rparr>)"
| tk_poll_end:
    "owner_waking s = None \<Longrightarrow> polling s = Some i \<Longrightarrow> poll_end i out (rt s) = (r, w) \<Longrightarrow>
     task_step s (case w of Some x \<Rightarrow> [x] | None \<Rightarrow> []) (s\<lparr>rt := r, polling := None\<rparr>)"
| tk_abort:
    "owner_waking s = None \<Longrightarrow> abort i (rt s) = (r, w) \<Longrightarrow>
     task_step s (case w of Some x \<Rightarrow> [x] | None \<Rightarrow> []) (s\<lparr>rt := r\<rparr>)"
| tk_join:
    "owner_waking s = None \<Longrightarrow> join_poll i w (rt s) = Some (r, p) \<Longrightarrow>
     task_step s [] (s\<lparr>rt := r, joined := (case p of Ready (Inr v) \<Rightarrow> insert i (joined s) | _ \<Rightarrow> joined s)\<rparr>)"
| tk_shutdown:
    "owner_waking s = None \<Longrightarrow> polling s = None \<Longrightarrow> microtasks (rt s) = [] \<Longrightarrow> remote_wakes (rt s) = [] \<Longrightarrow>
     set ids = registry (rt s) \<Longrightarrow> cancel_tasks_for_shutdown ids ((rt s)\<lparr>registry := {}\<rparr>) = (r, ws) \<Longrightarrow>
     task_step s ws (s\<lparr>rt := r\<rparr>)"
| tk_close:
    "owner_waking s = None \<Longrightarrow> polling s = None \<Longrightarrow> registry (rt s) = {} \<Longrightarrow> remote_wakes (rt s) = [] \<Longrightarrow>
     task_step s [] (s\<lparr>rt := (rt s)\<lparr>closed := True\<rparr>\<rparr>)"

inductive_cases task_stepE: "task_step s l t"

subsection \<open>Invariant\<close>

definition task_ok ::
  "'v runtime \<Rightarrow> nat option \<Rightarrow> nat set \<Rightarrow> nat set \<Rightarrow> nat set \<Rightarrow> nat \<Rightarrow> 'v task \<Rightarrow> bool" where
  "task_ok r pol waking req jnd i t \<longleftrightarrow>
     (t_queued t \<longleftrightarrow> i \<in> set (microtasks r)) \<and>
     (t_future t \<longrightarrow> t_state t = Running \<and> pol \<noteq> Some i) \<and>
     (t_state t = Running \<longleftrightarrow> i \<in> registry r) \<and>
     (t_state t = Running \<and> pol \<noteq> Some i \<longrightarrow> t_future t) \<and>
     (pol = Some i \<longrightarrow> t_state t \<in> {Running, Aborted}) \<and>
     (t_state t \<noteq> Running \<longrightarrow> t_join_waker t = None) \<and>
     (t_result t \<noteq> None \<longrightarrow> t_state t = Finished) \<and>
     (t_state t = Finished \<and> i \<notin> jnd \<longrightarrow> t_result t \<noteq> None) \<and>
     (t_scheduled t \<longleftrightarrow> i \<in> waking) \<and>
     (i \<in> req \<and> t_state t = Running \<and> \<not> closed r \<longrightarrow> t_queued t \<or> t_scheduled t)"

definition pending_wakes :: "'v task_sys \<Rightarrow> nat list" where
  "pending_wakes s = remote_wakes (rt s) @ hopping s @ (case owner_waking s of Some i \<Rightarrow> [i] | None \<Rightarrow> [])"

definition queues_ok :: "'v runtime \<Rightarrow> nat option \<Rightarrow> nat list \<Rightarrow> nat set \<Rightarrow> bool" where
  "queues_ok r pol pend jnd \<longleftrightarrow>
     distinct (microtasks r) \<and> set (microtasks r) \<subseteq> dom (store r) \<and>
     ready_tasks r = length (microtasks r) mod u64_modulus \<and>
     distinct pend \<and> set pend \<subseteq> dom (store r) \<and> registry r \<subseteq> dom (store r) \<and>
     dom (store r) \<subseteq> {..<next_task_id r} \<and> set_option pol \<subseteq> dom (store r) \<and> jnd \<subseteq> dom (store r)"

definition rt_ok :: "'v runtime \<Rightarrow> nat option \<Rightarrow> nat list \<Rightarrow> nat set \<Rightarrow> nat set \<Rightarrow> bool" where
  "rt_ok r pol pend req jnd \<longleftrightarrow>
     queues_ok r pol pend jnd \<and> (\<forall>i t. store r i = Some t \<longrightarrow> task_ok r pol (set pend) req jnd i t)"

definition task_inv :: "'v task_sys \<Rightarrow> bool" where
  "task_inv s \<longleftrightarrow> rt_ok (rt s) (polling s) (pending_wakes s) (requested s) (joined s)"

lemma modify_simps [simp]:
  "registry (modify i f s) = registry s" "next_task_id (modify i f s) = next_task_id s"
  "microtasks (modify i f s) = microtasks s" "remote_wakes (modify i f s) = remote_wakes s"
  "ready_tasks (modify i f s) = ready_tasks s" "closed (modify i f s) = closed s"
  "store (modify i f s) j = (if j = i then map_option f (store s i) else store s j)"
  "dom (store (modify i f s)) = dom (store s)"
  by (auto simp: modify_def dom_def)

lemma task_ok_transfer:
  assumes "task_ok r pol wk req jnd i t"
    and "i \<in> set (microtasks r') \<longleftrightarrow> i \<in> set (microtasks r)" and "i \<in> registry r' \<longleftrightarrow> i \<in> registry r"
    and "closed r \<Longrightarrow> closed r'" and "pol' = Some i \<longleftrightarrow> pol = Some i" and "i \<in> wk' \<longleftrightarrow> i \<in> wk"
    and "i \<in> req' \<Longrightarrow> i \<in> req \<or> t_queued t \<or> t_scheduled t" and "i \<in> jnd \<Longrightarrow> i \<in> jnd'"
  shows "task_ok r' pol' wk' req' jnd' i t"
  using assms unfolding task_ok_def by metis

lemma task_okD:
  assumes "task_ok r pol wk req jnd i t"
  shows "t_queued t \<longleftrightarrow> i \<in> set (microtasks r)" "t_future t \<Longrightarrow> t_state t = Running \<and> pol \<noteq> Some i"
    "t_state t = Running \<longleftrightarrow> i \<in> registry r" "t_state t = Running \<Longrightarrow> pol \<noteq> Some i \<Longrightarrow> t_future t"
    "pol = Some i \<Longrightarrow> t_state t = Running \<or> t_state t = Aborted" "t_state t \<noteq> Running \<Longrightarrow> t_join_waker t = None"
    "t_result t \<noteq> None \<Longrightarrow> t_state t = Finished" "t_state t = Finished \<Longrightarrow> i \<notin> jnd \<Longrightarrow> t_result t \<noteq> None"
    "t_scheduled t \<longleftrightarrow> i \<in> wk" "i \<in> req \<Longrightarrow> t_state t = Running \<Longrightarrow> \<not> closed r \<Longrightarrow> t_queued t \<or> t_scheduled t"
  using assms unfolding task_ok_def by blast+

text \<open>Scheduling a registered task, whatever the coalescing flags of the other tasks.\<close>

lemma schedule_queued:
  "store r i = Some t \<Longrightarrow> t_queued t \<Longrightarrow>
   schedule i r = r\<lparr>coalesced_wakes := wrapping_succ (coalesced_wakes r)\<rparr>"
  by (simp add: schedule_def)

lemma schedule_fresh:
  assumes "store r i = Some t" and "\<not> t_queued t"
  shows "store (schedule i r) = (store r)(i \<mapsto> t\<lparr>t_queued := True\<rparr>)" "registry (schedule i r) = registry r"
    "microtasks (schedule i r) = microtasks r @ [i]" "closed (schedule i r) = closed r"
    "ready_tasks (schedule i r) = wrapping_succ (ready_tasks r)" "next_task_id (schedule i r) = next_task_id r"
    "remote_wakes (schedule i r) = remote_wakes r"
  using assms by (simp_all add: schedule_def modify_def)

lemma schedule_ok:
  assumes q: "queues_ok r pol pend jnd" and t: "store r i = Some t"
    and inv: "\<And>j u. store r j = Some u \<Longrightarrow> task_ok r pol waking (req - {i}) jnd j u"
  shows "queues_ok (schedule i r) pol pend jnd"
    "store (schedule i r) j = Some u \<Longrightarrow> task_ok (schedule i r) pol waking (insert i req) jnd j u"
proof -
  note ti = inv [OF t]
  have "queues_ok (schedule i r) pol pend jnd \<and>
    (store (schedule i r) j = Some u \<longrightarrow> task_ok (schedule i r) pol waking (insert i req) jnd j u)"
  proof (cases "t_queued t")
    case True
    note e = schedule_queued [OF t True]
    have "task_ok (schedule i r) pol waking (insert i req) jnd j u" if u: "store r j = Some u"
      by (rule task_ok_transfer [OF inv [OF u]]) (use u t True in \<open>auto simp: e\<close>)
    then show ?thesis using q by (simp add: e queues_ok_def)
  next
    case False
    note e = schedule_fresh [OF t False]
    have new: "i \<notin> set (microtasks r)" using task_okD(1) [OF ti] False by simp
    have dom: "dom (store (schedule i r)) = dom (store r)" "i \<in> dom (store r)" using t by (auto simp: e(1))
    have "queues_ok (schedule i r) pol pend jnd"
      using q dom(2) new unfolding queues_ok_def dom(1) by (simp add: e(2-))
    moreover have "task_ok (schedule i r) pol waking (insert i req) jnd i (t\<lparr>t_queued := True\<rparr>)"
      using ti unfolding task_ok_def by (simp (no_asm) add: e) blast
    moreover have "task_ok (schedule i r) pol waking (insert i req) jnd j u" if "j \<noteq> i" "store r j = Some u"
      by (rule task_ok_transfer [OF inv [OF that(2)]]) (use that(1) in \<open>auto simp: e\<close>)
    ultimately show ?thesis by (cases "j = i") (auto simp: e)
  qed
  then show "queues_ok (schedule i r) pol pend jnd"
    "store (schedule i r) j = Some u \<Longrightarrow> task_ok (schedule i r) pol waking (insert i req) jnd j u" by blast+
qed

lemma rt_okD:
  assumes "rt_ok r pol pend req jnd"
  shows "queues_ok r pol pend jnd" "store r i = Some t \<Longrightarrow> task_ok r pol (set pend) req jnd i t"
  using assms by (simp_all add: rt_ok_def)

text \<open>An operation on one task: the shared queues stay, the task is replaced, the others are as before.\<close>

lemma rt_ok_modify:
  assumes inv: "rt_ok r pol pend req jnd" and t: "store r i = Some t"
    and r': "store r' = (store r)(i \<mapsto> t')" "microtasks r' = microtasks r" "ready_tasks r' = ready_tasks r"
      "next_task_id r' = next_task_id r" "closed r' = closed r"
      "registry r' \<subseteq> registry r" "registry r - {i} \<subseteq> registry r'"
    and pend: "set pend' - {i} = set pend - {i}" "distinct pend'"
    and rest: "req' - {i} \<subseteq> req" "jnd \<subseteq> jnd'" "jnd' \<subseteq> insert i jnd" "pol' = pol \<or> pol = Some i \<and> pol' = None"
    and t': "task_ok r' pol' (set pend') req' jnd' i t'"
  shows "rt_ok r' pol' pend' req' jnd'"
proof -
  have dom: "dom (store r') = dom (store r)" "i \<in> dom (store r)" using t r'(1) by auto
  have q: "queues_ok r pol pend jnd" using rt_okD(1) [OF inv] .
  have "set pend' \<subseteq> insert i (set pend)" using pend(1) by auto
  then have "queues_ok r' pol' pend' jnd'"
    using q dom(2) r'(6) pend(2) rest(3,4) unfolding queues_ok_def dom(1) r'(2-5) by auto
  moreover have "task_ok r' pol' (set pend') req' jnd' j u" if u: "store r' j = Some u" for j u
  proof (cases "j = i")
    case True
    then show ?thesis using t' u r'(1) by simp
  next
    case False
    then have "store r j = Some u" using u r'(1) by simp
    from rt_okD(2) [OF inv this] show ?thesis
      by (rule task_ok_transfer) (use False r' pend rest in auto)
  qed
  ultimately show ?thesis by (simp add: rt_ok_def)
qed

lemma rt_ok_remote [simp]:
  "rt_ok (r\<lparr>remote_wakes := x\<rparr>) pol pend req jnd = rt_ok r pol pend req jnd"
  by (simp add: rt_ok_def queues_ok_def task_ok_def)

lemma rt_ok_mset:
  assumes "rt_ok r pol pend req jnd" and "mset pend = mset pend'"
  shows "rt_ok r pol pend' req jnd"
  using assms mset_eq_setD [OF assms(2)] mset_eq_imp_distinct_iff [OF assms(2)]
  by (simp add: rt_ok_def queues_ok_def)

lemma modify_store: "store r i = Some t \<Longrightarrow> store (modify i f r) = (store r)(i \<mapsto> f t)"
  by (simp add: modify_def)

lemma rt_ok_swap:
  assumes inv: "rt_ok r pol pend req jnd" and e: "wake_swap i r = (r', p)"
  shows "p \<Longrightarrow> rt_ok r' pol pend (insert i req) jnd"
    "\<not> p \<Longrightarrow> mset pend' = add_mset i (mset pend) \<Longrightarrow> rt_ok r' pol pend' (insert i req) jnd"
proof -
  note q = rt_okD(1) [OF inv]
  show "rt_ok r' pol pend (insert i req) jnd" if p
  proof (cases "store r i")
    case None
    then have "r' = r" using e by (simp add: wake_swap_def)
    moreover have "task_ok r pol (set pend) (insert i req) jnd j u" if u: "store r j = Some u" for j u
      by (rule task_ok_transfer [OF rt_okD(2) [OF inv u]]) (use u None in auto)
    ultimately show ?thesis using q by (simp add: rt_ok_def)
  next
    case (Some t)
    then have r': "r' = modify i (t_scheduled_update (\<lambda>_. True)) r" "t_scheduled t" using e that by (auto simp: wake_swap_def)
    have st: "store r' = (store r)(i \<mapsto> t\<lparr>t_scheduled := True\<rparr>)" using modify_store [OF Some] r'(1) by simp
    have "task_ok r' pol (set pend) (insert i req) jnd i (t\<lparr>t_scheduled := True\<rparr>)"
      using rt_okD(2) [OF inv Some] r'(2) unfolding task_ok_def r'(1) by (simp (no_asm)) blast
    then show ?thesis
      by (rule rt_ok_modify [OF inv Some st, rotated -1]) (use q r'(1) in \<open>auto simp: queues_ok_def\<close>)
  qed
  show "rt_ok r' pol pend' (insert i req) jnd" if np: "\<not> p" and m: "mset pend' = add_mset i (mset pend)"
  proof -
    obtain t where t: "store r i = Some t" using e np by (cases "store r i") (auto simp: wake_swap_def)
    then have r': "r' = modify i (t_scheduled_update (\<lambda>_. True)) r" "\<not> t_scheduled t" using e np by (auto simp: wake_swap_def)
    have st: "store r' = (store r)(i \<mapsto> t\<lparr>t_scheduled := True\<rparr>)" using modify_store [OF t] r'(1) by simp
    have new: "i \<notin> set pend" using task_okD(9) [OF rt_okD(2) [OF inv t]] r'(2) by simp
    have m': "mset pend' = mset (i # pend)" using m by simp
    have "distinct (i # pend)" using new q by (simp add: queues_ok_def)
    then have pend': "set pend' = insert i (set pend)" "distinct pend'"
      using mset_eq_setD [OF m'] mset_eq_imp_distinct_iff [OF m'] by simp_all
    have "task_ok r' pol (set pend') (insert i req) jnd i (t\<lparr>t_scheduled := True\<rparr>)"
      using rt_okD(2) [OF inv t] unfolding task_ok_def r'(1) pend'(1) by (simp (no_asm)) blast
    then show ?thesis
      by (rule rt_ok_modify [OF inv t st, rotated -1]) (use pend' r'(1) in auto)
  qed
qed

lemma rt_ok_req:
  assumes "rt_ok r pol pend req jnd" and "req' \<subseteq> req"
  shows "rt_ok r pol pend req' jnd"
  unfolding rt_ok_def
proof (intro conjI allI impI)
  fix i t assume "store r i = Some t"
  from rt_okD(2) [OF assms(1) this] show "task_ok r pol (set pend) req' jnd i t"
    by (rule task_ok_transfer) (use assms(2) in auto)
qed (rule rt_okD(1) [OF assms(1)])

text \<open>A pending wake that runs on the owner thread clears the flag and schedules the task.\<close>

lemma rt_ok_unflag:
  assumes inv: "rt_ok r pol pend req jnd" and m: "mset pend = add_mset i (mset pend')"
    and req: "i \<in> req' \<Longrightarrow> closed r \<or> i \<notin> registry r" "req' \<subseteq> req"
  shows "rt_ok (modify i (t_scheduled_update (\<lambda>_. False)) r) pol pend' req' jnd"
proof -
  have m': "mset pend = mset (i # pend')" using m by simp
  note q = rt_okD(1) [OF inv]
  have d: "distinct (i # pend')" using mset_eq_imp_distinct_iff [OF m'] q by (simp add: queues_ok_def)
  have ni: "i \<notin> set pend'" using d by simp
  have set: "set pend = insert i (set pend')" using mset_eq_setD [OF m'] by simp
  obtain t where t: "store r i = Some t" using q set by (auto simp: queues_ok_def)
  note ti = rt_okD(2) [OF inv t]
  have "task_ok (modify i (t_scheduled_update (\<lambda>_. False)) r) pol (set pend') req' jnd i (t\<lparr>t_scheduled := False\<rparr>)"
    using ti req(1) ni unfolding task_ok_def by (simp (no_asm)) blast
  then show ?thesis
    by (rule rt_ok_modify [OF inv t modify_store [OF t], rotated -1]) (use d set req in auto)
qed

lemma rt_ok_consume:
  assumes inv: "rt_ok r pol pend req jnd" and m: "mset pend = add_mset i (mset pend')"
  shows "rt_ok (schedule_task_by_id i (modify i (t_scheduled_update (\<lambda>_. False)) r)) pol pend' req jnd"
proof (cases "i \<in> registry r")
  case True
  let ?r = "modify i (t_scheduled_update (\<lambda>_. False)) r"
  have ok: "rt_ok ?r pol pend' (req - {i}) jnd" by (rule rt_ok_unflag [OF inv m]) auto
  have "registry r \<subseteq> dom (store r)" using rt_okD(1) [OF inv] by (simp add: queues_ok_def)
  then obtain t where t: "store ?r i = Some t" using True by (auto simp: modify_def)
  note so = schedule_ok [OF rt_okD(1) [OF ok] t rt_okD(2) [OF ok]]
  have "rt_ok (schedule i ?r) pol pend' (insert i req) jnd" using so by (simp add: rt_ok_def)
  then have "rt_ok (schedule i ?r) pol pend' req jnd" by (rule rt_ok_req) auto
  then show ?thesis using True by (simp add: schedule_task_by_id_def)
next
  case False
  have "rt_ok (modify i (t_scheduled_update (\<lambda>_. False)) r) pol pend' req jnd"
    by (rule rt_ok_unflag [OF inv m]) (use False in auto)
  then show ?thesis using False by (simp add: schedule_task_by_id_def)
qed

lemma rt_ok_spawn:
  assumes inv: "rt_ok r pol pend req jnd" and e: "queue_future r = Some (r', i)"
  shows "rt_ok r' pol pend (insert i req) jnd"
proof -
  let ?i = "next_task_id r"
  let ?r = "r\<lparr>next_task_id := Suc ?i, store := (store r)(?i \<mapsto> task_new), registry := insert ?i (registry r)\<rparr>"
  have r': "r' = schedule ?i ?r" "i = ?i"
    using e by (auto simp: queue_future_def checked_add_def Let_def split: if_splits)
  note q = rt_okD(1) [OF inv]
  have fresh: "?i \<notin> dom (store r)" using q by (auto simp: queues_ok_def)
  then have out: "?i \<notin> set (microtasks r)" "?i \<notin> set pend" "pol \<noteq> Some ?i" using q by (auto simp: queues_ok_def)
  have "queues_ok ?r pol pend jnd" using q by (auto simp: queues_ok_def)
  moreover have "task_ok ?r pol (set pend) (req - {?i}) jnd ?i task_new"
    using out by (simp add: task_ok_def task_new_def)
  moreover have "task_ok ?r pol (set pend) (req - {?i}) jnd j u" if "j \<noteq> ?i" "store r j = Some u" for j u
    by (rule task_ok_transfer [OF rt_okD(2) [OF inv that(2)]]) (use that(1) in auto)
  ultimately have ok: "rt_ok ?r pol pend (req - {?i}) jnd" by (auto simp: rt_ok_def)
  have t: "store ?r ?i = Some task_new" by simp
  show ?thesis using schedule_ok [OF rt_okD(1) [OF ok] t rt_okD(2) [OF ok]] unfolding r' by (simp add: rt_ok_def)
qed

lemma rt_ok_poll_begin:
  assumes inv: "rt_ok r None pend req jnd" and mt: "microtasks r = i # qs"
    and e: "poll_begin i (r\<lparr>microtasks := qs\<rparr>) = (r', taken)"
  shows "rt_ok r' (if taken then Some i else None) pend (req - {i}) jnd"
    "taken \<Longrightarrow> \<exists>t. store r i = Some t \<and> t_state t = Running"
proof -
  note q = rt_okD(1) [OF inv]
  obtain t where t: "store r i = Some t" using q mt by (auto simp: queues_ok_def)
  note ti = rt_okD(2) [OF inv t]
  have st: "store r' = (store r)(i \<mapsto> t\<lparr>t_queued := False, t_future := False\<rparr>)" "taken = t_future t"
    "registry r' = registry r" "microtasks r' = qs" "ready_tasks r' = wrapping_pred (ready_tasks r)"
    "closed r' = closed r" "next_task_id r' = next_task_id r"
    using e t by (auto simp: poll_begin_def Let_def modify_def)
  have notq: "i \<notin> set qs" using q mt by (simp add: queues_ok_def)
  have dom: "dom (store r') = dom (store r)" "i \<in> dom (store r)" using t st(1) by auto
  have "queues_ok r' (if taken then Some i else None) pend jnd"
    using q dom(2) unfolding queues_ok_def dom(1) by (simp add: st(3-) mt)
  moreover have "task_ok r' (if taken then Some i else None) (set pend) (req - {i}) jnd i (t\<lparr>t_queued := False, t_future := False\<rparr>)"
    using ti notq unfolding task_ok_def by (simp (no_asm) add: st(2-)) blast
  moreover have "task_ok r' (if taken then Some i else None) (set pend) (req - {i}) jnd j u"
    if "j \<noteq> i" "store r j = Some u" for j u
    by (rule task_ok_transfer [OF rt_okD(2) [OF inv that(2)]]) (use that(1) mt in \<open>auto simp: st\<close>)
  ultimately show "rt_ok r' (if taken then Some i else None) pend (req - {i}) jnd"
    by (auto simp: rt_ok_def st(1))
  show "taken \<Longrightarrow> \<exists>t. store r i = Some t \<and> t_state t = Running"
    using t st(2) task_okD(2) [OF ti] by blast
qed

lemma rt_ok_abort:
  assumes inv: "rt_ok r pol pend req jnd" and e: "abort i r = (r', w)"
  shows "rt_ok r' pol pend req jnd"
proof (cases "\<exists>t. store r i = Some t \<and> t_state t = Running")
  case False
  then have "r' = r" using e by (auto simp: abort_def mark_terminal_def split: option.splits if_splits)
  then show ?thesis using inv by simp
next
  case True
  then obtain t where t: "store r i = Some t" "t_state t = Running" by blast
  let ?t = "t\<lparr>t_state := Aborted, t_join_waker := None, t_future := False\<rparr>"
  have r': "store r' = (store r)(i \<mapsto> ?t)" "registry r' = registry r - {i}" "microtasks r' = microtasks r"
    "ready_tasks r' = ready_tasks r" "next_task_id r' = next_task_id r" "closed r' = closed r"
    using e t by (auto simp: abort_def mark_terminal_def deregister_task_def modify_def)
  note ti = rt_okD(2) [OF inv t(1)]
  have "t_result t = None" using task_okD(7) [OF ti] t(2) by (cases "t_result t") auto
  then have "task_ok r' pol (set pend) req jnd i ?t"
    using ti unfolding task_ok_def by (simp (no_asm) add: r'(2-)) blast
  then show ?thesis
    by (rule rt_ok_modify [OF inv t(1) r'(1), rotated -1])
      (use rt_okD(1) [OF inv] r' in \<open>auto simp: queues_ok_def\<close>)
qed

lemma rt_ok_join:
  assumes inv: "rt_ok r pol pend req jnd" and e: "join_poll i w r = Some (r', p)"
  shows "rt_ok r' pol pend req (case p of Ready (Inr v) \<Rightarrow> insert i jnd | _ \<Rightarrow> jnd)"
proof -
  obtain t where t: "store r i = Some t" using e by (cases "store r i") (auto simp: join_poll_def)
  note ti = rt_okD(2) [OF inv t]
  have d: "distinct pend" using rt_okD(1) [OF inv] by (simp add: queues_ok_def)
  consider "t_state t = Running" | v where "t_state t = Finished" "t_result t = Some v"
    | "t_state t \<in> {Aborted, Cancelled, Panicked}"
    using e t by (cases "t_state t") (auto simp: join_poll_def split: option.splits)
  then show ?thesis
  proof cases
    case 1
    let ?t = "t\<lparr>t_join_waker := Some w\<rparr>"
    have r': "r' = modify i (t_join_waker_update (\<lambda>_. Some w)) r" "p = Pending" using e t 1 by (auto simp: join_poll_def)
    have "task_ok r' pol (set pend) req jnd i ?t"
      using ti 1 unfolding task_ok_def by (simp (no_asm) add: r') blast
    moreover have "store r' = (store r)(i \<mapsto> ?t)" using modify_store [OF t] r'(1) by simp
    ultimately show ?thesis
      using rt_ok_modify [OF inv t, of r' ?t pend req jnd pol] r' d by auto
  next
    case 2
    let ?t = "t\<lparr>t_result := None\<rparr>"
    have r': "r' = modify i (t_result_update (\<lambda>_. None)) r" "p = Ready (Ok v)" using e t 2 by (auto simp: join_poll_def)
    have "task_ok r' pol (set pend) req (insert i jnd) i ?t"
      using ti 2 unfolding task_ok_def by (simp (no_asm) add: r') blast
    moreover have "store r' = (store r)(i \<mapsto> ?t)" using modify_store [OF t] r'(1) by simp
    ultimately show ?thesis
      using rt_ok_modify [OF inv t, of r' ?t pend req "insert i jnd" pol] r' d by auto
  next
    case 3
    then have "r' = r" "\<And>v. p \<noteq> Ready (Ok v)" using e t by (auto simp: join_poll_def)
    then show ?thesis using inv by (auto split: poll.splits sum.splits)
  qed
qed

lemma rt_ok_poll_end:
  assumes inv: "rt_ok r (Some i) pend req jnd" and e: "poll_end i out r = (r', w)"
  shows "rt_ok r' None pend req jnd"
proof -
  note q = rt_okD(1) [OF inv]
  obtain t where t: "store r i = Some t" using q by (auto simp: queues_ok_def)
  note ti = rt_okD(2) [OF inv t]
  have d: "distinct pend" using q by (simp add: queues_ok_def)
  have st: "t_state t = Running \<or> t_state t = Aborted" using task_okD(5) [OF ti] by simp
  have nf: "\<not> t_future t" "t_result t = None"
    using task_okD(2) [OF ti] task_okD(7) [OF ti] st by (blast, cases "t_result t") auto
  obtain t' where r': "store r' = (store r)(i \<mapsto> t')" "microtasks r' = microtasks r" "ready_tasks r' = ready_tasks r"
      "next_task_id r' = next_task_id r" "closed r' = closed r"
      "registry r' = (if t_state t' = Running then registry r else registry r - {i})"
    and t': "if t_state t = Aborted then t' = t else
      t' = t\<lparr>t_future := True\<rparr> \<or> (\<exists>v. t' = t\<lparr>t_result := Some v, t_state := Finished, t_join_waker := None\<rparr>) \<or>
      t' = t\<lparr>t_state := Panicked, t_join_waker := None\<rparr>"
  proof (cases out)
    case (PollReady v)
    show thesis
      by (rule that [of "if t_state t = Aborted then t else t\<lparr>t_result := Some v, t_state := Finished, t_join_waker := None\<rparr>"])
        (use e t st PollReady task_okD(3) [OF ti] in \<open>auto simp: poll_end_def complete_def deregister_task_def modify_def\<close>)
  next
    case PollPending
    show thesis
      by (rule that [of "if t_state t = Aborted then t else t\<lparr>t_future := True\<rparr>"])
        (use e t st PollPending task_okD(3) [OF ti] in \<open>auto simp: poll_end_def modify_def split: if_splits\<close>)
  next
    case PollPanicked
    show thesis
      by (rule that [of "if t_state t = Aborted then t else t\<lparr>t_state := Panicked, t_join_waker := None\<rparr>"])
        (use e t st PollPanicked task_okD(3) [OF ti] in \<open>auto simp: poll_end_def mark_terminal_def deregister_task_def modify_def\<close>)
  qed
  have "task_ok r' None (set pend) req jnd i t'"
  proof (cases "t_state t = Aborted")
    case True
    then show ?thesis
      using ti t' nf unfolding task_ok_def by (simp (no_asm) add: r'(2-)) auto
  next
    case False
    then have run: "t_state t = Running" using st by simp
    with t' False consider "t' = t\<lparr>t_future := True\<rparr>"
      | v where "t' = t\<lparr>t_result := Some v, t_state := Finished, t_join_waker := None\<rparr>"
      | "t' = t\<lparr>t_state := Panicked, t_join_waker := None\<rparr>" by auto
    then show ?thesis
    proof cases
      case 1
      then show ?thesis using ti run nf unfolding task_ok_def by (simp (no_asm) add: r'(2-) 1) blast
    next
      case 2
      then show ?thesis using ti run nf unfolding task_ok_def by (simp (no_asm) add: r'(2-) 2) blast
    next
      case 3
      then show ?thesis using ti run nf unfolding task_ok_def by (simp (no_asm) add: r'(2-) 3) blast
    qed
  qed
  then show ?thesis
    by (rule rt_ok_modify [OF inv t r'(1), rotated -1]) (use r' d in auto)
qed

text \<open>Shutdown cancellation, which the idle commit runs on an empty microtask queue.\<close>

definition cancelled_task :: "'v task \<Rightarrow> 'v task" where
  "cancelled_task t =
     (if t_state t = Running
      then t\<lparr>t_state := Cancelled, t_join_waker := None, t_queued := False, t_future := False\<rparr> else t)"

definition same_queues :: "'v runtime \<Rightarrow> 'v runtime \<Rightarrow> bool" where
  "same_queues r r' \<longleftrightarrow>
     registry r' = registry r \<and> microtasks r' = microtasks r \<and> ready_tasks r' = ready_tasks r \<and>
     next_task_id r' = next_task_id r \<and> closed r' = closed r \<and> remote_wakes r' = remote_wakes r"

lemma cancel_for_shutdown_one:
  assumes "\<And>t. store r i = Some t \<Longrightarrow> \<not> t_queued t"
  shows "store (fst (cancel_for_shutdown i (r, ws))) = (store r)(i := map_option cancelled_task (store r i))"
    "same_queues r (fst (cancel_for_shutdown i (r, ws)))"
proof -
  have "store (fst (cancel_for_shutdown i (r, ws))) = (store r)(i := map_option cancelled_task (store r i)) \<and>
    same_queues r (fst (cancel_for_shutdown i (r, ws)))"
  proof (cases "store r i")
    case None
    then show ?thesis
      by (auto simp: cancel_for_shutdown_def mark_terminal_def same_queues_def fun_upd_idem)
  next
    case (Some t)
    show ?thesis
    proof (cases "t_state t = Running")
      case True
      then show ?thesis using Some assms
        by (simp add: cancel_for_shutdown_def mark_terminal_def same_queues_def cancelled_task_def modify_def)
    next
      case False
      then show ?thesis using Some
        by (auto simp: cancel_for_shutdown_def mark_terminal_def same_queues_def cancelled_task_def fun_upd_idem)
    qed
  qed
  then show "store (fst (cancel_for_shutdown i (r, ws))) = (store r)(i := map_option cancelled_task (store r i))"
    "same_queues r (fst (cancel_for_shutdown i (r, ws)))" by blast+
qed

lemma cancel_for_shutdown_all:
  assumes "\<And>j t. store (fst rw) j = Some t \<Longrightarrow> \<not> t_queued t"
  shows "store (fst (fold cancel_for_shutdown ids rw)) =
      (\<lambda>j. if j \<in> set ids then map_option cancelled_task (store (fst rw) j) else store (fst rw) j) \<and>
    same_queues (fst rw) (fst (fold cancel_for_shutdown ids rw))"
  using assms
proof (induction ids arbitrary: rw)
  case Nil
  then show ?case by (simp add: same_queues_def)
next
  case (Cons i ids)
  obtain r ws where rw: "rw = (r, ws)" by (rule prod.exhaust)
  let ?rw = "cancel_for_shutdown i rw"
  have one: "store (fst ?rw) = (store r)(i := map_option cancelled_task (store r i))" "same_queues r (fst ?rw)"
    using cancel_for_shutdown_one [of r i ws] Cons.prems by (auto simp: rw)
  have "\<not> t_queued t" if "store (fst ?rw) j = Some t" for j t
    using that Cons.prems unfolding one(1) by (auto simp: rw cancelled_task_def split: if_splits)
  from Cons.IH [of ?rw, OF this] show ?case
    using one by (auto simp: rw same_queues_def cancelled_task_def fun_eq_iff option.map_comp comp_def
        intro!: option.map_cong0)
qed

lemma rt_ok_shutdown:
  assumes inv: "rt_ok r None pend req jnd" and mt: "microtasks r = []" and ids: "set ids = registry r"
    and e: "cancel_tasks_for_shutdown ids (r\<lparr>registry := {}\<rparr>) = (r', ws)"
  shows "rt_ok r' None pend req jnd" "store r j = Some t \<Longrightarrow> store r' j = Some (cancelled_task t)"
    "remote_wakes r' = remote_wakes r"
proof -
  let ?r = "r\<lparr>registry := {}\<rparr>"
  note q = rt_okD(1) [OF inv]
  have nq: "\<not> t_queued t" if "store (fst (?r, [])) j = Some t" for j t
    using task_okD(1) [OF rt_okD(2) [OF inv], of j t] that mt by simp
  note all = cancel_for_shutdown_all [of "(?r, [])" "sort ids", OF nq]
  have r': "r' = fst (fold cancel_for_shutdown (sort ids) (?r, []))"
    using e by (simp add: cancel_tasks_for_shutdown_def)
  have st: "store r' j = map_option cancelled_task (store r j)" for j
  proof (cases "j \<in> registry r")
    case False
    then have "store r j = None \<or> (\<exists>t. store r j = Some t \<and> t_state t \<noteq> Running)"
      using task_okD(3) [OF rt_okD(2) [OF inv]] by (cases "store r j") auto
    then show ?thesis using all ids False by (auto simp: r' cancelled_task_def)
  qed (use all ids in \<open>simp add: r'\<close>)
  then show "store r j = Some t \<Longrightarrow> store r' j = Some (cancelled_task t)" by simp
  have same: "registry r' = {}" "microtasks r' = []" "ready_tasks r' = ready_tasks r" "next_task_id r' = next_task_id r"
    "closed r' = closed r" using all mt by (simp_all add: r' same_queues_def)
  show "remote_wakes r' = remote_wakes r" using all by (simp add: r' same_queues_def)
  have dom: "dom (store r') = dom (store r)" using st by (auto simp: dom_def)
  have "queues_ok r' None pend jnd" using q mt unfolding queues_ok_def dom by (simp add: same)
  moreover have "task_ok r' None (set pend) req jnd j (cancelled_task u)" if u: "store r j = Some u" for j u
  proof -
    note uo = rt_okD(2) [OF inv u]
    show ?thesis
    proof (cases "t_state u = Running")
      case True
      then have "t_result u = None" using task_okD(7) [OF uo] by (cases "t_result u") auto
      then show ?thesis
        using uo True unfolding task_ok_def by (simp (no_asm) add: same cancelled_task_def True) blast
    next
      case False
      then have "cancelled_task u = u" "j \<notin> registry r" using task_okD(3) [OF uo] by (simp_all add: cancelled_task_def)
      then show ?thesis using task_ok_transfer [OF uo] by (simp add: same mt)
    qed
  qed
  ultimately show "rt_ok r' None pend req jnd" using st by (auto simp: rt_ok_def)
qed

lemma rt_ok_close:
  assumes "rt_ok r pol pend req jnd"
  shows "rt_ok (r\<lparr>closed := True\<rparr>) pol pend req jnd"
  unfolding rt_ok_def
proof (intro conjI allI impI)
  show "queues_ok (r\<lparr>closed := True\<rparr>) pol pend jnd" using rt_okD(1) [OF assms] by (simp add: queues_ok_def)
  fix i t assume "store (r\<lparr>closed := True\<rparr>) i = Some t"
  then have "store r i = Some t" by simp
  from rt_okD(2) [OF assms this] show "task_ok (r\<lparr>closed := True\<rparr>) pol (set pend) req jnd i t"
    by (rule task_ok_transfer) auto
qed

lemma task_inv_step:
  assumes inv: "task_inv s" and "task_step s l t"
  shows "task_inv t"
proof -
  note ok = inv [unfolded task_inv_def]
  from assms(2) show ?thesis
  proof cases
    case (tk_spawn r i)
    then have "remote_wakes r = remote_wakes (rt s)"
      by (auto simp: queue_future_def checked_add_def Let_def schedule_def split: if_splits)
    then show ?thesis using rt_ok_spawn [OF ok] tk_spawn by (auto simp: task_inv_def pending_wakes_def)
  next
    case (tk_owner_swap i r pending)
    then have "remote_wakes r = remote_wakes (rt s)" by (auto simp: wake_swap_def split: option.splits)
    then show ?thesis using tk_owner_swap rt_ok_swap [OF ok tk_owner_swap(4)]
      by (cases pending) (auto simp: task_inv_def pending_wakes_def)
  next
    case (tk_owner_wake i)
    have "remote_wakes (wake_owner i (rt s)) = remote_wakes (rt s)"
      by (auto simp: wake_owner_def schedule_task_by_id_def schedule_def split: option.splits)
    then show ?thesis using tk_owner_wake rt_ok_consume [OF ok, of i]
      by (auto simp: task_inv_def pending_wakes_def wake_owner_def)
  next
    case (tk_remote_swap i r pending)
    then have "remote_wakes r = remote_wakes (rt s)" by (auto simp: wake_swap_def split: option.splits)
    then show ?thesis using tk_remote_swap rt_ok_swap [OF ok tk_remote_swap(3)]
      by (cases pending) (auto simp: task_inv_def pending_wakes_def)
  next
    case (tk_remote_wake i)
    show ?thesis
    proof (cases "closed (rt s)")
      case True
      have "mset (pending_wakes s) = add_mset i (mset (remote_wakes (rt s) @ remove1 i (hopping s) @
          (case owner_waking s of Some i \<Rightarrow> [i] | None \<Rightarrow> [])))"
        using tk_remote_wake by (simp add: pending_wakes_def)
      from rt_ok_unflag [OF ok this, of "requested s"] show ?thesis
        using tk_remote_wake True by (simp add: task_inv_def pending_wakes_def wake_remote_def)
    next
      case False
      show ?thesis unfolding task_inv_def tk_remote_wake
        by (simp add: wake_remote_def False, rule rt_ok_mset [OF ok])
          (use tk_remote_wake in \<open>simp add: pending_wakes_def\<close>)
    qed
  next
    case (tk_remote_run i ws)
    let ?r = "(rt s)\<lparr>remote_wakes := ws\<rparr>"
    have "mset (pending_wakes s) = add_mset i (mset (ws @ hopping s))"
      using tk_remote_run by (simp add: pending_wakes_def)
    from rt_ok_consume [of ?r, OF _ this] have "rt_ok (remote_wake_run i ?r) None (ws @ hopping s) (requested s) (joined s)"
      using ok tk_remote_run by (simp add: remote_wake_run_def)
    moreover have "remote_wakes (remote_wake_run i ?r) = ws"
      by (auto simp: remote_wake_run_def schedule_task_by_id_def schedule_def split: option.splits)
    ultimately show ?thesis using tk_remote_run by (simp add: task_inv_def pending_wakes_def)
  next
    case (tk_poll_begin i q r taken)
    have "rt_ok (rt s) None (pending_wakes s) (requested s) (joined s)" using ok tk_poll_begin by simp
    from rt_ok_poll_begin(1) [OF this tk_poll_begin(5,6)]
    show ?thesis using tk_poll_begin by (auto simp: task_inv_def pending_wakes_def poll_begin_def Let_def)
  next
    case (tk_poll_end i out r w)
    then have "remote_wakes r = remote_wakes (rt s)"
      by (auto simp: poll_end_def complete_def mark_terminal_def deregister_task_def
          split: poll_outcome.splits option.splits if_splits)
    then show ?thesis using tk_poll_end rt_ok_poll_end [of "rt s" i] ok
      by (auto simp: task_inv_def pending_wakes_def)
  next
    case (tk_abort i r w)
    then have "remote_wakes r = remote_wakes (rt s)"
      by (auto simp: abort_def mark_terminal_def deregister_task_def split: option.splits if_splits)
    then show ?thesis using tk_abort rt_ok_abort [OF ok] by (auto simp: task_inv_def pending_wakes_def)
  next
    case (tk_join i w r p)
    then have "remote_wakes r = remote_wakes (rt s)"
      by (auto simp: join_poll_def split: option.splits task_state.splits)
    then show ?thesis using tk_join rt_ok_join [OF ok] by (auto simp: task_inv_def pending_wakes_def)
  next
    case (tk_shutdown ids r)
    have "rt_ok (rt s) None (pending_wakes s) (requested s) (joined s)" using ok tk_shutdown by simp
    from rt_ok_shutdown(1,3) [OF this tk_shutdown(4,6,7)] show ?thesis
      using tk_shutdown by (simp add: task_inv_def pending_wakes_def)
  next
    case tk_close
    then show ?thesis using rt_ok_close [OF ok] by (simp add: task_inv_def pending_wakes_def)
  qed
qed

interpretation tasks: bounded_system task_init task_step "\<lambda>_. 0" 0 task_inv
proof
  show "task_inv s" if "task_init s" for s :: "'v task_sys"
    using that
    by (auto simp: task_init_def task_inv_def rt_ok_def queues_ok_def pending_wakes_def runtime_new_def)
  show "task_inv t" if "task_inv s" "task_step s l t" for s t :: "'v task_sys" and l
    by (rule task_inv_step [OF that])
qed simp


definition keeps_terminal :: "'v runtime \<Rightarrow> 'v runtime \<Rightarrow> bool" where
  "keeps_terminal r r' \<longleftrightarrow>
     (\<forall>i u. store r i = Some u \<and> t_state u \<noteq> Running \<longrightarrow>
        (\<exists>u'. store r' i = Some u' \<and> t_state u' = t_state u))"

lemma keeps_terminal_refl [simp]: "keeps_terminal r r"
  by (simp add: keeps_terminal_def)






subsection \<open>A task woken from another thread while it is polled\<close>

definition tdemo_start :: "nat task_sys" where
  "tdemo_start = \<lparr>rt = runtime_new, polling = None, hopping = [], owner_waking = None, requested = {}, joined = {}\<rparr>"

definition tdemo_spawned :: "nat task_sys" where
  "tdemo_spawned = tdemo_start
     \<lparr>rt := runtime_new\<lparr>store := [1 \<mapsto> task_new\<lparr>t_queued := True\<rparr>], registry := {1}, next_task_id := 2,
        microtasks := [1], ready_tasks := 1, task_wakes := 1\<rparr>, requested := {1}\<rparr>"

definition tdemo_polled :: "nat task_sys" where
  "tdemo_polled = tdemo_start
     \<lparr>rt := runtime_new\<lparr>store := [1 \<mapsto> task_new\<lparr>t_future := False\<rparr>], registry := {1}, next_task_id := 2,
        microtasks := [], ready_tasks := 0, task_wakes := 1, task_polls := 1\<rparr>, polling := Some 1\<rparr>"

definition tdemo_woken :: "nat task_sys" where
  "tdemo_woken = tdemo_polled
     \<lparr>rt := (rt tdemo_polled)\<lparr>store := [1 \<mapsto> task_new\<lparr>t_future := False, t_scheduled := True\<rparr>]\<rparr>,
      hopping := [1], requested := {1}\<rparr>"

lemmas tdemo_defs = tdemo_start_def tdemo_spawned_def tdemo_polled_def tdemo_woken_def runtime_new_def task_new_def

lemma tdemo_init: "task_init tdemo_start"
  by (simp add: task_init_def tdemo_start_def)

lemma tdemo_run_spawned: "run task_step tdemo_start [[]] tdemo_spawned"
proof (rule run_single)
  have "queue_future (rt tdemo_start) = Some (rt tdemo_spawned, 1)"
    by (simp add: queue_future_def checked_add_def schedule_def modify_def tdemo_defs wrapping_succ_def u64_modulus_def)
  from tk_spawn [OF _ this] show "task_step tdemo_start [] tdemo_spawned" by (simp add: tdemo_defs)
qed

lemma tdemo_run: "run task_step tdemo_start [[], [], []] tdemo_woken"
proof -
  have "poll_begin 1 ((rt tdemo_spawned)\<lparr>microtasks := []\<rparr>) = (rt tdemo_polled, True)"
    by (simp add: poll_begin_def modify_def tdemo_defs wrapping_succ_def wrapping_pred_def u64_modulus_def)
  from tk_poll_begin [OF _ _ _ this] have 2: "task_step tdemo_spawned [] tdemo_polled" by (simp add: tdemo_defs)
  have "wake_swap 1 (rt tdemo_polled) = (rt tdemo_woken, False)"
    by (simp add: wake_swap_def modify_def tdemo_defs)
  from tk_remote_swap [OF this] have 3: "task_step tdemo_polled [] tdemo_woken" by (simp add: tdemo_defs)
  have "run task_step tdemo_spawned [[], []] tdemo_woken"
    by (rule run_Cons, rule 2, rule run_Cons, rule 3, rule run_Nil)
  from run_trans [OF this tdemo_run_spawned] show ?thesis by simp
qed

subsection \<open>Properties\<close>

text \<open>(C2) No wake-up of a task is lost and none is queued twice. Over every interleaving of the owner
  thread with wakes from other threads, a live task that was woken since its last poll began (also
  during that poll, also by a wake that found the coalescing flag set) is in the microtask queue or has
  a wake pending towards it; each task is at most once in the microtask queue and has at most one
  pending wake, so the capacity-exempt wakes are bounded by the number of tasks.\<close>

theorem task_wake_not_lost:
  assumes "task_init s" and "run task_step s ls t"
  shows "(store (rt t) i = Some u \<and> t_state u = Running \<and> i \<in> requested t \<and> \<not> closed (rt t) \<longrightarrow>
      i \<in> set (microtasks (rt t)) \<or> i \<in> set (pending_wakes t)) \<and>
    distinct (microtasks (rt t)) \<and> distinct (pending_wakes t) \<and>
    set (pending_wakes t) \<subseteq> dom (store (rt t))"
proof -
  have ok: "rt_ok (rt t) (polling t) (pending_wakes t) (requested t) (joined t)"
    using tasks.inv_reachable [OF assms] by (simp add: task_inv_def)
  have "i \<in> set (microtasks (rt t)) \<or> i \<in> set (pending_wakes t)"
    if "store (rt t) i = Some u" "t_state u = Running" "i \<in> requested t" "\<not> closed (rt t)"
    using task_okD(1,9,10) [OF rt_okD(2) [OF ok that(1)]] that(2-4) by blast
  then show ?thesis using rt_okD(1) [OF ok] by (auto simp: queues_ok_def)
qed

theorem task_wake_not_lost_witness:
  "1 \<in> set (microtasks (rt tdemo_woken)) \<or> 1 \<in> set (pending_wakes tdemo_woken)"
  using task_wake_not_lost [OF tdemo_init tdemo_run, of 1 "task_new\<lparr>t_future := False, t_scheduled := True\<rparr>"]
  by (simp add: tdemo_defs)

text \<open>The queue counts and polls what it should. The ready-task gauge is the length of the queue
  (modulo \<open>2 ^ 64\<close>, it never underflows), and dequeuing a task polls it exactly when it is still running:
  a task aborted or cancelled while queued is never polled again.\<close>

theorem task_poll_exact:
  assumes "task_init s" and "run task_step s ls t"
    and "polling t = None" and "microtasks (rt t) = i # q" and "poll_begin i ((rt t)\<lparr>microtasks := q\<rparr>) = (r, taken)"
  shows "ready_tasks (rt t) = length (microtasks (rt t)) mod u64_modulus \<and>
    ready_tasks r = length q mod u64_modulus \<and>
    (\<exists>u. store (rt t) i = Some u \<and> (taken \<longleftrightarrow> t_state u = Running))"
proof -
  have ok: "rt_ok (rt t) None (pending_wakes t) (requested t) (joined t)"
    using tasks.inv_reachable [OF assms(1,2)] assms(3) by (simp add: task_inv_def)
  obtain u where u: "store (rt t) i = Some u" using rt_okD(1) [OF ok] assms(4) by (auto simp: queues_ok_def)
  then have "taken = t_future u" using assms(5) by (auto simp: poll_begin_def Let_def)
  then have "taken \<longleftrightarrow> t_state u = Running" using task_okD(2,4) [OF rt_okD(2) [OF ok u]] by blast
  moreover have "ready_tasks r = length q mod u64_modulus"
    using rt_okD(1) [OF rt_ok_poll_begin(1) [OF ok assms(4,5)]] assms(5)
    by (auto simp: queues_ok_def poll_begin_def Let_def)
  ultimately show ?thesis using rt_okD(1) [OF ok] u by (auto simp: queues_ok_def)
qed

theorem task_poll_exact_witness:
  "\<exists>r taken. poll_begin 1 ((rt tdemo_spawned)\<lparr>microtasks := []\<rparr>) = (r, taken) \<and> taken \<and> ready_tasks r = 0"
proof -
  obtain r taken where e: "poll_begin 1 ((rt tdemo_spawned)\<lparr>microtasks := []\<rparr>) = (r, taken)" by (rule prod.exhaust)
  from task_poll_exact [OF tdemo_init tdemo_run_spawned _ _ this] have "taken \<and> ready_tasks r = 0"
    by (simp add: tdemo_defs)
  then show ?thesis using e by blast
qed



end
