(* ===== verification/Remote_Queue.thy ===== *)
theory Remote_Queue
  imports Transition
begin

text \<open>
  \<open>ThreadShared\<close> of \<open>src/platform/runtime_shared/state.rs\<close>: the bounded queue through which other threads hand
  macrotasks to a runtime thread, and the durable notification of that thread's driver. A notifier is
  platform code: \<open>ok k\<close> says whether the \<open>k\<close>-th attempt to notify succeeds. The queue is only read and
  written under its lock, so a section that holds it is one step as far as the queue is concerned;
  the notification counters and flags are atomics that the retry thread and the callers of \<open>notify\<close>
  also access, and every access of them is a step of its own.
\<close>

subsection \<open>State\<close>

datatype queue_error = QClosed | QFull

record 'c shared =
  remote_macrotasks :: "'c list"
  capacity :: nat
  warned_full :: bool
  remote_tasks_rejected :: nat
  pending_ops :: nat
  shared_closed :: bool
  notification_requested :: nat
  notification_delivered :: nat
  notification_retry_running :: bool

definition max_remote_queue_capacity :: nat where
  "max_remote_queue_capacity = 2 ^ 24"

definition default_remote_queue_capacity :: nat where
  "default_remote_queue_capacity = 65536"

text \<open>\<open>RemoteQueue::new\<close> within \<open>ThreadShared::with_remote_capacity\<close>, and the capacity read from the environment
  (\<open>None\<close> when the variable is unset or does not parse).\<close>

definition with_remote_capacity :: "nat \<Rightarrow> 'c shared" where
  "with_remote_capacity cap =
     \<lparr>remote_macrotasks = [], capacity = min (max cap 1) max_remote_queue_capacity, warned_full = False,
      remote_tasks_rejected = 0, pending_ops = 0, shared_closed = False, notification_requested = 0,
      notification_delivered = 0, notification_retry_running = False\<rparr>"

definition remote_queue_capacity :: "nat option \<Rightarrow> nat" where
  "remote_queue_capacity env =
     (case env of
        Some c \<Rightarrow> if 1 \<le> c then min c max_remote_queue_capacity else default_remote_queue_capacity
      | None \<Rightarrow> default_remote_queue_capacity)"

definition remote_queue_depth :: "'c shared \<Rightarrow> nat" where
  "remote_queue_depth s = length (remote_macrotasks s)"

subsection \<open>Operations\<close>

definition notify_attempts :: nat where
  "notify_attempts = 2"

text \<open>\<open>notify_with_retry\<close>, counting the attempts made so far: the next attempt to use and the success.\<close>

fun notify_from :: "nat \<Rightarrow> (nat \<Rightarrow> bool) \<Rightarrow> nat \<Rightarrow> nat \<times> bool" where
  "notify_from 0 ok k = (k, False)"
| "notify_from (Suc n) ok k = (if ok k then (Suc k, True) else notify_from n ok (Suc k))"

definition notify_with_retry :: "(nat \<Rightarrow> bool) \<Rightarrow> nat \<Rightarrow> nat \<times> bool" where
  "notify_with_retry ok k = notify_from notify_attempts ok k"

definition has_pending_notification :: "'c shared \<Rightarrow> bool" where
  "has_pending_notification s \<longleftrightarrow> notification_delivered s < notification_requested s"

text \<open>The refusals at the head of \<open>enqueue\<close>; \<open>None\<close> when the task may be pushed.\<close>

definition enqueue_refused :: "bool \<Rightarrow> 'c shared \<Rightarrow> ('c shared \<times> queue_error) option" where
  "enqueue_refused enforce_capacity s =
     (if shared_closed s then Some (s, QClosed)
      else if enforce_capacity \<and> capacity s \<le> length (remote_macrotasks s)
      then Some (s\<lparr>warned_full := True, remote_tasks_rejected := wrapping_succ (remote_tasks_rejected s)\<rparr>, QFull)
      else None)"

definition push_remote :: "'c \<Rightarrow> 'c shared \<Rightarrow> 'c shared" where
  "push_remote c s = s\<lparr>remote_macrotasks := remote_macrotasks s @ [c]\<rparr>"

text \<open>\<open>enqueue_macro\<close>: pushed, notified, and rolled back when no attempt succeeds.\<close>

definition enqueue_macro ::
  "(nat \<Rightarrow> bool) \<Rightarrow> 'c \<Rightarrow> 'c shared \<Rightarrow> 'c shared \<times> (queue_error, unit) result" where
  "enqueue_macro ok c s =
     (case enqueue_refused True s of
        Some (s, e) \<Rightarrow> (s, Err e)
      | None \<Rightarrow>
          (let s = push_remote c s in
           if snd (notify_with_retry ok 0) then (s, Ok ())
           else (s\<lparr>remote_macrotasks := butlast (remote_macrotasks s)\<rparr>, Err QFull)))"

text \<open>\<open>request_notification\<close> up to its first attempt: the generation it has to deliver.\<close>

definition next_generation :: "'c shared \<Rightarrow> ('c shared \<times> nat) panics" where
  "next_generation s =
     do {
       g \<leftarrow> checked_add (notification_requested s) 1;
       Some (s\<lparr>notification_requested := g\<rparr>, g)
     }"

text \<open>\<open>enqueue_internal_wake\<close> up to the same point; the rest is \<open>request_notification\<close>'s.\<close>

definition enqueue_internal_wake ::
  "'c \<Rightarrow> 'c shared \<Rightarrow> ('c shared \<times> (queue_error, nat) result) panics" where
  "enqueue_internal_wake c s =
     (case enqueue_refused False s of
        Some (s, e) \<Rightarrow> Some (s, Err e)
      | None \<Rightarrow> do { (s, g) \<leftarrow> next_generation (push_remote c s); Some (s, Ok g) })"

definition deliver :: "nat \<Rightarrow> 'c shared \<Rightarrow> 'c shared" where
  "deliver g s = s\<lparr>notification_delivered := max (notification_delivered s) g\<rparr>"

definition close :: "'c shared \<Rightarrow> 'c shared \<times> 'c list" where
  "close s =
     (s\<lparr>shared_closed := True, notification_delivered := notification_requested s, remote_macrotasks := []\<rparr>,
      remote_macrotasks s)"

definition take_remote :: "'c shared \<Rightarrow> 'c shared \<times> 'c list" where
  "take_remote s = (s\<lparr>remote_macrotasks := []\<rparr>, remote_macrotasks s)"

text \<open>\<open>ThreadHandle::begin_async_operation\<close> and \<open>finish_async_operation\<close> on the count of operations in flight.\<close>

definition begin_async_operation :: "'c shared \<Rightarrow> 'c shared" where
  "begin_async_operation s = s\<lparr>pending_ops := wrapping_succ (pending_ops s)\<rparr>"

definition finish_async_operation :: "'c shared \<Rightarrow> 'c shared" where
  "finish_async_operation s = s\<lparr>pending_ops := wrapping_pred (pending_ops s)\<rparr>"

subsection \<open>The retry loop on its own\<close>

text \<open>\<open>notification_retry_loop\<close> with nobody interfering: the attempts used so far, the current delay and the
  sleeps taken, in milliseconds. \<open>None\<close> is a loop that never ends.\<close>

partial_function (option) retry_while ::
  "(nat \<Rightarrow> bool) \<Rightarrow> nat \<Rightarrow> nat \<Rightarrow> nat list \<Rightarrow> 'c shared \<Rightarrow> ('c shared \<times> nat \<times> nat list) option" where
  "retry_while ok k delay slept s =
     (if shared_closed s \<or> \<not> has_pending_notification s then Some (s, k, slept)
      else if snd (notify_with_retry ok k)
      then retry_while ok (fst (notify_with_retry ok k)) 1 slept (deliver (notification_requested s) s)
      else retry_while ok (fst (notify_with_retry ok k)) (min (delay * 2) 50) (slept @ [delay]) s)"

partial_function (option) notification_retry_loop ::
  "(nat \<Rightarrow> bool) \<Rightarrow> nat \<Rightarrow> nat list \<Rightarrow> 'c shared \<Rightarrow> ('c shared \<times> nat \<times> nat list) option" where
  "notification_retry_loop ok k slept s =
     Option.bind (retry_while ok k 1 slept s)
       (\<lambda>(s, k, slept).
          if shared_closed s \<or> \<not> has_pending_notification s
          then Some (s\<lparr>notification_retry_running := False\<rparr>, k, slept)
          else notification_retry_loop ok k slept s)"

subsection \<open>Interleavings\<close>

text \<open>Where a thread is in \<open>request_notification\<close>, \<open>start_notification_retry\<close> or \<open>notification_retry_loop\<close>; a
  \<open>has_pending_notification\<close> is two loads, the first of which is remembered.\<close>

datatype npc =
    ReqCheck                 \<comment> \<open>\<open>notify\<close> and \<open>request_notification\<close>: the load of \<open>closed\<close>\<close>
  | ReqGeneration
  | ReqNotify nat            \<comment> \<open>about to notify for a generation\<close>
  | ReqDeliver nat           \<comment> \<open>notified, about to record the generation\<close>
  | ReqLoad
  | ReqPending nat
  | StartCheck               \<comment> \<open>\<open>start_notification_retry\<close>\<close>
  | StartLoad
  | StartPending nat
  | StartSwap
  | StartSpawn               \<comment> \<open>the flag is set, about to spawn\<close>
  | LoopCheck                \<comment> \<open>\<open>notification_retry_loop\<close>\<close>
  | LoopLoad
  | LoopPending nat
  | LoopGeneration
  | LoopNotify nat
  | LoopDeliver nat
  | LoopStop                 \<comment> \<open>about to clear the flag\<close>
  | LastCheck
  | LastLoad
  | LastPending nat
  | LastSwap

text \<open>\<open>lock\<close> is the thread holding the queue's lock across steps, \<open>signalled\<close> the driver's pending wake-up, \<open>draining\<close>
  says that the owner has consumed the wake-up and not yet taken the queue, \<open>spawn_failed\<close> that a
  retry thread could not be started (the source panics).\<close>

record 'c remote_sys =
  shr :: "'c shared"
  threads :: "nat \<rightharpoonup> npc"
  lock :: "nat option"
  signalled :: bool
  draining :: bool
  spawn_failed :: bool

definition goto :: "nat \<Rightarrow> npc \<Rightarrow> 'c remote_sys \<Rightarrow> 'c remote_sys" where
  "goto t pc s = s\<lparr>threads := (threads s)(t \<mapsto> pc)\<rparr>"

definition leave :: "nat \<Rightarrow> 'c remote_sys \<Rightarrow> 'c remote_sys" where
  "leave t s =
     s\<lparr>threads := (threads s)(t := None), lock := (if lock s = Some t then None else lock s)\<rparr>"

definition at :: "'c remote_sys \<Rightarrow> nat \<Rightarrow> npc \<Rightarrow> bool" where
  "at s t pc \<longleftrightarrow> threads s t = Some pc"

inductive remote_step :: "'c remote_sys \<Rightarrow> 'c list \<Rightarrow> 'c remote_sys \<Rightarrow> bool" where
  rs_enqueue_macro:
    "lock s = None \<Longrightarrow> enqueue_macro ok c (shr s) = (h, r) \<Longrightarrow>
     remote_step s [] (s\<lparr>shr := h,
       signalled := (signalled s \<or> enqueue_refused True (shr s) = None \<and> snd (notify_with_retry ok 0))\<rparr>)"
| rs_wake_refused:
    "lock s = None \<Longrightarrow> enqueue_internal_wake c (shr s) = Some (h, Inl e) \<Longrightarrow> remote_step s [] (s\<lparr>shr := h\<rparr>)"
| rs_wake:
    "lock s = None \<Longrightarrow> threads s t = None \<Longrightarrow> enqueue_internal_wake c (shr s) = Some (h, Inr g) \<Longrightarrow>
     remote_step s [] (goto t (ReqNotify g) (s\<lparr>shr := h, lock := Some t\<rparr>))"
| rs_notify: "threads s t = None \<Longrightarrow> remote_step s [] (goto t ReqCheck s)"
| rs_req_check:
    "at s t ReqCheck \<Longrightarrow> remote_step s [] (if shared_closed (shr s) then leave t s else goto t ReqGeneration s)"
| rs_req_generation:
    "at s t ReqGeneration \<Longrightarrow> next_generation (shr s) = Some (h, g) \<Longrightarrow>
     remote_step s [] (goto t (ReqNotify g) (s\<lparr>shr := h\<rparr>))"
| rs_req_notify:
    "at s t (ReqNotify g) \<Longrightarrow> notify_with_retry ok 0 = (k, b) \<Longrightarrow>
     remote_step s [] (goto t (if b then ReqDeliver g else StartCheck) (s\<lparr>signalled := (signalled s \<or> b)\<rparr>))"
| rs_req_deliver: "at s t (ReqDeliver g) \<Longrightarrow> remote_step s [] (goto t ReqLoad (s\<lparr>shr := deliver g (shr s)\<rparr>))"
| rs_req_load:
    "at s t ReqLoad \<Longrightarrow> remote_step s [] (goto t (ReqPending (notification_delivered (shr s))) s)"
| rs_req_pending:
    "at s t (ReqPending d) \<Longrightarrow>
     remote_step s [] (if d < notification_requested (shr s) then goto t StartCheck s else leave t s)"
| rs_start_check:
    "at s t StartCheck \<Longrightarrow> remote_step s [] (if shared_closed (shr s) then leave t s else goto t StartLoad s)"
| rs_start_load:
    "at s t StartLoad \<Longrightarrow> remote_step s [] (goto t (StartPending (notification_delivered (shr s))) s)"
| rs_start_pending:
    "at s t (StartPending d) \<Longrightarrow>
     remote_step s [] (if d < notification_requested (shr s) then goto t StartSwap s else leave t s)"
| rs_start_swap:
    "at s t StartSwap \<Longrightarrow>
     remote_step s []
       (let s' = s\<lparr>shr := (shr s)\<lparr>notification_retry_running := True\<rparr>\<rparr>
        in if notification_retry_running (shr s) then leave t s' else goto t StartSpawn s')"
| rs_start_spawn:
    "at s t StartSpawn \<Longrightarrow> threads s u = None \<Longrightarrow> remote_step s [] (leave t (goto u LoopCheck s))"
| rs_start_spawn_failed:
    "at s t StartSpawn \<Longrightarrow>
     remote_step s [] (leave t (s\<lparr>shr := (shr s)\<lparr>notification_retry_running := False\<rparr>, spawn_failed := True\<rparr>))"
| rs_loop_check:
    "at s t LoopCheck \<Longrightarrow> remote_step s [] (goto t (if shared_closed (shr s) then LoopStop else LoopLoad) s)"
| rs_loop_load:
    "at s t LoopLoad \<Longrightarrow> remote_step s [] (goto t (LoopPending (notification_delivered (shr s))) s)"
| rs_loop_pending:
    "at s t (LoopPending d) \<Longrightarrow>
     remote_step s [] (goto t (if d < notification_requested (shr s) then LoopGeneration else LoopStop) s)"
| rs_loop_generation:
    "at s t LoopGeneration \<Longrightarrow> remote_step s [] (goto t (LoopNotify (notification_requested (shr s))) s)"
| rs_loop_notify:
    "at s t (LoopNotify g) \<Longrightarrow> notify_with_retry ok 0 = (k, b) \<Longrightarrow>
     remote_step s [] (goto t (if b then LoopDeliver g else LoopCheck) (s\<lparr>signalled := (signalled s \<or> b)\<rparr>))"
| rs_loop_deliver: "at s t (LoopDeliver g) \<Longrightarrow> remote_step s [] (goto t LoopCheck (s\<lparr>shr := deliver g (shr s)\<rparr>))"
| rs_loop_stop:
    "at s t LoopStop \<Longrightarrow>
     remote_step s [] (goto t LastCheck (s\<lparr>shr := (shr s)\<lparr>notification_retry_running := False\<rparr>\<rparr>))"
| rs_last_check:
    "at s t LastCheck \<Longrightarrow> remote_step s [] (if shared_closed (shr s) then leave t s else goto t LastLoad s)"
| rs_last_load:
    "at s t LastLoad \<Longrightarrow> remote_step s [] (goto t (LastPending (notification_delivered (shr s))) s)"
| rs_last_pending:
    "at s t (LastPending d) \<Longrightarrow>
     remote_step s [] (if d < notification_requested (shr s) then goto t LastSwap s else leave t s)"
| rs_last_swap:
    "at s t LastSwap \<Longrightarrow>
     remote_step s []
       (if notification_retry_running (shr s) then leave t s
        else goto t LoopCheck (s\<lparr>shr := (shr s)\<lparr>notification_retry_running := True\<rparr>\<rparr>))"
| rs_drain_wake: "remote_step s [] (s\<lparr>signalled := False, draining := True\<rparr>)"
| rs_drain_remote:
    "lock s = None \<Longrightarrow> take_remote (shr s) = (h, cs) \<Longrightarrow> remote_step s cs (s\<lparr>shr := h, draining := False\<rparr>)"
| rs_close: "lock s = None \<Longrightarrow> close (shr s) = (h, cs) \<Longrightarrow> remote_step s [] (s\<lparr>shr := h\<rparr>)"

inductive_cases remote_stepE: "remote_step s l t"

subsection \<open>Invariant\<close>

fun holder :: "npc \<Rightarrow> bool" where
  "holder StartSpawn = True" | "holder LoopCheck = True" | "holder LoopLoad = True"
| "holder (LoopPending _) = True" | "holder LoopGeneration = True" | "holder (LoopNotify _) = True"
| "holder (LoopDeliver _) = True" | "holder LoopStop = True" | "holder _ = False"

fun active :: "npc \<Rightarrow> bool" where
  "active ReqCheck = False" | "active ReqGeneration = False" | "active _ = True"

fun posted :: "npc \<Rightarrow> nat option" where
  "posted (ReqDeliver g) = Some g" | "posted (LoopDeliver g) = Some g" | "posted _ = None"

fun pc_ok :: "'c shared \<Rightarrow> npc \<Rightarrow> bool" where
  "pc_ok h (ReqNotify g) \<longleftrightarrow> g \<le> notification_requested h"
| "pc_ok h (ReqDeliver g) \<longleftrightarrow> g \<le> notification_requested h"
| "pc_ok h (LoopNotify g) \<longleftrightarrow> g \<le> notification_requested h"
| "pc_ok h (LoopDeliver g) \<longleftrightarrow> g \<le> notification_requested h"
| "pc_ok h (ReqPending d) \<longleftrightarrow> shared_closed h \<or> d \<le> notification_delivered h"
| "pc_ok h (StartPending d) \<longleftrightarrow> shared_closed h \<or> d \<le> notification_delivered h"
| "pc_ok h (LoopPending d) \<longleftrightarrow> shared_closed h \<or> d \<le> notification_delivered h"
| "pc_ok h (LastPending d) \<longleftrightarrow> shared_closed h \<or> d \<le> notification_delivered h"
| "pc_ok h _ \<longleftrightarrow> True"

text \<open>Work that nobody has signalled the driver for.\<close>

definition unsignalled :: "'c remote_sys \<Rightarrow> bool" where
  "unsignalled s \<longleftrightarrow> \<not> shared_closed (shr s) \<and> remote_macrotasks (shr s) \<noteq> [] \<and> \<not> signalled s \<and> \<not> draining s"

definition some_thread :: "(npc \<Rightarrow> bool) \<Rightarrow> 'c remote_sys \<Rightarrow> bool" where
  "some_thread P s \<longleftrightarrow> (\<exists>t pc. threads s t = Some pc \<and> P pc)"

definition all_threads :: "(npc \<Rightarrow> bool) \<Rightarrow> 'c remote_sys \<Rightarrow> bool" where
  "all_threads P s \<longleftrightarrow> (\<forall>t pc. threads s t = Some pc \<longrightarrow> P pc)"

definition remote_inv :: "'c remote_sys \<Rightarrow> bool" where
  "remote_inv s \<longleftrightarrow>
     notification_delivered (shr s) \<le> notification_requested (shr s) \<and>
     (notification_retry_running (shr s) \<longrightarrow> some_thread holder s) \<and>
     all_threads (pc_ok (shr s)) s \<and>
     (\<not> shared_closed (shr s) \<and> has_pending_notification (shr s) \<and> \<not> spawn_failed s \<longrightarrow> some_thread active s) \<and>
     (unsignalled s \<longrightarrow> has_pending_notification (shr s) \<and>
        all_threads (\<lambda>pc. \<forall>g. posted pc = Some g \<longrightarrow> g < notification_requested (shr s)) s)"

lemma holder_active: "holder pc \<Longrightarrow> active pc"
  by (cases pc) auto

lemma some_thread_holder: "some_thread holder s \<Longrightarrow> some_thread active s"
  by (auto simp: some_thread_def intro: holder_active)

lemma some_thread_goto [simp]:
  "P pc' \<Longrightarrow> some_thread P (goto t pc' s)"
  by (auto simp: some_thread_def goto_def)

lemma some_thread_goto_keep:
  "some_thread P s \<Longrightarrow> (\<And>pc. threads s t = Some pc \<Longrightarrow> P pc \<Longrightarrow> P pc') \<Longrightarrow> some_thread P (goto t pc' s)"
  unfolding some_thread_def goto_def by (simp (no_asm)) metis

lemma some_thread_leave_keep:
  "some_thread P s \<Longrightarrow> threads s t = Some pc \<Longrightarrow> \<not> P pc \<Longrightarrow> some_thread P (leave t s)"
  unfolding some_thread_def leave_def by (simp (no_asm)) (metis option.inject)

lemma all_threads_goto: "all_threads P s \<Longrightarrow> P pc' \<Longrightarrow> all_threads P (goto t pc' s)"
  by (auto simp: all_threads_def goto_def)

lemma all_threads_leave: "all_threads P s \<Longrightarrow> all_threads P (leave t s)"
  by (auto simp: all_threads_def leave_def)

lemma all_threads_mono: "all_threads P s \<Longrightarrow> (\<And>pc. P pc \<Longrightarrow> Q pc) \<Longrightarrow> all_threads Q s"
  by (auto simp: all_threads_def)

lemma goto_sels [simp]:
  "shr (goto t pc s) = shr s" "signalled (goto t pc s) = signalled s" "draining (goto t pc s) = draining s"
  "spawn_failed (goto t pc s) = spawn_failed s" "threads (goto t pc s) = (threads s)(t \<mapsto> pc)"
  "shr (leave t s) = shr s" "signalled (leave t s) = signalled s" "draining (leave t s) = draining s"
  "spawn_failed (leave t s) = spawn_failed s" "threads (leave t s) = (threads s)(t := None)"
  by (simp_all add: goto_def leave_def)

lemma unsignalled_goto [simp]: "unsignalled (goto t pc s) = unsignalled s" "unsignalled (leave t s) = unsignalled s"
  by (simp_all add: unsignalled_def)

text \<open>A thread that moves on or leaves without touching the shared state.\<close>

lemma inv_goto:
  assumes "remote_inv s" and "pc_ok (shr s) pc'"
    and "\<And>pc. threads s t = Some pc \<Longrightarrow> (holder pc \<longrightarrow> holder pc') \<and> (active pc \<longrightarrow> active pc')"
    and "\<And>g. posted pc' = Some g \<Longrightarrow> \<not> unsignalled s"
  shows "remote_inv (goto t pc' s)"
  using assms unfolding remote_inv_def
  by (auto intro!: some_thread_goto_keep all_threads_goto simp del: some_thread_goto)

lemma inv_leave:
  assumes "remote_inv s" and "threads s t = Some pc" and "\<not> holder pc"
    and "shared_closed (shr s) \<or> \<not> has_pending_notification (shr s) \<or> notification_retry_running (shr s)"
  shows "remote_inv (leave t s)"
proof -
  have h: "notification_retry_running (shr s) \<Longrightarrow> some_thread holder (leave t s)"
    using assms(1-3) by (auto simp: remote_inv_def intro: some_thread_leave_keep)
  then show ?thesis
    using assms(1,4) unfolding remote_inv_def
    by (auto intro: all_threads_leave dest: some_thread_holder)
qed

text \<open>The steps that change the shared counters and flags. Where only the queue, the capacity bookkeeping or
  the signal changes, the invariant needs the new state to have no more unsignalled work.\<close>

lemma inv_quiet:
  assumes "remote_inv s" and "threads s' = threads s" and "spawn_failed s' = spawn_failed s"
    and "notification_requested (shr s') = notification_requested (shr s)"
    and "notification_delivered (shr s') = notification_delivered (shr s)"
    and "notification_retry_running (shr s') = notification_retry_running (shr s)"
    and "shared_closed (shr s') = shared_closed (shr s)"
    and "unsignalled s' \<Longrightarrow> unsignalled s"
  shows "remote_inv s'"
proof -
  have "pc_ok (shr s') pc = pc_ok (shr s) pc" for pc using assms by (cases pc) auto
  then have "all_threads (pc_ok (shr s')) s' = all_threads (pc_ok (shr s)) s"
    by (simp add: all_threads_def assms(2))
  moreover have "some_thread P s' = some_thread P s" "all_threads P s' = all_threads P s" for P
    by (simp_all add: some_thread_def all_threads_def assms(2))
  moreover have "has_pending_notification (shr s') = has_pending_notification (shr s)"
    by (simp add: has_pending_notification_def assms(4,5))
  ultimately show ?thesis using assms(1,3-8) unfolding remote_inv_def by simp
qed

lemma pc_ok_mono:
  assumes "pc_ok h pc" and "notification_requested h \<le> notification_requested h'"
    and "shared_closed h \<Longrightarrow> shared_closed h'"
    and "\<not> shared_closed h' \<Longrightarrow> notification_delivered h \<le> notification_delivered h'"
  shows "pc_ok h' pc"
  using assms by (cases pc) fastforce+

lemma all_threads_pc_ok:
  assumes "all_threads (pc_ok (shr s)) s" and "threads s' = threads s"
    and "notification_requested (shr s) \<le> notification_requested (shr s')"
    and "shared_closed (shr s) \<Longrightarrow> shared_closed (shr s')"
    and "\<not> shared_closed (shr s') \<Longrightarrow> notification_delivered (shr s) \<le> notification_delivered (shr s')"
  shows "all_threads (pc_ok (shr s')) s'"
  using assms(1) unfolding all_threads_def assms(2) by (blast intro: pc_ok_mono [OF _ assms(3-5)])

text \<open>A new generation makes the request pending, and its thread is there to deliver it.\<close>

lemma posted_le: "pc_ok h pc \<Longrightarrow> posted pc = Some g \<Longrightarrow> g \<le> notification_requested h"
  by (cases pc) auto

lemma inv_generation:
  assumes "remote_inv s" and "next_generation (push (shr s)) = Some (h, g)"
    and "threads s t = None \<or> (\<exists>pc. threads s t = Some pc \<and> \<not> holder pc)"
    and push: "\<And>x. notification_requested (push x) = notification_requested x"
      "\<And>x. notification_delivered (push x) = notification_delivered x"
      "\<And>x. notification_retry_running (push x) = notification_retry_running x"
      "\<And>x. shared_closed (push x) = shared_closed x"
  shows "remote_inv (goto t (ReqNotify g) (s\<lparr>shr := h, lock := l\<rparr>))"
proof -
  from assms(2) have h: "h = (push (shr s))\<lparr>notification_requested := g\<rparr>" "g = Suc (notification_requested (shr s))"
    by (auto simp: next_generation_def bind_eq_Some_conv checked_add_def push split: if_splits)
  let ?s = "s\<lparr>shr := h, lock := l\<rparr>"
  have ok: "all_threads (pc_ok (shr s)) s" and d: "notification_delivered (shr s) < g"
    using assms(1) by (auto simp: remote_inv_def h)
  have "all_threads (pc_ok h) ?s"
    using all_threads_pc_ok [OF ok, of ?s] by (simp add: h push)
  then have ok': "all_threads (pc_ok h) (goto t (ReqNotify g) ?s)"
    by (rule all_threads_goto) (simp add: h push)
  have "all_threads (\<lambda>pc. \<forall>k. posted pc = Some k \<longrightarrow> k < g) s"
    using ok by (rule all_threads_mono) (use posted_le h(2) in fastforce)
  then have "all_threads (\<lambda>pc. \<forall>k. posted pc = Some k \<longrightarrow> k < g) ?s" by (simp add: all_threads_def)
  then have posted: "all_threads (\<lambda>pc. \<forall>k. posted pc = Some k \<longrightarrow> k < g) (goto t (ReqNotify g) ?s)"
    by (rule all_threads_goto) simp
  have "some_thread holder ?s = some_thread holder s" by (simp add: some_thread_def)
  then have "notification_retry_running (shr s) \<Longrightarrow> some_thread holder (goto t (ReqNotify g) ?s)"
    using assms(1,3) by (intro some_thread_goto_keep) (auto simp: remote_inv_def)
  then show ?thesis
    using ok' posted d unfolding remote_inv_def by (simp add: h push has_pending_notification_def)
qed

lemma inv_deliver:
  assumes "remote_inv s" and "threads s t = Some pc" and "posted pc = Some g"
    and "holder pc \<longrightarrow> holder pc'" and "active pc'" and "posted pc' = None" and "pc_ok (deliver g (shr s)) pc'"
  shows "remote_inv (goto t pc' (s\<lparr>shr := deliver g (shr s)\<rparr>))"
proof -
  let ?s = "s\<lparr>shr := deliver g (shr s)\<rparr>"
  have ok: "all_threads (pc_ok (shr s)) s" using assms(1) by (simp add: remote_inv_def)
  then have "pc_ok (shr s) pc" using assms(2) by (auto simp: all_threads_def)
  then have g: "g \<le> notification_requested (shr s)" using assms(3) by (rule posted_le)
  have "all_threads (pc_ok (deliver g (shr s))) ?s"
    using all_threads_pc_ok [OF ok, of ?s] by (simp add: deliver_def)
  then have "all_threads (pc_ok (deliver g (shr s))) (goto t pc' ?s)"
    by (rule all_threads_goto) (rule assms(7))
  moreover have u: "unsignalled ?s = unsignalled s" by (simp add: unsignalled_def deliver_def)
  moreover have "has_pending_notification (deliver g (shr s))" if "unsignalled s"
    using that assms(1-3) by (auto simp: remote_inv_def has_pending_notification_def deliver_def all_threads_def)
  moreover have "all_threads (\<lambda>pc. \<forall>k. posted pc = Some k \<longrightarrow> k < notification_requested (shr s)) (goto t pc' ?s)"
    if "unsignalled s"
    by (rule all_threads_goto) (use that assms(1,6) in \<open>auto simp: remote_inv_def all_threads_def\<close>)
  moreover have "some_thread holder (goto t pc' ?s)" if "notification_retry_running (shr s)"
    by (rule some_thread_goto_keep) (use that assms(1,2,4) in \<open>auto simp: remote_inv_def some_thread_def\<close>)
  ultimately show ?thesis
    using assms(1,5) g unfolding remote_inv_def by (simp add: deliver_def)
qed

lemma inv_clear_running:
  assumes "remote_inv s"
  shows "remote_inv (s\<lparr>shr := (shr s)\<lparr>notification_retry_running := False\<rparr>\<rparr>)"
proof -
  let ?s = "s\<lparr>shr := (shr s)\<lparr>notification_retry_running := False\<rparr>\<rparr>"
  have "all_threads (pc_ok (shr ?s)) ?s"
    using assms all_threads_pc_ok [of s ?s] by (simp add: remote_inv_def)
  moreover have "some_thread P ?s = some_thread P s" "all_threads P ?s = all_threads P s" for P
    by (simp_all add: some_thread_def all_threads_def)
  moreover have "unsignalled ?s = unsignalled s" by (simp add: unsignalled_def)
  ultimately show ?thesis using assms by (simp add: remote_inv_def has_pending_notification_def)
qed

lemma inv_set_running:
  assumes "remote_inv (goto t pc s)" and "holder pc"
  shows "remote_inv (goto t pc (s\<lparr>shr := (shr s)\<lparr>notification_retry_running := True\<rparr>\<rparr>))"
proof -
  let ?s = "s\<lparr>shr := (shr s)\<lparr>notification_retry_running := True\<rparr>\<rparr>"
  have "all_threads (pc_ok (shr ?s)) (goto t pc ?s)"
    using assms all_threads_pc_ok [of "goto t pc s" "goto t pc ?s"] by (simp add: remote_inv_def)
  moreover have "all_threads P (goto t pc ?s) = all_threads P (goto t pc s)" for P
    by (simp add: all_threads_def)
  moreover have "unsignalled ?s = unsignalled s" by (simp add: unsignalled_def)
  ultimately show ?thesis
    using assms holder_active by (simp add: remote_inv_def has_pending_notification_def)
qed

lemma inv_signal: "remote_inv s \<Longrightarrow> (signalled s \<Longrightarrow> b) \<Longrightarrow> remote_inv (s\<lparr>signalled := b\<rparr>)"
  by (erule inv_quiet) (auto simp: unsignalled_def)

lemma inv_notified:
  assumes "remote_inv s" and "threads s t = Some pc"
    and "holder pc \<longrightarrow> holder pc'" and "active pc'" and "pc_ok (shr s) pc \<Longrightarrow> pc_ok (shr s) pc'"
    and "\<not> b \<Longrightarrow> posted pc' = None"
  shows "remote_inv (goto t pc' (s\<lparr>signalled := (signalled s \<or> b)\<rparr>))"
proof (rule inv_goto)
  show "remote_inv (s\<lparr>signalled := (signalled s \<or> b)\<rparr>)" using assms(1) by (rule inv_signal) simp
  have "pc_ok (shr s) pc" using assms(1,2) by (auto simp: remote_inv_def all_threads_def)
  then show "pc_ok (shr (s\<lparr>signalled := signalled s \<or> b\<rparr>)) pc'" using assms(5) by simp
  show "posted pc' = Some g \<Longrightarrow> \<not> unsignalled (s\<lparr>signalled := signalled s \<or> b\<rparr>)" for g
    using assms(6) by (auto simp: unsignalled_def)
qed (use assms in auto)

subsection \<open>Every step keeps the invariant\<close>

definition remote_init :: "'c remote_sys \<Rightarrow> bool" where
  "remote_init s \<longleftrightarrow>
     (\<exists>cap. s = \<lparr>shr = with_remote_capacity cap, threads = Map.empty, lock = None, signalled = False,
                draining = False, spawn_failed = False\<rparr>)"

lemma enqueue_macro_cases:
  assumes "enqueue_macro ok c s = (h, r)"
  obtains "enqueue_refused True s = Some (h, QClosed)" "shared_closed s" "h = s" "r = Inl QClosed"
  | "enqueue_refused True s = Some (h, QFull)" "\<not> shared_closed s" "capacity s \<le> length (remote_macrotasks s)"
    "h = s\<lparr>warned_full := True, remote_tasks_rejected := wrapping_succ (remote_tasks_rejected s)\<rparr>" "r = Inl QFull"
  | "enqueue_refused True s = None" "\<not> shared_closed s" "length (remote_macrotasks s) < capacity s"
    "snd (notify_with_retry ok 0)" "h = push_remote c s" "r = Inr ()"
  | "enqueue_refused True s = None" "\<not> shared_closed s" "length (remote_macrotasks s) < capacity s"
    "\<not> snd (notify_with_retry ok 0)" "h = s" "r = Inl QFull"
proof -
  consider (closed) "shared_closed s" | (full) "\<not> shared_closed s" "capacity s \<le> length (remote_macrotasks s)"
    | (ok) "\<not> shared_closed s" "length (remote_macrotasks s) < capacity s" "snd (notify_with_retry ok 0)"
    | (fail) "\<not> shared_closed s" "length (remote_macrotasks s) < capacity s" "\<not> snd (notify_with_retry ok 0)"
    by linarith
  then show ?thesis
    by cases (rule that; use assms in \<open>auto simp: enqueue_macro_def enqueue_refused_def push_remote_def Let_def\<close>)+
qed

lemma inv_enqueue_macro:
  assumes "remote_inv s" and "enqueue_macro ok c (shr s) = (h, r)"
  shows "remote_inv (s\<lparr>shr := h,
    signalled := (signalled s \<or> enqueue_refused True (shr s) = None \<and> snd (notify_with_retry ok 0))\<rparr>)"
  using assms(2) by (cases rule: enqueue_macro_cases)
    (use assms(1) in \<open>auto intro!: inv_quiet [OF assms(1)] simp: unsignalled_def push_remote_def\<close>)

lemma inv_wake:
  assumes "remote_inv s" and "threads s t = None" and "enqueue_internal_wake c (shr s) = Some (h, Inr g)"
  shows "remote_inv (goto t (ReqNotify g) (s\<lparr>shr := h, lock := Some t\<rparr>))"
proof -
  have "next_generation (push_remote c (shr s)) = Some (h, g)"
    using assms(3) by (auto simp: enqueue_internal_wake_def bind_eq_Some_conv split: option.splits)
  then show ?thesis
    using assms by (intro inv_generation [where push = "push_remote c"]) (auto simp: push_remote_def)
qed

lemma remote_inv_close:
  assumes "remote_inv s" and "close (shr s) = (h, cs)"
  shows "remote_inv (s\<lparr>shr := h\<rparr>)"
proof -
  let ?s = "s\<lparr>shr := h\<rparr>"
  have h: "h = (shr s)\<lparr>shared_closed := True, notification_delivered := notification_requested (shr s),
                      remote_macrotasks := []\<rparr>"
    using assms(2) by (simp add: close_def)
  have "all_threads (pc_ok (shr ?s)) ?s"
    using assms all_threads_pc_ok [of s ?s] by (simp add: remote_inv_def h)
  moreover have "some_thread P ?s = some_thread P s" for P by (simp add: some_thread_def)
  ultimately show ?thesis
    using assms(1) by (simp add: remote_inv_def has_pending_notification_def unsignalled_def h)
qed

text \<open>A comparison that finds nothing pending is right at the time of its second load.\<close>

lemma pending_exact:
  assumes "remote_inv s" and "\<not> d < notification_requested (shr s)" and "has_pending_notification (shr s)"
  shows "threads s t = Some (ReqPending d) \<Longrightarrow> shared_closed (shr s)"
    "threads s t = Some (StartPending d) \<Longrightarrow> shared_closed (shr s)"
    "threads s t = Some (LastPending d) \<Longrightarrow> shared_closed (shr s)"
  using assms by (fastforce simp: remote_inv_def all_threads_def has_pending_notification_def)+

lemma remote_inv_step:
  assumes "remote_inv s" and "remote_step s l u"
  shows "remote_inv u"
  using assms(2)
proof cases
  case (rs_enqueue_macro ok c h r)
  with inv_enqueue_macro [OF assms(1)] show ?thesis by blast
next
  case (rs_wake_refused c h e)
  then have "h = shr s"
    by (auto simp: enqueue_internal_wake_def enqueue_refused_def bind_eq_Some_conv split: option.splits if_splits)
  with rs_wake_refused show ?thesis by (auto intro: inv_quiet [OF assms(1)] simp: unsignalled_def)
next
  case (rs_wake t c h g)
  with inv_wake [OF assms(1)] show ?thesis by blast
next
  case (rs_req_generation t h g)
  have "remote_inv (goto t (ReqNotify g) (s\<lparr>shr := h, lock := lock s\<rparr>))"
    by (rule inv_generation [OF assms(1), where push = id]) (use rs_req_generation in \<open>auto simp: at_def\<close>)
  with rs_req_generation show ?thesis by simp
next
  case (rs_req_notify t g ok k b)
  then show ?thesis
    using inv_notified [OF assms(1), of t "ReqNotify g" "if b then ReqDeliver g else StartCheck" b] by (auto simp: at_def)
next
  case (rs_req_deliver t g)
  then show ?thesis using inv_deliver [OF assms(1), of t "ReqDeliver g" g ReqLoad] by (simp add: at_def)
next
  case (rs_start_swap t)
  show ?thesis
  proof (cases "notification_retry_running (shr s)")
    case True
    then have "(shr s)\<lparr>notification_retry_running := True\<rparr> = shr s" by simp
    then have e: "s\<lparr>shr := (shr s)\<lparr>notification_retry_running := True\<rparr>\<rparr> = s" by simp
    have "u = leave t s" using rs_start_swap True by (simp add: Let_def e)
    moreover have "remote_inv (leave t s)"
      by (rule inv_leave [OF assms(1), of t StartSwap]) (use rs_start_swap True in \<open>simp_all add: at_def\<close>)
    ultimately show ?thesis by simp
  next
    case False
    have "remote_inv (goto t StartSpawn s)"
      by (rule inv_goto [OF assms(1)]) (use rs_start_swap in \<open>auto simp: at_def\<close>)
    with rs_start_swap False show ?thesis using inv_set_running [of t StartSpawn s] by (simp add: Let_def)
  qed
next
  case (rs_start_spawn t v)
  let ?s = "goto v LoopCheck s"
  have "remote_inv ?s" by (rule inv_goto [OF assms(1)]) (use rs_start_spawn in simp_all)
  moreover have "some_thread holder (leave t ?s)"
    unfolding some_thread_def by (rule exI [of _ v]) (use rs_start_spawn in \<open>auto simp: at_def\<close>)
  ultimately show ?thesis
    using rs_start_spawn unfolding remote_inv_def by (auto intro: all_threads_leave some_thread_holder)
next
  case (rs_start_spawn_failed t)
  let ?s = "s\<lparr>shr := (shr s)\<lparr>notification_retry_running := False\<rparr>\<rparr>"
  have "remote_inv ?s" using assms(1) by (rule inv_clear_running)
  then show ?thesis
    using rs_start_spawn_failed unfolding remote_inv_def
    by (auto simp: all_threads_def unsignalled_def has_pending_notification_def)
next
  case (rs_loop_notify t g ok k b)
  then show ?thesis
    using inv_notified [OF assms(1), of t "LoopNotify g" "if b then LoopDeliver g else LoopCheck" b] by (auto simp: at_def)
next
  case (rs_loop_deliver t g)
  then show ?thesis using inv_deliver [OF assms(1), of t "LoopDeliver g" g LoopCheck] by (simp add: at_def)
next
  case (rs_loop_stop t)
  let ?s = "s\<lparr>shr := (shr s)\<lparr>notification_retry_running := False\<rparr>\<rparr>"
  have "remote_inv ?s" using assms(1) by (rule inv_clear_running)
  then have "remote_inv (goto t LastCheck ?s)"
    unfolding remote_inv_def by (auto intro!: all_threads_goto)
  with rs_loop_stop show ?thesis by simp
next
  case (rs_last_swap t)
  have "remote_inv (goto t LoopCheck s)"
    by (rule inv_goto [OF assms(1)]) (use rs_last_swap in \<open>auto simp: at_def\<close>)
  with rs_last_swap show ?thesis
    using inv_set_running [of t LoopCheck s] by (auto intro!: inv_leave [OF assms(1)] simp: at_def)
next
  case rs_drain_wake
  then show ?thesis by (auto intro: inv_quiet [OF assms(1)] simp: unsignalled_def)
next
  case (rs_drain_remote h)
  then show ?thesis by (auto intro!: inv_quiet [OF assms(1)] simp: unsignalled_def take_remote_def)
next
  case (rs_close h cs)
  with remote_inv_close [OF assms(1)] show ?thesis by blast
qed (use assms(1) in \<open>auto simp: at_def intro!: inv_goto inv_leave dest: pending_exact split: if_splits\<close>)

interpretation remote: bounded_system remote_init remote_step "\<lambda>_. 0" 0 remote_inv
proof
  show "remote_init s \<Longrightarrow> remote_inv s" for s :: "'c remote_sys"
    by (auto simp: remote_init_def remote_inv_def with_remote_capacity_def all_threads_def unsignalled_def
        has_pending_notification_def)
  show "remote_inv s \<Longrightarrow> remote_step s l t \<Longrightarrow> (0::nat) \<le> 0 \<Longrightarrow> remote_inv t" for s t :: "'c remote_sys" and l
    using remote_inv_step by blast
qed simp

subsection \<open>The retry loop ends\<close>

lemma notify_from_spec:
  "notify_from n ok k =
     (if \<exists>j < n. ok (k + j) then (k + Suc (LEAST j. ok (k + j)), True) else (k + n, False))"
proof (induction n arbitrary: k)
  case 0
  then show ?case by simp
next
  case (Suc n)
  show ?case
  proof (cases "ok k")
    case True
    then have "(LEAST j. ok (k + j)) = 0" by (intro Least_equality) auto
    then show ?thesis using True by auto
  next
    case False
    then have shift: "(\<exists>j < Suc n. ok (k + j)) \<longleftrightarrow> (\<exists>j < n. ok (Suc k + j))"
      by (auto simp: less_Suc_eq_0_disj)
    have "(LEAST j. ok (k + j)) = Suc (LEAST j. ok (k + Suc j))" if "ok (k + j)" for j
      using that False by (intro Least_Suc) auto
    then show ?thesis using False Suc.IH [of "Suc k"] shift by auto
  qed
qed

lemma notify_with_retry_fails:
  assumes "\<not> snd (notify_with_retry ok k)"
  shows "notify_with_retry ok k = (k + 2, False)" "\<not> ok k" "\<not> ok (Suc k)"
  using assms by (auto simp: notify_with_retry_def notify_attempts_def notify_from_spec numeral_2_eq_2
      less_Suc_eq split: if_splits)

lemma retry_while_ends:
  assumes "ok j" and "k \<le> j" and "0 < delay" and "delay \<le> 50" and "\<forall>d \<in> set slept. 0 < d \<and> d \<le> 50"
    and "notification_delivered s \<le> notification_requested s"
  shows "\<exists>k' slept'. retry_while ok k delay slept s =
      Some (if shared_closed s then s else s\<lparr>notification_delivered := notification_requested s\<rparr>, k', slept') \<and>
    (\<forall>d \<in> set slept'. 0 < d \<and> d \<le> 50) \<and> length slept' \<le> length slept + (j - k)"
  using assms(2-5)
proof (induction "j - k" arbitrary: k delay slept rule: less_induct)
  case less
  show ?case
  proof (cases "shared_closed s \<or> \<not> has_pending_notification s")
    case True
    then have "notification_delivered s = notification_requested s" if "\<not> shared_closed s"
      using that assms(6) by (simp add: has_pending_notification_def)
    with True less.prems(4) show ?thesis by (subst retry_while.simps) auto
  next
    case open_: False
    show ?thesis
    proof (cases "snd (notify_with_retry ok k)")
      case True
      have "deliver (notification_requested s) s = s\<lparr>notification_delivered := notification_requested s\<rparr>"
        using assms(6) by (simp add: deliver_def)
      moreover have "retry_while ok k' 1 slept (s\<lparr>notification_delivered := notification_requested s\<rparr>) =
          Some (s\<lparr>notification_delivered := notification_requested s\<rparr>, k', slept)" for k'
        by (subst retry_while.simps) (simp add: has_pending_notification_def)
      ultimately have "retry_while ok k delay slept s =
          Some (s\<lparr>notification_delivered := notification_requested s\<rparr>, fst (notify_with_retry ok k), slept)"
        using open_ True by (subst retry_while.simps) simp
      then show ?thesis using open_ less.prems(4) by simp
    next
      case False
      note f = notify_with_retry_fails [OF False]
      have kj: "k + 2 \<le> j" using f(2,3) assms(1) less.prems(1) by (metis Suc_leI add_2_eq_Suc' le_neq_implies_less)
      have ih: "\<exists>k' slept'. retry_while ok (k + 2) (min (delay * 2) 50) (slept @ [delay]) s =
            Some (if shared_closed s then s else s\<lparr>notification_delivered := notification_requested s\<rparr>, k', slept') \<and>
          (\<forall>d \<in> set slept'. 0 < d \<and> d \<le> 50) \<and> length slept' \<le> length (slept @ [delay]) + (j - (k + 2))"
        by (rule less.hyps) (use kj less.prems in auto)
      have "retry_while ok k delay slept s = retry_while ok (k + 2) (min (delay * 2) 50) (slept @ [delay]) s"
        using open_ False f(1) by (subst retry_while.simps) simp
      with ih kj show ?thesis by auto
    qed
  qed
qed

lemma retry_loop_ends:
  assumes "ok j" and "k \<le> j" and "notification_delivered s \<le> notification_requested s" and "\<not> shared_closed s"
  shows "\<exists>k' slept. notification_retry_loop ok k [] s =
      Some (s\<lparr>notification_delivered := notification_requested s, notification_retry_running := False\<rparr>, k', slept) \<and>
    (\<forall>d \<in> set slept. 0 < d \<and> d \<le> 50) \<and> length slept \<le> j - k"
proof -
  obtain k' slept where r: "retry_while ok k 1 [] s =
      Some (s\<lparr>notification_delivered := notification_requested s\<rparr>, k', slept)"
      "\<forall>d \<in> set slept. 0 < d \<and> d \<le> 50" "length slept \<le> j - k"
    using retry_while_ends [of ok j k 1 "[]" s] assms by auto
  then show ?thesis
    by (subst notification_retry_loop.simps) (auto simp: has_pending_notification_def)
qed

subsection \<open>Properties\<close>

definition remote_demo :: "nat remote_sys" where
  "remote_demo = \<lparr>shr = with_remote_capacity 1, threads = Map.empty, lock = None, signalled = False,
                draining = False, spawn_failed = False\<rparr>"

definition remote_demo_woken :: "nat remote_sys" where
  "remote_demo_woken = goto 5 StartCheck (remote_demo\<lparr>shr := (with_remote_capacity 1)\<lparr>remote_macrotasks := [7],
     notification_requested := 1\<rparr>, lock := Some 5\<rparr>)"

lemma remote_demo_run: "run remote_step remote_demo [[], []] remote_demo_woken"
proof -
  let ?h = "(with_remote_capacity 1)\<lparr>remote_macrotasks := [7 :: nat], notification_requested := 1\<rparr>"
  let ?s = "goto 5 (ReqNotify 1) (remote_demo\<lparr>shr := ?h, lock := Some 5\<rparr>)"
  have "remote_step remote_demo [] ?s"
    by (rule rs_wake) (simp_all add: remote_demo_def enqueue_internal_wake_def enqueue_refused_def
        with_remote_capacity_def next_generation_def push_remote_def checked_add_def u64_modulus_def)
  moreover have "remote_step ?s [] (goto 5 (if False then ReqDeliver 1 else StartCheck)
      (?s\<lparr>signalled := (signalled ?s \<or> False)\<rparr>))"
    by (rule rs_req_notify [where ok = "\<lambda>_. False" and k = 2])
      (simp_all add: at_def notify_with_retry_def notify_attempts_def numeral_2_eq_2)
  moreover have "goto 5 (if False then ReqDeliver 1 else StartCheck) (?s\<lparr>signalled := (signalled ?s \<or> False)\<rparr>) =
      remote_demo_woken"
    by (simp add: remote_demo_woken_def remote_demo_def goto_def)
  ultimately show ?thesis by (metis run_Cons run_single)
qed

text \<open>(C5) No notification is lost, on any interleaving of enqueuers, callers of \<open>notify\<close>, retry threads and
  the owner: whenever work is queued on an open runtime whose owner is not about to take the queue,
  the driver has been signalled since, or a request is still undelivered and some thread is in the
  middle of delivering it or of handing it to the retry thread (unless starting that thread failed,
  where the source panics).\<close>

theorem remote_no_lost_notification:
  assumes "remote_init s" and "run remote_step s ls t" and "\<not> shared_closed (shr t)" and "\<not> draining t"
    and "remote_macrotasks (shr t) \<noteq> []" and "\<not> spawn_failed t"
  shows "signalled t \<or> has_pending_notification (shr t) \<and> (\<exists>i pc. threads t i = Some pc \<and> active pc)"
proof -
  have "remote_inv t" using remote.inv_reachable [OF assms(1,2)] by simp
  then show ?thesis using assms(3-6) by (auto simp: remote_inv_def unsignalled_def some_thread_def)
qed

theorem remote_no_lost_notification_witness:
  "\<not> signalled remote_demo_woken \<and> remote_macrotasks (shr remote_demo_woken) = [7] \<and>
   has_pending_notification (shr remote_demo_woken) \<and>
   (\<exists>i pc. threads remote_demo_woken i = Some pc \<and> active pc)"
proof -
  have i: "remote_init remote_demo" by (auto simp: remote_init_def remote_demo_def)
  have s: "\<not> shared_closed (shr remote_demo_woken)" "\<not> draining remote_demo_woken"
      "remote_macrotasks (shr remote_demo_woken) = [7]" "\<not> spawn_failed remote_demo_woken"
      "\<not> signalled remote_demo_woken"
    by (simp_all add: remote_demo_woken_def remote_demo_def with_remote_capacity_def)
  then have "remote_macrotasks (shr remote_demo_woken) \<noteq> []" by simp
  with remote_no_lost_notification [OF i remote_demo_run s(1,2) _ s(4)] s show ?thesis by blast
qed

text \<open>The retry thread returns as soon as the notifier works again: if some later attempt succeeds, the loop
  ends with every request delivered and the running flag cleared, after no more sleeps than failed
  attempts, each between 1 and 50 milliseconds.\<close>

theorem notification_retry_terminates:
  assumes "ok j" and "k \<le> j" and "notification_delivered s \<le> notification_requested s" and "\<not> shared_closed s"
  shows "\<exists>k' slept. notification_retry_loop ok k [] s =
      Some (s\<lparr>notification_delivered := notification_requested s, notification_retry_running := False\<rparr>, k', slept) \<and>
    (\<forall>d \<in> set slept. 0 < d \<and> d \<le> 50) \<and> length slept \<le> j - k"
  using assms by (rule retry_loop_ends)

theorem notification_retry_terminates_witness:
  "\<exists>s k' slept. notification_retry_loop (\<lambda>i. i = 30) 0 [] (shr remote_demo_woken) = Some (s, k', slept) \<and>
     notification_delivered s = 1 \<and> length slept \<le> 30"
  using notification_retry_terminates [of "\<lambda>i. i = 30" 30 0 "shr remote_demo_woken"]
  by (auto simp: remote_demo_woken_def with_remote_capacity_def)

text \<open>Cross-thread submission is transactional and bounded: an accepted task is appended behind the
  others and leaves the queue within its capacity, which is between 1 and \<open>2 ^ 24\<close>; every error leaves the
  queue as it was, a closed runtime refuses with \<open>Closed\<close>, a full queue or a failed notification with \<open>Full\<close>.\<close>

theorem enqueue_macro_transactional:
  assumes "enqueue_macro ok c (s :: 'c shared) = (h, r)"
  shows "(r = Inr () \<longleftrightarrow> \<not> shared_closed s \<and> length (remote_macrotasks s) < capacity s \<and> (ok 0 \<or> ok 1)) \<and>
    (r = Inl QClosed \<longleftrightarrow> shared_closed s) \<and>
    remote_macrotasks h = (if r = Inr () then remote_macrotasks s @ [c] else remote_macrotasks s) \<and>
    (r = Inr () \<longrightarrow> length (remote_macrotasks h) \<le> capacity h) \<and>
    (\<forall>n. capacity (with_remote_capacity n :: 'c shared) \<in> {1..2 ^ 24})"
proof -
  have ok: "snd (notify_with_retry ok 0) \<longleftrightarrow> ok 0 \<or> ok 1"
    by (simp add: notify_with_retry_def notify_attempts_def numeral_2_eq_2)
  have "capacity (with_remote_capacity n :: 'c shared) \<in> {1..2 ^ 24}" for n
    by (simp add: with_remote_capacity_def max_remote_queue_capacity_def)
  with assms show ?thesis
    by (cases rule: enqueue_macro_cases) (simp_all add: ok push_remote_def)
qed

theorem enqueue_macro_transactional_witness:
  "enqueue_macro (\<lambda>i. i = 1) (4 :: nat) (with_remote_capacity 0) =
     (push_remote 4 (with_remote_capacity 0), Inr ()) \<and>
   length (remote_macrotasks (push_remote 4 (with_remote_capacity 0 :: nat shared))) \<le>
     capacity (push_remote 4 (with_remote_capacity 0 :: nat shared))"
proof -
  have e: "enqueue_macro (\<lambda>i. i = 1) (4 :: nat) (with_remote_capacity 0) =
     (push_remote 4 (with_remote_capacity 0), Inr ())"
    by (simp add: enqueue_macro_def enqueue_refused_def with_remote_capacity_def notify_with_retry_def
        notify_attempts_def numeral_2_eq_2 max_remote_queue_capacity_def)
  with enqueue_macro_transactional [OF e] show ?thesis by blast
qed

end
