(* ===== verification/Driver_Backend.thy ===== *)
theory Driver_Backend
  imports Prelude
begin

text \<open>
  \<open>src/src/platform/runtime_shared/driver_backend.rs\<close>: what a driver reports to the scheduler after a poll.
\<close>

record ready_events =
  ready_timer :: bool
  ready_wake :: bool
  ready_io :: bool

definition no_events :: ready_events where
  "no_events = \<lparr>ready_timer = False, ready_wake = False, ready_io = False\<rparr>"

end
