(* ===== verification/Scheduler.thy ===== *)
theory Scheduler
  imports Timer_Heap Remote_Queue Driver_Backend
begin

text \<open>
  \<open>src/platform/runtime_shared/scheduler.rs\<close> over the \<open>ThreadState\<close> of \<open>state.rs\<close>: the local queues, timeouts and intervals on the
  timer heap, cross-thread work, child workers, the idle commit and the four entry points of the event
  loop. Closures and futures are user code: a closure is a value of a type parameter, and what it does
  while it runs is any sequence of the operations below. Durations are nanoseconds; the driver is an
  environment that reports events and is told the next deadline; tracing is left out.
\<close>

subsection \<open>State\<close>

text \<open>What \<open>push_local_macrotask\<close> is called with: a plain closure, the wrapper of an expired timeout, or one
  tick of an interval with the deadline it is for.\<close>

datatype 'c macrotask = Closure 'c | FireTimeout nat 'c | IntervalTick nat nat

record turn_activity =
  timers_dispatched :: nat
  remote_adopted :: nat
  worker_exits :: nat
  notifications :: nat
  timer_ready :: bool
  wake_ready :: bool
  io_ready :: bool
  starvation_warned :: bool

record 'c sched =
  local_microtasks :: "'c list"
  local_macrotasks :: "'c macrotask list"
  timers :: "'c timer_heap"
  live_timeouts :: "nat set"
  live_intervals :: "nat \<rightharpoonup> 'c \<times> nat"
  next_timer_id :: nat
  tasks :: "nat set"
  children :: "(nat \<times> 'c option) list"
  in_event_loop :: bool
  tearing_down :: bool
  generation :: nat
  is_worker :: bool
  thread_shared :: "'c shared"
  driver_deadline :: "nat option"
  turn :: turn_activity
  turns :: nat
  microtasks_run :: nat
  macrotasks_run :: nat

definition turn_activity_new :: turn_activity where
  "turn_activity_new =
     \<lparr>timers_dispatched = 0, remote_adopted = 0, worker_exits = 0, notifications = 0, timer_ready = False,
      wake_ready = False, io_ready = False, starvation_warned = False\<rparr>"

definition sched_new :: "'c shared \<Rightarrow> nat \<Rightarrow> bool \<Rightarrow> 'c sched" where
  "sched_new h gen worker =
     \<lparr>local_microtasks = [], local_macrotasks = [], timers = heap_new, live_timeouts = {},
      live_intervals = Map.empty, next_timer_id = 1, tasks = {}, children = [], in_event_loop = False,
      tearing_down = False, generation = gen, is_worker = worker, thread_shared = h, driver_deadline = None,
      turn = turn_activity_new, turns = 0, microtasks_run = 0, macrotasks_run = 0\<rparr>"

subsection \<open>Queues and timers\<close>

definition duration_max :: nat where
  "duration_max = 2 ^ 64 * 10 ^ 9 - 1"

text \<open>\<open>checked_add(..).unwrap_or(Duration::MAX)\<close>, as in \<open>deadline_from_now\<close>.\<close>

definition deadline_add :: "nat \<Rightarrow> nat \<Rightarrow> nat" where
  "deadline_add a b = (if a + b \<le> duration_max then a + b else duration_max)"

definition push_local_macrotask :: "'c macrotask \<Rightarrow> 'c sched \<Rightarrow> 'c sched" where
  "push_local_macrotask m s = s\<lparr>local_macrotasks := local_macrotasks s @ [m]\<rparr>"

definition queue_task :: "'c \<Rightarrow> 'c sched \<Rightarrow> 'c sched" where
  "queue_task c s = push_local_macrotask (Closure c) s"

definition queue_microtask :: "'c \<Rightarrow> 'c sched \<Rightarrow> 'c sched" where
  "queue_microtask c s = s\<lparr>local_microtasks := local_microtasks s @ [c]\<rparr>"

definition rearm_thread_timer :: "'c sched \<Rightarrow> 'c sched" where
  "rearm_thread_timer s = s\<lparr>driver_deadline := peek_deadline (timers s)\<rparr>"

definition allocate_timer_id :: "'c sched \<Rightarrow> ('c sched \<times> nat) panics" where
  "allocate_timer_id s =
     do {
       next_id \<leftarrow> checked_add (next_timer_id s) 1;
       Some (s\<lparr>next_timer_id := next_id\<rparr>, next_timer_id s)
     }"

definition insert_timer :: "'c timer_node \<Rightarrow> 'c sched \<Rightarrow> 'c sched panics" where
  "insert_timer n s =
     do {
       h \<leftarrow> heap_insert (timers s) n;
       Some (rearm_thread_timer (s\<lparr>timers := h\<rparr>))
     }"

text \<open>The handle of a timer is its id and the generation of the state that made it.\<close>

definition timeout :: "nat \<Rightarrow> nat \<Rightarrow> 'c \<Rightarrow> 'c sched \<Rightarrow> ('c sched \<times> nat \<times> nat) panics" where
  "timeout now delay c s =
     do {
       (s, i) \<leftarrow> allocate_timer_id s;
       s \<leftarrow> insert_timer (timeout_node i (deadline_add now delay) c)
              (s\<lparr>live_timeouts := insert i (live_timeouts s)\<rparr>);
       Some (s, i, generation s)
     }"

definition schedule_interval_macrotask :: "nat \<Rightarrow> nat \<Rightarrow> 'c sched \<Rightarrow> 'c sched" where
  "schedule_interval_macrotask i scheduled s = push_local_macrotask (IntervalTick i scheduled) s"

definition interval :: "nat \<Rightarrow> nat \<Rightarrow> 'c \<Rightarrow> 'c sched \<Rightarrow> ('c sched \<times> nat \<times> nat) panics" where
  "interval now delay c s =
     do {
       (s, i) \<leftarrow> allocate_timer_id s;
       let s = s\<lparr>live_intervals := (live_intervals s)(i \<mapsto> (c, delay))\<rparr>;
       s \<leftarrow> (if delay = 0 then Some (schedule_interval_macrotask i (deadline_add now 0) s)
             else insert_timer (interval_node i (deadline_add now delay)) s);
       Some (s, i, generation s)
     }"

text \<open>\<open>clear_timer\<close>, the body of \<open>cancel_timeout\<close> and \<open>cancel_interval\<close>.\<close>

definition clear_timer :: "nat \<Rightarrow> nat \<Rightarrow> 'c sched \<Rightarrow> 'c sched panics" where
  "clear_timer gen i s =
     (if generation s \<noteq> gen then Some s
      else do {
        (h, removed) \<leftarrow> heap_remove (timers s) i;
        let s = s\<lparr>live_timeouts := live_timeouts s - {i}, live_intervals := (live_intervals s)(i := None),
                  timers := h\<rparr>;
        Some (if removed = None then s else rearm_thread_timer s)
      })"

text \<open>The wrapper a queued timeout runs, up to its callback, and the two halves of an interval's tick
  around its callback.\<close>

definition fire_timeout :: "nat \<Rightarrow> 'c sched \<Rightarrow> 'c sched \<times> bool" where
  "fire_timeout i s = (s\<lparr>live_timeouts := live_timeouts s - {i}\<rparr>, i \<in> live_timeouts s)"

definition tick_begin :: "nat \<Rightarrow> 'c sched \<Rightarrow> 'c option" where
  "tick_begin i s = map_option fst (live_intervals s i)"

definition tick_end :: "nat \<Rightarrow> nat \<Rightarrow> nat \<Rightarrow> bool \<Rightarrow> 'c sched \<Rightarrow> 'c sched panics" where
  "tick_end now i scheduled panicked s =
     (if panicked
      then do {
        (h, removed) \<leftarrow> heap_remove (timers s) i;
        Some (s\<lparr>timers := h, live_intervals := (live_intervals s)(i := None)\<rparr>)
      }
      else case live_intervals s i of
        None \<Rightarrow> Some s
      | Some (c, every) \<Rightarrow>
          (let next_deadline = deadline_add scheduled every in
           if next_deadline \<le> now then Some (schedule_interval_macrotask i next_deadline s)
           else insert_timer (interval_node i next_deadline) s))"

fun expired_task :: "'c timer_node \<Rightarrow> 'c macrotask" where
  "expired_task n =
     (case kind n of Timeout c \<Rightarrow> FireTimeout (node_id n) c | Interval \<Rightarrow> IntervalTick (node_id n) (deadline n))"

definition count_timers :: "nat \<Rightarrow> 'c sched \<Rightarrow> 'c sched" where
  "count_timers k s =
     s\<lparr>turn := (turn s)\<lparr>timers_dispatched := saturating_add (timers_dispatched (turn s)) k\<rparr>\<rparr>"

definition dispatch_expired_timers :: "nat \<Rightarrow> 'c sched \<Rightarrow> 'c sched panics" where
  "dispatch_expired_timers now s =
     do {
       (h, due) \<leftarrow> pop_due (timers s) now;
       let s = s\<lparr>timers := h\<rparr>;
       Some (if due = [] then rearm_thread_timer s
             else rearm_thread_timer
               (fold (\<lambda>n. push_local_macrotask (expired_task n)) due (count_timers (length due) s)))
     }"

subsection \<open>Draining external events\<close>

text \<open>\<open>drain_driver_events\<close> on the events the driver reports one poll after the other, with the count it
  returns for a wake and the time of the poll.\<close>

definition note_events :: "ready_events \<Rightarrow> nat option \<Rightarrow> 'c sched \<Rightarrow> 'c sched" where
  "note_events r woken s =
     (let t = turn s;
          t = (if ready_io r then t\<lparr>io_ready := True\<rparr> else t);
          t = (if ready_wake r
               then t\<lparr>wake_ready := True,
                      notifications := saturating_add (notifications t) (case woken of Some n \<Rightarrow> n | None \<Rightarrow> 0)\<rparr>
               else t);
          t = (if ready_timer r then t\<lparr>timer_ready := True\<rparr> else t)
      in s\<lparr>turn := t\<rparr>)"

fun drain_driver_events :: "(ready_events \<times> nat option \<times> nat) list \<Rightarrow> 'c sched \<Rightarrow> 'c sched panics" where
  "drain_driver_events [] s = Some s"
| "drain_driver_events ((r, woken, now) # evs) s =
     do {
       s \<leftarrow> (if ready_timer r then dispatch_expired_timers now (note_events r woken s)
             else Some (note_events r woken s));
       drain_driver_events evs s
     }"

definition drain_remote_tasks :: "'c sched \<Rightarrow> 'c sched" where
  "drain_remote_tasks s =
     (let (h, drained) = take_remote (thread_shared s);
          s = s\<lparr>thread_shared := h\<rparr>
      in if drained = [] then s
         else fold (\<lambda>c. push_local_macrotask (Closure c)) drained
           (s\<lparr>turn := (turn s)\<lparr>remote_adopted := saturating_add (remote_adopted (turn s)) (length drained)\<rparr>\<rparr>))"

text \<open>The scan of \<open>drain_completed_workers\<close>; \<open>fin\<close> reads the workers' finished flags.\<close>

function reap :: "(nat \<Rightarrow> bool) \<Rightarrow> nat \<Rightarrow> (nat \<times> 'c option) list \<Rightarrow> (nat \<times> 'c option) list \<Rightarrow>
    (nat \<times> 'c option) list \<times> (nat \<times> 'c option) list" where
  "reap fin index kids exited =
     (if index < length kids
      then if fin (fst (kids ! index)) then reap fin index (swap_remove index kids) (exited @ [kids ! index])
           else reap fin (Suc index) kids exited
      else (kids, exited))"
  by pat_completeness auto
termination
  by (relation "measure (\<lambda>(fin, index, kids, exited). length kids - index)") auto

declare reap.simps [simp del]

definition drain_completed_workers :: "(nat \<Rightarrow> bool) \<Rightarrow> 'c sched \<Rightarrow> 'c sched" where
  "drain_completed_workers fin s =
     (let (kids, exited) = reap fin 0 (children s) [];
          s = s\<lparr>children := kids\<rparr>
      in if exited = [] then s
         else fold (\<lambda>c. push_local_macrotask (Closure c)) (List.map_filter snd exited)
           (s\<lparr>turn := (turn s)\<lparr>worker_exits := saturating_add (worker_exits (turn s)) (length exited)\<rparr>\<rparr>))"

subsection \<open>Running work and going idle\<close>

definition pop_microtask :: "'c sched \<Rightarrow> 'c sched \<times> 'c option" where
  "pop_microtask s =
     (case local_microtasks s of [] \<Rightarrow> (s, None) | c # cs \<Rightarrow> (s\<lparr>local_microtasks := cs\<rparr>, Some c))"

definition pop_macrotask :: "'c sched \<Rightarrow> 'c sched \<times> 'c macrotask option" where
  "pop_macrotask s =
     (case local_macrotasks s of
        [] \<Rightarrow> (s, None)
      | m # ms \<Rightarrow> (s\<lparr>local_macrotasks := ms, macrotasks_run := wrapping_succ (macrotasks_run s)\<rparr>, Some m))"

definition microtask_starvation_threshold :: nat where
  "microtask_starvation_threshold = 1000"

definition macrotask_waiting :: "nat \<Rightarrow> 'c sched \<Rightarrow> bool" where
  "macrotask_waiting now s \<longleftrightarrow>
     local_macrotasks s \<noteq> [] \<or>
     (case peek_deadline (timers s) of Some d \<Rightarrow> d \<le> now | None \<Rightarrow> False) \<or>
     remote_macrotasks (thread_shared s) \<noteq> []"

text \<open>After the \<open>k\<close>-th microtask of a checkpoint.\<close>

definition after_microtask :: "nat \<Rightarrow> nat \<Rightarrow> bool \<Rightarrow> 'c sched \<Rightarrow> 'c sched \<times> bool" where
  "after_microtask now k warned s =
     (let s = s\<lparr>microtasks_run := wrapping_succ (microtasks_run s)\<rparr> in
      if \<not> warned \<and> k mod microtask_starvation_threshold = 0 \<and> macrotask_waiting now s
      then (s\<lparr>turn := (turn s)\<lparr>starvation_warned := True\<rparr>\<rparr>, True) else (s, warned))"

definition has_ready_work :: "'c sched \<Rightarrow> bool" where
  "has_ready_work s \<longleftrightarrow>
     (if local_microtasks s \<noteq> [] \<or> local_macrotasks s \<noteq> [] then True
      else remote_macrotasks (thread_shared s) \<noteq> [])"

definition has_live_children :: "'c sched \<Rightarrow> bool" where
  "has_live_children s \<longleftrightarrow> children s \<noteq> []"

definition has_live_async_operations :: "'c sched \<Rightarrow> bool" where
  "has_live_async_operations s \<longleftrightarrow> pending_ops (thread_shared s) \<noteq> 0"

definition busy :: "'c sched \<Rightarrow> bool" where
  "busy s \<longleftrightarrow> \<not> heap_is_empty (timers s) \<or> has_live_children s \<or> has_live_async_operations s"

datatype idle_commit = Retry | CancelTasks "nat set" | MainIdle | WorkerClosed

definition commit_idle :: "'c sched \<Rightarrow> 'c sched \<times> idle_commit" where
  "commit_idle s =
     (if remote_macrotasks (thread_shared s) \<noteq> [] \<or> has_live_async_operations s then (s, Retry)
      else let ids = tasks s; s = s\<lparr>tasks := {}\<rparr> in
        if ids \<noteq> {} then (s, CancelTasks ids)
        else if is_worker s then (s\<lparr>thread_shared := (thread_shared s)\<lparr>shared_closed := True\<rparr>\<rparr>, WorkerClosed)
        else (s, MainIdle))"

definition event_loop_enter :: "'c sched \<Rightarrow> 'c sched panics" where
  "event_loop_enter s = (if tearing_down s \<or> in_event_loop s then panic else Some (s\<lparr>in_event_loop := True\<rparr>))"

definition event_loop_leave :: "'c sched \<Rightarrow> 'c sched" where
  "event_loop_leave s = s\<lparr>in_event_loop := False\<rparr>"

definition turn_begin :: "'c sched \<Rightarrow> 'c sched" where
  "turn_begin s = s\<lparr>turn := turn_activity_new, turns := wrapping_succ (turns s)\<rparr>"

datatype wake_cause = Queued | TimerWake | IoWake | NotifyWake | Spurious

definition wake_reason :: "bool \<Rightarrow> turn_activity \<Rightarrow> wake_cause" where
  "wake_reason parked t =
     (if \<not> parked then Queued else if timer_ready t then TimerWake else if io_ready t then IoWake
      else if wake_ready t then NotifyWake else Spurious)"

subsection \<open>The event loop\<close>

text \<open>Where the owner thread is: outside every loop, at one of the calls of a turn, or in user code (a
  microtask, a macrotask, an interval's callback, the future of \<open>block_on\<close>, or the wakers and destructors of
  tasks cancelled at shutdown). A turn drains up to three times.\<close>

datatype entry = Run | UntilStalled | ReadyTasks | BlockOn

datatype stage = Top | After | Again

datatype lpc =
    Outside
  | TurnBegin
  | RootCheck
  | InRoot
  | DrainDriver stage
  | DrainRemote stage
  | DrainWorkers stage
  | Checkpoint nat bool      \<comment> \<open>\<open>drain_microtasks\<close>: microtasks run, starvation reported\<close>
  | InMicro nat bool
  | PopMacro
  | InMacro
  | InTick nat nat           \<comment> \<open>the callback of an interval's tick for a deadline\<close>
  | ReadyCheck stage
  | BusyCheck
  | Parking
  | Committing
  | Cancelling

fun in_user_code :: "lpc \<Rightarrow> bool" where
  "in_user_code Outside = True" | "in_user_code InRoot = True" | "in_user_code (InMicro _ _) = True"
| "in_user_code InMacro = True" | "in_user_code (InTick _ _) = True" | "in_user_code Cancelling = True"
| "in_user_code _ = False"

text \<open>\<open>woken\<close> is the flag of the \<open>BlockOnWaker\<close>; \<open>clock\<close> the monotonic time.\<close>

record 'c event_loop =
  sc :: "'c sched"
  lpc :: lpc
  loop_entry :: entry
  woken :: bool
  clock :: nat

datatype 'c event =
    Silent
  | MicroStart 'c
  | MacroStart 'c
  | CallbackStart nat 'c     \<comment> \<open>a timer's callback\<close>
  | Cancelled "nat set"
  | LoopExit

text \<open>The operations of user code on the owner thread, and those of other threads.\<close>

inductive user_op :: "nat \<Rightarrow> 'c sched \<Rightarrow> 'c sched \<Rightarrow> bool" for now where
  uo_task: "user_op now s (queue_task c s)"
| uo_microtask: "user_op now s (queue_microtask c s)"
| uo_timeout: "timeout now delay c s = Some (s', i, g) \<Longrightarrow> user_op now s s'"
| uo_interval: "interval now delay c s = Some (s', i, g) \<Longrightarrow> user_op now s s'"
| uo_clear: "clear_timer g i s = Some s' \<Longrightarrow> user_op now s s'"
| uo_spawn: "i \<notin> tasks s \<Longrightarrow> user_op now s (queue_microtask c (s\<lparr>tasks := insert i (tasks s)\<rparr>))"
| uo_deregister: "user_op now s (s\<lparr>tasks := tasks s - {i}\<rparr>)"
| uo_spawn_worker: "user_op now s (s\<lparr>children := children s @ [(w, Some c)]\<rparr>)"

inductive remote_op :: "'c shared \<Rightarrow> 'c shared \<Rightarrow> bool" where
  ro_enqueue: "enqueue_macro ok c h = (h', r) \<Longrightarrow> remote_op h h'"
| ro_wake: "enqueue_internal_wake c h = Some (h', r) \<Longrightarrow> remote_op h h'"
| ro_begin: "remote_op h (begin_async_operation h)"
| ro_finish: "remote_op h (finish_async_operation h)"

definition after_workers :: "stage \<Rightarrow> lpc" where
  "after_workers st = (if st = Top then Checkpoint 0 False else ReadyCheck st)"

definition drain_start :: "entry \<Rightarrow> stage \<Rightarrow> lpc" where
  "drain_start e st = (if e = ReadyTasks then DrainRemote st else DrainDriver st)"

text \<open>\<open>run\<close>, \<open>run_until_stalled\<close>, \<open>run_ready_tasks\<close> and \<open>block_on_installed\<close> as one machine: they share every call, and differ
  in whether they poll the driver, in the future \<open>block_on\<close> polls first, and in what a stalled turn does.\<close>

inductive loop_step :: "'c event_loop \<Rightarrow> 'c event \<Rightarrow> 'c event_loop \<Rightarrow> bool" where
  ls_enter:
    "lpc s = Outside \<Longrightarrow> event_loop_enter (sc s) = Some r \<Longrightarrow>
     loop_step s Silent (s\<lparr>sc := r, lpc := TurnBegin, loop_entry := e, woken := True\<rparr>)"
| ls_turn:
    "lpc s = TurnBegin \<Longrightarrow>
     loop_step s Silent (s\<lparr>sc := turn_begin (sc s),
       lpc := (if loop_entry s = BlockOn then RootCheck else drain_start (loop_entry s) Top)\<rparr>)"
| ls_root:
    "lpc s = RootCheck \<Longrightarrow>
     loop_step s Silent (s\<lparr>lpc := (if woken s then InRoot else DrainDriver Top), woken := False\<rparr>)"
| ls_root_pending: "lpc s = InRoot \<Longrightarrow> loop_step s Silent (s\<lparr>lpc := DrainDriver Top\<rparr>)"
| ls_root_ready:
    "lpc s = InRoot \<Longrightarrow> loop_step s LoopExit (s\<lparr>sc := event_loop_leave (sc s), lpc := Outside\<rparr>)"
| ls_driver:
    "lpc s = DrainDriver st \<Longrightarrow> drain_driver_events evs (sc s) = Some r \<Longrightarrow> \<forall>(_, _, now) \<in> set evs. now \<le> clock s \<Longrightarrow>
     loop_step s Silent (s\<lparr>sc := r, lpc := DrainRemote st\<rparr>)"
| ls_remote:
    "lpc s = DrainRemote st \<Longrightarrow>
     loop_step s Silent (s\<lparr>sc := drain_remote_tasks (sc s), lpc := DrainWorkers st\<rparr>)"
| ls_workers:
    "lpc s = DrainWorkers st \<Longrightarrow>
     loop_step s Silent (s\<lparr>sc := drain_completed_workers fin (sc s), lpc := after_workers st\<rparr>)"
| ls_micro:
    "lpc s = Checkpoint k w \<Longrightarrow> pop_microtask (sc s) = (r, Some c) \<Longrightarrow>
     loop_step s (MicroStart c) (s\<lparr>sc := r, lpc := InMicro k w\<rparr>)"
| ls_micro_end:
    "lpc s = InMicro k w \<Longrightarrow> after_microtask (clock s) (Suc k) w (sc s) = (r, w') \<Longrightarrow>
     loop_step s Silent (s\<lparr>sc := r, lpc := Checkpoint (Suc k) w'\<rparr>)"
| ls_micro_done:
    "lpc s = Checkpoint k w \<Longrightarrow> pop_microtask (sc s) = (r, None) \<Longrightarrow>
     loop_step s Silent (s\<lparr>sc := r, lpc := PopMacro\<rparr>)"
| ls_closure:
    "lpc s = PopMacro \<Longrightarrow> pop_macrotask (sc s) = (r, Some (Closure c)) \<Longrightarrow>
     loop_step s (MacroStart c) (s\<lparr>sc := r, lpc := InMacro\<rparr>)"
| ls_timeout:
    "lpc s = PopMacro \<Longrightarrow> pop_macrotask (sc s) = (r, Some (FireTimeout i c)) \<Longrightarrow> fire_timeout i r = (r', live) \<Longrightarrow>
     loop_step s (if live then CallbackStart i c else Silent)
       (s\<lparr>sc := r', lpc := (if live then InMacro else TurnBegin)\<rparr>)"
| ls_tick:
    "lpc s = PopMacro \<Longrightarrow> pop_macrotask (sc s) = (r, Some (IntervalTick i d)) \<Longrightarrow> tick_begin i r = Some c \<Longrightarrow>
     loop_step s (CallbackStart i c) (s\<lparr>sc := r, lpc := InTick i d\<rparr>)"
| ls_tick_cleared:
    "lpc s = PopMacro \<Longrightarrow> pop_macrotask (sc s) = (r, Some (IntervalTick i d)) \<Longrightarrow> tick_begin i r = None \<Longrightarrow>
     loop_step s Silent (s\<lparr>sc := r, lpc := TurnBegin\<rparr>)"
| ls_macro_end: "lpc s = InMacro \<Longrightarrow> loop_step s Silent (s\<lparr>lpc := TurnBegin\<rparr>)"
| ls_tick_end:
    "lpc s = InTick i d \<Longrightarrow> tick_end (clock s) i d panicked (sc s) = Some r \<Longrightarrow>
     loop_step s Silent (s\<lparr>sc := r, lpc := TurnBegin\<rparr>)"
| ls_no_macro:
    "lpc s = PopMacro \<Longrightarrow> pop_macrotask (sc s) = (r, None) \<Longrightarrow>
     loop_step s Silent (s\<lparr>sc := r, lpc := drain_start (loop_entry s) After\<rparr>)"
| ls_ready_again:
    "lpc s = ReadyCheck st \<Longrightarrow> has_ready_work (sc s) \<or> loop_entry s = BlockOn \<and> woken s \<Longrightarrow>
     loop_step s Silent (s\<lparr>lpc := TurnBegin\<rparr>)"
| ls_stalled:
    "lpc s = ReadyCheck After \<Longrightarrow> \<not> has_ready_work (sc s) \<Longrightarrow> loop_entry s \<in> {UntilStalled, ReadyTasks} \<Longrightarrow>
     loop_step s LoopExit (s\<lparr>sc := event_loop_leave (sc s), lpc := Outside\<rparr>)"
| ls_recheck:
    "lpc s = ReadyCheck After \<Longrightarrow> \<not> has_ready_work (sc s) \<Longrightarrow> loop_entry s = Run \<Longrightarrow>
     loop_step s Silent (s\<lparr>lpc := DrainDriver Again\<rparr>)"
| ls_block_park:
    "lpc s = ReadyCheck After \<Longrightarrow> \<not> has_ready_work (sc s) \<Longrightarrow> loop_entry s = BlockOn \<Longrightarrow> \<not> woken s \<Longrightarrow>
     loop_step s Silent (s\<lparr>lpc := Parking\<rparr>)"
| ls_rechecked:
    "lpc s = ReadyCheck Again \<Longrightarrow> \<not> has_ready_work (sc s) \<Longrightarrow> loop_step s Silent (s\<lparr>lpc := BusyCheck\<rparr>)"
| ls_busy:
    "lpc s = BusyCheck \<Longrightarrow> loop_step s Silent (s\<lparr>lpc := (if busy (sc s) then Parking else Committing)\<rparr>)"
| ls_park: "lpc s = Parking \<Longrightarrow> loop_step s Silent (s\<lparr>lpc := TurnBegin\<rparr>)"
| ls_commit_retry:
    "lpc s = Committing \<Longrightarrow> commit_idle (sc s) = (r, Retry) \<Longrightarrow>
     loop_step s Silent (s\<lparr>sc := r, lpc := TurnBegin\<rparr>)"
| ls_commit_cancel:
    "lpc s = Committing \<Longrightarrow> commit_idle (sc s) = (r, CancelTasks ids) \<Longrightarrow>
     loop_step s (Cancelled ids) (s\<lparr>sc := r, lpc := Cancelling\<rparr>)"
| ls_cancelled: "lpc s = Cancelling \<Longrightarrow> loop_step s Silent (s\<lparr>lpc := TurnBegin\<rparr>)"
| ls_commit_exit:
    "lpc s = Committing \<Longrightarrow> commit_idle (sc s) = (r, ic) \<Longrightarrow> ic \<in> {MainIdle, WorkerClosed} \<Longrightarrow>
     loop_step s LoopExit (s\<lparr>sc := event_loop_leave r, lpc := Outside\<rparr>)"
| ls_user: "in_user_code (lpc s) \<Longrightarrow> user_op (clock s) (sc s) r \<Longrightarrow> loop_step s Silent (s\<lparr>sc := r\<rparr>)"
| ls_other_thread:
    "remote_op (thread_shared (sc s)) h \<Longrightarrow> loop_step s Silent (s\<lparr>sc := (sc s)\<lparr>thread_shared := h\<rparr>\<rparr>)"
| ls_woken: "loop_step s Silent (s\<lparr>woken := True\<rparr>)"
| ls_clock: "clock s \<le> now \<Longrightarrow> loop_step s Silent (s\<lparr>clock := now\<rparr>)"

inductive_cases loop_stepE: "loop_step s l t"

subsection \<open>Where each timer is\<close>

fun timer_ids :: "'c macrotask \<Rightarrow> nat list" where
  "timer_ids (Closure _) = []"
| "timer_ids (FireTimeout i _) = [i]"
| "timer_ids (IntervalTick i _) = [i]"

definition queued_ids :: "'c macrotask list \<Rightarrow> nat list" where
  "queued_ids ms = concat (map timer_ids ms)"

definition fires :: "'c macrotask list \<Rightarrow> nat set" where
  "fires ms = {i. \<exists>c. FireTimeout i c \<in> set ms}"

definition ticks :: "'c macrotask list \<Rightarrow> nat set" where
  "ticks ms = {i. \<exists>d. IntervalTick i d \<in> set ms}"

definition heap_timeouts :: "(nat \<rightharpoonup> 'c timer_node) \<Rightarrow> nat set" where
  "heap_timeouts H = {i. \<exists>n c. H i = Some n \<and> kind n = Timeout c}"

definition heap_intervals :: "(nat \<rightharpoonup> 'c timer_node) \<Rightarrow> nat set" where
  "heap_intervals H = {i. \<exists>n. H i = Some n \<and> kind n = Interval}"

text \<open>The heap, the macrotask queue and the running callback hold a timer id at most once between them; the live
  sets name exactly the timers of the heap, and beyond them only timers queued or running.\<close>

definition timers_ok ::
  "(nat \<rightharpoonup> 'c timer_node) \<Rightarrow> 'c macrotask list \<Rightarrow> nat set \<Rightarrow> nat set \<Rightarrow> nat set \<Rightarrow> nat \<Rightarrow> bool" where
  "timers_ok H ms R LT LI next_id \<longleftrightarrow>
     distinct (queued_ids ms) \<and> dom H \<inter> set (queued_ids ms) = {} \<and> R \<inter> (dom H \<union> set (queued_ids ms)) = {} \<and>
     dom H \<union> set (queued_ids ms) \<union> R \<subseteq> {..<next_id} \<and>
     heap_timeouts H \<subseteq> LT \<and> LT \<subseteq> heap_timeouts H \<union> fires ms \<and>
     heap_intervals H \<subseteq> LI \<and> LI \<subseteq> heap_intervals H \<union> ticks ms \<union> R"

definition covered :: "(nat \<rightharpoonup> 'c timer_node) \<Rightarrow> nat option \<Rightarrow> bool" where
  "covered H dl \<longleftrightarrow> (\<forall>n \<in> ran H. \<exists>d. dl = Some d \<and> d \<le> deadline n)"

definition sched_ok :: "'c sched \<Rightarrow> nat set \<Rightarrow> bool" where
  "sched_ok s R \<longleftrightarrow>
     heap_inv (timers s) \<and>
     timers_ok (heap_map (timers s)) (local_macrotasks s) R (live_timeouts s) (dom (live_intervals s)) (next_timer_id s) \<and>
     covered (heap_map (timers s)) (driver_deadline s)"

lemma queued_simps [simp]:
  "queued_ids [] = []" "queued_ids (m # ms) = timer_ids m @ queued_ids ms"
  "queued_ids (ms @ ns) = queued_ids ms @ queued_ids ns"
  "fires [] = {}" "fires (ms @ ns) = fires ms \<union> fires ns" "ticks [] = {}" "ticks (ms @ ns) = ticks ms \<union> ticks ns"
  "fires (Closure c # ms) = fires ms" "ticks (Closure c # ms) = ticks ms"
  "fires (FireTimeout i c # ms) = insert i (fires ms)" "ticks (FireTimeout i c # ms) = ticks ms"
  "fires (IntervalTick i d # ms) = fires ms" "ticks (IntervalTick i d # ms) = insert i (ticks ms)"
  by (auto simp: queued_ids_def fires_def ticks_def)

lemma queued_closures [simp]:
  "queued_ids (map Closure cs) = []" "fires (map Closure cs) = {}" "ticks (map Closure cs) = {}"
  by (auto simp: queued_ids_def fires_def ticks_def)

lemma queued_sets: "set (queued_ids ms) = fires ms \<union> ticks ms"
proof (induction ms)
  case (Cons m ms)
  then show ?case by (cases m) auto
qed simp

lemma heap_kinds_upd [simp]:
  "heap_timeouts (H(i := None)) = heap_timeouts H - {i}" "heap_intervals (H(i := None)) = heap_intervals H - {i}"
  "heap_timeouts (H(i \<mapsto> timeout_node j d c)) = insert i (heap_timeouts H)"
  "heap_intervals (H(i \<mapsto> timeout_node j d c)) = heap_intervals H - {i}"
  "heap_timeouts (H(i \<mapsto> interval_node j d)) = heap_timeouts H - {i}"
  "heap_intervals (H(i \<mapsto> interval_node j d)) = insert i (heap_intervals H)"
  by (auto simp: heap_timeouts_def heap_intervals_def timeout_node_def interval_node_def split: if_splits)

lemma heap_kinds_dom: "heap_timeouts H \<union> heap_intervals H = dom H"
proof (intro equalityI subsetI)
  fix i
  assume "i \<in> dom H"
  then obtain n where "H i = Some n" by auto
  then show "i \<in> heap_timeouts H \<union> heap_intervals H"
    by (cases "kind n") (auto simp: heap_timeouts_def heap_intervals_def)
qed (auto simp: heap_timeouts_def heap_intervals_def)

lemma heap_kinds_disjoint: "heap_timeouts H \<inter> heap_intervals H = {}"
  by (auto simp: heap_timeouts_def heap_intervals_def)

lemma timers_ok_timeout:
  assumes "timers_ok H ms R LT LI k"
  shows "timers_ok (H(k \<mapsto> timeout_node k d c)) ms R (insert k LT) LI (Suc k)"
proof -
  have k: "k \<notin> dom H" "k \<notin> set (queued_ids ms)" "k \<notin> R"
    using assms by (auto simp: timers_ok_def)
  then have "k \<notin> heap_intervals H" using heap_kinds_dom [of H] by blast
  with assms k show ?thesis
    unfolding timers_ok_def by (elim conjE, intro conjI) (auto simp: less_Suc_eq)
qed

lemma timers_ok_interval:
  assumes "timers_ok H ms R LT LI k"
  shows "timers_ok (H(k \<mapsto> interval_node k d)) ms R LT (insert k LI) (Suc k)"
proof -
  have k: "k \<notin> dom H" "k \<notin> set (queued_ids ms)" "k \<notin> R"
    using assms by (auto simp: timers_ok_def)
  then have "k \<notin> heap_timeouts H" using heap_kinds_dom [of H] by blast
  with assms k show ?thesis
    unfolding timers_ok_def by (elim conjE, intro conjI) (auto simp: less_Suc_eq)
qed

lemma timers_ok_zero_interval:
  assumes "timers_ok H ms R LT LI k"
  shows "timers_ok H (ms @ [IntervalTick k d]) R LT (insert k LI) (Suc k)"
  using assms unfolding timers_ok_def by (elim conjE, intro conjI) (auto simp: less_Suc_eq)

lemma timers_ok_clear:
  assumes "timers_ok H ms R LT LI k"
  shows "timers_ok (H(i := None)) ms R (LT - {i}) (LI - {i}) k"
  using assms unfolding timers_ok_def by (elim conjE, intro conjI) auto

lemma timers_ok_closures: "timers_ok H (ms @ map Closure cs) R LT LI k = timers_ok H ms R LT LI k"
  by (simp add: timers_ok_def)

lemma timers_ok_pop_closure: "timers_ok H (Closure c # ms) R LT LI k = timers_ok H ms R LT LI k"
  by (simp add: timers_ok_def)

lemma timers_ok_pop_timeout:
  assumes "timers_ok H (FireTimeout i c # ms) R LT LI k"
  shows "timers_ok H ms R (LT - {i}) LI k"
proof -
  have "i \<notin> heap_timeouts H" using assms heap_kinds_dom [of H] by (auto simp: timers_ok_def)
  with assms show ?thesis unfolding timers_ok_def by (elim conjE, intro conjI) auto
qed

lemma timers_ok_pop_tick:
  assumes "timers_ok H (IntervalTick i d # ms) {} LT LI k"
  shows "timers_ok H ms {i} LT LI k" "i \<notin> LI \<Longrightarrow> timers_ok H ms {} LT LI k"
  using assms unfolding timers_ok_def by auto

lemma timers_ok_tick_stop:
  assumes "timers_ok H ms {i} LT LI k"
  shows "timers_ok H ms {} LT (LI - {i}) k"
proof -
  have "i \<notin> heap_intervals H" using assms heap_kinds_dom [of H] by (auto simp: timers_ok_def)
  with assms show ?thesis unfolding timers_ok_def by (elim conjE, intro conjI) auto
qed

lemma timers_ok_tick_requeue:
  "timers_ok H ms {i} LT LI k \<Longrightarrow> timers_ok H (ms @ [IntervalTick i d]) {} LT LI k"
  unfolding timers_ok_def by (elim conjE, intro conjI) auto

lemma timers_ok_tick_rearm:
  assumes "timers_ok H ms {i} LT LI k" and "i \<in> LI"
  shows "timers_ok (H(i \<mapsto> interval_node i d)) ms {} LT LI k"
proof -
  have "i \<notin> heap_timeouts H" using assms(1) heap_kinds_dom [of H] by (auto simp: timers_ok_def)
  with assms show ?thesis unfolding timers_ok_def by (elim conjE, intro conjI) auto
qed

text \<open>Expiry moves the due timers, and only them, from the heap into the queue.\<close>

lemma queued_expired: "queued_ids (map expired_task due) = map node_id due"
proof (induction due)
  case (Cons n due)
  then show ?case by (cases "kind n") auto
qed simp

lemma expired_task_eq:
  "FireTimeout i c = expired_task n \<longleftrightarrow> node_id n = i \<and> kind n = Timeout c"
  "IntervalTick i d = expired_task n \<longleftrightarrow> node_id n = i \<and> deadline n = d \<and> kind n = Interval"
  by (cases "kind n"; auto)+

definition due_ids :: "nat \<Rightarrow> (nat \<rightharpoonup> 'c timer_node) \<Rightarrow> nat set" where
  "due_ids now H = {i. \<exists>n. H i = Some n \<and> deadline n \<le> now}"

lemma expired_kinds:
  assumes "\<And>i n. H i = Some n \<Longrightarrow> node_id n = i" and "set due = {n \<in> ran H. deadline n \<le> now}"
  shows "node_id ` set due = due_ids now H"
    and "fires (map expired_task due) = heap_timeouts H \<inter> due_ids now H"
    and "ticks (map expired_task due) = heap_intervals H \<inter> due_ids now H"
proof -
  have mem: "n \<in> set due \<longleftrightarrow> H (node_id n) = Some n \<and> deadline n \<le> now" for n
    using assms by (auto simp: ran_def)
  have ex: "(\<exists>n \<in> set due. node_id n = i \<and> P n) \<longleftrightarrow> (\<exists>n. H i = Some n \<and> deadline n \<le> now \<and> P n)" for i P
    using assms(1) mem by metis
  show "node_id ` set due = due_ids now H"
    using ex [of _ "\<lambda>_. True"] by (simp add: set_eq_iff due_ids_def image_iff) (simp add: eq_commute)
  show "fires (map expired_task due) = heap_timeouts H \<inter> due_ids now H"
    unfolding fires_def set_map image_iff expired_task_eq
    using ex [of _ "\<lambda>n. \<exists>c. kind n = Timeout c"] by (fastforce simp: heap_timeouts_def due_ids_def)
  show "ticks (map expired_task due) = heap_intervals H \<inter> due_ids now H"
    unfolding ticks_def set_map image_iff expired_task_eq
    using ex [of _ "\<lambda>n. kind n = Interval"] by (fastforce simp: heap_intervals_def due_ids_def)
qed

lemma timers_ok_expire:
  assumes "timers_ok H ms R LT LI k" and "\<And>i n. H i = Some n \<Longrightarrow> node_id n = i"
    and "set due = {n \<in> ran H. deadline n \<le> now}" and "distinct (map node_id due)"
  shows "timers_ok (not_due deadline now H) (ms @ map expired_task due) R LT LI k"
proof -
  let ?D = "due_ids now H"
  note e = expired_kinds [OF assms(2,3)]
  have d: "dom (not_due deadline now H) = dom H - ?D"
    by (auto simp: due_ids_def not_due_def split: option.splits if_splits)
  have t: "heap_timeouts (not_due deadline now H) = heap_timeouts H - ?D"
    "heap_intervals (not_due deadline now H) = heap_intervals H - ?D"
    by (auto simp: due_ids_def heap_timeouts_def heap_intervals_def)
  have "?D \<subseteq> dom H" by (auto simp: due_ids_def)
  moreover from this have "set (queued_ids ms) \<inter> ?D = {}" using assms(1) by (auto simp: timers_ok_def)
  ultimately show ?thesis
    using assms(1,4) unfolding timers_ok_def d t
    by (elim conjE, intro conjI) (auto simp: queued_expired e)
qed

subsection \<open>Every operation keeps the timers in order\<close>

lemma sched_okD:
  assumes "sched_ok s R"
  shows "heap_inv (timers s)"
    "timers_ok (heap_map (timers s)) (local_macrotasks s) R (live_timeouts s) (dom (live_intervals s)) (next_timer_id s)"
    "covered (heap_map (timers s)) (driver_deadline s)"
  using assms by (simp_all add: sched_ok_def)

lemma fold_push: "fold (\<lambda>x. push_local_macrotask (f x)) xs s = s\<lparr>local_macrotasks := local_macrotasks s @ map f xs\<rparr>"
  by (induction xs arbitrary: s) (simp_all add: push_local_macrotask_def)

lemma covered_peek: "heap_inv h \<Longrightarrow> covered (heap_map h) (peek_deadline h)"
  using heap.finite_abs [of h]
  by (auto simp: covered_def peek_deadline_least intro: Min_le)

lemma covered_mono: "covered H dl \<Longrightarrow> ran H' \<subseteq> ran H \<Longrightarrow> covered H' dl"
  by (auto simp: covered_def)

text \<open>Inserting a timer whose id is in use nowhere.\<close>

lemma insert_timer_ok:
  assumes "heap_inv (timers s)" and "heap_map (timers s) (node_id n) = None"
  shows "\<exists>h. insert_timer n s = Some (s\<lparr>timers := h, driver_deadline := peek_deadline h\<rparr>) \<and> heap_inv h \<and>
    heap_map h = (heap_map (timers s))(node_id n \<mapsto> n)"
  using heap.insert_spec [OF assms] by (auto simp: insert_timer_def rearm_thread_timer_def)

lemma timers_ok_fresh:
  "timers_ok H ms R LT LI k \<Longrightarrow> H k = None" "timers_ok H ms {i} LT LI k \<Longrightarrow> H i = None"
  by (auto simp: timers_ok_def)

lemma timeout_ok:
  assumes "sched_ok s R" and "Suc (next_timer_id s) < u64_modulus"
  shows "\<exists>s'. timeout now delay c s = Some (s', next_timer_id s, generation s) \<and> sched_ok s' R"
proof -
  let ?i = "next_timer_id s" and ?d = "deadline_add now delay"
  note ok = sched_okD [OF assms(1)]
  obtain h where h: "insert_timer (timeout_node ?i ?d c) (s\<lparr>next_timer_id := Suc ?i, live_timeouts := insert ?i (live_timeouts s)\<rparr>)
      = Some (s\<lparr>next_timer_id := Suc ?i, live_timeouts := insert ?i (live_timeouts s), timers := h,
                driver_deadline := peek_deadline h\<rparr>)" "heap_inv h"
      "heap_map h = (heap_map (timers s))(?i \<mapsto> timeout_node ?i ?d c)"
    using insert_timer_ok [of "s\<lparr>next_timer_id := Suc ?i, live_timeouts := insert ?i (live_timeouts s)\<rparr>"
        "timeout_node ?i ?d c"] ok(1) timers_ok_fresh(1) [OF ok(2)] by (auto simp: timeout_node_def)
  have "timeout now delay c s = Some (s\<lparr>next_timer_id := Suc ?i, live_timeouts := insert ?i (live_timeouts s),
      timers := h, driver_deadline := peek_deadline h\<rparr>, ?i, generation s)"
    using h(1) assms(2) by (simp add: timeout_def allocate_timer_id_def checked_add_def)
  moreover have "timers_ok (heap_map h) (local_macrotasks s) R (insert ?i (live_timeouts s)) (dom (live_intervals s)) (Suc ?i)"
    unfolding h(3) using ok(2) by (rule timers_ok_timeout)
  ultimately show ?thesis using h(2) by (simp add: sched_ok_def covered_peek)
qed

lemma interval_ok:
  assumes "sched_ok s R" and "Suc (next_timer_id s) < u64_modulus"
  shows "\<exists>s'. interval now delay c s = Some (s', next_timer_id s, generation s) \<and> sched_ok s' R"
proof -
  let ?i = "next_timer_id s" and ?d = "deadline_add now delay"
  let ?s = "s\<lparr>next_timer_id := Suc ?i, live_intervals := (live_intervals s)(?i \<mapsto> (c, delay))\<rparr>"
  note ok = sched_okD [OF assms(1)]
  show ?thesis
  proof (cases "delay = 0")
    case True
    have "timers_ok (heap_map (timers s)) (local_macrotasks s @ [IntervalTick ?i (deadline_add now 0)]) R
        (live_timeouts s) (insert ?i (dom (live_intervals s))) (Suc ?i)"
      using ok(2) by (rule timers_ok_zero_interval)
    with True ok assms(2) show ?thesis
      by (simp add: interval_def allocate_timer_id_def checked_add_def schedule_interval_macrotask_def
          push_local_macrotask_def sched_ok_def)
  next
    case False
    obtain h where h: "insert_timer (interval_node ?i ?d) ?s = Some (?s\<lparr>timers := h, driver_deadline := peek_deadline h\<rparr>)"
        "heap_inv h" "heap_map h = (heap_map (timers s))(?i \<mapsto> interval_node ?i ?d)"
      using insert_timer_ok [of ?s "interval_node ?i ?d"] ok(1) timers_ok_fresh(1) [OF ok(2)]
      by (auto simp: interval_node_def)
    have "interval now delay c s = Some (?s\<lparr>timers := h, driver_deadline := peek_deadline h\<rparr>, ?i, generation s)"
      using h(1) False assms(2) by (simp add: interval_def allocate_timer_id_def checked_add_def)
    moreover have "timers_ok (heap_map h) (local_macrotasks s) R (live_timeouts s) (insert ?i (dom (live_intervals s))) (Suc ?i)"
      unfolding h(3) using ok(2) by (rule timers_ok_interval)
    ultimately show ?thesis using h(2) by (simp add: sched_ok_def covered_peek)
  qed
qed

lemma clear_timer_ok:
  assumes "sched_ok s R"
  shows "\<exists>s'. clear_timer g i s = Some s' \<and> sched_ok s' R"
proof -
  note ok = sched_okD [OF assms(1)]
  obtain h where h: "heap_remove (timers s) i = Some (h, heap_map (timers s) i)" "heap_inv h"
      "heap_map h = (heap_map (timers s))(i := None)"
    using heap.remove_spec [OF ok(1)] by blast
  have "ran (heap_map h) \<subseteq> ran (heap_map (timers s))" by (auto simp: h(3) ran_def split: if_splits)
  then have c: "covered (heap_map h) (driver_deadline s)" using ok(3) by (auto intro: covered_mono)
  have "dom ((live_intervals s)(i := None)) = dom (live_intervals s) - {i}" by auto
  then have "timers_ok (heap_map h) (local_macrotasks s) R (live_timeouts s - {i})
      (dom ((live_intervals s)(i := None))) (next_timer_id s)"
    unfolding h(3) using timers_ok_clear [OF ok(2)] by simp
  with h(1,2) c assms show ?thesis
    by (simp add: clear_timer_def sched_ok_def rearm_thread_timer_def covered_peek Let_def)
qed

lemma dispatch_ok:
  assumes "sched_ok s R"
  shows "\<exists>h due. dispatch_expired_timers now s = Some (s\<lparr>timers := h, driver_deadline := peek_deadline h,
        local_macrotasks := local_macrotasks s @ map expired_task due,
        turn := turn (if due = [] then s else count_timers (length due) s)\<rparr>) \<and>
      pop_due (timers s) now = Some (h, due) \<and>
      sched_ok (s\<lparr>timers := h, driver_deadline := peek_deadline h,
        local_macrotasks := local_macrotasks s @ map expired_task due,
        turn := turn (if due = [] then s else count_timers (length due) s)\<rparr>) R"
proof -
  note ok = sched_okD [OF assms(1)]
  obtain h due where p: "pop_due (timers s) now = Some (h, due)" "heap_inv h"
      "sorted_wrt (<) (map (\<lambda>n. (deadline n, node_id n)) due)"
      "set due = {n \<in> ran (heap_map (timers s)). deadline n \<le> now}"
      "heap_map h = not_due deadline now (heap_map (timers s))"
    using heap.pop_due_spec [OF ok(1), of now] by blast
  have "distinct (map (\<lambda>n. (deadline n, node_id n)) due)" using p(3) by (simp add: strict_sorted_iff)
  moreover have "inj_on node_id (set due)"
    using p(4) heap.abs_id [OF ok(1)] by (auto simp: inj_on_def ran_def)
  ultimately have d: "distinct (map node_id due)" by (auto simp: distinct_map)
  have "timers_ok (heap_map h) (local_macrotasks s @ map expired_task due) R (live_timeouts s)
      (dom (live_intervals s)) (next_timer_id s)"
    unfolding p(5) by (rule timers_ok_expire [OF ok(2) _ p(4) d]) (rule heap.abs_id [OF ok(1)])
  then show ?thesis
    using p(1,2) by (intro exI [of _ h] exI [of _ due])
      (auto simp: dispatch_expired_timers_def sched_ok_def covered_peek rearm_thread_timer_def fold_push
        count_timers_def Let_def)
qed

lemma tick_end_ok:
  assumes "sched_ok s {i}"
  shows "\<exists>s'. tick_end now i d panicked s = Some s' \<and> sched_ok s' {}"
proof -
  note ok = sched_okD [OF assms(1)]
  note fresh = timers_ok_fresh(2) [OF ok(2)]
  consider (panic) panicked | (cleared) "\<not> panicked" "live_intervals s i = None"
    | (next_tick) c every where "\<not> panicked" "live_intervals s i = Some (c, every)" "deadline_add d every \<le> now"
    | (rearm) c every where "\<not> panicked" "live_intervals s i = Some (c, every)" "\<not> deadline_add d every \<le> now"
    by (cases "live_intervals s i") auto
  then show ?thesis
  proof cases
    case panic
    obtain h where h: "heap_remove (timers s) i = Some (h, None)" "heap_inv h" "heap_map h = heap_map (timers s)"
      using heap.remove_spec [OF ok(1), of i] fresh by (auto simp: fun_upd_idem)
    have "dom ((live_intervals s)(i := None)) = dom (live_intervals s) - {i}" by auto
    with panic h ok timers_ok_tick_stop [OF ok(2)] show ?thesis by (simp add: tick_end_def sched_ok_def)
  next
    case cleared
    then have "dom (live_intervals s) - {i} = dom (live_intervals s)" by auto
    with cleared ok timers_ok_tick_stop [OF ok(2)] show ?thesis by (simp add: tick_end_def sched_ok_def)
  next
    case next_tick
    with ok timers_ok_tick_requeue [OF ok(2)] show ?thesis
      by (simp add: tick_end_def sched_ok_def Let_def schedule_interval_macrotask_def push_local_macrotask_def)
  next
    case rearm
    let ?n = "interval_node i (deadline_add d every)"
    obtain h where h: "insert_timer ?n s = Some (s\<lparr>timers := h, driver_deadline := peek_deadline h\<rparr>)"
        "heap_inv h" "heap_map h = (heap_map (timers s))(i \<mapsto> ?n)"
      using insert_timer_ok [of s ?n] ok(1) fresh by (auto simp: interval_node_def)
    have "i \<in> dom (live_intervals s)" using rearm by auto
    then have "timers_ok (heap_map h) (local_macrotasks s) {} (live_timeouts s) (dom (live_intervals s)) (next_timer_id s)"
      unfolding h(3) by (rule timers_ok_tick_rearm [OF ok(2)])
    with rearm h(1,2) show ?thesis by (simp add: tick_end_def sched_ok_def Let_def covered_peek)
  qed
qed

text \<open>The operations that leave the timers alone.\<close>

lemma sched_ok_queue:
  assumes "sched_ok s R" and "timers s' = timers s" and "driver_deadline s' = driver_deadline s"
    and "local_macrotasks s' = local_macrotasks s @ map Closure cs" and "live_timeouts s' = live_timeouts s"
    and "live_intervals s' = live_intervals s" and "next_timer_id s' = next_timer_id s"
  shows "sched_ok s' R"
  using assms by (simp add: sched_ok_def timers_ok_closures)

lemmas sched_ok_same = sched_ok_queue [where cs = "[]", simplified]

lemma drain_remote_simps:
  "drain_remote_tasks s = s\<lparr>thread_shared := (thread_shared s)\<lparr>remote_macrotasks := []\<rparr>,
     local_macrotasks := local_macrotasks s @ map Closure (remote_macrotasks (thread_shared s)),
     turn := turn (drain_remote_tasks s)\<rparr>"
  by (simp add: drain_remote_tasks_def take_remote_def Let_def fold_push)

lemma drain_workers_simps:
  "drain_completed_workers fin s = s\<lparr>children := fst (reap fin 0 (children s) []),
     local_macrotasks := local_macrotasks s @ map Closure (List.map_filter snd (snd (reap fin 0 (children s) []))),
     turn := turn (drain_completed_workers fin s)\<rparr>"
  by (simp add: drain_completed_workers_def Let_def fold_push List.map_filter_def split: prod.split)

lemma note_events_simps: "note_events r w s = s\<lparr>turn := turn (note_events r w s)\<rparr>"
  by (simp add: note_events_def Let_def)

lemma sched_ok_turn: "sched_ok (s\<lparr>turn := t\<rparr>) R = sched_ok s R"
  by (simp add: sched_ok_def)

text \<open>\<open>drain_driver_events\<close> changes only what dispatching timers changes.\<close>

definition same_but_timers :: "'c sched \<Rightarrow> 'c sched \<Rightarrow> bool" where
  "same_but_timers s s' \<longleftrightarrow>
     local_microtasks s' = local_microtasks s \<and> live_timeouts s' = live_timeouts s \<and>
     live_intervals s' = live_intervals s \<and> next_timer_id s' = next_timer_id s \<and> tasks s' = tasks s \<and>
     children s' = children s \<and> in_event_loop s' = in_event_loop s \<and> generation s' = generation s \<and>
     is_worker s' = is_worker s \<and> thread_shared s' = thread_shared s"

lemma same_but_timers_trans: "same_but_timers a b \<Longrightarrow> same_but_timers b c \<Longrightarrow> same_but_timers a c"
  by (simp add: same_but_timers_def)

lemma drain_driver_ok:
  assumes "sched_ok s R"
  shows "\<exists>s'. drain_driver_events evs s = Some s' \<and> sched_ok s' R \<and> same_but_timers s s'"
  using assms
proof (induction evs arbitrary: s)
  case Nil
  then show ?case by (simp add: same_but_timers_def)
next
  case (Cons e evs)
  obtain r w now where e: "e = (r, w, now)" by (cases e)
  let ?n = "note_events r w s"
  have n: "sched_ok ?n R" "same_but_timers s ?n"
    using Cons.prems note_events_simps [of r w s] sched_ok_turn [where s = s and t = "turn ?n" and R = R]
    by (auto simp: same_but_timers_def note_events_def Let_def)
  have "\<exists>s1. dispatch_expired_timers now ?n = Some s1 \<and> sched_ok s1 R \<and> same_but_timers ?n s1"
    using dispatch_ok [OF n(1), of now] by (elim exE conjE) (auto simp: same_but_timers_def)
  then obtain s1 where s1: "(if ready_timer r then dispatch_expired_timers now ?n else Some ?n) = Some s1"
      "sched_ok s1 R" "same_but_timers s s1"
    using n same_but_timers_trans by (metis (no_types, lifting))
  obtain s2 where "drain_driver_events evs s1 = Some s2" "sched_ok s2 R" "same_but_timers s1 s2"
    using Cons.IH [OF s1(2)] by blast
  with s1 same_but_timers_trans [of s s1 s2] show ?case by (simp add: e)
qed

subsection \<open>The invariant of the event loop\<close>

fun tick_of :: "lpc \<Rightarrow> nat set" where
  "tick_of (InTick i _) = {i}"
| "tick_of _ = {}"

fun place_ok :: "lpc \<Rightarrow> 'c sched \<Rightarrow> bool" where
  "place_ok PopMacro r \<longleftrightarrow> local_microtasks r = []"
| "place_ok BusyCheck r \<longleftrightarrow> local_microtasks r = [] \<and> local_macrotasks r = []"
| "place_ok Committing r \<longleftrightarrow>
     local_microtasks r = [] \<and> local_macrotasks r = [] \<and> heap_is_empty (timers r) \<and> children r = []"
| "place_ok _ r \<longleftrightarrow> True"

definition loop_inv :: "'c event_loop \<Rightarrow> bool" where
  "loop_inv s \<longleftrightarrow>
     sched_ok (sc s) (tick_of (lpc s)) \<and> (in_event_loop (sc s) \<longleftrightarrow> lpc s \<noteq> Outside) \<and> place_ok (lpc s) (sc s)"

definition loop_init :: "'c event_loop \<Rightarrow> bool" where
  "loop_init s \<longleftrightarrow>
     (\<exists>cap gen worker e w now. s = \<lparr>sc = sched_new (with_remote_capacity cap) gen worker, lpc = Outside,
        loop_entry = e, woken = w, clock = now\<rparr>)"

definition live_frame :: "'c sched \<Rightarrow> nat \<Rightarrow> nat set \<Rightarrow> (nat \<rightharpoonup> 'c \<times> nat) \<Rightarrow> 'c sched \<Rightarrow> bool" where
  "live_frame s k LT LI s' \<longleftrightarrow>
     in_event_loop s' = in_event_loop s \<and> next_timer_id s' = k \<and> live_timeouts s' = LT \<and> live_intervals s' = LI"

lemma insert_timer_frame:
  "insert_timer n s = Some s' \<Longrightarrow> live_frame s (next_timer_id s) (live_timeouts s) (live_intervals s) s'"
  by (auto simp: insert_timer_def rearm_thread_timer_def live_frame_def bind_eq_Some_conv)

lemma allocate_timer_idD:
  "allocate_timer_id s = Some (s', i) \<Longrightarrow>
     Suc (next_timer_id s) < u64_modulus \<and> i = next_timer_id s \<and> s' = s\<lparr>next_timer_id := Suc (next_timer_id s)\<rparr>"
  by (auto simp: allocate_timer_id_def checked_add_def bind_eq_Some_conv split: if_splits)

lemma timeout_frame:
  assumes "timeout now delay c s = Some (s', i, g)"
  shows "Suc (next_timer_id s) < u64_modulus"
    "live_frame s (Suc (next_timer_id s)) (insert (next_timer_id s) (live_timeouts s)) (live_intervals s) s'"
  using assms by (auto simp: timeout_def bind_eq_Some_conv live_frame_def
      dest!: allocate_timer_idD insert_timer_frame)

lemma interval_frame:
  assumes "interval now delay c s = Some (s', i, g)"
  shows "Suc (next_timer_id s) < u64_modulus"
    "live_frame s (Suc (next_timer_id s)) (live_timeouts s) ((live_intervals s)(next_timer_id s \<mapsto> (c, delay))) s'"
  using assms by (auto simp: interval_def bind_eq_Some_conv live_frame_def schedule_interval_macrotask_def
      push_local_macrotask_def Let_def dest!: allocate_timer_idD insert_timer_frame split: if_splits)

lemma clear_timer_frame:
  assumes "clear_timer g i s = Some s'"
  shows "live_frame s (next_timer_id s) (if g = generation s then live_timeouts s - {i} else live_timeouts s)
    (if g = generation s then (live_intervals s)(i := None) else live_intervals s) s'"
proof (cases "g = generation s")
  case True
  obtain h n where "heap_remove (timers s) i = Some (h, n)"
    using assms True by (auto simp: clear_timer_def bind_eq_Some_conv)
  with assms True show ?thesis
    by (cases n) (auto simp: clear_timer_def live_frame_def rearm_thread_timer_def Let_def)
qed (use assms in \<open>simp add: clear_timer_def live_frame_def\<close>)

lemma clear_timer_idle:
  assumes "clear_timer g i s = Some s'"
  shows "local_microtasks s' = local_microtasks s" "thread_shared s' = thread_shared s" "children s' = children s"
    "tearing_down s' = tearing_down s"
proof -
  obtain h n where h: "g = generation s \<Longrightarrow> heap_remove (timers s) i = Some (h, n)"
    using assms by (fastforce simp: clear_timer_def bind_eq_Some_conv split: if_splits)
  show "local_microtasks s' = local_microtasks s" "thread_shared s' = thread_shared s" "children s' = children s"
    "tearing_down s' = tearing_down s"
    using assms h by (cases "g = generation s"; cases n; auto simp: clear_timer_def rearm_thread_timer_def Let_def)+
qed

lemma tick_end_frame:
  assumes "tick_end now i d p s = Some s'"
  shows "live_frame s (next_timer_id s) (live_timeouts s)
    (if p then (live_intervals s)(i := None) else live_intervals s) s'"
  using assms by (auto simp: tick_end_def bind_eq_Some_conv live_frame_def schedule_interval_macrotask_def
      push_local_macrotask_def Let_def dest!: insert_timer_frame split: if_splits option.splits)

lemma live_frame_loop: "live_frame s k LT LI s' \<Longrightarrow> in_event_loop s' = in_event_loop s"
  by (simp add: live_frame_def)

lemma user_op_ok:
  assumes "user_op now s s'" and "sched_ok s R"
  shows "sched_ok s' R \<and> in_event_loop s' = in_event_loop s"
  using assms(1)
proof cases
  case (uo_task c)
  then show ?thesis using sched_ok_queue [OF assms(2), of s' "[c]"]
    by (simp add: queue_task_def push_local_macrotask_def)
next
  case (uo_timeout delay c i g)
  with timeout_frame [OF uo_timeout] timeout_ok [OF assms(2), of now delay c] show ?thesis
    by (auto dest: live_frame_loop)
next
  case (uo_interval delay c i g)
  with interval_frame [OF uo_interval] interval_ok [OF assms(2), of now delay c] show ?thesis
    by (auto dest: live_frame_loop)
next
  case (uo_clear g i)
  with clear_timer_frame [OF uo_clear] clear_timer_ok [OF assms(2), of g i] show ?thesis
    by (auto dest: live_frame_loop)
qed (use sched_ok_same [OF assms(2), of s'] in \<open>simp_all add: queue_microtask_def\<close>)

lemma pop_macrotaskD:
  "pop_macrotask s = (r, Some m) \<Longrightarrow> \<exists>ms. local_macrotasks s = m # ms \<and>
     r = s\<lparr>local_macrotasks := ms, macrotasks_run := wrapping_succ (macrotasks_run s)\<rparr>"
  "pop_macrotask s = (r, None) \<Longrightarrow> r = s \<and> local_macrotasks s = []"
  by (auto simp: pop_macrotask_def split: list.splits)

lemma pop_microtaskD:
  "pop_microtask s = (r, Some c) \<Longrightarrow> \<exists>cs. local_microtasks s = c # cs \<and> r = s\<lparr>local_microtasks := cs\<rparr>"
  "pop_microtask s = (r, None) \<Longrightarrow> r = s \<and> local_microtasks s = []"
  by (auto simp: pop_microtask_def split: list.splits)

lemma after_microtask_simps:
  "after_microtask now k w s = (r, w') \<Longrightarrow>
     r = s\<lparr>microtasks_run := wrapping_succ (microtasks_run s), turn := turn r\<rparr>"
  by (auto simp: after_microtask_def Let_def split: if_splits)

lemma sched_ok_pop:
  assumes "sched_ok s {}" and "pop_macrotask s = (r, Some m)"
  shows "m = Closure c \<Longrightarrow> sched_ok r {}"
    and "m = FireTimeout i c \<Longrightarrow> sched_ok (fst (fire_timeout i r)) {}"
    and "m = IntervalTick i d \<Longrightarrow> sched_ok r {i}"
    and "m = IntervalTick i d \<Longrightarrow> tick_begin i r = None \<Longrightarrow> sched_ok r {}"
proof -
  obtain ms where m: "local_macrotasks s = m # ms"
      "r = s\<lparr>local_macrotasks := ms, macrotasks_run := wrapping_succ (macrotasks_run s)\<rparr>"
    using pop_macrotaskD(1) [OF assms(2)] by blast
  note ok = sched_okD [OF assms(1)]
  show "m = Closure c \<Longrightarrow> sched_ok r {}"
    using ok by (simp add: m sched_ok_def timers_ok_pop_closure)
  show "m = FireTimeout i c \<Longrightarrow> sched_ok (fst (fire_timeout i r)) {}"
    using ok timers_ok_pop_timeout by (auto simp: m sched_ok_def fire_timeout_def)
  show "m = IntervalTick i d \<Longrightarrow> sched_ok r {i}"
    using ok timers_ok_pop_tick(1) by (auto simp: m sched_ok_def)
  show "m = IntervalTick i d \<Longrightarrow> tick_begin i r = None \<Longrightarrow> sched_ok r {}"
    using ok timers_ok_pop_tick(2) by (fastforce simp: m sched_ok_def tick_begin_def)
qed

lemma commit_idle_simps:
  "commit_idle s = (r, ic) \<Longrightarrow> timers r = timers s \<and> driver_deadline r = driver_deadline s \<and>
     local_macrotasks r = local_macrotasks s \<and> live_timeouts r = live_timeouts s \<and>
     live_intervals r = live_intervals s \<and> next_timer_id r = next_timer_id s \<and> in_event_loop r = in_event_loop s"
  by (auto simp: commit_idle_def Let_def split: if_splits)

lemma loop_inv_step:
  assumes "loop_inv s" and "loop_step s l t"
  shows "loop_inv t"
proof -
  have ok: "sched_ok (sc s) (tick_of (lpc s))" and il: "in_event_loop (sc s) \<longleftrightarrow> lpc s \<noteq> Outside"
    and pl: "place_ok (lpc s) (sc s)"
    using assms(1) by (simp_all add: loop_inv_def)
  from assms(2) show ?thesis
  proof cases
    case (ls_driver st evs r)
    then show ?thesis
      using ok il drain_driver_ok [of "sc s" "{}" evs] by (auto simp: loop_inv_def same_but_timers_def)
  next
    case (ls_remote st)
    have "sched_ok (drain_remote_tasks (sc s)) {}"
      by (subst drain_remote_simps, rule sched_ok_queue) (use ls_remote ok in auto)
    moreover have "in_event_loop (drain_remote_tasks (sc s)) = in_event_loop (sc s)"
      by (subst drain_remote_simps) simp
    ultimately show ?thesis using ls_remote il by (simp add: loop_inv_def)
  next
    case (ls_workers st fin)
    have "sched_ok (drain_completed_workers fin (sc s)) {}"
      by (subst drain_workers_simps, rule sched_ok_queue) (use ls_workers ok in auto)
    moreover have "in_event_loop (drain_completed_workers fin (sc s)) = in_event_loop (sc s)"
      by (subst drain_workers_simps) simp
    ultimately show ?thesis using ls_workers il by (simp add: loop_inv_def after_workers_def)
  next
    case (ls_micro k w r c)
    then show ?thesis
      using ok il by (auto dest!: pop_microtaskD simp: loop_inv_def intro: sched_ok_same)
  next
    case (ls_micro_end k w r w')
    have r: "r = (sc s)\<lparr>microtasks_run := wrapping_succ (microtasks_run (sc s)), turn := turn r\<rparr>"
      using ls_micro_end by (simp add: after_microtask_simps)
    have "sched_ok r {}" by (subst r, rule sched_ok_same) (use ok ls_micro_end in auto)
    moreover have "in_event_loop r = in_event_loop (sc s)" by (subst r) simp
    ultimately show ?thesis using ls_micro_end il by (simp add: loop_inv_def)
  next
    case (ls_micro_done k w r)
    then show ?thesis using ok il by (auto dest!: pop_microtaskD simp: loop_inv_def)
  next
    case (ls_closure r c)
    then show ?thesis
      using sched_ok_pop(1) [of "sc s" r "Closure c" c] ok il by (auto dest: pop_macrotaskD simp: loop_inv_def)
  next
    case (ls_timeout r i c r' live)
    then show ?thesis
      using sched_ok_pop(2) [of "sc s" r "FireTimeout i c" i c] ok il
      by (auto dest!: pop_macrotaskD simp: loop_inv_def fire_timeout_def)
  next
    case (ls_tick r i d c)
    then show ?thesis
      using sched_ok_pop(3) [of "sc s" r "IntervalTick i d" i d] ok il
      by (auto dest: pop_macrotaskD simp: loop_inv_def)
  next
    case (ls_tick_cleared r i d)
    then show ?thesis
      using sched_ok_pop(4) [of "sc s" r "IntervalTick i d" i d] ok il
      by (auto dest: pop_macrotaskD simp: loop_inv_def)
  next
    case (ls_tick_end i d panicked r)
    then show ?thesis
      using tick_end_ok [of "sc s" i "clock s" d panicked] live_frame_loop [OF tick_end_frame [OF ls_tick_end(4)]] ok il
      by (auto simp: loop_inv_def)
  next
    case (ls_user r)
    then show ?thesis
      using user_op_ok [OF ls_user(4) ok] il pl by (cases "lpc s") (auto simp: loop_inv_def)
  next
    case (ls_other_thread h)
    then show ?thesis
      using sched_ok_same [OF ok, of "sc t"] il pl by (cases "lpc s") (auto simp: loop_inv_def)
  next
    case (ls_commit_retry r)
    then show ?thesis
      using sched_ok_same [OF ok, of r] il commit_idle_simps [OF ls_commit_retry(4)] by (auto simp: loop_inv_def)
  next
    case (ls_commit_cancel r ids)
    then show ?thesis
      using sched_ok_same [OF ok, of r] il commit_idle_simps [OF ls_commit_cancel(4)] by (auto simp: loop_inv_def)
  next
    case (ls_commit_exit r ic)
    then show ?thesis
      using sched_ok_same [OF ok, of "event_loop_leave r"] il commit_idle_simps [OF ls_commit_exit(4)]
      by (auto simp: loop_inv_def event_loop_leave_def)
  next
    case (ls_no_macro r)
    then show ?thesis using ok il by (auto dest!: pop_macrotaskD simp: loop_inv_def drain_start_def)
  next
    case (ls_enter r e)
    then show ?thesis
      using sched_ok_same [OF ok, of r] by (auto simp: loop_inv_def event_loop_enter_def split: if_splits)
  qed (use ok il pl sched_ok_same [OF ok, of "sc t"] in
      \<open>auto simp: loop_inv_def turn_begin_def drain_start_def event_loop_leave_def has_ready_work_def busy_def
        has_live_children_def split: if_splits\<close>)
qed

interpretation event_loop: bounded_system loop_init loop_step "\<lambda>_. 0" 0 loop_inv
proof
  show "loop_init s \<Longrightarrow> loop_inv s" for s :: "'c event_loop"
    by (auto simp: loop_init_def loop_inv_def sched_new_def sched_ok_def heap_inv_new heap.abs_empty timers_ok_def
        covered_def heap_timeouts_def heap_intervals_def)
  show "loop_inv s \<Longrightarrow> loop_step s l t \<Longrightarrow> (0::nat) \<le> 0 \<Longrightarrow> loop_inv t" for s t :: "'c event_loop" and l
    using loop_inv_step by blast
qed simp

subsection \<open>Dead timers\<close>

definition dead :: "nat \<Rightarrow> 'c sched \<Rightarrow> bool" where
  "dead i s \<longleftrightarrow> i < next_timer_id s \<and> i \<notin> live_timeouts s \<and> live_intervals s i = None"

lemma dead_frame:
  assumes "live_frame s k LT LI s'" and "dead i s" and "next_timer_id s \<le> k" and "i \<notin> LT" and "LI i = None"
  shows "dead i s'"
  using assms by (simp add: live_frame_def dead_def)

lemma dead_same:
  "dead i s \<Longrightarrow> next_timer_id s' = next_timer_id s \<Longrightarrow> live_timeouts s' = live_timeouts s \<Longrightarrow>
   live_intervals s' = live_intervals s \<Longrightarrow> dead i s'"
  by (simp add: dead_def)

lemma dead_user_op:
  assumes "user_op now s s'" and "dead i s"
  shows "dead i s'"
  using assms(1)
proof cases
  case (uo_timeout delay c j g)
  show ?thesis
    by (rule dead_frame [OF timeout_frame(2) [OF uo_timeout] assms(2)]) (use assms(2) in \<open>auto simp: dead_def\<close>)
next
  case (uo_interval delay c j g)
  show ?thesis
    by (rule dead_frame [OF interval_frame(2) [OF uo_interval] assms(2)]) (use assms(2) in \<open>auto simp: dead_def\<close>)
next
  case (uo_clear g j)
  show ?thesis
    by (rule dead_frame [OF clear_timer_frame [OF uo_clear] assms(2)]) (use assms(2) in \<open>auto simp: dead_def\<close>)
qed (use dead_same [OF assms(2), of s'] in
    \<open>simp_all add: queue_task_def push_local_macrotask_def queue_microtask_def\<close>)

lemma dispatch_same:
  assumes "dispatch_expired_timers now s = Some s'"
  shows "next_timer_id s' = next_timer_id s" "live_timeouts s' = live_timeouts s" "live_intervals s' = live_intervals s"
  using assms by (auto simp: dispatch_expired_timers_def bind_eq_Some_conv Let_def rearm_thread_timer_def fold_push
      count_timers_def split: if_splits)

lemma note_events_same:
  "next_timer_id (note_events r w s) = next_timer_id s" "live_timeouts (note_events r w s) = live_timeouts s"
  "live_intervals (note_events r w s) = live_intervals s"
  by (simp_all add: note_events_def Let_def)

lemma drain_driver_same:
  "drain_driver_events evs s = Some s' \<Longrightarrow> next_timer_id s' = next_timer_id s \<and>
     live_timeouts s' = live_timeouts s \<and> live_intervals s' = live_intervals s"
proof (induction evs s arbitrary: s' rule: drain_driver_events.induct)
  case (2 r w now evs s)
  obtain s1 where s1: "(if ready_timer r then dispatch_expired_timers now (note_events r w s)
      else Some (note_events r w s)) = Some s1" "drain_driver_events evs s1 = Some s'"
    using "2.prems" by (auto simp: bind_eq_Some_conv)
  have "next_timer_id s1 = next_timer_id s \<and> live_timeouts s1 = live_timeouts s \<and> live_intervals s1 = live_intervals s"
    using s1(1) dispatch_same [of now "note_events r w s" s1] by (auto simp: note_events_same split: if_splits)
  with "2.IH" [OF s1] show ?case by simp
qed simp

lemma dead_step:
  assumes "loop_step s l t" and "dead i (sc s)"
  shows "dead i (sc t) \<and> l \<noteq> CallbackStart i c"
  using assms(1)
proof cases
  case (ls_driver st evs r)
  with drain_driver_same [of evs "sc s" r] dead_same [OF assms(2), of r] show ?thesis by simp
next
  case (ls_remote st)
  have "dead i (drain_remote_tasks (sc s))"
    by (subst drain_remote_simps, rule dead_same [OF assms(2)]) simp_all
  with ls_remote show ?thesis by simp
next
  case (ls_workers st fin)
  have "dead i (drain_completed_workers fin (sc s))"
    by (subst drain_workers_simps, rule dead_same [OF assms(2)]) simp_all
  with ls_workers show ?thesis by simp
next
  case (ls_micro_end k w r w')
  have "dead i r"
    by (subst after_microtask_simps [OF ls_micro_end(4)], rule dead_same [OF assms(2)]) simp_all
  with ls_micro_end show ?thesis by simp
next
  case (ls_tick_end j d panicked r)
  have "dead i r"
    by (rule dead_frame [OF tick_end_frame [OF ls_tick_end(4)] assms(2)]) (use assms(2) in \<open>auto simp: dead_def\<close>)
  with ls_tick_end show ?thesis by simp
next
  case (ls_user r)
  with dead_user_op [OF ls_user(4) assms(2)] show ?thesis by simp
next
  case (ls_micro k w r c)
  with dead_same [OF assms(2), of r] show ?thesis by (auto dest!: pop_microtaskD)
next
  case (ls_micro_done k w r)
  with assms(2) show ?thesis by (auto dest!: pop_microtaskD)
next
  case (ls_closure r c)
  with dead_same [OF assms(2), of r] show ?thesis by (auto dest!: pop_macrotaskD)
next
  case (ls_timeout r j c r' live)
  have r: "dead i r" by (rule dead_same [OF assms(2)]) (use ls_timeout in \<open>auto dest!: pop_macrotaskD\<close>)
  then have "dead i r'" "live \<Longrightarrow> j \<noteq> i" using ls_timeout(5) by (auto simp: dead_def fire_timeout_def)
  with ls_timeout show ?thesis by (auto split: if_splits)
next
  case (ls_tick r j d c)
  have r: "dead i r" by (rule dead_same [OF assms(2)]) (use ls_tick in \<open>auto dest!: pop_macrotaskD\<close>)
  then have "j \<noteq> i" using ls_tick by (auto simp: dead_def tick_begin_def)
  with r ls_tick show ?thesis by simp
next
  case (ls_tick_cleared r j d)
  with dead_same [OF assms(2), of r] show ?thesis by (auto dest!: pop_macrotaskD)
next
  case (ls_no_macro r)
  with assms(2) show ?thesis by (auto dest!: pop_macrotaskD)
next
  case (ls_commit_retry r)
  with dead_same [OF assms(2), of r] commit_idle_simps [OF ls_commit_retry(4)] show ?thesis by simp
next
  case (ls_commit_cancel r ids)
  with dead_same [OF assms(2), of r] commit_idle_simps [OF ls_commit_cancel(4)] show ?thesis by simp
next
  case (ls_commit_exit r ic)
  with dead_same [OF assms(2), of "event_loop_leave r"] commit_idle_simps [OF ls_commit_exit(4)] show ?thesis
    by (simp add: event_loop_leave_def)
qed (use dead_same [OF assms(2), of "sc t"] in
    \<open>auto simp: event_loop_enter_def event_loop_leave_def turn_begin_def split: if_splits\<close>)

lemma dead_run:
  assumes "run loop_step s ls t" and "dead i (sc s)"
  shows "dead i (sc t) \<and> CallbackStart i c \<notin> set ls"
  using assms
proof (induction rule: run.induct)
  case (run_snoc s ls t l u)
  then show ?case using dead_step [of t l u i c] by auto
qed simp

subsection \<open>Exited workers\<close>

lemma reap_spec:
  assumes "\<forall>j < index. j < length kids \<longrightarrow> \<not> fin (fst (kids ! j))"
  shows "mset (fst (reap fin index kids exited)) = filter_mset (\<lambda>k. \<not> fin (fst k)) (mset kids) \<and>
    mset (snd (reap fin index kids exited)) = mset exited + filter_mset (\<lambda>k. fin (fst k)) (mset kids)"
  using assms
proof (induction fin index kids exited rule: reap.induct)
  case (1 fin index kids exited)
  show ?case
  proof (cases "index < length kids")
    case True
    show ?thesis
    proof (cases "fin (fst (kids ! index))")
      case fin: True
      have split: "mset kids = add_mset (kids ! index) (mset (swap_remove index kids))"
        using mset_swap_remove [OF True] nth_mem [OF True] by simp
      have "j < index \<Longrightarrow> swap_remove index kids ! j = kids ! j" for j
        using take_swap_remove [OF True] by (metis nth_take)
      then have "\<forall>j < index. j < length (swap_remove index kids) \<longrightarrow> \<not> fin (fst (swap_remove index kids ! j))"
        using "1.prems" by auto
      from "1.IH"(1) [OF True fin this] show ?thesis
        using True fin by (subst (1 2) reap.simps) (simp add: split)
    next
      case False
      have "\<forall>j < Suc index. j < length kids \<longrightarrow> \<not> fin (fst (kids ! j))"
        using "1.prems" False by (auto simp: less_Suc_eq)
      from "1.IH"(2) [OF True False this] show ?thesis
        using True False by (subst (1 2) reap.simps) simp
    qed
  next
    case False
    then have "\<forall>k \<in> set kids. \<not> fin (fst k)" using "1.prems" by (metis in_set_conv_nth not_less order_less_le_trans)
    then have "filter_mset (\<lambda>k. \<not> fin (fst k)) (mset kids) = mset kids" "filter_mset (\<lambda>k. fin (fst k)) (mset kids) = {#}"
      by (auto simp: filter_mset_eq_conv)
    with False show ?thesis by (subst (1 2) reap.simps) simp
  qed
qed

subsection \<open>A quiet turn\<close>

text \<open>Runs for the concrete examples: entering the loop and draining with nothing to drain.\<close>

definition idle_sched :: "'c sched \<Rightarrow> bool" where
  "idle_sched r \<longleftrightarrow> local_microtasks r = [] \<and> remote_macrotasks (thread_shared r) = [] \<and> children r = [] \<and> \<not> tearing_down r"

lemma quiet_drain:
  assumes "lpc s = DrainDriver st" and "remote_macrotasks (thread_shared (sc s)) = []" and "children (sc s) = []"
  shows "run loop_step s [Silent, Silent, Silent] (s\<lparr>lpc := after_workers st\<rparr>)"
proof -
  have "loop_step s Silent (s\<lparr>sc := sc s, lpc := DrainRemote st\<rparr>)"
    by (rule ls_driver [where evs = "[]"]) (use assms in simp_all)
  moreover have "drain_remote_tasks (sc s) = sc s"
    using assms(2) by (simp add: drain_remote_tasks_def take_remote_def)
  then have "loop_step (s\<lparr>sc := sc s, lpc := DrainRemote st\<rparr>) Silent (s\<lparr>lpc := DrainWorkers st\<rparr>)"
    using ls_remote [of "s\<lparr>sc := sc s, lpc := DrainRemote st\<rparr>" st] by simp
  moreover have "drain_completed_workers (\<lambda>_. False) (sc s) = sc s"
    using assms(3) by (simp add: drain_completed_workers_def reap.simps)
  then have "loop_step (s\<lparr>lpc := DrainWorkers st\<rparr>) Silent (s\<lparr>lpc := after_workers st\<rparr>)"
    using ls_workers [of "s\<lparr>lpc := DrainWorkers st\<rparr>" st "\<lambda>_. False"] by simp
  ultimately show ?thesis by (metis run_Cons run_single)
qed

definition entered :: "'c sched \<Rightarrow> 'c sched" where
  "entered r = turn_begin (r\<lparr>in_event_loop := True\<rparr>)"

lemma reach_pop:
  assumes "lpc s = Outside" and "idle_sched (sc s)" and "\<not> in_event_loop (sc s)"
  shows "run loop_step s (replicate 6 Silent) (s\<lparr>sc := entered (sc s), lpc := PopMacro, loop_entry := Run, woken := True\<rparr>)"
proof -
  let ?e = "s\<lparr>sc := (sc s)\<lparr>in_event_loop := True\<rparr>, lpc := TurnBegin, loop_entry := Run, woken := True\<rparr>"
  let ?d = "?e\<lparr>sc := entered (sc s), lpc := DrainDriver Top\<rparr>"
  have a: "loop_step s Silent ?e"
    by (rule ls_enter) (use assms in \<open>auto simp: event_loop_enter_def idle_sched_def\<close>)
  have b: "loop_step ?e Silent ?d"
    using ls_turn [of ?e] by (simp add: entered_def drain_start_def)
  have c: "run loop_step ?d [Silent, Silent, Silent] (?d\<lparr>lpc := after_workers Top\<rparr>)"
    by (rule quiet_drain) (use assms(2) in \<open>auto simp: entered_def turn_begin_def idle_sched_def\<close>)
  have d: "loop_step (?d\<lparr>lpc := after_workers Top\<rparr>) Silent (?d\<lparr>sc := entered (sc s), lpc := PopMacro\<rparr>)"
    using ls_micro_done [of "?d\<lparr>lpc := after_workers Top\<rparr>" 0 False "entered (sc s)"] assms(2)
    by (simp add: after_workers_def pop_microtask_def entered_def turn_begin_def idle_sched_def)
  have l: "replicate 6 Silent = Silent # Silent # [Silent, Silent, Silent] @ [Silent]"
    by (simp add: numeral_eq_Suc)
  have e: "s\<lparr>sc := entered (sc s), lpc := PopMacro, loop_entry := Run, woken := True\<rparr> =
      ?d\<lparr>sc := entered (sc s), lpc := PopMacro\<rparr>"
    by (rule event_loop.equality) simp_all
  show ?thesis unfolding l e by (rule run_Cons [OF a run_Cons [OF b run_snoc [OF c d]]])
qed

lemma reach_commit:
  assumes "lpc s = PopMacro" and "loop_entry s = Run" and "idle_sched (sc s)" and "local_macrotasks (sc s) = []"
    and "\<not> busy (sc s)"
  shows "run loop_step s (replicate 10 Silent) (s\<lparr>lpc := Committing\<rparr>)"
proof -
  have r: "\<not> has_ready_work (sc s)" and q: "remote_macrotasks (thread_shared (sc s)) = []" "children (sc s) = []"
    using assms(3,4) by (auto simp: has_ready_work_def idle_sched_def)
  have a: "loop_step s Silent (s\<lparr>lpc := DrainDriver After\<rparr>)"
    using ls_no_macro [of s "sc s"] assms(1,2,4) by (simp add: pop_macrotask_def drain_start_def)
  have b: "run loop_step (s\<lparr>lpc := DrainDriver After\<rparr>) [Silent, Silent, Silent] (s\<lparr>lpc := ReadyCheck After\<rparr>)"
    using quiet_drain [of "s\<lparr>lpc := DrainDriver After\<rparr>" After] q by (simp add: after_workers_def)
  have c: "loop_step (s\<lparr>lpc := ReadyCheck After\<rparr>) Silent (s\<lparr>lpc := DrainDriver Again\<rparr>)"
    using ls_recheck [of "s\<lparr>lpc := ReadyCheck After\<rparr>"] assms(2) r by simp
  have d: "run loop_step (s\<lparr>lpc := DrainDriver Again\<rparr>) [Silent, Silent, Silent] (s\<lparr>lpc := ReadyCheck Again\<rparr>)"
    using quiet_drain [of "s\<lparr>lpc := DrainDriver Again\<rparr>" Again] q by (simp add: after_workers_def)
  have e: "loop_step (s\<lparr>lpc := ReadyCheck Again\<rparr>) Silent (s\<lparr>lpc := BusyCheck\<rparr>)"
    using ls_rechecked [of "s\<lparr>lpc := ReadyCheck Again\<rparr>"] r by simp
  have f: "loop_step (s\<lparr>lpc := BusyCheck\<rparr>) Silent (s\<lparr>lpc := Committing\<rparr>)"
    using ls_busy [of "s\<lparr>lpc := BusyCheck\<rparr>"] assms(5) by simp
  have "run loop_step s ((Silent # [Silent, Silent, Silent]) @ (Silent # ([Silent, Silent, Silent] @ [Silent]) @ [Silent]))
      (s\<lparr>lpc := Committing\<rparr>)"
    by (rule run_trans [OF run_Cons [OF c run_snoc [OF run_snoc [OF d e] f]] run_Cons [OF a b]])
  then show ?thesis by (simp add: numeral_eq_Suc)
qed

definition loop_demo :: "nat event_loop" where
  "loop_demo = \<lparr>sc = sched_new (with_remote_capacity 4) 7 True, lpc = Outside, loop_entry = Run, woken = False, clock = 0\<rparr>"

lemma loop_demo_init: "loop_init loop_demo"
  unfolding loop_init_def loop_demo_def by blast

lemma loop_demo_ok: "sched_ok (sc loop_demo) {}" "idle_sched (sc loop_demo)"
  using event_loop.inv_init [OF loop_demo_init]
  by (simp_all add: loop_inv_def loop_demo_def idle_sched_def sched_new_def with_remote_capacity_def)

subsection \<open>Properties\<close>

text \<open>(C3) A cancelled timer never runs: once \<open>cancel_timeout\<close> or \<open>cancel_interval\<close> was called with a handle of this
  runtime, no later turn starts the callback of that timer, even when its deadline had passed and its
  macrotask was already queued, and whatever other timers are created afterwards.\<close>

theorem sched_cancelled_never_runs:
  assumes "clear_timer (generation (sc s)) i (sc s) = Some r" and "i < next_timer_id (sc s)"
    and "run loop_step (s\<lparr>sc := r\<rparr>) ls t"
  shows "CallbackStart i c \<notin> set ls"
proof -
  have "dead i r"
    using clear_timer_frame [OF assms(1)] assms(2) by (simp add: live_frame_def dead_def)
  then show ?thesis using dead_run [OF assms(3), of i c] by simp
qed

theorem sched_cancelled_never_runs_witness:
  "\<exists>s r ls t. 1 \<in> live_timeouts (sc s) \<and> clear_timer 7 1 (sc s) = Some r \<and>
     run loop_step (s\<lparr>sc := r\<rparr>) ls t \<and> length ls = 6 \<and> CallbackStart 1 (3 :: nat) \<notin> set ls"
proof -
  obtain r where r: "timeout 0 5 3 (sc loop_demo) = Some (r, 1, 7)" "sched_ok r {}"
    using timeout_ok [OF loop_demo_ok(1), of 0 5 3] by (auto simp: loop_demo_def sched_new_def u64_modulus_def)
  have f: "live_frame (sc loop_demo) 2 {1} Map.empty r"
    using timeout_frame(2) [OF r(1)] by (simp add: loop_demo_def sched_new_def numeral_2_eq_2)
  have g: "generation r = 7" "idle_sched r"
    using r(1) by (auto simp: timeout_def bind_eq_Some_conv allocate_timer_id_def insert_timer_def rearm_thread_timer_def
        loop_demo_def sched_new_def idle_sched_def with_remote_capacity_def)
  obtain r' where r': "clear_timer 7 1 r = Some r'" using clear_timer_ok [OF r(2), of 7 1] by blast
  let ?s = "loop_demo\<lparr>sc := r\<rparr>"
  have "idle_sched r'" using clear_timer_idle [OF r'] g(2) by (simp add: idle_sched_def)
  moreover have "\<not> in_event_loop r'"
    using live_frame_loop [OF clear_timer_frame [OF r']] live_frame_loop [OF f] by (simp add: loop_demo_def sched_new_def)
  ultimately obtain t where t: "run loop_step (?s\<lparr>sc := r'\<rparr>) (replicate 6 Silent) t"
    using reach_pop [of "?s\<lparr>sc := r'\<rparr>"] by (auto simp: loop_demo_def)
  have "CallbackStart 1 3 \<notin> set (replicate 6 (Silent :: nat event))"
    by (rule sched_cancelled_never_runs [of ?s 1 r' _ t]) (use r' g f t in \<open>auto simp: live_frame_def\<close>)
  moreover have "1 \<in> live_timeouts (sc ?s)" using f by (simp add: live_frame_def)
  ultimately show ?thesis using r' t by (intro exI [of _ ?s] exI [of _ r'] exI [of _ "replicate 6 Silent"] exI [of _ t]) simp
qed

text \<open>(C18) A macrotask starts only when the microtask queue is empty, macrotasks start in the order they were
  queued, and what starts is the closure, the live timeout or the live interval at the front.\<close>

theorem sched_microtasks_first:
  assumes "loop_init s" and "run loop_step s ls t" and "loop_step t l u"
    and "l = MacroStart c \<or> l = CallbackStart i c"
  shows "local_microtasks (sc t) = [] \<and>
    (\<exists>m ms. local_macrotasks (sc t) = m # ms \<and> local_macrotasks (sc u) = ms \<and>
      (case m of Closure b \<Rightarrow> l = MacroStart b
       | FireTimeout j b \<Rightarrow> l = CallbackStart j b \<and> j \<in> live_timeouts (sc t) \<and> j \<notin> live_timeouts (sc u)
       | IntervalTick j d \<Rightarrow> lpc u = InTick j d \<and> (\<exists>b every. live_intervals (sc t) j = Some (b, every) \<and> l = CallbackStart j b)))"
proof -
  have "loop_inv t" using event_loop.inv_reachable [OF assms(1,2)] by simp
  then have pl: "place_ok (lpc t) (sc t)" by (simp add: loop_inv_def)
  from assms(3) show ?thesis
  proof cases
    case (ls_closure r b)
    with pl show ?thesis by (auto dest!: pop_macrotaskD)
  next
    case (ls_timeout r j b r' live)
    with pl assms(4) show ?thesis by (auto dest!: pop_macrotaskD simp: fire_timeout_def split: if_splits)
  next
    case (ls_tick r j d b)
    with pl show ?thesis by (auto dest!: pop_macrotaskD simp: tick_begin_def)
  qed (use assms(4) in auto)
qed

theorem sched_microtasks_first_witness:
  "\<exists>ls t u. run loop_step loop_demo ls t \<and> loop_step t (MacroStart 3) u \<and> local_microtasks (sc t) = []"
proof -
  let ?s = "loop_demo\<lparr>sc := queue_task 3 (sc loop_demo)\<rparr>"
  let ?t = "?s\<lparr>sc := entered (sc ?s), lpc := PopMacro, loop_entry := Run, woken := True\<rparr>"
  have a: "loop_step loop_demo Silent ?s"
    by (rule ls_user) (auto simp: loop_demo_def intro: uo_task)
  have b: "run loop_step ?s (replicate 6 Silent) ?t"
    by (rule reach_pop) (simp_all add: loop_demo_def idle_sched_def queue_task_def push_local_macrotask_def sched_new_def
        with_remote_capacity_def)
  obtain r where "pop_macrotask (sc ?t) = (r, Some (Closure 3))"
    by (auto simp: pop_macrotask_def entered_def turn_begin_def queue_task_def push_local_macrotask_def loop_demo_def
        sched_new_def)
  then have c: "loop_step ?t (MacroStart 3) (?t\<lparr>sc := r, lpc := InMacro\<rparr>)" by (intro ls_closure) simp_all
  have "local_microtasks (sc ?t) = []"
    using sched_microtasks_first [OF loop_demo_init run_Cons [OF a b] c] by blast
  then show ?thesis using run_Cons [OF a b] c by blast
qed

definition one_of :: "bool list \<Rightarrow> bool" where
  "one_of bs \<longleftrightarrow> length (filter id bs) = 1"

text \<open>(C4) Every live timer is accounted for in exactly one place, and the driver will not sleep past it: a live
  timeout is either in the heap or queued, a live interval is either in the heap, queued or running its
  callback; the heap holds only live timers; no id is queued twice; and the deadline the driver was last
  told is no later than that of any timer in the heap.\<close>

theorem sched_timers_accounted:
  assumes "loop_init s" and "run loop_step s ls t" and "r = sc t" and "H = heap_map (timers r)"
  shows "heap_inv (timers r) \<and>
    (\<forall>i \<in> live_timeouts r. one_of [i \<in> dom H, \<exists>c. FireTimeout i c \<in> set (local_macrotasks r)]) \<and>
    (\<forall>i \<in> dom (live_intervals r).
       one_of [i \<in> dom H, \<exists>d. IntervalTick i d \<in> set (local_macrotasks r), \<exists>d. lpc t = InTick i d]) \<and>
    dom H \<subseteq> live_timeouts r \<union> dom (live_intervals r) \<and> distinct (queued_ids (local_macrotasks r)) \<and>
    (\<forall>n \<in> ran H. \<exists>d. driver_deadline r = Some d \<and> d \<le> deadline n)"
proof -
  have "loop_inv t" using event_loop.inv_reachable [OF assms(1,2)] by simp
  then have ok: "sched_ok r (tick_of (lpc t))" by (simp add: loop_inv_def assms(3))
  have tk: "i \<in> tick_of (lpc t) \<longleftrightarrow> (\<exists>d. lpc t = InTick i d)" for i by (cases "lpc t") auto
  note t = sched_okD(2) [OF ok, folded assms(4), unfolded timers_ok_def]
  have q: "set (queued_ids (local_macrotasks r)) = fires (local_macrotasks r) \<union> ticks (local_macrotasks r)"
    by (rule queued_sets)
  have one: "one_of [i \<in> dom H, i \<in> fires (local_macrotasks r)]" if "i \<in> live_timeouts r" for i
    using that t heap_kinds_dom [of H] unfolding q one_of_def by (cases "i \<in> dom H") auto
  have two: "one_of [i \<in> dom H, i \<in> ticks (local_macrotasks r), i \<in> tick_of (lpc t)]"
    if i: "i \<in> dom (live_intervals r)" for i
  proof -
    have "i \<in> dom H \<or> i \<in> ticks (local_macrotasks r) \<or> i \<in> tick_of (lpc t)"
      using i t heap_kinds_dom [of H] by blast
    moreover have "\<not> (i \<in> dom H \<and> i \<in> ticks (local_macrotasks r))" "\<not> (i \<in> dom H \<and> i \<in> tick_of (lpc t))"
      "\<not> (i \<in> ticks (local_macrotasks r) \<and> i \<in> tick_of (lpc t))"
      using t unfolding q by blast+
    ultimately show ?thesis unfolding one_of_def by auto
  qed
  have "dom H \<subseteq> live_timeouts r \<union> dom (live_intervals r)" using t heap_kinds_dom [of H] by blast
  with one two t sched_okD(1,3) [OF ok] show ?thesis
    unfolding fires_def ticks_def tk assms(4) covered_def by (intro conjI) simp_all
qed

theorem sched_timers_accounted_witness:
  "\<exists>t. run loop_step loop_demo [Silent] t \<and> 1 \<in> live_timeouts (sc t) \<and>
     one_of [1 \<in> dom (heap_map (timers (sc t))), \<exists>c. FireTimeout 1 c \<in> set (local_macrotasks (sc t))]"
proof -
  obtain r where r: "timeout 0 5 3 (sc loop_demo) = Some (r, 1, 7)"
    using timeout_ok [OF loop_demo_ok(1), of 0 5 3] by (auto simp: loop_demo_def sched_new_def u64_modulus_def)
  have live: "1 \<in> live_timeouts r"
    using timeout_frame(2) [OF r] by (simp add: live_frame_def loop_demo_def sched_new_def)
  let ?t = "loop_demo\<lparr>sc := r\<rparr>"
  have "user_op (clock loop_demo) (sc loop_demo) r" using r by (intro uo_timeout) (simp add: loop_demo_def)
  then have "loop_step loop_demo Silent ?t" by (intro ls_user) (simp_all add: loop_demo_def)
  then have t: "run loop_step loop_demo [Silent] ?t" by (rule run_single)
  then show ?thesis
    using sched_timers_accounted [OF loop_demo_init t refl refl] live by (intro exI [of _ ?t]) simp
qed

text \<open>Intervals do not drift: the tick after the one for deadline \<open>d\<close> is for exactly \<open>d\<close> plus the interval
  (saturating at the largest duration), however late the callback ran; if that deadline has passed the
  tick is queued at once behind the other macrotasks, otherwise it is armed in the heap and the driver
  is told; nothing else changes.\<close>

theorem sched_interval_no_drift:
  assumes "sched_ok s {i}" and "live_intervals s i = Some (c, every)" and "tick_end now i d False s = Some s'"
  shows "if deadline_add d every \<le> now
    then s' = s\<lparr>local_macrotasks := local_macrotasks s @ [IntervalTick i (deadline_add d every)]\<rparr>
    else heap_map (timers s') = (heap_map (timers s))(i \<mapsto> interval_node i (deadline_add d every)) \<and>
      s' = s\<lparr>timers := timers s', driver_deadline := peek_deadline (timers s')\<rparr> \<and>
      (\<exists>b. driver_deadline s' = Some b \<and> b \<le> deadline_add d every)"
proof (cases "deadline_add d every \<le> now")
  case True
  with assms show ?thesis
    by (auto simp: tick_end_def Let_def schedule_interval_macrotask_def push_local_macrotask_def)
next
  case False
  let ?n = "interval_node i (deadline_add d every)"
  note ok = sched_okD [OF assms(1)]
  obtain h where h: "insert_timer ?n s = Some (s\<lparr>timers := h, driver_deadline := peek_deadline h\<rparr>)"
      "heap_inv h" "heap_map h = (heap_map (timers s))(i \<mapsto> ?n)"
    using insert_timer_ok [of s ?n] ok(1) timers_ok_fresh(2) [OF ok(2)] by (auto simp: interval_node_def)
  have s': "s' = s\<lparr>timers := h, driver_deadline := peek_deadline h\<rparr>"
    using assms(2,3) False h(1) by (simp add: tick_end_def Let_def)
  have n: "?n \<in> ran (heap_map h)" by (auto simp: h(3) ran_def)
  have "\<exists>b. peek_deadline h = Some b \<and> b \<le> deadline_add d every"
    using covered_peek [OF h(2), unfolded covered_def, rule_format, OF n] by (simp add: interval_node_def)
  then show ?thesis using False h(3) by (simp add: s' interval_node_def)
qed

theorem sched_interval_no_drift_witness:
  "\<exists>s'. tick_end 12 1 5 False ((sc loop_demo)\<lparr>next_timer_id := 2, live_intervals := [1 \<mapsto> (9, 4)]\<rparr>) = Some s' \<and>
     local_macrotasks s' = [IntervalTick 1 9]"
proof -
  let ?s = "(sc loop_demo)\<lparr>next_timer_id := 2, live_intervals := [1 \<mapsto> (9, 4)]\<rparr>"
  have "timers_ok Map.empty [] {1} {} {1} 2"
    by (simp add: timers_ok_def heap_timeouts_def heap_intervals_def)
  then have ok: "sched_ok ?s {1}"
    by (simp add: loop_demo_def sched_new_def sched_ok_def heap_inv_new heap.abs_empty covered_def)
  obtain s' where s': "tick_end 12 1 5 False ?s = Some s'" using tick_end_ok [OF ok] by blast
  have "deadline_add 5 4 = 9" by (simp add: deadline_add_def duration_max_def)
  then show ?thesis
    using s' sched_interval_no_drift [OF ok _ s', of 9 4] by (simp add: loop_demo_def sched_new_def)
qed

text \<open>(C1) The runtime cancels its pending tasks, or leaves \<open>run\<close>, only when nothing can wake them: at that
  moment no microtask, macrotask, cross-thread task, timer, child worker or operation in flight exists,
  whatever other threads did since the preliminary checks; a worker that leaves has closed its queue, so
  that every later submission is refused instead of being lost.\<close>

theorem sched_idle_commit_safe:
  assumes "loop_init s" and "run loop_step s ls t" and "lpc t = Committing" and "loop_step t l u"
    and "l = Cancelled ids \<or> l = LoopExit"
  shows "local_microtasks (sc t) = [] \<and> local_macrotasks (sc t) = [] \<and>
    remote_macrotasks (thread_shared (sc t)) = [] \<and> heap_is_empty (timers (sc t)) \<and> children (sc t) = [] \<and>
    pending_ops (thread_shared (sc t)) = 0 \<and> tasks (sc u) = {} \<and>
    (l = Cancelled ids \<longrightarrow> tasks (sc t) = ids \<and> ids \<noteq> {}) \<and> (l = LoopExit \<longrightarrow> tasks (sc t) = {}) \<and>
    (l = LoopExit \<and> is_worker (sc t) \<longrightarrow>
       (\<forall>ok c. enqueue_macro ok c (thread_shared (sc u)) = (thread_shared (sc u), Inl QClosed)))"
proof -
  have "loop_inv t" using event_loop.inv_reachable [OF assms(1,2)] by simp
  then have pl: "place_ok Committing (sc t)" using assms(3) by (simp add: loop_inv_def)
  from assms(4) show ?thesis
    by cases (use assms(3,5) pl in \<open>auto simp: commit_idle_def has_live_async_operations_def event_loop_leave_def
        enqueue_macro_def enqueue_refused_def Let_def split: if_splits\<close>)
qed

theorem sched_idle_commit_safe_witness:
  "\<exists>ls t u. run loop_step loop_demo ls t \<and> lpc t = Committing \<and> loop_step t LoopExit u \<and>
     enqueue_macro (\<lambda>_. True) 5 (thread_shared (sc u)) = (thread_shared (sc u), Inl QClosed)"
proof -
  let ?p = "loop_demo\<lparr>sc := entered (sc loop_demo), lpc := PopMacro, loop_entry := Run, woken := True\<rparr>"
  let ?c = "?p\<lparr>lpc := Committing\<rparr>"
  have a: "run loop_step loop_demo (replicate 6 Silent) ?p"
    by (rule reach_pop) (use loop_demo_ok(2) in \<open>simp_all add: loop_demo_def sched_new_def\<close>)
  have b: "run loop_step ?p (replicate 10 Silent) ?c"
    by (rule reach_commit) (simp_all add: loop_demo_def sched_new_def entered_def turn_begin_def idle_sched_def
        with_remote_capacity_def busy_def heap_is_empty_def heap_new_def has_live_children_def
        has_live_async_operations_def)
  have w: "is_worker (sc ?c)" by (simp add: loop_demo_def sched_new_def entered_def turn_begin_def)
  obtain r where "commit_idle (sc ?c) = (r, WorkerClosed)"
    by (simp add: commit_idle_def loop_demo_def sched_new_def entered_def turn_begin_def with_remote_capacity_def
        has_live_async_operations_def)
  then have c: "loop_step ?c LoopExit (?c\<lparr>sc := event_loop_leave r, lpc := Outside\<rparr>)"
    by (rule ls_commit_exit [where r = r and ic = WorkerClosed, rotated]) simp_all
  have "lpc ?c = Committing" by simp
  with sched_idle_commit_safe [OF loop_demo_init run_trans [OF b a] _ c, of "{}"] w c run_trans [OF b a]
  show ?thesis by blast
qed

text \<open>Reaping exited workers, a scan that swaps the last child into every hole it makes, is the
  partition of the children by their finished flag: exactly the unfinished ones stay, and the exit
  callback of each finished one is queued once as a macrotask.\<close>

theorem sched_workers_partition:
  "mset (children (drain_completed_workers fin s)) = mset (filter (\<lambda>k. \<not> fin (fst k)) (children s)) \<and>
   (\<exists>cs. local_macrotasks (drain_completed_workers fin s) = local_macrotasks s @ map Closure cs \<and>
      mset cs = mset (List.map_filter snd (filter (\<lambda>k. fin (fst k)) (children s))))"
proof -
  let ?e = "snd (reap fin 0 (children s) [])"
  have k: "children (drain_completed_workers fin s) = fst (reap fin 0 (children s) [])"
    "local_macrotasks (drain_completed_workers fin s) = local_macrotasks s @ map Closure (List.map_filter snd ?e)"
    by (subst drain_workers_simps, simp)+
  have r: "mset (fst (reap fin 0 (children s) [])) = mset (filter (\<lambda>k. \<not> fin (fst k)) (children s))"
    "mset ?e = mset (filter (\<lambda>k. fin (fst k)) (children s))"
    using reap_spec [of 0 "children s" fin "[]"] by simp_all
  have "mset (List.map_filter snd xs) = image_mset the (filter_mset (\<lambda>x. x \<noteq> None) (image_mset snd (mset xs)))"
    for xs :: "(nat \<times> 'a option) list"
    by (induction xs) (auto simp: List.map_filter_def)
  then have "mset (List.map_filter snd ?e) = mset (List.map_filter snd (filter (\<lambda>k. fin (fst k)) (children s)))"
    by (simp add: r(2))
  with r(1) show ?thesis unfolding k by blast
qed



end
