(* ===== verification/Worker_Join.thy ===== *)
theory Worker_Join
  imports Transition
begin

text \<open>
  Joining a worker runtime: \<open>WorkerCompletion\<close> of \<open>src/platform/runtime_shared/state.rs\<close> and the \<open>WorkerJoin\<close> future of
  \<open>handles.rs\<close>. The worker records how it ended, a reaper thread joins the OS thread and publishes the
  outcome, and any number of join futures, polled from any runtime, wait for it. A waiter shares with
  its future a liveness flag (\<open>Arc<AtomicBool>\<close>), modelled as an address of \<open>flags\<close>; a pending future also keeps
  every runtime that polled it from going idle. The map of waiters is an association list in key
  order, as a \<open>BTreeMap\<close> iterates. Sections under the lock are one step; the wakes after it are steps of
  their own.
\<close>

subsection \<open>State\<close>

datatype worker_join_error = SetupPanicked | RuntimePanicked

type_synonym worker_result = "(worker_join_error, unit) result"

record worker_waiter =
  ww_active :: address
  ww_waker :: waker

record worker_completion =
  finished :: bool
  worker_outcome :: "worker_result option"
  outcome :: "worker_result option"
  next_waiter_id :: nat
  join_waiters :: "(nat \<times> worker_waiter) list"

record worker_join =
  waiter_id :: "nat option"
  waiter_active :: "address option"
  liveness :: "nat list"

definition worker_completion_new :: worker_completion where
  "worker_completion_new = \<lparr>finished = False, worker_outcome = None, outcome = None, next_waiter_id = 1, join_waiters = []\<rparr>"

definition join_new :: worker_join where
  "join_new = \<lparr>waiter_id = None, waiter_active = None, liveness = []\<rparr>"

fun bt_insert :: "nat \<Rightarrow> 'a \<Rightarrow> (nat \<times> 'a) list \<Rightarrow> (nat \<times> 'a) list" where
  "bt_insert k v [] = [(k, v)]"
| "bt_insert k v ((j, u) # m) =
     (if k < j then (k, v) # (j, u) # m else if k = j then (k, v) # m else (j, u) # bt_insert k v m)"

definition bt_remove :: "nat \<Rightarrow> (nat \<times> 'a) list \<Rightarrow> (nat \<times> 'a) list" where
  "bt_remove k m = filter (\<lambda>e. fst e \<noteq> k) m"

subsection \<open>Operations\<close>

text \<open>The completion with the flags its waiters share with their futures.\<close>

record join_state =
  wc :: worker_completion
  flags :: "address \<Rightarrow> bool"
  next_flag :: address

definition record_worker_outcome :: "worker_result \<Rightarrow> join_state \<Rightarrow> join_state" where
  "record_worker_outcome r s = s\<lparr>wc := (wc s)\<lparr>worker_outcome := Some r\<rparr>\<rparr>"

definition publish_after_join :: "bool \<Rightarrow> join_state \<Rightarrow> join_state \<times> worker_waiter list" where
  "publish_after_join thread_panicked s =
     (let c = wc s;
          res = (if thread_panicked then Err RuntimePanicked
                 else case worker_outcome c of Some r \<Rightarrow> r | None \<Rightarrow> Err RuntimePanicked);
          c' = c\<lparr>worker_outcome := (if thread_panicked then worker_outcome c else None), outcome := Some res,
                 finished := True, join_waiters := []\<rparr>
      in (s\<lparr>wc := c'\<rparr>, map snd (join_waiters c)))"

definition remove_join_waiter :: "nat \<Rightarrow> join_state \<Rightarrow> join_state" where
  "remove_join_waiter i s = s\<lparr>wc := (wc s)\<lparr>join_waiters := bt_remove i (join_waiters (wc s))\<rparr>\<rparr>"

definition deactivate :: "address option \<Rightarrow> join_state \<Rightarrow> join_state" where
  "deactivate a s = (case a of Some a \<Rightarrow> s\<lparr>flags := (flags s)(a := False)\<rparr> | None \<Rightarrow> s)"

definition unregister :: "nat option \<Rightarrow> join_state \<Rightarrow> join_state" where
  "unregister i s = (case i of Some i \<Rightarrow> remove_join_waiter i s | None \<Rightarrow> s)"

text \<open>The registration half of \<open>WorkerCompletion::poll_join\<close>.\<close>

definition register_join :: "worker_join \<Rightarrow> join_state \<Rightarrow> (join_state \<times> worker_join \<times> nat) panics" where
  "register_join f s =
     (case waiter_id f of
        Some i \<Rightarrow> Some (s, f, i)
      | None \<Rightarrow>
          (let i = next_waiter_id (wc s) in
           do {
             n \<leftarrow> checked_add i 1;
             Some (s\<lparr>wc := (wc s)\<lparr>next_waiter_id := n\<rparr>, flags := (flags s)(next_flag s := True), next_flag := next_flag s + 1\<rparr>,
                   f\<lparr>waiter_id := Some i, waiter_active := Some (next_flag s)\<rparr>, i)
           }))"

definition poll_join ::
  "worker_join \<Rightarrow> waker \<Rightarrow> join_state \<Rightarrow> (join_state \<times> worker_join \<times> worker_result poll) panics" where
  "poll_join f w s =
     (case outcome (wc s) of
        Some r \<Rightarrow>
          Some (unregister (waiter_id f) (deactivate (waiter_active f) s),
                f\<lparr>waiter_id := None, waiter_active := None\<rparr>, Ready r)
      | None \<Rightarrow>
          do {
            (s, f, i) \<leftarrow> register_join f s;
            a \<leftarrow> waiter_active f;
            Some (s\<lparr>wc := (wc s)\<lparr>join_waiters := bt_insert i \<lparr>ww_active = a, ww_waker = w\<rparr> (join_waiters (wc s))\<rparr>\<rparr>,
                  f, Pending)
          })"

text \<open>\<open>WorkerJoin::poll\<close> on a runtime (or on none): the runtime is kept live while the future is pending; the counts
  are those of \<open>begin_async_operation\<close> and \<open>finish_async_operation\<close>.\<close>

definition enliven :: "nat option \<Rightarrow> worker_join \<Rightarrow> (nat \<Rightarrow> nat) \<Rightarrow> worker_join \<times> (nat \<Rightarrow> nat)" where
  "enliven rt f ops =
     (case rt of
        Some r \<Rightarrow> if r \<in> set (liveness f) then (f, ops)
                  else (f\<lparr>liveness := liveness f @ [r]\<rparr>, ops(r := wrapping_succ (ops r)))
      | None \<Rightarrow> (f, ops))"

definition clear_liveness :: "worker_join \<Rightarrow> (nat \<Rightarrow> nat) \<Rightarrow> worker_join \<times> (nat \<Rightarrow> nat)" where
  "clear_liveness f ops = (f\<lparr>liveness := []\<rparr>, fold (\<lambda>r ops. ops(r := wrapping_pred (ops r))) (liveness f) ops)"

definition worker_join_poll ::
  "nat option \<Rightarrow> worker_join \<Rightarrow> waker \<Rightarrow> join_state \<Rightarrow> (nat \<Rightarrow> nat) \<Rightarrow>
   (join_state \<times> worker_join \<times> (nat \<Rightarrow> nat) \<times> worker_result poll) panics" where
  "worker_join_poll rt f w s ops =
     (let (f, ops) = enliven rt f ops in
      do {
        (s, f, p) \<leftarrow> poll_join f w s;
        let (f, ops) = (if is_ready p then clear_liveness f ops else (f, ops));
        Some (s, f, ops, p)
      })"

definition worker_join_drop :: "worker_join \<Rightarrow> join_state \<Rightarrow> (nat \<Rightarrow> nat) \<Rightarrow> join_state \<times> (nat \<Rightarrow> nat)" where
  "worker_join_drop f s ops =
     (unregister (waiter_id f) (deactivate (waiter_active f) s), snd (clear_liveness f ops))"

text \<open>One iteration of \<open>wake_worker_joiners\<close>.\<close>

definition wake_joiner :: "worker_waiter \<Rightarrow> join_state \<Rightarrow> join_state \<times> waker option" where
  "wake_joiner x s =
     (if flags s (ww_active x) then (s\<lparr>flags := (flags s)(ww_active x := False)\<rparr>, Some (ww_waker x)) else (s, None))"

subsection \<open>The worker, its reaper and the join futures\<close>

datatype worker_phase = Working | Recorded | Exited bool | Published

text \<open>\<open>waking\<close> are the waiters the reaper took and has not woken yet; \<open>polled\<close> the waker of each future's last pending
  poll, \<open>woken\<close> the futures the reaper has woken since.\<close>

record join_sys =
  js :: join_state
  joins :: "nat \<rightharpoonup> worker_join"
  ops :: "nat \<Rightarrow> nat"
  waking :: "worker_waiter list"
  phase :: worker_phase
  polled :: "nat \<rightharpoonup> waker"
  woken :: "(address \<times> waker) set"

datatype join_event = JSilent | JWake waker | JReady nat worker_result

inductive join_step :: "join_sys \<Rightarrow> join_event \<Rightarrow> join_sys \<Rightarrow> bool" where
  jn_record:
    "phase s = Working \<Longrightarrow>
     join_step s JSilent (s\<lparr>js := record_worker_outcome r (js s), phase := Recorded\<rparr>)"
| jn_exit:
    "phase s = Recorded \<or> phase s = Working \<and> panicked \<Longrightarrow> join_step s JSilent (s\<lparr>phase := Exited panicked\<rparr>)"
| jn_publish:
    "phase s = Exited panicked \<Longrightarrow> publish_after_join panicked (js s) = (r, ws) \<Longrightarrow>
     join_step s JSilent (s\<lparr>js := r, waking := ws, phase := Published\<rparr>)"
| jn_wake:
    "waking s = x # xs \<Longrightarrow> wake_joiner x (js s) = (r, Some w) \<Longrightarrow>
     join_step s (JWake w) (s\<lparr>js := r, waking := xs, woken := insert (ww_active x, w) (woken s)\<rparr>)"
| jn_skip:
    "waking s = x # xs \<Longrightarrow> wake_joiner x (js s) = (r, None) \<Longrightarrow> join_step s JSilent (s\<lparr>js := r, waking := xs\<rparr>)"
| jn_join: "joins s j = None \<Longrightarrow> join_step s JSilent (s\<lparr>joins := (joins s)(j \<mapsto> join_new)\<rparr>)"
| jn_poll_pending:
    "joins s j = Some f \<Longrightarrow> worker_join_poll rt f w (js s) (ops s) = Some (r, f', o', Pending) \<Longrightarrow>
     join_step s JSilent (s\<lparr>js := r, joins := (joins s)(j \<mapsto> f'), ops := o', polled := (polled s)(j \<mapsto> w)\<rparr>)"
| jn_poll_ready:
    "joins s j = Some f \<Longrightarrow> worker_join_poll rt f w (js s) (ops s) = Some (r, f', o', Ready res) \<Longrightarrow>
     join_step s (JReady j res) (s\<lparr>js := r, joins := (joins s)(j \<mapsto> f'), ops := o', polled := (polled s)(j := None)\<rparr>)"
| jn_drop:
    "joins s j = Some f \<Longrightarrow> worker_join_drop f (js s) (ops s) = (r, o') \<Longrightarrow>
     join_step s JSilent (s\<lparr>js := r, joins := (joins s)(j := None), ops := o', polled := (polled s)(j := None)\<rparr>)"

inductive_cases join_stepE: "join_step s l t"

definition join_init :: "join_sys \<Rightarrow> bool" where
  "join_init s \<longleftrightarrow>
     s = \<lparr>js = \<lparr>wc = worker_completion_new, flags = (\<lambda>_. False), next_flag = 0\<rparr>, joins = Map.empty, ops = (\<lambda>_. 0),
          waking = [], phase = Working, polled = Map.empty, woken = {}\<rparr>"

subsection \<open>The liveness counts\<close>

definition keepers :: "(nat \<rightharpoonup> worker_join) \<Rightarrow> nat \<Rightarrow> nat set" where
  "keepers J r = {j. \<exists>f. J j = Some f \<and> r \<in> set (liveness f)}"

definition ops_ok :: "(nat \<rightharpoonup> worker_join) \<Rightarrow> (nat \<Rightarrow> nat) \<Rightarrow> bool" where
  "ops_ok J n \<longleftrightarrow>
     finite (dom J) \<and> (\<forall>j f. J j = Some f \<longrightarrow> distinct (liveness f)) \<and>
     (\<forall>r. n r = card (keepers J r) mod u64_modulus)"

lemma keepers_upd:
  "keepers (J(j \<mapsto> f)) r = (if r \<in> set (liveness f) then insert j (keepers J r) else keepers J r - {j})"
  "keepers (J(j := None)) r = keepers J r - {j}"
  by (auto simp: keepers_def split: if_splits)

lemma keepers_self: "J j = Some f \<Longrightarrow> j \<in> keepers J r \<longleftrightarrow> r \<in> set (liveness f)"
  by (auto simp: keepers_def)

lemma keepers_finite: "finite (dom J) \<Longrightarrow> finite (keepers J r)"
  by (rule finite_subset [of _ "dom J"]) (auto simp: keepers_def)

lemma clear_liveness_ops:
  "distinct (liveness f) \<Longrightarrow>
   snd (clear_liveness f n) r = (if r \<in> set (liveness f) then wrapping_pred (n r) else n r)"
proof -
  have "distinct L \<Longrightarrow> fold (\<lambda>r n. n(r := wrapping_pred (n r))) L n r = (if r \<in> set L then wrapping_pred (n r) else n r)"
    for L and n :: "nat \<Rightarrow> nat"
    by (induction L arbitrary: n) auto
  then show "distinct (liveness f) \<Longrightarrow> ?thesis" by (simp add: clear_liveness_def)
qed

lemma ops_ok_clear:
  assumes "ops_ok J n" and "J j = Some f" and "liveness f' = []"
  shows "ops_ok (J(j \<mapsto> f')) (snd (clear_liveness f n))" "ops_ok (J(j := None)) (snd (clear_liveness f n))"
proof -
  have fin: "finite (dom J)" and d: "distinct (liveness f)" and n: "n r = card (keepers J r) mod u64_modulus" for r
    using assms(1,2) by (auto simp: ops_ok_def)
  have "snd (clear_liveness f n) r = card (keepers J r - {j}) mod u64_modulus" for r
  proof (cases "r \<in> set (liveness f)")
    case True
    then have "j \<in> keepers J r" using keepers_self [of J j f] assms(2) by simp
    then have "card (keepers J r) = Suc (card (keepers J r - {j}))"
      using keepers_finite [OF fin] by (metis card_Suc_Diff1)
    then show ?thesis using True by (simp add: clear_liveness_ops [OF d] n)
  next
    case False
    then have "keepers J r - {j} = keepers J r" using keepers_self [of J j f] assms(2) by blast
    then show ?thesis using False by (simp add: clear_liveness_ops [OF d] n)
  qed
  moreover have "distinct (liveness g)" if "J k = Some g" for k g using that assms(1) by (auto simp: ops_ok_def)
  ultimately show "ops_ok (J(j \<mapsto> f')) (snd (clear_liveness f n))" "ops_ok (J(j := None)) (snd (clear_liveness f n))"
    using fin assms(3) by (simp_all add: ops_ok_def keepers_upd)
qed

lemma ops_ok_enliven:
  assumes "ops_ok J n" and "J j = Some f" and "enliven rt f n = (f', n')"
  shows "ops_ok (J(j \<mapsto> f')) n'"
proof (cases "\<exists>r. rt = Some r \<and> r \<notin> set (liveness f)")
  case True
  then obtain r where r: "rt = Some r" "r \<notin> set (liveness f)" by blast
  have e: "f' = f\<lparr>liveness := liveness f @ [r]\<rparr>" "n' = n(r := wrapping_succ (n r))"
    using assms(3) r by (auto simp: enliven_def)
  have "j \<notin> keepers J r" using keepers_self [of J j f] assms(2) r(2) by simp
  then have "card (insert j (keepers J r)) = Suc (card (keepers J r))"
    using assms(1) keepers_finite by (simp add: ops_ok_def)
  moreover have "keepers (J(j \<mapsto> f')) q = (if q = r then insert j (keepers J r) else keepers J q)" for q
    using keepers_self [of J j f q] assms(2) by (auto simp: keepers_upd e)
  ultimately show ?thesis using assms(1,2) r(2) by (simp add: ops_ok_def e)
next
  case False
  then have "f' = f" "n' = n" using assms(3) by (auto simp: enliven_def split: option.splits if_splits)
  then show ?thesis using assms(1,2) by (simp add: fun_upd_idem)
qed

lemma ops_ok_same_liveness:
  assumes "ops_ok (J(j \<mapsto> f)) n" and "liveness g = liveness f"
  shows "ops_ok (J(j \<mapsto> g)) n"
proof -
  have "\<forall>k h. (J(j \<mapsto> g)) k = Some h \<longrightarrow> distinct (liveness h)"
    using assms unfolding ops_ok_def by (metis fun_upd_apply option.inject)
  with assms show ?thesis unfolding ops_ok_def keepers_upd by simp
qed

lemma poll_join_liveness:
  "poll_join f w s = Some (s', f', p) \<Longrightarrow> liveness f' = liveness f"
  by (auto simp: poll_join_def register_join_def Let_def bind_eq_Some_conv split: option.splits)

lemma ops_ok_poll:
  assumes "ops_ok J n" and "J j = Some f" and "worker_join_poll rt f w s n = Some (s', f', n', p)"
  shows "ops_ok (J(j \<mapsto> f')) n'" and "is_ready p \<Longrightarrow> liveness f' = []"
proof -
  obtain f1 n1 where e: "enliven rt f n = (f1, n1)" by (cases "enliven rt f n")
  obtain f2 where q: "poll_join f1 w s = Some (s', f2, p)"
      "(f', n') = (if is_ready p then clear_liveness f2 n1 else (f2, n1))"
    using assms(3) by (auto simp: worker_join_poll_def e bind_eq_Some_conv split: if_splits prod.splits)
  have "ops_ok (J(j \<mapsto> f1)) n1" using assms(1,2) e by (rule ops_ok_enliven)
  then have o2: "ops_ok (J(j \<mapsto> f2)) n1" by (rule ops_ok_same_liveness) (rule poll_join_liveness [OF q(1)])
  have l: "liveness (fst (clear_liveness f2 n1)) = []" by (simp add: clear_liveness_def)
  show "is_ready p \<Longrightarrow> liveness f' = []" using q(2) l by (metis fst_conv)
  show "ops_ok (J(j \<mapsto> f')) n'"
    using ops_ok_clear(1) [OF o2, of j f2 "fst (clear_liveness f2 n1)"] o2 l q(2)
    by (cases "is_ready p") (auto, metis fst_conv snd_conv)
qed

lemma ops_ok_step:
  assumes "join_step s l t" and "ops_ok (joins s) (ops s)"
  shows "ops_ok (joins t) (ops t)"
  using assms(1)
proof cases
  case (jn_join j)
  moreover have "keepers ((joins s)(j \<mapsto> join_new)) r = keepers (joins s) r" for r
    using jn_join by (auto simp: keepers_upd join_new_def) (auto simp: keepers_def)
  ultimately show ?thesis using assms(2) by (simp add: ops_ok_def join_new_def)
next
  case (jn_drop j f r o')
  then show ?thesis
    using ops_ok_clear(2) [OF assms(2), of j f "f\<lparr>liveness := []\<rparr>"] by (simp add: worker_join_drop_def)
qed (use assms(2) ops_ok_poll(1) in auto)

subsection \<open>Wakes\<close>

definition join_registered :: "(nat \<rightharpoonup> worker_join) \<Rightarrow> nat \<Rightarrow> nat \<Rightarrow> address \<Rightarrow> bool" where
  "join_registered J j i a \<longleftrightarrow> (\<exists>f. J j = Some f \<and> waiter_id f = Some i \<and> waiter_active f = Some a)"

text \<open>The wake-up a registered future waits for: its waiter is in the map, or the reaper is about to wake it,
  or has done so.\<close>

definition wake_due :: "join_sys \<Rightarrow> nat \<Rightarrow> address \<Rightarrow> waker \<Rightarrow> bool" where
  "wake_due s i a w \<longleftrightarrow>
     (if outcome (wc (js s)) = None
      then (i, \<lparr>ww_active = a, ww_waker = w\<rparr>) \<in> set (join_waiters (wc (js s))) \<and> flags (js s) a
      else \<lparr>ww_active = a, ww_waker = w\<rparr> \<in> set (waking s) \<and> flags (js s) a \<or> (a, w) \<in> woken s)"

definition paired :: "(nat \<rightharpoonup> worker_join) \<Rightarrow> bool" where
  "paired J \<longleftrightarrow> (\<forall>f \<in> ran J. waiter_id f = None \<longleftrightarrow> waiter_active f = None)"

definition apart :: "(nat \<rightharpoonup> worker_join) \<Rightarrow> bool" where
  "apart J \<longleftrightarrow> (\<forall>j k i i' a a'. join_registered J j i a \<longrightarrow> join_registered J k i' a' \<longrightarrow> j \<noteq> k \<longrightarrow> i \<noteq> i' \<and> a \<noteq> a')"

definition awaited :: "join_sys \<Rightarrow> bool" where
  "awaited s \<longleftrightarrow> (\<forall>j i a. join_registered (joins s) j i a \<longrightarrow>
     i < next_waiter_id (wc (js s)) \<and> a < next_flag (js s) \<and> (\<exists>w. polled s j = Some w \<and> wake_due s i a w))"

definition owned :: "join_sys \<Rightarrow> bool" where
  "owned s \<longleftrightarrow> (\<forall>e \<in> set (join_waiters (wc (js s))). \<exists>j. join_registered (joins s) j (fst e) (ww_active (snd e)))"

definition phase_ok :: "join_sys \<Rightarrow> bool" where
  "phase_ok s \<longleftrightarrow>
     (case phase s of
        Working \<Rightarrow> outcome (wc (js s)) = None
      | Recorded \<Rightarrow> outcome (wc (js s)) = None \<and> worker_outcome (wc (js s)) \<noteq> None
      | Exited p \<Rightarrow> outcome (wc (js s)) = None \<and> (p \<or> worker_outcome (wc (js s)) \<noteq> None)
      | Published \<Rightarrow> outcome (wc (js s)) \<noteq> None) \<and>
     (finished (wc (js s)) \<longleftrightarrow> outcome (wc (js s)) \<noteq> None) \<and> (waking s \<noteq> [] \<longrightarrow> phase s = Published)"

definition join_inv :: "join_sys \<Rightarrow> bool" where
  "join_inv s \<longleftrightarrow>
     phase_ok s \<and> sorted_wrt (<) (map fst (join_waiters (wc (js s)))) \<and> paired (joins s) \<and> apart (joins s) \<and>
     awaited s \<and> ops_ok (joins s) (ops s) \<and> owned s \<and> distinct (map ww_active (waking s))"

lemma bt_insert_spec:
  assumes "sorted_wrt (<) (map fst m)"
  shows "set (bt_insert k v m) = insert (k, v) {e \<in> set m. fst e \<noteq> k}"
    and "sorted_wrt (<) (map fst (bt_insert k v m))"
proof -
  have "set (bt_insert k v m) = insert (k, v) {e \<in> set m. fst e \<noteq> k} \<and> sorted_wrt (<) (map fst (bt_insert k v m))"
    using assms
  proof (induction m)
    case (Cons e m)
    obtain j u where e: "e = (j, u)" by (cases e)
    have m: "\<forall>x \<in> set m. j < fst x" "sorted_wrt (<) (map fst m)" using Cons.prems by (auto simp: e)
    show ?case
    proof (cases "k \<le> j")
      case True
      then show ?thesis using m Cons.prems by (cases "k = j") (auto simp: e)
    next
      case False
      then show ?thesis using m Cons.IH [OF m(2)] by (auto simp: e)
    qed
  qed simp
  then show "set (bt_insert k v m) = insert (k, v) {e \<in> set m. fst e \<noteq> k}"
    "sorted_wrt (<) (map fst (bt_insert k v m))" by auto
qed

lemma bt_remove_spec:
  "set (bt_remove k m) = {e \<in> set m. fst e \<noteq> k}"
  "sorted_wrt (<) (map fst m) \<Longrightarrow> sorted_wrt (<) (map fst (bt_remove k m))"
  by (auto simp: bt_remove_def sorted_wrt_map intro: sorted_wrt_filter)

lemma leave_simps [simp]:
  "outcome (wc (unregister i (deactivate a s))) = outcome (wc s)"
  "worker_outcome (wc (unregister i (deactivate a s))) = worker_outcome (wc s)"
  "finished (wc (unregister i (deactivate a s))) = finished (wc s)"
  "next_waiter_id (wc (unregister i (deactivate a s))) = next_waiter_id (wc s)"
  "next_flag (unregister i (deactivate a s)) = next_flag s"
  "flags (unregister i (deactivate a s)) b = (flags s b \<and> a \<noteq> Some b)"
  "set (join_waiters (wc (unregister i (deactivate a s)))) = {e \<in> set (join_waiters (wc s)). i \<noteq> Some (fst e)}"
  "sorted_wrt (<) (map fst (join_waiters (wc s))) \<Longrightarrow>
     sorted_wrt (<) (map fst (join_waiters (wc (unregister i (deactivate a s)))))"
  by (auto simp: unregister_def deactivate_def remove_join_waiter_def bt_remove_spec split: option.splits)

lemma join_registered_upd:
  "join_registered (J(j \<mapsto> f)) k i a \<longleftrightarrow>
     (if k = j then waiter_id f = Some i \<and> waiter_active f = Some a else join_registered J k i a)"
  "join_registered (J(j := None)) k i a \<longleftrightarrow> k \<noteq> j \<and> join_registered J k i a"
  by (auto simp: join_registered_def)

lemma join_registeredI: "J j = Some f \<Longrightarrow> waiter_id f = Some i \<Longrightarrow> waiter_active f = Some a \<Longrightarrow> join_registered J j i a"
  by (auto simp: join_registered_def)

lemma apart_sub:
  assumes "apart J" and "\<And>k i a. join_registered J' k i a \<Longrightarrow> join_registered J k i a"
  shows "apart J'"
  using assms unfolding apart_def by blast

lemma paired_upd: "paired J \<Longrightarrow> (waiter_id f = None \<longleftrightarrow> waiter_active f = None) \<Longrightarrow> paired (J(j \<mapsto> f))"
  "paired J \<Longrightarrow> paired (J(j := None))"
  by (auto simp: paired_def ran_def)

text \<open>A future that leaves the completion takes only its own waiter and flag with it.\<close>

lemma awaited_leave:
  assumes "awaited s" and "apart (joins s)" and "paired (joins s)" and "joins s j = Some f"
    and "js t = unregister (waiter_id f) (deactivate (waiter_active f) (js s))" and "waking t = waking s"
    and "woken t = woken s" and "\<And>k. k \<noteq> j \<Longrightarrow> polled t k = polled s k"
    and "\<And>k i a. join_registered (joins t) k i a \<Longrightarrow> k \<noteq> j \<and> join_registered (joins s) k i a"
  shows "awaited t"
  unfolding awaited_def
proof (intro allI impI)
  fix k i a
  assume "join_registered (joins t) k i a"
  then have k: "k \<noteq> j" "join_registered (joins s) k i a" using assms(9) by auto
  obtain w where w: "polled s k = Some w" "wake_due s i a w" "i < next_waiter_id (wc (js s))" "a < next_flag (js s)"
    using assms(1) k(2) unfolding awaited_def by blast
  have "waiter_active f \<noteq> Some a \<and> waiter_id f \<noteq> Some i"
  proof (cases "waiter_id f")
    case None
    then show ?thesis using assms(3,4) by (auto simp: paired_def ran_def)
  next
    case (Some i')
    then obtain a' where "waiter_active f = Some a'" using assms(3,4) by (fastforce simp: paired_def ran_def)
    then show ?thesis
      using assms(2) k join_registeredI [of "joins s" j f i' a'] assms(4) Some unfolding apart_def
      by (metis option.inject)
  qed
  then have "wake_due t i a w"
    using w(2) by (auto simp: wake_due_def assms(5-7))
  then show "i < next_waiter_id (wc (js t)) \<and> a < next_flag (js t) \<and> (\<exists>w. polled t k = Some w \<and> wake_due t i a w)"
    using w k(1) by (simp add: assms(5,8))
qed

text \<open>What a poll does, on each branch.\<close>

lemma join_poll_cases:
  assumes "worker_join_poll rt f w s n = Some (s', f', n', p)" and "waiter_id f = None \<longleftrightarrow> waiter_active f = None"
  obtains (ready) r where "outcome (wc s) = Some r" "p = Ready r"
      "s' = unregister (waiter_id f) (deactivate (waiter_active f) s)" "waiter_id f' = None" "waiter_active f' = None"
  | (again) i a where "outcome (wc s) = None" "p = Pending" "waiter_id f = Some i" "waiter_active f = Some a"
      "waiter_id f' = Some i" "waiter_active f' = Some a"
      "s' = s\<lparr>wc := (wc s)\<lparr>join_waiters := bt_insert i \<lparr>ww_active = a, ww_waker = w\<rparr> (join_waiters (wc s))\<rparr>\<rparr>"
  | (fresh) i a where "outcome (wc s) = None" "p = Pending" "waiter_id f = None" "waiter_active f = None"
      "i = next_waiter_id (wc s)" "a = next_flag s" "waiter_id f' = Some i" "waiter_active f' = Some a"
      "s' = s\<lparr>wc := (wc s)\<lparr>next_waiter_id := Suc i,
              join_waiters := bt_insert i \<lparr>ww_active = a, ww_waker = w\<rparr> (join_waiters (wc s))\<rparr>,
            flags := (flags s)(a := True), next_flag := Suc a\<rparr>"
proof -
  obtain f1 n1 where e: "enliven rt f n = (f1, n1)" by (cases "enliven rt f n")
  have f1: "waiter_id f1 = waiter_id f" "waiter_active f1 = waiter_active f"
    using e by (auto simp: enliven_def split: option.splits if_splits)
  obtain f2 where q: "poll_join f1 w s = Some (s', f2, p)"
      "waiter_id f' = waiter_id f2" "waiter_active f' = waiter_active f2"
    using assms(1) by (auto simp: worker_join_poll_def e bind_eq_Some_conv clear_liveness_def split: if_splits)
  show ?thesis
  proof (cases "outcome (wc s)")
    case (Some r)
    then show ?thesis using q f1 by (intro ready [of r]) (auto simp: poll_join_def)
  next
    case None
    show ?thesis
    proof (cases "waiter_id f")
      case (Some i)
      then obtain a where "waiter_active f = Some a" using assms(2) by auto
      with Some None show ?thesis
        using q f1 by (intro again [of i a]) (auto simp: poll_join_def register_join_def)
    next
      case i: None
      then have "waiter_active f = None" using assms(2) by simp
      with i None show ?thesis
        using q f1 by (intro fresh [of "next_waiter_id (wc s)" "next_flag s"])
          (auto simp: poll_join_def register_join_def bind_eq_Some_conv checked_add_def Let_def split: if_splits)
    qed
  qed
qed

lemma join_invD:
  assumes "join_inv s"
  shows "phase_ok s" "sorted_wrt (<) (map fst (join_waiters (wc (js s))))" "paired (joins s)" "apart (joins s)"
    "awaited s" "ops_ok (joins s) (ops s)" "owned s" "distinct (map ww_active (waking s))"
  using assms by (simp_all add: join_inv_def)

lemma owned_leave:
  assumes "owned s" and "js t = unregister (waiter_id f) (deactivate a (js s))" and "joins s j = Some f"
    and "\<And>k i b. k \<noteq> j \<Longrightarrow> join_registered (joins s) k i b \<Longrightarrow> join_registered (joins t) k i b"
  shows "owned t"
  unfolding owned_def
proof
  fix e
  assume "e \<in> set (join_waiters (wc (js t)))"
  then have e: "e \<in> set (join_waiters (wc (js s)))" "waiter_id f \<noteq> Some (fst e)" by (simp_all add: assms(2))
  then obtain k where k: "join_registered (joins s) k (fst e) (ww_active (snd e))"
    using assms(1) unfolding owned_def by blast
  then have "k \<noteq> j" using e(2) assms(3) by (auto simp: join_registered_def)
  with k assms(4) show "\<exists>j. join_registered (joins t) j (fst e) (ww_active (snd e))" by blast
qed

lemma owned_distinct:
  assumes "owned s" and "apart (joins s)" and "sorted_wrt (<) (map fst (join_waiters (wc (js s))))"
  shows "distinct (map ww_active (map snd (join_waiters (wc (js s)))))"
proof -
  let ?m = "join_waiters (wc (js s))"
  have d: "distinct (map fst ?m)" using assms(3) by (simp add: strict_sorted_iff)
  have "e = e'" if e: "e \<in> set ?m" "e' \<in> set ?m" "ww_active (snd e) = ww_active (snd e')" for e e'
  proof -
    obtain j k where r: "join_registered (joins s) j (fst e) (ww_active (snd e))"
        "join_registered (joins s) k (fst e') (ww_active (snd e'))"
      using assms(1) e(1,2) unfolding owned_def by blast
    then have "j = k" using assms(2) e(3) unfolding apart_def by metis
    then have "fst e = fst e'" using r by (auto simp: join_registered_def)
    then show ?thesis using d e(1,2) by (auto dest: distinct_map_eqD)
  qed
  moreover have "distinct ?m" using d by (simp add: distinct_map)
  ultimately show ?thesis by (auto simp: distinct_map inj_on_def)
qed

lemma awaitedE:
  assumes "awaited s" and "join_registered (joins s) j i a"
  obtains w where "polled s j = Some w" "wake_due s i a w" "i < next_waiter_id (wc (js s))" "a < next_flag (js s)"
  using assms unfolding awaited_def by blast

lemma phase_ok_cong:
  assumes "phase_ok s" and "phase t = phase s" and "outcome (wc (js t)) = outcome (wc (js s))"
    and "worker_outcome (wc (js t)) = worker_outcome (wc (js s))" and "finished (wc (js t)) = finished (wc (js s))"
    and "waking t \<noteq> [] \<longrightarrow> waking s \<noteq> []"
  shows "phase_ok t"
  using assms by (cases "phase s") (simp_all add: phase_ok_def)

lemma join_inv_pending:
  assumes "join_inv s" and "joins s j = Some f" and "worker_join_poll rt f w (js s) (ops s) = Some (r, f', o', Pending)"
  shows "join_inv (s\<lparr>js := r, joins := (joins s)(j \<mapsto> f'), ops := o', polled := (polled s)(j \<mapsto> w)\<rparr>)" (is "join_inv ?t")
proof -
  note inv = join_invD [OF assms(1)]
  have pf: "waiter_id f = None \<longleftrightarrow> waiter_active f = None" using inv(3) assms(2) by (auto simp: paired_def ran_def)
  have o: "ops_ok (joins ?t) (ops ?t)" using ops_ok_poll(1) [OF inv(6) assms(2,3)] by simp
  from assms(3) pf show ?thesis
  proof (cases rule: join_poll_cases)
    case (again i a)
    have ra: "join_registered (joins s) j i a" using assms(2) again by (auto simp: join_registered_def)
    have same: "join_registered (joins ?t) k i' a' \<longleftrightarrow> join_registered (joins s) k i' a'" for k i' a'
      using ra again assms(2) by (auto simp: join_registered_upd join_registered_def)
    have "awaited ?t"
      unfolding awaited_def
    proof (intro allI impI)
      fix k i' a'
      assume "join_registered (joins ?t) k i' a'"
      then have k: "join_registered (joins s) k i' a'" by (rule same [THEN iffD1])
      from inv(5) k obtain v where v: "polled s k = Some v" "wake_due s i' a' v"
          "i' < next_waiter_id (wc (js s))" "a' < next_flag (js s)" by (rule awaitedE)
      have "k \<noteq> j \<Longrightarrow> i' \<noteq> i" using inv(4) ra k unfolding apart_def by blast
      moreover have "k = j \<Longrightarrow> i' = i \<and> a' = a" using ra k by (auto simp: join_registered_def)
      ultimately show "i' < next_waiter_id (wc (js ?t)) \<and> a' < next_flag (js ?t) \<and>
          (\<exists>w. polled ?t k = Some w \<and> wake_due ?t i' a' w)"
        using v again(1,7) by (cases "k = j") (auto simp: wake_due_def bt_insert_spec [OF inv(2)])
    qed
    moreover have "apart (joins ?t)" using inv(4) by (rule apart_sub) (rule same [THEN iffD1])
    moreover have "paired (joins ?t)" using inv(3) again by (auto intro: paired_upd)
    moreover have "phase_ok ?t" using inv(1) by (rule phase_ok_cong) (simp_all add: again)
    moreover have "owned ?t"
      unfolding owned_def same using inv(7) ra again(7) by (auto simp: owned_def bt_insert_spec [OF inv(2)])
    ultimately show ?thesis using o inv(8) again(7) bt_insert_spec(2) [OF inv(2)] by (simp add: join_inv_def)
  next
    case (fresh i a)
    have reg: "join_registered (joins ?t) k i' a' \<longleftrightarrow> (if k = j then i' = i \<and> a' = a else join_registered (joins s) k i' a')" for k i' a'
      using fresh by (auto simp: join_registered_upd)
    have lt: "i' < i \<and> a' < a" if "join_registered (joins s) k i' a'" for k i' a'
      using inv(5) that by (rule awaitedE) (simp add: fresh(5,6))
    have "awaited ?t"
      unfolding awaited_def
    proof (intro allI impI)
      fix k i' a'
      assume r: "join_registered (joins ?t) k i' a'"
      show "i' < next_waiter_id (wc (js ?t)) \<and> a' < next_flag (js ?t) \<and> (\<exists>w. polled ?t k = Some w \<and> wake_due ?t i' a' w)"
      proof (cases "k = j")
        case True
        with r reg [of k i' a'] have "i' = i" "a' = a" by auto
        with True fresh(1,9) show ?thesis by (auto simp: wake_due_def bt_insert_spec [OF inv(2)])
      next
        case False
        with r reg [of k i' a'] have k: "join_registered (joins s) k i' a'" by auto
        from inv(5) k obtain v where "polled s k = Some v" "wake_due s i' a' v" by (rule awaitedE)
        with lt [OF k] False fresh(1,9) show ?thesis by (auto simp: wake_due_def bt_insert_spec [OF inv(2)])
      qed
    qed
    moreover have "apart (joins ?t)"
      unfolding apart_def reg
    proof (intro allI impI)
      fix k l i1 i2 a1 a2
      assume r: "if k = j then i1 = i \<and> a1 = a else join_registered (joins s) k i1 a1"
        "if l = j then i2 = i \<and> a2 = a else join_registered (joins s) l i2 a2" and ne: "k \<noteq> l"
      show "i1 \<noteq> i2 \<and> a1 \<noteq> a2"
      proof (cases "k = j \<or> l = j")
        case True
        with r ne lt [of k i1 a1] lt [of l i2 a2] show ?thesis by (auto split: if_splits)
      next
        case False
        with r have "join_registered (joins s) k i1 a1" "join_registered (joins s) l i2 a2" by simp_all
        with inv(4) ne show ?thesis unfolding apart_def by blast
      qed
    qed
    moreover have "paired (joins ?t)" using inv(3) fresh by (auto intro: paired_upd)
    moreover have "phase_ok ?t" using inv(1) by (rule phase_ok_cong) (simp_all add: fresh)
    moreover have "owned ?t"
      unfolding owned_def
    proof
      fix e
      assume "e \<in> set (join_waiters (wc (js ?t)))"
      then consider "e = (i, \<lparr>ww_active = a, ww_waker = w\<rparr>)" | "e \<in> set (join_waiters (wc (js s)))"
        using fresh(9) by (auto simp: bt_insert_spec [OF inv(2)])
      then show "\<exists>k. join_registered (joins ?t) k (fst e) (ww_active (snd e))"
      proof cases
        case 1
        then show ?thesis using reg [of j i a] by auto
      next
        case 2
        then obtain k where k: "join_registered (joins s) k (fst e) (ww_active (snd e))"
          using inv(7) unfolding owned_def by blast
        then have "k \<noteq> j" using fresh(3) assms(2) by (auto simp: join_registered_def)
        then show ?thesis using k reg [of k] by auto
      qed
    qed
    ultimately show ?thesis using o inv(8) fresh(9) bt_insert_spec(2) [OF inv(2)] by (simp add: join_inv_def)
  qed simp_all
qed

lemma join_inv_ready:
  assumes "join_inv s" and "joins s j = Some f"
    and "worker_join_poll rt f w (js s) (ops s) = Some (r, f', o', Ready res)"
  shows "join_inv (s\<lparr>js := r, joins := (joins s)(j \<mapsto> f'), ops := o', polled := (polled s)(j := None)\<rparr>)" (is "join_inv ?t")
    and "outcome (wc (js s)) = Some res"
proof -
  note inv = join_invD [OF assms(1)]
  have pf: "waiter_id f = None \<longleftrightarrow> waiter_active f = None" using inv(3) assms(2) by (auto simp: paired_def ran_def)
  have o: "ops_ok (joins ?t) (ops ?t)" using ops_ok_poll(1) [OF inv(6) assms(2,3)] by simp
  have c: "outcome (wc (js s)) = Some res" "r = unregister (waiter_id f) (deactivate (waiter_active f) (js s))"
      "waiter_id f' = None" "waiter_active f' = None"
    using assms(3) pf by (cases rule: join_poll_cases; auto)+
  show "outcome (wc (js s)) = Some res" by (rule c(1))
  have reg: "join_registered (joins ?t) k i a \<Longrightarrow> k \<noteq> j \<and> join_registered (joins s) k i a" for k i a
    using c by (auto simp: join_registered_upd split: if_splits)
  have "awaited ?t"
    by (rule awaited_leave [OF inv(5,4,3) assms(2)]) (use c(2) reg in auto)
  moreover have "apart (joins ?t)" using inv(4) by (rule apart_sub) (use reg in blast)
  moreover have "paired (joins ?t)" using inv(3) c by (auto intro: paired_upd)
  moreover have "phase_ok ?t" using inv(1) by (rule phase_ok_cong) (simp_all add: c(2))
  moreover have "owned ?t"
    by (rule owned_leave [OF inv(7) _ assms(2)]) (use c(2) in \<open>auto simp: join_registered_upd\<close>)
  ultimately show "join_inv ?t" using o c(2) inv(2,8) by (simp add: join_inv_def)
qed

lemma join_inv_drop:
  assumes "join_inv s" and "joins s j = Some f" and "worker_join_drop f (js s) (ops s) = (r, o')"
  shows "join_inv (s\<lparr>js := r, joins := (joins s)(j := None), ops := o', polled := (polled s)(j := None)\<rparr>)" (is "join_inv ?t")
proof -
  note inv = join_invD [OF assms(1)]
  have c: "r = unregister (waiter_id f) (deactivate (waiter_active f) (js s))" "o' = snd (clear_liveness f (ops s))"
    using assms(3) by (simp_all add: worker_join_drop_def)
  have reg: "join_registered (joins ?t) k i a \<Longrightarrow> k \<noteq> j \<and> join_registered (joins s) k i a" for k i a
    by (auto simp: join_registered_upd)
  have "awaited ?t"
    by (rule awaited_leave [OF inv(5,4,3) assms(2)]) (use c(1) reg in auto)
  moreover have "apart (joins ?t)" using inv(4) by (rule apart_sub) (use reg in blast)
  moreover have "paired (joins ?t)" using inv(3) by (auto intro: paired_upd)
  moreover have "phase_ok ?t" using inv(1) by (rule phase_ok_cong) (simp_all add: c(1))
  moreover have "ops_ok (joins ?t) (ops ?t)"
    using ops_ok_clear(2) [OF inv(6) assms(2), of "f\<lparr>liveness := []\<rparr>"] c(2) by simp
  moreover have "owned ?t"
    by (rule owned_leave [OF inv(7) _ assms(2)]) (use c(1) in \<open>auto simp: join_registered_upd\<close>)
  ultimately show ?thesis using c(1) inv(2,8) by (simp add: join_inv_def)
qed

text \<open>Publishing hands every registered waiter to the reaper's wakes; each wake reaches its future unless the
  future has left.\<close>

lemma awaited_mono:
  assumes "awaited s" and "joins t = joins s" and "polled t = polled s"
    and "next_waiter_id (wc (js t)) = next_waiter_id (wc (js s))" and "next_flag (js t) = next_flag (js s)"
    and "\<And>i a w. wake_due s i a w \<Longrightarrow> wake_due t i a w"
  shows "awaited t"
  using assms unfolding awaited_def by metis

lemma join_inv_publish:
  assumes "join_inv s" and "phase s = Exited p" and "publish_after_join p (js s) = (r, ws)"
  shows "join_inv (s\<lparr>js := r, waking := ws, phase := Published\<rparr>)" (is "join_inv ?t")
proof -
  note inv = join_invD [OF assms(1)]
  have o: "outcome (wc (js s)) = None" using inv(1) assms(2) by (simp add: phase_ok_def)
  have r: "outcome (wc r) \<noteq> None" "finished (wc r)" "join_waiters (wc r) = []" "ws = map snd (join_waiters (wc (js s)))"
      "next_waiter_id (wc r) = next_waiter_id (wc (js s))" "next_flag r = next_flag (js s)" "flags r = flags (js s)"
    using assms(3) by (auto simp: publish_after_join_def Let_def)
  have "awaited ?t"
    using inv(5) by (rule awaited_mono) (use r o in \<open>force simp: wake_due_def\<close>)+
  with inv r owned_distinct [OF inv(7,4,2)] show ?thesis by (simp add: join_inv_def phase_ok_def owned_def)
qed

lemma join_inv_wake:
  assumes "join_inv s" and "waking s = x # xs" and "phase s = Published"
    and "wake_joiner x (js s) = (r, v)"
    and "t = s\<lparr>js := r, waking := xs,
      woken := (case v of Some w \<Rightarrow> insert (ww_active x, w) (woken s) | None \<Rightarrow> woken s)\<rparr>"
  shows "join_inv t"
proof -
  note inv = join_invD [OF assms(1)]
  have o: "outcome (wc (js s)) \<noteq> None" using inv(1) assms(3) by (simp add: phase_ok_def)
  have r: "wc r = wc (js s)" "next_flag r = next_flag (js s)"
      "flags (js s) (ww_active x) \<Longrightarrow> v = Some (ww_waker x)" "a \<noteq> ww_active x \<Longrightarrow> flags r a = flags (js s) a"
      "v = None \<Longrightarrow> \<not> flags (js s) (ww_active x) \<and> flags r = flags (js s)" for a
    using assms(4) by (auto simp: wake_joiner_def split: if_splits)
  have "wake_due t i a w" if d: "wake_due s i a w" for i a w
  proof (cases "(a, w) \<in> woken s")
    case True
    then show ?thesis using o r(1) by (auto simp: wake_due_def assms(5) split: option.splits)
  next
    case False
    then have w: "\<lparr>ww_active = a, ww_waker = w\<rparr> \<in> set (waking s)" "flags (js s) a"
      using d o by (auto simp: wake_due_def)
    show ?thesis
    proof (cases "x = \<lparr>ww_active = a, ww_waker = w\<rparr>")
      case True
      then show ?thesis using w(2) r(3) o r(1) by (auto simp: wake_due_def assms(5))
    next
      case False
      then have m: "\<lparr>ww_active = a, ww_waker = w\<rparr> \<in> set xs" using w(1) assms(2) by simp
      then have "ww_active \<lparr>ww_active = a, ww_waker = w\<rparr> \<in> ww_active ` set xs" by (rule imageI)
      moreover have "ww_active x \<notin> ww_active ` set xs" using inv(8) assms(2) by simp
      ultimately have "a \<noteq> ww_active x" by (metis worker_waiter.select_convs(1))
      with m w(2) r(1,4) o show ?thesis by (auto simp: wake_due_def assms(5))
    qed
  qed
  then have "awaited t" using inv(5) by (intro awaited_mono [of s t]) (simp_all add: assms(5) r)
  moreover have "phase_ok t" using inv(1) by (rule phase_ok_cong) (simp_all add: assms(2,5) r)
  moreover have "owned t" using inv(7) by (simp add: owned_def assms(5) r)
  ultimately show ?thesis using inv assms(2) by (simp add: join_inv_def assms(5) r)
qed

lemma join_inv_same:
  assumes "join_inv s" and "phase_ok t" and "join_waiters (wc (js t)) = join_waiters (wc (js s))"
    and "outcome (wc (js t)) = outcome (wc (js s))" and "flags (js t) = flags (js s)"
    and "next_waiter_id (wc (js t)) = next_waiter_id (wc (js s))" and "next_flag (js t) = next_flag (js s)"
    and "joins t = joins s" and "ops t = ops s" and "polled t = polled s" and "waking t = waking s" and "woken t = woken s"
  shows "join_inv t"
proof -
  note inv = join_invD [OF assms(1)]
  have "wake_due t i a w = wake_due s i a w" for i a w by (simp add: wake_due_def assms)
  then have "awaited t" using inv(5) by (intro awaited_mono [of s t]) (simp_all add: assms)
  moreover have "owned t" using inv(7) by (simp add: owned_def assms)
  ultimately show ?thesis using inv assms(2) by (simp add: join_inv_def assms(3-))
qed

lemma join_inv_new:
  assumes "join_inv s" and "joins s j = None"
  shows "join_inv (s\<lparr>joins := (joins s)(j \<mapsto> join_new)\<rparr>)" (is "join_inv ?t")
proof -
  note inv = join_invD [OF assms(1)]
  have reg: "join_registered (joins ?t) k i a \<longleftrightarrow> join_registered (joins s) k i a" for k i a
    using assms(2) by (auto simp: join_registered_def join_new_def)
  have "wake_due ?t i a w = wake_due s i a w" for i a w by (simp add: wake_due_def)
  then have "awaited ?t" using inv(5) unfolding awaited_def reg by simp
  moreover have "apart (joins ?t)" using inv(4) by (rule apart_sub) (rule reg [THEN iffD1])
  moreover have "owned ?t" using inv(7) unfolding owned_def reg by simp
  moreover have "paired (joins ?t)" using inv(3) by (auto intro: paired_upd simp: join_new_def)
  moreover have "ops_ok (joins ?t) (ops ?t)" using ops_ok_step [OF jn_join [OF assms(2)] inv(6)] .
  moreover have "phase_ok ?t" using inv(1) by (rule phase_ok_cong) simp_all
  ultimately show ?thesis using inv(2,8) by (simp add: join_inv_def)
qed

lemma join_inv_step:
  assumes "join_inv s" and "join_step s l t"
  shows "join_inv t"
proof -
  note inv = join_invD [OF assms(1)]
  from assms(2) show ?thesis
  proof cases
    case (jn_record r)
    then have "phase_ok t" using inv(1) by (simp add: phase_ok_def record_worker_outcome_def)
    then show ?thesis
      using assms(1) jn_record by (auto intro: join_inv_same simp: record_worker_outcome_def)
  next
    case (jn_exit panicked)
    then have "phase_ok t" using inv(1) by (auto simp: phase_ok_def)
    then show ?thesis using assms(1) jn_exit by (auto intro: join_inv_same)
  next
    case (jn_publish panicked r ws)
    with join_inv_publish [OF assms(1)] show ?thesis by blast
  next
    case (jn_wake x xs r w)
    then have "phase s = Published" using inv(1) by (simp add: phase_ok_def)
    with jn_wake show ?thesis using join_inv_wake [OF assms(1), of x xs r "Some w" t] by simp
  next
    case (jn_skip x xs r)
    then have "phase s = Published" using inv(1) by (simp add: phase_ok_def)
    with jn_skip show ?thesis using join_inv_wake [OF assms(1), of x xs r None t] by simp
  next
    case (jn_join j)
    with join_inv_new [OF assms(1)] show ?thesis by blast
  next
    case (jn_poll_pending j f rt w r f' o')
    with join_inv_pending [OF assms(1)] show ?thesis by blast
  next
    case (jn_poll_ready j f rt w r f' o' res)
    with join_inv_ready(1) [OF assms(1)] show ?thesis by blast
  next
    case (jn_drop j f r o')
    with join_inv_drop [OF assms(1)] show ?thesis by blast
  qed
qed

interpretation worker: bounded_system join_init join_step "\<lambda>_. 0" 0 join_inv
proof
  show "join_init s \<Longrightarrow> join_inv s" for s
    by (simp add: join_init_def join_inv_def phase_ok_def worker_completion_new_def paired_def apart_def awaited_def
        join_registered_def owned_def ops_ok_def keepers_def)
  show "join_inv s \<Longrightarrow> join_step s l t \<Longrightarrow> (0::nat) \<le> 0 \<Longrightarrow> join_inv t" for s t and l
    using join_inv_step by blast
qed simp

lemma publish_spec:
  "publish_after_join p s = (r, ws) \<Longrightarrow>
     outcome (wc r) = Some (if p then Inl RuntimePanicked
       else case worker_outcome (wc s) of Some x \<Rightarrow> x | None \<Rightarrow> Inl RuntimePanicked) \<and> finished (wc r)"
  by (auto simp: publish_after_join_def Let_def)

text \<open>The published outcome never changes.\<close>

lemma outcome_step:
  assumes "join_inv s" and "join_step s l t" and "outcome (wc (js s)) = Some r"
  shows "outcome (wc (js t)) = Some r \<and> (l = JReady j res \<longrightarrow> res = r)"
  using assms(2)
proof cases
  case (jn_record r')
  then show ?thesis using assms(3) by (simp add: record_worker_outcome_def)
next
  case (jn_publish panicked r' ws)
  then show ?thesis using join_invD(1) [OF assms(1)] assms(3) by (simp add: phase_ok_def)
next
  case (jn_wake x xs r' w)
  then show ?thesis using assms(3) by (auto simp: wake_joiner_def split: if_splits)
next
  case (jn_skip x xs r')
  then show ?thesis using assms(3) by (auto simp: wake_joiner_def split: if_splits)
next
  case (jn_poll_pending k f rt w r' f' o')
  have "waiter_id f = None \<longleftrightarrow> waiter_active f = None"
    using join_invD(3) [OF assms(1)] jn_poll_pending by (auto simp: paired_def ran_def)
  with jn_poll_pending(4) have False using assms(3) by (cases rule: join_poll_cases) auto
  then show ?thesis ..
next
  case (jn_poll_ready k f rt w r' f' o' res')
  have pf: "waiter_id f = None \<longleftrightarrow> waiter_active f = None"
    using join_invD(3) [OF assms(1)] jn_poll_ready by (auto simp: paired_def ran_def)
  from jn_poll_ready(4) pf have "r' = unregister (waiter_id f) (deactivate (waiter_active f) (js s)) \<and> res' = r"
    using assms(3) by (cases rule: join_poll_cases) auto
  then show ?thesis using jn_poll_ready assms(3) by simp
next
  case (jn_drop k f r' o')
  then show ?thesis using assms(3) by (auto simp: worker_join_drop_def)
qed (use assms(3) in auto)

lemma outcome_run:
  assumes "run join_step s ls t" and "join_inv s" and "outcome (wc (js s)) = Some r"
  shows "outcome (wc (js t)) = Some r \<and> (\<forall>j res. JReady j res \<in> set ls \<longrightarrow> res = r)"
  using assms
proof (induction rule: run.induct)
  case (run_snoc s ls t l u)
  then have "outcome (wc (js t)) = Some r" "join_inv t" using worker.inv_run [of s ls t] by auto
  with outcome_step [of t l u r] run_snoc show ?case by auto
qed simp

subsection \<open>Properties\<close>

definition wj_demo :: join_sys where
  "wj_demo = \<lparr>js = \<lparr>wc = worker_completion_new, flags = (\<lambda>_. False), next_flag = 0\<rparr>, joins = Map.empty, ops = (\<lambda>_. 0),
     waking = [], phase = Working, polled = Map.empty, woken = {}\<rparr>"

definition wj_demo_parked :: join_sys where
  "wj_demo_parked = wj_demo\<lparr>
     js := \<lparr>wc = worker_completion_new\<lparr>next_waiter_id := 2, join_waiters := [(1, \<lparr>ww_active = 0, ww_waker = 8\<rparr>)]\<rparr>,
            flags = (\<lambda>_. False)(0 := True), next_flag = 1\<rparr>,
     joins := [5 \<mapsto> \<lparr>waiter_id = Some 1, waiter_active = Some 0, liveness = [3]\<rparr>], ops := (\<lambda>_. 0)(3 := 1),
     polled := [5 \<mapsto> 8]\<rparr>"

lemma wj_demo_init: "join_init wj_demo"
  by (simp add: join_init_def wj_demo_def)

lemma wj_demo_run: "run join_step wj_demo [JSilent, JSilent] wj_demo_parked"
proof -
  let ?s = "wj_demo\<lparr>joins := [5 \<mapsto> join_new]\<rparr>"
  let ?f = "\<lparr>waiter_id = Some 1, waiter_active = Some 0, liveness = [3]\<rparr>"
  have a: "join_step wj_demo JSilent ?s" using jn_join [of wj_demo 5] by (simp add: wj_demo_def)
  have "worker_join_poll (Some 3) join_new 8 (js ?s) (ops ?s) = Some (js wj_demo_parked, ?f, ops wj_demo_parked, Pending)"
    by (simp add: worker_join_poll_def enliven_def join_new_def poll_join_def register_join_def wj_demo_def wj_demo_parked_def
        worker_completion_new_def checked_add_def u64_modulus_def wrapping_succ_def)
  from jn_poll_pending [OF _ this, of 5] have "join_step ?s JSilent wj_demo_parked"
    by (simp add: wj_demo_def wj_demo_parked_def)
  with a show ?thesis by (rule run_Cons [OF _ run_single])
qed



text \<open>Every join future of a worker resolves to one and the same outcome, and only after the OS thread was
  joined: a poll is ready exactly when the outcome is published; the outcome never changes afterwards; it
  is the one the worker recorded, or \<open>RuntimePanicked\<close> when the thread panicked.\<close>

theorem worker_join_outcome_stable:
  assumes "join_init s" and "run join_step s ls t" and "phase t = Exited p" and "join_step t JSilent u"
    and "phase u = Published" and "run join_step u ls' v"
  shows "(\<forall>j res. JReady j res \<in> set ls' \<longrightarrow> Some res = outcome (wc (js u))) \<and>
    outcome (wc (js v)) = outcome (wc (js u)) \<and> \<not> finished (wc (js t)) \<and> finished (wc (js u)) \<and>
    outcome (wc (js u)) = (if p then Some (Inl RuntimePanicked) else worker_outcome (wc (js t)))"
proof -
  have it: "join_inv t" using worker.inv_reachable [OF assms(1,2)] by simp
  have iu: "join_inv u" using join_inv_step [OF it assms(4)] .
  obtain ws where "publish_after_join p (js t) = (js u, ws)"
    using assms(4)
  proof cases
    case (jn_publish q r ws)
    then show ?thesis using assms(3) that by auto
  qed (use assms(3,5) in auto)
  then have o: "outcome (wc (js u)) = (if p then Some (Inl RuntimePanicked) else worker_outcome (wc (js t)))"
    "finished (wc (js u))" "\<not> finished (wc (js t))"
    using publish_spec [of p "js t" "js u" ws] join_invD(1) [OF it] assms(3) by (auto simp: phase_ok_def)
  then obtain r where r: "outcome (wc (js u)) = Some r"
    using join_invD(1) [OF iu] assms(5) by (auto simp: phase_ok_def)
  from outcome_run [OF assms(6) iu r] r o show ?thesis by auto
qed

theorem worker_join_outcome_stable_witness:
  "\<exists>ls t u v. run join_step wj_demo ls t \<and> phase t = Exited False \<and> join_step t JSilent u \<and>
     run join_step u [JReady 5 (Inr ())] v \<and> outcome (wc (js u)) = Some (Inr ())"
proof -
  let ?a = "wj_demo_parked\<lparr>js := record_worker_outcome (Inr ()) (js wj_demo_parked), phase := Recorded\<rparr>"
  let ?t = "?a\<lparr>phase := Exited False\<rparr>"
  obtain r ws where r: "publish_after_join False (js ?t) = (r, ws)" by (cases "publish_after_join False (js ?t)")
  let ?u = "?t\<lparr>js := r, waking := ws, phase := Published\<rparr>"
  have a: "join_step wj_demo_parked JSilent ?a" by (rule jn_record) (simp add: wj_demo_parked_def wj_demo_def)
  have b: "join_step ?a JSilent ?t" by (rule jn_exit) simp
  have t: "run join_step wj_demo ([JSilent, JSilent] @ [JSilent, JSilent]) ?t"
    by (rule run_trans [OF run_Cons [OF a run_single [where step = join_step, OF b]] wj_demo_run])
  have u: "join_step ?t JSilent ?u" by (rule jn_publish [OF _ r]) simp
  have o: "outcome (wc (js ?u)) = Some (Inr ())"
    using worker_join_outcome_stable [OF wj_demo_init t _ u _ run_Nil, of False]
    by (simp add: record_worker_outcome_def)
  obtain x where x: "joins ?u 5 = Some x" by (simp add: wj_demo_parked_def)
  obtain r' f' o' res where p: "worker_join_poll None x 9 (js ?u) (ops ?u) = Some (r', f', o', Ready res)"
    using o that by (simp add: worker_join_poll_def enliven_def poll_join_def clear_liveness_def)
  let ?v = "?u\<lparr>js := r', joins := (joins ?u)(5 \<mapsto> f'), ops := o', polled := (polled ?u)(5 := None)\<rparr>"
  have v: "join_step ?u (JReady 5 res) ?v" by (rule jn_poll_ready [OF x p])
  have "Some res = outcome (wc (js ?u))"
    using worker_join_outcome_stable [OF wj_demo_init t _ u _ run_single [where step = join_step, OF v], of False] by simp
  then have "res = Inr ()" using o by simp
  then have "run join_step ?u [JReady 5 (Inr ())] ?v" using run_single [where step = join_step, OF v] by simp
  moreover have "phase ?t = Exited False" by simp
  ultimately show ?thesis using t u o by blast
qed

end
