(* ===== verification/Mpsc.thy ===== *)
theory Mpsc
  imports Transition "HOL-Library.Sublist"
begin

text \<open>
  \<open>src/channel/mpsc.rs\<close>: the bounded and unbounded multi-producer channel. The methods of \<open>State\<close> run
  under the channel's mutex and hand back the completions to fire after it is released; each such
  critical section is one function here, with the completions as a list in firing order. A
  completion handle is a number; what firing it does to the waiting task is the subject of
  \<open>Completion\<close>. \<open>poll_send\<close> and \<open>poll_recv\<close> are the two futures built from the critical sections.
\<close>

subsection \<open>State and critical sections\<close>

record 'v send_waiter =
  sw_id :: nat
  sw_value :: 'v
  sw_handle :: nat

record 'v mpsc =
  queue :: "'v list"
  capacity :: "nat option"
  sender_count :: nat
  receiver_closed :: bool
  recv_waiter :: "nat option"
  send_waiters :: "'v send_waiter list"
  next_send_id :: nat

datatype 'v try_send_error = Full 'v | Closed 'v
datatype try_recv_error = QueueEmpty | Disconnected
datatype 'v pending_completion = RecvReady nat | SendOk nat | SendErr nat 'v

definition mpsc_new :: "nat option \<Rightarrow> 'v mpsc" where
  "mpsc_new cap =
     \<lparr>queue = [], capacity = cap, sender_count = 1, receiver_closed = False, recv_waiter = None,
      send_waiters = [], next_send_id = 1\<rparr>"

text \<open>\<open>channel\<close> asserts a positive capacity; \<open>unbounded_channel\<close> has none.\<close>

definition mpsc_channel :: "nat \<Rightarrow> 'v mpsc panics" where
  "mpsc_channel cap = (if 0 < cap then Some (mpsc_new (Some cap)) else panic)"

definition wake_receiver ::
  "'v mpsc \<Rightarrow> 'v pending_completion list \<Rightarrow> 'v mpsc \<times> 'v pending_completion list" where
  "wake_receiver s cs =
     (case recv_waiter s of
        Some h \<Rightarrow> (s\<lparr>recv_waiter := None\<rparr>, cs @ [RecvReady h])
      | None \<Rightarrow> (s, cs))"

definition at_capacity :: "'v mpsc \<Rightarrow> bool" where
  "at_capacity s \<longleftrightarrow> (case capacity s of None \<Rightarrow> False | Some c \<Rightarrow> c \<le> length (queue s))"

definition try_send_now ::
  "'v mpsc \<Rightarrow> 'v \<Rightarrow> 'v pending_completion list \<Rightarrow>
   'v mpsc \<times> 'v pending_completion list \<times> ('v try_send_error, unit) result" where
  "try_send_now s v cs =
     (if receiver_closed s then (s, cs, Err (Closed v))
      else if at_capacity s then (s, cs, Err (Full v))
      else let (s', cs') = wake_receiver (s\<lparr>queue := queue s @ [v]\<rparr>) cs in (s', cs', Ok ()))"

definition allocate_send_waiter_id :: "'v mpsc \<Rightarrow> 'v mpsc \<times> nat" where
  "allocate_send_waiter_id s =
     (s\<lparr>next_send_id := wrapping_succ (next_send_id s)\<rparr>, next_send_id s)"

definition publish_send_waiter :: "'v mpsc \<Rightarrow> nat \<Rightarrow> 'v \<Rightarrow> nat \<Rightarrow> 'v mpsc" where
  "publish_send_waiter s i v h =
     s\<lparr>send_waiters := send_waiters s @ [\<lparr>sw_id = i, sw_value = v, sw_handle = h\<rparr>]\<rparr>"

definition remove_send_waiter :: "'v mpsc \<Rightarrow> nat \<Rightarrow> 'v mpsc \<times> 'v send_waiter option" where
  "remove_send_waiter s i =
     (case position (\<lambda>w. sw_id w = i) (send_waiters s) of
        None \<Rightarrow> (s, None)
      | Some k \<Rightarrow> (s\<lparr>send_waiters := remove_at k (send_waiters s)\<rparr>, Some (send_waiters s ! k)))"

definition fail_pending_senders ::
  "'v mpsc \<Rightarrow> 'v pending_completion list \<Rightarrow> 'v mpsc \<times> 'v pending_completion list" where
  "fail_pending_senders s cs =
     (s\<lparr>send_waiters := []\<rparr>, cs @ map (\<lambda>w. SendErr (sw_handle w) (sw_value w)) (send_waiters s))"

text \<open>The \<open>loop\<close> of \<open>pump_senders\<close>.\<close>

function pump_loop ::
  "'v mpsc \<Rightarrow> 'v pending_completion list \<Rightarrow> 'v mpsc \<times> 'v pending_completion list" where
  "pump_loop s cs =
     (if receiver_closed s then fail_pending_senders s cs
      else if at_capacity s then (s, cs)
      else case send_waiters s of
        [] \<Rightarrow> (s, cs)
      | w # ws \<Rightarrow>
          let (s', cs') = wake_receiver (s\<lparr>send_waiters := ws, queue := queue s @ [sw_value w]\<rparr>) cs
          in pump_loop s' (cs' @ [SendOk (sw_handle w)]))"
  by pat_completeness auto
termination
  by (relation "measure (\<lambda>(s, cs). length (send_waiters s))")
    (auto simp: wake_receiver_def split: option.splits)

declare pump_loop.simps [simp del]

definition pump_senders ::
  "'v mpsc \<Rightarrow> 'v pending_completion list \<Rightarrow> 'v mpsc \<times> 'v pending_completion list" where
  "pump_senders s cs =
     (let (s', cs') = pump_loop s cs
      in if queue s' = [] \<and> sender_count s' = 0 then wake_receiver s' cs' else (s', cs'))"

definition close_receiver ::
  "'v mpsc \<Rightarrow> 'v pending_completion list \<Rightarrow> 'v mpsc \<times> 'v pending_completion list" where
  "close_receiver s cs =
     (let (s', cs') = fail_pending_senders (s\<lparr>receiver_closed := True\<rparr>) cs in wake_receiver s' cs')"

definition drop_sender ::
  "'v mpsc \<Rightarrow> 'v pending_completion list \<Rightarrow> ('v mpsc \<times> 'v pending_completion list) panics" where
  "drop_sender s cs =
     (case checked_sub (sender_count s) 1 of
        None \<Rightarrow> panic
      | Some n \<Rightarrow>
          let s' = s\<lparr>sender_count := n\<rparr>
          in Some (if n = 0 \<and> queue s' = [] then wake_receiver s' cs else (s', cs)))"

definition clone_sender :: "'v mpsc \<Rightarrow> 'v mpsc" where
  "clone_sender s = s\<lparr>sender_count := sender_count s + 1\<rparr>"

text \<open>The critical section of \<open>try_recv\<close>, and the first one of \<open>poll_recv\<close>.\<close>

definition recv_now ::
  "'v mpsc \<Rightarrow> 'v mpsc \<times> 'v pending_completion list \<times> (try_recv_error, 'v) result" where
  "recv_now s =
     (case queue s of
        v # vs \<Rightarrow> (let (s', cs) = pump_senders (s\<lparr>queue := vs\<rparr>) [] in (s', cs, Ok v))
      | [] \<Rightarrow>
          if sender_count s = 0 \<or> receiver_closed s then (s, [], Err Disconnected)
          else (s, [], Err QueueEmpty))"

text \<open>The registration section of \<open>poll_send\<close>; the id of the published waiter, if one was needed.\<close>

definition register_send ::
  "'v mpsc \<Rightarrow> 'v \<Rightarrow> nat \<Rightarrow>
   'v mpsc \<times> 'v pending_completion list \<times> ('v, nat option) result" where
  "register_send s v h =
     (case try_send_now s v [] of
        (s1, cs, Inr _) \<Rightarrow> (s1, cs, Ok None)
      | (s1, cs, Inl (Closed v')) \<Rightarrow> (s1, cs, Err v')
      | (s1, cs, Inl (Full v')) \<Rightarrow>
          let (s2, i) = allocate_send_waiter_id s1 in (publish_send_waiter s2 i v' h, cs, Ok (Some i)))"

text \<open>The registration section of \<open>poll_recv\<close>; \<open>True\<close> when there is something to report at once.\<close>

definition register_recv :: "'v mpsc \<Rightarrow> nat \<Rightarrow> ('v mpsc \<times> bool) panics" where
  "register_recv s h =
     (if queue s \<noteq> [] \<or> receiver_closed s \<or> sender_count s = 0 then Some (s, True)
      else if recv_waiter s \<noteq> None then panic
      else Some (s\<lparr>recv_waiter := Some h\<rparr>, False))"

text \<open>The cancel callbacks of the two waiters.\<close>

definition cancel_send :: "'v mpsc \<Rightarrow> nat \<Rightarrow> 'v mpsc" where
  "cancel_send s i = fst (remove_send_waiter s i)"

definition cancel_recv :: "'v mpsc \<Rightarrow> 'v mpsc" where
  "cancel_recv s = s\<lparr>recv_waiter := None\<rparr>"

subsection \<open>The channel as one FIFO sequence\<close>

text \<open>The values the channel has accepted and not delivered: the queue followed by the values the
  waiting senders hold.\<close>

definition pending_values :: "'v mpsc \<Rightarrow> 'v list" where
  "pending_values s = queue s @ map sw_value (send_waiters s)"

definition mpsc_ok :: "'v mpsc \<Rightarrow> bool" where
  "mpsc_ok s \<longleftrightarrow>
     (\<forall>c. capacity s = Some c \<longrightarrow> 0 < c \<and> length (queue s) \<le> c) \<and>
     (send_waiters s \<noteq> [] \<longrightarrow> \<not> receiver_closed s \<and> at_capacity s) \<and>
     (recv_waiter s \<noteq> None \<longrightarrow> queue s = [] \<and> \<not> receiver_closed s \<and> 0 < sender_count s)"

lemma at_capacity_upd [simp]:
  "at_capacity (s\<lparr>sender_count := n\<rparr>) = at_capacity s" "at_capacity (s\<lparr>recv_waiter := w\<rparr>) = at_capacity s"
  "at_capacity (s\<lparr>send_waiters := ws\<rparr>) = at_capacity s" "at_capacity (s\<lparr>next_send_id := i\<rparr>) = at_capacity s"
  by (simp_all add: at_capacity_def split: option.split)

lemma wake_receiver_simps [simp]:
  "queue (fst (wake_receiver s cs)) = queue s"
  "capacity (fst (wake_receiver s cs)) = capacity s"
  "sender_count (fst (wake_receiver s cs)) = sender_count s"
  "receiver_closed (fst (wake_receiver s cs)) = receiver_closed s"
  "recv_waiter (fst (wake_receiver s cs)) = None"
  "send_waiters (fst (wake_receiver s cs)) = send_waiters s"
  "next_send_id (fst (wake_receiver s cs)) = next_send_id s"
  "at_capacity (fst (wake_receiver s cs)) = at_capacity s"
  by (auto simp: wake_receiver_def at_capacity_def split: option.split)

lemma wake_receiver_completions:
  "snd (wake_receiver s cs) =
     cs @ (case recv_waiter s of None \<Rightarrow> [] | Some h \<Rightarrow> [RecvReady h])"
  by (auto simp: wake_receiver_def split: option.split)

text \<open>Pumping moves values from waiting senders to the queue and never reorders them.\<close>

lemma pump_loop_ok:
  assumes "\<forall>c. capacity s = Some c \<longrightarrow> 0 < c \<and> length (queue s) \<le> c" and "\<not> receiver_closed s"
    and "recv_waiter s = None" and "pump_loop s cs = (s', cs')"
  shows "pending_values s' = pending_values s \<and> capacity s' = capacity s \<and>
    sender_count s' = sender_count s \<and> \<not> receiver_closed s' \<and> recv_waiter s' = None \<and>
    next_send_id s' = next_send_id s \<and>
    (\<forall>c. capacity s' = Some c \<longrightarrow> length (queue s') \<le> c) \<and>
    (send_waiters s' \<noteq> [] \<longrightarrow> at_capacity s') \<and>
    (\<exists>n. send_waiters s' = drop n (send_waiters s) \<and>
         queue s' = queue s @ map sw_value (take n (send_waiters s)) \<and>
         cs' = cs @ map (\<lambda>w. SendOk (sw_handle w)) (take n (send_waiters s)))"
  using assms
proof (induction s cs arbitrary: s' cs' rule: pump_loop.induct)
  case (1 s cs)
  show ?case
  proof (cases "at_capacity s \<or> send_waiters s = []")
    case True
    then have "s' = s" "cs' = cs"
      using "1.prems" by (auto simp: pump_loop.simps split: list.splits)
    then show ?thesis using "1.prems" True by (auto intro!: exI [of _ 0])
  next
    case False
    then obtain w ws where w: "send_waiters s = w # ws" by (cases "send_waiters s") auto
    let ?s = "s\<lparr>send_waiters := ws, queue := queue s @ [sw_value w]\<rparr>"
    have wr: "wake_receiver ?s cs = (?s, cs)" using "1.prems"(3) by (simp add: wake_receiver_def)
    have p: "pump_loop ?s (cs @ [SendOk (sw_handle w)]) = (s', cs')"
      using "1.prems" False w wr by (simp add: pump_loop.simps [of s])
    have len: "\<forall>c. capacity ?s = Some c \<longrightarrow> 0 < c \<and> length (queue ?s) \<le> c"
      using "1.prems"(1) False by (auto simp: at_capacity_def)
    have IH: "pending_values s' = pending_values ?s \<and> capacity s' = capacity ?s \<and>
        sender_count s' = sender_count ?s \<and> \<not> receiver_closed s' \<and> recv_waiter s' = None \<and>
        next_send_id s' = next_send_id ?s \<and>
        (\<forall>c. capacity s' = Some c \<longrightarrow> length (queue s') \<le> c) \<and>
        (send_waiters s' \<noteq> [] \<longrightarrow> at_capacity s') \<and>
        (\<exists>n. send_waiters s' = drop n (send_waiters ?s) \<and>
             queue s' = queue ?s @ map sw_value (take n (send_waiters ?s)) \<and>
             cs' = (cs @ [SendOk (sw_handle w)]) @ map (\<lambda>w. SendOk (sw_handle w)) (take n (send_waiters ?s)))"
      using "1.IH" [OF "1.prems"(2) _ w refl, of ?s cs s' cs'] False wr "1.prems"(2,3) len p by simp
    then obtain n where n: "send_waiters s' = drop n ws" "queue s' = queue ?s @ map sw_value (take n ws)"
      "cs' = (cs @ [SendOk (sw_handle w)]) @ map (\<lambda>w. SendOk (sw_handle w)) (take n ws)" by auto
    have "pending_values ?s = pending_values s" using w by (simp add: pending_values_def)
    then show ?thesis using IH n w by (auto intro!: exI [of _ "Suc n"])
  qed
qed

text \<open>What each critical section does to the accepted values.\<close>

lemma try_send_ok:
  assumes ok: "mpsc_ok s" and t: "try_send_now s v cs = (s', cs', r)"
  shows "mpsc_ok s'"
    and "r = Ok () \<Longrightarrow> pending_values s' = pending_values s @ [v] \<and> \<not> receiver_closed s \<and>
           send_waiters s' = send_waiters s"
    and "r \<noteq> Ok () \<Longrightarrow> s' = s \<and> cs' = cs \<and> (r = Err (Closed v) \<and> receiver_closed s \<or>
           r = Err (Full v) \<and> at_capacity s \<and> \<not> receiver_closed s)"
    and "sender_count s' = sender_count s" "next_send_id s' = next_send_id s"
proof -
  let ?s = "s\<lparr>queue := queue s @ [v]\<rparr>"
  have sent: "s' = fst (wake_receiver ?s cs)" "r = Ok ()" if "\<not> receiver_closed s" "\<not> at_capacity s"
    using t that by (auto simp: try_send_now_def split: prod.splits)
  have same: "s' = s" "cs' = cs" "r \<noteq> Ok ()" if "receiver_closed s \<or> at_capacity s"
    using t that by (auto simp: try_send_now_def split: if_splits)
  have none: "send_waiters s = []" if "\<not> at_capacity s" using ok that by (auto simp: mpsc_ok_def)
  show "mpsc_ok s'"
  proof (cases "receiver_closed s \<or> at_capacity s")
    case False
    then show ?thesis
      using sent ok none by (auto simp: mpsc_ok_def at_capacity_def less_Suc_eq_le)
  qed (use same ok in simp)
  show "r = Ok () \<Longrightarrow> pending_values s' = pending_values s @ [v] \<and> \<not> receiver_closed s \<and>
      send_waiters s' = send_waiters s"
    using sent same none
    by (cases "receiver_closed s \<or> at_capacity s") (simp_all add: pending_values_def)
  show "r \<noteq> Ok () \<Longrightarrow> s' = s \<and> cs' = cs \<and> (r = Err (Closed v) \<and> receiver_closed s \<or>
           r = Err (Full v) \<and> at_capacity s \<and> \<not> receiver_closed s)"
    using sent same t by (auto simp: try_send_now_def split: if_splits prod.splits)
  show "sender_count s' = sender_count s" "next_send_id s' = next_send_id s"
    using sent same by (cases "receiver_closed s \<or> at_capacity s"; simp)+
qed

lemma register_send_ok:
  assumes ok: "mpsc_ok s" and t: "register_send s v h = (s', cs, r)"
  shows "mpsc_ok s'" and "sender_count s' = sender_count s"
    and "\<And>x. r = Ok x \<Longrightarrow> pending_values s' = pending_values s @ [v]"
    and "\<And>v'. r = Err v' \<Longrightarrow> v' = v \<and> receiver_closed s \<and> s' = s"
    and "r = Ok (Some i) \<Longrightarrow> i = next_send_id s \<and> next_send_id s' = wrapping_succ (next_send_id s) \<and>
           send_waiters s' = send_waiters s @ [\<lparr>sw_id = i, sw_value = v, sw_handle = h\<rparr>]"
    and "(\<nexists>i. r = Ok (Some i)) \<Longrightarrow> next_send_id s' = next_send_id s \<and> send_waiters s' = send_waiters s"
proof -
  obtain s1 cs1 r1 where t1: "try_send_now s v [] = (s1, cs1, r1)" by (metis prod_cases3)
  note ts = try_send_ok [OF ok t1]
  consider (sent) "r1 = Ok ()" | (closed) "r1 = Err (Closed v)" "receiver_closed s" "s1 = s"
    | (full) "r1 = Err (Full v)" "s1 = s" "at_capacity s" "\<not> receiver_closed s" "cs1 = []"
    using ts(3) by blast
  then have all: "mpsc_ok s' \<and> sender_count s' = sender_count s \<and>
    (\<forall>x. r = Ok x \<longrightarrow> pending_values s' = pending_values s @ [v]) \<and>
    (\<forall>v'. r = Err v' \<longrightarrow> v' = v \<and> receiver_closed s \<and> s' = s) \<and>
    (\<forall>i. r = Ok (Some i) \<longrightarrow> i = next_send_id s \<and> next_send_id s' = wrapping_succ (next_send_id s) \<and>
           send_waiters s' = send_waiters s @ [\<lparr>sw_id = i, sw_value = v, sw_handle = h\<rparr>]) \<and>
    ((\<nexists>i. r = Ok (Some i)) \<longrightarrow> next_send_id s' = next_send_id s \<and> send_waiters s' = send_waiters s)"
  proof cases
    case sent
    then have "s' = s1" "r = Ok None" using t t1 by (simp_all add: register_send_def)
    then show ?thesis using ts(1,4,5) ts(2) [OF sent] by simp
  next
    case closed
    then have "s' = s" "r = Err v" using t t1 by (simp_all add: register_send_def)
    then show ?thesis using ok closed by simp
  next
    case full
    let ?s = "publish_send_waiter (s\<lparr>next_send_id := wrapping_succ (next_send_id s)\<rparr>) (next_send_id s) v h"
    have s': "s' = ?s" "r = Ok (Some (next_send_id s))"
      using t t1 full by (auto simp: register_send_def allocate_send_waiter_id_def)
    show ?thesis
      using ok full by (auto simp: s' publish_send_waiter_def mpsc_ok_def at_capacity_def pending_values_def
          split: option.splits)
  qed
  then show "mpsc_ok s'" and "sender_count s' = sender_count s"
    and "\<And>x. r = Ok x \<Longrightarrow> pending_values s' = pending_values s @ [v]"
    and "\<And>v'. r = Err v' \<Longrightarrow> v' = v \<and> receiver_closed s \<and> s' = s"
    and "r = Ok (Some i) \<Longrightarrow> i = next_send_id s \<and> next_send_id s' = wrapping_succ (next_send_id s) \<and>
           send_waiters s' = send_waiters s @ [\<lparr>sw_id = i, sw_value = v, sw_handle = h\<rparr>]"
    and "(\<nexists>i. r = Ok (Some i)) \<Longrightarrow> next_send_id s' = next_send_id s \<and> send_waiters s' = send_waiters s"
    by auto
qed

lemma recv_now_ok:
  assumes ok: "mpsc_ok s" and r: "recv_now s = (s', cs, r)"
  shows "mpsc_ok s'"
    and "\<And>v. r = Ok v \<Longrightarrow> pending_values s = v # pending_values s' \<and>
           (\<exists>n. send_waiters s' = drop n (send_waiters s) \<and>
                cs = map (\<lambda>w. SendOk (sw_handle w)) (take n (send_waiters s)))"
    and "\<And>e. r = Err e \<Longrightarrow> s' = s \<and> cs = [] \<and> queue s = [] \<and>
           (e = Disconnected \<longleftrightarrow> sender_count s = 0 \<or> receiver_closed s)"
    and "sender_count s' = sender_count s" "next_send_id s' = next_send_id s"
proof -
  have "mpsc_ok s' \<and> sender_count s' = sender_count s \<and> next_send_id s' = next_send_id s \<and>
    (\<forall>v. r = Ok v \<longrightarrow> pending_values s = v # pending_values s' \<and>
           (\<exists>n. send_waiters s' = drop n (send_waiters s) \<and>
                cs = map (\<lambda>w. SendOk (sw_handle w)) (take n (send_waiters s)))) \<and>
    (\<forall>e. r = Err e \<longrightarrow> s' = s \<and> cs = [] \<and> queue s = [] \<and>
           (e = Disconnected \<longleftrightarrow> sender_count s = 0 \<or> receiver_closed s))"
  proof (cases "queue s")
    case Nil
    then show ?thesis using r ok by (auto simp: recv_now_def split: if_splits)
  next
    case (Cons v vs)
    let ?s = "s\<lparr>queue := vs\<rparr>"
    have none: "recv_waiter ?s = None" using ok Cons by (auto simp: mpsc_ok_def)
    obtain s1 cs1 where p: "pump_loop ?s [] = (s1, cs1)" by fastforce
    have rr: "r = Ok v" using r Cons by (auto simp: recv_now_def split: prod.splits)
    have pv: "pending_values s = v # pending_values ?s" using Cons by (simp add: pending_values_def)
    show ?thesis
    proof (cases "receiver_closed s")
      case True
      then have sw: "send_waiters s = []" using ok by (auto simp: mpsc_ok_def)
      then have s1: "s1 = ?s" "cs1 = []"
        using p True by (auto simp: pump_loop.simps fail_pending_senders_def)
      have "s' = ?s" "cs = []"
        using r Cons p s1 none by (auto simp: recv_now_def pump_senders_def wake_receiver_def split: if_splits)
      then show ?thesis using ok Cons True rr pv sw none
        by (auto simp: mpsc_ok_def at_capacity_def)
    next
      case False
      have len: "\<forall>c. capacity ?s = Some c \<longrightarrow> 0 < c \<and> length (queue ?s) \<le> c"
        using ok Cons by (auto simp: mpsc_ok_def)
      note pl = pump_loop_ok [OF len _ none p]
      have "s' = s1" "cs = cs1"
        using r Cons p pl False
        by (auto simp: recv_now_def pump_senders_def wake_receiver_def split: if_splits)
      then show ?thesis
        using pl False rr pv ok len by (auto simp: mpsc_ok_def)
    qed
  qed
  then show "mpsc_ok s'"
    and "\<And>v. r = Ok v \<Longrightarrow> pending_values s = v # pending_values s' \<and>
           (\<exists>n. send_waiters s' = drop n (send_waiters s) \<and>
                cs = map (\<lambda>w. SendOk (sw_handle w)) (take n (send_waiters s)))"
    and "\<And>e. r = Err e \<Longrightarrow> s' = s \<and> cs = [] \<and> queue s = [] \<and>
           (e = Disconnected \<longleftrightarrow> sender_count s = 0 \<or> receiver_closed s)"
    and "sender_count s' = sender_count s" "next_send_id s' = next_send_id s"
    by auto
qed

subsection \<open>The channel with its history\<close>

text \<open>\<open>sent\<close> lists the values in the order the channel accepted them, \<open>received\<close> those delivered, and
  \<open>returned\<close> those handed back by closing or given up by a cancelled \<open>send\<close>. \<open>senders\<close> counts the live
  sender handles and \<open>regs\<close> the send waiters published so far. \<open>stream_wait\<close> is the receiver's
  readiness future and \<open>fired\<close> holds the readiness handles that were completed.\<close>

record 'v mpsc_sys =
  chan :: "'v mpsc"
  sent :: "'v list"
  received :: "'v list"
  returned :: "'v list"
  senders :: nat
  regs :: nat
  stream_wait :: "nat option"
  fired :: "nat set"

definition mpsc_init :: "'v mpsc_sys \<Rightarrow> bool" where
  "mpsc_init s \<longleftrightarrow>
     (\<exists>cap. (cap = None \<or> (\<exists>c. cap = Some c \<and> mpsc_channel c = Some (chan s))) \<and>
        s = \<lparr>chan = mpsc_new cap, sent = [], received = [], returned = [], senders = 1, regs = 0,
             stream_wait = None, fired = {}\<rparr>)"

fun ready_handles :: "'v pending_completion list \<Rightarrow> nat list" where
  "ready_handles [] = []"
| "ready_handles (RecvReady h # cs) = h # ready_handles cs"
| "ready_handles (_ # cs) = ready_handles cs"

text \<open>\<open>fire_completions\<close>, as far as the receiver's readiness handles are concerned.\<close>

definition fire :: "'v pending_completion list \<Rightarrow> 'v mpsc_sys \<Rightarrow> 'v mpsc_sys" where
  "fire cs s = s\<lparr>fired := fired s \<union> set (ready_handles cs)\<rparr>"

text \<open>The receiver registers only after its previous readiness future, if any, resolved; dropping an
  unresolved one runs its cancel callback.\<close>

inductive mpsc_step :: "'v mpsc_sys \<Rightarrow> 'v pending_completion list \<Rightarrow> 'v mpsc_sys \<Rightarrow> bool" where
  mpsc_try_send:
    "0 < senders s \<Longrightarrow> try_send_now (chan s) v [] = (c, cs, r) \<Longrightarrow>
     mpsc_step s cs (fire cs (s\<lparr>chan := c, sent := (if r = Ok () then sent s @ [v] else sent s)\<rparr>))"
| mpsc_register_send:
    "0 < senders s \<Longrightarrow> register_send (chan s) v h = (c, cs, r) \<Longrightarrow>
     mpsc_step s cs (fire cs (s\<lparr>chan := c, sent := (case r of Inr _ \<Rightarrow> sent s @ [v] | Inl _ \<Rightarrow> sent s),
                       regs := (if \<exists>i. r = Ok (Some i) then Suc (regs s) else regs s)\<rparr>))"
| mpsc_cancel_send:
    "w \<in> set (send_waiters (chan s)) \<Longrightarrow>
     mpsc_step s [] (s\<lparr>chan := cancel_send (chan s) (sw_id w), returned := returned s @ [sw_value w]\<rparr>)"
| mpsc_recv:
    "recv_now (chan s) = (c, cs, r) \<Longrightarrow>
     mpsc_step s cs (fire cs (s\<lparr>chan := c,
       received := (case r of Inr v \<Rightarrow> received s @ [v] | Inl _ \<Rightarrow> received s)\<rparr>))"
| mpsc_register_recv:
    "(case stream_wait s of None \<Rightarrow> True | Some g \<Rightarrow> g \<in> fired s) \<Longrightarrow> h \<notin> fired s \<Longrightarrow>
     register_recv (chan s) h = Some (c, immediate) \<Longrightarrow>
     mpsc_step s [] (s\<lparr>chan := c, stream_wait := Some h,
                       fired := (if immediate then insert h (fired s) else fired s)\<rparr>)"
| mpsc_cancel_recv:
    "stream_wait s = Some h \<Longrightarrow>
     mpsc_step s [] (s\<lparr>chan := (if h \<in> fired s then chan s else cancel_recv (chan s)), stream_wait := None\<rparr>)"
| mpsc_close:
    "close_receiver (chan s) [] = (c, cs) \<Longrightarrow>
     mpsc_step s cs (fire cs (s\<lparr>chan := c, returned := returned s @ map sw_value (send_waiters (chan s))\<rparr>))"
| mpsc_clone:
    "0 < senders s \<Longrightarrow> mpsc_step s [] (s\<lparr>chan := clone_sender (chan s), senders := Suc (senders s)\<rparr>)"
| mpsc_drop_sender:
    "0 < senders s \<Longrightarrow> drop_sender (chan s) [] = Some (c, cs) \<Longrightarrow>
     mpsc_step s cs (fire cs (s\<lparr>chan := c, senders := senders s - 1\<rparr>))"

inductive_cases mpsc_stepE: "mpsc_step s l t"

text \<open>The ids of the waiters are the numbers of their registrations while those stay below \<open>2 ^ 64\<close>.\<close>

definition ids_ok :: "'v mpsc \<Rightarrow> nat \<Rightarrow> bool" where
  "ids_ok c n \<longleftrightarrow>
     next_send_id c = Suc n mod u64_modulus \<and>
     sorted_wrt (<) (map sw_id (send_waiters c)) \<and> (\<forall>w \<in> set (send_waiters c). sw_id w \<le> n)"

text \<open>A registered receiver waits on its unresolved readiness future.\<close>

definition waiter_ok :: "'v mpsc \<Rightarrow> nat option \<Rightarrow> nat set \<Rightarrow> bool" where
  "waiter_ok c w f \<longleftrightarrow> (\<forall>h. recv_waiter c = Some h \<longrightarrow> w = Some h \<and> h \<notin> f)"

definition mpsc_inv :: "'v mpsc_sys \<Rightarrow> bool" where
  "mpsc_inv s \<longleftrightarrow>
     mpsc_ok (chan s) \<and> sender_count (chan s) = senders s \<and> ids_ok (chan s) (regs s) \<and>
     subseq (received s @ pending_values (chan s)) (sent s) \<and>
     mset (sent s) = mset (received s) + mset (pending_values (chan s)) + mset (returned s) \<and>
     waiter_ok (chan s) (stream_wait s) (fired s)"

lemma fire_simps [simp]:
  "chan (fire cs s) = chan s" "sent (fire cs s) = sent s" "received (fire cs s) = received s"
  "returned (fire cs s) = returned s" "senders (fire cs s) = senders s" "regs (fire cs s) = regs s"
  "stream_wait (fire cs s) = stream_wait s" "fired (fire cs s) = fired s \<union> set (ready_handles cs)"
  by (simp_all add: fire_def)

lemma ready_handles_append [simp]: "ready_handles (xs @ ys) = ready_handles xs @ ready_handles ys"
  by (induction xs rule: ready_handles.induct) auto

lemma ready_handles_send [simp]:
  "ready_handles (map (\<lambda>w. SendOk (f w)) ws) = []" "ready_handles (map (\<lambda>w. SendErr (f w) (g w)) ws) = []"
  by (induction ws) auto

text \<open>A critical section keeps the waiting receiver or takes its handle to fire it.\<close>

definition hands_over :: "'v mpsc \<Rightarrow> 'v pending_completion list \<Rightarrow> 'v mpsc \<Rightarrow> bool" where
  "hands_over s cs s' \<longleftrightarrow>
     (recv_waiter s' = recv_waiter s \<and> ready_handles cs = []) \<or>
     (recv_waiter s' = None \<and> set (ready_handles cs) = set_option (recv_waiter s))"

lemma hands_over_wake: "ready_handles cs = [] \<Longrightarrow> recv_waiter s = recv_waiter r \<Longrightarrow>
    wake_receiver s cs = (s', cs') \<Longrightarrow> hands_over r cs' s'"
  by (auto simp: hands_over_def wake_receiver_def split: option.splits)

lemma sorted_drop: "sorted_wrt (<) (map f xs) \<Longrightarrow> sorted_wrt (<) (map f (drop n xs))"
  by (metis append_take_drop_id map_append sorted_wrt_append)

lemma subseq_snoc: "subseq xs ys \<Longrightarrow> subseq (xs @ [x]) (ys @ [x])"
  by (simp add: list_emb_append_mono)

lemma ids_distinct:
  "ids_ok c n \<Longrightarrow> distinct (map sw_id (send_waiters c))"
  unfolding ids_ok_def by (metis strict_sorted_iff)

lemma remove_send_waiter_filter:
  assumes "ids_ok c n" and "w \<in> set (send_waiters c)"
  shows "send_waiters (cancel_send c (sw_id w)) = filter (\<lambda>x. sw_id x \<noteq> sw_id w) (send_waiters c)"
    and "mset (map sw_value (send_waiters c)) =
      mset (map sw_value (send_waiters (cancel_send c (sw_id w)))) + {#sw_value w#}"
proof -
  have d: "distinct (map sw_id (send_waiters c))" by (rule ids_distinct [OF assms(1)])
  obtain k where k: "position (\<lambda>x. sw_id x = sw_id w) (send_waiters c) = Some k"
    using position_None_iff [of "\<lambda>x. sw_id x = sw_id w"] assms(2) by (cases "position (\<lambda>x. sw_id x = sw_id w) (send_waiters c)") auto
  have at: "k < length (send_waiters c)" "sw_id (send_waiters c ! k) = sw_id w"
    using position_SomeD [OF k] by auto
  have w: "send_waiters c ! k = w"
    using d at assms(2) by (metis distinct_map inj_onD nth_mem)
  have c: "send_waiters (cancel_send c (sw_id w)) = remove_at k (send_waiters c)"
    using k by (simp add: cancel_send_def remove_send_waiter_def)
  show "send_waiters (cancel_send c (sw_id w)) = filter (\<lambda>x. sw_id x \<noteq> sw_id w) (send_waiters c)"
    using remove_first_filter [OF d, of "sw_id w"] k c by (simp add: remove_first_def)
  show "mset (map sw_value (send_waiters c)) =
      mset (map sw_value (send_waiters (cancel_send c (sw_id w)))) + {#sw_value w#}"
    using mset_remove_at [OF at(1)] w assms(2) unfolding c
    by (simp add: image_mset_Diff)
qed

lemma hands_over_try_send: "try_send_now s v [] = (s', cs, r) \<Longrightarrow> hands_over s cs s'"
  by (auto simp: try_send_now_def hands_over_def wake_receiver_def split: if_splits option.splits)

lemma hands_over_register_send: "register_send s v h = (s', cs, r) \<Longrightarrow> hands_over s cs s'"
  by (auto simp: register_send_def try_send_now_def hands_over_def wake_receiver_def publish_send_waiter_def
      allocate_send_waiter_id_def split: if_splits option.splits)

lemma hands_over_recv:
  assumes "mpsc_ok s" and "recv_now s = (s', cs, r)"
  shows "hands_over s cs s'"
proof (cases r)
  case (Inl e)
  then show ?thesis using recv_now_ok(3) [OF assms] by (simp add: hands_over_def)
next
  case (Inr v)
  then have ok: "pending_values s = v # pending_values s'" "ready_handles cs = []"
    using recv_now_ok(2) [OF assms] by auto
  have "queue s \<noteq> []" using assms(2) Inr by (auto simp: recv_now_def split: list.splits if_splits)
  then have none: "recv_waiter s = None" using assms(1) by (auto simp: mpsc_ok_def)
  obtain s1 cs1 where p: "pump_loop (s\<lparr>queue := tl (queue s)\<rparr>) [] = (s1, cs1)" by fastforce
  have "recv_waiter s1 = None"
  proof (cases "receiver_closed s")
    case True
    then show ?thesis using p none by (auto simp: pump_loop.simps fail_pending_senders_def)
  next
    case False
    moreover have "\<forall>c. capacity s = Some c \<longrightarrow> 0 < c \<and> length (tl (queue s)) \<le> c"
      using assms(1) by (auto simp: mpsc_ok_def)
    ultimately show ?thesis using pump_loop_ok [OF _ _ _ p] none by simp
  qed
  then have "recv_waiter s' = None"
    using assms(2) \<open>queue s \<noteq> []\<close> p
    by (cases "queue s") (auto simp: recv_now_def pump_senders_def wake_receiver_def split: if_splits)
  then show ?thesis using none ok by (simp add: hands_over_def)
qed

lemma close_receiver_ok:
  assumes "mpsc_ok s" and "close_receiver s [] = (s', cs)"
  shows "mpsc_ok s'" "pending_values s' = queue s" "send_waiters s' = []" "receiver_closed s'"
    "sender_count s' = sender_count s" "next_send_id s' = next_send_id s" "hands_over s cs s'"
    "cs = map (\<lambda>w. SendErr (sw_handle w) (sw_value w)) (send_waiters s) @
      (case recv_waiter s of None \<Rightarrow> [] | Some h \<Rightarrow> [RecvReady h])"
  using assms
  by (auto simp: close_receiver_def fail_pending_senders_def wake_receiver_def mpsc_ok_def
      pending_values_def hands_over_def split: option.splits)

lemma drop_sender_ok:
  assumes "mpsc_ok s" and "drop_sender s [] = Some (s', cs)"
  shows "mpsc_ok s'" "pending_values s' = pending_values s" "send_waiters s' = send_waiters s"
    "Suc (sender_count s') = sender_count s" "next_send_id s' = next_send_id s" "hands_over s cs s'"
  using assms
  by (auto simp: drop_sender_def wake_receiver_def mpsc_ok_def pending_values_def hands_over_def
      at_capacity_def Let_def split: option.splits if_splits)

text \<open>The receiver's part of the invariant under a critical section that fires what it took.\<close>

lemma waiter_kept:
  assumes "waiter_ok c w f" and "hands_over c cs c'"
  shows "waiter_ok c' w (f \<union> set (ready_handles cs))"
  using assms by (auto simp: hands_over_def waiter_ok_def)

lemma inv_try_send:
  assumes inv: "mpsc_inv s" and t: "try_send_now (chan s) v [] = (c, cs, r)"
  shows "mpsc_inv (fire cs (s\<lparr>chan := c, sent := (if r = Ok () then sent s @ [v] else sent s)\<rparr>))"
proof -
  have ok: "mpsc_ok (chan s)" using inv by (simp add: mpsc_inv_def)
  note ts = try_send_ok [OF ok t]
  have w: "waiter_ok c (stream_wait s) (fired s \<union> set (ready_handles cs))"
    using waiter_kept [OF _ hands_over_try_send [OF t]] inv by (simp add: mpsc_inv_def)
  show ?thesis
  proof (cases "r = Ok ()")
    case True
    then have "pending_values c = pending_values (chan s) @ [v]" "send_waiters c = send_waiters (chan s)"
      using ts(2) by auto
    then show ?thesis
      using inv ts(1,4,5) w True subseq_snoc [of "received s @ pending_values (chan s)" "sent s" v]
      by (simp add: mpsc_inv_def ids_ok_def)
  next
    case False
    then have "c = chan s" "cs = []" using ts(3) by auto
    then show ?thesis using inv False by (simp add: mpsc_inv_def)
  qed
qed

lemma inv_register_send:
  assumes inv: "mpsc_inv s" and t: "register_send (chan s) v h = (c, cs, r)"
    and small: "regs s \<le> u64_modulus - 2"
  shows "mpsc_inv (fire cs (s\<lparr>chan := c, sent := (case r of Inr _ \<Rightarrow> sent s @ [v] | Inl _ \<Rightarrow> sent s),
                       regs := (if \<exists>i. r = Ok (Some i) then Suc (regs s) else regs s)\<rparr>))"
proof -
  have ok: "mpsc_ok (chan s)" and ids: "ids_ok (chan s) (regs s)" using inv by (auto simp: mpsc_inv_def)
  note ts = register_send_ok [OF ok t]
  have w: "waiter_ok c (stream_wait s) (fired s \<union> set (ready_handles cs))"
    using waiter_kept [OF _ hands_over_register_send [OF t]] inv by (simp add: mpsc_inv_def)
  have M: "2 < u64_modulus" by (simp add: u64_modulus_def)
  have ids': "ids_ok c (if \<exists>i. r = Ok (Some i) then Suc (regs s) else regs s)"
  proof (cases "\<exists>i. r = Ok (Some i)")
    case True
    then obtain i where i: "r = Ok (Some i)" by blast
    have "i = Suc (regs s)" using ts(5) [OF i] ids small M by (simp add: ids_ok_def)
    then show ?thesis
      using ts(5) [OF i] ids i by (auto simp: ids_ok_def sorted_wrt_append wrapping_succ_def)
  next
    case False
    then show ?thesis using ts(6) ids by (auto simp: ids_ok_def)
  qed
  show ?thesis
  proof (cases r)
    case (Inl v')
    then have "c = chan s" "\<nexists>i. r = Ok (Some i)" using ts(4) by auto
    then show ?thesis using inv Inl w by (simp add: mpsc_inv_def)
  next
    case (Inr x)
    then have "pending_values c = pending_values (chan s) @ [v]" using ts(3) by simp
    then show ?thesis
      using inv ts(1,2) w ids' Inr subseq_snoc [of "received s @ pending_values (chan s)" "sent s" v]
      by (simp add: mpsc_inv_def)
  qed
qed

lemma inv_recv:
  assumes inv: "mpsc_inv s" and t: "recv_now (chan s) = (c, cs, r)"
  shows "mpsc_inv (fire cs (s\<lparr>chan := c,
       received := (case r of Inr v \<Rightarrow> received s @ [v] | Inl _ \<Rightarrow> received s)\<rparr>))"
proof -
  have ok: "mpsc_ok (chan s)" and ids: "ids_ok (chan s) (regs s)" using inv by (auto simp: mpsc_inv_def)
  note ts = recv_now_ok [OF ok t]
  have w: "waiter_ok c (stream_wait s) (fired s \<union> set (ready_handles cs))"
    using waiter_kept [OF _ hands_over_recv [OF ok t]] inv by (simp add: mpsc_inv_def)
  show ?thesis
  proof (cases r)
    case (Inl e)
    then have "c = chan s" "cs = []" using ts(3) by auto
    then show ?thesis using inv Inl by (simp add: mpsc_inv_def)
  next
    case (Inr v)
    then obtain n where n: "pending_values (chan s) = v # pending_values c"
      "send_waiters c = drop n (send_waiters (chan s))" using ts(2) by blast
    have "ids_ok c (regs s)"
      using ids ts(5) n(2) sorted_drop [of sw_id "send_waiters (chan s)" n]
      by (auto simp: ids_ok_def dest: in_set_dropD)
    then show ?thesis using inv ts(1,4) n(1) w Inr by (simp add: mpsc_inv_def)
  qed
qed

lemma inv_cancel_send:
  assumes inv: "mpsc_inv s" and w: "w \<in> set (send_waiters (chan s))"
  shows "mpsc_inv (s\<lparr>chan := cancel_send (chan s) (sw_id w), returned := returned s @ [sw_value w]\<rparr>)"
proof -
  let ?c = "cancel_send (chan s) (sw_id w)"
  have ok: "mpsc_ok (chan s)" and ids: "ids_ok (chan s) (regs s)" using inv by (auto simp: mpsc_inv_def)
  note r = remove_send_waiter_filter [OF ids w]
  have same: "queue ?c = queue (chan s)" "capacity ?c = capacity (chan s)"
    "sender_count ?c = sender_count (chan s)" "receiver_closed ?c = receiver_closed (chan s)"
    "recv_waiter ?c = recv_waiter (chan s)" "next_send_id ?c = next_send_id (chan s)"
    by (auto simp: cancel_send_def remove_send_waiter_def split: option.split)
  have "mpsc_ok ?c"
    using ok unfolding mpsc_ok_def same at_capacity_def by (auto simp: r(1))
  moreover have "ids_ok ?c (regs s)"
    using ids unfolding ids_ok_def same r(1) by (auto simp: sorted_wrt_map intro: sorted_wrt_filter)
  moreover have "subseq (received s @ pending_values ?c) (received s @ pending_values (chan s))"
    unfolding pending_values_def same r(1) by (simp add: subseq_append' subseq_map subseq_filter_left)
  then have "subseq (received s @ pending_values ?c) (sent s)"
    using inv subseq_order.trans by (auto simp: mpsc_inv_def)
  moreover have "mset (pending_values (chan s)) = mset (pending_values ?c) + {#sw_value w#}"
    unfolding pending_values_def same using r(2) by simp
  moreover have "waiter_ok ?c (stream_wait s) (fired s)"
    using inv same(5) by (simp add: mpsc_inv_def waiter_ok_def)
  ultimately show ?thesis using inv same by (simp add: mpsc_inv_def)
qed

lemma inv_close:
  assumes inv: "mpsc_inv s" and t: "close_receiver (chan s) [] = (c, cs)"
  shows "mpsc_inv (fire cs (s\<lparr>chan := c, returned := returned s @ map sw_value (send_waiters (chan s))\<rparr>))"
proof -
  have ok: "mpsc_ok (chan s)" and ids: "ids_ok (chan s) (regs s)" using inv by (auto simp: mpsc_inv_def)
  note ts = close_receiver_ok [OF ok t]
  have w: "waiter_ok c (stream_wait s) (fired s \<union> set (ready_handles cs))"
    using waiter_kept [OF _ ts(7)] inv by (simp add: mpsc_inv_def)
  have sub: "subseq (received s @ queue (chan s)) (sent s)"
    using inv unfolding mpsc_inv_def pending_values_def
    by (metis append_assoc prefixI prefix_imp_subseq subseq_order.trans)
  have "mset (pending_values (chan s)) = mset (queue (chan s)) + mset (map sw_value (send_waiters (chan s)))"
    by (simp add: pending_values_def)
  then show ?thesis using inv ts ids w sub by (simp add: mpsc_inv_def ids_ok_def)
qed

lemma inv_register_recv:
  assumes inv: "mpsc_inv s" and ready: "case stream_wait s of None \<Rightarrow> True | Some g \<Rightarrow> g \<in> fired s"
    and h: "h \<notin> fired s" and t: "register_recv (chan s) h = Some (c, immediate)"
  shows "mpsc_inv (s\<lparr>chan := c, stream_wait := Some h,
                      fired := (if immediate then insert h (fired s) else fired s)\<rparr>)"
proof -
  have none: "recv_waiter (chan s) = None"
    using inv ready
    by (cases "recv_waiter (chan s)") (auto simp: mpsc_inv_def waiter_ok_def split: option.splits)
  show ?thesis
    using inv t none h
    by (auto simp: register_recv_def mpsc_inv_def waiter_ok_def mpsc_ok_def ids_ok_def pending_values_def
        split: if_splits)
qed

lemma inv_cancel_recv:
  assumes "mpsc_inv s" and "stream_wait s = Some h"
  shows "mpsc_inv (s\<lparr>chan := (if h \<in> fired s then chan s else cancel_recv (chan s)), stream_wait := None\<rparr>)"
  using assms
  by (cases "recv_waiter (chan s)") (auto simp: cancel_recv_def mpsc_inv_def waiter_ok_def mpsc_ok_def ids_ok_def pending_values_def)

lemma mpsc_inv_clone:
  assumes "mpsc_inv s"
  shows "mpsc_inv (s\<lparr>chan := clone_sender (chan s), senders := Suc (senders s)\<rparr>)"
  using assms
  by (auto simp: clone_sender_def mpsc_inv_def waiter_ok_def mpsc_ok_def ids_ok_def pending_values_def)

lemma inv_drop_sender:
  assumes inv: "mpsc_inv s" and t: "drop_sender (chan s) [] = Some (c, cs)"
  shows "mpsc_inv (fire cs (s\<lparr>chan := c, senders := senders s - 1\<rparr>))"
proof -
  have ok: "mpsc_ok (chan s)" using inv by (simp add: mpsc_inv_def)
  note ts = drop_sender_ok [OF ok t]
  have "waiter_ok c (stream_wait s) (fired s \<union> set (ready_handles cs))"
    using waiter_kept [OF _ ts(6)] inv by (simp add: mpsc_inv_def)
  then show ?thesis using inv ts by (simp add: mpsc_inv_def ids_ok_def)
qed

lemma mpsc_inv_step:
  assumes inv: "mpsc_inv s" and "mpsc_step s l t" and small: "regs s \<le> u64_modulus - 2"
  shows "mpsc_inv t"
  using assms(2)
proof cases
  case mpsc_try_send
  then show ?thesis using inv_try_send [OF inv] by blast
next
  case mpsc_register_send
  then show ?thesis using inv_register_send [OF inv _ small] by blast
next
  case mpsc_cancel_send
  then show ?thesis using inv_cancel_send [OF inv] by blast
next
  case mpsc_recv
  then show ?thesis using inv_recv [OF inv] by blast
next
  case mpsc_register_recv
  then show ?thesis using inv_register_recv [OF inv] by blast
next
  case mpsc_cancel_recv
  then show ?thesis using inv_cancel_recv [OF inv] by blast
next
  case mpsc_close
  then show ?thesis using inv_close [OF inv] by blast
next
  case mpsc_clone
  then show ?thesis using mpsc_inv_clone [OF inv] by blast
next
  case mpsc_drop_sender
  then show ?thesis using inv_drop_sender [OF inv] by blast
qed

interpretation mpscs: bounded_system mpsc_init mpsc_step regs "u64_modulus - 2" mpsc_inv
proof
  show "mpsc_inv s" if "mpsc_init s" for s :: "'v mpsc_sys"
    using that
    by (auto simp: mpsc_init_def mpsc_inv_def mpsc_new_def mpsc_ok_def ids_ok_def pending_values_def
        waiter_ok_def mpsc_channel_def u64_modulus_def split: if_splits)
  show "regs s \<le> regs t" if "mpsc_step s l t" for s t :: "'v mpsc_sys" and l
    using that by (rule mpsc_stepE) (auto simp: fire_def)
qed (rule mpsc_inv_step)

subsection \<open>The two futures\<close>

text \<open>\<open>poll_send\<close>. A send in progress holds its value or its completion future; \<open>done\<close> gives the
  results of the completions fired so far and \<open>h\<close> is the handle of a fresh completion. The recursive
  calls of the code poll the completion they just stored, which is the innermost case here.\<close>

record 'v send_future =
  slot :: "'v option"
  waiting :: "nat option"

definition poll_send ::
  "(nat \<rightharpoonup> ('v, unit) result) \<Rightarrow> 'v mpsc \<Rightarrow> 'v send_future \<Rightarrow> nat \<Rightarrow>
   ('v mpsc \<times> 'v send_future \<times> 'v pending_completion list \<times> ('v, unit) result poll) panics" where
  "poll_send done s fut h =
     (case waiting fut of
        Some g \<Rightarrow>
          (case done g of
             Some r \<Rightarrow> Some (s, fut\<lparr>waiting := None\<rparr>, [], Ready r)
           | None \<Rightarrow> Some (s, fut, [], Pending))
      | None \<Rightarrow>
          (case slot fut of
             None \<Rightarrow> panic
           | Some v \<Rightarrow>
               (case try_send_now s v [] of
                  (s1, cs, Inr _) \<Rightarrow> Some (s1, fut\<lparr>slot := None\<rparr>, cs, Ready (Ok ()))
                | (s1, cs, Inl (Closed v')) \<Rightarrow> Some (s1, fut\<lparr>slot := None\<rparr>, cs, Ready (Err v'))
                | (s1, cs, Inl (Full v')) \<Rightarrow>
                    (case register_send s1 v' h of
                       (s2, cs2, Inr None) \<Rightarrow> Some (s2, fut\<lparr>slot := None\<rparr>, cs @ cs2, Ready (Ok ()))
                     | (s2, cs2, Inl v'') \<Rightarrow> Some (s2, fut\<lparr>slot := None\<rparr>, cs @ cs2, Ready (Err v''))
                     | (s2, cs2, Inr (Some i)) \<Rightarrow>
                         (case done h of
                            Some r \<Rightarrow> Some (s2, fut\<lparr>slot := None\<rparr>, cs @ cs2, Ready r)
                          | None \<Rightarrow> Some (s2, fut\<lparr>slot := None, waiting := Some h\<rparr>, cs @ cs2, Pending))))))"

text \<open>\<open>poll_recv\<close>. The loop takes fuel; the outer \<open>None\<close> is running out of it, the inner one the
  assertion that only one receive waits. A fresh readiness handle is drawn in each round.\<close>

fun poll_recv ::
  "nat \<Rightarrow> nat set \<Rightarrow> 'v mpsc \<Rightarrow> nat option \<Rightarrow> nat \<Rightarrow>
   ('v mpsc \<times> nat option \<times> 'v pending_completion list \<times> 'v option poll) panics option" where
  "poll_recv 0 f s wait h = None"
| "poll_recv (Suc n) f s wait h =
     (if (case wait of None \<Rightarrow> False | Some g \<Rightarrow> g \<notin> f) then Some (Some (s, wait, [], Pending))
      else case recv_now s of
        (s1, cs, Inr v) \<Rightarrow> Some (Some (s1, None, cs, Ready (Some v)))
      | (s1, cs, Inl Disconnected) \<Rightarrow> Some (Some (s1, None, cs, Ready None))
      | (s1, cs, Inl QueueEmpty) \<Rightarrow>
          (case register_recv s1 h of
             None \<Rightarrow> Some panic
           | Some (s2, immediate) \<Rightarrow>
               poll_recv n (if immediate then insert h f else f) s2 (Some h) (Suc h)))"

text \<open>\<open>try_recv\<close>: a result other than \<open>Empty\<close> drops the readiness future.\<close>

definition try_recv :: "'v mpsc_sys \<Rightarrow> 'v mpsc_sys \<times> (try_recv_error, 'v) result" where
  "try_recv s =
     (let (c, cs, r) = recv_now (chan s);
          s1 = fire cs (s\<lparr>chan := c, received := (case r of Inr v \<Rightarrow> received s @ [v] | Inl _ \<Rightarrow> received s)\<rparr>)
      in if r = Err QueueEmpty then (s1, r)
         else (case stream_wait s1 of
                 None \<Rightarrow> (s1, r)
               | Some h \<Rightarrow>
                   (s1\<lparr>chan := (if h \<in> fired s1 then chan s1 else cancel_recv (chan s1)), stream_wait := None\<rparr>, r)))"

lemma try_recv_run:
  assumes "try_recv s = (t, r)"
  shows "\<exists>ls. run mpsc_step s ls t"
proof -
  obtain c cs r' where rn: "recv_now (chan s) = (c, cs, r')" by (metis prod_cases3)
  let ?s1 = "fire cs (s\<lparr>chan := c, received := (case r' of Inr v \<Rightarrow> received s @ [v] | Inl _ \<Rightarrow> received s)\<rparr>)"
  have one: "run mpsc_step s [cs] ?s1" by (rule run_single, rule mpsc_recv [OF rn])
  show ?thesis
  proof (cases "r' = Err QueueEmpty \<or> stream_wait ?s1 = None")
    case True
    then have "t = ?s1" using assms rn by (auto simp: try_recv_def Let_def split: if_splits option.splits)
    then show ?thesis using one by blast
  next
    case False
    then obtain h where h: "stream_wait ?s1 = Some h" by auto
    have "t = ?s1\<lparr>chan := (if h \<in> fired ?s1 then chan ?s1 else cancel_recv (chan ?s1)), stream_wait := None\<rparr>"
      using assms rn False h by (auto simp: try_recv_def Let_def split: if_splits option.splits)
    then show ?thesis using run_snoc [of mpsc_step, OF one mpsc_cancel_recv [OF h]] by blast
  qed
qed

subsection \<open>Properties\<close>

text \<open>A sample run on a channel of capacity 1: 10 is sent, 20 waits with handle 5, 10 is received.\<close>

definition mpsc_demo_start :: "nat mpsc_sys" where
  "mpsc_demo_start =
     \<lparr>chan = mpsc_new (Some 1), sent = [], received = [], returned = [], senders = 1, regs = 0,
      stream_wait = None, fired = {}\<rparr>"

definition mpsc_demo_full :: "nat mpsc_sys" where
  "mpsc_demo_full =
     \<lparr>chan = \<lparr>queue = [10], capacity = Some 1, sender_count = 1, receiver_closed = False,
              recv_waiter = None, send_waiters = [\<lparr>sw_id = 1, sw_value = 20, sw_handle = 5\<rparr>],
              next_send_id = wrapping_succ 1\<rparr>,
      sent = [10, 20], received = [], returned = [], senders = 1, regs = 1, stream_wait = None, fired = {}\<rparr>"

lemma mpsc_demo_init: "mpsc_init mpsc_demo_start"
  by (auto simp: mpsc_init_def mpsc_demo_start_def mpsc_channel_def)

lemma mpsc_demo_run: "run mpsc_step mpsc_demo_start [[], []] mpsc_demo_full"
proof -
  let ?s1 = "mpsc_demo_start\<lparr>chan := (mpsc_new (Some 1))\<lparr>queue := [10]\<rparr>, sent := [10]\<rparr>"
  have 1: "mpsc_step mpsc_demo_start [] ?s1"
    using mpsc_try_send [of mpsc_demo_start 10]
    by (simp add: mpsc_demo_start_def try_send_now_def at_capacity_def mpsc_new_def wake_receiver_def fire_def)
  have 2: "mpsc_step ?s1 [] mpsc_demo_full"
    using mpsc_register_send [of ?s1 20 5]
    by (simp add: mpsc_demo_start_def mpsc_demo_full_def register_send_def try_send_now_def at_capacity_def
        mpsc_new_def fire_def allocate_send_waiter_id_def publish_send_waiter_def)
  show ?thesis by (rule run_Cons, rule 1, rule run_Cons, rule 2, rule run_Nil)
qed

text \<open>(C8) The channel is FIFO and loses nothing: in every reachable state the values delivered followed
  by those still in the channel are a subsequence of the accepted ones in their order, and together
  with those returned to closed or cancelled senders they are exactly the accepted ones.\<close>

theorem mpsc_fifo:
  assumes "mpsc_init s" and "run mpsc_step s ls t" and "regs t \<le> u64_modulus - 2"
  shows "subseq (received t @ pending_values (chan t)) (sent t) \<and>
    mset (sent t) = mset (received t) + mset (pending_values (chan t)) + mset (returned t)"
  using mpscs.inv_reachable [OF assms] by (simp add: mpsc_inv_def)

theorem mpsc_fifo_witness: "pending_values (chan mpsc_demo_full) = [10, 20] \<and>
   subseq (pending_values (chan mpsc_demo_full)) (sent mpsc_demo_full)"
  using mpsc_fifo [OF mpsc_demo_init mpsc_demo_run]
  by (simp add: mpsc_demo_full_def u64_modulus_def pending_values_def)

text \<open>Backpressure and wake-ups agree with the queue: the queue never exceeds the capacity, a send
  waits only while the queue is full and the receiver open, so no sender overtakes a waiting one, and
  the receiver is parked only while there is nothing to deliver and somebody could still send.\<close>

theorem mpsc_backpressure:
  assumes "mpsc_init s" and "run mpsc_step s ls t" and "regs t \<le> u64_modulus - 2"
  shows "(\<forall>c. capacity (chan t) = Some c \<longrightarrow> length (queue (chan t)) \<le> c) \<and>
    (send_waiters (chan t) \<noteq> [] \<longrightarrow> at_capacity (chan t) \<and> \<not> receiver_closed (chan t)) \<and>
    (recv_waiter (chan t) \<noteq> None \<longrightarrow>
       pending_values (chan t) = [] \<and> \<not> receiver_closed (chan t) \<and> 0 < senders t)"
proof -
  have inv: "mpsc_ok (chan t)" "sender_count (chan t) = senders t"
    using mpscs.inv_reachable [OF assms] by (auto simp: mpsc_inv_def)
  have "send_waiters (chan t) = []" if "queue (chan t) = []"
    using inv(1) that by (cases "capacity (chan t)") (auto simp: mpsc_ok_def at_capacity_def)
  then show ?thesis using inv by (auto simp: mpsc_ok_def pending_values_def)
qed

theorem mpsc_backpressure_witness:
  "send_waiters (chan mpsc_demo_full) \<noteq> [] \<and> at_capacity (chan mpsc_demo_full)"
proof -
  have "regs mpsc_demo_full \<le> u64_modulus - 2" "send_waiters (chan mpsc_demo_full) \<noteq> []"
    by (simp_all add: mpsc_demo_full_def u64_modulus_def)
  then show ?thesis using mpsc_backpressure [OF mpsc_demo_init mpsc_demo_run] by blast
qed

text \<open>No waiting task is forgotten: a receive hands the freed slots to the front waiting senders and
  completes exactly those, in order; closing completes every waiting sender with its own value; and
  every step that unregisters a parked receiver without cancelling it fires its readiness.\<close>

theorem mpsc_waiters_completed:
  assumes "mpsc_init s" and "run mpsc_step s ls t" and "regs t \<le> u64_modulus - 2"
  shows "(\<forall>c cs v. recv_now (chan t) = (c, cs, Ok v) \<longrightarrow>
            (\<exists>n. send_waiters c = drop n (send_waiters (chan t)) \<and>
                 cs = map (\<lambda>w. SendOk (sw_handle w)) (take n (send_waiters (chan t))) \<and>
                 pending_values (chan t) = v # pending_values c)) \<and>
    (\<forall>c cs. close_receiver (chan t) [] = (c, cs) \<longrightarrow>
            send_waiters c = [] \<and>
            (\<forall>w \<in> set (send_waiters (chan t)). SendErr (sw_handle w) (sw_value w) \<in> set cs)) \<and>
    (\<forall>cs u h. mpsc_step t cs u \<and> recv_waiter (chan t) = Some h \<and> recv_waiter (chan u) = None \<longrightarrow>
            h \<in> fired u \<or> stream_wait u = None)"
proof (intro conjI allI impI)
  have inv: "mpsc_inv t" by (rule mpscs.inv_reachable [OF assms])
  then have ok: "mpsc_ok (chan t)" by (simp add: mpsc_inv_def)
  show "\<exists>n. send_waiters c = drop n (send_waiters (chan t)) \<and>
      cs = map (\<lambda>w. SendOk (sw_handle w)) (take n (send_waiters (chan t))) \<and>
      pending_values (chan t) = v # pending_values c" if "recv_now (chan t) = (c, cs, Ok v)" for c cs v
    using recv_now_ok(2) [OF ok that] by blast
  show "send_waiters c = []" if "close_receiver (chan t) [] = (c, cs)" for c cs
    by (rule close_receiver_ok(3) [OF ok that])
  show "\<forall>w \<in> set (send_waiters (chan t)). SendErr (sw_handle w) (sw_value w) \<in> set cs"
    if "close_receiver (chan t) [] = (c, cs)" for c cs
    using close_receiver_ok(8) [OF ok that] by auto
  fix cs u h
  assume a: "mpsc_step t cs u \<and> recv_waiter (chan t) = Some h \<and> recv_waiter (chan u) = None"
  have over: "h \<in> set (ready_handles cs)" if "hands_over (chan t) cs (chan u)"
    using that a by (auto simp: hands_over_def)
  from a have "mpsc_step t cs u" by blast
  then show "h \<in> fired u \<or> stream_wait u = None"
  proof cases
    case mpsc_try_send
    then show ?thesis using over hands_over_try_send by fastforce
  next
    case mpsc_register_send
    then show ?thesis using over hands_over_register_send by fastforce
  next
    case mpsc_recv
    then show ?thesis using over hands_over_recv [OF ok] by fastforce
  next
    case mpsc_close
    then show ?thesis using over close_receiver_ok(7) [OF ok] by fastforce
  next
    case mpsc_drop_sender
    then show ?thesis using over drop_sender_ok(6) [OF ok] by fastforce
  next
    case mpsc_cancel_send
    then show ?thesis
      using a by (auto simp: cancel_send_def remove_send_waiter_def split: option.splits)
  next
    case mpsc_register_recv
    then show ?thesis using a by (auto simp: register_recv_def split: if_splits)
  qed (use a in \<open>auto simp: clone_sender_def\<close>)
qed

theorem mpsc_waiters_completed_witness:
  "snd (close_receiver (chan mpsc_demo_full) []) = [SendErr 5 20] \<and>
   send_waiters (fst (close_receiver (chan mpsc_demo_full) [])) = []"
proof -
  have "regs mpsc_demo_full \<le> u64_modulus - 2" by (simp add: mpsc_demo_full_def u64_modulus_def)
  from mpsc_waiters_completed [OF mpsc_demo_init mpsc_demo_run this] show ?thesis
    by (auto simp: close_receiver_def fail_pending_senders_def wake_receiver_def mpsc_demo_full_def)
qed

text \<open>The channel's assertions hold: in every reachable state dropping a live sender does not
  underflow the count, and \<open>poll_recv\<close> ends within two rounds without tripping the single-waiter
  assertion, whether or not its readiness future has resolved.\<close>

theorem mpsc_assertions_hold:
  assumes "mpsc_init s" and "run mpsc_step s ls t" and "regs t \<le> u64_modulus - 2"
    and "h \<notin> fired t"
  shows "(0 < senders t \<longrightarrow> drop_sender (chan t) [] \<noteq> panic) \<and>
    (\<exists>r. poll_recv 2 (fired t) (chan t) (stream_wait t) h = Some (Some r))"
proof -
  have inv: "mpsc_inv t" by (rule mpscs.inv_reachable [OF assms(1-3)])
  then have ok: "mpsc_ok (chan t)" and w: "waiter_ok (chan t) (stream_wait t) (fired t)"
    and count: "sender_count (chan t) = senders t" by (auto simp: mpsc_inv_def)
  have "drop_sender (chan t) [] \<noteq> panic" if "0 < senders t"
    using count that by (simp add: drop_sender_def checked_sub_def Let_def)
  moreover have "\<exists>r. poll_recv 2 (fired t) (chan t) (stream_wait t) h = Some (Some r)"
  proof (cases "case stream_wait t of None \<Rightarrow> False | Some g \<Rightarrow> g \<notin> fired t")
    case True
    then show ?thesis by (simp add: numeral_2_eq_2)
  next
    case False
    then have none: "recv_waiter (chan t) = None"
      using w by (cases "recv_waiter (chan t)") (auto simp: waiter_ok_def split: option.splits)
    obtain c cs r where rn: "recv_now (chan t) = (c, cs, r)" by (metis prod_cases3)
    show ?thesis
    proof (cases r)
      case (Inr v)
      then show ?thesis using rn False by (simp add: numeral_2_eq_2)
    next
      case (Inl e)
      then have e: "c = chan t" "queue (chan t) = []"
        "e = Disconnected \<longleftrightarrow> sender_count (chan t) = 0 \<or> receiver_closed (chan t)"
        using recv_now_ok(3) [OF ok rn] by auto
      then show ?thesis
        using rn Inl False none assms(4)
        by (cases e) (auto simp: numeral_2_eq_2 register_recv_def)
    qed
  qed
  ultimately show ?thesis by blast
qed

theorem mpsc_assertions_hold_witness: "drop_sender (chan mpsc_demo_full) [] \<noteq> panic"
  using mpsc_assertions_hold [OF mpsc_demo_init mpsc_demo_run, of 0]
  by (simp add: mpsc_demo_full_def u64_modulus_def)

text \<open>A \<open>send\<close> future behaves as documented on each branch of its first poll: with room it appends
  its value and is ready, on a closed channel it returns its value, and on a full one it waits at the
  end of the queue of senders; polled again it reports exactly what its completion was given.\<close>

theorem mpsc_poll_send_branches:
  assumes "mpsc_init s" and "run mpsc_step s ls t" and "regs t \<le> u64_modulus - 2"
    and "slot fut = Some v" and "waiting fut = None" and "done h = None"
  shows "\<exists>c fut' cs r. poll_send done (chan t) fut h = Some (c, fut', cs, r) \<and> slot fut' = None \<and>
    (receiver_closed (chan t) \<longrightarrow> c = chan t \<and> r = Ready (Err v)) \<and>
    (\<not> receiver_closed (chan t) \<and> \<not> at_capacity (chan t) \<longrightarrow>
       r = Ready (Ok ()) \<and> queue c = queue (chan t) @ [v] \<and> send_waiters (chan t) = []) \<and>
    (\<not> receiver_closed (chan t) \<and> at_capacity (chan t) \<longrightarrow>
       r = Pending \<and> queue c = queue (chan t) \<and> waiting fut' = Some h \<and>
       send_waiters c = send_waiters (chan t) @ [\<lparr>sw_id = next_send_id (chan t), sw_value = v, sw_handle = h\<rparr>] \<and>
       (\<forall>done' x. done' h = Some x \<longrightarrow> poll_send done' c fut' h' = Some (c, fut'\<lparr>waiting := None\<rparr>, [], Ready x)))"
proof -
  have ok: "mpsc_ok (chan t)" using mpscs.inv_reachable [OF assms(1-3)] by (simp add: mpsc_inv_def)
  have none: "\<not> at_capacity (chan t) \<Longrightarrow> send_waiters (chan t) = []" using ok by (auto simp: mpsc_ok_def)
  show ?thesis
    using assms(4-6) none
    by (auto simp: poll_send_def try_send_now_def register_send_def allocate_send_waiter_id_def
        publish_send_waiter_def wake_receiver_def split: prod.splits option.splits)
qed

theorem mpsc_poll_send_branches_witness:
  "\<exists>c fut' cs. poll_send Map.empty (chan mpsc_demo_full) \<lparr>slot = Some 30, waiting = None\<rparr> 6
     = Some (c, fut', cs, Pending)"
  using mpsc_poll_send_branches [OF mpsc_demo_init mpsc_demo_run, of "\<lparr>slot = Some 30, waiting = None\<rparr>" 30
      Map.empty 6]
  by (fastforce simp: mpsc_demo_full_def u64_modulus_def at_capacity_def)

end
