(* ===== verification/Broadcast.thy ===== *)
theory Broadcast
  imports Transition
begin

text \<open>
  \<open>src/channel/broadcast.rs\<close>: the bounded broadcast channel. Every message gets a sequence number, the
  buffer keeps the newest ones, and a receiver whose cursor fell out of it learns how many messages
  it missed. The functions are the critical sections of \<open>State\<close>; a panic (\<open>expect\<close>) is \<open>None\<close>. In the
  system, \<open>history\<close> is every message ever sent, \<open>receivers\<close> the live receivers with their cursors and
  readiness futures, and \<open>outcomes\<close> what the completions were given.
\<close>

subsection \<open>State and critical sections\<close>

record 'v bslot =
  seq :: nat
  bvalue :: 'v

record recv_waiter =
  rw_id :: nat
  rw_next_seq :: nat
  rw_handle :: nat

record 'v broadcast =
  buffer :: "'v bslot list"
  bcapacity :: nat
  next_seq :: nat
  bsender_count :: nat
  breceiver_count :: nat
  recv_waiters :: "recv_waiter list"
  next_recv_id :: nat

datatype 'v brecv_outcome = Value 'v nat | Lagged nat nat | ChannelClosed

datatype recv_error = LaggedBy nat | BClosed

text \<open>\<open>channel\<close> asserts a positive capacity.\<close>

definition broadcast_new :: "nat \<Rightarrow> 'v broadcast panics" where
  "broadcast_new cap =
     (if 0 < cap then
        Some \<lparr>buffer = [], bcapacity = cap, next_seq = 0, bsender_count = 1, breceiver_count = 1,
              recv_waiters = [], next_recv_id = 1\<rparr>
      else panic)"

definition oldest_seq :: "'v broadcast \<Rightarrow> nat" where
  "oldest_seq s = (case buffer s of [] \<Rightarrow> next_seq s | x # _ \<Rightarrow> seq x)"

definition recv_outcome :: "'v broadcast \<Rightarrow> nat \<Rightarrow> 'v brecv_outcome option panics" where
  "recv_outcome s n =
     (let oldest = oldest_seq s in
      if n < oldest then Some (Some (Lagged (oldest - n) oldest))
      else if n < next_seq s then
        (if n - oldest < length (buffer s)
         then let x = buffer s ! (n - oldest) in Some (Some (Value (bvalue x) (seq x + 1)))
         else panic)
      else if bsender_count s = 0 then Some (Some ChannelClosed)
      else Some None)"

definition push_value :: "'v broadcast \<Rightarrow> 'v \<Rightarrow> 'v broadcast" where
  "push_value s v =
     (let b = (if length (buffer s) = bcapacity s then tl (buffer s) else buffer s)
      in s\<lparr>buffer := b @ [\<lparr>seq = next_seq s, bvalue = v\<rparr>], next_seq := wrapping_succ (next_seq s)\<rparr>)"

definition enqueue_waiter :: "'v broadcast \<Rightarrow> nat \<Rightarrow> nat \<Rightarrow> 'v broadcast \<times> nat" where
  "enqueue_waiter s n h =
     (s\<lparr>next_recv_id := wrapping_succ (next_recv_id s),
        recv_waiters := recv_waiters s @ [\<lparr>rw_id = next_recv_id s, rw_next_seq = n, rw_handle = h\<rparr>]\<rparr>,
      next_recv_id s)"

definition bremove_waiter :: "'v broadcast \<Rightarrow> nat \<Rightarrow> 'v broadcast" where
  "bremove_waiter s i =
     (case position (\<lambda>w. rw_id w = i) (recv_waiters s) of
        None \<Rightarrow> s
      | Some k \<Rightarrow> s\<lparr>recv_waiters := swap_remove k (recv_waiters s)\<rparr>)"

text \<open>The loop of \<open>wake_ready_receivers\<close> from position \<open>k\<close>.\<close>

function wake_loop ::
  "'v broadcast \<Rightarrow> nat \<Rightarrow> (nat \<times> 'v brecv_outcome) list \<Rightarrow>
   ('v broadcast \<times> (nat \<times> 'v brecv_outcome) list) panics" where
  "wake_loop s k ready =
     (if k < length (recv_waiters s) then
        (case recv_outcome s (rw_next_seq (recv_waiters s ! k)) of
           None \<Rightarrow> panic
         | Some None \<Rightarrow> wake_loop s (Suc k) ready
         | Some (Some out) \<Rightarrow>
             wake_loop (s\<lparr>recv_waiters := swap_remove k (recv_waiters s)\<rparr>) k
               (ready @ [(rw_handle (recv_waiters s ! k), out)]))
      else Some (s, ready))"
  by pat_completeness auto
termination
  by (relation "measure (\<lambda>(s, k, ready). length (recv_waiters s) - k)") auto

declare wake_loop.simps [simp del]

definition wake_ready_receivers ::
  "'v broadcast \<Rightarrow> ('v broadcast \<times> (nat \<times> 'v brecv_outcome) list) panics" where
  "wake_ready_receivers s = wake_loop s 0 []"

definition bsend ::
  "'v broadcast \<Rightarrow> 'v \<Rightarrow> ('v broadcast \<times> (nat \<times> 'v brecv_outcome) list \<times> ('v, nat) result) panics" where
  "bsend s v =
     (if breceiver_count s = 0 then Some (s, [], Err v)
      else do {
        (s', ready) \<leftarrow> wake_ready_receivers (push_value s v);
        Some (s', ready, Ok (breceiver_count s))
      })"

definition bdrop_sender ::
  "'v broadcast \<Rightarrow> ('v broadcast \<times> (nat \<times> 'v brecv_outcome) list) panics" where
  "bdrop_sender s =
     do {
       n \<leftarrow> checked_sub (bsender_count s) 1;
       if n = 0 then wake_ready_receivers (s\<lparr>bsender_count := n\<rparr>)
       else Some (s\<lparr>bsender_count := n\<rparr>, [])
     }"

definition bclone_sender :: "'v broadcast \<Rightarrow> 'v broadcast" where
  "bclone_sender s = s\<lparr>bsender_count := bsender_count s + 1\<rparr>"

text \<open>\<open>subscribe\<close> and \<open>resubscribe\<close>: a new receiver starts at the next message.\<close>

definition bsubscribe :: "'v broadcast \<Rightarrow> 'v broadcast \<times> nat" where
  "bsubscribe s = (s\<lparr>breceiver_count := breceiver_count s + 1\<rparr>, next_seq s)"

definition bdrop_receiver :: "'v broadcast \<Rightarrow> 'v broadcast panics" where
  "bdrop_receiver s = map_option (\<lambda>n. s\<lparr>breceiver_count := n\<rparr>) (checked_sub (breceiver_count s) 1)"

definition blen :: "'v broadcast \<Rightarrow> nat \<Rightarrow> nat" where
  "blen s cursor =
     (if cursor < oldest_seq s then next_seq s - oldest_seq s else next_seq s - cursor)"

definition apply_outcome :: "nat \<Rightarrow> 'v brecv_outcome \<Rightarrow> nat \<times> (recv_error, 'v) result" where
  "apply_outcome cursor out =
     (case out of
        Value v n \<Rightarrow> (n, Ok v)
      | Lagged skipped n \<Rightarrow> (n, Err (LaggedBy skipped))
      | ChannelClosed \<Rightarrow> (cursor, Err BClosed))"

text \<open>\<open>poll_recv\<close> of a receiver with its cursor and its readiness future (the handle with the waiter id
  its cancel callback removes); \<open>outs\<close> gives what the handles were completed with. An immediate
  outcome goes through the completion just created and is applied at once.\<close>

record receiver =
  cursor :: nat
  wait :: "(nat \<times> nat) option"

definition bpoll_recv ::
  "(nat \<rightharpoonup> 'v brecv_outcome) \<Rightarrow> 'v broadcast \<Rightarrow> receiver \<Rightarrow> nat \<Rightarrow>
   ('v broadcast \<times> receiver \<times> (recv_error, 'v) result poll) panics" where
  "bpoll_recv outs s r h =
     (case wait r of
        Some (g, i) \<Rightarrow>
          (case outs g of
             Some out \<Rightarrow>
               let (n, res) = apply_outcome (cursor r) out
               in Some (s, r\<lparr>wait := None, cursor := n\<rparr>, Ready res)
           | None \<Rightarrow> Some (s, r, Pending))
      | None \<Rightarrow>
          do {
            now \<leftarrow> recv_outcome s (cursor r);
            (case now of
               Some out \<Rightarrow>
                 let (n, res) = apply_outcome (cursor r) out
                 in Some (s, r\<lparr>cursor := n\<rparr>, Ready res)
             | None \<Rightarrow>
                 let (s', i) = enqueue_waiter s (cursor r) h
                 in Some (s', r\<lparr>wait := Some (h, i)\<rparr>, Pending))
          })"

definition bcancel :: "'v broadcast \<Rightarrow> (nat \<rightharpoonup> 'v brecv_outcome) \<Rightarrow> receiver \<Rightarrow> 'v broadcast" where
  "bcancel s outs r =
     (case wait r of
        Some (g, i) \<Rightarrow> if outs g = None then bremove_waiter s i else s
      | None \<Rightarrow> s)"

subsection \<open>The buffer is the tail of the history\<close>

definition buffered :: "'v broadcast \<Rightarrow> 'v list \<Rightarrow> bool" where
  "buffered s hist \<longleftrightarrow>
     next_seq s = length hist \<and> 0 < bcapacity s \<and>
     (let k = min (bcapacity s) (length hist); o' = length hist - k
      in map seq (buffer s) = [o' ..< length hist] \<and> map bvalue (buffer s) = drop o' hist)"

lemma bufferedD:
  assumes "buffered s hist"
  defines "k \<equiv> min (bcapacity s) (length hist)"
  shows "next_seq s = length hist" "length (buffer s) = k" "oldest_seq s = length hist - k"
    "i < k \<Longrightarrow> seq (buffer s ! i) = length hist - k + i \<and> bvalue (buffer s ! i) = hist ! (length hist - k + i)"
proof -
  have m: "map seq (buffer s) = [length hist - k ..< length hist]" "map bvalue (buffer s) = drop (length hist - k) hist"
    and n: "next_seq s = length hist"
    using assms by (auto simp: buffered_def Let_def)
  show "next_seq s = length hist" by (rule n)
  have "length (map seq (buffer s)) = k" unfolding m(1) by (simp add: k_def)
  then show len: "length (buffer s) = k" by simp
  show "seq (buffer s ! i) = length hist - k + i \<and> bvalue (buffer s ! i) = hist ! (length hist - k + i)"
    if "i < k"
  proof -
    have "map seq (buffer s) ! i = [length hist - k ..< length hist] ! i" using m(1) by simp
    moreover have "map bvalue (buffer s) ! i = drop (length hist - k) hist ! i" using m(2) by simp
    ultimately show ?thesis using that len by (auto simp: k_def)
  qed
  show "oldest_seq s = length hist - k"
  proof (cases "buffer s")
    case Nil
    then have "k = 0" using len by simp
    then show ?thesis using Nil n by (simp add: oldest_seq_def)
  next
    case (Cons x xs)
    then have "0 < k" using len by simp
    then have "[length hist - k ..< length hist] = (length hist - k) # [Suc (length hist - k) ..< length hist]"
      by (simp add: upt_conv_Cons k_def)
    then show ?thesis using m(1) Cons by (simp add: oldest_seq_def)
  qed
qed

lemma recv_outcome_spec:
  assumes "buffered s hist" and "r \<le> length hist"
  shows "recv_outcome s r =
    Some (let k = min (bcapacity s) (length hist) in
      if r < length hist - k then Some (Lagged (length hist - k - r) (length hist - k))
      else if r < length hist then Some (Value (hist ! r) (Suc r))
      else if bsender_count s = 0 then Some ChannelClosed else None)"
proof -
  let ?k = "min (bcapacity s) (length hist)"
  note b = bufferedD [OF assms(1)]
  have "r - (length hist - ?k) < ?k" if "\<not> r < length hist - ?k" "r < length hist"
    using that min.cobounded2 [of "bcapacity s" "length hist"] by linarith
  then show ?thesis using b(1,2,3) b(4) [of "r - (length hist - ?k)"] assms(2)
    by (auto simp: recv_outcome_def Let_def)
qed

lemma buffered_push:
  assumes b: "buffered s hist" and small: "Suc (length hist) < u64_modulus"
  shows "buffered (push_value s v) (hist @ [v])"
proof -
  let ?k = "min (bcapacity s) (length hist)" and ?n = "length hist"
  have m: "map seq (buffer s) = [?n - ?k ..< ?n]" "map bvalue (buffer s) = drop (?n - ?k) hist"
    "next_seq s = ?n" "0 < bcapacity s" using b by (auto simp: buffered_def Let_def)
  have len: "length (buffer s) = ?k" using bufferedD(2) [OF b] .
  have nx: "next_seq (push_value s v) = Suc ?n"
    using small m(3) by (simp add: push_value_def Let_def wrapping_succ_def)
  have cap: "bcapacity (push_value s v) = bcapacity s" by (simp add: push_value_def Let_def)
  show ?thesis
  proof (cases "length (buffer s) = bcapacity s")
    case True
    then have k: "?k = bcapacity s" "bcapacity s \<le> ?n" using len by auto
    have "map seq (tl (buffer s)) = [Suc (?n - ?k) ..< ?n]"
      using m(1) k m(4) by (simp add: map_tl tl_upt)
    moreover have "map bvalue (tl (buffer s)) = drop (Suc (?n - ?k)) hist"
      using m(2) by (simp add: map_tl drop_Suc tl_drop)
    ultimately show ?thesis
      using True k m(3,4) nx
      by (auto simp: buffered_def push_value_def Let_def Suc_diff_le)
  next
    case False
    then have "?k = ?n" "?n < bcapacity s" using len by (auto simp: min_def split: if_splits)
    then show ?thesis
      using False m nx by (auto simp: buffered_def push_value_def Let_def min_def)
  qed
qed

text \<open>A send and the last sender's drop find every parked receiver ready.\<close>

lemma oldest_seq_waiters [simp]: "oldest_seq (s\<lparr>recv_waiters := ws\<rparr>) = oldest_seq s"
  by (cases "buffer s") (simp_all add: oldest_seq_def)

lemma recv_outcome_waiters [simp]: "recv_outcome (s\<lparr>recv_waiters := ws\<rparr>) n = recv_outcome s n"
  by (simp add: recv_outcome_def Let_def)

lemma wake_loop_all:
  assumes "\<forall>w \<in> set (recv_waiters s). recv_outcome s (rw_next_seq w) = Some (Some out)"
  shows "\<exists>ready'. wake_loop s 0 ready = Some (s\<lparr>recv_waiters := []\<rparr>, ready') \<and>
    mset ready' = mset ready + mset (map (\<lambda>w. (rw_handle w, out)) (recv_waiters s))"
  using assms
proof (induction "length (recv_waiters s)" arbitrary: s ready)
  case 0
  then show ?case by (simp add: wake_loop.simps [of s])
next
  case (Suc n)
  let ?w = "recv_waiters s ! 0" and ?ws = "swap_remove 0 (recv_waiters s)"
  let ?s = "s\<lparr>recv_waiters := ?ws\<rparr>" and ?r = "ready @ [(rw_handle (recv_waiters s ! 0), out)]"
  have w: "?w \<in> set (recv_waiters s)" using Suc.hyps(2) by (metis nth_mem zero_less_Suc)
  have sub: "set ?ws \<subseteq> set (recv_waiters s)" using set_swap_remove_subset [of 0 "recv_waiters s"] Suc.hyps(2) by linarith
  have len: "n = length (recv_waiters ?s)" using Suc.hyps(2) by simp
  have "\<forall>w \<in> set (recv_waiters ?s). recv_outcome ?s (rw_next_seq w) = Some (Some out)"
    using Suc.prems sub by auto
  from Suc.hyps(1) [OF len this, of ?r] obtain ready' where
    r': "wake_loop ?s 0 ?r = Some (s\<lparr>recv_waiters := []\<rparr>, ready')"
      "mset ready' = mset ?r + mset (map (\<lambda>w. (rw_handle w, out)) ?ws)" by auto
  have "recv_outcome s (rw_next_seq ?w) = Some (Some out)" using Suc.prems w by blast
  then have "wake_loop s 0 ready = wake_loop ?s 0 ?r"
    using Suc.hyps(2) by (subst wake_loop.simps) auto
  moreover have "mset (recv_waiters s) = {#?w#} + mset ?ws"
    using mset_swap_remove [of 0 "recv_waiters s"] w by (cases "recv_waiters s") auto
  then have "mset (map (\<lambda>w. (rw_handle w, out)) (recv_waiters s)) =
      {#(rw_handle ?w, out)#} + mset (map (\<lambda>w. (rw_handle w, out)) ?ws)"
    by (simp add: mset_map [symmetric] del: mset_map) (metis (no_types, lifting) image_mset_add_mset mset_map)
  ultimately show ?case using r' by simp
qed

subsection \<open>The channel with its receivers\<close>

text \<open>\<open>Drop for Receiver\<close> first lowers the count, in its own critical section, and then drops the
  readiness future; the receivers in between are \<open>dropping\<close>. \<open>logs\<close> records for each receiver where it
  subscribed and what its polls returned.\<close>

record 'v bsys =
  bchan :: "'v broadcast"
  history :: "'v list"
  live_senders :: nat
  receivers :: "nat \<rightharpoonup> receiver"
  dropping :: "nat set"
  outcomes :: "nat \<rightharpoonup> 'v brecv_outcome"
  handles :: "nat set"
  logs :: "nat \<Rightarrow> nat \<times> (recv_error, 'v) result list"
  bregs :: nat

definition complete_waiters :: "(nat \<times> 'v brecv_outcome) list \<Rightarrow> 'v bsys \<Rightarrow> 'v bsys" where
  "complete_waiters ready s = s\<lparr>outcomes := outcomes s ++ map_of ready\<rparr>"

definition log_poll :: "nat \<times> 'r list \<Rightarrow> 'r poll \<Rightarrow> nat \<times> 'r list" where
  "log_poll l p = (case p of Ready r \<Rightarrow> (fst l, snd l @ [r]) | Pending \<Rightarrow> l)"

inductive bstep :: "'v bsys \<Rightarrow> (nat \<times> 'v brecv_outcome) list \<Rightarrow> 'v bsys \<Rightarrow> bool" where
  b_send:
    "0 < live_senders s \<Longrightarrow> bsend (bchan s) v = Some (c, ready, r) \<Longrightarrow>
     bstep s ready (complete_waiters ready
       (s\<lparr>bchan := c, history := (case r of Inr _ \<Rightarrow> history s @ [v] | Inl _ \<Rightarrow> history s)\<rparr>))"
| b_clone:
    "0 < live_senders s \<Longrightarrow>
     bstep s [] (s\<lparr>bchan := bclone_sender (bchan s), live_senders := Suc (live_senders s)\<rparr>)"
| b_drop_sender:
    "0 < live_senders s \<Longrightarrow> bdrop_sender (bchan s) = Some (c, ready) \<Longrightarrow>
     bstep s ready (complete_waiters ready (s\<lparr>bchan := c, live_senders := live_senders s - 1\<rparr>))"
| b_subscribe:
    "0 < live_senders s \<or> (\<exists>j. j \<in> dom (receivers s) - dropping s) \<Longrightarrow> i \<notin> dom (receivers s) \<Longrightarrow>
     bsubscribe (bchan s) = (c, n) \<Longrightarrow>
     bstep s [] (s\<lparr>bchan := c, receivers := (receivers s)(i \<mapsto> \<lparr>cursor = n, wait = None\<rparr>),
                   logs := (logs s)(i := (n, []))\<rparr>)"
| b_poll:
    "receivers s i = Some r \<Longrightarrow> i \<notin> dropping s \<Longrightarrow> h \<notin> handles s \<Longrightarrow>
     bpoll_recv (outcomes s) (bchan s) r h = Some (c, r', p) \<Longrightarrow>
     bstep s [] (s\<lparr>bchan := c, receivers := (receivers s)(i \<mapsto> r'), handles := insert h (handles s),
                   logs := (logs s)(i := log_poll (logs s i) p),
                   bregs := (if wait r = None \<and> wait r' \<noteq> None then Suc (bregs s) else bregs s)\<rparr>)"
| b_drop_receiver:
    "receivers s i = Some r \<Longrightarrow> i \<notin> dropping s \<Longrightarrow> bdrop_receiver (bchan s) = Some c \<Longrightarrow>
     bstep s [] (s\<lparr>bchan := c, dropping := insert i (dropping s)\<rparr>)"
| b_drop_wait:
    "receivers s i = Some r \<Longrightarrow> i \<in> dropping s \<Longrightarrow>
     bstep s [] (s\<lparr>bchan := bcancel (bchan s) (outcomes s) r, receivers := (receivers s)(i := None),
                   dropping := dropping s - {i}\<rparr>)"

inductive_cases bstepE: "bstep s l t"

definition binit :: "'v bsys \<Rightarrow> bool" where
  "binit s \<longleftrightarrow>
     (\<exists>cap c. broadcast_new cap = Some c \<and>
        s = \<lparr>bchan = c, history = [], live_senders = 1,
             receivers = [0 \<mapsto> \<lparr>cursor = 0, wait = None\<rparr>], dropping = {}, outcomes = Map.empty,
             handles = {}, logs = (\<lambda>_. (0, [])), bregs = 0\<rparr>)"

text \<open>What a receiver's results say it consumed: in order and without a gap, a value is the message
  at its position and a lag skips exactly the messages it counts.\<close>

fun replay :: "'v list \<Rightarrow> nat \<Rightarrow> (recv_error, 'v) result list \<Rightarrow> nat option" where
  "replay hist c [] = Some c"
| "replay hist c (Inr v # rs) = (if c < length hist \<and> hist ! c = v then replay hist (Suc c) rs else None)"
| "replay hist c (Inl (LaggedBy k) # rs) =
     (if 0 < k \<and> c + k \<le> length hist then replay hist (c + k) rs else None)"
| "replay hist c (Inl BClosed # rs) = replay hist c rs"

definition outcome_ok :: "'v broadcast \<Rightarrow> 'v list \<Rightarrow> nat \<Rightarrow> 'v brecv_outcome \<Rightarrow> bool" where
  "outcome_ok c hist n out =
     (case out of
        Value v n' \<Rightarrow> n < length hist \<and> hist ! n = v \<and> n' = Suc n
      | Lagged k n' \<Rightarrow> 0 < k \<and> n' = n + k \<and> n' \<le> length hist
      | ChannelClosed \<Rightarrow> n = length hist \<and> bsender_count c = 0)"

definition waiters_ok :: "'v broadcast \<Rightarrow> nat \<Rightarrow> (nat \<rightharpoonup> 'v brecv_outcome) \<Rightarrow> nat set \<Rightarrow> nat \<Rightarrow> bool" where
  "waiters_ok c len outs hs n \<longleftrightarrow>
     (recv_waiters c \<noteq> [] \<longrightarrow> 0 < bsender_count c) \<and>
     (\<forall>w \<in> set (recv_waiters c). rw_next_seq w = len \<and> outs (rw_handle w) = None \<and>
        rw_handle w \<in> hs \<and> rw_id w \<le> n) \<and>
     distinct (map rw_handle (recv_waiters c)) \<and> distinct (map rw_id (recv_waiters c)) \<and>
     next_recv_id c = Suc n mod u64_modulus"

definition receiver_ok :: "'v broadcast \<Rightarrow> 'v list \<Rightarrow> (nat \<rightharpoonup> 'v brecv_outcome) \<Rightarrow> nat set \<Rightarrow> receiver \<Rightarrow> bool" where
  "receiver_ok c hist outs hs r \<longleftrightarrow>
     cursor r \<le> length hist \<and>
     (case wait r of
        None \<Rightarrow> True
      | Some (h, i) \<Rightarrow> h \<in> hs \<and>
          (case outs h of
             None \<Rightarrow> \<exists>w \<in> set (recv_waiters c). rw_handle w = h \<and> rw_id w = i \<and> rw_next_seq w = cursor r
           | Some out \<Rightarrow> outcome_ok c hist (cursor r) out))"

definition wait_handle :: "receiver \<Rightarrow> nat option" where
  "wait_handle r = map_option fst (wait r)"

definition handles_inj :: "(nat \<rightharpoonup> receiver) \<Rightarrow> bool" where
  "handles_inj rs \<longleftrightarrow>
     (\<forall>i j r r' h. rs i = Some r \<and> rs j = Some r' \<and> wait_handle r = Some h \<and> wait_handle r' = Some h \<longrightarrow> i = j)"

definition binv :: "'v bsys \<Rightarrow> bool" where
  "binv s \<longleftrightarrow>
     buffered (bchan s) (history s) \<and> bsender_count (bchan s) = live_senders s \<and>
     finite (dom (receivers s)) \<and> dropping s \<subseteq> dom (receivers s) \<and>
     breceiver_count (bchan s) = card (dom (receivers s) - dropping s) \<and>
     waiters_ok (bchan s) (length (history s)) (outcomes s) (handles s) (bregs s) \<and>
     dom (outcomes s) \<subseteq> handles s \<and> handles_inj (receivers s) \<and>
     (\<forall>i r. receivers s i = Some r \<longrightarrow>
        receiver_ok (bchan s) (history s) (outcomes s) (handles s) r \<and>
        replay (history s) (fst (logs s i)) (snd (logs s i)) = Some (cursor r))"

subsection \<open>Every operation keeps the invariant\<close>

lemma replay_append: "replay hist c (rs @ rs') = Option.bind (replay hist c rs) (\<lambda>k. replay hist k rs')"
  by (induction hist c rs rule: replay.induct) auto

lemma replay_mono: "replay hist c rs = Some k \<Longrightarrow> replay (hist @ xs) c rs = Some k"
  by (induction hist c rs rule: replay.induct) (auto simp: nth_append split: if_splits)

lemma outcome_ok_replay:
  assumes "outcome_ok c hist n out" and "apply_outcome n out = (n', r)"
  shows "replay hist n [r] = Some n' \<and> (n \<le> length hist \<longrightarrow> n' \<le> length hist)"
  using assms by (cases out) (auto simp: outcome_ok_def apply_outcome_def)

lemma map_of_const:
  assumes "set xs = (\<lambda>w. (f w, out)) ` A"
  shows "map_of xs h = (if h \<in> f ` A then Some out else None)"
proof (cases "map_of xs h")
  case None
  then have "h \<notin> fst ` set xs" by (simp add: map_of_eq_None_iff)
  then show ?thesis using None assms by (auto simp: image_image)
next
  case (Some v)
  then have "(h, v) \<in> set xs" by (rule map_of_SomeD)
  then show ?thesis using Some assms by auto
qed

lemma wake_ready_receivers_all:
  assumes "\<forall>w \<in> set (recv_waiters s). recv_outcome s (rw_next_seq w) = Some (Some out)"
  obtains ready where "wake_ready_receivers s = Some (s\<lparr>recv_waiters := []\<rparr>, ready)"
    and "mset ready = mset (map (\<lambda>w. (rw_handle w, out)) (recv_waiters s))"
  using wake_loop_all [OF assms, of "[]"] by (auto simp: wake_ready_receivers_def)

lemma push_value_simps [simp]:
  "recv_waiters (push_value s v) = recv_waiters s" "bsender_count (push_value s v) = bsender_count s"
  "breceiver_count (push_value s v) = breceiver_count s" "next_recv_id (push_value s v) = next_recv_id s"
  "bcapacity (push_value s v) = bcapacity s"
  by (simp_all add: push_value_def Let_def)

lemma buffered_waiters [simp]:
  "buffered (s\<lparr>recv_waiters := ws\<rparr>) hist = buffered s hist"
  "buffered (s\<lparr>bsender_count := n\<rparr>) hist = buffered s hist"
  "buffered (s\<lparr>breceiver_count := n\<rparr>) hist = buffered s hist"
  "buffered (s\<lparr>next_recv_id := n\<rparr>) hist = buffered s hist"
  by (simp_all add: buffered_def Let_def)

text \<open>A send with a live receiver: the newest message is buffered and every parked receiver gets it.\<close>

lemma bsend_spec:
  assumes b: "buffered c hist" and "breceiver_count c \<noteq> 0" and "Suc (length hist) < u64_modulus"
    and w: "\<forall>w \<in> set (recv_waiters c). rw_next_seq w = length hist"
  obtains ready where "bsend c v = Some ((push_value c v)\<lparr>recv_waiters := []\<rparr>, ready, Ok (breceiver_count c))"
    and "mset ready = mset (map (\<lambda>w. (rw_handle w, Value v (Suc (length hist)))) (recv_waiters c))"
proof -
  have b': "buffered (push_value c v) (hist @ [v])" by (rule buffered_push [OF b assms(3)])
  have "0 < bcapacity c" using b by (simp add: buffered_def)
  then have "recv_outcome (push_value c v) (length hist) = Some (Some (Value v (Suc (length hist))))"
    by (subst recv_outcome_spec [OF b']) (auto simp: Let_def)
  then have "\<forall>x \<in> set (recv_waiters (push_value c v)).
      recv_outcome (push_value c v) (rw_next_seq x) = Some (Some (Value v (Suc (length hist))))"
    using w by simp
  then obtain ready where "wake_ready_receivers (push_value c v) = Some ((push_value c v)\<lparr>recv_waiters := []\<rparr>, ready)"
    and "mset ready = mset (map (\<lambda>w. (rw_handle w, Value v (Suc (length hist)))) (recv_waiters (push_value c v)))"
    by (rule wake_ready_receivers_all)
  then show thesis using assms(2) by (intro that) (simp_all add: bsend_def)
qed

lemma bdrop_last_sender_spec:
  assumes b: "buffered c hist" and "bsender_count c = 1"
    and w: "\<forall>w \<in> set (recv_waiters c). rw_next_seq w = length hist"
  obtains ready where "bdrop_sender c = Some (c\<lparr>bsender_count := 0, recv_waiters := []\<rparr>, ready)"
    and "mset ready = mset (map (\<lambda>w. (rw_handle w, ChannelClosed)) (recv_waiters c))"
proof -
  let ?c = "c\<lparr>bsender_count := 0\<rparr>"
  have b': "buffered ?c hist" using b by simp
  have "recv_outcome ?c (length hist) = Some (Some ChannelClosed)"
    by (subst recv_outcome_spec [OF b']) (auto simp: Let_def)
  then have "\<forall>x \<in> set (recv_waiters ?c). recv_outcome ?c (rw_next_seq x) = Some (Some ChannelClosed)"
    using w by simp
  then obtain ready where "wake_ready_receivers ?c = Some (?c\<lparr>recv_waiters := []\<rparr>, ready)"
    and "mset ready = mset (map (\<lambda>w. (rw_handle w, ChannelClosed)) (recv_waiters ?c))"
    by (rule wake_ready_receivers_all)
  then show thesis using assms(2) by (intro that) (simp_all add: bdrop_sender_def checked_sub_def)
qed

lemma outcome_ok_mono:
  "outcome_ok c hist n out \<Longrightarrow> 0 < bsender_count c \<Longrightarrow> outcome_ok c' (hist @ xs) n out"
  by (cases out) (auto simp: outcome_ok_def nth_append)

lemma receiver_ok_woken:
  assumes r: "receiver_ok c hist outs hs r" and w: "waiters_ok c (length hist) outs hs n"
    and ready: "set ready = (\<lambda>w. (rw_handle w, out)) ` set (recv_waiters c)"
    and out: "outcome_ok c' (hist @ xs) (length hist) out" and pos: "0 < bsender_count c"
  shows "receiver_ok c' (hist @ xs) (outs ++ map_of ready) hs r"
proof (cases "wait r")
  case None
  then show ?thesis using r by (simp add: receiver_ok_def)
next
  case (Some p)
  obtain h i where p: "p = (h, i)" by (rule prod.exhaust)
  note map_of = map_of_const [OF ready, of h]
  show ?thesis
  proof (cases "outs h")
    case None
    then obtain x where "x \<in> set (recv_waiters c)" "rw_handle x = h" "rw_next_seq x = cursor r"
      using r Some p by (auto simp: receiver_ok_def)
    then show ?thesis
      using r Some p map_of w out by (auto simp: receiver_ok_def waiters_ok_def map_add_def)
  next
    case (Some old)
    then have "h \<notin> rw_handle ` set (recv_waiters c)" using w by (auto simp: waiters_ok_def)
    then show ?thesis
      using r \<open>wait r = Some p\<close> p Some map_of outcome_ok_mono [OF _ pos]
      by (auto simp: receiver_ok_def map_add_def)
  qed
qed

lemma waiters_ok_woken:
  assumes "waiters_ok c len outs hs n" and "recv_waiters c' = []" and "next_recv_id c' = next_recv_id c"
  shows "waiters_ok c' len' outs' hs n"
  using assms by (simp add: waiters_ok_def)

lemma binvD:
  assumes "binv s"
  shows "buffered (bchan s) (history s)" "bsender_count (bchan s) = live_senders s"
    "breceiver_count (bchan s) = card (dom (receivers s) - dropping s)"
    "waiters_ok (bchan s) (length (history s)) (outcomes s) (handles s) (bregs s)"
    "receivers s i = Some r \<Longrightarrow> receiver_ok (bchan s) (history s) (outcomes s) (handles s) r"
    "receivers s i = Some r \<Longrightarrow> replay (history s) (fst (logs s i)) (snd (logs s i)) = Some (cursor r)"
    "finite (dom (receivers s))"
  using assms by (auto simp: binv_def)

lemma binv_woken:
  assumes s: "binv s" and pos: "0 < live_senders s"
    and ready: "set ready = (\<lambda>w. (rw_handle w, out)) ` set (recv_waiters (bchan s))"
    and out: "outcome_ok c (history s @ xs) (length (history s)) out"
    and c: "buffered c (history s @ xs)" "recv_waiters c = []" "next_recv_id c = next_recv_id (bchan s)"
      "breceiver_count c = breceiver_count (bchan s)" "bsender_count c = n"
  shows "binv (complete_waiters ready (s\<lparr>bchan := c, history := history s @ xs, live_senders := n\<rparr>))"
proof -
  note inv = binvD [OF s]
  have "fst ` set ready \<subseteq> handles s" using ready inv(4) by (auto simp: waiters_ok_def)
  then have "dom (outcomes s ++ map_of ready) \<subseteq> handles s"
    using s by (auto simp: binv_def dom_map_of_conv_image_fst)
  moreover have "receiver_ok c (history s @ xs) (outcomes s ++ map_of ready) (handles s) r \<and>
      replay (history s @ xs) (fst (logs s i)) (snd (logs s i)) = Some (cursor r)"
    if "receivers s i = Some r" for i r
    using receiver_ok_woken [OF inv(5) [OF that] inv(4) ready out] pos inv(2) replay_mono [OF inv(6) [OF that]]
    by simp
  moreover have "waiters_ok c (length (history s @ xs)) (outcomes s ++ map_of ready) (handles s) (bregs s)"
    by (rule waiters_ok_woken [OF inv(4) c(2,3)])
  ultimately show ?thesis
    using s c(1,4,5) by (simp add: binv_def complete_waiters_def)
qed

lemma binv_send:
  assumes s: "binv s" and pos: "0 < live_senders s" and small: "length (history s) + bregs s \<le> u64_modulus - 2"
    and e: "bsend (bchan s) v = Some (c, ready, r)"
  shows "binv (complete_waiters ready
       (s\<lparr>bchan := c, history := (case r of Inr _ \<Rightarrow> history s @ [v] | Inl _ \<Rightarrow> history s)\<rparr>))"
proof (cases "breceiver_count (bchan s) = 0")
  case True
  then have "c = bchan s" "ready = []" "r = Err v" using e by (auto simp: bsend_def)
  then show ?thesis using s by (simp add: complete_waiters_def binv_def)
next
  case False
  note inv = binvD [OF s]
  let ?out = "Value v (Suc (length (history s)))"
  have lt: "Suc (length (history s)) < u64_modulus" using small by (simp add: u64_modulus_def)
  have "\<forall>w \<in> set (recv_waiters (bchan s)). rw_next_seq w = length (history s)"
    using inv(4) by (simp add: waiters_ok_def)
  from bsend_spec [OF inv(1) False lt this, of v] obtain ready'
    where f: "bsend (bchan s) v = Some ((push_value (bchan s) v)\<lparr>recv_waiters := []\<rparr>, ready', Ok (breceiver_count (bchan s)))"
      and m: "mset ready' = mset (map (\<lambda>w. (rw_handle w, ?out)) (recv_waiters (bchan s)))" .
  have c: "c = (push_value (bchan s) v)\<lparr>recv_waiters := []\<rparr>" "ready = ready'" "r = Ok (breceiver_count (bchan s))"
    using e f by auto
  have ready: "set ready = (\<lambda>w. (rw_handle w, ?out)) ` set (recv_waiters (bchan s))"
    using arg_cong [OF m, of set_mset] c(2) by simp
  have "outcome_ok c (history s @ [v]) (length (history s)) ?out" by (simp add: outcome_ok_def)
  from binv_woken [OF s pos ready this] buffered_push [OF inv(1) lt, of v]
  have "binv (complete_waiters ready (s\<lparr>bchan := c, history := history s @ [v], live_senders := live_senders s\<rparr>))"
    using c(1) inv(2) by simp
  then show ?thesis using c(3) by simp
qed

lemma receiver_ok_sender_count:
  assumes "receiver_ok c hist outs hs r" and "0 < bsender_count c"
  shows "receiver_ok (c\<lparr>bsender_count := n\<rparr>) hist outs hs r"
proof -
  have "outcome_ok c hist (cursor r) out \<Longrightarrow> outcome_ok (c\<lparr>bsender_count := n\<rparr>) hist (cursor r) out" for out
    using outcome_ok_mono [OF _ assms(2), of hist "cursor r" out _ "[]"] by simp
  then show ?thesis using assms(1) by (auto simp: receiver_ok_def split: option.splits prod.splits)
qed

lemma binv_sender_count:
  assumes s: "binv s" and pos: "0 < live_senders s" "0 < n"
  shows "binv (s\<lparr>bchan := (bchan s)\<lparr>bsender_count := n\<rparr>, live_senders := n\<rparr>)"
proof -
  have "receiver_ok ((bchan s)\<lparr>bsender_count := n\<rparr>) (history s) (outcomes s) (handles s) r"
    if "receivers s i = Some r" for i r
    using receiver_ok_sender_count [OF binvD(5) [OF s that]] pos(1) binvD(2) [OF s] by simp
  then show ?thesis using s pos unfolding binv_def by (simp add: waiters_ok_def)
qed

lemma binv_drop_sender:
  assumes s: "binv s" and pos: "0 < live_senders s" and e: "bdrop_sender (bchan s) = Some (c, ready)"
  shows "binv (complete_waiters ready (s\<lparr>bchan := c, live_senders := live_senders s - 1\<rparr>))"
proof (cases "live_senders s = 1")
  case True
  note inv = binvD [OF s]
  have one: "bsender_count (bchan s) = 1" using inv(2) True by simp
  have "\<forall>w \<in> set (recv_waiters (bchan s)). rw_next_seq w = length (history s)"
    using inv(4) by (simp add: waiters_ok_def)
  from bdrop_last_sender_spec [OF inv(1) one this] obtain ready'
    where f: "bdrop_sender (bchan s) = Some ((bchan s)\<lparr>bsender_count := 0, recv_waiters := []\<rparr>, ready')"
      and m: "mset ready' = mset (map (\<lambda>w. (rw_handle w, ChannelClosed)) (recv_waiters (bchan s)))" .
  have c: "c = (bchan s)\<lparr>bsender_count := 0, recv_waiters := []\<rparr>" "ready = ready'" using e f by auto
  have ready: "set ready = (\<lambda>w. (rw_handle w, ChannelClosed)) ` set (recv_waiters (bchan s))"
    using arg_cong [OF m, of set_mset] c(2) by simp
  have "outcome_ok c (history s @ []) (length (history s)) ChannelClosed" by (simp add: outcome_ok_def c)
  from binv_woken [OF s pos ready this, of 0] inv(1) c(1)
  show ?thesis using True by simp
next
  case False
  then have "1 < bsender_count (bchan s)" using pos binvD(2) [OF s] by simp
  then have "c = (bchan s)\<lparr>bsender_count := bsender_count (bchan s) - 1\<rparr>" "ready = []"
    using e by (auto simp: bdrop_sender_def checked_sub_def split: if_splits)
  then show ?thesis
    using binv_sender_count [OF s pos, of "live_senders s - 1"] False pos binvD(2) [OF s]
    by (simp add: complete_waiters_def)
qed

lemma binv_subscribe:
  assumes s: "binv s" and i: "i \<notin> dom (receivers s)" and e: "bsubscribe (bchan s) = (c, n)"
  shows "binv (s\<lparr>bchan := c, receivers := (receivers s)(i \<mapsto> \<lparr>cursor = n, wait = None\<rparr>),
                 logs := (logs s)(i := (n, []))\<rparr>)"
proof -
  let ?r = "\<lparr>cursor = n, wait = None\<rparr>"
  have c: "c = (bchan s)\<lparr>breceiver_count := breceiver_count (bchan s) + 1\<rparr>" "n = length (history s)"
    using e bufferedD(1) [OF binvD(1) [OF s]] by (auto simp: bsubscribe_def)
  have "i \<notin> dropping s" using s i by (auto simp: binv_def)
  then have card: "card (insert i (dom (receivers s)) - dropping s) = Suc (card (dom (receivers s) - dropping s))"
    using i binvD(7) [OF s] by (simp add: insert_Diff_if)
  have ok: "receiver_ok c (history s) (outcomes s) (handles s) r =
      receiver_ok (bchan s) (history s) (outcomes s) (handles s) r" for r
    by (simp add: receiver_ok_def outcome_ok_def c(1) cong: option.case_cong brecv_outcome.case_cong)
  have "handles_inj ((receivers s)(i \<mapsto> ?r))"
    using s by (auto simp: binv_def handles_inj_def wait_handle_def)
  moreover have "receiver_ok c (history s) (outcomes s) (handles s) ?r" by (simp add: receiver_ok_def c(2))
  ultimately show ?thesis
    using s card ok c by (auto simp: binv_def waiters_ok_def)
qed

lemma binv_drop_receiver:
  assumes s: "binv s" and i: "receivers s i = Some r" "i \<notin> dropping s" and e: "bdrop_receiver (bchan s) = Some c"
  shows "binv (s\<lparr>bchan := c, dropping := insert i (dropping s)\<rparr>)"
proof -
  have c: "c = (bchan s)\<lparr>breceiver_count := breceiver_count (bchan s) - 1\<rparr>"
    using e by (auto simp: bdrop_receiver_def checked_sub_def split: if_splits)
  have "i \<in> dom (receivers s) - dropping s" using i by auto
  then have card: "card (dom (receivers s) - insert i (dropping s)) = card (dom (receivers s) - dropping s) - 1"
    using binvD(7) [OF s] by (metis Diff_insert card_Diff_singleton)
  have ok: "receiver_ok c (history s) (outcomes s) (handles s) r =
      receiver_ok (bchan s) (history s) (outcomes s) (handles s) r" for r
    by (simp add: receiver_ok_def outcome_ok_def c cong: option.case_cong brecv_outcome.case_cong)
  show ?thesis
    using s card ok c i(1) by (auto simp: binv_def waiters_ok_def)
qed

lemma bremove_waiter_spec:
  assumes "distinct (map rw_id (recv_waiters c))"
  obtains ws where "bremove_waiter c i = c\<lparr>recv_waiters := ws\<rparr>"
    and "mset ws = filter_mset (\<lambda>w. rw_id w \<noteq> i) (mset (recv_waiters c))"
proof (cases "position (\<lambda>w. rw_id w = i) (recv_waiters c)")
  case None
  then have "filter_mset (\<lambda>w. rw_id w \<noteq> i) (mset (recv_waiters c)) = mset (recv_waiters c)"
    by (auto simp: position_None_iff filter_mset_eq_conv)
  then show thesis using that [of "recv_waiters c"] None by (simp add: bremove_waiter_def)
next
  case (Some k)
  from mset_swap_remove_key [OF assms Some]
  show thesis using that [of "swap_remove k (recv_waiters c)"] Some by (simp add: bremove_waiter_def)
qed

lemma waiters_ok_filter:
  assumes "waiters_ok c len outs hs n" and "mset ws = filter_mset P (mset (recv_waiters c))"
  shows "waiters_ok (c\<lparr>recv_waiters := ws\<rparr>) len outs hs n"
  using assms(1) distinct_map_mset_filter [OF assms(2)] by (auto simp: waiters_ok_def)

text \<open>Cancelling one parked receiver leaves the others parked.\<close>

lemma receiver_ok_cancel:
  assumes w: "waiters_ok c (length hist) outs hs n"
    and r: "receiver_ok c hist outs hs r" "wait r = Some (h, i)" "outs h = None"
    and r': "receiver_ok c hist outs hs r'" "wait_handle r' \<noteq> Some h"
    and ws: "set ws = {w \<in> set (recv_waiters c). rw_id w \<noteq> i}"
  shows "receiver_ok (c\<lparr>recv_waiters := ws\<rparr>) hist outs hs r'"
proof (cases "wait r'")
  case None
  then show ?thesis using r'(1) by (simp add: receiver_ok_def)
next
  case (Some q)
  obtain h' i' where q: "q = (h', i')" by (rule prod.exhaust)
  obtain x where x: "x \<in> set (recv_waiters c)" "rw_handle x = h" "rw_id x = i"
    using r by (auto simp: receiver_ok_def)
  have "rw_id y \<noteq> i" if "y \<in> set (recv_waiters c)" "rw_handle y = h'" for y
  proof
    assume "rw_id y = i"
    moreover have "distinct (map rw_id (recv_waiters c))" using w by (simp add: waiters_ok_def)
    ultimately have "y = x" using distinct_map_eqD that(1) x(1,3) by metis
    then show False using that(2) x(2) r'(2) Some q by (simp add: wait_handle_def)
  qed
  then have keep: "\<exists>w \<in> set ws. rw_handle w = h' \<and> rw_id w = i' \<and> rw_next_seq w = cursor r'"
    if "\<exists>w \<in> set (recv_waiters c). rw_handle w = h' \<and> rw_id w = i' \<and> rw_next_seq w = cursor r'"
    using that ws by blast
  have out: "outcome_ok (c\<lparr>recv_waiters := ws\<rparr>) hist k out = outcome_ok c hist k out" for k out
    by (cases out) (simp_all add: outcome_ok_def)
  show ?thesis
    using r'(1) Some q keep by (cases "outs h'") (simp_all add: receiver_ok_def out)
qed

lemma binv_drop_wait:
  assumes s: "binv s" and i: "receivers s i = Some r" "i \<in> dropping s"
  shows "binv (s\<lparr>bchan := bcancel (bchan s) (outcomes s) r, receivers := (receivers s)(i := None),
                 dropping := dropping s - {i}\<rparr>)"
proof -
  note inv = binvD [OF s]
  obtain ws where c: "bcancel (bchan s) (outcomes s) r = (bchan s)\<lparr>recv_waiters := ws\<rparr>"
    and wok: "waiters_ok ((bchan s)\<lparr>recv_waiters := ws\<rparr>) (length (history s)) (outcomes s) (handles s) (bregs s)"
    and rok: "\<And>j r'. j \<noteq> i \<Longrightarrow> receivers s j = Some r' \<Longrightarrow>
      receiver_ok ((bchan s)\<lparr>recv_waiters := ws\<rparr>) (history s) (outcomes s) (handles s) r'"
  proof (cases "\<exists>h k. wait r = Some (h, k) \<and> outcomes s h = None")
    case True
    then obtain h k where hk: "wait r = Some (h, k)" "outcomes s h = None" by blast
    have d: "distinct (map rw_id (recv_waiters (bchan s)))" using inv(4) by (simp add: waiters_ok_def)
    obtain ws where ws: "bremove_waiter (bchan s) k = (bchan s)\<lparr>recv_waiters := ws\<rparr>"
      "mset ws = filter_mset (\<lambda>w. rw_id w \<noteq> k) (mset (recv_waiters (bchan s)))"
      by (rule bremove_waiter_spec [OF d])
    have set: "set ws = {w \<in> set (recv_waiters (bchan s)). rw_id w \<noteq> k}"
      using arg_cong [OF ws(2), of set_mset] by auto
    show thesis
    proof (rule that)
      show "bcancel (bchan s) (outcomes s) r = (bchan s)\<lparr>recv_waiters := ws\<rparr>"
        using hk ws(1) by (simp add: bcancel_def)
      show "waiters_ok ((bchan s)\<lparr>recv_waiters := ws\<rparr>) (length (history s)) (outcomes s) (handles s) (bregs s)"
        by (rule waiters_ok_filter [OF inv(4) ws(2)])
      fix j r' assume j: "j \<noteq> i" "receivers s j = Some r'"
      have "wait_handle r' \<noteq> Some h"
        using s i(1) j hk(1) by (auto simp: binv_def handles_inj_def wait_handle_def)
      then show "receiver_ok ((bchan s)\<lparr>recv_waiters := ws\<rparr>) (history s) (outcomes s) (handles s) r'"
        by (rule receiver_ok_cancel [OF inv(4) inv(5) [OF i(1)] hk inv(5) [OF j(2)] _ set])
    qed
  next
    case False
    then have "bcancel (bchan s) (outcomes s) r = (bchan s)\<lparr>recv_waiters := recv_waiters (bchan s)\<rparr>"
      by (auto simp: bcancel_def split: option.splits)
    then show thesis by (rule that) (simp_all add: inv(4,5))
  qed
  have "dom ((receivers s)(i := None)) - (dropping s - {i}) = dom (receivers s) - dropping s"
    using i by auto
  moreover have "handles_inj ((receivers s)(i := None))"
    using s by (auto simp: binv_def handles_inj_def split: if_splits)
  ultimately show ?thesis
    using s wok rok unfolding binv_def c by auto
qed

lemma receiver_ok_handles: "receiver_ok c hist outs hs r \<Longrightarrow> receiver_ok c hist outs (insert h hs) r"
  by (auto simp: receiver_ok_def split: option.splits)

lemma waiters_ok_handles: "waiters_ok c len outs hs n \<Longrightarrow> waiters_ok c len outs (insert h hs) n"
  by (auto simp: waiters_ok_def)

lemma binv_update_receiver:
  assumes s: "binv s" and i: "receivers s i = Some r" "i \<notin> dropping s"
    and r': "receiver_ok (bchan s) (history s) (outcomes s) (handles s) r'" "wait r' = None \<or> wait r' = wait r"
    and log: "replay (history s) (fst l) (snd l) = Some (cursor r')"
  shows "binv (s\<lparr>receivers := (receivers s)(i \<mapsto> r'), handles := insert h (handles s), logs := (logs s)(i := l)\<rparr>)"
proof -
  have "insert i (dom (receivers s)) = dom (receivers s)" using i(1) by auto
  moreover have "handles_inj ((receivers s)(i \<mapsto> r'))"
    using s i(1) r'(2) unfolding binv_def handles_inj_def wait_handle_def
    by (auto split: if_splits) metis+
  ultimately show ?thesis
    using s r'(1) log unfolding binv_def
    by (auto intro: receiver_ok_handles waiters_ok_handles)
qed

lemma outcome_ok_recv:
  assumes "buffered c hist" and "n \<le> length hist" and "recv_outcome c n = Some (Some out)"
  shows "outcome_ok c hist n out"
  using assms(3) recv_outcome_spec [OF assms(1,2)] assms(2)
  by (auto simp: outcome_ok_def Let_def split: if_splits)

lemma binv_park:
  assumes s: "binv s" and i: "receivers s i = Some r" "i \<notin> dropping s" and h: "h \<notin> handles s"
    and small: "bregs s \<le> u64_modulus - 2" and w: "wait r = None"
    and e: "recv_outcome (bchan s) (cursor r) = Some None" "enqueue_waiter (bchan s) (cursor r) h = (c, k)"
  shows "binv (s\<lparr>bchan := c, receivers := (receivers s)(i \<mapsto> r\<lparr>wait := Some (h, k)\<rparr>),
                 handles := insert h (handles s), logs := (logs s)(i := logs s i), bregs := Suc (bregs s)\<rparr>)"
proof -
  note inv = binvD [OF s]
  let ?w = "\<lparr>rw_id = k, rw_next_seq = cursor r, rw_handle = h\<rparr>"
  have le: "cursor r \<le> length (history s)" using inv(5) [OF i(1)] by (simp add: receiver_ok_def)
  have at_end: "cursor r = length (history s)" "bsender_count (bchan s) \<noteq> 0"
    using e(1) recv_outcome_spec [OF inv(1) le] le by (auto simp: Let_def split: if_splits)
  have k: "k = Suc (bregs s)"
    using e(2) inv(4) small by (auto simp: enqueue_waiter_def waiters_ok_def u64_modulus_def)
  have c: "c = (bchan s)\<lparr>next_recv_id := wrapping_succ (next_recv_id (bchan s)),
      recv_waiters := recv_waiters (bchan s) @ [?w]\<rparr>"
    using e(2) by (auto simp: enqueue_waiter_def)
  have dom: "dom (outcomes s) \<subseteq> handles s" using s by (simp add: binv_def)
  then have none: "outcomes s h = None" using h by auto
  have "Suc (Suc (bregs s) mod u64_modulus) mod u64_modulus = Suc (Suc (bregs s)) mod u64_modulus"
    by (simp add: mod_Suc_eq)
  moreover have "h \<notin> rw_handle ` set (recv_waiters (bchan s))" "k \<notin> rw_id ` set (recv_waiters (bchan s))"
    using inv(4) h k by (auto simp: waiters_ok_def)
  ultimately have wok: "waiters_ok c (length (history s)) (outcomes s) (insert h (handles s)) (Suc (bregs s))"
    using inv(4) at_end none k by (auto simp: waiters_ok_def c wrapping_succ_def)
  have out: "outcome_ok c hist m out = outcome_ok (bchan s) hist m out" for hist m out
    by (cases out) (simp_all add: outcome_ok_def c)
  have ws: "set (recv_waiters c) = insert ?w (set (recv_waiters (bchan s)))" by (simp add: c)
  have rok: "receiver_ok c (history s) (outcomes s) (insert h (handles s)) r'"
    if "receivers s j = Some r'" for j r'
    using inv(5) [OF that] by (auto simp: receiver_ok_def out ws split: option.splits)
  have new: "receiver_ok c (history s) (outcomes s) (insert h (handles s)) (r\<lparr>wait := Some (h, k)\<rparr>)"
    using none le by (simp add: receiver_ok_def c)
  have old: "wait_handle r' \<noteq> Some h" if "receivers s j = Some r'" for j r'
    using inv(5) [OF that] h by (auto simp: receiver_ok_def wait_handle_def)
  have inj: "handles_inj ((receivers s)(i \<mapsto> r\<lparr>wait := Some (h, k)\<rparr>))"
    using s old unfolding binv_def handles_inj_def
    by (auto simp: wait_handle_def split: if_splits)
  have "insert i (dom (receivers s)) = dom (receivers s)" using i(1) by auto
  moreover have "buffered c (history s)" "bsender_count c = bsender_count (bchan s)"
    "breceiver_count c = breceiver_count (bchan s)" using inv(1) by (simp_all add: c)
  ultimately show ?thesis
    using s wok rok new inj dom inv(6) [OF i(1)] unfolding binv_def by auto
qed

lemma binv_poll:
  assumes s: "binv s" and small: "length (history s) + bregs s \<le> u64_modulus - 2"
    and i: "receivers s i = Some r" "i \<notin> dropping s" and h: "h \<notin> handles s"
    and e: "bpoll_recv (outcomes s) (bchan s) r h = Some (c, r', p)"
  shows "binv (s\<lparr>bchan := c, receivers := (receivers s)(i \<mapsto> r'), handles := insert h (handles s),
                   logs := (logs s)(i := log_poll (logs s i) p),
                   bregs := (if wait r = None \<and> wait r' \<noteq> None then Suc (bregs s) else bregs s)\<rparr>)"
proof -
  note inv = binvD [OF s] and rok = binvD(5) [OF s i(1)] and log = binvD(6) [OF s i(1)]
  have le: "cursor r \<le> length (history s)" using rok by (simp add: receiver_ok_def)
  have finished: ?thesis
    if out: "outcome_ok (bchan s) (history s) (cursor r) out" and a: "apply_outcome (cursor r) out = (n, res)"
      and r': "c = bchan s" "r' = r\<lparr>wait := None, cursor := n\<rparr>" "p = Ready res" for out n res
  proof -
    note n = outcome_ok_replay [OF out a]
    have "receiver_ok (bchan s) (history s) (outcomes s) (handles s) r'"
      using n le by (simp add: receiver_ok_def r')
    moreover have "replay (history s) (fst (log_poll (logs s i) p)) (snd (log_poll (logs s i) p)) = Some (cursor r')"
      using n log by (simp add: log_poll_def r' replay_append)
    ultimately show ?thesis
      using binv_update_receiver [OF s i, of r' "log_poll (logs s i) p" h] r' by simp
  qed
  show ?thesis
  proof (cases "wait r")
    case (Some q)
    obtain g k where q: "q = (g, k)" by (rule prod.exhaust)
    show ?thesis
    proof (cases "outcomes s g")
      case None
      then have "c = bchan s" "r' = r" "p = Pending" using e Some q by (auto simp: bpoll_recv_def)
      then show ?thesis
        using binv_update_receiver [OF s i rok _ log, of h] Some by (simp add: log_poll_def)
    next
      case (Some out)
      obtain n res where a: "apply_outcome (cursor r) out = (n, res)" by (rule prod.exhaust)
      have "outcome_ok (bchan s) (history s) (cursor r) out"
        using rok \<open>wait r = Some q\<close> q Some by (simp add: receiver_ok_def)
      then show ?thesis
        using a e \<open>wait r = Some q\<close> q Some by (intro finished) (auto simp: bpoll_recv_def)
    qed
  next
    case None
    obtain now where now: "recv_outcome (bchan s) (cursor r) = Some now"
      using recv_outcome_spec [OF inv(1) le] by blast
    show ?thesis
    proof (cases now)
      case None
      obtain c' k where q: "enqueue_waiter (bchan s) (cursor r) h = (c', k)" by (rule prod.exhaust)
      have "c = c'" "r' = r\<lparr>wait := Some (h, k)\<rparr>" "p = Pending"
        using e \<open>wait r = None\<close> now None q by (auto simp: bpoll_recv_def)
      then show ?thesis
        using binv_park [OF s i h _ \<open>wait r = None\<close> _ q] small now None \<open>wait r = None\<close>
        by (simp add: log_poll_def)
    next
      case (Some out)
      obtain n res where a: "apply_outcome (cursor r) out = (n, res)" by (rule prod.exhaust)
      have "outcome_ok (bchan s) (history s) (cursor r) out"
        using outcome_ok_recv [OF inv(1) le] now Some by simp
      moreover have "r\<lparr>cursor := n\<rparr> = r\<lparr>wait := None, cursor := n\<rparr>" using None by (cases r) simp
      ultimately show ?thesis
        using a e None now Some by (intro finished) (auto simp: bpoll_recv_def)
    qed
  qed
qed

interpretation broadcasts: bounded_system binit bstep "\<lambda>s. length (history s) + bregs s" "u64_modulus - 2" binv
proof
  show "binv s" if "binit s" for s :: "'v bsys"
    using that
    by (auto simp: binit_def broadcast_new_def binv_def buffered_def waiters_ok_def receiver_ok_def
        handles_inj_def wait_handle_def u64_modulus_def split: if_splits)
  show "length (history s) + bregs s \<le> length (history t) + bregs t" if "bstep s l t" for s t :: "'v bsys" and l
    using that by (rule bstepE) (auto simp: complete_waiters_def split: sum.splits)
  show "binv t" if s: "binv s" and "bstep s l t" and small: "length (history s) + bregs s \<le> u64_modulus - 2"
    for s t :: "'v bsys" and l
    using that(2)
  proof cases
    case b_clone
    then show ?thesis
      using binv_sender_count [OF s, of "Suc (live_senders s)"] binvD(2) [OF s] by (simp add: bclone_sender_def)
  next
    case b_send
    then show ?thesis by (simp only:) (rule binv_send [OF s _ small])
  next
    case b_drop_sender
    then show ?thesis by (simp only:) (rule binv_drop_sender [OF s])
  next
    case b_subscribe
    then show ?thesis by (simp only:) (rule binv_subscribe [OF s])
  next
    case b_poll
    then show ?thesis by (simp only:) (rule binv_poll [OF s small])
  next
    case b_drop_receiver
    then show ?thesis by (simp only:) (rule binv_drop_receiver [OF s])
  next
    case b_drop_wait
    then show ?thesis by (simp only:) (rule binv_drop_wait [OF s])
  qed
qed

subsection \<open>A channel of capacity one with a parked receiver\<close>

definition bdemo_start :: "nat bsys" where
  "bdemo_start =
     \<lparr>bchan = \<lparr>buffer = [], bcapacity = 1, next_seq = 0, bsender_count = 1, breceiver_count = 1,
               recv_waiters = [], next_recv_id = 1\<rparr>,
      history = [], live_senders = 1, receivers = [0 \<mapsto> \<lparr>cursor = 0, wait = None\<rparr>], dropping = {},
      outcomes = Map.empty, handles = {}, logs = (\<lambda>_. (0, [])), bregs = 0\<rparr>"

definition bdemo_parked :: "nat bsys" where
  "bdemo_parked = bdemo_start
     \<lparr>bchan := (bchan bdemo_start)\<lparr>recv_waiters := [\<lparr>rw_id = 1, rw_next_seq = 0, rw_handle = 4\<rparr>], next_recv_id := 2\<rparr>,
      receivers := [0 \<mapsto> \<lparr>cursor = 0, wait = Some (4, 1)\<rparr>], handles := {4}, bregs := 1\<rparr>"

lemma bdemo_init: "binit bdemo_start"
  unfolding binit_def by (rule exI [of _ 1]) (simp add: bdemo_start_def broadcast_new_def)

lemma bdemo_run: "run bstep bdemo_start [[]] bdemo_parked"
proof (rule run_single)
  have e: "bpoll_recv (outcomes bdemo_start) (bchan bdemo_start) \<lparr>cursor = 0, wait = None\<rparr> 4 =
      Some (bchan bdemo_parked, \<lparr>cursor = 0, wait = Some (4, 1)\<rparr>, Pending)"
    by (simp add: bpoll_recv_def bdemo_parked_def bdemo_start_def recv_outcome_def oldest_seq_def
        enqueue_waiter_def wrapping_succ_def u64_modulus_def)
  have "bstep bdemo_start [] (bdemo_start\<lparr>bchan := bchan bdemo_parked,
      receivers := (receivers bdemo_start)(0 \<mapsto> \<lparr>cursor = 0, wait = Some (4, 1)\<rparr>),
      handles := insert 4 (handles bdemo_start),
      logs := (logs bdemo_start)(0 := log_poll (logs bdemo_start 0) Pending), bregs := 1\<rparr>)"
    using b_poll [OF _ _ _ e, of 0] by (simp add: bdemo_start_def)
  then show "bstep bdemo_start [] bdemo_parked"
    by (simp add: bdemo_parked_def bdemo_start_def log_poll_def fun_upd_idem)
qed

subsection \<open>Properties\<close>

text \<open>(C21) Gap-free delivery. What a receiver's polls returned is exactly the history from its
  subscription to its cursor, each message once and in order, apart from the runs that its lag errors
  count. The next receive then yields the oldest retained message's position and the exact number of
  overwritten messages if the cursor fell out of the last \<open>capacity\<close> messages, the message at the
  cursor if there is one, \<open>Closed\<close> only when everything was read and no sender is left, and otherwise
  parks.\<close>

theorem broadcast_gap_free:
  assumes "binit s" and "run bstep s ls t" and "length (history t) + bregs t \<le> u64_modulus - 2"
    and "receivers t i = Some r"
  shows "replay (history t) (fst (logs t i)) (snd (logs t i)) = Some (cursor r) \<and>
    recv_outcome (bchan t) (cursor r) =
      Some (let len = length (history t); old = len - min (bcapacity (bchan t)) len in
        if cursor r < old then Some (Lagged (old - cursor r) old)
        else if cursor r < len then Some (Value (history t ! cursor r) (Suc (cursor r)))
        else if live_senders t = 0 then Some ChannelClosed else None)"
proof -
  have inv: "binv t" using broadcasts.inv_reachable assms(1-3) by blast
  have "cursor r \<le> length (history t)" using binvD(5) [OF inv assms(4)] by (simp add: receiver_ok_def)
  from recv_outcome_spec [OF binvD(1) [OF inv] this] binvD(6) [OF inv assms(4)]
  show ?thesis unfolding Let_def binvD(2) [OF inv] by simp
qed

theorem broadcast_gap_free_witness:
  "recv_outcome (bchan bdemo_parked) 0 = Some None \<and> replay (history bdemo_parked) 0 [] = Some 0"
proof -
  have "length (history bdemo_parked) + bregs bdemo_parked \<le> u64_modulus - 2"
    by (simp add: bdemo_parked_def bdemo_start_def u64_modulus_def)
  from broadcast_gap_free [OF bdemo_init bdemo_run this, of 0 "\<lparr>cursor = 0, wait = Some (4, 1)\<rparr>"]
  show ?thesis by (simp add: bdemo_parked_def bdemo_start_def)
qed

text \<open>A send reaches every parked receiver. While a receiver lives, a send returns the number of
  live receivers, leaves no waiter registered and hands the message, at the receiver's own cursor,
  to each receiver that was parked, once.\<close>

theorem broadcast_send_wakes_parked:
  assumes "binit s" and "run bstep s ls t" and "length (history t) + bregs t \<le> u64_modulus - 2"
    and "dom (receivers t) - dropping t \<noteq> {}"
  shows "\<exists>c ready. bsend (bchan t) v = Some (c, ready, Ok (card (dom (receivers t) - dropping t))) \<and>
    recv_waiters c = [] \<and> distinct (map fst ready) \<and>
    (\<forall>i r h k. receivers t i = Some r \<and> wait r = Some (h, k) \<and> outcomes t h = None \<longrightarrow>
       (h, Value v (Suc (cursor r))) \<in> set ready)"
proof -
  have inv: "binv t" using broadcasts.inv_reachable assms(1-3) by blast
  note w = binvD(4) [OF inv]
  have pos: "breceiver_count (bchan t) \<noteq> 0"
    using assms(4) binvD(3,7) [OF inv] by simp
  have lt: "Suc (length (history t)) < u64_modulus" using assms(3) by (simp add: u64_modulus_def)
  have "\<forall>w \<in> set (recv_waiters (bchan t)). rw_next_seq w = length (history t)"
    using w by (simp add: waiters_ok_def)
  from bsend_spec [OF binvD(1) [OF inv] pos lt this, of v] obtain ready
    where f: "bsend (bchan t) v = Some ((push_value (bchan t) v)\<lparr>recv_waiters := []\<rparr>, ready, Ok (breceiver_count (bchan t)))"
      and m: "mset ready = mset (map (\<lambda>w. (rw_handle w, Value v (Suc (length (history t))))) (recv_waiters (bchan t)))" .
  have "mset (map fst ready) = mset (map rw_handle (recv_waiters (bchan t)))"
    using m by (simp add: image_mset.compositionality comp_def)
  then have "distinct (map fst ready) = distinct (map rw_handle (recv_waiters (bchan t)))"
    by (rule mset_eq_imp_distinct_iff)
  then have "distinct (map fst ready)" using w by (simp add: waiters_ok_def)
  moreover have "(h, Value v (Suc (cursor r))) \<in> set ready"
    if a: "receivers t i = Some r" "wait r = Some (h, k)" "outcomes t h = None" for i r h k
  proof -
    obtain x where "x \<in> set (recv_waiters (bchan t))" "rw_handle x = h" "rw_next_seq x = cursor r"
      using binvD(5) [OF inv a(1)] a(2,3) by (auto simp: receiver_ok_def)
    then show ?thesis using mset_eq_setD [OF m] w by (auto simp: waiters_ok_def)
  qed
  ultimately show ?thesis using f binvD(3) [OF inv] by auto
qed

theorem broadcast_send_wakes_parked_witness:
  "\<exists>c ready. bsend (bchan bdemo_parked) 7 = Some (c, ready, Ok 1) \<and> (4, Value 7 1) \<in> set ready"
proof -
  have "length (history bdemo_parked) + bregs bdemo_parked \<le> u64_modulus - 2"
    "dom (receivers bdemo_parked) - dropping bdemo_parked \<noteq> {}"
    by (simp_all add: bdemo_parked_def bdemo_start_def u64_modulus_def)
  from broadcast_send_wakes_parked [OF bdemo_init bdemo_run this, of 7] obtain c ready where
    "bsend (bchan bdemo_parked) 7 = Some (c, ready, Ok (card (dom (receivers bdemo_parked) - dropping bdemo_parked)))"
    and "\<forall>i r h k. receivers bdemo_parked i = Some r \<and> wait r = Some (h, k) \<and> outcomes bdemo_parked h = None \<longrightarrow>
       (h, Value 7 (Suc (cursor r))) \<in> set ready" by blast
  moreover from this(2) [rule_format, of 0 "\<lparr>cursor = 0, wait = Some (4, 1)\<rparr>" 4 1]
  have "(4, Value 7 1) \<in> set ready" by (simp add: bdemo_parked_def bdemo_start_def)
  ultimately show ?thesis by (simp add: bdemo_parked_def bdemo_start_def)
qed

text \<open>No panic. The \<open>expect\<close>s of the channel never fire: with a live sender neither a send nor
  the sender's drop panics, and with a live receiver neither its poll nor its drop does.\<close>

theorem broadcast_no_panic:
  assumes "binit s" and "run bstep s ls t" and "length (history t) + bregs t \<le> u64_modulus - 2"
  shows "bsend (bchan t) v \<noteq> None \<and> (0 < live_senders t \<longrightarrow> bdrop_sender (bchan t) \<noteq> None) \<and>
    (\<forall>i r h. receivers t i = Some r \<longrightarrow>
       bpoll_recv (outcomes t) (bchan t) r h \<noteq> None \<and> (i \<notin> dropping t \<longrightarrow> bdrop_receiver (bchan t) \<noteq> None))"
proof (intro conjI allI impI)
  have inv: "binv t" using broadcasts.inv_reachable assms(1-3) by blast
  have w: "\<forall>w \<in> set (recv_waiters (bchan t)). rw_next_seq w = length (history t)"
    using binvD(4) [OF inv] by (simp add: waiters_ok_def)
  have lt: "Suc (length (history t)) < u64_modulus" using assms(3) by (simp add: u64_modulus_def)
  show "bsend (bchan t) v \<noteq> None"
  proof (cases "breceiver_count (bchan t) = 0")
    case False
    from bsend_spec [OF binvD(1) [OF inv] this lt w, of v] show ?thesis by fastforce
  qed (simp add: bsend_def)
  show "bdrop_sender (bchan t) \<noteq> None" if "0 < live_senders t"
  proof (cases "bsender_count (bchan t) = 1")
    case True
    from bdrop_last_sender_spec [OF binvD(1) [OF inv] this w] show ?thesis by fastforce
  qed (use that binvD(2) [OF inv] in \<open>auto simp: bdrop_sender_def checked_sub_def\<close>)
  show "bpoll_recv (outcomes t) (bchan t) r h \<noteq> None" if a: "receivers t i = Some r" for i r h
  proof -
    have "cursor r \<le> length (history t)" using binvD(5) [OF inv a] by (simp add: receiver_ok_def)
    from recv_outcome_spec [OF binvD(1) [OF inv] this] show ?thesis
      by (auto simp: bpoll_recv_def Let_def split: option.splits prod.splits)
  qed
  show "bdrop_receiver (bchan t) \<noteq> None" if "receivers t i = Some r" "i \<notin> dropping t" for i r
  proof -
    have "dom (receivers t) - dropping t \<noteq> {}" using that by auto
    then have "0 < breceiver_count (bchan t)" using binvD(3,7) [OF inv] by (simp add: card_gt_0_iff)
    then show ?thesis by (simp add: bdrop_receiver_def checked_sub_def)
  qed
qed

theorem broadcast_no_panic_witness:
  "bsend (bchan bdemo_parked) 7 \<noteq> None \<and> bdrop_sender (bchan bdemo_parked) \<noteq> None"
proof -
  have "length (history bdemo_parked) + bregs bdemo_parked \<le> u64_modulus - 2"
    by (simp add: bdemo_parked_def bdemo_start_def u64_modulus_def)
  moreover have "0 < live_senders bdemo_parked" by (simp add: bdemo_parked_def bdemo_start_def)
  ultimately show ?thesis using broadcast_no_panic [OF bdemo_init bdemo_run, of 7] by blast
qed

end
