(* ===== verification/Oneshot.thy ===== *)
theory Oneshot
  imports Transition
begin

text \<open>
  \<open>src/channel/oneshot.rs\<close>: the single-value channel. Its critical sections are functions of the shared
  \<open>State\<close>; the interleaving system lets the sender's completion and the receiver's two-part poll be
  separated by the other side's steps, as they are in the code, where each takes the lock anew.
\<close>

subsection \<open>State and critical sections\<close>

record 'v oneshot =
  slot :: "'v option"
  sender_alive :: bool
  receiver_closed :: bool
  owaiter :: "nat option"

record oreceiver =
  consumed :: bool
  owait :: "nat option"

datatype otry_recv_error = OEmpty | OClosed

definition oneshot_channel :: "'v oneshot \<times> oreceiver" where
  "oneshot_channel =
     (\<lparr>slot = None, sender_alive = True, receiver_closed = False, owaiter = None\<rparr>,
      \<lparr>consumed = False, owait = None\<rparr>)"

text \<open>\<open>Sender::send\<close> up to the end of its critical section: the waiter to complete and the result.\<close>

definition osend :: "'v oneshot \<Rightarrow> 'v \<Rightarrow> 'v oneshot \<times> nat option \<times> ('v, unit) result" where
  "osend s v =
     (let s = s\<lparr>sender_alive := False\<rparr> in
      if receiver_closed s then (s, None, Err v)
      else (s\<lparr>slot := Some v, owaiter := None\<rparr>, owaiter s, Ok ()))"

definition odrop_sender :: "'v oneshot \<Rightarrow> 'v oneshot \<times> nat option" where
  "odrop_sender s =
     (if \<not> sender_alive s then (s, None)
      else let s = s\<lparr>sender_alive := False\<rparr> in
        if slot s = None then (s\<lparr>owaiter := None\<rparr>, owaiter s) else (s, None))"

definition osender_is_closed :: "'v oneshot \<Rightarrow> bool" where
  "osender_is_closed s = receiver_closed s"

definition oreceiver_is_closed :: "'v oneshot \<Rightarrow> bool" where
  "oreceiver_is_closed s = (receiver_closed s \<or> \<not> sender_alive s)"

definition oclose :: "'v oneshot \<Rightarrow> 'v oneshot \<times> nat option" where
  "oclose s = (s\<lparr>receiver_closed := True, owaiter := None\<rparr>, owaiter s)"

definition odrop_receiver :: "'v oneshot \<Rightarrow> 'v oneshot" where
  "odrop_receiver s = s\<lparr>receiver_closed := True, owaiter := None\<rparr>"

text \<open>Dropping the readiness future runs the cancel callback unless the future was completed.\<close>

definition ocancel :: "nat set \<Rightarrow> 'v oneshot \<Rightarrow> oreceiver \<Rightarrow> 'v oneshot" where
  "ocancel done s r =
     (case owait r of Some h \<Rightarrow> if h \<in> done then s else s\<lparr>owaiter := None\<rparr> | None \<Rightarrow> s)"

definition otry_recv ::
  "nat set \<Rightarrow> 'v oneshot \<Rightarrow> oreceiver \<Rightarrow> 'v oneshot \<times> oreceiver \<times> (otry_recv_error, 'v) result" where
  "otry_recv done s r =
     (if consumed r then (s, r, Err OClosed)
      else case slot s of
        Some v \<Rightarrow> (ocancel done (s\<lparr>slot := None\<rparr>) r, r\<lparr>owait := None, consumed := True\<rparr>, Ok v)
      | None \<Rightarrow>
          if receiver_closed s \<or> \<not> sender_alive s
          then (ocancel done s r, r\<lparr>owait := None, consumed := True\<rparr>, Err OClosed)
          else (s, r, Err OEmpty))"

text \<open>\<open>poll_recv\<close> up to the end of its first critical section: a result, or \<open>None\<close> when the poll goes on
  to register, and from there to the end of the second one, whose assertion may panic; the flag says
  that the new future is completed at once. The code then polls again.\<close>

definition opoll_start ::
  "nat set \<Rightarrow> 'v oneshot \<Rightarrow> oreceiver \<Rightarrow> 'v oneshot \<times> oreceiver \<times> (unit, 'v) result poll option" where
  "opoll_start done s r =
     (if consumed r then (s, r, Some (Ready (Err ())))
      else if (case owait r of Some h \<Rightarrow> h \<notin> done | None \<Rightarrow> False) then (s, r, Some Pending)
      else let r = r\<lparr>owait := None\<rparr> in
        case slot s of
          Some v \<Rightarrow> (s\<lparr>slot := None\<rparr>, r\<lparr>consumed := True\<rparr>, Some (Ready (Ok v)))
        | None \<Rightarrow>
            if receiver_closed s \<or> \<not> sender_alive s then (s, r\<lparr>consumed := True\<rparr>, Some (Ready (Err ())))
            else (s, r, None))"

definition opoll_register :: "'v oneshot \<Rightarrow> oreceiver \<Rightarrow> nat \<Rightarrow> ('v oneshot \<times> oreceiver \<times> bool) panics" where
  "opoll_register s r h =
     (if slot s \<noteq> None \<or> receiver_closed s \<or> \<not> sender_alive s then Some (s, r\<lparr>owait := Some h\<rparr>, True)
      else if owaiter s = None then Some (s\<lparr>owaiter := Some h\<rparr>, r\<lparr>owait := Some h\<rparr>, False)
      else panic)"

subsection \<open>Interleavings\<close>

text \<open>\<open>in_flight\<close> holds a waiter taken out of the state whose \<open>complete\<close> has not run; \<open>delivered\<close> is what the
  receiver got, \<open>accepted\<close> and \<open>refused\<close> what the send did with its value.\<close>

record 'v osys =
  ost :: "'v oneshot"
  orx :: oreceiver
  registering :: bool
  rx_dropped :: bool
  tx_held :: bool
  in_flight :: "nat set"
  completed :: "nat set"
  ohandles :: "nat set"
  accepted :: "'v list"
  refused :: "'v list"
  delivered :: "'v list"

definition got :: "(unit, 'v) result poll option \<Rightarrow> 'v list" where
  "got p = (case p of Some (Ready (Inr v)) \<Rightarrow> [v] | _ \<Rightarrow> [])"

datatype olabel = Tau | Panicked | Polled bool

inductive ostep :: "'v osys \<Rightarrow> olabel \<Rightarrow> 'v osys \<Rightarrow> bool" where
  o_send:
    "tx_held s \<Longrightarrow> osend (ost s) v = (c, w, res) \<Longrightarrow>
     ostep s Tau (s\<lparr>ost := c, tx_held := False, in_flight := in_flight s \<union> set_option w,
       accepted := (if res = Ok () then accepted s @ [v] else accepted s),
       refused := (case res of Inl x \<Rightarrow> refused s @ [x] | Inr _ \<Rightarrow> refused s)\<rparr>)"
| o_drop_sender:
    "tx_held s \<Longrightarrow> odrop_sender (ost s) = (c, w) \<Longrightarrow>
     ostep s Tau (s\<lparr>ost := c, tx_held := False, in_flight := in_flight s \<union> set_option w\<rparr>)"
| o_complete:
    "h \<in> in_flight s \<Longrightarrow>
     ostep s Tau (s\<lparr>in_flight := in_flight s - {h}, completed := insert h (completed s)\<rparr>)"
| o_close:
    "\<not> registering s \<Longrightarrow> \<not> rx_dropped s \<Longrightarrow> oclose (ost s) = (c, w) \<Longrightarrow>
     ostep s Tau (s\<lparr>ost := c, completed := completed s \<union> set_option w\<rparr>)"
| o_try_recv:
    "\<not> registering s \<Longrightarrow> \<not> rx_dropped s \<Longrightarrow> otry_recv (completed s) (ost s) (orx s) = (c, r, res) \<Longrightarrow>
     ostep s Tau (s\<lparr>ost := c, orx := r,
       delivered := (case res of Inr v \<Rightarrow> delivered s @ [v] | Inl _ \<Rightarrow> delivered s)\<rparr>)"
| o_poll_start:
    "\<not> registering s \<Longrightarrow> \<not> rx_dropped s \<Longrightarrow> opoll_start (completed s) (ost s) (orx s) = (c, r, p) \<Longrightarrow>
     ostep s (Polled (p \<noteq> None \<and> p \<noteq> Some Pending))
       (s\<lparr>ost := c, orx := r, registering := (p = None), delivered := delivered s @ got p\<rparr>)"
| o_poll_register:
    "registering s \<Longrightarrow> h \<notin> ohandles s \<Longrightarrow> opoll_register (ost s) (orx s) h = Some (c, r, now) \<Longrightarrow>
     ostep s Tau (s\<lparr>ost := c, orx := r, registering := False, ohandles := insert h (ohandles s),
       completed := (if now then insert h (completed s) else completed s)\<rparr>)"
| o_poll_panic:
    "registering s \<Longrightarrow> h \<notin> ohandles s \<Longrightarrow> opoll_register (ost s) (orx s) h = None \<Longrightarrow> ostep s Panicked s"
| o_drop_receiver:
    "\<not> registering s \<Longrightarrow> \<not> rx_dropped s \<Longrightarrow>
     ostep s Tau (s\<lparr>ost := ocancel (completed s) (odrop_receiver (ost s)) (orx s),
       orx := (orx s)\<lparr>owait := None\<rparr>, rx_dropped := True\<rparr>)"

inductive_cases ostepE: "ostep s l t"

definition oinit :: "'v osys \<Rightarrow> bool" where
  "oinit s \<longleftrightarrow>
     (ost s, orx s) = oneshot_channel \<and>
     s = \<lparr>ost = ost s, orx = orx s, registering = False, rx_dropped = False, tx_held = True,
          in_flight = {}, completed = {}, ohandles = {}, accepted = [], refused = [], delivered = []\<rparr>"

subsection \<open>Invariant\<close>

text \<open>The wake-up discipline: a registered waiter is the receiver's own, a receiver that waits has been
  or is about to be completed once there is something to see, and a completed wait is never in vain.\<close>

definition final :: "'v oneshot \<Rightarrow> bool" where
  "final c \<longleftrightarrow> slot c \<noteq> None \<or> receiver_closed c \<or> \<not> sender_alive c"

definition wake_ok :: "'v osys \<Rightarrow> bool" where
  "wake_ok s \<longleftrightarrow>
     in_flight s \<union> completed s \<union> set_option (owait (orx s)) \<union> set_option (owaiter (ost s)) \<subseteq> ohandles s \<and>
     (owaiter (ost s) \<noteq> None \<longrightarrow> \<not> final (ost s) \<and> owait (orx s) = owaiter (ost s)) \<and>
     (registering s \<longrightarrow> owait (orx s) = None \<and> \<not> consumed (orx s) \<and> \<not> rx_dropped s) \<and>
     (\<forall>h. owait (orx s) = Some h \<longrightarrow>
        (h \<in> completed s \<union> in_flight s \<longrightarrow> final (ost s)) \<and> (h \<in> in_flight s \<longrightarrow> h \<notin> completed s) \<and>
        (h \<in> completed s \<union> in_flight s \<or> owaiter (ost s) = Some h)) \<and>
     (\<forall>h. owaiter (ost s) = Some h \<longrightarrow> h \<notin> completed s \<union> in_flight s)"

text \<open>The single value: sent at most once, and then refused, stored or delivered.\<close>

definition value_ok :: "'v osys \<Rightarrow> bool" where
  "value_ok s \<longleftrightarrow>
     length (accepted s) + length (refused s) \<le> 1 \<and> (tx_held s \<longrightarrow> accepted s = [] \<and> refused s = []) \<and>
     (tx_held s \<longleftrightarrow> sender_alive (ost s)) \<and> (rx_dropped s \<longrightarrow> receiver_closed (ost s)) \<and>
     (delivered s \<noteq> [] \<longrightarrow> consumed (orx s)) \<and>
     accepted s = delivered s @ (case slot (ost s) of Some v \<Rightarrow> [v] | None \<Rightarrow> [])"

definition oinv :: "'v osys \<Rightarrow> bool" where
  "oinv s \<longleftrightarrow> wake_ok s \<and> value_ok s"

lemma oinit_inv: "oinit s \<Longrightarrow> oinv s"
  unfolding oinit_def by (cases s) (auto simp: oinv_def wake_ok_def value_ok_def oneshot_channel_def)

lemmas oneshot_ops =
  osend_def odrop_sender_def oclose_def odrop_receiver_def ocancel_def otry_recv_def opoll_start_def
  opoll_register_def

lemma value_ok_step:
  assumes "oinv s" and "ostep s l t"
  shows "value_ok t"
proof -
  have v: "value_ok s" using assms(1) by (simp add: oinv_def)
  show ?thesis
    using assms(2)
    by (rule ostepE)
      (use v in \<open>auto simp: value_ok_def oneshot_ops Let_def got_def split: if_splits option.splits\<close>)
qed

lemma value_ok_final: "value_ok s \<Longrightarrow> slot (ost s) \<noteq> None \<Longrightarrow> \<not> sender_alive (ost s)"
  by (auto simp: value_ok_def)

lemma wake_ok_step:
  assumes "oinv s" and "ostep s l t"
  shows "wake_ok t"
proof -
  have v: "value_ok s" and w: "wake_ok s" using assms(1) by (simp_all add: oinv_def)
  note alive = value_ok_final [OF v]
  from assms(2) show ?thesis
  proof cases
    case o_send
    then show ?thesis using w by (auto simp: wake_ok_def final_def oneshot_ops Let_def split: if_splits)
  next
    case o_drop_sender
    then show ?thesis using w by (auto simp: wake_ok_def final_def oneshot_ops Let_def split: if_splits)
  next
    case o_complete
    then show ?thesis using w by (auto simp: wake_ok_def)
  next
    case o_close
    then show ?thesis using w by (auto simp: wake_ok_def final_def oneshot_ops)
  next
    case o_try_recv
    then show ?thesis using w alive
      by (auto simp: wake_ok_def final_def oneshot_ops split: if_splits option.splits)
  next
    case o_poll_start
    then show ?thesis using w alive
      by (auto simp: wake_ok_def final_def oneshot_ops Let_def split: if_splits option.splits)
  next
    case o_poll_register
    then show ?thesis using w
      by (auto simp: wake_ok_def final_def oneshot_ops split: if_splits)
  next
    case o_poll_panic
    then show ?thesis using w by simp
  next
    case o_drop_receiver
    then show ?thesis using w
      by (auto simp: wake_ok_def final_def oneshot_ops split: option.splits)
  qed
qed

interpretation oneshots: bounded_system oinit ostep "\<lambda>_. 0" 0 oinv
proof
  show "oinv t" if "oinv s" "ostep s l t" for s t :: "'v osys" and l
    using value_ok_step [OF that] wake_ok_step [OF that] by (simp add: oinv_def)
qed (simp_all add: oinit_inv)

subsection \<open>A receiver that waits while the value is sent\<close>

definition odemo_start :: "nat osys" where
  "odemo_start =
     \<lparr>ost = \<lparr>slot = None, sender_alive = True, receiver_closed = False, owaiter = None\<rparr>,
      orx = \<lparr>consumed = False, owait = None\<rparr>, registering = False, rx_dropped = False, tx_held = True,
      in_flight = {}, completed = {}, ohandles = {}, accepted = [], refused = [], delivered = []\<rparr>"

definition odemo_waiting :: "nat osys" where
  "odemo_waiting = odemo_start
     \<lparr>ost := (ost odemo_start)\<lparr>owaiter := Some 3\<rparr>, orx := \<lparr>consumed = False, owait = Some 3\<rparr>, ohandles := {3}\<rparr>"

definition odemo_sent :: "nat osys" where
  "odemo_sent = odemo_waiting
     \<lparr>ost := \<lparr>slot = Some 9, sender_alive = False, receiver_closed = False, owaiter = None\<rparr>,
      tx_held := False, in_flight := {3}, accepted := [9]\<rparr>"

lemma odemo_init: "oinit odemo_start"
  by (simp add: oinit_def odemo_start_def oneshot_channel_def)

lemma odemo_run: "run ostep odemo_start [Polled False, Tau, Tau] odemo_sent"
proof -
  let ?mid = "odemo_start\<lparr>registering := True\<rparr>"
  have "ostep odemo_start (Polled ((None :: (unit, nat) result poll option) \<noteq> None \<and> None \<noteq> Some (Pending :: (unit, nat) result poll)))
      (odemo_start\<lparr>ost := ost odemo_start, orx := orx odemo_start,
        registering := ((None :: (unit, nat) result poll option) = None), delivered := delivered odemo_start @ got None\<rparr>)"
    by (rule o_poll_start) (simp_all add: odemo_start_def opoll_start_def)
  then have 1: "ostep odemo_start (Polled False) ?mid" by (simp add: odemo_start_def got_def)
  have "ostep ?mid Tau (?mid\<lparr>ost := ost odemo_waiting, orx := orx odemo_waiting, registering := False,
      ohandles := insert 3 (ohandles ?mid), completed := (if False then insert 3 (completed ?mid) else completed ?mid)\<rparr>)"
    by (rule o_poll_register) (simp_all add: odemo_start_def odemo_waiting_def opoll_register_def)
  then have 2: "ostep ?mid Tau odemo_waiting" by (simp add: odemo_start_def odemo_waiting_def)
  have "osend (ost odemo_waiting) 9 = (ost odemo_sent, Some 3, Ok ())"
    by (simp add: odemo_start_def odemo_waiting_def odemo_sent_def osend_def)
  from o_send [OF _ this] have 3: "ostep odemo_waiting Tau odemo_sent"
    by (simp add: odemo_start_def odemo_waiting_def odemo_sent_def)
  show ?thesis by (rule run_Cons, rule 1, rule run_Cons, rule 2, rule run_Cons, rule 3, rule run_Nil)
qed

subsection \<open>Properties\<close>

text \<open>(C22) The value is accounted for. Over every interleaving the channel takes part in at most one
  send; a refused value goes back to the caller, and an accepted one is either still in the slot or
  was delivered, once. Until the receiver consumed the channel, an accepted value is in the slot, and
  a poll that does not wait returns it.\<close>

theorem oneshot_value_once:
  assumes "oinit s" and "run ostep s ls t"
  shows "length (accepted t) + length (refused t) \<le> 1 \<and>
    accepted t = delivered t @ (case slot (ost t) of Some v \<Rightarrow> [v] | None \<Rightarrow> []) \<and>
    (accepted t = [v] \<and> \<not> consumed (orx t) \<and> (\<forall>h. owait (orx t) = Some h \<longrightarrow> h \<in> completed t) \<longrightarrow>
       snd (snd (opoll_start (completed t) (ost t) (orx t))) = Some (Ready (Ok v)))"
proof -
  have "value_ok t" using oneshots.inv_reachable [OF assms] by (simp add: oinv_def)
  then show ?thesis
    by (auto simp: value_ok_def opoll_start_def Let_def split: option.splits)
qed

theorem oneshot_value_once_witness:
  "accepted odemo_sent = delivered odemo_sent @ [9] \<and> length (accepted odemo_sent) = 1"
  using oneshot_value_once [OF odemo_init odemo_run]
  by (simp add: odemo_sent_def odemo_waiting_def odemo_start_def)

text \<open>No lost wake-up and no panic. Over every interleaving the single-waiter assertion holds; a
  receiver that waits while a value, a closed receiver or a gone sender could be seen has been
  completed or is about to be; and the poll after a completion always resolves, so \<open>poll_recv\<close> calls
  itself at most twice.\<close>

theorem oneshot_no_lost_wake:
  assumes "oinit s" and "run ostep s ls t"
  shows "\<not> ostep t Panicked u \<and>
    (owait (orx t) = Some h \<and> (slot (ost t) \<noteq> None \<or> oreceiver_is_closed (ost t)) \<longrightarrow>
       h \<in> completed t \<union> in_flight t) \<and>
    (owait (orx t) = Some h \<and> h \<in> completed t \<and> ostep t (Polled b) u \<longrightarrow> b)"
proof -
  have w: "wake_ok t" using oneshots.inv_reachable [OF assms] by (simp add: oinv_def)
  have "\<not> ostep t Panicked u"
    using w by (auto elim!: ostepE simp: wake_ok_def opoll_register_def final_def split: if_splits)
  moreover have "h \<in> completed t \<union> in_flight t"
    if "owait (orx t) = Some h" "slot (ost t) \<noteq> None \<or> oreceiver_is_closed (ost t)"
    using that w by (auto simp: wake_ok_def final_def oreceiver_is_closed_def)
  moreover have b if "owait (orx t) = Some h" "h \<in> completed t" "ostep t (Polled b) u"
  proof -
    have "final (ost t)" using that(1,2) w by (auto simp: wake_ok_def)
    then show ?thesis
      using that by (auto elim!: ostepE simp: opoll_start_def Let_def final_def split: option.splits if_splits)
  qed
  ultimately show ?thesis by blast
qed

theorem oneshot_no_lost_wake_witness: "3 \<in> completed odemo_sent \<union> in_flight odemo_sent"
  using oneshot_no_lost_wake [OF odemo_init odemo_run, of odemo_sent 3 False]
  by (simp add: odemo_sent_def odemo_waiting_def odemo_start_def)

end
