(* ===== verification/Watch.thy ===== *)
theory Watch
  imports Transition
begin

text \<open>
  \<open>src/channel/watch.rs\<close>: the latest-value channel. The value with its version, and the \<open>Book\<close> of counts and
  waiters, sit behind two locks; a send bumps the version under the first, collects the outdated
  waiters under the second, and completes them with neither. The system interleaves these three parts
  of every call with the receivers' polls, updates and drops.
\<close>

subsection \<open>The book\<close>

record watch_waiter =
  ww_id :: nat
  ww_version :: nat
  ww_handle :: nat

record book =
  wsender_count :: nat
  wreceiver_count :: nat
  wwaiters :: "watch_waiter list"
  next_watch_id :: nat

definition book_new :: book where
  "book_new = \<lparr>wsender_count = 1, wreceiver_count = 1, wwaiters = [], next_watch_id = 1\<rparr>"

definition wallocate_waiter_id :: "book \<Rightarrow> book \<times> nat" where
  "wallocate_waiter_id b = (b\<lparr>next_watch_id := wrapping_succ (next_watch_id b)\<rparr>, next_watch_id b)"

definition publish_waiter :: "book \<Rightarrow> nat \<Rightarrow> nat \<Rightarrow> nat \<Rightarrow> book" where
  "publish_waiter b i v h = b\<lparr>wwaiters := wwaiters b @ [\<lparr>ww_id = i, ww_version = v, ww_handle = h\<rparr>]\<rparr>"

definition wremove_waiter :: "book \<Rightarrow> nat \<Rightarrow> book" where
  "wremove_waiter b i =
     (case position (\<lambda>w. ww_id w = i) (wwaiters b) of
        None \<Rightarrow> b
      | Some k \<Rightarrow> b\<lparr>wwaiters := swap_remove k (wwaiters b)\<rparr>)"

text \<open>The loop of \<open>wake_changed\<close> from position \<open>k\<close>.\<close>

function changed_loop :: "watch_waiter list \<Rightarrow> nat \<Rightarrow> nat \<Rightarrow> nat list \<Rightarrow> watch_waiter list \<times> nat list" where
  "changed_loop ws v k ready =
     (if k < length ws then
        if ww_version (ws ! k) < v
        then changed_loop (swap_remove k ws) v k (ready @ [ww_handle (ws ! k)])
        else changed_loop ws v (Suc k) ready
      else (ws, ready))"
  by pat_completeness auto
termination
  by (relation "measure (\<lambda>(ws, v, k, ready). length ws - k)") auto

declare changed_loop.simps [simp del]

definition wake_changed :: "book \<Rightarrow> nat \<Rightarrow> book \<times> nat list" where
  "wake_changed b v = (let (ws, ready) = changed_loop (wwaiters b) v 0 [] in (b\<lparr>wwaiters := ws\<rparr>, ready))"

definition close_sender :: "book \<Rightarrow> (book \<times> nat list) panics" where
  "close_sender b =
     do {
       n \<leftarrow> checked_sub (wsender_count b) 1;
       if n = 0 then Some (b\<lparr>wsender_count := n, wwaiters := []\<rparr>, map ww_handle (wwaiters b))
       else Some (b\<lparr>wsender_count := n\<rparr>, [])
     }"

definition wclone_sender :: "book \<Rightarrow> book" where
  "wclone_sender b = b\<lparr>wsender_count := wsender_count b + 1\<rparr>"

definition wdrop_receiver :: "book \<Rightarrow> book panics" where
  "wdrop_receiver b = map_option (\<lambda>n. b\<lparr>wreceiver_count := n\<rparr>) (checked_sub (wreceiver_count b) 1)"

subsection \<open>The shared state and its critical sections\<close>

record 'v watch =
  wvalue :: 'v
  version :: nat
  book :: book

record wreceiver =
  seen :: nat
  wwait :: "(nat \<times> nat) option"

definition watch_channel :: "'v \<Rightarrow> 'v watch \<times> wreceiver" where
  "watch_channel v = (\<lparr>wvalue = v, version = 0, book = book_new\<rparr>, \<lparr>seen = 0, wwait = None\<rparr>)"

text \<open>The locked part of the three send operations: the bumped version, if any, is what the caller goes
  on to collect the waiters with.\<close>

definition wsend :: "'v watch \<Rightarrow> 'v \<Rightarrow> 'v watch \<times> ('v, nat) result" where
  "wsend s v =
     (if wreceiver_count (book s) = 0 then (s, Err v)
      else let n = wrapping_succ (version s) in (s\<lparr>wvalue := v, version := n\<rparr>, Ok n))"

definition write_value :: "'v watch \<Rightarrow> ('v \<Rightarrow> 'v) \<Rightarrow> 'v watch \<times> nat" where
  "write_value s f =
     (let n = wrapping_succ (version s) in (s\<lparr>wvalue := f (wvalue s), version := n\<rparr>, n))"

definition send_if_modified :: "'v watch \<Rightarrow> ('v \<Rightarrow> 'v \<times> bool) \<Rightarrow> 'v watch \<times> nat option" where
  "send_if_modified s f =
     (let (v, modified) = f (wvalue s) in
      if \<not> modified then (s\<lparr>wvalue := v\<rparr>, None)
      else let n = wrapping_succ (version s) in (s\<lparr>wvalue := v, version := n\<rparr>, Some n))"

definition wsubscribe :: "'v watch \<Rightarrow> 'v watch \<times> wreceiver" where
  "wsubscribe s =
     (s\<lparr>book := (book s)\<lparr>wreceiver_count := wreceiver_count (book s) + 1\<rparr>\<rparr>,
      \<lparr>seen = version s, wwait = None\<rparr>)"

definition wclone_receiver :: "'v watch \<Rightarrow> wreceiver \<Rightarrow> 'v watch \<times> wreceiver" where
  "wclone_receiver s r =
     (s\<lparr>book := (book s)\<lparr>wreceiver_count := wreceiver_count (book s) + 1\<rparr>\<rparr>,
      \<lparr>seen = seen r, wwait = None\<rparr>)"

definition borrow_and_update :: "'v watch \<Rightarrow> wreceiver \<Rightarrow> wreceiver \<times> 'v" where
  "borrow_and_update s r = (r\<lparr>seen := version s\<rparr>, wvalue s)"

text \<open>The registering branch of \<open>poll_changed\<close>, with the poll of the future it creates.\<close>

definition wregister ::
  "'v watch \<Rightarrow> wreceiver \<Rightarrow> nat \<Rightarrow> 'v watch \<times> wreceiver \<times> (unit, unit) result poll" where
  "wregister s r h =
     (if seen r < version s then (s, r\<lparr>seen := version s, wwait := None\<rparr>, Ready (Ok ()))
      else if wsender_count (book s) = 0 then (s, r\<lparr>wwait := None\<rparr>, Ready (Err ()))
      else
        let (b, i) = wallocate_waiter_id (book s)
        in (s\<lparr>book := publish_waiter b i (seen r) h\<rparr>, r\<lparr>wwait := Some (h, i)\<rparr>, Pending))"

text \<open>\<open>poll_changed\<close>; a stale completion is discarded and the poll registers again.\<close>

definition poll_changed ::
  "(nat \<rightharpoonup> (unit, nat) result) \<Rightarrow> 'v watch \<Rightarrow> wreceiver \<Rightarrow> nat \<Rightarrow>
   'v watch \<times> wreceiver \<times> (unit, unit) result poll" where
  "poll_changed outs s r h =
     (case wwait r of
        Some (g, i) \<Rightarrow>
          (case outs g of
             None \<Rightarrow> (s, r, Pending)
           | Some (Inr v) \<Rightarrow>
               if seen r < v then (s, r\<lparr>wwait := None, seen := v\<rparr>, Ready (Ok ()))
               else wregister s (r\<lparr>wwait := None\<rparr>) h
           | Some (Inl _) \<Rightarrow> (s, r\<lparr>wwait := None\<rparr>, Ready (Err ())))
      | None \<Rightarrow> wregister s r h)"

definition wcancel :: "book \<Rightarrow> (nat \<rightharpoonup> (unit, nat) result) \<Rightarrow> wreceiver \<Rightarrow> book" where
  "wcancel b outs r =
     (case wwait r of
        Some (g, i) \<Rightarrow> if outs g = None then wremove_waiter b i else b
      | None \<Rightarrow> b)"

text \<open>\<open>CompletionHandle::complete\<close>: the first result stays.\<close>

definition complete_handle ::
  "(nat \<rightharpoonup> (unit, nat) result) \<Rightarrow> nat \<Rightarrow> (unit, nat) result \<Rightarrow> (nat \<rightharpoonup> (unit, nat) result)" where
  "complete_handle res h x = (if res h = None then res(h \<mapsto> x) else res)"

subsection \<open>Interleavings\<close>

text \<open>A call in progress: a send that has bumped the version, one that has collected its waiters, one
  that has loaded the version it completes them with, and a sender's drop completing the waiters of
  a closed channel.\<close>

datatype wcall = Bumped nat | Collected "nat list" | Completing nat "nat list" | Closing "nat list"

record 'v wsys =
  wst :: "'v watch"
  wsenders :: nat
  rxs :: "nat \<rightharpoonup> wreceiver"
  wdropping :: "nat set"
  calls :: "nat \<rightharpoonup> wcall"
  results :: "nat \<rightharpoonup> (unit, nat) result"
  whandles :: "nat set"
  wregs :: nat
  bumps :: nat

definition winit :: "'v wsys \<Rightarrow> bool" where
  "winit s \<longleftrightarrow>
     (\<exists>v c r. watch_channel v = (c, r) \<and>
        s = \<lparr>wst = c, wsenders = 1, rxs = [0 \<mapsto> r], wdropping = {}, calls = Map.empty,
             results = Map.empty, whandles = {}, wregs = 0, bumps = 0\<rparr>)"

fun sending :: "wcall \<Rightarrow> bool" where
  "sending (Closing _) = False"
| "sending _ = True"

text \<open>The last sender is dropped only after the calls that borrow it returned.\<close>

inductive wstep :: "'v wsys \<Rightarrow> unit \<Rightarrow> 'v wsys \<Rightarrow> bool" where
  w_send:
    "0 < wsenders s \<Longrightarrow> k \<notin> dom (calls s) \<Longrightarrow> wsend (wst s) v = (c, res) \<Longrightarrow>
     wstep s () (s\<lparr>wst := c, calls := (case res of Inr n \<Rightarrow> (calls s)(k \<mapsto> Bumped n) | Inl _ \<Rightarrow> calls s),
       bumps := (case res of Inr _ \<Rightarrow> Suc (bumps s) | Inl _ \<Rightarrow> bumps s)\<rparr>)"
| w_send_modify:
    "0 < wsenders s \<Longrightarrow> k \<notin> dom (calls s) \<Longrightarrow> write_value (wst s) f = (c, n) \<Longrightarrow>
     wstep s () (s\<lparr>wst := c, calls := (calls s)(k \<mapsto> Bumped n), bumps := Suc (bumps s)\<rparr>)"
| w_send_if_modified:
    "0 < wsenders s \<Longrightarrow> k \<notin> dom (calls s) \<Longrightarrow> send_if_modified (wst s) g = (c, res) \<Longrightarrow>
     wstep s () (s\<lparr>wst := c, calls := (case res of Some n \<Rightarrow> (calls s)(k \<mapsto> Bumped n) | None \<Rightarrow> calls s),
       bumps := (case res of Some _ \<Rightarrow> Suc (bumps s) | None \<Rightarrow> bumps s)\<rparr>)"
| w_collect:
    "calls s k = Some (Bumped n) \<Longrightarrow> wake_changed (book (wst s)) n = (b, hs) \<Longrightarrow>
     wstep s () (s\<lparr>wst := (wst s)\<lparr>book := b\<rparr>, calls := (calls s)(k \<mapsto> Collected hs)\<rparr>)"
| w_load:
    "calls s k = Some (Collected hs) \<Longrightarrow>
     wstep s () (s\<lparr>calls := (calls s)(k \<mapsto> Completing (version (wst s)) hs)\<rparr>)"
| w_complete:
    "calls s k = Some (Completing n (h # hs)) \<Longrightarrow>
     wstep s () (s\<lparr>results := complete_handle (results s) h (Ok n), calls := (calls s)(k \<mapsto> Completing n hs)\<rparr>)"
| w_return:
    "calls s k = Some (Completing n []) \<or> calls s k = Some (Closing []) \<Longrightarrow>
     wstep s () (s\<lparr>calls := (calls s)(k := None)\<rparr>)"
| w_clone_sender:
    "0 < wsenders s \<Longrightarrow>
     wstep s () (s\<lparr>wst := (wst s)\<lparr>book := wclone_sender (book (wst s))\<rparr>, wsenders := Suc (wsenders s)\<rparr>)"
| w_drop_sender:
    "0 < wsenders s \<Longrightarrow> (wsenders s = 1 \<Longrightarrow> \<forall>c \<in> ran (calls s). \<not> sending c) \<Longrightarrow> k \<notin> dom (calls s) \<Longrightarrow>
     close_sender (book (wst s)) = Some (b, hs) \<Longrightarrow>
     wstep s () (s\<lparr>wst := (wst s)\<lparr>book := b\<rparr>, wsenders := wsenders s - 1, calls := (calls s)(k \<mapsto> Closing hs)\<rparr>)"
| w_close:
    "calls s k = Some (Closing (h # hs)) \<Longrightarrow>
     wstep s () (s\<lparr>results := complete_handle (results s) h (Err ()), calls := (calls s)(k \<mapsto> Closing hs)\<rparr>)"
| w_subscribe:
    "0 < wsenders s \<Longrightarrow> i \<notin> dom (rxs s) \<Longrightarrow> wsubscribe (wst s) = (c, r) \<Longrightarrow>
     wstep s () (s\<lparr>wst := c, rxs := (rxs s)(i \<mapsto> r)\<rparr>)"
| w_clone_receiver:
    "rxs s j = Some q \<Longrightarrow> j \<notin> wdropping s \<Longrightarrow> i \<notin> dom (rxs s) \<Longrightarrow> wclone_receiver (wst s) q = (c, r) \<Longrightarrow>
     wstep s () (s\<lparr>wst := c, rxs := (rxs s)(i \<mapsto> r)\<rparr>)"
| w_update:
    "rxs s i = Some r \<Longrightarrow> i \<notin> wdropping s \<Longrightarrow> borrow_and_update (wst s) r = (r', v) \<Longrightarrow>
     wstep s () (s\<lparr>rxs := (rxs s)(i \<mapsto> r')\<rparr>)"
| w_poll:
    "rxs s i = Some r \<Longrightarrow> i \<notin> wdropping s \<Longrightarrow> h \<notin> whandles s \<Longrightarrow>
     poll_changed (results s) (wst s) r h = (c, r', p) \<Longrightarrow>
     wstep s () (s\<lparr>wst := c, rxs := (rxs s)(i \<mapsto> r'), whandles := insert h (whandles s),
       wregs := (if wwait r' = wwait r \<or> wwait r' = None then wregs s else Suc (wregs s))\<rparr>)"
| w_drop_receiver:
    "rxs s i = Some r \<Longrightarrow> i \<notin> wdropping s \<Longrightarrow> wdrop_receiver (book (wst s)) = Some b \<Longrightarrow>
     wstep s () (s\<lparr>wst := (wst s)\<lparr>book := b\<rparr>, wdropping := insert i (wdropping s)\<rparr>)"
| w_drop_wait:
    "rxs s i = Some r \<Longrightarrow> i \<in> wdropping s \<Longrightarrow>
     wstep s () (s\<lparr>wst := (wst s)\<lparr>book := wcancel (book (wst s)) (results s) r\<rparr>, rxs := (rxs s)(i := None),
       wdropping := wdropping s - {i}\<rparr>)"

inductive_cases wstepE: "wstep s l t"

subsection \<open>Collecting the outdated waiters\<close>

lemma changed_loop_spec:
  assumes "\<forall>w \<in> set (take k ws). \<not> ww_version w < v"
  shows "mset (fst (changed_loop ws v k ready)) = filter_mset (\<lambda>w. \<not> ww_version w < v) (mset ws) \<and>
    mset (snd (changed_loop ws v k ready)) =
      mset ready + image_mset ww_handle (filter_mset (\<lambda>w. ww_version w < v) (mset ws))"
  using assms
proof (induction ws v k ready rule: changed_loop.induct)
  case (1 ws v k ready)
  note un = changed_loop.simps [of ws v k ready]
  show ?case
  proof (cases "k < length ws")
    case False
    then have "\<forall>w \<in> set ws. \<not> ww_version w < v" using "1.prems" by simp
    then have "filter_mset (\<lambda>w. \<not> ww_version w < v) (mset ws) = mset ws"
      "filter_mset (\<lambda>w. ww_version w < v) (mset ws) = {#}"
      by (auto simp: filter_mset_eq_conv)
    then show ?thesis using False un by simp
  next
    case k: True
    show ?thesis
    proof (cases "ww_version (ws ! k) < v")
      case True
      have "mset ws = add_mset (ws ! k) (mset (swap_remove k ws))"
        using mset_swap_remove [OF k] nth_mem [OF k] by simp
      moreover have "\<forall>w \<in> set (take k (swap_remove k ws)). \<not> ww_version w < v"
        using "1.prems" take_swap_remove [OF k] by simp
      ultimately show ?thesis using "1.IH"(1) [OF k True] True k un by simp
    next
      case False
      then have "\<forall>w \<in> set (take (Suc k) ws). \<not> ww_version w < v"
        using "1.prems" k by (auto simp: take_Suc_conv_app_nth)
      then show ?thesis using "1.IH"(2) [OF k False] False k un by simp
    qed
  qed
qed

lemma wake_changed_spec:
  assumes "wake_changed b v = (b', hs)"
  shows "b' = b\<lparr>wwaiters := wwaiters b'\<rparr>"
    "mset (wwaiters b') = filter_mset (\<lambda>w. \<not> ww_version w < v) (mset (wwaiters b))"
    "mset hs = image_mset ww_handle (filter_mset (\<lambda>w. ww_version w < v) (mset (wwaiters b)))"
  using assms changed_loop_spec [of 0 "wwaiters b" v "[]"]
  by (auto simp: wake_changed_def split: prod.splits)

subsection \<open>Invariant\<close>

fun pending_handles :: "wcall \<Rightarrow> nat list" where
  "pending_handles (Bumped _) = []"
| "pending_handles (Collected hs) = hs"
| "pending_handles (Completing _ hs) = hs"
| "pending_handles (Closing hs) = hs"

text \<open>A waiter that missed a version will be collected by a send that has not collected yet.\<close>

definition wwaiter_ok :: "nat \<Rightarrow> (nat \<rightharpoonup> wcall) \<Rightarrow> nat set \<Rightarrow> nat \<Rightarrow> watch_waiter \<Rightarrow> bool" where
  "wwaiter_ok ver cs hs n w \<longleftrightarrow>
     ww_version w \<le> ver \<and> ww_handle w \<in> hs \<and> ww_id w \<le> n \<and>
     (ww_version w < ver \<longrightarrow> (\<exists>m. Bumped m \<in> ran cs \<and> ww_version w < m))"

definition call_ok :: "nat \<Rightarrow> nat \<Rightarrow> nat set \<Rightarrow> wcall \<Rightarrow> bool" where
  "call_ok ver senders hs c \<longleftrightarrow>
     set (pending_handles c) \<subseteq> hs \<and>
     (case c of
        Bumped m \<Rightarrow> m \<le> ver \<and> 0 < senders
      | Collected _ \<Rightarrow> 0 < senders
      | Completing m _ \<Rightarrow> m \<le> ver \<and> 0 < senders
      | Closing l \<Rightarrow> l \<noteq> [] \<longrightarrow> senders = 0)"

definition on_its_way :: "(nat \<rightharpoonup> wcall) \<Rightarrow> nat \<Rightarrow> bool" where
  "on_its_way cs h \<longleftrightarrow> (\<exists>c \<in> ran cs. h \<in> set (pending_handles c))"

text \<open>A receiver that waits without a result is registered at a version it has seen, or its completion
  is on its way; no other waiter has its id. Once the channel is closed, a receiver that waits or is
  told so has seen the last version.\<close>

definition parked_ok :: "watch_waiter list \<Rightarrow> (nat \<rightharpoonup> wcall) \<Rightarrow> wreceiver \<Rightarrow> nat \<Rightarrow> nat \<Rightarrow> bool" where
  "parked_ok ws cs r h i \<longleftrightarrow>
     (\<exists>w \<in> set ws. ww_handle w = h \<and> ww_id w = i \<and> ww_version w \<le> seen r) \<or> on_its_way cs h"

definition no_change :: "(nat \<rightharpoonup> (unit, nat) result) \<Rightarrow> nat \<Rightarrow> bool" where
  "no_change res h \<longleftrightarrow> (\<forall>v. res h \<noteq> Some (Inr v))"

definition wreceiver_ok ::
  "'v watch \<Rightarrow> nat \<Rightarrow> (nat \<rightharpoonup> wcall) \<Rightarrow> (nat \<rightharpoonup> (unit, nat) result) \<Rightarrow> nat set \<Rightarrow> nat \<Rightarrow> wreceiver \<Rightarrow> bool" where
  "wreceiver_ok c senders cs res hs n r \<longleftrightarrow>
     seen r \<le> version c \<and>
     (case wwait r of
        None \<Rightarrow> True
      | Some (h, i) \<Rightarrow>
          h \<in> hs \<and> i \<le> n \<and> (\<forall>w \<in> set (wwaiters (book c)). ww_id w = i \<longrightarrow> ww_handle w = h) \<and>
          (case res h of
             None \<Rightarrow> parked_ok (wwaiters (book c)) cs r h i
           | Some (Inr v) \<Rightarrow> v \<le> version c
           | Some (Inl _) \<Rightarrow> senders = 0) \<and>
          (senders = 0 \<and> no_change res h \<longrightarrow> seen r = version c))"

definition whandles_inj :: "(nat \<rightharpoonup> wreceiver) \<Rightarrow> bool" where
  "whandles_inj rs \<longleftrightarrow>
     (\<forall>i j r r' h. rs i = Some r \<and> rs j = Some r' \<and> map_option fst (wwait r) = Some h \<and>
        map_option fst (wwait r') = Some h \<longrightarrow> i = j)"

definition book_ok :: "book \<Rightarrow> nat \<Rightarrow> nat \<Rightarrow> nat \<Rightarrow> bool" where
  "book_ok b senders rcount n \<longleftrightarrow>
     wsender_count b = senders \<and> wreceiver_count b = rcount \<and>
     (wwaiters b \<noteq> [] \<longrightarrow> 0 < senders) \<and> next_watch_id b = Suc n mod u64_modulus"

definition winv :: "'v wsys \<Rightarrow> bool" where
  "winv s \<longleftrightarrow>
     bumps s = version (wst s) \<and>
     book_ok (book (wst s)) (wsenders s) (card (dom (rxs s) - wdropping s)) (wregs s) \<and>
     finite (dom (rxs s)) \<and> wdropping s \<subseteq> dom (rxs s) \<and> dom (results s) \<subseteq> whandles s \<and>
     whandles_inj (rxs s) \<and>
     (\<forall>w \<in> set (wwaiters (book (wst s))).
        wwaiter_ok (version (wst s)) (calls s) (whandles s) (wregs s) w) \<and>
     (\<forall>c \<in> ran (calls s). call_ok (version (wst s)) (wsenders s) (whandles s) c) \<and>
     (\<forall>r \<in> ran (rxs s).
        wreceiver_ok (wst s) (wsenders s) (calls s) (results s) (whandles s) (wregs s) r)"

lemma ran_updD: "x \<in> ran (m(k \<mapsto> c)) \<Longrightarrow> x = c \<or> x \<in> ran m"
  by (auto simp: ran_def split: if_splits)

lemma ran_upd_self: "c \<in> ran (m(k \<mapsto> c))"
  by (auto simp: ran_def)

lemma ran_upd_keep:
  assumes "x \<in> ran m" and "m k \<noteq> Some x"
  shows "x \<in> ran (m(k := c))"
proof -
  obtain a where "m a = Some x" using assms(1) by (auto simp: ran_def)
  then have "(m(k := c)) a = Some x" using assms(2) by auto
  then show ?thesis by (rule ranI)
qed

lemma ran_deleteD: "x \<in> ran (m(k := None)) \<Longrightarrow> x \<in> ran m"
  by (auto simp: ran_def split: if_splits)

lemma winvD:
  assumes "winv s"
  shows "book_ok (book (wst s)) (wsenders s) (card (dom (rxs s) - wdropping s)) (wregs s)"
    "w \<in> set (wwaiters (book (wst s))) \<Longrightarrow> wwaiter_ok (version (wst s)) (calls s) (whandles s) (wregs s) w"
    "c \<in> ran (calls s) \<Longrightarrow> call_ok (version (wst s)) (wsenders s) (whandles s) c"
    "rxs s i = Some r \<Longrightarrow>
      wreceiver_ok (wst s) (wsenders s) (calls s) (results s) (whandles s) (wregs s) r"
    "finite (dom (rxs s))"
  using assms by (auto simp: winv_def intro: ranI)

text \<open>What a receiver relies on survives a change of the calls that drops no pending handle, a newer
  version, and fewer waiters as long as the missing ones are on their way.\<close>

lemma parked_ok_mono:
  assumes "parked_ok ws cs r h i"
    and "\<And>w. w \<in> set ws \<Longrightarrow> ww_handle w = h \<Longrightarrow> ww_id w = i \<Longrightarrow> w \<in> set ws' \<or> on_its_way cs' h"
    and "on_its_way cs h \<Longrightarrow> on_its_way cs' h" and "seen r \<le> seen r'"
  shows "parked_ok ws' cs' r' h i"
  using assms unfolding parked_ok_def by (meson le_trans)

lemma wreceiver_ok_mono:
  assumes "wreceiver_ok c n cs res hs m r"
    and "version c \<le> version c'" and "hs \<subseteq> hs'" and "m \<le> m'" and "n = 0 \<Longrightarrow> n' = 0"
    and "\<And>w. w \<in> set (wwaiters (book c')) \<Longrightarrow> w \<in> set (wwaiters (book c)) \<or> m < ww_id w"
    and "\<And>h i. wwait r = Some (h, i) \<Longrightarrow> res h = None \<Longrightarrow>
      parked_ok (wwaiters (book c)) cs r h i \<Longrightarrow> parked_ok (wwaiters (book c')) cs' r h i"
    and "n' = 0 \<Longrightarrow> n = 0 \<and> version c' = version c \<or>
      (\<forall>h i. wwait r = Some (h, i) \<and> no_change res h \<longrightarrow> seen r = version c')"
  shows "wreceiver_ok c' n' cs' res hs' m' r"
proof (cases "wwait r")
  case None
  then show ?thesis using assms(1,2) by (simp add: wreceiver_ok_def)
next
  case (Some p)
  obtain h i where p: "p = (h, i)" by (rule prod.exhaust)
  have a: "seen r \<le> version c" "h \<in> hs" "i \<le> m" "\<forall>w \<in> set (wwaiters (book c)). ww_id w = i \<longrightarrow> ww_handle w = h"
    "case res h of None \<Rightarrow> parked_ok (wwaiters (book c)) cs r h i | Some (Inr v) \<Rightarrow> v \<le> version c | Some (Inl _) \<Rightarrow> n = 0"
    "n = 0 \<Longrightarrow> no_change res h \<Longrightarrow> seen r = version c"
    using assms(1) Some p by (simp_all add: wreceiver_ok_def)
  have "\<forall>w \<in> set (wwaiters (book c')). ww_id w = i \<longrightarrow> ww_handle w = h"
    using a(3,4) assms(6) by fastforce
  moreover have "case res h of None \<Rightarrow> parked_ok (wwaiters (book c')) cs' r h i | Some (Inr v) \<Rightarrow> v \<le> version c' | Some (Inl _) \<Rightarrow> n' = 0"
    using a(5) assms(2,5) assms(7) [OF Some [unfolded p]] by (auto split: option.splits sum.splits)
  moreover have "n' = 0 \<Longrightarrow> no_change res h \<Longrightarrow> seen r = version c'"
    using a(6) assms(8) Some p by auto
  ultimately show ?thesis
    using Some p a(1-3) assms(2-4) by (auto simp: wreceiver_ok_def)
qed

lemma winv_bump:
  assumes s: "winv s" and pos: "0 < wsenders s" and k: "k \<notin> dom (calls s)"
    and small: "version (wst s) \<le> u64_modulus - 2"
  shows "winv (s\<lparr>wst := (wst s)\<lparr>wvalue := v, version := wrapping_succ (version (wst s))\<rparr>,
    calls := (calls s)(k \<mapsto> Bumped (wrapping_succ (version (wst s)))), bumps := Suc (bumps s)\<rparr>)"
proof -
  let ?n = "version (wst s)" and ?cs = "(calls s)(k \<mapsto> Bumped (Suc (version (wst s))))"
  have succ: "wrapping_succ ?n = Suc ?n" using small by (simp add: wrapping_succ_def u64_modulus_def)
  have none: "calls s k = None" using k by auto
  have "\<forall>w \<in> set (wwaiters (book (wst s))). wwaiter_ok (Suc ?n) ?cs (whandles s) (wregs s) w"
    using winvD(2) [OF s] ran_upd_self [of "Bumped (Suc ?n)" "calls s" k]
    by (fastforce simp: wwaiter_ok_def)
  moreover have "\<forall>c \<in> ran ?cs. call_ok (Suc ?n) (wsenders s) (whandles s) c"
    using winvD(3) [OF s] pos by (fastforce dest!: ran_updD simp: call_ok_def split: wcall.splits)
  moreover have way: "on_its_way (calls s) h \<Longrightarrow> on_its_way ?cs h" for h
    using none by (auto simp: on_its_way_def ran_map_upd)
  have "wreceiver_ok ((wst s)\<lparr>wvalue := v, version := Suc ?n\<rparr>) (wsenders s) ?cs (results s) (whandles s) (wregs s) r"
    if "wreceiver_ok (wst s) (wsenders s) (calls s) (results s) (whandles s) (wregs s) r" for r
    by (rule wreceiver_ok_mono [OF that]) (use pos in \<open>auto elim!: parked_ok_mono simp: way\<close>)
  ultimately show ?thesis using s unfolding succ winv_def by simp
qed

lemma on_its_way_upd:
  assumes "on_its_way cs h" and "\<And>c. cs k = Some c \<Longrightarrow> h \<in> set (pending_handles c) \<Longrightarrow> h \<in> set (pending_handles c')"
  shows "on_its_way (cs(k \<mapsto> c')) h"
proof -
  obtain c where c: "c \<in> ran cs" "h \<in> set (pending_handles c)" using assms(1) by (auto simp: on_its_way_def)
  show ?thesis
  proof (cases "cs k = Some c")
    case True
    then show ?thesis using assms(2) c(2) ran_upd_self by (fastforce simp: on_its_way_def)
  next
    case False
    then show ?thesis using ran_upd_keep [OF c(1)] c(2) by (fastforce simp: on_its_way_def)
  qed
qed

lemma wwaiter_ok_upd:
  assumes "wwaiter_ok ver cs hs n w" and "\<And>m. cs k = Some (Bumped m) \<Longrightarrow> \<not> ww_version w < m"
  shows "wwaiter_ok ver (cs(k := c)) hs n w"
proof (cases "ww_version w < ver")
  case True
  then obtain m where m: "Bumped m \<in> ran cs" "ww_version w < m" using assms(1) by (auto simp: wwaiter_ok_def)
  then have "Bumped m \<in> ran (cs(k := c))" using assms(2) by (intro ran_upd_keep) auto
  then show ?thesis using assms(1) m(2) unfolding wwaiter_ok_def by blast
qed (use assms(1) in \<open>simp add: wwaiter_ok_def\<close>)

lemma winv_collect:
  assumes s: "winv s" and k: "calls s k = Some (Bumped n)" and e: "wake_changed (book (wst s)) n = (b, hs)"
  shows "winv (s\<lparr>wst := (wst s)\<lparr>book := b\<rparr>, calls := (calls s)(k \<mapsto> Collected hs)\<rparr>)"
proof -
  note b = wake_changed_spec [OF e]
  let ?cs = "(calls s)(k \<mapsto> Collected hs)" and ?ws = "wwaiters (book (wst s))"
  have set: "set (wwaiters b) = {w \<in> set ?ws. \<not> ww_version w < n}" "set hs = ww_handle ` {w \<in> set ?ws. ww_version w < n}"
    using arg_cong [OF b(2), of set_mset] arg_cong [OF b(3), of set_mset] by auto
  have bk: "book_ok b (wsenders s) (card (dom (rxs s) - wdropping s)) (wregs s)"
    using winvD(1) [OF s] set(1) by (subst b(1)) (auto simp: book_ok_def)
  have w: "\<forall>w \<in> set (wwaiters b). wwaiter_ok (version (wst s)) ?cs (whandles s) (wregs s) w"
    using set(1) k winvD(2) [OF s] by (auto intro: wwaiter_ok_upd)
  have "call_ok (version (wst s)) (wsenders s) (whandles s) (Bumped n)"
    using winvD(3) [OF s] k by (meson ranI)
  then have "call_ok (version (wst s)) (wsenders s) (whandles s) (Collected hs)"
    using set(2) winvD(2) [OF s] by (auto simp: call_ok_def wwaiter_ok_def)
  then have c: "\<forall>c \<in> ran ?cs. call_ok (version (wst s)) (wsenders s) (whandles s) c"
    using winvD(3) [OF s] by (auto dest!: ran_updD)
  have keep: "on_its_way (calls s) h \<Longrightarrow> on_its_way ?cs h" for h
    using k by (auto intro: on_its_way_upd)
  have woken: "h \<in> set hs \<Longrightarrow> on_its_way ?cs h" for h
    unfolding on_its_way_def by (rule bexI [OF _ ran_upd_self]) simp
  have "wreceiver_ok ((wst s)\<lparr>book := b\<rparr>) (wsenders s) ?cs (results s) (whandles s) (wregs s) r"
    if "wreceiver_ok (wst s) (wsenders s) (calls s) (results s) (whandles s) (wregs s) r" for r
    by (rule wreceiver_ok_mono [OF that]) (auto simp: set keep woken elim!: parked_ok_mono)
  then show ?thesis using s bk w c by (simp add: winv_def)
qed

text \<open>The rest of a call: load the version, complete the collected waiters one by one, return.\<close>

lemma winv_call:
  assumes s: "winv s" and k: "calls s k = Some c" "\<And>m. c \<noteq> Bumped m"
    and c': "\<And>g. g \<in> set (pending_handles c) \<Longrightarrow> results s g = None \<Longrightarrow> g \<in> set (pending_handles c') \<union> H"
      "call_ok (version (wst s)) (wsenders s) (whandles s) c'"
    and H: "H \<subseteq> set (pending_handles c)" "\<And>g. g \<in> H \<Longrightarrow> results s g = None"
    and res: "case res of Inr v \<Rightarrow> v \<le> version (wst s) | Inl _ \<Rightarrow> H \<noteq> {} \<longrightarrow> wsenders s = 0"
  shows "winv (s\<lparr>results := (\<lambda>h. if h \<in> H then Some res else results s h), calls := (calls s)(k \<mapsto> c')\<rparr>)"
proof -
  let ?cs = "(calls s)(k \<mapsto> c')" and ?res = "\<lambda>h. if h \<in> H then Some res else results s h"
  have "call_ok (version (wst s)) (wsenders s) (whandles s) c" using winvD(3) [OF s] k(1) by (meson ranI)
  then have "H \<subseteq> whandles s" using H(1) by (auto simp: call_ok_def)
  moreover have "dom (results s) \<subseteq> whandles s" using s by (simp add: winv_def)
  ultimately have "dom ?res \<subseteq> whandles s" by (fastforce split: if_splits)
  moreover have nb: "calls s k \<noteq> Some (Bumped m)" for m using k by simp
  have "\<forall>w \<in> set (wwaiters (book (wst s))). wwaiter_ok (version (wst s)) ?cs (whandles s) (wregs s) w"
    by (intro ballI wwaiter_ok_upd [OF winvD(2) [OF s]]) (simp_all add: nb)
  moreover have "\<forall>c \<in> ran ?cs. call_ok (version (wst s)) (wsenders s) (whandles s) c"
    using winvD(3) [OF s] c'(2) by (auto dest!: ran_updD)
  moreover have "wreceiver_ok (wst s) (wsenders s) ?cs ?res (whandles s) (wregs s) r"
    if r: "wreceiver_ok (wst s) (wsenders s) (calls s) (results s) (whandles s) (wregs s) r" for r
  proof (cases "wwait r")
    case None
    then show ?thesis using r by (simp add: wreceiver_ok_def)
  next
    case (Some p)
    obtain h i where p: "p = (h, i)" by (rule prod.exhaust)
    have "on_its_way (calls s) h \<Longrightarrow> h \<notin> H \<Longrightarrow> results s h = None \<Longrightarrow> on_its_way ?cs h"
      using k(1) c'(1) [of h] by (auto intro!: on_its_way_upd)
    then have "h \<notin> H \<Longrightarrow> results s h = None \<Longrightarrow> parked_ok ws (calls s) r h i \<Longrightarrow> parked_ok ws ?cs r h i" for ws
      by (auto simp: parked_ok_def)
    moreover have "no_change ?res h \<Longrightarrow> no_change (results s) h"
      using H(2) by (auto simp: no_change_def split: if_splits)
    ultimately show ?thesis
      using r Some p res by (auto simp: wreceiver_ok_def split: option.splits sum.splits)
  qed
  ultimately show ?thesis using s by (simp add: winv_def)
qed

lemma complete_handle_fun:
  "complete_handle res h x = (\<lambda>g. if g \<in> {g. g = h \<and> res g = None} then Some x else res g)"
  by (rule ext) (auto simp: complete_handle_def)

lemma winv_return:
  assumes s: "winv s" and k: "calls s k = Some c" "\<And>m. c \<noteq> Bumped m" "pending_handles c = []"
  shows "winv (s\<lparr>calls := (calls s)(k := None)\<rparr>)"
proof -
  let ?cs = "(calls s)(k := None)"
  have "on_its_way (calls s) h \<Longrightarrow> on_its_way ?cs h" for h
    using k(1,3) ran_upd_keep [of _ "calls s" k None] by (fastforce simp: on_its_way_def)
  then have "parked_ok ws (calls s) r h i \<Longrightarrow> parked_ok ws ?cs r h i" for ws r h i
    by (auto simp: parked_ok_def)
  then have "wreceiver_ok (wst s) (wsenders s) ?cs (results s) (whandles s) (wregs s) r"
    if "wreceiver_ok (wst s) (wsenders s) (calls s) (results s) (whandles s) (wregs s) r" for r
    using that by (rule_tac wreceiver_ok_mono [OF that]) auto
  moreover have nb: "calls s k \<noteq> Some (Bumped m)" for m using k by simp
  have "\<forall>w \<in> set (wwaiters (book (wst s))). wwaiter_ok (version (wst s)) ?cs (whandles s) (wregs s) w"
    by (intro ballI wwaiter_ok_upd [OF winvD(2) [OF s]]) (simp_all add: nb)
  ultimately show ?thesis using s by (auto simp: winv_def dest!: ran_deleteD)
qed

subsection \<open>Senders and receivers\<close>

lemma winv_clone_sender:
  assumes s: "winv s" and pos: "0 < wsenders s"
  shows "winv (s\<lparr>wst := (wst s)\<lparr>book := wclone_sender (book (wst s))\<rparr>, wsenders := Suc (wsenders s)\<rparr>)"
proof -
  have "call_ok (version (wst s)) (Suc (wsenders s)) (whandles s) c" if "c \<in> ran (calls s)" for c
    using winvD(3) [OF s that] pos by (cases c) (auto simp: call_ok_def)
  moreover have "wreceiver_ok ((wst s)\<lparr>book := wclone_sender (book (wst s))\<rparr>) (Suc (wsenders s)) (calls s)
      (results s) (whandles s) (wregs s) r"
    if "wreceiver_ok (wst s) (wsenders s) (calls s) (results s) (whandles s) (wregs s) r" for r
    by (rule wreceiver_ok_mono [OF that]) (use pos in \<open>auto simp: wclone_sender_def\<close>)
  ultimately show ?thesis using s by (simp add: winv_def wclone_sender_def book_ok_def)
qed

text \<open>When the last sender goes, every receiver that still waits has seen the current version.\<close>

lemma seen_at_close:
  assumes s: "winv s" and one: "wsenders s = 1" and idle: "\<forall>c \<in> ran (calls s). \<not> sending c"
    and r: "wreceiver_ok (wst s) (wsenders s) (calls s) (results s) (whandles s) (wregs s) r"
      "wwait r = Some (h, i)" "no_change (results s) h"
  shows "seen r = version (wst s)"
proof -
  have le: "seen r \<le> version (wst s)" using r(1) by (simp add: wreceiver_ok_def)
  have "results s h = None"
    using r one by (cases "results s h") (auto simp: wreceiver_ok_def no_change_def split: sum.splits)
  then have "parked_ok (wwaiters (book (wst s))) (calls s) r h i" using r(1,2) by (simp add: wreceiver_ok_def)
  then consider w where "w \<in> set (wwaiters (book (wst s)))" "ww_version w \<le> seen r" | "on_its_way (calls s) h"
    unfolding parked_ok_def by blast
  then show ?thesis
  proof cases
    case 1
    have "\<not> ww_version w < version (wst s)"
      using winvD(2) [OF s 1(1)] idle by (force simp: wwaiter_ok_def)
    then show ?thesis using 1(2) le by simp
  next
    case 2
    then obtain c where c: "c \<in> ran (calls s)" "h \<in> set (pending_handles c)" by (auto simp: on_its_way_def)
    then have "wsenders s = 0" using winvD(3) [OF s c(1)] idle by (cases c) (auto simp: call_ok_def)
    then show ?thesis using one by simp
  qed
qed

lemma winv_drop_sender:
  assumes s: "winv s" and pos: "0 < wsenders s" and last: "wsenders s = 1 \<Longrightarrow> \<forall>c \<in> ran (calls s). \<not> sending c"
    and k: "k \<notin> dom (calls s)" and e: "close_sender (book (wst s)) = Some (b, hs)"
  shows "winv (s\<lparr>wst := (wst s)\<lparr>book := b\<rparr>, wsenders := wsenders s - 1, calls := (calls s)(k \<mapsto> Closing hs)\<rparr>)"
proof -
  let ?ws = "wwaiters (book (wst s))" and ?cs = "(calls s)(k \<mapsto> Closing hs)" and ?n = "wsenders s - 1"
  have none: "calls s k = None" using k by auto
  have cnt: "wsender_count (book (wst s)) = wsenders s" using winvD(1) [OF s] by (simp add: book_ok_def)
  have b: "b = (book (wst s))\<lparr>wsender_count := ?n, wwaiters := (if ?n = 0 then [] else ?ws)\<rparr>"
    "hs = (if ?n = 0 then map ww_handle ?ws else [])"
    using e pos cnt by (auto simp: close_sender_def checked_sub_def split: if_splits)
  have bk: "book_ok b ?n (card (dom (rxs s) - wdropping s)) (wregs s)"
    using winvD(1) [OF s] pos by (auto simp: book_ok_def b)
  have w: "wwaiter_ok (version (wst s)) ?cs (whandles s) (wregs s) w" if "w \<in> set (wwaiters b)" for w
    by (rule wwaiter_ok_upd) (use that none winvD(2) [OF s] in \<open>auto simp: b split: if_splits\<close>)
  have many: "sending c \<Longrightarrow> 1 < wsenders s" if "c \<in> ran (calls s)" for c
    using last that pos by (cases "wsenders s = 1") auto
  have "call_ok (version (wst s)) ?n (whandles s) c" if "c \<in> ran (calls s)" for c
    using winvD(3) [OF s that] many [OF that] by (cases c) (auto simp: call_ok_def)
  moreover have "call_ok (version (wst s)) ?n (whandles s) (Closing hs)"
    using winvD(2) [OF s] by (auto simp: call_ok_def b wwaiter_ok_def)
  ultimately have c: "\<forall>c \<in> ran ?cs. call_ok (version (wst s)) ?n (whandles s) c"
    by (auto dest!: ran_updD)
  have keep: "on_its_way (calls s) h \<Longrightarrow> on_its_way ((calls s)(k \<mapsto> c)) h" for h c
    using none by (auto intro: on_its_way_upd)
  have "?n = 0 \<Longrightarrow> w \<in> set ?ws \<Longrightarrow> on_its_way ?cs (ww_handle w)" for w
    unfolding on_its_way_def by (rule bexI [OF _ ran_upd_self]) (simp add: b)
  moreover have "?n = 0 \<Longrightarrow> wwait r = Some (h, i) \<Longrightarrow> no_change (results s) h \<Longrightarrow> seen r = version (wst s)"
    if "wreceiver_ok (wst s) (wsenders s) (calls s) (results s) (whandles s) (wregs s) r" for r h i
    using seen_at_close [OF s _ _ that] last pos by (cases "wsenders s = 1") auto
  ultimately have "wreceiver_ok ((wst s)\<lparr>book := b\<rparr>) ?n ?cs (results s) (whandles s) (wregs s) r"
    if "wreceiver_ok (wst s) (wsenders s) (calls s) (results s) (whandles s) (wregs s) r" for r
    using that by (rule_tac wreceiver_ok_mono [OF that])
      (auto simp: keep b split: if_splits elim!: parked_ok_mono)
  then show ?thesis using s bk w c by (simp add: winv_def)
qed

lemma winv_new_receiver:
  assumes s: "winv s" and i: "i \<notin> dom (rxs s)" and r: "wwait r = None" "seen r \<le> version (wst s)"
  shows "winv (s\<lparr>wst := (wst s)\<lparr>book := (book (wst s))\<lparr>wreceiver_count := wreceiver_count (book (wst s)) + 1\<rparr>\<rparr>,
    rxs := (rxs s)(i \<mapsto> r)\<rparr>)"
proof -
  let ?c = "(wst s)\<lparr>book := (book (wst s))\<lparr>wreceiver_count := wreceiver_count (book (wst s)) + 1\<rparr>\<rparr>"
  have none: "rxs s i = None" using i by auto
  have "i \<notin> wdropping s" using s i by (auto simp: winv_def)
  then have "card (insert i (dom (rxs s)) - wdropping s) = Suc (card (dom (rxs s) - wdropping s))"
    using i winvD(5) [OF s] by (simp add: insert_Diff_if)
  then have bk: "book_ok (book ?c) (wsenders s) (card (dom ((rxs s)(i \<mapsto> r)) - wdropping s)) (wregs s)"
    using winvD(1) [OF s] by (simp add: book_ok_def)
  have old: "wreceiver_ok ?c (wsenders s) (calls s) (results s) (whandles s) (wregs s) q"
    if "wreceiver_ok (wst s) (wsenders s) (calls s) (results s) (whandles s) (wregs s) q" for q
    by (rule wreceiver_ok_mono [OF that]) auto
  have new: "wreceiver_ok ?c (wsenders s) (calls s) (results s) (whandles s) (wregs s) r"
    using r by (simp add: wreceiver_ok_def)
  have "whandles_inj ((rxs s)(i \<mapsto> r))"
    using s r(1) by (auto simp: winv_def whandles_inj_def)
  then show ?thesis
    using s bk old new by (auto simp: winv_def ran_map_upd none)
qed

lemma whandles_inj_upd:
  assumes "whandles_inj rs" and "rs i = Some r"
    and "wwait r' = None \<or> wwait r' = wwait r \<or>
      (\<forall>j q. rs j = Some q \<longrightarrow> map_option fst (wwait q) \<noteq> map_option fst (wwait r'))"
  shows "whandles_inj (rs(i \<mapsto> r'))"
  using assms unfolding whandles_inj_def by (auto split: if_splits) metis+

text \<open>An update of one receiver that leaves the shared state alone.\<close>

lemma winv_update_receiver:
  assumes s: "winv s" and i: "rxs s i = Some r" and r': "wwait r' = None \<or> wwait r' = wwait r"
    and seen: "seen r \<le> seen r'" "seen r' \<le> version (wst s)"
  shows "winv (s\<lparr>rxs := (rxs s)(i \<mapsto> r'), whandles := insert h (whandles s)\<rparr>)"
    "winv (s\<lparr>rxs := (rxs s)(i \<mapsto> r')\<rparr>)"
proof -
  let ?rs = "(rxs s)(i \<mapsto> r')"
  have inj: "whandles_inj ?rs"
    using s i r' by (intro whandles_inj_upd) (auto simp: winv_def)
  have dom: "dom ?rs = dom (rxs s)" using i by auto
  have w: "wwaiter_ok v cs hs n w \<Longrightarrow> wwaiter_ok v cs (insert h hs) n w" for v cs hs n w
    by (auto simp: wwaiter_ok_def)
  have c: "call_ok v n hs c \<Longrightarrow> call_ok v n (insert h hs) c" for v n hs c
    by (auto simp: call_ok_def)
  have old: "wreceiver_ok (wst s) (wsenders s) (calls s) (results s) (insert h (whandles s)) (wregs s) q"
    if "wreceiver_ok (wst s) (wsenders s) (calls s) (results s) (whandles s) (wregs s) q" for q
    by (rule wreceiver_ok_mono [OF that]) auto
  have new: "wreceiver_ok (wst s) (wsenders s) (calls s) (results s) (whandles s) (wregs s) r'"
  proof (cases "wwait r'")
    case None
    then show ?thesis using seen by (simp add: wreceiver_ok_def)
  next
    case (Some p)
    obtain g j where p: "p = (g, j)" by (rule prod.exhaust)
    have "wwait r = Some (g, j)" using r' Some p by simp
    moreover have "parked_ok ws cs r g j \<Longrightarrow> parked_ok ws cs r' g j" for ws cs
      using seen(1) by (auto elim!: parked_ok_mono)
    ultimately show ?thesis
      using winvD(4) [OF s i] Some p seen by (auto simp: wreceiver_ok_def split: option.splits)
  qed
  show "winv (s\<lparr>rxs := ?rs\<rparr>)"
    using s inj dom new by (auto simp: winv_def dest!: ran_updD)
  show "winv (s\<lparr>rxs := ?rs, whandles := insert h (whandles s)\<rparr>)"
    using s inj dom new old w c by (auto simp: winv_def dest!: ran_updD)
qed

lemma winv_park:
  assumes s: "winv s" and i: "rxs s i = Some r" and h: "h \<notin> whandles s"
    and small: "wregs s \<le> u64_modulus - 2" and opn: "wsender_count (book (wst s)) \<noteq> 0" and seen: "\<not> seen r < version (wst s)"
    and e: "wallocate_waiter_id (book (wst s)) = (b, k)"
  shows "winv (s\<lparr>wst := (wst s)\<lparr>book := publish_waiter b k (seen r) h\<rparr>,
    rxs := (rxs s)(i \<mapsto> r\<lparr>wwait := Some (h, k)\<rparr>), whandles := insert h (whandles s), wregs := Suc (wregs s)\<rparr>)"
proof -
  let ?w = "\<lparr>ww_id = k, ww_version = seen r, ww_handle = h\<rparr>" and ?r = "r\<lparr>wwait := Some (h, k)\<rparr>"
  let ?c = "(wst s)\<lparr>book := publish_waiter b k (seen r) h\<rparr>" and ?rs = "(rxs s)(i \<mapsto> r\<lparr>wwait := Some (h, k)\<rparr>)"
  let ?hs = "insert h (whandles s)" and ?n = "Suc (wregs s)"
  have eq: "seen r = version (wst s)" using winvD(4) [OF s i] seen by (auto simp: wreceiver_ok_def)
  have k: "k = ?n" "wwaiters (publish_waiter b k (seen r) h) = wwaiters (book (wst s)) @ [?w]"
    using e winvD(1) [OF s] small
    by (auto simp: wallocate_waiter_id_def publish_waiter_def book_ok_def u64_modulus_def)
  have bk: "book_ok (publish_waiter b k (seen r) h) (wsenders s) (card (dom (rxs s) - wdropping s)) ?n"
    using e winvD(1) [OF s] opn
    by (auto simp: wallocate_waiter_id_def publish_waiter_def book_ok_def wrapping_succ_def mod_Suc_eq)
  have dom: "dom ?rs = dom (rxs s)" "dom (results s) \<subseteq> whandles s" using i s by (auto simp: winv_def)
  have none: "results s h = None" using dom(2) h by auto
  have w: "wwaiter_ok v cs (whandles s) (wregs s) w \<Longrightarrow> wwaiter_ok v cs ?hs ?n w" for v cs w
    by (auto simp: wwaiter_ok_def)
  have "wwaiter_ok (version (wst s)) (calls s) ?hs ?n ?w" using eq k(1) by (simp add: wwaiter_ok_def)
  then have ws: "\<forall>w \<in> set (wwaiters (book ?c)). wwaiter_ok (version (wst s)) (calls s) ?hs ?n w"
    using winvD(2) [OF s] w k(2) by auto
  have c: "call_ok (version (wst s)) (wsenders s) ?hs c" if "c \<in> ran (calls s)" for c
    using winvD(3) [OF s that] by (auto simp: call_ok_def)
  have lt: "wregs s < k" using k(1) by simp
  have old: "wreceiver_ok ?c (wsenders s) (calls s) (results s) ?hs ?n q"
    if "wreceiver_ok (wst s) (wsenders s) (calls s) (results s) (whandles s) (wregs s) q" for q
    by (rule wreceiver_ok_mono [OF that]) (auto simp: k(2) lt elim!: parked_ok_mono)
  have ids: "x \<in> set (wwaiters (book (wst s))) \<Longrightarrow> ww_id x \<noteq> k" for x
    using winvD(2) [OF s, of x] k(1) by (auto simp: wwaiter_ok_def)
  have new: "wreceiver_ok ?c (wsenders s) (calls s) (results s) ?hs ?n ?r"
    using none eq ids k(1) k(2) by (simp add: wreceiver_ok_def parked_ok_def)
  have fresh: "map_option fst (wwait q) \<noteq> Some h" if "rxs s j = Some q" for j q
    using winvD(4) [OF s that] h by (auto simp: wreceiver_ok_def)
  have inj: "whandles_inj ?rs"
    using s i fresh by (intro whandles_inj_upd) (auto simp: winv_def)
  show ?thesis
    using s bk dom ws c old new inj by (auto simp: winv_def dest!: ran_updD)
qed

lemma winv_register:
  assumes s: "winv s" and i: "rxs s i = Some r" and h: "h \<notin> whandles s" and small: "wregs s \<le> u64_modulus - 2"
    and e: "wregister (wst s) (r\<lparr>wwait := None\<rparr>) h = (c, r', p)"
  shows "winv (s\<lparr>wst := c, rxs := (rxs s)(i \<mapsto> r'), whandles := insert h (whandles s),
    wregs := (if wwait r' = wwait r \<or> wwait r' = None then wregs s else Suc (wregs s))\<rparr>)"
proof (cases "seen r < version (wst s) \<or> wsender_count (book (wst s)) = 0")
  case True
  then have r': "c = wst s" "wwait r' = None" "seen r \<le> seen r'" "seen r' \<le> version (wst s)"
    using e winvD(4) [OF s i] by (auto simp: wregister_def wreceiver_ok_def split: if_splits)
  then show ?thesis using winv_update_receiver(1) [OF s i _ r'(3,4), of h] by simp
next
  case False
  obtain b k where b: "wallocate_waiter_id (book (wst s)) = (b, k)" by (rule prod.exhaust)
  have r': "c = (wst s)\<lparr>book := publish_waiter b k (seen r) h\<rparr>" "r' = r\<lparr>wwait := Some (h, k)\<rparr>"
    using e False b by (auto simp: wregister_def)
  moreover have "wwait r \<noteq> Some (h, k)" using winvD(4) [OF s i] h by (auto simp: wreceiver_ok_def)
  ultimately show ?thesis using winv_park [OF s i h small _ _ b] False by simp
qed

lemma winv_poll:
  assumes s: "winv s" and i: "rxs s i = Some r" and h: "h \<notin> whandles s" and small: "wregs s \<le> u64_modulus - 2"
    and e: "poll_changed (results s) (wst s) r h = (c, r', p)"
  shows "winv (s\<lparr>wst := c, rxs := (rxs s)(i \<mapsto> r'), whandles := insert h (whandles s),
    wregs := (if wwait r' = wwait r \<or> wwait r' = None then wregs s else Suc (wregs s))\<rparr>)"
proof (cases "wwait r")
  case None
  then have same: "r\<lparr>wwait := None\<rparr> = r" by (cases r) simp
  have "wregister (wst s) r h = (c, r', p)" using e None by (simp add: poll_changed_def)
  then have "wregister (wst s) (r\<lparr>wwait := None\<rparr>) h = (c, r', p)" unfolding same .
  then show ?thesis by (rule winv_register [OF s i h small])
next
  case (Some q)
  obtain g k where q: "q = (g, k)" by (rule prod.exhaust)
  have rok: "seen r \<le> version (wst s)" "\<And>v. results s g = Some (Inr v) \<Longrightarrow> v \<le> version (wst s)"
    using winvD(4) [OF s i] Some q by (auto simp: wreceiver_ok_def)
  consider "results s g = None" | u where "results s g = Some (Inl u)"
    | v where "results s g = Some (Inr v)" "seen r < v" | v where "results s g = Some (Inr v)" "\<not> seen r < v"
    by (metis not_None_eq obj_sumE)
  then show ?thesis
  proof cases
    case 1
    then have "c = wst s" "r' = r" using e Some q by (auto simp: poll_changed_def)
    then show ?thesis using winv_update_receiver(1) [OF s i _ _ rok(1), of h] by simp
  next
    case 2
    then have "c = wst s" "r' = r\<lparr>wwait := None\<rparr>" using e Some q by (auto simp: poll_changed_def)
    then show ?thesis using winv_update_receiver(1) [OF s i, of "r\<lparr>wwait := None\<rparr>" h] rok(1) by simp
  next
    case 3
    then have "c = wst s" "r' = r\<lparr>wwait := None, seen := v\<rparr>" using e Some q by (auto simp: poll_changed_def)
    then show ?thesis
      using winv_update_receiver(1) [OF s i, of "r\<lparr>wwait := None, seen := v\<rparr>" h] rok(2) [OF 3(1)] 3(2) by simp
  next
    case 4
    then have "wregister (wst s) (r\<lparr>wwait := None\<rparr>) h = (c, r', p)" using e Some q by (simp add: poll_changed_def)
    then show ?thesis by (rule winv_register [OF s i h small])
  qed
qed

lemma winv_drop_receiver:
  assumes s: "winv s" and i: "rxs s i = Some r" "i \<notin> wdropping s" and e: "wdrop_receiver (book (wst s)) = Some b"
  shows "winv (s\<lparr>wst := (wst s)\<lparr>book := b\<rparr>, wdropping := insert i (wdropping s)\<rparr>)"
proof -
  have b: "b = (book (wst s))\<lparr>wreceiver_count := wreceiver_count (book (wst s)) - 1\<rparr>"
    using e by (auto simp: wdrop_receiver_def checked_sub_def split: if_splits)
  have "i \<in> dom (rxs s) - wdropping s" using i by auto
  then have "card (dom (rxs s) - insert i (wdropping s)) = card (dom (rxs s) - wdropping s) - 1"
    using winvD(5) [OF s] by (metis Diff_insert card_Diff_singleton)
  then have bk: "book_ok b (wsenders s) (card (dom (rxs s) - insert i (wdropping s))) (wregs s)"
    using winvD(1) [OF s] by (simp add: book_ok_def b)
  have "wreceiver_ok ((wst s)\<lparr>book := b\<rparr>) (wsenders s) (calls s) (results s) (whandles s) (wregs s) q"
    if "wreceiver_ok (wst s) (wsenders s) (calls s) (results s) (whandles s) (wregs s) q" for q
    by (rule wreceiver_ok_mono [OF that]) (auto simp: b)
  then show ?thesis using s bk i(1) by (auto simp: winv_def b)
qed

lemma wremove_waiter_spec:
  obtains ws where "wremove_waiter b i = b\<lparr>wwaiters := ws\<rparr>" and "set ws \<subseteq> set (wwaiters b)"
    and "\<forall>w \<in> set (wwaiters b). ww_id w \<noteq> i \<longrightarrow> w \<in> set ws"
proof (cases "position (\<lambda>w. ww_id w = i) (wwaiters b)")
  case None
  show thesis by (rule that [of "wwaiters b"]) (use None in \<open>auto simp: wremove_waiter_def\<close>)
next
  case (Some k)
  from position_SomeD [OF Some] have k: "k < length (wwaiters b)" "ww_id (wwaiters b ! k) = i" by auto
  have m: "mset (wwaiters b) = add_mset (wwaiters b ! k) (mset (swap_remove k (wwaiters b)))"
    using mset_swap_remove [OF k(1)] nth_mem [OF k(1)] by simp
  from arg_cong [OF m, of set_mset] have "set (wwaiters b) = insert (wwaiters b ! k) (set (swap_remove k (wwaiters b)))"
    by simp
  then show thesis
    using k(2) by (intro that [of "swap_remove k (wwaiters b)"]) (auto simp: wremove_waiter_def Some)
qed

lemma winv_drop_wait:
  assumes s: "winv s" and i: "rxs s i = Some r" "i \<in> wdropping s"
  shows "winv (s\<lparr>wst := (wst s)\<lparr>book := wcancel (book (wst s)) (results s) r\<rparr>, rxs := (rxs s)(i := None),
    wdropping := wdropping s - {i}\<rparr>)"
proof -
  let ?b = "wcancel (book (wst s)) (results s) r"
  obtain ws where b: "?b = (book (wst s))\<lparr>wwaiters := ws\<rparr>" and sub: "set ws \<subseteq> set (wwaiters (book (wst s)))"
    and keep: "\<And>w. w \<in> set (wwaiters (book (wst s))) \<Longrightarrow> w \<notin> set ws \<Longrightarrow> wwait r = Some (ww_handle w, ww_id w)"
  proof (cases "\<exists>h k. wwait r = Some (h, k) \<and> results s h = None")
    case True
    then obtain h k where hk: "wwait r = Some (h, k)" "results s h = None" by blast
    have own: "\<forall>w \<in> set (wwaiters (book (wst s))). ww_id w = k \<longrightarrow> ww_handle w = h"
      using winvD(4) [OF s i(1)] hk by (simp add: wreceiver_ok_def)
    obtain ws where ws: "wremove_waiter (book (wst s)) k = (book (wst s))\<lparr>wwaiters := ws\<rparr>"
      "set ws \<subseteq> set (wwaiters (book (wst s)))"
      "\<forall>w \<in> set (wwaiters (book (wst s))). ww_id w \<noteq> k \<longrightarrow> w \<in> set ws"
      by (rule wremove_waiter_spec [of "book (wst s)" k])
    show thesis
      by (rule that [OF _ ws(2)]) (use hk ws(1,3) own in \<open>auto simp: wcancel_def\<close>)
  next
    case False
    then have "?b = (book (wst s))\<lparr>wwaiters := wwaiters (book (wst s))\<rparr>"
      by (auto simp: wcancel_def split: option.splits)
    then show thesis by (rule that) auto
  qed
  have card: "dom ((rxs s)(i := None)) - (wdropping s - {i}) = dom (rxs s) - wdropping s" using i by auto
  have bk: "book_ok ?b (wsenders s) (card (dom (rxs s) - wdropping s)) (wregs s)"
    using winvD(1) [OF s] sub by (auto simp: book_ok_def b)
  have rok: "wreceiver_ok ((wst s)\<lparr>book := ?b\<rparr>) (wsenders s) (calls s) (results s) (whandles s) (wregs s) q"
    if j: "j \<noteq> i" "rxs s j = Some q" for j q
  proof (rule wreceiver_ok_mono [OF winvD(4) [OF s j(2)]])
    fix h k assume a: "wwait q = Some (h, k)"
    have "wwait r \<noteq> Some (h, k)" using s i(1) j a by (auto simp: winv_def whandles_inj_def)
    then show "parked_ok (wwaiters (book (wst s))) (calls s) q h k \<Longrightarrow>
        parked_ok (wwaiters (book ((wst s)\<lparr>book := ?b\<rparr>))) (calls s) q h k"
      by (auto elim!: parked_ok_mono simp: b dest: keep)
  qed (use sub in \<open>auto simp: b\<close>)
  have inj: "whandles_inj ((rxs s)(i := None))"
    using s by (auto simp: winv_def whandles_inj_def split: if_splits)
  have ran: "\<forall>q \<in> ran ((rxs s)(i := None)).
      wreceiver_ok ((wst s)\<lparr>book := ?b\<rparr>) (wsenders s) (calls s) (results s) (whandles s) (wregs s) q"
    using rok by (auto simp: ran_def split: if_splits)
  show ?thesis
    using s bk card inj ran sub by (auto simp: winv_def b)
qed

text \<open>The functions of the three sends and of the receivers' clones, in the form the lemmas above have.\<close>

lemma winv_send:
  assumes s: "winv s" and pos: "0 < wsenders s" and k: "k \<notin> dom (calls s)"
    and small: "version (wst s) \<le> u64_modulus - 2" and e: "wsend (wst s) v = (c, res)"
  shows "winv (s\<lparr>wst := c, calls := (case res of Inr n \<Rightarrow> (calls s)(k \<mapsto> Bumped n) | Inl _ \<Rightarrow> calls s),
    bumps := (case res of Inr _ \<Rightarrow> Suc (bumps s) | Inl _ \<Rightarrow> bumps s)\<rparr>)"
  using winv_bump [OF s pos k small, of v] s e by (auto simp: wsend_def Let_def split: if_splits)

lemma winv_value:
  assumes "winv s"
  shows "winv (s\<lparr>wst := (wst s)\<lparr>wvalue := v\<rparr>\<rparr>)"
proof -
  have "wreceiver_ok ((wst s)\<lparr>wvalue := v\<rparr>) (wsenders s) (calls s) (results s) (whandles s) (wregs s) r"
    if "wreceiver_ok (wst s) (wsenders s) (calls s) (results s) (whandles s) (wregs s) r" for r
    by (rule wreceiver_ok_mono [OF that]) auto
  then show ?thesis using assms by (simp add: winv_def)
qed

lemma winv_send_if_modified:
  assumes s: "winv s" and pos: "0 < wsenders s" and k: "k \<notin> dom (calls s)"
    and small: "version (wst s) \<le> u64_modulus - 2" and e: "send_if_modified (wst s) g = (c, res)"
  shows "winv (s\<lparr>wst := c, calls := (case res of Some n \<Rightarrow> (calls s)(k \<mapsto> Bumped n) | None \<Rightarrow> calls s),
    bumps := (case res of Some _ \<Rightarrow> Suc (bumps s) | None \<Rightarrow> bumps s)\<rparr>)"
  using winv_bump [OF s pos k small] winv_value [OF s] e
  by (auto simp: send_if_modified_def Let_def split: if_splits prod.splits)

lemma winv_step:
  assumes s: "winv s" and "wstep s l t" and count: "bumps s + wregs s \<le> u64_modulus - 2"
  shows "winv t"
proof -
  have small: "version (wst s) + wregs s \<le> u64_modulus - 2" using s count by (simp add: winv_def)
  from assms(2) show ?thesis
  proof cases
    case w_send
    then show ?thesis using winv_send [OF s] small by simp
  next
    case (w_send_modify k f c n)
    then show ?thesis using winv_bump [OF s, of k "f (wvalue (wst s))"] small by (auto simp: write_value_def Let_def)
  next
    case w_send_if_modified
    then show ?thesis using winv_send_if_modified [OF s] small by simp
  next
    case w_collect
    then show ?thesis using winv_collect [OF s] by simp
  next
    case (w_load k hs)
    have "call_ok (version (wst s)) (wsenders s) (whandles s) (Collected hs)" using winvD(3) [OF s] w_load(3) by (meson ranI)
    then have "call_ok (version (wst s)) (wsenders s) (whandles s) (Completing (version (wst s)) hs)"
      by (simp add: call_ok_def)
    from winv_call [OF s w_load(3) _ _ this, of "{}" "Ok 0"] show ?thesis using w_load(2) by simp
  next
    case (w_complete k n h hs)
    have c: "call_ok (version (wst s)) (wsenders s) (whandles s) (Completing n (h # hs))"
      using winvD(3) [OF s] w_complete(3) by (meson ranI)
    then have "call_ok (version (wst s)) (wsenders s) (whandles s) (Completing n hs)" by (simp add: call_ok_def)
    then show ?thesis unfolding w_complete(2) complete_handle_fun
      by (intro winv_call [OF s w_complete(3)]) (use c in \<open>auto simp: call_ok_def\<close>)
  next
    case (w_return k n)
    then show ?thesis using winv_return [OF s] by fastforce
  next
    case w_clone_sender
    then show ?thesis using winv_clone_sender [OF s] by simp
  next
    case w_drop_sender
    then show ?thesis using winv_drop_sender [OF s] by simp
  next
    case (w_close k h hs)
    have c: "call_ok (version (wst s)) (wsenders s) (whandles s) (Closing (h # hs))"
      using winvD(3) [OF s] w_close(3) by (meson ranI)
    then have "call_ok (version (wst s)) (wsenders s) (whandles s) (Closing hs)" by (simp add: call_ok_def)
    then show ?thesis unfolding w_close(2) complete_handle_fun
      by (intro winv_call [OF s w_close(3)]) (use c in \<open>auto simp: call_ok_def\<close>)
  next
    case (w_subscribe i c r)
    then show ?thesis using winv_new_receiver [OF s, of i r] by (auto simp: wsubscribe_def)
  next
    case (w_clone_receiver j q i c r)
    have "seen q \<le> version (wst s)" using winvD(4) [OF s w_clone_receiver(3)] by (simp add: wreceiver_ok_def)
    then show ?thesis using w_clone_receiver winv_new_receiver [OF s, of i r] by (auto simp: wclone_receiver_def)
  next
    case (w_update i r r' v)
    have "seen r \<le> version (wst s)" using winvD(4) [OF s w_update(3)] by (simp add: wreceiver_ok_def)
    then show ?thesis
      using w_update winv_update_receiver(2) [OF s w_update(3), of r'] by (auto simp: borrow_and_update_def)
  next
    case (w_poll i r h c r' p)
    show ?thesis unfolding w_poll(2)
      by (rule winv_poll [OF s]) (use w_poll small in auto)
  next
    case w_drop_receiver
    then show ?thesis using winv_drop_receiver [OF s] by simp
  next
    case w_drop_wait
    then show ?thesis using winv_drop_wait [OF s] by simp
  qed
qed

interpretation watches: bounded_system winit wstep "\<lambda>s. bumps s + wregs s" "u64_modulus - 2" winv
proof
  show "winv s" if "winit s" for s :: "'v wsys"
  proof -
    have "whandles_inj [0 \<mapsto> \<lparr>seen = 0, wwait = None\<rparr>]" by (auto simp: whandles_inj_def split: if_splits)
    then show ?thesis
      using that
      by (auto simp: winit_def watch_channel_def book_new_def winv_def book_ok_def wreceiver_ok_def u64_modulus_def)
  qed
  show "bumps s + wregs s \<le> bumps t + wregs t" if "wstep s l t" for s t :: "'v wsys" and l
    using that by (rule wstepE) (auto split: sum.splits option.splits)
qed (rule winv_step)

subsection \<open>Properties\<close>

definition wdemo_start :: "nat wsys" where
  "wdemo_start =
     \<lparr>wst = \<lparr>wvalue = 5, version = 0, book = book_new\<rparr>, wsenders = 1, rxs = [0 \<mapsto> \<lparr>seen = 0, wwait = None\<rparr>],
      wdropping = {}, calls = Map.empty, results = Map.empty, whandles = {}, wregs = 0, bumps = 0\<rparr>"

definition wdemo_parked :: "nat wsys" where
  "wdemo_parked = wdemo_start
     \<lparr>wst := \<lparr>wvalue = 5, version = 0, book = book_new\<lparr>wwaiters := [\<lparr>ww_id = 1, ww_version = 0, ww_handle = 2\<rparr>],
        next_watch_id := 2\<rparr>\<rparr>,
      rxs := [0 \<mapsto> \<lparr>seen = 0, wwait = Some (2, 1)\<rparr>], whandles := {2}, wregs := 1\<rparr>"

definition wdemo_bumped :: "nat wsys" where
  "wdemo_bumped = wdemo_parked
     \<lparr>wst := (wst wdemo_parked)\<lparr>wvalue := 6, version := 1\<rparr>, calls := [0 \<mapsto> Bumped 1], bumps := 1\<rparr>"

lemmas wdemo_defs = wdemo_start_def wdemo_parked_def wdemo_bumped_def book_new_def

lemma wdemo_init: "winit wdemo_start"
  unfolding winit_def by (rule exI [of _ 5]) (simp add: wdemo_start_def watch_channel_def)

lemma wdemo_run: "run wstep wdemo_start [(), ()] wdemo_bumped"
proof -
  have "poll_changed (results wdemo_start) (wst wdemo_start) \<lparr>seen = 0, wwait = None\<rparr> 2 =
      (wst wdemo_parked, \<lparr>seen = 0, wwait = Some (2, 1)\<rparr>, Pending)"
    by (simp add: poll_changed_def wregister_def wallocate_waiter_id_def publish_waiter_def wdemo_defs
        wrapping_succ_def u64_modulus_def)
  from w_poll [OF _ _ _ this, of 0] have 1: "wstep wdemo_start () wdemo_parked"
    by (simp add: wdemo_defs)
  have "wsend (wst wdemo_parked) 6 = (wst wdemo_bumped, Ok 1)"
    by (simp add: wsend_def wdemo_defs wrapping_succ_def u64_modulus_def)
  from w_send [OF _ _ this, of 0] have 2: "wstep wdemo_parked () wdemo_bumped"
    by (simp add: wdemo_defs)
  show ?thesis by (rule run_Cons, rule 1, rule run_Cons, rule 2, rule run_Nil)
qed

text \<open>(C10) No lost change. Over every interleaving of sends, collections, completions, polls and drops, a
  receiver that waits without a result and has not seen the current version will be completed: its
  completion is in the hands of a call, or it is registered below the version of a send that has yet
  to collect its waiters. So when no call is in progress, every waiting receiver has seen the
  current version and a sender is alive.\<close>

theorem watch_no_lost_change:
  assumes "winit s" and "run wstep s ls t" and "bumps t + wregs t \<le> u64_modulus - 2"
    and "rxs t i = Some r" and "wwait r = Some (h, k)" and "results t h = None"
  shows "(seen r < version (wst t) \<longrightarrow>
      on_its_way (calls t) h \<or>
      (\<exists>n. Bumped n \<in> ran (calls t) \<and>
         (\<exists>w \<in> set (wwaiters (book (wst t))). ww_handle w = h \<and> ww_version w < n))) \<and>
    (calls t = Map.empty \<longrightarrow> seen r = version (wst t) \<and> 0 < wsenders t)"
proof -
  have inv: "winv t" using watches.inv_reachable assms(1-3) by blast
  have rok: "parked_ok (wwaiters (book (wst t))) (calls t) r h k" "seen r \<le> version (wst t)"
    using winvD(4) [OF inv assms(4)] assms(5,6) by (simp_all add: wreceiver_ok_def)
  have missed: "\<exists>n. Bumped n \<in> ran (calls t) \<and> ww_version w < n"
    if "w \<in> set (wwaiters (book (wst t)))" "ww_version w \<le> seen r" "seen r < version (wst t)" for w
    using winvD(2) [OF inv that(1)] that(2,3) by (simp add: wwaiter_ok_def)
  show ?thesis
  proof (cases "on_its_way (calls t) h")
    case True
    then have "calls t \<noteq> Map.empty" by (auto simp: on_its_way_def)
    then show ?thesis using True by simp
  next
    case False
    then obtain w where w: "w \<in> set (wwaiters (book (wst t)))" "ww_handle w = h" "ww_version w \<le> seen r"
      using rok(1) by (auto simp: parked_ok_def)
    have pos: "0 < wsenders t" using winvD(1) [OF inv] w(1) by (auto simp: book_ok_def)
    then show ?thesis using missed [OF w(1,3)] w rok(2) by (cases "seen r < version (wst t)") auto
  qed
qed

theorem watch_no_lost_change_witness:
  "\<exists>n. Bumped n \<in> ran (calls wdemo_bumped) \<and> (0::nat) < n"
proof -
  have b: "bumps wdemo_bumped + wregs wdemo_bumped \<le> u64_modulus - 2"
    and r: "rxs wdemo_bumped 0 = Some \<lparr>seen = 0, wwait = Some (2, 1)\<rparr>" "results wdemo_bumped 2 = None"
    by (simp_all add: wdemo_defs u64_modulus_def)
  have n: "\<not> on_its_way (calls wdemo_bumped) 2" by (simp add: wdemo_defs on_its_way_def)
  from watch_no_lost_change [OF wdemo_init wdemo_run b r(1) _ r(2)] n
  show ?thesis by (auto simp: wdemo_defs)
qed

text \<open>What a poll of \<open>changed\<close> reports. In every reachable state a successful poll moves the receiver
  to a strictly newer version that exists, an error is only reported when every sender is gone and the
  receiver has seen the final version, and a pending poll leaves it waiting at the version it had.\<close>

theorem watch_poll_sound:
  assumes "winit s" and "run wstep s ls t" and "bumps t + wregs t \<le> u64_modulus - 2"
    and "rxs t i = Some r" and "poll_changed (results t) (wst t) r h = (c, r', p)"
  shows "(p = Ready (Ok ()) \<longrightarrow> seen r < seen r' \<and> seen r' \<le> version (wst t)) \<and>
    (p = Ready (Err ()) \<longrightarrow> wsenders t = 0 \<and> seen r' = version (wst t)) \<and>
    (p = Pending \<longrightarrow> seen r' = seen r \<and> wwait r' \<noteq> None)"
proof -
  have inv: "winv t" using watches.inv_reachable assms(1-3) by blast
  note rok = winvD(4) [OF inv assms(4)]
  have cnt: "wsender_count (book (wst t)) = wsenders t" using winvD(1) [OF inv] by (simp add: book_ok_def)
  have reg: "(p = Ready (Ok ()) \<longrightarrow> seen r < seen r' \<and> seen r' \<le> version (wst t)) \<and>
      (p = Ready (Err ()) \<longrightarrow> wsenders t = 0 \<and> seen r' = version (wst t)) \<and>
      (p = Pending \<longrightarrow> seen r' = seen r \<and> wwait r' \<noteq> None)"
    if "wregister (wst t) q h = (c, r', p)" "seen q = seen r" for q
    using that rok cnt by (auto simp: wregister_def wreceiver_ok_def split: if_splits prod.splits)
  show ?thesis
  proof (cases "wwait r")
    case None
    then show ?thesis using reg [of r] assms(5) by (simp add: poll_changed_def)
  next
    case (Some q)
    obtain g k where q: "q = (g, k)" by (rule prod.exhaust)
    show ?thesis
    proof (cases "\<exists>v. results t g = Some (Inr v) \<and> \<not> seen r < v")
      case True
      then have "wregister (wst t) (r\<lparr>wwait := None\<rparr>) h = (c, r', p)"
        using assms(5) Some q by (auto simp: poll_changed_def)
      then show ?thesis using reg [of "r\<lparr>wwait := None\<rparr>"] by simp
    next
      case False
      then show ?thesis
        using assms(5) Some q rok
        by (auto simp: poll_changed_def wreceiver_ok_def no_change_def split: option.splits sum.splits if_splits)
    qed
  qed
qed

theorem watch_poll_sound_witness:
  "snd (snd (poll_changed (results wdemo_bumped) (wst wdemo_bumped) \<lparr>seen = 0, wwait = Some (2, 1)\<rparr> 7)) = Pending \<and>
   seen (fst (snd (poll_changed (results wdemo_bumped) (wst wdemo_bumped) \<lparr>seen = 0, wwait = Some (2, 1)\<rparr> 7))) = 0"
proof -
  let ?r = "\<lparr>seen = 0, wwait = Some (2, 1)\<rparr>"
  have b: "bumps wdemo_bumped + wregs wdemo_bumped \<le> u64_modulus - 2"
    and r: "rxs wdemo_bumped 0 = Some ?r"
    and p: "poll_changed (results wdemo_bumped) (wst wdemo_bumped) ?r 7 = (wst wdemo_bumped, ?r, Pending)"
    by (simp_all add: wdemo_defs u64_modulus_def poll_changed_def)
  from watch_poll_sound [OF wdemo_init wdemo_run b r p] p show ?thesis by simp
qed

end
