(* ===== verification/Byte_Stream.thy ===== *)
theory Byte_Stream
  imports Prelude "HOL-Library.Word"
begin

text \<open>
  The polling byte I/O interfaces of \<open>src/src/io/traits.rs\<close> and what the adapters use of the
  standard library: checked slicing, \<open>copy_from_slice\<close>, saturating addition and the UTF-8
  validation behind \<open>String::from_utf8\<close>.

  A reader is a function from its state and the destination slice to the new state, the slice
  afterwards and the poll result; a writer takes the bytes offered and the generation of the
  logical write. Implementations are supplied by the user of the library, so they are parameters;
  the locales \<open>byte_source\<close> and \<open>byte_sink\<close> state the documented contract of the two traits over the
  bytes a reader still has to deliver and the bytes a writer has accepted. A panic is \<open>None\<close>.
\<close>

type_synonym byte = "8 word"

datatype error_kind = UnexpectedEof | WriteZero | InvalidData | InvalidInput | BrokenPipe | Interrupted | WouldBlock | TimedOut | Unsupported | OtherKind nat

text \<open>An error made from a kind and a message, or from an operating-system code.\<close>

datatype io_error = Io_Error error_kind string | Os_Error int

type_synonym 'a io_result = "(io_error, 'a) result"

type_synonym 'r reader = "'r \<Rightarrow> byte list \<Rightarrow> ('r \<times> byte list \<times> nat io_result poll) panics"
type_synonym 'w writer = "'w \<Rightarrow> byte list \<Rightarrow> nat \<Rightarrow> ('w \<times> nat io_result poll) panics"
type_synonym 'w flusher = "'w \<Rightarrow> ('w \<times> unit io_result poll) panics"

lemma io_poll_cases [case_names pending err ok]:
  fixes p :: "'a io_result poll"
  obtains "p = Pending" | e where "p = Ready (Err e)" | a where "p = Ready (Ok a)"
  by (metis is_ready.cases old.sum.exhaust)

subsection \<open>Slices\<close>

text \<open>\<open>&xs[a..b]\<close>, which panics unless \<open>a \<le> b \<le> xs.len()\<close>, and \<open>dst[..n].copy_from_slice(s)\<close> with
  \<open>n = s.len()\<close>, which panics when the destination is shorter.\<close>

definition slice :: "nat \<Rightarrow> nat \<Rightarrow> 'a list \<Rightarrow> 'a list panics" where
  "slice a b xs = (if a \<le> b \<and> b \<le> length xs then Some (take (b - a) (drop a xs)) else panic)"

definition copy_into :: "'a list \<Rightarrow> 'a list \<Rightarrow> 'a list panics" where
  "copy_into dst s = (if length s \<le> length dst then Some (s @ drop (length s) dst) else panic)"

definition usize_saturating_add :: "nat \<Rightarrow> nat \<Rightarrow> nat" where
  "usize_saturating_add a b = min (a + b) u64_max"

lemma slice_eq [simp]: "a \<le> b \<Longrightarrow> b \<le> length xs \<Longrightarrow> slice a b xs = Some (take (b - a) (drop a xs))"
  by (simp add: slice_def)

lemma copy_into_eq [simp]: "length s \<le> length dst \<Longrightarrow> copy_into dst s = Some (s @ drop (length s) dst)"
  by (simp add: copy_into_def)

lemma usize_saturating_add_clamped: "m \<le> u64_max \<Longrightarrow> min m (usize_saturating_add a b) = min m (a + b)"
  by (simp add: usize_saturating_add_def)

subsection \<open>UTF-8\<close>

text \<open>The byte length of the first character of a sequence, by the table of well-formed UTF-8
  (no overlong forms, no surrogates, nothing above U+10FFFF); \<open>None\<close> when the sequence does not
  start with a complete well-formed character.\<close>

definition continuation :: "byte \<Rightarrow> bool" where
  "continuation b \<longleftrightarrow> 0x80 \<le> b \<and> b \<le> 0xBF"

definition second_ok :: "byte \<Rightarrow> byte \<Rightarrow> bool" where
  "second_ok b c \<longleftrightarrow> continuation c
     \<and> (b = 0xE0 \<longrightarrow> 0xA0 \<le> c) \<and> (b = 0xED \<longrightarrow> c \<le> 0x9F)
     \<and> (b = 0xF0 \<longrightarrow> 0x90 \<le> c) \<and> (b = 0xF4 \<longrightarrow> c \<le> 0x8F)"

definition sequence_width :: "byte \<Rightarrow> nat option" where
  "sequence_width b =
     (if b < 0x80 then Some 1
      else if 0xC2 \<le> b \<and> b \<le> 0xDF then Some 2
      else if 0xE0 \<le> b \<and> b \<le> 0xEF then Some 3
      else if 0xF0 \<le> b \<and> b \<le> 0xF4 then Some 4
      else None)"

definition char_width :: "byte list \<Rightarrow> nat option" where
  "char_width bs = (case bs of [] \<Rightarrow> None | b # cs \<Rightarrow>
     (case sequence_width b of None \<Rightarrow> None
      | Some w \<Rightarrow>
          if w - 1 \<le> length cs
             \<and> (1 < w \<longrightarrow> second_ok b (hd cs)) \<and> list_all continuation (take (w - 1) cs)
          then Some w else None))"

lemma sequence_width_pos: "sequence_width b = Some w \<Longrightarrow> 0 < w"
  by (auto simp: sequence_width_def split: if_splits)

lemma char_width_pos: "char_width bs = Some w \<Longrightarrow> 0 < w \<and> w \<le> length bs"
  by (auto simp: char_width_def split: list.splits option.splits if_splits dest!: sequence_width_pos)

function (sequential) utf8_valid :: "byte list \<Rightarrow> bool" where
  "utf8_valid [] = True"
| "utf8_valid (b # bs) =
     (case char_width (b # bs) of None \<Rightarrow> False | Some w \<Rightarrow> utf8_valid (drop w (b # bs)))"
  by pat_completeness auto
termination
  by (relation "measure length") (auto dest: char_width_pos)

lemma char_width_append: "char_width a = Some w \<Longrightarrow> char_width (a @ b) = Some w"
  by (auto simp: char_width_def hd_append split: list.splits option.splits if_splits)

lemma utf8_valid_append: "utf8_valid a \<Longrightarrow> utf8_valid (a @ b) \<longleftrightarrow> utf8_valid b"
proof (induction a rule: utf8_valid.induct)
  case (2 c a)
  then obtain w where w: "char_width (c # a) = Some w" by (auto split: option.splits)
  with 2 have "utf8_valid (drop w (c # a))" by simp
  then have "utf8_valid (drop w (c # a) @ b) = utf8_valid b" using 2 w by blast
  moreover have "drop w (c # a) @ b = drop w (c # a @ b)"
    using char_width_pos [OF w] drop_append [of w "c # a" b] by simp
  ultimately show ?case using w char_width_append [OF w, of b] by simp
qed simp

text \<open>An ASCII byte is never inside a multi-byte character, so cutting well-formed text at it gives
  well-formed pieces.\<close>

lemma char_width_before_ascii:
  assumes "char_width (a @ c # b) = Some w" and "c < 0x80" and "a \<noteq> []"
  shows "char_width a = Some w"
proof -
  obtain d a' where a: "a = d # a'" using assms(3) by (cases a) auto
  from assms(1) a have w: "sequence_width d = Some w"
    and len: "w - 1 \<le> length (a' @ c # b)"
    and snd: "1 < w \<longrightarrow> second_ok d (hd (a' @ c # b))"
    and conts: "list_all continuation (take (w - 1) (a' @ c # b))"
    by (auto simp: char_width_def split: option.splits if_splits)
  have nc: "\<not> continuation c" using assms(2) by (simp add: continuation_def not_le)
  have short: "w - 1 \<le> length a'"
  proof (rule ccontr)
    assume "\<not> w - 1 \<le> length a'"
    then have "c \<in> set (take (w - 1) (a' @ c # b))"
      by (cases "w - 1 - length a'") auto
    with conts nc show False by (auto simp: list_all_iff)
  qed
  then have "1 < w \<longrightarrow> hd (a' @ c # b) = hd a'" by (cases a') auto
  with w snd conts short a show ?thesis by (auto simp: char_width_def)
qed

lemma utf8_valid_cut:
  assumes "utf8_valid (a @ c # b)" and "c < 0x80"
  shows "utf8_valid a \<and> utf8_valid b"
  using assms
proof (induction a rule: utf8_valid.induct)
  case 1
  then show ?case by (simp add: char_width_def sequence_width_def)
next
  case (2 d a)
  then obtain w where w: "char_width ((d # a) @ c # b) = Some w" by (auto split: option.splits)
  then have wa: "char_width (d # a) = Some w" using char_width_before_ascii 2(3) by blast
  then have le: "w \<le> length (d # a)" using char_width_pos by blast
  have "utf8_valid (drop w ((d # a) @ c # b))" using 2(2) w by simp
  with le have "utf8_valid (drop w (d # a) @ c # b)" using drop_append [of w "d # a" "c # b"] by simp
  from 2(1) [OF wa this 2(3)] wa show ?case by simp
qed

subsection \<open>The contracts of \<open>AsyncRead\<close> and \<open>AsyncWrite\<close>\<close>

text \<open>\<open>src r\<close> is what the reader still has to deliver. A successful read hands over a prefix of it
  at the front of the destination; zero bytes into a non-empty destination mean the end of input;
  a pending or failed read consumes nothing.\<close>

locale byte_source =
  fixes poll_read :: "'r reader"
    and src :: "'r \<Rightarrow> byte list"
    and ok :: "'r \<Rightarrow> bool"
  assumes read_returns: "ok r \<Longrightarrow> poll_read r b \<noteq> None"
    and read_keeps: "ok r \<Longrightarrow> poll_read r b = Some (r', b', p) \<Longrightarrow> ok r' \<and> length b' = length b"
    and read_delivers: "ok r \<Longrightarrow> poll_read r b = Some (r', b', Ready (Ok n)) \<Longrightarrow>
          n \<le> length b \<and> src r = take n b' @ src r'"
    and read_eof: "ok r \<Longrightarrow> poll_read r b = Some (r', b', Ready (Ok 0)) \<Longrightarrow> b \<noteq> [] \<Longrightarrow> src r = []"
    and read_err: "ok r \<Longrightarrow> poll_read r b = Some (r', b', Ready (Err e)) \<Longrightarrow> src r' = src r"
    and read_pending: "ok r \<Longrightarrow> poll_read r b = Some (r', b', Pending) \<Longrightarrow> src r' = src r"
begin

text \<open>One read, by its result.\<close>

lemma read_cases:
  assumes "ok r"
  obtains
    (pending) r' b' where "poll_read r b = Some (r', b', Pending)" "ok r'" "length b' = length b"
      "src r' = src r"
  | (err) r' b' e where "poll_read r b = Some (r', b', Ready (Err e))" "ok r'" "length b' = length b"
      "src r' = src r"
  | (ok) r' b' n where "poll_read r b = Some (r', b', Ready (Ok n))" "ok r'" "length b' = length b"
      "n \<le> length b" "src r = take n b' @ src r'" "n = 0 \<Longrightarrow> b \<noteq> [] \<Longrightarrow> src r = [] \<and> src r' = []"
proof -
  obtain r' b' p where e: "poll_read r b = Some (r', b', p)"
    using read_returns [OF assms, of b] by fastforce
  have k: "ok r'" "length b' = length b" using read_keeps [OF assms e] by auto
  show thesis
  proof (cases p)
    case Pending
    with e k show ?thesis using read_pending [OF assms] pending by blast
  next
    case (Ready res)
    then show ?thesis
    proof (cases res)
      case (Inl x)
      with Ready e k show ?thesis using read_err [OF assms] err by blast
    next
      case (Inr n)
      with Ready e have e': "poll_read r b = Some (r', b', Ready (Ok n))" by simp
      have d: "n \<le> length b" "src r = take n b' @ src r'" using read_delivers [OF assms e'] by auto
      have "n = 0 \<Longrightarrow> b \<noteq> [] \<Longrightarrow> src r = [] \<and> src r' = []"
        using read_eof [OF assms] e' d by auto
      with e' k d ok show ?thesis by blast
    qed
  qed
qed

end

text \<open>\<open>out w\<close> is what the writer has accepted, \<open>sunk w\<close> what it has passed on for good; a successful
  flush makes the two equal.\<close>

locale byte_sink =
  fixes poll_write :: "'w writer"
    and poll_flush :: "'w flusher"
    and poll_close :: "'w flusher"
    and out :: "'w \<Rightarrow> byte list"
    and sunk :: "'w \<Rightarrow> byte list"
    and wok :: "'w \<Rightarrow> bool"
  assumes write_returns: "wok w \<Longrightarrow> poll_write w b g \<noteq> None"
    and write_keeps: "wok w \<Longrightarrow> poll_write w b g = Some (w', p) \<Longrightarrow> wok w'"
    and write_accepts: "wok w \<Longrightarrow> poll_write w b g = Some (w', Ready (Ok n)) \<Longrightarrow>
          n \<le> length b \<and> out w' = out w @ take n b"
    and write_err: "wok w \<Longrightarrow> poll_write w b g = Some (w', Ready (Err e)) \<Longrightarrow> out w' = out w"
    and write_pending: "wok w \<Longrightarrow> poll_write w b g = Some (w', Pending) \<Longrightarrow> out w' = out w"
    and flush_returns: "wok w \<Longrightarrow> poll_flush w \<noteq> None"
    and flush_keeps: "wok w \<Longrightarrow> poll_flush w = Some (w', q) \<Longrightarrow> wok w' \<and> out w' = out w"
    and flush_sinks: "wok w \<Longrightarrow> poll_flush w = Some (w', Ready (Ok ())) \<Longrightarrow> sunk w' = out w'"
    and close_returns: "wok w \<Longrightarrow> poll_close w \<noteq> None"
    and close_keeps: "wok w \<Longrightarrow> poll_close w = Some (w', q) \<Longrightarrow> wok w' \<and> out w' = out w"
    and close_sinks: "wok w \<Longrightarrow> poll_close w = Some (w', Ready (Ok ())) \<Longrightarrow> sunk w' = out w'"
begin

lemma write_cases:
  assumes "wok w"
  obtains
    (pending) w' where "poll_write w b g = Some (w', Pending)" "wok w'" "out w' = out w"
  | (err) w' e where "poll_write w b g = Some (w', Ready (Err e))" "wok w'" "out w' = out w"
  | (ok) w' n where "poll_write w b g = Some (w', Ready (Ok n))" "wok w'" "n \<le> length b"
      "out w' = out w @ take n b"
proof -
  obtain w' p where e: "poll_write w b g = Some (w', p)"
    using write_returns [OF assms, of b g] by fastforce
  have k: "wok w'" using write_keeps [OF assms e] .
  show thesis
  proof (cases p)
    case Pending
    with e k show ?thesis using write_pending [OF assms] pending by blast
  next
    case (Ready res)
    then show ?thesis
      using e k write_err [OF assms] write_accepts [OF assms] err ok by (cases res) blast+
  qed
qed

end

subsection \<open>Provided vectored methods\<close>

text \<open>The default \<open>poll_read_vectored\<close> and \<open>poll_write_vectored\<close> use the first non-empty slice.\<close>

fun poll_read_vectored ::
  "'r reader \<Rightarrow> 'r \<Rightarrow> byte list list \<Rightarrow> ('r \<times> byte list list \<times> nat io_result poll) panics" where
  "poll_read_vectored pr r [] = Some (r, [], Ready (Ok 0))"
| "poll_read_vectored pr r (b # bs) =
     (if b = []
      then map_option (\<lambda>(r', bs', p). (r', b # bs', p)) (poll_read_vectored pr r bs)
      else map_option (\<lambda>(r', b', p). (r', b' # bs, p)) (pr r b))"

definition poll_write_vectored :: "'w writer \<Rightarrow> 'w \<Rightarrow> byte list list \<Rightarrow> nat \<Rightarrow> ('w \<times> nat io_result poll) panics" where
  "poll_write_vectored pw w bs g =
     (case List.find (\<lambda>b. b \<noteq> []) bs of Some b \<Rightarrow> pw w b g | None \<Rightarrow> Some (w, Ready (Ok 0)))"

text \<open>Both deliver or accept a prefix of what the concatenated slices hold.\<close>

lemma find_nonempty_concat:
  "List.find (\<lambda>b. b \<noteq> []) bs = Some b \<Longrightarrow> \<exists>rest. concat bs = b @ rest"
  by (induction bs) (auto split: if_splits)

lemma find_nonempty_None: "List.find (\<lambda>b. b \<noteq> []) bs = None \<longleftrightarrow> concat bs = []"
  by (induction bs) auto

context byte_source
begin

lemma read_vectored_delivers:
  assumes "ok r" and "poll_read_vectored poll_read r bs = Some (r', bs', Ready (Ok n))"
  shows "n \<le> length (concat bs) \<and> src r = take n (concat bs') @ src r' \<and> map length bs' = map length bs
    \<and> (n = 0 \<and> concat bs \<noteq> [] \<longrightarrow> src r = [])"
  using assms
proof (induction bs arbitrary: bs')
  case (Cons b bs)
  show ?case
  proof (cases "b = []")
    case True
    with Cons show ?thesis by fastforce
  next
    case False
    with Cons.prems(2) obtain b' where e: "poll_read r b = Some (r', b', Ready (Ok n))" and bs': "bs' = b' # bs"
      by auto
    show ?thesis
      using read_delivers [OF Cons.prems(1) e] read_keeps [OF Cons.prems(1) e]
        read_eof [OF Cons.prems(1)] e False bs' by auto
  qed
qed simp

end

context byte_sink
begin

lemma write_vectored_accepts:
  assumes "wok w" and "poll_write_vectored poll_write w bs g = Some (w', Ready (Ok n))"
  shows "n \<le> length (concat bs) \<and> out w' = out w @ take n (concat bs)"
proof (cases "List.find (\<lambda>b. b \<noteq> []) bs")
  case None
  with assms show ?thesis by (simp add: poll_write_vectored_def)
next
  case (Some b)
  then obtain rest where c: "concat bs = b @ rest" using find_nonempty_concat by blast
  from Some assms(2) have "poll_write w b g = Some (w', Ready (Ok n))"
    by (simp add: poll_write_vectored_def)
  from write_accepts [OF assms(1) this] c show ?thesis by simp
qed

end

end
