(* ===== verification/Buf_Reader.thy ===== *)
theory Buf_Reader
  imports Byte_Stream
begin

text \<open>
  \<open>BufReader\<close> of \<open>src/src/io/buf.rs\<close>: the internal buffer with its cursor \<open>pos .. filled\<close>, the
  partial line that a cancelled \<open>read_line\<close> leaves behind, and every operation on them. The lemmas
  show that a buffered reader over a byte source is itself a byte source whose remaining bytes are
  the partial line, the unread buffer and the inner reader's bytes, in this order: buffering,
  cancellation and failed reads lose nothing and repeat nothing.
\<close>

definition isize_max :: nat where
  "isize_max = 2 ^ 63 - 1"

lemma isize_max_le: "isize_max \<le> u64_max"
  by (simp add: isize_max_def u64_max_def u64_modulus_def)

text \<open>\<open>Vec::extend_from_slice\<close> and \<open>String::push_str\<close> panic when the length would exceed
  \<open>isize::MAX\<close>.\<close>

definition vec_extend :: "'a list \<Rightarrow> 'a list \<Rightarrow> 'a list panics" where
  "vec_extend v s = (if length v + length s \<le> isize_max then Some (v @ s) else panic)"

lemma vec_extend_eq [simp]: "length v + length s \<le> isize_max \<Longrightarrow> vec_extend v s = Some (v @ s)"
  by (simp add: vec_extend_def)

subsection \<open>State and operations\<close>

record 'r buf_reader =
  br_inner :: 'r
  br_buf :: "byte list"
  br_pos :: nat
  br_filled :: nat
  br_line_buf :: "byte list"
  br_line_pos :: nat

definition br_with_capacity :: "nat \<Rightarrow> 'r \<Rightarrow> 'r buf_reader panics" where
  "br_with_capacity capacity r =
     (if max capacity 1 \<le> isize_max
      then Some \<lparr>br_inner = r, br_buf = replicate (max capacity 1) 0, br_pos = 0, br_filled = 0,
                 br_line_buf = [], br_line_pos = 0\<rparr>
      else panic)"

definition DEFAULT_BUF_SIZE :: nat where
  "DEFAULT_BUF_SIZE = 8 * 1024"

definition br_new :: "'r \<Rightarrow> 'r buf_reader panics" where
  "br_new r = br_with_capacity DEFAULT_BUF_SIZE r"

definition br_buffer :: "'r buf_reader \<Rightarrow> byte list panics" where
  "br_buffer this =
     (if br_line_pos this < length (br_line_buf this)
      then slice (br_line_pos this) (length (br_line_buf this)) (br_line_buf this)
      else slice (br_pos this) (br_filled this) (br_buf this))"

definition consume_buffer :: "nat \<Rightarrow> 'r buf_reader \<Rightarrow> 'r buf_reader" where
  "consume_buffer amount this =
     (if br_line_pos this < length (br_line_buf this)
      then (let lp = min (length (br_line_buf this)) (usize_saturating_add (br_line_pos this) amount) in
            if lp = length (br_line_buf this)
            then this\<lparr>br_line_buf := [], br_line_pos := 0\<rparr>
            else this\<lparr>br_line_pos := lp\<rparr>)
      else this\<lparr>br_pos := min (br_filled this) (usize_saturating_add (br_pos this) amount)\<rparr>)"

definition compact_line_buffer :: "'r buf_reader \<Rightarrow> 'r buf_reader panics" where
  "compact_line_buffer this =
     (if 0 < br_line_pos this
      then (if br_line_pos this \<le> length (br_line_buf this)
            then Some (this\<lparr>br_line_buf := drop (br_line_pos this) (br_line_buf this), br_line_pos := 0\<rparr>)
            else panic)
      else Some this)"

definition unread_buffered :: "'r buf_reader \<Rightarrow> nat panics" where
  "unread_buffered this = do {
     a \<leftarrow> checked_sub (length (br_line_buf this)) (br_line_pos this);
     b \<leftarrow> checked_sub (br_filled this) (br_pos this);
     Some (usize_saturating_add a b) }"

definition clear_buffers :: "'r buf_reader \<Rightarrow> 'r buf_reader" where
  "clear_buffers this = this\<lparr>br_pos := 0, br_filled := 0, br_line_buf := [], br_line_pos := 0\<rparr>"

text \<open>The refill shared by \<open>fill_buf\<close>, \<open>poll_fill_buf\<close> and \<open>read_line\<close>: the inner read goes into the
  internal buffer, and the cursor moves only when it succeeds.\<close>

definition refill :: "'r reader \<Rightarrow> 'r buf_reader \<Rightarrow> ('r buf_reader \<times> unit io_result poll) panics" where
  "refill pr this =
     (if br_pos this = br_filled this
      then do {
        (r, b, p) \<leftarrow> pr (br_inner this) (br_buf this);
        let this = this\<lparr>br_inner := r, br_buf := b\<rparr>;
        Some (case p of
            Pending \<Rightarrow> (this, Pending)
          | Ready (Inl e) \<Rightarrow> (this, Ready (Err e))
          | Ready (Inr n) \<Rightarrow> (this\<lparr>br_pos := 0, br_filled := n\<rparr>, Ready (Ok ()))) }
      else Some (this, Ready (Ok ())))"

definition poll_fill_buf ::
  "'r reader \<Rightarrow> 'r buf_reader \<Rightarrow> ('r buf_reader \<times> byte list io_result poll) panics" where
  "poll_fill_buf pr this =
     (if br_line_pos this < length (br_line_buf this)
      then do {
        s \<leftarrow> slice (br_line_pos this) (length (br_line_buf this)) (br_line_buf this);
        Some (this, Ready (Ok s)) }
      else do {
        (this, p) \<leftarrow> refill pr this;
        case p of
          Pending \<Rightarrow> Some (this, Pending)
        | Ready (Inl e) \<Rightarrow> Some (this, Ready (Err e))
        | Ready (Inr _) \<Rightarrow> do {
            s \<leftarrow> slice (br_pos this) (br_filled this) (br_buf this);
            Some (this, Ready (Ok s)) } })"

definition br_poll_read :: "'r reader \<Rightarrow> 'r buf_reader reader" where
  "br_poll_read pr this dst =
     (if dst = [] then Some (this, dst, Ready (Ok 0))
      else if br_line_pos this < length (br_line_buf this) then
        (let read = min (length dst) (length (br_line_buf this) - br_line_pos this) in do {
           s \<leftarrow> slice (br_line_pos this) (br_line_pos this + read) (br_line_buf this);
           dst \<leftarrow> copy_into dst s;
           Some (consume_buffer read this, dst, Ready (Ok read)) })
      else if br_pos this < br_filled this then
        (let read = min (length dst) (br_filled this - br_pos this) in do {
           s \<leftarrow> slice (br_pos this) (br_pos this + read) (br_buf this);
           dst \<leftarrow> copy_into dst s;
           Some (this\<lparr>br_pos := br_pos this + read\<rparr>, dst, Ready (Ok read)) })
      else if length (br_buf this) \<le> length dst then do {
        (r, dst, p) \<leftarrow> pr (br_inner this) dst;
        Some (this\<lparr>br_inner := r\<rparr>, dst, p) }
      else do {
        (r, b, p) \<leftarrow> pr (br_inner this) (br_buf this);
        let this = this\<lparr>br_inner := r, br_buf := b\<rparr>;
        case p of
          Pending \<Rightarrow> Some (this, dst, Pending)
        | Ready (Inl e) \<Rightarrow> Some (this, dst, Ready (Err e))
        | Ready (Inr n) \<Rightarrow>
            (let read = min (length dst) n in do {
               s \<leftarrow> slice 0 read b;
               dst \<leftarrow> copy_into dst s;
               Some (this\<lparr>br_pos := read, br_filled := n\<rparr>, dst, Ready (Ok read)) }) })"

text \<open>\<open>read_line\<close>. The loop of one poll either parks in the inner read, fails, or leaves the
  complete line in \<open>line_buf\<close>; a later poll of the same future re-enters it, and a new future first
  compacts what an earlier, cancelled one left.\<close>

definition newline :: byte where
  "newline = 10"

partial_function (option) read_line_loop ::
  "'r reader \<Rightarrow> 'r buf_reader \<Rightarrow> ('r buf_reader \<times> unit io_result poll) option" where
  "read_line_loop pr this = do {
     (this, p) \<leftarrow> refill pr this;
     (case p of
        Pending \<Rightarrow> Some (this, Pending)
      | Ready (Inl e) \<Rightarrow> Some (this, Ready (Err e))
      | Ready (Inr _) \<Rightarrow> do {
          available \<leftarrow> slice (br_pos this) (br_filled this) (br_buf this);
          (if available = [] then Some (this, Ready (Ok ()))
           else do {
             let n = (case position (\<lambda>b. b = newline) available of
                        Some i \<Rightarrow> i + 1 | None \<Rightarrow> length available);
             let found_newline = (last (take n available) = newline);
             line \<leftarrow> vec_extend (br_line_buf this) (take n available);
             let this = this\<lparr>br_line_buf := line, br_pos := br_pos this + n\<rparr>;
             (if found_newline then Some (this, Ready (Ok ())) else read_line_loop pr this) }) }) }"

definition string_from_utf8 :: "byte list \<Rightarrow> byte list io_result" where
  "string_from_utf8 bytes =
     (if utf8_valid bytes then Ok bytes else Err (Io_Error InvalidData ''invalid utf-8''))"

definition read_line_poll ::
  "'r reader \<Rightarrow> bool \<Rightarrow> 'r buf_reader \<Rightarrow> byte list \<Rightarrow> ('r buf_reader \<times> byte list \<times> nat io_result poll) panics" where
  "read_line_poll pr started this str = do {
     this \<leftarrow> (if started then Some this else compact_line_buffer this);
     (this, p) \<leftarrow> read_line_loop pr this;
     case p of
       Pending \<Rightarrow> Some (this, str, Pending)
     | Ready (Inl e) \<Rightarrow> Some (this, str, Ready (Err e))
     | Ready (Inr _) \<Rightarrow>
         (let bytes = br_line_buf this; this = this\<lparr>br_line_buf := [], br_line_pos := 0\<rparr> in
          (case string_from_utf8 bytes of
             Inl e \<Rightarrow> Some (this, str, Ready (Err e))
           | Inr line \<Rightarrow> do {
               str \<leftarrow> vec_extend str line;
               Some (this, str, Ready (Ok (length bytes))) })) }"

subsection \<open>The invariant and the remaining bytes\<close>

definition unread :: "'r buf_reader \<Rightarrow> byte list" where
  "unread this = take (br_filled this - br_pos this) (drop (br_pos this) (br_buf this))"

definition partial_line :: "'r buf_reader \<Rightarrow> byte list" where
  "partial_line this = drop (br_line_pos this) (br_line_buf this)"

definition br_rest :: "('r \<Rightarrow> byte list) \<Rightarrow> 'r buf_reader \<Rightarrow> byte list" where
  "br_rest src this = unread this @ src (br_inner this)"

definition br_src :: "('r \<Rightarrow> byte list) \<Rightarrow> 'r buf_reader \<Rightarrow> byte list" where
  "br_src src this = partial_line this @ br_rest src this"

definition br_ok :: "('r \<Rightarrow> bool) \<Rightarrow> 'r buf_reader \<Rightarrow> bool" where
  "br_ok ok this \<longleftrightarrow> ok (br_inner this) \<and> br_buf this \<noteq> [] \<and> length (br_buf this) \<le> isize_max
     \<and> br_pos this \<le> br_filled this \<and> br_filled this \<le> length (br_buf this)
     \<and> br_line_pos this \<le> length (br_line_buf this) \<and> length (br_line_buf this) \<le> isize_max
     \<and> newline \<notin> set (br_line_buf this)"

lemmas br_defs = unread_def partial_line_def br_rest_def br_src_def

lemma br_okD:
  assumes "br_ok ok this"
  shows "ok (br_inner this)" "br_buf this \<noteq> []" "length (br_buf this) \<le> isize_max"
    "br_pos this \<le> br_filled this" "br_filled this \<le> length (br_buf this)"
    "br_line_pos this \<le> length (br_line_buf this)" "length (br_line_buf this) \<le> isize_max"
    "newline \<notin> set (br_line_buf this)"
  using assms by (auto simp: br_ok_def)

lemma br_with_capacity_ok:
  assumes "br_with_capacity c r = Some this" and "ok r"
  shows "br_ok ok this \<and> br_src src this = src r"
  using assms by (auto simp: br_with_capacity_def br_ok_def br_defs split: if_splits)

text \<open>What the cursor moves do to the remaining bytes.\<close>

lemma saturating_clamp:
  "m \<le> isize_max \<Longrightarrow> min m (usize_saturating_add a b) = min m (a + b)"
  using isize_max_le usize_saturating_add_clamped le_trans by blast

lemma drop_min: "drop (min (length xs) k) xs = drop k xs"
  by (simp add: min_def)

lemma take_drop_min: "take (f - min f k) (drop (min f k) xs) = drop k (take f xs)"
  by (simp add: min_def drop_take)

lemma consume_line:
  assumes "br_ok ok this" and "br_line_pos this < length (br_line_buf this)"
  shows "br_ok ok (consume_buffer n this) \<and>
    br_src src (consume_buffer n this) = drop n (partial_line this) @ br_rest src this"
proof -
  let ?t = "consume_buffer n this"
  have c: "min (length (br_line_buf this)) (usize_saturating_add (br_line_pos this) n)
      = min (length (br_line_buf this)) (br_line_pos this + n)"
    using br_okD(7) [OF assms(1)] by (rule saturating_clamp)
  have "br_ok ok ?t"
    using assms(1) c by (auto simp: consume_buffer_def br_ok_def Let_def)
  moreover have "partial_line ?t = drop n (partial_line this)"
    using assms(2) c by (auto simp: consume_buffer_def partial_line_def Let_def min_def add.commute)
  moreover have "br_rest src ?t = br_rest src this"
    using assms(2) by (simp add: consume_buffer_def br_rest_def unread_def Let_def)
  ultimately show ?thesis by (simp add: br_src_def)
qed

lemma consume_unread:
  assumes "br_ok ok this" and "\<not> br_line_pos this < length (br_line_buf this)"
  shows "br_ok ok (consume_buffer n this) \<and>
    br_src src (consume_buffer n this) = drop n (unread this) @ src (br_inner this)"
proof -
  let ?t = "consume_buffer n this"
  have "br_filled this \<le> isize_max" using br_okD(3,5) [OF assms(1)] by linarith
  then have c: "min (br_filled this) (usize_saturating_add (br_pos this) n) = min (br_filled this) (br_pos this + n)"
    by (rule saturating_clamp)
  have t: "?t = this\<lparr>br_pos := min (br_filled this) (br_pos this + n)\<rparr>"
    using assms(2) c by (simp add: consume_buffer_def)
  have "br_ok ok ?t" using assms(1) t by (simp add: br_ok_def)
  moreover have "unread ?t = drop n (unread this)"
    by (simp add: t unread_def take_drop_min drop_take add.commute)
  moreover have "partial_line ?t = []" using assms(2) t by (simp add: partial_line_def)
  ultimately show ?thesis using t by (simp add: br_src_def br_rest_def)
qed

text \<open>The slice \<open>buffer()\<close> is a prefix of the remaining bytes, and consuming \<open>n\<close> of them drops
  \<open>n\<close> bytes from the front of the slice.\<close>

lemma br_buffer_eq:
  assumes "br_ok ok this"
  shows "br_buffer this =
    Some (if br_line_pos this < length (br_line_buf this) then partial_line this else unread this)"
  using br_okD [OF assms] by (simp add: br_buffer_def partial_line_def unread_def)

lemma consume_buffer_spec:
  assumes "br_ok ok this" and "br_buffer this = Some s"
  shows "br_ok ok (consume_buffer n this) \<and>
    br_src src this = s @ drop (length s) (br_src src this) \<and>
    br_src src (consume_buffer n this) = drop (min n (length s)) (br_src src this)"
proof (cases "br_line_pos this < length (br_line_buf this)")
  case True
  then have "s = partial_line this" using br_buffer_eq [OF assms(1)] assms(2) by simp
  then show ?thesis using consume_line [OF assms(1) True, of n src]
    by (auto simp: br_src_def min_def)
next
  case False
  then have "s = unread this" "partial_line this = []"
    using br_buffer_eq [OF assms(1)] assms(2) by (auto simp: partial_line_def)
  then show ?thesis using consume_unread [OF assms(1) False, of n src]
    by (auto simp: br_src_def br_rest_def min_def)
qed

lemma compact_line_buffer_spec:
  assumes "br_ok ok this"
  obtains t where "compact_line_buffer this = Some t" "br_ok ok t" "br_line_pos t = 0"
    "br_line_buf t = partial_line this" "br_rest src t = br_rest src this"
proof (cases "0 < br_line_pos this")
  case True
  let ?t = "this\<lparr>br_line_buf := drop (br_line_pos this) (br_line_buf this), br_line_pos := 0\<rparr>"
  have "compact_line_buffer this = Some ?t"
    using br_okD(6) [OF assms] True by (simp add: compact_line_buffer_def)
  moreover have "br_ok ok ?t" using assms by (auto simp: br_ok_def dest: in_set_dropD)
  ultimately show ?thesis using that by (simp add: partial_line_def br_rest_def unread_def)
next
  case False
  then show ?thesis using that [of this] assms
    by (simp add: compact_line_buffer_def partial_line_def)
qed

subsection \<open>A buffered byte source is a byte source\<close>

context byte_source
begin

lemma refill_cases:
  assumes "br_ok ok this"
  obtains
    (pending) t where "refill poll_read this = Some (t, Pending)" "br_ok ok t"
      "br_line_buf t = br_line_buf this" "br_line_pos t = br_line_pos this"
      "br_rest src t = br_rest src this"
  | (err) t e where "refill poll_read this = Some (t, Ready (Err e))" "br_ok ok t"
      "br_line_buf t = br_line_buf this" "br_line_pos t = br_line_pos this"
      "br_rest src t = br_rest src this"
  | (ok) t where "refill poll_read this = Some (t, Ready (Ok ()))" "br_ok ok t"
      "br_line_buf t = br_line_buf this" "br_line_pos t = br_line_pos this"
      "br_rest src t = br_rest src this" "unread t = [] \<Longrightarrow> br_rest src this = []"
proof (cases "br_pos this = br_filled this")
  case False
  then have "unread this \<noteq> []" using br_okD(4,5) [OF assms] by (simp add: unread_def)
  with False ok [of this] assms show ?thesis by (simp add: refill_def)
next
  case True
  have e: "unread this = []" using True by (simp add: unread_def)
  note okd = br_okD [OF assms]
  from okd(1) show ?thesis
  proof (cases rule: read_cases [where b = "br_buf this"])
    case (pending r b)
    let ?t = "this\<lparr>br_inner := r, br_buf := b\<rparr>"
    have "br_ok ok ?t" using pending okd True by (auto simp: br_ok_def)
    moreover have "br_rest src ?t = br_rest src this"
      using pending True by (simp add: br_rest_def unread_def)
    ultimately show ?thesis using that(1) [of ?t] pending(1) True by (simp add: refill_def)
  next
    case (err r b x)
    let ?t = "this\<lparr>br_inner := r, br_buf := b\<rparr>"
    have "br_ok ok ?t" using err okd True by (auto simp: br_ok_def)
    moreover have "br_rest src ?t = br_rest src this"
      using err True by (simp add: br_rest_def unread_def)
    ultimately show ?thesis using that(2) [of ?t x] err(1) True by (simp add: refill_def)
  next
    case (ok r b n)
    let ?t = "this\<lparr>br_inner := r, br_buf := b, br_pos := 0, br_filled := n\<rparr>"
    have "br_ok ok ?t" using ok okd by (auto simp: br_ok_def)
    moreover have u: "unread ?t = take n b" by (simp add: unread_def)
    moreover have "br_rest src ?t = br_rest src this"
      using ok u e by (simp add: br_rest_def)
    moreover have "unread ?t = [] \<Longrightarrow> br_rest src this = []"
      using u ok(3,4,6) okd(2) e by (auto simp: br_rest_def)
    ultimately show ?thesis using that(3) [of ?t] ok(1) True by (simp add: refill_def)
  qed
qed

text \<open>\<open>poll_fill_buf\<close> shows a prefix of the remaining bytes and an empty slice only at their end.\<close>

lemma poll_fill_buf_spec:
  assumes "br_ok ok this"
  obtains t p where "poll_fill_buf poll_read this = Some (t, p)" "br_ok ok t" "br_src src t = br_src src this"
    "\<And>s. p = Ready (Ok s) \<Longrightarrow> br_buffer t = Some s \<and> (s = [] \<longrightarrow> br_src src this = [])"
proof (cases "br_line_pos this < length (br_line_buf this)")
  case True
  then show ?thesis using that [of this "Ready (Ok (partial_line this))"] assms br_okD(6) [OF assms]
    by (auto simp: poll_fill_buf_def br_buffer_eq partial_line_def)
next
  case False
  then have pl: "partial_line this = []" by (simp add: partial_line_def)
  from assms show ?thesis
  proof (cases rule: refill_cases)
    case (pending t)
    then show ?thesis using that [of t Pending] False
      by (simp add: poll_fill_buf_def br_src_def partial_line_def)
  next
    case (err t e)
    then show ?thesis using that [of t "Ready (Err e)"] False
      by (simp add: poll_fill_buf_def br_src_def partial_line_def)
  next
    case (ok t)
    then have "slice (br_pos t) (br_filled t) (br_buf t) = Some (unread t)"
      using br_okD(4,5) [OF ok(2)] by (simp add: unread_def)
    then have "poll_fill_buf poll_read this = Some (t, Ready (Ok (unread t)))"
      using ok(1) False by (simp add: poll_fill_buf_def)
    then show ?thesis using that ok False pl br_buffer_eq [OF ok(2)]
      by (simp add: br_src_def partial_line_def)
  qed
qed

lemma br_poll_read_line_part:
  assumes "br_ok ok this" and "dst \<noteq> []" and "br_line_pos this < length (br_line_buf this)"
  obtains n t dst' where "br_poll_read poll_read this dst = Some (t, dst', Ready (Ok n))" "br_ok ok t"
    "length dst' = length dst" "0 < n" "n \<le> length dst" "br_src src this = take n dst' @ br_src src t"
proof -
  define n where "n = min (length dst) (length (br_line_buf this) - br_line_pos this)"
  let ?s = "take n (partial_line this)"
  have len: "length ?s = n" by (simp add: n_def partial_line_def)
  have n: "0 < n" "n \<le> length dst" using assms by (auto simp: n_def)
  have "br_line_pos this + n \<le> length (br_line_buf this)" using assms(3) by (simp add: n_def)
  then have "br_poll_read poll_read this dst =
      Some (consume_buffer n this, ?s @ drop n dst, Ready (Ok n))"
    using assms(2,3) len n by (simp add: br_poll_read_def n_def [symmetric] partial_line_def Let_def)
  moreover have "br_src src this = ?s @ br_src src (consume_buffer n this)"
    using consume_line [OF assms(1,3), of n src] by (simp add: br_src_def)
  ultimately show ?thesis using that consume_line [OF assms(1,3)] len n by simp
qed

lemma br_poll_read_unread_part:
  assumes "br_ok ok this" and "dst \<noteq> []" and "\<not> br_line_pos this < length (br_line_buf this)"
    and "br_pos this < br_filled this"
  obtains n t dst' where "br_poll_read poll_read this dst = Some (t, dst', Ready (Ok n))" "br_ok ok t"
    "length dst' = length dst" "0 < n" "n \<le> length dst" "br_src src this = take n dst' @ br_src src t"
proof -
  define n where "n = min (length dst) (br_filled this - br_pos this)"
  let ?s = "take n (unread this)" and ?t = "this\<lparr>br_pos := br_pos this + n\<rparr>"
  note okd = br_okD [OF assms(1)]
  have len: "length ?s = n" using okd by (simp add: n_def unread_def)
  have n: "0 < n" "n \<le> length dst" "br_pos this + n \<le> br_filled this"
    using assms by (auto simp: n_def)
  have s: "take n (drop (br_pos this) (br_buf this)) = ?s" using n by (simp add: unread_def min_def)
  have "br_poll_read poll_read this dst = Some (?t, ?s @ drop n dst, Ready (Ok n))"
    using assms(2,3,4) len n okd s by (simp add: br_poll_read_def n_def [symmetric] Let_def)
  moreover have "br_ok ok ?t" using assms(1) n by (simp add: br_ok_def)
  moreover have "unread ?t = drop n (unread this)"
    by (simp add: unread_def drop_take add.commute)
  ultimately show ?thesis using that [of ?t "?s @ drop n dst" n] len n assms(3)
    by (simp add: br_src_def br_rest_def partial_line_def)
qed

lemma br_poll_read_direct:
  assumes "br_ok ok this" and "dst \<noteq> []" and "\<not> br_line_pos this < length (br_line_buf this)"
    and "\<not> br_pos this < br_filled this" and "length (br_buf this) \<le> length dst"
  obtains r b p where "poll_read (br_inner this) dst = Some (r, b, p)"
    "br_poll_read poll_read this dst = Some (this\<lparr>br_inner := r\<rparr>, b, p)" "br_ok ok (this\<lparr>br_inner := r\<rparr>)"
    "br_src src this = src (br_inner this)" "br_src src (this\<lparr>br_inner := r\<rparr>) = src r"
proof -
  have okd: "ok (br_inner this)" using br_okD(1) [OF assms(1)] .
  obtain r b p where e: "poll_read (br_inner this) dst = Some (r, b, p)"
    using read_returns [OF okd, of dst] by fastforce
  have "br_ok ok (this\<lparr>br_inner := r\<rparr>)" using read_keeps [OF okd e] assms(1) by (simp add: br_ok_def)
  then show ?thesis using that [OF e] assms e by (simp add: br_poll_read_def br_defs)
qed

lemma br_poll_read_refill:
  assumes "br_ok ok this" and "dst \<noteq> []" and "\<not> br_line_pos this < length (br_line_buf this)"
    and "\<not> br_pos this < br_filled this" and "\<not> length (br_buf this) \<le> length dst"
  obtains
    (pending) t where "br_poll_read poll_read this dst = Some (t, dst, Pending)" "br_ok ok t"
      "br_src src t = br_src src this"
  | (err) t e where "br_poll_read poll_read this dst = Some (t, dst, Ready (Err e))" "br_ok ok t"
      "br_src src t = br_src src this"
  | (ok) t n dst' where "br_poll_read poll_read this dst = Some (t, dst', Ready (Ok n))" "br_ok ok t"
      "length dst' = length dst" "n \<le> length dst" "br_src src this = take n dst' @ br_src src t"
      "n = 0 \<Longrightarrow> br_src src this = []"
proof -
  note okd = br_okD [OF assms(1)]
  have eq: "br_pos this = br_filled this" using okd(4) assms(4) by simp
  have s0: "br_src src this = src (br_inner this)" using assms(3) eq by (simp add: br_defs)
  from okd(1) show ?thesis
  proof (cases rule: read_cases [where b = "br_buf this"])
    case (pending r b)
    let ?t = "this\<lparr>br_inner := r, br_buf := b\<rparr>"
    have "br_ok ok ?t" using pending okd eq by (auto simp: br_ok_def)
    then show ?thesis using that(1) [of ?t] pending assms(2-5) s0 eq
      by (simp add: br_poll_read_def br_defs)
  next
    case (err r b x)
    let ?t = "this\<lparr>br_inner := r, br_buf := b\<rparr>"
    have "br_ok ok ?t" using err okd eq by (auto simp: br_ok_def)
    then show ?thesis using that(2) [of ?t x] err assms(2-5) s0 eq
      by (simp add: br_poll_read_def br_defs)
  next
    case (ok r b n)
    let ?k = "min (length dst) n"
    let ?t = "this\<lparr>br_inner := r, br_buf := b, br_pos := ?k, br_filled := n\<rparr>"
    have kb: "?k \<le> length b" using ok(3,4) by simp
    have t: "br_ok ok ?t" using ok okd by (auto simp: br_ok_def)
    have r: "br_poll_read poll_read this dst = Some (?t, take ?k b @ drop ?k dst, Ready (Ok ?k))"
      using ok(1) kb assms(2-5) by (simp add: br_poll_read_def Let_def min.absorb1 min.absorb2)
    have "br_src src ?t = drop ?k (take n b) @ src r"
      using assms(3) by (simp add: br_defs drop_take)
    moreover have "take ?k b = take ?k (take n b)" by simp
    ultimately have s: "br_src src this = take ?k b @ br_src src ?t"
      using s0 ok(5) by (metis append_assoc append_take_drop_id)
    have z: "?k = 0 \<Longrightarrow> br_src src this = []" using assms(2) ok(6) okd(2) s0 by (simp add: min_def split: if_splits)
    show ?thesis by (rule that(3) [OF r t]) (use kb s z in simp_all)
  qed
qed

text \<open>The contract of \<open>AsyncRead\<close> for the buffered reader.\<close>

lemma br_read_cases:
  assumes "br_ok ok this"
  obtains
    (pending) t dst' where "br_poll_read poll_read this dst = Some (t, dst', Pending)" "br_ok ok t"
      "length dst' = length dst" "br_src src t = br_src src this"
  | (err) t dst' e where "br_poll_read poll_read this dst = Some (t, dst', Ready (Err e))" "br_ok ok t"
      "length dst' = length dst" "br_src src t = br_src src this"
  | (ok) t n dst' where "br_poll_read poll_read this dst = Some (t, dst', Ready (Ok n))" "br_ok ok t"
      "length dst' = length dst" "n \<le> length dst" "br_src src this = take n dst' @ br_src src t"
      "n = 0 \<Longrightarrow> dst \<noteq> [] \<Longrightarrow> br_src src this = []"
proof -
  consider "dst = []" | "dst \<noteq> []" "br_line_pos this < length (br_line_buf this)"
    | "dst \<noteq> []" "\<not> br_line_pos this < length (br_line_buf this)" "br_pos this < br_filled this"
    | "dst \<noteq> []" "\<not> br_line_pos this < length (br_line_buf this)" "\<not> br_pos this < br_filled this"
      "length (br_buf this) \<le> length dst"
    | "dst \<noteq> []" "\<not> br_line_pos this < length (br_line_buf this)" "\<not> br_pos this < br_filled this"
      "\<not> length (br_buf this) \<le> length dst"
    by blast
  then show thesis
  proof cases
    case 1
    then show ?thesis using that(3) [of this "[]" 0] assms by (simp add: br_poll_read_def)
  next
    case 2
    then show ?thesis using br_poll_read_line_part [OF assms 2] that(3) by (metis less_numeral_extra(3))
  next
    case 3
    then show ?thesis using br_poll_read_unread_part [OF assms 3] that(3) by (metis less_numeral_extra(3))
  next
    case 4
    then obtain r b p where d: "poll_read (br_inner this) dst = Some (r, b, p)"
      "br_poll_read poll_read this dst = Some (this\<lparr>br_inner := r\<rparr>, b, p)" "br_ok ok (this\<lparr>br_inner := r\<rparr>)"
      "br_src src this = src (br_inner this)" "br_src src (this\<lparr>br_inner := r\<rparr>) = src r"
      using br_poll_read_direct [OF assms 4] by metis
    from br_okD(1) [OF assms] show ?thesis
      by (cases rule: read_cases [where b = dst]) (use d that in \<open>simp_all; metis\<close>)+
  next
    case 5
    from assms 5 show ?thesis
      by (cases rule: br_poll_read_refill) (use that in \<open>simp_all\<close>)
  qed
qed

end

text \<open>Hence buffered readers stack: the contract holds of \<open>BufReader<R>\<close> whenever it holds of \<open>R\<close>.\<close>

lemma br_byte_source:
  assumes "byte_source pr src ok"
  shows "byte_source (br_poll_read pr) (br_src src) (br_ok ok)"
proof
  fix r b r' b' n e p
  assume r: "br_ok ok r"
  note c = byte_source.br_read_cases [OF assms r, of b]
  show "br_poll_read pr r b \<noteq> None" by (rule c) auto
  show "br_ok ok r' \<and> length b' = length b" if "br_poll_read pr r b = Some (r', b', p)"
    by (rule c) (use that in auto)
  show "n \<le> length b \<and> br_src src r = take n b' @ br_src src r'"
    if "br_poll_read pr r b = Some (r', b', Ready (Ok n))" by (rule c) (use that in auto)
  show "br_src src r = []" if "br_poll_read pr r b = Some (r', b', Ready (Ok 0))" "b \<noteq> []"
    by (rule c) (use that in auto)
  show "br_src src r' = br_src src r" if "br_poll_read pr r b = Some (r', b', Ready (Err e))"
    by (rule c) (use that in auto)
  show "br_src src r' = br_src src r" if "br_poll_read pr r b = Some (r', b', Pending)"
    by (rule c) (use that in auto)
qed

subsection \<open>Reading lines\<close>

text \<open>The reference: the bytes up to and including the first newline, or all of them.\<close>

fun first_line :: "byte list \<Rightarrow> byte list" where
  "first_line [] = []"
| "first_line (b # bs) = (if b = newline then [b] else b # first_line bs)"

lemma first_line_append: "newline \<notin> set a \<Longrightarrow> first_line (a @ b) = a @ first_line b"
  by (induction a) auto

lemma first_line_prefix: "first_line xs @ drop (length (first_line xs)) xs = xs"
  by (induction xs) auto

lemma first_line_no_newline: "newline \<notin> set a \<Longrightarrow> first_line a = a"
  by (induction a) auto

text \<open>The chunk \<open>read_line\<close> takes from the available bytes.\<close>

definition line_chunk :: "byte list \<Rightarrow> nat" where
  "line_chunk available =
     (case position (\<lambda>b. b = newline) available of Some i \<Rightarrow> i + 1 | None \<Rightarrow> length available)"

lemma line_chunk_Cons:
  "line_chunk (b # bs) = (if b = newline then 1 else Suc (line_chunk bs))"
  by (simp add: line_chunk_def split: option.splits)

abbreviation found_newline :: "byte list \<Rightarrow> bool" where
  "found_newline available \<equiv> last (take (line_chunk available) available) = newline"

lemma line_chunk_cases:
  assumes "xs \<noteq> []"
  shows "0 < line_chunk xs \<and> line_chunk xs \<le> length xs \<and>
    (found_newline xs \<longrightarrow> (\<forall>ys. first_line (xs @ ys) = take (line_chunk xs) xs)) \<and>
    (\<not> found_newline xs \<longrightarrow> line_chunk xs = length xs \<and> newline \<notin> set xs)"
  using assms
proof (induction xs)
  case (Cons b bs)
  show ?case
  proof (cases "b = newline")
    case True
    then show ?thesis by (simp add: line_chunk_Cons)
  next
    case False
    then show ?thesis
    proof (cases "bs = []")
      case True
      with False show ?thesis by (simp add: line_chunk_Cons) (simp add: line_chunk_def)
    next
      case ne: False
      then have "take (line_chunk bs) bs \<noteq> []" using Cons.IH by auto
      with Cons.IH [OF ne] False show ?thesis by (auto simp: line_chunk_Cons)
    qed
  qed
qed simp

lemmas read_line_loop_unfold = read_line_loop.simps [folded line_chunk_def]

definition take_chunk :: "'r buf_reader \<Rightarrow> 'r buf_reader" where
  "take_chunk t = t\<lparr>br_line_buf := br_line_buf t @ take (line_chunk (unread t)) (unread t),
                    br_pos := br_pos t + line_chunk (unread t)\<rparr>"

lemma length_unread: "br_ok ok t \<Longrightarrow> length (unread t) = br_filled t - br_pos t"
  by (auto simp: unread_def br_ok_def)

text \<open>Taking a chunk moves bytes from the buffer to the partial line; it completes the line exactly
  when the chunk ends in a newline.\<close>

lemma take_chunk_moves:
  "br_rest src t = take (line_chunk (unread t)) (unread t) @ br_rest src (take_chunk t)"
proof -
  have "unread (take_chunk t) = drop (line_chunk (unread t)) (unread t)"
    by (simp add: take_chunk_def unread_def drop_take add.commute)
  then show ?thesis by (simp add: br_rest_def take_chunk_def)
qed

lemma take_chunk_line:
  assumes "newline \<notin> set (br_line_buf t)" and "unread t \<noteq> []"
  shows "if found_newline (unread t)
    then br_line_buf (take_chunk t) = first_line (br_line_buf t @ br_rest src t)
    else length (br_line_buf (take_chunk t)) \<le> length (first_line (br_line_buf t @ br_rest src t))"
proof -
  note lc = line_chunk_cases [OF assms(2)]
  have fl: "first_line (br_line_buf t @ br_rest src t) = br_line_buf t @ first_line (unread t @ src (br_inner t))"
    using first_line_append [OF assms(1)] by (simp add: br_rest_def)
  show ?thesis
  proof (cases "found_newline (unread t)")
    case True
    with lc fl show ?thesis by (simp add: take_chunk_def)
  next
    case False
    with lc first_line_append [of "unread t"] fl show ?thesis by (simp add: take_chunk_def)
  qed
qed

lemma take_chunk_ok:
  assumes "br_ok ok t" and "unread t \<noteq> []" and "length (br_line_buf (take_chunk t)) \<le> isize_max"
  shows "br_ok ok ((take_chunk t)\<lparr>br_line_buf := [], br_line_pos := 0\<rparr>)"
    and "\<not> found_newline (unread t) \<Longrightarrow> br_ok ok (take_chunk t)"
proof -
  have "br_pos t + line_chunk (unread t) \<le> br_filled t"
    using line_chunk_cases [OF assms(2)] length_unread [OF assms(1)] br_okD(4) [OF assms(1)] by auto
  with assms(1) show "br_ok ok ((take_chunk t)\<lparr>br_line_buf := [], br_line_pos := 0\<rparr>)"
    by (simp add: br_ok_def take_chunk_def)
  assume "\<not> found_newline (unread t)"
  then have "newline \<notin> set (unread t)" using line_chunk_cases [OF assms(2)] by blast
  with assms \<open>br_pos t + _ \<le> _\<close> show "br_ok ok (take_chunk t)"
    by (auto simp: br_ok_def take_chunk_def dest: in_set_takeD)
qed

definition line_result ::
  "('r \<Rightarrow> byte list) \<Rightarrow> ('r \<Rightarrow> bool) \<Rightarrow> byte list \<Rightarrow> 'r buf_reader \<times> unit io_result poll \<Rightarrow> bool" where
  "line_result src ok todo res \<longleftrightarrow> (case res of
       (t, Ready (Inr _)) \<Rightarrow> br_ok ok (t\<lparr>br_line_buf := [], br_line_pos := 0\<rparr>)
         \<and> br_line_buf t = first_line todo \<and> br_line_buf t @ br_rest src t = todo
     | (t, _) \<Rightarrow> br_ok ok t \<and> br_line_pos t = 0 \<and> br_line_buf t @ br_rest src t = todo)"

context byte_source
begin

lemma read_line_loop_chunk:
  assumes "refill poll_read this = Some (t, Ready (Ok ()))" and "br_ok ok t" and "unread t \<noteq> []"
    and "length (br_line_buf (take_chunk t)) \<le> isize_max"
  shows "read_line_loop poll_read this =
    (if found_newline (unread t) then Some (take_chunk t, Ready (Ok ()))
     else read_line_loop poll_read (take_chunk t))"
proof -
  have sl: "slice (br_pos t) (br_filled t) (br_buf t) = Some (unread t)"
    using br_okD(4,5) [OF assms(2)] by (simp add: unread_def)
  have "vec_extend (br_line_buf t) (take (line_chunk (unread t)) (unread t)) = Some (br_line_buf (take_chunk t))"
    using assms(4) by (simp add: take_chunk_def)
  with sl assms(1,3) show ?thesis
    by (subst read_line_loop_unfold) (simp add: take_chunk_def Let_def)
qed

lemma read_line_loop_spec:
  assumes "br_ok ok this" and "br_line_pos this = 0"
    and "length (first_line (br_line_buf this @ br_rest src this)) \<le> isize_max"
  shows "\<exists>res. read_line_loop poll_read this = Some res
    \<and> line_result src ok (br_line_buf this @ br_rest src this) res"
  using assms
proof (induction "length (br_rest src this)" arbitrary: this rule: less_induct)
  case less
  note nl = br_okD(8) [OF less.prems(1)]
  from less.prems(1) show ?case
  proof (cases rule: refill_cases)
    case (pending t)
    then show ?thesis using less.prems by (subst read_line_loop.simps) (simp add: line_result_def)
  next
    case (err t e)
    then show ?thesis using less.prems by (subst read_line_loop.simps) (simp add: line_result_def)
  next
    case (ok t)
    show ?thesis
    proof (cases "unread t = []")
      case True
      then have "br_rest src this = []" using ok(6) by simp
      then have "line_result src ok (br_line_buf this @ br_rest src this) (t, Ready (Ok ()))"
        using ok nl first_line_no_newline by (auto simp: line_result_def br_ok_def)
      moreover have "read_line_loop poll_read this = Some (t, Ready (Ok ()))"
        using br_okD(4,5) [OF ok(2)] True
        by (subst read_line_loop.simps) (simp add: ok(1) unread_def)
      ultimately show ?thesis by blast
    next
      case False
      let ?u = "take_chunk t"
      have line: "br_line_buf t @ br_rest src t = br_line_buf this @ br_rest src this" using ok by simp
      note tl = take_chunk_line [OF br_okD(8) [OF ok(2)] False, of src, unfolded line]
      have len: "length (br_line_buf ?u) \<le> isize_max"
        using tl less.prems(3) by (auto split: if_splits)
      note step = read_line_loop_chunk [OF ok(1,2) False len]
      have same: "br_line_buf ?u @ br_rest src ?u = br_line_buf this @ br_rest src this"
        using take_chunk_moves [of src t] line by (simp add: take_chunk_def)
      show ?thesis
      proof (cases "found_newline (unread t)")
        case True
        with tl take_chunk_ok(1) [OF ok(2) False len] same step show ?thesis
          by (auto simp: line_result_def)
      next
        case no: False
        have "length (br_rest src ?u) < length (br_rest src this)"
          using take_chunk_moves [of src t] line_chunk_cases [OF False] ok(5) by simp
        moreover have "br_line_pos ?u = 0" using ok(4) less.prems(2) by (simp add: take_chunk_def)
        ultimately show ?thesis
          using less.hyps [of ?u] take_chunk_ok(2) [OF ok(2) False len no] less.prems(3) same step no by simp
      qed
    qed
  qed
qed

text \<open>One poll of \<open>read_line\<close>.\<close>

lemma read_line_poll_spec:
  assumes "br_ok ok this" and "started \<Longrightarrow> br_line_pos this = 0"
    and "length str + length (first_line (br_src src this)) \<le> isize_max"
  obtains t str' p where "read_line_poll poll_read started this str = Some (t, str', p)" "br_ok ok t"
    "br_line_pos t = 0"
    "case p of
       Ready (Inr n) \<Rightarrow> str' = str @ first_line (br_src src this) \<and> n = length (first_line (br_src src this))
         \<and> utf8_valid (first_line (br_src src this)) \<and> br_src src this = first_line (br_src src this) @ br_src src t
     | Ready (Inl e) \<Rightarrow> str' = str \<and> (br_src src t = br_src src this
         \<or> e = Io_Error InvalidData ''invalid utf-8'' \<and> \<not> utf8_valid (first_line (br_src src this))
           \<and> br_src src this = first_line (br_src src this) @ br_src src t)
     | Pending \<Rightarrow> str' = str \<and> br_src src t = br_src src this"
proof -
  obtain c where c: "(if started then Some this else compact_line_buffer this) = Some c" "br_ok ok c"
      "br_line_pos c = 0" "br_line_buf c @ br_rest src c = br_src src this"
  proof (cases started)
    case True
    then show ?thesis using that [of this] assms(1,2) by (simp add: br_src_def partial_line_def)
  next
    case False
    then show ?thesis
      by (rule_tac compact_line_buffer_spec [OF assms(1), of src]) (use that in \<open>simp add: br_src_def\<close>)
  qed
  have "length (first_line (br_line_buf c @ br_rest src c)) \<le> isize_max" using c(4) assms(3) by simp
  then obtain t p where l: "read_line_loop poll_read c = Some (t, p)" "line_result src ok (br_src src this) (t, p)"
    using read_line_loop_spec [OF c(2,3)] c(4) by auto
  have src: "br_line_pos u = 0 \<Longrightarrow> br_src src u = br_line_buf u @ br_rest src u" for u
    by (simp add: br_src_def partial_line_def)
  show thesis
  proof (cases p)
    case Pending
    with c(1) l src show ?thesis
      using that [of t str Pending] by (auto simp: read_line_poll_def line_result_def)
  next
    case (Ready r)
    show ?thesis
    proof (cases r)
      case (Inl e)
      with Ready c(1) l src show ?thesis
        using that [of t str "Ready (Inl e)"] by (auto simp: read_line_poll_def line_result_def)
    next
      case (Inr x)
      let ?u = "t\<lparr>br_line_buf := [], br_line_pos := 0\<rparr>" and ?fl = "first_line (br_src src this)"
      from Inr Ready l(2) have r: "br_ok ok ?u" "br_line_buf t = ?fl" "?fl @ br_rest src t = br_src src this"
        by (auto simp: line_result_def)
      have u: "br_src src ?u = br_rest src t" by (simp add: br_defs)
      show ?thesis
      proof (cases "utf8_valid ?fl")
        case True
        then have "read_line_poll poll_read started this str = Some (?u, str @ ?fl, Ready (Ok (length ?fl)))"
          using c(1) l(1) Ready Inr r(2) assms(3) by (simp add: read_line_poll_def string_from_utf8_def Let_def)
        then show ?thesis using that True r u by simp
      next
        case False
        then have "read_line_poll poll_read started this str =
            Some (?u, str, Ready (Err (Io_Error InvalidData ''invalid utf-8'')))"
          using c(1) l(1) Ready Inr r(2) by (simp add: read_line_poll_def string_from_utf8_def Let_def)
        then show ?thesis using that False r u by simp
      qed
    qed
  qed
qed

end



subsection \<open>Seeking\<close>

datatype seek_from = Start nat | End int | Current int

text \<open>A relative seek is moved back by the bytes read ahead; \<open>i64::try_from\<close> and \<open>checked_sub\<close> are the
  two ways it can be refused.\<close>

definition seek_target :: "'r buf_reader \<Rightarrow> seek_from \<Rightarrow> seek_from io_result panics" where
  "seek_target this whence = (case whence of
       Current offset \<Rightarrow> do {
         n \<leftarrow> unread_buffered this;
         Some (if isize_max < n then Err (Io_Error InvalidInput ''buffered data exceeds seek range'')
               else if offset - int n < - (2 ^ 63)
               then Err (Io_Error InvalidInput ''buffered seek offset overflowed'')
               else Ok (Current (offset - int n))) }
     | _ \<Rightarrow> Some (Ok whence))"

definition br_poll_seek ::
  "('r \<Rightarrow> seek_from \<Rightarrow> ('r \<times> nat io_result poll) panics) \<Rightarrow>
   'r buf_reader \<Rightarrow> seek_from \<Rightarrow> ('r buf_reader \<times> nat io_result poll) panics" where
  "br_poll_seek ps this whence = do {
     target \<leftarrow> seek_target this whence;
     (case target of
        Inl e \<Rightarrow> Some (this, Ready (Err e))
      | Inr whence \<Rightarrow> do {
          (r, p) \<leftarrow> ps (br_inner this) whence;
          let this = this\<lparr>br_inner := r\<rparr>;
          (case p of
             Ready (Inr n) \<Rightarrow> Some (clear_buffers this, Ready (Ok n))
           | Ready (Inl e) \<Rightarrow> Some (this, Ready (Err e))
           | Pending \<Rightarrow> Some (this, Pending)) }) }"

lemma unread_buffered_eq:
  assumes "br_ok ok this"
  shows "unread_buffered this = Some (length (partial_line this @ unread this))"
proof -
  note okd = br_okD [OF assms]
  have "length (br_line_buf this) - br_line_pos this + (br_filled this - br_pos this) \<le> u64_max"
    using okd by (simp add: isize_max_def u64_max_def u64_modulus_def)
  then show ?thesis using okd length_unread [OF assms]
    by (simp add: unread_buffered_def partial_line_def usize_saturating_add_def checked_sub_def)
qed

lemma br_poll_seek_cases:
  assumes "br_poll_seek ps this whence = Some (t, p)"
  obtains
    (refused) e where "t = this" "p = Ready (Err e)" "seek_target this whence = Some (Err e)"
  | (inner) w r where "seek_target this whence = Some (Ok w)" "ps (br_inner this) w = Some (r, p)"
      "t = (case p of Ready (Inr _) \<Rightarrow> clear_buffers (this\<lparr>br_inner := r\<rparr>) | _ \<Rightarrow> this\<lparr>br_inner := r\<rparr>)"
proof -
  from assms obtain target where target: "seek_target this whence = Some target"
    by (auto simp: br_poll_seek_def bind_eq_Some_conv)
  show thesis
  proof (cases target)
    case (Inl e)
    with assms target show ?thesis using refused by (auto simp: br_poll_seek_def)
  next
    case (Inr w)
    with assms target obtain r q where q: "ps (br_inner this) w = Some (r, q)"
      by (auto simp: br_poll_seek_def bind_eq_Some_conv)
    have "p = q \<and> t = (case q of Ready (Inr _) \<Rightarrow> clear_buffers (this\<lparr>br_inner := r\<rparr>) | _ \<Rightarrow> this\<lparr>br_inner := r\<rparr>)"
      using assms target Inr q by (auto simp: br_poll_seek_def Let_def split: poll.splits sum.splits)
    with inner target Inr q show ?thesis by blast
  qed
qed

lemma clear_buffers_ok:
  "br_ok ok this \<Longrightarrow> ok r \<Longrightarrow> br_ok ok (clear_buffers (this\<lparr>br_inner := r\<rparr>))
     \<and> br_src src (clear_buffers (this\<lparr>br_inner := r\<rparr>)) = src r"
  by (simp add: br_ok_def clear_buffers_def br_defs)

text \<open>A successful relative seek lands \<open>offset\<close> bytes from the reader's own position, which is the inner
  position less the bytes read ahead; it leaves nothing buffered.\<close>

lemma br_seek_relative:
  assumes "br_ok ok this" and "br_poll_seek ps this (Current offset) = Some (t, Ready (Ok n))"
    and "\<And>r d r' k. ps r (Current d) = Some (r', Ready (Ok k)) \<Longrightarrow> ok r' \<and> cursor r' = k \<and> int k = int (cursor r) + d"
  shows "br_ok ok t \<and> br_src src t = src (br_inner t) \<and> cursor (br_inner t) = n \<and>
    int n = int (cursor (br_inner this)) - int (length (partial_line this @ unread this)) + offset"
proof -
  let ?d = "offset - int (length (partial_line this @ unread this))"
  from assms(2) obtain r where "ps (br_inner this) (Current ?d) = Some (r, Ready (Ok n))"
    and t: "t = clear_buffers (this\<lparr>br_inner := r\<rparr>)"
  proof (cases rule: br_poll_seek_cases)
    case (inner w r)
    moreover from inner(1) have "w = Current ?d"
      using unread_buffered_eq [OF assms(1)] by (auto simp: seek_target_def split: if_splits)
    ultimately show ?thesis using that by simp
  qed simp
  then have "ok r \<and> cursor r = n
      \<and> int n = int (cursor (br_inner this)) + (offset - int (length (partial_line this @ unread this)))"
    using assms(3) by blast
  moreover have "br_inner t = r" using t by (simp add: clear_buffers_def)
  ultimately show ?thesis using clear_buffers_ok [OF assms(1), of r src] t by simp
qed

text \<open>A refused, failed or pending seek keeps the buffered bytes.\<close>

lemma br_seek_keeps:
  assumes "br_ok ok this" and "br_poll_seek ps this whence = Some (t, p)" and "\<And>n. p \<noteq> Ready (Ok n)"
  shows "partial_line t = partial_line this \<and> unread t = unread this"
  using assms(2)
proof (cases rule: br_poll_seek_cases)
  case (inner w r)
  then show ?thesis using assms(3) by (auto simp: partial_line_def unread_def split: poll.splits sum.splits)
qed simp

subsection \<open>The in-memory reader\<close>

text \<open>\<open>ChunkedReader\<close>, the in-memory reader beside the adapters: it hands out at most \<open>max_read\<close> bytes
  at a time.\<close>

record chunked_reader =
  cr_data :: "byte list"
  cr_pos :: nat
  cr_max_read :: nat

definition cr_poll_read :: "chunked_reader reader" where
  "cr_poll_read this dst = do {
     remaining \<leftarrow> checked_sub (length (cr_data this)) (cr_pos this);
     let n = min (min remaining (length dst)) (cr_max_read this);
     s \<leftarrow> slice (cr_pos this) (cr_pos this + n) (cr_data this);
     dst \<leftarrow> copy_into dst s;
     Some (this\<lparr>cr_pos := cr_pos this + n\<rparr>, dst, Ready (Ok n)) }"

definition cr_src :: "chunked_reader \<Rightarrow> byte list" where
  "cr_src this = drop (cr_pos this) (cr_data this)"

definition cr_ok :: "chunked_reader \<Rightarrow> bool" where
  "cr_ok this \<longleftrightarrow> cr_pos this \<le> length (cr_data this) \<and> 0 < cr_max_read this"

lemma cr_poll_read_eq:
  assumes "cr_ok this" and "n = min (min (length (cr_src this)) (length dst)) (cr_max_read this)"
  shows "cr_poll_read this dst =
    Some (this\<lparr>cr_pos := cr_pos this + n\<rparr>, take n (cr_src this) @ drop n dst, Ready (Ok n))"
proof -
  have "cr_pos this + n \<le> length (cr_data this)" using assms by (auto simp: cr_ok_def cr_src_def)
  then show ?thesis using assms
    by (simp add: cr_poll_read_def cr_ok_def cr_src_def checked_sub_def Let_def min.assoc min.commute min.left_commute)
qed

interpretation chunked: byte_source cr_poll_read cr_src cr_ok
proof
  fix r r' :: chunked_reader and b b' :: "byte list" and n e p
  assume r: "cr_ok r"
  let ?n = "min (min (length (cr_src r)) (length b)) (cr_max_read r)"
  note e = cr_poll_read_eq [OF r refl, of b]
  have s: "cr_src (r\<lparr>cr_pos := cr_pos r + ?n\<rparr>) = drop ?n (cr_src r)"
    by (simp add: cr_src_def add.commute)
  have ok': "cr_ok (r\<lparr>cr_pos := cr_pos r + ?n\<rparr>)" using r by (auto simp: cr_ok_def cr_src_def)
  show "cr_poll_read r b \<noteq> None" using e by simp
  show "cr_ok r' \<and> length b' = length b" if "cr_poll_read r b = Some (r', b', p)"
    using that e ok' by auto
  show "n \<le> length b \<and> cr_src r = take n b' @ cr_src r'" if "cr_poll_read r b = Some (r', b', Ready (Ok n))"
    using that e s by auto
  show "cr_src r = []" if "cr_poll_read r b = Some (r', b', Ready (Ok 0))" "b \<noteq> []"
    using that e r by (auto simp: cr_ok_def min_def split: if_splits)
  show "cr_src r' = cr_src r" if "cr_poll_read r b = Some (r', b', Ready (Err e))" using that e by simp
  show "cr_src r' = cr_src r" if "cr_poll_read r b = Some (r', b', Pending)" using that e by simp
qed

interpretation buffered: byte_source "br_poll_read cr_poll_read" "br_src cr_src" "br_ok cr_ok"
  by (rule br_byte_source) (rule chunked.byte_source_axioms)

subsection \<open>Correctness of the buffered reader\<close>

text \<open>(C29) Buffering is transparent. Over any reader that keeps the contract of \<open>AsyncRead\<close>, a read
  through \<open>BufReader\<close> returns without a panic, keeps the buffer's invariant, and a successful read of
  \<open>n\<close> bytes delivers exactly the next \<open>n\<close> bytes of the stream (partial line, then buffer, then inner
  reader); \<open>Ok(0)\<close> into a non-empty slice means the end of the stream, and a pending or failed inner
  read neither loses nor repeats a byte.\<close>

theorem buf_reader_transparent:
  assumes "byte_source pr src ok" and "br_ok ok this"
  shows "\<exists>t dst' p. br_poll_read pr this dst = Some (t, dst', p) \<and> br_ok ok t \<and> length dst' = length dst \<and>
    (case p of
       Ready (Inr n) \<Rightarrow> n \<le> length dst \<and> br_src src this = take n dst' @ br_src src t \<and>
         (n = 0 \<longrightarrow> dst = [] \<or> br_src src this = [])
     | _ \<Rightarrow> br_src src t = br_src src this)"
  by (rule byte_source.br_read_cases [OF assms, of dst]) auto

theorem buf_reader_transparent_witness:
  "\<exists>t dst' p. br_poll_read cr_poll_read
       \<lparr>br_inner = \<lparr>cr_data = [1, 2, 3, 4], cr_pos = 3, cr_max_read = 2\<rparr>, br_buf = [2, 3], br_pos = 1, br_filled = 2,
        br_line_buf = [1], br_line_pos = 0\<rparr> [0, 0] = Some (t, dst', p) \<and> p = Ready (Ok 1) \<and> hd dst' = 1"
proof -
  let ?r = "\<lparr>br_inner = \<lparr>cr_data = [1, 2, 3, 4], cr_pos = 3, cr_max_read = 2\<rparr>, br_buf = [2, 3], br_pos = 1,
    br_filled = 2, br_line_buf = [1], br_line_pos = 0\<rparr> :: chunked_reader buf_reader"
  have "br_ok cr_ok ?r" by (simp add: br_ok_def cr_ok_def isize_max_def newline_def)
  from buf_reader_transparent [OF chunked.byte_source_axioms this, of "[0, 0]"]
  show ?thesis
    by (auto simp: br_poll_read_def slice_def copy_into_def)
qed

text \<open>\<open>read_line\<close> is exact and safe to cancel. A poll returns without a panic or an endless loop; when it
  succeeds it has appended exactly the next line of the stream, newline included, and consumed exactly
  that line; a line that is not UTF-8 is consumed and reported; and when it is pending or the inner
  reader fails, every byte taken so far for the partial line is still the front of the stream, so
  that a later read or a new \<open>read_line\<close> sees it.\<close>

theorem read_line_exact:
  assumes "byte_source pr src ok" and "br_ok ok this" and "started \<Longrightarrow> br_line_pos this = 0"
    and "length str + length (first_line (br_src src this)) \<le> isize_max"
  shows "\<exists>t str' p. read_line_poll pr started this str = Some (t, str', p) \<and> br_ok ok t \<and> br_line_pos t = 0 \<and>
    (case p of
       Ready (Inr n) \<Rightarrow> str' = str @ first_line (br_src src this) \<and> n = length (first_line (br_src src this))
         \<and> utf8_valid (first_line (br_src src this)) \<and> br_src src this = first_line (br_src src this) @ br_src src t
     | Ready (Inl e) \<Rightarrow> str' = str \<and> (br_src src t = br_src src this
         \<or> e = Io_Error InvalidData ''invalid utf-8'' \<and> \<not> utf8_valid (first_line (br_src src this))
           \<and> br_src src this = first_line (br_src src this) @ br_src src t)
     | Pending \<Rightarrow> str' = str \<and> br_src src t = br_src src this)"
  by (rule byte_source.read_line_poll_spec [OF assms]) blast+

theorem read_line_exact_witness:
  "\<exists>t str' p. read_line_poll cr_poll_read False
       \<lparr>br_inner = \<lparr>cr_data = [104, 105, 10, 98], cr_pos = 0, cr_max_read = 1\<rparr>, br_buf = [0, 0], br_pos = 0,
        br_filled = 0, br_line_buf = [], br_line_pos = 0\<rparr> [] = Some (t, str', p)
     \<and> (\<forall>n. p = Ready (Ok n) \<longrightarrow> n = 3 \<and> str' = [104, 105, 10])"
proof -
  let ?r = "\<lparr>br_inner = \<lparr>cr_data = [104, 105, 10, 98], cr_pos = 0, cr_max_read = 1\<rparr>, br_buf = [0, 0], br_pos = 0,
    br_filled = 0, br_line_buf = [], br_line_pos = 0\<rparr> :: chunked_reader buf_reader"
  have ok: "br_ok cr_ok ?r" by (simp add: br_ok_def cr_ok_def isize_max_def)
  have fl: "first_line (br_src cr_src ?r) = [104, 105, 10]"
    by (simp add: br_defs cr_src_def newline_def)
  then have "length ([] :: byte list) + length (first_line (br_src cr_src ?r)) \<le> isize_max"
    by (simp add: isize_max_def)
  from read_line_exact [OF chunked.byte_source_axioms ok _ this, of False, unfolded fl]
  obtain t str' p where "read_line_poll cr_poll_read False ?r [] = Some (t, str', p)"
    and "case p of Ready (Inr n) \<Rightarrow> str' = [] @ [104, 105, 10] \<and> n = length [104, 105, 10 :: byte] | _ \<Rightarrow> True"
    by (fastforce split: poll.splits sum.splits)
  then show ?thesis by (intro exI [of _ t] exI [of _ str'] exI [of _ p]) auto
qed



end
