(* ===== verification/Buf_Writer.thy ===== *)
theory Buf_Writer
  imports Byte_Stream
begin

text \<open>
  \<open>BufWriter\<close> of \<open>src/src/io/buf.rs\<close>: collected bytes, how many of them the inner writer has taken in
  the flush under way, and the generation of that logical write. The lemmas show that a buffered
  writer over a byte sink is a byte sink: what it has accepted is what the inner writer has accepted
  followed by the bytes still collected, through partial, pending and failed flushes.

  Two values come from outside the adapter and are arguments: \<open>alloc\<close>, the capacity the allocator
  grants for a request (at least the request), and \<open>fresh\<close>, the generation
  \<open>WriteOperation::new\<close> would hand out during the poll (at most one is taken per poll).
\<close>

record 'w buf_writer =
  bw_inner :: 'w
  bw_buf :: "byte list"
  bw_capacity :: nat
  bw_written :: nat
  bw_generation :: "nat option"

definition bw_with_capacity :: "(nat \<Rightarrow> nat) \<Rightarrow> nat \<Rightarrow> 'w \<Rightarrow> 'w buf_writer" where
  "bw_with_capacity alloc capacity w =
     \<lparr>bw_inner = w, bw_buf = [], bw_capacity = alloc (max capacity 1), bw_written = 0, bw_generation = None\<rparr>"

function poll_flush_buf ::
  "'w writer \<Rightarrow> nat \<Rightarrow> 'w buf_writer \<Rightarrow> ('w buf_writer \<times> unit io_result poll) panics" where
  "poll_flush_buf pw fresh this =
     (if bw_written this < length (bw_buf this)
      then (let g = (case bw_generation this of Some g \<Rightarrow> g | None \<Rightarrow> fresh) in
            case pw (bw_inner this) (drop (bw_written this) (bw_buf this)) g of
              None \<Rightarrow> panic
            | Some (w, p) \<Rightarrow>
                (case p of
                   Pending \<Rightarrow> Some (this\<lparr>bw_generation := Some g, bw_inner := w\<rparr>, Pending)
                 | Ready (Inl e) \<Rightarrow> Some (this\<lparr>bw_generation := Some g, bw_inner := w\<rparr>, Ready (Err e))
                 | Ready (Inr n) \<Rightarrow>
                     if n = 0
                     then Some (this\<lparr>bw_generation := Some g, bw_inner := w\<rparr>,
                                Ready (Err (Io_Error WriteZero ''failed to write buffered data'')))
                     else poll_flush_buf pw fresh
                            (this\<lparr>bw_generation := Some g, bw_inner := w, bw_written := bw_written this + n\<rparr>)))
      else Some (this\<lparr>bw_buf := [], bw_written := 0, bw_generation := None\<rparr>, Ready (Ok ())))"
  by pat_completeness auto
termination
  by (relation "measure (\<lambda>(_, _, this). length (bw_buf this) - bw_written this)") auto

declare poll_flush_buf.simps [simp del]

definition bw_poll_write_operation :: "'w writer \<Rightarrow> nat \<Rightarrow> 'w buf_writer writer" where
  "bw_poll_write_operation pw fresh this bytes generation =
     (if bytes = [] then Some (this, Ready (Ok 0))
      else do {
        (this, p) \<leftarrow>
          (if 0 < bw_written this \<or> bw_capacity this - length (bw_buf this) < length bytes
           then poll_flush_buf pw fresh this else Some (this, Ready (Ok ())));
        (case p of
           Pending \<Rightarrow> Some (this, Pending)
         | Ready (Inl e) \<Rightarrow> Some (this, Ready (Err e))
         | Ready (Inr _) \<Rightarrow>
             (if bw_capacity this \<le> length bytes
              then do {
                (w, p) \<leftarrow> pw (bw_inner this) bytes generation;
                Some (this\<lparr>bw_inner := w\<rparr>, p) }
              else Some (this\<lparr>bw_buf := bw_buf this @ bytes\<rparr>, Ready (Ok (length bytes))))) })"

definition bw_poll_write :: "'w writer \<Rightarrow> nat \<Rightarrow> 'w buf_writer \<Rightarrow> byte list \<Rightarrow> ('w buf_writer \<times> nat io_result poll) panics" where
  "bw_poll_write pw fresh this bytes = bw_poll_write_operation pw fresh this bytes 0"

definition bw_poll_write_vectored ::
  "'w writer \<Rightarrow> nat \<Rightarrow> 'w buf_writer \<Rightarrow> byte list list \<Rightarrow> nat \<Rightarrow> ('w buf_writer \<times> nat io_result poll) panics" where
  "bw_poll_write_vectored pw fresh this bufs generation =
     (case List.find (\<lambda>b. b \<noteq> []) bufs of
        Some b \<Rightarrow> bw_poll_write_operation pw fresh this b generation
      | None \<Rightarrow> Some (this, Ready (Ok 0)))"

text \<open>\<open>poll_flush\<close> and \<open>poll_close\<close> drain the buffer and then flush or close the inner writer.\<close>

definition flush_then :: "'w writer \<Rightarrow> 'w flusher \<Rightarrow> nat \<Rightarrow> 'w buf_writer flusher" where
  "flush_then pw finish fresh this = do {
     (this, p) \<leftarrow> poll_flush_buf pw fresh this;
     (case p of
        Pending \<Rightarrow> Some (this, Pending)
      | Ready (Inl e) \<Rightarrow> Some (this, Ready (Err e))
      | Ready (Inr _) \<Rightarrow> do {
          (w, q) \<leftarrow> finish (bw_inner this);
          Some (this\<lparr>bw_inner := w\<rparr>, q) }) }"

definition bw_poll_flush :: "'w writer \<Rightarrow> 'w flusher \<Rightarrow> nat \<Rightarrow> 'w buf_writer flusher" where
  "bw_poll_flush pw pf fresh this = flush_then pw pf fresh this"

definition bw_poll_close :: "'w writer \<Rightarrow> 'w flusher \<Rightarrow> nat \<Rightarrow> 'w buf_writer flusher" where
  "bw_poll_close pw pc fresh this = flush_then pw pc fresh this"

subsection \<open>Invariant and accepted bytes\<close>

definition bw_out :: "('w \<Rightarrow> byte list) \<Rightarrow> 'w buf_writer \<Rightarrow> byte list" where
  "bw_out out this = out (bw_inner this) @ drop (bw_written this) (bw_buf this)"

definition bw_ok :: "('w \<Rightarrow> bool) \<Rightarrow> 'w buf_writer \<Rightarrow> bool" where
  "bw_ok wok this \<longleftrightarrow> wok (bw_inner this) \<and> bw_written this \<le> length (bw_buf this)
     \<and> length (bw_buf this) \<le> bw_capacity this \<and> 0 < bw_capacity this"

lemma bw_with_capacity_ok:
  assumes "wok w" and "\<And>n. n \<le> alloc n"
  shows "bw_ok wok (bw_with_capacity alloc c w) \<and> bw_out out (bw_with_capacity alloc c w) = out w"
  using assms(1) assms(2) [of "max c 1"] by (simp add: bw_ok_def bw_out_def bw_with_capacity_def)

context byte_sink
begin

text \<open>A flush moves bytes from the buffer to the inner writer and changes nothing else, whether it
  completes, parks or fails.\<close>

lemma poll_flush_buf_spec:
  assumes "bw_ok wok this"
  shows "\<exists>t p. poll_flush_buf poll_write fresh this = Some (t, p) \<and> bw_ok wok t \<and> bw_out out t = bw_out out this
    \<and> bw_capacity t = bw_capacity this \<and> (p = Ready (Ok ()) \<longrightarrow> bw_buf t = [] \<and> bw_written t = 0)"
  using assms
proof (induction "length (bw_buf this) - bw_written this" arbitrary: this rule: less_induct)
  case less
  let ?k = "bw_written this" and ?b = "bw_buf this"
  let ?g = "case bw_generation this of Some g \<Rightarrow> g | None \<Rightarrow> fresh"
  show ?case
  proof (cases "?k < length ?b")
    case False
    with less.prems show ?thesis
      by (subst poll_flush_buf.simps) (simp add: bw_ok_def bw_out_def)
  next
    case True
    have w: "wok (bw_inner this)" using less.prems by (simp add: bw_ok_def)
    then show ?thesis
    proof (cases rule: write_cases [where b = "drop ?k ?b" and g = ?g])
      case (pending w')
      with True less.prems show ?thesis
        by (subst poll_flush_buf.simps) (simp add: bw_ok_def bw_out_def Let_def)
    next
      case (err w' e)
      with True less.prems show ?thesis
        by (subst poll_flush_buf.simps) (simp add: bw_ok_def bw_out_def Let_def)
    next
      case (ok w' n)
      show ?thesis
      proof (cases "n = 0")
        case True
        with ok \<open>?k < length ?b\<close> less.prems show ?thesis
          by (subst poll_flush_buf.simps) (simp add: bw_ok_def bw_out_def Let_def)
      next
        case False
        let ?u = "this\<lparr>bw_generation := Some ?g, bw_inner := w', bw_written := ?k + n\<rparr>"
        have step: "poll_flush_buf poll_write fresh this = poll_flush_buf poll_write fresh ?u"
          using ok(1) True False by (subst poll_flush_buf.simps) (simp add: Let_def)
        have u: "bw_ok wok ?u" using less.prems ok(2,3) True by (simp add: bw_ok_def)
        have out: "bw_out out ?u = bw_out out this"
          using ok(4) append_take_drop_id [of n "drop ?k ?b"] by (simp add: bw_out_def add.commute)
        have "length (bw_buf ?u) - bw_written ?u < length ?b - ?k" using True False by simp
        from less.hyps [OF this u] show ?thesis using step out by simp
      qed
    qed
  qed
qed

lemma flush_then_spec:
  assumes "bw_ok wok this"
    and "\<And>w. wok w \<Longrightarrow> finish w \<noteq> None"
    and "\<And>w w' q. wok w \<Longrightarrow> finish w = Some (w', q) \<Longrightarrow> wok w' \<and> out w' = out w"
    and "\<And>w w'. wok w \<Longrightarrow> finish w = Some (w', Ready (Ok ())) \<Longrightarrow> sunk w' = out w'"
  shows "\<exists>t q. flush_then poll_write finish fresh this = Some (t, q) \<and> bw_ok wok t \<and> bw_out out t = bw_out out this
    \<and> (q = Ready (Ok ()) \<longrightarrow> sunk (bw_inner t) = bw_out out t)"
proof -
  obtain t p where f: "poll_flush_buf poll_write fresh this = Some (t, p)" "bw_ok wok t"
      "bw_out out t = bw_out out this" "p = Ready (Ok ()) \<longrightarrow> bw_buf t = [] \<and> bw_written t = 0"
    using poll_flush_buf_spec [OF assms(1)] by blast
  show ?thesis
  proof (cases "p = Ready (Ok ())")
    case False
    with f show ?thesis by (auto simp: flush_then_def split: poll.splits sum.splits)
  next
    case True
    have w: "wok (bw_inner t)" using f(2) by (simp add: bw_ok_def)
    then obtain w' q where fin: "finish (bw_inner t) = Some (w', q)" using assms(2) by fastforce
    from True f fin assms(3) [OF w fin] assms(4) [OF w] show ?thesis
      by (auto simp: flush_then_def bw_ok_def bw_out_def)
  qed
qed

lemma bw_poll_flush_spec:
  assumes "bw_ok wok this"
  shows "\<exists>t q. bw_poll_flush poll_write poll_flush fresh this = Some (t, q) \<and> bw_ok wok t
    \<and> bw_out out t = bw_out out this \<and> (q = Ready (Ok ()) \<longrightarrow> sunk (bw_inner t) = bw_out out t)"
  unfolding bw_poll_flush_def
  by (rule flush_then_spec [OF assms flush_returns flush_keeps flush_sinks])

lemma bw_poll_close_spec:
  assumes "bw_ok wok this"
  shows "\<exists>t q. bw_poll_close poll_write poll_close fresh this = Some (t, q) \<and> bw_ok wok t
    \<and> bw_out out t = bw_out out this \<and> (q = Ready (Ok ()) \<longrightarrow> sunk (bw_inner t) = bw_out out t)"
  unfolding bw_poll_close_def
  by (rule flush_then_spec [OF assms close_returns close_keeps close_sinks])

text \<open>A write: what is reported as written is accepted, in order; nothing else is.\<close>

lemma bw_poll_write_spec:
  assumes "bw_ok wok this"
  shows "\<exists>t p. bw_poll_write_operation poll_write fresh this bytes g = Some (t, p) \<and> bw_ok wok t \<and>
    (case p of Ready (Inr n) \<Rightarrow> n \<le> length bytes \<and> bw_out out t = bw_out out this @ take n bytes
     | _ \<Rightarrow> bw_out out t = bw_out out this)"
proof (cases "bytes = []")
  case True
  then show ?thesis using assms by (simp add: bw_poll_write_operation_def)
next
  case ne: False
  let ?room = "0 < bw_written this \<or> bw_capacity this - length (bw_buf this) < length bytes"
  let ?pre = "if ?room then poll_flush_buf poll_write fresh this else Some (this, Ready (Ok ()))"
  obtain t p where pre: "?pre = Some (t, p)" "bw_ok wok t" "bw_out out t = bw_out out this"
      "bw_capacity t = bw_capacity this"
      "p = Ready (Ok ()) \<longrightarrow> bw_written t = 0 \<and> (bw_buf t = [] \<or> length (bw_buf t) + length bytes \<le> bw_capacity t)"
  proof (cases ?room)
    case True
    obtain t p where "poll_flush_buf poll_write fresh this = Some (t, p)" "bw_ok wok t" "bw_out out t = bw_out out this"
        "bw_capacity t = bw_capacity this" "p = Ready (Ok ()) \<longrightarrow> bw_buf t = [] \<and> bw_written t = 0"
      using poll_flush_buf_spec [OF assms] by blast
    with True show ?thesis using that [of t p] by simp
  next
    case False
    then have "length (bw_buf this) + length bytes \<le> bw_capacity this"
      using assms by (auto simp: bw_ok_def)
    with False show ?thesis using that [of this "Ready (Ok ())"] assms by simp
  qed
  show ?thesis
  proof (cases "p = Ready (Ok ())")
    case False
    with pre(1-3) ne show ?thesis
      by (cases p rule: io_poll_cases) (simp_all add: bw_poll_write_operation_def)
  next
    case True
    with pre(5) have z: "bw_written t = 0" "bw_buf t = [] \<or> length (bw_buf t) + length bytes \<le> bw_capacity t" by auto
    show ?thesis
    proof (cases "bw_capacity t \<le> length bytes")
      case False
      then have "bw_poll_write_operation poll_write fresh this bytes g =
          Some (t\<lparr>bw_buf := bw_buf t @ bytes\<rparr>, Ready (Ok (length bytes)))"
        using pre(1) True ne by (simp add: bw_poll_write_operation_def)
      moreover have "bw_ok wok (t\<lparr>bw_buf := bw_buf t @ bytes\<rparr>)" using pre(2) z False by (auto simp: bw_ok_def)
      ultimately show ?thesis using z pre(3) by (simp add: bw_out_def)
    next
      case direct: True
      have "bw_buf t = [] \<or> length (bw_buf t) = 0" using z(2) direct by linarith
      then have empty: "bw_buf t = []" by simp
      have w: "wok (bw_inner t)" using pre(2) by (simp add: bw_ok_def)
      obtain w' q where q: "poll_write (bw_inner t) bytes g = Some (w', q)"
        using write_returns [OF w] by fastforce
      then have "bw_poll_write_operation poll_write fresh this bytes g = Some (t\<lparr>bw_inner := w'\<rparr>, q)"
        using pre(1) True ne direct by (simp add: bw_poll_write_operation_def)
      moreover have "bw_ok wok (t\<lparr>bw_inner := w'\<rparr>)" using pre(2) write_keeps [OF w q] by (simp add: bw_ok_def)
      moreover have "case q of Ready (Inr n) \<Rightarrow> n \<le> length bytes \<and> out w' = out (bw_inner t) @ take n bytes
          | _ \<Rightarrow> out w' = out (bw_inner t)"
        using q write_accepts [OF w] write_err [OF w] write_pending [OF w]
        by (auto split: poll.splits sum.splits)
      ultimately show ?thesis using empty pre(3)
        by (auto simp: bw_out_def split: poll.splits sum.splits)
    qed
  qed
qed

end

text \<open>Buffered writers stack.\<close>

lemma bw_byte_sink:
  assumes "byte_sink pw pf pc out sunk wok"
  shows "byte_sink (bw_poll_write_operation pw fresh) (bw_poll_flush pw pf fresh) (bw_poll_close pw pc fresh)
    (bw_out out) (\<lambda>this. sunk (bw_inner this)) (bw_ok wok)"
proof
  fix w w' :: "'a buf_writer" and b g n e p q
  assume w: "bw_ok wok w"
  note c = byte_sink.bw_poll_write_spec [OF assms w, of fresh b g]
  note fl = byte_sink.bw_poll_flush_spec [OF assms w, of fresh]
    and cl = byte_sink.bw_poll_close_spec [OF assms w, of fresh]
  show "bw_poll_write_operation pw fresh w b g \<noteq> None" using c by auto
  show "bw_ok wok w'" if "bw_poll_write_operation pw fresh w b g = Some (w', p)" using c that by auto
  show "n \<le> length b \<and> bw_out out w' = bw_out out w @ take n b"
    if "bw_poll_write_operation pw fresh w b g = Some (w', Ready (Ok n))" using c that by auto
  show "bw_out out w' = bw_out out w"
    if "bw_poll_write_operation pw fresh w b g = Some (w', Ready (Err e))" using c that by auto
  show "bw_out out w' = bw_out out w"
    if "bw_poll_write_operation pw fresh w b g = Some (w', Pending)" using c that by auto
  show "bw_poll_flush pw pf fresh w \<noteq> None" using fl by auto
  show "bw_ok wok w' \<and> bw_out out w' = bw_out out w" if "bw_poll_flush pw pf fresh w = Some (w', q)"
    using fl that by auto
  show "sunk (bw_inner w') = bw_out out w'" if "bw_poll_flush pw pf fresh w = Some (w', Ready (Ok ()))"
    using fl that by auto
  show "bw_poll_close pw pc fresh w \<noteq> None" using cl by auto
  show "bw_ok wok w' \<and> bw_out out w' = bw_out out w" if "bw_poll_close pw pc fresh w = Some (w', q)"
    using cl that by auto
  show "sunk (bw_inner w') = bw_out out w'" if "bw_poll_close pw pc fresh w = Some (w', Ready (Ok ()))"
    using cl that by auto
qed

subsection \<open>The recording writer\<close>

text \<open>\<open>RecordingWriter\<close>, the in-memory writer beside the adapters: it takes at most \<open>max_write\<close> bytes
  per call.\<close>

record recording_writer =
  rw_data :: "byte list"
  rw_writes :: nat
  rw_closes :: nat
  rw_max_write :: nat

definition rec_poll_write :: "recording_writer writer" where
  "rec_poll_write this bytes _ =
     (let n = min (length bytes) (rw_max_write this) in
      Some (this\<lparr>rw_writes := rw_writes this + 1, rw_data := rw_data this @ take n bytes\<rparr>, Ready (Ok n)))"

definition rec_poll_flush :: "recording_writer flusher" where
  "rec_poll_flush this = Some (this, Ready (Ok ()))"

definition rec_poll_close :: "recording_writer flusher" where
  "rec_poll_close this = Some (this\<lparr>rw_closes := rw_closes this + 1\<rparr>, Ready (Ok ()))"

definition rec_ok :: "recording_writer \<Rightarrow> bool" where
  "rec_ok this \<longleftrightarrow> 0 < rw_max_write this"

interpretation recording: byte_sink rec_poll_write rec_poll_flush rec_poll_close rw_data rw_data rec_ok
  by unfold_locales (auto simp: rec_poll_write_def rec_poll_flush_def rec_poll_close_def rec_ok_def Let_def)

interpretation buffered_writer:
  byte_sink "bw_poll_write_operation rec_poll_write fresh" "bw_poll_flush rec_poll_write rec_poll_flush fresh"
    "bw_poll_close rec_poll_write rec_poll_close fresh" "bw_out rw_data" "\<lambda>this. rw_data (bw_inner this)" "bw_ok rec_ok"
  for fresh
  by (rule bw_byte_sink) (rule recording.byte_sink_axioms)

subsection \<open>Correctness of the buffered writer\<close>

text \<open>The buffer loses and duplicates nothing. Over any writer that keeps the contract of \<open>AsyncWrite\<close>,
  a write through \<open>BufWriter\<close> returns without a panic, never lets the buffer outgrow its allocation, and
  the accepted bytes (those of the inner writer followed by those still collected) grow by exactly the
  prefix reported as written, and by nothing when the write is pending or fails in the middle of a
  flush.\<close>

theorem buf_writer_conserves:
  assumes "byte_sink pw pf pc out sunk wok" and "bw_ok wok this"
  shows "\<exists>t p. bw_poll_write_operation pw fresh this bytes g = Some (t, p) \<and> bw_ok wok t \<and>
    (case p of Ready (Inr n) \<Rightarrow> n \<le> length bytes \<and> bw_out out t = bw_out out this @ take n bytes
     | _ \<Rightarrow> bw_out out t = bw_out out this)"
  by (rule byte_sink.bw_poll_write_spec [OF assms])

theorem buf_writer_conserves_witness:
  "\<exists>t p. bw_poll_write_operation rec_poll_write 7
       \<lparr>bw_inner = \<lparr>rw_data = [1], rw_writes = 1, rw_closes = 0, rw_max_write = 1\<rparr>, bw_buf = [2, 3],
        bw_capacity = 3, bw_written = 0, bw_generation = None\<rparr> [4, 5] 0 = Some (t, p) \<and> bw_ok rec_ok t"
proof -
  let ?w = "\<lparr>bw_inner = \<lparr>rw_data = [1], rw_writes = 1, rw_closes = 0, rw_max_write = 1\<rparr>, bw_buf = [2, 3],
    bw_capacity = 3, bw_written = 0, bw_generation = None\<rparr>"
  have "bw_ok rec_ok ?w" by (simp add: bw_ok_def rec_ok_def)
  from buf_writer_conserves [OF recording.byte_sink_axioms this, of 7 "[4, 5]" 0] show ?thesis by blast
qed

text \<open>A flush delivers. When \<open>poll_flush\<close> succeeds, everything the buffered writer ever accepted has
  been delivered by the inner writer; when it parks or fails, the accepted bytes are unchanged, so
  that the next flush resumes at the first byte not yet taken.\<close>

theorem buf_writer_flush_delivers:
  assumes "byte_sink pw pf pc out sunk wok" and "bw_ok wok this"
  shows "\<exists>t q. bw_poll_flush pw pf fresh this = Some (t, q) \<and> bw_ok wok t
    \<and> bw_out out t = bw_out out this \<and> (q = Ready (Ok ()) \<longrightarrow> sunk (bw_inner t) = bw_out out this)"
  using byte_sink.bw_poll_flush_spec [OF assms, of fresh] by fastforce

theorem buf_writer_flush_delivers_witness:
  "\<exists>t q. bw_poll_flush rec_poll_write rec_poll_flush 7
       \<lparr>bw_inner = \<lparr>rw_data = [1], rw_writes = 1, rw_closes = 0, rw_max_write = 1\<rparr>, bw_buf = [2, 3],
        bw_capacity = 3, bw_written = 1, bw_generation = Some 4\<rparr> = Some (t, q)
     \<and> (q = Ready (Ok ()) \<longrightarrow> rw_data (bw_inner t) = [1, 3])"
proof -
  let ?w = "\<lparr>bw_inner = \<lparr>rw_data = [1], rw_writes = 1, rw_closes = 0, rw_max_write = 1\<rparr>, bw_buf = [2, 3],
    bw_capacity = 3, bw_written = 1, bw_generation = Some 4\<rparr> :: recording_writer buf_writer"
  have ok: "bw_ok rec_ok ?w" by (simp add: bw_ok_def rec_ok_def)
  have out: "bw_out rw_data ?w = [1, 3]" by (simp add: bw_out_def)
  from buf_writer_flush_delivers [OF recording.byte_sink_axioms ok, of 7, unfolded out] show ?thesis by blast
qed

end
