(* ===== verification/Io_Read.thy ===== *)
theory Io_Read
  imports Buf_Reader
begin

text \<open>
  The reading futures of \<open>src/src/io/ext.rs\<close>: \<open>read_exact\<close>, \<open>read_to_end\<close>, \<open>read_to_string\<close> and the
  \<open>lines\<close> stream. A future is its record and a poll function; its inner loop is a
  \<open>partial_function\<close>, so that a loop that never ends (an endless reader that is always ready) or panics
  has the value \<open>None\<close>. \<open>drive\<close> polls a future until it is ready, and the locale \<open>polled_future\<close> carries
  what one poll keeps to any number of polls.
\<close>

subsection \<open>Driving a future\<close>

fun drive :: "('s \<Rightarrow> ('s \<times> 'a poll) panics) \<Rightarrow> nat \<Rightarrow> 's \<Rightarrow> ('s \<times> 'a poll) panics" where
  "drive poll 0 s = Some (s, Pending)"
| "drive poll (Suc n) s = (case poll s of
     None \<Rightarrow> panic
   | Some (s', Ready a) \<Rightarrow> Some (s', Ready a)
   | Some (s', Pending) \<Rightarrow> drive poll n s')"

locale polled_future =
  fixes poll :: "'s \<Rightarrow> ('s \<times> 'a poll) panics"
    and inv :: "'s \<Rightarrow> bool"
    and post :: "'s \<Rightarrow> 'a \<Rightarrow> bool"
  assumes poll_step: "inv s \<Longrightarrow> \<exists>t p. poll s = Some (t, p) \<and> (case p of Pending \<Rightarrow> inv t | Ready a \<Rightarrow> post t a)"
begin

lemma drive_spec:
  "inv s \<Longrightarrow> \<exists>t p. drive poll n s = Some (t, p) \<and> (case p of Pending \<Rightarrow> inv t | Ready a \<Rightarrow> post t a)"
proof (induction n arbitrary: s)
  case (Suc n)
  from poll_step [OF Suc.prems] obtain t p where t: "poll s = Some (t, p)"
    and p: "case p of Pending \<Rightarrow> inv t | Ready a \<Rightarrow> post t a" by blast
  show ?case
  proof (cases p)
    case Pending
    with t p Suc.IH show ?thesis by auto
  next
    case (Ready a)
    with t p show ?thesis by auto
  qed
qed simp

end

subsection \<open>\<open>read_exact\<close>\<close>

record 'r read_exact =
  re_reader :: 'r
  re_buf :: "byte list"
  re_filled :: nat

definition read_exact_new :: "'r \<Rightarrow> byte list \<Rightarrow> 'r read_exact" where
  "read_exact_new r b = \<lparr>re_reader = r, re_buf = b, re_filled = 0\<rparr>"

partial_function (option) read_exact_poll ::
  "'r reader \<Rightarrow> 'r read_exact \<Rightarrow> ('r read_exact \<times> unit io_result poll) option" where
  "read_exact_poll pr this =
     (if re_filled this < length (re_buf this)
      then do {
        (r, b, p) \<leftarrow> pr (re_reader this) (drop (re_filled this) (re_buf this));
        let this = this\<lparr>re_reader := r, re_buf := take (re_filled this) (re_buf this) @ b\<rparr>;
        (case p of
           Pending \<Rightarrow> Some (this, Pending)
         | Ready (Inl e) \<Rightarrow> Some (this, Ready (Err e))
         | Ready (Inr n) \<Rightarrow>
             (if n = 0 then Some (this, Ready (Err (Io_Error UnexpectedEof ''failed to fill whole buffer'')))
              else read_exact_poll pr (this\<lparr>re_filled := re_filled this + n\<rparr>))) }
      else Some (this, Ready (Ok ())))"

definition re_ok :: "('r \<Rightarrow> bool) \<Rightarrow> 'r read_exact \<Rightarrow> bool" where
  "re_ok ok this \<longleftrightarrow> ok (re_reader this) \<and> re_filled this \<le> length (re_buf this)"

text \<open>The bytes already in place followed by the bytes still to come.\<close>

definition re_stream :: "('r \<Rightarrow> byte list) \<Rightarrow> 'r read_exact \<Rightarrow> byte list" where
  "re_stream src this = take (re_filled this) (re_buf this) @ src (re_reader this)"

text \<open>An error that the reader itself returned.\<close>

definition reader_fails :: "'r reader \<Rightarrow> io_error \<Rightarrow> bool" where
  "reader_fails pr e \<longleftrightarrow> (\<exists>r b r' b'. pr r b = Some (r', b', Ready (Err e)))"

lemma reader_failsI: "pr r b = Some (r', b', Ready (Err e)) \<Longrightarrow> reader_fails pr e"
  by (auto simp: reader_fails_def)

definition re_result ::
  "'r reader \<Rightarrow> ('r \<Rightarrow> byte list) \<Rightarrow> ('r \<Rightarrow> bool) \<Rightarrow> byte list \<Rightarrow> nat \<Rightarrow> 'r read_exact \<Rightarrow> unit io_result poll \<Rightarrow> bool" where
  "re_result pr src ok stream len t p \<longleftrightarrow> re_ok ok t \<and> re_stream src t = stream \<and> length (re_buf t) = len \<and>
     (case p of
        Ready (Inr _) \<Rightarrow> re_filled t = len
      | Ready (Inl e) \<Rightarrow> reader_fails pr e
          \<or> e = Io_Error UnexpectedEof ''failed to fill whole buffer'' \<and> src (re_reader t) = [] \<and> re_filled t < len
      | Pending \<Rightarrow> True)"

context byte_source
begin

lemma read_exact_poll_spec:
  assumes "re_ok ok this"
  shows "\<exists>t p. read_exact_poll poll_read this = Some (t, p)
    \<and> re_result poll_read src ok (re_stream src this) (length (re_buf this)) t p"
  using assms
proof (induction "length (re_buf this) - re_filled this" arbitrary: this rule: less_induct)
  case less
  let ?k = "re_filled this" and ?b = "re_buf this"
  show ?case
  proof (cases "?k < length ?b")
    case False
    with less.prems show ?thesis
      by (subst read_exact_poll.simps) (auto simp: re_result_def re_ok_def)
  next
    case True
    have "ok (re_reader this)" using less.prems by (simp add: re_ok_def)
    then show ?thesis
    proof (cases rule: read_cases [where b = "drop ?k ?b"])
      case (pending r b)
      with True show ?thesis
        by (subst read_exact_poll.simps) (simp add: re_result_def re_ok_def re_stream_def)
    next
      case (err r b e)
      with True show ?thesis
        by (subst read_exact_poll.simps) (auto simp: re_result_def re_ok_def re_stream_def intro: reader_failsI)
    next
      case (ok r b n)
      let ?u = "this\<lparr>re_reader := r, re_buf := take ?k ?b @ b, re_filled := ?k + n\<rparr>"
      have len: "length (re_buf ?u) = length ?b" using ok(3) True by simp
      show ?thesis
      proof (cases "n = 0")
        case True
        with ok \<open>?k < length ?b\<close> show ?thesis
          by (subst read_exact_poll.simps) (simp add: re_result_def re_ok_def re_stream_def)
      next
        case False
        have step: "read_exact_poll poll_read this = read_exact_poll poll_read ?u"
          using ok(1) True False by (subst read_exact_poll.simps) (simp add: Let_def)
        have u: "re_ok ok ?u" using ok(2,4) len True by (simp add: re_ok_def)
        have "re_stream src ?u = re_stream src this" using ok(5) True by (simp add: re_stream_def)
        moreover have "length (re_buf ?u) - re_filled ?u < length ?b - ?k" using len True False by simp
        ultimately show ?thesis using less.hyps [OF _ u] len step by simp
      qed
    qed
  qed
qed

end

subsection \<open>\<open>read_to_end\<close> and \<open>read_to_string\<close>\<close>

definition READ_TO_END_CHUNK :: nat where
  "READ_TO_END_CHUNK = 8192"

record 'r read_to_end =
  rte_reader :: 'r
  rte_buf :: "byte list"
  rte_chunk :: "byte list"
  rte_start_len :: nat
  rte_initialized :: bool

record 'r read_to_string =
  rts_reader :: 'r
  rts_buf :: "byte list"
  rts_bytes :: "byte list"
  rts_chunk :: "byte list"
  rts_initialized :: bool

definition read_to_end_new :: "'r \<Rightarrow> byte list \<Rightarrow> 'r read_to_end" where
  "read_to_end_new r b = \<lparr>rte_reader = r, rte_buf = b, rte_chunk = replicate READ_TO_END_CHUNK 0,
     rte_start_len = 0, rte_initialized = False\<rparr>"

definition read_to_string_new :: "'r \<Rightarrow> byte list \<Rightarrow> 'r read_to_string" where
  "read_to_string_new r b = \<lparr>rts_reader = r, rts_buf = b, rts_bytes = [],
     rts_chunk = replicate READ_TO_END_CHUNK 0, rts_initialized = False\<rparr>"

text \<open>The loop both futures run: read a chunk, append it, until a read returns zero bytes.\<close>

partial_function (option) collect_loop ::
  "'r reader \<Rightarrow> 'r \<Rightarrow> byte list \<Rightarrow> byte list \<Rightarrow> ('r \<times> byte list \<times> byte list \<times> unit io_result poll) option" where
  "collect_loop pr r chunk acc = do {
     (r, chunk, p) \<leftarrow> pr r chunk;
     (case p of
        Pending \<Rightarrow> Some (r, chunk, acc, Pending)
      | Ready (Inl e) \<Rightarrow> Some (r, chunk, acc, Ready (Err e))
      | Ready (Inr n) \<Rightarrow>
          (if n = 0 then Some (r, chunk, acc, Ready (Ok ()))
           else do {
             s \<leftarrow> slice 0 n chunk;
             acc \<leftarrow> vec_extend acc s;
             collect_loop pr r chunk acc })) }"

definition read_to_end_poll ::
  "'r reader \<Rightarrow> 'r read_to_end \<Rightarrow> ('r read_to_end \<times> nat io_result poll) panics" where
  "read_to_end_poll pr this = do {
     let this = (if rte_initialized this then this
                 else this\<lparr>rte_start_len := length (rte_buf this), rte_initialized := True\<rparr>);
     (r, chunk, b, p) \<leftarrow> collect_loop pr (rte_reader this) (rte_chunk this) (rte_buf this);
     let this = this\<lparr>rte_reader := r, rte_chunk := chunk, rte_buf := b\<rparr>;
     (case p of
        Pending \<Rightarrow> Some (this, Pending)
      | Ready (Inl e) \<Rightarrow> Some (this, Ready (Err e))
      | Ready (Inr _) \<Rightarrow> do {
          n \<leftarrow> checked_sub (length b) (rte_start_len this);
          Some (this, Ready (Ok n)) }) }"

definition read_to_string_poll ::
  "'r reader \<Rightarrow> 'r read_to_string \<Rightarrow> ('r read_to_string \<times> nat io_result poll) panics" where
  "read_to_string_poll pr this = do {
     let this = (if rts_initialized this then this else this\<lparr>rts_bytes := [], rts_initialized := True\<rparr>);
     (r, chunk, bytes, p) \<leftarrow> collect_loop pr (rts_reader this) (rts_chunk this) (rts_bytes this);
     let this = this\<lparr>rts_reader := r, rts_chunk := chunk, rts_bytes := bytes\<rparr>;
     (case p of
        Pending \<Rightarrow> Some (this, Pending)
      | Ready (Inl e) \<Rightarrow> Some (this, Ready (Err e))
      | Ready (Inr _) \<Rightarrow>
          (let this = this\<lparr>rts_bytes := []\<rparr> in
           (case string_from_utf8 bytes of
              Inl e \<Rightarrow> Some (this, Ready (Err e))
            | Inr s \<Rightarrow> do {
                b \<leftarrow> vec_extend (rts_buf this) s;
                Some (this\<lparr>rts_buf := b\<rparr>, Ready (Ok (length bytes))) }))) }"

definition collect_result ::
  "'r reader \<Rightarrow> ('r \<Rightarrow> byte list) \<Rightarrow> ('r \<Rightarrow> bool) \<Rightarrow> byte list \<Rightarrow> byte list \<Rightarrow>
   'r \<times> byte list \<times> byte list \<times> unit io_result poll \<Rightarrow> bool" where
  "collect_result pr src ok old stream res \<longleftrightarrow> (case res of (r, chunk, acc, p) \<Rightarrow>
     ok r \<and> chunk \<noteq> [] \<and> (\<exists>more. acc = old @ more \<and> more @ src r = stream) \<and>
     (case p of Ready (Inr _) \<Rightarrow> src r = [] | Ready (Inl e) \<Rightarrow> reader_fails pr e | Pending \<Rightarrow> True))"

context byte_source
begin

lemma collect_loop_spec:
  assumes "ok r" and "chunk \<noteq> []" and "length (acc @ src r) \<le> isize_max"
  shows "\<exists>res. collect_loop poll_read r chunk acc = Some res \<and> collect_result poll_read src ok acc (src r) res"
  using assms
proof (induction "length (src r)" arbitrary: r chunk acc rule: less_induct)
  case less
  from less.prems(1) show ?case
  proof (cases rule: read_cases [where b = chunk])
    case (pending r' b')
    then show ?thesis using less.prems(2)
      by (subst collect_loop.simps) (auto simp: collect_result_def)
  next
    case (err r' b' e)
    then show ?thesis using less.prems(2)
      by (subst collect_loop.simps) (auto simp: collect_result_def intro: reader_failsI)
  next
    case (ok r' b' n)
    show ?thesis
    proof (cases "n = 0")
      case True
      with ok less.prems(2) show ?thesis
        by (subst collect_loop.simps) (auto simp: collect_result_def)
    next
      case False
      have n: "n \<le> length b'" using ok(3,4) by simp
      have bound: "length acc + length (take n b') \<le> isize_max" using less.prems(3) ok(5) by simp
      then have step: "collect_loop poll_read r chunk acc = collect_loop poll_read r' b' (acc @ take n b')"
        using ok(1) False n by (subst collect_loop.simps) simp
      have lt: "length (src r') < length (src r)" using ok(5) n False by simp
      have "b' \<noteq> []" using n False by auto
      with less.hyps [OF lt ok(2) this, of "acc @ take n b'"] less.prems(3) ok(5)
      obtain res where "collect_loop poll_read r' b' (acc @ take n b') = Some res"
        and "collect_result poll_read src ok (acc @ take n b') (src r') res" by auto
      then show ?thesis using step ok(5) by (auto simp: collect_result_def split: prod.splits)
    qed
  qed
qed

end

text \<open>What a started or fresh future has gathered, and its state between polls.\<close>

definition rte_ok :: "('r \<Rightarrow> byte list) \<Rightarrow> ('r \<Rightarrow> bool) \<Rightarrow> byte list \<Rightarrow> byte list \<Rightarrow> 'r read_to_end \<Rightarrow> bool" where
  "rte_ok src ok prefix stream this \<longleftrightarrow> ok (rte_reader this) \<and> rte_chunk this \<noteq> []
     \<and> rte_buf this @ src (rte_reader this) = prefix @ stream \<and> length prefix \<le> length (rte_buf this)
     \<and> (if rte_initialized this then rte_start_len this = length prefix else rte_buf this = prefix)"

definition rts_ok :: "('r \<Rightarrow> byte list) \<Rightarrow> ('r \<Rightarrow> bool) \<Rightarrow> byte list \<Rightarrow> byte list \<Rightarrow> 'r read_to_string \<Rightarrow> bool" where
  "rts_ok src ok prefix stream this \<longleftrightarrow> ok (rts_reader this) \<and> rts_chunk this \<noteq> [] \<and> rts_buf this = prefix
     \<and> (if rts_initialized this then rts_bytes this else []) @ src (rts_reader this) = stream"

context byte_source
begin

lemma read_to_end_poll_spec:
  assumes "rte_ok src ok prefix stream this" and "length (prefix @ stream) \<le> isize_max"
  shows "\<exists>t p. read_to_end_poll poll_read this = Some (t, p) \<and>
    (case p of
       Ready (Inr n) \<Rightarrow> ok (rte_reader t) \<and> src (rte_reader t) = [] \<and> rte_buf t = prefix @ stream \<and> n = length stream
     | Ready (Inl e) \<Rightarrow> reader_fails poll_read e \<and> rte_ok src ok prefix stream t
     | Pending \<Rightarrow> rte_ok src ok prefix stream t)"
proof -
  define s where "s = (if rte_initialized this then this
    else this\<lparr>rte_start_len := length (rte_buf this), rte_initialized := True\<rparr>)"
  have s: "ok (rte_reader s)" "rte_chunk s \<noteq> []" "rte_buf s @ src (rte_reader s) = prefix @ stream"
      "rte_start_len s = length prefix" "rte_initialized s" "length prefix \<le> length (rte_buf s)"
    using assms(1) by (auto simp: s_def rte_ok_def)
  obtain r chunk b p where l: "collect_loop poll_read (rte_reader s) (rte_chunk s) (rte_buf s) = Some (r, chunk, b, p)"
      and c: "collect_result poll_read src ok (rte_buf s) (src (rte_reader s)) (r, chunk, b, p)"
    using collect_loop_spec [OF s(1,2), of "rte_buf s"] s(3) assms(2) by (metis prod_cases4)
  from c have b: "b @ src r = prefix @ stream" "length prefix \<le> length b" "ok r" "chunk \<noteq> []"
    using s(3,6) by (auto simp: collect_result_def)
  let ?t = "s\<lparr>rte_reader := r, rte_chunk := chunk, rte_buf := b\<rparr>"
  have ok': "rte_ok src ok prefix stream ?t" using b s(4,5) by (simp add: rte_ok_def)
  have eq: "read_to_end_poll poll_read this = (case p of Pending \<Rightarrow> Some (?t, Pending)
      | Ready (Inl e) \<Rightarrow> Some (?t, Ready (Err e))
      | Ready (Inr _) \<Rightarrow> Some (?t, Ready (Ok (length b - length prefix))))"
    using l b(2) s(4) by (simp add: read_to_end_poll_def s_def [symmetric] checked_sub_def split: poll.split sum.split)
  show ?thesis
  proof (cases p rule: io_poll_cases)
    case (ok x)
    with c b have "b = prefix @ stream" "src r = []" by (auto simp: collect_result_def)
    with eq ok b show ?thesis by simp
  qed (use eq ok' c in \<open>auto simp: collect_result_def\<close>)
qed

lemma read_to_string_poll_spec:
  assumes "rts_ok src ok prefix stream this" and "length (prefix @ stream) \<le> isize_max"
  shows "\<exists>t p. read_to_string_poll poll_read this = Some (t, p) \<and>
    (case p of
       Ready (Inr n) \<Rightarrow> ok (rts_reader t) \<and> src (rts_reader t) = [] \<and> rts_buf t = prefix @ stream
         \<and> n = length stream \<and> utf8_valid stream
     | Ready (Inl e) \<Rightarrow> rts_buf t = prefix \<and>
         (reader_fails poll_read e \<and> rts_ok src ok prefix stream t
          \<or> e = Io_Error InvalidData ''invalid utf-8'' \<and> \<not> utf8_valid stream \<and> src (rts_reader t) = [])
     | Pending \<Rightarrow> rts_ok src ok prefix stream t)"
proof -
  define s where "s = (if rts_initialized this then this
    else this\<lparr>rts_bytes := [], rts_initialized := True\<rparr>)"
  have s: "ok (rts_reader s)" "rts_chunk s \<noteq> []" "rts_bytes s @ src (rts_reader s) = stream"
      "rts_buf s = prefix" "rts_initialized s"
    using assms(1) by (auto simp: s_def rts_ok_def)
  obtain r chunk b p where l: "collect_loop poll_read (rts_reader s) (rts_chunk s) (rts_bytes s) = Some (r, chunk, b, p)"
      and c: "collect_result poll_read src ok (rts_bytes s) (src (rts_reader s)) (r, chunk, b, p)"
    using collect_loop_spec [OF s(1,2), of "rts_bytes s"] s(3) assms(2) by (metis add_leD2 length_append prod_cases4)
  from c have b: "b @ src r = stream" "ok r" "chunk \<noteq> []" using s(3) by (auto simp: collect_result_def)
  let ?t = "s\<lparr>rts_reader := r, rts_chunk := chunk, rts_bytes := b\<rparr>"
  have ok': "rts_ok src ok prefix stream ?t" using b s(4,5) by (simp add: rts_ok_def)
  show ?thesis
  proof (cases p rule: io_poll_cases)
    case (ok x)
    with c b have "b = stream" "src r = []" by (auto simp: collect_result_def)
    with ok l s(4) b(2) assms(2) show ?thesis
      by (auto simp: read_to_string_poll_def s_def [symmetric] string_from_utf8_def Let_def)
  qed (use l ok' c s(4) in \<open>auto simp: read_to_string_poll_def s_def [symmetric] collect_result_def\<close>)
qed

end

subsection \<open>The \<open>lines\<close> stream\<close>

record 'r lines =
  ln_reader :: 'r
  ln_buf :: "byte list"
  ln_chunk :: "byte list"
  ln_eof :: bool

definition lines_new :: "'r \<Rightarrow> 'r lines" where
  "lines_new r = \<lparr>ln_reader = r, ln_buf = [], ln_chunk = replicate READ_TO_END_CHUNK 0, ln_eof = False\<rparr>"

definition string_from_line :: "byte list \<Rightarrow> byte list io_result" where
  "string_from_line line = string_from_utf8 line"

partial_function (option) lines_poll_next ::
  "'r reader \<Rightarrow> 'r lines \<Rightarrow> ('r lines \<times> byte list io_result option poll) option" where
  "lines_poll_next pr this = (case position (\<lambda>b. b = newline) (ln_buf this) of
     Some i \<Rightarrow>
       (let line = butlast (take (Suc i) (ln_buf this)); this = this\<lparr>ln_buf := drop (Suc i) (ln_buf this)\<rparr> in
        Some (this, Ready (Some (string_from_line line))))
   | None \<Rightarrow>
       (if ln_eof this
        then (if ln_buf this = [] then Some (this, Ready None)
              else Some (this\<lparr>ln_buf := []\<rparr>, Ready (Some (string_from_line (ln_buf this)))))
        else do {
          (r, chunk, p) \<leftarrow> pr (ln_reader this) (ln_chunk this);
          let this = this\<lparr>ln_reader := r, ln_chunk := chunk\<rparr>;
          (case p of
             Pending \<Rightarrow> Some (this, Pending)
           | Ready (Inl e) \<Rightarrow> Some (this, Ready (Some (Err e)))
           | Ready (Inr n) \<Rightarrow>
               (if n = 0 then lines_poll_next pr (this\<lparr>ln_eof := True\<rparr>)
                else do {
                  s \<leftarrow> slice 0 n chunk;
                  b \<leftarrow> vec_extend (ln_buf this) s;
                  lines_poll_next pr (this\<lparr>ln_buf := b\<rparr>) })) }))"

text \<open>The reference: the next line of a byte sequence without its newline, and all lines in order.
  The last line counts even when no newline ends it.\<close>

definition next_line :: "byte list \<Rightarrow> (byte list \<times> byte list) option" where
  "next_line xs = (case position (\<lambda>b. b = newline) xs of
     Some i \<Rightarrow> Some (take i xs, drop (Suc i) xs)
   | None \<Rightarrow> if xs = [] then None else Some (xs, []))"

lemma next_line_shrinks: "next_line xs = Some (l, rest) \<Longrightarrow> length rest < length xs"
  by (auto simp: next_line_def split: option.splits if_splits dest!: position_SomeD)

function split_lines :: "byte list \<Rightarrow> byte list list" where
  "split_lines xs = (case next_line xs of None \<Rightarrow> [] | Some (l, rest) \<Rightarrow> l # split_lines rest)"
  by pat_completeness auto
termination
  by (relation "measure length") (auto dest: next_line_shrinks)

declare split_lines.simps [simp del]

lemma position_append: "position f xs = Some i \<Longrightarrow> position f (xs @ ys) = Some i"
  by (induction xs arbitrary: i) auto

definition ln_ok :: "('r \<Rightarrow> byte list) \<Rightarrow> ('r \<Rightarrow> bool) \<Rightarrow> 'r lines \<Rightarrow> bool" where
  "ln_ok src ok this \<longleftrightarrow> ok (ln_reader this) \<and> ln_chunk this \<noteq> [] \<and> (ln_eof this \<longrightarrow> src (ln_reader this) = [])"

definition ln_stream :: "('r \<Rightarrow> byte list) \<Rightarrow> 'r lines \<Rightarrow> byte list" where
  "ln_stream src this = ln_buf this @ src (ln_reader this)"

definition ln_result ::
  "'r reader \<Rightarrow> ('r \<Rightarrow> byte list) \<Rightarrow> ('r \<Rightarrow> bool) \<Rightarrow> byte list \<Rightarrow> 'r lines \<Rightarrow> byte list io_result option poll \<Rightarrow> bool" where
  "ln_result pr src ok stream t p \<longleftrightarrow> ln_ok src ok t \<and> (case p of
       Pending \<Rightarrow> ln_stream src t = stream
     | Ready None \<Rightarrow> stream = [] \<and> ln_stream src t = []
     | Ready (Some item) \<Rightarrow>
         (\<exists>l. next_line stream = Some (l, ln_stream src t) \<and> item = string_from_line l)
         \<or> (\<exists>e. item = Err e \<and> reader_fails pr e \<and> ln_stream src t = stream))"

context byte_source
begin

lemma lines_poll_next_found:
  assumes "ln_ok src ok this" and "position (\<lambda>b. b = newline) (ln_buf this) = Some i"
  shows "\<exists>t p. lines_poll_next poll_read this = Some (t, p) \<and> ln_result poll_read src ok (ln_stream src this) t p"
proof -
  have i: "i < length (ln_buf this)" using position_SomeD [OF assms(2)] by blast
  then have "next_line (ln_stream src this) = Some (take i (ln_buf this), drop (Suc i) (ln_buf this) @ src (ln_reader this))"
    using position_append [OF assms(2)] by (simp add: next_line_def ln_stream_def)
  moreover have "butlast (take (Suc i) (ln_buf this)) = take i (ln_buf this)"
    using i by (simp add: butlast_take)
  ultimately show ?thesis using assms
    by (subst lines_poll_next.simps) (simp add: ln_result_def ln_ok_def ln_stream_def Let_def)
qed

lemma lines_poll_next_eof:
  assumes "ln_ok src ok this" and "position (\<lambda>b. b = newline) (ln_buf this) = None" and "ln_eof this"
  shows "\<exists>t p. lines_poll_next poll_read this = Some (t, p) \<and> ln_result poll_read src ok (ln_stream src this) t p"
proof -
  have "ln_stream src this = ln_buf this" using assms(1,3) by (simp add: ln_ok_def ln_stream_def)
  then show ?thesis using assms
    by (subst lines_poll_next.simps) (auto simp: ln_result_def ln_ok_def ln_stream_def next_line_def)
qed

lemma lines_poll_next_spec:
  assumes "ln_ok src ok this" and "length (ln_stream src this) \<le> isize_max"
  shows "\<exists>t p. lines_poll_next poll_read this = Some (t, p) \<and> ln_result poll_read src ok (ln_stream src this) t p"
  using assms
proof (induction "length (src (ln_reader this)) + (if ln_eof this then 0 else 1)" arbitrary: this rule: less_induct)
  case less
  consider i where "position (\<lambda>b. b = newline) (ln_buf this) = Some i"
    | "position (\<lambda>b. b = newline) (ln_buf this) = None" "ln_eof this"
    | "position (\<lambda>b. b = newline) (ln_buf this) = None" "\<not> ln_eof this" by fastforce
  then show ?case
  proof cases
    case 3
    have r: "ok (ln_reader this)" "ln_chunk this \<noteq> []" using less.prems(1) by (auto simp: ln_ok_def)
    from r(1) show ?thesis
    proof (cases rule: read_cases [where b = "ln_chunk this"])
      case (pending r' b')
      with 3 r(2) show ?thesis
        by (subst lines_poll_next.simps) (auto simp: ln_result_def ln_ok_def ln_stream_def)
    next
      case (err r' b' e)
      with 3 r(2) show ?thesis
        by (subst lines_poll_next.simps) (auto simp: ln_result_def ln_ok_def ln_stream_def intro: reader_failsI)
    next
      case (ok r' b' n)
      define u where "u = (if n = 0 then this\<lparr>ln_reader := r', ln_chunk := b', ln_eof := True\<rparr>
        else this\<lparr>ln_reader := r', ln_chunk := b', ln_buf := ln_buf this @ take n b'\<rparr>)"
      have n: "n \<le> length b'" using ok(3,4) by simp
      have same: "ln_stream src u = ln_stream src this" using ok(5) by (simp add: u_def ln_stream_def)
      have "length (ln_buf this) + length (take n b') \<le> isize_max"
        using less.prems(2) ok(5) by (simp add: ln_stream_def)
      then have step: "lines_poll_next poll_read this = lines_poll_next poll_read u"
        using 3 ok(1) n by (subst lines_poll_next.simps) (simp add: u_def)
      have u: "ln_ok src ok u" using less.prems(1) ok r(2) by (auto simp: u_def ln_ok_def)
      have "length (src (ln_reader u)) + (if ln_eof u then 0 else 1)
          < length (src (ln_reader this)) + (if ln_eof this then 0 else 1)"
        using 3(2) ok(5,6) r(2) n by (auto simp: u_def)
      from less.hyps [OF this u] same step less.prems(2) show ?thesis by simp
    qed
  qed (use lines_poll_next_found lines_poll_next_eof less.prems(1) in auto)
qed

end

text \<open>Polling the stream a number of times, collecting its items; the flag says whether it has ended.\<close>

fun poll_items ::
  "'r reader \<Rightarrow> nat \<Rightarrow> 'r lines \<Rightarrow> ('r lines \<times> byte list io_result list \<times> bool) panics" where
  "poll_items pr 0 this = Some (this, [], False)"
| "poll_items pr (Suc n) this = (case lines_poll_next pr this of
     None \<Rightarrow> panic
   | Some (t, Pending) \<Rightarrow> poll_items pr n t
   | Some (t, Ready None) \<Rightarrow> Some (t, [], True)
   | Some (t, Ready (Some item)) \<Rightarrow> map_option (\<lambda>(u, items, ended). (u, item # items, ended)) (poll_items pr n t))"

lemma split_lines_next: "next_line xs = Some (l, rest) \<Longrightarrow> split_lines xs = l # split_lines rest"
  by (simp add: split_lines.simps)

lemma split_lines_Nil: "split_lines [] = []"
  by (simp add: split_lines.simps next_line_def)

context byte_source
begin

lemma poll_items_spec:
  assumes "ln_ok src ok this" and "length (ln_stream src this) \<le> isize_max" and "\<And>e. \<not> reader_fails poll_read e"
  shows "\<exists>t items ended. poll_items poll_read n this = Some (t, items, ended)
    \<and> (\<exists>past. split_lines (ln_stream src this) = past @ split_lines (ln_stream src t)
         \<and> items = map string_from_line past) \<and> (ended \<longrightarrow> ln_stream src t = [])"
  using assms(1,2)
proof (induction n arbitrary: this)
  case (Suc n)
  obtain t p where t: "lines_poll_next poll_read this = Some (t, p)"
    and r: "ln_result poll_read src ok (ln_stream src this) t p"
    using lines_poll_next_spec [OF Suc.prems] by blast
  have okt: "ln_ok src ok t" using r by (simp add: ln_result_def)
  consider "p = Pending" | "p = Ready None" | item where "p = Ready (Some item)"
    by (metis is_ready.cases option.exhaust)
  then show ?case
  proof cases
    case 1
    with r have "ln_stream src t = ln_stream src this" by (simp add: ln_result_def)
    with Suc.IH [OF okt] Suc.prems(2) t 1 show ?thesis by simp
  next
    case 2
    with r t show ?thesis by (auto simp: ln_result_def split_lines_Nil)
  next
    case 3
    then obtain l where l: "next_line (ln_stream src this) = Some (l, ln_stream src t)" "item = string_from_line l"
      using r assms(3) by (auto simp: ln_result_def)
    have "length (ln_stream src t) \<le> isize_max" using next_line_shrinks [OF l(1)] Suc.prems(2) by simp
    with Suc.IH [OF okt] obtain u items ended past where
      u: "poll_items poll_read n t = Some (u, items, ended)"
        "split_lines (ln_stream src t) = past @ split_lines (ln_stream src u)"
        "items = map string_from_line past" "ended \<longrightarrow> ln_stream src u = []" by blast
    have "split_lines (ln_stream src this) = (l # past) @ split_lines (ln_stream src u)"
      using split_lines_next [OF l(1)] u(2) by simp
    moreover have "item # items = map string_from_line (l # past)" using u(3) l(2) by simp
    ultimately show ?thesis using t 3 u by fastforce
  qed
qed auto

end

subsection \<open>The futures, polled to completion\<close>

text \<open>Each future keeps its invariant from poll to poll, so the specification of one poll is that of
  any number of them.\<close>

lemma case_poll_collapse: "(case p of Ready a \<Rightarrow> f (Ready a) | Pending \<Rightarrow> f Pending) = f p"
  by (cases p) simp_all

sublocale byte_source \<subseteq> read_exact_future: polled_future
  "read_exact_poll poll_read" "\<lambda>t. re_result poll_read src ok stream len t Pending"
  "\<lambda>t a. re_result poll_read src ok stream len t (Ready a)" for stream len
proof
  fix s
  assume "re_result poll_read src ok stream len s Pending"
  then have "re_ok ok s" "re_stream src s = stream" "length (re_buf s) = len" by (auto simp: re_result_def)
  then show "\<exists>t p. read_exact_poll poll_read s = Some (t, p) \<and>
      (case p of Ready a \<Rightarrow> re_result poll_read src ok stream len t (Ready a)
       | Pending \<Rightarrow> re_result poll_read src ok stream len t Pending)"
    using read_exact_poll_spec [of s] by (simp add: case_poll_collapse)
qed

definition rte_post ::
  "'r reader \<Rightarrow> ('r \<Rightarrow> byte list) \<Rightarrow> ('r \<Rightarrow> bool) \<Rightarrow> byte list \<Rightarrow> byte list \<Rightarrow> 'r read_to_end \<Rightarrow> nat io_result \<Rightarrow> bool" where
  "rte_post pr src ok prefix stream t a = (case a of
     Inr n \<Rightarrow> ok (rte_reader t) \<and> src (rte_reader t) = [] \<and> rte_buf t = prefix @ stream \<and> n = length stream
   | Inl e \<Rightarrow> reader_fails pr e \<and> rte_ok src ok prefix stream t)"

sublocale byte_source \<subseteq> read_to_end_future: polled_future
  "read_to_end_poll poll_read" "\<lambda>t. rte_ok src ok prefix stream t \<and> length (prefix @ stream) \<le> isize_max"
  "rte_post poll_read src ok prefix stream" for prefix stream
proof
  fix s
  assume s: "rte_ok src ok prefix stream s \<and> length (prefix @ stream) \<le> isize_max"
  obtain t p where "read_to_end_poll poll_read s = Some (t, p)"
    and "case p of
       Ready (Inr n) \<Rightarrow> ok (rte_reader t) \<and> src (rte_reader t) = [] \<and> rte_buf t = prefix @ stream \<and> n = length stream
     | Ready (Inl e) \<Rightarrow> reader_fails poll_read e \<and> rte_ok src ok prefix stream t
     | Pending \<Rightarrow> rte_ok src ok prefix stream t"
    using read_to_end_poll_spec s by blast
  with s show "\<exists>t p. read_to_end_poll poll_read s = Some (t, p) \<and>
      (case p of Ready a \<Rightarrow> rte_post poll_read src ok prefix stream t a
       | Pending \<Rightarrow> rte_ok src ok prefix stream t \<and> length (prefix @ stream) \<le> isize_max)"
    by (cases p rule: io_poll_cases) (auto simp: rte_post_def)
qed

context byte_source
begin

lemma read_exact_drive:
  assumes "ok r"
  shows "\<exists>t p. drive (read_exact_poll poll_read) n (read_exact_new r b) = Some (t, p)
    \<and> re_result poll_read src ok (src r) (length b) t p"
proof -
  have "re_result poll_read src ok (src r) (length b) (read_exact_new r b) Pending"
    using assms by (simp add: re_result_def re_ok_def re_stream_def read_exact_new_def)
  from read_exact_future.drive_spec [OF this, of n] show ?thesis by (simp add: case_poll_collapse)
qed

lemma read_to_end_drive:
  assumes "ok r" and "length (b @ src r) \<le> isize_max"
  shows "\<exists>t p. drive (read_to_end_poll poll_read) n (read_to_end_new r b) = Some (t, p)
    \<and> (case p of Pending \<Rightarrow> rte_ok src ok b (src r) t | Ready a \<Rightarrow> rte_post poll_read src ok b (src r) t a)"
proof -
  have "rte_ok src ok b (src r) (read_to_end_new r b) \<and> length (b @ src r) \<le> isize_max"
    using assms by (simp add: rte_ok_def read_to_end_new_def READ_TO_END_CHUNK_def)
  from read_to_end_future.drive_spec [OF this, of n] show ?thesis by (auto split: poll.splits)
qed

end

subsection \<open>Correctness of the reading futures\<close>

text \<open>\<open>read_exact\<close> fills the buffer with exactly the next bytes. However often it is polled, it returns;
  on success the buffer holds the first \<open>b.len()\<close> bytes of the stream and the reader the rest; it
  reports an unexpected end of file only when the whole stream is shorter than the buffer; and while it
  is pending, the filled part of the buffer and the reader together still hold the stream.\<close>

theorem read_exact_fills:
  assumes "byte_source pr src ok" and "ok r"
  shows "\<exists>t p. drive (read_exact_poll pr) n (read_exact_new r b) = Some (t, p) \<and> length (re_buf t) = length b \<and>
    (case p of
       Ready (Inr _) \<Rightarrow> re_buf t = take (length b) (src r) \<and> src (re_reader t) = drop (length b) (src r)
     | Ready (Inl e) \<Rightarrow> reader_fails pr e
         \<or> e = Io_Error UnexpectedEof ''failed to fill whole buffer'' \<and> length (src r) < length b
     | Pending \<Rightarrow> take (re_filled t) (re_buf t) @ src (re_reader t) = src r)"
proof -
  obtain t p where t: "drive (read_exact_poll pr) n (read_exact_new r b) = Some (t, p)"
    and q: "re_result pr src ok (src r) (length b) t p"
    using byte_source.read_exact_drive [OF assms] by blast
  from q have len: "length (re_buf t) = length b" and s: "take (re_filled t) (re_buf t) @ src (re_reader t) = src r"
    by (auto simp: re_result_def re_stream_def)
  show ?thesis
  proof (cases p rule: io_poll_cases)
    case (ok x)
    with q have "re_filled t = length b" by (simp add: re_result_def)
    with s len have "src r = re_buf t @ src (re_reader t)" by simp
    with t len ok show ?thesis by simp
  next
    case (err e)
    have "length (src r) = min (length b) (re_filled t) + length (src (re_reader t))"
      using arg_cong [OF s, of length] len by simp
    with q err have "reader_fails pr e
        \<or> e = Io_Error UnexpectedEof ''failed to fill whole buffer'' \<and> length (src r) < length b"
      by (auto simp: re_result_def)
    with t len err show ?thesis by simp
  qed (use t len s in simp)
qed

theorem read_exact_fills_witness:
  "\<exists>t p. drive (read_exact_poll cr_poll_read) 1
       (read_exact_new \<lparr>cr_data = [1, 2, 3], cr_pos = 0, cr_max_read = 1\<rparr> [0, 0]) = Some (t, p)
     \<and> (p = Ready (Ok ()) \<longrightarrow> re_buf t = [1, 2])"
proof -
  let ?r = "\<lparr>cr_data = [1, 2, 3], cr_pos = 0, cr_max_read = 1\<rparr>"
  have ok: "cr_ok ?r" and src: "cr_src ?r = [1, 2, 3]" by (simp_all add: cr_ok_def cr_src_def)
  from read_exact_fills [OF chunked.byte_source_axioms ok, of 1 "[0, 0]", unfolded src]
  obtain t p where "drive (read_exact_poll cr_poll_read) 1 (read_exact_new ?r [0, 0]) = Some (t, p)"
    and "case p of Ready (Inr _) \<Rightarrow> re_buf t = take (length [0, 0 :: byte]) [1, 2, 3] | _ \<Rightarrow> True"
    by (fastforce split: poll.splits sum.splits)
  then show ?thesis by (intro exI [of _ t] exI [of _ p]) auto
qed

text \<open>(C31) \<open>lines\<close> agrees with splitting the whole stream at its newlines. Over a reader that does not fail,
  any number of polls returns, the items produced are the UTF-8 checked lines of the stream in order,
  what is left to produce is the lines of what is left of the stream, and a stream that ends has
  produced every line.\<close>

theorem lines_equiv_split:
  assumes "byte_source pr src ok" and "ok r" and "length (src r) \<le> isize_max" and "\<And>e. \<not> reader_fails pr e"
  shows "\<exists>t items ended past. poll_items pr n (lines_new r) = Some (t, items, ended)
    \<and> split_lines (src r) = past @ split_lines (ln_stream src t) \<and> items = map string_from_line past
    \<and> (ended \<longrightarrow> items = map string_from_line (split_lines (src r)))"
proof -
  have i: "ln_ok src ok (lines_new r)" and s: "ln_stream src (lines_new r) = src r"
    using assms(2) by (simp_all add: ln_ok_def ln_stream_def lines_new_def READ_TO_END_CHUNK_def)
  obtain t items ended past where "poll_items pr n (lines_new r) = Some (t, items, ended)"
      "split_lines (src r) = past @ split_lines (ln_stream src t)" "items = map string_from_line past"
      "ended \<longrightarrow> ln_stream src t = []"
    using byte_source.poll_items_spec [OF assms(1) i] assms(3,4) unfolding s by blast
  then show ?thesis by (auto simp: split_lines_Nil)
qed

theorem lines_equiv_split_witness:
  "\<exists>t items ended past. poll_items cr_poll_read 3 (lines_new \<lparr>cr_data = [97, 10, 98], cr_pos = 0, cr_max_read = 2\<rparr>)
       = Some (t, items, ended) \<and> items = map string_from_line past"
proof -
  let ?r = "\<lparr>cr_data = [97, 10, 98], cr_pos = 0, cr_max_read = 2\<rparr>"
  have ok: "cr_ok ?r" and len: "length (cr_src ?r) \<le> isize_max" by (simp_all add: cr_ok_def cr_src_def isize_max_def)
  have "\<And>e. \<not> reader_fails cr_poll_read e"
    by (auto simp: reader_fails_def cr_poll_read_def bind_eq_Some_conv Let_def)
  from lines_equiv_split [OF chunked.byte_source_axioms ok len this, of 3] show ?thesis by blast
qed

end
