(* ===== verification/Io_Copy.thy ===== *)
theory Io_Copy
  imports Io_Read Buf_Writer
begin

text \<open>
  The writing and copying futures of \<open>src/src/io/ext.rs\<close>: \<open>write_all\<close>, \<open>copy\<close> and
  \<open>copy_bidirectional\<close>, with the conservation of the copied bytes, the half-close order of the
  bidirectional copy, and the round trip of bytes through the two buffered adapters. The counters of
  copied bytes are 64-bit; an overflow is a panic of the model, excluded by the length of the stream.
\<close>

subsection \<open>\<open>write_all\<close>\<close>

record 'w write_all =
  wa_writer :: 'w
  wa_buf :: "byte list"
  wa_written :: nat
  wa_generation :: nat

definition write_all_new :: "'w \<Rightarrow> byte list \<Rightarrow> nat \<Rightarrow> 'w write_all" where
  "write_all_new w b g = \<lparr>wa_writer = w, wa_buf = b, wa_written = 0, wa_generation = g\<rparr>"

function write_all_poll :: "'w writer \<Rightarrow> 'w write_all \<Rightarrow> ('w write_all \<times> unit io_result poll) panics" where
  "write_all_poll pw this =
     (if wa_written this < length (wa_buf this)
      then (case pw (wa_writer this) (drop (wa_written this) (wa_buf this)) (wa_generation this) of
              None \<Rightarrow> panic
            | Some (w, p) \<Rightarrow>
                (case p of
                   Pending \<Rightarrow> Some (this\<lparr>wa_writer := w\<rparr>, Pending)
                 | Ready (Inl e) \<Rightarrow> Some (this\<lparr>wa_writer := w\<rparr>, Ready (Err e))
                 | Ready (Inr n) \<Rightarrow>
                     if n = 0
                     then Some (this\<lparr>wa_writer := w\<rparr>, Ready (Err (Io_Error WriteZero ''failed to write whole buffer'')))
                     else write_all_poll pw (this\<lparr>wa_writer := w, wa_written := wa_written this + n\<rparr>)))
      else Some (this, Ready (Ok ())))"
  by pat_completeness auto
termination
  by (relation "measure (\<lambda>(_, this). length (wa_buf this) - wa_written this)") auto

declare write_all_poll.simps [simp del]

definition wa_ok :: "('w \<Rightarrow> byte list) \<Rightarrow> ('w \<Rightarrow> bool) \<Rightarrow> byte list \<Rightarrow> byte list \<Rightarrow> 'w write_all \<Rightarrow> bool" where
  "wa_ok out wok before bytes this \<longleftrightarrow> wok (wa_writer this) \<and> wa_buf this = bytes
     \<and> wa_written this \<le> length bytes \<and> out (wa_writer this) = before @ take (wa_written this) bytes"

definition wa_post :: "('w \<Rightarrow> byte list) \<Rightarrow> ('w \<Rightarrow> bool) \<Rightarrow> byte list \<Rightarrow> byte list \<Rightarrow> 'w write_all \<Rightarrow> unit io_result \<Rightarrow> bool" where
  "wa_post out wok before bytes t a \<longleftrightarrow> wa_ok out wok before bytes t
     \<and> (a = Ok () \<longrightarrow> out (wa_writer t) = before @ bytes)"

context byte_sink
begin

lemma write_all_poll_spec:
  assumes "wa_ok out wok before bytes this"
  shows "\<exists>t p. write_all_poll poll_write this = Some (t, p)
    \<and> (case p of Pending \<Rightarrow> wa_ok out wok before bytes t | Ready a \<Rightarrow> wa_post out wok before bytes t a)"
  using assms
proof (induction "length (wa_buf this) - wa_written this" arbitrary: this rule: less_induct)
  case less
  let ?k = "wa_written this" and ?b = "wa_buf this"
  show ?case
  proof (cases "?k < length ?b")
    case False
    with less.prems show ?thesis
      by (subst write_all_poll.simps) (simp add: wa_ok_def wa_post_def)
  next
    case True
    have "wok (wa_writer this)" using less.prems by (simp add: wa_ok_def)
    then show ?thesis
    proof (cases rule: write_cases [where b = "drop ?k ?b" and g = "wa_generation this"])
      case (pending w)
      with True less.prems show ?thesis by (subst write_all_poll.simps) (simp add: wa_ok_def)
    next
      case (err w e)
      with True less.prems show ?thesis by (subst write_all_poll.simps) (simp add: wa_ok_def wa_post_def)
    next
      case (ok w n)
      show ?thesis
      proof (cases "n = 0")
        case True
        with ok \<open>?k < length ?b\<close> less.prems show ?thesis
          by (subst write_all_poll.simps) (simp add: wa_ok_def wa_post_def)
      next
        case False
        let ?u = "this\<lparr>wa_writer := w, wa_written := ?k + n\<rparr>"
        have step: "write_all_poll poll_write this = write_all_poll poll_write ?u"
          using ok(1) True False by (subst write_all_poll.simps) simp
        have u: "wa_ok out wok before bytes ?u"
          using less.prems ok(2,3,4) True by (auto simp: wa_ok_def take_add)
        have "length (wa_buf ?u) - wa_written ?u < length ?b - ?k" using True False by simp
        from less.hyps [OF this u] step show ?thesis by simp
      qed
    qed
  qed
qed

end

sublocale byte_sink \<subseteq> write_all_future: polled_future
  "write_all_poll poll_write" "wa_ok out wok before bytes" "wa_post out wok before bytes" for before bytes
proof
  fix s
  assume "wa_ok out wok before bytes s"
  from write_all_poll_spec [OF this]
  show "\<exists>t p. write_all_poll poll_write s = Some (t, p)
    \<and> (case p of Ready a \<Rightarrow> wa_post out wok before bytes t a | Pending \<Rightarrow> wa_ok out wok before bytes t)" .
qed

context byte_sink
begin

lemma write_all_drive:
  assumes "wok w"
  shows "\<exists>t p. drive (write_all_poll poll_write) n (write_all_new w b g) = Some (t, p)
    \<and> (case p of Pending \<Rightarrow> wa_ok out wok (out w) b t | Ready a \<Rightarrow> wa_post out wok (out w) b t a)"
proof -
  have "wa_ok out wok (out w) b (write_all_new w b g)" using assms by (simp add: wa_ok_def write_all_new_def)
  from write_all_future.drive_spec [OF this] show ?thesis .
qed

end

subsection \<open>The copy loop\<close>

definition COPY_BUF_SIZE :: nat where
  "COPY_BUF_SIZE = 8192"

record copy_buffer =
  cb_buf :: "byte list"
  cb_pos :: nat
  cb_filled :: nat
  cb_copied :: nat

definition copy_buffer_new :: copy_buffer where
  "copy_buffer_new = \<lparr>cb_buf = replicate COPY_BUF_SIZE 0, cb_pos = 0, cb_filled = 0, cb_copied = 0\<rparr>"

text \<open>The two \<open>Copying\<close> arms of both copy futures: write what is buffered, otherwise read; the loop ends
  when a read returns zero bytes.\<close>

partial_function (option) pump ::
  "'r reader \<Rightarrow> 'w writer \<Rightarrow> nat \<Rightarrow> 'r \<Rightarrow> 'w \<Rightarrow> copy_buffer \<Rightarrow>
   ('r \<times> 'w \<times> copy_buffer \<times> unit io_result poll) option" where
  "pump pr pw g r w c =
     (if cb_pos c < cb_filled c
      then do {
        s \<leftarrow> slice (cb_pos c) (cb_filled c) (cb_buf c);
        (w, p) \<leftarrow> pw w s g;
        (case p of
           Pending \<Rightarrow> Some (r, w, c, Pending)
         | Ready (Inl e) \<Rightarrow> Some (r, w, c, Ready (Err e))
         | Ready (Inr n) \<Rightarrow>
             (if n = 0 then Some (r, w, c, Ready (Err (Io_Error WriteZero ''failed to write copied data'')))
              else do {
                copied \<leftarrow> checked_add (cb_copied c) n;
                pump pr pw g r w (c\<lparr>cb_pos := cb_pos c + n, cb_copied := copied\<rparr>) })) }
      else do {
        (r, b, p) \<leftarrow> pr r (cb_buf c);
        let c = c\<lparr>cb_buf := b\<rparr>;
        (case p of
           Pending \<Rightarrow> Some (r, w, c, Pending)
         | Ready (Inl e) \<Rightarrow> Some (r, w, c, Ready (Err e))
         | Ready (Inr n) \<Rightarrow>
             (let c = c\<lparr>cb_pos := 0, cb_filled := n\<rparr> in
              if n = 0 then Some (r, w, c, Ready (Ok ())) else pump pr pw g r w c)) })"

definition cb_mid :: "copy_buffer \<Rightarrow> byte list" where
  "cb_mid c = take (cb_filled c - cb_pos c) (drop (cb_pos c) (cb_buf c))"

definition cb_ok :: "copy_buffer \<Rightarrow> bool" where
  "cb_ok c \<longleftrightarrow> cb_buf c \<noteq> [] \<and> cb_pos c \<le> cb_filled c \<and> cb_filled c \<le> length (cb_buf c)"

text \<open>The books of a copy: what the writer took, what is in transit and what the reader still has make
  up the stream, and the counter is the number of bytes the writer took.\<close>

definition copy_books ::
  "('r \<Rightarrow> byte list) \<Rightarrow> ('w \<Rightarrow> byte list) \<Rightarrow> byte list \<Rightarrow> byte list \<Rightarrow> 'r \<Rightarrow> 'w \<Rightarrow> copy_buffer \<Rightarrow> bool" where
  "copy_books src out before stream r w c \<longleftrightarrow> cb_ok c \<and> out w @ cb_mid c @ src r = before @ stream
     \<and> length (out w) = length before + cb_copied c"

lemma cb_mid_eq: "\<not> cb_pos c < cb_filled c \<Longrightarrow> cb_mid c = []"
  by (simp add: cb_mid_def)

lemma cb_mid_advance: "cb_mid (c\<lparr>cb_pos := cb_pos c + n, cb_copied := k\<rparr>) = drop n (cb_mid c)"
  by (simp add: cb_mid_def drop_take add.commute)

lemma length_cb_mid: "cb_ok c \<Longrightarrow> length (cb_mid c) = cb_filled c - cb_pos c"
  by (auto simp: cb_mid_def cb_ok_def)

locale byte_copy = byte_source poll_read src ok + byte_sink poll_write poll_flush poll_close out sunk wok
  for poll_read :: "'r reader" and src ok and poll_write :: "'w writer" and poll_flush poll_close out sunk wok
begin

lemma pump_write:
  assumes "copy_books src out before stream r w c" and "wok w" and "cb_pos c < cb_filled c"
    and "length stream < u64_modulus"
  obtains
    (stop) w' p where "pump poll_read poll_write g r w c = Some (r, w', c, p)" "p \<noteq> Ready (Ok ())" "wok w'"
      "copy_books src out before stream r w' c"
  | (go) w' n d where "pump poll_read poll_write g r w c = pump poll_read poll_write g r w' d" "wok w'" "0 < n"
      "copy_books src out before stream r w' d" "cb_mid d = drop n (cb_mid c)" "n \<le> length (cb_mid c)"
proof -
  note b = assms(1) [unfolded copy_books_def]
  have sl: "slice (cb_pos c) (cb_filled c) (cb_buf c) = Some (cb_mid c)"
    using b by (simp add: cb_ok_def cb_mid_def)
  from assms(2) show thesis
  proof (cases rule: write_cases [where b = "cb_mid c" and g = g])
    case (pending w')
    then have "pump poll_read poll_write g r w c = Some (r, w', c, Pending)"
      using assms(3) sl by (subst pump.simps) simp
    then show ?thesis using stop pending b by (simp add: copy_books_def)
  next
    case (err w' e)
    then have "pump poll_read poll_write g r w c = Some (r, w', c, Ready (Err e))"
      using assms(3) sl by (subst pump.simps) simp
    then show ?thesis using stop err b by (simp add: copy_books_def)
  next
    case (ok w' n)
    show ?thesis
    proof (cases "n = 0")
      case True
      then have "pump poll_read poll_write g r w c =
          Some (r, w', c, Ready (Err (Io_Error WriteZero ''failed to write copied data'')))"
        using ok(1) assms(3) sl by (subst pump.simps) simp
      then show ?thesis using stop True ok b by (simp add: copy_books_def)
    next
      case False
      let ?d = "c\<lparr>cb_pos := cb_pos c + n, cb_copied := cb_copied c + n\<rparr>"
      have len: "length (out w) + length (cb_mid c) + length (src r) = length before + length stream"
        using b by (metis add.assoc length_append)
      have "cb_copied c + n < u64_modulus" using len b ok(3) assms(4) by linarith
      then have "pump poll_read poll_write g r w c = pump poll_read poll_write g r w' ?d"
        using assms(3) sl ok(1) False by (subst pump.simps) (simp add: checked_add_def)
      moreover have "cb_ok ?d" using b ok(3) length_cb_mid [of c] assms(3) by (auto simp: cb_ok_def)
      moreover have "out w' @ cb_mid ?d @ src r = before @ stream"
        using ok(4) b by (simp add: cb_mid_advance) (metis append_assoc append_take_drop_id)
      moreover have "length (out w') = length before + cb_copied ?d" using ok(3,4) b by simp
      ultimately show ?thesis using go [of w' ?d n] ok(2,3) False
        by (simp add: copy_books_def cb_mid_advance)
    qed
  qed
qed

lemma pump_read:
  assumes "copy_books src out before stream r w c" and "ok r" and "\<not> cb_pos c < cb_filled c"
  obtains
    (stop) r' d p where "pump poll_read poll_write g r w c = Some (r', w, d, p)" "ok r'"
      "copy_books src out before stream r' w d" "p = Ready (Ok ()) \<Longrightarrow> cb_mid d = [] \<and> src r' = []"
  | (go) r' d n where "pump poll_read poll_write g r w c = pump poll_read poll_write g r' w d" "ok r'" "0 < n"
      "copy_books src out before stream r' w d" "length (cb_mid d) = n" "length (src r) = n + length (src r')"
proof -
  note b = assms(1) [unfolded copy_books_def]
  have m: "cb_mid c = []" using assms(3) by (rule cb_mid_eq)
  from assms(2) show thesis
  proof (cases rule: read_cases [where b = "cb_buf c"])
    case (pending r' b')
    let ?d = "c\<lparr>cb_buf := b'\<rparr>"
    have "copy_books src out before stream r' w ?d"
      using pending b assms(3) m by (auto simp: copy_books_def cb_ok_def cb_mid_def)
    moreover have "pump poll_read poll_write g r w c = Some (r', w, ?d, Pending)"
      using pending(1) assms(3) by (subst pump.simps) simp
    ultimately show ?thesis using stop pending(2) by simp
  next
    case (err r' b' e)
    let ?d = "c\<lparr>cb_buf := b'\<rparr>"
    have "copy_books src out before stream r' w ?d"
      using err b assms(3) m by (auto simp: copy_books_def cb_ok_def cb_mid_def)
    moreover have "pump poll_read poll_write g r w c = Some (r', w, ?d, Ready (Err e))"
      using err(1) assms(3) by (subst pump.simps) simp
    ultimately show ?thesis using stop err(2) by simp
  next
    case (ok r' b' n)
    let ?d = "c\<lparr>cb_buf := b', cb_pos := 0, cb_filled := n\<rparr>"
    have mid: "cb_mid ?d = take n b'" by (simp add: cb_mid_def)
    have d: "copy_books src out before stream r' w ?d"
      using ok b m mid by (auto simp: copy_books_def cb_ok_def)
    have ne: "cb_buf c \<noteq> []" using b by (simp add: cb_ok_def)
    have eq: "pump poll_read poll_write g r w c =
        (if n = 0 then Some (r', w, ?d, Ready (Ok ())) else pump poll_read poll_write g r' w ?d)"
      using ok(1) assms(3) by (subst pump.simps) (simp add: Let_def)
    show ?thesis
    proof (cases "n = 0")
      case True
      with ok(6) ne have "src r' = []" by simp
      with True eq mid show ?thesis by (intro stop [OF _ ok(2) d]) auto
    next
      case False
      have "length (cb_mid ?d) = n" using mid ok(3,4) by simp
      moreover have "length (src r) = n + length (src r')" using ok(3,4,5) by simp
      ultimately show ?thesis using False eq by (intro go [OF _ ok(2) _ d]) auto
    qed
  qed
qed

lemma pump_spec:
  assumes "copy_books src out before stream r w c" and "ok r" and "wok w" and "length stream < u64_modulus"
  shows "\<exists>r' w' d p. pump poll_read poll_write g r w c = Some (r', w', d, p) \<and> ok r' \<and> wok w'
    \<and> copy_books src out before stream r' w' d \<and> (p = Ready (Ok ()) \<longrightarrow> cb_mid d = [] \<and> src r' = [])"
  using assms(1-3)
proof (induction "2 * length (src r) + length (cb_mid c)" arbitrary: r w c rule: less_induct)
  case less
  show ?case
  proof (cases "cb_pos c < cb_filled c")
    case True
    from less.prems(1,3) True assms(4) show ?thesis
    proof (cases rule: pump_write [where g = g])
      case (stop w' p)
      with less.prems(2) show ?thesis by auto
    next
      case (go w' n d)
      then have "2 * length (src r) + length (cb_mid d) < 2 * length (src r) + length (cb_mid c)" by simp
      from less.hyps [OF this go(4) less.prems(2) go(2)] go(1) show ?thesis by simp
    qed
  next
    case False
    from less.prems(1,2) False show ?thesis
    proof (cases rule: pump_read [where g = g])
      case (stop r' d p)
      with less.prems(3) show ?thesis by auto
    next
      case (go r' d n)
      then have "2 * length (src r') + length (cb_mid d) < 2 * length (src r) + length (cb_mid c)" by simp
      from less.hyps [OF this go(4,2) less.prems(3)] go(1) show ?thesis by simp
    qed
  qed
qed

end

subsection \<open>\<open>copy\<close>\<close>

datatype copy_state = Copying | Flushing

record ('r, 'w) copy =
  cp_reader :: 'r
  cp_writer :: 'w
  cp_buffer :: copy_buffer
  cp_state :: copy_state
  cp_generation :: nat

definition copy_new :: "'r \<Rightarrow> 'w \<Rightarrow> nat \<Rightarrow> ('r, 'w) copy" where
  "copy_new r w g = \<lparr>cp_reader = r, cp_writer = w, cp_buffer = copy_buffer_new, cp_state = Copying, cp_generation = g\<rparr>"

text \<open>The \<open>Flushing\<close> arm.\<close>

definition copy_flush ::
  "'w flusher \<Rightarrow> ('r, 'w) copy \<Rightarrow> (('r, 'w) copy \<times> nat io_result poll) panics" where
  "copy_flush pf this = do {
     (w, p) \<leftarrow> pf (cp_writer this);
     Some (this\<lparr>cp_writer := w\<rparr>, (case p of
         Ready (Inr _) \<Rightarrow> Ready (Ok (cb_copied (cp_buffer this)))
       | Ready (Inl e) \<Rightarrow> Ready (Err e)
       | Pending \<Rightarrow> Pending)) }"

definition copy_poll ::
  "'r reader \<Rightarrow> 'w writer \<Rightarrow> 'w flusher \<Rightarrow> ('r, 'w) copy \<Rightarrow> (('r, 'w) copy \<times> nat io_result poll) panics" where
  "copy_poll pr pw pf this = (case cp_state this of
     Flushing \<Rightarrow> copy_flush pf this
   | Copying \<Rightarrow> do {
       (r, w, c, p) \<leftarrow> pump pr pw (cp_generation this) (cp_reader this) (cp_writer this) (cp_buffer this);
       let this = this\<lparr>cp_reader := r, cp_writer := w, cp_buffer := c\<rparr>;
       (case p of
          Pending \<Rightarrow> Some (this, Pending)
        | Ready (Inl e) \<Rightarrow> Some (this, Ready (Err e))
        | Ready (Inr _) \<Rightarrow> copy_flush pf (this\<lparr>cp_state := Flushing\<rparr>)) })"

definition cp_ok ::
  "('r \<Rightarrow> byte list) \<Rightarrow> ('r \<Rightarrow> bool) \<Rightarrow> ('w \<Rightarrow> byte list) \<Rightarrow> ('w \<Rightarrow> bool) \<Rightarrow> byte list \<Rightarrow> byte list \<Rightarrow> ('r, 'w) copy \<Rightarrow> bool" where
  "cp_ok src ok out wok before stream this \<longleftrightarrow> ok (cp_reader this) \<and> wok (cp_writer this)
     \<and> copy_books src out before stream (cp_reader this) (cp_writer this) (cp_buffer this)
     \<and> (cp_state this = Flushing \<longrightarrow> cb_mid (cp_buffer this) = [] \<and> src (cp_reader this) = [])"

definition cp_post ::
  "('r \<Rightarrow> byte list) \<Rightarrow> ('r \<Rightarrow> bool) \<Rightarrow> ('w \<Rightarrow> byte list) \<Rightarrow> ('w \<Rightarrow> byte list) \<Rightarrow> ('w \<Rightarrow> bool) \<Rightarrow> byte list \<Rightarrow> byte list \<Rightarrow>
   ('r, 'w) copy \<Rightarrow> nat io_result \<Rightarrow> bool" where
  "cp_post src ok out sunk wok before stream t a \<longleftrightarrow> cp_ok src ok out wok before stream t \<and> (case a of
     Inr n \<Rightarrow> n = length stream \<and> out (cp_writer t) = before @ stream \<and> sunk (cp_writer t) = before @ stream
       \<and> src (cp_reader t) = []
   | Inl _ \<Rightarrow> True)"

context byte_copy
begin

lemma copy_flush_spec:
  assumes "cp_ok src ok out wok before stream this" and "cp_state this = Flushing"
  shows "\<exists>t p. copy_flush poll_flush this = Some (t, p) \<and> (case p of
      Ready a \<Rightarrow> cp_post src ok out sunk wok before stream t a | Pending \<Rightarrow> cp_ok src ok out wok before stream t)"
proof -
  have w: "wok (cp_writer this)" using assms(1) by (simp add: cp_ok_def)
  obtain w' q where q: "poll_flush (cp_writer this) = Some (w', q)" using flush_returns [OF w] by fastforce
  let ?t = "this\<lparr>cp_writer := w'\<rparr>"
  have out: "wok w'" "out w' = out (cp_writer this)" using flush_keeps [OF w q] by auto
  have t: "cp_ok src ok out wok before stream ?t" using assms(1) out by (simp add: cp_ok_def copy_books_def)
  have full: "out w' = before @ stream" "src (cp_reader this) = []" "cb_copied (cp_buffer this) = length stream"
    using assms out by (auto simp: cp_ok_def copy_books_def)
  show ?thesis
  proof (cases q rule: io_poll_cases)
    case (ok x)
    then have "sunk w' = before @ stream" using flush_sinks [OF w] q full by simp
    with q ok t full show ?thesis by (simp add: copy_flush_def cp_post_def)
  qed (use q t in \<open>simp_all add: copy_flush_def cp_post_def\<close>)
qed

lemma copy_poll_spec:
  assumes "cp_ok src ok out wok before stream this" and "length stream < u64_modulus"
  shows "\<exists>t p. copy_poll poll_read poll_write poll_flush this = Some (t, p) \<and> (case p of
      Ready a \<Rightarrow> cp_post src ok out sunk wok before stream t a | Pending \<Rightarrow> cp_ok src ok out wok before stream t)"
proof (cases "cp_state this")
  case Flushing
  with copy_flush_spec [OF assms(1)] show ?thesis by (simp add: copy_poll_def)
next
  case Copying
  have i: "copy_books src out before stream (cp_reader this) (cp_writer this) (cp_buffer this)"
    "ok (cp_reader this)" "wok (cp_writer this)" using assms(1) by (auto simp: cp_ok_def)
  obtain r w c p where q: "pump poll_read poll_write (cp_generation this) (cp_reader this) (cp_writer this)
      (cp_buffer this) = Some (r, w, c, p)" "ok r" "wok w" "copy_books src out before stream r w c"
      "p = Ready (Ok ()) \<longrightarrow> cb_mid c = [] \<and> src r = []"
    using pump_spec [OF i assms(2)] by blast
  let ?t = "this\<lparr>cp_reader := r, cp_writer := w, cp_buffer := c\<rparr>"
  have t: "cp_ok src ok out wok before stream ?t" using q Copying by (simp add: cp_ok_def)
  show ?thesis
  proof (cases p rule: io_poll_cases)
    case (ok x)
    let ?u = "?t\<lparr>cp_state := Flushing\<rparr>"
    have "cp_ok src ok out wok before stream ?u" using q ok by (simp add: cp_ok_def)
    from copy_flush_spec [OF this] q(1) ok Copying show ?thesis by (simp add: copy_poll_def)
  qed (use q t Copying in \<open>simp_all add: copy_poll_def cp_post_def\<close>)
qed

end

sublocale byte_copy \<subseteq> copy_future: polled_future
  "copy_poll poll_read poll_write poll_flush"
  "\<lambda>t. cp_ok src ok out wok before stream t \<and> length stream < u64_modulus"
  "cp_post src ok out sunk wok before stream" for before stream
proof
  fix s
  assume s: "cp_ok src ok out wok before stream s \<and> length stream < u64_modulus"
  then obtain t p where "copy_poll poll_read poll_write poll_flush s = Some (t, p)" and "case p of
      Ready a \<Rightarrow> cp_post src ok out sunk wok before stream t a | Pending \<Rightarrow> cp_ok src ok out wok before stream t"
    using copy_poll_spec by blast
  with s show "\<exists>t p. copy_poll poll_read poll_write poll_flush s = Some (t, p) \<and> (case p of
      Ready a \<Rightarrow> cp_post src ok out sunk wok before stream t a
    | Pending \<Rightarrow> cp_ok src ok out wok before stream t \<and> length stream < u64_modulus)"
    by (cases p) auto
qed

context byte_copy
begin

lemma copy_drive:
  assumes "ok r" and "wok w" and "length (src r) < u64_modulus"
  shows "\<exists>t p. drive (copy_poll poll_read poll_write poll_flush) n (copy_new r w g) = Some (t, p) \<and> (case p of
      Ready a \<Rightarrow> cp_post src ok out sunk wok (out w) (src r) t a | Pending \<Rightarrow> cp_ok src ok out wok (out w) (src r) t)"
proof -
  have "cp_ok src ok out wok (out w) (src r) (copy_new r w g) \<and> length (src r) < u64_modulus"
    using assms by (simp add: cp_ok_def copy_books_def copy_new_def copy_buffer_new_def cb_ok_def cb_mid_def COPY_BUF_SIZE_def)
  from copy_future.drive_spec [OF this, of n] show ?thesis by (auto split: poll.splits)
qed

end

subsection \<open>\<open>copy_bidirectional\<close>\<close>

datatype copy_half_state = HCopying | HClosing | HDone

record copy_half =
  ch_buffer :: copy_buffer
  ch_state :: copy_half_state
  ch_generation :: nat

definition copy_half_new :: "nat \<Rightarrow> copy_half" where
  "copy_half_new g = \<lparr>ch_buffer = copy_buffer_new, ch_state = HCopying, ch_generation = g\<rparr>"

definition is_done :: "copy_half \<Rightarrow> bool" where
  "is_done half \<longleftrightarrow> ch_state half = HDone"

text \<open>The \<open>Closing\<close> arm, and the whole of \<open>poll_copy_half\<close>.\<close>

definition half_close ::
  "'w flusher \<Rightarrow> 'r \<Rightarrow> 'w \<Rightarrow> copy_half \<Rightarrow> ('r \<times> 'w \<times> copy_half \<times> unit io_result poll) panics" where
  "half_close pc r w half = do {
     (w, p) \<leftarrow> pc w;
     Some (case p of
         Ready (Inr _) \<Rightarrow> (r, w, half\<lparr>ch_state := HDone\<rparr>, Ready (Ok ()))
       | Ready (Inl e) \<Rightarrow> (r, w, half, Ready (Err e))
       | Pending \<Rightarrow> (r, w, half, Pending)) }"

definition poll_copy_half ::
  "'r reader \<Rightarrow> 'w writer \<Rightarrow> 'w flusher \<Rightarrow> 'r \<Rightarrow> 'w \<Rightarrow> copy_half \<Rightarrow>
   ('r \<times> 'w \<times> copy_half \<times> unit io_result poll) panics" where
  "poll_copy_half pr pw pc r w half = (case ch_state half of
     HDone \<Rightarrow> Some (r, w, half, Ready (Ok ()))
   | HClosing \<Rightarrow> half_close pc r w half
   | HCopying \<Rightarrow> do {
       (r, w, c, p) \<leftarrow> pump pr pw (ch_generation half) r w (ch_buffer half);
       let half = half\<lparr>ch_buffer := c\<rparr>;
       (case p of
          Pending \<Rightarrow> Some (r, w, half, Pending)
        | Ready (Inl e) \<Rightarrow> Some (r, w, half, Ready (Err e))
        | Ready (Inr _) \<Rightarrow> half_close pc r w (half\<lparr>ch_state := HClosing\<rparr>)) })"

record ('a, 'b) copy_bidirectional =
  bi_a :: 'a
  bi_b :: 'b
  bi_a_to_b :: copy_half
  bi_b_to_a :: copy_half

definition copy_bidirectional_new :: "'a \<Rightarrow> 'b \<Rightarrow> nat \<Rightarrow> nat \<Rightarrow> ('a, 'b) copy_bidirectional" where
  "copy_bidirectional_new a b g h =
     \<lparr>bi_a = a, bi_b = b, bi_a_to_b = copy_half_new g, bi_b_to_a = copy_half_new h\<rparr>"

text \<open>The operations of one endpoint: reading, writing, closing.\<close>

type_synonym 'd endpoint = "'d reader \<times> 'd writer \<times> 'd flusher"

definition bi_forward ::
  "'a endpoint \<Rightarrow> 'b endpoint \<Rightarrow> ('a, 'b) copy_bidirectional \<Rightarrow>
   (('a, 'b) copy_bidirectional \<times> unit io_result poll) panics" where
  "bi_forward ea eb this =
     (if is_done (bi_a_to_b this) then Some (this, Ready (Ok ()))
      else case (ea, eb) of ((ra, _, _), (_, wb, cb)) \<Rightarrow> do {
        (a, b, h, p) \<leftarrow> poll_copy_half ra wb cb (bi_a this) (bi_b this) (bi_a_to_b this);
        Some (this\<lparr>bi_a := a, bi_b := b, bi_a_to_b := h\<rparr>, p) })"

definition bi_backward ::
  "'a endpoint \<Rightarrow> 'b endpoint \<Rightarrow> ('a, 'b) copy_bidirectional \<Rightarrow>
   (('a, 'b) copy_bidirectional \<times> unit io_result poll) panics" where
  "bi_backward ea eb this =
     (if is_done (bi_b_to_a this) then Some (this, Ready (Ok ()))
      else case (ea, eb) of ((_, wa, ca), (rb, _, _)) \<Rightarrow> do {
        (b, a, h, p) \<leftarrow> poll_copy_half rb wa ca (bi_b this) (bi_a this) (bi_b_to_a this);
        Some (this\<lparr>bi_a := a, bi_b := b, bi_b_to_a := h\<rparr>, p) })"

definition bi_poll ::
  "'a endpoint \<Rightarrow> 'b endpoint \<Rightarrow> ('a, 'b) copy_bidirectional \<Rightarrow>
   (('a, 'b) copy_bidirectional \<times> (nat \<times> nat) io_result poll) panics" where
  "bi_poll ea eb this = do {
     (this, p) \<leftarrow> bi_forward ea eb this;
     (case p of
        Ready (Inl e) \<Rightarrow> Some (this, Ready (Err e))
      | _ \<Rightarrow> do {
          (this, q) \<leftarrow> bi_backward ea eb this;
          (case q of
             Ready (Inl e) \<Rightarrow> Some (this, Ready (Err e))
           | _ \<Rightarrow>
               (if is_done (bi_a_to_b this) \<and> is_done (bi_b_to_a this)
                then Some (this, Ready (Ok (cb_copied (ch_buffer (bi_a_to_b this)), cb_copied (ch_buffer (bi_b_to_a this)))))
                else Some (this, Pending))) }) }"

text \<open>One direction: its books, and the half-close after the end of its input.\<close>

definition half_ok ::
  "('r \<Rightarrow> byte list) \<Rightarrow> ('w \<Rightarrow> byte list) \<Rightarrow> ('w \<Rightarrow> bool) \<Rightarrow> byte list \<Rightarrow> byte list \<Rightarrow> 'r \<Rightarrow> 'w \<Rightarrow> copy_half \<Rightarrow> bool" where
  "half_ok src out closed before stream r w h \<longleftrightarrow> copy_books src out before stream r w (ch_buffer h)
     \<and> (ch_state h \<noteq> HCopying \<longrightarrow> cb_mid (ch_buffer h) = [] \<and> src r = []) \<and> (ch_state h = HDone \<longrightarrow> closed w)"

lemma half_done:
  assumes "half_ok src out closed before stream r w h" and "is_done h"
  shows "out w = before @ stream \<and> cb_copied (ch_buffer h) = length stream \<and> closed w \<and> src r = []"
  using assms by (auto simp: half_ok_def copy_books_def is_done_def)

definition closes :: "'w flusher \<Rightarrow> ('w \<Rightarrow> bool) \<Rightarrow> ('w \<Rightarrow> bool) \<Rightarrow> bool" where
  "closes pc wok closed \<longleftrightarrow> (\<forall>w w'. wok w \<longrightarrow> pc w = Some (w', Ready (Ok ())) \<longrightarrow> closed w')"

context byte_copy
begin

lemma half_close_spec:
  assumes "half_ok src out closed before stream r w h" and "wok w" and "ch_state h = HClosing"
    and "closes poll_close wok closed"
  shows "\<exists>w' h' p. half_close poll_close r w h = Some (r, w', h', p) \<and> wok w' \<and> half_ok src out closed before stream r w' h'"
proof -
  obtain w' q where q: "poll_close w = Some (w', q)" using close_returns [OF assms(2)] by fastforce
  have k: "wok w'" "out w' = out w" using close_keeps [OF assms(2) q] by auto
  show ?thesis
  proof (cases q rule: io_poll_cases)
    case (ok x)
    then have "closed w'" using assms(2,4) q by (simp add: closes_def)
    with ok q k assms(1,3) show ?thesis by (auto simp: half_close_def half_ok_def copy_books_def)
  qed (use q k assms(1,3) in \<open>auto simp: half_close_def half_ok_def copy_books_def\<close>)
qed

lemma poll_copy_half_spec:
  assumes "half_ok src out closed before stream r w h" and "ok r" and "wok w" and "length stream < u64_modulus"
    and "closes poll_close wok closed"
  shows "\<exists>r' w' h' p. poll_copy_half poll_read poll_write poll_close r w h = Some (r', w', h', p) \<and> ok r' \<and> wok w'
    \<and> half_ok src out closed before stream r' w' h'"
proof (cases "ch_state h")
  case HDone
  with assms show ?thesis by (simp add: poll_copy_half_def)
next
  case HClosing
  with half_close_spec [OF assms(1,3) _ assms(5)] assms(2) show ?thesis by (auto simp: poll_copy_half_def)
next
  case HCopying
  have "copy_books src out before stream r w (ch_buffer h)" using assms(1) by (simp add: half_ok_def)
  then obtain r' w' c p where q: "pump poll_read poll_write (ch_generation h) r w (ch_buffer h) = Some (r', w', c, p)"
      "ok r'" "wok w'" "copy_books src out before stream r' w' c" "p = Ready (Ok ()) \<longrightarrow> cb_mid c = [] \<and> src r' = []"
    using pump_spec assms(2-4) by blast
  show ?thesis
  proof (cases p rule: io_poll_cases)
    case (ok x)
    let ?h = "h\<lparr>ch_buffer := c, ch_state := HClosing\<rparr>"
    have "half_ok src out closed before stream r' w' ?h" using q ok by (simp add: half_ok_def)
    from half_close_spec [OF this q(3) _ assms(5)] q(1,2) ok HCopying show ?thesis
      by (auto simp: poll_copy_half_def)
  qed (use q HCopying in \<open>simp_all add: poll_copy_half_def half_ok_def\<close>)
qed

end

text \<open>An endpoint that is read and written through one object: reading leaves its output side alone and
  writing its input side.\<close>

locale byte_duplex = byte_source poll_read src ok + byte_sink poll_write poll_flush poll_close out sunk ok
  for poll_read :: "'d reader" and src ok and poll_write :: "'d writer" and poll_flush poll_close out sunk +
  fixes closed :: "'d \<Rightarrow> bool"
  assumes read_frame: "ok d \<Longrightarrow> poll_read d b = Some (d', b', p) \<Longrightarrow> out d' = out d \<and> closed d' = closed d"
    and write_frame: "ok d \<Longrightarrow> poll_write d bytes g = Some (d', p) \<Longrightarrow> src d' = src d"
    and flush_frame: "ok d \<Longrightarrow> poll_flush d = Some (d', q) \<Longrightarrow> src d' = src d"
    and close_frame: "ok d \<Longrightarrow> poll_close d = Some (d', q) \<Longrightarrow> src d' = src d"
    and close_closes: "ok d \<Longrightarrow> poll_close d = Some (d', Ready (Ok ())) \<Longrightarrow> closed d'"
begin

lemma source_frame: "byte_source poll_read src (\<lambda>d. ok d \<and> out d = x \<and> closed d = y)"
proof
  fix r r' b b' n e p
  assume r: "ok r \<and> out r = x \<and> closed r = y"
  then have o: "ok r" by simp
  show "poll_read r b \<noteq> None" using read_returns [OF o] .
  show "(ok r' \<and> out r' = x \<and> closed r' = y) \<and> length b' = length b" if "poll_read r b = Some (r', b', p)"
    using read_keeps [OF o that] read_frame [OF o that] r by simp
  show "n \<le> length b \<and> src r = take n b' @ src r'" if "poll_read r b = Some (r', b', Ready (Ok n))"
    using read_delivers [OF o that] .
  show "src r = []" if "poll_read r b = Some (r', b', Ready (Ok 0))" "b \<noteq> []" using read_eof [OF o that] .
  show "src r' = src r" if "poll_read r b = Some (r', b', Ready (Err e))" using read_err [OF o that] .
  show "src r' = src r" if "poll_read r b = Some (r', b', Pending)" using read_pending [OF o that] .
qed

lemma sink_frame: "byte_sink poll_write poll_flush poll_close out sunk (\<lambda>d. ok d \<and> src d = x)"
proof
  fix w w' b g n e p q
  assume w: "ok w \<and> src w = x"
  then have o: "ok w" by simp
  show "poll_write w b g \<noteq> None" using write_returns [OF o] .
  show "ok w' \<and> src w' = x" if "poll_write w b g = Some (w', p)"
    using write_keeps [OF o that] write_frame [OF o that] w by simp
  show "n \<le> length b \<and> out w' = out w @ take n b" if "poll_write w b g = Some (w', Ready (Ok n))"
    using write_accepts [OF o that] .
  show "out w' = out w" if "poll_write w b g = Some (w', Ready (Err e))" using write_err [OF o that] .
  show "out w' = out w" if "poll_write w b g = Some (w', Pending)" using write_pending [OF o that] .
  show "poll_flush w \<noteq> None" using flush_returns [OF o] .
  show "(ok w' \<and> src w' = x) \<and> out w' = out w" if "poll_flush w = Some (w', q)"
    using flush_keeps [OF o that] flush_frame [OF o that] w by simp
  show "sunk w' = out w'" if "poll_flush w = Some (w', Ready (Ok ()))" using flush_sinks [OF o that] .
  show "poll_close w \<noteq> None" using close_returns [OF o] .
  show "(ok w' \<and> src w' = x) \<and> out w' = out w" if "poll_close w = Some (w', q)"
    using close_keeps [OF o that] close_frame [OF o that] w by simp
  show "sunk w' = out w'" if "poll_close w = Some (w', Ready (Ok ()))" using close_sinks [OF o that] .
qed

lemma closes_frame: "closes poll_close (\<lambda>d. ok d \<and> src d = x) closed"
  using close_closes by (auto simp: closes_def)

end

text \<open>One direction between two such endpoints keeps the other direction's books: the reader's output
  and the writer's input are untouched.\<close>

lemma poll_copy_half_duplex:
  assumes "byte_duplex ra srca oka wa fa ca outa sunka closeda"
    and "byte_duplex rb srcb okb wb fb cb outb sunkb closedb"
    and "half_ok srca outb closedb before stream a b h" and "oka a" and "okb b" and "length stream < u64_modulus"
  shows "\<exists>a' b' h' p. poll_copy_half ra wb cb a b h = Some (a', b', h', p) \<and> oka a' \<and> okb b'
    \<and> outa a' = outa a \<and> closeda a' = closeda a \<and> srcb b' = srcb b
    \<and> half_ok srca outb closedb before stream a' b' h'"
proof -
  have "byte_copy ra srca (\<lambda>d. oka d \<and> outa d = outa a \<and> closeda d = closeda a) wb fb cb outb sunkb
      (\<lambda>d. okb d \<and> srcb d = srcb b)"
    using byte_duplex.source_frame [OF assms(1)] byte_duplex.sink_frame [OF assms(2)]
    by (simp add: byte_copy_def)
  from byte_copy.poll_copy_half_spec [OF this assms(3) _ _ assms(6) byte_duplex.closes_frame [OF assms(2)]]
  show ?thesis using assms(4,5) by blast
qed

locale duplex_pair =
  left: byte_duplex ra srca oka wa fa ca outa sunka closeda + right: byte_duplex rb srcb okb wb fb cb outb sunkb closedb
  for ra :: "'a reader" and srca oka and wa :: "'a writer" and fa ca outa sunka closeda
    and rb :: "'b reader" and srcb okb and wb :: "'b writer" and fb cb outb sunkb closedb
begin

lemma bi_forward_spec:
  assumes "oka (bi_a this)" and "okb (bi_b this)" and "length sa < u64_modulus"
    and "half_ok srca outb closedb ob sa (bi_a this) (bi_b this) (bi_a_to_b this)"
    and "half_ok srcb outa closeda oa sb (bi_b this) (bi_a this) (bi_b_to_a this)"
  shows "\<exists>t p. bi_forward (ra, wa, ca) (rb, wb, cb) this = Some (t, p) \<and> oka (bi_a t) \<and> okb (bi_b t)
    \<and> half_ok srca outb closedb ob sa (bi_a t) (bi_b t) (bi_a_to_b t)
    \<and> half_ok srcb outa closeda oa sb (bi_b t) (bi_a t) (bi_b_to_a t)"
proof (cases "is_done (bi_a_to_b this)")
  case True
  with assms show ?thesis by (simp add: bi_forward_def)
next
  case False
  obtain a' b' h' p where q: "poll_copy_half ra wb cb (bi_a this) (bi_b this) (bi_a_to_b this) = Some (a', b', h', p)"
      "oka a'" "okb b'" "outa a' = outa (bi_a this)" "closeda a' = closeda (bi_a this)" "srcb b' = srcb (bi_b this)"
      "half_ok srca outb closedb ob sa a' b' h'"
    using poll_copy_half_duplex [OF left.byte_duplex_axioms right.byte_duplex_axioms assms(4,1,2,3)] by blast
  with False assms(5) show ?thesis by (simp add: bi_forward_def half_ok_def copy_books_def)
qed

lemma bi_backward_spec:
  assumes "oka (bi_a this)" and "okb (bi_b this)" and "length sb < u64_modulus"
    and "half_ok srca outb closedb ob sa (bi_a this) (bi_b this) (bi_a_to_b this)"
    and "half_ok srcb outa closeda oa sb (bi_b this) (bi_a this) (bi_b_to_a this)"
  shows "\<exists>t p. bi_backward (ra, wa, ca) (rb, wb, cb) this = Some (t, p) \<and> oka (bi_a t) \<and> okb (bi_b t)
    \<and> half_ok srca outb closedb ob sa (bi_a t) (bi_b t) (bi_a_to_b t)
    \<and> half_ok srcb outa closeda oa sb (bi_b t) (bi_a t) (bi_b_to_a t)"
proof (cases "is_done (bi_b_to_a this)")
  case True
  with assms show ?thesis by (simp add: bi_backward_def)
next
  case False
  obtain a' b' h' p where q: "poll_copy_half rb wa ca (bi_b this) (bi_a this) (bi_b_to_a this) = Some (b', a', h', p)"
      "oka a'" "okb b'" "outb b' = outb (bi_b this)" "closedb b' = closedb (bi_b this)" "srca a' = srca (bi_a this)"
      "half_ok srcb outa closeda oa sb b' a' h'"
    using poll_copy_half_duplex [OF right.byte_duplex_axioms left.byte_duplex_axioms assms(5,2,1,3)] by blast
  with False assms(4) show ?thesis by (simp add: bi_backward_def half_ok_def copy_books_def)
qed

definition bi_ok :: "byte list \<Rightarrow> byte list \<Rightarrow> byte list \<Rightarrow> byte list \<Rightarrow> ('a, 'b) copy_bidirectional \<Rightarrow> bool" where
  "bi_ok oa sa ob sb this \<longleftrightarrow> oka (bi_a this) \<and> okb (bi_b this)
    \<and> length sa < u64_modulus \<and> length sb < u64_modulus
    \<and> half_ok srca outb closedb ob sa (bi_a this) (bi_b this) (bi_a_to_b this)
    \<and> half_ok srcb outa closeda oa sb (bi_b this) (bi_a this) (bi_b_to_a this)"

definition bi_post ::
  "byte list \<Rightarrow> byte list \<Rightarrow> byte list \<Rightarrow> byte list \<Rightarrow> ('a, 'b) copy_bidirectional \<Rightarrow> (nat \<times> nat) io_result \<Rightarrow> bool" where
  "bi_post oa sa ob sb t r \<longleftrightarrow> bi_ok oa sa ob sb t \<and> (case r of
     Inr (m, n) \<Rightarrow> m = length sa \<and> n = length sb \<and> outb (bi_b t) = ob @ sa \<and> outa (bi_a t) = oa @ sb
       \<and> closedb (bi_b t) \<and> closeda (bi_a t)
   | Inl _ \<Rightarrow> True)"

lemma bi_poll_spec:
  assumes "bi_ok oa sa ob sb this"
  shows "\<exists>t p. bi_poll (ra, wa, ca) (rb, wb, cb) this = Some (t, p) \<and> (case p of
      Ready r \<Rightarrow> bi_post oa sa ob sb t r | Pending \<Rightarrow> bi_ok oa sa ob sb t)"
proof -
  note i = assms [unfolded bi_ok_def]
  obtain t p where t: "bi_forward (ra, wa, ca) (rb, wb, cb) this = Some (t, p)" and okt: "bi_ok oa sa ob sb t"
    using bi_forward_spec [of this sa ob oa sb] i by (auto simp: bi_ok_def)
  obtain u q where u: "bi_backward (ra, wa, ca) (rb, wb, cb) t = Some (u, q)" and oku: "bi_ok oa sa ob sb u"
    using bi_backward_spec [of t sb ob sa oa] okt by (auto simp: bi_ok_def)
  have fin: "bi_post oa sa ob sb u (Ok (cb_copied (ch_buffer (bi_a_to_b u)), cb_copied (ch_buffer (bi_b_to_a u))))"
    if "is_done (bi_a_to_b u)" "is_done (bi_b_to_a u)"
  proof -
    have h: "half_ok srca outb closedb ob sa (bi_a u) (bi_b u) (bi_a_to_b u)"
      "half_ok srcb outa closeda oa sb (bi_b u) (bi_a u) (bi_b_to_a u)" using oku by (auto simp: bi_ok_def)
    show ?thesis using oku half_done [OF h(1) that(1)] half_done [OF h(2) that(2)] by (simp add: bi_post_def)
  qed
  show ?thesis
  proof (cases "\<exists>e. p = Ready (Err e)")
    case True
    with t okt show ?thesis by (auto simp: bi_poll_def bi_post_def)
  next
    case False
    then have step: "bi_poll (ra, wa, ca) (rb, wb, cb) this = (case q of
        Ready (Inl e) \<Rightarrow> Some (u, Ready (Err e))
      | _ \<Rightarrow> (if is_done (bi_a_to_b u) \<and> is_done (bi_b_to_a u)
          then Some (u, Ready (Ok (cb_copied (ch_buffer (bi_a_to_b u)), cb_copied (ch_buffer (bi_b_to_a u)))))
          else Some (u, Pending)))"
      using t u by (cases p rule: io_poll_cases) (auto simp: bi_poll_def)
    show ?thesis
      using step oku fin by (cases q rule: io_poll_cases) (auto simp: bi_post_def)
  qed
qed

lemma bi_drive:
  assumes "oka a" and "okb b" and "length (srca a) < u64_modulus" and "length (srcb b) < u64_modulus"
  shows "\<exists>t p. drive (bi_poll (ra, wa, ca) (rb, wb, cb)) n (copy_bidirectional_new a b g h) = Some (t, p) \<and> (case p of
      Ready r \<Rightarrow> bi_post (outa a) (srca a) (outb b) (srcb b) t r
    | Pending \<Rightarrow> bi_ok (outa a) (srca a) (outb b) (srcb b) t)"
proof (rule polled_future.drive_spec)
  show "polled_future (bi_poll (ra, wa, ca) (rb, wb, cb)) (bi_ok (outa a) (srca a) (outb b) (srcb b))
    (bi_post (outa a) (srca a) (outb b) (srcb b))"
    by unfold_locales (rule bi_poll_spec)
  show "bi_ok (outa a) (srca a) (outb b) (srcb b) (copy_bidirectional_new a b g h)"
    using assms by (simp add: bi_ok_def half_ok_def copy_books_def copy_bidirectional_new_def copy_half_new_def
        copy_buffer_new_def cb_ok_def cb_mid_def COPY_BUF_SIZE_def)
qed

end

subsection \<open>The in-memory endpoint\<close>

text \<open>\<open>MemoryIo\<close>, the in-memory endpoint beside the copy futures: reads of at most three bytes, writes of at
  most \<open>max_write\<close>, and an error for a write after the close.\<close>

record memory_io =
  mio_read :: "byte list"
  mio_read_pos :: nat
  mio_written :: "byte list"
  mio_max_write :: nat
  mio_flushed :: bool
  mio_closed :: bool

definition memory_io_new :: "byte list \<Rightarrow> nat \<Rightarrow> memory_io" where
  "memory_io_new bytes m = \<lparr>mio_read = bytes, mio_read_pos = 0, mio_written = [], mio_max_write = m,
     mio_flushed = False, mio_closed = False\<rparr>"

definition mio_poll_read :: "memory_io reader" where
  "mio_poll_read this dst = do {
     available \<leftarrow> checked_sub (length (mio_read this)) (mio_read_pos this);
     let n = min (min (length dst) available) 3;
     s \<leftarrow> slice (mio_read_pos this) (mio_read_pos this + n) (mio_read this);
     dst \<leftarrow> copy_into dst s;
     Some (this\<lparr>mio_read_pos := mio_read_pos this + n\<rparr>, dst, Ready (Ok n)) }"

definition mio_poll_write :: "memory_io writer" where
  "mio_poll_write this bytes _ =
     (if mio_closed this then Some (this, Ready (Err (Io_Error BrokenPipe ''writer is closed'')))
      else let n = min (length bytes) (mio_max_write this) in
           Some (this\<lparr>mio_written := mio_written this @ take n bytes\<rparr>, Ready (Ok n)))"

definition mio_poll_flush :: "memory_io flusher" where
  "mio_poll_flush this = Some (this\<lparr>mio_flushed := True\<rparr>, Ready (Ok ()))"

definition mio_poll_close :: "memory_io flusher" where
  "mio_poll_close this = Some (this\<lparr>mio_closed := True\<rparr>, Ready (Ok ()))"

definition mio_src :: "memory_io \<Rightarrow> byte list" where
  "mio_src this = drop (mio_read_pos this) (mio_read this)"

definition mio_ok :: "memory_io \<Rightarrow> bool" where
  "mio_ok this \<longleftrightarrow> mio_read_pos this \<le> length (mio_read this)"

lemma mio_poll_read_eq:
  assumes "mio_ok this" and "n = min (min (length dst) (length (mio_src this))) 3"
  shows "mio_poll_read this dst =
    Some (this\<lparr>mio_read_pos := mio_read_pos this + n\<rparr>, take n (mio_src this) @ drop n dst, Ready (Ok n))"
proof -
  have "mio_read_pos this + n \<le> length (mio_read this)" using assms by (auto simp: mio_ok_def mio_src_def)
  then show ?thesis using assms
    by (simp add: mio_poll_read_def mio_ok_def mio_src_def checked_sub_def Let_def min.assoc min.commute min.left_commute)
qed

interpretation memory: byte_duplex mio_poll_read mio_src mio_ok mio_poll_write mio_poll_flush mio_poll_close
  mio_written mio_written mio_closed
proof
  fix r r' :: memory_io and b b' :: "byte list" and n e p
  assume r: "mio_ok r"
  let ?n = "min (min (length b) (length (mio_src r))) 3"
  note e = mio_poll_read_eq [OF r refl, of b]
  have s: "mio_src (r\<lparr>mio_read_pos := mio_read_pos r + ?n\<rparr>) = drop ?n (mio_src r)"
    by (simp add: mio_src_def add.commute)
  have ok': "mio_ok (r\<lparr>mio_read_pos := mio_read_pos r + ?n\<rparr>)" using r by (auto simp: mio_ok_def mio_src_def)
  show "mio_poll_read r b \<noteq> None" using e by simp
  show "mio_ok r' \<and> length b' = length b" if "mio_poll_read r b = Some (r', b', p)" using that e ok' by auto
  show "n \<le> length b \<and> mio_src r = take n b' @ mio_src r'" if "mio_poll_read r b = Some (r', b', Ready (Ok n))"
    using that e s by auto
  show "mio_src r = []" if "mio_poll_read r b = Some (r', b', Ready (Ok 0))" "b \<noteq> []"
    using that e by (auto simp: min_def split: if_splits)
  show "mio_src r' = mio_src r" if "mio_poll_read r b = Some (r', b', Ready (Err e))" using that e by simp
  show "mio_src r' = mio_src r" if "mio_poll_read r b = Some (r', b', Pending)" using that e by simp
  show "mio_written r' = mio_written r \<and> mio_closed r' = mio_closed r" if "mio_poll_read r b = Some (r', b', p)"
    using that e by auto
qed (auto simp: mio_poll_write_def mio_poll_flush_def mio_poll_close_def mio_ok_def mio_src_def Let_def split: if_splits)

interpretation memory_pair: duplex_pair
  mio_poll_read mio_src mio_ok mio_poll_write mio_poll_flush mio_poll_close mio_written mio_written mio_closed
  mio_poll_read mio_src mio_ok mio_poll_write mio_poll_flush mio_poll_close mio_written mio_written mio_closed ..

interpretation memory_copy: byte_copy cr_poll_read cr_src cr_ok rec_poll_write rec_poll_flush rec_poll_close
  rw_data rw_data rec_ok ..

subsection \<open>Correctness of writing and copying\<close>

text \<open>\<open>copy\<close> transfers the whole stream. However often it is polled, with reads and writes parking or
  taking part of what they are offered, it returns; when it succeeds, the writer has accepted and
  delivered exactly the reader's bytes after what it had before, the reader is at its end, and the
  count is the number of bytes; until then (and after an error) the bytes written, in transit and
  still unread make up the stream.\<close>

theorem copy_transfers_all:
  assumes "byte_source pr src ok" and "byte_sink pw pf pc out sunk wok" and "ok r" and "wok w"
    and "length (src r) < u64_modulus"
  shows "\<exists>t p. drive (copy_poll pr pw pf) n (copy_new r w g) = Some (t, p)
    \<and> out (cp_writer t) @ cb_mid (cp_buffer t) @ src (cp_reader t) = out w @ src r
    \<and> (\<forall>k. p = Ready (Ok k) \<longrightarrow> k = length (src r) \<and> out (cp_writer t) = out w @ src r
         \<and> sunk (cp_writer t) = out w @ src r \<and> src (cp_reader t) = [])"
proof -
  have "byte_copy pr src ok pw pf pc out sunk wok" using assms(1,2) by (simp add: byte_copy_def)
  from byte_copy.copy_drive [OF this assms(3-5), of n g]
  obtain t p where "drive (copy_poll pr pw pf) n (copy_new r w g) = Some (t, p)"
    and q: "case p of Ready a \<Rightarrow> cp_post src ok out sunk wok (out w) (src r) t a
      | Pending \<Rightarrow> cp_ok src ok out wok (out w) (src r) t" by blast
  then show ?thesis
    by (intro exI [of _ t] exI [of _ p]) (auto simp: cp_post_def cp_ok_def copy_books_def split: poll.splits)
qed

theorem copy_transfers_all_witness:
  "\<exists>t p. drive (copy_poll cr_poll_read rec_poll_write rec_poll_flush) 1
       (copy_new \<lparr>cr_data = [1, 2, 3], cr_pos = 0, cr_max_read = 2\<rparr>
          \<lparr>rw_data = [], rw_writes = 0, rw_closes = 0, rw_max_write = 1\<rparr> 9) = Some (t, p)
     \<and> (\<forall>k. p = Ready (Ok k) \<longrightarrow> rw_data (cp_writer t) = [1, 2, 3])"
proof -
  let ?r = "\<lparr>cr_data = [1, 2, 3], cr_pos = 0, cr_max_read = 2\<rparr>"
    and ?w = "\<lparr>rw_data = [], rw_writes = 0, rw_closes = 0, rw_max_write = 1\<rparr>"
  have ok: "cr_ok ?r" and w: "rec_ok ?w" and src: "cr_src ?r = [1, 2, 3]"
    by (simp_all add: cr_ok_def rec_ok_def cr_src_def)
  have len: "length (cr_src ?r) < u64_modulus" unfolding src by (simp add: u64_modulus_def)
  from copy_transfers_all [OF chunked.byte_source_axioms recording.byte_sink_axioms ok w len, of 1 9, unfolded src]
  show ?thesis by fastforce
qed

text \<open>\<open>copy_bidirectional\<close> between two endpoints that are each read and written. When it succeeds, each
  endpoint has received exactly the other's bytes, the two counts are their lengths, and both output
  sides have been closed; an endpoint is closed by a finished direction only after all of that
  direction's bytes were accepted; and however far it has come, neither direction loses,
  duplicates or mixes bytes.\<close>

theorem copy_bidirectional_exchanges:
  assumes "byte_duplex ra srca oka wa fa ca outa sunka closeda"
    and "byte_duplex rb srcb okb wb fb cb outb sunkb closedb"
    and "oka a" and "okb b" and "length (srca a) < u64_modulus" and "length (srcb b) < u64_modulus"
  shows "\<exists>t p. drive (bi_poll (ra, wa, ca) (rb, wb, cb)) n (copy_bidirectional_new a b g h) = Some (t, p)
    \<and> outb (bi_b t) @ cb_mid (ch_buffer (bi_a_to_b t)) @ srca (bi_a t) = outb b @ srca a
    \<and> outa (bi_a t) @ cb_mid (ch_buffer (bi_b_to_a t)) @ srcb (bi_b t) = outa a @ srcb b
    \<and> (is_done (bi_a_to_b t) \<longrightarrow> closedb (bi_b t) \<and> outb (bi_b t) = outb b @ srca a)
    \<and> (is_done (bi_b_to_a t) \<longrightarrow> closeda (bi_a t) \<and> outa (bi_a t) = outa a @ srcb b)
    \<and> (\<forall>k l. p = Ready (Ok (k, l)) \<longrightarrow> k = length (srca a) \<and> l = length (srcb b)
         \<and> outb (bi_b t) = outb b @ srca a \<and> outa (bi_a t) = outa a @ srcb b \<and> closedb (bi_b t) \<and> closeda (bi_a t))"
proof -
  have pair: "duplex_pair ra srca oka wa fa ca outa sunka closeda rb srcb okb wb fb cb outb sunkb closedb"
    using assms(1,2) by (simp add: duplex_pair_def)
  note defs = duplex_pair.bi_post_def [OF pair] duplex_pair.bi_ok_def [OF pair]
  from duplex_pair.bi_drive [OF pair assms(3-6), of n g h]
  obtain t p where t: "drive (bi_poll (ra, wa, ca) (rb, wb, cb)) n (copy_bidirectional_new a b g h) = Some (t, p)"
    and ab: "half_ok srca outb closedb (outb b) (srca a) (bi_a t) (bi_b t) (bi_a_to_b t)"
    and ba: "half_ok srcb outa closeda (outa a) (srcb b) (bi_b t) (bi_a t) (bi_b_to_a t)"
    and q: "\<And>k l. p = Ready (Ok (k, l)) \<Longrightarrow> k = length (srca a) \<and> l = length (srcb b)
         \<and> outb (bi_b t) = outb b @ srca a \<and> outa (bi_a t) = outa a @ srcb b \<and> closedb (bi_b t) \<and> closeda (bi_a t)"
    by (fastforce simp: defs split: poll.splits)
  with half_done [OF ab] half_done [OF ba] show ?thesis
    by (intro exI [of _ t] exI [of _ p]) (auto simp: half_ok_def copy_books_def)
qed

theorem copy_bidirectional_exchanges_witness:
  "\<exists>t p. drive (bi_poll (mio_poll_read, mio_poll_write, mio_poll_close) (mio_poll_read, mio_poll_write, mio_poll_close)) 1
       (copy_bidirectional_new (memory_io_new [1, 2, 3, 4] 2) (memory_io_new [5, 6] 1) 0 1) = Some (t, p)
     \<and> (\<forall>k l. p = Ready (Ok (k, l)) \<longrightarrow> k = 4 \<and> l = 2)"
proof -
  let ?a = "memory_io_new [1, 2, 3, 4] 2" and ?b = "memory_io_new [5, 6] 1"
  have ok: "mio_ok ?a" "mio_ok ?b" and src: "mio_src ?a = [1, 2, 3, 4]" "mio_src ?b = [5, 6]"
    by (simp_all add: mio_ok_def mio_src_def memory_io_new_def)
  have len: "length (mio_src ?a) < u64_modulus" "length (mio_src ?b) < u64_modulus"
    unfolding src by (simp_all add: u64_modulus_def)
  from copy_bidirectional_exchanges [OF memory.byte_duplex_axioms memory.byte_duplex_axioms ok len, of 1 0 1, unfolded src]
  show ?thesis by fastforce
qed

text \<open>(C32) Bytes survive the round trip through both adapters. Written with \<open>write_all\<close> and flushed through
  a \<open>BufWriter\<close> of any capacity onto an empty writer, and read back with \<open>read_to_end\<close> through a
  \<open>BufReader\<close> of any capacity over a reader of what arrived, they come back unchanged, however
  often each of the three futures was polled and however the transports cut the bytes.\<close>

theorem buffered_round_trip:
  assumes "byte_sink pw pf pc out sunk wok" and "wok w" and "out w = []" and "\<And>c. c \<le> alloc c"
    and "drive (write_all_poll (bw_poll_write_operation pw fresh)) i
           (write_all_new (bw_with_capacity alloc cap w) bytes g) = Some (wa, Ready (Ok ()))"
    and "drive (bw_poll_flush pw pf fresh') j (wa_writer wa) = Some (bw, Ready (Ok ()))"
    and "byte_source pr src ok" and "ok r" and "src r = sunk (bw_inner bw)"
    and "br_with_capacity cap' r = Some br" and "length bytes \<le> isize_max"
    and "drive (read_to_end_poll (br_poll_read pr)) k (read_to_end_new br []) = Some (rte, Ready (Ok n))"
  shows "rte_buf rte = bytes \<and> n = length bytes"
proof -
  let ?bw = "bw_with_capacity alloc cap w"
  have bw0: "bw_ok wok ?bw" "bw_out out ?bw = []"
    using bw_with_capacity_ok [of wok w alloc cap out] assms(2,3,4) by auto
  note sink = bw_byte_sink [OF assms(1)]
  have post: "wa_post (bw_out out) (bw_ok wok) [] bytes wa (Ok ())"
    using byte_sink.write_all_drive [OF sink bw0(1), of fresh i bytes g] assms(5) bw0(2) by simp
  have wa: "bw_ok wok (wa_writer wa)" "bw_out out (wa_writer wa) = bytes"
    using post unfolding wa_post_def wa_ok_def append_Nil by blast+
  have fut: "polled_future (bw_poll_flush pw pf fresh') (\<lambda>t. bw_ok wok t \<and> bw_out out t = bytes)
      (\<lambda>t a. a = Ok () \<longrightarrow> sunk (bw_inner t) = bytes)"
    using byte_sink.bw_poll_flush_spec [OF assms(1)] by unfold_locales (fastforce split: poll.splits)
  have "sunk (bw_inner bw) = bytes"
    using polled_future.drive_spec [OF fut, of "wa_writer wa" j] wa assms(6) by auto
  then have br: "br_ok ok br" "br_src src br = bytes"
    using br_with_capacity_ok [of cap' r br ok src] assms(8,9,10) by auto
  note source = br_byte_source [OF assms(7)]
  show ?thesis
    using byte_source.read_to_end_drive [OF source br(1), of "[]" k] br(2) assms(11,12)
    by (auto simp: rte_post_def)
qed

theorem buffered_round_trip_witness:
  "\<exists>rte. drive (read_to_end_poll (br_poll_read cr_poll_read)) 1
       (read_to_end_new \<lparr>br_inner = \<lparr>cr_data = [7, 8], cr_pos = 0, cr_max_read = 1\<rparr>, br_buf = [0], br_pos = 0,
          br_filled = 0, br_line_buf = [], br_line_pos = 0\<rparr> []) = Some (rte, Ready (Ok 2)) \<and> rte_buf rte = [7, 8]"
proof -
  let ?w = "\<lparr>rw_data = [], rw_writes = 0, rw_closes = 0, rw_max_write = 1\<rparr>"
    and ?r = "\<lparr>cr_data = [7, 8], cr_pos = 0, cr_max_read = 1\<rparr>"
  let ?br = "\<lparr>br_inner = ?r, br_buf = [0], br_pos = 0, br_filled = 0, br_line_buf = [], br_line_pos = 0\<rparr>"
  have w: "rec_ok ?w" and r: "cr_ok ?r" by (simp_all add: rec_ok_def cr_ok_def)
  let ?wa = "\<lparr>wa_writer = \<lparr>bw_inner = ?w, bw_buf = [7, 8], bw_capacity = 3, bw_written = 0, bw_generation = None\<rparr>,
    wa_buf = [7, 8], wa_written = 2, wa_generation = 5\<rparr>"
  have wa: "drive (write_all_poll (bw_poll_write_operation rec_poll_write 1)) 1
      (write_all_new (bw_with_capacity (\<lambda>c. c) 3 ?w) [7, 8] 5) = Some (?wa, Ready (Ok ()))"
    by (simp add: write_all_poll.simps write_all_new_def bw_with_capacity_def bw_poll_write_operation_def)
  obtain bw where bw: "drive (bw_poll_flush rec_poll_write rec_poll_flush 2) 1 (wa_writer ?wa) = Some (bw, Ready (Ok ()))"
    and sunk: "rw_data (bw_inner bw) = [7, 8]"
    by (simp add: bw_poll_flush_def flush_then_def poll_flush_buf.simps rec_poll_write_def rec_poll_flush_def Let_def)
  have br: "br_with_capacity 0 ?r = Some ?br" by (simp add: br_with_capacity_def isize_max_def)
  obtain rte where rte: "drive (read_to_end_poll (br_poll_read cr_poll_read)) 1 (read_to_end_new ?br []) = Some (rte, Ready (Ok 2))"
    by (simp add: read_to_end_poll_def read_to_end_new_def READ_TO_END_CHUNK_def collect_loop.simps [of "br_poll_read cr_poll_read"]
        br_poll_read_def cr_poll_read_def checked_sub_def slice_def copy_into_def vec_extend_def isize_max_def Let_def)
  have "cr_src ?r = rw_data (bw_inner bw)" using sunk by (simp add: cr_src_def)
  from buffered_round_trip [OF recording.byte_sink_axioms w _ _ wa bw chunked.byte_source_axioms r this br _ rte] rte
  show ?thesis by (simp add: isize_max_def)
qed

end
