(* ===== verification/Pending_Read.thy ===== *)
theory Pending_Read
  imports Buf_Reader
begin

text \<open>
  The pending operations of \<open>src/src/io/pending.rs\<close> and its read side: sets of waiting wakers, an
  operation shared by every caller that polls the resource (\<open>PendingOperation\<close>), errors that several
  callers observe (\<open>SharedIoError\<close>), the shutdown of one direction, and \<open>ReadState\<close>, which owns a
  submitted read after its caller has gone.

  The future of a submitted operation belongs to the operating-system layer and is a parameter: \<open>fp k f\<close>
  polls the future \<open>f\<close> against the device \<open>k\<close>, \<open>start k n\<close> submits a read of at most \<open>n\<close> bytes. The
  wakers that an operation wakes are returned in order.
\<close>

subsection \<open>Waiters and shared operations\<close>

type_synonym waiter_set = "waker list"

definition ws_register :: "waker \<Rightarrow> waiter_set \<Rightarrow> waiter_set" where
  "ws_register w ws = (if w \<in> set ws then ws else ws @ [w])"

definition ws_wake_all :: "waiter_set \<Rightarrow> waiter_set \<times> waker list" where
  "ws_wake_all ws = ([], ws)"

type_synonym ('k, 'f, 'a) future = "'k \<Rightarrow> 'f \<Rightarrow> 'k \<times> 'f \<times> 'a io_result poll"

record 'f pending_operation =
  po_future :: 'f
  po_waiters :: waiter_set

definition pending_operation_new :: "'f \<Rightarrow> 'f pending_operation" where
  "pending_operation_new f = \<lparr>po_future = f, po_waiters = []\<rparr>"

definition pending_operation_poll ::
  "('k, 'f, 'a) future \<Rightarrow> waker \<Rightarrow> 'k \<Rightarrow> 'f pending_operation \<Rightarrow>
   'k \<times> 'f pending_operation \<times> 'a io_result poll \<times> waker list" where
  "pending_operation_poll fp cx k this =
     (let this = this\<lparr>po_waiters := ws_register cx (po_waiters this)\<rparr>;
          (k, f, p) = fp k (po_future this);
          this = this\<lparr>po_future := f\<rparr> in
      case p of
        Ready result \<Rightarrow>
          (let (ws, woken) = ws_wake_all (po_waiters this) in
           (k, this\<lparr>po_waiters := ws\<rparr>, Ready result, woken))
      | Pending \<Rightarrow> (k, this, Pending, []))"

text \<open>The broadcast waker handed to the future: the driver wakes every caller that waits.\<close>

definition broadcast_wake :: "'f pending_operation \<Rightarrow> 'f pending_operation \<times> waker list" where
  "broadcast_wake this = (let (ws, woken) = ws_wake_all (po_waiters this) in (this\<lparr>po_waiters := ws\<rparr>, woken))"

text \<open>No caller is forgotten: a pending poll registers the caller beside those already waiting, and a
  poll that completes the operation wakes all of them and the caller.\<close>

lemma pending_operation_poll_wakes:
  assumes "pending_operation_poll fp cx k op = (k', op', p, woken)"
  shows "case p of
      Pending \<Rightarrow> set (po_waiters op') = insert cx (set (po_waiters op)) \<and> woken = []
    | Ready _ \<Rightarrow> set woken = insert cx (set (po_waiters op))"
  using assms
  by (auto simp: pending_operation_poll_def ws_register_def ws_wake_all_def Let_def
      split: prod.splits poll.splits if_splits)

lemma pending_operation_poll_future:
  "pending_operation_poll fp cx k op = (k', op', p, woken) \<Longrightarrow> fp k (po_future op) = (k', po_future op', p)"
  by (auto simp: pending_operation_poll_def ws_wake_all_def Let_def split: prod.splits poll.splits)

subsection \<open>Errors observed by several callers\<close>

text \<open>\<open>io::Error\<close> cannot be cloned; \<open>SharedIoError\<close> keeps its parts. The kind and the message of an
  operating-system code are the platform's.\<close>

record shared_io_error =
  se_kind :: error_kind
  se_raw_os_error :: "int option"
  se_message :: string

definition error_kind_of :: "(int \<Rightarrow> error_kind) \<Rightarrow> io_error \<Rightarrow> error_kind" where
  "error_kind_of os_kind e = (case e of Io_Error k _ \<Rightarrow> k | Os_Error c \<Rightarrow> os_kind c)"

definition shared_io_error_new :: "(int \<Rightarrow> error_kind) \<Rightarrow> (int \<Rightarrow> string) \<Rightarrow> io_error \<Rightarrow> shared_io_error" where
  "shared_io_error_new os_kind os_message e =
     \<lparr>se_kind = error_kind_of os_kind e,
      se_raw_os_error = (case e of Os_Error c \<Rightarrow> Some c | _ \<Rightarrow> None),
      se_message = (case e of Io_Error _ msg \<Rightarrow> msg | Os_Error c \<Rightarrow> os_message c)\<rparr>"

definition to_error :: "shared_io_error \<Rightarrow> io_error" where
  "to_error this = (case se_raw_os_error this of
     None \<Rightarrow> Io_Error (se_kind this) (se_message this) | Some c \<Rightarrow> Os_Error c)"

lemma to_error_shared: "to_error (shared_io_error_new os_kind os_message e) = e"
  by (cases e) (simp_all add: to_error_def shared_io_error_new_def error_kind_of_def)

subsection \<open>Shutdown of one direction\<close>

record 'g direction_shutdown =
  ds_requested :: bool
  ds_operation :: "'g pending_operation option"
  ds_result :: "(shared_io_error, unit) result option"

definition direction_shutdown_new :: "'g direction_shutdown" where
  "direction_shutdown_new = \<lparr>ds_requested = False, ds_operation = None, ds_result = None\<rparr>"

definition shutdown_result :: "(shared_io_error, unit) result \<Rightarrow> unit io_result" where
  "shutdown_result r = (case r of Inr _ \<Rightarrow> Ok () | Inl e \<Rightarrow> Err (to_error e))"

definition direction_shutdown_poll ::
  "(io_error \<Rightarrow> shared_io_error) \<Rightarrow> ('k \<Rightarrow> 'k \<times> 'g) \<Rightarrow> ('k, 'g, unit) future \<Rightarrow> waker \<Rightarrow> 'k \<Rightarrow>
   'g direction_shutdown \<Rightarrow> 'k \<times> 'g direction_shutdown \<times> unit io_result poll \<times> waker list" where
  "direction_shutdown_poll shared start fp cx k this =
     (let this = this\<lparr>ds_requested := True\<rparr> in
      case ds_result this of
        Some r \<Rightarrow> (k, this, Ready (shutdown_result r), [])
      | None \<Rightarrow>
          (let (k, op) = (case ds_operation this of
                 Some op \<Rightarrow> (k, op)
               | None \<Rightarrow> (let (k, f) = start k in (k, pending_operation_new f)));
               (k, op, p, woken) = pending_operation_poll fp cx k op in
           case p of
             Pending \<Rightarrow> (k, this\<lparr>ds_operation := Some op\<rparr>, Pending, woken)
           | Ready result \<Rightarrow>
               (let r = (case result of Inr _ \<Rightarrow> Inr () | Inl e \<Rightarrow> Inl (shared e)) in
                (k, this\<lparr>ds_operation := None, ds_result := Some r\<rparr>, Ready (shutdown_result r), woken))))"

text \<open>Every caller of a shutdown sees the result of the one operation, also as an error, and none
  starts a second one.\<close>

lemma direction_shutdown_once:
  assumes "direction_shutdown_poll shared start fp cx k this = (k', this', Ready r, woken)"
    and "\<And>e. to_error (shared e) = e"
  shows "ds_requested this' \<and> (\<exists>q. ds_result this' = Some q \<and> shutdown_result q = r) \<and>
    direction_shutdown_poll shared start fp cx2 k2 this' = (k2, this', Ready r, [])"
  using assms
  by (auto simp: direction_shutdown_poll_def Let_def split: option.splits prod.splits poll.splits sum.splits)

subsection \<open>\<open>ReadState\<close>\<close>

record read_overflow =
  ro_data :: "byte list"
  ro_pos :: nat

definition ro_remaining :: "read_overflow \<Rightarrow> nat panics" where
  "ro_remaining this = checked_sub (length (ro_data this)) (ro_pos this)"

definition ro_front :: "nat \<Rightarrow> read_overflow \<Rightarrow> byte list panics" where
  "ro_front m this = do {
     remaining \<leftarrow> ro_remaining this;
     slice (ro_pos this) (ro_pos this + min m remaining) (ro_data this) }"

definition ro_advance :: "nat \<Rightarrow> read_overflow \<Rightarrow> read_overflow panics" where
  "ro_advance n this = do {
     remaining \<leftarrow> ro_remaining this;
     Some (this\<lparr>ro_pos := ro_pos this + min n remaining\<rparr>) }"

definition ro_is_drained :: "read_overflow \<Rightarrow> bool" where
  "ro_is_drained this \<longleftrightarrow> ro_pos this = length (ro_data this)"

record ('f, 'g) read_state =
  rs_operation :: "'f pending_operation option"
  rs_overflow :: "read_overflow option"
  rs_shutdown :: "'g direction_shutdown"

definition read_state_new :: "('f, 'g) read_state" where
  "read_state_new = \<lparr>rs_operation = None, rs_overflow = None, rs_shutdown = direction_shutdown_new\<rparr>"

text \<open>\<open>poll_with\<close> hands the bytes to a callback; here they are returned. \<open>poll_slice\<close> copies them to the
  front of the caller's slice.\<close>

definition poll_with ::
  "('k \<Rightarrow> nat \<Rightarrow> 'k \<times> 'f) \<Rightarrow> ('k, 'f, byte list) future \<Rightarrow> waker \<Rightarrow> nat \<Rightarrow> 'k \<Rightarrow> ('f, 'g) read_state \<Rightarrow>
   ('k \<times> ('f, 'g) read_state \<times> byte list \<times> nat io_result poll \<times> waker list) panics" where
  "poll_with start fp cx capacity k this =
     (if capacity = 0 then Some (k, this, [], Ready (Ok 0), [])
      else if ds_requested (rs_shutdown this) then Some (k, this, [], Ready (Ok 0), [])
      else case rs_overflow this of
        Some overflow \<Rightarrow> do {
          remaining \<leftarrow> ro_remaining overflow;
          let len = min capacity remaining;
          bytes \<leftarrow> ro_front len overflow;
          overflow \<leftarrow> ro_advance len overflow;
          Some (k, this\<lparr>rs_overflow := (if ro_is_drained overflow then None else Some overflow)\<rparr>,
                bytes, Ready (Ok len), []) }
      | None \<Rightarrow>
          (let (k, op) = (case rs_operation this of
                 Some op \<Rightarrow> (k, op)
               | None \<Rightarrow> (let (k, f) = start k capacity in (k, pending_operation_new f)));
               (k, op, p, woken) = pending_operation_poll fp cx k op in
           case p of
             Pending \<Rightarrow> Some (k, this\<lparr>rs_operation := Some op\<rparr>, [], Pending, woken)
           | Ready (Inl e) \<Rightarrow> Some (k, this\<lparr>rs_operation := None\<rparr>, [], Ready (Err e), woken)
           | Ready (Inr data) \<Rightarrow> do {
               let len = min capacity (length data);
               bytes \<leftarrow> slice 0 len data;
               Some (k, this\<lparr>rs_operation := None,
                             rs_overflow := (if len < length data then Some \<lparr>ro_data = data, ro_pos = len\<rparr>
                                             else rs_overflow this)\<rparr>,
                     bytes, Ready (Ok len), woken) }))"

definition poll_slice ::
  "('k \<Rightarrow> nat \<Rightarrow> 'k \<times> 'f) \<Rightarrow> ('k, 'f, byte list) future \<Rightarrow> waker \<Rightarrow> ('k \<times> ('f, 'g) read_state) reader" where
  "poll_slice start fp cx s buf = do {
     (k, this, bytes, p, woken) \<leftarrow> poll_with start fp cx (length buf) (fst s) (snd s);
     buf \<leftarrow> copy_into buf bytes;
     Some ((k, this), buf, p) }"

text \<open>\<open>poll_reconcile\<close> gives up what was read ahead and reports by how many bytes the cursor of the
  resource has to be moved back.\<close>

definition read_poll_reconcile ::
  "('k, 'f, byte list) future \<Rightarrow> waker \<Rightarrow> 'k \<Rightarrow> ('f, 'g) read_state \<Rightarrow>
   ('k \<times> ('f, 'g) read_state \<times> nat io_result poll \<times> waker list) panics" where
  "read_poll_reconcile fp cx k this = do {
     rewind \<leftarrow> (case rs_overflow this of None \<Rightarrow> Some 0 | Some overflow \<Rightarrow> ro_remaining overflow);
     let this = this\<lparr>rs_overflow := None\<rparr>;
     case rs_operation this of
       None \<Rightarrow> Some (k, this, Ready (Ok rewind), [])
     | Some op \<Rightarrow>
         (let (k, op, p, woken) = pending_operation_poll fp cx k op in
          case p of
            Ready (Inr data) \<Rightarrow>
              (case checked_add rewind (length data) of
                 None \<Rightarrow> Some (k, this\<lparr>rs_operation := Some op\<rparr>,
                               Ready (Err (Io_Error InvalidData ''read rewind exceeds usize'')), woken)
               | Some rewind \<Rightarrow> Some (k, this\<lparr>rs_operation := None\<rparr>, Ready (Ok rewind), woken))
          | Ready (Inl _) \<Rightarrow> Some (k, this\<lparr>rs_operation := None\<rparr>, Ready (Ok rewind), woken)
          | Pending \<Rightarrow> Some (k, this\<lparr>rs_operation := Some op\<rparr>, Pending, woken)) }"

definition read_poll_shutdown ::
  "(io_error \<Rightarrow> shared_io_error) \<Rightarrow> ('k \<Rightarrow> 'k \<times> 'g) \<Rightarrow> ('k, 'g, unit) future \<Rightarrow> waker \<Rightarrow> 'k \<Rightarrow>
   ('f, 'g) read_state \<Rightarrow> 'k \<times> ('f, 'g) read_state \<times> unit io_result poll \<times> waker list" where
  "read_poll_shutdown shared start fp cx k this =
     (let (k, d, p, woken) = direction_shutdown_poll shared start fp cx k (rs_shutdown this) in
      (k, this\<lparr>rs_operation := None, rs_overflow := None, rs_shutdown := d\<rparr>, p, woken))"

subsection \<open>A read state over a device is a byte source\<close>

text \<open>What the read state relies on: the future of a read of \<open>fcap f\<close> bytes takes a prefix of at most that
  length from the device when it completes, nothing means the end, and a pending or failed one
  takes nothing.\<close>

locale read_device =
  fixes start :: "'k \<Rightarrow> nat \<Rightarrow> 'k \<times> 'f"
    and fp :: "('k, 'f, byte list) future"
    and ksrc :: "'k \<Rightarrow> byte list"
    and fcap :: "'f \<Rightarrow> nat"
  assumes start_keeps: "start k n = (k', f) \<Longrightarrow> ksrc k' = ksrc k \<and> fcap f = n"
    and poll_takes: "fp k f = (k', f', Ready (Ok data)) \<Longrightarrow> ksrc k = data @ ksrc k' \<and> length data \<le> fcap f"
    and poll_eof: "fp k f = (k', f', Ready (Ok [])) \<Longrightarrow> 0 < fcap f \<Longrightarrow> ksrc k = []"
    and poll_err: "fp k f = (k', f', Ready (Err e)) \<Longrightarrow> ksrc k' = ksrc k"
    and poll_pending: "fp k f = (k', f', Pending) \<Longrightarrow> ksrc k' = ksrc k \<and> fcap f' = fcap f"

definition overflow_rest :: "('f, 'g) read_state \<Rightarrow> byte list" where
  "overflow_rest this = (case rs_overflow this of None \<Rightarrow> [] | Some ov \<Rightarrow> drop (ro_pos ov) (ro_data ov))"

definition rs_src :: "('k \<Rightarrow> byte list) \<Rightarrow> 'k \<times> ('f, 'g) read_state \<Rightarrow> byte list" where
  "rs_src ksrc s = overflow_rest (snd s) @ ksrc (fst s)"

text \<open>An operation is never in flight beside retained bytes, and retained bytes are never empty.\<close>

definition rs_inv :: "('f \<Rightarrow> nat) \<Rightarrow> ('f, 'g) read_state \<Rightarrow> bool" where
  "rs_inv fcap this \<longleftrightarrow>
     (case rs_overflow this of None \<Rightarrow> True | Some ov \<Rightarrow> ro_pos ov < length (ro_data ov) \<and> rs_operation this = None)
     \<and> (case rs_operation this of None \<Rightarrow> True | Some op \<Rightarrow> 0 < fcap (po_future op))"

definition rs_ok :: "('f \<Rightarrow> nat) \<Rightarrow> 'k \<times> ('f, 'g) read_state \<Rightarrow> bool" where
  "rs_ok fcap s \<longleftrightarrow> rs_inv fcap (snd s) \<and> \<not> ds_requested (rs_shutdown (snd s))"

lemma read_state_new_ok: "rs_ok fcap (k, read_state_new) \<and> rs_src ksrc (k, read_state_new) = ksrc k"
  by (simp add: rs_ok_def rs_inv_def rs_src_def overflow_rest_def read_state_new_def direction_shutdown_new_def)

context read_device
begin

lemma poll_slice_overflow:
  assumes "rs_ok fcap (k, this)" and "buf \<noteq> []" and "rs_overflow this = Some ov"
  obtains t buf' n where "poll_slice start fp cx (k, this) buf = Some ((k, t), buf', Ready (Ok n))" "rs_ok fcap (k, t)"
    "length buf' = length buf" "0 < n" "n \<le> length buf" "rs_src ksrc (k, this) = take n buf' @ rs_src ksrc (k, t)"
proof -
  have i: "ro_pos ov < length (ro_data ov)" "rs_operation this = None" "\<not> ds_requested (rs_shutdown this)"
    using assms(1,3) by (auto simp: rs_ok_def rs_inv_def)
  define n where "n = min (length buf) (length (ro_data ov) - ro_pos ov)"
  have n: "0 < n" "n \<le> length buf" "ro_pos ov + n \<le> length (ro_data ov)" using i(1) assms(2) by (auto simp: n_def)
  define ov' where "ov' = ov\<lparr>ro_pos := ro_pos ov + n\<rparr>"
  define t where "t = this\<lparr>rs_overflow := (if ro_is_drained ov' then None else Some ov')\<rparr>"
  let ?s = "take n (drop (ro_pos ov) (ro_data ov))"
  have r: "ro_remaining ov = Some (length (ro_data ov) - ro_pos ov)" using i(1) by (simp add: ro_remaining_def checked_sub_def)
  have f: "ro_front n ov = Some ?s" using r n by (simp add: ro_front_def min_def)
  have a: "ro_advance n ov = Some ov'" using r n by (simp add: ro_advance_def ov'_def min_def)
  have len: "length ?s = n" using n by simp
  have "poll_with start fp cx (length buf) k this = Some (k, t, ?s, Ready (Ok n), [])"
    using assms(2,3) i(3) r f a by (simp add: poll_with_def n_def [symmetric] t_def Let_def)
  then have "poll_slice start fp cx (k, this) buf = Some ((k, t), ?s @ drop n buf, Ready (Ok n))"
    using len n by (simp add: poll_slice_def)
  moreover have "rs_ok fcap (k, t)"
    using i n by (auto simp: rs_ok_def rs_inv_def t_def ov'_def ro_is_drained_def)
  moreover have "overflow_rest t = drop n (drop (ro_pos ov) (ro_data ov))"
    by (simp add: t_def overflow_rest_def ov'_def ro_is_drained_def add.commute)
  then have "rs_src ksrc (k, this) = take n (?s @ drop n buf) @ rs_src ksrc (k, t)"
    using assms(3) len n by (simp add: rs_src_def overflow_rest_def del: drop_drop)
  ultimately show ?thesis using that [of t "?s @ drop n buf" n] len n by simp
qed

lemma started_operation:
  assumes "rs_ok fcap (k, this)" and "0 < c"
    and "(case rs_operation this of Some op \<Rightarrow> (k, op) | None \<Rightarrow> (let (k, f) = start k c in (k, pending_operation_new f))) = (k1, op1)"
  shows "ksrc k1 = ksrc k \<and> 0 < fcap (po_future op1)"
  using assms start_keeps
  by (auto simp: rs_ok_def rs_inv_def pending_operation_new_def split: option.splits prod.splits)

lemma poll_slice_operation:
  assumes "rs_ok fcap (k, this)" and "buf \<noteq> []" and "rs_overflow this = None"
  obtains
    (pending) k' t where "poll_slice start fp cx (k, this) buf = Some ((k', t), buf, Pending)" "rs_ok fcap (k', t)"
      "rs_src ksrc (k', t) = rs_src ksrc (k, this)"
  | (err) k' t e where "poll_slice start fp cx (k, this) buf = Some ((k', t), buf, Ready (Err e))" "rs_ok fcap (k', t)"
      "rs_src ksrc (k', t) = rs_src ksrc (k, this)"
  | (ok) k' t buf' n where "poll_slice start fp cx (k, this) buf = Some ((k', t), buf', Ready (Ok n))" "rs_ok fcap (k', t)"
      "length buf' = length buf" "n \<le> length buf" "rs_src ksrc (k, this) = take n buf' @ rs_src ksrc (k', t)"
      "n = 0 \<Longrightarrow> rs_src ksrc (k, this) = []"
proof -
  have up: "\<not> ds_requested (rs_shutdown this)" using assms(1) by (simp add: rs_ok_def)
  have s0: "rs_src ksrc (k, this) = ksrc k" using assms(3) by (simp add: rs_src_def overflow_rest_def)
  obtain k1 op1 where st: "(case rs_operation this of Some op \<Rightarrow> (k, op)
      | None \<Rightarrow> (let (k, f) = start k (length buf) in (k, pending_operation_new f))) = (k1, op1)" by fastforce
  have k1: "ksrc k1 = ksrc k" "0 < fcap (po_future op1)"
    using started_operation [OF assms(1) _ st] assms(2) by auto
  obtain k2 op2 p woken where q: "pending_operation_poll fp cx k1 op1 = (k2, op2, p, woken)" by (cases "pending_operation_poll fp cx k1 op1")
  note f = pending_operation_poll_future [OF q]
  have pw: "poll_with start fp cx (length buf) k this = (case p of
      Pending \<Rightarrow> Some (k2, this\<lparr>rs_operation := Some op2\<rparr>, [], Pending, woken)
    | Ready (Inl e) \<Rightarrow> Some (k2, this\<lparr>rs_operation := None\<rparr>, [], Ready (Err e), woken)
    | Ready (Inr data) \<Rightarrow> Some (k2, this\<lparr>rs_operation := None,
        rs_overflow := (if min (length buf) (length data) < length data
          then Some \<lparr>ro_data = data, ro_pos = min (length buf) (length data)\<rparr> else None)\<rparr>,
        take (min (length buf) (length data)) data, Ready (Ok (min (length buf) (length data))), woken))"
    using assms(2,3) up st q by (simp add: poll_with_def Let_def split: poll.split sum.split)
  show thesis
  proof (cases p rule: io_poll_cases)
    case pending
    let ?t = "this\<lparr>rs_operation := Some op2\<rparr>"
    have "ksrc k2 = ksrc k1" "fcap (po_future op2) = fcap (po_future op1)" using poll_pending f pending by auto
    with k1 up assms(3) have "rs_ok fcap (k2, ?t)" "rs_src ksrc (k2, ?t) = ksrc k"
      by (simp_all add: rs_ok_def rs_inv_def rs_src_def overflow_rest_def)
    with that(1) pw pending s0 show ?thesis by (simp add: poll_slice_def copy_into_def)
  next
    case (err e)
    let ?t = "this\<lparr>rs_operation := None\<rparr>"
    have "ksrc k2 = ksrc k1" using poll_err f err by auto
    with k1 up assms(3) have "rs_ok fcap (k2, ?t)" "rs_src ksrc (k2, ?t) = ksrc k"
      by (simp_all add: rs_ok_def rs_inv_def rs_src_def overflow_rest_def)
    with that(2) pw err s0 show ?thesis by (simp add: poll_slice_def copy_into_def)
  next
    case (ok data)
    let ?n = "min (length buf) (length data)"
    let ?t = "this\<lparr>rs_operation := None, rs_overflow := (if ?n < length data
      then Some \<lparr>ro_data = data, ro_pos = ?n\<rparr> else None)\<rparr>"
    let ?b = "take ?n data @ drop ?n buf"
    have d: "ksrc k1 = data @ ksrc k2" using poll_takes f ok by blast
    have r: "poll_slice start fp cx (k, this) buf = Some ((k2, ?t), ?b, Ready (Ok ?n))"
      using pw ok by (simp add: poll_slice_def copy_into_def)
    have t: "rs_ok fcap (k2, ?t)" using up by (auto simp: rs_ok_def rs_inv_def)
    have "overflow_rest ?t = drop ?n data" by (simp add: overflow_rest_def)
    then have "rs_src ksrc (k2, ?t) = drop ?n data @ ksrc k2" by (simp add: rs_src_def)
    moreover have "take ?n ?b = take ?n data" by simp
    ultimately have s: "rs_src ksrc (k, this) = take ?n ?b @ rs_src ksrc (k2, ?t)"
      using s0 k1(1) d by (metis append_assoc append_take_drop_id)
    have z: "?n = 0 \<Longrightarrow> rs_src ksrc (k, this) = []"
      using poll_eof [of k1 "po_future op1" k2 "po_future op2"] f ok k1 s0 assms(2) by (auto simp: min_def split: if_splits)
    show ?thesis by (rule that(3) [OF r t]) (use s z in auto)
  qed
qed

end

text \<open>Whatever the sizes of the slices of successive callers: a read abandoned by its caller completes for
  the next one, and what does not fit is kept.\<close>

lemma read_state_byte_source:
  assumes "read_device start fp ksrc fcap"
  shows "byte_source (poll_slice start fp cx) (rs_src ksrc :: 'k \<times> ('f, 'g) read_state \<Rightarrow> byte list) (rs_ok fcap)"
proof
  fix r r' :: "'k \<times> ('f, 'g) read_state" and b b' n e p
  assume r: "rs_ok fcap r"
  obtain k this where kt: "r = (k, this)" by (cases r)
  have c: "\<exists>t dst q. poll_slice start fp cx r b = Some (t, dst, q) \<and> rs_ok fcap t \<and> length dst = length b \<and> (case q of
      Ready (Inr m) \<Rightarrow> m \<le> length b \<and> rs_src ksrc r = take m dst @ rs_src ksrc t \<and> (m = 0 \<longrightarrow> b \<noteq> [] \<longrightarrow> rs_src ksrc r = [])
    | _ \<Rightarrow> rs_src ksrc t = rs_src ksrc r)"
  proof (cases "b = []")
    case True
    with r kt show ?thesis by (simp add: poll_slice_def poll_with_def copy_into_def)
  next
    case False
    show ?thesis
    proof (cases "rs_overflow this")
      case None
      from r False None show ?thesis unfolding kt
        by (cases rule: read_device.poll_slice_operation [OF assms, where cx = cx]) auto
    next
      case (Some ov)
      from r False Some show ?thesis unfolding kt
        by (cases rule: read_device.poll_slice_overflow [OF assms, where cx = cx]) auto
    qed
  qed
  show "poll_slice start fp cx r b \<noteq> None" using c by auto
  show "rs_ok fcap r' \<and> length b' = length b" if "poll_slice start fp cx r b = Some (r', b', p)" using c that by auto
  show "n \<le> length b \<and> rs_src ksrc r = take n b' @ rs_src ksrc r'" if "poll_slice start fp cx r b = Some (r', b', Ready (Ok n))"
    using c that by auto
  show "rs_src ksrc r = []" if "poll_slice start fp cx r b = Some (r', b', Ready (Ok 0))" "b \<noteq> []" using c that by auto
  show "rs_src ksrc r' = rs_src ksrc r" if "poll_slice start fp cx r b = Some (r', b', Ready (Err e))" using c that by auto
  show "rs_src ksrc r' = rs_src ksrc r" if "poll_slice start fp cx r b = Some (r', b', Pending)" using c that by auto
qed

subsection \<open>Waiting readers and reconciliation\<close>

text \<open>A caller that is told to wait is registered with the operation it waits for, beside everybody who
  waited before.\<close>

lemma poll_with_registers:
  assumes "poll_with start fp cx c k this = Some (k', t, bytes, Pending, woken)"
  shows "\<exists>op. rs_operation t = Some op \<and> cx \<in> set (po_waiters op) \<and>
    (\<forall>old. rs_operation this = Some old \<longrightarrow> set (po_waiters old) \<subseteq> set (po_waiters op))"
proof -
  obtain k1 op1 where st: "(case rs_operation this of Some op \<Rightarrow> (k, op)
      | None \<Rightarrow> (let (k, f) = start k c in (k, pending_operation_new f))) = (k1, op1)" by fastforce
  obtain k2 op2 p w where q: "pending_operation_poll fp cx k1 op1 = (k2, op2, p, w)"
    by (cases "pending_operation_poll fp cx k1 op1")
  have "p = Pending \<and> rs_operation t = Some op2"
    using assms st q by (auto simp: poll_with_def Let_def bind_eq_Some_conv
        split: if_splits option.splits poll.splits sum.splits)
  with pending_operation_poll_wakes [OF q] st show ?thesis by (auto split: option.splits)
qed

text \<open>The poll that completes the operation wakes everybody registered with it.\<close>

lemma poll_with_wakes:
  assumes "poll_with start fp cx c k this = Some (k', t, bytes, Ready r, woken)"
    and "rs_operation this = Some op" and "rs_inv fcap this" and "0 < c" and "\<not> ds_requested (rs_shutdown this)"
  shows "set (po_waiters op) \<subseteq> set woken"
proof -
  have none: "rs_overflow this = None" using assms(2,3) by (auto simp: rs_inv_def split: option.splits)
  obtain k2 op2 p w where q: "pending_operation_poll fp cx k op = (k2, op2, p, w)"
    by (cases "pending_operation_poll fp cx k op")
  have "\<exists>r. p = Ready r" "w = woken"
    using assms none q by (auto simp: poll_with_def Let_def split: if_splits poll.splits sum.splits)
  with pending_operation_poll_wakes [OF q] show ?thesis by auto
qed

context read_device
begin

lemma read_reconcile_spec:
  assumes "rs_inv fcap this" and "\<And>op. rs_operation this = Some op \<Longrightarrow> fcap (po_future op) < u64_modulus"
  shows "\<exists>k' t p woken. read_poll_reconcile fp cx k this = Some (k', t, p, woken) \<and> rs_inv fcap t \<and>
    rs_shutdown t = rs_shutdown this \<and>
    (case p of
       Ready (Inr n) \<Rightarrow> rs_operation t = None \<and> rs_overflow t = None \<and>
         (\<exists>ahead. rs_src ksrc (k, this) = ahead @ ksrc k' \<and> n = length ahead)
     | Ready (Inl _) \<Rightarrow> False
     | Pending \<Rightarrow> rs_src ksrc (k', t) = rs_src ksrc (k, this))"
proof (cases "rs_operation this")
  case None
  let ?t = "this\<lparr>rs_overflow := None\<rparr>"
  have "read_poll_reconcile fp cx k this = Some (k, ?t, Ready (Ok (length (overflow_rest this))), [])"
    using assms(1) None by (auto simp: read_poll_reconcile_def rs_inv_def overflow_rest_def ro_remaining_def
        checked_sub_def split: option.splits)
  then show ?thesis using None by (auto simp: rs_inv_def rs_src_def)
next
  case (Some op)
  have none: "rs_overflow this = None" using assms(1) Some by (auto simp: rs_inv_def split: option.splits)
  have cap: "0 < fcap (po_future op)" "fcap (po_future op) < u64_modulus"
    using assms Some by (auto simp: rs_inv_def)
  obtain k2 op2 p w where q: "pending_operation_poll fp cx k op = (k2, op2, p, w)"
    by (cases "pending_operation_poll fp cx k op")
  note f = pending_operation_poll_future [OF q]
  have same: "this\<lparr>rs_overflow := None\<rparr> = this" using none by simp
  show ?thesis
  proof (cases p rule: io_poll_cases)
    case pending
    with poll_pending f have "ksrc k2 = ksrc k" "fcap (po_future op2) = fcap (po_future op)" by auto
    with pending q Some none same cap show ?thesis
      by (simp add: read_poll_reconcile_def rs_inv_def rs_src_def overflow_rest_def)
  next
    case (err e)
    with poll_err f have "ksrc k2 = ksrc k" by auto
    with err q Some none same show ?thesis
      by (simp add: read_poll_reconcile_def rs_inv_def rs_src_def overflow_rest_def)
  next
    case (ok data)
    then have d: "ksrc k = data @ ksrc k2" "length data \<le> fcap (po_future op)" using poll_takes f by auto
    then have "checked_add 0 (length data) = Some (length data)" using cap by (simp add: checked_add_def)
    with ok q Some none same d(1) show ?thesis
      by (simp add: read_poll_reconcile_def rs_inv_def rs_src_def overflow_rest_def)
  qed
qed

end

text \<open>After a shutdown of the read side, nothing is in flight or retained and every read returns the end of
  input at once.\<close>

lemma read_shutdown_ends:
  assumes "read_poll_shutdown shared start fp cx k this = (k', t, p, woken)"
  shows "rs_operation t = None \<and> rs_overflow t = None \<and>
    poll_with rstart rfp cx2 c k2 t = Some (k2, t, [], Ready (Ok 0), [])"
  using assms
  by (auto simp: read_poll_shutdown_def direction_shutdown_poll_def poll_with_def Let_def
      split: option.splits prod.splits poll.splits)

subsection \<open>A device in memory\<close>

text \<open>A device whose operations complete when they are polled for the second time, as the
  \<open>PendingOnce\<close> futures beside the sources do.\<close>

record mem_device =
  md_data :: "byte list"
  md_pos :: nat

definition md_start :: "mem_device \<Rightarrow> nat \<Rightarrow> mem_device \<times> (nat \<times> bool)" where
  "md_start k n = (k, (n, False))"

definition md_poll :: "(mem_device, nat \<times> bool, byte list) future" where
  "md_poll k f = (case f of
     (n, False) \<Rightarrow> (k, (n, True), Pending)
   | (n, True) \<Rightarrow> (k\<lparr>md_pos := md_pos k + n\<rparr>, (n, True), Ready (Ok (take n (drop (md_pos k) (md_data k))))))"

definition md_src :: "mem_device \<Rightarrow> byte list" where
  "md_src k = drop (md_pos k) (md_data k)"

interpretation mem_dev: read_device md_start md_poll md_src fst
proof
  fix k k' :: mem_device and f f' n e and data :: "byte list"
  show "md_src k' = md_src k \<and> fst f = n" if "md_start k n = (k', f)" using that by (auto simp: md_start_def)
  show "md_src k = data @ md_src k' \<and> length data \<le> fst f" if "md_poll k f = (k', f', Ready (Ok data))"
    using that by (cases f) (auto simp: md_poll_def md_src_def add.commute simp flip: drop_drop split: bool.splits)
  show "md_src k = []" if "md_poll k f = (k', f', Ready (Ok []))" "0 < fst f"
    using that by (cases f) (auto simp: md_poll_def md_src_def split: bool.splits)
  show "md_src k' = md_src k" if "md_poll k f = (k', f', Ready (Err e))"
    using that by (cases f) (auto simp: md_poll_def split: bool.splits)
  show "md_src k' = md_src k \<and> fst f' = fst f" if "md_poll k f = (k', f', Pending)"
    using that by (cases f) (auto simp: md_poll_def split: bool.splits)
qed

interpretation mem_reader: byte_source "poll_slice md_start md_poll cx" "rs_src md_src" "rs_ok fst"
  for cx
  by (rule read_state_byte_source) (rule mem_dev.read_device_axioms)

subsection \<open>Correctness of the read side\<close>

text \<open>Reads that outlive their callers lose nothing. Over any device, a read through \<open>ReadState\<close> returns
  without a panic and delivers exactly the next bytes of the device, whether they come from an
  operation of an earlier caller with a larger buffer, from what that operation left over, or from a
  new one; a pending or failed read leaves every byte for the next caller.\<close>

theorem read_state_exact:
  assumes "read_device start fp ksrc fcap" and "rs_ok fcap (k, this)"
  shows "\<exists>k' t buf' p. poll_slice start fp cx (k, this) buf = Some ((k', t), buf', p) \<and> rs_ok fcap (k', t)
    \<and> length buf' = length buf \<and>
    (case p of
       Ready (Inr n) \<Rightarrow> n \<le> length buf \<and> rs_src ksrc (k, this) = take n buf' @ rs_src ksrc (k', t)
         \<and> (n = 0 \<longrightarrow> buf = [] \<or> rs_src ksrc (k, this) = [])
     | _ \<Rightarrow> rs_src ksrc (k', t) = rs_src ksrc (k, this))"
  by (rule byte_source.read_cases [OF read_state_byte_source [OF assms(1)] assms(2), of cx buf]) auto

theorem read_state_exact_witness:
  "\<exists>k' t buf' p. poll_slice md_start md_poll 7 (\<lparr>md_data = [1, 2, 3, 4], md_pos = 0\<rparr>,
       \<lparr>rs_operation = Some \<lparr>po_future = (3, True), po_waiters = [6]\<rparr>, rs_overflow = None,
        rs_shutdown = (direction_shutdown_new :: unit direction_shutdown)\<rparr>) [0, 0] = Some ((k', t), buf', p)
     \<and> p = Ready (Ok 2) \<and> buf' = [1, 2]"
proof -
  let ?k = "\<lparr>md_data = [1, 2, 3, 4], md_pos = 0\<rparr>"
    and ?t = "\<lparr>rs_operation = Some \<lparr>po_future = (3 :: nat, True), po_waiters = [6]\<rparr>, rs_overflow = None,
        rs_shutdown = (direction_shutdown_new :: unit direction_shutdown)\<rparr>"
  have "rs_ok fst (?k, ?t)" by (simp add: rs_ok_def rs_inv_def direction_shutdown_new_def)
  from read_state_exact [OF mem_dev.read_device_axioms this, of 7 "[0, 0]"] show ?thesis
    by (auto simp: poll_slice_def poll_with_def pending_operation_poll_def ws_register_def ws_wake_all_def md_poll_def
        direction_shutdown_new_def copy_into_def slice_def Let_def)
qed

text \<open>Reconciling is exact. Before a write or a seek, the read side gives up the operation in flight and
  the bytes left over, and the number it reports is exactly the number of bytes the device has
  delivered beyond what callers have read; while the operation is still in flight nothing is given up,
  and the arithmetic never overflows.\<close>

theorem read_reconcile_exact:
  assumes "read_device start fp ksrc fcap" and "rs_inv fcap this"
    and "\<And>op. rs_operation this = Some op \<Longrightarrow> fcap (po_future op) < u64_modulus"
  shows "\<exists>k' t p woken. read_poll_reconcile fp cx k this = Some (k', t, p, woken) \<and> rs_inv fcap t \<and>
    (case p of
       Ready (Inr n) \<Rightarrow> rs_operation t = None \<and> rs_overflow t = None \<and>
         (\<exists>ahead. rs_src ksrc (k, this) = ahead @ ksrc k' \<and> n = length ahead)
     | Ready (Inl _) \<Rightarrow> False
     | Pending \<Rightarrow> rs_src ksrc (k', t) = rs_src ksrc (k, this))"
  using read_device.read_reconcile_spec [OF assms, where cx = cx and k = k] by blast

theorem read_reconcile_exact_witness:
  "\<exists>k' t p woken. read_poll_reconcile md_poll 7 \<lparr>md_data = [1, 2, 3, 4], md_pos = 0\<rparr>
       \<lparr>rs_operation = Some \<lparr>po_future = (3, True), po_waiters = [6]\<rparr>, rs_overflow = None,
        rs_shutdown = (direction_shutdown_new :: unit direction_shutdown)\<rparr> = Some (k', t, p, woken)
     \<and> p = Ready (Ok 3) \<and> woken = [6, 7]"
proof -
  let ?k = "\<lparr>md_data = [1, 2, 3, 4], md_pos = 0\<rparr>"
    and ?t = "\<lparr>rs_operation = Some \<lparr>po_future = (3 :: nat, True), po_waiters = [6]\<rparr>, rs_overflow = None,
        rs_shutdown = (direction_shutdown_new :: unit direction_shutdown)\<rparr>"
  have "rs_inv fst ?t" "\<And>op. rs_operation ?t = Some op \<Longrightarrow> fst (po_future op) < u64_modulus"
    by (auto simp: rs_inv_def u64_modulus_def)
  from read_reconcile_exact [OF mem_dev.read_device_axioms this, of 7 ?k] show ?thesis
    by (auto simp: read_poll_reconcile_def pending_operation_poll_def ws_register_def ws_wake_all_def md_poll_def
        checked_add_def u64_modulus_def Let_def)
qed

end
