(* ===== verification/Pending_Write.thy ===== *)
theory Pending_Write
  imports Pending_Read
begin

text \<open>
  The write side of \<open>src/src/io/pending.rs\<close>: the process-wide registry of live write operations,
  \<open>WriteState\<close>, which lets one submitted write at a time run on a resource shared by several handles, and
  \<open>CursorState\<close>, which orders the reads and writes of a file.

  A write is identified by its generation. Tracked generations (high bit set) belong to a
  \<open>WriteOperation\<close> token whose drop publishes the cancellation; raw callers share untracked ones and are
  told apart by the address and length of their buffer. The record \<open>write_sys\<close> is a write state with what it
  touches: the device, the registry, the counter of operation ids, the operations submitted so far
  and the wakers woken so far, both oldest first.
\<close>

subsection \<open>Operation ids and the registry of live writes\<close>

definition TRACKED_WRITE_BIT :: nat where
  "TRACKED_WRITE_BIT = 2 ^ 63"

definition is_tracked_write :: "nat \<Rightarrow> bool" where
  "is_tracked_write generation \<longleftrightarrow> (generation div TRACKED_WRITE_BIT) mod 2 = 1"

text \<open>The loop over \<open>fetch_add\<close> skips the id zero; the result is the id and the counter afterwards.\<close>

function next_operation_id :: "nat \<Rightarrow> nat \<times> nat" where
  "next_operation_id n =
     (let i = n mod TRACKED_WRITE_BIT in
      if i \<noteq> 0 then (i, wrapping_succ n) else next_operation_id (wrapping_succ n))"
  by pat_completeness auto

lemma wrapping_succ_low: "n mod TRACKED_WRITE_BIT = 0 \<Longrightarrow> wrapping_succ n mod TRACKED_WRITE_BIT = 1"
proof -
  assume "n mod TRACKED_WRITE_BIT = 0"
  moreover have "TRACKED_WRITE_BIT dvd u64_modulus" by (simp add: TRACKED_WRITE_BIT_def u64_modulus_def)
  ultimately have "wrapping_succ n mod TRACKED_WRITE_BIT = (0 + 1) mod TRACKED_WRITE_BIT"
    by (metis mod_add_left_eq mod_mod_cancel wrapping_succ_def)
  then show ?thesis by (simp add: TRACKED_WRITE_BIT_def)
qed

termination next_operation_id
  by (relation "measure (\<lambda>n. if n mod TRACKED_WRITE_BIT = 0 then 1 else 0)") (auto simp: wrapping_succ_low)

declare next_operation_id.simps [simp del]

lemma next_operation_id_range:
  "next_operation_id n = (i, n') \<Longrightarrow> 0 < i \<and> i < TRACKED_WRITE_BIT"
proof (induction n rule: next_operation_id.induct)
  case (1 n)
  show ?case
  proof (cases "n mod TRACKED_WRITE_BIT = 0")
    case True
    with 1 show ?thesis by (subst (asm) (2) next_operation_id.simps) (auto simp: Let_def)
  next
    case False
    with 1(2) show ?thesis
      by (subst (asm) next_operation_id.simps) (auto simp: Let_def TRACKED_WRITE_BIT_def)
  qed
qed

subsection \<open>\<open>WriteState\<close>\<close>

datatype write_kind = Operation nat | Buffered

record write_identity =
  wi_address :: nat
  wi_len :: nat

text \<open>A caller's buffer: where it is and what it holds.\<close>

type_synonym wbuf = "nat \<times> byte list"

definition write_identity_of :: "wbuf \<Rightarrow> write_identity" where
  "write_identity_of buf = \<lparr>wi_address = fst buf, wi_len = length (snd buf)\<rparr>"

record 'f pending_write =
  pw_kind :: write_kind
  pw_identity :: "write_identity option"
  pw_operation :: "'f pending_operation"

record queued_write =
  qw_generation :: nat
  qw_waker :: waker

record ('f, 'g) write_state =
  ws_operation :: "'f pending_write option"
  ws_queue :: "queued_write list"
  ws_completed :: "nat \<rightharpoonup> nat io_result"
  ws_untracked_completed :: "(write_identity \<times> nat io_result) option"
  ws_barrier_waiters :: waiter_set
  ws_buffered_error :: "io_error option"
  ws_shutdown :: "'g direction_shutdown"

definition write_state_new :: "('f, 'g) write_state" where
  "write_state_new = \<lparr>ws_operation = None, ws_queue = [], ws_completed = Map.empty, ws_untracked_completed = None,
     ws_barrier_waiters = [], ws_buffered_error = None, ws_shutdown = direction_shutdown_new\<rparr>"

record ('k, 'f, 'g) write_sys =
  w_dev :: 'k
  w_live :: "nat \<rightharpoonup> waiter_set"
  w_next :: nat
  w_state :: "('f, 'g) write_state"
  w_log :: "(write_kind \<times> byte list) list"
  w_woken :: "waker list"

definition wake :: "waker list \<Rightarrow> ('k, 'f, 'g) write_sys \<Rightarrow> ('k, 'f, 'g) write_sys" where
  "wake ws s = s\<lparr>w_woken := w_woken s @ ws\<rparr>"

definition upd :: "(('f, 'g) write_state \<Rightarrow> ('f, 'g) write_state) \<Rightarrow> ('k, 'f, 'g) write_sys \<Rightarrow> ('k, 'f, 'g) write_sys" where
  "upd h s = s\<lparr>w_state := h (w_state s)\<rparr>"

definition write_operation_new :: "('k, 'f, 'g) write_sys \<Rightarrow> ('k, 'f, 'g) write_sys \<times> nat" where
  "write_operation_new s =
     (let (i, n) = next_operation_id (w_next s); generation = i + TRACKED_WRITE_BIT in
      (s\<lparr>w_next := n, w_live := (w_live s)(generation \<mapsto> [])\<rparr>, generation))"

definition write_operation_drop :: "nat \<Rightarrow> ('k, 'f, 'g) write_sys \<Rightarrow> ('k, 'f, 'g) write_sys" where
  "write_operation_drop generation s =
     (let waiters = w_live s generation; s = s\<lparr>w_live := (w_live s)(generation := None)\<rparr> in
      case waiters of Some ws \<Rightarrow> wake (snd (ws_wake_all ws)) s | None \<Rightarrow> s)"

definition is_live_write :: "('k, 'f, 'g) write_sys \<Rightarrow> nat \<Rightarrow> bool" where
  "is_live_write s generation \<longleftrightarrow> \<not> is_tracked_write generation \<or> w_live s generation \<noteq> None"

definition register_write_cancellation_waker :: "nat \<Rightarrow> waker \<Rightarrow> ('k, 'f, 'g) write_sys \<Rightarrow> ('k, 'f, 'g) write_sys" where
  "register_write_cancellation_waker generation cx s =
     (if \<not> is_tracked_write generation then s
      else case w_live s generation of
        Some ws \<Rightarrow> s\<lparr>w_live := (w_live s)(generation \<mapsto> ws_register cx ws)\<rparr>
      | None \<Rightarrow> s)"

definition wake_ready_waiters :: "('k, 'f, 'g) write_sys \<Rightarrow> ('k, 'f, 'g) write_sys" where
  "wake_ready_waiters s =
     (let s = (case ws_queue (w_state s) of q # _ \<Rightarrow> wake [qw_waker q] s | [] \<Rightarrow> s);
          (ws, woken) = ws_wake_all (ws_barrier_waiters (w_state s)) in
      wake woken (upd (ws_barrier_waiters_update (\<lambda>_. ws)) s))"

definition cleanup_cancelled :: "('k, 'f, 'g) write_sys \<Rightarrow> ('k, 'f, 'g) write_sys" where
  "cleanup_cancelled s =
     (let s = upd (ws_completed_update (\<lambda>m g. if is_live_write s g then m g else None)) s;
          old_len = length (ws_queue (w_state s));
          s = upd (ws_queue_update (filter (\<lambda>q. is_live_write s (qw_generation q)))) s in
      if length (ws_queue (w_state s)) \<noteq> old_len then wake_ready_waiters s else s)"

definition enqueue_tracked :: "nat \<Rightarrow> waker \<Rightarrow> ('k, 'f, 'g) write_sys \<Rightarrow> ('k, 'f, 'g) write_sys" where
  "enqueue_tracked generation cx s =
     (if \<not> is_tracked_write generation \<or> \<not> is_live_write s generation then s
      else if (case ws_operation (w_state s) of Some op \<Rightarrow> pw_kind op = Operation generation | None \<Rightarrow> False)
              \<or> ws_completed (w_state s) generation \<noteq> None then s
      else if \<exists>q \<in> set (ws_queue (w_state s)). qw_generation q = generation
      then upd (ws_queue_update (map (\<lambda>q. if qw_generation q = generation then q\<lparr>qw_waker := cx\<rparr> else q))) s
      else upd (ws_queue_update (\<lambda>qs. qs @ [\<lparr>qw_generation = generation, qw_waker = cx\<rparr>])) s)"

definition take_untracked_completion ::
  "nat \<Rightarrow> wbuf \<Rightarrow> ('k, 'f, 'g) write_sys \<Rightarrow> ('k, 'f, 'g) write_sys \<times> nat io_result option" where
  "take_untracked_completion generation buf s =
     (if is_tracked_write generation then (s, None)
      else case ws_untracked_completed (w_state s) of
        Some (retained, result) \<Rightarrow>
          (if retained = write_identity_of buf
           then (upd (ws_untracked_completed_update (\<lambda>_. None)) s, Some result) else (s, None))
      | None \<Rightarrow> (s, None))"

definition take_untracked_error :: "('k, 'f, 'g) write_sys \<Rightarrow> ('k, 'f, 'g) write_sys \<times> io_error option" where
  "take_untracked_error s = (case ws_untracked_completed (w_state s) of
     Some (_, Inl e) \<Rightarrow> (upd (ws_untracked_completed_update (\<lambda>_. None)) s, Some e)
   | _ \<Rightarrow> (s, None))"

definition retain_completion ::
  "write_kind \<Rightarrow> write_identity option \<Rightarrow> nat io_result \<Rightarrow> ('k, 'f, 'g) write_sys \<Rightarrow> ('k, 'f, 'g) write_sys" where
  "retain_completion kind identity result s = (case kind of
     Operation generation \<Rightarrow>
       (if is_tracked_write generation \<and> is_live_write s generation
        then upd (ws_completed_update (\<lambda>m. m(generation \<mapsto> result))) s
        else case identity of
          Some i \<Rightarrow> upd (ws_untracked_completed_update (\<lambda>_. Some (i, result))) s
        | None \<Rightarrow> s)
   | Buffered \<Rightarrow>
       (case result of Inl e \<Rightarrow> upd (ws_buffered_error_update (\<lambda>_. Some e)) s | Inr _ \<Rightarrow> s))"

definition poll_pending ::
  "('k, 'f, nat) future \<Rightarrow> waker \<Rightarrow> ('k, 'f, 'g) write_sys \<Rightarrow>
   ('k, 'f, 'g) write_sys \<times> (write_kind \<times> write_identity option \<times> nat io_result) poll" where
  "poll_pending fp cx s = (case ws_operation (w_state s) of
     None \<Rightarrow> (s, Ready (Operation 0, None, Ok 0))
   | Some op \<Rightarrow>
       (let (k, o', p, woken) = pending_operation_poll fp cx (w_dev s) (pw_operation op);
            s = wake woken (s\<lparr>w_dev := k\<rparr>) in
        case p of
          Ready result \<Rightarrow> (upd (ws_operation_update (\<lambda>_. None)) s, Ready (pw_kind op, pw_identity op, result))
        | Pending \<Rightarrow> (upd (ws_operation_update (\<lambda>_. Some (op\<lparr>pw_operation := o'\<rparr>))) s, Pending)))"

text \<open>Submitting the operation of a write.\<close>

definition submit ::
  "('k \<Rightarrow> byte list \<Rightarrow> 'k \<times> 'f) \<Rightarrow> nat \<Rightarrow> wbuf \<Rightarrow> ('k, 'f, 'g) write_sys \<Rightarrow> ('k, 'f, 'g) write_sys" where
  "submit start generation buf s =
     (let (k, f) = start (w_dev s) (snd buf);
          op = \<lparr>pw_kind = Operation generation,
                pw_identity = (if is_tracked_write generation then None else Some (write_identity_of buf)),
                pw_operation = pending_operation_new f\<rparr> in
      upd (ws_operation_update (\<lambda>_. Some op))
        (s\<lparr>w_dev := k, w_log := w_log s @ [(Operation generation, snd buf)]\<rparr>))"

lemma upd_simps [simp]:
  "w_state (upd h s) = h (w_state s)" "w_dev (upd h s) = w_dev s" "w_live (upd h s) = w_live s"
  "w_next (upd h s) = w_next s" "w_log (upd h s) = w_log s" "w_woken (upd h s) = w_woken s"
  by (simp_all add: upd_def)

lemma wake_simps [simp]:
  "w_state (wake ws s) = w_state s" "w_dev (wake ws s) = w_dev s" "w_live (wake ws s) = w_live s"
  "w_next (wake ws s) = w_next s" "w_log (wake ws s) = w_log s" "w_woken (wake ws s) = w_woken s @ ws"
  by (simp_all add: wake_def)

lemma is_live_write_cong: "w_live t = w_live s \<Longrightarrow> is_live_write t g = is_live_write s g"
  by (simp add: is_live_write_def)

lemma wake_ready_waiters_simps [simp]:
  "ws_operation (w_state (wake_ready_waiters s)) = ws_operation (w_state s)"
  "ws_queue (w_state (wake_ready_waiters s)) = ws_queue (w_state s)"
  "ws_completed (w_state (wake_ready_waiters s)) = ws_completed (w_state s)"
  "ws_untracked_completed (w_state (wake_ready_waiters s)) = ws_untracked_completed (w_state s)"
  "ws_buffered_error (w_state (wake_ready_waiters s)) = ws_buffered_error (w_state s)"
  "ws_shutdown (w_state (wake_ready_waiters s)) = ws_shutdown (w_state s)"
  "w_live (wake_ready_waiters s) = w_live s" "w_log (wake_ready_waiters s) = w_log s"
  "w_dev (wake_ready_waiters s) = w_dev s"
  by (simp_all add: wake_ready_waiters_def ws_wake_all_def Let_def split: list.splits)

lemma cleanup_cancelled_simps [simp]:
  "ws_operation (w_state (cleanup_cancelled s)) = ws_operation (w_state s)"
  "ws_queue (w_state (cleanup_cancelled s)) = filter (\<lambda>q. is_live_write s (qw_generation q)) (ws_queue (w_state s))"
  "ws_completed (w_state (cleanup_cancelled s)) g = (if is_live_write s g then ws_completed (w_state s) g else None)"
  "ws_untracked_completed (w_state (cleanup_cancelled s)) = ws_untracked_completed (w_state s)"
  "ws_buffered_error (w_state (cleanup_cancelled s)) = ws_buffered_error (w_state s)"
  "ws_shutdown (w_state (cleanup_cancelled s)) = ws_shutdown (w_state s)"
  "w_live (cleanup_cancelled s) = w_live s" "w_log (cleanup_cancelled s) = w_log s"
  "w_dev (cleanup_cancelled s) = w_dev s"
  by (simp_all add: cleanup_cancelled_def is_live_write_def Let_def)

lemma retain_completion_simps [simp]:
  "ws_operation (w_state (retain_completion k i r s)) = ws_operation (w_state s)"
  "ws_queue (w_state (retain_completion k i r s)) = ws_queue (w_state s)"
  "ws_shutdown (w_state (retain_completion k i r s)) = ws_shutdown (w_state s)"
  "w_live (retain_completion k i r s) = w_live s" "w_log (retain_completion k i r s) = w_log s"
  "w_dev (retain_completion k i r s) = w_dev s"
  by (auto simp: retain_completion_def split: write_kind.splits option.splits sum.splits)

lemma poll_pending_ready:
  assumes "poll_pending fp cx s = (t, Ready (k, i, r))"
  shows "ws_operation (w_state t) = None"
  using assms by (auto simp: poll_pending_def Let_def split: option.splits prod.splits poll.splits)

text \<open>The loop of \<open>poll_write\<close>; \<open>used\<close> says that the factory of the operation has been taken.\<close>

function poll_write_loop ::
  "('k \<Rightarrow> byte list \<Rightarrow> 'k \<times> 'f) \<Rightarrow> ('k, 'f, nat) future \<Rightarrow> waker \<Rightarrow> nat \<Rightarrow> wbuf \<Rightarrow> bool \<Rightarrow> ('k, 'f, 'g) write_sys \<Rightarrow>
   (('k, 'f, 'g) write_sys \<times> nat io_result poll) panics" where
  "poll_write_loop start fp cx generation buf used s =
     (case ws_operation (w_state s) of
        Some op \<Rightarrow>
          (case poll_pending fp cx s of
             (s, Pending) \<Rightarrow> Some (s, Pending)
           | (s, Ready (completed_kind, completed_identity, result)) \<Rightarrow>
               (let s = wake_ready_waiters s in
                if pw_kind op = Operation generation
                   \<and> (case pw_identity op of None \<Rightarrow> True | Some i \<Rightarrow> i = write_identity_of buf)
                then Some (s, Ready result)
                else
                  (let s = retain_completion completed_kind completed_identity result s in
                   case ws_buffered_error (w_state s) of
                     Some e \<Rightarrow> Some (upd (ws_buffered_error_update (\<lambda>_. None)) s, Ready (Err e))
                   | None \<Rightarrow> poll_write_loop start fp cx generation buf used s)))
      | None \<Rightarrow>
          (let s = cleanup_cancelled s in
           case ws_completed (w_state s) generation of
             Some result \<Rightarrow> Some (upd (ws_completed_update (\<lambda>m. m(generation := None))) s, Ready result)
           | None \<Rightarrow>
               (case ws_queue (w_state s) of
                  front # rest \<Rightarrow>
                    (if qw_generation front \<noteq> generation
                     then Some (register_write_cancellation_waker (qw_generation front) cx (wake [qw_waker front] s), Pending)
                     else if used then panic
                     else poll_write_loop start fp cx generation buf True
                            (submit start generation buf (upd (ws_queue_update (\<lambda>_. rest)) s)))
                | [] \<Rightarrow>
                    (if is_tracked_write generation \<and> \<not> is_live_write s generation
                     then Some (s, Ready (Err (Io_Error Interrupted ''write operation was cancelled'')))
                     else if used then panic
                     else poll_write_loop start fp cx generation buf True (submit start generation buf s)))))"
  by pat_completeness auto
termination
  by (relation "measure (\<lambda>(_, _, _, _, _, used, s).
      (if used then 0 else 2) + (if ws_operation (w_state s) = None then 0 else 1))")
    (auto dest: poll_pending_ready [OF sym])

declare poll_write_loop.simps [simp del]

definition poll_write ::
  "('k \<Rightarrow> byte list \<Rightarrow> 'k \<times> 'f) \<Rightarrow> ('k, 'f, nat) future \<Rightarrow> waker \<Rightarrow> nat \<Rightarrow> wbuf \<Rightarrow> ('k, 'f, 'g) write_sys \<Rightarrow>
   (('k, 'f, 'g) write_sys \<times> nat io_result poll) panics" where
  "poll_write start fp cx generation buf s =
     (if snd buf = [] then Some (s, Ready (Ok 0))
      else let s = cleanup_cancelled s in
        case ws_completed (w_state s) generation of
          Some result \<Rightarrow> Some (upd (ws_completed_update (\<lambda>m. m(generation := None))) s, Ready result)
        | None \<Rightarrow>
            (case take_untracked_completion generation buf s of
               (s, Some result) \<Rightarrow> Some (s, Ready result)
             | (s, None) \<Rightarrow>
                 (let known = (case ws_operation (w_state s) of Some op \<Rightarrow> pw_kind op = Operation generation | None \<Rightarrow> False)
                      \<or> (\<exists>q \<in> set (ws_queue (w_state s)). qw_generation q = generation) in
                  if ds_requested (ws_shutdown (w_state s)) \<and> \<not> known
                  then Some (s, Ready (Err (Io_Error BrokenPipe ''write direction is shut down'')))
                  else poll_write_loop start fp cx generation buf False (enqueue_tracked generation cx s))))"

function poll_drain :: "('k, 'f, nat) future \<Rightarrow> waker \<Rightarrow> ('k, 'f, 'g) write_sys \<Rightarrow> ('k, 'f, 'g) write_sys \<times> unit poll" where
  "poll_drain fp cx s =
     (let s = cleanup_cancelled s in
      case ws_operation (w_state s) of
        Some _ \<Rightarrow>
          (case poll_pending fp cx s of
             (s, Ready (kind, identity, result)) \<Rightarrow>
               poll_drain fp cx (wake_ready_waiters (retain_completion kind identity result s))
           | (s, Pending) \<Rightarrow> (s, Pending))
      | None \<Rightarrow>
          (case ws_queue (w_state s) of
             front # _ \<Rightarrow>
               (let s = upd (ws_barrier_waiters_update (ws_register cx)) s;
                    s = register_write_cancellation_waker (qw_generation front) cx s in
                (wake [qw_waker front] s, Pending))
           | [] \<Rightarrow> (s, Ready ())))"
  by pat_completeness auto
termination
  by (relation "measure (\<lambda>(_, _, s). if ws_operation (w_state s) = None then 0 else 1)")
    (auto dest: poll_pending_ready [OF sym])

declare poll_drain.simps [simp del]

definition take_buffered_error :: "('k, 'f, 'g) write_sys \<Rightarrow> ('k, 'f, 'g) write_sys \<times> io_error option" where
  "take_buffered_error s = (upd (ws_buffered_error_update (\<lambda>_. None)) s, ws_buffered_error (w_state s))"

definition poll_buffered_write ::
  "('k \<Rightarrow> byte list \<Rightarrow> 'k \<times> 'f) \<Rightarrow> ('k, 'f, nat) future \<Rightarrow> waker \<Rightarrow> byte list \<Rightarrow> ('k, 'f, 'g) write_sys \<Rightarrow>
   ('k, 'f, 'g) write_sys \<times> nat io_result poll" where
  "poll_buffered_write start fp cx bytes s =
     (if bytes = [] then (s, Ready (Ok 0))
      else if ds_requested (ws_shutdown (w_state s))
      then (s, Ready (Err (Io_Error BrokenPipe ''write direction is shut down'')))
      else case poll_drain fp cx s of
        (s, Pending) \<Rightarrow> (s, Pending)
      | (s, Ready _) \<Rightarrow>
          (case take_buffered_error s of
             (s, Some e) \<Rightarrow> (s, Ready (Err e))
           | (s, None) \<Rightarrow>
               (let (k, f) = start (w_dev s) bytes;
                    (k, op, p, woken) = pending_operation_poll fp cx k (pending_operation_new f);
                    s = wake woken (s\<lparr>w_dev := k, w_log := w_log s @ [(Buffered, bytes)]\<rparr>) in
                case p of
                  Ready (Inr _) \<Rightarrow> (s, Ready (Ok (length bytes)))
                | Ready (Inl e) \<Rightarrow> (s, Ready (Err e))
                | Pending \<Rightarrow>
                    (upd (ws_operation_update (\<lambda>_. Some \<lparr>pw_kind = Buffered, pw_identity = None, pw_operation = op\<rparr>)) s,
                     Ready (Ok (length bytes))))))"

definition write_poll_flush :: "('k, 'f, nat) future \<Rightarrow> waker \<Rightarrow> ('k, 'f, 'g) write_sys \<Rightarrow> ('k, 'f, 'g) write_sys \<times> unit io_result poll" where
  "write_poll_flush fp cx s = (case poll_drain fp cx s of
     (s, Pending) \<Rightarrow> (s, Pending)
   | (s, Ready _) \<Rightarrow>
       (case take_buffered_error s of
          (s, Some e) \<Rightarrow> (s, Ready (Err e))
        | (s, None) \<Rightarrow>
            (case take_untracked_error s of
               (s, Some e) \<Rightarrow> (s, Ready (Err e))
             | (s, None) \<Rightarrow> (s, Ready (Ok ())))))"

definition write_poll_shutdown ::
  "(io_error \<Rightarrow> shared_io_error) \<Rightarrow> ('k \<Rightarrow> 'k \<times> 'g) \<Rightarrow> ('k, 'g, unit) future \<Rightarrow> ('k, 'f, nat) future \<Rightarrow> waker \<Rightarrow>
   ('k, 'f, 'g) write_sys \<Rightarrow> ('k, 'f, 'g) write_sys \<times> unit io_result poll" where
  "write_poll_shutdown shared sstart sfp fp cx s =
     (let s = upd (ws_shutdown_update (\<lambda>d. d\<lparr>ds_requested := True\<rparr>)) s in
      case poll_drain fp cx s of
        (s, Pending) \<Rightarrow> (s, Pending)
      | (s, Ready _) \<Rightarrow>
          (case take_buffered_error s of
             (s, Some e) \<Rightarrow> (s, Ready (Err e))
           | (s, None) \<Rightarrow>
               (let (k, d, p, woken) = direction_shutdown_poll shared sstart sfp cx (w_dev s) (ws_shutdown (w_state s)) in
                (wake woken (upd (ws_shutdown_update (\<lambda>_. d)) (s\<lparr>w_dev := k\<rparr>)), p))))"

subsection \<open>The life of a tracked write\<close>

datatype write_status = WIdle | WQueued | WInFlight | WFinished "nat io_result"

definition op_in_flight :: "('k, 'f, 'g) write_sys \<Rightarrow> nat \<Rightarrow> bool" where
  "op_in_flight s g \<longleftrightarrow> (case ws_operation (w_state s) of Some op \<Rightarrow> pw_kind op = Operation g | None \<Rightarrow> False)"

definition queued :: "('k, 'f, 'g) write_sys \<Rightarrow> nat \<Rightarrow> bool" where
  "queued s g \<longleftrightarrow> (\<exists>q \<in> set (ws_queue (w_state s)). qw_generation q = g)"

definition status :: "('k, 'f, 'g) write_sys \<Rightarrow> nat \<Rightarrow> write_status" where
  "status s g =
     (if op_in_flight s g then WInFlight
      else case ws_completed (w_state s) g of Some r \<Rightarrow> WFinished r
      | None \<Rightarrow> if queued s g then WQueued else WIdle)"

definition tracked_live :: "('k, 'f, 'g) write_sys \<Rightarrow> nat \<Rightarrow> bool" where
  "tracked_live s g \<longleftrightarrow> is_tracked_write g \<and> w_live s g \<noteq> None"

text \<open>The generations that are live and queued, in queue order.\<close>

definition waiting :: "('k, 'f, 'g) write_sys \<Rightarrow> nat list" where
  "waiting s = filter (tracked_live s) (map qw_generation (ws_queue (w_state s)))"

definition write_inv :: "('k, 'f, 'g) write_sys \<Rightarrow> bool" where
  "write_inv s \<longleftrightarrow> distinct (map qw_generation (ws_queue (w_state s)))
     \<and> (\<forall>q \<in> set (ws_queue (w_state s)). is_tracked_write (qw_generation q))
     \<and> (\<forall>g. queued s g \<longrightarrow> \<not> op_in_flight s g \<and> ws_completed (w_state s) g = None)
     \<and> (\<forall>g. ws_completed (w_state s) g \<noteq> None \<longrightarrow> is_tracked_write g \<and> \<not> op_in_flight s g)
     \<and> (case ws_operation (w_state s) of None \<Rightarrow> True
        | Some op \<Rightarrow> (\<forall>g. pw_kind op = Operation g \<longrightarrow> (pw_identity op = None \<longleftrightarrow> is_tracked_write g)))"

lemma write_inv_init: "write_inv (s\<lparr>w_state := write_state_new\<rparr>)"
  by (simp add: write_inv_def write_state_new_def queued_def op_in_flight_def)

lemma write_inv_queue:
  "write_inv s \<Longrightarrow> q \<in> set (ws_queue (w_state s)) \<Longrightarrow> is_tracked_write (qw_generation q)"
  by (simp add: write_inv_def)

lemma tracked_live_cong: "w_live t = w_live s \<Longrightarrow> tracked_live t g = tracked_live s g"
  by (simp add: tracked_live_def)

lemma live_tracked: "is_tracked_write g \<Longrightarrow> is_live_write s g = tracked_live s g"
  by (auto simp: is_live_write_def tracked_live_def)

text \<open>What an operation of somebody else may do to a tracked live write: nothing, or find its submitted
  operation completed and keep the result for it.\<close>

definition undisturbed :: "('k, 'f, nat) future \<Rightarrow> ('k, 'f, 'g) write_sys \<Rightarrow> ('k, 'f, 'g) write_sys \<Rightarrow> nat \<Rightarrow> bool" where
  "undisturbed fp s t h \<longleftrightarrow> status t h = status s h \<or>
     (\<exists>op k f r. ws_operation (w_state s) = Some op \<and> pw_kind op = Operation h
        \<and> fp (w_dev s) (po_future (pw_operation op)) = (k, f, Ready r) \<and> status t h = WFinished r)"

text \<open>Steps that serve no write of their own: the invariant, the live generations and the submissions stay,
  the queue keeps its order, and every tracked live write is undisturbed.\<close>

definition calm :: "('k, 'f, nat) future \<Rightarrow> ('k, 'f, 'g) write_sys \<Rightarrow> ('k, 'f, 'g) write_sys \<Rightarrow> bool" where
  "calm fp s t \<longleftrightarrow> write_inv t \<and> (\<forall>h. tracked_live t h = tracked_live s h) \<and> w_log t = w_log s
     \<and> waiting t = waiting s \<and> (\<forall>h. tracked_live s h \<longrightarrow> undisturbed fp s t h)"

lemma in_flight_cong: "ws_operation (w_state t) = ws_operation (w_state s) \<Longrightarrow> op_in_flight t g = op_in_flight s g"
  by (simp add: op_in_flight_def)

lemma queued_cong: "ws_queue (w_state t) = ws_queue (w_state s) \<Longrightarrow> queued t g = queued s g"
  by (simp add: queued_def)

lemma status_cong:
  "ws_operation (w_state t) = ws_operation (w_state s) \<Longrightarrow> ws_queue (w_state t) = ws_queue (w_state s) \<Longrightarrow>
   ws_completed (w_state t) g = ws_completed (w_state s) g \<Longrightarrow> status t g = status s g"
  using in_flight_cong [of t s g] queued_cong [of t s g] by (simp add: status_def)

lemma write_inv_cong:
  "ws_operation (w_state t) = ws_operation (w_state s) \<Longrightarrow> ws_queue (w_state t) = ws_queue (w_state s) \<Longrightarrow>
   ws_completed (w_state t) = ws_completed (w_state s) \<Longrightarrow> write_inv t = write_inv s"
  by (simp add: write_inv_def op_in_flight_def queued_def)

lemma waiting_cong:
  "ws_queue (w_state t) = ws_queue (w_state s) \<Longrightarrow> (\<And>h. tracked_live t h = tracked_live s h) \<Longrightarrow> waiting t = waiting s"
  by (simp add: waiting_def cong: filter_cong)

lemma calm_same:
  assumes "write_inv s" and "ws_operation (w_state t) = ws_operation (w_state s)"
    and "ws_queue (w_state t) = ws_queue (w_state s)" and "ws_completed (w_state t) = ws_completed (w_state s)"
    and "\<And>h. tracked_live t h = tracked_live s h" and "w_log t = w_log s"
  shows "calm fp s t"
  using assms write_inv_cong [OF assms(2-4)] waiting_cong [OF assms(3,5)] status_cong [OF assms(2,3)]
  by (simp add: calm_def undisturbed_def)

text \<open>Removing what belongs to cancelled generations.\<close>

lemma cleanup_queue:
  assumes "write_inv s"
  shows "map qw_generation (ws_queue (w_state (cleanup_cancelled s))) = waiting s"
  unfolding cleanup_cancelled_simps waiting_def filter_map
  using write_inv_queue [OF assms] live_tracked
  by (auto simp: comp_def intro!: arg_cong [where f = "map qw_generation"] filter_cong)

lemma cleanup_queued: "queued (cleanup_cancelled s) g \<longleftrightarrow> queued s g \<and> is_live_write s g"
  by (auto simp: queued_def)

lemma cleanup_status:
  assumes "tracked_live s h"
  shows "status (cleanup_cancelled s) h = status s h"
proof -
  have "is_live_write s h" using assms by (auto simp: tracked_live_def is_live_write_def)
  then show ?thesis by (simp add: status_def op_in_flight_def cleanup_queued)
qed

lemma cleanup_inv:
  assumes "write_inv s"
  shows "write_inv (cleanup_cancelled s)"
proof -
  have "op_in_flight (cleanup_cancelled s) g = op_in_flight s g" for g by (simp add: op_in_flight_def)
  moreover have "distinct (map qw_generation (ws_queue (w_state (cleanup_cancelled s))))"
    unfolding cleanup_queue [OF assms] using assms by (simp add: waiting_def write_inv_def)
  ultimately show ?thesis using assms
    by (auto simp: write_inv_def cleanup_queued simp del: cleanup_cancelled_simps(2))
      (auto split: if_splits)
qed

lemma cleanup_calm:
  assumes "write_inv s"
  shows "calm fp s (cleanup_cancelled s)"
proof -
  have live: "tracked_live (cleanup_cancelled s) h = tracked_live s h" for h by (simp add: tracked_live_def)
  have "waiting (cleanup_cancelled s) = filter (tracked_live s) (waiting s)"
    using cleanup_queue [OF assms] live by (simp add: waiting_def [of "cleanup_cancelled s"] cong: filter_cong)
  also have "\<dots> = waiting s" by (simp add: waiting_def)
  finally show ?thesis using live cleanup_inv [OF assms] cleanup_status [of s] by (simp add: calm_def undisturbed_def)
qed

text \<open>Polling the operation in flight.\<close>

lemma poll_pending_cases:
  assumes "ws_operation (w_state s) = Some op"
  obtains
    (pending) t k f o' where "poll_pending fp cx s = (t, Pending)"
      "fp (w_dev s) (po_future (pw_operation op)) = (k, f, Pending)"
      "ws_operation (w_state t) = Some (op\<lparr>pw_operation := o'\<rparr>)" "cx \<in> set (po_waiters o')"
      "ws_queue (w_state t) = ws_queue (w_state s)" "ws_completed (w_state t) = ws_completed (w_state s)"
      "w_live t = w_live s" "w_log t = w_log s" "ws_buffered_error (w_state t) = ws_buffered_error (w_state s)"
  | (ready) t k f r where "poll_pending fp cx s = (t, Ready (pw_kind op, pw_identity op, r))"
      "fp (w_dev s) (po_future (pw_operation op)) = (k, f, Ready r)" "ws_operation (w_state t) = None"
      "ws_queue (w_state t) = ws_queue (w_state s)" "ws_completed (w_state t) = ws_completed (w_state s)"
      "w_live t = w_live s" "w_log t = w_log s" "ws_buffered_error (w_state t) = ws_buffered_error (w_state s)"
      "set (po_waiters (pw_operation op)) \<subseteq> set (w_woken t)"
proof -
  obtain k o' p woken where q: "pending_operation_poll fp cx (w_dev s) (pw_operation op) = (k, o', p, woken)"
    by (cases "pending_operation_poll fp cx (w_dev s) (pw_operation op)")
  note f = pending_operation_poll_future [OF q] and w = pending_operation_poll_wakes [OF q]
  define t where "t = upd (ws_operation_update (\<lambda>_. case p of Pending \<Rightarrow> Some (op\<lparr>pw_operation := o'\<rparr>) | Ready _ \<Rightarrow> None))
    (wake woken (s\<lparr>w_dev := k\<rparr>))"
  have t: "ws_operation (w_state t) = (case p of Pending \<Rightarrow> Some (op\<lparr>pw_operation := o'\<rparr>) | Ready _ \<Rightarrow> None)"
    "ws_queue (w_state t) = ws_queue (w_state s)" "ws_completed (w_state t) = ws_completed (w_state s)"
    "w_live t = w_live s" "w_log t = w_log s" "ws_buffered_error (w_state t) = ws_buffered_error (w_state s)"
    "w_woken t = w_woken s @ woken"
    by (simp_all add: t_def)
  have pp: "poll_pending fp cx s = (t, case p of Pending \<Rightarrow> Pending | Ready r \<Rightarrow> Ready (pw_kind op, pw_identity op, r))"
    using assms q by (simp add: poll_pending_def t_def split: poll.split)
  show thesis
  proof (cases p)
    case Pending
    show ?thesis
      by (rule pending [of t k "po_future o'" o']) (use Pending pp t f w in auto)
  next
    case (Ready r)
    show ?thesis
      by (rule ready [of t r k "po_future o'"]) (use Ready pp t f w in auto)
  qed
qed

lemma pending_calm:
  assumes "write_inv s" and "ws_operation (w_state s) = Some op" and "poll_pending fp cx s = (t, Pending)"
  shows "calm fp s t \<and> (\<exists>o'. ws_operation (w_state t) = Some (op\<lparr>pw_operation := o'\<rparr>) \<and> cx \<in> set (po_waiters o'))"
  using assms(2)
proof (cases rule: poll_pending_cases [where fp = fp and cx = cx])
  case (pending t' k f o')
  with assms(3) have t: "t' = t" by simp
  have fl: "op_in_flight t g = op_in_flight s g" for g using pending(3) assms(2) t by (simp add: op_in_flight_def)
  have qd: "queued t g = queued s g" for g using pending(5) t by (simp add: queued_def)
  have st: "status t g = status s g" for g using pending(6) t fl qd by (simp add: status_def)
  have live: "tracked_live t h = tracked_live s h" for h using pending(7) t by (simp add: tracked_live_def)
  have "write_inv t" using assms(1,2) pending t fl qd by (simp add: write_inv_def)
  moreover have "waiting t = waiting s" using pending(5) t live by (auto intro: waiting_cong)
  ultimately show ?thesis using live pending t st by (auto simp: calm_def undisturbed_def)
qed (use assms(3) in simp)

text \<open>Retiring a completed operation.\<close>

lemma retain_completed:
  "ws_completed (w_state (retain_completion kind i r s)) g =
    (if kind = Operation g \<and> tracked_live s g then Some r else ws_completed (w_state s) g)"
  by (auto simp: retain_completion_def tracked_live_def is_live_write_def split: write_kind.splits option.splits sum.splits)

lemma retire_calm:
  assumes "write_inv s" and "ws_operation (w_state s) = Some op"
    and "fp (w_dev s) (po_future (pw_operation op)) = (k, f, Ready r)"
    and "ws_operation (w_state u) = None" and "ws_queue (w_state u) = ws_queue (w_state s)"
    and "w_live u = w_live s" and "w_log u = w_log s"
    and "\<And>g. ws_completed (w_state u) g =
      (if pw_kind op = Operation g \<and> tracked_live s g then Some r else ws_completed (w_state s) g)"
  shows "calm fp s u"
proof -
  have live: "tracked_live u h = tracked_live s h" for h using assms(6) by (simp add: tracked_live_def)
  have fl: "\<not> op_in_flight u g" for g using assms(4) by (simp add: op_in_flight_def)
  have op: "pw_kind op = Operation g \<longleftrightarrow> op_in_flight s g" for g using assms(2) by (simp add: op_in_flight_def)
  have qd: "queued u g = queued s g" for g using assms(5) by (simp add: queued_def)
  have "undisturbed fp s u h" if "tracked_live s h" for h
  proof (cases "op_in_flight s h")
    case True
    with that assms(8) op fl have "status u h = WFinished r" by (simp add: status_def)
    with True op assms(2,3) show ?thesis unfolding undisturbed_def by blast
  next
    case False
    with assms(8) op fl qd have "status u h = status s h" by (simp add: status_def)
    then show ?thesis by (simp add: undisturbed_def)
  qed
  moreover have "write_inv u"
    using assms(1,4,5,8) qd fl op by (auto simp: write_inv_def tracked_live_def)
  ultimately show ?thesis
    using live assms(5,7) waiting_cong [of u s] by (simp add: calm_def)
qed

lemma calm_after_cleanup:
  assumes "write_inv s" and "calm fp (cleanup_cancelled s) t"
  shows "calm fp s t"
  using assms(2) cleanup_calm [OF assms(1), of fp] cleanup_status [of s]
  by (auto simp: calm_def undisturbed_def)

text \<open>Steps that serve the write of one generation: the others are undisturbed and keep their order.\<close>

definition served :: "('k, 'f, nat) future \<Rightarrow> nat \<Rightarrow> ('k, 'f, 'g) write_sys \<Rightarrow> ('k, 'f, 'g) write_sys \<Rightarrow> bool" where
  "served fp g s t \<longleftrightarrow> write_inv t \<and> (\<forall>h. tracked_live t h = tracked_live s h)
     \<and> filter (\<lambda>h. h \<noteq> g) (waiting t) = filter (\<lambda>h. h \<noteq> g) (waiting s)
     \<and> (\<forall>h. tracked_live s h \<and> h \<noteq> g \<longrightarrow> undisturbed fp s t h)"

lemma calm_served: "calm fp s t \<Longrightarrow> served fp g s t"
  by (simp add: calm_def served_def)

lemma calm_inv: "calm fp s t \<Longrightarrow> write_inv t"
  by (simp add: calm_def)

lemma undisturbed_idle: "ws_operation (w_state s) = None \<Longrightarrow> undisturbed fp s t h \<longleftrightarrow> status t h = status s h"
  by (simp add: undisturbed_def)

lemma calm_trans:
  "calm fp s t \<Longrightarrow> ws_operation (w_state t) = None \<Longrightarrow> calm fp t u \<Longrightarrow> calm fp s u"
  by (auto simp: calm_def undisturbed_idle) (simp add: undisturbed_def)

lemma calm_served_trans:
  "calm fp s t \<Longrightarrow> ws_operation (w_state t) = None \<Longrightarrow> served fp g t u \<Longrightarrow> served fp g s u"
  by (auto simp: calm_def served_def undisturbed_idle) (simp add: undisturbed_def)

lemma calm_status: "calm fp s t \<Longrightarrow> tracked_live s g \<Longrightarrow> \<not> op_in_flight s g \<Longrightarrow> status t g = status s g"
  by (auto simp: calm_def undisturbed_def op_in_flight_def)

lemma inv_status:
  assumes "write_inv s"
  shows "queued s g \<longleftrightarrow> status s g = WQueued" "op_in_flight s g \<longleftrightarrow> status s g = WInFlight"
    "ws_completed (w_state s) g = Some r \<longleftrightarrow> status s g = WFinished r"
  using assms by (auto simp: status_def write_inv_def split: option.splits)

lemma inv_untracked:
  assumes "write_inv s" and "\<not> is_tracked_write g"
  shows "\<not> queued s g" "ws_completed (w_state s) g = None"
  using assms by (auto simp: write_inv_def queued_def)

text \<open>Draining.\<close>

lemma register_cancellation_simps [simp]:
  "w_state (register_write_cancellation_waker g cx s) = w_state s"
  "w_log (register_write_cancellation_waker g cx s) = w_log s"
  "tracked_live (register_write_cancellation_waker g cx s) h = tracked_live s h"
  by (auto simp: register_write_cancellation_waker_def tracked_live_def split: option.splits)

lemma tracked_live_simps [simp]:
  "tracked_live (wake ws s) h = tracked_live s h" "tracked_live (upd u s) h = tracked_live s h"
  "tracked_live (cleanup_cancelled s) h = tracked_live s h" "tracked_live (wake_ready_waiters s) h = tracked_live s h"
  "tracked_live (retain_completion kind i r s) h = tracked_live s h"
  by (simp_all add: tracked_live_def)

lemma poll_drain_idle:
  assumes "write_inv s" and "ws_operation (w_state s) = None" and "poll_drain fp cx s = (t, p)"
  shows "calm fp s t \<and> ws_operation (w_state t) = None \<and> (p = Ready () \<longleftrightarrow> ws_queue (w_state t) = [])"
proof -
  let ?c = "cleanup_cancelled s"
  have inv: "write_inv ?c" by (rule cleanup_inv [OF assms(1)])
  have "calm fp ?c t \<and> ws_operation (w_state t) = None \<and> (p = Ready () \<longleftrightarrow> ws_queue (w_state t) = [])"
    using assms(2,3) calm_same [OF inv, of t fp]
    by (subst (asm) poll_drain.simps)
      (auto simp: Let_def split: list.splits simp del: cleanup_cancelled_simps(2,3))
  then show ?thesis using calm_after_cleanup [OF assms(1), of fp t] by blast
qed

lemma retire_step:
  assumes "write_inv s" and "ws_operation (w_state s) = Some op" and "poll_pending fp cx s = (t, Ready (kd, i, r))"
  shows "kd = pw_kind op" "i = pw_identity op" "calm fp s (retain_completion kd i r (wake_ready_waiters t))"
    "calm fp s (wake_ready_waiters (retain_completion kd i r t))" "ws_operation (w_state t) = None"
proof -
  have "kd = pw_kind op \<and> i = pw_identity op \<and> ws_operation (w_state t) = None
      \<and> calm fp s (retain_completion kd i r (wake_ready_waiters t))
      \<and> calm fp s (wake_ready_waiters (retain_completion kd i r t))"
    using assms(2)
  proof (cases rule: poll_pending_cases [where fp = fp and cx = cx])
    case (ready t' k f r')
    with assms(3) have e: "t' = t" "kd = pw_kind op" "i = pw_identity op" "r' = r" by auto
    have live: "tracked_live t h = tracked_live s h" for h using ready(6) e by (simp add: tracked_live_def)
    note c = retire_calm [of s op fp k f r', OF assms(1,2) ready(2)]
    have "calm fp s (retain_completion kd i r (wake_ready_waiters t))"
      by (rule c) (use ready e live in \<open>simp_all add: retain_completed\<close>)
    moreover have "calm fp s (wake_ready_waiters (retain_completion kd i r t))"
      by (rule c) (use ready e live in \<open>simp_all add: retain_completed\<close>)
    ultimately show ?thesis using e ready(3) by simp
  qed (use assms(3) in simp)
  then show "kd = pw_kind op" "i = pw_identity op" "calm fp s (retain_completion kd i r (wake_ready_waiters t))"
    "calm fp s (wake_ready_waiters (retain_completion kd i r t))" "ws_operation (w_state t) = None" by auto
qed

lemma poll_drain_calm:
  assumes "write_inv s" and "poll_drain fp cx s = (t, p)"
  shows "calm fp s t \<and> (p = Ready () \<longleftrightarrow> ws_operation (w_state t) = None \<and> ws_queue (w_state t) = [])"
proof (cases "ws_operation (w_state s)")
  case None
  then show ?thesis using poll_drain_idle [OF assms(1) _ assms(2)] by auto
next
  case (Some op)
  let ?c = "cleanup_cancelled s"
  have inv: "write_inv ?c" and op: "ws_operation (w_state ?c) = Some op"
    using cleanup_inv [OF assms(1)] Some by auto
  obtain u q where pp: "poll_pending fp cx ?c = (u, q)" by (cases "poll_pending fp cx ?c")
  have "calm fp ?c t \<and> (p = Ready () \<longleftrightarrow> ws_operation (w_state t) = None \<and> ws_queue (w_state t) = [])"
  proof (cases q)
    case Pending
    with assms(2) pp Some have "t = u" "p = Pending"
      by (subst (asm) poll_drain.simps, auto simp: Let_def)+
    then show ?thesis using pending_calm [OF inv op] pp Pending by auto
  next
    case (Ready x)
    obtain kd i r where x: "x = (kd, i, r)" by (cases x)
    define v where "v = wake_ready_waiters (retain_completion kd i r u)"
    have v: "calm fp ?c v" "ws_operation (w_state v) = None"
      using retire_step [OF inv op] pp Ready x by (auto simp: v_def)
    have "poll_drain fp cx v = (t, p)"
      using assms(2) pp Some Ready x by (subst (asm) poll_drain.simps) (simp add: Let_def v_def)
    then show ?thesis using poll_drain_idle [OF calm_inv [OF v(1)] v(2)] calm_trans [OF v] by blast
  qed
  then show ?thesis using calm_after_cleanup [OF assms(1)] by blast
qed

text \<open>The loop of \<open>poll_write\<close> when the operation in flight is the caller's own.\<close>

lemma loop_own:
  assumes "write_inv s" and "ws_operation (w_state s) = Some op" and "pw_kind op = Operation g"
    and "\<And>i. pw_identity op = Some i \<Longrightarrow> i = write_identity_of buf"
  obtains t p where "poll_write_loop start fp cx g buf used s = Some (t, p)" "write_inv t" "w_log t = w_log s"
    "w_live t = w_live s" "ws_queue (w_state t) = ws_queue (w_state s)" "\<And>h. h \<noteq> g \<Longrightarrow> status t h = status s h"
    "p = Pending \<and> status t g = WInFlight
      \<or> (\<exists>k f r. fp (w_dev s) (po_future (pw_operation op)) = (k, f, Ready r) \<and> p = Ready r \<and> status t g = WIdle)"
  using assms(2)
proof (cases rule: poll_pending_cases [where fp = fp and cx = cx])
  case (pending t k f o')
  have "calm fp s t" using pending_calm [OF assms(1,2) pending(1)] by simp
  then have "write_inv t" by (rule calm_inv)
  moreover have "poll_write_loop start fp cx g buf used s = Some (t, Pending)"
    using assms(2) pending(1) by (subst poll_write_loop.simps) simp
  moreover have "status t h = status s h" for h
    using pending(3,6) queued_cong [OF pending(5)] assms(2) by (simp add: status_def op_in_flight_def)
  moreover have "status s g = WInFlight" using assms(2,3) by (simp add: status_def op_in_flight_def)
  ultimately show thesis using pending that [of t Pending] by simp
next
  case (ready t k f r)
  define u where "u = wake_ready_waiters t"
  have u: "ws_operation (w_state u) = None" "ws_queue (w_state u) = ws_queue (w_state s)"
    "ws_completed (w_state u) = ws_completed (w_state s)" "w_live u = w_live s" "w_log u = w_log s"
    using ready by (simp_all add: u_def)
  have fl: "op_in_flight s h \<longleftrightarrow> h = g" "\<not> op_in_flight u h" for h
    using assms(2,3) u(1) by (auto simp: op_in_flight_def)
  have qd: "queued u h = queued s h" for h using u(2) by (simp add: queued_def)
  have "write_inv u" using assms(1) u qd fl by (simp add: write_inv_def)
  moreover have "poll_write_loop start fp cx g buf used s = Some (u, Ready r)"
    using assms(2,3,4) ready(1) by (subst poll_write_loop.simps) (auto simp: u_def split: option.splits)
  moreover have "status u h = status s h" if "h \<noteq> g" for h using u(3) qd fl that by (simp add: status_def)
  moreover have "ws_completed (w_state s) g = None" "\<not> queued s g"
    using assms(1) fl(1) [of g] by (auto simp: write_inv_def)
  then have "status u g = WIdle" using u(3) qd fl by (simp add: status_def)
  ultimately show thesis using ready(2) u that [of u "Ready r"] by auto
qed

lemma submit_simps [simp]:
  "ws_queue (w_state (submit start g buf s)) = ws_queue (w_state s)"
  "ws_completed (w_state (submit start g buf s)) = ws_completed (w_state s)"
  "w_live (submit start g buf s) = w_live s"
  "w_log (submit start g buf s) = w_log s @ [(Operation g, snd buf)]"
  by (simp_all add: submit_def split: prod.splits)

lemma submit_operation:
  obtains op where "ws_operation (w_state (submit start g buf s)) = Some op" "pw_kind op = Operation g"
    "pw_identity op = (if is_tracked_write g then None else Some (write_identity_of buf))"
    "pw_operation op = pending_operation_new (snd (start (w_dev s) (snd buf)))"
  using that [of "\<lparr>pw_kind = Operation g, pw_identity = (if is_tracked_write g then None else Some (write_identity_of buf)),
    pw_operation = pending_operation_new (snd (start (w_dev s) (snd buf)))\<rparr>"]
  by (simp add: submit_def split: prod.splits)

text \<open>A write whose turn it is submits its own bytes and polls the operation once.\<close>

lemma loop_submits:
  assumes "write_inv s" and "ws_operation (w_state s) = None" and "status s g = WIdle"
  obtains t p where "poll_write_loop start fp cx g buf True (submit start g buf s) = Some (t, p)" "write_inv t"
    "w_log t = w_log s @ [(Operation g, snd buf)]" "w_live t = w_live s" "ws_queue (w_state t) = ws_queue (w_state s)"
    "\<And>h. h \<noteq> g \<Longrightarrow> status t h = status s h" "p = Pending \<and> status t g = WInFlight \<or> (\<exists>r. p = Ready r \<and> status t g = WIdle)"
proof -
  let ?s = "submit start g buf s"
  obtain op where op: "ws_operation (w_state ?s) = Some op" "pw_kind op = Operation g"
    "pw_identity op = (if is_tracked_write g then None else Some (write_identity_of buf))"
    by (rule submit_operation)
  have fl: "op_in_flight ?s h \<longleftrightarrow> h = g" "\<not> op_in_flight s h" for h using assms(2) op by (auto simp: op_in_flight_def)
  have qd: "queued ?s h = queued s h" for h by (simp add: queued_def)
  have g: "\<not> queued s g" "ws_completed (w_state s) g = None"
    using assms(3) by (auto simp: status_def split: option.splits if_splits)
  have inv: "write_inv ?s" using assms(1) fl qd op g by (auto simp: write_inv_def)
  have st: "status ?s h = status s h" if "h \<noteq> g" for h using that fl qd by (simp add: status_def)
  have idt: "i = write_identity_of buf" if "pw_identity op = Some i" for i using that op(3) by (auto split: if_splits)
  obtain t p where "poll_write_loop start fp cx g buf True ?s = Some (t, p)" "write_inv t" "w_log t = w_log ?s"
    "w_live t = w_live ?s" "ws_queue (w_state t) = ws_queue (w_state ?s)" "\<And>h. h \<noteq> g \<Longrightarrow> status t h = status ?s h"
    "p = Pending \<and> status t g = WInFlight \<or> (\<exists>k f r. fp (w_dev ?s) (po_future (pw_operation op)) = (k, f, Ready r)
       \<and> p = Ready r \<and> status t g = WIdle)"
    by (rule loop_own [OF inv op(1,2) idt, where start = start and fp = fp and cx = cx and used = True]) blast+
  with st show thesis using that [of t p] by auto
qed

text \<open>Whose turn it is: nobody waits, or the caller is the oldest of those that do.\<close>

definition is_turn :: "('k, 'f, 'g) write_sys \<Rightarrow> nat \<Rightarrow> bool" where
  "is_turn s g \<longleftrightarrow> waiting s = [] \<or> hd (waiting s) = g"

definition submitted :: "nat \<Rightarrow> byte list \<Rightarrow> ('k, 'f, 'g) write_sys \<Rightarrow> ('k, 'f, 'g) write_sys \<Rightarrow> nat io_result poll \<Rightarrow> bool" where
  "submitted g bytes s t p \<longleftrightarrow> w_log t = w_log s @ [(Operation g, bytes)]
     \<and> (p = Pending \<and> status t g = WInFlight \<or> (\<exists>r. p = Ready r \<and> status t g = WIdle))"

definition standing :: "nat \<Rightarrow> ('k, 'f, 'g) write_sys \<Rightarrow> ('k, 'f, 'g) write_sys \<Rightarrow> bool" where
  "standing g s t \<longleftrightarrow> w_log t = w_log s \<and> status t g = status s g"

lemma waiting_clean: "write_inv s \<Longrightarrow> waiting (cleanup_cancelled s) = waiting s"
  using cleanup_calm [of s] by (simp add: calm_def)

lemma submit_served:
  assumes "write_inv s" and "ws_operation (w_state s) = None" and "write_inv t" and "w_live t = w_live s"
    and "filter (\<lambda>q. qw_generation q \<noteq> g) (ws_queue (w_state t)) = filter (\<lambda>q. qw_generation q \<noteq> g) (ws_queue (w_state s))"
    and "\<And>h. h \<noteq> g \<Longrightarrow> status t h = status s h"
  shows "served fp g s t"
proof -
  have live: "tracked_live t h = tracked_live s h" for h using assms(4) by (simp add: tracked_live_def)
  have "filter (\<lambda>h. h \<noteq> g) (waiting u) =
      filter (tracked_live u) (map qw_generation (filter (\<lambda>q. qw_generation q \<noteq> g) (ws_queue (w_state u))))"
    for u :: "('a, 'b, 'c) write_sys" by (simp add: waiting_def filter_map comp_def conj_commute)
  from this [of t] this [of s] have "filter (\<lambda>h. h \<noteq> g) (waiting t) = filter (\<lambda>h. h \<noteq> g) (waiting s)"
    unfolding assms(5) using live by (simp cong: filter_cong)
  then show ?thesis using assms live by (simp add: served_def undisturbed_idle)
qed

lemma pop_front:
  assumes "write_inv s" and "ws_operation (w_state s) = None" and "ws_queue (w_state s) = front # rest"
    and d: "d = upd (ws_queue_update (\<lambda>_. rest)) s"
  shows "write_inv d"
    "h \<noteq> qw_generation front \<Longrightarrow> status d h = status s h"
    "ws_completed (w_state s) (qw_generation front) = None \<Longrightarrow> status d (qw_generation front) = WIdle"
proof -
  have "qw_generation front \<notin> qw_generation ` set rest" using assms(1,3) by (simp add: write_inv_def)
  then have qd: "queued d h \<longleftrightarrow> queued s h \<and> h \<noteq> qw_generation front" for h
    using assms(3) d by (auto simp: queued_def image_iff)
  have fl: "op_in_flight d h = op_in_flight s h" "\<not> op_in_flight s h" for h using assms(2) d by (simp_all add: op_in_flight_def)
  show "write_inv d" using assms qd fl by (auto simp: write_inv_def)
  show "status d h = status s h" if "h \<noteq> qw_generation front" using that qd fl d by (simp add: status_def)
  show "status d (qw_generation front) = WIdle" if "ws_completed (w_state s) (qw_generation front) = None"
    using that qd fl d by (simp add: status_def)
qed

lemma cleanup_status_any:
  assumes "write_inv s" and "ws_operation (w_state s) = None" and "tracked_live s h \<or> \<not> is_tracked_write h"
  shows "status (cleanup_cancelled s) h = status s h"
proof (cases "tracked_live s h")
  case False
  with assms(3) have "\<not> is_tracked_write h" by simp
  then show ?thesis
    using inv_untracked [OF assms(1)] inv_untracked [OF cleanup_inv [OF assms(1)]] assms(2)
    by (simp add: status_def op_in_flight_def del: cleanup_cancelled_simps(3))
qed (rule cleanup_status)

lemma loop_idle:
  assumes "write_inv s" and "ws_operation (w_state s) = None"
    and "tracked_live s g \<and> status s g = WQueued \<or> \<not> is_tracked_write g"
  obtains t p where "poll_write_loop start fp cx g buf False s = Some (t, p)" "served fp g s t"
    "if is_turn s g then submitted g (snd buf) s t p else standing g s t \<and> p = Pending"
proof -
  define c where "c = cleanup_cancelled s"
  have c: "write_inv c" "ws_operation (w_state c) = None" "calm fp s c" "w_log c = w_log s" "w_live c = w_live s"
    "map qw_generation (ws_queue (w_state c)) = waiting s"
    using cleanup_inv [OF assms(1)] assms(2) cleanup_calm [OF assms(1)] cleanup_queue [OF assms(1)] by (simp_all add: c_def)
  have g: "status c g = status s g" "ws_completed (w_state c) g = None"
    using assms(3) cleanup_status_any [OF assms(1,2), of g] inv_untracked(2) [OF c(1)]
    by (auto simp: c_def [symmetric] status_def [of c] split: if_splits option.splits)
  note start_simp = poll_write_loop.simps [of start fp cx g buf False s, unfolded assms(2), folded c_def, simplified g(2) Let_def]
  show thesis
  proof (cases "ws_queue (w_state c)")
    case Nil
    with c(6) have e: "waiting s = []" by simp
    have "\<not> queued c g" using Nil by (simp add: queued_def)
    with c(2) g(2) have idle: "status c g = WIdle" by (simp add: status_def op_in_flight_def)
    obtain t p where l: "poll_write_loop start fp cx g buf True (submit start g buf c) = Some (t, p)" "write_inv t"
      "w_log t = w_log c @ [(Operation g, snd buf)]" "w_live t = w_live c" "ws_queue (w_state t) = ws_queue (w_state c)"
      "\<And>h. h \<noteq> g \<Longrightarrow> status t h = status c h" "p = Pending \<and> status t g = WInFlight \<or> (\<exists>r. p = Ready r \<and> status t g = WIdle)"
      by (rule loop_submits [OF c(1,2) idle]) blast
    have "\<not> (is_tracked_write g \<and> \<not> is_live_write c g)"
      using assms(3) c(5) by (auto simp: is_live_write_def tracked_live_def)
    then have "poll_write_loop start fp cx g buf False s = Some (t, p)" using l(1) Nil by (auto simp: start_simp)
    moreover have "served fp g c t" by (rule submit_served [OF c(1,2) l(2)]) (use l in auto)
    ultimately show thesis using that [of t p] l c e calm_served_trans [OF c(3,2)]
      by (simp add: is_turn_def submitted_def)
  next
    case (Cons front rest)
    with c(6) have e: "waiting s = qw_generation front # map qw_generation rest" by simp
    show thesis
    proof (cases "qw_generation front = g")
      case False
      define t where "t = register_write_cancellation_waker (qw_generation front) cx (wake [qw_waker front] c)"
      have "poll_write_loop start fp cx g buf False s = Some (t, Pending)" using False Cons by (simp add: start_simp t_def)
      moreover have ct: "calm fp c t" by (rule calm_same [OF c(1)]) (simp_all add: t_def)
      moreover have "status t g = status c g" by (rule status_cong) (simp_all add: t_def)
      ultimately show thesis
        using that [of t Pending] g(1) c(4) e False calm_served [OF calm_trans [OF c(3,2) ct]]
        by (simp add: is_turn_def standing_def t_def)
    next
      case True
      define d where "d = upd (ws_queue_update (\<lambda>_. rest)) c"
      have dc: "ws_operation (w_state d) = None" "w_live d = w_live c" "w_log d = w_log c" "ws_queue (w_state d) = rest"
        using c(2) by (simp_all add: d_def)
      note popped = pop_front [OF c(1,2) Cons d_def, unfolded True]
      have inv: "write_inv d" and idle: "status d g = WIdle" using popped g(2) by simp_all
      obtain t p where l: "poll_write_loop start fp cx g buf True (submit start g buf d) = Some (t, p)" "write_inv t"
        "w_log t = w_log d @ [(Operation g, snd buf)]" "w_live t = w_live d" "ws_queue (w_state t) = ws_queue (w_state d)"
        "\<And>h. h \<noteq> g \<Longrightarrow> status t h = status d h" "p = Pending \<and> status t g = WInFlight \<or> (\<exists>r. p = Ready r \<and> status t g = WIdle)"
        by (rule loop_submits [OF inv dc(1) idle]) blast
      have "poll_write_loop start fp cx g buf False s = Some (t, p)" using l(1) Cons True by (simp add: start_simp d_def)
      moreover have "served fp g c t"
        by (rule submit_served [OF c(1,2) l(2)]) (use l dc popped(2) Cons True in auto)
      ultimately show thesis using that [of t p] l c dc e True calm_served_trans [OF c(3,2)]
        by (simp add: is_turn_def submitted_def)
    qed
  qed
qed

text \<open>The loop when somebody else's operation is in flight, or none.\<close>

definition progress :: "nat \<Rightarrow> byte list \<Rightarrow> ('k, 'f, 'g) write_sys \<Rightarrow> ('k, 'f, 'g) write_sys \<Rightarrow> nat io_result poll \<Rightarrow> bool" where
  "progress g bytes s t p \<longleftrightarrow>
     is_turn s g \<and> submitted g bytes s t p
     \<or> standing g s t \<and> p = Pending \<and> (ws_operation (w_state t) \<noteq> None \<or> \<not> is_turn s g)
     \<or> standing g s t \<and> (\<exists>e. p = Ready (Err e))"

definition own_log :: "write_kind \<Rightarrow> byte list \<Rightarrow> ('k, 'f, 'g) write_sys \<Rightarrow> ('k, 'f, 'g) write_sys \<Rightarrow> bool" where
  "own_log kind bytes s t \<longleftrightarrow> w_log t = w_log s \<or> w_log t = w_log s @ [(kind, bytes)]"

lemma progress_log: "progress g bytes s t p \<Longrightarrow> own_log (Operation g) bytes s t"
  by (auto simp: progress_def submitted_def standing_def own_log_def)

lemma calm_log: "calm fp s t \<Longrightarrow> own_log kind bytes s t"
  by (simp add: calm_def own_log_def)

lemma is_turn_calm: "calm fp s t \<Longrightarrow> is_turn t g = is_turn s g"
  by (simp add: calm_def is_turn_def)

lemma standing_trans: "standing g s t \<Longrightarrow> standing g t u \<Longrightarrow> standing g s u"
  by (simp add: standing_def)

lemma loop_idle_progress:
  assumes "write_inv s" and "ws_operation (w_state s) = None"
    and "tracked_live s g \<and> status s g = WQueued \<or> \<not> is_tracked_write g"
  obtains t p where "poll_write_loop start fp cx g buf False s = Some (t, p)" "served fp g s t" "progress g (snd buf) s t p"
  using loop_idle [OF assms, of start fp cx buf] that unfolding progress_def by metis

lemma loop_other:
  assumes "write_inv s" and "ws_operation (w_state s) = Some op"
    and "\<not> (pw_kind op = Operation g \<and> (case pw_identity op of None \<Rightarrow> True | Some i \<Rightarrow> i = write_identity_of buf))"
    and "tracked_live s g \<and> status s g = WQueued \<or> \<not> is_tracked_write g"
  obtains t p where "poll_write_loop start fp cx g buf False s = Some (t, p)" "served fp g s t"
    "is_tracked_write g \<Longrightarrow> progress g (snd buf) s t p" "own_log (Operation g) (snd buf) s t"
proof -
  obtain u q where pp: "poll_pending fp cx s = (u, q)" by (cases "poll_pending fp cx s")
  have kept: "calm fp s v \<Longrightarrow> is_tracked_write g \<Longrightarrow> standing g s v" for v
    using assms(4) calm_status [of fp s v g] inv_status(2) [OF assms(1), of g]
    by (auto simp: standing_def calm_def)
  show thesis
  proof (cases q)
    case Pending
    with pp assms(2) have "poll_write_loop start fp cx g buf False s = Some (u, Pending)"
      by (subst poll_write_loop.simps) simp
    moreover have "calm fp s u" "ws_operation (w_state u) \<noteq> None"
      using pending_calm [OF assms(1,2), of fp cx u] pp Pending by auto
    ultimately show thesis using that [of u Pending] kept by (auto simp: progress_def calm_served calm_log)
  next
    case (Ready x)
    obtain kd i r where x: "x = (kd, i, r)" by (cases x)
    define v where "v = retain_completion kd i r (wake_ready_waiters u)"
    have v: "calm fp s v" "ws_operation (w_state v) = None"
      using retire_step [OF assms(1,2)] pp Ready x by (auto simp: v_def)
    have step: "poll_write_loop start fp cx g buf False s = (case ws_buffered_error (w_state v) of
        Some e \<Rightarrow> Some (upd (ws_buffered_error_update (\<lambda>_. None)) v, Ready (Err e))
      | None \<Rightarrow> poll_write_loop start fp cx g buf False v)"
      using pp Ready x assms(2,3) by (subst poll_write_loop.simps) (auto simp: v_def Let_def split: option.splits)
    show thesis
    proof (cases "ws_buffered_error (w_state v)")
      case (Some e)
      define t where "t = upd (ws_buffered_error_update (\<lambda>_. None)) v"
      have "calm fp v t" by (rule calm_same [OF calm_inv [OF v(1)]]) (simp_all add: t_def)
      then have "calm fp s t" by (rule calm_trans [OF v])
      then show thesis using that [of t "Ready (Err e)"] step Some kept by (simp add: t_def progress_def calm_served calm_log)
    next
      case None
      have own: "tracked_live v g \<and> status v g = WQueued \<or> \<not> is_tracked_write g"
        using assms(4) v(1) kept by (auto simp: calm_def standing_def tracked_live_def)
      obtain t p where l: "poll_write_loop start fp cx g buf False v = Some (t, p)" "served fp g v t" "progress g (snd buf) v t p"
        by (rule loop_idle_progress [OF calm_inv [OF v(1)] v(2) own])
      have "progress g (snd buf) s t p" if "is_tracked_write g"
        using l(3) kept [OF v(1) that] is_turn_calm [OF v(1)]
        by (auto simp: progress_def submitted_def standing_def)
      moreover have "own_log (Operation g) (snd buf) s t" using progress_log [OF l(3)] v(1) by (simp add: own_log_def calm_def)
      ultimately show thesis using that [of t p] step None l calm_served_trans [OF v] by simp
    qed
  qed
qed

text \<open>What a caller does before the loop.\<close>

definition write_entered :: "nat \<Rightarrow> ('k, 'f, 'g) write_sys \<Rightarrow> ('k, 'f, 'g) write_sys \<Rightarrow> bool" where
  "write_entered g s t \<longleftrightarrow> write_inv t \<and> (\<forall>h. tracked_live t h = tracked_live s h) \<and> w_log t = w_log s
     \<and> ws_operation (w_state t) = ws_operation (w_state s) \<and> w_dev t = w_dev s
     \<and> filter (\<lambda>h. h \<noteq> g) (waiting t) = filter (\<lambda>h. h \<noteq> g) (waiting s)
     \<and> (\<forall>h. tracked_live s h \<and> h \<noteq> g \<longrightarrow> status t h = status s h)"

lemma entered_served: "write_entered g s t \<Longrightarrow> served fp g t u \<Longrightarrow> served fp g s u"
  by (simp add: write_entered_def served_def undisturbed_def)

lemma entered_trans: "write_entered g s t \<Longrightarrow> write_entered g t u \<Longrightarrow> write_entered g s u"
  by (simp add: write_entered_def)

lemma entered_self: "write_entered g s t \<Longrightarrow> served fp g s t"
  by (simp add: write_entered_def served_def undisturbed_def)

lemma cleanup_entered: "write_inv s \<Longrightarrow> write_entered g s (cleanup_cancelled s)"
  using cleanup_inv [of s] waiting_clean [of s] cleanup_status [of s] by (simp add: write_entered_def)

lemma take_completed_entered:
  assumes "write_inv s" and "status s g = WFinished r" and "tracked_live s g"
  defines "t \<equiv> upd (ws_completed_update (\<lambda>m. m(g := None))) s"
  shows "write_entered g s t" "status t g = WIdle"
proof -
  have fl: "op_in_flight t h = op_in_flight s h" for h by (simp add: op_in_flight_def t_def)
  have qd: "queued t h = queued s h" for h by (simp add: queued_def t_def)
  have g: "\<not> op_in_flight s g" "\<not> queued s g" using assms(2) inv_status [OF assms(1), of g] by auto
  then show "status t g = WIdle" using fl qd by (simp add: status_def t_def)
  have "write_inv t" using assms(1) fl qd by (auto simp: write_inv_def t_def)
  moreover have "waiting t = waiting s" by (rule waiting_cong) (simp_all add: t_def)
  moreover have "status t h = status s h" if "h \<noteq> g" for h using that fl qd by (simp add: status_def t_def)
  ultimately show "write_entered g s t" by (simp add: write_entered_def t_def)
qed

lemma enqueue_tracked_entered:
  assumes "write_inv s" and "tracked_live s g" and "status s g = WIdle \<or> status s g = WQueued"
    and t_def: "t = enqueue_tracked g cx s"
  shows "write_entered g s t" "status t g = WQueued" "is_turn t g = is_turn s g"
proof -
  have g: "\<not> op_in_flight s g" "ws_completed (w_state s) g = None"
    using assms(3) by (auto simp: status_def split: option.splits if_splits)
  have t: "t = (if queued s g then upd (ws_queue_update (map (\<lambda>q. if qw_generation q = g then q\<lparr>qw_waker := cx\<rparr> else q))) s
      else upd (ws_queue_update (\<lambda>qs. qs @ [\<lparr>qw_generation = g, qw_waker = cx\<rparr>])) s)"
    using assms(2) g by (auto simp: t_def enqueue_tracked_def tracked_live_def is_live_write_def op_in_flight_def queued_def
        split: option.splits)
  have gens: "map qw_generation (ws_queue (w_state t)) =
      map qw_generation (ws_queue (w_state s)) @ (if queued s g then [] else [g])"
    by (auto simp: t)
  have qset: "queued u h \<longleftrightarrow> h \<in> set (map qw_generation (ws_queue (w_state u)))" for u :: "('a, 'b, 'c) write_sys" and h
    by (auto simp: queued_def)
  have same: "ws_operation (w_state t) = ws_operation (w_state s)" "ws_completed (w_state t) = ws_completed (w_state s)"
    "w_live t = w_live s" "w_log t = w_log s" "w_dev t = w_dev s" by (simp_all add: t)
  have fl: "op_in_flight t h = op_in_flight s h" for h by (rule in_flight_cong [OF same(1)])
  have qd: "queued t h \<longleftrightarrow> queued s h \<or> h = g" for h unfolding qset gens by (auto simp: qset)
  have live: "tracked_live t h = tracked_live s h" for h by (rule tracked_live_cong [OF same(3)])
  have w: "waiting t = waiting s @ (if queued s g then [] else [g])"
    unfolding waiting_def gens using live assms(2) by (simp cong: filter_cong)
  have tr: "is_tracked_write (qw_generation q)" if "q \<in> set (ws_queue (w_state t))" for q
  proof -
    have "qw_generation q \<in> set (map qw_generation (ws_queue (w_state t)))" using that by simp
    then show ?thesis unfolding gens using assms(1,2) by (auto simp: write_inv_def tracked_live_def split: if_splits)
  qed
  have "write_inv t"
    unfolding write_inv_def gens using tr assms(1) same g fl qd by (auto simp: write_inv_def qset)
  then show "write_entered g s t" using same live w fl qd by (simp add: write_entered_def status_def)
  show "status t g = WQueued" using g same fl qd by (simp add: status_def)
  have "hd (waiting s) \<noteq> g" if "waiting s \<noteq> []" "\<not> queued s g"
    using that hd_in_set [of "waiting s"] by (auto simp: waiting_def qset)
  then show "is_turn t g = is_turn s g" using w by (auto simp: is_turn_def hd_append split: if_splits)
qed

text \<open>The outcome of a poll, by what the write state knew of the caller.\<close>

definition write_outcome ::
  "('k, 'f, nat) future \<Rightarrow> nat \<Rightarrow> byte list \<Rightarrow> ('k, 'f, 'g) write_sys \<Rightarrow> ('k, 'f, 'g) write_sys \<Rightarrow> nat io_result poll \<Rightarrow> bool" where
  "write_outcome fp g bytes s t p \<longleftrightarrow> (case status s g of
     WFinished r \<Rightarrow> p = Ready r \<and> w_log t = w_log s \<and> status t g = WIdle
   | WInFlight \<Rightarrow> w_log t = w_log s \<and>
       (p = Pending \<and> status t g = WInFlight
        \<or> (\<exists>op k f r. ws_operation (w_state s) = Some op \<and> fp (w_dev s) (po_future (pw_operation op)) = (k, f, Ready r)
            \<and> p = Ready r \<and> status t g = WIdle))
   | _ \<Rightarrow>
       is_turn s g \<and> submitted g bytes s t p
       \<or> w_log t = w_log s \<and> status t g = WQueued \<and> p = Pending \<and> (ws_operation (w_state t) \<noteq> None \<or> \<not> is_turn s g)
       \<or> w_log t = w_log s \<and> status t g \<in> {WIdle, WQueued} \<and> (\<exists>e. p = Ready (Err e)))"

lemma poll_write_queued:
  assumes "write_inv s" and "tracked_live s g" and "status s g = WQueued"
  obtains t p where "poll_write_loop start fp cx g buf False s = Some (t, p)" "served fp g s t" "progress g (snd buf) s t p"
proof (cases "ws_operation (w_state s)")
  case None
  show thesis by (rule loop_idle_progress [OF assms(1) None]) (use assms that in auto)
next
  case (Some op)
  have "pw_kind op \<noteq> Operation g" using assms(3) Some inv_status(2) [OF assms(1), of g] by (simp add: op_in_flight_def)
  then show thesis
    using loop_other [OF assms(1) Some, of g buf start fp cx thesis] assms(2,3) that
    by (auto simp: tracked_live_def)
qed

lemma cleaned:
  assumes "write_inv s" and "tracked_live s g" and "c = cleanup_cancelled s"
  shows "write_inv c" "write_entered g s c" "status c g = status s g" "tracked_live c g" "is_turn c g = is_turn s g"
    "w_log c = w_log s" "ws_operation (w_state c) = ws_operation (w_state s)" "w_dev c = w_dev s"
  using cleanup_inv [OF assms(1)] cleanup_entered [OF assms(1)] cleanup_status [OF assms(2)] assms(2,3)
    waiting_clean [OF assms(1)] by (simp_all add: is_turn_def)

lemma not_finished: "write_inv s \<Longrightarrow> (\<And>r. status s g \<noteq> WFinished r) \<Longrightarrow> ws_completed (w_state s) g = None"
  by (metis inv_status(3) not_Some_eq)

lemma poll_write_finished:
  assumes "write_inv s" and "tracked_live s g" and "snd buf \<noteq> []" and "status s g = WFinished r"
  obtains t where "poll_write start fp cx g buf s = Some (t, Ready r)" "served fp g s t" "w_log t = w_log s" "status t g = WIdle"
proof -
  define c where "c = cleanup_cancelled s"
  note c = cleaned [OF assms(1,2) c_def]
  define t where "t = upd (ws_completed_update (\<lambda>m. m(g := None))) c"
  have fin: "status c g = WFinished r" using c(3) assms(4) by simp
  note t = take_completed_entered [OF c(1) fin c(4), folded t_def]
  have "ws_completed (w_state c) g = Some r" using fin inv_status(3) [OF c(1)] by blast
  then have "poll_write start fp cx g buf s = Some (t, Ready r)"
    using assms(3) by (simp add: poll_write_def t_def c_def Let_def del: cleanup_cancelled_simps)
  moreover have "served fp g s t" by (rule entered_self [OF entered_trans [OF c(2) t(1)]])
  ultimately show thesis using that c(6) t(2) by (simp add: t_def)
qed

lemma poll_write_in_flight:
  assumes "write_inv s" and "tracked_live s g" and "snd buf \<noteq> []" and "status s g = WInFlight"
  obtains t p where "poll_write start fp cx g buf s = Some (t, p)" "served fp g s t" "w_log t = w_log s"
    "p = Pending \<and> status t g = WInFlight
      \<or> (\<exists>op k f r. ws_operation (w_state s) = Some op \<and> fp (w_dev s) (po_future (pw_operation op)) = (k, f, Ready r)
          \<and> p = Ready r \<and> status t g = WIdle)"
proof -
  define c where "c = cleanup_cancelled s"
  note c = cleaned [OF assms(1,2) c_def]
  have none: "ws_completed (w_state c) g = None" using not_finished [OF c(1), of g] c(3) assms(4) by simp
  have "op_in_flight c g" using inv_status(2) [OF c(1)] c(3) assms(4) by simp
  then obtain op where op: "ws_operation (w_state c) = Some op" "pw_kind op = Operation g"
    by (auto simp: op_in_flight_def split: option.splits)
  have tr: "is_tracked_write g" using assms(2) by (simp add: tracked_live_def)
  have idt: "pw_identity op = None" using c(1) op tr by (simp add: write_inv_def)
  obtain t p where l: "poll_write_loop start fp cx g buf False c = Some (t, p)" "write_inv t" "w_log t = w_log c"
    "w_live t = w_live c" "ws_queue (w_state t) = ws_queue (w_state c)" "\<And>h. h \<noteq> g \<Longrightarrow> status t h = status c h"
    "p = Pending \<and> status t g = WInFlight
      \<or> (\<exists>k f r. fp (w_dev c) (po_future (pw_operation op)) = (k, f, Ready r) \<and> p = Ready r \<and> status t g = WIdle)"
    by (rule loop_own [OF c(1) op, where buf = buf and start = start and fp = fp and cx = cx and used = False]) (use idt in auto)
  have "enqueue_tracked g cx c = c" using op by (simp add: enqueue_tracked_def)
  then have "poll_write start fp cx g buf s = Some (t, p)"
    using assms(3) none op tr l(1)
    by (simp add: poll_write_def take_untracked_completion_def Let_def c_def [symmetric] del: cleanup_cancelled_simps)
  moreover have "served fp g c t"
    using l(2,6) waiting_cong [OF l(5)] tracked_live_cong [OF l(4)] by (simp add: served_def undisturbed_def)
  ultimately show thesis
    using that [of t p] entered_served [OF c(2)] l(3,7) op(1) c(6,7,8) by auto
qed

lemma poll_write_waiting:
  assumes "write_inv s" and "tracked_live s g" and "snd buf \<noteq> []" and "status s g = WIdle \<or> status s g = WQueued"
  obtains t p where "poll_write start fp cx g buf s = Some (t, p)" "served fp g s t"
    "is_turn s g \<and> submitted g (snd buf) s t p
     \<or> w_log t = w_log s \<and> status t g = WQueued \<and> p = Pending \<and> (ws_operation (w_state t) \<noteq> None \<or> \<not> is_turn s g)
     \<or> w_log t = w_log s \<and> status t g \<in> {WIdle, WQueued} \<and> (\<exists>e. p = Ready (Err e))"
proof -
  define c where "c = cleanup_cancelled s"
  note c = cleaned [OF assms(1,2) c_def]
  have none: "ws_completed (w_state c) g = None" using not_finished [OF c(1), of g] c(3) assms(4) by auto
  have tr: "is_tracked_write g" using assms(2) by (simp add: tracked_live_def)
  define e where "e = enqueue_tracked g cx c"
  note e = enqueue_tracked_entered [OF c(1,4) _ e_def, unfolded c(3), OF assms(4)]
  have ee: "write_inv e" "tracked_live e g" "w_log e = w_log c" using e(1) c(4) by (simp_all add: write_entered_def)
  obtain t p where l: "poll_write_loop start fp cx g buf False e = Some (t, p)" "served fp g e t" "progress g (snd buf) e t p"
    by (rule poll_write_queued [OF ee(1,2) e(2)])
  show thesis
  proof (cases "poll_write start fp cx g buf s = poll_write_loop start fp cx g buf False e")
    case True
    moreover have "served fp g s t" by (rule entered_served [OF entered_trans [OF c(2) e(1)] l(2)])
    ultimately show thesis
      using that [of t p] l(1,3) c(5,6) e(2,3) ee(3) by (auto simp: progress_def submitted_def standing_def)
  next
    case False
    then have "poll_write start fp cx g buf s = Some (c, Ready (Err (Io_Error BrokenPipe ''write direction is shut down'')))"
      using assms(3) none tr
      by (auto simp: poll_write_def take_untracked_completion_def Let_def c_def [symmetric] e_def
          simp del: cleanup_cancelled_simps split: if_splits)
    then show thesis using that entered_self [OF c(2)] c(3,6) assms(4) by auto
  qed
qed

lemma poll_write_outcome:
  assumes "write_inv s" and "tracked_live s g" and "snd buf \<noteq> []"
  obtains t p where "poll_write start fp cx g buf s = Some (t, p)" "served fp g s t" "write_outcome fp g (snd buf) s t p"
proof (cases "status s g")
  case WIdle
  show thesis by (rule poll_write_waiting [OF assms]) (use WIdle that in \<open>auto simp: write_outcome_def\<close>)
next
  case WQueued
  show thesis by (rule poll_write_waiting [OF assms]) (use WQueued that in \<open>auto simp: write_outcome_def\<close>)
next
  case WInFlight
  show thesis by (rule poll_write_in_flight [OF assms WInFlight]) (use WInFlight that in \<open>auto simp: write_outcome_def\<close>)
next
  case (WFinished r)
  show thesis by (rule poll_write_finished [OF assms WFinished]) (use WFinished that in \<open>auto simp: write_outcome_def\<close>)
qed

text \<open>A raw caller: it disturbs no tracked write and submits at most its own bytes.\<close>

lemma loop_untracked:
  assumes "write_inv s" and "\<not> is_tracked_write g"
  obtains t p where "poll_write_loop start fp cx g buf False s = Some (t, p)" "served fp g s t"
    "own_log (Operation g) (snd buf) s t"
proof (cases "ws_operation (w_state s)")
  case None
  show thesis
    by (rule loop_idle_progress [OF assms(1) None, of g start fp cx buf]) (use assms(2) that in \<open>auto dest: progress_log\<close>)
next
  case (Some op)
  show thesis
  proof (cases "pw_kind op = Operation g \<and> (case pw_identity op of None \<Rightarrow> True | Some i \<Rightarrow> i = write_identity_of buf)")
    case True
    then have idt: "i = write_identity_of buf" if "pw_identity op = Some i" for i using that by simp
    from True have kd: "pw_kind op = Operation g" by simp
    obtain t p where l: "poll_write_loop start fp cx g buf False s = Some (t, p)" "write_inv t"
      "w_log t = w_log s" "w_live t = w_live s" "ws_queue (w_state t) = ws_queue (w_state s)" "\<And>h. h \<noteq> g \<Longrightarrow> status t h = status s h"
      by (rule loop_own [OF assms(1) Some kd idt, where start = start and fp = fp and cx = cx and used = False]) blast+
    have "served fp g s t"
      using l(2,6) waiting_cong [OF l(5)] tracked_live_cong [OF l(4)] by (simp add: served_def undisturbed_def)
    with l(1,3) show thesis using that by (simp add: own_log_def)
  next
    case False
    show thesis by (rule loop_other [OF assms(1) Some False]) (use assms(2) that in auto)
  qed
qed

lemma poll_write_untracked:
  assumes "write_inv s" and "\<not> is_tracked_write g"
  obtains t p where "poll_write start fp cx g buf s = Some (t, p)" "served fp g s t" "own_log (Operation g) (snd buf) s t"
proof -
  define c where "c = cleanup_cancelled s"
  have c: "write_inv c" "write_entered g s c" "w_log c = w_log s"
    using cleanup_inv [OF assms(1)] cleanup_entered [OF assms(1)] by (simp_all add: c_def)
  have none: "ws_completed (w_state c) g = None" by (rule inv_untracked(2) [OF c(1) assms(2)])
  have same: "calm fp c c" by (rule calm_same [OF c(1)]) simp_all
  define d where "d = upd (ws_untracked_completed_update (\<lambda>_. None)) c"
  have d: "calm fp c d" by (rule calm_same [OF c(1)]) (simp_all add: d_def)
  have "enqueue_tracked g cx c = c" using assms(2) by (simp add: enqueue_tracked_def)
  then have "poll_write start fp cx g buf s \<in>
    {Some (s, Ready (Ok 0)), poll_write_loop start fp cx g buf False c} \<union> {Some (u, p) |u p. u = c \<or> u = d}"
    using assms(2) none
    by (auto simp: poll_write_def take_untracked_completion_def Let_def c_def [symmetric] d_def
        simp del: cleanup_cancelled_simps split: option.splits prod.splits)
  then consider "poll_write start fp cx g buf s = Some (s, Ready (Ok 0))"
    | "poll_write start fp cx g buf s = poll_write_loop start fp cx g buf False c"
    | u p where "poll_write start fp cx g buf s = Some (u, p)" "u = c \<or> u = d" by blast
  then show thesis
  proof cases
    case 1
    then show thesis using that [of s] calm_served [OF calm_same [OF assms(1)]] by (simp add: own_log_def)
  next
    case 2
    obtain t p where l: "poll_write_loop start fp cx g buf False c = Some (t, p)" "served fp g c t" "own_log (Operation g) (snd buf) c t"
      by (rule loop_untracked [OF c(1) assms(2)])
    then show thesis using that [of t p] 2 entered_served [OF c(2)] c(3) by (simp add: own_log_def)
  next
    case (3 u p)
    then have "calm fp c u" using same d by blast
    then show thesis
      using that [OF 3(1)] entered_served [OF c(2) calm_served] c(3) by (simp add: own_log_def calm_def)
  qed
qed

text \<open>Flush, shutdown and buffered writes.\<close>

lemma poll_drain_then:
  assumes "write_inv s" and "poll_drain fp cx s = (t, Ready ())"
    and "ws_operation (w_state u) = ws_operation (w_state t)" "ws_queue (w_state u) = ws_queue (w_state t)"
    "ws_completed (w_state u) = ws_completed (w_state t)" "w_live u = w_live t" "w_log u = w_log t"
  shows "calm fp s u"
proof -
  have t: "calm fp s t" "ws_operation (w_state t) = None" using poll_drain_calm [OF assms(1,2)] by auto
  have "calm fp t u" by (rule calm_same [OF calm_inv [OF t(1)]]) (use assms(3-) in \<open>simp_all add: tracked_live_def\<close>)
  then show ?thesis by (rule calm_trans [OF t])
qed

lemma write_poll_flush_calm:
  assumes "write_inv s" and "write_poll_flush fp cx s = (t, p)"
  shows "calm fp s t"
proof -
  obtain u q where d: "poll_drain fp cx s = (u, q)" by (cases "poll_drain fp cx s")
  show ?thesis
  proof (cases q)
    case Pending
    then show ?thesis using assms(2) d poll_drain_calm [OF assms(1) d] by (simp add: write_poll_flush_def)
  next
    case (Ready x)
    with d have r: "poll_drain fp cx s = (u, Ready ())" by simp
    show ?thesis
      by (rule poll_drain_then [OF assms(1) r])
        (use assms(2) r in \<open>auto simp: write_poll_flush_def take_buffered_error_def take_untracked_error_def
          split: option.splits sum.splits\<close>)
  qed
qed

lemma write_poll_shutdown_calm:
  assumes "write_inv s" and "write_poll_shutdown shared sstart sfp fp cx s = (t, p)"
  shows "calm fp s t"
proof -
  define v where "v = upd (ws_shutdown_update (\<lambda>d. d\<lparr>ds_requested := True\<rparr>)) s"
  have v: "write_inv v" using assms(1) write_inv_cong [of v s] by (simp add: v_def)
  obtain u q where d: "poll_drain fp cx v = (u, q)" by (cases "poll_drain fp cx v")
  have "calm fp v t"
  proof (cases q)
    case Pending
    then show ?thesis using assms(2) d poll_drain_calm [OF v d] by (simp add: write_poll_shutdown_def v_def)
  next
    case (Ready x)
    with d have r: "poll_drain fp cx v = (u, Ready ())" by simp
    show ?thesis
      by (rule poll_drain_then [OF v r])
        (use assms(2) r in \<open>auto simp: write_poll_shutdown_def v_def take_buffered_error_def Let_def
          split: option.splits prod.splits\<close>)
  qed
  moreover have "status v h = status s h" for h by (rule status_cong) (simp_all add: v_def)
  moreover have "waiting v = waiting s" by (rule waiting_cong) (simp_all add: v_def)
  ultimately show ?thesis by (simp add: calm_def undisturbed_def) (simp add: v_def)
qed

lemma poll_buffered_write_served:
  assumes "write_inv s" and "poll_buffered_write start fp cx bytes s = (t, p)"
  shows "served fp 0 s t \<and> own_log Buffered bytes s t"
proof -
  have refl: "calm fp s s" by (rule calm_same [OF assms(1)]) simp_all
  obtain u q where d: "poll_drain fp cx s = (u, q)" by (cases "poll_drain fp cx s")
  have u: "calm fp s u" "q = Ready () \<Longrightarrow> ws_operation (w_state u) = None" "q = Ready () \<Longrightarrow> ws_queue (w_state u) = []"
    using poll_drain_calm [OF assms(1) d] by auto
  consider "calm fp s t"
    | "q = Ready ()" "ws_queue (w_state t) = []" "ws_completed (w_state t) = ws_completed (w_state u)" "w_live t = w_live u"
      "w_log t = w_log u @ [(Buffered, bytes)]"
      "ws_operation (w_state t) = None \<or> (\<exists>op. ws_operation (w_state t) = Some op \<and> pw_kind op = Buffered)"
  proof (cases "bytes = [] \<or> ds_requested (ws_shutdown (w_state s)) \<or> q = Pending \<or> ws_buffered_error (w_state u) \<noteq> None")
    case True
    have "calm fp s (upd (ws_buffered_error_update (\<lambda>_. None)) u)" if "q = Ready ()"
      by (rule poll_drain_then [OF assms(1) d [unfolded that]]) simp_all
    with True have "calm fp s t" using assms(2) d u(1) refl
      by (cases q) (auto simp: poll_buffered_write_def take_buffered_error_def split: if_splits option.splits)
    then show thesis by (rule that)
  next
    case False
    then have "q = Ready ()" by (cases q) auto
    with False show thesis using assms(2) d u that(2)
      by (auto simp: poll_buffered_write_def take_buffered_error_def Let_def split: prod.splits poll.splits sum.splits)
  qed
  then show ?thesis
  proof cases
    case 1
    then show ?thesis by (simp add: calm_served calm_log)
  next
    case 2
    have fl: "\<not> op_in_flight t h" "\<not> op_in_flight u h" for h using 2 u(2) by (auto simp: op_in_flight_def)
    have qd: "\<not> queued t h" "\<not> queued u h" for h using 2 u(3) by (auto simp: queued_def)
    have "write_inv t" using calm_inv [OF u(1)] 2 fl qd by (auto simp: write_inv_def)
    moreover have "status t h = status u h" for h using 2(3) fl qd by (simp add: status_def)
    ultimately have "served fp 0 u t"
      using 2 u(2,3) by (intro submit_served [OF calm_inv [OF u(1)]]) auto
    then show ?thesis using calm_served_trans [OF u(1) u(2)] 2 u(1) by (simp add: own_log_def calm_def)
  qed
qed

subsection \<open>Interleavings of every caller of a shared write state\<close>

text \<open>
  A run of the write state as its clones see it: polls of tracked writes, polls of raw ones, flushes,
  shutdowns, buffered writes, new tokens, dropped tokens and steps of the device, in any order. The run
  follows one live generation \<open>g\<close>, whose token it does not drop, and collects what the polls of \<open>g\<close> return.
\<close>

definition delivered :: "nat \<Rightarrow> nat \<Rightarrow> nat io_result poll \<Rightarrow> nat io_result list" where
  "delivered g h p = (case p of Ready r \<Rightarrow> if h = g then [r] else [] | Pending \<Rightarrow> [])"

text \<open>The driver finishes something and wakes the broadcast waker of the operation in flight.\<close>

definition driver_wake :: "'k \<Rightarrow> ('k, 'f, 'g) write_sys \<Rightarrow> ('k, 'f, 'g) write_sys" where
  "driver_wake k s = (let s = s\<lparr>w_dev := k\<rparr> in case ws_operation (w_state s) of
     None \<Rightarrow> s
   | Some op \<Rightarrow> (let (o', woken) = broadcast_wake (pw_operation op) in
       wake woken (upd (ws_operation_update (\<lambda>_. Some (op\<lparr>pw_operation := o'\<rparr>))) s)))"

inductive write_run ::
  "('k \<Rightarrow> byte list \<Rightarrow> 'k \<times> 'f) \<Rightarrow> ('k, 'f, nat) future \<Rightarrow> nat \<Rightarrow> ('k, 'f, 'g) write_sys \<Rightarrow> nat io_result list \<Rightarrow>
   ('k, 'f, 'g) write_sys \<Rightarrow> bool" for start fp g where
  write_run_refl: "write_run start fp g s [] s"
| write_run_poll: "write_run start fp g s rs t \<Longrightarrow> tracked_live t h \<Longrightarrow> snd buf \<noteq> [] \<Longrightarrow>
    poll_write start fp cx h buf t = Some (u, p) \<Longrightarrow> write_run start fp g s (rs @ delivered g h p) u"
| write_run_raw: "write_run start fp g s rs t \<Longrightarrow> \<not> is_tracked_write h \<Longrightarrow>
    poll_write start fp cx h buf t = Some (u, p) \<Longrightarrow> write_run start fp g s rs u"
| write_run_flush: "write_run start fp g s rs t \<Longrightarrow> write_poll_flush fp cx t = (u, q) \<Longrightarrow> write_run start fp g s rs u"
| write_run_shutdown: "write_run start fp g s rs t \<Longrightarrow> write_poll_shutdown shared sstart sfp fp cx t = (u, q) \<Longrightarrow>
    write_run start fp g s rs u"
| write_run_buffered: "write_run start fp g s rs t \<Longrightarrow> poll_buffered_write start fp cx bytes t = (u, p) \<Longrightarrow>
    write_run start fp g s rs u"
| write_run_new: "write_run start fp g s rs t \<Longrightarrow> write_operation_new t = (u, h) \<Longrightarrow> write_run start fp g s rs u"
| write_run_drop: "write_run start fp g s rs t \<Longrightarrow> h \<noteq> g \<Longrightarrow> write_run start fp g s rs (write_operation_drop h t)"
| write_run_device: "write_run start fp g s rs t \<Longrightarrow> write_run start fp g s rs (t\<lparr>w_dev := k\<rparr>)"
| write_run_wake: "write_run start fp g s rs t \<Longrightarrow> write_run start fp g s rs (driver_wake k t)"

definition submissions :: "('k, 'f, 'g) write_sys \<Rightarrow> nat \<Rightarrow> nat" where
  "submissions s g = length (filter (\<lambda>e. fst e = Operation g) (w_log s))"

definition owed :: "('k, 'f, 'g) write_sys \<Rightarrow> nat \<Rightarrow> nat" where
  "owed s g = (case status s g of WInFlight \<Rightarrow> 1 | WFinished _ \<Rightarrow> 1 | _ \<Rightarrow> 0)"

definition ok_count :: "nat io_result list \<Rightarrow> nat" where
  "ok_count rs = length (filter (\<lambda>r. case r of Inr _ \<Rightarrow> True | Inl _ \<Rightarrow> False) rs)"

lemma ok_count_append [simp]: "ok_count (xs @ ys) = ok_count xs + ok_count ys"
  by (simp add: ok_count_def)

lemma ok_count_simps [simp]: "ok_count [] = 0" "ok_count [Err e] = 0" "ok_count [r] \<le> Suc 0"
  by (simp_all add: ok_count_def)

text \<open>A poll of \<open>g\<close> balances its submissions against what it returns and what is still owed.\<close>

lemma outcome_balance:
  assumes "write_outcome fp g bytes s t p"
  shows "submissions t g + owed s g \<le> submissions s g + length (delivered g g p) + owed t g
    \<and> submissions s g + ok_count (delivered g g p) + owed t g \<le> submissions t g + owed s g"
  using assms
  by (cases "status s g") (auto simp: write_outcome_def submitted_def submissions_def owed_def delivered_def)

lemma undisturbed_owed:
  assumes "undisturbed fp s t g"
  shows "owed t g = owed s g"
  using assms unfolding undisturbed_def
proof (elim disjE exE conjE)
  fix op k f r
  assume "ws_operation (w_state s) = Some op" "pw_kind op = Operation g" "status t g = WFinished r"
  moreover from this have "status s g = WInFlight" by (simp add: status_def op_in_flight_def)
  ultimately show ?thesis by (simp add: owed_def)
qed (simp add: owed_def)

lemma other_submissions: "own_log kind bytes s t \<Longrightarrow> kind \<noteq> Operation g \<Longrightarrow> submissions t g = submissions s g"
  by (auto simp: own_log_def submissions_def)

lemma outcome_own_log: "write_outcome fp h bytes s t p \<Longrightarrow> own_log (Operation h) bytes s t"
  by (auto simp: write_outcome_def submitted_def own_log_def split: write_status.splits)

definition accounted :: "nat \<Rightarrow> nat \<Rightarrow> nat io_result list \<Rightarrow> ('k, 'f, 'g) write_sys \<Rightarrow> bool" where
  "accounted g n rs t \<longleftrightarrow> submissions t g \<le> n + length rs + owed t g \<and> n + ok_count rs + owed t g \<le> submissions t g"

lemma served_accounted:
  assumes "served fp h s t" and "own_log kind bytes s t" and "kind \<noteq> Operation g" and "h \<noteq> g" and "tracked_live s g"
    and "accounted g n rs s"
  shows "accounted g n rs t"
  using assms undisturbed_owed [of fp s t g] other_submissions [OF assms(2,3)]
  by (simp add: accounted_def served_def)

lemma calm_accounted: "calm fp s t \<Longrightarrow> tracked_live s g \<Longrightarrow> accounted g n rs s \<Longrightarrow> accounted g n rs t"
  by (rule served_accounted [OF calm_served [where g = "Suc g"] calm_log [where kind = Buffered and bytes = "[]"]]) auto

lemma same_accounted:
  assumes "w_state t = w_state s" and "w_log t = w_log s"
  shows "accounted g n rs t = accounted g n rs s" "write_inv t = write_inv s"
  using assms status_cong [of t s g] write_inv_cong [of t s] by (simp_all add: accounted_def submissions_def owed_def)

lemma driver_wake_same:
  "submissions (driver_wake k s) g = submissions s g" "status (driver_wake k s) h = status s h"
  "tracked_live (driver_wake k s) h = tracked_live s h" "write_inv (driver_wake k s) = write_inv s"
proof -
  let ?t = "driver_wake k s"
  have t: "ws_queue (w_state ?t) = ws_queue (w_state s)" "ws_completed (w_state ?t) = ws_completed (w_state s)"
    "w_live ?t = w_live s" "w_log ?t = w_log s"
    "ws_operation (w_state ?t) = map_option (\<lambda>op. op\<lparr>pw_operation := fst (broadcast_wake (pw_operation op))\<rparr>) (ws_operation (w_state s))"
    by (simp_all add: driver_wake_def Let_def split: option.split prod.split)
  have fl: "op_in_flight ?t h = op_in_flight s h" for h using t(5) by (simp add: op_in_flight_def split: option.splits)
  have qd: "queued ?t h = queued s h" for h by (rule queued_cong [OF t(1)])
  show "submissions ?t g = submissions s g" "status ?t h = status s h" "tracked_live ?t h = tracked_live s h"
    using t fl qd by (simp_all add: submissions_def status_def tracked_live_def)
  show "write_inv ?t = write_inv s" using t fl qd by (simp add: write_inv_def split: option.splits)
qed

lemma write_run_accounted:
  assumes "write_run start fp g s rs t" and "write_inv s" and "tracked_live s g" and "status s g = WIdle"
  shows "write_inv t \<and> tracked_live t g \<and> accounted g (submissions s g) rs t"
  using assms
proof (induction rule: write_run.induct)
  case (write_run_refl s)
  then show ?case by (simp add: accounted_def owed_def)
next
  case (write_run_poll s rs t h buf cx u p)
  then have t: "write_inv t" "tracked_live t g" "accounted g (submissions s g) rs t" by auto
  from write_run_poll.hyps(4) have u: "served fp h t u" "write_outcome fp h (snd buf) t u p"
    using poll_write_outcome [OF t(1) write_run_poll.hyps(2,3), of start fp cx] by (metis option.inject prod.inject)+
  show ?case
  proof (cases "h = g")
    case True
    then show ?thesis using outcome_balance [of fp g "snd buf" t u p] t u by (simp add: accounted_def served_def)
  next
    case False
    then have "delivered g h p = []" by (simp add: delivered_def split: poll.splits)
    then show ?thesis
      using served_accounted [OF u(1) outcome_own_log [OF u(2)] _ False t(2,3)] False u(1) t(2) by (simp add: served_def)
  qed
next
  case (write_run_raw s rs t h cx buf u p)
  then have t: "write_inv t" "tracked_live t g" "accounted g (submissions s g) rs t" by auto
  have h: "h \<noteq> g" using write_run_raw.hyps(2) t(2) by (auto simp: tracked_live_def)
  from write_run_raw.hyps(3) have u: "served fp h t u" "own_log (Operation h) (snd buf) t u"
    using poll_write_untracked [OF t(1) write_run_raw.hyps(2), of start fp cx buf] by (metis option.inject prod.inject)+
  then show ?case using served_accounted [OF u _ h t(2,3)] h t(2) by (simp add: served_def)
next
  case (write_run_flush s rs t cx u q)
  then have t: "write_inv t" "tracked_live t g" "accounted g (submissions s g) rs t" by auto
  have c: "calm fp t u" by (rule write_poll_flush_calm [OF t(1) write_run_flush.hyps(2)])
  then show ?case using calm_accounted [OF c t(2,3)] t(2) by (simp add: calm_def)
next
  case (write_run_shutdown s rs t shared sstart sfp cx u q)
  then have t: "write_inv t" "tracked_live t g" "accounted g (submissions s g) rs t" by auto
  have c: "calm fp t u" by (rule write_poll_shutdown_calm [OF t(1) write_run_shutdown.hyps(2)])
  then show ?case using calm_accounted [OF c t(2,3)] t(2) by (simp add: calm_def)
next
  case (write_run_buffered s rs t cx bytes u p)
  then have t: "write_inv t" "tracked_live t g" "accounted g (submissions s g) rs t" by auto
  have g: "0 \<noteq> g" using t(2) by (cases g) (simp_all add: tracked_live_def is_tracked_write_def)
  have "served fp 0 t u" "own_log Buffered bytes t u"
    using poll_buffered_write_served [OF t(1) write_run_buffered.hyps(2)] by auto
  then show ?case using served_accounted [of fp 0 t u Buffered bytes g] t g by (simp add: served_def)
next
  case (write_run_new s rs t u h)
  then have "w_state u = w_state t" "w_log u = w_log t" "tracked_live t g \<Longrightarrow> tracked_live u g"
    by (auto simp: write_operation_new_def tracked_live_def Let_def split: prod.splits)
  then show ?case using same_accounted [of u t] write_run_new by simp
next
  case (write_run_drop s rs t h)
  have "w_state (write_operation_drop h t) = w_state t" "w_log (write_operation_drop h t) = w_log t"
    "tracked_live (write_operation_drop h t) g = tracked_live t g"
    using write_run_drop.hyps(2) by (auto simp: write_operation_drop_def tracked_live_def Let_def split: option.splits)
  then show ?case using same_accounted [of "write_operation_drop h t" t] write_run_drop by simp
next
  case (write_run_device s rs t k)
  then show ?case using same_accounted [of "t\<lparr>w_dev := k\<rparr>" t] by (simp add: tracked_live_def)
next
  case (write_run_wake s rs t k)
  then show ?case by (simp add: driver_wake_same accounted_def owed_def)
qed

text \<open>A small device for concrete runs: the state counts the completions the device has delivered, a submitted
  operation remembers how many came before it, and it is complete when one more has.\<close>

definition tick_start :: "nat \<Rightarrow> byte list \<Rightarrow> nat \<times> (nat \<times> nat)" where
  "tick_start k bytes = (k, (k, length bytes))"

definition tick_poll :: "(nat, nat \<times> nat, nat) future" where
  "tick_poll k f = (if fst f < k then (k, f, Ready (Ok (snd f))) else (k, f, Pending))"

definition write_sys_new :: "(nat, nat \<times> nat, unit) write_sys" where
  "write_sys_new = \<lparr>w_dev = 0, w_live = Map.empty, w_next = 1, w_state = write_state_new, w_log = [], w_woken = []\<rparr>"

text \<open>A write shared by several handles is served in order and never repeated. A poll of a live tracked
  write returns without panicking. It leaves every other live write as it was, in its place of the queue, except
  that a completion found for another write is kept for that write. For the caller: a kept completion is
  returned and nothing is submitted; while the operation is in flight nothing is submitted and the poll is
  pending or returns the operation's own result; otherwise the caller's bytes are submitted only if it is the
  oldest live waiter, and else it waits, queued, or is refused with an error.
\<close>

theorem write_served_in_order:
  assumes "write_inv s" and "tracked_live s g" and "snd buf \<noteq> []"
  shows "\<exists>t p. poll_write start fp cx g buf s = Some (t, p) \<and> write_inv t
    \<and> (\<forall>h. tracked_live s h \<and> h \<noteq> g \<longrightarrow> undisturbed fp s t h)
    \<and> filter (\<lambda>h. h \<noteq> g) (waiting t) = filter (\<lambda>h. h \<noteq> g) (waiting s)
    \<and> write_outcome fp g (snd buf) s t p"
  by (rule poll_write_outcome [OF assms, of start fp cx]) (auto simp: served_def)

text \<open>(C13) Every tracked write of a shared handle is submitted once per result, whatever the other users of the
  handle do: in every interleaving of polls, raw polls, flushes, shutdowns, buffered writes, new and
  dropped tokens and device steps, the operations submitted for a live write are at most the results its polls
  returned and the one still owed to it, and at least the successful ones and the one owed.
\<close>

theorem write_exactly_once:
  assumes "write_run start fp g s rs t" and "write_inv s" and "tracked_live s g" and "status s g = WIdle"
    and "submissions s g = 0"
  shows "submissions t g \<le> length rs + owed t g \<and> ok_count rs + owed t g \<le> submissions t g"
  using write_run_accounted [OF assms(1-4)] assms(5) by (simp add: accounted_def)

subsection \<open>Concrete runs\<close>

datatype write_action = Poll_Write nat waker wbuf | Drain | Drop_Write nat | Tick

fun play :: "write_action list \<Rightarrow> (nat, nat \<times> nat, unit) write_sys \<Rightarrow>
    (nat io_result poll list \<times> (nat, nat \<times> nat, unit) write_sys) panics" where
  "play [] s = Some ([], s)"
| "play (Poll_Write g cx buf # as) s = (case poll_write tick_start tick_poll cx g buf s of
     None \<Rightarrow> panic
   | Some (s, p) \<Rightarrow> map_option (\<lambda>(ps, s). (p # ps, s)) (play as s))"
| "play (Drain # as) s = play as (fst (poll_drain tick_poll 0 s))"
| "play (Drop_Write g # as) s = play as (write_operation_drop g s)"
| "play (Tick # as) s = play as (driver_wake (Suc (w_dev s)) s)"

definition tok :: "nat \<Rightarrow> nat" where
  "tok i = i + TRACKED_WRITE_BIT"

lemma tok_eq [simp]: "tok i = tok j \<longleftrightarrow> i = j"
  by (simp add: tok_def)

lemma tracked_tok [simp]:
  "is_tracked_write (tok 1)" "is_tracked_write (tok (Suc 0))" "is_tracked_write (tok 2)" "is_tracked_write (tok 3)"
  "is_tracked_write (tok 4)"
  by (simp_all add: tok_def is_tracked_write_def TRACKED_WRITE_BIT_def)

lemma untracked_zero [simp]: "\<not> is_tracked_write 0"
  by (simp add: is_tracked_write_def)

lemma next_operation_id_small: "0 < i \<Longrightarrow> i < 2 ^ 63 \<Longrightarrow> next_operation_id i = (i, Suc i)"
  by (subst next_operation_id.simps) (simp add: TRACKED_WRITE_BIT_def wrapping_succ_def u64_modulus_def)

text \<open>Four tokens on a fresh write state.\<close>

definition four :: "(nat, nat \<times> nat, unit) write_sys" where
  "four = \<lparr>w_dev = 0, w_live = [tok 1 \<mapsto> [], tok 2 \<mapsto> [], tok 3 \<mapsto> [], tok 4 \<mapsto> []], w_next = 5, w_state = write_state_new,
     w_log = [], w_woken = []\<rparr>"

lemma four_reached:
  "four = (fst \<circ> write_operation_new \<circ> fst \<circ> write_operation_new \<circ> fst \<circ> write_operation_new \<circ> fst \<circ> write_operation_new)
     write_sys_new"
  by (simp add: write_operation_new_def write_sys_new_def four_def tok_def numeral_2_eq_2 [symmetric] Let_def next_operation_id_small)

lemma four_inv [simp]: "write_inv four" "tracked_live four (tok 1)" "tracked_live four (tok (Suc 0))" "tracked_live four (tok 2)" "status four g = WIdle"
  "submissions four g = 0"
  by (simp_all add: four_def write_inv_def write_state_new_def queued_def op_in_flight_def tracked_live_def status_def submissions_def)

lemmas write_eval = poll_write_def cleanup_cancelled_def is_live_write_def take_untracked_completion_def enqueue_tracked_def
  poll_write_loop.simps poll_drain.simps poll_pending_def pending_operation_poll_def pending_operation_new_def ws_register_def
  ws_wake_all_def wake_ready_waiters_def retain_completion_def submit_def register_write_cancellation_waker_def
  write_operation_drop_def driver_wake_def broadcast_wake_def tick_start_def tick_poll_def wake_def upd_def
  write_identity_of_def direction_shutdown_new_def write_state_new_def Let_def

text \<open>
  Four writers share a handle. The first one's operation completes; the third and the fourth are polled before the
  second, and both register on the second's token only. The second submits, finishes and keeps its token
  (a copy or a buffered writer does); the third submits and is dropped while its operation is in flight.
\<close>

definition stranding_run :: "write_action list" where
  "stranding_run =
    [Poll_Write (tok 1) 1 (10, [1]), Poll_Write (tok 2) 2 (20, [2]), Poll_Write (tok 3) 3 (30, [3]), Poll_Write (tok 4) 4 (40, [4]),
     Tick, Poll_Write (tok 3) 3 (30, [3]), Poll_Write (tok 4) 4 (40, [4])]"

definition stranding_rest :: "write_action list" where
  "stranding_rest =
    [Poll_Write (tok 2) 2 (20, [2]), Poll_Write (tok 1) 1 (10, [1]),
     Tick, Poll_Write (tok 2) 2 (20, [2]), Poll_Write (tok 3) 3 (30, [3]), Drop_Write (tok 3), Tick]"

text \<open>Then the fourth is the only one that waits and the operation in flight is complete, but its waker has not
  been woken since its last poll and no waker is left on the operation.\<close>

theorem queued_write_stranded:
  "\<exists>ps s qs t op r. play stranding_run four = Some (ps, s) \<and> last ps = Pending \<and> play stranding_rest s = Some (qs, t)
     \<and> waiting t = [tok 4] \<and> 4 \<notin> set (drop (length (w_woken s)) (w_woken t))
     \<and> ws_operation (w_state t) = Some op \<and> po_waiters (pw_operation op) = []
     \<and> snd (snd (tick_poll (w_dev t) (po_future (pw_operation op)))) = Ready r"
  by (simp add: stranding_run_def stranding_rest_def four_def write_eval waiting_def tracked_live_def)

text \<open>A raw write is abandoned, and a raw write of other bytes from the same allocation is answered with the
  abandoned one's byte count: its own bytes are never submitted.\<close>

theorem abandoned_count_credited:
  "\<exists>t. play [Poll_Write 0 1 (100, [1, 2]), Tick, Poll_Write 0 1 (100, [7, 8])] write_sys_new = Some ([Pending, Ready (Ok 2)], t)
     \<and> w_log t = [(Operation 0, [1, 2])]"
  by (simp add: write_sys_new_def write_eval)

subsection \<open>Instances\<close>

theorem write_served_in_order_witness:
  "\<exists>t p. poll_write tick_start tick_poll 7 (tok 2) (20, [5]) four = Some (t, p) \<and> write_inv t
     \<and> write_outcome tick_poll (tok 2) [5] four t p \<and> undisturbed tick_poll four t (tok 1)"
  using write_served_in_order [of four "tok 2" "(20, [5])" tick_start tick_poll 7] by auto

lemma four_run:
  "\<exists>t. write_run tick_start tick_poll (tok 1) four [Ok 1] t \<and> owed t (tok 1) = 0"
proof -
  obtain t1 where t1: "poll_write tick_start tick_poll 7 (tok 1) (10, [5]) four = Some (t1, Pending)"
    "w_live t1 (tok 1) = Some []" "w_dev t1 = 0" "ws_shutdown (w_state t1) = direction_shutdown_new"
    "ws_completed (w_state t1) = Map.empty" "ws_queue (w_state t1) = []"
    "ws_operation (w_state t1) = Some \<lparr>pw_kind = Operation (tok 1), pw_identity = None,
      pw_operation = \<lparr>po_future = (0, 1), po_waiters = [7]\<rparr>\<rparr>"
    by (simp add: four_def write_eval)
  define t2 where "t2 = driver_wake 1 t1"
  have t2: "w_live t2 (tok 1) = Some []" "w_dev t2 = 1" "ws_completed (w_state t2) = Map.empty" "ws_queue (w_state t2) = []"
    "ws_shutdown (w_state t2) = direction_shutdown_new"
    "ws_operation (w_state t2) = Some \<lparr>pw_kind = Operation (tok 1), pw_identity = None,
      pw_operation = \<lparr>po_future = (0, 1), po_waiters = []\<rparr>\<rparr>"
    using t1 by (simp_all add: t2_def driver_wake_def broadcast_wake_def ws_wake_all_def)
  obtain t3 where t3: "poll_write tick_start tick_poll 7 (tok 1) (10, [5]) t2 = Some (t3, Ready (Ok 1))"
    "ws_operation (w_state t3) = None" "ws_completed (w_state t3) (tok 1) = None"
    using t2 by (simp add: write_eval)
  have "write_run tick_start tick_poll (tok 1) four [] t1"
    using write_run_poll [OF write_run_refl _ _ t1(1), of "tok 1"] by (simp add: delivered_def)
  then have "write_run tick_start tick_poll (tok 1) four [] t2" unfolding t2_def by (rule write_run_wake)
  from write_run_poll [OF this _ _ t3(1)] have "write_run tick_start tick_poll (tok 1) four [Ok 1] t3"
    using t2(1) by (simp add: delivered_def tracked_live_def)
  moreover have "owed t3 (tok 1) = 0" using t3 by (simp add: owed_def status_def op_in_flight_def)
  ultimately show ?thesis by blast
qed

theorem write_exactly_once_witness:
  "\<exists>t. write_run tick_start tick_poll (tok 1) four [Ok 1] t \<and> submissions t (tok 1) = 1"
proof -
  obtain t where t: "write_run tick_start tick_poll (tok 1) four [Ok 1] t" "owed t (tok 1) = 0" using four_run by blast
  from write_exactly_once [OF t(1)] t show ?thesis by (intro exI [of _ t]) (simp add: ok_count_def)
qed

end
