(* ===== verification/File_Cursor.thy ===== *)
theory File_Cursor
  imports Pending_Write
begin

text \<open>
  \<open>CursorState\<close> of \<open>src/src/io/pending.rs\<close> and the sequential side of \<open>File\<close> in \<open>src/src/fs.rs\<close>: reads,
  writes, flushes and seeks on a cursor that the kernel keeps and that every clone of the file shares.

  A state is the read state beside a \<open>write_sys\<close>, whose device is the file. Reads run ahead of their
  callers, so the kernel's cursor may be behind the bytes that were retained; \<open>reconcile_read\<close> moves it back
  before a write or a seek. The system call \<open>lseek\<close> and the futures that the driver completes are parameters.
\<close>

subsection \<open>Seeking\<close>

datatype whence = SEEK_SET | SEEK_END | SEEK_CUR

text \<open>The cast of an unsigned to a signed 64-bit integer.\<close>

definition as_off_t :: "nat \<Rightarrow> int" where
  "as_off_t n = (if n mod u64_modulus < 2 ^ 63 then int (n mod u64_modulus) else int (n mod u64_modulus) - int u64_modulus)"

text \<open>\<open>lseek\<close> gives the new offset, or a negative number and the error code.\<close>

type_synonym 'k lseek = "'k \<Rightarrow> whence \<Rightarrow> int \<Rightarrow> 'k \<times> int \<times> int"

definition seek :: "'k lseek \<Rightarrow> 'k \<Rightarrow> seek_from \<Rightarrow> 'k \<times> nat io_result" where
  "seek lseek k pos =
     (let (whence, offset) = (case pos of
            Start n \<Rightarrow> (SEEK_SET, as_off_t n)
          | End n \<Rightarrow> (SEEK_END, n)
          | Current n \<Rightarrow> (SEEK_CUR, n));
          (k, result, errno) = lseek k whence offset in
      (k, if result < 0 then Err (Os_Error errno) else Ok (nat result)))"

definition rewind_file_cursor :: "'k lseek \<Rightarrow> 'k \<Rightarrow> nat \<Rightarrow> 'k \<times> unit io_result" where
  "rewind_file_cursor lseek k bytes =
     (if bytes = 0 then (k, Ok ())
      else if 2 ^ 63 \<le> bytes then (k, Err (Io_Error InvalidInput ''retained read overflow exceeds seek range''))
      else case seek lseek k (Current (- int bytes)) of
        (k, Inr _) \<Rightarrow> (k, Ok ())
      | (k, Inl e) \<Rightarrow> (k, Err e))"

subsection \<open>\<open>CursorState\<close>\<close>

record ('k, 'f, 'h, 'g) cursor_state =
  cs_read :: "('f, 'g) read_state"
  cs_write :: "('k, 'h, 'g) write_sys"

definition reconcile_read ::
  "('k, 'f, byte list) future \<Rightarrow> ('k \<Rightarrow> nat \<Rightarrow> 'k \<times> unit io_result) \<Rightarrow> waker \<Rightarrow> ('k, 'f, 'h, 'g) cursor_state \<Rightarrow>
   (('k, 'f, 'h, 'g) cursor_state \<times> unit io_result poll) panics" where
  "reconcile_read rpoll rewind cx s = do {
     (k, r, p, woken) \<leftarrow> read_poll_reconcile rpoll cx (w_dev (cs_write s)) (cs_read s);
     let w = wake woken ((cs_write s)\<lparr>w_dev := k\<rparr>);
     let s = s\<lparr>cs_read := r, cs_write := w\<rparr>;
     Some (case p of
       Ready (Inr bytes) \<Rightarrow> (let (k, q) = rewind k bytes in (s\<lparr>cs_write := w\<lparr>w_dev := k\<rparr>\<rparr>, Ready q))
     | Ready (Inl e) \<Rightarrow> (s, Ready (Err e))
     | Pending \<Rightarrow> (s, Pending)) }"

definition cursor_poll_read_slice ::
  "('k \<Rightarrow> nat \<Rightarrow> 'k \<times> 'f) \<Rightarrow> ('k, 'f, byte list) future \<Rightarrow> ('k, 'h, nat) future \<Rightarrow> waker \<Rightarrow>
   ('k, 'f, 'h, 'g) cursor_state reader" where
  "cursor_poll_read_slice rstart rpoll wpoll cx s buf = (case poll_drain wpoll cx (cs_write s) of
     (w, Pending) \<Rightarrow> Some (s\<lparr>cs_write := w\<rparr>, buf, Pending)
   | (w, Ready _) \<Rightarrow> do {
       (k, r, bytes, p, woken) \<leftarrow> poll_with rstart rpoll cx (length buf) (w_dev w) (cs_read s);
       buf \<leftarrow> copy_into buf bytes;
       Some (s\<lparr>cs_read := r, cs_write := wake woken (w\<lparr>w_dev := k\<rparr>)\<rparr>, buf, p) })"

definition cursor_poll_write ::
  "('k \<Rightarrow> byte list \<Rightarrow> 'k \<times> 'h) \<Rightarrow> ('k, 'h, nat) future \<Rightarrow> ('k, 'f, byte list) future \<Rightarrow>
   ('k \<Rightarrow> nat \<Rightarrow> 'k \<times> unit io_result) \<Rightarrow> waker \<Rightarrow> nat \<Rightarrow> wbuf \<Rightarrow> ('k, 'f, 'h, 'g) cursor_state \<Rightarrow>
   (('k, 'f, 'h, 'g) cursor_state \<times> nat io_result poll) panics" where
  "cursor_poll_write wstart wpoll rpoll rewind cx generation buf s = do {
     (s, p) \<leftarrow> reconcile_read rpoll rewind cx s;
     case p of
       Ready (Inr _) \<Rightarrow> do {
         (w, q) \<leftarrow> poll_write wstart wpoll cx generation buf (cs_write s);
         Some (s\<lparr>cs_write := w\<rparr>, q) }
     | Ready (Inl e) \<Rightarrow> Some (s, Ready (Err e))
     | Pending \<Rightarrow> Some (s, Pending) }"

definition cursor_poll_flush ::
  "('k, 'h, nat) future \<Rightarrow> waker \<Rightarrow> ('k, 'f, 'h, 'g) cursor_state \<Rightarrow> ('k, 'f, 'h, 'g) cursor_state \<times> unit io_result poll" where
  "cursor_poll_flush wpoll cx s = (let (w, p) = write_poll_flush wpoll cx (cs_write s) in (s\<lparr>cs_write := w\<rparr>, p))"

definition cursor_poll_reconcile ::
  "('k, 'h, nat) future \<Rightarrow> ('k, 'f, byte list) future \<Rightarrow> ('k \<Rightarrow> nat \<Rightarrow> 'k \<times> unit io_result) \<Rightarrow> waker \<Rightarrow>
   ('k, 'f, 'h, 'g) cursor_state \<Rightarrow> (('k, 'f, 'h, 'g) cursor_state \<times> unit io_result poll) panics" where
  "cursor_poll_reconcile wpoll rpoll rewind cx s = do {
     (s, p) \<leftarrow> reconcile_read rpoll rewind cx s;
     case p of
       Ready (Inr _) \<Rightarrow>
         (let (w, q) = poll_drain wpoll cx (cs_write s) in
          Some (s\<lparr>cs_write := w\<rparr>, case q of Ready _ \<Rightarrow> Ready (Ok ()) | Pending \<Rightarrow> Pending))
     | Ready (Inl e) \<Rightarrow> Some (s, Ready (Err e))
     | Pending \<Rightarrow> Some (s, Pending) }"

subsection \<open>\<open>File\<close>\<close>

definition file_poll_read ::
  "('k \<Rightarrow> nat \<Rightarrow> 'k \<times> 'f) \<Rightarrow> ('k, 'f, byte list) future \<Rightarrow> ('k, 'h, nat) future \<Rightarrow> waker \<Rightarrow>
   ('k, 'f, 'h, 'g) cursor_state reader" where
  "file_poll_read rstart rpoll wpoll cx s buf =
     (if buf = [] then Some (s, buf, Ready (Ok 0)) else cursor_poll_read_slice rstart rpoll wpoll cx s buf)"

definition file_poll_write_operation ::
  "('k \<Rightarrow> byte list \<Rightarrow> 'k \<times> 'h) \<Rightarrow> ('k, 'h, nat) future \<Rightarrow> ('k, 'f, byte list) future \<Rightarrow> 'k lseek \<Rightarrow> waker \<Rightarrow> wbuf \<Rightarrow> nat \<Rightarrow>
   ('k, 'f, 'h, 'g) cursor_state \<Rightarrow> (('k, 'f, 'h, 'g) cursor_state \<times> nat io_result poll) panics" where
  "file_poll_write_operation wstart wpoll rpoll lseek cx buf generation s =
     (if snd buf = [] then Some (s, Ready (Ok 0))
      else cursor_poll_write wstart wpoll rpoll (rewind_file_cursor lseek) cx generation buf s)"

text \<open>A handle's own raw writes: \<open>direct_write\<close> holds the token of the one in progress.\<close>

definition file_poll_write ::
  "('k \<Rightarrow> byte list \<Rightarrow> 'k \<times> 'h) \<Rightarrow> ('k, 'h, nat) future \<Rightarrow> ('k, 'f, byte list) future \<Rightarrow> 'k lseek \<Rightarrow> waker \<Rightarrow> wbuf \<Rightarrow>
   nat option \<times> ('k, 'f, 'h, 'g) cursor_state \<Rightarrow>
   ((nat option \<times> ('k, 'f, 'h, 'g) cursor_state) \<times> nat io_result poll) panics" where
  "file_poll_write wstart wpoll rpoll lseek cx buf fs = do {
     let (generation, s) = (case fst fs of
       Some g \<Rightarrow> (g, snd fs)
     | None \<Rightarrow> (let (w, g) = write_operation_new (cs_write (snd fs)) in (g, (snd fs)\<lparr>cs_write := w\<rparr>)));
     (s, p) \<leftarrow> file_poll_write_operation wstart wpoll rpoll lseek cx buf generation s;
     Some (case p of
       Ready _ \<Rightarrow> ((None, s\<lparr>cs_write := write_operation_drop generation (cs_write s)\<rparr>), p)
     | Pending \<Rightarrow> ((Some generation, s), p)) }"

definition file_poll_write_vectored_operation ::
  "('k \<Rightarrow> byte list \<Rightarrow> 'k \<times> 'h) \<Rightarrow> ('k, 'h, nat) future \<Rightarrow> ('k, 'f, byte list) future \<Rightarrow> 'k lseek \<Rightarrow> waker \<Rightarrow> wbuf list \<Rightarrow> nat \<Rightarrow>
   ('k, 'f, 'h, 'g) cursor_state \<Rightarrow> (('k, 'f, 'h, 'g) cursor_state \<times> nat io_result poll) panics" where
  "file_poll_write_vectored_operation wstart wpoll rpoll lseek cx bufs generation s =
     (case find (\<lambda>buf. snd buf \<noteq> []) bufs of
        Some buf \<Rightarrow> file_poll_write_operation wstart wpoll rpoll lseek cx buf generation s
      | None \<Rightarrow> Some (s, Ready (Ok 0)))"

definition file_poll_flush ::
  "('k, 'h, nat) future \<Rightarrow> waker \<Rightarrow> ('k, 'f, 'h, 'g) cursor_state \<Rightarrow> ('k, 'f, 'h, 'g) cursor_state \<times> unit io_result poll" where
  "file_poll_flush wpoll cx s = cursor_poll_flush wpoll cx s"

definition file_poll_close ::
  "('k, 'h, nat) future \<Rightarrow> waker \<Rightarrow> ('k, 'f, 'h, 'g) cursor_state \<Rightarrow> ('k, 'f, 'h, 'g) cursor_state \<times> unit io_result poll" where
  "file_poll_close wpoll cx s = cursor_poll_flush wpoll cx s"

definition file_poll_seek ::
  "('k, 'h, nat) future \<Rightarrow> ('k, 'f, byte list) future \<Rightarrow> 'k lseek \<Rightarrow> waker \<Rightarrow> seek_from \<Rightarrow>
   ('k, 'f, 'h, 'g) cursor_state \<Rightarrow> (('k, 'f, 'h, 'g) cursor_state \<times> nat io_result poll) panics" where
  "file_poll_seek wpoll rpoll lseek cx pos s = do {
     (s, p) \<leftarrow> cursor_poll_reconcile wpoll rpoll (rewind_file_cursor lseek) cx s;
     Some (case p of
       Ready (Inr _) \<Rightarrow>
         (let (k, r) = seek lseek (w_dev (cs_write s)) pos in (s\<lparr>cs_write := (cs_write s)\<lparr>w_dev := k\<rparr>\<rparr>, Ready r))
     | Ready (Inl e) \<Rightarrow> (s, Ready (Err e))
     | Pending \<Rightarrow> (s, Pending)) }"

subsection \<open>A file\<close>

text \<open>
  What \<open>CursorState\<close> relies on. The file has contents and a cursor; a completed read has moved the cursor
  past the bytes it returns, one that is pending or failed has not; a relative seek that succeeds moves the cursor,
  and one to a valid offset succeeds.
\<close>

locale file_device = read_device rstart rpoll ksrc fcap
  for rstart :: "'k \<Rightarrow> nat \<Rightarrow> 'k \<times> 'f" and rpoll :: "('k, 'f, byte list) future" and ksrc :: "'k \<Rightarrow> byte list"
    and fcap :: "'f \<Rightarrow> nat" +
  fixes kpos :: "'k \<Rightarrow> nat"
    and kdata :: "'k \<Rightarrow> byte list"
    and lseek :: "'k lseek"
  assumes source: "ksrc k = drop (kpos k) (kdata k)"
    and cursor_bound: "kpos k < 2 ^ 63"
    and read_start: "rstart k n = (k', f) \<Longrightarrow> kpos k' = kpos k \<and> kdata k' = kdata k"
    and read_moves: "rpoll k f = (k', f', Ready (Ok data)) \<Longrightarrow> kpos k' = kpos k + length data \<and> kdata k' = kdata k"
    and read_fails: "rpoll k f = (k', f', Ready (Err e)) \<Longrightarrow> kpos k' = kpos k \<and> kdata k' = kdata k"
    and read_waits: "rpoll k f = (k', f', Pending) \<Longrightarrow> kpos k' = kpos k \<and> kdata k' = kdata k"
    and seek_moves: "0 \<le> int (kpos k) + off \<Longrightarrow> off \<le> 0 \<Longrightarrow>
      \<exists>k' e. lseek k SEEK_CUR off = (k', int (kpos k) + off, e) \<and> int (kpos k') = int (kpos k) + off \<and> kdata k' = kdata k"

text \<open>The position the callers see: the kernel's cursor less what was read ahead for them.\<close>

definition lpos :: "('k \<Rightarrow> nat) \<Rightarrow> ('k, 'f, 'h, 'g) cursor_state \<Rightarrow> nat" where
  "lpos kpos s = kpos (w_dev (cs_write s)) - length (overflow_rest (cs_read s))"

definition cursor_ok :: "('f \<Rightarrow> nat) \<Rightarrow> ('k \<Rightarrow> nat) \<Rightarrow> ('k \<Rightarrow> byte list) \<Rightarrow> ('k, 'f, 'h, 'g) cursor_state \<Rightarrow> bool" where
  "cursor_ok fcap kpos kdata s \<longleftrightarrow> rs_inv fcap (cs_read s) \<and> write_inv (cs_write s)
     \<and> \<not> ds_requested (rs_shutdown (cs_read s))
     \<and> (case rs_operation (cs_read s) of None \<Rightarrow> True | Some op \<Rightarrow> fcap (po_future op) < u64_modulus)
     \<and> length (overflow_rest (cs_read s)) \<le> kpos (w_dev (cs_write s))
     \<and> overflow_rest (cs_read s) =
         take (length (overflow_rest (cs_read s))) (drop (lpos kpos s) (kdata (w_dev (cs_write s))))
     \<and> (ws_operation (w_state (cs_write s)) \<noteq> None \<longrightarrow> rs_operation (cs_read s) = None \<and> rs_overflow (cs_read s) = None)"

text \<open>Nothing is read ahead and no read is in flight.\<close>

definition reconciled :: "('k, 'f, 'h, 'g) cursor_state \<Rightarrow> bool" where
  "reconciled s \<longleftrightarrow> rs_operation (cs_read s) = None \<and> rs_overflow (cs_read s) = None"

context file_device
begin

lemma rewind_exact:
  assumes "bytes \<le> kpos k"
  obtains k' where "rewind_file_cursor lseek k bytes = (k', Ok ())" "kpos k' = kpos k - bytes" "kdata k' = kdata k"
proof (cases "bytes = 0")
  case True
  then show thesis using that [of k] by (simp add: rewind_file_cursor_def)
next
  case False
  have b: "bytes < 2 ^ 63" using assms cursor_bound [of k] by (rule le_less_trans)
  obtain k' e where k': "lseek k SEEK_CUR (- int bytes) = (k', int (kpos k) + - int bytes, e)"
    "int (kpos k') = int (kpos k) + - int bytes" "kdata k' = kdata k"
    using seek_moves [of k "- int bytes"] assms by auto
  then have "rewind_file_cursor lseek k bytes = (k', Ok ())"
    using False b assms by (simp add: rewind_file_cursor_def seek_def)
  then show thesis using that k' assms by simp
qed

lemma read_reconcile_position:
  assumes "rs_inv fcap this" and "length (overflow_rest this) \<le> kpos k"
    and "\<And>op. rs_operation this = Some op \<Longrightarrow> fcap (po_future op) < u64_modulus"
  obtains k' t p woken where "read_poll_reconcile rpoll cx k this = Some (k', t, p, woken)" "kdata k' = kdata k"
    "rs_shutdown t = rs_shutdown this" "rs_inv fcap t"
    "(\<exists>n. p = Ready (Ok n) \<and> n \<le> kpos k' \<and> kpos k' - n = kpos k - length (overflow_rest this)
        \<and> rs_operation t = None \<and> rs_overflow t = None)
     \<or> p = Pending \<and> kpos k' = kpos k \<and> rs_overflow t = None \<and> rs_overflow this = None
        \<and> (\<exists>op op'. rs_operation this = Some op \<and> rs_operation t = Some op' \<and> fcap (po_future op') = fcap (po_future op))"
proof (cases "rs_operation this")
  case None
  have "read_poll_reconcile rpoll cx k this = Some (k, this\<lparr>rs_overflow := None\<rparr>, Ready (Ok (length (overflow_rest this))), [])"
    using assms(1) None by (auto simp: read_poll_reconcile_def rs_inv_def overflow_rest_def ro_remaining_def
        checked_sub_def split: option.splits)
  then show thesis using that [of k "this\<lparr>rs_overflow := None\<rparr>"] None assms(2) by (simp add: rs_inv_def)
next
  case (Some op)
  have none: "rs_overflow this = None" using assms(1) Some by (auto simp: rs_inv_def split: option.splits)
  then have rest: "overflow_rest this = []" by (simp add: overflow_rest_def)
  have same: "this\<lparr>rs_overflow := None\<rparr> = this" using none by simp
  have cap: "0 < fcap (po_future op)" "fcap (po_future op) < u64_modulus" using assms Some by (auto simp: rs_inv_def)
  obtain k2 op2 p w where q: "pending_operation_poll rpoll cx k op = (k2, op2, p, w)"
    by (cases "pending_operation_poll rpoll cx k op")
  note f = pending_operation_poll_future [OF q]
  let ?d = "this\<lparr>rs_operation := None\<rparr>" and ?w = "this\<lparr>rs_operation := Some op2\<rparr>"
  show thesis
  proof (cases p rule: io_poll_cases)
    case pending
    then have "kpos k2 = kpos k \<and> kdata k2 = kdata k" "fcap (po_future op2) = fcap (po_future op)"
      using read_waits poll_pending f by auto
    then show thesis using that [of k2 ?w Pending w] pending q Some none same cap
      by (simp add: read_poll_reconcile_def rs_inv_def)
  next
    case (err e)
    then have "kpos k2 = kpos k \<and> kdata k2 = kdata k" using read_fails f by auto
    then show thesis using that [of k2 ?d "Ready (Ok 0)" w] err q Some none same rest
      by (simp add: read_poll_reconcile_def rs_inv_def)
  next
    case (ok data)
    then have "kpos k2 = kpos k + length data \<and> kdata k2 = kdata k" "length data \<le> fcap (po_future op)"
      using read_moves poll_takes f by auto
    then show thesis using that [of k2 ?d "Ready (Ok (length data))" w] ok q Some none same rest cap
      by (simp add: read_poll_reconcile_def rs_inv_def checked_add_def)
  qed
qed

end

text \<open>Two write states that differ in the device and the wakers woken only.\<close>

definition same_writes :: "('k, 'h, 'g) write_sys \<Rightarrow> ('k, 'h, 'g) write_sys \<Rightarrow> bool" where
  "same_writes v w \<longleftrightarrow> w_state w = w_state v \<and> w_live w = w_live v \<and> w_log w = w_log v \<and> w_next w = w_next v"

lemma same_writes_inv: "same_writes v w \<Longrightarrow> write_inv w = write_inv v"
  using write_inv_cong [of w v] by (simp add: same_writes_def)

lemma same_writes_live: "same_writes v w \<Longrightarrow> tracked_live w g = tracked_live v g"
  by (simp add: same_writes_def tracked_live_def)

context file_device
begin

lemma reconcile_read_spec:
  assumes "cursor_ok fcap kpos kdata s"
  obtains t p where "reconcile_read rpoll (rewind_file_cursor lseek) cx s = Some (t, p)" "cursor_ok fcap kpos kdata t"
    "same_writes (cs_write s) (cs_write t)" "lpos kpos t = lpos kpos s"
    "kdata (w_dev (cs_write t)) = kdata (w_dev (cs_write s))"
    "p = Ready (Ok ()) \<and> reconciled t \<or> p = Pending \<and> ws_operation (w_state (cs_write s)) = None"
proof -
  let ?k = "w_dev (cs_write s)"
  have ok: "rs_inv fcap (cs_read s)" "length (overflow_rest (cs_read s)) \<le> kpos ?k"
    "\<And>op. rs_operation (cs_read s) = Some op \<Longrightarrow> fcap (po_future op) < u64_modulus"
    using assms by (auto simp: cursor_ok_def)
  obtain k r p woken where rp: "read_poll_reconcile rpoll cx ?k (cs_read s) = Some (k, r, p, woken)" "kdata k = kdata ?k"
    "rs_shutdown r = rs_shutdown (cs_read s)" "rs_inv fcap r"
    "(\<exists>n. p = Ready (Ok n) \<and> n \<le> kpos k \<and> kpos k - n = kpos ?k - length (overflow_rest (cs_read s))
        \<and> rs_operation r = None \<and> rs_overflow r = None)
     \<or> p = Pending \<and> kpos k = kpos ?k \<and> rs_overflow r = None \<and> rs_overflow (cs_read s) = None
        \<and> (\<exists>op op'. rs_operation (cs_read s) = Some op \<and> rs_operation r = Some op' \<and> fcap (po_future op') = fcap (po_future op))"
    by (rule read_reconcile_position [OF ok, of cx]) blast+
  define w where "w = wake woken ((cs_write s)\<lparr>w_dev := k\<rparr>)"
  have w: "same_writes (cs_write s) (w\<lparr>w_dev := k'\<rparr>)" for k' by (simp add: w_def same_writes_def)
  have inv: "write_inv (w\<lparr>w_dev := k'\<rparr>)" for k'
    using same_writes_inv [OF w] assms by (simp add: cursor_ok_def)
  from rp(5) show thesis
  proof (elim disjE exE conjE)
    fix n
    assume n: "p = Ready (Ok n)" "n \<le> kpos k" "kpos k - n = kpos ?k - length (overflow_rest (cs_read s))"
      "rs_operation r = None" "rs_overflow r = None"
    obtain k' where k': "rewind_file_cursor lseek k n = (k', Ok ())" "kpos k' = kpos k - n" "kdata k' = kdata k"
      by (rule rewind_exact [OF n(2)])
    let ?t = "s\<lparr>cs_read := r, cs_write := w\<lparr>w_dev := k'\<rparr>\<rparr>"
    have rest: "overflow_rest r = []" using n(5) by (simp add: overflow_rest_def)
    have "reconcile_read rpoll (rewind_file_cursor lseek) cx s = Some (?t, Ready (Ok ()))"
      using rp(1) n(1) k'(1) by (simp add: reconcile_read_def w_def Let_def)
    moreover have "cursor_ok fcap kpos kdata ?t"
      using rp(3,4) inv [of k'] n(4,5) rest assms by (simp add: cursor_ok_def)
    ultimately show thesis
      using that [of ?t "Ready (Ok ())"] w [of k'] k'(2,3) n(3-5) rest rp(2) by (simp add: lpos_def reconciled_def)
  next
    fix op op'
    assume a: "p = Pending" "kpos k = kpos ?k" "rs_overflow r = None" "rs_overflow (cs_read s) = None"
      "rs_operation (cs_read s) = Some op" "rs_operation r = Some op'" "fcap (po_future op') = fcap (po_future op)"
    let ?t = "s\<lparr>cs_read := r, cs_write := w\<lparr>w_dev := k\<rparr>\<rparr>"
    have wk: "w\<lparr>w_dev := k\<rparr> = w" by (simp add: w_def wake_def)
    have rest: "overflow_rest r = []" "overflow_rest (cs_read s) = []" using a by (simp_all add: overflow_rest_def)
    have none: "ws_operation (w_state (cs_write s)) = None" using assms a(5) by (auto simp: cursor_ok_def)
    have "reconcile_read rpoll (rewind_file_cursor lseek) cx s = Some (?t, Pending)"
      using rp(1) a(1) wk by (simp add: reconcile_read_def w_def [symmetric] Let_def)
    moreover have "cursor_ok fcap kpos kdata ?t"
      using rp(3,4) inv [of k] a rest none assms w [of k] by (simp add: cursor_ok_def same_writes_def)
    ultimately show thesis
      using that [of ?t Pending] w [of k] a(2) rest none rp(2) wk by (simp add: lpos_def) (simp add: w_def)
  qed
qed

end

text \<open>Reading ahead, with the cursor.\<close>

definition at_position :: "('k \<Rightarrow> nat) \<Rightarrow> ('k \<Rightarrow> byte list) \<Rightarrow> 'k \<Rightarrow> ('f, 'g) read_state \<Rightarrow> nat \<Rightarrow> bool" where
  "at_position kpos kdata k r n \<longleftrightarrow> kpos k = n + length (overflow_rest r)
     \<and> overflow_rest r = take (length (overflow_rest r)) (drop n (kdata k))"

definition readable :: "('f \<Rightarrow> nat) \<Rightarrow> ('f, 'g) read_state \<Rightarrow> bool" where
  "readable fcap r \<longleftrightarrow> rs_inv fcap r \<and> \<not> ds_requested (rs_shutdown r)
     \<and> (case rs_operation r of None \<Rightarrow> True | Some op \<Rightarrow> fcap (po_future op) < u64_modulus)"

lemma cursor_ok_iff:
  "cursor_ok fcap kpos kdata s \<longleftrightarrow> readable fcap (cs_read s) \<and> write_inv (cs_write s)
     \<and> at_position kpos kdata (w_dev (cs_write s)) (cs_read s) (lpos kpos s)
     \<and> (ws_operation (w_state (cs_write s)) \<noteq> None \<longrightarrow> reconciled s)"
  by (auto simp: cursor_ok_def readable_def at_position_def reconciled_def lpos_def)

lemma at_position_unique: "at_position kpos kdata (w_dev (cs_write s)) (cs_read s) n \<Longrightarrow> lpos kpos s = n"
  by (simp add: at_position_def lpos_def)

context file_device
begin

lemma at_position_bytes:
  assumes "at_position kpos kdata k r n"
  shows "drop n (kdata k) = overflow_rest r @ ksrc k"
proof -
  let ?m = "length (overflow_rest r)"
  have "drop n (kdata k) = take ?m (drop n (kdata k)) @ drop (n + ?m) (kdata k)"
    by (metis append_take_drop_id drop_drop add.commute)
  then show ?thesis using assms by (simp add: at_position_def source)
qed

lemma poll_with_retained:
  assumes "readable fcap r" and "at_position kpos kdata k r n" and "0 < c" and "c < u64_modulus"
    and "rs_overflow r = Some ov"
  obtains k' t bytes p woken where "poll_with rstart rpoll cx c k r = Some (k', t, bytes, p, woken)" "readable fcap t"
    "kdata k' = kdata k" "length bytes \<le> c" "at_position kpos kdata k' t (n + length bytes)"
    "bytes = take (length bytes) (drop n (kdata k))"
    "(\<exists>e. p = Ready (Err e)) \<and> bytes = [] \<or> p = Pending \<and> bytes = []
     \<or> p = Ready (Ok (length bytes)) \<and> (bytes = [] \<longrightarrow> drop n (kdata k) = [])"
proof -
  have i: "ro_pos ov < length (ro_data ov)" "rs_operation r = None" "\<not> ds_requested (rs_shutdown r)"
    using assms(1,5) by (auto simp: readable_def rs_inv_def)
  have rest: "overflow_rest r = drop (ro_pos ov) (ro_data ov)" using assms(5) by (simp add: overflow_rest_def)
  define m where "m = min c (length (ro_data ov) - ro_pos ov)"
  have m: "0 < m" "m \<le> c" "ro_pos ov + m \<le> length (ro_data ov)" using i(1) assms(3) by (auto simp: m_def)
  define ov' where "ov' = ov\<lparr>ro_pos := ro_pos ov + m\<rparr>"
  define t where "t = r\<lparr>rs_overflow := (if ro_is_drained ov' then None else Some ov')\<rparr>"
  have rem: "ro_remaining ov = Some (length (ro_data ov) - ro_pos ov)" using i(1) by (simp add: ro_remaining_def checked_sub_def)
  have f: "ro_front m ov = Some (take m (overflow_rest r))" using rem m by (simp add: ro_front_def min_def rest)
  have a: "ro_advance m ov = Some ov'" using rem m by (simp add: ro_advance_def ov'_def min_def)
  have "poll_with rstart rpoll cx c k r = Some (k, t, take m (overflow_rest r), Ready (Ok m), [])"
    using assms(3) i(3) rem f a assms(5) by (simp add: poll_with_def m_def [symmetric] t_def Let_def)
  moreover have len: "length (take m (overflow_rest r)) = m" using m by (simp add: rest)
  moreover have "readable fcap t" using i m by (auto simp: readable_def rs_inv_def t_def ov'_def ro_is_drained_def)
  moreover note at = assms(2) [unfolded at_position_def]
  have t: "overflow_rest t = drop m (overflow_rest r)"
    by (simp add: t_def overflow_rest_def rest [unfolded overflow_rest_def] assms(5) ov'_def ro_is_drained_def add.commute)
  have dm: "drop m (overflow_rest r) = take (length (overflow_rest r) - m) (drop (n + m) (kdata k))"
    using arg_cong [OF conjunct2 [OF at], of "drop m"] by (simp add: drop_take add.commute)
  have tm: "take m (overflow_rest r) = take m (drop n (kdata k))"
    using arg_cong [OF conjunct2 [OF at], of "take m"] m by (simp add: rest min_def split: if_splits)
  have lt: "length (overflow_rest t) = length (overflow_rest r) - m" "m \<le> length (overflow_rest r)"
    using m by (simp_all add: t rest)
  have "overflow_rest t = take (length (overflow_rest t)) (drop (n + m) (kdata k))" unfolding t length_drop by (rule dm)
  then have "at_position kpos kdata k t (n + m)" using at lt unfolding at_position_def by simp
  ultimately show thesis
    using that [of k t "take m (overflow_rest r)" "Ready (Ok m)" "[]"] m(1,2) tm unfolding len by auto
qed

lemma poll_with_operation:
  assumes "readable fcap r" and "at_position kpos kdata k r n" and "0 < c" and "c < u64_modulus"
    and "rs_overflow r = None"
  obtains k' t bytes p woken where "poll_with rstart rpoll cx c k r = Some (k', t, bytes, p, woken)" "readable fcap t"
    "kdata k' = kdata k" "length bytes \<le> c" "at_position kpos kdata k' t (n + length bytes)"
    "bytes = take (length bytes) (drop n (kdata k))"
    "(\<exists>e. p = Ready (Err e)) \<and> bytes = [] \<or> p = Pending \<and> bytes = []
     \<or> p = Ready (Ok (length bytes)) \<and> (bytes = [] \<longrightarrow> drop n (kdata k) = [])"
proof -
  have up: "\<not> ds_requested (rs_shutdown r)" and inv: "rs_inv fcap r"
    and cap: "\<And>op. rs_operation r = Some op \<Longrightarrow> fcap (po_future op) < u64_modulus"
    using assms(1) by (auto simp: readable_def)
  have pos: "kpos k = n" "ksrc k = drop n (kdata k)"
    using assms(2,5) by (simp_all add: at_position_def overflow_rest_def source)
  obtain k1 op1 where st: "(case rs_operation r of Some op \<Rightarrow> (k, op)
      | None \<Rightarrow> (let (k, f) = rstart k c in (k, pending_operation_new f))) = (k1, op1)" by fastforce
  have k1: "ksrc k1 = ksrc k" "0 < fcap (po_future op1)"
    using started_operation [of k r c k1 op1] assms(3) st inv up by (simp_all add: rs_ok_def)
  have k1': "kpos k1 = n" "kdata k1 = kdata k" "fcap (po_future op1) < u64_modulus"
    using st read_start start_keeps cap assms(4) pos(1)
    by (auto simp: pending_operation_new_def split: option.splits prod.splits)
  obtain k2 op2 p w where q: "pending_operation_poll rpoll cx k1 op1 = (k2, op2, p, w)"
    by (cases "pending_operation_poll rpoll cx k1 op1")
  note f = pending_operation_poll_future [OF q]
  note go = poll_with_def [of rstart rpoll cx c k r] assms(3,5) up st q
  show thesis
  proof (cases p rule: io_poll_cases)
    case pending
    then have "kpos k2 = n" "kdata k2 = kdata k" "fcap (po_future op2) = fcap (po_future op1)"
      using read_waits poll_pending f k1' by auto
    then show thesis
      using that [of k2 "r\<lparr>rs_operation := Some op2\<rparr>" "[]" Pending w] pending go k1(2) k1'(3) inv up
      by (simp add: readable_def rs_inv_def at_position_def overflow_rest_def)
  next
    case (err e)
    then have "kpos k2 = n" "kdata k2 = kdata k" using read_fails f k1' by auto
    then show thesis
      using that [of k2 "r\<lparr>rs_operation := None\<rparr>" "[]" "Ready (Err e)" w] err go up
      by (simp add: readable_def rs_inv_def at_position_def overflow_rest_def)
  next
    case (ok data)
    have k2: "kpos k2 = n + length data" "kdata k2 = kdata k" "drop n (kdata k) = data @ ksrc k2"
      using ok read_moves poll_takes f k1 k1' pos by auto
    define m where "m = min c (length data)"
    define t where "t = r\<lparr>rs_operation := None, rs_overflow := (if m < length data then Some \<lparr>ro_data = data, ro_pos = m\<rparr> else None)\<rparr>"
    have "poll_with rstart rpoll cx c k r = Some (k2, t, take m data, Ready (Ok m), w)"
      using ok go by (simp add: m_def t_def Let_def)
    moreover have "overflow_rest t = drop m data" by (simp add: t_def overflow_rest_def m_def)
    moreover have "drop (n + m) (kdata k) = drop m data @ ksrc k2"
      using arg_cong [OF k2(3), of "drop m"] by (simp add: add.commute m_def)
    moreover have "readable fcap t" using up by (auto simp: t_def readable_def rs_inv_def)
    moreover have "data = [] \<Longrightarrow> ksrc k2 = []"
      using poll_eof [of k1 "po_future op1" k2 "po_future op2"] f ok k1 poll_takes by auto
    moreover have "m = 0 \<Longrightarrow> data = []" "m \<le> c" "m \<le> length data"
      using assms(3) by (auto simp: m_def min_def split: if_splits)
    ultimately show thesis
      using that [of k2 t "take m data" "Ready (Ok m)" w] k2 by (auto simp: at_position_def)
  qed
qed

lemma poll_with_position:
  assumes "readable fcap r" and "at_position kpos kdata k r n" and "0 < c" and "c < u64_modulus"
  obtains k' t bytes p woken where "poll_with rstart rpoll cx c k r = Some (k', t, bytes, p, woken)" "readable fcap t"
    "kdata k' = kdata k" "length bytes \<le> c" "at_position kpos kdata k' t (n + length bytes)"
    "bytes = take (length bytes) (drop n (kdata k))"
    "(\<exists>e. p = Ready (Err e)) \<and> bytes = [] \<or> p = Pending \<and> bytes = []
     \<or> p = Ready (Ok (length bytes)) \<and> (bytes = [] \<longrightarrow> drop n (kdata k) = [])"
proof (cases "rs_overflow r")
  case None
  then show thesis by (rule poll_with_operation [OF assms]) (rule that)
next
  case (Some ov)
  then show thesis by (rule poll_with_retained [OF assms]) (rule that)
qed

end

text \<open>Draining writes moves the cursor only if a write was in flight, and then nothing is read ahead.\<close>

lemma poll_drain_idle_device:
  assumes "ws_operation (w_state s) = None" and "poll_drain fp cx s = (t, p)"
  shows "w_dev t = w_dev s" "ws_operation (w_state t) = None"
  using assms
  by (subst (asm) poll_drain.simps,
      auto simp: Let_def register_write_cancellation_waker_def split: list.splits option.splits if_splits)+

lemma write_poll_flush_idle_device:
  assumes "ws_operation (w_state s) = None" and "write_poll_flush fp cx s = (t, p)"
  shows "w_dev t = w_dev s" "ws_operation (w_state t) = None"
proof -
  obtain u q where d: "poll_drain fp cx s = (u, q)" by (cases "poll_drain fp cx s")
  show "w_dev t = w_dev s" "ws_operation (w_state t) = None"
    using assms(2) d poll_drain_idle_device [OF assms(1) d]
    by (auto simp: write_poll_flush_def take_buffered_error_def take_untracked_error_def
        split: poll.splits option.splits sum.splits)
qed

context file_device
begin

lemma cursor_ok_writes:
  assumes "cursor_ok fcap kpos kdata s" and "write_inv w"
    and "ws_operation (w_state (cs_write s)) = None \<Longrightarrow> w_dev w = w_dev (cs_write s) \<and> ws_operation (w_state w) = None"
  shows "cursor_ok fcap kpos kdata (s\<lparr>cs_write := w\<rparr>)"
proof (cases "ws_operation (w_state (cs_write s))")
  case None
  then show ?thesis using assms by (simp add: cursor_ok_def lpos_def)
next
  case (Some op)
  then have "overflow_rest (cs_read s) = []" using assms(1) by (simp add: cursor_ok_def overflow_rest_def)
  then show ?thesis using assms(1,2) Some by (simp add: cursor_ok_def)
qed

lemma cursor_poll_read_spec:
  assumes "cursor_ok fcap kpos kdata s" and "buf \<noteq> []" and "length buf < u64_modulus"
  obtains t buf' p where "cursor_poll_read_slice rstart rpoll wpoll cx s buf = Some (t, buf', p)"
    "cursor_ok fcap kpos kdata t" "length buf' = length buf"
    "\<And>n. p = Ready (Ok n) \<Longrightarrow> n \<le> length buf \<and> ws_operation (w_state (cs_write t)) = None \<and> waiting (cs_write s) = []
      \<and> n \<le> lpos kpos t \<and> (ws_operation (w_state (cs_write s)) = None \<longrightarrow> lpos kpos t = lpos kpos s + n)
      \<and> take n buf' = take n (drop (lpos kpos t - n) (kdata (w_dev (cs_write t))))
      \<and> (n = 0 \<longrightarrow> drop (lpos kpos t) (kdata (w_dev (cs_write t))) = [])"
    "ws_operation (w_state (cs_write s)) = None \<Longrightarrow> kdata (w_dev (cs_write t)) = kdata (w_dev (cs_write s))
      \<and> ((\<forall>n. p \<noteq> Ready (Ok n)) \<longrightarrow> lpos kpos t = lpos kpos s)"
proof -
  have inv: "write_inv (cs_write s)" using assms(1) by (simp add: cursor_ok_def)
  obtain w q where d: "poll_drain wpoll cx (cs_write s) = (w, q)" by (cases "poll_drain wpoll cx (cs_write s)")
  have w: "calm wpoll (cs_write s) w" "q = Ready () \<longleftrightarrow> ws_operation (w_state w) = None \<and> ws_queue (w_state w) = []"
    using poll_drain_calm [OF inv d] by auto
  have s': "cursor_ok fcap kpos kdata (s\<lparr>cs_write := w\<rparr>)"
    using cursor_ok_writes [OF assms(1) calm_inv [OF w(1)]] poll_drain_idle_device [OF _ d] by blast
  have idle: "ws_operation (w_state (cs_write s)) = None \<Longrightarrow> w_dev w = w_dev (cs_write s)"
    by (rule poll_drain_idle_device(1) [OF _ d])
  show thesis
  proof (cases q)
    case Pending
    then show thesis
      using that [of "s\<lparr>cs_write := w\<rparr>" buf Pending] d s' idle
      by (simp add: cursor_poll_read_slice_def lpos_def)
  next
    case (Ready x)
    have none: "ws_operation (w_state w) = None" "waiting (cs_write s) = []"
      using w Ready by (auto simp: calm_def waiting_def)
    let ?n = "lpos kpos (s\<lparr>cs_write := w\<rparr>)"
    have rd: "readable fcap (cs_read s)" "at_position kpos kdata (w_dev w) (cs_read s) ?n" "0 < length buf"
      using s' assms(2) by (simp_all add: cursor_ok_iff)
    obtain k r bytes p woken where r: "poll_with rstart rpoll cx (length buf) (w_dev w) (cs_read s) = Some (k, r, bytes, p, woken)"
      "readable fcap r" "kdata k = kdata (w_dev w)" "length bytes \<le> length buf" "at_position kpos kdata k r (?n + length bytes)"
      "bytes = take (length bytes) (drop ?n (kdata (w_dev w)))"
      "(\<exists>e. p = Ready (Err e)) \<and> bytes = [] \<or> p = Pending \<and> bytes = []
       \<or> p = Ready (Ok (length bytes)) \<and> (bytes = [] \<longrightarrow> drop ?n (kdata (w_dev w)) = [])"
      by (rule poll_with_position [OF rd assms(3), of cx])
    define t where "t = s\<lparr>cs_read := r, cs_write := wake woken (w\<lparr>w_dev := k\<rparr>)\<rparr>"
    have go: "cursor_poll_read_slice rstart rpoll wpoll cx s buf = Some (t, bytes @ drop (length bytes) buf, p)"
      using d Ready r(1,4) by (simp add: cursor_poll_read_slice_def t_def)
    have lt: "lpos kpos t = ?n + length bytes" using r(5) by (intro at_position_unique [where kdata = kdata]) (simp add: t_def)
    have ok: "cursor_ok fcap kpos kdata t"
      using r(2,5) lt none(1) calm_inv [OF w(1)] write_inv_cong [of "cs_write t" w] by (simp add: cursor_ok_iff t_def)
    have ln: "ws_operation (w_state (cs_write s)) = None \<Longrightarrow> ?n = lpos kpos s" using idle by (simp add: lpos_def)
    show thesis
    proof (rule that [OF go ok])
      show "length (bytes @ drop (length bytes) buf) = length buf" using r(4) by simp
      show "kdata (w_dev (cs_write t)) = kdata (w_dev (cs_write s)) \<and> ((\<forall>n. p \<noteq> Ready (Ok n)) \<longrightarrow> lpos kpos t = lpos kpos s)"
        if "ws_operation (w_state (cs_write s)) = None"
        using r(3,7) idle [OF that] ln [OF that] lt by (auto simp: t_def)
      fix n
      assume p: "p = Ready (Ok n)"
      then have n: "n = length bytes" using r(7) by auto
      show "n \<le> length buf \<and> ws_operation (w_state (cs_write t)) = None \<and> waiting (cs_write s) = []
        \<and> n \<le> lpos kpos t \<and> (ws_operation (w_state (cs_write s)) = None \<longrightarrow> lpos kpos t = lpos kpos s + n)
        \<and> take n (bytes @ drop (length bytes) buf) = take n (drop (lpos kpos t - n) (kdata (w_dev (cs_write t))))
        \<and> (n = 0 \<longrightarrow> drop (lpos kpos t) (kdata (w_dev (cs_write t))) = [])"
        using r(3,4,6,7) none lt ln n p by (auto simp: t_def)
    qed
  qed
qed

end

text \<open>A poll of a write in any state of its life returns.\<close>

lemma poll_write_total:
  assumes "write_inv s" and "tracked_live s g \<or> \<not> is_tracked_write g"
  obtains t p where "poll_write start fp cx g buf s = Some (t, p)" "served fp g s t"
proof (cases "tracked_live s g \<and> snd buf \<noteq> []")
  case True
  then show thesis using poll_write_outcome [OF assms(1), of g buf start fp cx thesis] that by blast
next
  case False
  then consider "snd buf = []" | "\<not> is_tracked_write g" using assms(2) by blast
  then show thesis
  proof cases
    case 1
    then show thesis using that [of s "Ready (Ok 0)"] calm_served [OF calm_same [OF assms(1)]] by (simp add: poll_write_def)
  next
    case 2
    then show thesis using poll_write_untracked [OF assms(1), of g start fp cx buf thesis] that by blast
  qed
qed

context file_device
begin

lemma cursor_poll_write_spec:
  assumes "cursor_ok fcap kpos kdata s" and "tracked_live (cs_write s) g \<or> \<not> is_tracked_write g"
  obtains t p where "cursor_poll_write wstart wpoll rpoll (rewind_file_cursor lseek) cx g buf s = Some (t, p)"
    "cursor_ok fcap kpos kdata t"
    "p = Pending \<and> same_writes (cs_write s) (cs_write t) \<and> lpos kpos t = lpos kpos s
        \<and> kdata (w_dev (cs_write t)) = kdata (w_dev (cs_write s)) \<and> ws_operation (w_state (cs_write s)) = None
     \<or> reconciled t \<and> (\<exists>u. same_writes (cs_write s) u \<and> kpos (w_dev u) = lpos kpos s
        \<and> kdata (w_dev u) = kdata (w_dev (cs_write s)) \<and> poll_write wstart wpoll cx g buf u = Some (cs_write t, p))"
proof -
  obtain v q where v: "reconcile_read rpoll (rewind_file_cursor lseek) cx s = Some (v, q)" "cursor_ok fcap kpos kdata v"
    "same_writes (cs_write s) (cs_write v)" "lpos kpos v = lpos kpos s"
    "kdata (w_dev (cs_write v)) = kdata (w_dev (cs_write s))"
    "q = Ready (Ok ()) \<and> reconciled v \<or> q = Pending \<and> ws_operation (w_state (cs_write s)) = None"
    by (rule reconcile_read_spec [OF assms(1)])
  from v(6) show thesis
  proof
    assume "q = Pending \<and> ws_operation (w_state (cs_write s)) = None"
    then show thesis using that [of v Pending] v by (simp add: cursor_poll_write_def)
  next
    assume q: "q = Ready (Ok ()) \<and> reconciled v"
    have inv: "write_inv (cs_write v)" using v(2) by (simp add: cursor_ok_def)
    have "tracked_live (cs_write v) g \<or> \<not> is_tracked_write g" using assms(2) same_writes_live [OF v(3)] by simp
    then obtain w p where w: "poll_write wstart wpoll cx g buf (cs_write v) = Some (w, p)" "served wpoll g (cs_write v) w"
      by (rule poll_write_total [OF inv])
    let ?t = "v\<lparr>cs_write := w\<rparr>"
    have rest: "overflow_rest (cs_read v) = []" using q by (simp add: reconciled_def overflow_rest_def)
    have "cursor_ok fcap kpos kdata ?t"
      using v(2) q w(2) rest by (simp add: cursor_ok_def reconciled_def served_def)
    moreover have "kpos (w_dev (cs_write v)) = lpos kpos s" using v(4) rest by (simp add: lpos_def)
    moreover have "cursor_poll_write wstart wpoll rpoll (rewind_file_cursor lseek) cx g buf s = Some (?t, p)"
      using v(1) q w(1) by (simp add: cursor_poll_write_def)
    ultimately show thesis using that [of ?t p] q v(3,5) w(1) by (auto simp: reconciled_def)
  qed
qed

lemma cursor_poll_reconcile_spec:
  assumes "cursor_ok fcap kpos kdata s"
  obtains t p where "cursor_poll_reconcile wpoll rpoll (rewind_file_cursor lseek) cx s = Some (t, p)"
    "cursor_ok fcap kpos kdata t" "p = Pending \<or> p = Ready (Ok ())"
    "p = Ready (Ok ()) \<longrightarrow> reconciled t \<and> ws_operation (w_state (cs_write t)) = None \<and> waiting (cs_write s) = []
      \<and> (ws_operation (w_state (cs_write s)) = None \<longrightarrow> kpos (w_dev (cs_write t)) = lpos kpos s)"
proof -
  obtain v q where v: "reconcile_read rpoll (rewind_file_cursor lseek) cx s = Some (v, q)" "cursor_ok fcap kpos kdata v"
    "same_writes (cs_write s) (cs_write v)" "lpos kpos v = lpos kpos s"
    "q = Ready (Ok ()) \<and> reconciled v \<or> q = Pending \<and> ws_operation (w_state (cs_write s)) = None"
    by (rule reconcile_read_spec [OF assms])
  from v(5) show thesis
  proof
    assume "q = Pending \<and> ws_operation (w_state (cs_write s)) = None"
    then show thesis using that [of v Pending] v by (simp add: cursor_poll_reconcile_def)
  next
    assume q: "q = Ready (Ok ()) \<and> reconciled v"
    have inv: "write_inv (cs_write v)" using v(2) by (simp add: cursor_ok_def)
    obtain w r where d: "poll_drain wpoll cx (cs_write v) = (w, r)" by (cases "poll_drain wpoll cx (cs_write v)")
    have w: "calm wpoll (cs_write v) w" "r = Ready () \<longleftrightarrow> ws_operation (w_state w) = None \<and> ws_queue (w_state w) = []"
      using poll_drain_calm [OF inv d] by auto
    let ?t = "v\<lparr>cs_write := w\<rparr>"
    have ok: "cursor_ok fcap kpos kdata ?t"
      using cursor_ok_writes [OF v(2) calm_inv [OF w(1)]] poll_drain_idle_device [OF _ d] by blast
    have rest: "overflow_rest (cs_read v) = []" using q by (simp add: reconciled_def overflow_rest_def)
    then have pos: "kpos (w_dev (cs_write v)) = lpos kpos s" using v(4) by (simp add: lpos_def)
    have go: "cursor_poll_reconcile wpoll rpoll (rewind_file_cursor lseek) cx s =
        Some (?t, case r of Ready _ \<Rightarrow> Ready (Ok ()) | Pending \<Rightarrow> Pending)"
      using v(1) q d by (simp add: cursor_poll_reconcile_def)
    have wt: "waiting (cs_write s) = waiting w" if "r = Ready ()"
      using w(1) v(3) same_writes_live [OF v(3)] waiting_cong [of "cs_write v" "cs_write s"] by (simp add: calm_def same_writes_def)
    show thesis
    proof (rule that [OF go ok])
      show "(case r of Ready _ \<Rightarrow> Ready (Ok ()) | Pending \<Rightarrow> Pending) = Pending
        \<or> (case r of Ready _ \<Rightarrow> Ready (Ok ()) | Pending \<Rightarrow> Pending) = Ready (Ok ())" by (cases r) auto
      show "(case r of Ready _ \<Rightarrow> Ready (Ok ()) | Pending \<Rightarrow> Pending) = Ready (Ok ()) \<longrightarrow> reconciled ?t
        \<and> ws_operation (w_state (cs_write ?t)) = None \<and> waiting (cs_write s) = []
        \<and> (ws_operation (w_state (cs_write s)) = None \<longrightarrow> kpos (w_dev (cs_write ?t)) = lpos kpos s)"
        using q w(2) wt v(3) poll_drain_idle_device(1) [OF _ d] pos
        by (cases r) (auto simp: reconciled_def waiting_def same_writes_def)
    qed
  qed
qed

end

text \<open>A handle's own write takes a token and keeps it until the write is answered.\<close>

definition handle_ok :: "nat option \<times> ('k, 'f, 'h, 'g) cursor_state \<Rightarrow> bool" where
  "handle_ok fs \<longleftrightarrow> (case fst fs of None \<Rightarrow> True | Some g \<Rightarrow> tracked_live (cs_write (snd fs)) g)"

lemma tracked_new:
  assumes "write_operation_new w = (w', g)"
  shows "tracked_live w' g" "w_state w' = w_state w" "w_dev w' = w_dev w" "w_log w' = w_log w"
    "tracked_live w h \<Longrightarrow> tracked_live w' h"
proof -
  obtain i n where i: "next_operation_id (w_next w) = (i, n)" by (cases "next_operation_id (w_next w)")
  have "i < TRACKED_WRITE_BIT" using next_operation_id_range [OF i] by simp
  then have "is_tracked_write (i + TRACKED_WRITE_BIT)" by (simp add: is_tracked_write_def TRACKED_WRITE_BIT_def)
  then show "tracked_live w' g" "w_state w' = w_state w" "w_dev w' = w_dev w" "w_log w' = w_log w"
    "tracked_live w h \<Longrightarrow> tracked_live w' h"
    using assms i by (auto simp: write_operation_new_def tracked_live_def Let_def)
qed

lemma write_operation_drop_simps [simp]:
  "w_state (write_operation_drop g w) = w_state w" "w_dev (write_operation_drop g w) = w_dev w"
  "w_log (write_operation_drop g w) = w_log w"
  by (simp_all add: write_operation_drop_def Let_def split: option.split)

lemma cursor_ok_same:
  assumes "w_state w = w_state (cs_write s)" and "w_dev w = w_dev (cs_write s)"
  shows "cursor_ok fcap kpos kdata (s\<lparr>cs_write := w\<rparr>) = cursor_ok fcap kpos kdata s"
  using assms write_inv_cong [of w "cs_write s"] by (simp add: cursor_ok_def lpos_def)

context file_device
begin

lemma file_poll_write_operation_spec:
  assumes "cursor_ok fcap kpos kdata s" and "tracked_live (cs_write s) g"
  obtains t p where "file_poll_write_operation wstart wpoll rpoll lseek cx buf g s = Some (t, p)" "cursor_ok fcap kpos kdata t"
    "tracked_live (cs_write t) g"
proof (cases "snd buf = []")
  case True
  then show thesis using that [of s "Ready (Ok 0)"] assms by (simp add: file_poll_write_operation_def)
next
  case False
  have tl: "tracked_live (cs_write s) g \<or> \<not> is_tracked_write g" using assms(2) by simp
  obtain t p where t: "cursor_poll_write wstart wpoll rpoll (rewind_file_cursor lseek) cx g buf s = Some (t, p)"
    "cursor_ok fcap kpos kdata t"
    "p = Pending \<and> same_writes (cs_write s) (cs_write t) \<and> lpos kpos t = lpos kpos s
        \<and> kdata (w_dev (cs_write t)) = kdata (w_dev (cs_write s)) \<and> ws_operation (w_state (cs_write s)) = None
     \<or> reconciled t \<and> (\<exists>u. same_writes (cs_write s) u \<and> kpos (w_dev u) = lpos kpos s
        \<and> kdata (w_dev u) = kdata (w_dev (cs_write s)) \<and> poll_write wstart wpoll cx g buf u = Some (cs_write t, p))"
    by (rule cursor_poll_write_spec [OF assms(1) tl])
  from t(3) have "tracked_live (cs_write t) g"
  proof (elim disjE conjE exE)
    fix u
    assume u: "same_writes (cs_write s) u" "poll_write wstart wpoll cx g buf u = Some (cs_write t, p)"
    have inv: "write_inv u" using assms(1) same_writes_inv [OF u(1)] by (simp add: cursor_ok_def)
    have "tracked_live u g" using assms(2) same_writes_live [OF u(1)] by simp
    then show ?thesis
      using u(2) poll_write_total [OF inv, of g wstart wpoll cx buf "tracked_live (cs_write t) g"] by (auto simp: served_def)
  qed (use assms(2) same_writes_live [of "cs_write s" "cs_write t" g] in simp)
  then show thesis using that t False by (simp add: file_poll_write_operation_def)
qed

lemma file_poll_write_spec:
  assumes "cursor_ok fcap kpos kdata (snd fs)" and "handle_ok fs"
  obtains gs p where "file_poll_write wstart wpoll rpoll lseek cx buf fs = Some (gs, p)" "cursor_ok fcap kpos kdata (snd gs)"
    "handle_ok gs" "fst gs = None \<longleftrightarrow> p \<noteq> Pending"
proof -
  obtain g s where gs: "(case fst fs of Some g \<Rightarrow> (g, snd fs)
      | None \<Rightarrow> (let (w, g) = write_operation_new (cs_write (snd fs)) in (g, (snd fs)\<lparr>cs_write := w\<rparr>))) = (g, s)" by fastforce
  have s: "cursor_ok fcap kpos kdata s \<and> tracked_live (cs_write s) g"
  proof (cases "fst fs")
    case (Some h)
    then show ?thesis using gs assms by (simp add: handle_ok_def)
  next
    case None
    obtain w h where n: "write_operation_new (cs_write (snd fs)) = (w, h)" by (cases "write_operation_new (cs_write (snd fs))")
    show ?thesis using gs None n tracked_new [OF n] cursor_ok_same [of w "snd fs"] assms(1) by auto
  qed
  obtain t p where t: "file_poll_write_operation wstart wpoll rpoll lseek cx buf g s = Some (t, p)" "cursor_ok fcap kpos kdata t"
    "tracked_live (cs_write t) g"
    by (rule file_poll_write_operation_spec [OF conjunct1 [OF s] conjunct2 [OF s]])
  show thesis
    by (cases p; rule that [of "case p of Ready _ \<Rightarrow> (None, t\<lparr>cs_write := write_operation_drop g (cs_write t)\<rparr>)
        | Pending \<Rightarrow> (Some g, t)" p])
      (use gs t cursor_ok_same [of "write_operation_drop g (cs_write t)" t] in
        \<open>simp_all add: file_poll_write_def handle_ok_def split: poll.splits\<close>)
qed

end

subsection \<open>Interleavings of every user of a file\<close>

text \<open>
  Clones share the cursor. A step is a poll by any of them: a read, a write of any live token, a handle's own
  write, a flush or a seek; a token made or dropped; or progress of the device, which moves the cursor or changes
  the contents only while a write is in flight.
\<close>

inductive file_run ::
  "('k \<Rightarrow> nat \<Rightarrow> 'k \<times> 'f) \<Rightarrow> ('k, 'f, byte list) future \<Rightarrow> ('k \<Rightarrow> byte list \<Rightarrow> 'k \<times> 'h) \<Rightarrow> ('k, 'h, nat) future \<Rightarrow>
   ('k \<Rightarrow> nat) \<Rightarrow> ('k \<Rightarrow> byte list) \<Rightarrow> 'k lseek \<Rightarrow>
   ('k, 'f, 'h, 'g) cursor_state \<Rightarrow> ('k, 'f, 'h, 'g) cursor_state \<Rightarrow> bool"
  for rstart rpoll wstart wpoll kpos kdata lseek where
  file_run_refl: "file_run rstart rpoll wstart wpoll kpos kdata lseek s s"
| file_run_read: "file_run rstart rpoll wstart wpoll kpos kdata lseek s t \<Longrightarrow> length buf < u64_modulus \<Longrightarrow>
    file_poll_read rstart rpoll wpoll cx t buf = Some (u, buf', p) \<Longrightarrow> file_run rstart rpoll wstart wpoll kpos kdata lseek s u"
| file_run_write: "file_run rstart rpoll wstart wpoll kpos kdata lseek s t \<Longrightarrow> tracked_live (cs_write t) g \<Longrightarrow>
    file_poll_write_operation wstart wpoll rpoll lseek cx wbuf g t = Some (u, p) \<Longrightarrow>
    file_run rstart rpoll wstart wpoll kpos kdata lseek s u"
| file_run_own_write: "file_run rstart rpoll wstart wpoll kpos kdata lseek s t \<Longrightarrow> handle_ok (dw, t) \<Longrightarrow>
    file_poll_write wstart wpoll rpoll lseek cx wbuf (dw, t) = Some ((dw', u), p) \<Longrightarrow>
    file_run rstart rpoll wstart wpoll kpos kdata lseek s u"
| file_run_flush: "file_run rstart rpoll wstart wpoll kpos kdata lseek s t \<Longrightarrow> file_poll_flush wpoll cx t = (u, q) \<Longrightarrow>
    file_run rstart rpoll wstart wpoll kpos kdata lseek s u"
| file_run_seek: "file_run rstart rpoll wstart wpoll kpos kdata lseek s t \<Longrightarrow>
    file_poll_seek wpoll rpoll lseek cx pos t = Some (u, r) \<Longrightarrow> file_run rstart rpoll wstart wpoll kpos kdata lseek s u"
| file_run_new: "file_run rstart rpoll wstart wpoll kpos kdata lseek s t \<Longrightarrow> write_operation_new (cs_write t) = (w, g) \<Longrightarrow>
    file_run rstart rpoll wstart wpoll kpos kdata lseek s (t\<lparr>cs_write := w\<rparr>)"
| file_run_drop: "file_run rstart rpoll wstart wpoll kpos kdata lseek s t \<Longrightarrow>
    file_run rstart rpoll wstart wpoll kpos kdata lseek s (t\<lparr>cs_write := write_operation_drop g (cs_write t)\<rparr>)"
| file_run_device: "file_run rstart rpoll wstart wpoll kpos kdata lseek s t \<Longrightarrow>
    ws_operation (w_state (cs_write t)) = None \<Longrightarrow> kpos k = kpos (w_dev (cs_write t)) \<and> kdata k = kdata (w_dev (cs_write t)) \<Longrightarrow>
    file_run rstart rpoll wstart wpoll kpos kdata lseek s (t\<lparr>cs_write := (cs_write t)\<lparr>w_dev := k\<rparr>\<rparr>)"
| file_run_written: "file_run rstart rpoll wstart wpoll kpos kdata lseek s t \<Longrightarrow>
    ws_operation (w_state (cs_write t)) \<noteq> None \<Longrightarrow>
    file_run rstart rpoll wstart wpoll kpos kdata lseek s (t\<lparr>cs_write := driver_wake k (cs_write t)\<rparr>)"

lemma driver_wake_dev: "ws_operation (w_state s) \<noteq> None \<Longrightarrow> ws_operation (w_state (driver_wake k s)) \<noteq> None"
  by (auto simp: driver_wake_def Let_def split: prod.splits)

lemma reconciled_ok:
  assumes "cursor_ok fcap kpos kdata s" and "reconciled s" and "write_inv w"
  shows "cursor_ok fcap kpos kdata (s\<lparr>cs_write := w\<rparr>)"
proof -
  have "overflow_rest (cs_read s) = []" using assms(2) by (simp add: reconciled_def overflow_rest_def)
  then show ?thesis using assms by (simp add: cursor_ok_def reconciled_def)
qed

context file_device
begin

lemma file_poll_seek_spec:
  assumes "cursor_ok fcap kpos kdata s"
  obtains t r where "file_poll_seek wpoll rpoll lseek cx pos s = Some (t, r)" "cursor_ok fcap kpos kdata t"
    "r = Pending \<or> (\<exists>k x. r = Ready x \<and> reconciled t \<and> ws_operation (w_state (cs_write t)) = None
      \<and> waiting (cs_write s) = [] \<and> seek lseek k pos = (w_dev (cs_write t), x)
      \<and> (ws_operation (w_state (cs_write s)) = None \<longrightarrow> kpos k = lpos kpos s))"
proof -
  obtain v p where v: "cursor_poll_reconcile wpoll rpoll (rewind_file_cursor lseek) cx s = Some (v, p)"
    "cursor_ok fcap kpos kdata v" "p = Pending \<or> p = Ready (Ok ())"
    "p = Ready (Ok ()) \<longrightarrow> reconciled v \<and> ws_operation (w_state (cs_write v)) = None \<and> waiting (cs_write s) = []
      \<and> (ws_operation (w_state (cs_write s)) = None \<longrightarrow> kpos (w_dev (cs_write v)) = lpos kpos s)"
    by (rule cursor_poll_reconcile_spec [OF assms, of wpoll cx])
  from v(3) show thesis
  proof
    assume "p = Pending"
    then show thesis using that [of v Pending] v by (simp add: file_poll_seek_def)
  next
    assume p: "p = Ready (Ok ())"
    obtain k r where k: "seek lseek (w_dev (cs_write v)) pos = (k, r)" by (cases "seek lseek (w_dev (cs_write v)) pos")
    let ?t = "v\<lparr>cs_write := (cs_write v)\<lparr>w_dev := k\<rparr>\<rparr>"
    have "write_inv ((cs_write v)\<lparr>w_dev := k\<rparr>)"
      using v(2) write_inv_cong [of "(cs_write v)\<lparr>w_dev := k\<rparr>" "cs_write v"] by (simp add: cursor_ok_def)
    then have "cursor_ok fcap kpos kdata ?t" using reconciled_ok [OF v(2)] v(4) p by simp
    moreover have "file_poll_seek wpoll rpoll lseek cx pos s = Some (?t, Ready r)" using v(1) p k by (simp add: file_poll_seek_def)
    moreover have "\<exists>k x. Ready r = Ready x \<and> reconciled ?t \<and> ws_operation (w_state (cs_write ?t)) = None
        \<and> waiting (cs_write s) = [] \<and> seek lseek k pos = (w_dev (cs_write ?t), x)
        \<and> (ws_operation (w_state (cs_write s)) = None \<longrightarrow> kpos k = lpos kpos s)"
      using v(4) p k by (intro exI [of _ "w_dev (cs_write v)"] exI [of _ r]) (simp add: reconciled_def)
    ultimately show thesis by (intro that [of ?t "Ready r"] disjI2)
  qed
qed

lemma file_run_ok:
  assumes "file_run rstart rpoll wstart wpoll kpos kdata lseek s t" and "cursor_ok fcap kpos kdata s"
  shows "cursor_ok fcap kpos kdata t"
  using assms
proof (induction rule: file_run.induct)
  case (file_run_read s t buf cx u buf' p)
  then have t: "cursor_ok fcap kpos kdata t" by blast
  show ?case
  proof (cases "buf = []")
    case False
    then show ?thesis
      using file_run_read.hyps(3) cursor_poll_read_spec [OF t False file_run_read.hyps(2), of wpoll cx "cursor_ok fcap kpos kdata u"]
      by (auto simp: file_poll_read_def)
  qed (use t file_run_read.hyps(3) in \<open>simp add: file_poll_read_def\<close>)
next
  case (file_run_write s t g cx wbuf u p)
  then have t: "cursor_ok fcap kpos kdata t" by blast
  show ?case
    by (rule file_poll_write_operation_spec [OF t file_run_write.hyps(2), of wstart wpoll cx wbuf])
      (use file_run_write.hyps(3) in simp)
next
  case (file_run_own_write s t dw cx wbuf dw' u p)
  then have t: "cursor_ok fcap kpos kdata (snd (dw, t))" by simp
  show ?case
    by (rule file_poll_write_spec [OF t file_run_own_write.hyps(2), of wstart wpoll cx wbuf])
      (use file_run_own_write.hyps(3) in simp)
next
  case (file_run_flush s t cx u q)
  then have t: "cursor_ok fcap kpos kdata t" by blast
  obtain w where w: "write_poll_flush wpoll cx (cs_write t) = (w, q)" "u = t\<lparr>cs_write := w\<rparr>"
    using file_run_flush.hyps(2) by (auto simp: file_poll_flush_def cursor_poll_flush_def split: prod.splits)
  have "write_inv (cs_write t)" using t by (simp add: cursor_ok_def)
  from calm_inv [OF write_poll_flush_calm [OF this w(1)]] have "write_inv w" .
  then show ?case unfolding w(2)
    by (rule cursor_ok_writes [OF t]) (use write_poll_flush_idle_device [OF _ w(1)] in simp)
next
  case (file_run_seek s t cx pos u r)
  then have t: "cursor_ok fcap kpos kdata t" by blast
  show ?case by (rule file_poll_seek_spec [OF t, of wpoll cx pos]) (use file_run_seek.hyps(2) in simp)
next
  case (file_run_new s t w g)
  then show ?case using tracked_new [OF file_run_new.hyps(2)] cursor_ok_same [of w t] by simp
next
  case (file_run_drop s t g)
  then show ?case using cursor_ok_same [of "write_operation_drop g (cs_write t)" t] by simp
next
  case (file_run_device s t k)
  then show ?case
    using write_inv_cong [of "(cs_write t)\<lparr>w_dev := k\<rparr>" "cs_write t"] by (simp add: cursor_ok_def lpos_def)
next
  case (file_run_written s t k)
  then have t: "cursor_ok fcap kpos kdata t" "reconciled t" by (auto simp: cursor_ok_def reconciled_def)
  then show ?case using reconciled_ok [OF t] driver_wake_same(4) [of k "cs_write t"] by (simp add: cursor_ok_def)
qed

end

subsection \<open>A file in memory\<close>

text \<open>Contents and a cursor, both within the range of a file offset; operations complete when they are
  polled for the second time.\<close>

record mem_file =
  mf_data :: "byte list"
  mf_pos :: nat

definition off_max :: nat where
  "off_max = 2 ^ 63 - 1"

definition mf_cursor :: "mem_file \<Rightarrow> nat" where
  "mf_cursor k = min (mf_pos k) off_max"

definition mf_contents :: "mem_file \<Rightarrow> byte list" where
  "mf_contents k = take off_max (mf_data k)"

definition mf_src :: "mem_file \<Rightarrow> byte list" where
  "mf_src k = drop (mf_cursor k) (mf_contents k)"

definition mf_start :: "mem_file \<Rightarrow> nat \<Rightarrow> mem_file \<times> (nat \<times> bool)" where
  "mf_start k n = (k, (n, False))"

definition mf_poll :: "(mem_file, nat \<times> bool, byte list) future" where
  "mf_poll k f = (case f of
     (n, False) \<Rightarrow> (k, (n, True), Pending)
   | (n, True) \<Rightarrow> (k\<lparr>mf_pos := mf_cursor k + length (take n (mf_src k))\<rparr>, (n, True), Ready (Ok (take n (mf_src k)))))"

definition mf_lseek :: "mem_file lseek" where
  "mf_lseek k whence off =
     (let target = (case whence of SEEK_SET \<Rightarrow> 0 | SEEK_END \<Rightarrow> int (length (mf_contents k)) | SEEK_CUR \<Rightarrow> int (mf_cursor k)) + off in
      if target < 0 \<or> int off_max < target then (k, - 1, 22) else (k\<lparr>mf_pos := nat target\<rparr>, target, 0))"

definition mf_write_start :: "mem_file \<Rightarrow> byte list \<Rightarrow> mem_file \<times> (byte list \<times> bool)" where
  "mf_write_start k bytes = (k, (bytes, False))"

definition mf_write_poll :: "(mem_file, byte list \<times> bool, nat) future" where
  "mf_write_poll k f = (case f of
     (bytes, False) \<Rightarrow> (k, (bytes, True), Pending)
   | (bytes, True) \<Rightarrow>
       (\<lparr>mf_data = take (mf_cursor k) (mf_data k) @ bytes @ drop (mf_cursor k + length bytes) (mf_data k),
         mf_pos = mf_cursor k + length bytes\<rparr>, (bytes, True), Ready (Ok (length bytes))))"

lemma mf_read_cursor: "mf_cursor k + length (take n (mf_src k)) \<le> off_max"
  by (auto simp: mf_cursor_def mf_src_def mf_contents_def)

lemma mf_read_moves:
  assumes "mf_poll k f = (k', f', Ready (Ok data))"
  shows "mf_cursor k' = mf_cursor k + length data" "mf_contents k' = mf_contents k" "data = take (fst f) (mf_src k)"
  using assms mf_read_cursor [of k "fst f"]
  by (cases f; auto simp: mf_poll_def mf_cursor_def mf_contents_def mf_src_def split: bool.splits)+

interpretation mem_file: file_device mf_start mf_poll mf_src fst mf_cursor mf_contents mf_lseek
proof
  fix k k' :: mem_file and f f' n e off and data :: "byte list"
  show "mf_src k' = mf_src k \<and> fst f = n" if "mf_start k n = (k', f)" using that by (auto simp: mf_start_def)
  show "mf_src k = data @ mf_src k' \<and> length data \<le> fst f" if "mf_poll k f = (k', f', Ready (Ok data))"
    using mf_read_moves [OF that] by (simp add: mf_src_def)
      (metis add.commute append_take_drop_id drop_drop length_take min.cobounded1 append_eq_conv_conj length_drop take_drop)
  show "mf_src k = []" if "mf_poll k f = (k', f', Ready (Ok []))" "0 < fst f"
    using mf_read_moves(3) [OF that(1)] that(2) by simp
  show "mf_src k' = mf_src k" "mf_cursor k' = mf_cursor k \<and> mf_contents k' = mf_contents k"
    if "mf_poll k f = (k', f', Ready (Err e))"
    using that by (cases f; auto simp: mf_poll_def split: bool.splits)+
  show "mf_src k' = mf_src k \<and> fst f' = fst f" "mf_cursor k' = mf_cursor k \<and> mf_contents k' = mf_contents k"
    if "mf_poll k f = (k', f', Pending)"
    using that by (cases f; auto simp: mf_poll_def split: bool.splits)+
  show "mf_src k = drop (mf_cursor k) (mf_contents k)" by (simp add: mf_src_def)
  show "mf_cursor k < 2 ^ 63" by (simp add: mf_cursor_def off_max_def)
  show "mf_cursor k' = mf_cursor k \<and> mf_contents k' = mf_contents k" if "mf_start k n = (k', f)"
    using that by (simp add: mf_start_def)
  show "mf_cursor k' = mf_cursor k + length data \<and> mf_contents k' = mf_contents k" if "mf_poll k f = (k', f', Ready (Ok data))"
    using mf_read_moves [OF that] by simp
  show "\<exists>k' e. mf_lseek k SEEK_CUR off = (k', int (mf_cursor k) + off, e) \<and> int (mf_cursor k') = int (mf_cursor k) + off
      \<and> mf_contents k' = mf_contents k" if "0 \<le> int (mf_cursor k) + off" "off \<le> 0"
  proof -
    have "int (mf_cursor k) + off \<le> int off_max" using that(2) by (simp add: mf_cursor_def)
    then show ?thesis using that(1)
      by (auto simp: mf_lseek_def Let_def mf_cursor_def [of "k\<lparr>mf_pos := _\<rparr>"] mf_contents_def)
  qed
qed

text \<open>A file of five bytes: three have been read for a caller that took one of them.\<close>

definition read_ahead :: "(mem_file, nat \<times> bool, byte list \<times> bool, unit) cursor_state" where
  "read_ahead = \<lparr>cs_read = read_state_new\<lparr>rs_overflow := Some \<lparr>ro_data = [1, 2, 3], ro_pos = 1\<rparr>\<rparr>,
     cs_write = \<lparr>w_dev = \<lparr>mf_data = [1, 2, 3, 4, 5], mf_pos = 3\<rparr>, w_live = [tok 1 \<mapsto> []], w_next = 2, w_state = write_state_new,
       w_log = [], w_woken = []\<rparr>\<rparr>"

lemma read_ahead_ok:
  "cursor_ok fst mf_cursor mf_contents read_ahead" "lpos mf_cursor read_ahead = 1"
  "tracked_live (cs_write read_ahead) (tok 1)" "ws_operation (w_state (cs_write read_ahead)) = None"
  by (simp_all add: read_ahead_def cursor_ok_def lpos_def mf_cursor_def mf_contents_def off_max_def overflow_rest_def
      read_state_new_def direction_shutdown_new_def rs_inv_def write_inv_def write_state_new_def queued_def op_in_flight_def
      tracked_live_def)

lemma read_ahead_read:
  "map_option (\<lambda>(t, buf', p). p) (file_poll_read mf_start mf_poll mf_write_poll 7 read_ahead [0, 0, 0]) = Some (Ready (Ok 2))"
  by (simp add: read_ahead_def file_poll_read_def cursor_poll_read_slice_def poll_drain.simps cleanup_cancelled_def
      write_state_new_def upd_def read_state_new_def direction_shutdown_new_def poll_with_def ro_remaining_def ro_front_def
      ro_advance_def checked_sub_def slice_def Let_def)

lemma read_ahead_write:
  "\<exists>t. file_poll_write_operation mf_write_start mf_write_poll mf_poll mf_lseek 7 (10, [9]) (tok 1) read_ahead = Some (t, Pending)
     \<and> ws_operation (w_state (cs_write t)) \<noteq> None \<and> rs_overflow (cs_read t) = None \<and> rs_operation (cs_read t) = None
     \<and> \<not> same_writes (cs_write read_ahead) (cs_write t)"
  by (simp add: read_ahead_def file_poll_write_operation_def cursor_poll_write_def reconcile_read_def read_poll_reconcile_def
      read_state_new_def ro_remaining_def checked_sub_def rewind_file_cursor_def seek_def mf_lseek_def mf_cursor_def off_max_def
      mf_write_start_def mf_write_poll_def write_eval same_writes_def)

subsection \<open>Correctness of the shared cursor\<close>


text \<open>Sequential reads deliver the file. With no write in flight, a read returns without panicking; what it
  delivers is exactly the contents at the position the callers see, which moves by the number of bytes delivered;
  nothing delivered into a non-empty buffer means the end of the file; a pending or failed read
  leaves the position where it was, and no read delivers anything while a live write waits.
\<close>

theorem file_read_sequential:
  assumes "file_device rstart rpoll ksrc fcap kpos kdata lseek" and "cursor_ok fcap kpos kdata s"
    and "ws_operation (w_state (cs_write s)) = None" and "buf \<noteq> []" and "length buf < u64_modulus"
  shows "\<exists>t buf' p. file_poll_read rstart rpoll wpoll cx s buf = Some (t, buf', p) \<and> cursor_ok fcap kpos kdata t
    \<and> length buf' = length buf \<and> kdata (w_dev (cs_write t)) = kdata (w_dev (cs_write s)) \<and>
    (case p of
       Ready (Inr n) \<Rightarrow> n \<le> length buf \<and> waiting (cs_write s) = [] \<and> lpos kpos t = lpos kpos s + n
         \<and> take n buf' = take n (drop (lpos kpos s) (kdata (w_dev (cs_write s))))
         \<and> (n = 0 \<longrightarrow> drop (lpos kpos s) (kdata (w_dev (cs_write s))) = [])
     | _ \<Rightarrow> lpos kpos t = lpos kpos s)"
proof (rule file_device.cursor_poll_read_spec [OF assms(1,2,4,5), of wpoll cx])
  fix t buf' p
  assume t: "cursor_poll_read_slice rstart rpoll wpoll cx s buf = Some (t, buf', p)" "cursor_ok fcap kpos kdata t"
    "length buf' = length buf"
    and ready: "\<And>n. p = Ready (Ok n) \<Longrightarrow> n \<le> length buf \<and> ws_operation (w_state (cs_write t)) = None
      \<and> waiting (cs_write s) = [] \<and> n \<le> lpos kpos t \<and> (ws_operation (w_state (cs_write s)) = None \<longrightarrow> lpos kpos t = lpos kpos s + n)
      \<and> take n buf' = take n (drop (lpos kpos t - n) (kdata (w_dev (cs_write t))))
      \<and> (n = 0 \<longrightarrow> drop (lpos kpos t) (kdata (w_dev (cs_write t))) = [])"
    and idle: "ws_operation (w_state (cs_write s)) = None \<Longrightarrow> kdata (w_dev (cs_write t)) = kdata (w_dev (cs_write s))
      \<and> ((\<forall>n. p \<noteq> Ready (Ok n)) \<longrightarrow> lpos kpos t = lpos kpos s)"
  have "file_poll_read rstart rpoll wpoll cx s buf = Some (t, buf', p)" using t(1) assms(4) by (simp add: file_poll_read_def)
  then show ?thesis
    using t(2,3) ready idle [OF assms(3)] assms(3)
    by (intro exI [of _ t] exI [of _ buf'] exI [of _ p]) (cases p rule: io_poll_cases; auto)
qed

theorem file_read_sequential_witness:
  "\<exists>t buf' p. file_poll_read mf_start mf_poll mf_write_poll 7 read_ahead [0, 0, 0] = Some (t, buf', p)
     \<and> p = Ready (Ok 2) \<and> take 2 buf' = [2, 3] \<and> lpos mf_cursor t = 3"
proof -
  have c: "mf_contents (w_dev (cs_write read_ahead)) = [1, 2, 3, 4, 5]"
    by (simp add: read_ahead_def mf_contents_def off_max_def)
  obtain t buf' where t: "file_poll_read mf_start mf_poll mf_write_poll 7 read_ahead [0, 0, 0] = Some (t, buf', Ready (Ok 2))"
    using read_ahead_read by auto
  show ?thesis
    using file_read_sequential [OF mem_file.file_device_axioms read_ahead_ok(1,4), of "[0, 0, 0]" mf_write_poll 7] t
    by (auto simp: u64_modulus_def read_ahead_ok(2) c)
qed

text \<open>A write lands where the callers are. A poll of a live write on a shared file returns without panicking.
  It waits, with the position unchanged, while a read is in flight; otherwise what was read ahead is given up
  and the write is polled with the kernel's cursor at exactly the position the callers see, the contents unchanged.
\<close>

theorem file_write_at_cursor:
  assumes "file_device rstart rpoll ksrc fcap kpos kdata lseek" and "cursor_ok fcap kpos kdata s"
    and "tracked_live (cs_write s) g" and "snd buf \<noteq> []"
  shows "\<exists>t p. file_poll_write_operation wstart wpoll rpoll lseek cx buf g s = Some (t, p) \<and> cursor_ok fcap kpos kdata t \<and>
    (p = Pending \<and> same_writes (cs_write s) (cs_write t) \<and> lpos kpos t = lpos kpos s
       \<and> kdata (w_dev (cs_write t)) = kdata (w_dev (cs_write s)) \<and> ws_operation (w_state (cs_write s)) = None
     \<or> reconciled t \<and> (\<exists>w. same_writes (cs_write s) w \<and> kpos (w_dev w) = lpos kpos s
       \<and> kdata (w_dev w) = kdata (w_dev (cs_write s)) \<and> poll_write wstart wpoll cx g buf w = Some (cs_write t, p)))"
  by (rule file_device.cursor_poll_write_spec [OF assms(1,2), of g wstart wpoll cx buf])
    (use assms(3,4) in \<open>auto simp: file_poll_write_operation_def\<close>)

theorem file_write_at_cursor_witness:
  "\<exists>t p w. file_poll_write_operation mf_write_start mf_write_poll mf_poll mf_lseek 7 (10, [9]) (tok 1) read_ahead = Some (t, p)
     \<and> mf_cursor (w_dev w) = 1 \<and> poll_write mf_write_start mf_write_poll 7 (tok 1) (10, [9]) w = Some (cs_write t, p)"
  using file_write_at_cursor [OF mem_file.file_device_axioms read_ahead_ok(1,3), of "(10, [9])" mf_write_start mf_write_poll 7]
    read_ahead_write read_ahead_ok(2) by (auto simp: reconciled_def)


end
