(* ===== verification/Blocking_Pool.thy ===== *)
theory Blocking_Pool
  imports Remote_Queue Transition Task Pending_Read
begin

text \<open>
  The pool of threads for blocking work: \<open>src/src/sys/blocking.rs\<close> and \<open>spawn_blocking\<close> of \<open>src/src/task.rs\<close>.

  A submission counts itself as an operation of the submitting runtime, boxes the job and tries to send it to
  the bounded queue; a refused job is dropped. A worker receives one job at a time, runs its work, hands the
  outcome to its completion, releases the operation, and survives the panics of both. Jobs live in a table;
  the queue and the workers refer to them by number. Work and completion are user code: a step of the
  relation chooses what they do. Creating threads is a parameter: which of the spawns fail.
\<close>

subsection \<open>Jobs\<close>

text \<open>The result of \<open>catch_unwind\<close>: a panic's payload is not represented.\<close>

type_synonym 'r thread_result = "(unit, 'r) result"

type_synonym 'c threads = "nat \<Rightarrow> 'c shared"

text \<open>\<open>OwnedBlockingJob\<close>: the runtime it keeps alive, and whether its work and its completion are still there. A raw
  task is only work.\<close>

record owned_job =
  j_owner :: "nat option"
  j_work :: bool
  j_complete :: bool
  j_raw :: bool

definition liveness_new :: "nat \<Rightarrow> 'c threads \<Rightarrow> 'c threads" where
  "liveness_new owner ts = ts(owner := begin_async_operation (ts owner))"

definition owned_job_new :: "nat \<Rightarrow> owned_job" where
  "owned_job_new owner = \<lparr>j_owner = Some owner, j_work = True, j_complete = True, j_raw = False\<rparr>"

definition raw_job :: owned_job where
  "raw_job = \<lparr>j_owner = None, j_work = True, j_complete = False, j_raw = True\<rparr>"

text \<open>\<open>BlockingJobLiveness::finish\<close>, also the body of the two drops.\<close>

definition liveness_finish :: "owned_job \<Rightarrow> 'c threads \<Rightarrow> owned_job \<times> 'c threads" where
  "liveness_finish j ts = (case j_owner j of
     Some owner \<Rightarrow> (j\<lparr>j_owner := None\<rparr>, ts(owner := finish_async_operation (ts owner)))
   | None \<Rightarrow> (j, ts))"

definition owned_job_drop :: "owned_job \<Rightarrow> 'c threads \<Rightarrow> 'c threads" where
  "owned_job_drop j ts = snd (liveness_finish j ts)"

text \<open>The two \<open>take().expect(...)\<close> of \<open>OwnedBlockingJob::run\<close>.\<close>

definition take_work :: "owned_job \<Rightarrow> owned_job panics" where
  "take_work j = (if j_work j then Some (j\<lparr>j_work := False\<rparr>) else panic)"

definition take_complete :: "owned_job \<Rightarrow> owned_job panics" where
  "take_complete j = (if j_complete j then Some (j\<lparr>j_complete := False\<rparr>) else panic)"

subsection \<open>The pool\<close>

definition QUEUE_CAPACITY :: nat where "QUEUE_CAPACITY = 1024"
definition MIN_WORKERS :: nat where "MIN_WORKERS = 2"
definition MAX_WORKERS :: nat where "MAX_WORKERS = 32"

text \<open>\<open>parsed\<close> is the number in the environment variable, if it is set and parses; \<open>available\<close> is what the
  system reports.\<close>

definition worker_count :: "nat option \<Rightarrow> nat option \<Rightarrow> nat" where
  "worker_count parsed available =
     (let fallback = max MIN_WORKERS (min MAX_WORKERS (case available of Some n \<Rightarrow> n | None \<Rightarrow> MIN_WORKERS)) in
      case parsed of Some n \<Rightarrow> (if 1 \<le> n then min n MAX_WORKERS else fallback) | None \<Rightarrow> fallback)"

text \<open>\<open>to_string\<close> of an error, with the system's texts as a parameter.\<close>

definition error_text :: "(int \<Rightarrow> string) \<Rightarrow> io_error \<Rightarrow> string" where
  "error_text os_text e = (case e of Io_Error _ m \<Rightarrow> m | Os_Error n \<Rightarrow> os_text n)"

text \<open>The outcomes of the attempts to spawn a thread: the number spawned, or the error of the pool, of the kind
  \<open>Other\<close> (\<open>OtherKind 0\<close>) with the text of the last failure.\<close>

definition create_pool :: "(int \<Rightarrow> string) \<Rightarrow> (io_error, unit) result list \<Rightarrow> (io_error, nat) result panics" where
  "create_pool os_text attempts =
     (let spawned = length (filter (\<lambda>r. r = Ok ()) attempts);
          last_error = find (\<lambda>r. r \<noteq> Ok ()) (rev attempts) in
      if spawned = 0
      then (case last_error of Some (Inl e) \<Rightarrow> Some (Err (Io_Error (OtherKind 0) (error_text os_text e))) | _ \<Rightarrow> panic)
      else Some (Ok spawned))"

text \<open>What a worker is doing: waiting in \<open>recv\<close>, or at one of the three parts of \<open>run\<close>.\<close>

datatype 'r bworker = BIdle | BWork nat | BComplete nat "'r thread_result" | BFinish nat bool

datatype pool_cell = Unset | PoolFailed io_error | PoolRunning

record ('c, 'r) bpool =
  bp_pool :: pool_cell
  bp_queue :: "nat list"
  bp_workers :: "'r bworker list"
  bp_jobs :: "nat \<rightharpoonup> owned_job"
  bp_submitting :: "nat set"
  bp_next :: nat
  bp_owned :: "nat set"
  bp_threads :: "'c threads"
  bp_begun :: nat
  bp_others :: "nat \<Rightarrow> nat"
  bp_accepted :: "nat set"
  bp_refused :: "nat \<rightharpoonup> io_error"
  bp_worked :: "(nat \<times> 'r thread_result) list"
  bp_completed :: "(nat \<times> 'r thread_result) list"

text \<open>\<open>BlockingPool::spawn\<close>: \<open>try_send\<close> on the bounded queue, refused while it is full and once every worker, and
  with them the receiver, is gone.\<close>

definition pool_spawn :: "nat \<Rightarrow> ('c, 'r) bpool \<Rightarrow> (io_error, nat list) result" where
  "pool_spawn i s =
     (if bp_workers s = [] then Err (Io_Error BrokenPipe ''runite blocking worker pool has stopped'')
      else if QUEUE_CAPACITY \<le> length (bp_queue s) then Err (Io_Error WouldBlock ''runite blocking worker queue is full'')
      else Ok (bp_queue s @ [i]))"

text \<open>\<open>pool()\<close> after its initialisation.\<close>

definition pool_submit :: "nat \<Rightarrow> ('c, 'r) bpool \<Rightarrow> (io_error, nat list) result" where
  "pool_submit i s = (case bp_pool s of
     PoolFailed e \<Rightarrow> Err e
   | _ \<Rightarrow> pool_spawn i s)"

text \<open>\<open>spawn_blocking_owned_with\<close> up to the submission.\<close>

definition spawn_begin :: "nat \<Rightarrow> ('c, 'r) bpool \<Rightarrow> ('c, 'r) bpool" where
  "spawn_begin owner s =
     s\<lparr>bp_threads := liveness_new owner (bp_threads s), bp_begun := Suc (bp_begun s),
       bp_jobs := (bp_jobs s)(bp_next s \<mapsto> owned_job_new owner), bp_submitting := insert (bp_next s) (bp_submitting s),
       bp_owned := insert (bp_next s) (bp_owned s), bp_next := Suc (bp_next s)\<rparr>"

text \<open>The raw \<open>spawn_blocking\<close>: the task alone.\<close>

definition spawn_raw :: "('c, 'r) bpool \<Rightarrow> ('c, 'r) bpool" where
  "spawn_raw s =
     s\<lparr>bp_jobs := (bp_jobs s)(bp_next s \<mapsto> raw_job), bp_submitting := insert (bp_next s) (bp_submitting s),
       bp_next := Suc (bp_next s)\<rparr>"

text \<open>The submission of job \<open>i\<close>: it moves to the queue, or is dropped and the error returned.\<close>

definition spawn_end :: "nat \<Rightarrow> owned_job \<Rightarrow> ('c, 'r) bpool \<Rightarrow> ('c, 'r) bpool \<times> unit io_result" where
  "spawn_end i j s =
     (let s = s\<lparr>bp_submitting := bp_submitting s - {i}\<rparr> in
      case pool_submit i s of
        Inr q \<Rightarrow> (s\<lparr>bp_queue := q, bp_accepted := insert i (bp_accepted s)\<rparr>, Ok ())
      | Inl e \<Rightarrow> (s\<lparr>bp_threads := owned_job_drop j (bp_threads s), bp_jobs := (bp_jobs s)(i := None),
                    bp_refused := (bp_refused s)(i \<mapsto> e)\<rparr>, Err e))"

definition put_worker :: "nat \<Rightarrow> 'r bworker \<Rightarrow> ('c, 'r) bpool \<Rightarrow> ('c, 'r) bpool" where
  "put_worker w x s = s\<lparr>bp_workers := (bp_workers s)[w := x]\<rparr>"

text \<open>The four parts of a worker's turn: receiving a job, running its work, running its completion, and releasing the
  runtime. After the last, the worker is back at \<open>recv\<close> whether or not the completion panicked.\<close>

definition worker_recv :: "nat \<Rightarrow> ('c, 'r) bpool \<Rightarrow> ('c, 'r) bpool" where
  "worker_recv w s = (case bp_queue s of [] \<Rightarrow> s | i # q \<Rightarrow> put_worker w (BWork i) (s\<lparr>bp_queue := q\<rparr>))"

definition worker_work :: "nat \<Rightarrow> nat \<Rightarrow> owned_job \<Rightarrow> 'r thread_result \<Rightarrow> ('c, 'r) bpool \<Rightarrow> ('c, 'r) bpool panics" where
  "worker_work w i j outcome s = do {
     j \<leftarrow> take_work j;
     Some (put_worker w (BComplete i outcome)
       (s\<lparr>bp_jobs := (bp_jobs s)(i \<mapsto> j), bp_worked := bp_worked s @ [(i, outcome)]\<rparr>)) }"

definition worker_raw :: "nat \<Rightarrow> nat \<Rightarrow> owned_job \<Rightarrow> 'r thread_result \<Rightarrow> ('c, 'r) bpool \<Rightarrow> ('c, 'r) bpool" where
  "worker_raw w i j outcome s =
     put_worker w BIdle (s\<lparr>bp_jobs := (bp_jobs s)(i := None), bp_worked := bp_worked s @ [(i, outcome)]\<rparr>)"

definition worker_complete :: "nat \<Rightarrow> nat \<Rightarrow> owned_job \<Rightarrow> 'r thread_result \<Rightarrow> bool \<Rightarrow> ('c, 'r) bpool \<Rightarrow> ('c, 'r) bpool panics" where
  "worker_complete w i j outcome panicked s = do {
     j \<leftarrow> take_complete j;
     Some (put_worker w (BFinish i panicked)
       (s\<lparr>bp_jobs := (bp_jobs s)(i \<mapsto> j), bp_completed := bp_completed s @ [(i, outcome)]\<rparr>)) }"

definition worker_finish :: "nat \<Rightarrow> nat \<Rightarrow> owned_job \<Rightarrow> ('c, 'r) bpool \<Rightarrow> ('c, 'r) bpool" where
  "worker_finish w i j s =
     (let (j, ts) = liveness_finish j (bp_threads s) in
      put_worker w BIdle (s\<lparr>bp_threads := owned_job_drop j ts, bp_jobs := (bp_jobs s)(i := None)\<rparr>))"

inductive bpool_step :: "('c, 'r) bpool \<Rightarrow> unit \<Rightarrow> ('c, 'r) bpool \<Rightarrow> bool" where
  bp_begin: "bpool_step s () (spawn_begin owner s)"
| bp_begin_raw: "bpool_step s () (spawn_raw s)"
| bp_init: "bp_pool s = Unset \<Longrightarrow> i \<in> bp_submitting s \<Longrightarrow> length attempts = worker_count parsed available \<Longrightarrow>
    create_pool os_text attempts = Some r \<Longrightarrow>
    bpool_step s () (case r of Inr n \<Rightarrow> s\<lparr>bp_pool := PoolRunning, bp_workers := replicate n BIdle\<rparr>
      | Inl e \<Rightarrow> s\<lparr>bp_pool := PoolFailed e\<rparr>)"
| bp_submit: "bp_pool s \<noteq> Unset \<Longrightarrow> i \<in> bp_submitting s \<Longrightarrow> bp_jobs s i = Some j \<Longrightarrow> bpool_step s () (fst (spawn_end i j s))"
| bp_recv: "w < length (bp_workers s) \<Longrightarrow> bp_workers s ! w = BIdle \<Longrightarrow> bp_queue s \<noteq> [] \<Longrightarrow> bpool_step s () (worker_recv w s)"
| bp_work: "w < length (bp_workers s) \<Longrightarrow> bp_workers s ! w = BWork i \<Longrightarrow> bp_jobs s i = Some j \<Longrightarrow> \<not> j_raw j \<Longrightarrow>
    worker_work w i j outcome s = Some t \<Longrightarrow> bpool_step s () t"
| bp_raw: "w < length (bp_workers s) \<Longrightarrow> bp_workers s ! w = BWork i \<Longrightarrow> bp_jobs s i = Some j \<Longrightarrow> j_raw j \<Longrightarrow>
    bpool_step s () (worker_raw w i j outcome s)"
| bp_complete: "w < length (bp_workers s) \<Longrightarrow> bp_workers s ! w = BComplete i outcome \<Longrightarrow> bp_jobs s i = Some j \<Longrightarrow>
    worker_complete w i j outcome panicked s = Some t \<Longrightarrow> bpool_step s () t"
| bp_finish: "w < length (bp_workers s) \<Longrightarrow> bp_workers s ! w = BFinish i panicked \<Longrightarrow> bp_jobs s i = Some j \<Longrightarrow>
    bpool_step s () (worker_finish w i j s)"
| bp_other_begin: "bpool_step s () (s\<lparr>bp_threads := (bp_threads s)(owner := begin_async_operation (bp_threads s owner)),
      bp_others := (bp_others s)(owner := Suc (bp_others s owner)), bp_begun := Suc (bp_begun s)\<rparr>)"
| bp_other_end: "0 < bp_others s owner \<Longrightarrow>
    bpool_step s () (s\<lparr>bp_threads := (bp_threads s)(owner := finish_async_operation (bp_threads s owner)),
      bp_others := (bp_others s)(owner := bp_others s owner - 1), bp_begun := bp_begun s\<rparr>)"

subsection \<open>\<open>spawn_blocking\<close>\<close>

text \<open>What the completion of \<open>spawn_blocking\<close> sends, and what the join handle makes of what it receives.\<close>

definition blocking_send :: "'r thread_result \<Rightarrow> (unit, 'r) result" where
  "blocking_send result = (case result of Inr v \<Rightarrow> Ok v | Inl _ \<Rightarrow> Err ())"

definition blocking_join_poll :: "('e, (unit, 'r) result) result poll \<Rightarrow> (join_error, 'r) result poll" where
  "blocking_join_poll p = (case p of
     Pending \<Rightarrow> Pending
   | Ready (Inr (Inr v)) \<Rightarrow> Ready (Ok v)
   | Ready (Inr (Inl _)) \<Rightarrow> Ready (Err JPanicked)
   | Ready (Inl _) \<Rightarrow> Ready (Err JCancelled))"

definition is_retryable :: "(int \<Rightarrow> error_kind) \<Rightarrow> io_error \<Rightarrow> bool" where
  "is_retryable os_kind e \<longleftrightarrow> error_kind_of os_kind e = WouldBlock"

subsection \<open>The invariant\<close>

fun holds :: "'r bworker \<Rightarrow> nat \<Rightarrow> bool" where
  "holds BIdle i = False"
| "holds (BWork k) i = (k = i)"
| "holds (BComplete k _) i = (k = i)"
| "holds (BFinish k _) i = (k = i)"

definition held :: "'r bworker list \<Rightarrow> nat set" where
  "held ws = {i. \<exists>w < length ws. holds (ws ! w) i}"

text \<open>Every job is in exactly one place.\<close>

definition places_ok :: "('c, 'r) bpool \<Rightarrow> bool" where
  "places_ok s \<longleftrightarrow> dom (bp_jobs s) = bp_submitting s \<union> set (bp_queue s) \<union> held (bp_workers s)
     \<and> distinct (bp_queue s) \<and> bp_submitting s \<inter> (set (bp_queue s) \<union> held (bp_workers s)) = {}
     \<and> set (bp_queue s) \<inter> held (bp_workers s) = {}
     \<and> (\<forall>w < length (bp_workers s). \<forall>v < length (bp_workers s). \<forall>i.
         holds (bp_workers s ! w) i \<longrightarrow> holds (bp_workers s ! v) i \<longrightarrow> w = v)"

text \<open>How far each job has come.\<close>

definition fresh :: "('c, 'r) bpool \<Rightarrow> nat \<Rightarrow> bool" where
  "fresh s i \<longleftrightarrow> i \<notin> fst ` set (bp_worked s) \<and> i \<notin> fst ` set (bp_completed s) \<and>
     (case bp_jobs s i of None \<Rightarrow> False
      | Some j \<Rightarrow> if i \<in> bp_owned s then \<exists>owner. j = owned_job_new owner else j = raw_job)"

fun stage_ok :: "('c, 'r) bpool \<Rightarrow> 'r bworker \<Rightarrow> bool" where
  "stage_ok s BIdle = True"
| "stage_ok s (BWork i) = fresh s i"
| "stage_ok s (BComplete i outcome) = (i \<in> bp_owned s \<and> (i, outcome) \<in> set (bp_worked s)
     \<and> i \<notin> fst ` set (bp_completed s) \<and> (\<exists>owner. bp_jobs s i = Some ((owned_job_new owner)\<lparr>j_work := False\<rparr>)))"
| "stage_ok s (BFinish i _) = (i \<in> bp_owned s \<and> i \<in> fst ` set (bp_completed s)
     \<and> (\<exists>owner. bp_jobs s i = Some ((owned_job_new owner)\<lparr>j_work := False, j_complete := False\<rparr>)))"

definition stages_ok :: "('c, 'r) bpool \<Rightarrow> bool" where
  "stages_ok s \<longleftrightarrow> (\<forall>i \<in> bp_submitting s \<union> set (bp_queue s). fresh s i) \<and> (\<forall>x \<in> set (bp_workers s). stage_ok s x)"

text \<open>What became of each submission.\<close>

definition outcomes_ok :: "('c, 'r) bpool \<Rightarrow> bool" where
  "outcomes_ok s \<longleftrightarrow> {..<bp_next s} = bp_submitting s \<union> bp_accepted s \<union> dom (bp_refused s)
     \<and> bp_submitting s \<inter> (bp_accepted s \<union> dom (bp_refused s)) = {} \<and> bp_accepted s \<inter> dom (bp_refused s) = {}
     \<and> set (bp_queue s) \<union> held (bp_workers s) \<subseteq> bp_accepted s \<and> bp_owned s \<subseteq> {..<bp_next s}
     \<and> distinct (map fst (bp_worked s)) \<and> distinct (map fst (bp_completed s)) \<and> set (bp_completed s) \<subseteq> set (bp_worked s)
     \<and> fst ` set (bp_worked s) \<subseteq> bp_accepted s
     \<and> (\<forall>i \<in> bp_accepted s. bp_jobs s i = None \<longrightarrow> i \<in> fst ` set (bp_worked s)
          \<and> (i \<in> bp_owned s \<longleftrightarrow> i \<in> fst ` set (bp_completed s)))"

definition bpool_ok :: "('c, 'r) bpool \<Rightarrow> bool" where
  "bpool_ok s \<longleftrightarrow> length (bp_queue s) \<le> QUEUE_CAPACITY
     \<and> (if bp_pool s = PoolRunning then 1 \<le> length (bp_workers s) \<and> length (bp_workers s) \<le> MAX_WORKERS
        else bp_workers s = [] \<and> bp_queue s = [])"

definition live_jobs :: "('c, 'r) bpool \<Rightarrow> nat \<Rightarrow> nat set" where
  "live_jobs s owner = {i. \<exists>j. bp_jobs s i = Some j \<and> j_owner j = Some owner}"

definition counts_ok :: "('c, 'r) bpool \<Rightarrow> bool" where
  "counts_ok s \<longleftrightarrow> finite (dom (bp_jobs s)) \<and> (\<forall>owner.
     pending_ops (bp_threads s owner) = bp_others s owner + card (live_jobs s owner)
     \<and> bp_others s owner + card (live_jobs s owner) \<le> bp_begun s)"

definition bpool_inv :: "('c, 'r) bpool \<Rightarrow> bool" where
  "bpool_inv s \<longleftrightarrow> places_ok s \<and> stages_ok s \<and> outcomes_ok s \<and> bpool_ok s \<and> counts_ok s"

definition bpool_init :: "('c, 'r) bpool \<Rightarrow> bool" where
  "bpool_init s \<longleftrightarrow> (\<exists>ts. (\<forall>owner. pending_ops (ts owner) = 0) \<and>
     s = \<lparr>bp_pool = Unset, bp_queue = [], bp_workers = [], bp_jobs = Map.empty, bp_submitting = {}, bp_next = 0, bp_owned = {},
          bp_threads = ts, bp_begun = 0, bp_others = (\<lambda>_. 0), bp_accepted = {}, bp_refused = Map.empty, bp_worked = [],
          bp_completed = []\<rparr>)"

lemma bpool_inv_init: "bpool_init s \<Longrightarrow> bpool_inv s"
  by (auto simp: bpool_init_def bpool_inv_def places_ok_def stages_ok_def outcomes_ok_def bpool_ok_def counts_ok_def
      live_jobs_def held_def)

text \<open>What a step that moves one job leaves alone.\<close>

definition agree :: "('c, 'r) bpool \<Rightarrow> ('c, 'r) bpool \<Rightarrow> nat \<Rightarrow> bool" where
  "agree s t i \<longleftrightarrow> bp_jobs t i = bp_jobs s i \<and> (i \<in> bp_owned t \<longleftrightarrow> i \<in> bp_owned s)
     \<and> (\<forall>out. (i, out) \<in> set (bp_worked t) \<longleftrightarrow> (i, out) \<in> set (bp_worked s))
     \<and> (\<forall>out. (i, out) \<in> set (bp_completed t) \<longleftrightarrow> (i, out) \<in> set (bp_completed s))"

lemma agree_logs:
  "agree s t i \<Longrightarrow> i \<in> fst ` set (bp_worked t) \<longleftrightarrow> i \<in> fst ` set (bp_worked s)"
  "agree s t i \<Longrightarrow> i \<in> fst ` set (bp_completed t) \<longleftrightarrow> i \<in> fst ` set (bp_completed s)"
  by (force simp: agree_def image_iff)+

lemma fresh_frame: "agree s t i \<Longrightarrow> fresh t i = fresh s i"
  using agree_logs [of s t i] by (auto simp: fresh_def agree_def split: option.splits)

lemma stage_frame:
  assumes "\<And>i. holds x i \<Longrightarrow> agree s t i" and "stage_ok s x"
  shows "stage_ok t x"
proof (cases x)
  case (BWork i)
  then show ?thesis using assms fresh_frame [of s t i] by simp
next
  case (BComplete i out)
  then show ?thesis using assms agree_logs [of s t i] by (simp add: agree_def)
next
  case (BFinish i p)
  then show ?thesis using assms agree_logs [of s t i] by (simp add: agree_def)
qed simp

lemma held_update:
  assumes "w < length ws" and "\<And>v i. v < length ws \<Longrightarrow> holds (ws ! w) i \<Longrightarrow> holds (ws ! v) i \<Longrightarrow> w = v"
  shows "held (ws[w := x]) = held ws - {i. holds (ws ! w) i} \<union> {i. holds x i}"
proof (intro set_eqI)
  fix i
  show "i \<in> held (ws[w := x]) \<longleftrightarrow> i \<in> held ws - {i. holds (ws ! w) i} \<union> {i. holds x i}"
  proof (cases "holds x i")
    case True
    then show ?thesis using assms(1) by (auto simp: held_def nth_list_update)
  next
    case False
    then have "i \<in> held (ws[w := x]) \<longleftrightarrow> (\<exists>v < length ws. v \<noteq> w \<and> holds (ws ! v) i)"
      by (auto simp: held_def) (metis nth_list_update_eq nth_list_update_neq)+
    also have "\<dots> \<longleftrightarrow> i \<in> held ws - {i. holds (ws ! w) i}"
      using assms by (auto simp: held_def)
    finally show ?thesis using False by simp
  qed
qed

lemma places_one:
  "places_ok s \<Longrightarrow> w < length (bp_workers s) \<Longrightarrow> v < length (bp_workers s) \<Longrightarrow> holds (bp_workers s ! w) i \<Longrightarrow>
   holds (bp_workers s ! v) i \<Longrightarrow> w = v"
  by (simp add: places_ok_def)

lemma held_in: "w < length ws \<Longrightarrow> holds (ws ! w) i \<Longrightarrow> i \<in> held ws"
  by (auto simp: held_def)

text \<open>A worker advances with the job it holds, and keeps it unless the job is gone.\<close>

lemma worker_places:
  assumes "places_ok s" and "w < length (bp_workers s)" and "\<And>k. holds (bp_workers s ! w) k \<longleftrightarrow> k = i"
    and "bp_workers t = (bp_workers s)[w := y]" and "bp_submitting t = bp_submitting s" and "bp_queue t = bp_queue s"
    and "\<And>k. holds y k \<longleftrightarrow> k = i \<and> bp_jobs t i \<noteq> None" and "\<And>k. k \<noteq> i \<Longrightarrow> bp_jobs t k = bp_jobs s k"
  shows "places_ok t"
proof -
  have i: "i \<in> held (bp_workers s)" using held_in [OF assms(2)] assms(3) by simp
  have h: "held (bp_workers t) = held (bp_workers s) - {i} \<union> {k. k = i \<and> bp_jobs t i \<noteq> None}"
    unfolding assms(4) using held_update [OF assms(2), of y] places_one [OF assms(1,2)] assms(3,7) by auto
  have "dom (bp_jobs t) = dom (bp_jobs s) - {i} \<union> {k. k = i \<and> bp_jobs t i \<noteq> None}"
    using assms(8) by (auto simp: domIff) (metis domIff not_None_eq)+
  moreover have "w' = v" if "w' < length (bp_workers s)" "v < length (bp_workers s)"
    "holds (bp_workers t ! w') k" "holds (bp_workers t ! v) k" for w' v k
    using that assms(2,3,4,7) places_one [OF assms(1)] by (auto simp: nth_list_update split: if_splits)
  ultimately show ?thesis using assms(1,4,5,6) h i unfolding places_ok_def by auto
qed

lemma worker_stages:
  assumes "places_ok s" and "stages_ok s" and "w < length (bp_workers s)" and "holds (bp_workers s ! w) i"
    and "bp_workers t = (bp_workers s)[w := y]" and "bp_submitting t = bp_submitting s" and "bp_queue t = bp_queue s"
    and "\<And>k. k \<noteq> i \<Longrightarrow> agree s t k" and "stage_ok t y"
  shows "stages_ok t"
proof -
  have i: "i \<in> held (bp_workers s)" by (rule held_in [OF assms(3,4)])
  have "fresh t k" if "k \<in> bp_submitting s \<union> set (bp_queue s)" for k
  proof -
    have "k \<noteq> i" using that i assms(1) by (auto simp: places_ok_def)
    then show ?thesis using that assms(2) fresh_frame [OF assms(8)] by (simp add: stages_ok_def)
  qed
  moreover have "stage_ok t x" if x: "x \<in> set (bp_workers t)" for x
  proof -
    obtain v where v: "v < length (bp_workers s)" "x = bp_workers t ! v"
      using x assms(5) by (auto simp: in_set_conv_nth)
    show ?thesis
    proof (cases "v = w")
      case True
      then show ?thesis using v assms(3,5,9) by simp
    next
      case False
      then have xs: "x = bp_workers s ! v" using v assms(5) by simp
      have "holds x k \<Longrightarrow> agree s t k" for k
        using assms(8) [of k] places_one [OF assms(1,3) v(1) assms(4)] False xs by auto
      moreover have "stage_ok s x" using assms(2) v(1) xs by (simp add: stages_ok_def)
      ultimately show ?thesis by (rule stage_frame)
    qed
  qed
  ultimately show ?thesis using assms(6,7) by (simp add: stages_ok_def)
qed

text \<open>The count of a runtime's operations.\<close>

lemma live_jobs_finite: "counts_ok s \<Longrightarrow> finite (live_jobs s owner)"
  by (rule finite_subset [of _ "dom (bp_jobs s)"]) (auto simp: live_jobs_def counts_ok_def)

lemma begin_pending:
  "pending_ops x < u64_modulus - 1 \<Longrightarrow> pending_ops (begin_async_operation x) = Suc (pending_ops x)"
  by (simp add: begin_async_operation_def wrapping_succ_def)

lemma finish_pending:
  "pending_ops x = Suc n \<Longrightarrow> n < u64_modulus - 1 \<Longrightarrow> pending_ops (finish_async_operation x) = n"
  using wrapping_pred_Suc [of n] by (simp add: finish_async_operation_def)

lemma counts_same:
  assumes "counts_ok s" and "\<And>owner. live_jobs t owner = live_jobs s owner" and "finite (dom (bp_jobs t))"
    and "bp_threads t = bp_threads s" and "bp_others t = bp_others s" and "bp_begun t = bp_begun s"
  shows "counts_ok t"
  using assms by (simp add: counts_ok_def)

lemma counts_finish:
  assumes "counts_ok s" and "bp_jobs s i = Some j" and "bp_begun s \<le> u64_modulus - 2"
    and "bp_threads t = owned_job_drop j (bp_threads s)" and "bp_jobs t = (bp_jobs s)(i := None)"
    and "bp_others t = bp_others s" and "bp_begun t = bp_begun s"
  shows "counts_ok t"
proof -
  have fin: "finite (live_jobs s owner)" for owner by (rule live_jobs_finite [OF assms(1)])
  have live: "live_jobs t owner = live_jobs s owner - {i}" for owner using assms(5) by (auto simp: live_jobs_def)
  have dom: "finite (dom (bp_jobs t))" using assms(1,5) by (simp add: counts_ok_def)
  show ?thesis
  proof (cases "j_owner j")
    case None
    then have "live_jobs t owner = live_jobs s owner" for owner using live assms(2) by (auto simp: live_jobs_def)
    then show ?thesis using assms None dom by (simp add: counts_ok_def owned_job_drop_def liveness_finish_def)
  next
    case (Some h)
    have i: "i \<in> live_jobs s owner \<longleftrightarrow> owner = h" for owner using assms(2) Some by (auto simp: live_jobs_def)
    have h: "card (live_jobs s h) = Suc (card (live_jobs t h))"
      unfolding live using i [of h] by (intro card.remove [OF fin]) simp
    have other: "live_jobs t owner = live_jobs s owner" if "owner \<noteq> h" for owner using live i that by auto
    have c: "pending_ops (bp_threads s owner) = bp_others s owner + card (live_jobs s owner)"
      "bp_others s owner + card (live_jobs s owner) \<le> bp_begun s" for owner using assms(1) by (auto simp: counts_ok_def)
    have "pending_ops (finish_async_operation (bp_threads s h)) = bp_others s h + card (live_jobs t h)"
      using finish_pending [of "bp_threads s h"] c [of h] h assms(3) by simp
    then have "pending_ops (bp_threads t owner) = bp_others t owner + card (live_jobs t owner)
      \<and> bp_others t owner + card (live_jobs t owner) \<le> bp_begun t" for owner
      using assms(4,6,7) Some c [of owner] other [of owner] h
      by (cases "owner = h") (simp_all add: owned_job_drop_def liveness_finish_def)
    then show ?thesis using dom by (simp add: counts_ok_def)
  qed
qed

lemma counts_begin:
  assumes "counts_ok s" and "bp_begun s \<le> u64_modulus - 2" and "bp_jobs s i = None"
    and "bp_threads t = liveness_new h (bp_threads s)" and "bp_jobs t = (bp_jobs s)(i \<mapsto> owned_job_new h)"
    and "bp_others t = bp_others s" and "bp_begun t = Suc (bp_begun s)"
  shows "counts_ok t"
proof -
  have fin: "finite (live_jobs s owner)" for owner by (rule live_jobs_finite [OF assms(1)])
  have live: "live_jobs t owner = (if owner = h then insert i (live_jobs s owner) else live_jobs s owner)" for owner
    using assms(3,5) by (auto simp: live_jobs_def owned_job_new_def)
  have "i \<notin> live_jobs s h" using assms(3) by (simp add: live_jobs_def)
  then have card: "card (live_jobs t h) = Suc (card (live_jobs s h))" using live [of h] fin by simp
  have c: "pending_ops (bp_threads s owner) = bp_others s owner + card (live_jobs s owner)"
    "bp_others s owner + card (live_jobs s owner) \<le> bp_begun s" for owner using assms(1) by (auto simp: counts_ok_def)
  have "pending_ops (bp_threads s h) < u64_modulus - 1" using c [of h] assms(2) u64_modulus_pos by (simp add: u64_modulus_def)
  then have "pending_ops (bp_threads t owner) = bp_others t owner + card (live_jobs t owner)
      \<and> bp_others t owner + card (live_jobs t owner) \<le> bp_begun t" for owner
    using assms(4,6,7) c [of owner] live [of owner] card
    by (cases "owner = h") (simp_all add: liveness_new_def begin_pending del: card_insert_disjoint)
  then show ?thesis using assms(1,5) by (simp add: counts_ok_def)
qed

text \<open>Every kind of step keeps the invariant.\<close>

lemma stages_move:
  assumes "stages_ok s" and "bp_workers t = bp_workers s" and "\<And>k. k \<in> held (bp_workers s) \<Longrightarrow> agree s t k"
    and "\<And>k. k \<in> bp_submitting t \<union> set (bp_queue t) \<Longrightarrow> fresh t k"
  shows "stages_ok t"
proof -
  have "stage_ok t x" if x: "x \<in> set (bp_workers s)" for x
  proof (rule stage_frame)
    show "stage_ok s x" using assms(1) x by (simp add: stages_ok_def)
    show "agree s t k" if "holds x k" for k
      using that x assms(3) by (auto simp: held_def in_set_conv_nth)
  qed
  then show ?thesis using assms(2,4) by (auto simp: stages_ok_def)
qed

lemma bpool_known:
  assumes "bpool_inv s"
  shows "dom (bp_jobs s) \<subseteq> {..<bp_next s}" "fst ` set (bp_worked s) \<subseteq> {..<bp_next s}"
    "fst ` set (bp_completed s) \<subseteq> {..<bp_next s}" "bp_owned s \<subseteq> {..<bp_next s}" "held (bp_workers s) \<subseteq> dom (bp_jobs s)"
proof -
  have o: "outcomes_ok s" and p: "places_ok s" using assms by (auto simp: bpool_inv_def)
  have acc: "bp_accepted s \<subseteq> {..<bp_next s}" "bp_submitting s \<subseteq> {..<bp_next s}" using o by (auto simp: outcomes_ok_def)
  show "dom (bp_jobs s) \<subseteq> {..<bp_next s}" using o p acc by (auto simp: outcomes_ok_def places_ok_def)
  show w: "fst ` set (bp_worked s) \<subseteq> {..<bp_next s}" using o acc by (auto simp: outcomes_ok_def)
  show "fst ` set (bp_completed s) \<subseteq> {..<bp_next s}" 
    using image_mono [of "set (bp_completed s)" "set (bp_worked s)" fst] o w by (simp add: outcomes_ok_def)
  show "bp_owned s \<subseteq> {..<bp_next s}" using o by (auto simp: outcomes_ok_def)
  show "held (bp_workers s) \<subseteq> dom (bp_jobs s)" using p by (auto simp: places_ok_def)
qed

lemma inv_new_job:
  fixes s t :: "('c, 'r) bpool"
  assumes "bpool_inv s" and "n = bp_next s" and "bp_jobs t = (bp_jobs s)(n \<mapsto> j)" and "bp_submitting t = insert n (bp_submitting s)"
    and "bp_next t = Suc n" and "bp_owned t = (if j = raw_job then bp_owned s else insert n (bp_owned s))"
    and "j = raw_job \<or> (\<exists>owner. j = owned_job_new owner)" and "bp_queue t = bp_queue s" and "bp_workers t = bp_workers s"
    and "bp_pool t = bp_pool s" and "bp_accepted t = bp_accepted s" and "bp_refused t = bp_refused s"
    and "bp_worked t = bp_worked s" and "bp_completed t = bp_completed s" and "counts_ok t"
  shows "bpool_inv t"
proof -
  note known = bpool_known [OF assms(1)]
  have n: "n \<notin> dom (bp_jobs s)" "n \<notin> fst ` set (bp_worked s)" "n \<notin> fst ` set (bp_completed s)" "n \<notin> bp_owned s"
    using known assms(2) by auto
  have p: "places_ok s" and st: "stages_ok s" and out: "outcomes_ok s" and pl: "bpool_ok s" using assms(1) by (auto simp: bpool_inv_def)
  have ag: "agree s t k" if "k \<in> dom (bp_jobs s)" for k using that n assms by (auto simp: agree_def)
  have fn: "fresh t n"
    using n assms by (auto simp: fresh_def raw_job_def owned_job_new_def)
  have "places_ok t" using p n assms(3,4,8,9) unfolding places_ok_def by auto
  moreover have "stages_ok t"
  proof (rule stages_move [OF st assms(9)])
    show "agree s t k" if "k \<in> held (bp_workers s)" for k using ag that known(5) by blast
    show "fresh t k" if "k \<in> bp_submitting t \<union> set (bp_queue t)" for k
    proof (cases "k = n")
      case False
      then have "k \<in> bp_submitting s \<union> set (bp_queue s)" using that assms(4,8) by auto
      then show ?thesis using st p fresh_frame [OF ag] by (auto simp: stages_ok_def places_ok_def)
    qed (use fn in simp)
  qed
  moreover have "outcomes_ok t"
  proof -
    have "{..<bp_next t} = insert n {..<bp_next s}" using assms(2,5) by auto
    moreover have "n \<notin> bp_accepted s" "n \<notin> dom (bp_refused s)" using out assms(2) by (auto simp: outcomes_ok_def)
    ultimately show ?thesis
      using out n assms unfolding outcomes_ok_def by (auto split: if_splits)
  qed
  moreover have "bpool_ok t" using pl assms(8,9,10) by (auto simp: bpool_ok_def)
  ultimately show ?thesis using assms(15) by (simp add: bpool_inv_def)
qed

lemma inv_init_pool:
  fixes s :: "('c, 'r) bpool"
  assumes "bpool_inv s" and "bp_pool s = Unset" and "length attempts = worker_count parsed available"
    and "create_pool os_text attempts = Some r"
  shows "bpool_inv (case r of Inr n \<Rightarrow> s\<lparr>bp_pool := PoolRunning, bp_workers := replicate n BIdle\<rparr>
      | Inl e \<Rightarrow> s\<lparr>bp_pool := PoolFailed e\<rparr>)"
proof -
  have s: "bp_workers s = []" "bp_queue s = []" "bpool_inv s" using assms(1,2) by (auto simp: bpool_inv_def bpool_ok_def)
  have none: "held (replicate n (BIdle :: 'r bworker)) = {}" "held ([] :: 'r bworker list) = {}" for n by (auto simp: held_def)
  have wc: "worker_count parsed available \<le> MAX_WORKERS"
    by (auto simp: worker_count_def MIN_WORKERS_def MAX_WORKERS_def Let_def split: option.splits)
  have key: "bpool_inv (s\<lparr>bp_pool := c, bp_workers := replicate n BIdle\<rparr>)" (is "bpool_inv ?t")
    if "if c = PoolRunning then 1 \<le> n \<and> n \<le> MAX_WORKERS else n = 0" for c n
  proof -
    have f: "fresh ?t i = fresh s i" for i by (rule fresh_frame) (simp add: agree_def)
    have "places_ok ?t" using s none by (simp add: bpool_inv_def places_ok_def)
    moreover have "stages_ok ?t" using s f by (simp add: bpool_inv_def stages_ok_def)
    moreover have "outcomes_ok ?t" using s none by (auto simp: bpool_inv_def outcomes_ok_def)
    moreover have "bpool_ok ?t" using s that by (auto simp: bpool_ok_def)
    moreover have "counts_ok ?t" using s by (auto simp: bpool_inv_def counts_ok_def live_jobs_def)
    ultimately show ?thesis by (simp add: bpool_inv_def)
  qed
  show ?thesis
  proof (cases r)
    case (Inl e)
    have "s\<lparr>bp_pool := PoolFailed e, bp_workers := replicate 0 BIdle\<rparr> = s\<lparr>bp_pool := PoolFailed e\<rparr>" using s(1) by simp
    then show ?thesis using key [of "PoolFailed e" 0] Inl by simp
  next
    case (Inr n)
    then have "n = length (filter (\<lambda>r. r = Ok ()) attempts)" "n \<noteq> 0"
      using assms(4) by (auto simp: create_pool_def Let_def split: if_splits option.splits sum.splits)
    then have "1 \<le> n" "n \<le> MAX_WORKERS"
      using wc assms(3) length_filter_le [of "\<lambda>r. r = Ok ()" attempts] by linarith+
    then show ?thesis using key [of PoolRunning n] Inr by simp
  qed
qed

lemma inv_accept:
  assumes "bpool_inv s" and "i \<in> bp_submitting s" and "bp_workers s \<noteq> []" and "length (bp_queue s) < QUEUE_CAPACITY"
    and "bp_pool s \<noteq> Unset" and t: "t = s\<lparr>bp_submitting := bp_submitting s - {i}, bp_queue := bp_queue s @ [i],
      bp_accepted := insert i (bp_accepted s)\<rparr>"
  shows "bpool_inv t"
proof -
  have p: "places_ok s" and st: "stages_ok s" and out: "outcomes_ok s" and pl: "bpool_ok s" and c: "counts_ok s"
    using assms(1) by (auto simp: bpool_inv_def)
  have i: "bp_jobs s i \<noteq> None" using p assms(2) by (auto simp: places_ok_def)
  have f: "fresh t k = fresh s k" for k by (rule fresh_frame) (simp add: agree_def t)
  have "places_ok t" using p assms(2) unfolding places_ok_def t by auto
  moreover have "stages_ok t"
    by (rule stages_move [OF st]) (use st assms(2) f in \<open>auto simp: agree_def t stages_ok_def\<close>)
  moreover have "outcomes_ok t" using out assms(2) i unfolding outcomes_ok_def t by auto
  moreover have "bp_pool s = PoolRunning" using pl assms(3) by (auto simp: bpool_ok_def split: if_splits)
  then have "bpool_ok t" using pl assms(4) by (simp add: bpool_ok_def t)
  moreover have "counts_ok t" using c by (simp add: counts_ok_def live_jobs_def t)
  ultimately show ?thesis by (simp add: bpool_inv_def)
qed

lemma inv_refuse:
  assumes "bpool_inv s" and "i \<in> bp_submitting s" and "bp_jobs s i = Some j" and "bp_begun s \<le> u64_modulus - 2"
    and t: "t = s\<lparr>bp_submitting := bp_submitting s - {i}, bp_threads := owned_job_drop j (bp_threads s),
      bp_jobs := (bp_jobs s)(i := None), bp_refused := (bp_refused s)(i \<mapsto> e)\<rparr>"
  shows "bpool_inv t"
proof -
  have p: "places_ok s" and st: "stages_ok s" and out: "outcomes_ok s" and pl: "bpool_ok s" and c: "counts_ok s"
    using assms(1) by (auto simp: bpool_inv_def)
  have f: "agree s t k" if "k \<noteq> i" for k using that by (simp add: agree_def t)
  have "places_ok t" using p assms(2) unfolding places_ok_def t by auto
  moreover have "stages_ok t"
  proof (rule stages_move [OF st])
    show "agree s t k" if "k \<in> held (bp_workers s)" for k
      by (rule f) (use that p assms(2) in \<open>auto simp: places_ok_def\<close>)
    show "fresh t k" if "k \<in> bp_submitting t \<union> set (bp_queue t)" for k
    proof -
      have "k \<noteq> i" "k \<in> bp_submitting s \<union> set (bp_queue s)" using that p assms(2) by (auto simp: places_ok_def t)
      then show ?thesis using st fresh_frame [OF f] by (simp add: stages_ok_def)
    qed
  qed (simp add: t)
  moreover have "outcomes_ok t" using out assms(2) unfolding outcomes_ok_def t by auto
  moreover have "bpool_ok t" using pl by (auto simp: bpool_ok_def t)
  moreover have "counts_ok t" by (rule counts_finish [OF c assms(3,4)]) (simp_all add: t)
  ultimately show ?thesis by (simp add: bpool_inv_def)
qed

lemma inv_submit:
  assumes "bpool_inv s" and "bp_pool s \<noteq> Unset" and "i \<in> bp_submitting s" and "bp_jobs s i = Some j"
    and "bp_begun s \<le> u64_modulus - 2"
  shows "bpool_inv (fst (spawn_end i j s))"
proof (cases "pool_submit i (s\<lparr>bp_submitting := bp_submitting s - {i}\<rparr>)")
  case (Inl e)
  then show ?thesis using inv_refuse [OF assms(1,3,4,5), of _ e] by (simp add: spawn_end_def)
next
  case (Inr q)
  then have "bp_workers s \<noteq> []" "length (bp_queue s) < QUEUE_CAPACITY" "q = bp_queue s @ [i]"
    using assms(2) by (auto simp: pool_submit_def pool_spawn_def split: pool_cell.splits if_splits)
  then show ?thesis using inv_accept [OF assms(1,3) _ _ assms(2)] Inr by (simp add: spawn_end_def)
qed

lemma inv_brecv:
  assumes "bpool_inv s" and "w < length (bp_workers s)" and "bp_workers s ! w = BIdle" and "bp_queue s = i # q"
    and t: "t = s\<lparr>bp_queue := q, bp_workers := (bp_workers s)[w := BWork i]\<rparr>"
  shows "bpool_inv t"
proof -
  have p: "places_ok s" and st: "stages_ok s" and out: "outcomes_ok s" and pl: "bpool_ok s" and c: "counts_ok s"
    using assms(1) by (auto simp: bpool_inv_def)
  have h: "held (bp_workers t) = insert i (held (bp_workers s))"
    using held_update [OF assms(2), of "BWork i"] assms(3) by (auto simp: t)
  have fresh: "fresh t k = fresh s k" for k by (rule fresh_frame) (simp add: agree_def t)
  have i: "i \<notin> held (bp_workers s)" using p assms(4) by (auto simp: places_ok_def)
  have "x = y" if "x < length (bp_workers s)" "y < length (bp_workers s)" "holds (bp_workers t ! x) k" "holds (bp_workers t ! y) k" for x y k
    using that assms(2,3) i places_one [OF p] by (auto simp: t nth_list_update held_def split: if_splits)
  then have "places_ok t" using p assms(4) h i unfolding places_ok_def t by auto
  moreover have "stages_ok t"
  proof -
    have "stage_ok t x" if "x \<in> set (bp_workers s)" for x
      by (rule stage_frame [of _ s]) (use that st in \<open>auto simp: agree_def t stages_ok_def\<close>)
    moreover have "fresh t i" using st assms(4) fresh by (simp add: stages_ok_def)
    ultimately have "stage_ok t x" if "x \<in> set (bp_workers t)" for x
      using that set_update_subset_insert [of "bp_workers s" w "BWork i"] by (auto simp: t)
    then show ?thesis using st assms(4) fresh by (auto simp: stages_ok_def t)
  qed
  moreover have "outcomes_ok t" using out assms(4) h unfolding outcomes_ok_def t by auto
  moreover have "bpool_ok t" using pl assms(4) by (auto simp: bpool_ok_def t split: if_splits)
  moreover have "counts_ok t" using c by (simp add: counts_ok_def live_jobs_def t)
  ultimately show ?thesis by (simp add: bpool_inv_def)
qed

text \<open>The later parts of a worker's turn, with their effect on the logs.\<close>

lemma inv_advance:
  fixes s t :: "('c, 'r) bpool"
  assumes "bpool_inv s" and "w < length (bp_workers s)" and "\<And>k. holds (bp_workers s ! w) k \<longleftrightarrow> k = i"
    and "bp_workers t = (bp_workers s)[w := y]" and "bp_submitting t = bp_submitting s" and "bp_queue t = bp_queue s"
    and "\<And>k. holds y k \<longleftrightarrow> k = i \<and> bp_jobs t i \<noteq> None" and "\<And>k. k \<noteq> i \<Longrightarrow> agree s t k" and "stage_ok t y"
    and "bp_pool t = bp_pool s" and "counts_ok t" and "outcomes_ok t"
  shows "bpool_inv t"
proof -
  have p: "places_ok s" and st: "stages_ok s" and pl: "bpool_ok s" using assms(1) by (auto simp: bpool_inv_def)
  have jobs: "bp_jobs t k = bp_jobs s k" if "k \<noteq> i" for k using assms(8) [OF that] by (simp add: agree_def)
  have "places_ok t" by (rule worker_places [OF p assms(2,3,4,5,6,7) jobs])
  moreover have "stages_ok t"
    by (rule worker_stages [OF p st assms(2) _ assms(4,5,6,8,9), of i]) (use assms(3) in simp_all)
  moreover have "bpool_ok t" using pl assms(4,6,10) by (auto simp: bpool_ok_def)
  ultimately show ?thesis using assms(11,12) by (simp add: bpool_inv_def)
qed

lemma held_sub:
  assumes "w < length ws" and "\<And>k. holds y k \<Longrightarrow> k \<in> held ws"
  shows "held (ws[w := y]) \<subseteq> held ws"
  using assms by (auto simp: held_def nth_list_update split: if_splits)

lemma counts_keep:
  assumes "counts_ok s" and "bp_jobs s i = Some j" and "bp_jobs t = (bp_jobs s)(i \<mapsto> j')" and "j_owner j' = j_owner j"
    and "bp_threads t = bp_threads s" and "bp_others t = bp_others s" and "bp_begun t = bp_begun s"
  shows "counts_ok t"
proof (rule counts_same [OF assms(1)])
  show "live_jobs t owner = live_jobs s owner" for owner using assms(2,3,4) by (auto simp: live_jobs_def)
  show "finite (dom (bp_jobs t))" using assms(1,3) by (simp add: counts_ok_def)
qed (use assms in auto)

lemma worker_job:
  assumes "bpool_inv s" and "w < length (bp_workers s)" and "holds (bp_workers s ! w) i"
  shows "stage_ok s (bp_workers s ! w)" "i \<in> bp_accepted s" "i \<in> held (bp_workers s)"
    "\<And>y. (\<And>k. holds y k \<Longrightarrow> k = i) \<Longrightarrow> held ((bp_workers s)[w := y]) \<subseteq> bp_accepted s"
proof -
  show h: "i \<in> held (bp_workers s)" by (rule held_in [OF assms(2,3)])
  have out: "outcomes_ok s" using assms(1) by (simp add: bpool_inv_def)
  then show "i \<in> bp_accepted s" using h by (auto simp: outcomes_ok_def)
  show "stage_ok s (bp_workers s ! w)" using assms(1,2) by (simp add: bpool_inv_def stages_ok_def)
  show "held ((bp_workers s)[w := y]) \<subseteq> bp_accepted s" if "\<And>k. holds y k \<Longrightarrow> k = i" for y
  proof -
    have "held ((bp_workers s)[w := y]) \<subseteq> held (bp_workers s)" by (rule held_sub [OF assms(2)]) (use that h in blast)
    then show ?thesis using out by (auto simp: outcomes_ok_def)
  qed
qed

lemma inv_work:
  assumes "bpool_inv s" and "w < length (bp_workers s)" and "bp_workers s ! w = BWork i" and "bp_jobs s i = Some j"
    and "\<not> j_raw j" and "worker_work w i j outcome s = Some t"
  shows "bpool_inv t"
proof -
  note job = worker_job [OF assms(1,2), of i, unfolded assms(3), simplified]
  have fr: "fresh s i" using job(1) by simp
  then obtain owner where j: "j = owned_job_new owner" "i \<in> bp_owned s" "i \<notin> fst ` set (bp_worked s)" "i \<notin> fst ` set (bp_completed s)"
    using assms(4,5) by (auto simp: fresh_def raw_job_def split: if_splits)
  have t: "t = put_worker w (BComplete i outcome) (s\<lparr>bp_jobs := (bp_jobs s)(i \<mapsto> j\<lparr>j_work := False\<rparr>),
      bp_worked := bp_worked s @ [(i, outcome)]\<rparr>)"
    using assms(6) j(1) by (simp add: worker_work_def take_work_def owned_job_new_def)
  have out: "outcomes_ok s" and c: "counts_ok s" using assms(1) by (auto simp: bpool_inv_def)
  show ?thesis
  proof (rule inv_advance [OF assms(1,2), of i t "BComplete i outcome"])
    show "counts_ok t"
      by (rule counts_keep [OF c assms(4), of t "j\<lparr>j_work := False\<rparr>"]) (simp_all add: t put_worker_def)
    show "outcomes_ok t" using out j job(2) job(4) [of "BComplete i outcome"] unfolding outcomes_ok_def t put_worker_def by auto
  qed (use assms(3) j in \<open>auto simp: t put_worker_def agree_def\<close>)
qed

lemma inv_raw:
  assumes "bpool_inv s" and "w < length (bp_workers s)" and "bp_workers s ! w = BWork i" and "bp_jobs s i = Some j"
    and "j_raw j" and "bp_begun s \<le> u64_modulus - 2" and t: "t = worker_raw w i j outcome s"
  shows "bpool_inv t"
proof -
  note job = worker_job [OF assms(1,2), of i, unfolded assms(3), simplified]
  have fr: "fresh s i" using job(1) by simp
  then have j: "j = raw_job" "i \<notin> bp_owned s" "i \<notin> fst ` set (bp_worked s)" "i \<notin> fst ` set (bp_completed s)"
    using assms(4,5) by (auto simp: fresh_def owned_job_new_def split: if_splits)
  have out: "outcomes_ok s" and c: "counts_ok s" using assms(1) by (auto simp: bpool_inv_def)
  show ?thesis
  proof (rule inv_advance [OF assms(1,2), of i t BIdle])
    show "counts_ok t"
      by (rule counts_finish [OF c assms(4,6)])
        (simp_all add: t worker_raw_def put_worker_def j(1) raw_job_def owned_job_drop_def liveness_finish_def)
    show "outcomes_ok t" using out j job(2) job(4) [of BIdle] unfolding outcomes_ok_def t worker_raw_def put_worker_def by auto
  qed (use assms(3) j in \<open>auto simp: t worker_raw_def put_worker_def agree_def\<close>)
qed

lemma inv_complete:
  assumes "bpool_inv s" and "w < length (bp_workers s)" and "bp_workers s ! w = BComplete i outcome" and "bp_jobs s i = Some j"
    and "worker_complete w i j outcome panicked s = Some t"
  shows "bpool_inv t"
proof -
  note job = worker_job [OF assms(1,2), of i, unfolded assms(3), simplified]
  obtain owner where j: "j = (owned_job_new owner)\<lparr>j_work := False\<rparr>" "i \<in> bp_owned s" "(i, outcome) \<in> set (bp_worked s)"
    "i \<notin> fst ` set (bp_completed s)"
    using job(1) assms(4) by auto
  have t: "t = put_worker w (BFinish i panicked) (s\<lparr>bp_jobs := (bp_jobs s)(i \<mapsto> j\<lparr>j_complete := False\<rparr>),
      bp_completed := bp_completed s @ [(i, outcome)]\<rparr>)"
    using assms(5) j(1) by (simp add: worker_complete_def take_complete_def owned_job_new_def)
  have out: "outcomes_ok s" and c: "counts_ok s" using assms(1) by (auto simp: bpool_inv_def)
  show ?thesis
  proof (rule inv_advance [OF assms(1,2), of i t "BFinish i panicked"])
    show "counts_ok t"
      by (rule counts_keep [OF c assms(4), of t "j\<lparr>j_complete := False\<rparr>"]) (simp_all add: t put_worker_def)
    show "outcomes_ok t" using out j job(2) job(4) [of "BFinish i panicked"] unfolding outcomes_ok_def t put_worker_def by auto
  qed (use assms(3) j in \<open>auto simp: t put_worker_def agree_def\<close>)
qed

lemma inv_finish:
  assumes "bpool_inv s" and "w < length (bp_workers s)" and "bp_workers s ! w = BFinish i panicked" and "bp_jobs s i = Some j"
    and "bp_begun s \<le> u64_modulus - 2" and t: "t = worker_finish w i j s"
  shows "bpool_inv t"
proof -
  note job = worker_job [OF assms(1,2), of i, unfolded assms(3), simplified]
  have j: "i \<in> bp_owned s" "i \<in> fst ` set (bp_completed s)" using job(1) by auto
  have t': "t = put_worker w BIdle (s\<lparr>bp_threads := owned_job_drop j (bp_threads s), bp_jobs := (bp_jobs s)(i := None)\<rparr>)"
    by (simp add: t worker_finish_def owned_job_drop_def liveness_finish_def split: option.split)
  have out: "outcomes_ok s" and c: "counts_ok s" using assms(1) by (auto simp: bpool_inv_def)
  have w: "i \<in> fst ` set (bp_worked s)" using j(2) out image_mono [of "set (bp_completed s)" "set (bp_worked s)" fst]
    by (auto simp: outcomes_ok_def)
  show ?thesis
  proof (rule inv_advance [OF assms(1,2), of i t BIdle])
    show "counts_ok t" by (rule counts_finish [OF c assms(4,5)]) (simp_all add: t' put_worker_def)
    show "outcomes_ok t" using out j w job(2) job(4) [of BIdle] unfolding outcomes_ok_def t' put_worker_def by auto
  qed (use assms(3) in \<open>auto simp: t' put_worker_def agree_def\<close>)
qed

lemma inv_others:
  assumes "bpool_inv s" and "counts_ok (s\<lparr>bp_threads := ts, bp_others := os, bp_begun := b\<rparr>)"
  shows "bpool_inv (s\<lparr>bp_threads := ts, bp_others := os, bp_begun := b\<rparr>)" (is "bpool_inv ?t")
proof -
  have ag: "agree s ?t k" for k by (simp add: agree_def)
  have "stages_ok s" using assms(1) by (simp add: bpool_inv_def)
  then have "stages_ok ?t"
    by (rule stages_move) (use ag fresh_frame [OF ag] \<open>stages_ok s\<close> in \<open>auto simp: stages_ok_def\<close>)
  moreover have "outcomes_ok ?t" using assms(1) by (auto simp: bpool_inv_def outcomes_ok_def)
  moreover have "bpool_ok ?t" using assms(1) by (auto simp: bpool_inv_def bpool_ok_def)
  ultimately show ?thesis using assms by (simp add: bpool_inv_def places_ok_def)
qed

lemma counts_others:
  assumes "bpool_inv s" and "bp_begun s \<le> u64_modulus - 2"
  shows "counts_ok (s\<lparr>bp_threads := (bp_threads s)(h := begin_async_operation (bp_threads s h)),
      bp_others := (bp_others s)(h := Suc (bp_others s h)), bp_begun := Suc (bp_begun s)\<rparr>)"
    "0 < bp_others s h \<Longrightarrow> counts_ok (s\<lparr>bp_threads := (bp_threads s)(h := finish_async_operation (bp_threads s h)),
      bp_others := (bp_others s)(h := bp_others s h - 1), bp_begun := bp_begun s\<rparr>)"
proof -
  have c: "pending_ops (bp_threads s owner) = bp_others s owner + card (live_jobs s owner)"
    "bp_others s owner + card (live_jobs s owner) \<le> bp_begun s" for owner
    using assms(1) by (auto simp: bpool_inv_def counts_ok_def)
  have fin: "finite (dom (bp_jobs s))" using assms(1) by (simp add: bpool_inv_def counts_ok_def)
  have live: "live_jobs (s\<lparr>bp_threads := ts, bp_others := os, bp_begun := b\<rparr>) owner = live_jobs s owner" for ts os b owner
    by (simp add: live_jobs_def)
  have less: "pending_ops (bp_threads s h) < u64_modulus - 1" using c [of h] assms(2) by (simp add: u64_modulus_def)
  show "counts_ok (s\<lparr>bp_threads := (bp_threads s)(h := begin_async_operation (bp_threads s h)),
      bp_others := (bp_others s)(h := Suc (bp_others s h)), bp_begun := Suc (bp_begun s)\<rparr>)"
    using c fin begin_pending [OF less] unfolding counts_ok_def live by (auto intro: le_SucI)
  show "counts_ok (s\<lparr>bp_threads := (bp_threads s)(h := finish_async_operation (bp_threads s h)),
      bp_others := (bp_others s)(h := bp_others s h - 1), bp_begun := bp_begun s\<rparr>)" if "0 < bp_others s h"
  proof -
    have "pending_ops (finish_async_operation (bp_threads s h)) = bp_others s h - 1 + card (live_jobs s h)"
      using finish_pending [of "bp_threads s h"] c [of h] that less by simp
    moreover have "bp_others s h - 1 + card (live_jobs s h) \<le> bp_begun s" using c(2) [of h] by simp
    ultimately show ?thesis using c fin unfolding counts_ok_def live by simp
  qed
qed

lemma bpool_inv_step:
  assumes "bpool_inv s" and "bpool_step s l t" and "bp_begun s \<le> u64_modulus - 2"
  shows "bpool_inv t"
  using assms(2)
proof cases
  case (bp_begin owner)
  have c: "counts_ok s" using assms(1) by (simp add: bpool_inv_def)
  have n: "bp_jobs s (bp_next s) = None" using bpool_known(1) [OF assms(1)] by auto
  show ?thesis
    by (rule inv_new_job [OF assms(1) refl, of _ "owned_job_new owner"])
      (use bp_begin counts_begin [OF c assms(3) n, of t owner] in
        \<open>auto simp: spawn_begin_def raw_job_def owned_job_new_def\<close>)
next
  case bp_begin_raw
  have c: "counts_ok s" using assms(1) by (simp add: bpool_inv_def)
  have n: "bp_jobs s (bp_next s) = None" using bpool_known(1) [OF assms(1)] by auto
  have "live_jobs t owner = live_jobs s owner" for owner
    using n bp_begin_raw by (auto simp: live_jobs_def spawn_raw_def raw_job_def)
  then have "counts_ok t" using counts_same [OF c, of t] bp_begin_raw c by (simp add: spawn_raw_def counts_ok_def)
  then show ?thesis
    by (intro inv_new_job [OF assms(1) refl, of t raw_job]) (use bp_begin_raw in \<open>simp_all add: spawn_raw_def\<close>)
next
  case (bp_init i attempts parsed available os_text r)
  then show ?thesis using inv_init_pool [OF assms(1)] by simp
next
  case (bp_submit i j)
  then show ?thesis using inv_submit [OF assms(1)] assms(3) by simp
next
  case (bp_recv w)
  then obtain i q where q: "bp_queue s = i # q" by (cases "bp_queue s") auto
  show ?thesis
    by (rule inv_brecv [OF assms(1) bp_recv(3,4) q]) (use bp_recv q in \<open>simp add: worker_recv_def put_worker_def\<close>)
next
  case (bp_work w i j outcome)
  then show ?thesis using inv_work [OF assms(1)] by blast
next
  case (bp_raw w i j outcome)
  then show ?thesis using inv_raw [OF assms(1) _ _ _ _ assms(3)] by blast
next
  case (bp_complete w i outcome j panicked)
  then show ?thesis using inv_complete [OF assms(1)] by blast
next
  case (bp_finish w i panicked j)
  then show ?thesis using inv_finish [OF assms(1) _ _ _ assms(3)] by blast
next
  case (bp_other_begin owner)
  then show ?thesis using inv_others [OF assms(1)] counts_others(1) [OF assms(1,3)] by simp
next
  case (bp_other_end owner)
  then show ?thesis by (simp only: inv_others [OF assms(1) counts_others(2) [OF assms(1,3)]])
qed

lemma bpool_begun_mono: "bpool_step s l t \<Longrightarrow> bp_begun s \<le> bp_begun t"
  by (induction rule: bpool_step.induct)
    (auto simp: spawn_begin_def spawn_raw_def spawn_end_def worker_recv_def worker_work_def worker_raw_def worker_complete_def
      worker_finish_def put_worker_def take_work_def take_complete_def Let_def split: sum.splits list.splits prod.splits if_splits)

interpretation bpools: bounded_system bpool_init bpool_step bp_begun "u64_modulus - 2" bpool_inv
  by unfold_locales (auto intro: bpool_inv_init bpool_begun_mono bpool_inv_step)

text \<open>The number of workers never shrinks, whatever the jobs do.\<close>

lemma bpool_workers_step:
  assumes "bpool_step s l t" and "bp_workers s \<noteq> [] \<longrightarrow> bp_pool s \<noteq> Unset"
  shows "(bp_workers s \<noteq> [] \<longrightarrow> length (bp_workers t) = length (bp_workers s))"
  using assms
  by (induction rule: bpool_step.induct)
    (auto simp: spawn_begin_def spawn_raw_def spawn_end_def worker_recv_def worker_work_def worker_raw_def worker_complete_def
      worker_finish_def put_worker_def take_work_def take_complete_def Let_def split: sum.splits list.splits prod.splits if_splits)

lemma bpool_workers_run:
  assumes "run bpool_step s ls t" and "bpool_inv s" and "bp_begun t \<le> u64_modulus - 2" and "bp_workers s \<noteq> []"
  shows "length (bp_workers t) = length (bp_workers s)"
  using assms
proof (induction rule: run.induct)
  case (run_snoc s ls t l u)
  have b: "bp_begun t \<le> u64_modulus - 2" using bpool_begun_mono [OF run_snoc.hyps(2)] run_snoc.prems(2) by simp
  have inv: "bpool_inv t" by (rule bpools.inv_run [OF run_snoc.hyps(1) run_snoc.prems(1) b])
  have len: "length (bp_workers t) = length (bp_workers s)" by (rule run_snoc.IH [OF run_snoc.prems(1) b run_snoc.prems(3)])
  then have "bp_workers t \<noteq> []" using run_snoc.prems(3) by auto
  moreover from this have "bp_pool t \<noteq> Unset" using inv by (auto simp: bpool_inv_def bpool_ok_def split: if_splits)
  ultimately show ?case using bpool_workers_step [OF run_snoc.hyps(2)] len by simp
qed simp

text \<open>Some worker can always move while a job is queued or held.\<close>

lemma worker_progress:
  fixes s :: "('c, 'r) bpool"
  assumes "bpool_inv s" and "w < length (bp_workers s)" and "bp_workers s ! w \<noteq> BIdle"
  shows "\<exists>v. bpool_step s () v \<and> bp_workers v \<noteq> bp_workers s"
proof -
  have moved: "(bp_workers s)[w := x] \<noteq> bp_workers s" if "bp_workers s ! w \<noteq> x" for x
    using that assms(2) by (metis nth_list_update_eq)
  have ok: "stage_ok s (bp_workers s ! w)" using assms(1,2) by (simp add: bpool_inv_def stages_ok_def)
  show ?thesis
  proof (cases "bp_workers s ! w")
    case BIdle
    then show ?thesis using assms(3) by simp
  next
    case (BWork i)
    then obtain j where j: "bp_jobs s i = Some j" "j = raw_job \<or> (\<exists>owner. j = owned_job_new owner)"
      using ok by (auto simp: fresh_def split: option.splits if_splits)
    show ?thesis
    proof (cases "j_raw j")
      case True
      show ?thesis
        using bp_raw [OF assms(2) BWork j(1) True, of "Err ()"] moved [of BIdle] BWork
        by (auto simp: worker_raw_def put_worker_def)
    next
      case False
      then have "worker_work w i j (Err ()) s \<noteq> None" using j(2)
        by (auto simp: worker_work_def take_work_def raw_job_def owned_job_new_def)
      then obtain t where t: "worker_work w i j (Err ()) s = Some t" by auto
      then show ?thesis
        using bp_work [OF assms(2) BWork j(1) False t] moved [of "BComplete i (Err ())"] BWork
        by (auto simp: worker_work_def put_worker_def take_work_def split: if_splits)
    qed
  next
    case (BComplete i outcome)
    then obtain owner where j: "bp_jobs s i = Some ((owned_job_new owner)\<lparr>j_work := False\<rparr>)" using ok by auto
    let ?t = "put_worker w (BFinish i False) (s\<lparr>bp_jobs := (bp_jobs s)(i \<mapsto> (owned_job_new owner)\<lparr>j_work := False, j_complete := False\<rparr>),
      bp_completed := bp_completed s @ [(i, outcome)]\<rparr>)"
    have "worker_complete w i ((owned_job_new owner)\<lparr>j_work := False\<rparr>) outcome False s = Some ?t"
      by (simp add: worker_complete_def take_complete_def owned_job_new_def)
    then have "bpool_step s () ?t" by (rule bp_complete [OF assms(2) BComplete j])
    moreover have "bp_workers ?t \<noteq> bp_workers s" using moved [of "BFinish i False"] BComplete by (simp add: put_worker_def)
    ultimately show ?thesis by blast
  next
    case (BFinish i panicked)
    then obtain j where j: "bp_jobs s i = Some j" using ok by auto
    show ?thesis
      using bp_finish [OF assms(2) BFinish j] moved [of BIdle] BFinish
      by (auto simp: worker_finish_def put_worker_def split: prod.splits)
  qed
qed

lemma bpool_progress:
  fixes s :: "('c, 'r) bpool"
  assumes "bpool_inv s" and "bp_workers s \<noteq> []" and "bp_queue s \<noteq> [] \<or> held (bp_workers s) \<noteq> {}"
  shows "\<exists>v. bpool_step s () v \<and> bp_workers v \<noteq> bp_workers s"
proof (cases "\<exists>w < length (bp_workers s). bp_workers s ! w \<noteq> BIdle")
  case True
  then show ?thesis using worker_progress [OF assms(1)] by blast
next
  case False
  then have idle: "bp_workers s ! 0 = BIdle" "0 < length (bp_workers s)" using assms(2) by auto
  have "held (bp_workers s) = {}" using False by (auto simp: held_def)
  then obtain i q where q: "bp_queue s = i # q" using assms(3) by (cases "bp_queue s") auto
  have "(bp_workers s)[0 := BWork i] \<noteq> bp_workers s" using idle by (metis bworker.distinct(1) nth_list_update_eq)
  then show ?thesis using bp_recv [OF idle(2,1)] q by (auto simp: worker_recv_def put_worker_def)
qed

subsection \<open>A run\<close>

text \<open>One job of runtime 7 on a pool of one worker: submitted, then received, run, completed and released.\<close>

definition demo_start :: "(nat, nat) bpool" where
  "demo_start = \<lparr>bp_pool = Unset, bp_queue = [], bp_workers = [], bp_jobs = Map.empty, bp_submitting = {}, bp_next = 0,
     bp_owned = {}, bp_threads = (\<lambda>_. with_remote_capacity 4), bp_begun = 0, bp_others = (\<lambda>_. 0), bp_accepted = {},
     bp_refused = Map.empty, bp_worked = [], bp_completed = []\<rparr>"

definition demo_queued :: "(nat, nat) bpool" where
  "demo_queued = fst (spawn_end 0 (owned_job_new 7) ((spawn_begin 7 demo_start)\<lparr>bp_pool := PoolRunning, bp_workers := replicate 1 BIdle\<rparr>))"

definition demo_worked :: "(nat, nat) bpool" where
  "demo_worked = the (worker_work 0 0 (owned_job_new 7) (Ok 5) (worker_recv 0 demo_queued))"

definition demo_completed :: "(nat, nat) bpool" where
  "demo_completed = the (worker_complete 0 0 ((owned_job_new 7)\<lparr>j_work := False\<rparr>) (Ok 5) True demo_worked)"

definition demo_done :: "(nat, nat) bpool" where
  "demo_done = worker_finish 0 0 ((owned_job_new 7)\<lparr>j_work := False, j_complete := False\<rparr>) demo_completed"

lemmas demo_unfold = demo_done_def demo_completed_def demo_worked_def demo_queued_def demo_start_def worker_finish_def
  worker_complete_def worker_work_def worker_recv_def put_worker_def spawn_end_def spawn_begin_def pool_submit_def pool_spawn_def
  take_work_def take_complete_def liveness_finish_def liveness_new_def owned_job_drop_def owned_job_new_def QUEUE_CAPACITY_def
  begin_async_operation_def with_remote_capacity_def wrapping_succ_def u64_modulus_def

lemma demo_start_init: "bpool_init demo_start"
  by (auto simp: bpool_init_def demo_start_def with_remote_capacity_def)

lemma demo_run_queued: "run bpool_step demo_start [(), (), ()] demo_queued"
proof -
  have a: "bpool_step demo_start () (spawn_begin 7 demo_start)" by (rule bp_begin)
  have b: "bpool_step (spawn_begin 7 demo_start) () ((spawn_begin 7 demo_start)\<lparr>bp_pool := PoolRunning, bp_workers := replicate 1 BIdle\<rparr>)"
    using bp_init [of "spawn_begin 7 demo_start" 0 "[Ok ()]" "Some 1" None "\<lambda>_. []" "Ok 1"]
    by (simp add: spawn_begin_def demo_start_def worker_count_def MAX_WORKERS_def create_pool_def)
  have c: "bpool_step ((spawn_begin 7 demo_start)\<lparr>bp_pool := PoolRunning, bp_workers := replicate 1 BIdle\<rparr>) () demo_queued"
    unfolding demo_queued_def by (rule bp_submit) (simp_all add: spawn_begin_def demo_start_def)
  show ?thesis using run_snoc [of bpool_step, OF run_snoc [of bpool_step, OF run_single [of bpool_step, OF a] b] c] by (simp only: append.simps)
qed

lemma demo_run: "run bpool_step demo_queued [(), (), (), ()] demo_done"
proof -
  have a: "bpool_step demo_queued () (worker_recv 0 demo_queued)" by (rule bp_recv) (simp_all add: demo_unfold)
  have b: "bpool_step (worker_recv 0 demo_queued) () demo_worked"
    by (rule bp_work [of 0 _ 0 "owned_job_new 7" "Ok 5"]) (simp_all add: demo_unfold)
  have c: "bpool_step demo_worked () demo_completed"
    by (rule bp_complete [of 0 _ 0 "Ok 5" "(owned_job_new 7)\<lparr>j_work := False\<rparr>" True]) (simp_all add: demo_unfold)
  have d: "bpool_step demo_completed () demo_done"
    unfolding demo_done_def by (rule bp_finish [of _ _ _ True]) (simp_all add: demo_unfold)
  show ?thesis using run_snoc [of bpool_step, OF run_snoc [of bpool_step, OF run_snoc [of bpool_step, OF run_single [of bpool_step, OF a] b] c] d] by (simp only: append.simps)
qed


lemma demo_done_begun: "bp_begun demo_done \<le> u64_modulus - 2"
  by (simp add: demo_unfold)

subsection \<open>Properties\<close>

text \<open>(C15) Blocking work is run and answered exactly once. However submissions and workers interleave and whatever
  panics, every submission is in progress, accepted or refused, and only one of these; a refused job neither runs nor
  completes; an accepted one runs at most once and its completion is called at most once, with the outcome of its
  own work; and once it has left the queue and the workers, both have happened.\<close>

theorem blocking_exactly_once:
  assumes "bpool_init s" and "run bpool_step s ls t" and "bp_begun t \<le> u64_modulus - 2"
  shows "{..<bp_next t} = bp_submitting t \<union> bp_accepted t \<union> dom (bp_refused t)
    \<and> bp_submitting t \<inter> (bp_accepted t \<union> dom (bp_refused t)) = {} \<and> bp_accepted t \<inter> dom (bp_refused t) = {}
    \<and> distinct (map fst (bp_worked t)) \<and> distinct (map fst (bp_completed t)) \<and> set (bp_completed t) \<subseteq> set (bp_worked t)
    \<and> fst ` set (bp_worked t) \<subseteq> bp_accepted t
    \<and> (\<forall>i \<in> bp_accepted t - set (bp_queue t) - held (bp_workers t). i \<in> fst ` set (bp_worked t)
        \<and> (i \<in> bp_owned t \<longrightarrow> i \<in> fst ` set (bp_completed t)))"
proof -
  have inv: "places_ok t" "outcomes_ok t" using bpools.inv_reachable [OF assms] by (auto simp: bpool_inv_def)
  have "bp_jobs t i = None" if "i \<in> bp_accepted t - set (bp_queue t) - held (bp_workers t)" for i
    using that inv by (auto simp: places_ok_def outcomes_ok_def)
  then show ?thesis using inv(2) unfolding outcomes_ok_def by auto
qed

theorem blocking_exactly_once_witness:
  "bp_accepted demo_done = {0} \<and> bp_queue demo_done = [] \<and> held (bp_workers demo_done) = {}
    \<and> bp_worked demo_done = [(0, Ok 5)] \<and> 0 \<in> fst ` set (bp_completed demo_done)"
  using blocking_exactly_once [OF demo_start_init run_trans [OF demo_run demo_run_queued] demo_done_begun]
  by (simp add: demo_unfold held_def)



text \<open>Panics do not wear the pool out. The queue stays within its capacity; a created pool has between one and
  thirty-two workers and keeps all of them for ever; and in every reachable state of a pool with a job queued or
  running, some worker can take a step, so that accepted work is never stuck.\<close>

theorem blocking_pool_survives:
  assumes "bpool_init s" and "run bpool_step s ls t" and "run bpool_step t ms u" and "bp_begun u \<le> u64_modulus - 2"
    and "bp_workers t \<noteq> []"
  shows "length (bp_queue u) \<le> QUEUE_CAPACITY \<and> length (bp_workers u) = length (bp_workers t) \<and> length (bp_workers t) \<le> MAX_WORKERS
    \<and> (bp_queue u \<noteq> [] \<or> held (bp_workers u) \<noteq> {} \<longrightarrow> (\<exists>v. bpool_step u () v \<and> bp_workers v \<noteq> bp_workers u))"
proof -
  have b: "bp_begun t \<le> u64_modulus - 2" using bpools.count_run [OF assms(3)] assms(4) by simp
  have it: "bpool_inv t" by (rule bpools.inv_reachable [OF assms(1,2) b])
  have iu: "bpool_inv u" by (rule bpools.inv_run [OF assms(3) it assms(4)])
  have len: "length (bp_workers u) = length (bp_workers t)" by (rule bpool_workers_run [OF assms(3) it assms(4,5)])
  have nonempty: "bp_workers u \<noteq> []" using len assms(5) by auto
  have "bp_pool t = PoolRunning" using it assms(5) by (auto simp: bpool_inv_def bpool_ok_def split: if_splits)
  then have "length (bp_workers t) \<le> MAX_WORKERS" using it by (simp add: bpool_inv_def bpool_ok_def)
  moreover have "length (bp_queue u) \<le> QUEUE_CAPACITY" using iu by (simp add: bpool_inv_def bpool_ok_def)
  ultimately show ?thesis using len bpool_progress [OF iu nonempty] by blast
qed

theorem blocking_pool_survives_witness:
  "bp_workers demo_queued = [BIdle] \<and> length (bp_workers demo_done) = 1"
proof -
  have w: "bp_workers demo_queued = [BIdle]" by (simp add: demo_unfold)
  show ?thesis using blocking_pool_survives [OF demo_start_init demo_run_queued demo_run demo_done_begun] unfolding w by simp
qed

end
