(* ===== verification/Time_Futures.thy ===== *)
theory Time_Futures
  imports Scheduler Transition
begin

text \<open>
  The futures of \<open>src/src/time.rs\<close>: \<open>Sleep\<close>, \<open>timeout\<close> and \<open>Interval\<close>, over the timers of the scheduler. Instants and
  durations are nanoseconds; an instant is a reading of the monotonic clock the timers use, bounded by the
  64-bit seconds of the platform. A sleep shares a cell with the callback of its timer; cells live in a table by
  address, and the table \<open>ce_callbacks\<close> tells which cell the callback of a timer holds.
\<close>

subsection \<open>Instants\<close>

definition instant_max :: nat where
  "instant_max = 2 ^ 63 * 10 ^ 9 - 1"

definition checked_add_instant :: "nat \<Rightarrow> nat \<Rightarrow> nat option" where
  "checked_add_instant instant d = (if instant + d \<le> instant_max then Some (instant + d) else None)"

definition checked_mul_duration :: "nat \<Rightarrow> nat \<Rightarrow> nat option" where
  "checked_mul_duration d n = (if d * n \<le> duration_max then Some (d * n) else None)"

definition add_instant :: "nat \<Rightarrow> nat \<Rightarrow> nat" where
  "add_instant instant d = (case checked_add_instant instant d of Some x \<Rightarrow> x | None \<Rightarrow> instant)"

text \<open>The loop of \<open>first_deadline_after\<close>, which multiplies by at most \<open>u32::MAX\<close> at a time.\<close>

function deadline_loop :: "nat \<Rightarrow> nat \<Rightarrow> nat \<Rightarrow> nat \<Rightarrow> nat" where
  "deadline_loop observed period remaining nxt =
     (if 0 < remaining
      then let chunk = min remaining u32_max in
        case checked_mul_duration period chunk of
          None \<Rightarrow> add_instant observed period
        | Some delta \<Rightarrow>
            (case checked_add_instant nxt delta of
               None \<Rightarrow> add_instant observed period
             | Some instant \<Rightarrow> deadline_loop observed period (remaining - chunk) instant)
      else nxt)"
  by pat_completeness auto
termination
  by (relation "measure (\<lambda>(observed, period, remaining, nxt). remaining)") (auto simp: u32_max_def)

declare deadline_loop.simps [simp del]

text \<open>A zero period fails the assertion, and the division without it.\<close>

definition first_deadline_after :: "nat \<Rightarrow> nat \<Rightarrow> nat \<Rightarrow> nat panics" where
  "first_deadline_after scheduled observed period =
     (if period = 0 then panic
      else let elapsed = observed - scheduled; periods = elapsed div period + 1 in
        Some (deadline_loop observed period periods scheduled))"

datatype missed_tick_behavior = Burst | Delay | Skip

definition next_deadline :: "nat \<Rightarrow> nat \<Rightarrow> nat \<Rightarrow> missed_tick_behavior \<Rightarrow> nat panics" where
  "next_deadline scheduled observed period behavior =
     (let nxt = add_instant scheduled period; missed = nxt \<le> observed in
      case behavior of
        Burst \<Rightarrow> Some nxt
      | Delay \<Rightarrow> Some (if missed then add_instant observed period else nxt)
      | Skip \<Rightarrow> if missed then first_deadline_after scheduled observed period else Some nxt)"

text \<open>The loop computes one product, whatever the number of chunks.\<close>

lemma deadline_loop_eq:
  assumes "nxt \<le> instant_max"
  shows "deadline_loop observed period remaining nxt =
    (if nxt + period * remaining \<le> instant_max then nxt + period * remaining else add_instant observed period)"
  using assms
proof (induction observed period remaining nxt rule: deadline_loop.induct)
  case (1 observed period remaining nxt)
  let ?c = "min remaining u32_max"
  show ?case
  proof (cases "0 < remaining")
    case True
    have split: "period * remaining = period * ?c + period * (remaining - ?c)"
      by (metis add_diff_inverse_nat distrib_left min.cobounded1 not_less)
    show ?thesis
    proof (cases "nxt + period * ?c \<le> instant_max")
      case fits: True
      have "checked_mul_duration period ?c = Some (period * ?c)"
        using fits by (simp add: checked_mul_duration_def instant_max_def duration_max_def)
      moreover have "checked_add_instant nxt (period * ?c) = Some (nxt + period * ?c)"
        using fits by (simp add: checked_add_instant_def)
      ultimately have "deadline_loop observed period remaining nxt = deadline_loop observed period (remaining - ?c) (nxt + period * ?c)"
        using True by (subst deadline_loop.simps) (simp add: Let_def)
      also have "\<dots> = (if nxt + period * ?c + period * (remaining - ?c) \<le> instant_max
          then nxt + period * ?c + period * (remaining - ?c) else add_instant observed period)"
        using "1.IH" [OF True refl] fits by (simp add: checked_mul_duration_def checked_add_instant_def instant_max_def duration_max_def)
      finally show ?thesis unfolding split by (simp add: add.assoc)
    next
      case False
      then have "deadline_loop observed period remaining nxt = add_instant observed period"
        using True by (subst deadline_loop.simps)
          (simp add: Let_def checked_mul_duration_def checked_add_instant_def split: option.split)
      moreover have "\<not> nxt + period * remaining \<le> instant_max" using False split by linarith
      ultimately show ?thesis by simp
    qed
  next
    case False
    then show ?thesis using "1.prems" by (simp add: deadline_loop.simps)
  qed
qed

lemma add_instant_bound: "a \<le> instant_max \<Longrightarrow> add_instant a d \<le> instant_max"
  by (simp add: add_instant_def checked_add_instant_def split: option.split)

lemma add_instant_le: "a \<le> add_instant a d"
  by (simp add: add_instant_def checked_add_instant_def split: option.split)

text \<open>The next multiple of the period after an instant.\<close>

lemma next_multiple:
  fixes s obs p :: nat
  assumes "0 < p"
  shows "obs < s + p * ((obs - s) div p + 1)" "k \<le> (obs - s) div p \<Longrightarrow> s \<le> obs \<Longrightarrow> s + p * k \<le> obs"
proof -
  have "obs - s < p * ((obs - s) div p + 1)"
    using assms dividend_less_div_times [of p "obs - s"] by (simp add: algebra_simps)
  then show "obs < s + p * ((obs - s) div p + 1)" by linarith
  assume k: "k \<le> (obs - s) div p" "s \<le> obs"
  have "p * k \<le> p * ((obs - s) div p)" using k(1) by simp
  also have "\<dots> \<le> obs - s" by simp
  finally show "s + p * k \<le> obs" using k(2) by linarith
qed

subsection \<open>Sleeping\<close>

text \<open>\<open>SleepState\<close> and \<open>Sleep\<close>; a sleep refers to its cell by address and to its timer by the handle.\<close>

record sleep_state =
  ss_ready :: bool
  ss_waker :: "waker option"

record sleep =
  sl_delay :: "nat option"
  sl_state :: "address option"
  sl_handle :: "(nat \<times> nat) option"
  sl_completed :: bool

text \<open>The cells, the cell each sleep's timer callback completes, and the wakers woken so far.\<close>

record cells =
  ce_states :: "address \<Rightarrow> sleep_state"
  ce_callbacks :: "nat \<rightharpoonup> address"
  ce_next :: address
  ce_woken :: "waker list"

definition sleep_new :: "nat \<Rightarrow> sleep" where
  "sleep_new d = \<lparr>sl_delay = Some d, sl_state = None, sl_handle = None, sl_completed = False\<rparr>"

text \<open>The first poll arms the timer; \<open>c\<close> is the closure that completes the new cell.\<close>

definition sleep_start :: "nat \<Rightarrow> 'c \<Rightarrow> sleep \<Rightarrow> 'c sched \<Rightarrow> cells \<Rightarrow> (sleep \<times> 'c sched \<times> cells) panics" where
  "sleep_start now c sl r ce = (case sl_state sl of
     Some _ \<Rightarrow> Some (sl, r, ce)
   | None \<Rightarrow> do {
       let delay = (case sl_delay sl of Some d \<Rightarrow> d | None \<Rightarrow> 0);
       let a = ce_next ce;
       (r, handle) \<leftarrow> timeout now delay c r;
       Some (sl\<lparr>sl_delay := None, sl_state := Some a, sl_handle := Some handle\<rparr>, r,
         ce\<lparr>ce_states := (ce_states ce)(a := \<lparr>ss_ready = False, ss_waker = None\<rparr>),
            ce_callbacks := (ce_callbacks ce)(fst handle \<mapsto> a), ce_next := Suc a\<rparr>)
     })"

definition sleep_finished :: "sleep \<Rightarrow> sleep" where
  "sleep_finished sl = sl\<lparr>sl_completed := True, sl_state := None, sl_handle := None\<rparr>"

definition set_cell_waker :: "address \<Rightarrow> waker \<Rightarrow> cells \<Rightarrow> cells" where
  "set_cell_waker a w ce = ce\<lparr>ce_states := (ce_states ce)(a := (ce_states ce a)\<lparr>ss_waker := Some w\<rparr>)\<rparr>"

definition sleep_poll :: "nat \<Rightarrow> 'c \<Rightarrow> waker \<Rightarrow> sleep \<Rightarrow> 'c sched \<Rightarrow> cells \<Rightarrow> (sleep \<times> 'c sched \<times> cells \<times> unit poll) panics" where
  "sleep_poll now c w sl r ce =
     (if sl_completed sl then Some (sl, r, ce, Ready ())
      else do {
        (sl, r, ce) \<leftarrow> sleep_start now c sl r ce;
        a \<leftarrow> sl_state sl;
        Some (if ss_ready (ce_states ce a) then (sleep_finished sl, r, ce, Ready ())
              else let ce = set_cell_waker a w ce in
                if ss_ready (ce_states ce a) then (sleep_finished sl, r, ce, Ready ()) else (sl, r, ce, Pending))
      })"

definition sleep_drop :: "sleep \<Rightarrow> 'c sched \<Rightarrow> 'c sched panics" where
  "sleep_drop sl r =
     (if sl_completed sl then Some r
      else case sl_handle sl of Some (i, g) \<Rightarrow> clear_timer g i r | None \<Rightarrow> Some r)"

definition sleep_complete :: "address \<Rightarrow> cells \<Rightarrow> cells" where
  "sleep_complete a ce =
     (let w = ss_waker (ce_states ce a); ce = ce\<lparr>ce_states := (ce_states ce)(a := \<lparr>ss_ready = True, ss_waker = None\<rparr>)\<rparr> in
      case w of Some w \<Rightarrow> ce\<lparr>ce_woken := ce_woken ce @ [w]\<rparr> | None \<Rightarrow> ce)"

subsection \<open>\<open>timeout\<close>\<close>

datatype elapsed = Elapsed

text \<open>One poll of \<open>timeout\<close>; \<open>inner\<close> is what polling the wrapped future gave. A future that has returned drops the
  sleep it owns.\<close>

definition timeout_poll :: "'v poll \<Rightarrow> nat \<Rightarrow> 'c \<Rightarrow> waker \<Rightarrow> sleep \<Rightarrow> 'c sched \<Rightarrow> cells \<Rightarrow>
    (sleep option \<times> 'c sched \<times> cells \<times> (elapsed, 'v) result poll) panics" where
  "timeout_poll inner now c w sleeper r ce = (case inner of
     Ready v \<Rightarrow> do { r \<leftarrow> sleep_drop sleeper r; Some (None, r, ce, Ready (Ok v)) }
   | Pending \<Rightarrow> do {
       (sleeper, r, ce, p) \<leftarrow> sleep_poll now c w sleeper r ce;
       (case p of
          Ready _ \<Rightarrow> do { r \<leftarrow> sleep_drop sleeper r; Some (None, r, ce, Ready (Err Elapsed)) }
        | Pending \<Rightarrow> Some (Some sleeper, r, ce, Pending))
     })"

subsection \<open>\<open>Interval\<close>\<close>

record interval_fut =
  iv_period :: nat
  iv_next_tick :: nat
  iv_first_tick :: bool
  iv_sleep :: "sleep option"
  iv_behavior :: missed_tick_behavior

definition interval_new :: "nat \<Rightarrow> nat \<Rightarrow> interval_fut" where
  "interval_new now p = \<lparr>iv_period = p, iv_next_tick = now, iv_first_tick = True, iv_sleep = None, iv_behavior = Burst\<rparr>"

definition set_missed_tick_behavior :: "missed_tick_behavior \<Rightarrow> interval_fut \<Rightarrow> interval_fut" where
  "set_missed_tick_behavior b iv = iv\<lparr>iv_behavior := b\<rparr>"

text \<open>Polling the interval's sleep, made with the given delay if there is none.\<close>

definition tick_sleep :: "nat \<Rightarrow> nat \<Rightarrow> 'c \<Rightarrow> waker \<Rightarrow> interval_fut \<Rightarrow> 'c sched \<Rightarrow> cells \<Rightarrow>
    (interval_fut \<times> 'c sched \<times> cells \<times> unit poll) panics" where
  "tick_sleep delay armed c w iv r ce = do {
     (sl, r, ce, p) \<leftarrow> sleep_poll armed c w (case iv_sleep iv of Some sl \<Rightarrow> sl | None \<Rightarrow> sleep_new delay) r ce;
     (case p of
        Ready _ \<Rightarrow> do { r \<leftarrow> sleep_drop sl r; Some (iv\<lparr>iv_sleep := None\<rparr>, r, ce, Ready ()) }
      | Pending \<Rightarrow> Some (iv\<lparr>iv_sleep := Some sl\<rparr>, r, ce, Pending))
   }"

text \<open>\<open>now\<close> and \<open>observed\<close> are the first and the second reading of \<open>Instant::now\<close>, \<open>armed\<close> that of arming the timer.\<close>

definition interval_tick_poll :: "nat \<Rightarrow> nat \<Rightarrow> nat \<Rightarrow> 'c \<Rightarrow> waker \<Rightarrow> interval_fut \<Rightarrow> 'c sched \<Rightarrow> cells \<Rightarrow>
    (interval_fut \<times> 'c sched \<times> cells \<times> nat poll) panics" where
  "interval_tick_poll now armed observed c w iv r ce =
     (if iv_first_tick iv
      then Some (iv\<lparr>iv_first_tick := False, iv_next_tick := add_instant (iv_next_tick iv) (iv_period iv)\<rparr>, r, ce,
                 Ready (iv_next_tick iv))
      else if iv_period iv = 0
      then do {
        (iv, r, ce, p) \<leftarrow> tick_sleep 0 armed c w iv r ce;
        Some (iv, r, ce, case p of Ready _ \<Rightarrow> Ready observed | Pending \<Rightarrow> Pending)
      }
      else do {
        let scheduled = iv_next_tick iv;
        (iv, r, ce, p) \<leftarrow> (if now < scheduled then tick_sleep (scheduled - now) armed c w iv r ce
           else do {
             r \<leftarrow> (case iv_sleep iv of Some sl \<Rightarrow> sleep_drop sl r | None \<Rightarrow> Some r);
             Some (iv\<lparr>iv_sleep := None\<rparr>, r, ce, Ready ())
           });
        (case p of
           Pending \<Rightarrow> Some (iv, r, ce, Pending)
         | Ready _ \<Rightarrow> do {
             nxt \<leftarrow> next_deadline scheduled observed (iv_period iv) (iv_behavior iv);
             Some (iv\<lparr>iv_next_tick := nxt\<rparr>, r, ce, Ready scheduled)
           })
      })"

subsection \<open>The system\<close>

text \<open>The futures that hold a sleep. The wrapped future of a timeout is user code.\<close>

datatype timed = TSleep sleep | TTimeout sleep | TInterval interval_fut

text \<open>An event loop with the futures alive on its thread, by number. Recorded for the statements: the deadline of each
  sleep and timeout (its first poll plus its duration), the waker of the last pending poll with the number of
  wake-ups before it, the completions with their deadline and time, and the ticks with their time.\<close>

record 'c time_sys =
  ty_loop :: "'c event_loop"
  ty_cells :: cells
  ty_futs :: "nat \<rightharpoonup> timed"
  ty_goal :: "nat \<Rightarrow> nat"
  ty_polled :: "nat \<rightharpoonup> waker \<times> nat"
  ty_slept :: "(nat \<times> nat \<times> nat) list"
  ty_ticks :: "(nat \<times> nat \<times> nat) list"

definition set_loop :: "'c sched \<Rightarrow> nat \<Rightarrow> cells \<Rightarrow> 'c time_sys \<Rightarrow> 'c time_sys" where
  "set_loop r now ce s = s\<lparr>ty_loop := (ty_loop s)\<lparr>sc := r, clock := now\<rparr>, ty_cells := ce\<rparr>"

text \<open>The deadline a first poll arms.\<close>

definition goal_at :: "nat \<Rightarrow> sleep \<Rightarrow> nat \<Rightarrow> nat" where
  "goal_at now sl d =
     (if sl_completed sl \<or> sl_state sl \<noteq> None then d
      else deadline_add now (case sl_delay sl of Some d \<Rightarrow> d | None \<Rightarrow> 0))"

definition note_poll :: "nat \<Rightarrow> waker \<Rightarrow> 'a poll \<Rightarrow> 'c time_sys \<Rightarrow> 'c time_sys" where
  "note_poll k w p s = s\<lparr>ty_polled := (ty_polled s)(k := (case p of Ready _ \<Rightarrow> None | Pending \<Rightarrow> Some (w, length (ce_woken (ty_cells s)))))\<rparr>"

fun sleep_in :: "timed \<Rightarrow> sleep option" where
  "sleep_in (TSleep sl) = Some sl"
| "sleep_in (TTimeout sl) = Some sl"
| "sleep_in (TInterval iv) = iv_sleep iv"

text \<open>What a callback that starts completes.\<close>

definition run_callback :: "'c event \<Rightarrow> cells \<Rightarrow> cells" where
  "run_callback l ce = (case l of
     CallbackStart i _ \<Rightarrow> (case ce_callbacks ce i of Some a \<Rightarrow> sleep_complete a ce | None \<Rightarrow> ce)
   | _ \<Rightarrow> ce)"

text \<open>The timer handle of a sleep is private: code outside does not clear it.\<close>

definition private_timers :: "cells \<Rightarrow> 'c event_loop \<Rightarrow> 'c event \<Rightarrow> 'c event_loop \<Rightarrow> bool" where
  "private_timers ce e l e' \<longleftrightarrow> (\<forall>i \<in> dom (ce_callbacks ce). i \<in> live_timeouts (sc e) \<longrightarrow>
     i \<in> live_timeouts (sc e') \<or> (\<exists>c. l = CallbackStart i c))"

inductive time_step :: "'c time_sys \<Rightarrow> unit \<Rightarrow> 'c time_sys \<Rightarrow> bool" where
  tm_loop: "loop_step (ty_loop s) l e' \<Longrightarrow> private_timers (ty_cells s) (ty_loop s) l e' \<Longrightarrow>
    time_step s () (s\<lparr>ty_loop := e', ty_cells := run_callback l (ty_cells s)\<rparr>)"
| tm_sleep: "ty_futs s k = None \<Longrightarrow> time_step s () (s\<lparr>ty_futs := (ty_futs s)(k \<mapsto> TSleep (sleep_new d))\<rparr>)"
| tm_timeout: "ty_futs s k = None \<Longrightarrow> time_step s () (s\<lparr>ty_futs := (ty_futs s)(k \<mapsto> TTimeout (sleep_new d))\<rparr>)"
| tm_interval: "ty_futs s k = None \<Longrightarrow> clock (ty_loop s) \<le> now \<Longrightarrow> now \<le> instant_max \<Longrightarrow>
    time_step s () (s\<lparr>ty_loop := (ty_loop s)\<lparr>clock := now\<rparr>, ty_futs := (ty_futs s)(k \<mapsto> TInterval (interval_new now p))\<rparr>)"
| tm_behavior: "ty_futs s k = Some (TInterval iv) \<Longrightarrow>
    time_step s () (s\<lparr>ty_futs := (ty_futs s)(k \<mapsto> TInterval (set_missed_tick_behavior b iv))\<rparr>)"
| tm_drop: "in_user_code (lpc (ty_loop s)) \<Longrightarrow> ty_futs s k = Some f \<Longrightarrow>
    (case sleep_in f of Some sl \<Rightarrow> sleep_drop sl (sc (ty_loop s)) | None \<Rightarrow> Some (sc (ty_loop s))) = Some r \<Longrightarrow>
    time_step s () ((set_loop r (clock (ty_loop s)) (ty_cells s) s)\<lparr>ty_futs := (ty_futs s)(k := None), ty_polled := (ty_polled s)(k := None)\<rparr>)"
| tm_sleep_poll: "in_user_code (lpc (ty_loop s)) \<Longrightarrow> clock (ty_loop s) \<le> now \<Longrightarrow> ty_futs s k = Some (TSleep sl) \<Longrightarrow>
    sleep_poll now c w sl (sc (ty_loop s)) (ty_cells s) = Some (sl', r, ce, p) \<Longrightarrow> d = goal_at now sl (ty_goal s k) \<Longrightarrow>
    time_step s () (note_poll k w p ((set_loop r now ce s)\<lparr>ty_futs := (ty_futs s)(k \<mapsto> TSleep sl'), ty_goal := (ty_goal s)(k := d),
      ty_slept := ty_slept s @ (if is_ready p then [(k, d, now)] else [])\<rparr>))"
| tm_timeout_poll: "in_user_code (lpc (ty_loop s)) \<Longrightarrow> clock (ty_loop s) \<le> now \<Longrightarrow> ty_futs s k = Some (TTimeout sl) \<Longrightarrow>
    timeout_poll (inner :: nat poll) now c w sl (sc (ty_loop s)) (ty_cells s) = Some (sl', r, ce, p) \<Longrightarrow> d = goal_at now sl (ty_goal s k) \<Longrightarrow>
    time_step s () (note_poll k w p ((set_loop r now ce s)\<lparr>ty_futs := (ty_futs s)(k := map_option TTimeout sl'), ty_goal := (ty_goal s)(k := d),
      ty_slept := ty_slept s @ (if p = Ready (Err Elapsed) then [(k, d, now)] else [])\<rparr>))"
| tm_tick_poll: "in_user_code (lpc (ty_loop s)) \<Longrightarrow> clock (ty_loop s) \<le> now \<Longrightarrow> now \<le> armed \<Longrightarrow> armed \<le> observed \<Longrightarrow>
    observed \<le> instant_max \<Longrightarrow> ty_futs s k = Some (TInterval iv) \<Longrightarrow>
    interval_tick_poll now armed observed c w iv (sc (ty_loop s)) (ty_cells s) = Some (iv', r, ce, p) \<Longrightarrow>
    time_step s () (note_poll k w p ((set_loop r observed ce s)\<lparr>ty_futs := (ty_futs s)(k \<mapsto> TInterval iv'),
      ty_ticks := ty_ticks s @ (case p of Ready t \<Rightarrow> [(k, t, observed)] | Pending \<Rightarrow> [])\<rparr>))"

subsection \<open>A timer through the event loop\<close>

text \<open>A live timeout is in the heap with its deadline, or queued once that has passed.\<close>

definition placed :: "'c sched \<Rightarrow> nat \<Rightarrow> nat \<Rightarrow> nat \<Rightarrow> bool" where
  "placed r now i d \<longleftrightarrow> (\<exists>n c. heap_map (timers r) i = Some n \<and> kind n = Timeout c \<and> deadline n = d)
     \<or> (\<exists>c. FireTimeout i c \<in> set (local_macrotasks r)) \<and> d \<le> now"

lemma placed_mono:
  assumes "placed r now i d" and "now \<le> now'" and "heap_map (timers r') i = heap_map (timers r) i"
    and "set (local_macrotasks r) \<subseteq> set (local_macrotasks r')"
  shows "placed r' now' i d"
  using assms unfolding placed_def by auto

lemma timeout_heap:
  assumes "timeout now delay c s = Some (s', i, g)" and "sched_ok s R"
  shows "i = next_timer_id s" "g = generation s" "local_macrotasks s' = local_macrotasks s" "generation s' = generation s"
    "heap_map (timers s') = (heap_map (timers s))(i \<mapsto> timeout_node i (deadline_add now delay) c)"
proof -
  note ok = sched_okD [OF assms(2)]
  let ?i = "next_timer_id s" and ?d = "deadline_add now delay"
  let ?s = "s\<lparr>next_timer_id := Suc ?i, live_timeouts := insert ?i (live_timeouts s)\<rparr>"
  obtain h where h: "insert_timer (timeout_node ?i ?d c) ?s = Some (?s\<lparr>timers := h, driver_deadline := peek_deadline h\<rparr>)"
      "heap_map h = (heap_map (timers s))(?i \<mapsto> timeout_node ?i ?d c)"
    using insert_timer_ok [of ?s "timeout_node ?i ?d c"] ok(1) timers_ok_fresh(1) [OF ok(2)] by (auto simp: timeout_node_def)
  have "s' = ?s\<lparr>timers := h, driver_deadline := peek_deadline h\<rparr> \<and> i = ?i \<and> g = generation s"
    using assms(1) h(1) by (auto simp: timeout_def bind_eq_Some_conv dest!: allocate_timer_idD)
  then show "i = next_timer_id s" "g = generation s" "local_macrotasks s' = local_macrotasks s" "generation s' = generation s"
    "heap_map (timers s') = (heap_map (timers s))(i \<mapsto> timeout_node i (deadline_add now delay) c)"
    using h(2) by simp_all
qed

lemma interval_heap:
  assumes "interval now delay c s = Some (s', i, g)" and "sched_ok s R" and "j \<noteq> next_timer_id s"
  shows "set (local_macrotasks s) \<subseteq> set (local_macrotasks s')" "generation s' = generation s"
    "heap_map (timers s') j = heap_map (timers s) j"
proof -
  note ok = sched_okD [OF assms(2)]
  let ?i = "next_timer_id s" and ?d = "deadline_add now delay"
  let ?s = "s\<lparr>next_timer_id := Suc ?i, live_intervals := (live_intervals s)(?i \<mapsto> (c, delay))\<rparr>"
  obtain h where h: "insert_timer (interval_node ?i ?d) ?s = Some (?s\<lparr>timers := h, driver_deadline := peek_deadline h\<rparr>)"
      "heap_map h = (heap_map (timers s))(?i \<mapsto> interval_node ?i ?d)"
    using insert_timer_ok [of ?s "interval_node ?i ?d"] ok(1) timers_ok_fresh(1) [OF ok(2)] by (auto simp: interval_node_def)
  have "s' = ?s\<lparr>timers := h, driver_deadline := peek_deadline h\<rparr> \<or> (\<exists>d. s' = schedule_interval_macrotask ?i d ?s)"
    using assms(1) h(1) by (auto simp: interval_def bind_eq_Some_conv Let_def dest!: allocate_timer_idD split: if_splits)
  then show "set (local_macrotasks s) \<subseteq> set (local_macrotasks s')" "generation s' = generation s"
    "heap_map (timers s') j = heap_map (timers s) j"
    using h(2) assms(3) by (auto simp: schedule_interval_macrotask_def push_local_macrotask_def)
qed

lemma clear_heap:
  assumes "clear_timer g j s = Some s'" and "sched_ok s R"
  shows "local_macrotasks s' = local_macrotasks s" "generation s' = generation s"
    "heap_map (timers s') = (if g = generation s then (heap_map (timers s))(j := None) else heap_map (timers s))"
proof -
  obtain h where h: "heap_remove (timers s) j = Some (h, heap_map (timers s) j)" "heap_map h = (heap_map (timers s))(j := None)"
    using heap.remove_spec [OF sched_okD(1) [OF assms(2)], of j] by blast
  show "local_macrotasks s' = local_macrotasks s" "generation s' = generation s"
    "heap_map (timers s') = (if g = generation s then (heap_map (timers s))(j := None) else heap_map (timers s))"
    using assms(1) h by (auto simp: clear_timer_def rearm_thread_timer_def Let_def split: if_splits)
qed

lemma tick_end_heap:
  assumes "tick_end now j d p s = Some s'" and "sched_ok s {j}" and "i \<noteq> j"
  shows "set (local_macrotasks s) \<subseteq> set (local_macrotasks s')" "generation s' = generation s"
    "heap_map (timers s') i = heap_map (timers s) i"
proof -
  note ok = sched_okD [OF assms(2)]
  obtain h where h: "heap_remove (timers s) j = Some (h, heap_map (timers s) j)" "heap_map h = (heap_map (timers s))(j := None)"
    using heap.remove_spec [OF ok(1), of j] by blast
  have ins: "insert_timer (interval_node j x) s = Some s' \<Longrightarrow> local_macrotasks s' = local_macrotasks s \<and> generation s' = generation s
      \<and> heap_map (timers s') = (heap_map (timers s))(j \<mapsto> interval_node j x)" for x
    using insert_timer_ok [OF ok(1), of "interval_node j x"] timers_ok_fresh(2) [OF ok(2)] by (auto simp: interval_node_def)
  show "set (local_macrotasks s) \<subseteq> set (local_macrotasks s')" "generation s' = generation s"
    "heap_map (timers s') i = heap_map (timers s) i"
    using assms(1,3) h ins by (auto simp: tick_end_def Let_def schedule_interval_macrotask_def push_local_macrotask_def
        split: if_splits option.splits)
qed

lemma live_timeouts_where:
  assumes "sched_ok s R"
  shows "live_timeouts s \<subseteq> dom (heap_map (timers s)) \<union> set (queued_ids (local_macrotasks s))" (is "_ \<subseteq> dom ?H \<union> set (queued_ids ?ms)")
proof -
  have t: "live_timeouts s \<subseteq> heap_timeouts ?H \<union> fires ?ms"
    using sched_okD(2) [OF assms] unfolding timers_ok_def by simp_all
  have "heap_timeouts ?H \<subseteq> dom ?H" using heap_kinds_dom [of ?H] by blast
  moreover have "fires ?ms \<subseteq> set (queued_ids ?ms)" using queued_sets [of ?ms] by blast
  ultimately show ?thesis using t by (meson Un_mono order_trans)
qed

lemma live_timeouts_old:
  assumes "sched_ok s R"
  shows "live_timeouts s \<subseteq> {..<next_timer_id s}"
proof -
  have "dom (heap_map (timers s)) \<union> set (queued_ids (local_macrotasks s)) \<subseteq> {..<next_timer_id s}"
    using sched_okD(2) [OF assms] unfolding timers_ok_def by simp
  then show ?thesis using live_timeouts_where [OF assms] by order
qed

lemma dispatch_placed:
  assumes "dispatch_expired_timers now s = Some s'" and "sched_ok s R" and "placed s limit i d" and "now \<le> limit"
  shows "placed s' limit i d" "generation s' = generation s"
proof -
  note ok = sched_okD [OF assms(2)]
  obtain h due where p: "pop_due (timers s) now = Some (h, due)" "set due = {n \<in> ran (heap_map (timers s)). deadline n \<le> now}"
      "heap_map h = not_due deadline now (heap_map (timers s))"
    using heap.pop_due_spec [OF ok(1), of now] by blast
  have s': "heap_map (timers s') = heap_map h" "local_macrotasks s' = local_macrotasks s @ map expired_task due" "generation s' = generation s"
    using assms(1) p(1) by (auto simp: dispatch_expired_timers_def Let_def rearm_thread_timer_def fold_push count_timers_def split: if_splits)
  from assms(3) consider (heap) n c where "heap_map (timers s) i = Some n" "kind n = Timeout c" "deadline n = d"
    | (queued) c where "FireTimeout i c \<in> set (local_macrotasks s)" "d \<le> limit" unfolding placed_def by blast
  then show "placed s' limit i d"
  proof cases
    case (heap n c)
    show ?thesis
    proof (cases "d \<le> now")
      case True
      then have "n \<in> set due" using heap p(2) by (auto simp: ran_def)
      moreover have "expired_task n = FireTimeout i c" using heap heap.abs_id [OF ok(1) heap(1)] by simp
      ultimately have "FireTimeout i c \<in> set (local_macrotasks s')" using s'(2) by (metis UnCI imageI list.set_map set_append)
      then show ?thesis using True assms(4) unfolding placed_def by fastforce
    next
      case False
      then show ?thesis using heap s'(1) p(3) by (auto simp: placed_def not_due_Some)
    qed
  next
    case (queued c)
    then show ?thesis using s'(2) unfolding placed_def by auto
  qed
  show "generation s' = generation s" by (rule s'(3))
qed

lemma drain_driver_placed:
  assumes "drain_driver_events evs s = Some s'" and "sched_ok s R" and "placed s limit i d" and "\<forall>(_, _, now) \<in> set evs. now \<le> limit"
  shows "placed s' limit i d"
  using assms
proof (induction evs arbitrary: s)
  case (Cons e evs)
  obtain r w now where e: "e = (r, w, now)" by (cases e)
  let ?n = "note_events r w s"
  have n: "sched_ok ?n R" "placed ?n limit i d"
    using Cons.prems(2,3) by (simp_all add: note_events_def Let_def placed_def sched_ok_turn)
  obtain s1 where s1: "(if ready_timer r then dispatch_expired_timers now ?n else Some ?n) = Some s1" "drain_driver_events evs s1 = Some s'"
    using Cons.prems(1) e by (auto simp: bind_eq_Some_conv)
  have "sched_ok s1 R"
    using s1(1) n(1) dispatch_ok [OF n(1), of now] by (elim exE conjE) (auto split: if_splits)
  moreover have "placed s1 limit i d"
    using s1(1) n dispatch_placed(1) [OF _ n, of now s1] Cons.prems(4) e by (auto split: if_splits)
  ultimately show ?case using Cons.IH s1(2) Cons.prems(4) by simp
qed simp

lemma drain_driver_generation: "drain_driver_events evs s = Some s' \<Longrightarrow> sched_ok s R \<Longrightarrow> generation s' = generation s"
  using drain_driver_ok [of s R evs] by (auto simp: same_but_timers_def)

lemma user_op_placed:
  assumes "user_op now s s'" and "sched_ok s R" and "i \<in> live_timeouts s" and "i \<in> live_timeouts s'" and "placed s limit i d"
  shows "placed s' limit i d"
proof -
  have old: "i \<noteq> next_timer_id s" using live_timeouts_old [OF assms(2)] assms(3) by auto
  show ?thesis
    using assms(1)
  proof cases
    case (uo_timeout delay c j g)
    then show ?thesis using timeout_heap [OF uo_timeout assms(2)] old by (intro placed_mono [OF assms(5)]) simp_all
  next
    case (uo_interval delay c j g)
    then show ?thesis using interval_heap [OF uo_interval assms(2) old] by (intro placed_mono [OF assms(5)]) simp_all
  next
    case (uo_clear g j)
    have "g = generation s \<Longrightarrow> j \<noteq> i" using clear_timer_frame [OF uo_clear] assms(4) by (auto simp: live_frame_def)
    then show ?thesis using clear_heap [OF uo_clear assms(2)] by (intro placed_mono [OF assms(5)]) auto
  qed (use assms(5) in \<open>auto simp: placed_def queue_task_def push_local_macrotask_def queue_microtask_def\<close>)
qed

lemma user_op_generation:
  assumes "user_op now s s'" and "sched_ok s R"
  shows "generation s' = generation s"
  using assms(1)
proof cases
  case (uo_interval delay c j g)
  then show ?thesis using interval_heap(2) [OF uo_interval assms(2), of "Suc (next_timer_id s)"] by simp
qed (use timeout_heap(4) [OF _ assms(2)] clear_heap(2) [OF _ assms(2)] in
    \<open>auto simp: queue_task_def push_local_macrotask_def queue_microtask_def\<close>)

lemma loop_generation:
  assumes "loop_inv s" and "loop_step s l t"
  shows "generation (sc t) = generation (sc s)" "clock s \<le> clock t"
proof -
  have ok: "sched_ok (sc s) (tick_of (lpc s))" using assms(1) by (simp add: loop_inv_def)
  show "generation (sc t) = generation (sc s)"
    using assms(2)
  proof cases
    case (ls_driver st evs r)
    then show ?thesis using drain_driver_generation [OF _ ok] by simp
  next
    case (ls_remote st)
    then show ?thesis using arg_cong [OF drain_remote_simps [of "sc s"], of generation] by simp
  next
    case (ls_workers st fin)
    then show ?thesis using arg_cong [OF drain_workers_simps [of fin "sc s"], of generation] by simp
  next
    case (ls_micro_end k w r w')
    then show ?thesis using arg_cong [OF after_microtask_simps [OF ls_micro_end(4)], of generation] by simp
  next
    case (ls_tick_end j d panicked r)
    have "sched_ok (sc s) {j}" using ok ls_tick_end by simp
    then show ?thesis using ls_tick_end tick_end_heap(2) [OF ls_tick_end(4), of "Suc j"] by simp
  next
    case (ls_user r)
    then show ?thesis using user_op_generation [OF _ ok] by simp
  qed (auto simp: event_loop_enter_def event_loop_leave_def turn_begin_def fire_timeout_def commit_idle_def Let_def
      dest!: pop_macrotaskD pop_microtaskD split: if_splits)
  show "clock s \<le> clock t" using assms(2) by cases auto
qed

lemma placed_pop:
  assumes "placed r now i d" and "local_macrotasks r = m # ms" and "\<And>c. m \<noteq> FireTimeout i c"
    and "timers r' = timers r" and "local_macrotasks r' = ms"
  shows "placed r' now i d"
  using assms unfolding placed_def by auto

lemma timer_step:
  assumes "loop_inv s" and "loop_step s l t" and "i \<in> live_timeouts (sc s)" and "placed (sc s) (clock s) i d"
    and "i \<in> live_timeouts (sc t)"
  shows "placed (sc t) (clock t) i d"
proof -
  have ok: "sched_ok (sc s) (tick_of (lpc s))" using assms(1) by (simp add: loop_inv_def)
  note same = placed_mono [OF assms(4)]
  show ?thesis
    using assms(2)
  proof cases
    case (ls_driver st evs r)
    then show ?thesis using drain_driver_placed [OF ls_driver(4) ok assms(4)] by simp
  next
    case (ls_remote st)
    have "timers (drain_remote_tasks (sc s)) = timers (sc s)" "set (local_macrotasks (sc s)) \<subseteq> set (local_macrotasks (drain_remote_tasks (sc s)))"
      by (subst drain_remote_simps, simp)+
    then show ?thesis using ls_remote by (intro same) simp_all
  next
    case (ls_workers st fin)
    have "timers (drain_completed_workers fin (sc s)) = timers (sc s)"
      "set (local_macrotasks (sc s)) \<subseteq> set (local_macrotasks (drain_completed_workers fin (sc s)))"
      by (subst drain_workers_simps, simp)+
    then show ?thesis using ls_workers by (intro same) simp_all
  next
    case (ls_micro_end k w r w')
    have "timers r = timers (sc s)" "local_macrotasks r = local_macrotasks (sc s)"
      by (subst after_microtask_simps [OF ls_micro_end(4)], simp)+
    then show ?thesis using ls_micro_end by (intro same) simp_all
  next
    case (ls_closure r c)
    obtain ms where m: "local_macrotasks (sc s) = Closure c # ms" "r = (sc s)\<lparr>local_macrotasks := ms, macrotasks_run := wrapping_succ (macrotasks_run (sc s))\<rparr>"
      using pop_macrotaskD(1) [OF ls_closure(4)] by blast
    show ?thesis using placed_pop [OF assms(4) m(1), of r] ls_closure m(2) by simp
  next
    case (ls_timeout r j c r' live)
    obtain ms where m: "local_macrotasks (sc s) = FireTimeout j c # ms" "r = (sc s)\<lparr>local_macrotasks := ms, macrotasks_run := wrapping_succ (macrotasks_run (sc s))\<rparr>"
      using pop_macrotaskD(1) [OF ls_timeout(4)] by blast
    have r': "r' = r\<lparr>live_timeouts := live_timeouts r - {j}\<rparr>" using ls_timeout(5) by (simp add: fire_timeout_def)
    then have "j \<noteq> i" using assms(5) ls_timeout by auto
    then show ?thesis using placed_pop [OF assms(4) m(1), of r'] ls_timeout m(2) r' by simp
  next
    case (ls_tick r j e c)
    obtain ms where m: "local_macrotasks (sc s) = IntervalTick j e # ms" "r = (sc s)\<lparr>local_macrotasks := ms, macrotasks_run := wrapping_succ (macrotasks_run (sc s))\<rparr>"
      using pop_macrotaskD(1) [OF ls_tick(4)] by blast
    show ?thesis using placed_pop [OF assms(4) m(1), of r] ls_tick m(2) by simp
  next
    case (ls_tick_cleared r j e)
    obtain ms where m: "local_macrotasks (sc s) = IntervalTick j e # ms" "r = (sc s)\<lparr>local_macrotasks := ms, macrotasks_run := wrapping_succ (macrotasks_run (sc s))\<rparr>"
      using pop_macrotaskD(1) [OF ls_tick_cleared(4)] by blast
    show ?thesis using placed_pop [OF assms(4) m(1), of r] ls_tick_cleared m(2) by simp
  next
    case (ls_tick_end j e panicked r)
    have j: "sched_ok (sc s) {j}" using ok ls_tick_end by simp
    have "j \<notin> live_timeouts (sc s)"
    proof
      assume "j \<in> live_timeouts (sc s)"
      then have "j \<in> dom (heap_map (timers (sc s))) \<union> set (queued_ids (local_macrotasks (sc s)))"
        using live_timeouts_where [OF j] by blast
      then show False using sched_okD(2) [OF j] by (auto simp: timers_ok_def)
    qed
    then show ?thesis using tick_end_heap [OF ls_tick_end(4) j, of i] ls_tick_end assms(3) by (intro same) auto
  next
    case (ls_user r)
    then show ?thesis using user_op_placed [OF ls_user(4) ok assms(3) _ assms(4)] assms(5) by simp
  next
    case (ls_commit_retry r)
    then show ?thesis using commit_idle_simps [OF ls_commit_retry(4)] by (intro same) simp_all
  next
    case (ls_commit_cancel r ids)
    then show ?thesis using commit_idle_simps [OF ls_commit_cancel(4)] by (intro same) simp_all
  next
    case (ls_commit_exit r ic)
    then show ?thesis using commit_idle_simps [OF ls_commit_exit(4)] by (intro same) (simp_all add: event_loop_leave_def)
  qed (use assms(4) in \<open>auto simp: placed_def event_loop_enter_def event_loop_leave_def turn_begin_def
      dest!: pop_macrotaskD pop_microtaskD split: if_splits\<close>)
qed

text \<open>The callback of a timeout starts only from the queue, and never before the deadline.\<close>

lemma timer_fires:
  assumes "loop_inv s" and "loop_step s (CallbackStart i c) t" and "i \<in> live_timeouts (sc s)" and "placed (sc s) (clock s) i d"
  shows "d \<le> clock s" "clock t = clock s" "i \<notin> live_timeouts (sc t)"
proof -
  have ok: "sched_ok (sc s) (tick_of (lpc s))" using assms(1) by (simp add: loop_inv_def)
  note t = sched_okD(2) [OF ok, unfolded timers_ok_def]
  have "\<exists>m ms. local_macrotasks (sc s) = m # ms \<and> ((\<exists>c. m = FireTimeout i c) \<or> (\<exists>e. m = IntervalTick i e))
      \<and> clock t = clock s \<and> ((\<exists>c. m = FireTimeout i c) \<longrightarrow> i \<notin> live_timeouts (sc t))"
    using assms(2)
  proof cases
    case (ls_timeout r r' live)
    then show ?thesis by (auto simp: fire_timeout_def dest!: pop_macrotaskD(1) split: if_splits)
  next
    case (ls_tick r e)
    then show ?thesis by (auto dest!: pop_macrotaskD(1))
  qed
  then obtain m ms where m: "local_macrotasks (sc s) = m # ms" "(\<exists>c. m = FireTimeout i c) \<or> (\<exists>e. m = IntervalTick i e)"
    "clock t = clock s" "(\<exists>c. m = FireTimeout i c) \<longrightarrow> i \<notin> live_timeouts (sc t)" by (elim exE conjE) (rule that)
  have q: "i \<in> set (queued_ids (local_macrotasks (sc s)))" using m(1,2) by auto
  then have h: "heap_map (timers (sc s)) i = None" using t by auto
  then have f: "i \<in> fires (local_macrotasks (sc s))" "d \<le> clock s"
    using assms(3,4) t by (auto simp: placed_def fires_def heap_timeouts_def)
  have "\<not> (\<exists>e. m = IntervalTick i e)"
  proof
    assume "\<exists>e. m = IntervalTick i e"
    then have "i \<notin> set (queued_ids ms)" using t m(1) by auto
    moreover have "i \<in> fires ms" using f(1) m(1) \<open>\<exists>e. m = IntervalTick i e\<close> by (auto simp: fires_def)
    ultimately show False using queued_sets [of ms] by blast
  qed
  then show "d \<le> clock s" "clock t = clock s" "i \<notin> live_timeouts (sc t)" using f(2) m by auto
qed

subsection \<open>The invariant\<close>

text \<open>A cell whose callback has run is past its deadline; the timer of any other is armed or queued.\<close>

definition cell_ok :: "'c event_loop \<Rightarrow> sleep_state \<Rightarrow> nat \<Rightarrow> nat \<Rightarrow> bool" where
  "cell_ok e st i d \<longleftrightarrow> (if ss_ready st then d \<le> clock e else i \<in> live_timeouts (sc e) \<and> placed (sc e) (clock e) i d)"

definition sleep_ok :: "'c event_loop \<Rightarrow> cells \<Rightarrow> nat \<Rightarrow> sleep \<Rightarrow> bool" where
  "sleep_ok e ce d sl \<longleftrightarrow>
     (if sl_completed sl then sl_state sl = None \<and> sl_handle sl = None \<and> d \<le> clock e
      else case sl_state sl of
        None \<Rightarrow> sl_handle sl = None
      | Some a \<Rightarrow> \<exists>i. sl_handle sl = Some (i, generation (sc e)) \<and> ce_callbacks ce i = Some a \<and> cell_ok e (ce_states ce a) i d)"

definition cells_ok :: "'c event_loop \<Rightarrow> cells \<Rightarrow> bool" where
  "cells_ok e ce \<longleftrightarrow> dom (ce_callbacks ce) \<subseteq> {..<next_timer_id (sc e)} \<and> ran (ce_callbacks ce) \<subseteq> {..<ce_next ce}
     \<and> inj_on (ce_callbacks ce) (dom (ce_callbacks ce))"

fun timed_ok :: "'c event_loop \<Rightarrow> cells \<Rightarrow> nat \<Rightarrow> timed \<Rightarrow> bool" where
  "timed_ok e ce d (TSleep sl) \<longleftrightarrow> sleep_ok e ce d sl"
| "timed_ok e ce d (TTimeout sl) \<longleftrightarrow> sleep_ok e ce d sl \<and> \<not> sl_completed sl"
| "timed_ok e ce d (TInterval iv) \<longleftrightarrow> iv_next_tick iv \<le> instant_max \<and> (iv_first_tick iv \<longrightarrow> iv_next_tick iv \<le> clock e \<and> iv_sleep iv = None) \<and>
     (\<forall>sl. iv_sleep iv = Some sl \<longrightarrow> \<not> sl_completed sl \<and> sl_state sl \<noteq> None \<and>
       (\<exists>g. sleep_ok e ce g sl \<and> (0 < iv_period iv \<longrightarrow> iv_next_tick iv \<le> g)))"

definition sleep_ids :: "sleep option \<Rightarrow> nat set" where
  "sleep_ids so = {i. \<exists>sl g. so = Some sl \<and> sl_handle sl = Some (i, g)}"

definition fut_ids :: "timed option \<Rightarrow> nat set" where
  "fut_ids fo = (case fo of Some f \<Rightarrow> sleep_ids (sleep_in f) | None \<Rightarrow> {})"

text \<open>The last pending poll of a future is remembered by its cell until the callback wakes it.\<close>

definition waker_ok :: "cells \<Rightarrow> timed option \<Rightarrow> (waker \<times> nat) option \<Rightarrow> bool" where
  "waker_ok ce fo q \<longleftrightarrow> (\<forall>w m. q = Some (w, m) \<longrightarrow> m \<le> length (ce_woken ce) \<and>
     (\<exists>f sl a i g. fo = Some f \<and> sleep_in f = Some sl \<and> \<not> sl_completed sl \<and> sl_state sl = Some a \<and> sl_handle sl = Some (i, g)
        \<and> ce_callbacks ce i = Some a
        \<and> (if ss_ready (ce_states ce a) then w \<in> set (drop m (ce_woken ce)) else ss_waker (ce_states ce a) = Some w)))"

definition time_inv :: "'c time_sys \<Rightarrow> bool" where
  "time_inv s \<longleftrightarrow> loop_inv (ty_loop s) \<and> cells_ok (ty_loop s) (ty_cells s)
     \<and> (\<forall>k f. ty_futs s k = Some f \<longrightarrow> timed_ok (ty_loop s) (ty_cells s) (ty_goal s k) f)
     \<and> (\<forall>k k'. k \<noteq> k' \<longrightarrow> fut_ids (ty_futs s k) \<inter> fut_ids (ty_futs s k') = {})
     \<and> (\<forall>k. waker_ok (ty_cells s) (ty_futs s k) (ty_polled s k))
     \<and> (\<forall>(k, d, n) \<in> set (ty_slept s). d \<le> n) \<and> (\<forall>(k, t, n) \<in> set (ty_ticks s). t \<le> n)"

definition time_init :: "'c time_sys \<Rightarrow> bool" where
  "time_init s \<longleftrightarrow> loop_init (ty_loop s) \<and> ce_callbacks (ty_cells s) = Map.empty \<and> ty_futs s = Map.empty
     \<and> ty_polled s = Map.empty \<and> ty_slept s = [] \<and> ty_ticks s = []"

lemma time_inv_init: "time_init s \<Longrightarrow> time_inv s"
  using event_loop.inv_init [of "ty_loop s"]
  by (auto simp: time_init_def time_inv_def cells_ok_def waker_ok_def fut_ids_def)

text \<open>What a step on one future leaves alone: timer \<open>i\<close> with its cell, and everything but the timers in a set.\<close>

definition keeps :: "'c event_loop \<Rightarrow> cells \<Rightarrow> 'c event_loop \<Rightarrow> cells \<Rightarrow> nat \<Rightarrow> bool" where
  "keeps e ce e' ce' i \<longleftrightarrow> (\<forall>a. ce_callbacks ce i = Some a \<longrightarrow> ce_callbacks ce' i = Some a \<and> ce_states ce' a = ce_states ce a
     \<and> (\<forall>d. cell_ok e (ce_states ce a) i d \<longrightarrow> cell_ok e' (ce_states ce' a) i d))"

definition moves :: "'c event_loop \<Rightarrow> cells \<Rightarrow> 'c event_loop \<Rightarrow> cells \<Rightarrow> nat set \<Rightarrow> bool" where
  "moves e ce e' ce' I \<longleftrightarrow> loop_inv e' \<and> cells_ok e' ce' \<and> lpc e' = lpc e \<and> generation (sc e') = generation (sc e) \<and> clock e \<le> clock e'
     \<and> ce_woken ce' = ce_woken ce \<and> dom (ce_callbacks ce) \<subseteq> dom (ce_callbacks ce') \<and> (\<forall>i. i \<notin> I \<longrightarrow> keeps e ce e' ce' i)"

lemma moves_refl: "loop_inv e \<Longrightarrow> cells_ok e ce \<Longrightarrow> moves e ce e ce I"
  by (simp add: moves_def keeps_def)

lemma moves_trans:
  assumes "moves e ce e1 ce1 I" and "moves e1 ce1 e2 ce2 J" and "J \<subseteq> I \<union> - dom (ce_callbacks ce)"
  shows "moves e ce e2 ce2 I"
proof -
  have "keeps e ce e2 ce2 i" if "i \<notin> I" for i
  proof (cases "ce_callbacks ce i")
    case None
    then show ?thesis by (simp add: keeps_def)
  next
    case (Some a)
    then have "i \<notin> J" using assms(3) that by blast
    then have "keeps e ce e1 ce1 i" "keeps e1 ce1 e2 ce2 i" using assms(1,2) that by (simp_all add: moves_def)
    then show ?thesis using Some unfolding keeps_def by auto
  qed
  moreover have "dom (ce_callbacks ce) \<subseteq> dom (ce_callbacks ce2)" using assms(1,2) unfolding moves_def by (elim conjE) (rule order_trans)
  ultimately show ?thesis using assms(1,2) by (simp add: moves_def)
qed

lemma sleep_ok_keeps:
  assumes "sleep_ok e ce d sl" and "generation (sc e') = generation (sc e)" and "clock e \<le> clock e'"
    and "\<And>i. i \<in> sleep_ids (Some sl) \<Longrightarrow> keeps e ce e' ce' i"
  shows "sleep_ok e' ce' d sl"
  using assms by (fastforce simp: sleep_ok_def sleep_ids_def keeps_def split: option.splits if_splits)

lemma timed_ok_keeps:
  assumes "timed_ok e ce d f" and "generation (sc e') = generation (sc e)" and "clock e \<le> clock e'"
    and "\<And>i. i \<in> fut_ids (Some f) \<Longrightarrow> keeps e ce e' ce' i"
  shows "timed_ok e' ce' d f"
proof (cases f)
  case (TInterval iv)
  have "sleep_ok e' ce' g sl" if "iv_sleep iv = Some sl" "sleep_ok e ce g sl" for sl g
    by (rule sleep_ok_keeps [OF that(2) assms(2,3)]) (use assms(4) that(1) TInterval in \<open>simp add: fut_ids_def\<close>)
  then show ?thesis using assms(1,3) TInterval by fastforce
qed (use assms sleep_ok_keeps [OF _ assms(2,3)] in \<open>auto simp: fut_ids_def\<close>)

lemma waker_ok_keeps:
  assumes "waker_ok ce fo q" and "\<And>i. i \<in> fut_ids fo \<Longrightarrow> keeps e ce e' ce' i" and "ce_woken ce' = ce_woken ce @ ws"
  shows "waker_ok ce' fo q"
  unfolding waker_ok_def
proof (intro allI impI)
  fix w m
  assume q: "q = Some (w, m)"
  obtain f sl a i g where f: "m \<le> length (ce_woken ce)" "fo = Some f" "sleep_in f = Some sl" "\<not> sl_completed sl" "sl_state sl = Some a"
      "sl_handle sl = Some (i, g)" "ce_callbacks ce i = Some a"
      "if ss_ready (ce_states ce a) then w \<in> set (drop m (ce_woken ce)) else ss_waker (ce_states ce a) = Some w"
    using assms(1) q unfolding waker_ok_def by blast
  have "i \<in> fut_ids fo" using f(2,3,6) by (auto simp: fut_ids_def sleep_ids_def)
  then have "ce_callbacks ce' i = Some a" "ce_states ce' a = ce_states ce a" using assms(2) [of i] f(7) by (auto simp: keeps_def)
  then show "m \<le> length (ce_woken ce') \<and> (\<exists>f sl a i g. fo = Some f \<and> sleep_in f = Some sl \<and> \<not> sl_completed sl \<and> sl_state sl = Some a
      \<and> sl_handle sl = Some (i, g) \<and> ce_callbacks ce' i = Some a
      \<and> (if ss_ready (ce_states ce' a) then w \<in> set (drop m (ce_woken ce')) else ss_waker (ce_states ce' a) = Some w))"
    using f assms(3) by auto
qed

text \<open>A step on the future \<open>k\<close>.\<close>

lemma time_inv_move:
  assumes "time_inv s" and "moves (ty_loop s) (ty_cells s) (ty_loop t) (ty_cells t) (fut_ids (ty_futs s k))"
    and "ty_futs t = (ty_futs s)(k := fo)" and "\<And>j. j \<noteq> k \<Longrightarrow> ty_goal t j = ty_goal s j" and "\<And>j. j \<noteq> k \<Longrightarrow> ty_polled t j = ty_polled s j"
    and "\<And>f. fo = Some f \<Longrightarrow> timed_ok (ty_loop t) (ty_cells t) (ty_goal t k) f"
    and "fut_ids fo \<subseteq> fut_ids (ty_futs s k) \<union> - dom (ce_callbacks (ty_cells s))" and "waker_ok (ty_cells t) fo (ty_polled t k)"
    and "\<forall>(k, d, n) \<in> set (ty_slept t). d \<le> n" and "\<forall>(k, u, n) \<in> set (ty_ticks t). u \<le> n"
  shows "time_inv t"
proof -
  let ?e = "ty_loop s" and ?ce = "ty_cells s" and ?e' = "ty_loop t" and ?ce' = "ty_cells t"
  have mv: "loop_inv ?e'" "cells_ok ?e' ?ce'" "generation (sc ?e') = generation (sc ?e)" "clock ?e \<le> clock ?e'" "ce_woken ?ce' = ce_woken ?ce"
    using assms(2) by (simp_all add: moves_def)
  have disj: "fut_ids (ty_futs s j) \<inter> fut_ids (ty_futs s j') = {}" if "j \<noteq> j'" for j j' using assms(1) that by (simp add: time_inv_def)
  have keep: "keeps ?e ?ce ?e' ?ce' i" if "j \<noteq> k" "i \<in> fut_ids (ty_futs s j)" for i j
    using assms(2) disj [OF that(1)] that(2) by (auto simp: moves_def)
  have dom: "fut_ids (ty_futs s j) \<subseteq> dom (ce_callbacks ?ce)" for j
  proof (cases "ty_futs s j")
    case (Some f)
    then have "timed_ok ?e ?ce (ty_goal s j) f" using assms(1) by (simp add: time_inv_def)
    then show ?thesis using Some by (cases f) (auto simp: fut_ids_def sleep_ids_def sleep_ok_def split: option.splits if_splits)
  qed (simp add: fut_ids_def)
  have "timed_ok ?e' ?ce' (ty_goal t j) f" if "ty_futs t j = Some f" for j f
  proof (cases "j = k")
    case False
    then have f: "ty_futs s j = Some f" using that assms(3) by simp
    then have "timed_ok ?e ?ce (ty_goal s j) f" using assms(1) by (simp add: time_inv_def)
    then show ?thesis unfolding assms(4) [OF False] by (rule timed_ok_keeps [OF _ mv(3,4)]) (use keep [OF False] f in simp)
  qed (use that assms(3,6) in simp)
  moreover have "fut_ids (ty_futs t j) \<inter> fut_ids (ty_futs t j') = {}" if "j \<noteq> j'" for j j'
    using disj [OF that] disj [of k j] disj [of k j'] dom [of j] dom [of j'] that assms(3,7) by (auto split: if_splits)
  moreover have "waker_ok ?ce' (ty_futs t j) (ty_polled t j)" for j
  proof (cases "j = k")
    case False
    have "waker_ok ?ce (ty_futs s j) (ty_polled s j)" using assms(1) by (simp add: time_inv_def)
    then have "waker_ok ?ce' (ty_futs s j) (ty_polled s j)" by (rule waker_ok_keeps [where ws = "[]"]) (use keep [OF False] mv(5) in auto)
    then show ?thesis using False assms(3,5) by simp
  qed (use assms(3,8) in simp)
  ultimately show ?thesis using mv(1,2) assms(9,10) by (simp add: time_inv_def)
qed

text \<open>The operations of the futures are operations of user code.\<close>

lemma loop_inv_clock: "loop_inv e \<Longrightarrow> loop_inv (e\<lparr>clock := now\<rparr>)"
  by (simp add: loop_inv_def)

lemma cell_ok_clock: "cell_ok e st i d \<Longrightarrow> clock e \<le> now \<Longrightarrow> cell_ok (e\<lparr>clock := now\<rparr>) st i d"
  by (auto simp: cell_ok_def intro: placed_mono)

lemma clock_moves:
  assumes "loop_inv e" and "cells_ok e ce" and "clock e \<le> now"
  shows "moves e ce (e\<lparr>clock := now\<rparr>) ce I"
  using assms by (auto simp: moves_def keeps_def cells_ok_def loop_inv_clock cell_ok_clock)

lemma user_moves:
  assumes "loop_inv e" and "in_user_code (lpc e)" and "cells_ok e ce" and "clock e \<le> now" and "user_op now (sc e) r"
    and "\<And>i. i \<in> dom (ce_callbacks ce) \<Longrightarrow> i \<notin> I \<Longrightarrow> i \<in> live_timeouts (sc e) \<Longrightarrow> i \<in> live_timeouts r"
    and "next_timer_id (sc e) \<le> next_timer_id r"
  shows "moves e ce (e\<lparr>sc := r, clock := now\<rparr>) ce I"
proof -
  let ?e = "e\<lparr>clock := now\<rparr>" and ?e' = "e\<lparr>sc := r, clock := now\<rparr>"
  have ok: "sched_ok (sc e) (tick_of (lpc e))" using assms(1) by (simp add: loop_inv_def)
  have "loop_step ?e Silent (?e\<lparr>sc := r\<rparr>)" by (rule ls_user) (use assms(2,5) in simp_all)
  then have "loop_inv (?e\<lparr>sc := r\<rparr>)" by (rule loop_inv_step [OF loop_inv_clock [OF assms(1)]])
  then have inv: "loop_inv ?e'" by (simp add: loop_inv_def)
  have cell: "cell_ok ?e' st i d" if i: "i \<in> dom (ce_callbacks ce)" "i \<notin> I" and c: "cell_ok e st i d" for st i d
  proof (cases "ss_ready st")
    case False
    then have "i \<in> live_timeouts (sc e)" "placed (sc e) now i d" using c assms(4) by (auto simp: cell_ok_def intro: placed_mono)
    moreover from this have "i \<in> live_timeouts r" using assms(6) i by blast
    ultimately show ?thesis using False user_op_placed [OF assms(5) ok] by (simp add: cell_ok_def)
  qed (use c assms(4) in \<open>simp add: cell_ok_def\<close>)
  then have "keeps e ce ?e' ce i" if "i \<notin> I" for i using that by (auto simp: keeps_def)
  moreover have "cells_ok ?e' ce" using assms(3,7) by (auto simp: cells_ok_def)
  ultimately show ?thesis using inv user_op_generation [OF assms(5) ok] assms(4) by (simp add: moves_def)
qed

lemma sleep_start_spec:
  assumes "loop_inv e" and "in_user_code (lpc e)" and "cells_ok e ce" and "clock e \<le> now" and "sleep_ok e ce d sl" and "\<not> sl_completed sl"
    and "sleep_start now c sl (sc e) ce = Some (sl', r, ce')" and e': "e' = e\<lparr>sc := r, clock := now\<rparr>"
  shows "moves e ce e' ce' {}" "sleep_ok e' ce' (goal_at now sl d) sl'" "\<not> sl_completed sl'"
    "sleep_ids (Some sl') \<subseteq> sleep_ids (Some sl) \<union> - dom (ce_callbacks ce)"
    "\<exists>a i. sl_state sl' = Some a \<and> sl_handle sl' = Some (i, generation (sc e')) \<and> ce_callbacks ce' i = Some a \<and> (sl_state sl = None \<longrightarrow> \<not> ss_ready (ce_states ce' a))"
proof -
  have ok: "sched_ok (sc e) (tick_of (lpc e))" using assms(1) by (simp add: loop_inv_def)
  have "moves e ce e' ce' {} \<and> sleep_ok e' ce' (goal_at now sl d) sl' \<and> \<not> sl_completed sl'
    \<and> sleep_ids (Some sl') \<subseteq> sleep_ids (Some sl) \<union> - dom (ce_callbacks ce)
    \<and> (\<exists>a i. sl_state sl' = Some a \<and> sl_handle sl' = Some (i, generation (sc e')) \<and> ce_callbacks ce' i = Some a \<and> (sl_state sl = None \<longrightarrow> \<not> ss_ready (ce_states ce' a)))"
  proof (cases "sl_state sl")
    case (Some a)
    then have eq: "sl' = sl" "r = sc e" "ce' = ce" "e' = e\<lparr>clock := now\<rparr>" using assms(7) e' by (auto simp: sleep_start_def)
    have mv: "moves e ce e' ce {}" unfolding eq(4) by (rule clock_moves [OF assms(1,3,4)])
    then have "sleep_ok e' ce d sl" by (intro sleep_ok_keeps [OF assms(5)]) (auto simp: moves_def)
    then show ?thesis using mv Some eq assms(6) by (auto simp: goal_at_def sleep_ok_def)
  next
    case None
    let ?delay = "case sl_delay sl of Some d \<Rightarrow> d | None \<Rightarrow> 0" and ?a = "ce_next ce" and ?i = "next_timer_id (sc e)"
    obtain i g where t: "timeout now ?delay c (sc e) = Some (r, i, g)" and sl': "sl' = sl\<lparr>sl_delay := None, sl_state := Some ?a, sl_handle := Some (i, g)\<rparr>"
      and ce': "ce' = ce\<lparr>ce_states := (ce_states ce)(?a := \<lparr>ss_ready = False, ss_waker = None\<rparr>), ce_callbacks := (ce_callbacks ce)(i \<mapsto> ?a), ce_next := Suc ?a\<rparr>"
      using assms(7) None by (auto simp: sleep_start_def bind_eq_Some_conv Let_def)
    note h = timeout_heap [OF t ok]
    have r: "next_timer_id r = Suc ?i" "live_timeouts r = insert ?i (live_timeouts (sc e))"
      using timeout_frame(2) [OF t] by (simp_all add: live_frame_def)
    have mv: "moves e ce e' ce {}" unfolding e' by (rule user_moves [OF assms(1-4) uo_timeout [OF t]]) (use r in auto)
    have fresh: "i \<notin> dom (ce_callbacks ce)" "?a \<notin> ran (ce_callbacks ce)" using assms(3) h(1) by (auto simp: cells_ok_def)
    have "cells_ok e' ce'"
    proof -
      have "inj_on ((ce_callbacks ce)(i \<mapsto> ?a)) (insert i (dom (ce_callbacks ce)))"
        using assms(3) fresh by (auto simp: cells_ok_def inj_on_def ran_def dom_def split: if_splits)
      moreover have "ran ((ce_callbacks ce)(i \<mapsto> ?a)) \<subseteq> insert ?a (ran (ce_callbacks ce))" by (auto simp: ran_def)
      ultimately show ?thesis using assms(3) r(1) h(1) unfolding cells_ok_def ce' e' by (auto simp: less_Suc_eq)
    qed
    moreover have "keeps e ce e' ce' j" for j
    proof -
      have "keeps e ce e' ce j" using mv by (simp add: moves_def)
      then show ?thesis using fresh by (auto simp: keeps_def ce' ran_def)
    qed
    ultimately have mv': "moves e ce e' ce' {}" using mv by (auto simp: moves_def ce')
    have "i \<in> live_timeouts r \<and> placed r now i (deadline_add now ?delay)"
      using h r by (auto simp: placed_def timeout_node_def)
    then have "sleep_ok e' ce' (goal_at now sl d) sl'"
      using None assms(6) h(2,4) by (simp add: sleep_ok_def sl' ce' e' goal_at_def cell_ok_def)
    then show ?thesis using mv' assms(6) h(2,4) fresh(1) by (auto simp: sl' ce' e' sleep_ids_def)
  qed
  then show "moves e ce e' ce' {}" "sleep_ok e' ce' (goal_at now sl d) sl'" "\<not> sl_completed sl'"
    "sleep_ids (Some sl') \<subseteq> sleep_ids (Some sl) \<union> - dom (ce_callbacks ce)"
    "\<exists>a i. sl_state sl' = Some a \<and> sl_handle sl' = Some (i, generation (sc e')) \<and> ce_callbacks ce' i = Some a \<and> (sl_state sl = None \<longrightarrow> \<not> ss_ready (ce_states ce' a))" by blast+
qed

lemma set_waker_moves:
  assumes "loop_inv e" and "cells_ok e ce" and "ce_callbacks ce i = Some a"
  shows "moves e ce e (set_cell_waker a w ce) {i}"
proof -
  have "keeps e ce e (set_cell_waker a w ce) j" if "j \<noteq> i" for j
  proof -
    have "ce_callbacks ce j \<noteq> Some a" using assms(2,3) that unfolding cells_ok_def inj_on_def by (metis domI)
    then show ?thesis by (auto simp: keeps_def set_cell_waker_def)
  qed
  then show ?thesis using assms(1,2) by (simp add: moves_def cells_ok_def set_cell_waker_def)
qed

lemma sleep_poll_spec:
  assumes "loop_inv e" and "in_user_code (lpc e)" and "cells_ok e ce" and "clock e \<le> now" and "sleep_ok e ce d sl"
    and "sleep_poll now c w sl (sc e) ce = Some (sl', r, ce', p)" and e': "e' = e\<lparr>sc := r, clock := now\<rparr>"
  shows "moves e ce e' ce' (sleep_ids (Some sl))" "sleep_ok e' ce' (goal_at now sl d) sl'"
    "sleep_ids (Some sl') \<subseteq> sleep_ids (Some sl) \<union> - dom (ce_callbacks ce)"
    "p = Ready u \<Longrightarrow> sl_completed sl' \<and> goal_at now sl d \<le> now"
    "p = Pending \<Longrightarrow> \<not> sl_completed sl' \<and> (\<exists>a i g. sl_state sl' = Some a \<and> sl_handle sl' = Some (i, g) \<and> ce_callbacks ce' i = Some a
       \<and> \<not> ss_ready (ce_states ce' a) \<and> ss_waker (ce_states ce' a) = Some w)"
proof -
  have "moves e ce e' ce' (sleep_ids (Some sl)) \<and> sleep_ok e' ce' (goal_at now sl d) sl'
    \<and> sleep_ids (Some sl') \<subseteq> sleep_ids (Some sl) \<union> - dom (ce_callbacks ce)
    \<and> (p = Ready () \<longrightarrow> sl_completed sl' \<and> goal_at now sl d \<le> now)
    \<and> (p = Pending \<longrightarrow> \<not> sl_completed sl' \<and> (\<exists>a i g. sl_state sl' = Some a \<and> sl_handle sl' = Some (i, g) \<and> ce_callbacks ce' i = Some a
       \<and> \<not> ss_ready (ce_states ce' a) \<and> ss_waker (ce_states ce' a) = Some w))"
  proof (cases "sl_completed sl")
    case True
    then have eq: "sl' = sl" "r = sc e" "ce' = ce" "p = Ready ()" "e' = e\<lparr>clock := now\<rparr>" using assms(6) e' by (auto simp: sleep_poll_def)
    then show ?thesis
      using True assms(4,5) clock_moves [OF assms(1,3,4)] by (auto simp: goal_at_def sleep_ok_def)
  next
    case False
    obtain sl1 r1 ce1 where st: "sleep_start now c sl (sc e) ce = Some (sl1, r1, ce1)"
      using assms(6) False by (auto simp: sleep_poll_def bind_eq_Some_conv)
    note spec = sleep_start_spec [OF assms(1-5) False st refl]
    let ?e1 = "e\<lparr>sc := r1, clock := now\<rparr>" and ?g = "goal_at now sl d"
    obtain a i where a: "sl_state sl1 = Some a" "sl_handle sl1 = Some (i, generation (sc ?e1))" "ce_callbacks ce1 i = Some a"
      using spec(5) by blast
    have mv: "moves e ce ?e1 ce1 (sleep_ids (Some sl))" using spec(1) by (simp add: moves_def)
    have cell: "cell_ok ?e1 (ce_states ce1 a) i ?g" using spec(2,3) a by (auto simp: sleep_ok_def)
    show ?thesis
    proof (cases "ss_ready (ce_states ce1 a)")
      case True
      then have eq: "sl' = sleep_finished sl1" "r = r1" "ce' = ce1" "p = Ready ()"
        using assms(6) False st a by (auto simp: sleep_poll_def)
      have "?g \<le> now" using cell True by (simp add: cell_ok_def)
      then show ?thesis using mv eq e' by (simp add: sleep_finished_def sleep_ok_def sleep_ids_def)
    next
      case not_ready: False
      then have eq: "sl' = sl1" "r = r1" "ce' = set_cell_waker a w ce1" "p = Pending"
        using assms(6) False st a by (auto simp: sleep_poll_def set_cell_waker_def Let_def)
      have "moves ?e1 ce1 ?e1 ce' {i}"
        unfolding eq(3) by (rule set_waker_moves) (use spec(1) a(3) in \<open>simp_all add: moves_def\<close>)
      moreover have "{i} \<subseteq> sleep_ids (Some sl) \<union> - dom (ce_callbacks ce)" using spec(4) a(2) by (auto simp: sleep_ids_def)
      ultimately have "moves e ce ?e1 ce' (sleep_ids (Some sl))" by (rule moves_trans [OF mv])
      moreover have "sleep_ok ?e1 ce' ?g sl1"
        using spec(2,3) a cell not_ready by (auto simp: eq(3) sleep_ok_def set_cell_waker_def cell_ok_def)
      ultimately show ?thesis using eq e' spec(3,4) a not_ready by (simp add: set_cell_waker_def)
    qed
  qed
  then show "moves e ce e' ce' (sleep_ids (Some sl))" "sleep_ok e' ce' (goal_at now sl d) sl'"
    "sleep_ids (Some sl') \<subseteq> sleep_ids (Some sl) \<union> - dom (ce_callbacks ce)"
    "p = Ready u \<Longrightarrow> sl_completed sl' \<and> goal_at now sl d \<le> now"
    "p = Pending \<Longrightarrow> \<not> sl_completed sl' \<and> (\<exists>a i g. sl_state sl' = Some a \<and> sl_handle sl' = Some (i, g) \<and> ce_callbacks ce' i = Some a
       \<and> \<not> ss_ready (ce_states ce' a) \<and> ss_waker (ce_states ce' a) = Some w)" by auto
qed

lemma sleep_drop_spec:
  assumes "loop_inv e" and "in_user_code (lpc e)" and "cells_ok e ce" and "clock e \<le> now" and "sleep_ok e ce d sl"
    and "sleep_drop sl (sc e) = Some r"
  shows "moves e ce (e\<lparr>sc := r, clock := now\<rparr>) ce (sleep_ids (Some sl))"
proof (cases "sl_completed sl \<or> sl_handle sl = None")
  case True
  then have "r = sc e" using assms(6) by (auto simp: sleep_drop_def split: if_splits)
  then show ?thesis using clock_moves [OF assms(1,3,4)] by simp
next
  case False
  then obtain i where i: "sl_handle sl = Some (i, generation (sc e))" using assms(5) by (auto simp: sleep_ok_def split: option.splits)
  then have c: "clear_timer (generation (sc e)) i (sc e) = Some r" using assms(6) False by (simp add: sleep_drop_def)
  show ?thesis
    by (rule user_moves [OF assms(1-4) uo_clear [OF c]]) (use clear_timer_frame [OF c] i in \<open>auto simp: live_frame_def sleep_ids_def\<close>)
qed

text \<open>A step of the event loop: a callback completes its own cell and no other.\<close>

lemma run_callback_simps:
  "ce_callbacks (run_callback l ce) = ce_callbacks ce" "ce_next (run_callback l ce) = ce_next ce"
  "\<exists>ws. ce_woken (run_callback l ce) = ce_woken ce @ ws"
  by (auto simp: run_callback_def sleep_complete_def Let_def split: event.split option.split)

lemma run_callback_other:
  assumes "cells_ok e ce" and "ce_callbacks ce i = Some a" and "\<And>c. l \<noteq> CallbackStart i c"
  shows "ce_states (run_callback l ce) a = ce_states ce a"
proof (cases l)
  case (CallbackStart j c)
  then have "j \<noteq> i" using assms(3) by auto
  then have "ce_callbacks ce j \<noteq> Some a" using assms(1,2) unfolding cells_ok_def inj_on_def by (metis domI)
  then show ?thesis using CallbackStart by (auto simp: run_callback_def sleep_complete_def Let_def split: option.split)
qed (simp_all add: run_callback_def)

lemma run_callback_own:
  assumes "ce_callbacks ce i = Some a"
  shows "ss_ready (ce_states (run_callback (CallbackStart i c) ce) a)"
    "ce_woken (run_callback (CallbackStart i c) ce) = ce_woken ce @ (case ss_waker (ce_states ce a) of Some w \<Rightarrow> [w] | None \<Rightarrow> [])"
  using assms by (simp_all add: run_callback_def sleep_complete_def Let_def split: option.split)

lemma loop_sleep_ok:
  assumes "loop_inv e" and "loop_step e l e'" and "cells_ok e ce" and "private_timers ce e l e'" and "sleep_ok e ce d sl"
  shows "sleep_ok e' (run_callback l ce) d sl"
proof (cases "sl_completed sl \<or> sl_state sl = None")
  case True
  then show ?thesis using assms(5) loop_generation(2) [OF assms(1,2)] by (auto simp: sleep_ok_def)
next
  case False
  then obtain a i where a: "sl_state sl = Some a" "sl_handle sl = Some (i, generation (sc e))" "ce_callbacks ce i = Some a"
      "cell_ok e (ce_states ce a) i d"
    using assms(5) by (auto simp: sleep_ok_def)
  have "cell_ok e' (ce_states (run_callback l ce) a) i d"
  proof (cases "\<exists>c. l = CallbackStart i c")
    case True
    then obtain c where l: "l = CallbackStart i c" by blast
    have "d \<le> clock e" using a(4) timer_fires(1) [OF assms(1) assms(2) [unfolded l]] by (auto simp: cell_ok_def split: if_splits)
    then show ?thesis
      using run_callback_own(1) [OF a(3), of c] loop_generation(2) [OF assms(1,2)] l by (simp add: cell_ok_def)
  next
    case other: False
    have st: "ce_states (run_callback l ce) a = ce_states ce a" by (rule run_callback_other [OF assms(3) a(3)]) (use other in simp)
    show ?thesis
    proof (cases "ss_ready (ce_states ce a)")
      case False
      then have live: "i \<in> live_timeouts (sc e)" "placed (sc e) (clock e) i d" using a(4) by (simp_all add: cell_ok_def)
      moreover have "i \<in> live_timeouts (sc e')" using assms(4) live(1) other a(3) by (auto simp: private_timers_def)
      ultimately show ?thesis using timer_step [OF assms(1,2)] False st by (simp add: cell_ok_def)
    qed (use a(4) st loop_generation(2) [OF assms(1,2)] in \<open>simp add: cell_ok_def\<close>)
  qed
  then show ?thesis using False a loop_generation(1) [OF assms(1,2)] by (simp add: sleep_ok_def run_callback_simps)
qed

lemma loop_waker_ok:
  assumes "cells_ok e ce" and "waker_ok ce fo q"
  shows "waker_ok (run_callback l ce) fo q"
  unfolding waker_ok_def
proof (intro allI impI)
  fix w m
  assume q: "q = Some (w, m)"
  let ?ce = "run_callback l ce"
  obtain f sl a i g where f: "m \<le> length (ce_woken ce)" "fo = Some f" "sleep_in f = Some sl" "\<not> sl_completed sl" "sl_state sl = Some a"
      "sl_handle sl = Some (i, g)" "ce_callbacks ce i = Some a"
      "if ss_ready (ce_states ce a) then w \<in> set (drop m (ce_woken ce)) else ss_waker (ce_states ce a) = Some w"
    using assms(2) q unfolding waker_ok_def by blast
  obtain ws where ws: "ce_woken ?ce = ce_woken ce @ ws" using run_callback_simps(3) by blast
  have "if ss_ready (ce_states ?ce a) then w \<in> set (drop m (ce_woken ?ce)) else ss_waker (ce_states ?ce a) = Some w"
  proof (cases "\<exists>c. l = CallbackStart i c")
    case True
    then obtain c where l: "l = CallbackStart i c" by blast
    show ?thesis using f(1,8) unfolding l by (auto simp: run_callback_own [OF f(7)] split: if_splits)
  next
    case False
    have "ce_states ?ce a = ce_states ce a" by (rule run_callback_other [OF assms(1) f(7)]) (use False in simp)
    then show ?thesis using f(1,8) ws by auto
  qed
  moreover have "m \<le> length (ce_woken ?ce)" using f(1) ws by simp
  ultimately show "m \<le> length (ce_woken ?ce) \<and> (\<exists>f sl a i g. fo = Some f \<and> sleep_in f = Some sl \<and> \<not> sl_completed sl \<and> sl_state sl = Some a
      \<and> sl_handle sl = Some (i, g) \<and> ce_callbacks ?ce i = Some a
      \<and> (if ss_ready (ce_states ?ce a) then w \<in> set (drop m (ce_woken ?ce)) else ss_waker (ce_states ?ce a) = Some w))"
    using f(2-7) run_callback_simps(1) [of l ce] by auto
qed

lemma next_timer_step:
  assumes "loop_inv e" and "loop_step e l e'"
  shows "next_timer_id (sc e) \<le> next_timer_id (sc e')"
  using assms(2)
proof cases
  case (ls_driver st evs r)
  then show ?thesis using drain_driver_same [of evs "sc e" r] by simp
next
  case (ls_remote st)
  have "next_timer_id (drain_remote_tasks (sc e)) = next_timer_id (sc e)" by (subst drain_remote_simps) simp
  then show ?thesis using ls_remote by simp
next
  case (ls_workers st fin)
  have "next_timer_id (drain_completed_workers fin (sc e)) = next_timer_id (sc e)" by (subst drain_workers_simps) simp
  then show ?thesis using ls_workers by simp
next
  case (ls_micro_end k w r w')
  have "next_timer_id r = next_timer_id (sc e)" by (subst after_microtask_simps [OF ls_micro_end(4)]) simp
  then show ?thesis using ls_micro_end by simp
next
  case (ls_tick_end j d panicked r)
  then show ?thesis using tick_end_frame [OF ls_tick_end(4)] by (simp add: live_frame_def)
next
  case (ls_user r)
  have "next_timer_id (sc e) \<le> next_timer_id r"
    using ls_user(4)
  proof cases
    case (uo_timeout delay c i g)
    then show ?thesis using timeout_frame(2) [OF uo_timeout] by (simp add: live_frame_def)
  next
    case (uo_interval delay c i g)
    then show ?thesis using interval_frame(2) [OF uo_interval] by (simp add: live_frame_def)
  next
    case (uo_clear g i)
    then show ?thesis using clear_timer_frame [OF uo_clear] by (simp add: live_frame_def)
  qed (simp_all add: queue_task_def push_local_macrotask_def queue_microtask_def)
  then show ?thesis using ls_user by simp
qed (auto simp: event_loop_enter_def event_loop_leave_def turn_begin_def fire_timeout_def commit_idle_def Let_def
    dest!: pop_macrotaskD pop_microtaskD split: if_splits)

lemma time_inv_loop:
  assumes "time_inv s" and "loop_step (ty_loop s) l e'" and "private_timers (ty_cells s) (ty_loop s) l e'"
  shows "time_inv (s\<lparr>ty_loop := e', ty_cells := run_callback l (ty_cells s)\<rparr>)"
proof -
  let ?e = "ty_loop s" and ?ce = "ty_cells s"
  have inv: "loop_inv ?e" "cells_ok ?e ?ce" using assms(1) by (simp_all add: time_inv_def)
  have "cells_ok e' (run_callback l ?ce)"
    using inv(2) next_timer_step [OF inv(1) assms(2)] by (auto simp: cells_ok_def run_callback_simps)
  moreover have "timed_ok e' (run_callback l ?ce) d f" if "timed_ok ?e ?ce d f" for d f
    using that loop_sleep_ok [OF inv(1) assms(2) inv(2) assms(3)] loop_generation(2) [OF inv(1) assms(2)]
    by (cases f) fastforce+
  moreover have "\<forall>k. waker_ok (run_callback l ?ce) (ty_futs s k) (ty_polled s k)"
    using assms(1) by (auto simp: time_inv_def intro: loop_waker_ok [OF inv(2)])
  ultimately show ?thesis using assms(1) loop_inv_step [OF inv(1) assms(2)] by (simp add: time_inv_def)
qed

text \<open>Polling an interval. The sleep it makes is armed for the tick it waits for.\<close>

lemma deadline_add_reaches:
  assumes "now \<le> armed" and "now \<le> target" and "target \<le> instant_max"
  shows "target \<le> deadline_add armed (target - now)"
  using assms unfolding deadline_add_def instant_max_def duration_max_def by auto

lemma next_deadline_bound:
  assumes "scheduled \<le> instant_max" and "observed \<le> instant_max" and "next_deadline scheduled observed period b = Some x"
  shows "x \<le> instant_max"
proof -
  have "first_deadline_after scheduled observed period = Some y \<Longrightarrow> y \<le> instant_max" for y
    using deadline_loop_eq [OF assms(1)] add_instant_bound [OF assms(2)]
    by (auto simp: first_deadline_after_def Let_def split: if_splits)
  then show ?thesis
    using assms(3) add_instant_bound [OF assms(1)] add_instant_bound [OF assms(2)]
    by (cases b) (auto simp: next_deadline_def Let_def split: if_splits)
qed

lemma sleep_new_ok: "sleep_ok e ce d (sleep_new x)" "sleep_ids (Some (sleep_new x)) = {}" "\<not> sl_completed (sleep_new x)"
  "goal_at now (sleep_new x) d = deadline_add now x"
  by (simp_all add: sleep_ok_def sleep_new_def sleep_ids_def goal_at_def)

lemma sleep_ids_None [simp]: "sleep_ids None = {}"
  by (simp add: sleep_ids_def)

lemma tick_sleep_spec:
  assumes "loop_inv e" and "in_user_code (lpc e)" and "cells_ok e ce" and "clock e \<le> armed" and "timed_ok e ce d0 (TInterval iv)"
    and "tick_sleep delay armed c w iv (sc e) ce = Some (iv', r, ce', p)" and e': "e' = e\<lparr>sc := r, clock := armed\<rparr>"
    and "0 < iv_period iv \<longrightarrow> iv_sleep iv = None \<longrightarrow> iv_next_tick iv \<le> deadline_add armed delay"
  shows "moves e ce e' ce' (sleep_ids (iv_sleep iv))" "sleep_ids (iv_sleep iv') \<subseteq> sleep_ids (iv_sleep iv) \<union> - dom (ce_callbacks ce)"
    "\<exists>so. iv' = iv\<lparr>iv_sleep := so\<rparr> \<and> (p = Ready u \<longrightarrow> so = None)"
    "0 < iv_period iv \<Longrightarrow> p = Ready u \<Longrightarrow> iv_next_tick iv \<le> armed"
    "p = Pending \<Longrightarrow> waker_ok ce' (Some (TInterval iv')) (Some (w, length (ce_woken ce'))) \<and>
       (\<forall>sl. iv_sleep iv' = Some sl \<longrightarrow> \<not> sl_completed sl \<and> sl_state sl \<noteq> None \<and>
         (\<exists>g. sleep_ok e' ce' g sl \<and> (0 < iv_period iv \<longrightarrow> iv_next_tick iv \<le> g)))"
proof -
  let ?sl = "case iv_sleep iv of Some sl \<Rightarrow> sl | None \<Rightarrow> sleep_new delay"
  have ids: "sleep_ids (Some ?sl) = sleep_ids (iv_sleep iv)" by (simp add: sleep_new_ok split: option.split)
  obtain g where g: "sleep_ok e ce g ?sl" "0 < iv_period iv \<longrightarrow> iv_next_tick iv \<le> goal_at armed ?sl g"
  proof (cases "iv_sleep iv")
    case None
    then show thesis using that [of 0] assms(8) by (simp add: sleep_new_ok)
  next
    case (Some sl)
    then obtain g where "sleep_ok e ce g sl" "0 < iv_period iv \<longrightarrow> iv_next_tick iv \<le> g" "sl_state sl \<noteq> None" using assms(5) by auto
    then show thesis using that [of g] Some by (simp add: goal_at_def)
  qed
  obtain sl1 r1 ce1 p1 where poll1: "sleep_poll armed c w ?sl (sc e) ce = Some (sl1, r1, ce1, p1)"
    and rest1: "(case p1 of Ready _ \<Rightarrow> do { r \<leftarrow> sleep_drop sl1 r1; Some (iv\<lparr>iv_sleep := None\<rparr>, r, ce1, Ready ()) }
      | Pending \<Rightarrow> Some (iv\<lparr>iv_sleep := Some sl1\<rparr>, r1, ce1, Pending)) = Some (iv', r, ce', p)"
    using assms(6) unfolding tick_sleep_def by (auto simp: bind_eq_Some_conv)
  have "ce1 = ce'" using rest1 by (cases p1) (auto simp: bind_eq_Some_conv)
  note poll = poll1 [unfolded this] and rest = rest1 [unfolded this]
  note spec = sleep_poll_spec [OF assms(1-4) g(1) poll refl]
  have "moves e ce e' ce' (sleep_ids (iv_sleep iv)) \<and> sleep_ids (iv_sleep iv') \<subseteq> sleep_ids (iv_sleep iv) \<union> - dom (ce_callbacks ce)
    \<and> (\<exists>so. iv' = iv\<lparr>iv_sleep := so\<rparr> \<and> (p = Ready u \<longrightarrow> so = None)) \<and> (0 < iv_period iv \<longrightarrow> p = Ready u \<longrightarrow> iv_next_tick iv \<le> armed)
    \<and> (p = Pending \<longrightarrow> waker_ok ce' (Some (TInterval iv')) (Some (w, length (ce_woken ce'))) \<and>
       (\<forall>sl. iv_sleep iv' = Some sl \<longrightarrow> \<not> sl_completed sl \<and> sl_state sl \<noteq> None \<and>
         (\<exists>g. sleep_ok e' ce' g sl \<and> (0 < iv_period iv \<longrightarrow> iv_next_tick iv \<le> g))))"
  proof (cases p1)
    case (Ready v)
    then have "r = r1" "iv' = iv\<lparr>iv_sleep := None\<rparr>" "p = Ready ()" using rest spec(4) [of v] by (auto simp: sleep_drop_def)
    then show ?thesis using spec(1) spec(4) [OF Ready] g(2) ids e' by auto
  next
    case Pending
    then have eq: "r = r1" "iv' = iv\<lparr>iv_sleep := Some sl1\<rparr>" "p = Pending" using rest by auto
    have "waker_ok ce' (Some (TInterval iv')) (Some (w, length (ce_woken ce')))" using spec(5) [OF Pending] by (auto simp: waker_ok_def eq(2))
    then show ?thesis using spec(1-3) spec(5) [OF Pending] g(2) ids eq e' by auto
  qed
  then show "moves e ce e' ce' (sleep_ids (iv_sleep iv))" "sleep_ids (iv_sleep iv') \<subseteq> sleep_ids (iv_sleep iv) \<union> - dom (ce_callbacks ce)"
    "\<exists>so. iv' = iv\<lparr>iv_sleep := so\<rparr> \<and> (p = Ready u \<longrightarrow> so = None)"
    "0 < iv_period iv \<Longrightarrow> p = Ready u \<Longrightarrow> iv_next_tick iv \<le> armed"
    "p = Pending \<Longrightarrow> waker_ok ce' (Some (TInterval iv')) (Some (w, length (ce_woken ce'))) \<and>
       (\<forall>sl. iv_sleep iv' = Some sl \<longrightarrow> \<not> sl_completed sl \<and> sl_state sl \<noteq> None \<and>
         (\<exists>g. sleep_ok e' ce' g sl \<and> (0 < iv_period iv \<longrightarrow> iv_next_tick iv \<le> g)))" by blast+
qed

definition tick_done :: "'c event_loop \<Rightarrow> cells \<Rightarrow> waker \<Rightarrow> nat \<Rightarrow> interval_fut \<Rightarrow> 'c event_loop \<Rightarrow> cells \<Rightarrow> interval_fut \<Rightarrow> nat poll \<Rightarrow> bool" where
  "tick_done e ce w observed iv e' ce' iv' p \<longleftrightarrow> moves e ce e' ce' (sleep_ids (iv_sleep iv))
     \<and> sleep_ids (iv_sleep iv') \<subseteq> sleep_ids (iv_sleep iv) \<union> - dom (ce_callbacks ce) \<and> (\<forall>d. timed_ok e' ce' d (TInterval iv'))
     \<and> waker_ok ce' (Some (TInterval iv')) (case p of Ready _ \<Rightarrow> None | Pending \<Rightarrow> Some (w, length (ce_woken ce')))
     \<and> (\<forall>t. p = Ready t \<longrightarrow> t \<le> observed)"

lemma waker_ok_None [simp]: "waker_ok ce fo None"
  by (simp add: waker_ok_def)

text \<open>A tick without a sleep left, and one that waits on its sleep.\<close>

lemma tick_done_ready:
  assumes "moves e ce e' ce' (sleep_ids (iv_sleep iv))" and "iv_sleep iv' = None" and "iv_next_tick iv' \<le> instant_max"
    and "\<not> iv_first_tick iv'" and "t \<le> observed"
  shows "tick_done e ce w observed iv e' ce' iv' (Ready t)"
  using assms by (simp add: tick_done_def)

lemma tick_sleep_done:
  assumes "loop_inv e" and "in_user_code (lpc e)" and "cells_ok e ce" and "clock e \<le> armed" and "armed \<le> observed"
    and "timed_ok e ce d0 (TInterval iv)" and "\<not> iv_first_tick iv"
    and "tick_sleep delay armed c w iv (sc e) ce = Some (iv1, r, ce', q)" and e': "e' = e\<lparr>sc := r, clock := observed\<rparr>"
    and "0 < iv_period iv \<longrightarrow> iv_sleep iv = None \<longrightarrow> iv_next_tick iv \<le> deadline_add armed delay"
  shows "moves e ce e' ce' (sleep_ids (iv_sleep iv))"
    "q = Ready u \<Longrightarrow> iv1 = iv\<lparr>iv_sleep := None\<rparr> \<and> (0 < iv_period iv \<longrightarrow> iv_next_tick iv \<le> observed)"
    "q = Pending \<Longrightarrow> tick_done e ce w observed iv e' ce' iv1 Pending"
proof -
  let ?e1 = "e\<lparr>sc := r, clock := armed\<rparr>"
  note spec = tick_sleep_spec [OF assms(1-4,6,8) refl assms(10)]
  have eq: "e' = ?e1\<lparr>clock := observed\<rparr>" using e' by simp
  have mv: "moves ?e1 ce' e' ce' {}"
    unfolding eq by (rule clock_moves) (use spec(1) assms(5) in \<open>simp_all add: moves_def\<close>)
  show mv': "moves e ce e' ce' (sleep_ids (iv_sleep iv))" by (rule moves_trans [OF spec(1) mv]) simp_all
  show "iv1 = iv\<lparr>iv_sleep := None\<rparr> \<and> (0 < iv_period iv \<longrightarrow> iv_next_tick iv \<le> observed)" if "q = Ready u"
  proof -
    obtain so where so: "iv1 = iv\<lparr>iv_sleep := so\<rparr>" "q = Ready u \<longrightarrow> so = None" using spec(3) [of u] by (elim exE conjE) (rule that)
    moreover have "0 < iv_period iv \<longrightarrow> iv_next_tick iv \<le> armed" using spec(4) [OF _ \<open>q = Ready u\<close>] by simp
    ultimately show ?thesis using \<open>q = Ready u\<close> so assms(5) by auto
  qed
  assume q: "q = Pending"
  obtain so where so: "iv1 = iv\<lparr>iv_sleep := so\<rparr>" using spec(3) by blast
  have "timed_ok ?e1 ce' d (TInterval iv1)" for d using spec(5) [OF q] so assms(6,7) by auto
  then have "timed_ok e' ce' d (TInterval iv1)" for d
    by (rule timed_ok_keeps) (use mv in \<open>simp_all add: moves_def\<close>)
  then show "tick_done e ce w observed iv e' ce' iv1 Pending" using mv' spec(2) spec(5) [OF q] by (simp add: tick_done_def)
qed

lemma interval_tick_poll_spec:
  assumes "loop_inv e" and "in_user_code (lpc e)" and "cells_ok e ce" and "clock e \<le> now" and "now \<le> armed" and "armed \<le> observed"
    and "observed \<le> instant_max" and "timed_ok e ce d0 (TInterval iv)"
    and "interval_tick_poll now armed observed c w iv (sc e) ce = Some (iv', r, ce', p)" and e': "e' = e\<lparr>sc := r, clock := observed\<rparr>"
  shows "tick_done e ce w observed iv e' ce' iv' p"
proof -
  have iv: "iv_next_tick iv \<le> instant_max" using assms(8) by simp
  have ar: "clock e \<le> armed" "clock e \<le> observed" using assms(4-6) by simp_all
  consider (first) "iv_first_tick iv" | (zero) "\<not> iv_first_tick iv" "iv_period iv = 0"
    | (wait) "\<not> iv_first_tick iv" "0 < iv_period iv" "now < iv_next_tick iv"
    | (late) "\<not> iv_first_tick iv" "0 < iv_period iv" "\<not> now < iv_next_tick iv" by blast
  then show ?thesis
  proof cases
    case first
    then have eq: "iv' = iv\<lparr>iv_first_tick := False, iv_next_tick := add_instant (iv_next_tick iv) (iv_period iv)\<rparr>" "r = sc e" "ce' = ce"
        "p = Ready (iv_next_tick iv)" using assms(9) by (auto simp: interval_tick_poll_def)
    have "iv_sleep iv = None" "iv_next_tick iv \<le> clock e" using assms(8) first by auto
    then show ?thesis unfolding eq(3,4) e' eq(2)
      using clock_moves [OF assms(1,3) ar(2)] add_instant_bound [OF iv] ar by (intro tick_done_ready) (simp_all add: eq(1))
  next
    case zero
    obtain q where ts: "tick_sleep 0 armed c w iv (sc e) ce = Some (iv', r, ce', q)" and p: "p = (case q of Ready _ \<Rightarrow> Ready observed | Pending \<Rightarrow> Pending)"
      using assms(9) zero by (auto simp: interval_tick_poll_def bind_eq_Some_conv)
    note spec = tick_sleep_done [OF assms(1-3) ar(1) assms(6,8) zero(1) ts e']
    show ?thesis
    proof (cases q)
      case (Ready u)
      then show ?thesis using spec(1) spec(2) [OF _ Ready] zero iv p by (auto intro!: tick_done_ready)
    next
      case Pending
      then show ?thesis using spec(3) [OF _ Pending] zero p by simp
    qed
  next
    case wait
    obtain iv1 q r1 ce1 where ts: "tick_sleep (iv_next_tick iv - now) armed c w iv (sc e) ce = Some (iv1, r1, ce1, q)"
      and rest: "(case q of Pending \<Rightarrow> Some (iv1, r1, ce1, Pending) | Ready _ \<Rightarrow> do { nxt \<leftarrow> next_deadline (iv_next_tick iv) observed (iv_period iv1) (iv_behavior iv1);
          Some (iv1\<lparr>iv_next_tick := nxt\<rparr>, r1, ce1, Ready (iv_next_tick iv)) }) = Some (iv', r, ce', p)"
      using assms(9) wait by (auto simp: interval_tick_poll_def bind_eq_Some_conv Let_def)
    have eq: "r1 = r" "ce1 = ce'" using rest by (auto simp: bind_eq_Some_conv split: poll.splits)
    have reach: "iv_next_tick iv \<le> deadline_add armed (iv_next_tick iv - now)"
      by (rule deadline_add_reaches [OF assms(5)]) (use wait iv in simp_all)
    note spec = tick_sleep_done [OF assms(1-3) ar(1) assms(6,8) wait(1) ts [unfolded eq] e' impI [OF impI [OF reach]]]
    show ?thesis
    proof (cases q)
      case (Ready u)
      then obtain nxt where n: "next_deadline (iv_next_tick iv) observed (iv_period iv1) (iv_behavior iv1) = Some nxt"
          "iv' = iv1\<lparr>iv_next_tick := nxt\<rparr>" "p = Ready (iv_next_tick iv)" using rest by (auto simp: bind_eq_Some_conv)
      show ?thesis unfolding n(3)
        by (rule tick_done_ready [OF spec(1)]) (use spec(2) [OF Ready] wait n next_deadline_bound [OF iv assms(7) n(1)] in auto)
    next
      case Pending
      then show ?thesis using spec(3) rest by auto
    qed
  next
    case late
    obtain r1 nxt where d: "(case iv_sleep iv of Some sl \<Rightarrow> sleep_drop sl (sc e) | None \<Rightarrow> Some (sc e)) = Some r1"
      and n: "next_deadline (iv_next_tick iv) observed (iv_period iv) (iv_behavior iv) = Some nxt"
      and eq: "iv' = iv\<lparr>iv_sleep := None, iv_next_tick := nxt\<rparr>" "r = r1" "ce' = ce" "p = Ready (iv_next_tick iv)"
      using assms(9) late by (auto simp: interval_tick_poll_def bind_eq_Some_conv Let_def)
    have "moves e ce e' ce (sleep_ids (iv_sleep iv))"
    proof (cases "iv_sleep iv")
      case None
      then have "e' = e\<lparr>clock := observed\<rparr>" using d e' eq(2) by auto
      then show ?thesis using clock_moves [OF assms(1,3) ar(2)] by simp
    next
      case (Some sl)
      then obtain g where "sleep_ok e ce g sl" using assms(8) by auto
      then show ?thesis using sleep_drop_spec [OF assms(1-3) ar(2)] d Some e' eq(2) by simp
    qed
    then show ?thesis unfolding eq(3,4)
      by (rule tick_done_ready) (use late assms(5,6) eq(1) next_deadline_bound [OF iv assms(7) n] in auto)
  qed
qed

lemma time_inv_timed: "time_inv s \<Longrightarrow> ty_futs s k = Some f \<Longrightarrow> timed_ok (ty_loop s) (ty_cells s) (ty_goal s k) f"
  by (simp add: time_inv_def)

lemma time_inv_poll:
  assumes "time_inv s" and "moves (ty_loop s) (ty_cells s) ((ty_loop s)\<lparr>sc := r, clock := now\<rparr>) ce (fut_ids (ty_futs s k))"
    and "t = note_poll k w p ((set_loop r now ce s)\<lparr>ty_futs := (ty_futs s)(k := fo), ty_goal := (ty_goal s)(k := d),
      ty_slept := ty_slept s @ sls, ty_ticks := ty_ticks s @ tks\<rparr>)"
    and "\<And>f. fo = Some f \<Longrightarrow> timed_ok ((ty_loop s)\<lparr>sc := r, clock := now\<rparr>) ce d f"
    and "fut_ids fo \<subseteq> fut_ids (ty_futs s k) \<union> - dom (ce_callbacks (ty_cells s))"
    and "waker_ok ce fo (case p of Ready _ \<Rightarrow> None | Pending \<Rightarrow> Some (w, length (ce_woken ce)))"
    and "\<forall>(k, d, n) \<in> set sls. d \<le> n" and "\<forall>(k, u, n) \<in> set tks. u \<le> n"
  shows "time_inv t"
proof -
  have old: "\<forall>(k, d, n) \<in> set (ty_slept s). d \<le> n" "\<forall>(k, u, n) \<in> set (ty_ticks s). u \<le> n" using assms(1) by (simp_all add: time_inv_def)
  show ?thesis
    by (rule time_inv_move [OF assms(1), where k = k and fo = fo])
      (use assms(2-8) old in \<open>auto simp: note_poll_def set_loop_def split: poll.split\<close>)
qed

lemma waker_ok_pending:
  assumes "\<not> sl_completed sl \<and> (\<exists>a i g. sl_state sl = Some a \<and> sl_handle sl = Some (i, g) \<and> ce_callbacks ce i = Some a
       \<and> \<not> ss_ready (ce_states ce a) \<and> ss_waker (ce_states ce a) = Some w)" and "sleep_in f = Some sl"
  shows "waker_ok ce (Some f) (Some (w, length (ce_woken ce)))"
  using assms by (auto simp: waker_ok_def)

lemma time_inv_sleep_poll:
  assumes "time_inv s" and "in_user_code (lpc (ty_loop s))" and "clock (ty_loop s) \<le> now" and k: "ty_futs s k = Some (TSleep sl)"
    and "sleep_poll now c w sl (sc (ty_loop s)) (ty_cells s) = Some (sl', r, ce, p)" and "d = goal_at now sl (ty_goal s k)"
  shows "time_inv (note_poll k w p ((set_loop r now ce s)\<lparr>ty_futs := (ty_futs s)(k \<mapsto> TSleep sl'), ty_goal := (ty_goal s)(k := d),
      ty_slept := ty_slept s @ (if is_ready p then [(k, d, now)] else [])\<rparr>))" (is "time_inv ?t")
proof -
  have inv: "loop_inv (ty_loop s)" "cells_ok (ty_loop s) (ty_cells s)" "sleep_ok (ty_loop s) (ty_cells s) (ty_goal s k) sl"
    using assms(1) time_inv_timed [OF assms(1) k] by (simp_all add: time_inv_def)
  note spec = sleep_poll_spec [OF inv(1) assms(2) inv(2) assms(3) inv(3) assms(5) refl]
  have ids: "fut_ids (Some (TSleep x)) = sleep_ids (Some x)" for x by (simp add: fut_ids_def)
  show ?thesis
  proof (rule time_inv_poll [OF assms(1), where k = k and fo = "Some (TSleep sl')" and tks = "[]"])
    show "waker_ok ce (Some (TSleep sl')) (case p of Ready _ \<Rightarrow> None | Pending \<Rightarrow> Some (w, length (ce_woken ce)))"
      using spec(5) waker_ok_pending [of sl' ce w "TSleep sl'"] by (simp split: poll.split)
    show "\<forall>(k, d, n) \<in> set (if is_ready p then [(k, d, now)] else []). d \<le> n"
      using spec(4) assms(6) by (cases p) auto
    show "?t = note_poll k w p ((set_loop r now ce s)\<lparr>ty_futs := (ty_futs s)(k \<mapsto> TSleep sl'), ty_goal := (ty_goal s)(k := d),
      ty_slept := ty_slept s @ (if is_ready p then [(k, d, now)] else []), ty_ticks := ty_ticks s @ []\<rparr>)"
      by (simp add: note_poll_def set_loop_def)
  qed (use spec(1-3) assms(6) k ids in simp_all)
qed

lemma time_inv_timeout_poll:
  assumes "time_inv s" and "in_user_code (lpc (ty_loop s))" and "clock (ty_loop s) \<le> now" and k: "ty_futs s k = Some (TTimeout sl)"
    and "timeout_poll inner now c w sl (sc (ty_loop s)) (ty_cells s) = Some (sl', r, ce, p)" and "d = goal_at now sl (ty_goal s k)"
  shows "time_inv (note_poll k w p ((set_loop r now ce s)\<lparr>ty_futs := (ty_futs s)(k := map_option TTimeout sl'), ty_goal := (ty_goal s)(k := d),
      ty_slept := ty_slept s @ (if p = Ready (Err Elapsed) then [(k, d, now)] else [])\<rparr>))" (is "time_inv ?t")
proof -
  let ?e = "ty_loop s" and ?ce = "ty_cells s"
  have inv: "loop_inv ?e" "cells_ok ?e ?ce" "sleep_ok ?e ?ce (ty_goal s k) sl"
    using assms(1) time_inv_timed [OF assms(1) k] by (simp_all add: time_inv_def)
  have ids: "fut_ids (Some (TTimeout x)) = sleep_ids (Some x)" for x by (simp add: fut_ids_def)
  have key: "moves ?e ?ce (?e\<lparr>sc := r, clock := now\<rparr>) ce (sleep_ids (Some sl))
    \<and> (\<forall>x. sl' = Some x \<longrightarrow> sleep_ok (?e\<lparr>sc := r, clock := now\<rparr>) ce d x \<and> \<not> sl_completed x \<and> sleep_ids (Some x) \<subseteq> sleep_ids (Some sl) \<union> - dom (ce_callbacks ?ce))
    \<and> waker_ok ce (map_option TTimeout sl') (case p of Ready _ \<Rightarrow> None | Pending \<Rightarrow> Some (w, length (ce_woken ce)))
    \<and> (p = Ready (Err Elapsed) \<longrightarrow> d \<le> now)"
  proof (cases inner)
    case (Ready v)
    then have "sleep_drop sl (sc ?e) = Some r" "sl' = None" "ce = ?ce" "p = Ready (Ok v)"
      using assms(5) by (auto simp: timeout_poll_def bind_eq_Some_conv)
    then show ?thesis using sleep_drop_spec [OF inv(1) assms(2) inv(2) assms(3) inv(3)] by simp
  next
    case Pending
    obtain sl1 r1 ce1 q where poll: "sleep_poll now c w sl (sc ?e) ?ce = Some (sl1, r1, ce1, q)"
      and rest: "(case q of Ready _ \<Rightarrow> do { r \<leftarrow> sleep_drop sl1 r1; Some (None, r, ce1, Ready (Err Elapsed)) }
        | Pending \<Rightarrow> Some (Some sl1, r1, ce1, Pending)) = Some (sl', r, ce, p)"
      using assms(5) Pending by (auto simp: timeout_poll_def bind_eq_Some_conv)
    note spec = sleep_poll_spec [OF inv(1) assms(2) inv(2) assms(3) inv(3) poll refl]
    show ?thesis
    proof (cases q)
      case (Ready u)
      then have "sl' = None" "r = r1" "ce = ce1" "p = Ready (Err Elapsed)" using rest spec(4) [of u] by (auto simp: sleep_drop_def)
      then show ?thesis using spec(1) spec(4) [OF Ready] assms(6) by simp
    next
      case q: Pending
      then have "sl' = Some sl1" "r = r1" "ce = ce1" "p = Pending" using rest by auto
      then show ?thesis using spec(1-3) spec(5) [OF q] assms(6) waker_ok_pending [OF spec(5) [OF q], of "TTimeout sl1"] by simp
    qed
  qed
  show ?thesis
  proof (rule time_inv_poll [OF assms(1), where k = k and fo = "map_option TTimeout sl'" and tks = "[]"])
    show "?t = note_poll k w p ((set_loop r now ce s)\<lparr>ty_futs := (ty_futs s)(k := map_option TTimeout sl'), ty_goal := (ty_goal s)(k := d),
      ty_slept := ty_slept s @ (if p = Ready (Err Elapsed) then [(k, d, now)] else []), ty_ticks := ty_ticks s @ []\<rparr>)"
      by (simp add: note_poll_def set_loop_def)
    show "fut_ids (map_option TTimeout sl') \<subseteq> fut_ids (ty_futs s k) \<union> - dom (ce_callbacks ?ce)"
      using key k ids by (cases sl') (auto simp: fut_ids_def)
  qed (use key k ids in auto)
qed

lemma time_inv_step:
  assumes "time_inv s" and "time_step s l t"
  shows "time_inv t"
proof -
  have inv: "loop_inv (ty_loop s)" "cells_ok (ty_loop s) (ty_cells s)" "\<And>k. waker_ok (ty_cells s) (ty_futs s k) (ty_polled s k)"
    "\<And>k f. ty_futs s k = Some f \<Longrightarrow> timed_ok (ty_loop s) (ty_cells s) (ty_goal s k) f"
    "\<forall>(k, d, n) \<in> set (ty_slept s). d \<le> n" "\<forall>(k, u, n) \<in> set (ty_ticks s). u \<le> n"
    using assms(1) by (simp_all add: time_inv_def)
  have none: "ty_polled s k = None" if "ty_futs s k = None" for k using inv(3) [of k] that by (cases "ty_polled s k") (auto simp: waker_ok_def)
  note refl' = moves_refl [OF inv(1,2)]
  show ?thesis
    using assms(2)
  proof cases
    case (tm_loop l e')
    then show ?thesis using time_inv_loop [OF assms(1)] by simp
  next
    case (tm_sleep k d)
    show ?thesis
      by (rule time_inv_move [OF assms(1), of _ k "Some (TSleep (sleep_new d))"])
        (use tm_sleep refl' inv(5,6) none in \<open>auto simp: fut_ids_def sleep_new_ok\<close>)
  next
    case (tm_timeout k d)
    show ?thesis
      by (rule time_inv_move [OF assms(1), of _ k "Some (TTimeout (sleep_new d))"])
        (use tm_timeout refl' inv(5,6) none in \<open>auto simp: fut_ids_def sleep_new_ok\<close>)
  next
    case (tm_interval k now p)
    show ?thesis
      by (rule time_inv_move [OF assms(1), of _ k "Some (TInterval (interval_new now p))"])
        (use tm_interval clock_moves [OF inv(1,2)] inv(5,6) none in \<open>auto simp: fut_ids_def interval_new_def\<close>)
  next
    case (tm_behavior k iv b)
    have "waker_ok (ty_cells s) (Some (TInterval (set_missed_tick_behavior b iv))) (ty_polled s k)"
      using inv(3) [of k] tm_behavior by (fastforce simp: waker_ok_def set_missed_tick_behavior_def)
    then show ?thesis
      by (intro time_inv_move [OF assms(1), of _ k "Some (TInterval (set_missed_tick_behavior b iv))"])
        (use tm_behavior refl' inv(4) [of k] inv(5,6) in \<open>auto simp: fut_ids_def set_missed_tick_behavior_def\<close>)
  next
    case (tm_drop k f r)
    have ids: "fut_ids (ty_futs s k) = sleep_ids (sleep_in f)" using tm_drop by (simp add: fut_ids_def)
    have "moves (ty_loop s) (ty_cells s) ((ty_loop s)\<lparr>sc := r\<rparr>) (ty_cells s) (sleep_ids (sleep_in f))"
    proof (cases "sleep_in f")
      case None
      then have "(ty_loop s)\<lparr>sc := r\<rparr> = ty_loop s" using tm_drop by simp
      then show ?thesis using refl' by simp
    next
      case (Some sl)
      then have "\<exists>d. sleep_ok (ty_loop s) (ty_cells s) d sl" using inv(4) [OF tm_drop(4)] by (cases f) auto
      then obtain d where "sleep_ok (ty_loop s) (ty_cells s) d sl" by blast
      then show ?thesis using sleep_drop_spec [OF inv(1) tm_drop(3) inv(2) order_refl] tm_drop(5) Some by simp
    qed
    then show ?thesis
      by (intro time_inv_move [OF assms(1), of _ k None]) (use tm_drop ids inv(5,6) in \<open>auto simp: set_loop_def fut_ids_def\<close>)
  next
    case (tm_sleep_poll now k sl c w sl' r ce p d)
    then show ?thesis using time_inv_sleep_poll [OF assms(1)] by blast
  next
    case (tm_timeout_poll now k sl inner c w sl' r ce p d)
    then show ?thesis using time_inv_timeout_poll [OF assms(1)] by blast
  next
    case (tm_tick_poll now armed observed k iv c w iv' r ce p)
    have td: "tick_done (ty_loop s) (ty_cells s) w observed iv ((ty_loop s)\<lparr>sc := r, clock := observed\<rparr>) ce iv' p"
      by (rule interval_tick_poll_spec [OF inv(1) tm_tick_poll(3) inv(2) tm_tick_poll(4-7) inv(4) [OF tm_tick_poll(8)] tm_tick_poll(9) refl])
    show ?thesis
      by (rule time_inv_poll [OF assms(1), where k = k and fo = "Some (TInterval iv')" and d = "ty_goal s k" and sls = "[]"
            and tks = "case p of Ready t \<Rightarrow> [(k, t, observed)] | Pending \<Rightarrow> []"])
        (use tm_tick_poll td in \<open>auto simp: tick_done_def fut_ids_def note_poll_def set_loop_def split: poll.splits\<close>)
  qed
qed

interpretation time_futures: bounded_system time_init time_step "\<lambda>_. 0" 0 time_inv
  by unfold_locales (auto intro: time_inv_init time_inv_step)

text \<open>Dropping a sleep that waits takes its timer away for good.\<close>

lemma sleep_drop_cancels:
  assumes "sched_ok r R" and "\<not> sl_completed sl" and "sl_handle sl = Some (i, generation r)" and "sleep_drop sl r = Some r'"
    and "i < next_timer_id r"
  shows "dead i r' \<and> heap_map (timers r') i = None"
proof -
  have c: "clear_timer (generation r) i r = Some r'" using assms(2-4) by (simp add: sleep_drop_def)
  show ?thesis
    using clear_heap(3) [OF c assms(1)] clear_timer_frame [OF c] assms(5) by (simp add: live_frame_def dead_def)
qed

text \<open>A thread with nothing on it.\<close>

definition time_demo :: "nat time_sys" where
  "time_demo = \<lparr>ty_loop = loop_demo, ty_cells = \<lparr>ce_states = (\<lambda>_. \<lparr>ss_ready = False, ss_waker = None\<rparr>), ce_callbacks = Map.empty, ce_next = 0,
     ce_woken = []\<rparr>, ty_futs = Map.empty, ty_goal = (\<lambda>_. 0), ty_polled = Map.empty, ty_slept = [], ty_ticks = []\<rparr>"

lemma time_demo_init: "time_init time_demo"
  by (simp add: time_init_def time_demo_def loop_demo_init)

subsection \<open>Properties\<close>

text \<open>(C35) The next deadline of an interval. With every behaviour the computation succeeds for a positive period; the
  next tick is one period after the scheduled one, unless that has been missed, when \<open>Delay\<close> starts over from the
  observation and \<open>Skip\<close> takes the first instant after the observation that is a whole number of periods from the
  schedule, however many were missed. When no such instant can be represented the result is the observation.\<close>

theorem interval_next_deadline:
  assumes "scheduled \<le> instant_max" and "observed \<le> instant_max" and "0 < period"
  shows "next_deadline scheduled observed period behavior = Some (
    if behavior = Burst \<or> observed < add_instant scheduled period then add_instant scheduled period
    else if behavior = Delay then add_instant observed period
    else (let m = (LEAST m. observed < scheduled + period * m) in
      if scheduled + period * m \<le> instant_max then scheduled + period * m else observed))"
proof -
  let ?m = "(observed - scheduled) div period + 1"
  have least: "(LEAST m. observed < scheduled + period * m) = ?m" if "scheduled \<le> observed"
  proof (rule Least_equality)
    show "observed < scheduled + period * ?m" by (rule next_multiple(1) [OF assms(3)])
    show "?m \<le> m" if "observed < scheduled + period * m" for m
      using next_multiple(2) [OF assms(3), of m observed scheduled] that \<open>scheduled \<le> observed\<close> by linarith
  qed
  have skip: "first_deadline_after scheduled observed period =
      Some (if scheduled + period * ?m \<le> instant_max then scheduled + period * ?m else observed)" if "scheduled \<le> observed"
  proof -
    have "add_instant observed period = observed" if "\<not> scheduled + period * ?m \<le> instant_max"
    proof -
      have "scheduled + period * ?m \<le> observed + period"
        using next_multiple(2) [OF assms(3) order_refl \<open>scheduled \<le> observed\<close>] by simp
      then show ?thesis using that by (simp add: add_instant_def checked_add_instant_def)
    qed
    then show ?thesis
      using assms(3) deadline_loop_eq [OF assms(1), of observed period ?m] by (simp add: first_deadline_after_def Let_def)
  qed
  have "scheduled \<le> observed" if "add_instant scheduled period \<le> observed" using that add_instant_le [of scheduled period] by linarith
  then show ?thesis using skip least by (cases behavior) (auto simp: next_deadline_def Let_def)
qed

theorem interval_next_deadline_witness:
  "next_deadline 100 135 10 Skip = Some 140 \<and> next_deadline 100 135 10 Delay = Some 145 \<and> next_deadline 100 135 10 Burst = Some 110"
proof -
  have l: "(LEAST m. 135 < (100::nat) + 10 * m) = 4" by (rule Least_equality) auto
  have "(100::nat) \<le> instant_max" "(135::nat) \<le> instant_max" "(0::nat) < 10" by (simp_all add: instant_max_def)
  note spec = interval_next_deadline [OF this]
  show ?thesis unfolding spec l by (simp add: add_instant_def checked_add_instant_def instant_max_def)
qed

text \<open>(C16) No timer future is early. On every interleaving of the event loop with the futures on its thread, a sleep
  completes and a timeout elapses no earlier than their duration after their first poll, and no tick of an interval is
  returned before the instant it carries, whatever the behaviour for missed ticks and however often a tick is abandoned.\<close>

theorem time_never_early:
  assumes "time_init s" and "run time_step s ls t"
  shows "(\<forall>(k, d, n) \<in> set (ty_slept t). d \<le> n) \<and> (\<forall>(k, u, n) \<in> set (ty_ticks t). u \<le> n)"
  using time_futures.inv_reachable [OF assms] by (simp add: time_inv_def)

theorem time_never_early_witness:
  "\<exists>t. run time_step time_demo [(), ()] t \<and> ty_ticks t = [(3, 20, 25)] \<and> (20::nat) \<le> 25"
proof -
  let ?s1 = "time_demo\<lparr>ty_loop := loop_demo\<lparr>clock := 20\<rparr>, ty_futs := [3 \<mapsto> TInterval (interval_new 20 10)]\<rparr>"
  have "time_step time_demo () (time_demo\<lparr>ty_loop := (ty_loop time_demo)\<lparr>clock := 20\<rparr>, ty_futs := (ty_futs time_demo)(3 \<mapsto> TInterval (interval_new 20 10))\<rparr>)"
    by (rule tm_interval) (simp_all add: time_demo_def loop_demo_def instant_max_def)
  then have a: "time_step time_demo () ?s1" by (simp add: time_demo_def)
  let ?iv = "(interval_new 20 10)\<lparr>iv_first_tick := False, iv_next_tick := add_instant 20 10\<rparr>"
  let ?t = "note_poll 3 9 (Ready 20 :: nat poll) ((set_loop (sc (ty_loop ?s1)) 25 (ty_cells ?s1) ?s1)\<lparr>ty_futs := (ty_futs ?s1)(3 \<mapsto> TInterval ?iv),
      ty_ticks := ty_ticks ?s1 @ (case Ready 20 :: nat poll of Ready t \<Rightarrow> [(3, t, 25)] | Pending \<Rightarrow> [])\<rparr>)"
  have b: "time_step ?s1 () ?t"
    by (rule tm_tick_poll [of _ 22 23 25 3 "interval_new 20 10" 0])
      (simp_all add: time_demo_def loop_demo_def instant_max_def interval_tick_poll_def interval_new_def)
  have r: "run time_step time_demo [(), ()] ?t" using run_snoc [of time_step, OF run_single [of time_step, OF a] b] by simp
  have ticks: "ty_ticks ?t = [(3, 20, 25)]" by (simp add: note_poll_def set_loop_def time_demo_def)
  show ?thesis using time_never_early [OF time_demo_init r] r ticks by (intro exI [of _ ?t]) simp
qed

text \<open>(C34) No wake-up of a timer future is lost. Whenever the last poll of a sleep, a timeout or an interval was pending, its
  waker has been woken since, or is registered with a timer that is still live, and that timer is queued to run or in
  the heap with the driver armed no later than its deadline.\<close>

theorem time_no_lost_wake:
  assumes "time_init s" and "run time_step s ls t" and "ty_polled t k = Some (w, m)"
  shows "w \<in> set (drop m (ce_woken (ty_cells t))) \<or> (\<exists>f sl i g a. ty_futs t k = Some f \<and> sleep_in f = Some sl \<and> sl_handle sl = Some (i, g)
    \<and> ce_callbacks (ty_cells t) i = Some a \<and> ss_waker (ce_states (ty_cells t) a) = Some w \<and> i \<in> live_timeouts (sc (ty_loop t))
    \<and> ((\<exists>c. FireTimeout i c \<in> set (local_macrotasks (sc (ty_loop t)))) \<or>
       (\<exists>n x. heap_map (timers (sc (ty_loop t))) i = Some n \<and> driver_deadline (sc (ty_loop t)) = Some x \<and> x \<le> deadline n)))"
proof -
  let ?e = "ty_loop t" and ?ce = "ty_cells t"
  have inv: "time_inv t" by (rule time_futures.inv_reachable [OF assms(1,2)]) simp
  then have w: "waker_ok ?ce (ty_futs t k) (Some (w, m))" using assms(3) by (metis time_inv_def)
  obtain f sl a i g where f: "ty_futs t k = Some f" "sleep_in f = Some sl" "\<not> sl_completed sl" "sl_state sl = Some a"
      "sl_handle sl = Some (i, g)" "ce_callbacks ?ce i = Some a"
      "if ss_ready (ce_states ?ce a) then w \<in> set (drop m (ce_woken ?ce)) else ss_waker (ce_states ?ce a) = Some w"
    using w unfolding waker_ok_def by blast
  have "\<exists>d. sleep_ok ?e ?ce d sl" using time_inv_timed [OF inv f(1)] f(2) by (cases f) auto
  then obtain d where "cell_ok ?e (ce_states ?ce a) i d" using f(3-5) by (auto simp: sleep_ok_def)
  then have live: "i \<in> live_timeouts (sc ?e)" "placed (sc ?e) (clock ?e) i d" if "\<not> ss_ready (ce_states ?ce a)"
    using that by (simp_all add: cell_ok_def)
  have "covered (heap_map (timers (sc ?e))) (driver_deadline (sc ?e))"
    using inv sched_okD(3) [of "sc ?e"] by (auto simp: time_inv_def loop_inv_def)
  then have "(\<exists>c. FireTimeout i c \<in> set (local_macrotasks (sc ?e))) \<or>
      (\<exists>n x. heap_map (timers (sc ?e)) i = Some n \<and> driver_deadline (sc ?e) = Some x \<and> x \<le> deadline n)"
    if "\<not> ss_ready (ce_states ?ce a)"
    using live [OF that] by (auto simp: placed_def covered_def ran_def)
  then show ?thesis using f live by (cases "ss_ready (ce_states ?ce a)") auto
qed

theorem time_no_lost_wake_witness:
  "\<exists>t. run time_step time_demo [(), ()] t \<and> ty_polled t 3 = Some (9, 0) \<and> ce_woken (ty_cells t) = []
    \<and> (\<exists>i. i \<in> live_timeouts (sc (ty_loop t)))"
proof -
  let ?s1 = "time_demo\<lparr>ty_futs := [3 \<mapsto> TSleep (sleep_new 10)]\<rparr>"
  have "time_step time_demo () (time_demo\<lparr>ty_futs := (ty_futs time_demo)(3 \<mapsto> TSleep (sleep_new 10))\<rparr>)"
    by (rule tm_sleep) (simp add: time_demo_def)
  then have a: "time_step time_demo () ?s1" by (simp add: time_demo_def)
  have "Suc (next_timer_id (sc loop_demo)) < u64_modulus" by (simp add: loop_demo_def sched_new_def u64_modulus_def)
  then obtain r g where r: "timeout 20 10 5 (sc loop_demo) = Some (r, g)" using timeout_ok [OF loop_demo_ok(1), of 20 10 5] by blast
  obtain sl' ce where p: "sleep_poll 20 5 9 (sleep_new 10) (sc (ty_loop ?s1)) (ty_cells ?s1) = Some (sl', r, ce, Pending)" "ce_woken ce = []"
    using r by (cases g) (auto simp: sleep_poll_def sleep_start_def sleep_new_def time_demo_def set_cell_waker_def Let_def)
  let ?t = "note_poll 3 9 (Pending :: unit poll) ((set_loop r 20 ce ?s1)\<lparr>ty_futs := (ty_futs ?s1)(3 \<mapsto> TSleep sl'), ty_goal := (ty_goal ?s1)(3 := goal_at 20 (sleep_new 10) (ty_goal ?s1 3)),
      ty_slept := ty_slept ?s1 @ (if is_ready (Pending :: unit poll) then [(3, goal_at 20 (sleep_new 10) (ty_goal ?s1 3), 20)] else [])\<rparr>)"
  have b: "time_step ?s1 () ?t"
    by (rule tm_sleep_poll [OF _ _ _ p(1) refl]) (simp_all add: time_demo_def loop_demo_def)
  have run: "run time_step time_demo [(), ()] ?t" using run_snoc [of time_step, OF run_single [of time_step, OF a] b] by simp
  have t: "ty_polled ?t 3 = Some (9, 0)" "ce_woken (ty_cells ?t) = []" using p(2) by (simp_all add: note_poll_def set_loop_def)
  show ?thesis using time_no_lost_wake [OF time_demo_init run t(1)] run t by (intro exI [of _ ?t]) auto
qed

end
