(* ===== verification/Ring_Token.thy ===== *)
theory Ring_Token
  imports "HOL-Library.Word" "HOL-Library.Multiset"
begin

text \<open>
  The 64-bit tokens by which the Linux driver recognises a completion: the kind of the request in the top byte, a
  sequence number below (\<open>make_token\<close> and \<open>decode_token_kind\<close> of \<open>src/src/platform/linux/driver.rs\<close>). A message from another ring carries the
  fixed token \<open>WAKE_TARGET_TOKEN\<close>, which has no kind.
\<close>

unbundle bit_operations_syntax

type_synonym u32 = "32 word"
type_synonym u64 = "64 word"

datatype completion_kind = Timer | TimerRemove | NotifySend | Operation | OperationCancel | LinkedTimeout

definition WAKE_TARGET_TOKEN :: u64 where "WAKE_TARGET_TOKEN = 1"
definition TOKEN_KIND_SHIFT :: nat where "TOKEN_KIND_SHIFT = 56"
definition TOKEN_KIND_MASK :: u64 where "TOKEN_KIND_MASK = push_bit TOKEN_KIND_SHIFT 0xff"

fun kind_code :: "completion_kind \<Rightarrow> u64" where
  "kind_code Timer = 1"
| "kind_code TimerRemove = 2"
| "kind_code NotifySend = 3"
| "kind_code Operation = 4"
| "kind_code OperationCancel = 5"
| "kind_code LinkedTimeout = 6"

definition make_token :: "completion_kind \<Rightarrow> u64 \<Rightarrow> u64" where
  "make_token kind seq = push_bit TOKEN_KIND_SHIFT (kind_code kind) OR (seq AND NOT TOKEN_KIND_MASK)"

definition decode_token_kind :: "u64 \<Rightarrow> completion_kind option" where
  "decode_token_kind token =
     (let code = drop_bit TOKEN_KIND_SHIFT (token AND TOKEN_KIND_MASK) in
      if code = 1 then Some Timer
      else if code = 2 then Some TimerRemove
      else if code = 3 then Some NotifySend
      else if code = 4 then Some Operation
      else if code = 5 then Some OperationCancel
      else if code = 6 then Some LinkedTimeout
      else None)"

text \<open>The kinds for which the driver keeps something until the completion, and the tokens of these kinds.\<close>

definition tracked :: "u64 \<Rightarrow> bool" where
  "tracked t \<longleftrightarrow> decode_token_kind t = Some Operation \<or> decode_token_kind t = Some Timer"

abbreviation tracked_mset :: "u64 multiset \<Rightarrow> u64 multiset" where
  "tracked_mset M \<equiv> filter_mset tracked M"

lemma masked_kind: "make_token kind seq AND TOKEN_KIND_MASK = push_bit TOKEN_KIND_SHIFT (kind_code kind)"
proof -
  have "make_token kind seq AND TOKEN_KIND_MASK = push_bit TOKEN_KIND_SHIFT (kind_code kind) AND TOKEN_KIND_MASK"
    unfolding make_token_def by (rule bit_word_eqI) (auto simp: bit_simps)
  then show ?thesis by (cases kind) (simp_all add: TOKEN_KIND_MASK_def TOKEN_KIND_SHIFT_def)
qed

lemma decode_make_token [simp]: "decode_token_kind (make_token kind seq) = Some kind"
  unfolding decode_token_kind_def masked_kind by (cases kind) (simp_all add: TOKEN_KIND_SHIFT_def)

lemma decode_wake [simp]: "decode_token_kind WAKE_TARGET_TOKEN = None"
  by (simp add: decode_token_kind_def WAKE_TARGET_TOKEN_def TOKEN_KIND_MASK_def TOKEN_KIND_SHIFT_def)

lemma make_token_not_wake [simp]: "make_token kind seq \<noteq> WAKE_TARGET_TOKEN"
  by (metis decode_make_token decode_wake option.distinct(1))

lemma token_seq:
  assumes "unat seq < 2 ^ 56"
  shows "make_token kind seq AND NOT TOKEN_KIND_MASK = seq"
proof -
  have m: "NOT TOKEN_KIND_MASK = mask 56" by (simp add: TOKEN_KIND_MASK_def TOKEN_KIND_SHIFT_def mask_eq_exp_minus_1)
  have "unat (take_bit 56 seq) = unat seq" unfolding unsigned_take_bit_eq by (rule take_bit_nat_eq_self) (rule assms)
  then have "take_bit 56 seq = seq" by (simp only: word_unat_eq_iff)
  then have s: "seq AND mask 56 = seq" by (simp add: take_bit_eq_mask)
  have "push_bit 56 (kind_code kind) AND mask 56 = 0" by (cases kind) (simp_all add: mask_eq_exp_minus_1)
  then show ?thesis unfolding make_token_def m by (simp add: TOKEN_KIND_SHIFT_def s bit.conj_disj_distrib2)
qed

lemma make_token_inj:
  assumes "make_token kind seq = make_token kind' seq'" and "unat seq < 2 ^ 56" and "unat seq' < 2 ^ 56"
  shows "kind = kind'" "seq = seq'"
  using assms decode_make_token [of kind seq] decode_make_token [of kind' seq'] token_seq [of seq kind] token_seq [of seq' kind'] by auto

lemma tracked_simps [simp]:
  "tracked (make_token kind seq) \<longleftrightarrow> kind = Operation \<or> kind = Timer"
  "\<not> tracked WAKE_TARGET_TOKEN"
  by (simp_all add: tracked_def)

text \<open>A token carries its kind and, below \<open>2 ^ 56\<close>, its sequence number: both are read back, so two requests never share a
  token, and none is taken for a message of another ring.\<close>

theorem token_roundtrip:
  assumes "unat seq < 2 ^ 56"
  shows "decode_token_kind (make_token kind seq) = Some kind \<and> make_token kind seq AND NOT TOKEN_KIND_MASK = seq
    \<and> make_token kind seq \<noteq> WAKE_TARGET_TOKEN \<and> decode_token_kind WAKE_TARGET_TOKEN = None"
  using token_seq [OF assms] by simp

theorem token_roundtrip_witness:
  "decode_token_kind (make_token Operation 72057594037927935) = Some Operation \<and> make_token Operation 72057594037927935 AND NOT TOKEN_KIND_MASK = 72057594037927935"
  using token_roundtrip [of 72057594037927935 Operation] by simp

end
