(* ===== verification/Uring.thy ===== *)
theory Uring
  imports Byte_Stream Ring_Token
begin

text \<open>
  The io_uring instance of a runtime thread: \<open>src/src/platform/linux/uring.rs\<close>. Submissions are staged in batches that
  are published together; the ring memory is shared with the kernel, so its heads and tails are 32-bit
  words that wrap around. The system calls are parameters: \<open>fcntl\<close> duplicating a descriptor, and \<open>io_uring_enter\<close>,
  which gets the number of calls made so far and the ring, and returns the ring as the kernel leaves it with its
  answer. Errors of system calls are their \<open>errno\<close>.
\<close>

unbundle bit_operations_syntax

subsection \<open>Entries\<close>

text \<open>The fields of \<open>IoUringSqe\<close> the runtime sets.\<close>

record sqe =
  sq_opcode :: nat
  sq_flags :: "8 word"
  sq_fd :: int
  sq_off :: u64
  sq_addr :: u64
  sq_len :: u32
  sq_op_flags :: u32
  sq_user_data :: u64

record cqe =
  cq_user_data :: u64
  cq_res :: int
  cq_flags :: u32

definition sqe_default :: sqe where
  "sqe_default = \<lparr>sq_opcode = 0, sq_flags = 0, sq_fd = 0, sq_off = 0, sq_addr = 0, sq_len = 0, sq_op_flags = 0, sq_user_data = 0\<rparr>"

record owned_sqe =
  ow_sqe :: sqe
  ow_timespec :: "(int \<times> int) option"
  ow_fd :: "int option"
  ow_until_completion :: bool

definition IORING_OP_POLL_ADD :: nat where "IORING_OP_POLL_ADD = 6"
definition IORING_OP_TIMEOUT :: nat where "IORING_OP_TIMEOUT = 11"
definition IORING_OP_TIMEOUT_REMOVE :: nat where "IORING_OP_TIMEOUT_REMOVE = 12"
definition IORING_OP_ASYNC_CANCEL :: nat where "IORING_OP_ASYNC_CANCEL = 14"
definition IORING_OP_LINK_TIMEOUT :: nat where "IORING_OP_LINK_TIMEOUT = 15"
definition IORING_OP_MSG_RING :: nat where "IORING_OP_MSG_RING = 40"
definition IOSQE_IO_LINK :: "8 word" where "IOSQE_IO_LINK = 4"
definition IOSQE_CQE_SKIP_SUCCESS :: "8 word" where "IOSQE_CQE_SKIP_SUCCESS = 64"
definition IORING_TIMEOUT_ABS :: u32 where "IORING_TIMEOUT_ABS = 1"
definition EINTR :: int where "EINTR = 4"
definition EIO :: int where "EIO = 5"
definition EAGAIN :: int where "EAGAIN = 11"
definition EBUSY :: int where "EBUSY = 16"

text \<open>The opcodes of \<open>duplicate_sqe_fd\<close>: \<open>FSYNC\<close>, \<open>POLL_ADD\<close>, \<open>SENDMSG\<close>, \<open>RECVMSG\<close>, \<open>ACCEPT\<close>, \<open>CONNECT\<close>, \<open>OPENAT\<close>, \<open>STATX\<close>, \<open>READ\<close>,
  \<open>WRITE\<close>, \<open>SEND\<close>, \<open>RECV\<close>, \<open>SHUTDOWN\<close>, \<open>RENAMEAT\<close>, \<open>UNLINKAT\<close>, \<open>MKDIRAT\<close>, \<open>MSG_RING\<close>, \<open>FTRUNCATE\<close>, \<open>BIND\<close> and \<open>LISTEN\<close>.\<close>

definition uses_descriptor :: "nat \<Rightarrow> bool" where
  "uses_descriptor op \<longleftrightarrow> op \<in> set [3, 6, 9, 10, 13, 16, 18, 21, 22, 23, 26, 27, 34, 35, 36, 37, 40, 55, 56, 57]"

definition duplicate_sqe_fd :: "(int \<Rightarrow> (int, int) result) \<Rightarrow> sqe \<Rightarrow> (int, sqe \<times> int option \<times> bool) result" where
  "duplicate_sqe_fd dup q =
     (if \<not> uses_descriptor (sq_opcode q) \<or> sq_fd q < 0 then Ok (q, None, False)
      else case dup (sq_fd q) of
        Inl e \<Rightarrow> Err e
      | Inr fd \<Rightarrow> Ok (q\<lparr>sq_fd := fd\<rparr>, Some fd, sq_opcode q \<noteq> IORING_OP_MSG_RING))"

definition prepare_sqe :: "(int \<Rightarrow> (int, int) result) \<Rightarrow> (int \<times> int) option \<Rightarrow> sqe \<Rightarrow> (int, owned_sqe) result" where
  "prepare_sqe dup ts q = (case duplicate_sqe_fd dup q of
     Inl e \<Rightarrow> Err e
   | Inr (q, fd, until) \<Rightarrow> Ok \<lparr>ow_sqe = q, ow_timespec = ts, ow_fd = fd, ow_until_completion = until\<rparr>)"

text \<open>A duration in nanoseconds; the cast of the seconds to \<open>i64\<close> wraps.\<close>

definition duration_to_kernel_timespec :: "nat \<Rightarrow> int \<times> int" where
  "duration_to_kernel_timespec d = (sint (of_nat (d div 10 ^ 9) :: u64), int (d mod 10 ^ 9))"

subsection \<open>The ring\<close>

text \<open>The mapped rings, the batches staged since the last submission, and the descriptors kept for operations in flight. The
  last field is not a part of the program: the tokens of the requests the kernel has taken and not completed.\<close>

record uring =
  ur_sq_head :: u32
  ur_sq_tail :: u32
  ur_sq_mask :: u32
  ur_sq_entries :: u32
  ur_sqes :: "nat \<Rightarrow> sqe"
  ur_sq_array :: "nat \<Rightarrow> nat"
  ur_cq_head :: u32
  ur_cq_tail :: u32
  ur_cq_mask :: u32
  ur_cqes :: "nat \<Rightarrow> cqe"
  ur_overflow :: u32
  ur_overflow_seen :: u32
  ur_pending :: "owned_sqe list list"
  ur_inflight_fds :: "u64 \<rightharpoonup> int list"
  ur_poisoned :: bool
  ur_submit_all :: bool
  ur_defer_taskrun :: bool
  ur_cqe_skip :: bool
  ur_held :: "u64 multiset"

type_synonym io_enter = "nat \<Rightarrow> uring \<Rightarrow> u32 \<Rightarrow> u32 \<Rightarrow> uring \<times> (int, u32) result"

definition push_batch :: "owned_sqe list \<Rightarrow> uring \<Rightarrow> uring" where
  "push_batch b r = r\<lparr>ur_pending := ur_pending r @ [b]\<rparr>"

definition push_sqe :: "(int \<Rightarrow> (int, int) result) \<Rightarrow> (int \<times> int) option \<Rightarrow> sqe \<Rightarrow> uring \<Rightarrow> uring \<times> (int, unit) result" where
  "push_sqe dup ts q r = (case prepare_sqe dup ts q of Inl e \<Rightarrow> (r, Err e) | Inr ow \<Rightarrow> (push_batch [ow] r, Ok ()))"

definition skip_flags :: "uring \<Rightarrow> 8 word" where
  "skip_flags r = (if ur_cqe_skip r then IOSQE_CQE_SKIP_SUCCESS else 0)"

text \<open>The address of a boxed timespec is a parameter of the entry that refers to it.\<close>

definition submit_timeout :: "(int \<Rightarrow> (int, int) result) \<Rightarrow> u64 \<Rightarrow> u64 \<Rightarrow> nat \<Rightarrow> uring \<Rightarrow> uring \<times> (int, unit) result" where
  "submit_timeout dup ptr token d r = push_sqe dup (Some (duration_to_kernel_timespec d))
     (sqe_default\<lparr>sq_opcode := IORING_OP_TIMEOUT, sq_fd := -1, sq_off := 0, sq_user_data := token, sq_addr := ptr, sq_len := 1,
        sq_op_flags := IORING_TIMEOUT_ABS\<rparr>) r"

definition submit_timeout_remove :: "(int \<Rightarrow> (int, int) result) \<Rightarrow> u64 \<Rightarrow> u64 \<Rightarrow> uring \<Rightarrow> uring \<times> (int, unit) result" where
  "submit_timeout_remove dup token_to_remove completion r = push_sqe dup None
     (sqe_default\<lparr>sq_opcode := IORING_OP_TIMEOUT_REMOVE, sq_fd := -1, sq_flags := skip_flags r, sq_user_data := completion,
        sq_addr := token_to_remove\<rparr>) r"

definition submit_msg_ring :: "(int \<Rightarrow> (int, int) result) \<Rightarrow> int \<Rightarrow> u64 \<Rightarrow> u32 \<Rightarrow> u64 \<Rightarrow> uring \<Rightarrow> uring \<times> (int, unit) result" where
  "submit_msg_ring dup target_fd target_data v completion r = push_sqe dup None
     (sqe_default\<lparr>sq_opcode := IORING_OP_MSG_RING, sq_flags := skip_flags r, sq_fd := target_fd, sq_off := target_data, sq_addr := 0,
        sq_len := v, sq_user_data := completion\<rparr>) r"

definition submit_with_token :: "(int \<Rightarrow> (int, int) result) \<Rightarrow> u64 \<Rightarrow> sqe \<Rightarrow> uring \<Rightarrow> uring \<times> (int, unit) result" where
  "submit_with_token dup token q r = push_sqe dup None (q\<lparr>sq_user_data := token\<rparr>) r"

text \<open>The operation and its timeout are one batch.\<close>

definition submit_linked_with_timeout ::
  "(int \<Rightarrow> (int, int) result) \<Rightarrow> u64 \<Rightarrow> u64 \<Rightarrow> sqe \<Rightarrow> u64 \<Rightarrow> nat \<Rightarrow> uring \<Rightarrow> uring \<times> (int, unit) result" where
  "submit_linked_with_timeout dup ptr main_token q timeout_token d r =
     (case prepare_sqe dup None (q\<lparr>sq_flags := sq_flags q OR IOSQE_IO_LINK, sq_user_data := main_token\<rparr>) of
        Inl e \<Rightarrow> (r, Err e)
      | Inr main \<Rightarrow>
          (case prepare_sqe dup (Some (duration_to_kernel_timespec d))
              (sqe_default\<lparr>sq_opcode := IORING_OP_LINK_TIMEOUT, sq_fd := -1, sq_addr := ptr, sq_len := 1, sq_user_data := timeout_token\<rparr>) of
             Inl e \<Rightarrow> (r, Err e)
           | Inr t \<Rightarrow> (push_batch [main, t] r, Ok ())))"

definition has_pending_submissions :: "uring \<Rightarrow> bool" where
  "has_pending_submissions r \<longleftrightarrow> ur_pending r \<noteq> []"

subsection \<open>Completions\<close>

text \<open>The entries between two positions of the completion queue, in the order the loop reads them, with the inflight
  descriptors it drops.\<close>

function drain_loop :: "u32 \<Rightarrow> u32 \<Rightarrow> uring \<Rightarrow> cqe list \<Rightarrow> uring \<times> cqe list" where
  "drain_loop head tail r seen =
     (if head \<noteq> tail
      then let index = unat (head AND ur_cq_mask r); c = ur_cqes r index in
        drain_loop (head + 1) tail (r\<lparr>ur_inflight_fds := (ur_inflight_fds r)(cq_user_data c := None)\<rparr>) (seen @ [c])
      else (r\<lparr>ur_cq_head := head\<rparr>, seen))"
  by pat_completeness auto

definition check_cq_overflow :: "uring \<Rightarrow> uring" where
  "check_cq_overflow r = (if ur_overflow_seen r < ur_overflow r then r\<lparr>ur_overflow_seen := ur_overflow r\<rparr> else r)"

text \<open>The entries handed to the callback, in order, and whether there was one.\<close>

termination drain_loop
proof (relation "measure (\<lambda>(head, tail, r, seen). unat (tail - head))", goal_cases)
  case (2 head tail r seen index c)
  then have "tail - head \<noteq> 0" by simp
  then have "unat (tail - head - 1) < unat (tail - head)" by (metis unat_minus_one unat_gt_0 diff_less zero_less_one)
  then show ?case by (simp add: algebra_simps)
qed simp

declare drain_loop.simps [simp del]

definition drain_completions :: "uring \<Rightarrow> uring \<times> cqe list \<times> bool" where
  "drain_completions r =
     (if ur_cq_head r = ur_cq_tail r then (r, [], False)
      else let (r, seen) = drain_loop (ur_cq_head r) (ur_cq_tail r) r [] in (check_cq_overflow r, seen, True))"

subsection \<open>Submissions\<close>

record submit_outcome =
  so_submitted :: nat
  so_failures :: "cqe list"
  so_error :: "int option"
  so_retry :: bool

definition outcome_complete :: "nat \<Rightarrow> submit_outcome" where
  "outcome_complete n = \<lparr>so_submitted = n, so_failures = [], so_error = None, so_retry = False\<rparr>"

text \<open>The loop that selects whole batches while they fit: their number and that of their entries.\<close>

fun select_batches :: "nat \<Rightarrow> nat \<Rightarrow> owned_sqe list list \<Rightarrow> nat \<Rightarrow> nat \<Rightarrow> (io_error, nat \<times> nat) result" where
  "select_batches entries available [] batch_count sqe_count = Ok (batch_count, sqe_count)"
| "select_batches entries available (b # bs) batch_count sqe_count =
     (let batch_len = min (length b) u32_max in
      if entries < batch_len then Err (Io_Error InvalidInput ''an io_uring submission batch exceeds ring capacity'')
      else if available < min (sqe_count + batch_len) u32_max then Ok (batch_count, sqe_count)
      else select_batches entries available bs (batch_count + 1) (sqe_count + batch_len))"

text \<open>The writes of the selected entries, from an offset after the tail.\<close>

fun publish_sqes :: "u32 \<Rightarrow> u32 \<Rightarrow> owned_sqe list \<Rightarrow> nat \<Rightarrow> uring \<Rightarrow> uring" where
  "publish_sqes tail msk [] offset r = r"
| "publish_sqes tail msk (ow # ows) offset r =
     (let index = unat ((tail + of_nat offset) AND msk) in
      publish_sqes tail msk ows (offset + 1)
        (r\<lparr>ur_sqes := (ur_sqes r)(index := ow_sqe ow), ur_sq_array := (ur_sq_array r)(index := index)\<rparr>))"

text \<open>The calls of \<open>io_uring_enter\<close> until one is not interrupted: the number of calls made, the ring and the answer.\<close>

partial_function (option) enter_loop :: "io_enter \<Rightarrow> nat \<Rightarrow> uring \<Rightarrow> u32 \<Rightarrow> u32 \<Rightarrow> (nat \<times> uring \<times> (int, u32) result) option" where
  "enter_loop enter n r to_submit min_complete =
     (case enter n r to_submit min_complete of (r', a) \<Rightarrow>
        if a = Err EINTR then enter_loop enter (n + 1) r' to_submit min_complete else Some (n + 1, r', a))"

definition enter_without_submission :: "io_enter \<Rightarrow> nat \<Rightarrow> u32 \<Rightarrow> uring \<Rightarrow> (nat \<times> uring \<times> (io_error, submit_outcome) result) option" where
  "enter_without_submission enter n min_complete r = do {
     (n, r, a) \<leftarrow> enter_loop enter n r 0 min_complete;
     Some (n, r, case a of
       Inr _ \<Rightarrow> Ok (outcome_complete 0)
     | Inl e \<Rightarrow> if e = EBUSY \<or> e = EAGAIN then Ok \<lparr>so_submitted = 0, so_failures = [], so_error = Some e, so_retry = True\<rparr> else Err (Os_Error e))
   }"

text \<open>How many batches an answer accepts, and whether it ends inside one.\<close>

fun accepted_batches :: "nat \<Rightarrow> owned_sqe list list \<Rightarrow> nat \<Rightarrow> nat \<times> bool" where
  "accepted_batches submitted [] boundary = (0, False)"
| "accepted_batches submitted (b # bs) boundary =
     (let nxt = boundary + length b in
      if nxt \<le> submitted then (let (k, split) = accepted_batches submitted bs nxt in (k + 1, split))
      else (0, boundary < submitted))"

definition keep_fd :: "owned_sqe \<Rightarrow> (u64 \<rightharpoonup> int list) \<Rightarrow> (u64 \<rightharpoonup> int list)" where
  "keep_fd ow fds =
     (if ow_until_completion ow
      then case ow_fd ow of
        Some fd \<Rightarrow> fds(sq_user_data (ow_sqe ow) \<mapsto> (case fds (sq_user_data (ow_sqe ow)) of Some l \<Rightarrow> l | None \<Rightarrow> []) @ [fd])
      | None \<Rightarrow> fds
      else fds)"

definition failed_cqe :: "int \<Rightarrow> owned_sqe \<Rightarrow> cqe" where
  "failed_cqe e ow = \<lparr>cq_user_data = sq_user_data (ow_sqe ow), cq_res = - e, cq_flags = 0\<rparr>"

text \<open>What \<open>submit_pending\<close> does with the answer to the submission of \<open>to_publish\<close> entries of \<open>batch_count\<close> batches at \<open>head\<close>. The
  numbers in the text of an error are left out.\<close>

definition finish_submit :: "u32 \<Rightarrow> nat \<Rightarrow> nat \<Rightarrow> uring \<Rightarrow> (int, u32) result \<Rightarrow> uring \<times> (io_error, submit_outcome) result" where
  "finish_submit head batch_count to_publish r a = (case a of
     Inr submitted \<Rightarrow>
       if to_publish < unat submitted
       then (r\<lparr>ur_sq_tail := head, ur_poisoned := True\<rparr>, Err (Io_Error InvalidData ''io_uring_enter reported too many submissions''))
       else let r = (if unat submitted \<noteq> to_publish then r\<lparr>ur_sq_tail := head + submitted\<rparr> else r);
                (k, split) = accepted_batches (unat submitted) (take batch_count (ur_pending r)) 0 in
         if split
         then (r\<lparr>ur_poisoned := True\<rparr>, Err (Io_Error (OtherKind 0) ''kernel split an atomic linked io_uring submission batch''))
         else (r\<lparr>ur_pending := drop k (ur_pending r),
                 ur_inflight_fds := fold keep_fd (concat (take k (ur_pending r))) (ur_inflight_fds r)\<rparr>,
               Ok (outcome_complete (unat submitted)))
   | Inl e \<Rightarrow>
       if e = EBUSY \<or> e = EAGAIN
       then (r\<lparr>ur_sq_tail := head\<rparr>, Ok \<lparr>so_submitted = 0, so_failures = [], so_error = Some e, so_retry = True\<rparr>)
       else (r\<lparr>ur_sq_tail := head, ur_pending := []\<rparr>,
             Ok \<lparr>so_submitted = 0, so_failures = map (failed_cqe e) (concat (ur_pending r)), so_error = Some e, so_retry = False\<rparr>))"

definition submit_pending :: "io_enter \<Rightarrow> nat \<Rightarrow> bool \<Rightarrow> uring \<Rightarrow> (nat \<times> uring \<times> (io_error, submit_outcome) result) option" where
  "submit_pending enter n wait_for_cqe r =
     (if ur_poisoned r
      then Some (n, r, Err (Io_Error (OtherKind 0) ''io_uring submission state is poisoned after a partial atomic batch''))
      else let head = ur_sq_head r; tail = ur_sq_tail r; already_published = tail - head in
        if already_published \<noteq> 0
        then Some (n, r, Err (Io_Error (OtherKind 0) ''io_uring retained an unexpected published SQE prefix''))
        else let entries = unat (ur_sq_entries r); available = entries - unat already_published in
          case select_batches entries available (ur_pending r) 0 0 of
            Inl e \<Rightarrow> Some (n, r, Err e)
          | Inr (batch_count, to_publish) \<Rightarrow>
              let all_pending_selected = (batch_count = length (ur_pending r)) in
              if to_publish = 0
              then if \<not> wait_for_cqe \<and> \<not> ur_defer_taskrun r then Some (n, r, Ok (outcome_complete 0))
                   else enter_without_submission enter n (if wait_for_cqe then 1 else 0) r
              else do {
                let r = publish_sqes tail (ur_sq_mask r) (concat (take batch_count (ur_pending r))) 0 r;
                let r = r\<lparr>ur_sq_tail := tail + of_nat to_publish\<rparr>;
                let combine_wait = wait_for_cqe \<and> all_pending_selected \<and> ur_submit_all r;
                (n, r, a) \<leftarrow> enter_loop enter n r (of_nat to_publish) (if combine_wait then 1 else 0);
                Some (n, finish_submit head batch_count to_publish r a)
              })"

text \<open>\<open>flush_immediate\<close>, the submission path of cross-thread notifications.\<close>

partial_function (option) flush_immediate :: "io_enter \<Rightarrow> nat \<Rightarrow> uring \<Rightarrow> (nat \<times> uring \<times> (io_error, unit) result) option" where
  "flush_immediate enter n r =
     (if has_pending_submissions r
      then do {
        (n, r, res) \<leftarrow> submit_pending enter n False r;
        (case res of
           Inl e \<Rightarrow> Some (n, r, Err e)
         | Inr out \<Rightarrow>
             (case so_error out of
                Some e \<Rightarrow> Some (n, r, Err (Os_Error e))
              | None \<Rightarrow>
                  if so_submitted out = 0 then Some (n, r, Err (Io_Error WouldBlock ''io_uring accepted none of the pending submissions''))
                  else flush_immediate enter n r))
      }
      else Some (n, r, Ok ()))"

subsection \<open>Positions in a ring\<close>

text \<open>Positions are 32-bit counters that wrap around; a power of two of consecutive ones have different slots.\<close>

lemma slot_eq:
  fixes h :: u32
  assumes "m \<le> 32"
  shows "unat ((h + of_nat i) AND mask m) = (unat h + i) mod 2 ^ m"
proof -
  have d: "(2::nat) ^ m dvd 2 ^ 32" using assms by (rule le_imp_power_dvd)
  have "unat ((h + of_nat i) AND mask m) = unat (take_bit m (h + of_nat i))"
    by (simp only: take_bit_eq_mask)
  also have "\<dots> = unat (h + of_nat i) mod 2 ^ m"
    by (simp only: unsigned_take_bit_eq take_bit_nat_def)
  also have "unat (h + of_nat i) = (unat h + i) mod 2 ^ 32"
    by (simp add: unat_word_ariths unat_of_nat mod_add_right_eq)
  also have "(unat h + i) mod 2 ^ 32 mod 2 ^ m = (unat h + i) mod 2 ^ m" by (rule mod_mod_cancel [OF d])
  finally show ?thesis .
qed

lemma mod_shift_inj:
  fixes a i j n :: nat
  assumes "(a + i) mod n = (a + j) mod n" and "i < n" and "j < n"
  shows "i = j"
proof -
  have "int n dvd (int a + int i) - (int a + int j)"
    using assms(1) by (metis mod_eq_dvd_iff of_nat_add zmod_int)
  then have "int n dvd int i - int j" by simp
  moreover have "\<bar>int i - int j\<bar> < int n" using assms(2,3) by linarith
  ultimately show ?thesis using zdvd_imp_le by (metis dvd_imp_le_int not_le of_nat_eq_iff right_minus_eq abs_of_nat)
qed

lemma slot_inj:
  fixes h :: u32
  assumes "m \<le> 32" and "i < 2 ^ m" and "j < 2 ^ m" and "unat ((h + of_nat i) AND mask m) = unat ((h + of_nat j) AND mask m)"
  shows "i = j"
  using mod_shift_inj [OF _ assms(2,3)] assms(4) by (simp add: slot_eq [OF assms(1)])

subsection \<open>What the kernel sees and does\<close>

text \<open>The completion queue as a list, and the entries the kernel took between two states of the ring: those from the old
  to the new head, read through the index array.\<close>

definition cq_list :: "uring \<Rightarrow> cqe list" where
  "cq_list r = map (\<lambda>i. ur_cqes r (unat ((ur_cq_head r + of_nat i) AND ur_cq_mask r))) [0..<unat (ur_cq_tail r - ur_cq_head r)]"

definition kernel_took :: "uring \<Rightarrow> uring \<Rightarrow> sqe list" where
  "kernel_took r r' = map (\<lambda>i. ur_sqes r' (ur_sq_array r' (unat ((ur_sq_head r + of_nat i) AND ur_sq_mask r'))))
     [0..<unat (ur_sq_head r' - ur_sq_head r)]"

text \<open>Completions are appended to their queue; an operation or a timer, which the driver neither submits with the flag to skip
  its completion nor names in a message to another ring, leaves the kernel with exactly one.\<close>

definition cq_delivered :: "uring \<Rightarrow> uring \<Rightarrow> bool" where
  "cq_delivered r r' \<longleftrightarrow> (\<exists>new. cq_list r' = cq_list r @ new
     \<and> tracked_mset (mset (map cq_user_data new) + ur_held r') = tracked_mset (ur_held r + mset (map sq_user_data (kernel_took r r'))))"

text \<open>The documented effect of one call: on success the submission head advances by the answer, which is at most what was asked
  for; completions are delivered; nothing else changes.\<close>

definition kernel_effect :: "uring \<Rightarrow> uring \<Rightarrow> u32 \<Rightarrow> bool" where
  "kernel_effect r r' k \<longleftrightarrow>
     (\<exists>tail cqes ov held. r' = r\<lparr>ur_sq_head := ur_sq_head r + k, ur_cq_tail := tail, ur_cqes := cqes, ur_overflow := ov, ur_held := held\<rparr>)
     \<and> cq_delivered r r'"

definition kernel_ok :: "io_enter \<Rightarrow> bool" where
  "kernel_ok enter \<longleftrightarrow> (\<forall>n r to_submit min_complete r' a. enter n r to_submit min_complete = (r', a) \<longrightarrow>
     (case a of Inl _ \<Rightarrow> kernel_effect r r' 0 | Inr k \<Rightarrow> k \<le> to_submit \<and> kernel_effect r r' k))"

text \<open>The shape of a ring between two calls: a power of two of entries, and nothing published that was not taken.\<close>

definition ring_shape :: "uring \<Rightarrow> bool" where
  "ring_shape r \<longleftrightarrow> (\<exists>m \<le> 31. ur_sq_entries r = 2 ^ m \<and> ur_sq_mask r = mask m) \<and> ur_sq_tail r = ur_sq_head r"

lemma cq_list_cong:
  "ur_cqes r' = ur_cqes r \<Longrightarrow> ur_cq_head r' = ur_cq_head r \<Longrightarrow> ur_cq_tail r' = ur_cq_tail r \<Longrightarrow> ur_cq_mask r' = ur_cq_mask r \<Longrightarrow>
   cq_list r' = cq_list r"
  by (simp add: cq_list_def)

lemma kernel_took_cong:
  "ur_sqes r2 = ur_sqes r1 \<Longrightarrow> ur_sq_array r2 = ur_sq_array r1 \<Longrightarrow> ur_sq_mask r2 = ur_sq_mask r1 \<Longrightarrow> ur_sq_head r2 = ur_sq_head r1 \<Longrightarrow>
   kernel_took r r2 = kernel_took r r1"
  by (simp add: kernel_took_def)

lemma kernel_took_nothing: "ur_sq_head r' = ur_sq_head r \<Longrightarrow> kernel_took r r' = []"
  by (simp add: kernel_took_def)

lemma kernel_took_from: "ur_sq_head r1 = ur_sq_head r \<Longrightarrow> kernel_took r r' = kernel_took r1 r'"
  by (simp add: kernel_took_def)

text \<open>A delivery does not depend on what the program alone changes.\<close>

lemma delivered_cong:
  assumes "cq_delivered p r2" and "cq_list p = cq_list r" and "cq_list r' = cq_list r2" and "ur_held p = ur_held r" and "ur_held r' = ur_held r2"
    and "kernel_took p r2 = kernel_took r r'"
  shows "cq_delivered r r'"
  using assms by (simp add: cq_delivered_def)

lemma delivered_trans:
  assumes "cq_delivered r r1" and "cq_delivered r1 r2" and "ur_sq_head r1 = ur_sq_head r"
  shows "cq_delivered r r2"
proof -
  obtain new1 where 1: "cq_list r1 = cq_list r @ new1" "tracked_mset (mset (map cq_user_data new1) + ur_held r1) = tracked_mset (ur_held r)"
    using assms(1) kernel_took_nothing [OF assms(3)] by (auto simp: cq_delivered_def)
  obtain new2 where 2: "cq_list r2 = cq_list r1 @ new2"
      "tracked_mset (mset (map cq_user_data new2) + ur_held r2) = tracked_mset (ur_held r1 + mset (map sq_user_data (kernel_took r1 r2)))"
    using assms(2) by (auto simp: cq_delivered_def)
  have "tracked_mset (mset (map cq_user_data (new1 @ new2)) + ur_held r2) =
      tracked_mset (mset (map cq_user_data new1) + ur_held r1) + tracked_mset (mset (map sq_user_data (kernel_took r1 r2)))"
    using 2(2) by (simp add: ac_simps)
  also have "\<dots> = tracked_mset (ur_held r + mset (map sq_user_data (kernel_took r r2)))"
    unfolding 1(2) kernel_took_from [OF assms(3), of r2] by simp
  finally show ?thesis unfolding cq_delivered_def using 1(1) 2(1) by (intro exI [of _ "new1 @ new2"]) simp
qed

lemma kernel_effect_head: "kernel_effect r r' k \<Longrightarrow> ur_sq_head r' = ur_sq_head r + k"
  by (auto simp: kernel_effect_def)

lemma kernel_effect_trans:
  assumes "kernel_effect r r1 0" and "kernel_effect r1 r2 k"
  shows "kernel_effect r r2 k"
proof -
  have "cq_delivered r r2" using assms kernel_effect_head [OF assms(1)] by (intro delivered_trans [of r r1 r2]) (auto simp: kernel_effect_def)
  moreover from assms have "\<exists>tail cqes ov held. r2 = r\<lparr>ur_sq_head := ur_sq_head r + k, ur_cq_tail := tail, ur_cqes := cqes, ur_overflow := ov, ur_held := held\<rparr>"
    unfolding kernel_effect_def by (elim conjE exE) auto
  ultimately show ?thesis by (simp add: kernel_effect_def)
qed

lemma enter_loop_effect:
  assumes "enter_loop enter n r ts mn = Some (n', r', a)" and "kernel_ok enter"
  shows "case a of Inl e \<Rightarrow> e \<noteq> EINTR \<and> kernel_effect r r' 0 | Inr k \<Rightarrow> k \<le> ts \<and> kernel_effect r r' k"
proof -
  let ?good = "\<lambda>r ts y. case snd (snd y) of Inl e \<Rightarrow> e \<noteq> EINTR \<and> kernel_effect r (fst (snd y)) 0
    | Inr k \<Rightarrow> k \<le> ts \<and> kernel_effect r (fst (snd y)) k"
  have "kernel_ok enter \<longrightarrow> ?good r ts (n', r', a)"
  proof (rule enter_loop.raw_induct [where P = "\<lambda>enter n r ts mn y. kernel_ok enter \<longrightarrow> ?good r ts y", OF _ assms(1)], intro impI)
    fix self :: "io_enter \<Rightarrow> nat \<Rightarrow> uring \<Rightarrow> u32 \<Rightarrow> u32 \<Rightarrow> (nat \<times> uring \<times> (int, u32) result) option" and enter n r ts mn y
    assume IH: "\<And>enter n r ts mn y. self enter n r ts mn = Some y \<Longrightarrow> kernel_ok enter \<longrightarrow> ?good r ts y"
      and eq: "(case enter n r ts mn of (r', a) \<Rightarrow> if a = Err EINTR then self enter (n + 1) r' ts mn else Some (n + 1, r', a)) = Some y"
      and k: "kernel_ok enter"
    obtain r1 b where e: "enter n r ts mn = (r1, b)" by (cases "enter n r ts mn")
    show "?good r ts y"
    proof (cases "b = Err EINTR")
      case True
      have step: "kernel_effect r r1 0" using k e True unfolding kernel_ok_def by fastforce
      have "?good r1 ts y" using IH [of enter "n + 1" r1 ts mn y] eq e True k by simp
      then show ?thesis using kernel_effect_trans [OF step] by (auto split: sum.splits)
    next
      case False
      then have "y = (n + 1, r1, b)" using eq e by simp
      then show ?thesis using False k e unfolding kernel_ok_def by (fastforce split: sum.splits)
    qed
  qed
  then show ?thesis using assms(2) by (auto split: sum.splits)
qed

lemma select_batches_spec:
  assumes "select_batches entries available bs bc sc = Inr (bc', sc')" and "available \<le> entries" and "entries < u32_max" and "sc \<le> available"
  shows "\<exists>k \<le> length bs. bc' = bc + k \<and> sc' = sc + length (concat (take k bs)) \<and> sc' \<le> available"
  using assms
proof (induction bs arbitrary: bc sc)
  case (Cons b bs)
  show ?case
  proof (cases "entries < min (length b) u32_max \<or> available < min (sc + min (length b) u32_max) u32_max")
    case True
    then show ?thesis using Cons.prems by (intro exI [of _ 0]) (auto simp: Let_def split: if_splits)
  next
    case False
    then have len: "min (length b) u32_max = length b" "sc + length b \<le> available" using Cons.prems(2,3) by (auto simp: min_def split: if_splits)
    then obtain k where "k \<le> length bs" "bc' = bc + 1 + k" "sc' = sc + length b + length (concat (take k bs))" "sc' \<le> available"
      using Cons.IH [of "bc + 1" "sc + length b"] Cons.prems False by (auto simp: Let_def)
    then show ?thesis by (intro exI [of _ "Suc k"]) simp
  qed
qed simp

lemma accepted_batches_spec:
  assumes "accepted_batches submitted bs boundary = (k, split)" and "boundary \<le> submitted" and "submitted \<le> boundary + length (concat bs)"
  shows "k \<le> length bs \<and> (\<not> split \<longrightarrow> submitted = boundary + length (concat (take k bs)))"
  using assms
proof (induction bs arbitrary: boundary k)
  case (Cons b bs)
  show ?case
  proof (cases "boundary + length b \<le> submitted")
    case True
    obtain k' where k': "accepted_batches submitted bs (boundary + length b) = (k', split)" "k = k' + 1"
      using Cons.prems(1) True by (auto simp: Let_def split: prod.splits)
    then show ?thesis using Cons.IH [OF k'(1) True] Cons.prems(3) by simp
  next
    case False
    then show ?thesis using Cons.prems by (auto simp: Let_def)
  qed
qed simp

text \<open>Publishing writes each entry to its own slot, and the index array maps the slot to itself.\<close>

lemma publish_frame:
  "\<exists>f g. publish_sqes tail msk ows offset r = r\<lparr>ur_sqes := f, ur_sq_array := g\<rparr>"
proof (induction ows arbitrary: offset r)
  case Nil
  show ?case by (intro exI [of _ "ur_sqes r"] exI [of _ "ur_sq_array r"]) simp
next
  case (Cons ow ows)
  let ?i = "unat ((tail + of_nat offset) AND msk)"
  show ?case using Cons [of "offset + 1" "r\<lparr>ur_sqes := (ur_sqes r)(?i := ow_sqe ow), ur_sq_array := (ur_sq_array r)(?i := ?i)\<rparr>"]
    by (simp add: Let_def)
qed

lemma publish_slots:
  assumes "offset + length ows \<le> 2 ^ m" and "m \<le> 32"
  shows "let slot = (\<lambda>j. unat ((tail + of_nat j) AND mask m)); r' = publish_sqes tail (mask m) ows offset r in
      (\<forall>j < offset. ur_sqes r' (slot j) = ur_sqes r (slot j) \<and> ur_sq_array r' (slot j) = ur_sq_array r (slot j))
      \<and> (\<forall>j < length ows. ur_sqes r' (slot (offset + j)) = ow_sqe (ows ! j) \<and> ur_sq_array r' (slot (offset + j)) = slot (offset + j))"
  using assms(1)
proof (induction ows arbitrary: offset r)
  case (Cons ow ows)
  let ?slot = "\<lambda>j. unat ((tail + of_nat j) AND mask m)"
  let ?r = "r\<lparr>ur_sqes := (ur_sqes r)(?slot offset := ow_sqe ow), ur_sq_array := (ur_sq_array r)(?slot offset := ?slot offset)\<rparr>"
  let ?r' = "publish_sqes tail (mask m) ows (offset + 1) ?r"
  have eq: "publish_sqes tail (mask m) (ow # ows) offset r = ?r'" by (simp add: Let_def)
  have bound: "offset + 1 + length ows \<le> 2 ^ m" using Cons.prems by simp
  have lo: "ur_sqes ?r' (?slot j) = ur_sqes ?r (?slot j) \<and> ur_sq_array ?r' (?slot j) = ur_sq_array ?r (?slot j)" if "j < offset + 1" for j
    using Cons.IH [OF bound, of ?r] that unfolding Let_def by blast
  have hi: "ur_sqes ?r' (?slot (offset + 1 + j)) = ow_sqe (ows ! j) \<and> ur_sq_array ?r' (?slot (offset + 1 + j)) = ?slot (offset + 1 + j)" if "j < length ows" for j
    using Cons.IH [OF bound, of ?r] that unfolding Let_def by blast
  have old: "ur_sqes ?r' (?slot j) = ur_sqes r (?slot j) \<and> ur_sq_array ?r' (?slot j) = ur_sq_array r (?slot j)" if "j < offset" for j
  proof -
    have "?slot j \<noteq> ?slot offset" using slot_inj [OF assms(2), of j offset tail] that bound by auto
    then show ?thesis using lo [of j] that by simp
  qed
  have new: "ur_sqes ?r' (?slot (offset + j)) = ow_sqe ((ow # ows) ! j) \<and> ur_sq_array ?r' (?slot (offset + j)) = ?slot (offset + j)"
    if "j < length (ow # ows)" for j
    using lo [of offset] hi [of "j - 1"] that by (cases j) simp_all
  show ?case unfolding eq Let_def using old new by blast
qed simp

text \<open>The kernel takes the published entries in the order they were staged.\<close>

lemma kernel_took_published:
  assumes "ur_sq_mask r = mask m" and "m \<le> 32" and "length ows \<le> 2 ^ m" and "ur_sq_tail r = ur_sq_head r"
    and "kernel_effect ((publish_sqes (ur_sq_tail r) (ur_sq_mask r) ows 0 r)\<lparr>ur_sq_tail := t\<rparr>) r2 k" and "unat k \<le> length ows"
  shows "kernel_took r r2 = map ow_sqe (take (unat k) ows)"
proof -
  let ?p = "publish_sqes (ur_sq_tail r) (ur_sq_mask r) ows 0 r"
  let ?slot = "\<lambda>j. unat ((ur_sq_head r + of_nat j) AND mask m)"
  obtain f g where p: "?p = r\<lparr>ur_sqes := f, ur_sq_array := g\<rparr>" using publish_frame by blast
  have r2: "ur_sqes r2 = ur_sqes ?p" "ur_sq_array r2 = ur_sq_array ?p" "ur_sq_mask r2 = mask m" "ur_sq_head r2 = ur_sq_head r + k"
    using assms(1,5) unfolding kernel_effect_def p by auto
  have slots: "ur_sqes ?p (ur_sq_array ?p (?slot j)) = ow_sqe (ows ! j)" if "j < length ows" for j
    using publish_slots [of 0 ows m "ur_sq_tail r" r] assms(1-4) that by (simp add: Let_def)
  show ?thesis
    using r2 slots assms(6) by (auto simp: kernel_took_def list_eq_iff_nth_eq)
qed

definition submit_exact :: "uring \<Rightarrow> uring \<Rightarrow> (io_error, submit_outcome) result \<Rightarrow> bool" where
  "submit_exact r r' res \<longleftrightarrow> (case res of
     Inr out \<Rightarrow> \<exists>k \<le> length (ur_pending r). kernel_took r r' = map ow_sqe (concat (take k (ur_pending r)))
       \<and> so_submitted out = length (concat (take k (ur_pending r)))
       \<and> (if so_error out = None \<or> so_retry out then ur_pending r' = drop k (ur_pending r) \<and> so_failures out = []
          else k = 0 \<and> ur_pending r' = [] \<and> map cq_user_data (so_failures out) = map (sq_user_data \<circ> ow_sqe) (concat (ur_pending r)))
   | Inl e \<Rightarrow> ur_pending r' = ur_pending r \<and> (\<exists>j. kernel_took r r' = map ow_sqe (take j (concat (ur_pending r))))
       \<and> (kernel_took r r' = [] \<or> ur_poisoned r'))"

lemma submit_exact_idle:
  assumes "ur_sq_head r' = ur_sq_head r" and "ur_pending r' = ur_pending r"
    and "case res of Inr out \<Rightarrow> so_submitted out = 0 \<and> so_failures out = [] \<and> (so_error out = None \<or> so_retry out) | Inl _ \<Rightarrow> True"
  shows "submit_exact r r' res"
  using assms kernel_took_nothing [OF assms(1)] by (auto simp: submit_exact_def split: sum.splits intro: exI [of _ 0])

lemma finish_submit_spec:
  assumes "finish_submit (ur_sq_head r) bc to_publish r2 a = (r', res)" and "bc \<le> length (ur_pending r)"
    and "to_publish = length (concat (take bc (ur_pending r)))" and "ur_pending r2 = ur_pending r" and "ur_sq_tail r2 = ur_sq_head r + of_nat to_publish"
    and "case a of Inl _ \<Rightarrow> ur_sq_head r2 = ur_sq_head r | Inr k \<Rightarrow> unat k \<le> to_publish \<and> ur_sq_head r2 = ur_sq_head r + k
      \<and> kernel_took r r2 = map ow_sqe (take (unat k) (concat (take bc (ur_pending r))))"
  shows "submit_exact r r' res" "ur_sq_tail r' = ur_sq_head r'" "ur_sq_head r' = ur_sq_head r2 \<and> ur_cqes r' = ur_cqes r2 \<and> ur_cq_head r' = ur_cq_head r2
    \<and> ur_cq_tail r' = ur_cq_tail r2 \<and> ur_cq_mask r' = ur_cq_mask r2 \<and> ur_sq_mask r' = ur_sq_mask r2 \<and> ur_sq_entries r' = ur_sq_entries r2
    \<and> ur_sqes r' = ur_sqes r2 \<and> ur_sq_array r' = ur_sq_array r2 \<and> ur_held r' = ur_held r2"
proof -
  show "ur_sq_head r' = ur_sq_head r2 \<and> ur_cqes r' = ur_cqes r2 \<and> ur_cq_head r' = ur_cq_head r2
    \<and> ur_cq_tail r' = ur_cq_tail r2 \<and> ur_cq_mask r' = ur_cq_mask r2 \<and> ur_sq_mask r' = ur_sq_mask r2 \<and> ur_sq_entries r' = ur_sq_entries r2
    \<and> ur_sqes r' = ur_sqes r2 \<and> ur_sq_array r' = ur_sq_array r2 \<and> ur_held r' = ur_held r2"
    using assms(1) by (auto simp: finish_submit_def Let_def split: sum.splits if_splits prod.splits)
  have "submit_exact r r' res \<and> ur_sq_tail r' = ur_sq_head r'"
  proof (cases a)
    case (Inl e)
    show ?thesis
    proof (cases "e = EBUSY \<or> e = EAGAIN")
      case True
      then show ?thesis using assms Inl by (auto simp: finish_submit_def intro!: submit_exact_idle)
    next
      case False
      then have "r' = r2\<lparr>ur_sq_tail := ur_sq_head r, ur_pending := []\<rparr>"
        "res = Ok \<lparr>so_submitted = 0, so_failures = map (failed_cqe e) (concat (ur_pending r2)), so_error = Some e, so_retry = False\<rparr>"
        using assms(1) Inl by (auto simp: finish_submit_def)
      then show ?thesis using assms(4,6) Inl kernel_took_nothing [of r' r] by (simp add: submit_exact_def failed_cqe_def comp_def)
    qed
  next
    case (Inr k)
    let ?bs = "take bc (ur_pending r)"
    obtain j split where j: "accepted_batches (unat k) ?bs 0 = (j, split)" by fastforce
    have took: "unat k \<le> to_publish" "ur_sq_head r2 = ur_sq_head r + k" "kernel_took r r2 = map ow_sqe (take (unat k) (concat ?bs))"
      using assms(6) Inr by auto
    have acc: "j \<le> length ?bs" "\<not> split \<Longrightarrow> unat k = length (concat (take j ?bs))"
      using accepted_batches_spec [OF j] took(1) assms(3) by auto
    let ?r3 = "if unat k \<noteq> to_publish then r2\<lparr>ur_sq_tail := ur_sq_head r + k\<rparr> else r2"
    have tail: "ur_sq_tail ?r3 = ur_sq_head r + k" using assms(5) by (auto simp: unat_of_nat)
    have pre: "concat ?bs = concat (take j ?bs) @ concat (drop j ?bs)" by (metis append_take_drop_id concat_append)
    have tj: "take j ?bs = take j (ur_pending r)" using acc(1) assms(2) by (simp add: min_absorb1)
    have bs: "take i (concat ?bs) = take i (concat (ur_pending r))" if "i \<le> length (concat ?bs)" for i
      by (metis append_take_drop_id concat_append that take_append diff_is_0_eq take_0 append_Nil2)
    have p3: "ur_pending ?r3 = ur_pending r" "ur_inflight_fds ?r3 = ur_inflight_fds r2" using assms(4) by simp_all
    note fin = assms(1) [unfolded finish_submit_def Inr sum.case Let_def p3 j prod.case]
    show ?thesis
    proof (cases split)
      case True
      then have r': "r' = ?r3\<lparr>ur_poisoned := True\<rparr>" "\<exists>e. res = Err e" using fin took(1) by auto
      have "kernel_took r r' = kernel_took r r2" using r'(1) by (auto intro!: kernel_took_cong)
      also have "\<dots> = map ow_sqe (take (unat k) (concat (ur_pending r)))" using took assms(3) bs [of "unat k"] by simp
      finally have "submit_exact r r' res" using r' assms(4) by (auto simp: submit_exact_def)
      then show ?thesis using r'(1) tail took(2) by simp
    next
      case False
      then have r': "r' = ?r3\<lparr>ur_pending := drop j (ur_pending r), ur_inflight_fds := fold keep_fd (concat (take j (ur_pending r))) (ur_inflight_fds r2)\<rparr>"
          "res = Ok (outcome_complete (unat k))" using fin took(1) by auto
      have "kernel_took r r' = kernel_took r r2" using r'(1) by (auto intro!: kernel_took_cong)
      also have "\<dots> = map ow_sqe (concat (take j (ur_pending r)))" using took(3) acc(2) [OF False] pre tj by simp
      finally have "submit_exact r r' res"
        using r' acc(2) [OF False] tj acc(1) by (auto simp: submit_exact_def outcome_complete_def intro!: exI [of _ j])
      then show ?thesis using r'(1) tail took(2) by simp
    qed
  qed
  then show "submit_exact r r' res" "ur_sq_tail r' = ur_sq_head r'" by simp_all
qed

lemma kernel_effect_refl: "kernel_effect r r 0"
proof -
  have "r = r\<lparr>ur_sq_head := ur_sq_head r + 0, ur_cq_tail := ur_cq_tail r, ur_cqes := ur_cqes r, ur_overflow := ur_overflow r, ur_held := ur_held r\<rparr>" by simp
  moreover have "cq_delivered r r" by (simp add: cq_delivered_def kernel_took_nothing)
  ultimately show ?thesis unfolding kernel_effect_def by blast
qed

lemma submit_pending_spec:
  assumes "kernel_ok enter" and "ring_shape r" and "submit_pending enter n wait r = Some (n', r', res)"
  shows "submit_exact r r' res" "ring_shape r'" "cq_delivered r r'" "ur_cq_head r' = ur_cq_head r" "ur_cq_mask r' = ur_cq_mask r"
proof -
  obtain m where m: "m \<le> 31" "ur_sq_entries r = 2 ^ m" "ur_sq_mask r = mask m" and tail: "ur_sq_tail r = ur_sq_head r"
    using assms(2) by (auto simp: ring_shape_def)
  have pow: "(2::nat) ^ m \<le> 2 ^ 31" using m(1) by (intro power_increasing) simp_all
  then have small: "(2::nat) ^ m < u32_max" by (simp add: u32_max_def)
  have "unat (of_nat (2 ^ m) :: u32) = 2 ^ m" using pow by (subst unat_of_nat) simp
  then have ent: "unat (ur_sq_entries r) = 2 ^ m" using m(2) by simp
  have idle: "submit_exact r r' res \<and> ring_shape r' \<and> cq_delivered r r' \<and> ur_cq_head r' = ur_cq_head r \<and> ur_cq_mask r' = ur_cq_mask r"
    if "kernel_effect r r' 0" "case res of Inr out \<Rightarrow> so_submitted out = 0 \<and> so_failures out = [] \<and> (so_error out = None \<or> so_retry out) | Inl _ \<Rightarrow> True"
  proof -
    have "submit_exact r r' res" by (rule submit_exact_idle) (use that in \<open>auto simp: kernel_effect_def\<close>)
    then show ?thesis using that(1) assms(2) by (auto simp: kernel_effect_def ring_shape_def)
  qed
  note stay = kernel_effect_refl [of r]
  have "submit_exact r r' res \<and> ring_shape r' \<and> cq_delivered r r' \<and> ur_cq_head r' = ur_cq_head r \<and> ur_cq_mask r' = ur_cq_mask r"
  proof (cases "ur_poisoned r \<or> (\<exists>e. select_batches (2 ^ m) (2 ^ m) (ur_pending r) 0 0 = Inl e)")
    case True
    then have "r' = r \<and> (\<exists>e. res = Err e)" using assms(3) tail ent by (auto simp: submit_pending_def Let_def split: if_splits)
    then show ?thesis using idle stay by auto
  next
    case False
    then obtain bc tp where sel: "select_batches (2 ^ m) (2 ^ m) (ur_pending r) 0 0 = Inr (bc, tp)" by (cases "select_batches (2 ^ m) (2 ^ m) (ur_pending r) 0 0") auto
    have sb: "bc \<le> length (ur_pending r)" "tp = length (concat (take bc (ur_pending r)))" "tp \<le> 2 ^ m"
      using select_batches_spec [OF sel order_refl small] by auto
    show ?thesis
    proof (cases "tp = 0")
      case True
      show ?thesis
      proof (cases "\<not> wait \<and> \<not> ur_defer_taskrun r")
        case True
        then have "r' = r \<and> res = Ok (outcome_complete 0)" using assms(3) False sel \<open>tp = 0\<close> tail ent by (simp add: submit_pending_def Let_def)
        then show ?thesis using idle stay by (simp add: outcome_complete_def)
      next
        case w: False
        obtain a where a: "enter_loop enter n r 0 (if wait then 1 else 0) = Some (n', r', a)"
          and res: "res = (case a of Inr _ \<Rightarrow> Ok (outcome_complete 0)
            | Inl e \<Rightarrow> if e = EBUSY \<or> e = EAGAIN then Ok \<lparr>so_submitted = 0, so_failures = [], so_error = Some e, so_retry = True\<rparr> else Err (Os_Error e))"
          using assms(3) False sel \<open>tp = 0\<close> w tail ent by (auto simp: submit_pending_def Let_def enter_without_submission_def bind_eq_Some_conv)
        have "kernel_effect r r' 0" using enter_loop_effect [OF a assms(1)] by (auto split: sum.splits)
        then show ?thesis using res by (intro idle) (auto simp: outcome_complete_def split: sum.splits)
      qed
    next
      case tp: False
      let ?ows = "concat (take bc (ur_pending r))"
      let ?p = "(publish_sqes (ur_sq_tail r) (ur_sq_mask r) ?ows 0 r)\<lparr>ur_sq_tail := ur_sq_tail r + of_nat tp\<rparr>"
      obtain r2 a mn where a: "enter_loop enter n ?p (of_nat tp) mn = Some (n', r2, a)" and fin: "finish_submit (ur_sq_head r) bc tp r2 a = (r', res)"
        using assms(3) False sel tp tail ent by (auto simp: submit_pending_def Let_def bind_eq_Some_conv)
      obtain f g where p: "publish_sqes (ur_sq_tail r) (ur_sq_mask r) ?ows 0 r = r\<lparr>ur_sqes := f, ur_sq_array := g\<rparr>" using publish_frame by blast
      have le: "tp < 2 ^ 32" using sb(3) small by (simp add: u32_max_def)
      have tpw: "unat (of_nat tp :: u32) = tp" using le by (simp add: unat_of_nat)
      have eff: "case a of Inl e \<Rightarrow> kernel_effect ?p r2 0 | Inr k \<Rightarrow> unat k \<le> tp \<and> kernel_effect ?p r2 k"
        using enter_loop_effect [OF a assms(1)] tpw by (auto simp: word_le_nat_alt split: sum.splits)
      have r2: "ur_pending r2 = ur_pending r" "ur_sq_tail r2 = ur_sq_head r + of_nat tp" "ur_cq_head r2 = ur_cq_head r" "ur_cq_mask r2 = ur_cq_mask r"
          "ur_sq_mask r2 = ur_sq_mask r" "ur_sq_entries r2 = ur_sq_entries r" "cq_delivered ?p r2"
        using eff tail unfolding p kernel_effect_def by (auto split: sum.splits)
      have cq: "cq_list ?p = cq_list r" unfolding p by (rule cq_list_cong) simp_all
      have took: "case a of Inl _ \<Rightarrow> ur_sq_head r2 = ur_sq_head r | Inr k \<Rightarrow> unat k \<le> tp \<and> ur_sq_head r2 = ur_sq_head r + k
          \<and> kernel_took r r2 = map ow_sqe (take (unat k) ?ows)"
      proof (cases a)
        case (Inl e)
        then show ?thesis using eff unfolding p kernel_effect_def by auto
      next
        case (Inr k)
        then have k: "unat k \<le> tp" "kernel_effect ?p r2 k" using eff by auto
        have "kernel_took r r2 = map ow_sqe (take (unat k) ?ows)"
          by (rule kernel_took_published [OF m(3) _ _ tail k(2)]) (use m(1) sb k(1) in auto)
        moreover have "ur_sq_head r2 = ur_sq_head r + k" using k(2) unfolding p kernel_effect_def by auto
        ultimately show ?thesis using Inr k(1) by simp
      qed
      note fs = finish_submit_spec [OF fin sb(1,2) r2(1,2) took]
      have "kernel_took ?p r2 = kernel_took r r2" unfolding p by (rule kernel_took_from [symmetric]) simp
      also have "\<dots> = kernel_took r r'" using fs(3) by (intro kernel_took_cong) simp_all
      finally have "cq_delivered r r'" using fs(3) p by (intro delivered_cong [OF r2(7) cq]) (auto intro!: cq_list_cong)
      then show ?thesis using fs r2 cq m by (auto simp: ring_shape_def)
    qed
  qed
  then show "submit_exact r r' res" "ring_shape r'" "cq_delivered r r'" "ur_cq_head r' = ur_cq_head r" "ur_cq_mask r' = ur_cq_mask r" by blast+
qed

text \<open>A closed ring stays as it is, and only a ring that stays open gives an outcome.\<close>

lemma kernel_effect_poisoned: "kernel_effect r r' k \<Longrightarrow> ur_poisoned r' = ur_poisoned r"
  by (auto simp: kernel_effect_def)

lemma submit_pending_poisoned:
  assumes "kernel_ok enter" and "submit_pending enter n wait r = Some (n', r', res)"
  shows "ur_poisoned r \<Longrightarrow> r' = r \<and> (\<exists>e. res = Err e)" "res = Ok out \<Longrightarrow> \<not> ur_poisoned r \<and> \<not> ur_poisoned r'"
proof -
  show closed: "ur_poisoned r \<Longrightarrow> r' = r \<and> (\<exists>e. res = Err e)" using assms(2) by (auto simp: submit_pending_def)
  have loop: "ur_poisoned r2 = ur_poisoned r1" if "enter_loop enter m r1 ts mn = Some (m', r2, a)" for m r1 ts mn m' r2 a
    using enter_loop_effect [OF that assms(1)] kernel_effect_poisoned by (auto split: sum.splits)
  have idle: "ur_poisoned r2 = ur_poisoned r1" if "enter_without_submission enter m mn r1 = Some (m', r2, x)" for m mn r1 m' r2 x
    using that by (auto simp: enter_without_submission_def bind_eq_Some_conv dest!: loop)
  have pub: "ur_poisoned (publish_sqes t msk ows off r1) = ur_poisoned r1" for t msk ows off r1
    using publish_frame [of t msk ows off r1] by auto
  have fin: "ur_poisoned r2 = ur_poisoned r1" if "finish_submit h bc tp r1 a = (r2, Inr out)" for h bc tp r1 a r2
    using that by (auto simp: finish_submit_def Let_def split: sum.splits if_splits prod.splits)
  assume res: "res = Ok out"
  then have "\<not> ur_poisoned r" using closed by auto
  moreover from this res assms(2) have "ur_poisoned r' = ur_poisoned r"
    by (auto simp: submit_pending_def Let_def bind_eq_Some_conv pub dest!: loop idle fin split: if_splits sum.splits)
  ultimately show "\<not> ur_poisoned r \<and> \<not> ur_poisoned r'" by simp
qed

text \<open>Draining the completion queue.\<close>

lemma drain_loop_spec:
  "drain_loop head tail r seen = (r\<lparr>ur_cq_head := tail, ur_inflight_fds := ur_inflight_fds (fst (drain_loop head tail r seen))\<rparr>,
     seen @ map (\<lambda>i. ur_cqes r (unat ((head + of_nat i) AND ur_cq_mask r))) [0..<unat (tail - head)])"
proof (induction head tail r seen rule: drain_loop.induct)
  case (1 head tail r seen)
  show ?case
  proof (cases "head = tail")
    case False
    let ?c = "ur_cqes r (unat (head AND ur_cq_mask r))"
    let ?r = "r\<lparr>ur_inflight_fds := (ur_inflight_fds r)(cq_user_data ?c := None)\<rparr>"
    have step: "drain_loop head tail r seen = drain_loop (head + 1) tail ?r (seen @ [?c])" using False by (subst drain_loop.simps) (simp add: Let_def)
    have "tail - head \<noteq> 0" using False by simp
    then have n: "unat (tail - head) = Suc (unat (tail - (head + 1)))"
      by (metis Suc_pred diff_diff_eq unat_gt_0 unat_minus_one One_nat_def)
    have "map (\<lambda>i. ur_cqes r (unat ((head + of_nat i) AND ur_cq_mask r))) [0..<unat (tail - head)] =
        ?c # map (\<lambda>i. ur_cqes r (unat ((head + 1 + of_nat i) AND ur_cq_mask r))) [0..<unat (tail - (head + 1))]"
      unfolding n upt_conv_Cons [OF zero_less_Suc] by (simp add: map_Suc_upt [symmetric] comp_def add.assoc del: upt_Suc)
    then show ?thesis unfolding step using "1.IH" [OF False refl refl] by (simp add: Let_def)
  qed (simp add: drain_loop.simps)
qed

lemma drain_completions_spec:
  assumes "drain_completions r = (r', seen, any)"
  shows "seen = cq_list r" "any \<longleftrightarrow> seen \<noteq> []" "cq_list r' = []" "ur_pending r' = ur_pending r" "ring_shape r' = ring_shape r" "ur_poisoned r' = ur_poisoned r" "ur_held r' = ur_held r"
proof -
  have "seen = cq_list r \<and> (any \<longleftrightarrow> seen \<noteq> []) \<and> cq_list r' = [] \<and> ur_pending r' = ur_pending r \<and> (ring_shape r' = ring_shape r) \<and> (ur_poisoned r' = ur_poisoned r) \<and> ur_held r' = ur_held r"
  proof (cases "ur_cq_head r = ur_cq_tail r")
    case True
    then show ?thesis using assms by (auto simp: drain_completions_def cq_list_def)
  next
    case False
    obtain fds where d: "drain_loop (ur_cq_head r) (ur_cq_tail r) r [] = (r\<lparr>ur_cq_head := ur_cq_tail r, ur_inflight_fds := fds\<rparr>, cq_list r)"
      using drain_loop_spec [of "ur_cq_head r" "ur_cq_tail r" r "[]"] by (auto simp: cq_list_def)
    have "unat (ur_cq_tail r - ur_cq_head r) \<noteq> 0" using False by (simp add: unat_eq_0)
    then have "cq_list r \<noteq> []" by (simp add: cq_list_def)
    then show ?thesis using assms d False by (auto simp: drain_completions_def check_cq_overflow_def cq_list_def ring_shape_def split: if_splits)
  qed
  then show "seen = cq_list r" "any \<longleftrightarrow> seen \<noteq> []" "cq_list r' = []" "ur_pending r' = ur_pending r" "ring_shape r' = ring_shape r" "ur_poisoned r' = ur_poisoned r" "ur_held r' = ur_held r" by blast+
qed

lemma enter_loop_returns:
  assumes "\<forall>r'. snd (enter N r' ts mn) \<noteq> Err EINTR" and "n \<le> N"
  shows "enter_loop enter n r ts mn \<noteq> None"
  using assms(2)
proof (induction "N - n" arbitrary: n r)
  case 0
  then have "n = N" by simp
  then show ?case using assms(1) by (subst enter_loop.simps) (auto split: prod.splits dest: spec [of _ r])
next
  case (Suc x)
  then show ?case using Suc.hyps(1) [of "n + 1"] by (subst enter_loop.simps) (auto split: prod.splits)
qed

lemma submit_pending_returns:
  assumes "\<And>ts mn r'. snd (enter N r' ts mn) \<noteq> Err EINTR" and "n \<le> N"
  shows "submit_pending enter n wait r \<noteq> None"
proof -
  have el: "\<exists>y. enter_loop enter n r' ts mn = Some y" for r' ts mn using enter_loop_returns [of enter N ts mn n r'] assms by auto
  have "enter_without_submission enter n mn r \<noteq> None" for mn
    using el [of r 0 mn] by (auto simp: enter_without_submission_def)
  moreover have "enter_loop enter n r' ts mn \<bind> (\<lambda>(n, r, a). Some (n, finish_submit h bc tp r a)) \<noteq> None" for r' ts mn h bc tp
    using el [of r' ts mn] by auto
  ultimately show ?thesis unfolding submit_pending_def Let_def by (simp split: sum.split prod.split)
qed

subsection \<open>Properties\<close>

text \<open>A kernel that takes everything at once, and a ring whose counters are about to wrap around.\<close>

definition demo_enter :: io_enter where
  "demo_enter n r to_submit min_complete =
     (let r' = r\<lparr>ur_sq_head := ur_sq_head r + to_submit\<rparr> in (r'\<lparr>ur_held := ur_held r + mset (map sq_user_data (kernel_took r r'))\<rparr>, Ok to_submit))"

definition demo_owned :: "u64 \<Rightarrow> owned_sqe" where
  "demo_owned token = \<lparr>ow_sqe = sqe_default\<lparr>sq_opcode := 22, sq_fd := 9, sq_user_data := token\<rparr>, ow_timespec = None, ow_fd = Some 9, ow_until_completion = True\<rparr>"

definition demo_ring :: uring where
  "demo_ring = \<lparr>ur_sq_head = - 2, ur_sq_tail = - 2, ur_sq_mask = 3, ur_sq_entries = 4, ur_sqes = (\<lambda>_. sqe_default), ur_sq_array = (\<lambda>_. 0),
     ur_cq_head = 0, ur_cq_tail = 0, ur_cq_mask = 7, ur_cqes = (\<lambda>_. \<lparr>cq_user_data = 0, cq_res = 0, cq_flags = 0\<rparr>), ur_overflow = 0, ur_overflow_seen = 0,
     ur_pending = [[demo_owned 5], [demo_owned 6, demo_owned 7]], ur_inflight_fds = Map.empty, ur_poisoned = False, ur_submit_all = True,
     ur_defer_taskrun = False, ur_cqe_skip = True, ur_held = {#}\<rparr>"

lemma demo_enter_ok: "kernel_ok demo_enter"
proof -
  have "kernel_effect r (fst (demo_enter n r k mn)) k" for n r k mn
  proof -
    let ?r = "r\<lparr>ur_sq_head := ur_sq_head r + k\<rparr>"
    let ?held = "ur_held r + mset (map sq_user_data (kernel_took r ?r))"
    have eq: "fst (demo_enter n r k mn) = r\<lparr>ur_sq_head := ur_sq_head r + k, ur_cq_tail := ur_cq_tail r, ur_cqes := ur_cqes r, ur_overflow := ur_overflow r, ur_held := ?held\<rparr>"
      by (simp add: demo_enter_def Let_def)
    have "kernel_took r (fst (demo_enter n r k mn)) = kernel_took r ?r" unfolding eq by (rule kernel_took_cong) simp_all
    moreover have "cq_list (fst (demo_enter n r k mn)) = cq_list r @ []" unfolding eq by (simp add: cq_list_def)
    ultimately have "cq_delivered r (fst (demo_enter n r k mn))" unfolding cq_delivered_def by (intro exI [of _ "[]"]) (simp add: eq)
    then show ?thesis using eq unfolding kernel_effect_def by blast
  qed
  then show ?thesis by (auto simp: kernel_ok_def demo_enter_def Let_def dest: prod.inject [THEN iffD1])
qed

lemma demo_ring_shape: "ring_shape demo_ring"
  by (auto simp: ring_shape_def demo_ring_def mask_eq_exp_minus_1 intro: exI [of _ 2])

text \<open>(C36) Submission is exact. If the kernel is not interrupted for ever, \<open>submit_pending\<close> returns, with any counters of the ring, wrap-around
  included. The kernel has then taken the staged entries in order, whole batches from the front, and these and no others
  have left the staging queue; on a transient error nothing was taken and nothing left; on any other error every staged
  entry is reported as failed, once and in order. Only a kernel that splits a batch leaves taken entries in the queue,
  and the ring is then closed to submissions. Completions are only appended, one for each operation and timer that leaves
  the kernel, and nothing stays published.\<close>

theorem uring_submit_exact:
  assumes "kernel_ok enter" and "ring_shape r" and "\<And>ts mn r'. snd (enter N r' ts mn) \<noteq> Err EINTR" and "n \<le> N"
  shows "\<exists>n' r' res. submit_pending enter n wait r = Some (n', r', res) \<and> submit_exact r r' res \<and> ring_shape r' \<and> cq_delivered r r'"
proof -
  obtain y where y: "submit_pending enter n wait r = Some y" using submit_pending_returns [of enter N n wait r] assms(3,4) by fastforce
  obtain n' r' res where "y = (n', r', res)" by (cases y)
  with y have eq: "submit_pending enter n wait r = Some (n', r', res)" by simp
  note spec = submit_pending_spec [OF assms(1,2) eq]
  show ?thesis using eq spec(1) spec(2) spec(3) by metis
qed

theorem uring_submit_exact_witness:
  "\<exists>n' r' res. submit_pending demo_enter 0 False demo_ring = Some (n', r', res) \<and> submit_exact demo_ring r' res \<and> ring_shape r'"
proof -
  have "\<And>ts mn r'. snd (demo_enter 0 r' ts mn) \<noteq> Err EINTR" by (simp add: demo_enter_def Let_def)
  from uring_submit_exact [OF demo_enter_ok demo_ring_shape this order_refl, of False] show ?thesis by blast
qed

text \<open>Draining the completion queue hands over every published completion once, in the order of publication, with any
  counters of the ring, and leaves the queue empty and the submissions alone.\<close>

theorem uring_drain_exact:
  "fst (snd (drain_completions r)) = cq_list r \<and> snd (snd (drain_completions r)) = (cq_list r \<noteq> [])
    \<and> cq_list (fst (drain_completions r)) = [] \<and> ur_pending (fst (drain_completions r)) = ur_pending r"
proof -
  obtain r' seen any where d: "drain_completions r = (r', seen, any)" by (cases "drain_completions r")
  show ?thesis using drain_completions_spec [OF d] d by simp
qed

end
