(* ===== verification/Linux_Driver.thy ===== *)
theory Linux_Driver
  imports Uring Driver_Backend Transition
begin

text \<open>
  The driver of a Linux runtime thread, \<open>src/src/platform/linux/driver.rs\<close>, over the rings of \<open>Uring\<close>: tokens and completion handlers,
  cancellation, the timer, cross-thread wakes by ring message or eventfd, submission, polling, waiting and shutdown. A
  handler is a number; it owns the buffers of its operation, so that calling or dropping it releases
  memory the kernel may use. Handlers do not call back into the driver. System calls are parameters that get the number of calls made so far;
  a loop over the answers of \<open>read\<close> or \<open>write\<close> runs over their list. Tracing is left out.
\<close>

subsection \<open>State\<close>

text \<open>\<open>fallback_wake_fd\<close> together with \<open>eventfd_wake_active\<close>, which always says whether there is such a descriptor, is \<open>dr_wake_fd\<close>. The number of
  system calls and the log of the handlers are not parts of the program.\<close>

datatype driver_event = Registered u64 nat | Withdrawn u64 nat | Called u64 nat cqe

datatype wake_target = MsgRing int | EventFd int

record notifier =
  nt_target :: "wake_target option"
  nt_closed :: bool

record driver =
  dr_ring :: uring
  dr_supported :: "nat \<Rightarrow> bool"
  dr_notifier :: notifier
  dr_wake_fd :: "int option"
  dr_defer :: bool
  dr_shutting_down :: bool
  dr_next_token :: u64
  dr_timer_token :: "u64 option"
  dr_timer_deadline :: "nat option"
  dr_pending_wakes :: nat
  dr_pending_timers :: nat
  dr_io_completed :: bool
  dr_completions :: "(u64 \<times> nat) list"
  dr_cancels :: "(u64 \<times> u64) list"
  dr_clock :: nat
  dr_log :: "driver_event list"

record sysenv =
  sy_enter :: io_enter
  sy_dup :: "nat \<Rightarrow> int \<Rightarrow> (int, int) result"
  sy_reads :: "nat \<Rightarrow> (int, nat) result list"
  sy_address :: "nat \<Rightarrow> u64"
  sy_order :: "u64 list \<Rightarrow> u64 list"
  sy_expired :: "nat \<Rightarrow> bool"

definition ETIME :: int where "ETIME = 62"

text \<open>\<open>HashMap\<close> insertion and removal.\<close>

definition hm_remove :: "u64 \<Rightarrow> (u64 \<times> 'v) list \<Rightarrow> (u64 \<times> 'v) list" where
  "hm_remove k l = filter (\<lambda>p. fst p \<noteq> k) l"

definition hm_insert :: "u64 \<Rightarrow> 'v \<Rightarrow> (u64 \<times> 'v) list \<Rightarrow> (u64 \<times> 'v) list" where
  "hm_insert k v l = (k, v) # hm_remove k l"

subsection \<open>Wakes from other threads\<close>

text \<open>The loop of reads of the eventfd, up to the one that fails and was not interrupted.\<close>

fun drain_eventfd :: "(int, nat) result list \<Rightarrow> nat \<Rightarrow> nat" where
  "drain_eventfd [] acc = acc"
| "drain_eventfd (Inr v # as) acc = drain_eventfd as (saturating_add acc v)"
| "drain_eventfd (Inl e # as) acc = (if e = EINTR then drain_eventfd as acc else acc)"

text \<open>The loop of writes, \<open>None\<close> while it was always interrupted; a full counter counts as notified.\<close>

fun write_eventfd :: "(int, unit) result list \<Rightarrow> (io_error, unit) result option" where
  "write_eventfd [] = None"
| "write_eventfd (Inr _ # as) = Some (Ok ())"
| "write_eventfd (Inl e # as) =
     (if e = EINTR then write_eventfd as else if e = EAGAIN then Some (Ok ()) else Some (Err (Os_Error e)))"

definition eventfd_poll :: "int \<Rightarrow> sqe" where
  "eventfd_poll fd = sqe_default\<lparr>sq_opcode := IORING_OP_POLL_ADD, sq_fd := fd, sq_op_flags := 1 OR 8 OR 16\<rparr>"

definition register_eventfd_poll :: "(int \<Rightarrow> (int, int) result) \<Rightarrow> int \<Rightarrow> uring \<Rightarrow> uring \<times> (int, unit) result" where
  "register_eventfd_poll dup fd r = submit_with_token dup WAKE_TARGET_TOKEN (eventfd_poll fd) r"

partial_function (option) flush_initial_submissions :: "io_enter \<Rightarrow> nat \<Rightarrow> uring \<Rightarrow> (nat \<times> uring \<times> (io_error, unit) result) option" where
  "flush_initial_submissions enter n r =
     (if has_pending_submissions r
      then do {
        (n, r, res) \<leftarrow> submit_pending enter n False r;
        (case res of
           Inl e \<Rightarrow> Some (n, r, Err e)
         | Inr out \<Rightarrow>
             if so_retry out then flush_initial_submissions enter n r
             else (case so_error out of Some e \<Rightarrow> Some (n, r, Err (Os_Error e)) | None \<Rightarrow> flush_initial_submissions enter n r))
      }
      else Some (n, r, Ok ()))"

text \<open>\<open>create_driver\<close> on a fresh ring, whose descriptor is \<open>ring_fd\<close>; \<open>mk\<close> is the answer of \<open>eventfd\<close>.\<close>

definition new_driver :: "uring \<Rightarrow> (nat \<Rightarrow> bool) \<Rightarrow> wake_target \<Rightarrow> int option \<Rightarrow> bool \<Rightarrow> nat \<Rightarrow> driver" where
  "new_driver r supported target wake_fd deferred n =
     \<lparr>dr_ring = r, dr_supported = supported, dr_notifier = \<lparr>nt_target = Some target, nt_closed = False\<rparr>, dr_wake_fd = wake_fd, dr_defer = deferred,
      dr_shutting_down = False, dr_next_token = 1, dr_timer_token = None, dr_timer_deadline = None, dr_pending_wakes = 0,
      dr_pending_timers = 0, dr_io_completed = False, dr_completions = [], dr_cancels = [], dr_clock = n, dr_log = []\<rparr>"

definition create_driver ::
  "sysenv \<Rightarrow> (int, int) result \<Rightarrow> bool \<Rightarrow> (nat \<Rightarrow> bool) \<Rightarrow> int \<Rightarrow> uring \<Rightarrow> (io_error, driver) result option" where
  "create_driver env mk deferred supported ring_fd r =
     (if supported IORING_OP_MSG_RING
      then Some (case sy_dup env 0 ring_fd of
        Inl e \<Rightarrow> Err (Os_Error e)
      | Inr fd \<Rightarrow> Ok (new_driver r supported (MsgRing fd) None deferred 1))
      else case mk of
        Inl e \<Rightarrow> Some (Err (Os_Error e))
      | Inr event_fd \<Rightarrow>
          (case sy_dup env 0 event_fd of
             Inl e \<Rightarrow> Some (Err (Os_Error e))
           | Inr notifier_fd \<Rightarrow>
               (case register_eventfd_poll (sy_dup env 1) event_fd r of
                  (r, Inl e) \<Rightarrow> Some (Err (Os_Error e))
                | (r, Inr _) \<Rightarrow> do {
                    (n, r, res) \<leftarrow> flush_initial_submissions (sy_enter env) 2 r;
                    Some (case res of
                      Inl e \<Rightarrow> Err e
                    | Inr _ \<Rightarrow> Ok (new_driver r supported (EventFd notifier_fd) (Some event_fd) deferred n))
                  })))"

text \<open>\<open>recreate_ring_on_current_thread\<close> with the new ring. A driver without messages has its eventfd.\<close>

definition recreate_ring :: "sysenv \<Rightarrow> int \<Rightarrow> uring \<Rightarrow> driver \<Rightarrow> (driver \<times> (io_error, unit) result) option" where
  "recreate_ring env ring_fd r d =
     (if dr_supported d IORING_OP_MSG_RING
      then Some (case sy_dup env (dr_clock d) ring_fd of
        Inl e \<Rightarrow> (d\<lparr>dr_clock := dr_clock d + 1\<rparr>, Err (Os_Error e))
      | Inr fd \<Rightarrow> (d\<lparr>dr_clock := dr_clock d + 1, dr_notifier := (dr_notifier d)\<lparr>nt_target := Some (MsgRing fd)\<rparr>, dr_wake_fd := None, dr_ring := r\<rparr>, Ok ()))
      else case dr_wake_fd d of
        None \<Rightarrow> None
      | Some event_fd \<Rightarrow>
          (case register_eventfd_poll (sy_dup env (dr_clock d)) event_fd r of
             (r, Inl e) \<Rightarrow> Some (d\<lparr>dr_clock := dr_clock d + 1\<rparr>, Err (Os_Error e))
           | (r, Inr _) \<Rightarrow> do {
               (n, r, res) \<leftarrow> flush_initial_submissions (sy_enter env) (dr_clock d + 1) r;
               Some (case res of
                 Inl e \<Rightarrow> (d\<lparr>dr_clock := n\<rparr>, Err e)
               | Inr _ \<Rightarrow>
                   (case sy_dup env n event_fd of
                      Inl e \<Rightarrow> (d\<lparr>dr_clock := n + 1\<rparr>, Err (Os_Error e))
                    | Inr fd \<Rightarrow> (d\<lparr>dr_clock := n + 1, dr_notifier := (dr_notifier d)\<lparr>nt_target := Some (EventFd fd)\<rparr>, dr_ring := r\<rparr>, Ok ())))
             }))"

text \<open>\<open>IoUring::with_submitter\<close>, whose argument stages a message: \<open>cur\<close> is the ring bound to the calling thread, \<open>global\<close> the ring of
  the process, made by \<open>mk\<close>.\<close>

definition submit_on :: "io_enter \<Rightarrow> nat \<Rightarrow> (uring \<Rightarrow> uring \<times> (int, unit) result) \<Rightarrow> uring \<Rightarrow> (nat \<times> uring \<times> (io_error, unit) result) option" where
  "submit_on enter n f r = (case f r of
     (r, Inl e) \<Rightarrow> Some (n, r, Err (Os_Error e))
   | (r, Inr _) \<Rightarrow> flush_immediate enter n r)"

definition global_submitter ::
  "io_enter \<Rightarrow> nat \<Rightarrow> (int, uring) result \<Rightarrow> (uring \<Rightarrow> uring \<times> (int, unit) result) \<Rightarrow> uring option \<Rightarrow>
   (nat \<times> uring option \<times> (io_error, unit) result) option" where
  "global_submitter enter n mk f global =
     (case (case global of Some g \<Rightarrow> Ok g | None \<Rightarrow> mk) of
        Inl e \<Rightarrow> Some (n, global, Err (Os_Error e))
      | Inr g \<Rightarrow> do {
          (n, g, res) \<leftarrow> submit_on enter n f g;
          Some (n, Some (fst (drain_completions g)), res)
        })"

definition with_submitter ::
  "io_enter \<Rightarrow> nat \<Rightarrow> (int, uring) result \<Rightarrow> (uring \<Rightarrow> uring \<times> (int, unit) result) \<Rightarrow> uring option \<Rightarrow> uring option \<Rightarrow>
   (nat \<times> uring option \<times> uring option \<times> (io_error, unit) result) option" where
  "with_submitter enter n mk f cur global =
     (case cur of
        Some r \<Rightarrow>
          if \<not> has_pending_submissions r
          then do { (n, r, res) \<leftarrow> submit_on enter n f r; Some (n, Some r, global, res) }
          else do { (n, global, res) \<leftarrow> global_submitter enter n mk f global; Some (n, cur, global, res) }
      | None \<Rightarrow> do { (n, global, res) \<leftarrow> global_submitter enter n mk f global; Some (n, cur, global, res) })"

text \<open>\<open>NotifierInner::notify\<close>, called on a thread with the ring \<open>cur\<close>, if any; \<open>writes\<close> are the answers of the eventfd.\<close>

definition closed_error :: io_error where
  "closed_error = Io_Error BrokenPipe ''target runtime ring is closed''"

definition notify_driver ::
  "sysenv \<Rightarrow> nat \<Rightarrow> (int, uring) result \<Rightarrow> (int, unit) result list \<Rightarrow> notifier \<Rightarrow> uring option \<Rightarrow> uring option \<Rightarrow>
   (nat \<times> uring option \<times> uring option \<times> (io_error, unit) result) option" where
  "notify_driver env n mk writes nt cur global =
     (if nt_closed nt then Some (n, cur, global, Err closed_error)
      else case nt_target nt of
        None \<Rightarrow> Some (n, cur, global, Err closed_error)
      | Some (MsgRing fd) \<Rightarrow>
          with_submitter (sy_enter env) (n + 1) mk (submit_msg_ring (sy_dup env n) fd WAKE_TARGET_TOKEN 1 (make_token NotifySend 0)) cur global
      | Some (EventFd fd) \<Rightarrow> map_option (\<lambda>res. (n + 1, cur, global, res)) (write_eventfd writes))"

subsection \<open>Completions\<close>

definition next_token :: "completion_kind \<Rightarrow> driver \<Rightarrow> driver \<times> u64" where
  "next_token kind d = (d\<lparr>dr_next_token := dr_next_token d + 1\<rparr>, make_token kind (dr_next_token d))"

definition validate_opcode :: "nat \<Rightarrow> driver \<Rightarrow> (io_error, unit) result" where
  "validate_opcode opcode d =
     (if dr_supported d opcode then Ok () else Err (Io_Error Unsupported ''io_uring opcode is not supported by this kernel''))"

text \<open>A wake: the number of notifications, and with an eventfd the staging of the next poll, whose failure is only traced.\<close>

definition take_wakes :: "sysenv \<Rightarrow> cqe \<Rightarrow> driver \<Rightarrow> driver \<times> nat" where
  "take_wakes env c d = (case dr_wake_fd d of
     Some fd \<Rightarrow>
       (d\<lparr>dr_ring := fst (submit_with_token (sy_dup env (dr_clock d)) WAKE_TARGET_TOKEN (eventfd_poll fd) (dr_ring d)), dr_clock := dr_clock d + 1\<rparr>,
        drain_eventfd (sy_reads env (dr_clock d)) 0)
   | None \<Rightarrow> (d, nat (max (cq_res c) 1)))"

definition call_handler :: "u64 \<Rightarrow> nat \<Rightarrow> cqe \<Rightarrow> driver \<Rightarrow> driver" where
  "call_handler t h c d = d\<lparr>dr_completions := hm_remove t (dr_completions d), dr_io_completed := True, dr_log := dr_log d @ [Called t h c]\<rparr>"

definition process_cqe :: "sysenv \<Rightarrow> cqe \<Rightarrow> driver \<times> ready_events \<Rightarrow> driver \<times> ready_events" where
  "process_cqe env c = (\<lambda>(d, ready).
     if cq_user_data c = WAKE_TARGET_TOKEN
     then let (d, wakes) = take_wakes env c d in
       (d\<lparr>dr_pending_wakes := saturating_add (dr_pending_wakes d) wakes\<rparr>, ready\<lparr>ready_wake := ready_wake ready \<or> wakes \<noteq> 0\<rparr>)
     else case decode_token_kind (cq_user_data c) of
       Some Timer \<Rightarrow>
         let d = (if dr_timer_token d = Some (cq_user_data c) then d\<lparr>dr_timer_token := None, dr_timer_deadline := None\<rparr> else d) in
         if cq_res c = - ETIME
         then (d\<lparr>dr_pending_timers := saturating_add (dr_pending_timers d) 1\<rparr>, ready\<lparr>ready_timer := True\<rparr>)
         else (d, ready)
     | Some Operation \<Rightarrow>
         (case map_of (dr_completions d) (cq_user_data c) of
            Some h \<Rightarrow> (call_handler (cq_user_data c) h c d, ready\<lparr>ready_io := True\<rparr>)
          | None \<Rightarrow> (d, ready))
     | Some OperationCancel \<Rightarrow> (d\<lparr>dr_cancels := hm_remove (cq_user_data c) (dr_cancels d)\<rparr>, ready)
     | _ \<Rightarrow> (d, ready))"

text \<open>\<open>drain_completions\<close> with \<open>process_cqe\<close> as its callback. A callback stages entries at most, which the loop does not read.\<close>

definition drain_driver :: "sysenv \<Rightarrow> driver \<times> ready_events \<Rightarrow> (driver \<times> ready_events) \<times> bool" where
  "drain_driver env = (\<lambda>(d, ready).
     let (r, seen, drained) = drain_completions (dr_ring d) in
     (fold (process_cqe env) seen (d\<lparr>dr_ring := r\<rparr>, ready), drained))"

subsection \<open>Submission\<close>

partial_function (option) flush_loop ::
  "sysenv \<Rightarrow> bool \<Rightarrow> bool \<Rightarrow> nat \<Rightarrow> driver \<times> ready_events \<Rightarrow> ((driver \<times> ready_events) \<times> (io_error, bool) result) option" where
  "flush_loop env wait_for_cqe saw_any transient_retries s = (case s of (d, ready) \<Rightarrow>
     let had_pending = has_pending_submissions (dr_ring d);
         combined_wait = (wait_for_cqe \<and> had_pending \<and> ur_submit_all (dr_ring d)) in
     do {
       (n, r, res) \<leftarrow> submit_pending (sy_enter env) (dr_clock d) wait_for_cqe (dr_ring d);
       let d = d\<lparr>dr_clock := n, dr_ring := r\<rparr>;
       (case res of
          Inl e \<Rightarrow> Some ((d, ready), Err e)
        | Inr out \<Rightarrow>
            let s = fold (process_cqe env) (so_failures out) (d, ready);
                saw_any = (saw_any \<or> so_failures out \<noteq> []) in
            if so_retry out
            then let (s, drained) = drain_driver env s;
                     saw_any = (saw_any \<or> drained);
                     transient_retries = transient_retries + 1 in
              if wait_for_cqe \<and> drained then Some (s, Ok True)
              else if \<not> wait_for_cqe \<and> \<not> drained \<and> 2 \<le> transient_retries then Some (s, Ok saw_any)
              else flush_loop env wait_for_cqe saw_any transient_retries s
            else case so_error out of
              Some e \<Rightarrow> Some (((fst s)\<lparr>dr_timer_deadline := None\<rparr>, snd s), Err (Os_Error e))
            | None \<Rightarrow>
                if has_pending_submissions (dr_ring (fst s))
                then if so_submitted out = 0 then Some (s, Ok saw_any)
                     else flush_loop env wait_for_cqe saw_any transient_retries s
                else if wait_for_cqe \<and> had_pending \<and> \<not> combined_wait \<and> \<not> saw_any
                then flush_loop env wait_for_cqe saw_any transient_retries s
                else Some (s, Ok saw_any))
     })"

definition flush_submissions :: "sysenv \<Rightarrow> bool \<Rightarrow> driver \<times> ready_events \<Rightarrow> ((driver \<times> ready_events) \<times> (io_error, bool) result) option" where
  "flush_submissions env wait_for_cqe s = flush_loop env wait_for_cqe False 0 s"

definition flush_if_immediate :: "sysenv \<Rightarrow> driver \<Rightarrow> (driver \<times> (io_error, unit) result) option" where
  "flush_if_immediate env d =
     (if dr_defer d then Some (d, Ok ())
      else do {
        ((d, ready), res) \<leftarrow> flush_submissions env False (d, no_events);
        Some (d, case res of Inl e \<Rightarrow> Err e | Inr _ \<Rightarrow> Ok ())
      })"

text \<open>\<open>poll\<close> and \<open>wait\<close>, without the trait that forwards to them.\<close>

definition driver_poll :: "sysenv \<Rightarrow> driver \<Rightarrow> (driver \<times> (io_error, ready_events option) result) option" where
  "driver_poll env d =
     (let ready = \<lparr>ready_timer = (dr_pending_timers d \<noteq> 0), ready_wake = (dr_pending_wakes d \<noteq> 0), ready_io = dr_io_completed d\<rparr>;
          had_durable_ready = (ready_timer ready \<or> ready_wake ready \<or> ready_io ready) in
      do {
        (s, res) \<leftarrow> flush_submissions env False (d, ready);
        Some (case res of
          Inl e \<Rightarrow> (fst s, Err e)
        | Inr saw_submission \<Rightarrow>
            let ((d, ready), saw_completion) = drain_driver env s;
                d = d\<lparr>dr_io_completed := False\<rparr> in
            (d, Ok (if had_durable_ready \<or> saw_submission \<or> saw_completion then Some ready else None)))
      })"

definition driver_wait :: "sysenv \<Rightarrow> driver \<Rightarrow> (driver \<times> (io_error, unit) result) option" where
  "driver_wait env d = do {
     ((d, ready), res) \<leftarrow> flush_submissions env True (d, no_events);
     Some (d, case res of Inl e \<Rightarrow> Err e | Inr _ \<Rightarrow> Ok ())
   }"

definition drain_wake :: "driver \<Rightarrow> driver \<times> nat option" where
  "drain_wake d = (d\<lparr>dr_pending_wakes := 0\<rparr>, if dr_pending_wakes d = 0 then None else Some (dr_pending_wakes d))"

definition drain_timer :: "driver \<Rightarrow> driver \<times> nat option" where
  "drain_timer d = (d\<lparr>dr_pending_timers := 0\<rparr>, if dr_pending_timers d = 0 then None else Some (dr_pending_timers d))"

subsection \<open>Operations and the timer\<close>

definition shutdown_error :: io_error where
  "shutdown_error = Io_Error BrokenPipe ''runtime driver is shutting down''"

definition register_handler :: "u64 \<Rightarrow> nat \<Rightarrow> driver \<Rightarrow> driver" where
  "register_handler t h d = d\<lparr>dr_completions := hm_insert t h (dr_completions d), dr_log := dr_log d @ [Registered t h]\<rparr>"

definition withdraw_handler :: "u64 \<Rightarrow> nat \<Rightarrow> driver \<Rightarrow> driver" where
  "withdraw_handler t h d = d\<lparr>dr_completions := hm_remove t (dr_completions d), dr_log := dr_log d @ [Withdrawn t h]\<rparr>"

text \<open>The end of the two submissions: the handler is withdrawn if staging failed.\<close>

definition finish_staging ::
  "sysenv \<Rightarrow> u64 \<Rightarrow> nat \<Rightarrow> uring \<times> (int, unit) result \<Rightarrow> driver \<Rightarrow> (driver \<times> (io_error, u64) result) option" where
  "finish_staging env token h staged d = (let d = d\<lparr>dr_ring := fst staged, dr_clock := dr_clock d + 1\<rparr> in
     case snd staged of
       Inl e \<Rightarrow> Some (withdraw_handler token h d, Err (Os_Error e))
     | Inr _ \<Rightarrow> do {
         (d, res) \<leftarrow> flush_if_immediate env d;
         Some (d, case res of Inl e \<Rightarrow> Err e | Inr _ \<Rightarrow> Ok token)
       })"

definition submit_operation :: "sysenv \<Rightarrow> sqe \<Rightarrow> nat \<Rightarrow> driver \<Rightarrow> (driver \<times> (io_error, u64) result) option" where
  "submit_operation env prepared h d =
     (if dr_shutting_down d then Some (d, Err shutdown_error)
      else case validate_opcode (sq_opcode prepared) d of
        Inl e \<Rightarrow> Some (d, Err e)
      | Inr _ \<Rightarrow>
          let (d, token) = next_token Operation d;
              d = register_handler token h d in
          finish_staging env token h (submit_with_token (sy_dup env (dr_clock d)) token prepared (dr_ring d)) d)"

definition submit_operation_with_linked_timeout ::
  "sysenv \<Rightarrow> sqe \<Rightarrow> nat \<Rightarrow> nat \<Rightarrow> driver \<Rightarrow> (driver \<times> (io_error, u64) result) option" where
  "submit_operation_with_linked_timeout env prepared timeout h d =
     (if dr_shutting_down d then Some (d, Err shutdown_error)
      else case validate_opcode (sq_opcode prepared) d of
        Inl e \<Rightarrow> Some (d, Err e)
      | Inr _ \<Rightarrow>
          let (d, main_token) = next_token Operation d;
              (d, timeout_token) = next_token LinkedTimeout d;
              d = register_handler main_token h d in
          finish_staging env main_token h
            (submit_linked_with_timeout (sy_dup env (dr_clock d)) (sy_address env (dr_clock d)) main_token prepared timeout_token timeout (dr_ring d)) d)"

definition stage_cancel_operation :: "sysenv \<Rightarrow> u64 \<Rightarrow> driver \<Rightarrow> driver \<times> (io_error, unit) result" where
  "stage_cancel_operation env token d =
     (let (d, cancel_token) = next_token OperationCancel d;
          d = d\<lparr>dr_cancels := hm_insert cancel_token token (dr_cancels d)\<rparr>;
          (r, res) = submit_with_token (sy_dup env (dr_clock d)) cancel_token
            (sqe_default\<lparr>sq_opcode := IORING_OP_ASYNC_CANCEL, sq_fd := -1, sq_addr := token\<rparr>) (dr_ring d);
          d = d\<lparr>dr_ring := r, dr_clock := dr_clock d + 1\<rparr> in
      case res of
        Inr _ \<Rightarrow> (d, Ok ())
      | Inl e \<Rightarrow> (d\<lparr>dr_cancels := hm_remove cancel_token (dr_cancels d)\<rparr>, Err (Os_Error e)))"

definition cancel_operation :: "sysenv \<Rightarrow> u64 \<Rightarrow> driver \<Rightarrow> (driver \<times> (io_error, unit) result) option" where
  "cancel_operation env token d = (case stage_cancel_operation env token d of
     (d, Inl e) \<Rightarrow> Some (d, Err e)
   | (d, Inr _) \<Rightarrow> flush_if_immediate env d)"

text \<open>The staging of \<open>rearm_timer\<close>: \<open>Inl\<close> where it returns with an error.\<close>

definition stage_timer_remove :: "sysenv \<Rightarrow> u64 \<Rightarrow> driver \<Rightarrow> driver \<times> (int, unit) result" where
  "stage_timer_remove env active d =
     (let (d, token) = next_token TimerRemove d;
          (r, res) = submit_timeout_remove (sy_dup env (dr_clock d)) active token (dr_ring d) in
      (d\<lparr>dr_ring := r, dr_clock := dr_clock d + 1\<rparr>, res))"

definition stage_timer :: "sysenv \<Rightarrow> u64 \<Rightarrow> nat \<Rightarrow> driver \<Rightarrow> driver \<times> (int, unit) result" where
  "stage_timer env token deadline d =
     (let (r, res) = submit_timeout (sy_dup env (dr_clock d)) (sy_address env (dr_clock d)) token deadline (dr_ring d) in
      (d\<lparr>dr_ring := r, dr_clock := dr_clock d + 1\<rparr>, res))"

definition stage_rearm :: "sysenv \<Rightarrow> nat option \<Rightarrow> driver \<Rightarrow> driver \<times> (int, unit) result" where
  "stage_rearm env deadline d = (case (dr_timer_token d, deadline) of
     (Some active, Some deadline) \<Rightarrow>
       (case stage_timer_remove env active d of
          (d, Inl e) \<Rightarrow> (d, Err e)
        | (d, Inr _) \<Rightarrow>
            let (d, token) = next_token Timer d in
            (case stage_timer env token deadline d of
               (d, Inl e) \<Rightarrow> (d, Err e)
             | (d, Inr _) \<Rightarrow> (d\<lparr>dr_timer_token := Some token\<rparr>, Ok ())))
   | (Some active, None) \<Rightarrow> stage_timer_remove env active (d\<lparr>dr_timer_token := None\<rparr>)
   | (None, Some deadline) \<Rightarrow>
       let (d, token) = next_token Timer d in stage_timer env token deadline (d\<lparr>dr_timer_token := Some token\<rparr>)
   | (None, None) \<Rightarrow> (d, Ok ()))"

definition rearm_timer :: "sysenv \<Rightarrow> nat option \<Rightarrow> driver \<Rightarrow> (driver \<times> (io_error, unit) result) option" where
  "rearm_timer env deadline d =
     (if dr_timer_deadline d = deadline then Some (d, Ok ())
      else case stage_rearm env deadline d of
        (d, Inl e) \<Rightarrow> Some (d, Err (Os_Error e))
      | (d, Inr _) \<Rightarrow> flush_if_immediate env (d\<lparr>dr_timer_deadline := deadline\<rparr>))"

subsection \<open>Shutdown\<close>

fun stage_cancels :: "sysenv \<Rightarrow> u64 list \<Rightarrow> driver \<Rightarrow> driver \<times> (io_error, unit) result" where
  "stage_cancels env [] d = (d, Ok ())"
| "stage_cancels env (token # tokens) d =
     (if token \<in> set (map snd (dr_cancels d)) then stage_cancels env tokens d
      else case stage_cancel_operation env token d of
        (d, Inl e) \<Rightarrow> (d, Err e)
      | (d, Inr _) \<Rightarrow> stage_cancels env tokens d)"

partial_function (option) quiesce_loop :: "sysenv \<Rightarrow> driver \<Rightarrow> (driver \<times> (io_error, unit) result) option" where
  "quiesce_loop env d = do {
     (s, res) \<leftarrow> flush_submissions env False (d, no_events);
     (case res of
        Inl e \<Rightarrow> Some (fst s, Err e)
      | Inr _ \<Rightarrow>
          let d = fst (fst (drain_driver env s)) in
          if dr_completions d = [] then Some (d, Ok ())
          else if sy_expired env (dr_clock d) then Some (d, Err (Io_Error TimedOut ''timed out quiescing io_uring operations during driver shutdown''))
          else quiesce_loop env (d\<lparr>dr_clock := dr_clock d + 1\<rparr>))
   }"

definition quiesce_operations :: "sysenv \<Rightarrow> driver \<Rightarrow> (driver \<times> (io_error, unit) result) option" where
  "quiesce_operations env d =
     (if dr_completions d = [] then Some (d, Ok ())
      else case stage_cancels env (sy_order env (map fst (dr_completions d))) d of
        (d, Inl e) \<Rightarrow> Some (d, Err e)
      | (d, Inr _) \<Rightarrow> quiesce_loop env d)"

text \<open>What becomes of the ring and the registered handlers: dropped, or leaked for good.\<close>

datatype driver_end = Released | Leaked "(u64 \<times> nat) list"

definition leak_kernel_referenced_storage :: "driver \<Rightarrow> driver \<times> driver_end" where
  "leak_kernel_referenced_storage d = (d\<lparr>dr_completions := []\<rparr>, Leaked (dr_completions d))"

definition close_driver :: "driver \<Rightarrow> driver" where
  "close_driver d = d\<lparr>dr_shutting_down := True, dr_notifier := (dr_notifier d)\<lparr>nt_closed := True, nt_target := None\<rparr>\<rparr>"

text \<open>\<open>Driver::drop\<close>; the guard \<open>DriverDropSafety\<close> does \<open>drop_on_unwind\<close> when it unwinds from a panic instead.\<close>

definition driver_drop :: "sysenv \<Rightarrow> driver \<Rightarrow> (driver \<times> driver_end) option" where
  "driver_drop env d = do {
     (d, res) \<leftarrow> quiesce_operations env (close_driver d);
     Some (case res of Inr _ \<Rightarrow> (d, Released) | Inl e \<Rightarrow> leak_kernel_referenced_storage d)
   }"

definition drop_on_unwind :: "driver \<Rightarrow> driver \<times> driver_end" where
  "drop_on_unwind d = leak_kernel_referenced_storage (close_driver d)"

subsection \<open>Where the requests are\<close>

text \<open>The tokens of the staged requests, and of those the kernel holds or has completed without the completion being read.\<close>

definition staged_tokens :: "uring \<Rightarrow> u64 multiset" where
  "staged_tokens r = mset (map (sq_user_data \<circ> ow_sqe) (concat (ur_pending r)))"

definition in_kernel :: "uring \<Rightarrow> u64 multiset" where
  "in_kernel r = ur_held r + mset (map cq_user_data (cq_list r))"

abbreviation ops :: "u64 multiset \<Rightarrow> u64 multiset" where
  "ops M \<equiv> filter_mset (\<lambda>t. decode_token_kind t = Some Operation) M"

abbreviation keys :: "driver \<Rightarrow> u64 multiset" where
  "keys d \<equiv> mset (map fst (dr_completions d))"

text \<open>The ownership invariant, with the tokens \<open>X\<close> of completions that are read and not yet processed: a handler is registered for
  exactly the operations under way, and the armed timer is one of the requests under way. After a split batch the staged
  entries say nothing any more.\<close>

definition ring_owned :: "u64 multiset \<Rightarrow> driver \<Rightarrow> bool" where
  "ring_owned X d \<longleftrightarrow> ring_shape (dr_ring d) \<and> distinct (map fst (dr_completions d))
     \<and> (dr_timer_deadline d \<noteq> None \<longrightarrow> dr_timer_token d \<noteq> None)
     \<and> (if ur_poisoned (dr_ring d) then ops (in_kernel (dr_ring d) + X) \<subseteq># keys d
        else ops (staged_tokens (dr_ring d) + in_kernel (dr_ring d) + X) = keys d
          \<and> (\<forall>t. dr_timer_token d = Some t \<longrightarrow> decode_token_kind t = Some Timer \<and> t \<in># staged_tokens (dr_ring d) + in_kernel (dr_ring d) + X))"

lemma ops_tracked: "ops M = ops (tracked_mset M)"
  by (rule multiset_eqI) (simp add: tracked_def)

lemma tracked_eq:
  assumes "tracked_mset M = tracked_mset N"
  shows "ops M = ops N" "decode_token_kind t = Some Timer \<Longrightarrow> t \<in># M \<longleftrightarrow> t \<in># N"
proof -
  have "ops M = ops (tracked_mset M)" by (rule ops_tracked)
  also have "\<dots> = ops (tracked_mset N)" by (simp only: assms)
  also have "\<dots> = ops N" by (rule ops_tracked [symmetric])
  finally show "ops M = ops N" .
  assume "decode_token_kind t = Some Timer"
  then have "t \<in># M \<longleftrightarrow> t \<in># tracked_mset M" "t \<in># N \<longleftrightarrow> t \<in># tracked_mset N" by (simp_all add: tracked_def)
  then show "t \<in># M \<longleftrightarrow> t \<in># N" unfolding assms by blast
qed

lemma mset_took: "mset (map sq_user_data (map ow_sqe ows)) = mset (map (sq_user_data \<circ> ow_sqe) ows)"
  by (simp add: comp_def)

lemma in_kernel_delivered:
  assumes "cq_delivered r r'"
  shows "tracked_mset (in_kernel r') = tracked_mset (in_kernel r + mset (map sq_user_data (kernel_took r r')))"
proof -
  obtain new where new: "cq_list r' = cq_list r @ new"
      "tracked_mset (mset (map cq_user_data new) + ur_held r') = tracked_mset (ur_held r + mset (map sq_user_data (kernel_took r r')))"
    using assms by (auto simp: cq_delivered_def)
  have "tracked_mset (in_kernel r') = tracked_mset (mset (map cq_user_data new) + ur_held r') + tracked_mset (mset (map cq_user_data (cq_list r)))"
    unfolding in_kernel_def new(1) by (simp add: ac_simps)
  also have "\<dots> = tracked_mset (in_kernel r + mset (map sq_user_data (kernel_took r r')))"
    unfolding new(2) in_kernel_def by (simp add: ac_simps)
  finally show ?thesis .
qed

text \<open>A submission moves requests from the staging queue to the kernel or to the reported failures.\<close>

lemma submit_moves:
  assumes "kernel_ok enter" and "ring_shape r" and "submit_pending enter n wait r = Some (n', r', Ok out)"
  shows "tracked_mset (staged_tokens r' + in_kernel r' + mset (map cq_user_data (so_failures out))) = tracked_mset (staged_tokens r + in_kernel r)"
proof -
  note spec = submit_pending_spec [OF assms]
  obtain k where k: "kernel_took r r' = map ow_sqe (concat (take k (ur_pending r)))"
    and out: "if so_error out = None \<or> so_retry out then ur_pending r' = drop k (ur_pending r) \<and> so_failures out = []
      else k = 0 \<and> ur_pending r' = [] \<and> map cq_user_data (so_failures out) = map (sq_user_data \<circ> ow_sqe) (concat (ur_pending r))"
    using spec(1) by (auto simp: submit_exact_def)
  have "concat (ur_pending r) = concat (take k (ur_pending r)) @ concat (drop k (ur_pending r))" by (metis append_take_drop_id concat_append)
  then have "staged_tokens r' + mset (map cq_user_data (so_failures out)) + mset (map sq_user_data (kernel_took r r')) = staged_tokens r"
    unfolding k mset_took using out by (cases "so_error out = None \<or> so_retry out") (simp_all add: staged_tokens_def ac_simps)
  then have "tracked_mset (staged_tokens r') + tracked_mset (mset (map cq_user_data (so_failures out)))
      + tracked_mset (mset (map sq_user_data (kernel_took r r'))) = tracked_mset (staged_tokens r)" by (metis filter_union_mset)
  then show ?thesis using in_kernel_delivered [OF spec(3)] by (simp add: ac_simps)
qed

lemma submit_fails:
  assumes "kernel_ok enter" and "ring_shape r" and "submit_pending enter n wait r = Some (n', r', Err e)"
  shows "ur_poisoned r \<Longrightarrow> r' = r"
    "\<not> ur_poisoned r' \<Longrightarrow> tracked_mset (staged_tokens r' + in_kernel r') = tracked_mset (staged_tokens r + in_kernel r)"
    "tracked_mset (in_kernel r') \<subseteq># tracked_mset (staged_tokens r + in_kernel r)"
proof -
  note spec = submit_pending_spec [OF assms]
  note del = in_kernel_delivered [OF spec(3)]
  show "ur_poisoned r \<Longrightarrow> r' = r" using submit_pending_poisoned(1) [OF assms(1,3)] by simp
  obtain j where pend: "ur_pending r' = ur_pending r" and j: "kernel_took r r' = map ow_sqe (take j (concat (ur_pending r)))"
      and took: "kernel_took r r' = [] \<or> ur_poisoned r'"
    using spec(1) unfolding submit_exact_def sum.case by blast
  show "\<not> ur_poisoned r' \<Longrightarrow> tracked_mset (staged_tokens r' + in_kernel r') = tracked_mset (staged_tokens r + in_kernel r)"
    using took del pend by (auto simp: staged_tokens_def)
  have "mset (map sq_user_data (kernel_took r r')) \<subseteq># staged_tokens r"
    unfolding j mset_took staged_tokens_def by (metis append_take_drop_id map_append mset_append mset_subset_eq_add_left)
  then show "tracked_mset (in_kernel r') \<subseteq># tracked_mset (staged_tokens r + in_kernel r)"
    unfolding del by (simp add: multiset_filter_mono add.commute)
qed

lemma owned_submit:
  assumes "kernel_ok enter" and "submit_pending enter n wait (dr_ring d) = Some (n', r', res)" and "ring_owned {#} d"
  shows "ring_owned (case res of Inr out \<Rightarrow> mset (map cq_user_data (so_failures out)) | Inl _ \<Rightarrow> {#}) (d\<lparr>dr_clock := c, dr_ring := r'\<rparr>)"
proof -
  have shape: "ring_shape (dr_ring d)" using assms(3) by (simp add: ring_owned_def)
  note spec = submit_pending_spec [OF assms(1) shape assms(2)]
  show ?thesis
  proof (cases res)
    case (Inr out)
    note eq = submit_moves [OF assms(1) shape assms(2) [unfolded Inr]]
    have "\<not> ur_poisoned (dr_ring d)" "\<not> ur_poisoned r'" using submit_pending_poisoned(2) [OF assms(1,2) Inr] by simp_all
    then show ?thesis using assms(3) tracked_eq [OF eq] spec(2) Inr by (auto simp: ring_owned_def)
  next
    case (Inl e)
    note f = submit_fails [OF assms(1) shape assms(2) [unfolded Inl]]
    show ?thesis
    proof (cases "ur_poisoned (dr_ring d)")
      case True
      then show ?thesis using f(1) assms(3) Inl by (auto simp: ring_owned_def)
    next
      case ok: False
      show ?thesis
      proof (cases "ur_poisoned r'")
        case True
        have "ops (in_kernel r') \<subseteq># ops (staged_tokens (dr_ring d) + in_kernel (dr_ring d))"
          using multiset_filter_mono [OF f(3)] ops_tracked by metis
        then show ?thesis using True ok assms(3) spec(2) Inl by (simp add: ring_owned_def)
      next
        case False
        then show ?thesis using ok assms(3) tracked_eq [OF f(2)] spec(2) Inl by (auto simp: ring_owned_def)
      qed
    qed
  qed
qed

subsection \<open>Handlers\<close>

definition registrations :: "driver_event list \<Rightarrow> (u64 \<times> nat) list" where
  "registrations l = concat (map (\<lambda>e. case e of Registered t h \<Rightarrow> [(t, h)] | _ \<Rightarrow> []) l)"

definition withdrawals :: "driver_event list \<Rightarrow> (u64 \<times> nat) list" where
  "withdrawals l = concat (map (\<lambda>e. case e of Withdrawn t h \<Rightarrow> [(t, h)] | _ \<Rightarrow> []) l)"

definition calls :: "driver_event list \<Rightarrow> (u64 \<times> nat) list" where
  "calls l = concat (map (\<lambda>e. case e of Called t h c \<Rightarrow> [(t, h)] | _ \<Rightarrow> []) l)"

lemma log_simps [simp]:
  "registrations [] = []" "withdrawals [] = []" "calls [] = []"
  "registrations (l @ m) = registrations l @ registrations m" "withdrawals (l @ m) = withdrawals l @ withdrawals m" "calls (l @ m) = calls l @ calls m"
  "registrations (e # l) = (case e of Registered t h \<Rightarrow> [(t, h)] | _ \<Rightarrow> []) @ registrations l"
  "withdrawals (e # l) = (case e of Withdrawn t h \<Rightarrow> [(t, h)] | _ \<Rightarrow> []) @ withdrawals l"
  "calls (e # l) = (case e of Called t h c \<Rightarrow> [(t, h)] | _ \<Rightarrow> []) @ calls l"
  by (simp_all add: registrations_def withdrawals_def calls_def)

text \<open>Every registration ended in one call, in a withdrawal, or is still there.\<close>

definition handlers_accounted :: "driver \<Rightarrow> bool" where
  "handlers_accounted d \<longleftrightarrow> mset (registrations (dr_log d)) = mset (calls (dr_log d)) + mset (withdrawals (dr_log d)) + mset (dr_completions d)
     \<and> (\<forall>t h c. Called t h c \<in> set (dr_log d) \<longrightarrow> cq_user_data c = t)"

definition kept :: "u64 multiset \<Rightarrow> driver \<Rightarrow> bool" where
  "kept X d \<longleftrightarrow> ring_owned X d \<and> handlers_accounted d"

lemma hm_remove_keys: "map fst (hm_remove k l) = filter (\<lambda>x. x \<noteq> k) (map fst l)"
  by (induction l) (auto simp: hm_remove_def)

lemma hm_remove_absent: "k \<notin> fst ` set l \<Longrightarrow> hm_remove k l = l"
  by (induction l) (auto simp: hm_remove_def)

lemma hm_remove_present:
  "distinct (map fst l) \<Longrightarrow> map_of l k = Some v \<Longrightarrow> mset l = add_mset (k, v) (mset (hm_remove k l))"
proof (induction l)
  case (Cons p l)
  show ?case
  proof (cases "fst p = k")
    case True
    then have "hm_remove k (p # l) = l" using Cons.prems(1) hm_remove_absent [of k l] by (auto simp: hm_remove_def)
    moreover have "p = (k, v)" using True Cons.prems(2) by (cases p) simp
    ultimately show ?thesis by simp
  next
    case False
    then show ?thesis using Cons by (auto simp: hm_remove_def)
  qed
qed simp

lemma map_of_none_iff: "map_of l k = None \<longleftrightarrow> k \<notin># mset (map fst l)"
  by (simp add: map_of_eq_None_iff)

text \<open>Staging.\<close>

lemma staged_push [simp]: "staged_tokens (push_batch b r) = staged_tokens r + mset (map (sq_user_data \<circ> ow_sqe) b)"
  by (simp add: staged_tokens_def push_batch_def)

lemma push_batch_frame [simp]:
  "in_kernel (push_batch b r) = in_kernel r" "ring_shape (push_batch b r) = ring_shape r" "ur_poisoned (push_batch b r) = ur_poisoned r"
  by (simp_all add: in_kernel_def push_batch_def cq_list_def ring_shape_def)

lemma prepare_token: "prepare_sqe dup ts q = Ok ow \<Longrightarrow> sq_user_data (ow_sqe ow) = sq_user_data q"
  by (auto simp: prepare_sqe_def duplicate_sqe_fd_def split: if_splits sum.splits)

lemma push_sqe_cases:
  obtains e where "push_sqe dup ts q r = (r, Err e)"
  | ow where "push_sqe dup ts q r = (push_batch [ow] r, Ok ())" "sq_user_data (ow_sqe ow) = sq_user_data q"
  using prepare_token by (cases "prepare_sqe dup ts q") (auto simp: push_sqe_def)

lemma submit_with_token_cases:
  obtains e where "submit_with_token dup t q r = (r, Err e)"
  | ow where "submit_with_token dup t q r = (push_batch [ow] r, Ok ())" "sq_user_data (ow_sqe ow) = t"
proof -
  show ?thesis using that by (cases rule: push_sqe_cases [of dup None "q\<lparr>sq_user_data := t\<rparr>" r]) (auto simp: submit_with_token_def)
qed

lemma submit_linked_cases:
  obtains e where "submit_linked_with_timeout dup p t q t' dur r = (r, Err e)"
  | a b where "submit_linked_with_timeout dup p t q t' dur r = (push_batch [a, b] r, Ok ())" "sq_user_data (ow_sqe a) = t" "sq_user_data (ow_sqe b) = t'"
  using prepare_token by (fastforce simp: submit_linked_with_timeout_def split: sum.splits)

lemma push_batch_inj: "push_batch a r = push_batch b r \<longleftrightarrow> a = b"
proof -
  have "ur_pending (push_batch a r) = ur_pending r @ [a]" for a by (simp add: push_batch_def)
  then show ?thesis by (metis last_snoc)
qed

text \<open>Timer requests name no descriptor, so staging them cannot fail.\<close>

lemma submit_timer_total:
  "\<exists>ow. submit_timeout dup p t dur r = (push_batch [ow] r, Ok ()) \<and> sq_user_data (ow_sqe ow) = t
     \<and> ow_timespec ow = Some (duration_to_kernel_timespec dur)"
  "\<exists>ow. submit_timeout_remove dup a t r = (push_batch [ow] r, Ok ()) \<and> sq_user_data (ow_sqe ow) = t"
  by (simp_all add: push_batch_inj submit_timeout_def submit_timeout_remove_def push_sqe_def sqe_default_def prepare_sqe_def duplicate_sqe_fd_def uses_descriptor_def
      IORING_OP_TIMEOUT_def IORING_OP_TIMEOUT_REMOVE_def)

lemma kept_push:
  assumes "kept X d" and "dr_ring d' = push_batch b (dr_ring d)" and "\<forall>ow \<in> set b. decode_token_kind (sq_user_data (ow_sqe ow)) \<noteq> Some Operation"
    and "dr_completions d' = dr_completions d" "dr_log d' = dr_log d" "dr_timer_token d' = dr_timer_token d" "dr_timer_deadline d' = dr_timer_deadline d"
  shows "kept X d'"
proof -
  have "ops (image_mset (sq_user_data \<circ> ow_sqe) (mset b)) = {#}" using assms(3) by (auto simp: filter_mset_eq_conv intro!: multiset_eqI)
  then show ?thesis using assms(1,2,4-) by (auto simp: kept_def ring_owned_def handlers_accounted_def simp del: filter_mset_eq_mempty_iff split: if_splits)
qed

lemma kept_cong:
  assumes "kept X d" and "dr_ring d' = dr_ring d" "dr_completions d' = dr_completions d" "dr_log d' = dr_log d" "dr_timer_token d' = dr_timer_token d"
    "dr_timer_deadline d' = dr_timer_deadline d \<or> dr_timer_deadline d' = None"
  shows "kept X d'"
  using assms by (auto simp: kept_def ring_owned_def handlers_accounted_def)

text \<open>Processing one completion.\<close>

lemma process_kept:
  assumes "kept (add_mset (cq_user_data c) X) d"
  shows "kept X (fst (process_cqe env c (d, ready)))"
proof -
  let ?t = "cq_user_data c"
  have own: "ring_owned (add_mset ?t X) d" and acc: "handlers_accounted d" using assms by (simp_all add: kept_def)
  have drop: "kept X d" if "decode_token_kind ?t \<noteq> Some Operation" and "dr_timer_token d \<noteq> Some ?t"
    using own acc that by (auto simp: kept_def ring_owned_def split: if_splits)
  consider (wake) "?t = WAKE_TARGET_TOKEN" | (timer) "decode_token_kind ?t = Some Timer" | (op) "decode_token_kind ?t = Some Operation"
    | (other) "?t \<noteq> WAKE_TARGET_TOKEN" "decode_token_kind ?t \<noteq> Some Timer" "decode_token_kind ?t \<noteq> Some Operation" by blast
  then show ?thesis
  proof cases
    case wake
    have "dr_timer_token d \<noteq> Some ?t" if "\<not> ur_poisoned (dr_ring d)" using own wake that by (auto simp: ring_owned_def)
    then have d: "kept X d" using own acc wake by (cases "ur_poisoned (dr_ring d)") (auto simp: kept_def ring_owned_def)
    have "kept X (fst (take_wakes env c d))"
    proof (cases "dr_wake_fd d")
      case (Some fd)
      show ?thesis
      proof (cases rule: submit_with_token_cases [of "sy_dup env (dr_clock d)" WAKE_TARGET_TOKEN "eventfd_poll fd" "dr_ring d"])
        case (1 e)
        then show ?thesis using Some by (intro kept_cong [OF d]) (simp_all add: take_wakes_def)
      next
        case (2 ow)
        then show ?thesis using Some by (intro kept_push [OF d, of _ "[ow]"]) (simp_all add: take_wakes_def)
      qed
    qed (simp add: take_wakes_def d)
    then show ?thesis using wake by (auto simp: process_cqe_def split: prod.splits intro: kept_cong)
  next
    case timer
    then have nw: "?t \<noteq> WAKE_TARGET_TOKEN" by auto
    let ?d = "if dr_timer_token d = Some ?t then d\<lparr>dr_timer_token := None, dr_timer_deadline := None\<rparr> else d"
    have "kept X ?d"
    proof (cases "dr_timer_token d = Some ?t")
      case True
      then show ?thesis using own acc timer by (auto simp: kept_def ring_owned_def handlers_accounted_def split: if_splits)
    next
      case False
      then show ?thesis using drop timer by simp
    qed
    then show ?thesis using timer nw by (auto simp: process_cqe_def Let_def intro: kept_cong split: if_splits)
  next
    case op
    then have nw: "?t \<noteq> WAKE_TARGET_TOKEN" by auto
    have "?t \<in># keys d"
    proof (cases "ur_poisoned (dr_ring d)")
      case True
      then show ?thesis using own op by (auto simp: ring_owned_def dest: mset_subset_eqD)
    next
      case False
      then have "keys d = ops (staged_tokens (dr_ring d) + in_kernel (dr_ring d) + add_mset ?t X)" using own by (simp add: ring_owned_def)
      then show ?thesis using op by simp
    qed
    then obtain h where h: "map_of (dr_completions d) ?t = Some h" using map_of_none_iff [of "dr_completions d" ?t] by (cases "map_of (dr_completions d) ?t") auto
    have dist: "distinct (map fst (dr_completions d))" using own by (simp add: ring_owned_def)
    note rem = hm_remove_present [OF dist h]
    obtain K where k: "keys (call_handler ?t h c d) = K" "keys d = add_mset ?t K" using rem by (simp add: call_handler_def)
    have dist': "distinct (map fst (dr_completions (call_handler ?t h c d)))" using dist by (simp add: call_handler_def hm_remove_keys)
    have "kept X (call_handler ?t h c d)"
    proof -
      have "handlers_accounted (call_handler ?t h c d)" using acc rem by (auto simp: handlers_accounted_def call_handler_def)
      moreover have "dr_timer_token d \<noteq> Some ?t" if "\<not> ur_poisoned (dr_ring d)" using own op that by (auto simp: ring_owned_def)
      then have "ring_owned X (call_handler ?t h c d)"
        using own op dist' unfolding ring_owned_def k by (auto simp: call_handler_def split: if_splits)
      ultimately show ?thesis by (simp add: kept_def)
    qed
    then show ?thesis using op nw h by (simp add: process_cqe_def)
  next
    case other
    have "dr_timer_token d \<noteq> Some ?t" if "\<not> ur_poisoned (dr_ring d)" using own other that by (auto simp: ring_owned_def)
    then have d: "kept X d" using own acc other by (cases "ur_poisoned (dr_ring d)") (auto simp: kept_def ring_owned_def)
    show ?thesis using other d by (auto simp: process_cqe_def split: option.splits completion_kind.splits intro: kept_cong)
  qed
qed

lemma enter_loop_clock:
  assumes "enter_loop enter n r ts mn = Some (n', r', a)"
  shows "n < n'"
proof -
  have "n < fst (n', r', a)"
  proof (rule enter_loop.raw_induct [where P = "\<lambda>enter n r ts mn y. n < fst y", OF _ assms])
    fix self :: "io_enter \<Rightarrow> nat \<Rightarrow> uring \<Rightarrow> u32 \<Rightarrow> u32 \<Rightarrow> (nat \<times> uring \<times> (int, u32) result) option" and enter n r ts mn y
    assume IH: "\<And>enter n r ts mn y. self enter n r ts mn = Some y \<Longrightarrow> n < fst y"
      and eq: "(case enter n r ts mn of (r', a) \<Rightarrow> if a = Err EINTR then self enter (n + 1) r' ts mn else Some (n + 1, r', a)) = Some y"
    then show "n < fst y" by (auto dest!: IH split: prod.splits if_splits)
  qed
  then show ?thesis by simp
qed

text \<open>A submission makes a system call unless it has nothing to do.\<close>

lemma submit_pending_clock:
  assumes "submit_pending enter n wait r = Some (n', r', res)"
  shows "n \<le> n'" "res = Ok out \<Longrightarrow> so_retry out \<or> so_submitted out \<noteq> 0 \<or> wait \<Longrightarrow> n < n'"
proof -
  have idle: "n < n'" if "enter_without_submission enter n mn r = Some (n', r', x)" for mn x
    using that enter_loop_clock by (auto simp: enter_without_submission_def bind_eq_Some_conv)
  show "n \<le> n'" using assms
    by (auto simp: submit_pending_def Let_def bind_eq_Some_conv dest!: enter_loop_clock idle split: if_splits sum.splits)
  assume "res = Ok out" "so_retry out \<or> so_submitted out \<noteq> 0 \<or> wait"
  then show "n < n'" using assms
    by (auto simp: submit_pending_def Let_def bind_eq_Some_conv outcome_complete_def dest!: enter_loop_clock idle split: if_splits sum.splits)
qed

text \<open>What processing and submission leave alone; the clock only advances.\<close>

definition no_new :: "driver \<Rightarrow> driver \<Rightarrow> bool" where
  "no_new d d' \<longleftrightarrow> dr_next_token d' = dr_next_token d \<and> registrations (dr_log d') = registrations (dr_log d)
     \<and> dr_wake_fd d' = dr_wake_fd d \<and> dr_notifier d' = dr_notifier d \<and> dr_shutting_down d' = dr_shutting_down d \<and> dr_clock d \<le> dr_clock d'"

lemma no_new_refl [simp]: "no_new d d"
  by (simp add: no_new_def)

lemma no_new_trans: "no_new d e \<Longrightarrow> no_new e f \<Longrightarrow> no_new d f"
  by (simp add: no_new_def)

lemma process_no_new: "no_new d (fst (process_cqe env c (d, ready)))"
  by (simp add: process_cqe_def no_new_def take_wakes_def call_handler_def Let_def split: option.splits completion_kind.splits)

lemma fold_process:
  assumes "kept (mset (map cq_user_data cs)) (fst s)"
  shows "kept {#} (fst (fold (process_cqe env) cs s)) \<and> no_new (fst s) (fst (fold (process_cqe env) cs s))"
  using assms
proof (induction cs arbitrary: s)
  case (Cons c cs)
  obtain d ready where s: "s = (d, ready)" by (cases s)
  have "kept (mset (map cq_user_data cs)) (fst (process_cqe env c s))" using process_kept [of c "mset (map cq_user_data cs)" d env ready] Cons.prems s by simp
  from Cons.IH [OF this] show ?case using process_no_new [of d env c ready] s by (auto intro: no_new_trans)
qed simp

lemma kept_regroup:
  assumes "kept X d" and r: "ring_shape (dr_ring d')" "ur_poisoned (dr_ring d') = ur_poisoned (dr_ring d)" "staged_tokens (dr_ring d') = staged_tokens (dr_ring d)"
    and e: "in_kernel (dr_ring d') + Y = in_kernel (dr_ring d) + X"
    and f: "dr_completions d' = dr_completions d" "dr_log d' = dr_log d" "dr_timer_token d' = dr_timer_token d" "dr_timer_deadline d' = dr_timer_deadline d"
  shows "kept Y d'"
proof -
  have e2: "staged_tokens (dr_ring d') + in_kernel (dr_ring d') + Y = staged_tokens (dr_ring d) + in_kernel (dr_ring d) + X"
    unfolding r(3) add.assoc e by (rule refl)
  show ?thesis using assms(1) r(1) unfolding kept_def ring_owned_def handlers_accounted_def f r(2) e2 e by blast
qed

lemma drain_driver_kept:
  assumes "kept {#} (fst s)"
  shows "kept {#} (fst (fst (drain_driver env s))) \<and> no_new (fst s) (fst (fst (drain_driver env s)))"
proof -
  obtain d ready r seen any where s: "s = (d, ready)" and dr: "drain_completions (dr_ring d) = (r, seen, any)" by (metis prod_cases3 surj_pair)
  note spec = drain_completions_spec [OF dr]
  have st: "staged_tokens r = staged_tokens (dr_ring d)" and ik: "in_kernel r + mset (map cq_user_data seen) = in_kernel (dr_ring d)"
    using spec by (simp_all add: staged_tokens_def in_kernel_def)
  have k: "kept {#} d" using assms s by simp
  then have sh: "ring_shape r" using spec(5) by (simp add: kept_def ring_owned_def)
  have "kept (mset (map cq_user_data seen)) (d\<lparr>dr_ring := r\<rparr>)"
    by (rule kept_regroup [OF k]) (simp_all add: st ik sh spec(6) del: mset_map)
  from fold_process [of seen "(d\<lparr>dr_ring := r\<rparr>, ready)" env] this
  show ?thesis using s dr by (auto simp: drain_driver_def no_new_def)
qed

text \<open>An invariant of the loop, of the flag it returns and the state: kept by a submission with its failures, by a drain, and by forgetting the deadline.\<close>

lemma flush_loop_invariant:
  fixes I :: "bool \<Rightarrow> driver \<times> ready_events \<Rightarrow> bool"
  assumes "flush_loop env wait saw k s = Some y" and "I saw s"
    and submit: "\<And>saw d ready n r res. I saw (d, ready) \<Longrightarrow> submit_pending (sy_enter env) (dr_clock d) wait (dr_ring d) = Some (n, r, res) \<Longrightarrow>
      (case res of Inl _ \<Rightarrow> I saw (d\<lparr>dr_clock := n, dr_ring := r\<rparr>, ready)
       | Inr out \<Rightarrow> I (saw \<or> so_failures out \<noteq> []) (fold (process_cqe env) (so_failures out) (d\<lparr>dr_clock := n, dr_ring := r\<rparr>, ready)))"
    and drain: "\<And>saw s. I saw s \<Longrightarrow> I (saw \<or> snd (drain_driver env s)) (fst (drain_driver env s))"
    and forget: "\<And>saw s. I saw s \<Longrightarrow> I saw ((fst s)\<lparr>dr_timer_deadline := None\<rparr>, snd s)"
  shows "case snd y of Inr b \<Rightarrow> I b (fst y) | Inl _ \<Rightarrow> \<exists>b. I b (fst y)"
proof -
  let ?good = "\<lambda>y. case snd y of Inr b \<Rightarrow> I b (fst y) | Inl _ \<Rightarrow> \<exists>b. I b (fst y)"
  let ?P = "\<lambda>env' wait' saw (k::nat) s y. env' = env \<longrightarrow> wait' = wait \<longrightarrow> I saw s \<longrightarrow> ?good y"
  have "?P env wait saw k s y"
  proof (rule flush_loop.raw_induct [where P = ?P, OF _ assms(1)], intro impI)
    fix self :: "sysenv \<Rightarrow> bool \<Rightarrow> bool \<Rightarrow> nat \<Rightarrow> driver \<times> ready_events \<Rightarrow> ((driver \<times> ready_events) \<times> (io_error, bool) result) option"
      and env' wait' saw k s y
    assume IH: "\<And>env' wait' saw k s y. self env' wait' saw k s = Some y \<Longrightarrow> ?P env' wait' saw k s y"
      and e: "env' = env" "wait' = wait" and inv: "I saw s"
      and eq: "(case s of (d, ready) \<Rightarrow>
     let had_pending = has_pending_submissions (dr_ring d);
         combined_wait = (wait' \<and> had_pending \<and> ur_submit_all (dr_ring d)) in
     do {
       (n, r, res) \<leftarrow> submit_pending (sy_enter env') (dr_clock d) wait' (dr_ring d);
       let d = d\<lparr>dr_clock := n, dr_ring := r\<rparr>;
       (case res of
          Inl e \<Rightarrow> Some ((d, ready), Err e)
        | Inr out \<Rightarrow>
            let s = fold (process_cqe env') (so_failures out) (d, ready);
                saw_any = (saw \<or> so_failures out \<noteq> []) in
            if so_retry out
            then let (s, drained) = drain_driver env' s;
                     saw_any = (saw_any \<or> drained);
                     transient_retries = k + 1 in
              if wait' \<and> drained then Some (s, Ok True)
              else if \<not> wait' \<and> \<not> drained \<and> 2 \<le> transient_retries then Some (s, Ok saw_any)
              else self env' wait' saw_any transient_retries s
            else case so_error out of
              Some e \<Rightarrow> Some (((fst s)\<lparr>dr_timer_deadline := None\<rparr>, snd s), Err (Os_Error e))
            | None \<Rightarrow>
                if has_pending_submissions (dr_ring (fst s))
                then if so_submitted out = 0 then Some (s, Ok saw_any)
                     else self env' wait' saw_any k s
                else if wait' \<and> had_pending \<and> \<not> combined_wait \<and> \<not> saw_any
                then self env' wait' saw_any k s
                else Some (s, Ok saw_any))
     }) = Some y"
    obtain d ready where s: "s = (d, ready)" by (cases s)
    obtain n r res where sub: "submit_pending (sy_enter env) (dr_clock d) wait (dr_ring d) = Some (n, r, res)"
      using eq s e by (auto simp: Let_def bind_eq_Some_conv)
    note st = submit [OF inv [unfolded s] sub]
    show "?good y"
    proof (cases res)
      case (Inl e)
      then show ?thesis using eq s sub st \<open>env' = env\<close> \<open>wait' = wait\<close> by (auto simp: Let_def)
    next
      case (Inr out)
      let ?s = "fold (process_cqe env) (so_failures out) (d\<lparr>dr_clock := n, dr_ring := r\<rparr>, ready)"
      let ?saw = "saw \<or> so_failures out \<noteq> []"
      have f: "I ?saw ?s" using st Inr by simp
      show ?thesis
      proof (cases "so_retry out")
        case True
        obtain s' dr where dd: "drain_driver env ?s = (s', dr)" by (cases "drain_driver env ?s")
        have g: "I (?saw \<or> dr) s'" using drain [OF f] dd by simp
        have "y = (s', Ok (?saw \<or> dr)) \<or> (\<exists>b. self env wait (?saw \<or> dr) b s' = Some y)"
          using eq s e sub Inr True dd by (auto simp: Let_def split: if_splits)
        then show ?thesis
        proof
          assume "\<exists>b. self env wait (?saw \<or> dr) b s' = Some y"
          then show ?thesis using IH g by blast
        qed (use g in simp)
      next
        case False
        have "y = (?s, Ok ?saw) \<or> (\<exists>e. y = (((fst ?s)\<lparr>dr_timer_deadline := None\<rparr>, snd ?s), Err e)) \<or> (\<exists>b. self env wait ?saw b ?s = Some y)"
          using eq s e sub Inr False by (auto simp: Let_def split: if_splits option.splits)
        then show ?thesis
        proof (elim disjE)
          assume "\<exists>b. self env wait ?saw b ?s = Some y"
          then show ?thesis using IH f by blast
        qed (use f forget [OF f] in auto)
      qed
    qed
  qed
  then show ?thesis using assms(2) by blast
qed

lemma flush_loop_kept:
  assumes "flush_loop env wait saw k s = Some y" and "kernel_ok (sy_enter env)" and "kept {#} (fst s)"
  shows "kept {#} (fst (fst y)) \<and> no_new (fst s) (fst (fst y))"
proof -
  let ?I = "\<lambda>b::bool. \<lambda>t :: driver \<times> ready_events. kept {#} (fst t) \<and> no_new (fst s) (fst t)"
  have "case snd y of Inr b \<Rightarrow> ?I b (fst y) | Inl _ \<Rightarrow> \<exists>b. ?I b (fst y)"
  proof (rule flush_loop_invariant [where I = ?I, OF assms(1)])
    show "?I saw s" using assms(3) by simp
  next
    fix b :: bool and d ready n r res
    assume i: "?I b (d, ready)" and sub: "submit_pending (sy_enter env) (dr_clock d) wait (dr_ring d) = Some (n, r, res)"
    let ?d = "d\<lparr>dr_clock := n, dr_ring := r\<rparr>"
    have own: "ring_owned (case res of Inr out \<Rightarrow> mset (map cq_user_data (so_failures out)) | Inl _ \<Rightarrow> {#}) ?d" and acc: "handlers_accounted ?d"
      using owned_submit [OF assms(2) sub] i by (simp_all add: kept_def handlers_accounted_def)
    have nn: "no_new (fst s) ?d" using submit_pending_clock(1) [OF sub] i by (simp add: no_new_def)
    show "case res of Inl _ \<Rightarrow> ?I b (?d, ready) | Inr out \<Rightarrow> ?I (b \<or> so_failures out \<noteq> []) (fold (process_cqe env) (so_failures out) (?d, ready))"
      using fold_process [of _ "(?d, ready)" env] own acc nn by (auto simp: kept_def split: sum.split intro: no_new_trans)
  next
    fix b :: bool and t assume "?I b t"
    then show "?I (b \<or> snd (drain_driver env t)) (fst (drain_driver env t))" using drain_driver_kept [of t env] no_new_trans by blast
  next
    fix b :: bool and t :: "driver \<times> ready_events" assume i: "?I b t"
    have "kept {#} ((fst t)\<lparr>dr_timer_deadline := None\<rparr>)" by (rule kept_cong [OF conjunct1 [OF i]]) simp_all
    then show "?I b ((fst t)\<lparr>dr_timer_deadline := None\<rparr>, snd t)" using i by (simp add: no_new_def)
  qed
  then show ?thesis by (auto split: sum.splits)
qed

subsection \<open>Messages and the first poll\<close>

text \<open>Submissions outside of \<open>flush_submissions\<close> find neither an operation nor a timer among the staged entries; nothing then reads the failures.\<close>

definition staged_plain :: "uring \<Rightarrow> bool" where
  "staged_plain r \<longleftrightarrow> (\<forall>ow \<in> set (concat (ur_pending r)). \<not> tracked (sq_user_data (ow_sqe ow)))"

definition sends :: "uring \<Rightarrow> uring \<Rightarrow> bool" where
  "sends r r' \<longleftrightarrow> ring_shape r' \<and> staged_plain r' \<and> tracked_mset (in_kernel r') = tracked_mset (in_kernel r) \<and> (ur_poisoned r \<longrightarrow> ur_poisoned r')"

lemma sends_trans: "sends r r1 \<Longrightarrow> sends r1 r2 \<Longrightarrow> sends r r2"
  by (simp add: sends_def)

lemma plain_staged: "staged_plain r \<Longrightarrow> tracked_mset (staged_tokens r) = {#}"
  by (auto simp: staged_plain_def staged_tokens_def)

lemma submit_sends:
  assumes "kernel_ok enter" and "ring_shape r" and "staged_plain r" and "submit_pending enter n wait r = Some (n', r', res)"
  shows "sends r r'"
proof -
  note spec = submit_pending_spec [OF assms(1,2,4)]
  have sub: "set (kernel_took r r') \<subseteq> ow_sqe ` set (concat (ur_pending r)) \<and> set (concat (ur_pending r')) \<subseteq> set (concat (ur_pending r))"
  proof (cases res)
    case (Inl e)
    then obtain j where "ur_pending r' = ur_pending r" "kernel_took r r' = map ow_sqe (take j (concat (ur_pending r)))"
      using spec(1) unfolding submit_exact_def by auto
    then show ?thesis using set_take_subset [of j "concat (ur_pending r)"] by (simp only: set_map image_mono order_refl simp_thms)
  next
    case (Inr out)
    then obtain k where "kernel_took r r' = map ow_sqe (concat (take k (ur_pending r)))" "ur_pending r' = drop k (ur_pending r) \<or> ur_pending r' = []"
      using spec(1) unfolding submit_exact_def by (auto split: if_splits)
    then show ?thesis using set_take_subset [of k "ur_pending r"] set_drop_subset [of k "ur_pending r"] by auto
  qed
  have "tracked_mset (mset (map sq_user_data (kernel_took r r'))) = {#}" using sub assms(3) by (auto simp: staged_plain_def)
  then have "tracked_mset (in_kernel r') = tracked_mset (in_kernel r)" using in_kernel_delivered [OF spec(3)] by (simp del: filter_mset_eq_mempty_iff)
  moreover have "staged_plain r'" using sub assms(3) by (auto simp: staged_plain_def)
  ultimately show ?thesis using spec(2) submit_pending_poisoned(1) [OF assms(1,4)] by (auto simp: sends_def)
qed

lemma flush_immediate_sends:
  assumes "flush_immediate enter n r = Some y" and "kernel_ok enter" and "ring_shape r" and "staged_plain r"
  shows "sends r (fst (snd y))"
proof -
  let ?P = "\<lambda>enter (n::nat) r y. kernel_ok enter \<longrightarrow> ring_shape r \<longrightarrow> staged_plain r \<longrightarrow> sends r (fst (snd y))"
  have "?P enter n r y"
  proof (rule flush_immediate.raw_induct [where P = ?P, OF _ assms(1)], intro impI)
    fix self :: "io_enter \<Rightarrow> nat \<Rightarrow> uring \<Rightarrow> (nat \<times> uring \<times> (io_error, unit) result) option" and enter n r y
    assume IH: "\<And>enter n r y. self enter n r = Some y \<Longrightarrow> ?P enter n r y" and ok: "kernel_ok enter" and r: "ring_shape r" "staged_plain r"
      and eq: "(if has_pending_submissions r
      then do {
        (n, r, res) \<leftarrow> submit_pending enter n False r;
        (case res of
           Inl e \<Rightarrow> Some (n, r, Err e)
         | Inr out \<Rightarrow>
             (case so_error out of
                Some e \<Rightarrow> Some (n, r, Err (Os_Error e))
              | None \<Rightarrow>
                  if so_submitted out = 0 then Some (n, r, Err (Io_Error WouldBlock ''io_uring accepted none of the pending submissions''))
                  else self enter n r))
      }
      else Some (n, r, Ok ())) = Some y"
    show "sends r (fst (snd y))"
    proof (cases "has_pending_submissions r")
      case True
      then obtain n1 r1 res where sub: "submit_pending enter n False r = Some (n1, r1, res)" using eq by (auto simp: bind_eq_Some_conv)
      note one = submit_sends [OF ok r sub]
      have "fst (snd y) = r1 \<or> self enter n1 r1 = Some y" using eq True sub by (auto split: sum.splits option.splits if_splits)
      then show ?thesis using one IH [of enter n1 r1 y] ok by (auto simp: sends_def)
    qed (use eq r in \<open>auto simp: sends_def\<close>)
  qed
  then show ?thesis using assms(2-4) by blast
qed

lemma flush_initial_sends:
  assumes "flush_initial_submissions enter n r = Some y" and "kernel_ok enter" and "ring_shape r" and "staged_plain r"
  shows "sends r (fst (snd y))"
proof -
  let ?P = "\<lambda>enter (n::nat) r y. kernel_ok enter \<longrightarrow> ring_shape r \<longrightarrow> staged_plain r \<longrightarrow> sends r (fst (snd y))"
  have "?P enter n r y"
  proof (rule flush_initial_submissions.raw_induct [where P = ?P, OF _ assms(1)], intro impI)
    fix self :: "io_enter \<Rightarrow> nat \<Rightarrow> uring \<Rightarrow> (nat \<times> uring \<times> (io_error, unit) result) option" and enter n r y
    assume IH: "\<And>enter n r y. self enter n r = Some y \<Longrightarrow> ?P enter n r y" and ok: "kernel_ok enter" and r: "ring_shape r" "staged_plain r"
      and eq: "(if has_pending_submissions r
      then do {
        (n, r, res) \<leftarrow> submit_pending enter n False r;
        (case res of
           Inl e \<Rightarrow> Some (n, r, Err e)
         | Inr out \<Rightarrow>
             if so_retry out then self enter n r
             else (case so_error out of Some e \<Rightarrow> Some (n, r, Err (Os_Error e)) | None \<Rightarrow> self enter n r))
      }
      else Some (n, r, Ok ())) = Some y"
    show "sends r (fst (snd y))"
    proof (cases "has_pending_submissions r")
      case True
      then obtain n1 r1 res where sub: "submit_pending enter n False r = Some (n1, r1, res)" using eq by (auto simp: bind_eq_Some_conv)
      note one = submit_sends [OF ok r sub]
      have "fst (snd y) = r1 \<or> self enter n1 r1 = Some y" using eq True sub by (auto split: sum.splits option.splits if_splits)
      then show ?thesis using one IH [of enter n1 r1 y] ok by (auto simp: sends_def)
    qed (use eq r in \<open>auto simp: sends_def\<close>)
  qed
  then show ?thesis using assms(2-4) by blast
qed

lemma kept_open: "kept {#} d \<Longrightarrow> \<not> ur_poisoned (dr_ring d) \<Longrightarrow> keys d = ops (staged_tokens (dr_ring d)) + ops (in_kernel (dr_ring d))"
  by (simp add: kept_def ring_owned_def)

lemma kept_kernel:
  assumes "kept {#} d"
  shows "ops (in_kernel (dr_ring d)) \<subseteq># keys d"
proof (cases "ur_poisoned (dr_ring d)")
  case True
  then show ?thesis using assms by (simp add: kept_def ring_owned_def)
next
  case False
  show ?thesis unfolding kept_open [OF assms False] by (rule mset_subset_eq_add_right)
qed

lemma kept_sends:
  assumes "kept {#} d" and "staged_plain (dr_ring d)" and "sends (dr_ring d) (dr_ring d')"
    and "dr_completions d' = dr_completions d" "dr_log d' = dr_log d" "dr_timer_token d' = dr_timer_token d" "dr_timer_deadline d' = dr_timer_deadline d"
  shows "kept {#} d'"
proof -
  let ?r = "dr_ring d" and ?r' = "dr_ring d'"
  have s: "ring_shape ?r'" "ur_poisoned ?r \<Longrightarrow> ur_poisoned ?r'" and k: "tracked_mset (in_kernel ?r') = tracked_mset (in_kernel ?r)"
    and p: "staged_plain ?r'" using assms(3) by (auto simp: sends_def)
  have "tracked_mset (staged_tokens ?r' + in_kernel ?r') = tracked_mset (staged_tokens ?r + in_kernel ?r)"
    using k plain_staged [OF assms(2)] plain_staged [OF p] by (simp del: filter_mset_eq_mempty_iff)
  note eq = tracked_eq [OF this]
  note ieq = tracked_eq(1) [OF k]
  have "ops (in_kernel ?r) \<subseteq># keys d" by (rule kept_kernel [OF assms(1)])
  then show ?thesis using assms(1,4-) s eq ieq by (auto simp: kept_def ring_owned_def handlers_accounted_def split: if_splits)
qed

subsection \<open>Runs\<close>

text \<open>The driver with the number of calls made that may take tokens, two at most each. Every step has system calls of its own that keep
  the contract of the kernel; operations do not set the flag that skips the completion.\<close>

record dsys =
  ds_driver :: driver
  ds_calls :: nat

datatype driver_label = SubmitOp sqe nat | SubmitLinked sqe nat nat | CancelOp u64 | Rearm "nat option" | PollDriver | WaitDriver
  | DrainWake | DrainTimer | SendWake notifier | KernelPosts

inductive driver_step :: "dsys \<Rightarrow> driver_label \<Rightarrow> dsys \<Rightarrow> bool" where
  step_submit: "kernel_ok (sy_enter env) \<Longrightarrow> sq_flags q AND IOSQE_CQE_SKIP_SUCCESS = 0 \<Longrightarrow> submit_operation env q h (ds_driver s) = Some (d', res) \<Longrightarrow>
    driver_step s (SubmitOp q h) (s\<lparr>ds_driver := d', ds_calls := ds_calls s + 1\<rparr>)"
| step_linked: "kernel_ok (sy_enter env) \<Longrightarrow> sq_flags q AND IOSQE_CQE_SKIP_SUCCESS = 0 \<Longrightarrow>
    submit_operation_with_linked_timeout env q dur h (ds_driver s) = Some (d', res) \<Longrightarrow>
    driver_step s (SubmitLinked q dur h) (s\<lparr>ds_driver := d', ds_calls := ds_calls s + 1\<rparr>)"
| step_cancel: "kernel_ok (sy_enter env) \<Longrightarrow> cancel_operation env t (ds_driver s) = Some (d', res') \<Longrightarrow>
    driver_step s (CancelOp t) (s\<lparr>ds_driver := d', ds_calls := ds_calls s + 1\<rparr>)"
| step_rearm: "kernel_ok (sy_enter env) \<Longrightarrow> rearm_timer env deadline (ds_driver s) = Some (d', res') \<Longrightarrow>
    driver_step s (Rearm deadline) (s\<lparr>ds_driver := d', ds_calls := ds_calls s + 1\<rparr>)"
| step_poll: "kernel_ok (sy_enter env) \<Longrightarrow> driver_poll env (ds_driver s) = Some (d', ev) \<Longrightarrow> driver_step s PollDriver (s\<lparr>ds_driver := d'\<rparr>)"
| step_wait: "kernel_ok (sy_enter env) \<Longrightarrow> driver_wait env (ds_driver s) = Some (d', res') \<Longrightarrow> driver_step s WaitDriver (s\<lparr>ds_driver := d'\<rparr>)"
| step_drain_wake: "driver_step s DrainWake (s\<lparr>ds_driver := fst (drain_wake (ds_driver s))\<rparr>)"
| step_drain_timer: "driver_step s DrainTimer (s\<lparr>ds_driver := fst (drain_timer (ds_driver s))\<rparr>)"
| step_send: "kernel_ok (sy_enter env) \<Longrightarrow>
    notify_driver env (dr_clock (ds_driver s)) mk writes nt (Some (dr_ring (ds_driver s))) global = Some (n, Some r', global', res') \<Longrightarrow>
    driver_step s (SendWake nt) (s\<lparr>ds_driver := (ds_driver s)\<lparr>dr_ring := r', dr_clock := n\<rparr>\<rparr>)"
| step_kernel: "kernel_effect (dr_ring (ds_driver s)) r' 0 \<Longrightarrow> driver_step s KernelPosts (s\<lparr>ds_driver := (ds_driver s)\<lparr>dr_ring := r'\<rparr>\<rparr>)"

definition fresh_ring :: "uring \<Rightarrow> bool" where
  "fresh_ring r \<longleftrightarrow> ring_shape r \<and> \<not> ur_poisoned r \<and> ur_pending r = [] \<and> ur_held r = {#} \<and> cq_list r = []"

text \<open>A driver as its thread starts with it: created there, or created elsewhere and given a ring of its own.\<close>

definition driver_init :: "dsys \<Rightarrow> bool" where
  "driver_init s \<longleftrightarrow> ds_calls s = 0 \<and> (\<exists>env mk deferred supported fd r d. kernel_ok (sy_enter env) \<and> fresh_ring r
     \<and> create_driver env mk deferred supported fd r = Some (Ok d)
     \<and> (ds_driver s = d \<or> (\<exists>env fd r. kernel_ok (sy_enter env) \<and> fresh_ring r \<and> recreate_ring env fd r d = Some (ds_driver s, Ok ()))))"

definition max_calls :: nat where "max_calls = 2 ^ 55 - 2"

text \<open>The tokens handed out so far are below the next one, and an operation's token was never used before.\<close>

definition tokens_ok :: "nat \<Rightarrow> driver \<Rightarrow> bool" where
  "tokens_ok n d \<longleftrightarrow> unat (dr_next_token d) \<le> 1 + 2 * n \<and> distinct (map fst (registrations (dr_log d)))
     \<and> (\<forall>t \<in> fst ` set (registrations (dr_log d)). \<exists>s. unat s < 2 ^ 56 \<and> unat s < unat (dr_next_token d) \<and> t = make_token Operation s)"

definition driver_inv :: "dsys \<Rightarrow> bool" where
  "driver_inv s \<longleftrightarrow> kept {#} (ds_driver s) \<and> tokens_ok (ds_calls s) (ds_driver s)"

lemma tokens_no_new: "tokens_ok n d \<Longrightarrow> no_new d d' \<Longrightarrow> n \<le> n' \<Longrightarrow> tokens_ok n' d'"
  by (auto simp: tokens_ok_def no_new_def)

lemma flush_submissions_kept:
  assumes "flush_submissions env wait s = Some (s', res)" and "kernel_ok (sy_enter env)" and "kept {#} (fst s)"
  shows "kept {#} (fst s')" "no_new (fst s) (fst s')"
  using flush_loop_kept [OF assms(1) [unfolded flush_submissions_def] assms(2,3)] by simp_all

lemma flush_if_immediate_kept:
  assumes "flush_if_immediate env d = Some (d', res)" and "kernel_ok (sy_enter env)" and "kept {#} d"
  shows "kept {#} d'" "no_new d d'"
proof -
  have "kept {#} d' \<and> no_new d d'"
  proof (cases "dr_defer d")
    case False
    then obtain ready x where "flush_submissions env False (d, no_events) = Some ((d', ready), x)"
      using assms(1) by (auto simp: flush_if_immediate_def bind_eq_Some_conv)
    then show ?thesis using flush_submissions_kept [OF _ assms(2)] assms(3) by fastforce
  qed (use assms in \<open>auto simp: flush_if_immediate_def\<close>)
  then show "kept {#} d'" "no_new d d'" by simp_all
qed

lemma driver_poll_kept:
  assumes "driver_poll env d = Some (d', res)" and "kernel_ok (sy_enter env)" and "kept {#} d"
  shows "kept {#} d'" "no_new d d'"
proof -
  let ?ready = "\<lparr>ready_timer = (dr_pending_timers d \<noteq> 0), ready_wake = (dr_pending_wakes d \<noteq> 0), ready_io = dr_io_completed d\<rparr>"
  obtain s x where f: "flush_submissions env False (d, ?ready) = Some (s, x)"
    using assms(1) by (cases "flush_submissions env False (d, ?ready)") (auto simp: driver_poll_def Let_def)
  have d': "d' = (case x of Inl _ \<Rightarrow> fst s | Inr _ \<Rightarrow> (fst (fst (drain_driver env s)))\<lparr>dr_io_completed := False\<rparr>)"
    using assms(1) f by (auto simp: driver_poll_def Let_def split: sum.splits prod.splits)
  note k = flush_submissions_kept [OF f assms(2)]
  note k = k(1) [simplified, OF assms(3)] k(2) [simplified, OF assms(3)]
  note dk = drain_driver_kept [OF k(1), of env]
  have "kept {#} ((fst (fst (drain_driver env s)))\<lparr>dr_io_completed := False\<rparr>)" by (rule kept_cong [OF conjunct1 [OF dk]]) simp_all
  moreover have "no_new d ((fst (fst (drain_driver env s)))\<lparr>dr_io_completed := False\<rparr>)"
    using k(2) dk by (auto simp: no_new_def)
  ultimately show "kept {#} d'" "no_new d d'" using d' k by (simp_all split: sum.split)
qed

lemma driver_wait_kept:
  assumes "driver_wait env d = Some (d', res)" and "kernel_ok (sy_enter env)" and "kept {#} d"
  shows "kept {#} d'" "no_new d d'"
proof -
  obtain ready x where "flush_submissions env True (d, no_events) = Some ((d', ready), x)"
    using assms(1) by (auto simp: driver_wait_def bind_eq_Some_conv)
  from flush_submissions_kept [OF this assms(2)] show "kept {#} d'" "no_new d d'" using assms(3) by simp_all
qed

text \<open>A new operation: its handler and its request appear together, or not at all.\<close>

lemma kept_register:
  assumes "kept {#} d" and "decode_token_kind t = Some Operation" and "t \<notin># keys d"
    and "mset (map (sq_user_data \<circ> ow_sqe) b) = add_mset t B" and "\<forall>x \<in># B. \<not> tracked x"
    and "dr_ring d' = push_batch b (dr_ring d)" "dr_completions d' = hm_insert t h (dr_completions d)" "dr_log d' = dr_log d @ [Registered t h]"
      "dr_timer_token d' = dr_timer_token d" "dr_timer_deadline d' = dr_timer_deadline d"
  shows "kept {#} d'"
proof -
  have abs: "t \<notin> fst ` set (dr_completions d)" using assms(3) by simp
  have k: "keys d' = add_mset t (keys d)" and dist: "distinct (map fst (dr_completions d')) = distinct (map fst (dr_completions d))"
    using hm_remove_absent [OF abs] abs assms(7) by (simp_all add: hm_insert_def)
  have "ops B = {#}" using assms(5) by (auto simp: tracked_def)
  then have st: "ops (staged_tokens (dr_ring d')) = add_mset t (ops (staged_tokens (dr_ring d)))"
    and mono: "staged_tokens (dr_ring d') = staged_tokens (dr_ring d) + add_mset t B"
    using assms(2,4,6) by (simp_all del: filter_mset_eq_mempty_iff mset_map)
  have "handlers_accounted d'" using assms(1,7,8) hm_remove_absent [OF abs] by (auto simp: kept_def handlers_accounted_def hm_insert_def)
  moreover have "ring_owned {#} d'"
  proof (cases "ur_poisoned (dr_ring d)")
    case True
    have "ops (in_kernel (dr_ring d)) \<subseteq># keys d" by (rule kept_kernel [OF assms(1)])
    also have "\<dots> \<subseteq># keys d'" unfolding k by simp
    finally show ?thesis using True assms(1,6,9,10) dist by (simp add: kept_def ring_owned_def del: mset_map)
  next
    case False
    have ik: "in_kernel (dr_ring d') = in_kernel (dr_ring d)" using assms(6) by simp
    have old: "ops (staged_tokens (dr_ring d)) + ops (in_kernel (dr_ring d)) = keys d" using False assms(1) by (simp add: kept_def ring_owned_def)
    have "ops (staged_tokens (dr_ring d') + in_kernel (dr_ring d')) = keys d'"
      unfolding k old [symmetric] filter_union_mset st ik by (simp only: union_mset_add_mset_left)
    then show ?thesis using False assms(1,6,9,10) dist mono unfolding kept_def ring_owned_def by (auto simp del: mset_map staged_push filter_union_mset)
  qed
  ultimately show ?thesis by (simp add: kept_def)
qed

lemma owned_cong:
  assumes "ring_owned X d" and eq: "dr_ring d' = dr_ring d" "dr_completions d' = dr_completions d" "dr_timer_token d' = dr_timer_token d"
    "dr_timer_deadline d' = dr_timer_deadline d"
  shows "ring_owned X d'"
  using assms(1) unfolding ring_owned_def eq .

lemma keys_registered: "handlers_accounted d \<Longrightarrow> t \<in># keys d \<Longrightarrow> t \<in> fst ` set (registrations (dr_log d))"
proof -
  assume a: "handlers_accounted d" and "t \<in># keys d"
  then obtain h where "(t, h) \<in># mset (dr_completions d)" by auto
  then have "(t, h) \<in># mset (registrations (dr_log d))" using a unfolding handlers_accounted_def by (metis union_iff)
  then show ?thesis by force
qed

lemma token_fresh:
  assumes "tokens_ok n d" and "n \<le> max_calls" and "kept {#} d"
  shows "make_token Operation (dr_next_token d) \<notin> fst ` set (registrations (dr_log d))"
    "make_token Operation (dr_next_token d) \<notin># keys d" "unat (dr_next_token d) + 2 < 2 ^ 56"
proof -
  show b: "unat (dr_next_token d) + 2 < 2 ^ 56" using assms(1,2) by (simp add: tokens_ok_def max_calls_def)
  show new: "make_token Operation (dr_next_token d) \<notin> fst ` set (registrations (dr_log d))"
  proof
    assume "make_token Operation (dr_next_token d) \<in> fst ` set (registrations (dr_log d))"
    then obtain s where "unat s < 2 ^ 56" "unat s < unat (dr_next_token d)" "make_token Operation (dr_next_token d) = make_token Operation s"
      using assms(1) unfolding tokens_ok_def by blast
    then show False using make_token_inj(2) [of Operation "dr_next_token d" Operation s] b by simp
  qed
  show "make_token Operation (dr_next_token d) \<notin># keys d" using new keys_registered assms(3) by (auto simp: kept_def)
qed

lemma finish_staging_kept:
  assumes "finish_staging env t h (r', res) (register_handler t h d) = Some (d', res')" and "kernel_ok (sy_enter env)" and "kept {#} d"
    and "t \<notin># keys d" and "decode_token_kind t = Some Operation"
    and "r' = dr_ring d \<and> (\<exists>e. res = Err e) \<or>
      (\<exists>b B. r' = push_batch b (dr_ring d) \<and> res = Ok () \<and> mset (map (sq_user_data \<circ> ow_sqe) b) = add_mset t B \<and> (\<forall>x \<in># B. \<not> tracked x))"
  shows "kept {#} d' \<and> dr_next_token d' = dr_next_token d \<and> registrations (dr_log d') = registrations (dr_log d) @ [(t, h)]"
proof -
  let ?d = "(register_handler t h d)\<lparr>dr_ring := r', dr_clock := dr_clock (register_handler t h d) + 1\<rparr>"
  have abs: "t \<notin> fst ` set (dr_completions d)" using assms(4) by simp
  consider (fail) e where "r' = dr_ring d" "res = Err e"
    | (ok) b B where "r' = push_batch b (dr_ring d)" "res = Ok ()" "mset (map (sq_user_data \<circ> ow_sqe) b) = add_mset t B" "\<forall>x \<in># B. \<not> tracked x"
    using assms(6) by blast
  then show ?thesis
  proof cases
    case fail
    have d': "d' = withdraw_handler t h ?d" using assms(1) fail by (simp add: finish_staging_def Let_def)
    have same: "dr_completions d' = dr_completions d"
      using hm_remove_absent [OF abs] by (simp add: d' withdraw_handler_def register_handler_def hm_insert_def) (simp add: hm_remove_def)
    have "handlers_accounted d'" using assms(3) same by (auto simp: kept_def handlers_accounted_def d' withdraw_handler_def register_handler_def)
    moreover have "ring_owned {#} d'" by (rule owned_cong [of _ d]) (use assms(3) fail(1) same in \<open>simp_all add: kept_def d' withdraw_handler_def register_handler_def\<close>)
    ultimately show ?thesis by (simp add: kept_def d' withdraw_handler_def register_handler_def)
  next
    case ok
    have k: "kept {#} ?d" by (rule kept_register [OF assms(3,5,4) ok(3,4)]) (simp_all add: register_handler_def ok(1))
    obtain x where f: "flush_if_immediate env ?d = Some (d', x)"
      using assms(1) ok(2) by (auto simp: finish_staging_def Let_def bind_eq_Some_conv)
    show ?thesis using flush_if_immediate_kept [OF f assms(2) k] by (simp add: no_new_def register_handler_def)
  qed
qed

lemma tokens_register:
  assumes "tokens_ok n d" and "n \<le> max_calls" and "kept {#} d" and "dr_next_token d' = dr_next_token d + 1 \<or> dr_next_token d' = dr_next_token d + 2"
    and "registrations (dr_log d') = registrations (dr_log d) @ [(make_token Operation (dr_next_token d), h)]"
  shows "tokens_ok (n + 1) d'"
proof -
  note fr = token_fresh [OF assms(1-3)]
  have "unat (dr_next_token d + 1) = unat (dr_next_token d) + 1" "unat (dr_next_token d + 2) = unat (dr_next_token d) + 2"
    using fr(3) by (simp_all add: unat_word_ariths)
  then have u: "unat (dr_next_token d) < unat (dr_next_token d')" "unat (dr_next_token d') \<le> unat (dr_next_token d) + 2" using assms(4) by auto
  have "\<exists>s. unat s < 2 ^ 56 \<and> unat s < unat (dr_next_token d') \<and> t = make_token Operation s" if "t \<in> fst ` set (registrations (dr_log d'))" for t
  proof (cases "t = make_token Operation (dr_next_token d)")
    case True
    then show ?thesis using u(1) fr(3) by (intro exI [of _ "dr_next_token d"]) simp
  next
    case False
    then have "t \<in> fst ` set (registrations (dr_log d))" using that assms(5) by auto
    then obtain s where "unat s < 2 ^ 56" "unat s < unat (dr_next_token d)" "t = make_token Operation s" using assms(1) unfolding tokens_ok_def by blast
    then show ?thesis using u(1) by (intro exI [of _ s]) simp
  qed
  moreover have "unat (dr_next_token d') \<le> 1 + 2 * (n + 1)" using u(2) assms(1) by (simp add: tokens_ok_def)
  moreover have "distinct (map fst (registrations (dr_log d')))" using fr(1) assms(1,5) by (simp add: tokens_ok_def)
  ultimately show ?thesis by (simp add: tokens_ok_def)
qed

lemma submit_operation_kept:
  assumes "submit_operation env q h d = Some (d', res)" and "kernel_ok (sy_enter env)" and "kept {#} d" and "tokens_ok n d" and "n \<le> max_calls"
  shows "kept {#} d' \<and> tokens_ok (n + 1) d'"
proof (cases "dr_shutting_down d \<or> \<not> dr_supported d (sq_opcode q)")
  case True
  then have "d' = d" using assms(1) by (auto simp: submit_operation_def validate_opcode_def split: if_splits)
  then show ?thesis using assms(3,4) tokens_no_new [of n d d "n + 1"] by simp
next
  case False
  let ?t = "make_token Operation (dr_next_token d)"
  let ?d = "d\<lparr>dr_next_token := dr_next_token d + 1\<rparr>"
  have kd: "kept {#} ?d" by (rule kept_cong [OF assms(3)]) simp_all
  obtain r' x where st: "submit_with_token (sy_dup env (dr_clock d)) ?t q (dr_ring d) = (r', x)" by fastforce
  have eq: "finish_staging env ?t h (r', x) (register_handler ?t h ?d) = Some (d', res)"
    using assms(1) False st by (simp add: submit_operation_def validate_opcode_def next_token_def register_handler_def Let_def)
  have "r' = dr_ring ?d \<and> (\<exists>e. x = Err e) \<or> (\<exists>b B. r' = push_batch b (dr_ring ?d) \<and> x = Ok ()
      \<and> mset (map (sq_user_data \<circ> ow_sqe) b) = add_mset ?t B \<and> (\<forall>y \<in># B. \<not> tracked y))"
    using st by (cases rule: submit_with_token_cases [of "sy_dup env (dr_clock d)" ?t q "dr_ring d"]) (fastforce intro!: exI [of _ "{#}"])+
  from finish_staging_kept [OF eq assms(2) kd _ _ this] token_fresh(2) [OF assms(4,5,3)]
  have "kept {#} d'" "dr_next_token d' = dr_next_token d + 1" "registrations (dr_log d') = registrations (dr_log d) @ [(?t, h)]" by simp_all
  then show ?thesis using tokens_register [OF assms(4,5,3)] by blast
qed

lemma submit_linked_kept:
  assumes "submit_operation_with_linked_timeout env q dur h d = Some (d', res)" and "kernel_ok (sy_enter env)" and "kept {#} d" and "tokens_ok n d" and "n \<le> max_calls"
  shows "kept {#} d' \<and> tokens_ok (n + 1) d'"
proof (cases "dr_shutting_down d \<or> \<not> dr_supported d (sq_opcode q)")
  case True
  then have "d' = d" using assms(1) by (auto simp: submit_operation_with_linked_timeout_def validate_opcode_def split: if_splits)
  then show ?thesis using assms(3,4) tokens_no_new [of n d d "n + 1"] by simp
next
  case False
  let ?t = "make_token Operation (dr_next_token d)" and ?t' = "make_token LinkedTimeout (dr_next_token d + 1)"
  let ?d = "d\<lparr>dr_next_token := dr_next_token d + 2\<rparr>"
  have kd: "kept {#} ?d" by (rule kept_cong [OF assms(3)]) simp_all
  obtain r' x where st: "submit_linked_with_timeout (sy_dup env (dr_clock d)) (sy_address env (dr_clock d)) ?t q ?t' dur (dr_ring d) = (r', x)" by fastforce
  have eq: "finish_staging env ?t h (r', x) (register_handler ?t h ?d) = Some (d', res)"
    using assms(1) False st by (simp add: submit_operation_with_linked_timeout_def validate_opcode_def next_token_def register_handler_def Let_def add.assoc)
  have "r' = dr_ring ?d \<and> (\<exists>e. x = Err e) \<or> (\<exists>b B. r' = push_batch b (dr_ring ?d) \<and> x = Ok ()
      \<and> mset (map (sq_user_data \<circ> ow_sqe) b) = add_mset ?t B \<and> (\<forall>y \<in># B. \<not> tracked y))"
    using st by (cases rule: submit_linked_cases [of "sy_dup env (dr_clock d)" "sy_address env (dr_clock d)" ?t q ?t' dur "dr_ring d"]) (fastforce intro!: exI [of _ "{#?t'#}"])+
  from finish_staging_kept [OF eq assms(2) kd _ _ this] token_fresh(2) [OF assms(4,5,3)]
  have "kept {#} d'" "dr_next_token d' = dr_next_token d + 2" "registrations (dr_log d') = registrations (dr_log d) @ [(?t, h)]" by simp_all
  then show ?thesis using tokens_register [OF assms(4,5,3)] by blast
qed

text \<open>Calls that take tokens without registering a handler.\<close>

definition takes_tokens :: "driver \<Rightarrow> driver \<Rightarrow> bool" where
  "takes_tokens d d' \<longleftrightarrow> dr_next_token d' \<in> {dr_next_token d, dr_next_token d + 1, dr_next_token d + 2} \<and> registrations (dr_log d') = registrations (dr_log d)"

lemma tokens_taken:
  assumes "tokens_ok n d" and "n \<le> max_calls" and "kept {#} d" and "takes_tokens d d'"
  shows "tokens_ok (n + 1) d'"
proof -
  note fr = token_fresh [OF assms(1-3)]
  have "unat (dr_next_token d + 1) = unat (dr_next_token d) + 1" "unat (dr_next_token d + 2) = unat (dr_next_token d) + 2"
    using fr(3) by (simp_all add: unat_word_ariths)
  then have "unat (dr_next_token d) \<le> unat (dr_next_token d')" "unat (dr_next_token d') \<le> unat (dr_next_token d) + 2"
    using assms(4) by (auto simp: takes_tokens_def)
  then show ?thesis using assms(1,4) unfolding tokens_ok_def takes_tokens_def by fastforce
qed

lemma takes_no_new: "takes_tokens d e \<Longrightarrow> no_new e d' \<Longrightarrow> takes_tokens d d'"
  by (simp add: takes_tokens_def no_new_def)

lemma stage_cancel_kept:
  assumes "stage_cancel_operation env t d = (d', res)" and "kept X d"
  shows "kept X d' \<and> takes_tokens d d'"
proof -
  let ?c = "make_token OperationCancel (dr_next_token d)"
  let ?q = "sqe_default\<lparr>sq_opcode := IORING_OP_ASYNC_CANCEL, sq_fd := -1, sq_addr := t\<rparr>"
  show ?thesis
  proof (cases rule: submit_with_token_cases [of "sy_dup env (dr_clock d)" ?c ?q "dr_ring d"])
    case (1 e)
    then have d': "dr_ring d' = dr_ring d" "dr_completions d' = dr_completions d" "dr_log d' = dr_log d" "dr_timer_token d' = dr_timer_token d"
        "dr_timer_deadline d' = dr_timer_deadline d" "dr_next_token d' = dr_next_token d + 1"
      using assms(1) by (auto simp: stage_cancel_operation_def next_token_def Let_def)
    then show ?thesis using kept_cong [OF assms(2)] by (simp add: takes_tokens_def)
  next
    case (2 ow)
    then have d': "dr_ring d' = push_batch [ow] (dr_ring d)" "dr_completions d' = dr_completions d" "dr_log d' = dr_log d" "dr_timer_token d' = dr_timer_token d"
        "dr_timer_deadline d' = dr_timer_deadline d" "dr_next_token d' = dr_next_token d + 1"
      using assms(1) by (auto simp: stage_cancel_operation_def next_token_def Let_def)
    then show ?thesis using kept_push [OF assms(2) d'(1)] 2(2) by (simp add: takes_tokens_def)
  qed
qed

lemma cancel_operation_kept:
  assumes "cancel_operation env t d = Some (d', res)" and "kernel_ok (sy_enter env)" and "kept {#} d" and "tokens_ok n d" and "n \<le> max_calls"
  shows "kept {#} d' \<and> tokens_ok (n + 1) d'"
proof -
  obtain d1 x where st: "stage_cancel_operation env t d = (d1, x)" by fastforce
  note k = stage_cancel_kept [OF st assms(3)]
  have "d' = d1 \<or> (\<exists>y. flush_if_immediate env d1 = Some (d', y))" using assms(1) st by (auto simp: cancel_operation_def split: sum.splits)
  then have "kept {#} d' \<and> takes_tokens d d'" using k flush_if_immediate_kept [OF _ assms(2), of d1] takes_no_new by blast
  then show ?thesis using tokens_taken [OF assms(4,5,3)] by blast
qed

lemma kept_timer:
  assumes "kept {#} d" and "dr_ring d' = push_batch [ow] (dr_ring d)" and "decode_token_kind (sq_user_data (ow_sqe ow)) = Some Timer"
    and "dr_completions d' = dr_completions d" "dr_log d' = dr_log d" and "dr_timer_token d' = Some (sq_user_data (ow_sqe ow))"
  shows "kept {#} d'"
  using assms by (auto simp: kept_def ring_owned_def handlers_accounted_def)

lemma kept_disarm:
  assumes "kept X d" and "dr_ring d' = dr_ring d" "dr_completions d' = dr_completions d" "dr_log d' = dr_log d" "dr_timer_token d' = None" "dr_timer_deadline d' = None"
  shows "kept X d'"
  using assms by (auto simp: kept_def ring_owned_def handlers_accounted_def)

lemma stage_timer_remove_kept:
  obtains d' where "stage_timer_remove env active d = (d', Ok ())" "kept X d \<Longrightarrow> kept X d'" "dr_next_token d' = dr_next_token d + 1" "dr_log d' = dr_log d"
    "dr_timer_token d' = dr_timer_token d" "dr_timer_deadline d' = dr_timer_deadline d"
proof -
  obtain ow where ow: "submit_timeout_remove (sy_dup env (dr_clock d)) active (make_token TimerRemove (dr_next_token d)) (dr_ring d) = (push_batch [ow] (dr_ring d), Ok ())"
      "sq_user_data (ow_sqe ow) = make_token TimerRemove (dr_next_token d)"
    using submit_timer_total(2) by blast
  let ?d = "d\<lparr>dr_next_token := dr_next_token d + 1, dr_ring := push_batch [ow] (dr_ring d), dr_clock := dr_clock d + 1\<rparr>"
  have "kept X ?d" if "kept X d" by (rule kept_push [OF that, of _ "[ow]"]) (simp_all add: ow(2))
  then show ?thesis using that [of ?d] ow(1) by (simp add: stage_timer_remove_def next_token_def Let_def)
qed

lemma stage_timer_push:
  obtains d' ow where "stage_timer env t dl d = (d', Ok ())" "dr_ring d' = push_batch [ow] (dr_ring d)" "sq_user_data (ow_sqe ow) = t"
    "ow_timespec ow = Some (duration_to_kernel_timespec dl)" "dr_completions d' = dr_completions d" "dr_log d' = dr_log d"
    "dr_timer_token d' = dr_timer_token d" "dr_next_token d' = dr_next_token d"
proof -
  obtain ow where ow: "submit_timeout (sy_dup env (dr_clock d)) (sy_address env (dr_clock d)) t dl (dr_ring d) = (push_batch [ow] (dr_ring d), Ok ())"
      "sq_user_data (ow_sqe ow) = t" "ow_timespec ow = Some (duration_to_kernel_timespec dl)"
    using submit_timer_total(1) by blast
  show ?thesis using that [of "d\<lparr>dr_ring := push_batch [ow] (dr_ring d), dr_clock := dr_clock d + 1\<rparr>" ow] ow by (simp add: stage_timer_def)
qed

lemma stage_rearm_kept:
  assumes "stage_rearm env deadline d = (d', res)" and "kept {#} d"
  shows "res = Ok () \<and> kept {#} (d'\<lparr>dr_timer_deadline := deadline\<rparr>) \<and> takes_tokens d d'"
proof (cases "dr_timer_token d")
  case None
  show ?thesis
  proof (cases deadline)
    case (Some dl)
    let ?t = "make_token Timer (dr_next_token d)"
    let ?d = "d\<lparr>dr_next_token := dr_next_token d + 1, dr_timer_token := Some ?t\<rparr>"
    obtain d1 ow where st: "stage_timer env ?t dl ?d = (d1, Ok ())" "dr_ring d1 = push_batch [ow] (dr_ring d)" "sq_user_data (ow_sqe ow) = ?t"
        "dr_completions d1 = dr_completions d" "dr_log d1 = dr_log d" "dr_timer_token d1 = Some ?t" "dr_next_token d1 = dr_next_token d + 1"
      by (rule stage_timer_push [of env ?t dl ?d]) simp
    have "d' = d1" "res = Ok ()" using assms(1) None Some st(1) by (simp_all add: stage_rearm_def next_token_def Let_def)
    moreover have "kept {#} (d1\<lparr>dr_timer_deadline := deadline\<rparr>)" by (rule kept_timer [OF assms(2), of _ ow]) (simp_all add: st)
    ultimately show ?thesis by (simp add: takes_tokens_def st)
  next
    case N: None
    then have "d' = d" "res = Ok ()" using assms(1) None by (simp_all add: stage_rearm_def)
    moreover have "kept {#} (d\<lparr>dr_timer_deadline := None\<rparr>)" by (rule kept_cong [OF assms(2)]) simp_all
    ultimately show ?thesis using N by (simp add: takes_tokens_def)
  qed
next
  case (Some active)
  show ?thesis
  proof (cases deadline)
    case N: None
    let ?d = "d\<lparr>dr_timer_token := None\<rparr>" and ?e = "d\<lparr>dr_timer_token := None, dr_timer_deadline := None\<rparr>"
    have e: "kept {#} ?e" by (rule kept_disarm [OF assms(2)]) simp_all
    obtain d1 where st: "stage_timer_remove env active ?d = (d1, Ok ())" "dr_next_token d1 = dr_next_token d + 1" "dr_log d1 = dr_log d"
      by (rule stage_timer_remove_kept [of env active ?d]) simp
    obtain e1 where se: "stage_timer_remove env active ?e = (e1, Ok ())" "kept {#} e1" by (rule stage_timer_remove_kept [of env active ?e "{#}"]) (use e in simp)
    have "d1\<lparr>dr_timer_deadline := None\<rparr> = e1"
      using st(1) se(1) by (auto simp: stage_timer_remove_def next_token_def Let_def split: prod.splits)
    then show ?thesis using assms(1) Some N st se by (simp add: stage_rearm_def takes_tokens_def)
  next
    case (Some dl)
    obtain d1 where r: "stage_timer_remove env active d = (d1, Ok ())" "kept {#} d1" "dr_next_token d1 = dr_next_token d + 1" "dr_log d1 = dr_log d"
      by (rule stage_timer_remove_kept [of env active d "{#}"]) (use assms(2) in simp)
    let ?t = "make_token Timer (dr_next_token d1)"
    let ?d = "d1\<lparr>dr_next_token := dr_next_token d1 + 1\<rparr>"
    obtain d2 ow where st: "stage_timer env ?t dl ?d = (d2, Ok ())" "dr_ring d2 = push_batch [ow] (dr_ring d1)" "sq_user_data (ow_sqe ow) = ?t"
        "dr_completions d2 = dr_completions d1" "dr_log d2 = dr_log d1" "dr_next_token d2 = dr_next_token d1 + 1"
      by (rule stage_timer_push [of env ?t dl ?d]) simp
    have "d' = d2\<lparr>dr_timer_token := Some ?t\<rparr>" "res = Ok ()"
      using assms(1) \<open>dr_timer_token d = Some active\<close> Some r(1) st(1) by (simp_all add: stage_rearm_def next_token_def Let_def)
    moreover have "kept {#} (d2\<lparr>dr_timer_token := Some ?t, dr_timer_deadline := deadline\<rparr>)" by (rule kept_timer [OF r(2), of _ ow]) (simp_all add: st)
    ultimately show ?thesis by (simp add: takes_tokens_def st r add.assoc)
  qed
qed


lemma rearm_timer_kept:
  assumes "rearm_timer env deadline d = Some (d', res)" and "kernel_ok (sy_enter env)" and "kept {#} d" and "tokens_ok n d" and "n \<le> max_calls"
  shows "kept {#} d' \<and> tokens_ok (n + 1) d'"
proof (cases "dr_timer_deadline d = deadline")
  case True
  then have "d' = d" using assms(1) by (simp add: rearm_timer_def)
  then show ?thesis using assms(3,4) tokens_no_new [of n d d "n + 1"] by simp
next
  case False
  obtain d1 x where st: "stage_rearm env deadline d = (d1, x)" by fastforce
  note k = stage_rearm_kept [OF st assms(3)]
  let ?d = "d1\<lparr>dr_timer_deadline := deadline\<rparr>"
  have "takes_tokens d ?d" using k by (simp add: takes_tokens_def)
  moreover have "flush_if_immediate env ?d = Some (d', res)" using assms(1) False st k by (simp add: rearm_timer_def)
  ultimately have "kept {#} d' \<and> takes_tokens d d'" using k flush_if_immediate_kept [OF _ assms(2), of ?d] takes_no_new by blast
  then show ?thesis using tokens_taken [OF assms(4,5,3)] by blast
qed

lemma kept_idle:
  assumes "ring_shape (dr_ring d)" and "staged_plain (dr_ring d)" and "tracked_mset (in_kernel (dr_ring d)) = {#}"
    and "dr_completions d = []" "dr_log d = []" "dr_timer_token d = None" "dr_timer_deadline d = None"
  shows "kept {#} d"
proof -
  have "ops (in_kernel (dr_ring d)) = {#}" "ops (staged_tokens (dr_ring d)) = {#}"
    using assms(3) plain_staged [OF assms(2)] by (auto simp: tracked_def)
  then show ?thesis using assms by (simp add: kept_def ring_owned_def handlers_accounted_def del: filter_mset_eq_mempty_iff)
qed

lemma fresh_ring_quiet: "fresh_ring r \<Longrightarrow> ring_shape r \<and> staged_plain r \<and> in_kernel r = {#}"
  by (simp add: fresh_ring_def staged_plain_def in_kernel_def)

lemma first_poll_quiet:
  assumes "kernel_ok enter" and "fresh_ring r" and "register_eventfd_poll dup fd r = (r1, Ok x)" and "flush_initial_submissions enter n r1 = Some (n', r', res)"
  shows "ring_shape r' \<and> staged_plain r' \<and> tracked_mset (in_kernel r') = {#}"
proof -
  note q = fresh_ring_quiet [OF assms(2)]
  obtain ow where r1: "r1 = push_batch [ow] r" "sq_user_data (ow_sqe ow) = WAKE_TARGET_TOKEN"
    using assms(3) by (cases rule: submit_with_token_cases [of dup WAKE_TARGET_TOKEN "eventfd_poll fd" r]) (auto simp: register_eventfd_poll_def)
  then have "staged_plain r1" using q by (auto simp: staged_plain_def push_batch_def)
  moreover have "ring_shape r1" using q r1 by simp
  ultimately have "sends r1 r'" using flush_initial_sends [OF assms(4,1)] by simp
  then show ?thesis using q r1 by (simp add: sends_def del: filter_mset_eq_mempty_iff)
qed

definition unused :: "driver \<Rightarrow> bool" where
  "unused d \<longleftrightarrow> dr_completions d = [] \<and> dr_log d = [] \<and> dr_timer_token d = None \<and> dr_timer_deadline d = None \<and> dr_next_token d = 1"

lemma new_driver_unused: "unused (new_driver r supported target wake_fd deferred n)" "dr_ring (new_driver r supported target wake_fd deferred n) = r"
  by (simp_all add: unused_def new_driver_def)

lemma create_driver_kept:
  assumes "create_driver env mk deferred supported fd r = Some (Ok d)" and "kernel_ok (sy_enter env)" and "fresh_ring r"
  shows "kept {#} d \<and> unused d"
proof -
  have "unused d \<and> ring_shape (dr_ring d) \<and> staged_plain (dr_ring d) \<and> tracked_mset (in_kernel (dr_ring d)) = {#}"
  proof (cases "supported IORING_OP_MSG_RING")
    case True
    then show ?thesis using assms(1) fresh_ring_quiet [OF assms(3)] by (auto simp: create_driver_def new_driver_unused split: sum.splits)
  next
    case False
    note eq = assms(1) [unfolded create_driver_def if_not_P [OF False]]
    obtain event_fd nfd r1 where a: "mk = Inr event_fd" "sy_dup env 0 event_fd = Inr nfd" "register_eventfd_poll (sy_dup env 1) event_fd r = (r1, Inr ())"
      using eq by (auto split: sum.splits prod.splits)
    then obtain n' r' y where b: "flush_initial_submissions (sy_enter env) 2 r1 = Some (n', r', y)" using eq by (auto simp: bind_eq_Some_conv)
    have "d = new_driver r' supported (EventFd nfd) (Some event_fd) deferred n'" using eq a b by (cases y) simp_all
    then show ?thesis using first_poll_quiet [OF assms(2,3) a(3) b] new_driver_unused by simp
  qed
  then show ?thesis using kept_idle [of d] by (auto simp: unused_def simp del: filter_mset_eq_mempty_iff)
qed

lemma recreate_ring_kept:
  assumes "recreate_ring env fd r d = Some (d', Ok x)" and "kernel_ok (sy_enter env)" and "fresh_ring r" and "unused d"
  shows "kept {#} d' \<and> unused d'"
proof -
  have "unused d' \<and> ring_shape (dr_ring d') \<and> staged_plain (dr_ring d') \<and> tracked_mset (in_kernel (dr_ring d')) = {#}"
  proof (cases "dr_supported d IORING_OP_MSG_RING")
    case True
    then show ?thesis using assms(1,4) fresh_ring_quiet [OF assms(3)] by (auto simp: recreate_ring_def unused_def split: sum.splits)
  next
    case False
    note eq = assms(1) [unfolded recreate_ring_def if_not_P [OF False]]
    obtain event_fd r1 where a: "dr_wake_fd d = Some event_fd" "register_eventfd_poll (sy_dup env (dr_clock d)) event_fd r = (r1, Inr ())"
      using eq by (auto split: sum.splits prod.splits option.splits)
    then obtain n' r' z where b: "flush_initial_submissions (sy_enter env) (dr_clock d + 1) r1 = Some (n', r', z)" using eq by (auto simp: bind_eq_Some_conv)
    have "dr_ring d' = r' \<and> unused d'" using eq a b assms(4) by (cases z; cases "sy_dup env n' event_fd") (auto simp: unused_def)
    then show ?thesis using first_poll_quiet [OF assms(2,3) a(2) b] by simp
  qed
  then show ?thesis using kept_idle [of d'] by (auto simp: unused_def simp del: filter_mset_eq_mempty_iff)
qed

lemma notify_kept:
  assumes "notify_driver env n mk writes nt (Some (dr_ring d)) global = Some (n', Some r', global', res)" and "kernel_ok (sy_enter env)" and "kept {#} d"
  shows "kept {#} (d\<lparr>dr_ring := r', dr_clock := c\<rparr>)"
proof (cases "r' = dr_ring d")
  case True
  show ?thesis by (rule kept_cong [OF assms(3)]) (simp_all add: True)
next
  case False
  then obtain fd where pend: "ur_pending (dr_ring d) = []"
    and on: "submit_on (sy_enter env) (n + 1) (submit_msg_ring (sy_dup env n) fd WAKE_TARGET_TOKEN 1 (make_token NotifySend 0)) (dr_ring d) = Some (n', r', res)"
    using assms(1) by (auto simp: notify_driver_def with_submitter_def has_pending_submissions_def bind_eq_Some_conv split: if_splits option.splits wake_target.splits)
  let ?q = "sqe_default\<lparr>sq_opcode := IORING_OP_MSG_RING, sq_flags := skip_flags (dr_ring d), sq_fd := fd, sq_off := WAKE_TARGET_TOKEN, sq_addr := 0,
        sq_len := 1, sq_user_data := make_token NotifySend 0\<rparr>"
  obtain ow where ow: "submit_msg_ring (sy_dup env n) fd WAKE_TARGET_TOKEN 1 (make_token NotifySend 0) (dr_ring d) = (push_batch [ow] (dr_ring d), Ok ())"
      "sq_user_data (ow_sqe ow) = make_token NotifySend 0"
    using on False by (cases rule: push_sqe_cases [of "sy_dup env n" None ?q "dr_ring d"]) (auto simp: submit_on_def submit_msg_ring_def)
  let ?e = "d\<lparr>dr_ring := push_batch [ow] (dr_ring d)\<rparr>"
  have k: "kept {#} ?e" by (rule kept_push [OF assms(3), of _ "[ow]"]) (simp_all add: ow(2))
  have p: "staged_plain (dr_ring ?e)" using pend ow(2) by (auto simp: staged_plain_def push_batch_def)
  have "flush_immediate (sy_enter env) (n + 1) (dr_ring ?e) = Some (n', r', res)" using on ow(1) by (simp add: submit_on_def)
  from flush_immediate_sends [OF this assms(2)] have "sends (dr_ring ?e) r'" using p k by (simp add: kept_def ring_owned_def)
  then show ?thesis by (intro kept_sends [OF k p]) simp_all
qed

inductive_cases driver_stepE: "driver_step s l t"

interpretation lds: bounded_system driver_init driver_step ds_calls max_calls driver_inv
proof
  fix s assume "driver_init s"
  then have "kept {#} (ds_driver s) \<and> unused (ds_driver s)" "ds_calls s = 0"
    using create_driver_kept recreate_ring_kept unfolding driver_init_def by metis+
  then show "driver_inv s" by (simp add: driver_inv_def tokens_ok_def unused_def)
next
  fix s l t assume "driver_step s l t"
  then show "ds_calls s \<le> ds_calls t" by (rule driver_stepE) simp_all
next
  fix s l t assume inv: "driver_inv s" and st: "driver_step s l t" and b: "ds_calls s \<le> max_calls"
  have k: "kept {#} (ds_driver s)" and tk: "tokens_ok (ds_calls s) (ds_driver s)" using inv by (simp_all add: driver_inv_def)
  from st show "driver_inv t"
  proof cases
    case (step_submit env q h d' res)
    then show ?thesis using submit_operation_kept [OF _ _ k tk b] by (simp add: driver_inv_def)
  next
    case (step_linked env q dur h d' res)
    then show ?thesis using submit_linked_kept [OF _ _ k tk b] by (simp add: driver_inv_def)
  next
    case (step_cancel env tok d' res)
    then show ?thesis using cancel_operation_kept [OF _ _ k tk b] by (simp add: driver_inv_def)
  next
    case (step_rearm env deadline d' res)
    then show ?thesis using rearm_timer_kept [OF _ _ k tk b] by (simp add: driver_inv_def)
  next
    case (step_poll env d' ev)
    then show ?thesis using driver_poll_kept [OF _ _ k] tokens_no_new [OF tk] by (simp add: driver_inv_def)
  next
    case (step_wait env d' res)
    then show ?thesis using driver_wait_kept [OF _ _ k] tokens_no_new [OF tk] by (simp add: driver_inv_def)
  next
    case step_drain_wake
    have "kept {#} (fst (drain_wake (ds_driver s)))" by (rule kept_cong [OF k]) (simp_all add: drain_wake_def)
    then show ?thesis using step_drain_wake tokens_no_new [OF tk, of "fst (drain_wake (ds_driver s))"] by (simp add: driver_inv_def drain_wake_def no_new_def)
  next
    case step_drain_timer
    have "kept {#} (fst (drain_timer (ds_driver s)))" by (rule kept_cong [OF k]) (simp_all add: drain_timer_def)
    then show ?thesis using step_drain_timer tokens_no_new [OF tk, of "fst (drain_timer (ds_driver s))"] by (simp add: driver_inv_def drain_timer_def no_new_def)
  next
    case (step_send env mk writes nt global n r' global' res)
    then show ?thesis using notify_kept [OF _ _ k] tk by (simp add: driver_inv_def tokens_ok_def)
  next
    case (step_kernel r')
    let ?r = "dr_ring (ds_driver s)"
    have took: "kernel_took ?r r' = []" using step_kernel(3) kernel_effect_head kernel_took_nothing by fastforce
    have r': "ur_pending r' = ur_pending ?r" "ring_shape r' = ring_shape ?r" "ur_poisoned r' = ur_poisoned ?r" "cq_delivered ?r r'"
      using step_kernel(3) by (auto simp: kernel_effect_def ring_shape_def)
    have del: "tracked_mset (in_kernel r') = tracked_mset (in_kernel ?r)" using in_kernel_delivered [OF r'(4)] took by simp
    have "kept {#} ((ds_driver s)\<lparr>dr_ring := r'\<rparr>)"
    proof -
      have st: "staged_tokens r' = staged_tokens ?r" using r'(1) by (simp add: staged_tokens_def)
      have "tracked_mset (staged_tokens r' + in_kernel r') = tracked_mset (staged_tokens ?r + in_kernel ?r)" using st del by simp
      from tracked_eq [OF this] tracked_eq(1) [OF del] show ?thesis using k r' by (auto simp: kept_def ring_owned_def handlers_accounted_def split: if_splits)
    qed
    then show ?thesis using step_kernel tokens_no_new [OF tk] by (simp add: driver_inv_def no_new_def)
  qed
qed

subsection \<open>Shutdown releases nothing the kernel may use\<close>

lemma stage_cancels_kept:
  assumes "stage_cancels env ts d = (d', res)" and "kept X d"
  shows "kept X d'"
  using assms
proof (induction ts arbitrary: d)
  case (Cons t ts)
  obtain d1 x where st: "stage_cancel_operation env t d = (d1, x)" by fastforce
  then show ?case using Cons.prems Cons.IH stage_cancel_kept [OF st Cons.prems(2)] by (auto split: if_splits sum.splits)
qed simp

lemma quiesce_loop_kept:
  assumes "quiesce_loop env d = Some y" and "kernel_ok (sy_enter env)" and "kept {#} d"
  shows "kept {#} (fst y) \<and> (\<forall>x. snd y = Ok x \<longrightarrow> dr_completions (fst y) = [])"
proof -
  let ?P = "\<lambda>env d y. kernel_ok (sy_enter env) \<longrightarrow> kept {#} d \<longrightarrow> kept {#} (fst y) \<and> (\<forall>x. snd y = Ok x \<longrightarrow> dr_completions (fst y) = [])"
  have "?P env d y"
  proof (rule quiesce_loop.raw_induct [where P = ?P, OF _ assms(1)], intro impI)
    fix self :: "sysenv \<Rightarrow> driver \<Rightarrow> (driver \<times> (io_error, unit) result) option" and env d y
    assume IH: "\<And>env d y. self env d = Some y \<Longrightarrow> ?P env d y" and ok: "kernel_ok (sy_enter env)" and k: "kept {#} d"
      and eq: "(do {
     (s, res) \<leftarrow> flush_submissions env False (d, no_events);
     (case res of
        Inl e \<Rightarrow> Some (fst s, Err e)
      | Inr _ \<Rightarrow>
          let d = fst (fst (drain_driver env s)) in
          if dr_completions d = [] then Some (d, Ok ())
          else if sy_expired env (dr_clock d) then Some (d, Err (Io_Error TimedOut ''timed out quiescing io_uring operations during driver shutdown''))
          else self env (d\<lparr>dr_clock := dr_clock d + 1\<rparr>))
   }) = Some y"
    obtain s res where f: "flush_submissions env False (d, no_events) = Some (s, res)" using eq by (auto simp: bind_eq_Some_conv)
    have s: "kept {#} (fst s)" using flush_submissions_kept(1) [OF f ok] k by simp
    let ?d = "fst (fst (drain_driver env s))"
    have d: "kept {#} ?d" using drain_driver_kept [OF s, of env] by simp
    have "kept {#} (?d\<lparr>dr_clock := dr_clock ?d + 1\<rparr>)" by (rule kept_cong [OF d]) simp_all
    then show "kept {#} (fst y) \<and> (\<forall>x. snd y = Ok x \<longrightarrow> dr_completions (fst y) = [])"
      using eq f s d IH [of env "?d\<lparr>dr_clock := dr_clock ?d + 1\<rparr>" y] ok by (auto simp: Let_def split: sum.splits if_splits)
  qed
  then show ?thesis using assms(2,3) by blast
qed

lemma quiesce_operations_kept:
  assumes "quiesce_operations env d = Some (d', res)" and "kernel_ok (sy_enter env)" and "kept {#} d"
  shows "kept {#} d' \<and> (\<forall>x. res = Ok x \<longrightarrow> dr_completions d' = [])"
proof (cases "dr_completions d = []")
  case False
  obtain d1 x where st: "stage_cancels env (sy_order env (map fst (dr_completions d))) d = (d1, x)" by fastforce
  have k: "kept {#} d1" by (rule stage_cancels_kept [OF st assms(3)])
  show ?thesis
  proof (cases x)
    case (Inl e)
    then show ?thesis using assms(1) False st k by (auto simp: quiesce_operations_def)
  next
    case (Inr u)
    then have "quiesce_loop env d1 = Some (d', res)" using assms(1) False st by (simp add: quiesce_operations_def)
    from quiesce_loop_kept [OF this assms(2) k] show ?thesis by simp
  qed
qed (use assms in \<open>auto simp: quiesce_operations_def\<close>)

subsection \<open>Submission returns\<close>

definition settled :: "io_enter \<Rightarrow> nat \<Rightarrow> bool" where
  "settled enter N \<longleftrightarrow> (\<forall>n \<ge> N. \<forall>r ts mn. snd (enter n r ts mn) = Ok ts)"

lemma enter_loop_settled:
  assumes "settled enter N" and "N \<le> n"
  shows "enter_loop enter n r ts mn = Some (n + 1, fst (enter n r ts mn), Ok ts)"
proof -
  have "snd (enter n r ts mn) = Ok ts" using assms by (simp add: settled_def)
  then show ?thesis by (cases "enter n r ts mn", subst enter_loop.simps) simp
qed

lemma submit_pending_settled:
  assumes "settled enter N" and "N \<le> n" and "submit_pending enter n wait r = Some (n', r', Ok out)"
  shows "\<not> so_retry out \<and> so_error out = None"
proof -
  have fin: "\<not> so_retry out \<and> so_error out = None" if "finish_submit h bc tp r2 (Inr k) = (r', Ok out)" for h bc tp r2 k
    using that by (auto simp: finish_submit_def outcome_complete_def Let_def split: if_splits prod.splits)
  show ?thesis using assms(3) fin
    by (auto simp: submit_pending_def Let_def enter_without_submission_def enter_loop_settled [OF assms(1,2)] outcome_complete_def split: if_splits sum.splits)
qed

lemma submit_pending_total: "settled enter N \<Longrightarrow> \<exists>y. submit_pending enter n wait r = Some y"
  using submit_pending_returns [of enter "max n N" n wait r] by (auto simp: settled_def)

text \<open>One turn of the loop: it returns, unless it goes on in a state that does not.\<close>

lemma flush_loop_turn:
  assumes "submit_pending (sy_enter env) (dr_clock d) wait (dr_ring d) = Some (n, r, res)"
    and "\<And>out saw k s'. res = Ok out \<Longrightarrow> so_retry out \<Longrightarrow>
      s' = fst (drain_driver env (fold (process_cqe env) (so_failures out) (d\<lparr>dr_clock := n, dr_ring := r\<rparr>, ready))) \<Longrightarrow> flush_loop env wait saw k s' \<noteq> None"
    and "\<And>out saw k s'. res = Ok out \<Longrightarrow> \<not> so_retry out \<Longrightarrow> so_error out = None \<Longrightarrow>
      s' = fold (process_cqe env) (so_failures out) (d\<lparr>dr_clock := n, dr_ring := r\<rparr>, ready) \<Longrightarrow>
      so_submitted out \<noteq> 0 \<or> wait \<and> has_pending_submissions (dr_ring d) \<and> \<not> has_pending_submissions (dr_ring (fst s')) \<Longrightarrow> flush_loop env wait saw k s' \<noteq> None"
  shows "flush_loop env wait saw k (d, ready) \<noteq> None"
proof (cases res)
  case (Inl e)
  then show ?thesis using assms(1) by (subst flush_loop.simps) (simp add: Let_def)
next
  case (Inr out)
  let ?s = "fold (process_cqe env) (so_failures out) (d\<lparr>dr_clock := n, dr_ring := r\<rparr>, ready)"
  show ?thesis
  proof (cases "so_retry out")
    case True
    obtain s' dr where dd: "drain_driver env ?s = (s', dr)" by (cases "drain_driver env ?s")
    then have "flush_loop env wait saw k s' \<noteq> None" for saw k using assms(2) [OF Inr True] by simp
    then show ?thesis using assms(1) Inr True dd by (subst flush_loop.simps) (simp add: Let_def)
  next
    case False
    show ?thesis
    proof (cases "so_error out")
      case None
      have rec: "flush_loop env wait saw k ?s \<noteq> None"
        if "so_submitted out \<noteq> 0 \<or> wait \<and> has_pending_submissions (dr_ring d) \<and> \<not> has_pending_submissions (dr_ring (fst ?s))" for saw k
        using assms(3) [OF Inr False None refl that] .
      show ?thesis using assms(1) Inr False None rec by (subst flush_loop.simps) (auto simp: Let_def)
    next
      case (Some e)
      then show ?thesis using assms(1) Inr False by (subst flush_loop.simps) (simp add: Let_def)
    qed
  qed
qed

text \<open>Once the kernel takes everything, each turn that goes on takes a batch.\<close>

lemma flush_settled:
  assumes "settled (sy_enter env) N" and "kernel_ok (sy_enter env)" and "ring_shape (dr_ring d)" and "N \<le> dr_clock d"
  shows "flush_loop env wait saw k (d, ready) \<noteq> None"
  using assms(3,4)
proof (induction "length (ur_pending (dr_ring d))" arbitrary: d saw k rule: less_induct)
  case less
  obtain n r res where sub: "submit_pending (sy_enter env) (dr_clock d) wait (dr_ring d) = Some (n, r, res)"
    using submit_pending_total [OF assms(1)] by (metis prod_cases3)
  note spec = submit_pending_spec [OF assms(2) less.prems(1) sub]
  show ?case
  proof (rule flush_loop_turn [OF sub])
    fix out saw k s'
    assume "res = Ok out" "so_retry out"
    then show "flush_loop env wait saw k s' \<noteq> None" using submit_pending_settled [OF assms(1) less.prems(2)] sub by blast
  next
    fix out saw k s'
    assume a: "res = Ok out" "\<not> so_retry out" "so_error out = None" "s' = fold (process_cqe env) (so_failures out) (d\<lparr>dr_clock := n, dr_ring := r\<rparr>, ready)"
      "so_submitted out \<noteq> 0 \<or> wait \<and> has_pending_submissions (dr_ring d) \<and> \<not> has_pending_submissions (dr_ring (fst s'))"
    obtain j where j: "so_submitted out = length (concat (take j (ur_pending (dr_ring d))))" "ur_pending r = drop j (ur_pending (dr_ring d))" "so_failures out = []"
      using spec(1) a(1,3) by (auto simp: submit_exact_def)
    have s': "s' = (d\<lparr>dr_clock := n, dr_ring := r\<rparr>, ready)" using a(4) j(3) by simp
    have "length (ur_pending r) < length (ur_pending (dr_ring d))"
    proof (cases "so_submitted out = 0")
      case True
      then show ?thesis using a(5) s' by (auto simp: has_pending_submissions_def)
    next
      case False
      then have "j \<noteq> 0" "ur_pending (dr_ring d) \<noteq> []" using j(1) by (auto intro: gr0I)
      then show ?thesis using j(2) by simp
    qed
    then show "flush_loop env wait saw k s' \<noteq> None"
      unfolding s' by (intro less.hyps) (use spec(2) less.prems(2) submit_pending_clock(1) [OF sub] in auto)
  qed
qed

lemma flush_returns:
  assumes "settled (sy_enter env) N" and "kernel_ok (sy_enter env)" and "kept {#} d"
  shows "flush_loop env wait saw k (d, ready) \<noteq> None"
  using assms(3)
proof (induction "N - dr_clock d" arbitrary: d saw k ready rule: less_induct)
  case less
  show ?case
  proof (cases "N \<le> dr_clock d")
    case True
    then show ?thesis using flush_settled [OF assms(1,2)] less.prems by (auto simp: kept_def ring_owned_def)
  next
    case False
    obtain n r res where sub: "submit_pending (sy_enter env) (dr_clock d) wait (dr_ring d) = Some (n, r, res)"
      using submit_pending_total [OF assms(1)] by (metis prod_cases3)
    let ?s = "\<lambda>out. fold (process_cqe env) (so_failures out) (d\<lparr>dr_clock := n, dr_ring := r\<rparr>, ready)"
    have own: "ring_owned (case res of Inr out \<Rightarrow> mset (map cq_user_data (so_failures out)) | Inl _ \<Rightarrow> {#}) (d\<lparr>dr_clock := n, dr_ring := r\<rparr>)"
      using owned_submit [OF assms(2) sub] less.prems by (simp add: kept_def)
    have acc: "handlers_accounted (d\<lparr>dr_clock := n, dr_ring := r\<rparr>)" using less.prems by (simp add: kept_def handlers_accounted_def)
    have k: "kept {#} (fst (?s out))" "n \<le> dr_clock (fst (?s out))" if "res = Ok out" for out
      using fold_process [of "so_failures out" "(d\<lparr>dr_clock := n, dr_ring := r\<rparr>, ready)" env] own acc that by (auto simp: kept_def no_new_def)
    have rec: "flush_loop env wait saw k s' \<noteq> None" if "kept {#} (fst s')" "n \<le> dr_clock (fst s')" "dr_clock d < n" for saw k s'
      using less.hyps [of "fst s'" saw k "snd s'"] that False by simp
    show ?thesis
    proof (rule flush_loop_turn [OF sub])
      fix out saw k s'
      assume "res = Ok out" "so_retry out" "s' = fst (drain_driver env (?s out))"
      then show "flush_loop env wait saw k s' \<noteq> None"
        using rec [of s'] k drain_driver_kept [of "?s out" env] submit_pending_clock(2) [OF sub] by (fastforce simp: no_new_def)
    next
      fix out saw k s'
      assume "res = Ok out" "s' = ?s out" "so_submitted out \<noteq> 0 \<or> wait \<and> has_pending_submissions (dr_ring d) \<and> \<not> has_pending_submissions (dr_ring (fst s'))"
      then show "flush_loop env wait saw k s' \<noteq> None" using rec [of s'] k submit_pending_clock(2) [OF sub] by blast
    qed
  qed
qed

lemma flush_submissions_returns:
  assumes "settled (sy_enter env) N" and "kernel_ok (sy_enter env)" and "kept {#} d"
  obtains s res where "flush_submissions env wait (d, ready) = Some (s, res)" "kept {#} (fst s)" "dr_clock d \<le> dr_clock (fst s)"
proof -
  obtain s res where f: "flush_submissions env wait (d, ready) = Some (s, res)"
    using flush_returns [OF assms, of wait False 0 ready] by (auto simp: flush_submissions_def)
  show ?thesis using that [OF f] flush_submissions_kept [OF f assms(2)] assms(3) by (simp add: no_new_def)
qed

lemma quiesce_loop_returns:
  assumes "settled (sy_enter env) N" and "kernel_ok (sy_enter env)" and "\<forall>n \<ge> M. sy_expired env n" and "kept {#} d"
  shows "quiesce_loop env d \<noteq> None"
  using assms(4)
proof (induction "M - dr_clock d" arbitrary: d rule: less_induct)
  case less
  obtain s res where f: "flush_submissions env False (d, no_events) = Some (s, res)" "kept {#} (fst s)" "dr_clock d \<le> dr_clock (fst s)"
    by (rule flush_submissions_returns [OF assms(1,2) less.prems])
  let ?d = "fst (fst (drain_driver env s))"
  have d: "kept {#} ?d" "dr_clock d \<le> dr_clock ?d" using drain_driver_kept [OF f(2), of env] f(3) by (auto simp: no_new_def)
  have "quiesce_loop env (?d\<lparr>dr_clock := dr_clock ?d + 1\<rparr>) \<noteq> None" if "\<not> sy_expired env (dr_clock ?d)"
  proof (rule less.hyps)
    have "dr_clock ?d < M" using assms(3) that by (meson not_le)
    then show "M - dr_clock (?d\<lparr>dr_clock := dr_clock ?d + 1\<rparr>) < M - dr_clock d" using d(2) by simp
    show "kept {#} (?d\<lparr>dr_clock := dr_clock ?d + 1\<rparr>)" by (rule kept_cong [OF d(1)]) simp_all
  qed
  then show ?case using f(1) by (subst quiesce_loop.simps) (auto simp: Let_def split: sum.split)
qed

lemma quiesce_operations_returns:
  assumes "settled (sy_enter env) N" and "kernel_ok (sy_enter env)" and "\<forall>n \<ge> M. sy_expired env n" and "kept {#} d"
  shows "quiesce_operations env d \<noteq> None"
proof -
  obtain d1 x where st: "stage_cancels env (sy_order env (map fst (dr_completions d))) d = (d1, x)" by fastforce
  have "quiesce_loop env d1 \<noteq> None" by (rule quiesce_loop_returns [OF assms(1-3) stage_cancels_kept [OF st assms(4)]])
  then show ?thesis using st by (simp add: quiesce_operations_def split: sum.split)
qed

lemma close_driver_kept: "kept {#} d \<Longrightarrow> kept {#} (close_driver d)"
  by (erule kept_cong) (simp_all add: close_driver_def)

subsection \<open>What a poll reports\<close>












text \<open>A failing \<open>fcntl\<close> while the poll of the eventfd is staged again ends cross-thread wakes: the ring keeps no request for them, and only a wake stages one.\<close>

lemma eventfd_wake_lost:
  assumes "dr_wake_fd d = Some fd" and "0 \<le> fd" and "sy_dup env (dr_clock d) fd = Err e" and "cq_user_data c = WAKE_TARGET_TOKEN"
  shows "dr_ring (fst (process_cqe env c (d, ready))) = dr_ring d"
proof -
  have "prepare_sqe (sy_dup env (dr_clock d)) None (eventfd_poll fd\<lparr>sq_user_data := WAKE_TARGET_TOKEN\<rparr>) = Err e"
    using assms(2,3) by (simp add: prepare_sqe_def duplicate_sqe_fd_def eventfd_poll_def uses_descriptor_def IORING_OP_POLL_ADD_def)
  then show ?thesis using assms by (simp add: process_cqe_def take_wakes_def submit_with_token_def push_sqe_def)
qed

subsection \<open>Properties\<close>

text \<open>A driver with messages on an empty ring, system calls that succeed, and a read operation.\<close>

definition demo_env :: sysenv where
  "demo_env = \<lparr>sy_enter = demo_enter, sy_dup = (\<lambda>_ fd. Ok (fd + 100)), sy_reads = (\<lambda>_. [Err EAGAIN]), sy_address = (\<lambda>_. 0), sy_order = rev,
     sy_expired = (\<lambda>n. 50 \<le> n)\<rparr>"

definition demo_driver :: driver where
  "demo_driver = new_driver (demo_ring\<lparr>ur_pending := []\<rparr>) (\<lambda>_. True) (MsgRing 103) None True 1"

definition driver_demo :: dsys where
  "driver_demo = \<lparr>ds_driver = demo_driver, ds_calls = 0\<rparr>"

definition demo_read :: sqe where
  "demo_read = sqe_default\<lparr>sq_opcode := 22, sq_fd := 9, sq_len := 64\<rparr>"

lemma demo_env_ok: "kernel_ok (sy_enter demo_env)" "settled (sy_enter demo_env) 0"
  using demo_enter_ok by (simp_all add: demo_env_def settled_def demo_enter_def Let_def)

lemma driver_demo_init: "driver_init driver_demo"
proof -
  have "fresh_ring (demo_ring\<lparr>ur_pending := []\<rparr>)"
    using demo_ring_shape by (simp add: fresh_ring_def ring_shape_def) (simp add: demo_ring_def cq_list_def)
  moreover have "create_driver demo_env (Err 0) True (\<lambda>_. True) 3 (demo_ring\<lparr>ur_pending := []\<rparr>) = Some (Ok demo_driver)"
    by (simp add: create_driver_def demo_env_def demo_driver_def)
  ultimately show ?thesis using demo_env_ok(1) unfolding driver_init_def driver_demo_def by (metis dsys.select_convs(1) dsys.select_convs(2))
qed

lemma demo_submitted: "\<exists>s. run driver_step driver_demo [SubmitOp demo_read 7] s \<and> ds_calls s = 1 \<and> calls (dr_log (ds_driver s)) = []
  \<and> dr_completions (ds_driver s) = [(make_token Operation 1, 7)] \<and> dr_defer (ds_driver s) \<and> dr_timer_deadline (ds_driver s) = None"
proof -
  obtain d' res where sub: "submit_operation demo_env demo_read 7 demo_driver = Some (d', res)"
      and d': "calls (dr_log d') = []" "dr_completions d' = [(make_token Operation 1, 7)]" "dr_defer d'" "dr_timer_deadline d' = None"
    by (simp add: submit_operation_def demo_driver_def new_driver_def validate_opcode_def next_token_def register_handler_def hm_insert_def hm_remove_def
        finish_staging_def submit_with_token_def push_sqe_def prepare_sqe_def duplicate_sqe_fd_def demo_env_def demo_read_def uses_descriptor_def sqe_default_def
        flush_if_immediate_def Let_def)
  have q: "sq_flags demo_read AND IOSQE_CQE_SKIP_SUCCESS = 0" by (simp add: demo_read_def sqe_default_def)
  have "driver_step driver_demo (SubmitOp demo_read 7) (driver_demo\<lparr>ds_driver := d', ds_calls := ds_calls driver_demo + 1\<rparr>)"
    by (rule step_submit [OF demo_env_ok(1) q]) (use sub in \<open>simp add: driver_demo_def\<close>)
  then show ?thesis using run_single d' by (intro exI [of _ "driver_demo\<lparr>ds_driver := d', ds_calls := ds_calls driver_demo + 1\<rparr>"]) (auto simp: driver_demo_def)
qed

text \<open>(C11) Memory the kernel may write stays allocated. In every reachable state each operation the kernel holds, or whose completion is
  still unread, has its handler, which owns its buffers, registered exactly once, through short submissions, failed
  submissions, cancellations and the closing of the ring after a split batch. While the ring is open no operation is lost either:
  the registered handlers are exactly those of the operations that are staged, held by the kernel, or completed and unread.\<close>

theorem driver_storage_owned:
  assumes "driver_init s0" and "run driver_step s0 ls s" and "ds_calls s \<le> max_calls"
  shows "ops (in_kernel (dr_ring (ds_driver s))) \<subseteq># keys (ds_driver s) \<and> distinct (map fst (dr_completions (ds_driver s)))
    \<and> (\<not> ur_poisoned (dr_ring (ds_driver s)) \<longrightarrow>
       keys (ds_driver s) = ops (staged_tokens (dr_ring (ds_driver s))) + ops (in_kernel (dr_ring (ds_driver s))))"
proof -
  have k: "kept {#} (ds_driver s)" using lds.inv_reachable [OF assms] by (simp add: driver_inv_def)
  then have "distinct (map fst (dr_completions (ds_driver s)))" by (simp add: kept_def ring_owned_def)
  then show ?thesis using kept_kernel [OF k] kept_open [OF k] by blast
qed

theorem driver_storage_owned_witness:
  "\<exists>s. run driver_step driver_demo [SubmitOp demo_read 7] s \<and> keys (ds_driver s) = {#make_token Operation 1#}
    \<and> ops (in_kernel (dr_ring (ds_driver s))) \<subseteq># keys (ds_driver s)"
proof -
  obtain s where s: "run driver_step driver_demo [SubmitOp demo_read 7] s" "ds_calls s = 1" "dr_completions (ds_driver s) = [(make_token Operation 1, 7)]"
    using demo_submitted by blast
  have "ds_calls s \<le> max_calls" by (simp add: s(2) max_calls_def)
  from driver_storage_owned [OF driver_demo_init s(1) this] show ?thesis using s(1,3) by auto
qed

text \<open>(C37) Every handler is used once. No two registrations share a token; each has been called once, with the completion that
  carries its token, or withdrawn because staging its request failed, or is still registered.\<close>

theorem driver_handlers_once:
  assumes "driver_init s0" and "run driver_step s0 ls s" and "ds_calls s \<le> max_calls"
  shows "distinct (map fst (registrations (dr_log (ds_driver s))))
    \<and> mset (registrations (dr_log (ds_driver s))) =
       mset (calls (dr_log (ds_driver s))) + mset (withdrawals (dr_log (ds_driver s))) + mset (dr_completions (ds_driver s))
    \<and> (\<forall>t h c. Called t h c \<in> set (dr_log (ds_driver s)) \<longrightarrow> cq_user_data c = t)"
  using lds.inv_reachable [OF assms] by (simp add: driver_inv_def kept_def handlers_accounted_def tokens_ok_def)

theorem driver_handlers_once_witness:
  "\<exists>s. run driver_step driver_demo [SubmitOp demo_read 7] s \<and> mset (registrations (dr_log (ds_driver s))) =
       mset (withdrawals (dr_log (ds_driver s))) + {#(make_token Operation 1, 7)#}"
proof -
  obtain s where s: "run driver_step driver_demo [SubmitOp demo_read 7] s" "ds_calls s = 1" "calls (dr_log (ds_driver s)) = []"
      "dr_completions (ds_driver s) = [(make_token Operation 1, 7)]"
    using demo_submitted by blast
  have "ds_calls s \<le> max_calls" by (simp add: s(2) max_calls_def)
  from driver_handlers_once [OF driver_demo_init s(1) this] show ?thesis using s(1,3,4) by auto
qed

text \<open>(C12) Shutdown is safe. Dropping a driver releases its ring only when the kernel holds no operation and every handler has been
  called or withdrawn; otherwise it leaks the handlers of all operations that were not completed, in particular of all the kernel
  still holds. It returns, if the kernel takes submissions from some point on and the second it waits passes.\<close>

theorem driver_drop_safe:
  assumes "driver_init s0" and "run driver_step s0 ls s" and "ds_calls s \<le> max_calls" and "kernel_ok (sy_enter env)"
    and "settled (sy_enter env) N" and "\<forall>n \<ge> M. sy_expired env n"
  shows "\<exists>d' fin. driver_drop env (ds_driver s) = Some (d', fin) \<and>
    (case fin of
       Released \<Rightarrow> ops (in_kernel (dr_ring d')) = {#} \<and> mset (registrations (dr_log d')) = mset (calls (dr_log d')) + mset (withdrawals (dr_log d'))
     | Leaked l \<Rightarrow> ops (in_kernel (dr_ring d')) \<subseteq># mset (map fst l)
         \<and> mset (registrations (dr_log d')) = mset (calls (dr_log d')) + mset (withdrawals (dr_log d')) + mset l)"
proof -
  have "kept {#} (ds_driver s)" using lds.inv_reachable [OF assms(1-3)] by (simp add: driver_inv_def)
  then have k: "kept {#} (close_driver (ds_driver s))" by (rule close_driver_kept)
  obtain d res where q: "quiesce_operations env (close_driver (ds_driver s)) = Some (d, res)"
    using quiesce_operations_returns [OF assms(5,4,6) k] by fastforce
  note qk = quiesce_operations_kept [OF q assms(4) k]
  have own: "ops (in_kernel (dr_ring d)) \<subseteq># keys d" using qk kept_kernel by blast
  have acc: "mset (registrations (dr_log d)) = mset (calls (dr_log d)) + mset (withdrawals (dr_log d)) + mset (dr_completions d)"
    using qk by (simp add: kept_def handlers_accounted_def)
  show ?thesis
  proof (cases res)
    case (Inl e)
    then have "driver_drop env (ds_driver s) = Some (d\<lparr>dr_completions := []\<rparr>, Leaked (dr_completions d))"
      using q by (simp add: driver_drop_def leak_kernel_referenced_storage_def)
    then show ?thesis using own acc by simp
  next
    case (Inr x)
    then have "driver_drop env (ds_driver s) = Some (d, Released)" "dr_completions d = []" using q qk by (simp_all add: driver_drop_def)
    then show ?thesis using own acc by simp
  qed
qed

theorem driver_drop_safe_witness:
  "\<exists>s d' fin. run driver_step driver_demo [SubmitOp demo_read 7] s \<and> driver_drop demo_env (ds_driver s) = Some (d', fin) \<and>
    (case fin of Released \<Rightarrow> ops (in_kernel (dr_ring d')) = {#} | Leaked l \<Rightarrow> ops (in_kernel (dr_ring d')) \<subseteq># mset (map fst l))"
proof -
  obtain s where s: "run driver_step driver_demo [SubmitOp demo_read 7] s" "ds_calls s = 1" using demo_submitted by blast
  have b: "ds_calls s \<le> max_calls" by (simp add: s(2) max_calls_def)
  have "\<forall>n \<ge> 50. sy_expired demo_env n" by (simp add: demo_env_def)
  from driver_drop_safe [OF driver_demo_init s(1) b demo_env_ok this]
  obtain d' fin where drop: "driver_drop demo_env (ds_driver s) = Some (d', fin)" and
    "case fin of Released \<Rightarrow> ops (in_kernel (dr_ring d')) = {#} \<and> mset (registrations (dr_log d')) = mset (calls (dr_log d')) + mset (withdrawals (dr_log d'))
     | Leaked l \<Rightarrow> ops (in_kernel (dr_ring d')) \<subseteq># mset (map fst l)
         \<and> mset (registrations (dr_log d')) = mset (calls (dr_log d')) + mset (withdrawals (dr_log d')) + mset l" by blast
  then have "case fin of Released \<Rightarrow> ops (in_kernel (dr_ring d')) = {#} | Leaked l \<Rightarrow> ops (in_kernel (dr_ring d')) \<subseteq># mset (map fst l)"
    by (cases fin) simp_all
  with drop show ?thesis using s(1) by blast
qed



text \<open>(C40) The driver does not spin for ever. However often the kernel interrupts submissions, defers them for want of memory, or takes only a part
  of them, polling and waiting return once it takes what it is given.\<close>

theorem driver_poll_returns:
  assumes "driver_init s0" and "run driver_step s0 ls s" and "ds_calls s \<le> max_calls" and "kernel_ok (sy_enter env)" and "settled (sy_enter env) N"
  shows "(\<exists>d' res. driver_poll env (ds_driver s) = Some (d', res)) \<and> (\<exists>d' res. driver_wait env (ds_driver s) = Some (d', res))"
proof -
  let ?ready = "\<lparr>ready_timer = (dr_pending_timers (ds_driver s) \<noteq> 0), ready_wake = (dr_pending_wakes (ds_driver s) \<noteq> 0), ready_io = dr_io_completed (ds_driver s)\<rparr>"
  have k: "kept {#} (ds_driver s)" using lds.inv_reachable [OF assms(1-3)] by (simp add: driver_inv_def)
  obtain x res where "flush_submissions env False (ds_driver s, ?ready) = Some (x, res)" by (rule flush_submissions_returns [OF assms(5,4) k])
  then have "driver_poll env (ds_driver s) \<noteq> None" by (simp add: driver_poll_def Let_def)
  moreover obtain x' res' where "flush_submissions env True (ds_driver s, no_events) = Some (x', res')" by (rule flush_submissions_returns [OF assms(5,4) k])
  then have "driver_wait env (ds_driver s) \<noteq> None" by (cases x') (simp add: driver_wait_def)
  ultimately show ?thesis by fastforce
qed

theorem driver_poll_returns_witness:
  "\<exists>s d' res. run driver_step driver_demo [SubmitOp demo_read 7] s \<and> driver_poll demo_env (ds_driver s) = Some (d', res)"
proof -
  obtain s where s: "run driver_step driver_demo [SubmitOp demo_read 7] s" "ds_calls s = 1" using demo_submitted by blast
  have b: "ds_calls s \<le> max_calls" by (simp add: s(2) max_calls_def)
  from driver_poll_returns [OF driver_demo_init s(1) b demo_env_ok] show ?thesis using s(1) by blast
qed



end
